(* ===== verification/GJ_Prelude.thy ===== *)
theory GJ_Prelude
  imports Main "HOL-Library.Word"
begin

text \<open>
  Shared vocabulary of the GreenJade development: the fixed-width integer types of
  \<^verbatim>\<open>kernel/include/gj/types.h\<close>, the status codes of
  \<^verbatim>\<open>kernel/include/gj/error.h\<close>, the collections of rewrite rules the component
  theories add to, and the generic facts on words, lists and sums that their proofs share.
\<close>

unbundle bit_operations_syntax

section \<open>Types of the source\<close>

type_synonym u8 = "8 word"
type_synonym u16 = "16 word"
type_synonym u32 = "32 word"
type_synonym u64 = "64 word"

text \<open>
  A C pointer to a kernel structure is \<open>None\<close> (NULL) or \<open>Some\<close> of the address of the
  structure in the store of its type.
\<close>

type_synonym ptr = "nat option"

text \<open>The status codes of \<^verbatim>\<open>gj_status_t\<close>, in the order of the header.\<close>

datatype gj_status =
    GJ_OK
  | GJ_ERR_INVAL
  | GJ_ERR_NOMEM
  | GJ_ERR_NOENT
  | GJ_ERR_PERM
  | GJ_ERR_AGAIN
  | GJ_ERR_NOSUPPORT
  | GJ_ERR_BUSY
  | GJ_ERR_FAULT
  | GJ_ERR_DEAD
  | GJ_ERR_STALE_CAP
  | GJ_ERR_QUOTA
  | GJ_ERR_TIMEOUT
  | GJ_ERR_PEER_DEAD
  | GJ_ERR_REVOKED
  | GJ_ERR_NODEV
  | GJ_ERR_IO

text \<open>The integer each status code has in the header.\<close>

fun status_code :: "gj_status \<Rightarrow> int" where
  "status_code GJ_OK = 0"
| "status_code GJ_ERR_INVAL = -1"
| "status_code GJ_ERR_NOMEM = -2"
| "status_code GJ_ERR_NOENT = -3"
| "status_code GJ_ERR_PERM = -4"
| "status_code GJ_ERR_AGAIN = -5"
| "status_code GJ_ERR_NOSUPPORT = -6"
| "status_code GJ_ERR_BUSY = -7"
| "status_code GJ_ERR_FAULT = -8"
| "status_code GJ_ERR_DEAD = -9"
| "status_code GJ_ERR_STALE_CAP = -10"
| "status_code GJ_ERR_QUOTA = -11"
| "status_code GJ_ERR_TIMEOUT = -12"
| "status_code GJ_ERR_PEER_DEAD = -13"
| "status_code GJ_ERR_REVOKED = -14"
| "status_code GJ_ERR_NODEV = -15"
| "status_code GJ_ERR_IO = -16"

section \<open>Collections\<close>

named_theorems frame_simps "fields an operation leaves unchanged"
named_theorems wf_intros "operations that keep a well-formedness invariant"
named_theorems acct_simps "accounting equations of the operations"

section \<open>Generic facts\<close>

lemma status_code_inject: "status_code a = status_code b \<longleftrightarrow> a = b"
  by (cases a; cases b; simp)

lemma unat_inc: "w + 1 \<noteq> 0 \<Longrightarrow> unat (w + 1) = Suc (unat w)"
  for w :: "'a :: len word"
  by (metis add.commute unatSuc)

lemma less_inc_nonzero: "a < b \<Longrightarrow> a + 1 \<noteq> 0"
  for a b :: "'a :: len word"
proof
  assume "a < b" and "a + 1 = 0"
  then have "a = - 1" by (simp add: eq_neg_iff_add_eq_0)
  with \<open>a < b\<close> show False using word_order.extremum_strict [of b] by simp
qed

lemma unat_eq_iff: "unat a = unat b \<longleftrightarrow> a = b"
  by (simp only: word_unat_eq_iff [symmetric])

lemma unat_dec: "0 < w \<Longrightarrow> unat (w - 1) = unat w - 1"
  for w :: "'a :: len word"
  by (simp add: unat_minus_one word_greater_zero_iff)

lemma page_offset_mod: "pa AND 4095 = pa mod 4096" for pa :: u64
proof -
  have "pa AND 4095 = pa AND mask 12" by (simp add: mask_eq_exp_minus_1)
  also have "\<dots> = pa mod 4096" by (simp only: take_bit_eq_mask [symmetric] take_bit_eq_mod) simp
  finally show ?thesis .
qed

lemma unat_page_offset: "unat (pa AND 4095) = unat pa mod 4096" for pa :: u64
  by (simp add: page_offset_mod unat_mod)

lemma unat_page_floor: "unat (a AND NOT 4095) = unat a - unat a mod 4096" for a :: u64
proof -
  have "a AND NOT 4095 = a AND NOT (a AND 4095)" by (auto simp: bit_eq_iff bit_simps)
  also have "\<dots> = a - (a AND 4095)" by (rule disjunctive_diff [symmetric]) (simp add: bit_simps)
  finally have e: "a AND NOT 4095 = a - (a AND 4095)" .
  have "a AND 4095 \<le> a" by (simp add: word_le_nat_alt unat_page_offset)
  from unat_sub [OF this] show ?thesis by (simp only: e unat_page_offset)
qed

lemma length_filter_update:
  "n < length xs \<Longrightarrow>
     length (filter P (xs[n := y])) + of_bool (P (xs ! n)) = length (filter P xs) + of_bool (P y)"
proof (induction xs arbitrary: n)
  case (Cons x xs)
  then show ?case by (cases n) auto
qed simp

lemma sum_update_one:
  fixes f g :: "'a \<Rightarrow> nat"
  assumes "finite A" and "a \<in> A" and "\<And>x. x \<in> A \<Longrightarrow> x \<noteq> a \<Longrightarrow> g x = f x" and "g a + m = f a + n"
  shows "sum g A + m = sum f A + n"
proof -
  have "sum g (A - {a}) = sum f (A - {a})" using assms(3) by (intro sum.cong) auto
  then show ?thesis using assms by (simp add: sum.remove [of A a])
qed

end
