(* ===== verification/Cap_Quota.thy ===== *)
theory Cap_Quota
  imports GJ_Prelude
begin

text \<open>
  The slot-quota ledger of \<^verbatim>\<open>kernel/cap/cnode.c\<close> (\<^verbatim>\<open>gj_cap_quota_*\<close>): one account
  per process, with an optional parent account; a charge or a refund runs along the parent
  chain, at most \<^verbatim>\<open>GJ_CAP_QUOTA_DEPTH_MAX\<close> accounts deep.  The accounts live in a store
  from addresses to accounts, so that several children may share a parent.
\<close>

section \<open>The ledger\<close>

record gj_cap_quota =
  q_u32Limit :: u32
  q_u32Used :: u32
  q_u32Exhaust :: u32
  q_u32HighWater :: u32
  q_u32ChargeOk :: u32
  q_u32RefundOk :: u32
  q_pParent :: ptr

type_synonym quotas = "nat \<Rightarrow> gj_cap_quota"

abbreviation (input) GJ_CAP_QUOTA_DEPTH_MAX :: nat where
  "GJ_CAP_QUOTA_DEPTH_MAX \<equiv> 8"

definition gj_cap_quota_init :: "quotas \<Rightarrow> ptr \<Rightarrow> u32 \<Rightarrow> quotas" where
  "gj_cap_quota_init qs pQ u32Limit =
     (case pQ of
        None \<Rightarrow> qs
      | Some q \<Rightarrow> qs(q := \<lparr>q_u32Limit = u32Limit, q_u32Used = 0, q_u32Exhaust = 0,
                             q_u32HighWater = 0, q_u32ChargeOk = 0, q_u32RefundOk = 0,
                             q_pParent = None\<rparr>))"

text \<open>The ancestor walk of \<^verbatim>\<open>gj_cap_quota_set_parent\<close>: does \<open>q\<close> occur within the depth?\<close>

fun quota_walk_hits :: "nat \<Rightarrow> quotas \<Rightarrow> ptr \<Rightarrow> nat \<Rightarrow> bool" where
  "quota_walk_hits 0 qs pWalk q = False"
| "quota_walk_hits (Suc d) qs None q = False"
| "quota_walk_hits (Suc d) qs (Some w) q =
     (if w = q then True else quota_walk_hits d qs (q_pParent (qs w)) q)"

definition gj_cap_quota_set_parent :: "quotas \<Rightarrow> ptr \<Rightarrow> ptr \<Rightarrow> quotas" where
  "gj_cap_quota_set_parent qs pQ pParent =
     (case pQ of
        None \<Rightarrow> qs
      | Some q \<Rightarrow>
         (case pParent of
            None \<Rightarrow> qs(q := (qs q)\<lparr>q_pParent := None\<rparr>)
          | Some p \<Rightarrow>
              if p = q then qs
              else if quota_walk_hits GJ_CAP_QUOTA_DEPTH_MAX qs (Some p) q then qs
              else qs(q := (qs q)\<lparr>q_pParent := Some p\<rparr>)))"

definition gj_cap_quota_used :: "quotas \<Rightarrow> ptr \<Rightarrow> u32" where
  "gj_cap_quota_used qs pQ = (case pQ of None \<Rightarrow> 0 | Some q \<Rightarrow> q_u32Used (qs q))"

definition gj_cap_quota_limit :: "quotas \<Rightarrow> ptr \<Rightarrow> u32" where
  "gj_cap_quota_limit qs pQ = (case pQ of None \<Rightarrow> 0 | Some q \<Rightarrow> q_u32Limit (qs q))"

definition gj_cap_quota_highwater :: "quotas \<Rightarrow> ptr \<Rightarrow> u32" where
  "gj_cap_quota_highwater qs pQ = (case pQ of None \<Rightarrow> 0 | Some q \<Rightarrow> q_u32HighWater (qs q))"

definition gj_cap_quota_exhaust_count :: "quotas \<Rightarrow> ptr \<Rightarrow> u32" where
  "gj_cap_quota_exhaust_count qs pQ = (case pQ of None \<Rightarrow> 0 | Some q \<Rightarrow> q_u32Exhaust (qs q))"

text \<open>
  \<^verbatim>\<open>gj_cap_quota_slot_charge\<close>: the first pass looks for the first account of the chain with
  no room; only when there is none does the second pass commit.
\<close>

fun charge_check :: "nat \<Rightarrow> quotas \<Rightarrow> ptr \<Rightarrow> ptr" where
  "charge_check 0 qs pWalk = None"
| "charge_check (Suc d) qs None = None"
| "charge_check (Suc d) qs (Some w) =
     (if q_u32Limit (qs w) \<le> q_u32Used (qs w) then Some w
      else charge_check d qs (q_pParent (qs w)))"

definition charge_one :: "gj_cap_quota \<Rightarrow> gj_cap_quota" where
  "charge_one a =
     (let used = q_u32Used a + 1
      in a\<lparr>q_u32Used := used,
           q_u32HighWater := (if q_u32HighWater a < used then used else q_u32HighWater a),
           q_u32ChargeOk := q_u32ChargeOk a + 1\<rparr>)"

text \<open>The leaf-to-root loop that both the charge and the refund run over the chain.\<close>

fun quota_commit :: "(gj_cap_quota \<Rightarrow> gj_cap_quota) \<Rightarrow> nat \<Rightarrow> quotas \<Rightarrow> ptr \<Rightarrow> quotas" where
  "quota_commit f 0 qs pWalk = qs"
| "quota_commit f (Suc d) qs None = qs"
| "quota_commit f (Suc d) qs (Some w) =
     quota_commit f d (qs(w := f (qs w))) (q_pParent (qs w))"

definition gj_cap_quota_slot_charge :: "quotas \<Rightarrow> ptr \<Rightarrow> gj_status \<times> quotas" where
  "gj_cap_quota_slot_charge qs pAccount =
     (case pAccount of
        None \<Rightarrow> (GJ_OK, qs)
      | Some q \<Rightarrow>
         (case charge_check GJ_CAP_QUOTA_DEPTH_MAX qs (Some q) of
            Some w \<Rightarrow> (GJ_ERR_QUOTA, qs(w := (qs w)\<lparr>q_u32Exhaust := q_u32Exhaust (qs w) + 1\<rparr>))
          | None \<Rightarrow> (GJ_OK, quota_commit charge_one GJ_CAP_QUOTA_DEPTH_MAX qs (Some q))))"

definition refund_one :: "gj_cap_quota \<Rightarrow> gj_cap_quota" where
  "refund_one a =
     (if 0 < q_u32Used a
      then a\<lparr>q_u32Used := q_u32Used a - 1, q_u32RefundOk := q_u32RefundOk a + 1\<rparr>
      else a)"

definition gj_cap_quota_slot_refund :: "quotas \<Rightarrow> ptr \<Rightarrow> gj_status \<times> quotas" where
  "gj_cap_quota_slot_refund qs pAccount =
     (case pAccount of
        None \<Rightarrow> (GJ_OK, qs)
      | Some q \<Rightarrow> (GJ_OK, quota_commit refund_one GJ_CAP_QUOTA_DEPTH_MAX qs (Some q)))"

section \<open>Specification vocabulary\<close>

text \<open>The accounts a charge visits, in order.\<close>

fun quota_chain :: "nat \<Rightarrow> quotas \<Rightarrow> ptr \<Rightarrow> nat list" where
  "quota_chain 0 qs pWalk = []"
| "quota_chain (Suc d) qs None = []"
| "quota_chain (Suc d) qs (Some w) = w # quota_chain d qs (q_pParent (qs w))"

text \<open>No account occurs twice within the depth a charge walks.\<close>

definition quota_acyclic :: "quotas \<Rightarrow> bool" where
  "quota_acyclic qs \<longleftrightarrow> (\<forall>q. distinct (quota_chain GJ_CAP_QUOTA_DEPTH_MAX qs (Some q)))"

text \<open>Every account is within its limit, and its high-water mark covers its use.\<close>

definition quota_within :: "quotas \<Rightarrow> bool" where
  "quota_within qs \<longleftrightarrow>
     (\<forall>q. q_u32Used (qs q) \<le> q_u32Limit (qs q) \<and> q_u32Used (qs q) \<le> q_u32HighWater (qs q))"

definition quota_ok :: "quotas \<Rightarrow> bool" where
  "quota_ok qs \<longleftrightarrow> quota_acyclic qs \<and> quota_within qs"

text \<open>Apply a change to each account of a list of distinct addresses.\<close>

definition upd_all :: "(gj_cap_quota \<Rightarrow> gj_cap_quota) \<Rightarrow> nat list \<Rightarrow> quotas \<Rightarrow> quotas" where
  "upd_all f ws qs = (\<lambda>a. if a \<in> set ws then f (qs a) else qs a)"

text \<open>The \<open>k\<close>-th ancestor of an account.\<close>

fun anc :: "nat \<Rightarrow> quotas \<Rightarrow> ptr \<Rightarrow> ptr" where
  "anc 0 qs p = p"
| "anc (Suc k) qs p = (case p of None \<Rightarrow> None | Some w \<Rightarrow> anc k qs (q_pParent (qs w)))"

text \<open>A ledger for the examples: account 0 under account 1, account 2 full.\<close>

definition wit_quotas :: quotas where
  "wit_quotas = (\<lambda>a. \<lparr>q_u32Limit = 4, q_u32Used = (if a = 2 then 4 else 1), q_u32Exhaust = 0,
     q_u32HighWater = 4, q_u32ChargeOk = 0, q_u32RefundOk = 0,
     q_pParent = (if a = 0 then Some 1 else None)\<rparr>)"

section \<open>The walks as list operations\<close>

lemma quota_walk_hits_chain: "quota_walk_hits d qs p q \<longleftrightarrow> q \<in> set (quota_chain d qs p)"
  by (induction d qs p rule: quota_chain.induct) auto

lemma charge_check_None:
  "charge_check d qs p = None \<longleftrightarrow>
     (\<forall>w \<in> set (quota_chain d qs p). q_u32Used (qs w) < q_u32Limit (qs w))"
  by (induction d qs p rule: charge_check.induct) (auto simp: not_le)

lemma charge_check_Some:
  "charge_check d qs p = Some w \<Longrightarrow>
     w \<in> set (quota_chain d qs p) \<and> q_u32Limit (qs w) \<le> q_u32Used (qs w)"
  by (induction d qs p rule: charge_check.induct) (auto split: if_splits)

text \<open>The chain depends on the parent pointers of the accounts on it only.\<close>

lemma quota_chain_cong:
  "(\<And>a. a \<in> set (quota_chain d qs p) \<Longrightarrow> q_pParent (qs' a) = q_pParent (qs a)) \<Longrightarrow>
     quota_chain d qs' p = quota_chain d qs p"
  by (induction d qs p rule: quota_chain.induct) auto

lemma charge_one_parent [simp]: "q_pParent (charge_one a) = q_pParent a"
  by (simp add: charge_one_def Let_def)

lemma refund_one_parent [simp]: "q_pParent (refund_one a) = q_pParent a"
  by (simp add: refund_one_def)

lemma quota_commit_upd_all:
  assumes par: "\<And>a. q_pParent (f a) = q_pParent a"
  shows "distinct (quota_chain d qs p) \<Longrightarrow>
    quota_commit f d qs p = upd_all f (quota_chain d qs p) qs"
proof (induction d arbitrary: qs p)
  case 0
  then show ?case by (simp add: upd_all_def)
next
  case (Suc d)
  show ?case
  proof (cases p)
    case None
    then show ?thesis by (simp add: upd_all_def)
  next
    case (Some w)
    let ?qs = "qs(w := f (qs w))"
    have ch: "quota_chain d ?qs (q_pParent (qs w)) = quota_chain d qs (q_pParent (qs w))"
      by (rule quota_chain_cong) (simp add: par)
    from Suc.prems Some have "distinct (quota_chain d ?qs (q_pParent (qs w)))"
      by (simp add: ch)
    then have "quota_commit f d ?qs (q_pParent (qs w))
        = upd_all f (quota_chain d qs (q_pParent (qs w))) ?qs"
      by (simp only: Suc.IH ch)
    also have "\<dots> = upd_all f (quota_chain (Suc d) qs p) qs"
      using Suc.prems Some by (intro ext) (auto simp: upd_all_def)
    finally show ?thesis using Some by simp
  qed
qed

section \<open>Short cycles\<close>

lemma anc_None [simp]: "anc k qs None = None"
  by (cases k) simp_all

lemma anc_add: "anc (i + j) qs p = anc j qs (anc i qs p)"
  by (induction i arbitrary: p) (auto split: option.splits)

lemma set_quota_chain: "y \<in> set (quota_chain d qs p) \<longleftrightarrow> (\<exists>k<d. anc k qs p = Some y)"
proof (induction d arbitrary: p)
  case (Suc d)
  show ?case
  proof (cases p)
    case (Some w)
    have "(\<exists>k<Suc d. anc k qs p = Some y) \<longleftrightarrow>
        w = y \<or> (\<exists>k<d. anc k qs (q_pParent (qs w)) = Some y)"
      using Some by (simp add: Ex_less_Suc2)
    with Some Suc show ?thesis by auto
  qed simp
qed simp

lemma distinct_quota_chainI:
  assumes "\<And>y k. 0 < k \<Longrightarrow> k < d \<Longrightarrow> anc k qs (Some y) \<noteq> Some y"
  shows "distinct (quota_chain d qs p)"
  using assms
proof (induction d arbitrary: p)
  case (Suc d)
  have IH: "distinct (quota_chain d qs p')" for p'
    by (rule Suc.IH) (simp add: Suc.prems)
  show ?case
  proof (cases p)
    case (Some w)
    have "anc (Suc k) qs (Some w) \<noteq> Some w" if "k < d" for k
      using that by (intro Suc.prems) simp_all
    with Some IH show ?thesis by (auto simp: set_quota_chain)
  qed simp
qed simp

lemma quota_chain_no_return:
  "distinct (quota_chain d qs (Some y)) \<Longrightarrow> 0 < k \<Longrightarrow> k < d \<Longrightarrow> anc k qs (Some y) \<noteq> Some y"
  by (cases d; cases k) (auto simp: set_quota_chain)

lemma quota_acyclic_iff:
  "quota_acyclic qs \<longleftrightarrow>
     (\<forall>y k. 0 < k \<and> k < GJ_CAP_QUOTA_DEPTH_MAX \<longrightarrow> anc k qs (Some y) \<noteq> Some y)"
  unfolding quota_acyclic_def
  using distinct_quota_chainI quota_chain_no_return by blast

text \<open>A path that avoids \<open>q\<close> before its end does not see a change at \<open>q\<close>.\<close>

lemma anc_upd_avoid:
  "(\<And>i. i < k \<Longrightarrow> anc i qs p \<noteq> Some q) \<Longrightarrow> anc k (qs(q := a)) p = anc k qs p"
proof (induction k arbitrary: p)
  case (Suc k)
  show ?case
  proof (cases p)
    case (Some w)
    from Suc.prems [of 0] Some have "w \<noteq> q" by simp
    moreover have "anc i qs (q_pParent (qs w)) \<noteq> Some q" if "i < k" for i
      using Suc.prems [of "Suc i"] that Some by simp
    ultimately show ?thesis using Suc.IH Some by simp
  qed simp
qed simp

lemma anc_upd_avoid':
  "(\<And>i. i < k \<Longrightarrow> anc i (qs(q := a)) p \<noteq> Some q) \<Longrightarrow> anc k (qs(q := a)) p = anc k qs p"
  using anc_upd_avoid [of k "qs(q := a)" p q "qs q"] by simp

lemma anc_cycle_rotate:
  assumes "anc k qs (Some y) = Some y" and "anc i qs (Some y) = Some q"
  shows "anc k qs (Some q) = Some q"
proof -
  have "anc k qs (Some q) = anc (i + k) qs (Some y)" using assms(2) by (simp add: anc_add)
  also have "\<dots> = anc (k + i) qs (Some y)" by (simp only: add.commute)
  also have "\<dots> = anc i qs (anc k qs (Some y))" by (rule anc_add)
  finally show ?thesis using assms by simp
qed

lemma anc_hits_before_update:
  assumes "anc j (qs(q := a)) p = Some q"
  shows "\<exists>i\<le>j. anc i qs p = Some q"
proof -
  let ?P = "\<lambda>i. anc i (qs(q := a)) p = Some q"
  have least: "?P (Least ?P)" "Least ?P \<le> j"
    using LeastI [of ?P, OF assms] Least_le [of ?P, OF assms] by simp_all
  have "anc (Least ?P) (qs(q := a)) p = anc (Least ?P) qs p"
    by (rule anc_upd_avoid') (drule not_less_Least, assumption)
  with least show ?thesis by metis
qed

lemma set_parent_acyclic:
  assumes ac: "quota_acyclic qs"
    and new: "q \<notin> set (quota_chain GJ_CAP_QUOTA_DEPTH_MAX qs (Some p))"
  shows "quota_acyclic (qs(q := (qs q)\<lparr>q_pParent := Some p\<rparr>))"
  unfolding quota_acyclic_iff
proof (intro allI impI notI)
  let ?qs = "qs(q := (qs q)\<lparr>q_pParent := Some p\<rparr>)"
  fix y k
  assume k: "0 < k \<and> k < GJ_CAP_QUOTA_DEPTH_MAX" and cyc: "anc k ?qs (Some y) = Some y"
  show False
  proof (cases "\<exists>i<k. anc i ?qs (Some y) = Some q")
    case False
    then have "anc k ?qs (Some y) = anc k qs (Some y)" by (intro anc_upd_avoid') blast
    with cyc k ac show False by (auto simp: quota_acyclic_iff)
  next
    case True
    then obtain i where "anc i ?qs (Some y) = Some q" by blast
    with cyc have "anc k ?qs (Some q) = Some q" by (rule anc_cycle_rotate)
    with k have "anc (k - 1) ?qs (Some p) = Some q" by (cases k) auto
    then obtain j where "j \<le> k - 1" "anc j qs (Some p) = Some q"
      using anc_hits_before_update by blast
    with k new show False unfolding set_quota_chain by (meson diff_le_self le_less_trans le_trans)
  qed
qed

lemma clear_parent_acyclic:
  assumes "quota_acyclic qs"
  shows "quota_acyclic (qs(q := (qs q)\<lparr>q_pParent := None\<rparr>))"
  unfolding quota_acyclic_iff
proof (intro allI impI notI)
  let ?qs = "qs(q := (qs q)\<lparr>q_pParent := None\<rparr>)"
  fix y k
  assume k: "0 < k \<and> k < GJ_CAP_QUOTA_DEPTH_MAX" and cyc: "anc k ?qs (Some y) = Some y"
  show False
  proof (cases "\<exists>i<k. anc i ?qs (Some y) = Some q")
    case False
    then have "anc k ?qs (Some y) = anc k qs (Some y)" by (intro anc_upd_avoid') blast
    with cyc k assms show False by (auto simp: quota_acyclic_iff)
  next
    case True
    then obtain i where "anc i ?qs (Some y) = Some q" by blast
    with cyc have "anc k ?qs (Some q) = Some q" by (rule anc_cycle_rotate)
    with k show False by (cases k) auto
  qed
qed

section \<open>Charge and refund\<close>

lemma acyclic_parent_cong:
  "(\<And>q. q_pParent (qs' q) = q_pParent (qs q)) \<Longrightarrow> quota_acyclic qs' = quota_acyclic qs"
  unfolding quota_acyclic_def by (simp add: quota_chain_cong [of _ qs _ qs'])

lemma upd_all_parent:
  "(\<And>a. q_pParent (f a) = q_pParent a) \<Longrightarrow> q_pParent (upd_all f ws qs q) = q_pParent (qs q)"
  by (simp add: upd_all_def)

lemma acyclic_upd_all [simp]:
  "(\<And>a. q_pParent (f a) = q_pParent a) \<Longrightarrow> quota_acyclic (upd_all f ws qs) = quota_acyclic qs"
  by (rule acyclic_parent_cong) (rule upd_all_parent)

lemma charge_OK_eq:
  assumes "quota_acyclic qs" and "gj_cap_quota_slot_charge qs (Some q) = (GJ_OK, qs')"
  shows "qs' = upd_all charge_one (quota_chain GJ_CAP_QUOTA_DEPTH_MAX qs (Some q)) qs"
    and "\<forall>w \<in> set (quota_chain GJ_CAP_QUOTA_DEPTH_MAX qs (Some q)). q_u32Used (qs w) < q_u32Limit (qs w)"
  using assms
  by (auto simp: gj_cap_quota_slot_charge_def quota_acyclic_def quota_commit_upd_all charge_check_None
      simp del: quota_commit.simps quota_chain.simps charge_check.simps split: option.splits)

lemma refund_eq:
  assumes "quota_acyclic qs"
  shows "gj_cap_quota_slot_refund qs (Some q) =
    (GJ_OK, upd_all refund_one (quota_chain GJ_CAP_QUOTA_DEPTH_MAX qs (Some q)) qs)"
  using assms
  by (simp add: gj_cap_quota_slot_refund_def quota_acyclic_def quota_commit_upd_all
      del: quota_commit.simps quota_chain.simps)

lemma charge_one_within:
  assumes "q_u32Used a < q_u32Limit a" and "q_u32Used a \<le> q_u32HighWater a"
  shows "q_u32Used (charge_one a) \<le> q_u32Limit (charge_one a)
    \<and> q_u32Used (charge_one a) \<le> q_u32HighWater (charge_one a)"
  using assms by (auto simp: charge_one_def Let_def inc_le)

lemma refund_one_within:
  assumes "q_u32Used a \<le> q_u32Limit a" and "q_u32Used a \<le> q_u32HighWater a"
  shows "q_u32Used (refund_one a) \<le> q_u32Limit (refund_one a)
    \<and> q_u32Used (refund_one a) \<le> q_u32HighWater (refund_one a)"
proof -
  have "q_u32Used a - 1 \<le> q_u32Used a" if "0 < q_u32Used a"
    using that by (simp add: word_le_nat_alt unat_dec)
  with assms show ?thesis by (auto simp: refund_one_def intro: order_trans)
qed

lemma quota_ok_charge [wf_intros]:
  assumes ok: "quota_ok qs"
  shows "quota_ok (snd (gj_cap_quota_slot_charge qs p))"
proof (cases "p = None \<or> fst (gj_cap_quota_slot_charge qs p) \<noteq> GJ_OK")
  case True
  then obtain w where w: "snd (gj_cap_quota_slot_charge qs p) = qs \<or>
      snd (gj_cap_quota_slot_charge qs p) = qs(w := (qs w)\<lparr>q_u32Exhaust := q_u32Exhaust (qs w) + 1\<rparr>)"
    by (auto simp: gj_cap_quota_slot_charge_def split: option.splits)
  have "quota_acyclic (qs(w := (qs w)\<lparr>q_u32Exhaust := x\<rparr>)) = quota_acyclic qs" for x
    by (rule acyclic_parent_cong) simp
  with w ok show ?thesis by (auto simp: quota_ok_def quota_within_def)
next
  case False
  then obtain q qs' where q: "p = Some q" and ch: "gj_cap_quota_slot_charge qs (Some q) = (GJ_OK, qs')"
    by (cases "gj_cap_quota_slot_charge qs p") auto
  from ok have ac: "quota_acyclic qs" by (simp add: quota_ok_def)
  note eq = charge_OK_eq [OF ac ch]
  have "quota_acyclic qs'" using ac by (simp add: eq(1))
  moreover have "quota_within qs'"
    using ok eq(2) charge_one_within unfolding quota_within_def quota_ok_def eq(1) upd_all_def by simp
  ultimately show ?thesis by (simp add: q ch quota_ok_def)
qed

lemma quota_ok_refund [wf_intros]:
  assumes ok: "quota_ok qs"
  shows "quota_ok (snd (gj_cap_quota_slot_refund qs p))"
proof (cases p)
  case None
  with ok show ?thesis by (simp add: gj_cap_quota_slot_refund_def)
next
  case (Some q)
  from ok have ac: "quota_acyclic qs" by (simp add: quota_ok_def)
  let ?qs = "upd_all refund_one (quota_chain GJ_CAP_QUOTA_DEPTH_MAX qs (Some q)) qs"
  have "quota_acyclic ?qs" using ac by simp
  moreover have "quota_within ?qs"
    using ok refund_one_within unfolding quota_within_def quota_ok_def upd_all_def by simp
  ultimately show ?thesis using refund_eq [OF ac] Some by (simp add: quota_ok_def)
qed

lemma quota_ok_set_parent [wf_intros]:
  assumes "quota_ok qs"
  shows "quota_ok (gj_cap_quota_set_parent qs pQ pP)"
proof -
  have "quota_acyclic (gj_cap_quota_set_parent qs pQ pP)"
    using assms unfolding gj_cap_quota_set_parent_def quota_ok_def quota_walk_hits_chain
    by (auto split: option.split intro: set_parent_acyclic clear_parent_acyclic)
  moreover have "quota_within (gj_cap_quota_set_parent qs pQ pP)"
    using assms unfolding gj_cap_quota_set_parent_def quota_ok_def quota_within_def
    by (auto split: option.split)
  ultimately show ?thesis by (simp add: quota_ok_def)
qed

lemma wit_quotas_ok: "quota_ok wit_quotas"
proof -
  have "quota_within wit_quotas" by (simp add: quota_within_def wit_quotas_def)
  moreover have "quota_acyclic wit_quotas"
    by (simp add: quota_acyclic_def wit_quotas_def numeral_eq_Suc)
  ultimately show ?thesis by (simp add: quota_ok_def)
qed

lemma charge_status:
  "fst (gj_cap_quota_slot_charge qs p) = GJ_OK \<longleftrightarrow>
     (\<forall>w \<in> set (quota_chain GJ_CAP_QUOTA_DEPTH_MAX qs p). q_u32Used (qs w) < q_u32Limit (qs w))"
  unfolding charge_check_None [symmetric]
  by (cases p) (auto simp: gj_cap_quota_slot_charge_def numeral_eq_Suc split: option.splits)

lemma charge_used:
  assumes "quota_acyclic qs"
  shows "q_u32Used (snd (gj_cap_quota_slot_charge qs p) a) =
    (if fst (gj_cap_quota_slot_charge qs p) = GJ_OK \<and> a \<in> set (quota_chain GJ_CAP_QUOTA_DEPTH_MAX qs p)
     then q_u32Used (qs a) + 1 else q_u32Used (qs a))"
proof (cases p)
  case None
  then show ?thesis by (simp add: gj_cap_quota_slot_charge_def set_quota_chain)
next
  case (Some q)
  show ?thesis
  proof (cases "fst (gj_cap_quota_slot_charge qs p) = GJ_OK")
    case True
    then obtain qs' where ch: "gj_cap_quota_slot_charge qs (Some q) = (GJ_OK, qs')"
      using Some by (cases "gj_cap_quota_slot_charge qs p") auto
    show ?thesis using charge_OK_eq(1) [OF assms ch] by (simp add: Some ch upd_all_def charge_one_def Let_def)
  next
    case False
    with Some show ?thesis by (auto simp: gj_cap_quota_slot_charge_def split: option.splits)
  qed
qed

lemma refund_used:
  assumes "quota_acyclic qs"
  shows "q_u32Used (snd (gj_cap_quota_slot_refund qs p) a) =
    (if a \<in> set (quota_chain GJ_CAP_QUOTA_DEPTH_MAX qs p) \<and> 0 < q_u32Used (qs a)
     then q_u32Used (qs a) - 1 else q_u32Used (qs a))"
proof (cases p)
  case None
  then show ?thesis by (simp add: gj_cap_quota_slot_refund_def set_quota_chain)
next
  case (Some q)
  show ?thesis using refund_eq [OF assms, of q] by (simp add: Some upd_all_def refund_one_def)
qed

lemma charge_chain [simp]:
  "quota_acyclic qs \<Longrightarrow>
     quota_chain d (snd (gj_cap_quota_slot_charge qs p)) r = quota_chain d qs r"
proof (rule quota_chain_cong)
  fix a
  assume "quota_acyclic qs"
  then show "q_pParent (snd (gj_cap_quota_slot_charge qs p) a) = q_pParent (qs a)"
    by (auto simp: gj_cap_quota_slot_charge_def quota_acyclic_def quota_commit_upd_all upd_all_parent
        split: option.splits)
qed

lemma charge_acyclic:
  "quota_acyclic qs \<Longrightarrow> quota_acyclic (snd (gj_cap_quota_slot_charge qs p))"
  unfolding quota_acyclic_def [of "snd _"] by (simp add: quota_acyclic_def)

lemma charge_refund_used:
  assumes ac: "quota_acyclic qs" and ok: "fst (gj_cap_quota_slot_charge qs p) = GJ_OK"
  shows "q_u32Used (snd (gj_cap_quota_slot_refund (snd (gj_cap_quota_slot_charge qs p)) p) a)
    = q_u32Used (qs a)"
proof -
  have "0 < q_u32Used (qs a) + 1" if "a \<in> set (quota_chain GJ_CAP_QUOTA_DEPTH_MAX qs p)"
  proof -
    from that ok have "q_u32Used (qs a) < q_u32Limit (qs a)" by (auto simp: charge_status)
    then show ?thesis by (simp add: less_inc_nonzero word_greater_zero_iff)
  qed
  with ok show ?thesis
    using refund_used [OF charge_acyclic [OF ac], of p p a]
    by (simp add: charge_used [OF ac] charge_chain [OF ac])
qed

section \<open>Properties\<close>

text \<open>
  Linking an account under a parent never lets a charge visit an account twice.  If every
  ledger chain is free of repetitions within \<^verbatim>\<open>GJ_CAP_QUOTA_DEPTH_MAX\<close> steps and every
  account is within its limit and covered by its high-water mark, the same holds after
  \<^verbatim>\<open>gj_cap_quota_set_parent\<close> on any two accounts, after any charge and after any refund.
\<close>

lemma quota_ledger_invariant:
  assumes "quota_ok qs"
  shows "quota_ok (gj_cap_quota_set_parent qs pQ pP)
    \<and> quota_ok (snd (gj_cap_quota_slot_charge qs pA))
    \<and> quota_ok (snd (gj_cap_quota_slot_refund qs pA))"
  using assms by (intro conjI wf_intros)

text \<open>
  A slot charge is all or nothing along the parent chain, and a refund undoes it.  The charge
  succeeds exactly when every account of the chain has room; then it adds one to each of them and
  to no other account, and when it fails no account's use changes.  A refund right after a
  successful charge restores the use of every account.
\<close>

lemma quota_charge_all_or_nothing:
  assumes "quota_acyclic qs"
  shows "(fst (gj_cap_quota_slot_charge qs p) = GJ_OK \<longleftrightarrow>
      (\<forall>w \<in> set (quota_chain GJ_CAP_QUOTA_DEPTH_MAX qs p). q_u32Used (qs w) < q_u32Limit (qs w)))
    \<and> (\<forall>a. q_u32Used (snd (gj_cap_quota_slot_charge qs p) a) =
        (if fst (gj_cap_quota_slot_charge qs p) = GJ_OK
            \<and> a \<in> set (quota_chain GJ_CAP_QUOTA_DEPTH_MAX qs p)
         then q_u32Used (qs a) + 1 else q_u32Used (qs a)))
    \<and> (fst (gj_cap_quota_slot_charge qs p) = GJ_OK \<longrightarrow>
        (\<forall>a. q_u32Used (snd (gj_cap_quota_slot_refund (snd (gj_cap_quota_slot_charge qs p)) p) a)
          = q_u32Used (qs a)))"
  using charge_status charge_used [OF assms] charge_refund_used [OF assms] by blast

end
