(* ===== verification/Cap_Cnode.thy ===== *)
theory Cap_Cnode
  imports Cap_Quota
begin

text \<open>
  The capability tables of \<^verbatim>\<open>kernel/include/gj/cap.h\<close> and \<^verbatim>\<open>kernel/cap/cnode.c\<close>: object
  headers, CNodes and their slots, the derivation edges (CDT) and their pool, and the operations
  resolve, install, mint, copy, move, delete and invalidate.  Pointers are addresses into one
  store per structure type.  The singly linked child list of an object (\<^verbatim>\<open>pCdtHead\<close> and the
  \<^verbatim>\<open>pNext\<close> links) is the list of the edge addresses on it, head first; theory
  \<^verbatim>\<open>Cap_Cdt_Heap\<close> has the pointer-level operations and the proof that they implement it.
  Out-parameters are returned, so the NULL tests on them do not occur; diagnostic tallies and
  console output, which no branch reads, are left out.
\<close>

section \<open>Data\<close>

abbreviation (input) GJ_OBJ_LIVE :: u32 where "GJ_OBJ_LIVE \<equiv> 0"
abbreviation (input) GJ_OBJ_REVOKING :: u32 where "GJ_OBJ_REVOKING \<equiv> 1"
abbreviation (input) GJ_OBJ_DEAD :: u32 where "GJ_OBJ_DEAD \<equiv> 2"

abbreviation (input) GJ_CAP_INVALID :: u16 where "GJ_CAP_INVALID \<equiv> 0"
abbreviation (input) GJ_CAP_NOTIFICATION :: u16 where "GJ_CAP_NOTIFICATION \<equiv> 6"
abbreviation (input) GJ_CAP_IRQ :: u16 where "GJ_CAP_IRQ \<equiv> 8"
abbreviation (input) GJ_CAP_FRAME :: u16 where "GJ_CAP_FRAME \<equiv> 9"
abbreviation (input) GJ_CAP_UNTYPED :: u16 where "GJ_CAP_UNTYPED \<equiv> 10"
abbreviation (input) GJ_CAP_ROOT_META :: u16 where "GJ_CAP_ROOT_META \<equiv> 14"

abbreviation (input) GJ_RIGHT_READ :: u16 where "GJ_RIGHT_READ \<equiv> 1"
abbreviation (input) GJ_RIGHT_WRITE :: u16 where "GJ_RIGHT_WRITE \<equiv> 2"
abbreviation (input) GJ_RIGHT_GRANT :: u16 where "GJ_RIGHT_GRANT \<equiv> 4"
abbreviation (input) GJ_RIGHT_MINT :: u16 where "GJ_RIGHT_MINT \<equiv> 8"
abbreviation (input) GJ_RIGHT_DESTROY :: u16 where "GJ_RIGHT_DESTROY \<equiv> 16"
abbreviation (input) GJ_RIGHT_MAP :: u16 where "GJ_RIGHT_MAP \<equiv> 32"
abbreviation (input) GJ_RIGHT_IDENTIFY :: u16 where "GJ_RIGHT_IDENTIFY \<equiv> 64"
abbreviation (input) GJ_RIGHT_WAIT :: u16 where "GJ_RIGHT_WAIT \<equiv> 128"

abbreviation (input) GJ_CAP_SLOT_ROOT_META :: u64 where "GJ_CAP_SLOT_ROOT_META \<equiv> 0"
abbreviation (input) GJ_CDT_EDGE_POOL :: nat where "GJ_CDT_EDGE_POOL \<equiv> 256"

record gj_cap_ref =
  ref_u64Slot :: u64
  ref_u32SlotGen :: u32

record gj_cap_slot =
  slot_u16Type :: u16
  slot_u16Rights :: u16
  slot_u32Gen :: u32
  slot_u32ObjGen :: u32
  slot_pObj :: ptr

record gj_obj_hdr =
  hdr_u32State :: u32
  hdr_u32Gen :: u32
  hdr_u32Ref :: u32
  hdr_u32Pin :: u32
  hdr_u32SlotsLeft :: u32
  hdr_pCdtHead :: "nat list"

record gj_cdt_edge =
  edge_pCnode :: ptr
  edge_u64Slot :: u64

record gj_cnode =
  cn_hdr :: nat
  cn_cSlots :: u64
  cn_pSlots :: "gj_cap_slot list option"
  cn_pQuotaAccount :: ptr
  cn_u32SoftLock :: u32
  cn_u32PadLock :: u32

record gj_cap_resolved =
  res_pSlot :: "nat \<times> u64"
  res_pObj :: nat
  res_u16Type :: u16
  res_u16Rights :: u16

text \<open>The stores, and the edge pool's use marks and count.\<close>

record cap_state =
  st_objs :: "nat \<Rightarrow> gj_obj_hdr"
  st_cnodes :: "nat \<Rightarrow> gj_cnode"
  st_quotas :: quotas
  st_edges :: "nat \<Rightarrow> gj_cdt_edge"
  g_aCdtUsed :: "bool list"
  g_u32CdtPoolUsed :: u32

section \<open>Device-host classes and rights (cap.h)\<close>

definition gj_cap_type_is_ddi :: "u16 \<Rightarrow> bool" where
  "gj_cap_type_is_ddi u16Type \<longleftrightarrow>
     u16Type = GJ_CAP_IRQ \<or> u16Type = GJ_CAP_FRAME \<or> u16Type = GJ_CAP_UNTYPED
     \<or> u16Type = GJ_CAP_NOTIFICATION"

definition gj_cap_rights_ddi_host_default :: "u16 \<Rightarrow> u16" where
  "gj_cap_rights_ddi_host_default u16Type =
     (if u16Type = GJ_CAP_FRAME
        then GJ_RIGHT_READ OR GJ_RIGHT_WRITE OR GJ_RIGHT_MAP OR GJ_RIGHT_IDENTIFY
      else if u16Type = GJ_CAP_IRQ then GJ_RIGHT_READ OR GJ_RIGHT_WAIT OR GJ_RIGHT_IDENTIFY
      else if u16Type = GJ_CAP_NOTIFICATION
        then GJ_RIGHT_READ OR GJ_RIGHT_WAIT OR GJ_RIGHT_IDENTIFY
      else if u16Type = GJ_CAP_UNTYPED
        then GJ_RIGHT_MINT OR GJ_RIGHT_IDENTIFY OR GJ_RIGHT_DESTROY OR GJ_RIGHT_GRANT
      else 0)"

definition gj_cap_rights_is_subset :: "u16 \<Rightarrow> u16 \<Rightarrow> bool" where
  "gj_cap_rights_is_subset u16Have u16Want \<longleftrightarrow> u16Want AND NOT u16Have = 0"

definition gj_cap_rights_ddi_host_subset_ok :: "u16 \<Rightarrow> u16 \<Rightarrow> bool" where
  "gj_cap_rights_ddi_host_subset_ok u16Type u16Rights =
     (if u16Rights = 0 then False
      else (let u16Def = gj_cap_rights_ddi_host_default u16Type
            in if u16Def = 0 then False else gj_cap_rights_is_subset u16Def u16Rights))"

definition gj_cap_ref_is_null :: "gj_cap_ref option \<Rightarrow> bool" where
  "gj_cap_ref_is_null pRef = (case pRef of None \<Rightarrow> True | Some r \<Rightarrow> ref_u32SlotGen r = 0)"

definition gj_cap_ref_make :: "u64 \<Rightarrow> u32 \<Rightarrow> gj_cap_ref" where
  "gj_cap_ref_make u64Slot u32SlotGen = \<lparr>ref_u64Slot = u64Slot, ref_u32SlotGen = u32SlotGen\<rparr>"

definition gj_cap_ref_null :: gj_cap_ref where
  "gj_cap_ref_null = gj_cap_ref_make 0 0"

section \<open>Access to the stores\<close>

definition slots_of :: "'a cap_state_scheme \<Rightarrow> nat \<Rightarrow> gj_cap_slot list" where
  "slots_of s c = (case cn_pSlots (st_cnodes s c) of None \<Rightarrow> [] | Some ss \<Rightarrow> ss)"

definition slot_at :: "'a cap_state_scheme \<Rightarrow> nat \<Rightarrow> u64 \<Rightarrow> gj_cap_slot" where
  "slot_at s c i = slots_of s c ! unat i"

definition upd_slot ::
  "nat \<Rightarrow> u64 \<Rightarrow> (gj_cap_slot \<Rightarrow> gj_cap_slot) \<Rightarrow> 'a cap_state_scheme \<Rightarrow> 'a cap_state_scheme" where
  "upd_slot c i f s =
     s\<lparr>st_cnodes := (st_cnodes s)(c := (st_cnodes s c)
        \<lparr>cn_pSlots := map_option (\<lambda>ss. ss[unat i := f (ss ! unat i)]) (cn_pSlots (st_cnodes s c))\<rparr>)\<rparr>"

definition upd_obj ::
  "nat \<Rightarrow> (gj_obj_hdr \<Rightarrow> gj_obj_hdr) \<Rightarrow> 'a cap_state_scheme \<Rightarrow> 'a cap_state_scheme" where
  "upd_obj ob f s = s\<lparr>st_objs := (st_objs s)(ob := f (st_objs s ob))\<rparr>"

section \<open>Objects and CNodes\<close>

definition gj_obj_hdr_init :: "ptr \<Rightarrow> 'a cap_state_scheme \<Rightarrow> 'a cap_state_scheme" where
  "gj_obj_hdr_init pHdr s =
     (case pHdr of
        None \<Rightarrow> s
      | Some ob \<Rightarrow> upd_obj ob (\<lambda>_. \<lparr>hdr_u32State = GJ_OBJ_LIVE, hdr_u32Gen = 1, hdr_u32Ref = 0,
          hdr_u32Pin = 0, hdr_u32SlotsLeft = 0, hdr_pCdtHead = []\<rparr>) s)"

definition gj_obj_check_live :: "'a cap_state_scheme \<Rightarrow> ptr \<Rightarrow> u32 \<Rightarrow> gj_status" where
  "gj_obj_check_live s pObj u32ObjGenExpected =
     (case pObj of
        None \<Rightarrow> GJ_ERR_INVAL
      | Some ob \<Rightarrow>
          if hdr_u32State (st_objs s ob) \<noteq> GJ_OBJ_LIVE then GJ_ERR_DEAD
          else if hdr_u32Gen (st_objs s ob) \<noteq> u32ObjGenExpected then GJ_ERR_STALE_CAP
          else GJ_OK)"

text \<open>
  \<^verbatim>\<open>gj_cnode_init\<close>: the slot array is the caller's storage for \<open>cSlots\<close> slots (\<open>fArray\<close>: the
  pointer to it is not NULL); the loop overwrites all of it.
\<close>

definition empty_slot :: gj_cap_slot where
  "empty_slot = \<lparr>slot_u16Type = GJ_CAP_INVALID, slot_u16Rights = 0, slot_u32Gen = 1,
     slot_u32ObjGen = 0, slot_pObj = None\<rparr>"

definition gj_cnode_init ::
  "ptr \<Rightarrow> bool \<Rightarrow> u64 \<Rightarrow> 'a cap_state_scheme \<Rightarrow> 'a cap_state_scheme" where
  "gj_cnode_init pCnode fArray cSlots s =
     (case pCnode of
        None \<Rightarrow> s
      | Some c \<Rightarrow>
          if \<not> fArray \<or> cSlots = 0 then s
          else
            (let s = gj_obj_hdr_init (Some (cn_hdr (st_cnodes s c))) s
             in s\<lparr>st_cnodes := (st_cnodes s)(c := (st_cnodes s c)
                  \<lparr>cn_cSlots := cSlots,
                   cn_pSlots := Some (replicate (unat cSlots) empty_slot),
                   cn_pQuotaAccount := None,
                   cn_u32SoftLock := 0,
                   cn_u32PadLock := 0\<rparr>)\<rparr>))"

definition gj_cap_quota_attach ::
  "ptr \<Rightarrow> ptr \<Rightarrow> 'a cap_state_scheme \<Rightarrow> 'a cap_state_scheme" where
  "gj_cap_quota_attach pCnode pQ s =
     (case pCnode of
        None \<Rightarrow> s
      | Some c \<Rightarrow> s\<lparr>st_cnodes := (st_cnodes s)(c := (st_cnodes s c)\<lparr>cn_pQuotaAccount := pQ\<rparr>)\<rparr>)"

definition gj_cnode_trylock :: "ptr \<Rightarrow> 'a cap_state_scheme \<Rightarrow> bool \<times> 'a cap_state_scheme" where
  "gj_cnode_trylock pCnode s =
     (case pCnode of
        None \<Rightarrow> (False, s)
      | Some c \<Rightarrow>
          if cn_u32SoftLock (st_cnodes s c) = 0
          then (True, s\<lparr>st_cnodes := (st_cnodes s)(c := (st_cnodes s c)\<lparr>cn_u32SoftLock := 1\<rparr>)\<rparr>)
          else (False, s))"

definition gj_cnode_unlock :: "ptr \<Rightarrow> 'a cap_state_scheme \<Rightarrow> 'a cap_state_scheme" where
  "gj_cnode_unlock pCnode s =
     (case pCnode of
        None \<Rightarrow> s
      | Some c \<Rightarrow> s\<lparr>st_cnodes := (st_cnodes s)(c := (st_cnodes s c)\<lparr>cn_u32SoftLock := 0\<rparr>)\<rparr>)"

section \<open>Derivation edges and their pool\<close>

definition empty_edge :: gj_cdt_edge where
  "empty_edge = \<lparr>edge_pCnode = None, edge_u64Slot = 0\<rparr>"

definition cdt_edge_alloc :: "'a cap_state_scheme \<Rightarrow> nat option \<times> 'a cap_state_scheme" where
  "cdt_edge_alloc s =
     (case find (\<lambda>i. \<not> g_aCdtUsed s ! i) [0..<GJ_CDT_EDGE_POOL] of
        None \<Rightarrow> (None, s)
      | Some i \<Rightarrow>
          (Some i,
           s\<lparr>g_aCdtUsed := (g_aCdtUsed s)[i := True],
             st_edges := (st_edges s)(i := empty_edge),
             g_u32CdtPoolUsed :=
               (if g_u32CdtPoolUsed s < 0xffffffff then g_u32CdtPoolUsed s + 1
                else g_u32CdtPoolUsed s)\<rparr>))"

text \<open>Edges that do not come from the pool (addresses past it) are left alone.\<close>

definition cdt_edge_free :: "ptr \<Rightarrow> 'a cap_state_scheme \<Rightarrow> 'a cap_state_scheme" where
  "cdt_edge_free pEdge s =
     (case pEdge of
        None \<Rightarrow> s
      | Some e \<Rightarrow>
          if e < GJ_CDT_EDGE_POOL
          then s\<lparr>g_u32CdtPoolUsed :=
                    (if g_aCdtUsed s ! e \<and> 0 < g_u32CdtPoolUsed s then g_u32CdtPoolUsed s - 1
                     else g_u32CdtPoolUsed s),
                  g_aCdtUsed := (g_aCdtUsed s)[e := False],
                  st_edges := (st_edges s)(e := empty_edge)\<rparr>
          else s)"

definition gj_cdt_edge_link ::
  "ptr \<Rightarrow> ptr \<Rightarrow> ptr \<Rightarrow> u64 \<Rightarrow> 'a cap_state_scheme \<Rightarrow> gj_status \<times> 'a cap_state_scheme" where
  "gj_cdt_edge_link pObj pEdge pCnode u64Slot s =
     (case (pObj, pEdge, pCnode) of
        (Some ob, Some e, Some c) \<Rightarrow>
          if cn_pSlots (st_cnodes s c) = None \<or> cn_cSlots (st_cnodes s c) \<le> u64Slot
          then (GJ_ERR_INVAL, s)
          else if e \<in> set (hdr_pCdtHead (st_objs s ob)) then (GJ_ERR_BUSY, s)
          else
            (GJ_OK,
             upd_obj ob (\<lambda>h. h\<lparr>hdr_pCdtHead := e # hdr_pCdtHead h\<rparr>)
               (s\<lparr>st_edges := (st_edges s)(e := \<lparr>edge_pCnode = Some c, edge_u64Slot = u64Slot\<rparr>)\<rparr>))
      | _ \<Rightarrow> (GJ_ERR_INVAL, s))"

definition gj_cdt_edge_unlink :: "ptr \<Rightarrow> ptr \<Rightarrow> 'a cap_state_scheme \<Rightarrow> 'a cap_state_scheme" where
  "gj_cdt_edge_unlink pObj pEdge s =
     (case (pObj, pEdge) of
        (Some ob, Some e) \<Rightarrow>
          if e \<in> set (hdr_pCdtHead (st_objs s ob))
          then
            (let s = upd_obj ob (\<lambda>h. h\<lparr>hdr_pCdtHead := remove1 e (hdr_pCdtHead h)\<rparr>) s;
                 s = s\<lparr>st_edges := (st_edges s)(e := empty_edge)\<rparr>
             in cdt_edge_free (Some e) s)
          else s
      | _ \<Rightarrow> s)"

text \<open>
  The loop of \<^verbatim>\<open>gj_cdt_unlink_slot\<close> reads an edge's successor before it unlinks the edge, so it
  runs over the list as it was on entry.
\<close>

fun unlink_slot_loop ::
  "nat \<Rightarrow> ptr \<Rightarrow> u64 \<Rightarrow> nat list \<Rightarrow> 'a cap_state_scheme \<Rightarrow> 'a cap_state_scheme" where
  "unlink_slot_loop ob pCnode u64Slot [] s = s"
| "unlink_slot_loop ob pCnode u64Slot (w # ws) s =
     unlink_slot_loop ob pCnode u64Slot ws
       (if edge_pCnode (st_edges s w) = pCnode \<and> edge_u64Slot (st_edges s w) = u64Slot
        then gj_cdt_edge_unlink (Some ob) (Some w) s else s)"

definition gj_cdt_unlink_slot ::
  "ptr \<Rightarrow> ptr \<Rightarrow> u64 \<Rightarrow> 'a cap_state_scheme \<Rightarrow> 'a cap_state_scheme" where
  "gj_cdt_unlink_slot pObj pCnode u64Slot s =
     (case pObj of
        None \<Rightarrow> s
      | Some ob \<Rightarrow> unlink_slot_loop ob pCnode u64Slot (hdr_pCdtHead (st_objs s ob)) s)"

text \<open>The edge is attempted after a mint, copy or move; a miss leaves the slot without an edge.\<close>

definition cdt_edge_try_wire ::
  "nat \<Rightarrow> ptr \<Rightarrow> u64 \<Rightarrow> 'a cap_state_scheme \<Rightarrow> 'a cap_state_scheme" where
  "cdt_edge_try_wire ob pCnode u64Slot s =
     (case cdt_edge_alloc s of
        (None, s) \<Rightarrow> s
      | (Some e, s) \<Rightarrow>
         (case gj_cdt_edge_link (Some ob) (Some e) pCnode u64Slot s of
            (st, s) \<Rightarrow> if st \<noteq> GJ_OK then cdt_edge_free (Some e) s else s))"

section \<open>Resolve, install, invalidate\<close>

definition gj_cap_resolve ::
  "'a cap_state_scheme \<Rightarrow> ptr \<Rightarrow> u64 \<Rightarrow> u32 \<Rightarrow> gj_status + gj_cap_resolved" where
  "gj_cap_resolve s pProcCnode u64Slot u32SlotGen =
     (case pProcCnode of
        None \<Rightarrow> Inl GJ_ERR_INVAL
      | Some c \<Rightarrow>
          if cn_pSlots (st_cnodes s c) = None then Inl GJ_ERR_INVAL
          else if cn_cSlots (st_cnodes s c) = 0 then Inl GJ_ERR_INVAL
          else if u32SlotGen = 0 then Inl GJ_ERR_INVAL
          else if cn_cSlots (st_cnodes s c) \<le> u64Slot then Inl GJ_ERR_INVAL
          else
            (let pSlot = slot_at s c u64Slot
             in if slot_u16Type pSlot = GJ_CAP_INVALID then Inl GJ_ERR_NOENT
                else if slot_u32Gen pSlot \<noteq> u32SlotGen then Inl GJ_ERR_STALE_CAP
                else
                  (case slot_pObj pSlot of
                     None \<Rightarrow> Inl GJ_ERR_STALE_CAP
                   | Some ob \<Rightarrow>
                       (let st = gj_obj_check_live s (Some ob) (slot_u32ObjGen pSlot)
                        in if st \<noteq> GJ_OK then Inl st
                           else Inr \<lparr>res_pSlot = (c, u64Slot), res_pObj = ob,
                                     res_u16Type = slot_u16Type pSlot,
                                     res_u16Rights = slot_u16Rights pSlot\<rparr>))))"

definition gj_cap_resolve_ref ::
  "'a cap_state_scheme \<Rightarrow> ptr \<Rightarrow> gj_cap_ref option \<Rightarrow> gj_status + gj_cap_resolved" where
  "gj_cap_resolve_ref s pProcCnode pRef =
     (case pRef of
        None \<Rightarrow> Inl GJ_ERR_INVAL
      | Some r \<Rightarrow> gj_cap_resolve s pProcCnode (ref_u64Slot r) (ref_u32SlotGen r))"

definition gj_cap_slot_install ::
  "ptr \<Rightarrow> u64 \<Rightarrow> u16 \<Rightarrow> u16 \<Rightarrow> ptr \<Rightarrow> 'a cap_state_scheme
     \<Rightarrow> (gj_status + gj_cap_ref) \<times> 'a cap_state_scheme" where
  "gj_cap_slot_install pCnode u64Slot u16Type u16Rights pObj s =
     (case (pCnode, pObj) of
        (Some c, Some ob) \<Rightarrow>
          if cn_pSlots (st_cnodes s c) = None then (Inl GJ_ERR_INVAL, s)
          else if cn_cSlots (st_cnodes s c) = 0 \<or> cn_cSlots (st_cnodes s c) \<le> u64Slot
            then (Inl GJ_ERR_INVAL, s)
          else if u16Type = GJ_CAP_INVALID then (Inl GJ_ERR_INVAL, s)
          else if hdr_u32State (st_objs s ob) \<noteq> GJ_OBJ_LIVE then (Inl GJ_ERR_DEAD, s)
          else
            (let u32ObjGen = hdr_u32Gen (st_objs s ob)
             in if u32ObjGen = 0 then (Inl GJ_ERR_INVAL, s)
                else if u64Slot = GJ_CAP_SLOT_ROOT_META \<and> u16Type \<noteq> GJ_CAP_ROOT_META
                  then (Inl GJ_ERR_PERM, s)
                else if u64Slot \<noteq> GJ_CAP_SLOT_ROOT_META \<and> u16Type = GJ_CAP_ROOT_META
                  then (Inl GJ_ERR_PERM, s)
                else if slot_u16Type (slot_at s c u64Slot) \<noteq> GJ_CAP_INVALID
                  then (Inl GJ_ERR_BUSY, s)
                else if hdr_u32State (st_objs s ob) \<noteq> GJ_OBJ_LIVE
                    \<or> hdr_u32Gen (st_objs s ob) \<noteq> u32ObjGen
                  then (Inl GJ_ERR_DEAD, s)
                else if hdr_u32SlotsLeft (st_objs s ob) = 0xffffffff then (Inl GJ_ERR_QUOTA, s)
                else
                  (case gj_cap_quota_slot_charge (st_quotas s) (cn_pQuotaAccount (st_cnodes s c)) of
                     (stQuota, qs) \<Rightarrow>
                       (let s = s\<lparr>st_quotas := qs\<rparr>
                        in if stQuota \<noteq> GJ_OK then (Inl stQuota, s)
                           else
                             (let s = upd_slot c u64Slot
                                        (\<lambda>sl. sl\<lparr>slot_u16Type := u16Type, slot_u16Rights := u16Rights,
                                                 slot_u32ObjGen := u32ObjGen, slot_pObj := Some ob\<rparr>) s;
                                  s = upd_obj ob
                                        (\<lambda>h. h\<lparr>hdr_u32SlotsLeft := hdr_u32SlotsLeft h + 1\<rparr>) s
                              in (Inr (gj_cap_ref_make u64Slot (slot_u32Gen (slot_at s c u64Slot))), s)))))
      | _ \<Rightarrow> (Inl GJ_ERR_INVAL, s))"

definition gj_cap_alloc_install ::
  "ptr \<Rightarrow> u16 \<Rightarrow> u16 \<Rightarrow> ptr \<Rightarrow> 'a cap_state_scheme
     \<Rightarrow> (gj_status + gj_cap_ref) \<times> 'a cap_state_scheme" where
  "gj_cap_alloc_install pCnode u16Type u16Rights pObj s =
     (case (pCnode, pObj) of
        (Some c, Some ob) \<Rightarrow>
          if cn_pSlots (st_cnodes s c) = None then (Inl GJ_ERR_INVAL, s)
          else if cn_cSlots (st_cnodes s c) = 0 then (Inl GJ_ERR_INVAL, s)
          else if u16Type = GJ_CAP_INVALID then (Inl GJ_ERR_INVAL, s)
          else if u16Type = GJ_CAP_ROOT_META
            then gj_cap_slot_install pCnode GJ_CAP_SLOT_ROOT_META u16Type u16Rights pObj s
          else
            (case find (\<lambda>i. slot_u16Type (slots_of s c ! i) = GJ_CAP_INVALID)
                    [1..<unat (cn_cSlots (st_cnodes s c))] of
               None \<Rightarrow> (Inl GJ_ERR_QUOTA, s)
             | Some i \<Rightarrow> gj_cap_slot_install pCnode (of_nat i) u16Type u16Rights pObj s)
      | _ \<Rightarrow> (Inl GJ_ERR_INVAL, s))"

definition gj_cap_slot_invalidate :: "gj_cap_slot \<Rightarrow> gj_cap_slot" where
  "gj_cap_slot_invalidate sl =
     sl\<lparr>slot_u16Type := GJ_CAP_INVALID, slot_u16Rights := 0,
        slot_u32Gen := (if slot_u32Gen sl + 1 = 0 then 1 else slot_u32Gen sl + 1),
        slot_u32ObjGen := 0, slot_pObj := None\<rparr>"

text \<open>\<^verbatim>\<open>u32SlotsLeft\<close> saturates at zero.\<close>

definition slots_left_dec :: "gj_obj_hdr \<Rightarrow> gj_obj_hdr" where
  "slots_left_dec h =
     (if 0 < hdr_u32SlotsLeft h then h\<lparr>hdr_u32SlotsLeft := hdr_u32SlotsLeft h - 1\<rparr> else h)"

text \<open>The slot is \<open>CNode c\<close>, index \<open>i\<close>; the refund on the NULL account has no effect.\<close>

definition gj_cap_slot_invalidate_locked ::
  "nat \<times> u64 \<Rightarrow> ptr \<Rightarrow> 'a cap_state_scheme \<Rightarrow> 'a cap_state_scheme" where
  "gj_cap_slot_invalidate_locked pSlot pObj s =
     (case pSlot of
        (c, i) \<Rightarrow>
          if slot_u16Type (slot_at s c i) = GJ_CAP_INVALID then s
          else
            (case pObj of
               Some ob \<Rightarrow>
                 if slot_pObj (slot_at s c i) \<noteq> Some ob then s
                 else upd_slot c i gj_cap_slot_invalidate (upd_obj ob slots_left_dec s)
             | None \<Rightarrow>
                 (case slot_pObj (slot_at s c i) of
                    None \<Rightarrow> upd_slot c i gj_cap_slot_invalidate s
                  | Some ob \<Rightarrow> upd_slot c i gj_cap_slot_invalidate (upd_obj ob slots_left_dec s))))"

fun invalidate_obj_loop ::
  "nat \<Rightarrow> nat \<Rightarrow> u32 \<Rightarrow> nat list \<Rightarrow> u32 \<Rightarrow> 'a cap_state_scheme \<Rightarrow> u32 \<times> 'a cap_state_scheme" where
  "invalidate_obj_loop c ob u32MaxSlots [] u32Cleared s = (u32Cleared, s)"
| "invalidate_obj_loop c ob u32MaxSlots (i # is) u32Cleared s =
     (if \<not> u32Cleared < u32MaxSlots then (u32Cleared, s)
      else
        (let pSlot = slots_of s c ! i
         in if slot_u16Type pSlot = GJ_CAP_INVALID
            then invalidate_obj_loop c ob u32MaxSlots is u32Cleared s
            else if slot_pObj pSlot \<noteq> Some ob
            then invalidate_obj_loop c ob u32MaxSlots is u32Cleared s
            else
              (let s = s\<lparr>st_quotas :=
                          snd (gj_cap_quota_slot_refund (st_quotas s) (cn_pQuotaAccount (st_cnodes s c)))\<rparr>;
                   s = gj_cap_slot_invalidate_locked (c, of_nat i) (Some ob) s;
                   s = gj_cdt_unlink_slot (Some ob) (Some c) (of_nat i) s
               in invalidate_obj_loop c ob u32MaxSlots is (u32Cleared + 1) s)))"

definition gj_cnode_invalidate_obj_slots ::
  "ptr \<Rightarrow> ptr \<Rightarrow> u32 \<Rightarrow> 'a cap_state_scheme \<Rightarrow> u32 \<times> 'a cap_state_scheme" where
  "gj_cnode_invalidate_obj_slots pCnode pObj u32MaxSlots s =
     (case (pCnode, pObj) of
        (Some c, Some ob) \<Rightarrow>
          if cn_pSlots (st_cnodes s c) = None \<or> u32MaxSlots = 0 then (0, s)
          else
            (case gj_cnode_trylock (Some c) s of
               (False, s) \<Rightarrow> (0, s)
             | (True, s) \<Rightarrow>
                (case invalidate_obj_loop c ob u32MaxSlots
                        [0..<unat (cn_cSlots (st_cnodes s c))] 0 s of
                   (u32Cleared, s) \<Rightarrow> (u32Cleared, gj_cnode_unlock (Some c) s)))
      | _ \<Rightarrow> (0, s))"

section \<open>Mint, copy, move, delete\<close>

definition rights_weaker :: "u16 \<Rightarrow> u16 \<Rightarrow> u16" where
  "rights_weaker u16Src u16Want = u16Src AND u16Want"

definition gj_cap_mint ::
  "ptr \<Rightarrow> u64 \<Rightarrow> u32 \<Rightarrow> u16 \<Rightarrow> ptr \<Rightarrow> 'a cap_state_scheme
     \<Rightarrow> (gj_status + gj_cap_ref) \<times> 'a cap_state_scheme" where
  "gj_cap_mint pSrcCnode u64SrcSlot u32SrcGen u16Rights pDstCnode s =
     (let pDstCnode = (if pDstCnode = None then pSrcCnode else pDstCnode)
      in case gj_cap_resolve s pSrcCnode u64SrcSlot u32SrcGen of
           Inl st \<Rightarrow> (Inl st, s)
         | Inr res \<Rightarrow>
             if res_u16Rights res AND GJ_RIGHT_MINT = 0 then (Inl GJ_ERR_PERM, s)
             else
               (let u16New = rights_weaker (res_u16Rights res) u16Rights
                in if u16New = 0 then (Inl GJ_ERR_PERM, s)
                   else
                     (case gj_cap_alloc_install pDstCnode (res_u16Type res) u16New
                             (Some (res_pObj res)) s of
                        (Inl st, s) \<Rightarrow> (Inl st, s)
                      | (Inr ref, s) \<Rightarrow>
                          (Inr ref, cdt_edge_try_wire (res_pObj res) pDstCnode (ref_u64Slot ref) s))))"

definition gj_cap_copy ::
  "ptr \<Rightarrow> u64 \<Rightarrow> u32 \<Rightarrow> u16 \<Rightarrow> 'a cap_state_scheme
     \<Rightarrow> (gj_status + gj_cap_ref) \<times> 'a cap_state_scheme" where
  "gj_cap_copy pCnode u64SrcSlot u32SrcGen u16Rights s =
     (case gj_cap_resolve s pCnode u64SrcSlot u32SrcGen of
        Inl st \<Rightarrow> (Inl st, s)
      | Inr res \<Rightarrow>
          if res_u16Rights res AND GJ_RIGHT_GRANT = 0 then (Inl GJ_ERR_PERM, s)
          else
            (let u16New = rights_weaker (res_u16Rights res)
                            (if u16Rights \<noteq> 0 then u16Rights else res_u16Rights res)
             in case gj_cap_alloc_install pCnode (res_u16Type res) u16New
                       (Some (res_pObj res)) s of
                  (Inl st, s) \<Rightarrow> (Inl st, s)
                | (Inr ref, s) \<Rightarrow>
                    (Inr ref, cdt_edge_try_wire (res_pObj res) pCnode (ref_u64Slot ref) s)))"

text \<open>The quota refund against the CNode's account that move and delete make.\<close>

definition cnode_refund :: "ptr \<Rightarrow> 'a cap_state_scheme \<Rightarrow> 'a cap_state_scheme" where
  "cnode_refund pCnode s =
     (case pCnode of
        None \<Rightarrow> s
      | Some c \<Rightarrow> s\<lparr>st_quotas :=
          snd (gj_cap_quota_slot_refund (st_quotas s) (cn_pQuotaAccount (st_cnodes s c)))\<rparr>)"

definition gj_cap_move ::
  "ptr \<Rightarrow> u64 \<Rightarrow> u32 \<Rightarrow> 'a cap_state_scheme
     \<Rightarrow> (gj_status + gj_cap_ref) \<times> 'a cap_state_scheme" where
  "gj_cap_move pCnode u64SrcSlot u32SrcGen s =
     (case gj_cap_resolve s pCnode u64SrcSlot u32SrcGen of
        Inl st \<Rightarrow> (Inl st, s)
      | Inr res \<Rightarrow>
          if res_u16Rights res AND GJ_RIGHT_GRANT = 0 then (Inl GJ_ERR_PERM, s)
          else if u64SrcSlot = GJ_CAP_SLOT_ROOT_META then (Inl GJ_ERR_PERM, s)
          else
            (case gj_cap_alloc_install pCnode (res_u16Type res) (res_u16Rights res)
                    (Some (res_pObj res)) s of
               (Inl st, s) \<Rightarrow> (Inl st, s)
             | (Inr ref, s) \<Rightarrow>
                 (let s = gj_cdt_unlink_slot (Some (res_pObj res)) pCnode u64SrcSlot s;
                      s = cdt_edge_try_wire (res_pObj res) pCnode (ref_u64Slot ref) s;
                      s = cnode_refund pCnode s;
                      s = gj_cap_slot_invalidate_locked (res_pSlot res) (Some (res_pObj res)) s
                  in (Inr ref, s))))"

definition gj_cap_delete ::
  "ptr \<Rightarrow> u64 \<Rightarrow> u32 \<Rightarrow> 'a cap_state_scheme \<Rightarrow> gj_status \<times> 'a cap_state_scheme" where
  "gj_cap_delete pCnode u64Slot u32SlotGen s =
     (case gj_cap_resolve s pCnode u64Slot u32SlotGen of
        Inl st \<Rightarrow> (st, s)
      | Inr res \<Rightarrow>
          if u64Slot = GJ_CAP_SLOT_ROOT_META then (GJ_ERR_PERM, s)
          else if res_u16Rights res AND GJ_RIGHT_DESTROY = 0
              \<and> res_u16Rights res AND GJ_RIGHT_GRANT = 0
            then (GJ_ERR_PERM, s)
          else
            (let s = gj_cdt_unlink_slot (Some (res_pObj res)) pCnode u64Slot s;
                 s = cnode_refund pCnode s;
                 s = gj_cap_slot_invalidate_locked (res_pSlot res) (Some (res_pObj res)) s
             in (GJ_OK, s)))"

end
