(* ===== verification/GJ_Interfaces.thy ===== *)
theory GJ_Interfaces
  imports GJ_Prelude
begin

text \<open>
  Contracts that several components of the kernel offer their clients, as locales: a pool that
  hands out and takes back the members of a fixed finite set, and a transition system whose steps
  keep an invariant.  Each component theory interprets the locale it implements on its own
  operations.
\<close>

section \<open>Transition systems\<close>

text \<open>The states a component can be in: those its steps lead to from its initial ones.\<close>

inductive reach :: "('s \<Rightarrow> bool) \<Rightarrow> ('s \<Rightarrow> 's \<Rightarrow> bool) \<Rightarrow> 's \<Rightarrow> bool"
  for init :: "'s \<Rightarrow> bool" and step :: "'s \<Rightarrow> 's \<Rightarrow> bool" where
  reach_init: "init s \<Longrightarrow> reach init step s"
| reach_step: "reach init step s \<Longrightarrow> step s t \<Longrightarrow> reach init step t"

lemma reach_run:
  assumes "reach init step s" and "step\<^sup>*\<^sup>* s t"
  shows "reach init step t"
  using assms(2,1) by (induction rule: rtranclp_induct) (auto intro: reach_step)

locale kept =
  fixes step :: "'s \<Rightarrow> 's \<Rightarrow> bool" and inv :: "'s \<Rightarrow> bool"
  assumes step_keeps: "step s t \<Longrightarrow> inv s \<Longrightarrow> inv t"
begin

lemma run_keeps: "step\<^sup>*\<^sup>* s t \<Longrightarrow> inv s \<Longrightarrow> inv t"
  by (induction rule: rtranclp_induct) (auto intro: step_keeps)

end

locale inv_system = kept step inv
  for step :: "'s \<Rightarrow> 's \<Rightarrow> bool" and inv :: "'s \<Rightarrow> bool" +
  fixes init :: "'s \<Rightarrow> bool"
  assumes init_holds: "init s \<Longrightarrow> inv s"
begin

lemma reach_holds: "reach init step s \<Longrightarrow> inv s"
  by (induction rule: reach.induct) (auto intro: init_holds step_keeps)

end

section \<open>Bounded queues\<close>

text \<open>The newest \<open>n\<close> members of a list.\<close>

definition newest :: "nat \<Rightarrow> 'a list \<Rightarrow> 'a list" where
  "newest n xs = drop (length xs - n) xs"

lemma newest_all [simp]: "length xs \<le> n \<Longrightarrow> newest n xs = xs"
  by (simp add: newest_def)

lemma newest_snoc: "0 < n \<Longrightarrow> newest n (newest n xs @ [x]) = newest n (xs @ [x])"
proof -
  assume "0 < n"
  then have "Suc (length xs) - (length xs - n + n) + (length xs - n) = Suc (length xs) - n" by arith
  then show ?thesis by (simp add: newest_def)
qed

text \<open>A queue that holds the newest \<open>cap\<close> members of what was put in.\<close>

locale newest_queue =
  fixes ok :: "'s \<Rightarrow> bool" and items :: "'s \<Rightarrow> 'a list" and cap :: nat and push :: "'a \<Rightarrow> 's \<Rightarrow> 's"
  assumes cap_pos: "0 < cap"
    and items_cap: "ok s \<Longrightarrow> length (items s) \<le> cap"
    and push_items: "ok s \<Longrightarrow> ok (push a s) \<and> items (push a s) = newest cap (items s @ [a])"
begin

lemma push_all: "ok s \<Longrightarrow> ok (fold push as s) \<and> items (fold push as s) = newest cap (items s @ as)"
proof (induction as rule: rev_induct)
  case Nil
  then show ?case using items_cap by simp
next
  case (snoc a as)
  then have "ok (fold push as s)" "items (fold push as s) = newest cap (items s @ as)" by auto
  then show ?case using push_items [of "fold push as s" a] newest_snoc [OF cap_pos, of "items s @ as" a] by simp
qed

end

section \<open>Pools\<close>

text \<open>Allocate \<open>n\<close> times, collecting what is handed out; stop at the first refusal.\<close>

primrec alloc_many :: "('s \<Rightarrow> 'a option \<times> 's) \<Rightarrow> nat \<Rightarrow> 's \<Rightarrow> 'a list \<times> 's" where
  "alloc_many alloc 0 s = ([], s)"
| "alloc_many alloc (Suc n) s =
     (case alloc s of
        (None, t) \<Rightarrow> ([], t)
      | (Some a, t) \<Rightarrow> (case alloc_many alloc n t of (as, u) \<Rightarrow> (a # as, u)))"

locale pool =
  fixes ok :: "'s \<Rightarrow> bool" and used :: "'s \<Rightarrow> 'a set" and members :: "'a set"
    and alloc :: "'s \<Rightarrow> 'a option \<times> 's" and free :: "'a \<Rightarrow> 's \<Rightarrow> 's"
  assumes finite_members: "finite members"
    and used_members: "ok s \<Longrightarrow> used s \<subseteq> members"
    and alloc_Some: "ok s \<Longrightarrow> alloc s = (Some a, t) \<Longrightarrow>
      ok t \<and> a \<in> members - used s \<and> used t = insert a (used s)"
    and alloc_None: "ok s \<Longrightarrow> alloc s = (None, t) \<Longrightarrow> t = s \<and> used s = members"
    and free_used: "ok s \<Longrightarrow> a \<in> used s \<Longrightarrow> ok (free a s) \<and> used (free a s) = used s - {a}"
begin

lemma alloc_succeeds:
  assumes "ok s"
  shows "(\<exists>a. fst (alloc s) = Some a) \<longleftrightarrow> used s \<noteq> members"
proof (cases "alloc s")
  case (Pair r t)
  show ?thesis
  proof (cases r)
    case None
    with alloc_None [OF assms] Pair show ?thesis by simp
  next
    case (Some a)
    with alloc_Some [OF assms] Pair show ?thesis by auto
  qed
qed

lemma alloc_free:
  assumes "ok s" and "alloc s = (Some a, t)"
  shows "ok (free a t) \<and> used (free a t) = used s"
  using alloc_Some [OF assms] free_used [of t a] by auto

lemma alloc_many_spec:
  assumes "ok s" and "n \<le> card (members - used s)" and "alloc_many alloc n s = (as, t)"
  shows "length as = n \<and> distinct as \<and> set as \<subseteq> members - used s
    \<and> used t = used s \<union> set as \<and> ok t"
  using assms
proof (induction n arbitrary: s as)
  case (Suc n)
  have fin: "finite (members - used s)" by (simp add: finite_members)
  have "members - used s \<noteq> {}" using Suc.prems(2) by (metis card.empty not_less_eq_eq le0)
  then obtain a u where a: "alloc s = (Some a, u)"
    using alloc_succeeds [OF Suc.prems(1)] by (metis Diff_cancel prod.collapse)
  note al = alloc_Some [OF Suc.prems(1) a]
  obtain bs where bs: "alloc_many alloc n u = (bs, t)" "as = a # bs"
    using Suc.prems(3) a by (auto split: prod.splits)
  have "members - used u = (members - used s) - {a}" using al by auto
  then have "n \<le> card (members - used u)" using Suc.prems(2) al fin by simp
  from Suc.IH [OF _ this bs(1)] al bs(2) show ?case by auto
qed simp

lemma alloc_many_exhausts:
  assumes "ok s" and "alloc_many alloc (card (members - used s)) s = (as, t)"
  shows "used t = members \<and> alloc t = (None, t)"
proof -
  note sp = alloc_many_spec [OF assms(1) order_refl assms(2)]
  have "card (set as) = card (members - used s)" using sp by (simp add: distinct_card)
  then have "set as = members - used s"
    using sp finite_members by (intro card_subset_eq) auto
  then have full: "used t = members" using sp used_members [OF assms(1)] by auto
  obtain r u where r: "alloc t = (r, u)" by (cases "alloc t")
  show ?thesis
  proof (cases r)
    case None
    with alloc_None [of t u] sp r full show ?thesis by simp
  next
    case (Some a)
    with alloc_Some [of t a u] sp r full show ?thesis by blast
  qed
qed

end

end
