(* ===== verification/Cap_Inv.thy ===== *)
theory Cap_Inv
  imports Cap_Cnode GJ_Interfaces
begin

text \<open>
  Frame and invariant lemmas of the capability tables: what each operation of
  \<^verbatim>\<open>Cap_Cnode\<close> leaves unchanged, the table invariant, the binding count behind
  \<^verbatim>\<open>u32SlotsLeft\<close>, and the abstract binding map the operations implement.
\<close>

section \<open>Specification vocabulary\<close>

text \<open>Two states that differ in derivation edges (lists, storage, pool) and quotas only.\<close>

definition same_caps :: "'a cap_state_scheme \<Rightarrow> 'a cap_state_scheme \<Rightarrow> bool" where
  "same_caps s t \<longleftrightarrow> st_cnodes t = st_cnodes s
     \<and> (\<forall>ob. (st_objs t ob)\<lparr>hdr_pCdtHead := []\<rparr> = (st_objs s ob)\<lparr>hdr_pCdtHead := []\<rparr>)"

text \<open>The table invariant: slot generations are never 0, free slots name no object, bound slots
  name one, and the root-meta type and slot 0 belong together.\<close>

definition wf_slot :: "gj_cap_slot \<Rightarrow> bool" where
  "wf_slot sl \<longleftrightarrow> slot_u32Gen sl \<noteq> 0
     \<and> (slot_u16Type sl = GJ_CAP_INVALID \<longleftrightarrow> slot_pObj sl = None)"

definition wf_cnode :: "gj_cnode \<Rightarrow> bool" where
  "wf_cnode cn = (case cn_pSlots cn of
      None \<Rightarrow> True
    | Some ss \<Rightarrow> length ss = unat (cn_cSlots cn) \<and> (\<forall>sl \<in> set ss. wf_slot sl)
        \<and> (\<forall>i < length ss. slot_u16Type (ss ! i) \<noteq> GJ_CAP_INVALID \<longrightarrow>
              (slot_u16Type (ss ! i) = GJ_CAP_ROOT_META \<longleftrightarrow> i = 0)))"

definition wf_caps :: "'a cap_state_scheme \<Rightarrow> bool" where
  "wf_caps s \<longleftrightarrow> (\<forall>c. wf_cnode (st_cnodes s c))"

text \<open>The number of slots of the CNodes \<open>C\<close> bound to an object.\<close>

definition binds :: "nat \<Rightarrow> gj_cap_slot \<Rightarrow> bool" where
  "binds ob sl \<longleftrightarrow> slot_u16Type sl \<noteq> GJ_CAP_INVALID \<and> slot_pObj sl = Some ob"

definition slot_refs :: "nat set \<Rightarrow> 'a cap_state_scheme \<Rightarrow> nat \<Rightarrow> nat" where
  "slot_refs C s ob = (\<Sum>c\<in>C. length (filter (binds ob) (slots_of s c)))"

definition acct_ok :: "nat set \<Rightarrow> 'a cap_state_scheme \<Rightarrow> bool" where
  "acct_ok C s \<longleftrightarrow> (\<forall>ob. unat (hdr_u32SlotsLeft (st_objs s ob)) = slot_refs C s ob)"

text \<open>The abstract view of the tables: a partial map from (CNode, slot) to a binding.\<close>

record binding =
  b_type :: u16
  b_rights :: u16
  b_gen :: u32
  b_obj :: nat

definition slot_binding :: "gj_cap_slot \<Rightarrow> binding option" where
  "slot_binding sl =
     (if slot_u16Type sl = GJ_CAP_INVALID then None
      else map_option (\<lambda>ob. \<lparr>b_type = slot_u16Type sl, b_rights = slot_u16Rights sl,
             b_gen = slot_u32ObjGen sl, b_obj = ob\<rparr>) (slot_pObj sl))"

definition cap_map :: "'a cap_state_scheme \<Rightarrow> nat \<times> nat \<Rightarrow> binding option" where
  "cap_map s = (\<lambda>(c, i). if i < length (slots_of s c) then slot_binding (slots_of s c ! i) else None)"

text \<open>The two changes the operations make to the tables: binding a free slot and clearing a
  bound one, with the object's count of bindings.\<close>

definition bind_slot ::
  "nat \<Rightarrow> u64 \<Rightarrow> u16 \<Rightarrow> u16 \<Rightarrow> nat \<Rightarrow> 'a cap_state_scheme \<Rightarrow> 'a cap_state_scheme" where
  "bind_slot c i ty rt ob s =
     upd_obj ob (\<lambda>h. h\<lparr>hdr_u32SlotsLeft := hdr_u32SlotsLeft h + 1\<rparr>)
       (upd_slot c i (\<lambda>sl. sl\<lparr>slot_u16Type := ty, slot_u16Rights := rt,
          slot_u32ObjGen := hdr_u32Gen (st_objs s ob), slot_pObj := Some ob\<rparr>) s)"

definition unbind_slot :: "nat \<Rightarrow> u64 \<Rightarrow> nat \<Rightarrow> 'a cap_state_scheme \<Rightarrow> 'a cap_state_scheme" where
  "unbind_slot c i ob s = upd_slot c i gj_cap_slot_invalidate (upd_obj ob slots_left_dec s)"

text \<open>When a slot may be bound to an object.\<close>

definition can_bind :: "'a cap_state_scheme \<Rightarrow> nat \<Rightarrow> u64 \<Rightarrow> u16 \<Rightarrow> nat \<Rightarrow> bool" where
  "can_bind s c i ty ob \<longleftrightarrow>
     cn_pSlots (st_cnodes s c) \<noteq> None \<and> i < cn_cSlots (st_cnodes s c) \<and> ty \<noteq> GJ_CAP_INVALID
     \<and> hdr_u32State (st_objs s ob) = GJ_OBJ_LIVE \<and> hdr_u32Gen (st_objs s ob) \<noteq> 0
     \<and> (i = GJ_CAP_SLOT_ROOT_META \<longleftrightarrow> ty = GJ_CAP_ROOT_META)
     \<and> slot_u16Type (slot_at s c i) = GJ_CAP_INVALID
     \<and> hdr_u32SlotsLeft (st_objs s ob) \<noteq> 0xffffffff"

section \<open>Stores\<close>

lemma slots_of_upd_slot [simp]:
  "slots_of (upd_slot c i f s) d =
     (if d = c then (slots_of s c)[unat i := f (slots_of s c ! unat i)] else slots_of s d)"
  by (auto simp: slots_of_def upd_slot_def split: option.splits)

lemma slots_of_upd_obj [simp]: "slots_of (upd_obj ob f s) = slots_of s"
  by (simp add: slots_of_def upd_obj_def fun_eq_iff)

lemma upd_slot_frame [simp]:
  "st_objs (upd_slot c i f s) = st_objs s"
  "st_quotas (upd_slot c i f s) = st_quotas s"
  "st_edges (upd_slot c i f s) = st_edges s"
  "g_aCdtUsed (upd_slot c i f s) = g_aCdtUsed s"
  "g_u32CdtPoolUsed (upd_slot c i f s) = g_u32CdtPoolUsed s"
  "cn_cSlots (st_cnodes (upd_slot c i f s) d) = cn_cSlots (st_cnodes s d)"
  "cn_u32SoftLock (st_cnodes (upd_slot c i f s) d) = cn_u32SoftLock (st_cnodes s d)"
  "cn_pQuotaAccount (st_cnodes (upd_slot c i f s) d) = cn_pQuotaAccount (st_cnodes s d)"
  "cn_pSlots (st_cnodes (upd_slot c i f s) d) = None \<longleftrightarrow> cn_pSlots (st_cnodes s d) = None"
  by (simp_all add: upd_slot_def)

lemma upd_obj_frame [simp]:
  "st_cnodes (upd_obj ob f s) = st_cnodes s"
  "st_quotas (upd_obj ob f s) = st_quotas s"
  "st_edges (upd_obj ob f s) = st_edges s"
  "g_aCdtUsed (upd_obj ob f s) = g_aCdtUsed s"
  "g_u32CdtPoolUsed (upd_obj ob f s) = g_u32CdtPoolUsed s"
  "st_objs (upd_obj ob f s) = (st_objs s)(ob := f (st_objs s ob))"
  by (simp_all add: upd_obj_def)

lemma slots_of_more [simp]:
  "slots_of (s\<lparr>st_quotas := q\<rparr>) = slots_of s"
  "slots_of (s\<lparr>st_edges := e\<rparr>) = slots_of s"
  "slots_of (s\<lparr>g_aCdtUsed := u\<rparr>) = slots_of s"
  "slots_of (s\<lparr>g_u32CdtPoolUsed := n\<rparr>) = slots_of s"
  by (simp_all add: slots_of_def fun_eq_iff)

lemma slots_of_Nil: "cn_pSlots (st_cnodes s c) = None \<Longrightarrow> slots_of s c = []"
  by (simp add: slots_of_def)

section \<open>Derivation-edge operations leave the tables alone\<close>

lemma same_caps_refl [simp]: "same_caps s s"
  by (simp add: same_caps_def)

lemma same_caps_trans [trans]: "same_caps s t \<Longrightarrow> same_caps t u \<Longrightarrow> same_caps s u"
  by (simp add: same_caps_def)

lemma same_capsD:
  assumes "same_caps s t"
  shows "st_cnodes t = st_cnodes s" and "slots_of t = slots_of s"
    and "hdr_u32State (st_objs t ob) = hdr_u32State (st_objs s ob)"
    and "hdr_u32Gen (st_objs t ob) = hdr_u32Gen (st_objs s ob)"
    and "hdr_u32Ref (st_objs t ob) = hdr_u32Ref (st_objs s ob)"
    and "hdr_u32Pin (st_objs t ob) = hdr_u32Pin (st_objs s ob)"
    and "hdr_u32SlotsLeft (st_objs t ob) = hdr_u32SlotsLeft (st_objs s ob)"
proof -
  have eq: "(st_objs t ob)\<lparr>hdr_pCdtHead := []\<rparr> = (st_objs s ob)\<lparr>hdr_pCdtHead := []\<rparr>"
    and cn: "st_cnodes t = st_cnodes s"
    using assms by (simp_all add: same_caps_def)
  show "st_cnodes t = st_cnodes s" "slots_of t = slots_of s"
    using cn by (simp_all add: slots_of_def fun_eq_iff)
  show "hdr_u32State (st_objs t ob) = hdr_u32State (st_objs s ob)"
    using arg_cong [OF eq, of hdr_u32State] by simp
  show "hdr_u32Gen (st_objs t ob) = hdr_u32Gen (st_objs s ob)"
    using arg_cong [OF eq, of hdr_u32Gen] by simp
  show "hdr_u32Ref (st_objs t ob) = hdr_u32Ref (st_objs s ob)"
    using arg_cong [OF eq, of hdr_u32Ref] by simp
  show "hdr_u32Pin (st_objs t ob) = hdr_u32Pin (st_objs s ob)"
    using arg_cong [OF eq, of hdr_u32Pin] by simp
  show "hdr_u32SlotsLeft (st_objs t ob) = hdr_u32SlotsLeft (st_objs s ob)"
    using arg_cong [OF eq, of hdr_u32SlotsLeft] by simp
qed

lemma same_caps_edge_alloc: "same_caps s (snd (cdt_edge_alloc s))"
  by (auto simp: cdt_edge_alloc_def same_caps_def split: option.splits)

lemma same_caps_edge_free: "same_caps s (cdt_edge_free p s)"
  by (auto simp: cdt_edge_free_def same_caps_def split: option.splits)

lemma same_caps_edge_link: "same_caps s (snd (gj_cdt_edge_link p e c i s))"
  by (auto simp: gj_cdt_edge_link_def same_caps_def split: option.splits)

lemma same_caps_edge_unlink: "same_caps s (gj_cdt_edge_unlink p e s)"
proof (cases "\<exists>ob w. p = Some ob \<and> e = Some w \<and> w \<in> set (hdr_pCdtHead (st_objs s ob))")
  case True
  then obtain ob w where eq: "p = Some ob" "e = Some w" "w \<in> set (hdr_pCdtHead (st_objs s ob))"
    by blast
  let ?t = "upd_obj ob (\<lambda>h. h\<lparr>hdr_pCdtHead := remove1 w (hdr_pCdtHead h)\<rparr>) s"
  let ?u = "?t\<lparr>st_edges := (st_edges ?t)(w := empty_edge)\<rparr>"
  have "same_caps s ?u" by (simp add: same_caps_def)
  also have "same_caps ?u (cdt_edge_free (Some w) ?u)" by (rule same_caps_edge_free)
  finally show ?thesis using eq by (simp add: gj_cdt_edge_unlink_def Let_def)
next
  case False
  then have "gj_cdt_edge_unlink p e s = s"
    by (auto simp: gj_cdt_edge_unlink_def split: option.splits)
  then show ?thesis by simp
qed

lemma same_caps_unlink_loop: "same_caps s (unlink_slot_loop ob c i ws s)"
proof (induction ws arbitrary: s)
  case (Cons w ws)
  show ?case
    using same_caps_trans [OF same_caps_edge_unlink Cons.IH] Cons.IH by simp
qed simp

lemma same_caps_unlink_slot: "same_caps s (gj_cdt_unlink_slot p c i s)"
  by (auto simp: gj_cdt_unlink_slot_def same_caps_unlink_loop split: option.splits)

lemma same_caps_try_wire: "same_caps s (cdt_edge_try_wire ob c i s)"
proof -
  obtain r t where al: "cdt_edge_alloc s = (r, t)" by (cases "cdt_edge_alloc s")
  have st: "same_caps s t" using same_caps_edge_alloc [of s] al by simp
  show ?thesis
  proof (cases r)
    case None
    with al st show ?thesis by (simp add: cdt_edge_try_wire_def)
  next
    case (Some e)
    obtain rc u where li: "gj_cdt_edge_link (Some ob) (Some e) c i t = (rc, u)"
      by (cases "gj_cdt_edge_link (Some ob) (Some e) c i t")
    have "same_caps t u" using same_caps_edge_link [of t "Some ob" "Some e" c i] li by simp
    with st have su: "same_caps s u" by (rule same_caps_trans)
    have "same_caps s (cdt_edge_free (Some e) u)" by (rule same_caps_trans [OF su same_caps_edge_free])
    with su al Some li show ?thesis by (simp add: cdt_edge_try_wire_def)
  qed
qed

lemma same_caps_quotas [simp]: "same_caps s (s\<lparr>st_quotas := q\<rparr>)"
  by (simp add: same_caps_def)

lemma same_caps_refund: "same_caps s (cnode_refund p s)"
  by (simp add: cnode_refund_def split: option.split)

lemma cap_map_same: "same_caps s t \<Longrightarrow> cap_map t = cap_map s"
  by (drule same_capsD(2)) (simp add: cap_map_def fun_eq_iff)

lemma wf_caps_same: "same_caps s t \<Longrightarrow> wf_caps t = wf_caps s"
  by (simp add: wf_caps_def same_capsD(1))

lemma slot_refs_same: "same_caps s t \<Longrightarrow> slot_refs C t = slot_refs C s"
  by (simp add: slot_refs_def same_capsD(2) fun_eq_iff)

lemma acct_ok_same: "same_caps s t \<Longrightarrow> acct_ok C t = acct_ok C s"
  by (simp add: acct_ok_def slot_refs_same same_capsD)

section \<open>Install as a binding of a free slot\<close>

lemma slot_at_quotas [simp]: "slot_at (s\<lparr>st_quotas := q\<rparr>) c i = slot_at s c i"
  by (simp add: slot_at_def)

lemma install_Inl:
  assumes "gj_cap_slot_install p i ty rt q s = (Inl st, t)"
  shows "same_caps s t"
  using assms
  by (auto simp: gj_cap_slot_install_def Let_def split: option.splits if_splits prod.splits)

lemma install_cases:
  assumes "gj_cap_slot_install p i ty rt q s = (r, t)"
  obtains (Fail) st where "r = Inl st" "same_caps s t"
    | (Bind) c ob qs where "p = Some c" "q = Some ob" "can_bind s c i ty ob"
        "gj_cap_quota_slot_charge (st_quotas s) (cn_pQuotaAccount (st_cnodes s c)) = (GJ_OK, qs)"
        "t = bind_slot c i ty rt ob (s\<lparr>st_quotas := qs\<rparr>)"
        "r = Inr (gj_cap_ref_make i (slot_u32Gen (slot_at t c i)))"
proof (cases r)
  case (Inl st)
  with assms show ?thesis using Fail install_Inl by blast
next
  case (Inr ref)
  with assms obtain c ob qs where
    eq: "p = Some c" "q = Some ob"
      "gj_cap_quota_slot_charge (st_quotas s) (cn_pQuotaAccount (st_cnodes s c)) = (GJ_OK, qs)"
      "t = bind_slot c i ty rt ob (s\<lparr>st_quotas := qs\<rparr>)"
      "ref = gj_cap_ref_make i (slot_u32Gen (slot_at t c i))"
      "can_bind s c i ty ob"
    unfolding gj_cap_slot_install_def can_bind_def Let_def bind_slot_def
    by (auto simp: not_le split: option.splits if_splits prod.splits)
  with Inr show ?thesis using Bind by blast
qed

lemma find_SomeD:
  "find P xs = Some x \<Longrightarrow> x \<in> set xs \<and> P x"
  by (metis find_Some_iff nth_mem)

lemma alloc_install_cases:
  assumes "gj_cap_alloc_install p ty rt q s = (r, t)"
  obtains (Fail) st where "r = Inl st" "same_caps s t"
    | (Bind) c ob i qs where "p = Some c" "q = Some ob" "can_bind s c i ty ob"
        "gj_cap_quota_slot_charge (st_quotas s) (cn_pQuotaAccount (st_cnodes s c)) = (GJ_OK, qs)"
        "t = bind_slot c i ty rt ob (s\<lparr>st_quotas := qs\<rparr>)"
        "r = Inr (gj_cap_ref_make i (slot_u32Gen (slot_at t c i)))"
proof -
  from assms consider (A) st where "r = Inl st" "t = s"
    | (B) i where "gj_cap_slot_install p i ty rt q s = (r, t)"
    unfolding gj_cap_alloc_install_def by (auto split: option.splits if_splits)
  then show ?thesis
  proof cases
    case A
    then show ?thesis using Fail by simp
  next
    case B
    then show ?thesis using Fail Bind by (cases rule: install_cases) blast+
  qed
qed

section \<open>Resolve\<close>

lemma resolve_Inr:
  "gj_cap_resolve s p i g = Inr res \<longleftrightarrow>
     (\<exists>c ob. p = Some c \<and> cn_pSlots (st_cnodes s c) \<noteq> None \<and> i < cn_cSlots (st_cnodes s c) \<and> g \<noteq> 0
        \<and> slot_u16Type (slot_at s c i) \<noteq> GJ_CAP_INVALID \<and> slot_u32Gen (slot_at s c i) = g
        \<and> slot_pObj (slot_at s c i) = Some ob
        \<and> hdr_u32State (st_objs s ob) = GJ_OBJ_LIVE
        \<and> hdr_u32Gen (st_objs s ob) = slot_u32ObjGen (slot_at s c i)
        \<and> res = \<lparr>res_pSlot = (c, i), res_pObj = ob, res_u16Type = slot_u16Type (slot_at s c i),
                 res_u16Rights = slot_u16Rights (slot_at s c i)\<rparr>)"
proof -
  have "i < n \<Longrightarrow> n \<noteq> 0" for n :: u64 by auto
  then show ?thesis
    unfolding gj_cap_resolve_def gj_obj_check_live_def Let_def
    by (auto simp: not_le split: option.splits if_splits)
qed

lemma wf_caps_slots:
  assumes "wf_caps s" and "cn_pSlots (st_cnodes s c) \<noteq> None"
  shows "length (slots_of s c) = unat (cn_cSlots (st_cnodes s c))"
    and "\<forall>sl \<in> set (slots_of s c). wf_slot sl"
    and "\<forall>i < length (slots_of s c). slot_u16Type (slots_of s c ! i) \<noteq> GJ_CAP_INVALID \<longrightarrow>
          (slot_u16Type (slots_of s c ! i) = GJ_CAP_ROOT_META \<longleftrightarrow> i = 0)"
  using assms unfolding wf_caps_def wf_cnode_def slots_of_def
  by (auto split: option.splits dest: spec [of _ c])

lemma wf_slot_index:
  assumes "wf_caps s" and "cn_pSlots (st_cnodes s c) \<noteq> None" and "i < cn_cSlots (st_cnodes s c)"
  shows "unat i < length (slots_of s c)" and "wf_slot (slot_at s c i)"
  using wf_caps_slots [OF assms(1,2)] assms(3)
  by (simp_all add: word_less_nat_alt slot_at_def)

section \<open>Binding and clearing a slot\<close>

lemma bind_slot_frame [simp]:
  "st_quotas (bind_slot c i ty rt ob s) = st_quotas s"
  "cn_cSlots (st_cnodes (bind_slot c i ty rt ob s) d) = cn_cSlots (st_cnodes s d)"
  "cn_pSlots (st_cnodes (bind_slot c i ty rt ob s) d) = None \<longleftrightarrow> cn_pSlots (st_cnodes s d) = None"
  "hdr_u32State (st_objs (bind_slot c i ty rt ob s) x) = hdr_u32State (st_objs s x)"
  "hdr_u32Gen (st_objs (bind_slot c i ty rt ob s) x) = hdr_u32Gen (st_objs s x)"
  by (simp_all add: bind_slot_def)

lemma slots_left_dec_frame [simp]:
  "hdr_u32State (slots_left_dec h) = hdr_u32State h"
  "hdr_u32Gen (slots_left_dec h) = hdr_u32Gen h"
  "hdr_u32Ref (slots_left_dec h) = hdr_u32Ref h"
  "hdr_u32Pin (slots_left_dec h) = hdr_u32Pin h"
  "hdr_pCdtHead (slots_left_dec h) = hdr_pCdtHead h"
  by (simp_all add: slots_left_dec_def)

lemma unbind_slot_frame [simp]:
  "st_quotas (unbind_slot c i ob s) = st_quotas s"
  "cn_cSlots (st_cnodes (unbind_slot c i ob s) d) = cn_cSlots (st_cnodes s d)"
  "cn_pSlots (st_cnodes (unbind_slot c i ob s) d) = None \<longleftrightarrow> cn_pSlots (st_cnodes s d) = None"
  "hdr_u32State (st_objs (unbind_slot c i ob s) x) = hdr_u32State (st_objs s x)"
  "hdr_u32Gen (st_objs (unbind_slot c i ob s) x) = hdr_u32Gen (st_objs s x)"
  by (simp_all add: unbind_slot_def)

lemma slot_invalidate_fields [simp]:
  "wf_slot (gj_cap_slot_invalidate sl)"
  "slot_u16Type (gj_cap_slot_invalidate sl) = GJ_CAP_INVALID"
  "\<not> binds x (gj_cap_slot_invalidate sl)"
  by (simp_all add: wf_slot_def binds_def gj_cap_slot_invalidate_def)

lemma wf_cnode_more [simp]:
  "wf_cnode (cn\<lparr>cn_u32SoftLock := v\<rparr>) = wf_cnode cn"
  "wf_cnode (cn\<lparr>cn_pQuotaAccount := q\<rparr>) = wf_cnode cn"
  by (simp_all add: wf_cnode_def split: option.split)

lemma wf_caps_upd_slot:
  assumes wf: "wf_caps s" and idx: "cn_pSlots (st_cnodes s c) \<noteq> None" "i < cn_cSlots (st_cnodes s c)"
    and new: "wf_slot (f (slot_at s c i))"
      "slot_u16Type (f (slot_at s c i)) \<noteq> GJ_CAP_INVALID \<longrightarrow>
        (slot_u16Type (f (slot_at s c i)) = GJ_CAP_ROOT_META \<longleftrightarrow> i = 0)"
  shows "wf_caps (upd_slot c i f s)"
proof -
  from idx obtain ss where ss: "cn_pSlots (st_cnodes s c) = Some ss" by auto
  have sl: "slots_of s c = ss" by (simp add: slots_of_def ss)
  note wfc = wf_caps_slots [OF wf idx(1), unfolded sl]
  have at: "slot_at s c i = ss ! unat i" by (simp add: slot_at_def sl)
  have i0: "unat i = 0 \<longleftrightarrow> i = 0" by (simp add: unat_eq_zero)
  let ?ss = "ss[unat i := f (ss ! unat i)]"
  have "\<forall>sl \<in> set ?ss. wf_slot sl"
    using wfc(2) new(1) by (auto simp: at dest: set_update_subset_insert [THEN subsetD])
  moreover have "\<forall>k < length ?ss. slot_u16Type (?ss ! k) \<noteq> GJ_CAP_INVALID \<longrightarrow>
      (slot_u16Type (?ss ! k) = GJ_CAP_ROOT_META \<longleftrightarrow> k = 0)"
  proof (intro allI)
    fix k
    show "k < length ?ss \<longrightarrow> slot_u16Type (?ss ! k) \<noteq> GJ_CAP_INVALID \<longrightarrow>
        (slot_u16Type (?ss ! k) = GJ_CAP_ROOT_META \<longleftrightarrow> k = 0)"
      using wfc(3) new(2) by (cases "k = unat i") (auto simp: at i0)
  qed
  moreover have "length ?ss = unat (cn_cSlots (st_cnodes s c))"
    using wfc(1) by simp
  ultimately have "wf_cnode ((st_cnodes s c)\<lparr>cn_pSlots := Some ?ss\<rparr>)"
    by (simp add: wf_cnode_def)
  with wf show ?thesis
    unfolding wf_caps_def upd_slot_def by (simp add: ss)
qed

lemma wf_caps_upd_obj [simp]: "wf_caps (upd_obj ob f s) = wf_caps s"
  by (simp add: wf_caps_def)

lemma wf_caps_bind:
  assumes "wf_caps s" and "can_bind s c i ty ob"
  shows "wf_caps (bind_slot c i ty rt ob s)"
proof -
  have "wf_slot (slot_at s c i)" using assms wf_slot_index(2) by (auto simp: can_bind_def)
  with assms show ?thesis
    unfolding bind_slot_def wf_caps_upd_obj
    by (intro wf_caps_upd_slot) (auto simp: can_bind_def wf_slot_def)
qed

lemma wf_caps_unbind:
  assumes "wf_caps s" and "cn_pSlots (st_cnodes s c) \<noteq> None" and "i < cn_cSlots (st_cnodes s c)"
  shows "wf_caps (unbind_slot c i ob s)"
  unfolding unbind_slot_def using assms
  by (intro wf_caps_upd_slot) auto

lemma slot_refs_upd_slot:
  assumes "finite C" and "c \<in> C" and "unat i < length (slots_of s c)"
  shows "slot_refs C (upd_slot c i f s) x + of_bool (binds x (slot_at s c i))
    = slot_refs C s x + of_bool (binds x (f (slot_at s c i)))"
  unfolding slot_refs_def
proof (rule sum_update_one [OF assms(1,2)])
  show "length (filter (binds x) (slots_of (upd_slot c i f s) d)) = length (filter (binds x) (slots_of s d))"
    if "d \<noteq> c" for d using that by simp
  show "length (filter (binds x) (slots_of (upd_slot c i f s) c)) + of_bool (binds x (slot_at s c i))
      = length (filter (binds x) (slots_of s c)) + of_bool (binds x (f (slot_at s c i)))"
    using length_filter_update [OF assms(3)] by (simp add: slot_at_def)
qed

lemma slot_refs_upd_obj [simp]: "slot_refs C (upd_obj ob f s) x = slot_refs C s x"
  by (simp add: slot_refs_def)

lemma acct_bind:
  assumes ac: "acct_ok C s" and C: "finite C" "c \<in> C" and wf: "wf_caps s" and cb: "can_bind s c i ty ob"
  shows "acct_ok C (bind_slot c i ty rt ob s)"
proof -
  have idx: "unat i < length (slots_of s c)"
    using cb wf_slot_index(1) [OF wf] by (auto simp: can_bind_def)
  let ?f = "\<lambda>sl. sl\<lparr>slot_u16Type := ty, slot_u16Rights := rt,
      slot_u32ObjGen := hdr_u32Gen (st_objs s ob), slot_pObj := Some ob\<rparr>"
  have refs: "slot_refs C (upd_slot c i ?f s) x = slot_refs C s x + of_bool (x = ob)" for x
    using slot_refs_upd_slot [OF C idx, of ?f x] cb by (simp add: binds_def can_bind_def)
  have "hdr_u32SlotsLeft (st_objs s ob) + 1 \<noteq> 0"
    using cb by (auto simp: can_bind_def add_eq_0_iff2)
  then have inc: "unat (hdr_u32SlotsLeft (st_objs s ob) + 1) = Suc (unat (hdr_u32SlotsLeft (st_objs s ob)))"
    by (rule unat_inc)
  show ?thesis using ac unfolding acct_ok_def bind_slot_def by (auto simp: refs inc)
qed

lemma acct_unbind:
  assumes ac: "acct_ok C s" and C: "finite C" "c \<in> C" and idx: "unat i < length (slots_of s c)"
    and bound: "binds ob (slot_at s c i)"
  shows "acct_ok C (unbind_slot c i ob s)"
proof -
  have eq: "slot_refs C (unbind_slot c i ob s) x + of_bool (x = ob) = slot_refs C s x" for x
    using slot_refs_upd_slot [of C c i "upd_obj ob slots_left_dec s" gj_cap_slot_invalidate x]
      C idx bound
    unfolding unbind_slot_def
    by (auto simp: slot_at_def binds_def [of _ "slots_of s c ! unat i"])
  have "0 < slot_refs C s ob" using eq [of ob] by simp
  then have "0 < hdr_u32SlotsLeft (st_objs s ob)"
    using ac by (simp add: acct_ok_def word_less_nat_alt)
  then have "unat (hdr_u32SlotsLeft (slots_left_dec (st_objs s ob))) = unat (hdr_u32SlotsLeft (st_objs s ob)) - 1"
    by (simp add: slots_left_dec_def unat_dec)
  with ac eq [symmetric] show ?thesis
    unfolding acct_ok_def by (auto simp: unbind_slot_def)
qed

lemma cap_map_bind:
  assumes "wf_caps s" and "can_bind s c i ty ob"
  shows "cap_map (bind_slot c i ty rt ob s) = (cap_map s)((c, unat i) \<mapsto>
    \<lparr>b_type = ty, b_rights = rt, b_gen = hdr_u32Gen (st_objs s ob), b_obj = ob\<rparr>)"
proof -
  have "unat i < length (slots_of s c)" and "ty \<noteq> GJ_CAP_INVALID"
    using assms wf_slot_index(1) by (auto simp: can_bind_def)
  then show ?thesis
    by (auto simp: fun_eq_iff cap_map_def bind_slot_def slot_binding_def nth_list_update)
qed

lemma cap_map_unbind:
  "cap_map (unbind_slot c i ob s) = (cap_map s)((c, unat i) := None)"
  by (auto simp: fun_eq_iff cap_map_def unbind_slot_def slot_binding_def nth_list_update
      gj_cap_slot_invalidate_def)

section \<open>The operations as bindings and clearings\<close>

lemma same_caps_bind:
  assumes "same_caps s t"
  shows "same_caps (bind_slot c i ty rt ob s) (bind_slot c i ty rt ob t)"
proof -
  have swap: "h\<lparr>hdr_u32SlotsLeft := n, hdr_pCdtHead := []\<rparr>
      = h\<lparr>hdr_pCdtHead := []\<rparr>\<lparr>hdr_u32SlotsLeft := n\<rparr>" for h :: gj_obj_hdr and n
    by simp
  have "(st_objs t ob)\<lparr>hdr_u32SlotsLeft := n, hdr_pCdtHead := []\<rparr>
      = (st_objs s ob)\<lparr>hdr_u32SlotsLeft := n, hdr_pCdtHead := []\<rparr>" for n
    unfolding swap using assms by (simp only: same_caps_def)
  then show ?thesis
    using assms same_capsD(4,7) [OF assms, of ob]
    unfolding same_caps_def bind_slot_def upd_slot_def upd_obj_def by simp
qed

lemma slots_left_dec_cdt [simp]:
  "slots_left_dec (h\<lparr>hdr_pCdtHead := x\<rparr>) = (slots_left_dec h)\<lparr>hdr_pCdtHead := x\<rparr>"
  by (simp add: slots_left_dec_def)

lemma same_caps_unbind:
  assumes "same_caps s t"
  shows "same_caps (unbind_slot c i ob s) (unbind_slot c i ob t)"
proof -
  have "(slots_left_dec (st_objs t ob))\<lparr>hdr_pCdtHead := []\<rparr>
      = (slots_left_dec (st_objs s ob))\<lparr>hdr_pCdtHead := []\<rparr>"
    unfolding slots_left_dec_cdt [symmetric] using assms by (simp add: same_caps_def)
  with assms show ?thesis unfolding same_caps_def unbind_slot_def upd_slot_def upd_obj_def by simp
qed

lemma invalidate_locked_bound:
  "binds ob (slot_at s c i) \<Longrightarrow> gj_cap_slot_invalidate_locked (c, i) (Some ob) s = unbind_slot c i ob s"
  by (simp add: gj_cap_slot_invalidate_locked_def binds_def unbind_slot_def)

lemma slot_at_same: "same_caps s t \<Longrightarrow> slot_at t c i = slot_at s c i"
  by (simp add: slot_at_def same_capsD(2))

lemma resolve_binds:
  "gj_cap_resolve s p i g = Inr res \<Longrightarrow>
     \<exists>c. p = Some c \<and> res_pSlot res = (c, i) \<and> binds (res_pObj res) (slot_at s c i)"
  by (auto simp: resolve_Inr binds_def)

lemma st_quotas_cdt [simp]:
  "st_quotas (cdt_edge_free p s) = st_quotas s"
  "st_quotas (snd (cdt_edge_alloc s)) = st_quotas s"
  "st_quotas (snd (gj_cdt_edge_link a b c i s)) = st_quotas s"
  "st_quotas (gj_cdt_edge_unlink a b s) = st_quotas s"
  by (auto simp: cdt_edge_free_def cdt_edge_alloc_def gj_cdt_edge_link_def gj_cdt_edge_unlink_def
      Let_def split: option.splits)

lemma st_quotas_unlink_loop [simp]: "st_quotas (unlink_slot_loop ob c i ws s) = st_quotas s"
  by (induction ws arbitrary: s) simp_all

lemma st_quotas_unlink_slot [simp]: "st_quotas (gj_cdt_unlink_slot p c i s) = st_quotas s"
  by (simp add: gj_cdt_unlink_slot_def split: option.splits)

lemma st_quotas_try_wire [simp]: "st_quotas (cdt_edge_try_wire ob c i s) = st_quotas s"
proof -
  obtain r t where al: "cdt_edge_alloc s = (r, t)" by (cases "cdt_edge_alloc s")
  moreover have "st_quotas t = st_quotas s" using st_quotas_cdt(2) [of s] al by simp
  moreover have "st_quotas u = st_quotas t"
    if "gj_cdt_edge_link (Some ob) (Some e) c i t = (rc, u)" for e rc u
    using that st_quotas_cdt(3) [of "Some ob" "Some e" c i t] by simp
  ultimately show ?thesis
    by (auto simp: cdt_edge_try_wire_def split: option.splits prod.splits)
qed

text \<open>The common tail of mint and copy: allocate a slot, bind it, try to record the edge.\<close>

definition derive ::
  "ptr \<Rightarrow> u16 \<Rightarrow> u16 \<Rightarrow> nat \<Rightarrow> 'a cap_state_scheme \<Rightarrow> (gj_status + gj_cap_ref) \<times> 'a cap_state_scheme" where
  "derive p ty rt ob s =
     (case gj_cap_alloc_install p ty rt (Some ob) s of
        (Inl st, s) \<Rightarrow> (Inl st, s)
      | (Inr ref, s) \<Rightarrow> (Inr ref, cdt_edge_try_wire ob p (ref_u64Slot ref) s))"

lemma derive_cases:
  assumes "derive p ty rt ob s = (r, t)"
  obtains (Fail) st where "r = Inl st" "same_caps s t"
    | (Bind) c j qs where "p = Some c" "can_bind s c j ty ob"
        "gj_cap_quota_slot_charge (st_quotas s) (cn_pQuotaAccount (st_cnodes s c)) = (GJ_OK, qs)"
        "same_caps (bind_slot c j ty rt ob s) t" "st_quotas t = qs"
        "r = Inr (gj_cap_ref_make j (slot_u32Gen (slot_at t c j)))"
        "t = cdt_edge_try_wire ob (Some c) j (bind_slot c j ty rt ob (s\<lparr>st_quotas := qs\<rparr>))"
proof -
  obtain q u where al: "gj_cap_alloc_install p ty rt (Some ob) s = (q, u)"
    by (cases "gj_cap_alloc_install p ty rt (Some ob) s")
  from al show ?thesis
  proof (cases rule: alloc_install_cases)
    case (Fail st)
    with assms al show ?thesis by (auto intro: that(1) simp: derive_def)
  next
    case (Bind c ob' j qs)
    let ?b = "bind_slot c j ty rt ob (s\<lparr>st_quotas := qs\<rparr>)"
    have t: "t = cdt_edge_try_wire ob (Some c) j ?b" and r: "r = q"
      using assms al Bind by (auto simp: derive_def gj_cap_ref_make_def)
    have wire: "same_caps ?b t" by (simp add: t same_caps_try_wire)
    have "same_caps (bind_slot c j ty rt ob s) t"
      by (rule same_caps_trans [OF same_caps_bind wire]) simp
    moreover have "slot_at t c j = slot_at u c j" using wire Bind by (simp add: slot_at_same)
    ultimately show ?thesis using Bind t r by (intro that(2) [of c j qs]) auto
  qed
qed

lemma mint_derive:
  "gj_cap_mint pS i g rt pD s =
     (case gj_cap_resolve s pS i g of
        Inl st \<Rightarrow> (Inl st, s)
      | Inr res \<Rightarrow>
          if res_u16Rights res AND GJ_RIGHT_MINT = 0 \<or> rights_weaker (res_u16Rights res) rt = 0
          then (Inl GJ_ERR_PERM, s)
          else derive (if pD = None then pS else pD) (res_u16Type res)
                 (rights_weaker (res_u16Rights res) rt) (res_pObj res) s)"
  by (auto simp: gj_cap_mint_def derive_def Let_def split: sum.splits)

lemma copy_derive:
  "gj_cap_copy p i g rt s =
     (case gj_cap_resolve s p i g of
        Inl st \<Rightarrow> (Inl st, s)
      | Inr res \<Rightarrow>
          if res_u16Rights res AND GJ_RIGHT_GRANT = 0 then (Inl GJ_ERR_PERM, s)
          else derive p (res_u16Type res)
                 (rights_weaker (res_u16Rights res) (if rt \<noteq> 0 then rt else res_u16Rights res))
                 (res_pObj res) s)"
  by (auto simp: gj_cap_copy_def derive_def Let_def split: sum.splits)

lemma move_cases:
  assumes "gj_cap_move p i g s = (r, t)" and wf: "wf_caps s"
  obtains (Fail) st where "r = Inl st" "same_caps s t"
    | (Move) c res j qs where "p = Some c" "gj_cap_resolve s p i g = Inr res"
        "res_u16Rights res AND GJ_RIGHT_GRANT \<noteq> 0" "i \<noteq> GJ_CAP_SLOT_ROOT_META" "j \<noteq> i"
        "can_bind s c j (res_u16Type res) (res_pObj res)"
        "gj_cap_quota_slot_charge (st_quotas s) (cn_pQuotaAccount (st_cnodes s c)) = (GJ_OK, qs)"
        "same_caps (unbind_slot c i (res_pObj res)
           (bind_slot c j (res_u16Type res) (res_u16Rights res) (res_pObj res) s)) t"
        "st_quotas t = snd (gj_cap_quota_slot_refund qs (cn_pQuotaAccount (st_cnodes s c)))"
        "r = Inr (gj_cap_ref_make j (slot_u32Gen (slot_at t c j)))"
proof (cases "gj_cap_resolve s p i g")
  case (Inl st)
  with assms show ?thesis using Fail by (auto simp: gj_cap_move_def)
next
  case (Inr res)
  then obtain c where c: "p = Some c" "res_pSlot res = (c, i)" "binds (res_pObj res) (slot_at s c i)"
    using resolve_binds by blast
  let ?ty = "res_u16Type res" and ?rt = "res_u16Rights res" and ?ob = "res_pObj res"
  obtain q u where al: "gj_cap_alloc_install p ?ty ?rt (Some ?ob) s = (q, u)"
    by (cases "gj_cap_alloc_install p ?ty ?rt (Some ?ob) s")
  show ?thesis
  proof (cases "?rt AND GJ_RIGHT_GRANT = 0 \<or> i = GJ_CAP_SLOT_ROOT_META")
    case True
    with assms Inr show ?thesis using Fail by (auto simp: gj_cap_move_def split: if_splits)
  next
    case False
    from al show ?thesis
    proof (cases rule: alloc_install_cases)
      case (Fail st)
      with assms al Inr False show ?thesis using that(1) by (auto simp: gj_cap_move_def)
    next
      case (Bind c' ob' j qs)
      let ?b = "\<lambda>s. bind_slot c j ?ty ?rt ?ob s"
      define v where "v = cdt_edge_try_wire ?ob p j (gj_cdt_unlink_slot (Some ?ob) p i u)"
      have eqs: "c' = c" "ob' = ?ob" using Bind c by auto
      have t: "t = gj_cap_slot_invalidate_locked (c, i) (Some ?ob) (cnode_refund p v)" and r: "r = q"
        using assms(1) al Inr False Bind c by (auto simp: gj_cap_move_def Let_def v_def gj_cap_ref_make_def)
      have uv: "same_caps u v"
        unfolding v_def by (rule same_caps_trans [OF same_caps_unlink_slot same_caps_try_wire])
      have bu: "same_caps (?b s) u" using Bind eqs by (simp add: same_caps_bind)
      have sv: "same_caps (?b s) (cnode_refund p v)"
        by (rule same_caps_trans [OF same_caps_trans [OF bu uv] same_caps_refund])
      have ji: "j \<noteq> i" using Bind eqs c by (auto simp: can_bind_def binds_def)
      then have unat_ji: "unat j \<noteq> unat i" by (simp add: unat_eq_iff)
      have "slot_at (?b s) c i = slot_at s c i"
        using unat_ji by (simp add: slot_at_def bind_slot_def)
      then have bnd: "binds ?ob (slot_at (cnode_refund p v) c i)"
        using c slot_at_same [OF sv] by simp
      have t': "t = unbind_slot c i ?ob (cnode_refund p v)"
        unfolding t by (rule invalidate_locked_bound [OF bnd])
      have sc: "same_caps (unbind_slot c i ?ob (?b s)) t"
        unfolding t' by (rule same_caps_unbind [OF sv])
      have cnv: "st_cnodes v = st_cnodes u" using same_capsD(1) [OF uv] .
      have acc: "cn_pQuotaAccount (st_cnodes u c) = cn_pQuotaAccount (st_cnodes s c)"
        using Bind(5) by (simp add: bind_slot_def)
      have "st_quotas v = qs" using Bind(5) by (simp add: v_def)
      then have qt: "st_quotas t = snd (gj_cap_quota_slot_refund qs (cn_pQuotaAccount (st_cnodes s c)))"
        using c(1) cnv acc unfolding t' by (simp add: cnode_refund_def)
      have "slot_at t c j = slot_at u c j"
        using slot_at_same [OF sc, of c j] slot_at_same [OF bu, of c j] unat_ji
        by (simp add: slot_at_def unbind_slot_def)
      then show ?thesis
        using Inr False Bind eqs c ji sc qt r by (intro that(2) [of c res j qs]) auto
    qed
  qed
qed

lemma delete_cases:
  assumes "gj_cap_delete p i g s = (st, t)"
  obtains (Fail) "st \<noteq> GJ_OK" "t = s"
    | (Delete) c res where "p = Some c" "gj_cap_resolve s p i g = Inr res" "st = GJ_OK"
        "i \<noteq> GJ_CAP_SLOT_ROOT_META"
        "res_u16Rights res AND GJ_RIGHT_DESTROY \<noteq> 0 \<or> res_u16Rights res AND GJ_RIGHT_GRANT \<noteq> 0"
        "same_caps (unbind_slot c i (res_pObj res) s) t"
        "st_quotas t = snd (gj_cap_quota_slot_refund (st_quotas s) (cn_pQuotaAccount (st_cnodes s c)))"
proof (cases "gj_cap_resolve s p i g")
  case (Inl e)
  then have "e \<noteq> GJ_OK"
    by (auto simp: gj_cap_resolve_def gj_obj_check_live_def Let_def split: option.splits if_splits)
  with assms Inl show ?thesis using Fail by (auto simp: gj_cap_delete_def)
next
  case (Inr res)
  then obtain c where c: "p = Some c" "res_pSlot res = (c, i)" "binds (res_pObj res) (slot_at s c i)"
    using resolve_binds by blast
  let ?ob = "res_pObj res"
  show ?thesis
  proof (cases "i = GJ_CAP_SLOT_ROOT_META \<or> (res_u16Rights res AND GJ_RIGHT_DESTROY = 0
      \<and> res_u16Rights res AND GJ_RIGHT_GRANT = 0)")
    case True
    with assms Inr show ?thesis using Fail by (auto simp: gj_cap_delete_def split: if_splits)
  next
    case False
    let ?u = "gj_cdt_unlink_slot (Some ?ob) p i s"
    have su: "same_caps s (cnode_refund p ?u)"
      by (rule same_caps_trans [OF same_caps_unlink_slot same_caps_refund])
    have t: "t = gj_cap_slot_invalidate_locked (c, i) (Some ?ob) (cnode_refund p ?u)" and "st = GJ_OK"
      using assms Inr False c by (auto simp: gj_cap_delete_def Let_def)
    have "binds ?ob (slot_at (cnode_refund p ?u) c i)" using c slot_at_same [OF su] by simp
    then have t': "t = unbind_slot c i ?ob (cnode_refund p ?u)"
      unfolding t by (rule invalidate_locked_bound)
    have "same_caps (unbind_slot c i ?ob s) t" unfolding t' by (rule same_caps_unbind [OF su])
    moreover have "st_quotas t = snd (gj_cap_quota_slot_refund (st_quotas s) (cn_pQuotaAccount (st_cnodes s c)))"
      unfolding t' using c same_capsD(1) [OF same_caps_unlink_slot, of "Some ?ob" p i s]
      by (simp add: cnode_refund_def)
    ultimately show ?thesis using Inr False c \<open>st = GJ_OK\<close> by (intro that(2)) auto
  qed
qed

end
