(* ===== verification/Cap_Props.thy ===== *)
theory Cap_Props
  imports Cap_Inv
begin

text \<open>
  What the capability tables promise: the invariants of the tables over every sequence of
  operations, confinement of authority, and the effect of mint, copy, move and delete on the
  abstract binding map.
\<close>

section \<open>Runs\<close>

text \<open>
  The operations that derive or drop authority, on CNodes of the set \<open>C\<close> (the tables that exist),
  and the operations that introduce it.  A header is initialised when no slot is bound to it, a
  CNode when it has no slot array yet.
\<close>

inductive cap_derive_step :: "nat set \<Rightarrow> 'a cap_state_scheme \<Rightarrow> 'a cap_state_scheme \<Rightarrow> bool"
  for C :: "nat set" where
  mint: "(if pD = None then pS else pD) \<in> Some ` C \<Longrightarrow>
     cap_derive_step C s (snd (gj_cap_mint pS i g rt pD s))"
| copy: "c \<in> C \<Longrightarrow> cap_derive_step C s (snd (gj_cap_copy (Some c) i g rt s))"
| move: "c \<in> C \<Longrightarrow> cap_derive_step C s (snd (gj_cap_move (Some c) i g s))"
| delete: "c \<in> C \<Longrightarrow> cap_derive_step C s (snd (gj_cap_delete (Some c) i g s))"
| invalidate: "c \<in> C \<Longrightarrow>
     cap_derive_step C s (snd (gj_cnode_invalidate_obj_slots (Some c) pObj n s))"

inductive cap_step :: "nat set \<Rightarrow> 'a cap_state_scheme \<Rightarrow> 'a cap_state_scheme \<Rightarrow> bool"
  for C :: "nat set" where
  derive: "cap_derive_step C s t \<Longrightarrow> cap_step C s t"
| install: "c \<in> C \<Longrightarrow> cap_step C s (snd (gj_cap_slot_install (Some c) i ty rt pObj s))"
| alloc_install: "c \<in> C \<Longrightarrow> cap_step C s (snd (gj_cap_alloc_install (Some c) ty rt pObj s))"
| attach: "c \<in> C \<Longrightarrow> cap_step C s (gj_cap_quota_attach (Some c) pQ s)"
| obj_init: "slot_refs C s ob = 0 \<Longrightarrow> cap_step C s (gj_obj_hdr_init (Some ob) s)"
| cnode_init: "cn_pSlots (st_cnodes s c) = None \<Longrightarrow> slot_refs C s (cn_hdr (st_cnodes s c)) = 0 \<Longrightarrow>
     cap_step C s (gj_cnode_init (Some c) f n s)"
| set_parent: "cap_step C s (s\<lparr>st_quotas := gj_cap_quota_set_parent (st_quotas s) pQ pP\<rparr>)"

definition cap_inv :: "nat set \<Rightarrow> 'a cap_state_scheme \<Rightarrow> bool" where
  "cap_inv C s \<longleftrightarrow> wf_caps s \<and> acct_ok C s \<and> quota_ok (st_quotas s)"

text \<open>A binding derived from another: the same object, type and generation, no further rights.\<close>

definition derived_from :: "binding \<Rightarrow> binding \<Rightarrow> bool" where
  "derived_from b' b \<longleftrightarrow> b_obj b' = b_obj b \<and> b_type b' = b_type b \<and> b_gen b' = b_gen b
     \<and> gj_cap_rights_is_subset (b_rights b) (b_rights b')"

text \<open>Every binding of \<open>t\<close> is derived from one of \<open>s\<close>.\<close>

definition confined :: "'a cap_state_scheme \<Rightarrow> 'a cap_state_scheme \<Rightarrow> bool" where
  "confined s t \<longleftrightarrow> (\<forall>b' \<in> ran (cap_map t). \<exists>b \<in> ran (cap_map s). derived_from b' b)"

text \<open>A boot state, and a state with one CNode of four slots whose slot 1 holds a notification
  (object 7) with every right.\<close>

definition wit_boot :: cap_state where
  "wit_boot = \<lparr>st_objs = (\<lambda>_. \<lparr>hdr_u32State = GJ_OBJ_LIVE, hdr_u32Gen = 1, hdr_u32Ref = 0,
       hdr_u32Pin = 0, hdr_u32SlotsLeft = 0, hdr_pCdtHead = []\<rparr>),
     st_cnodes = (\<lambda>_. \<lparr>cn_hdr = 0, cn_cSlots = 0, cn_pSlots = None, cn_pQuotaAccount = None,
       cn_u32SoftLock = 0, cn_u32PadLock = 0\<rparr>),
     st_quotas = wit_quotas, st_edges = (\<lambda>_. empty_edge),
     g_aCdtUsed = replicate GJ_CDT_EDGE_POOL False, g_u32CdtPoolUsed = 0\<rparr>"

definition wit_caps :: cap_state where
  "wit_caps = snd (gj_cap_alloc_install (Some 0) GJ_CAP_NOTIFICATION 0xff (Some 7)
     (gj_cnode_init (Some 0) True 4 wit_boot))"

section \<open>Invariants of the elementary changes\<close>

lemma cap_inv_same:
  assumes "same_caps s t" and "quota_ok (st_quotas t)" and "cap_inv C s"
  shows "cap_inv C t"
  using assms wf_caps_same [OF assms(1)] acct_ok_same [OF assms(1), of C] by (simp add: cap_inv_def)

lemma cap_inv_bind:
  assumes "cap_inv C s" and "finite C" "c \<in> C" and "can_bind s c i ty ob"
    and "same_caps (bind_slot c i ty rt ob s) t" and "quota_ok (st_quotas t)"
  shows "cap_inv C t"
proof (rule cap_inv_same [OF assms(5,6)])
  show "cap_inv C (bind_slot c i ty rt ob s)"
    using assms by (auto simp: cap_inv_def intro: wf_caps_bind acct_bind)
qed

lemma cap_inv_unbind:
  assumes "cap_inv C s" and "finite C" "c \<in> C"
    and "cn_pSlots (st_cnodes s c) \<noteq> None" and "i < cn_cSlots (st_cnodes s c)"
    and "binds ob (slot_at s c i)"
    and "same_caps (unbind_slot c i ob s) t" and "quota_ok (st_quotas t)"
  shows "cap_inv C t"
proof (rule cap_inv_same [OF assms(7,8)])
  have "unat i < length (slots_of s c)"
    using assms wf_slot_index(1) by (auto simp: cap_inv_def)
  then show "cap_inv C (unbind_slot c i ob s)"
    using assms(1-6) unfolding cap_inv_def
    by (intro conjI wf_caps_unbind acct_unbind) simp_all
qed

lemma rights_subset_bits:
  "gj_cap_rights_is_subset a b \<longleftrightarrow> (\<forall>n. bit b n \<longrightarrow> bit a n)"
  unfolding gj_cap_rights_is_subset_def
  using bit_imp_le_length [of b] by (auto simp: bit_eq_iff bit_simps)

lemma rights_weaker_le [simp]:
  "gj_cap_rights_is_subset a (rights_weaker a w)" "gj_cap_rights_is_subset w (rights_weaker a w)"
  by (simp_all add: rights_subset_bits rights_weaker_def bit_simps)

lemma rights_subset_trans:
  "gj_cap_rights_is_subset a b \<Longrightarrow> gj_cap_rights_is_subset b c \<Longrightarrow> gj_cap_rights_is_subset a c"
  by (simp add: rights_subset_bits)

lemma derived_from_refl [simp]: "derived_from b b"
  by (simp add: derived_from_def rights_subset_bits)

lemma derived_from_trans: "derived_from c b \<Longrightarrow> derived_from b a \<Longrightarrow> derived_from c a"
  by (auto simp: derived_from_def intro: rights_subset_trans)

lemma confined_refl [simp]: "confined s s"
  by (auto simp: confined_def intro: derived_from_refl)

lemma confined_trans [trans]: "confined s t \<Longrightarrow> confined t u \<Longrightarrow> confined s u"
  unfolding confined_def by (meson derived_from_trans)

lemma confined_same: "cap_map t = cap_map s \<Longrightarrow> confined s t"
  by (auto simp: confined_def intro: derived_from_refl)

lemma confined_unbind: "confined s (unbind_slot c i x s)"
  unfolding confined_def cap_map_unbind
  by (auto simp: ran_def intro: derived_from_refl split: if_splits)

lemma confined_bind:
  assumes "wf_caps s" and "can_bind s c i ty ob"
    and "b \<in> ran (cap_map s)" "derived_from \<lparr>b_type = ty, b_rights = rt,
       b_gen = hdr_u32Gen (st_objs s ob), b_obj = ob\<rparr> b"
  shows "confined s (bind_slot c i ty rt ob s)"
  using assms unfolding confined_def cap_map_bind [OF assms(1,2)]
  by (auto simp: ran_def intro: derived_from_refl split: if_splits)

text \<open>A handle that resolves names a binding of the current incarnation of its object.\<close>

lemma resolve_binding:
  assumes "wf_caps s" and "gj_cap_resolve s p i g = Inr res"
  obtains c where "p = Some c" "cap_map s (c, unat i) = Some \<lparr>b_type = res_u16Type res,
      b_rights = res_u16Rights res, b_gen = hdr_u32Gen (st_objs s (res_pObj res)), b_obj = res_pObj res\<rparr>"
proof -
  obtain c ob where r: "p = Some c" "cn_pSlots (st_cnodes s c) \<noteq> None" "i < cn_cSlots (st_cnodes s c)"
    "slot_u16Type (slot_at s c i) \<noteq> GJ_CAP_INVALID" "slot_pObj (slot_at s c i) = Some ob"
    "hdr_u32Gen (st_objs s ob) = slot_u32ObjGen (slot_at s c i)" "res_u16Type res = slot_u16Type (slot_at s c i)"
    "res_pObj res = ob" "res_u16Rights res = slot_u16Rights (slot_at s c i)"
    using assms(2) [unfolded resolve_Inr] by auto
  with wf_slot_index(1) [OF assms(1) r(2,3)] show ?thesis
    by (intro that) (auto simp: cap_map_def slot_binding_def slot_at_def)
qed

lemma confined_bind_resolved:
  assumes "wf_caps s" and "gj_cap_resolve s p i g = Inr res"
    and "can_bind s c j (res_u16Type res) (res_pObj res)"
    and "gj_cap_rights_is_subset (res_u16Rights res) rt"
  shows "confined s (bind_slot c j (res_u16Type res) rt (res_pObj res) s)"
proof -
  have "\<lparr>b_type = res_u16Type res, b_rights = res_u16Rights res,
      b_gen = hdr_u32Gen (st_objs s (res_pObj res)), b_obj = res_pObj res\<rparr> \<in> ran (cap_map s)"
    using resolve_binding [OF assms(1,2)] by (metis ranI)
  then show ?thesis
    by (rule confined_bind [OF assms(1,3)]) (simp add: derived_from_def assms(4))
qed

section \<open>Invalidation of an object's slots in one CNode\<close>

text \<open>One round of the loop of \<^verbatim>\<open>gj_cnode_invalidate_obj_slots\<close> on a slot bound to the object.\<close>

definition clear_round :: "nat \<Rightarrow> nat \<Rightarrow> nat \<Rightarrow> 'a cap_state_scheme \<Rightarrow> 'a cap_state_scheme" where
  "clear_round c ob i s =
     gj_cdt_unlink_slot (Some ob) (Some c) (of_nat i)
       (gj_cap_slot_invalidate_locked (c, of_nat i) (Some ob)
         (s\<lparr>st_quotas :=
            snd (gj_cap_quota_slot_refund (st_quotas s) (cn_pQuotaAccount (st_cnodes s c)))\<rparr>))"

lemma unat_of_nat_u64: "i < length (slots_of s c) \<Longrightarrow> wf_caps s \<Longrightarrow> unat (of_nat i :: u64) = i"
proof -
  assume i: "i < length (slots_of s c)" and wf: "wf_caps s"
  then have "cn_pSlots (st_cnodes s c) \<noteq> None" by (auto simp: slots_of_def split: option.splits)
  then have "i < unat (cn_cSlots (st_cnodes s c))" using wf_caps_slots(1) [OF wf] i by simp
  also have "\<dots> < 2 ^ LENGTH(64)" by (rule unsigned_less)
  finally show ?thesis by (simp add: unat_of_nat)
qed

lemma clear_round_same:
  assumes "i < length (slots_of s c)" and "wf_caps s" and "binds ob (slots_of s c ! i)"
  shows "same_caps (unbind_slot c (of_nat i) ob s) (clear_round c ob i s)"
    and "st_quotas (clear_round c ob i s) =
      snd (gj_cap_quota_slot_refund (st_quotas s) (cn_pQuotaAccount (st_cnodes s c)))"
proof -
  let ?s = "s\<lparr>st_quotas := snd (gj_cap_quota_slot_refund (st_quotas s) (cn_pQuotaAccount (st_cnodes s c)))\<rparr>"
  have "binds ob (slot_at ?s c (of_nat i))"
    using assms by (simp add: slot_at_def unat_of_nat_u64)
  then have eq: "clear_round c ob i s =
      gj_cdt_unlink_slot (Some ob) (Some c) (of_nat i) (unbind_slot c (of_nat i) ob ?s)"
    by (simp add: clear_round_def invalidate_locked_bound)
  have "same_caps (unbind_slot c (of_nat i) ob s) (unbind_slot c (of_nat i) ob ?s)"
    by (rule same_caps_unbind) simp
  then show "same_caps (unbind_slot c (of_nat i) ob s) (clear_round c ob i s)"
    unfolding eq by (rule same_caps_trans) (rule same_caps_unlink_slot)
  show "st_quotas (clear_round c ob i s) =
      snd (gj_cap_quota_slot_refund (st_quotas s) (cn_pQuotaAccount (st_cnodes s c)))"
    unfolding eq by simp
qed

text \<open>What one round keeps, the loop keeps.\<close>

lemma invalidate_loop_induct:
  assumes round: "\<And>s i. P s \<Longrightarrow> i < length (slots_of s c) \<Longrightarrow> binds ob (slots_of s c ! i) \<Longrightarrow>
      P (clear_round c ob i s) \<and> length (slots_of (clear_round c ob i s) c) = length (slots_of s c)"
    and "P s" and "\<And>i. i \<in> set is \<Longrightarrow> i < length (slots_of s c)"
  shows "P (snd (invalidate_obj_loop c ob n is k s))"
  using assms(2,3)
proof (induction "is" arbitrary: k s)
  case (Cons i "is")
  have i: "i < length (slots_of s c)" using Cons.prems(2) by simp
  show ?case
  proof (cases "k < n \<and> binds ob (slots_of s c ! i)")
    case True
    then have "P (clear_round c ob i s)"
      and "length (slots_of (clear_round c ob i s) c) = length (slots_of s c)"
      using round [OF Cons.prems(1) i] by simp_all
    then have "P (snd (invalidate_obj_loop c ob n is (k + 1) (clear_round c ob i s)))"
      using Cons.prems(2) by (intro Cons.IH) simp_all
    with True show ?thesis by (simp add: binds_def Let_def clear_round_def)
  next
    case False
    then show ?thesis
      using Cons.IH [OF Cons.prems(1)] Cons.prems by (auto simp: binds_def Let_def)
  qed
qed simp

lemma trylock_unlock_frame:
  "slots_of (snd (gj_cnode_trylock p s)) = slots_of s"
  "slots_of (gj_cnode_unlock p s) = slots_of s"
  by (auto simp: gj_cnode_trylock_def gj_cnode_unlock_def slots_of_def fun_eq_iff split: option.splits)

lemma cap_inv_lock:
  "cap_inv C (snd (gj_cnode_trylock p s)) = cap_inv C s"
  "cap_inv C (gj_cnode_unlock p s) = cap_inv C s"
proof -
  have wf: "wf_caps (s\<lparr>st_cnodes := (st_cnodes s)(c := (st_cnodes s c)\<lparr>cn_u32SoftLock := v\<rparr>)\<rparr>) = wf_caps s" for c v
    unfolding wf_caps_def by auto
  have acct: "acct_ok C t = acct_ok C s" if "slots_of t = slots_of s" "st_objs t = st_objs s" for t
    using that by (simp add: acct_ok_def slot_refs_def)
  show "cap_inv C (snd (gj_cnode_trylock p s)) = cap_inv C s"
    using acct [OF trylock_unlock_frame(1) [of p s]]
    by (auto simp: cap_inv_def gj_cnode_trylock_def wf split: option.splits)
  show "cap_inv C (gj_cnode_unlock p s) = cap_inv C s"
    using acct [OF trylock_unlock_frame(2) [of p s]]
    by (auto simp: cap_inv_def gj_cnode_unlock_def wf split: option.splits)
qed

lemma cap_map_lock:
  "cap_map (snd (gj_cnode_trylock p s)) = cap_map s" "cap_map (gj_cnode_unlock p s) = cap_map s"
  unfolding cap_map_def trylock_unlock_frame by (rule refl)+

lemma invalidate_obj_slots_induct:
  assumes "P s" and lock: "\<And>s. P (snd (gj_cnode_trylock (Some c) s)) = P s"
      "\<And>s. P (gj_cnode_unlock (Some c) s) = P s"
    and wf: "\<And>s. P s \<Longrightarrow> wf_caps s"
    and round: "\<And>s i ob. P s \<Longrightarrow> i < length (slots_of s c) \<Longrightarrow> binds ob (slots_of s c ! i) \<Longrightarrow>
      P (clear_round c ob i s) \<and> length (slots_of (clear_round c ob i s) c) = length (slots_of s c)"
  shows "P (snd (gj_cnode_invalidate_obj_slots (Some c) pObj n s))"
proof (cases "\<exists>ob. pObj = Some ob \<and> cn_pSlots (st_cnodes s c) \<noteq> None \<and> n \<noteq> 0")
  case True
  then obtain ob where ob: "pObj = Some ob" "cn_pSlots (st_cnodes s c) \<noteq> None" "n \<noteq> 0" by blast
  obtain b t where tl: "gj_cnode_trylock (Some c) s = (b, t)" by (cases "gj_cnode_trylock (Some c) s")
  have Pt: "P t" using lock(1) [of s] assms(1) tl by simp
  have idx: "i < length (slots_of t c)" if "i \<in> set [0..<unat (cn_cSlots (st_cnodes t c))]" for i
  proof -
    have "cn_pSlots (st_cnodes t c) \<noteq> None"
      using tl ob(2) by (auto simp: gj_cnode_trylock_def split: if_splits)
    with that wf_caps_slots(1) [OF wf [OF Pt], of c] show ?thesis by simp
  qed
  have "P (snd (invalidate_obj_loop c ob n [0..<unat (cn_cSlots (st_cnodes t c))] 0 t))"
    using round Pt idx by (intro invalidate_loop_induct [where P = P]) auto
  then show ?thesis
    using ob tl Pt
    by (auto simp: gj_cnode_invalidate_obj_slots_def lock(2) split: prod.splits bool.splits)
next
  case False
  with assms(1) show ?thesis
    by (auto simp: gj_cnode_invalidate_obj_slots_def split: option.splits)
qed

section \<open>Every operation keeps the invariant\<close>

lemma quota_ok_charge_eq:
  "gj_cap_quota_slot_charge qs p = (st, qs') \<Longrightarrow> quota_ok qs \<Longrightarrow> quota_ok qs'"
  using quota_ok_charge [of qs p] by simp

lemma cap_inv_quotas:
  assumes "cap_inv C s" and "quota_ok q"
  shows "cap_inv C (s\<lparr>st_quotas := q\<rparr>)"
  by (rule cap_inv_same [OF same_caps_quotas _ assms(1)]) (simp add: assms(2))

lemma install_quotas:
  assumes "gj_cap_slot_install p i ty rt q s = (Inl st, t)" and "quota_ok (st_quotas s)"
  shows "quota_ok (st_quotas t)"
  using assms
  by (auto simp: gj_cap_slot_install_def Let_def quota_ok_charge_eq
      split: option.splits if_splits prod.splits)

lemma alloc_install_quotas:
  assumes "gj_cap_alloc_install p ty rt q s = (Inl st, t)" and "quota_ok (st_quotas s)"
  shows "quota_ok (st_quotas t)"
  using assms install_quotas unfolding gj_cap_alloc_install_def
  by (auto split: option.splits if_splits)

lemma cap_inv_install:
  assumes "cap_inv C s" and "finite C" and "c \<in> C"
  shows "cap_inv C (snd (gj_cap_slot_install (Some c) i ty rt q s))"
proof -
  obtain r t where eq: "gj_cap_slot_install (Some c) i ty rt q s = (r, t)"
    by (cases "gj_cap_slot_install (Some c) i ty rt q s")
  from eq show ?thesis
  proof (cases rule: install_cases)
    case (Fail st)
    have "quota_ok (st_quotas t)"
      using install_quotas [OF eq [unfolded Fail(1)]] assms(1) by (simp add: cap_inv_def)
    then show ?thesis using cap_inv_same [OF Fail(2) _ assms(1)] by (simp add: eq)
  next
    case (Bind d ob qs)
    have "quota_ok qs" using Bind(4) assms(1) quota_ok_charge_eq by (auto simp: cap_inv_def)
    then have "cap_inv C (s\<lparr>st_quotas := qs\<rparr>)" by (rule cap_inv_quotas [OF assms(1)])
    then have "cap_inv C t"
      by (rule cap_inv_bind [where c = c and i = i and ty = ty and ob = ob and rt = rt])
        (use assms Bind \<open>quota_ok qs\<close> in \<open>simp_all add: can_bind_def\<close>)
    then show ?thesis by (simp add: eq)
  qed
qed

lemma cap_inv_alloc_install:
  assumes "cap_inv C s" and "finite C" and "c \<in> C"
  shows "cap_inv C (snd (gj_cap_alloc_install (Some c) ty rt q s))"
  using assms cap_inv_install [OF assms]
  by (auto simp: gj_cap_alloc_install_def split: option.splits)

lemma cap_inv_derive:
  assumes "cap_inv C s" and "finite C" and "c \<in> C"
  shows "cap_inv C (snd (derive (Some c) ty rt ob s))"
proof -
  have al: "cap_inv C (snd (gj_cap_alloc_install (Some c) ty rt (Some ob) s))"
    by (rule cap_inv_alloc_install [OF assms])
  then have "cap_inv C (cdt_edge_try_wire ob p i (snd (gj_cap_alloc_install (Some c) ty rt (Some ob) s)))"
    for p i by (rule cap_inv_same [OF same_caps_try_wire, rotated]) (use al in \<open>simp add: cap_inv_def\<close>)
  with al show ?thesis by (auto simp: derive_def split: prod.splits sum.splits)
qed

lemma cap_inv_move:
  assumes inv: "cap_inv C s" and C: "finite C" "c \<in> C"
  shows "cap_inv C (snd (gj_cap_move (Some c) i g s))"
proof -
  obtain r t where eq: "gj_cap_move (Some c) i g s = (r, t)" by (cases "gj_cap_move (Some c) i g s")
  have wf: "wf_caps s" using inv by (simp add: cap_inv_def)
  from eq wf show ?thesis
  proof (cases rule: move_cases)
    case (Fail st)
    have "quota_ok (st_quotas t)"
      using eq Fail(1) alloc_install_quotas inv
      by (auto simp: gj_cap_move_def Let_def cap_inv_def split: sum.splits if_splits prod.splits)
    with Fail eq inv show ?thesis by (auto intro: cap_inv_same)
  next
    case (Move d res j qs)
    let ?b = "bind_slot c j (res_u16Type res) (res_u16Rights res) (res_pObj res) s"
    have d: "d = c" using Move(1) by simp
    have b: "cap_inv C ?b"
      by (rule cap_inv_bind [OF inv C Move(6) [unfolded d] same_caps_refl])
        (use inv in \<open>simp add: cap_inv_def\<close>)
    from Move d have idx: "cn_pSlots (st_cnodes s c) \<noteq> None" "i < cn_cSlots (st_cnodes s c)"
      "binds (res_pObj res) (slot_at s c i)"
      by (auto simp: resolve_Inr binds_def)
    have "slot_at ?b c i = slot_at s c i"
      using Move(5) by (simp add: slot_at_def bind_slot_def unat_eq_iff)
    moreover have "quota_ok qs" using Move(7) inv quota_ok_charge_eq by (auto simp: cap_inv_def)
    then have "quota_ok (st_quotas t)" unfolding Move(9) by (rule quota_ok_refund)
    ultimately have "cap_inv C t"
      using idx Move by (intro cap_inv_unbind [OF b C, where i = i and ob = "res_pObj res"]) auto
    then show ?thesis by (simp add: eq)
  qed
qed

lemma cap_inv_delete:
  assumes inv: "cap_inv C s" and C: "finite C" "c \<in> C"
  shows "cap_inv C (snd (gj_cap_delete (Some c) i g s))"
proof -
  obtain r t where eq: "gj_cap_delete (Some c) i g s = (r, t)" by (cases "gj_cap_delete (Some c) i g s")
  from eq show ?thesis
  proof (cases rule: delete_cases)
    case Fail
    with eq inv show ?thesis by simp
  next
    case (Delete d res)
    from Delete have idx: "cn_pSlots (st_cnodes s c) \<noteq> None" "i < cn_cSlots (st_cnodes s c)"
      "binds (res_pObj res) (slot_at s c i)"
      by (auto simp: resolve_Inr binds_def)
    have "quota_ok (st_quotas t)" unfolding Delete(7) using inv by (simp add: cap_inv_def quota_ok_refund)
    with idx Delete have "cap_inv C t" by (intro cap_inv_unbind [OF inv C idx]) simp_all
    then show ?thesis by (simp add: eq)
  qed
qed

lemma cap_inv_clear_round:
  assumes inv: "cap_inv C s" and C: "finite C" "c \<in> C"
    and i: "i < length (slots_of s c)" "binds ob (slots_of s c ! i)"
  shows "cap_inv C (clear_round c ob i s)"
    and "length (slots_of (clear_round c ob i s) c) = length (slots_of s c)"
proof -
  have wf: "wf_caps s" using inv by (simp add: cap_inv_def)
  note sc = clear_round_same [OF i(1) wf i(2)]
  have ps: "cn_pSlots (st_cnodes s c) \<noteq> None" using i(1) by (auto simp: slots_of_def split: option.splits)
  have "of_nat i < cn_cSlots (st_cnodes s c)"
    using i(1) wf_caps_slots(1) [OF wf ps] by (simp add: word_less_nat_alt unat_of_nat_u64 [OF i(1) wf])
  moreover have "quota_ok (st_quotas (clear_round c ob i s))"
    unfolding sc(2) using inv by (simp add: cap_inv_def quota_ok_refund)
  ultimately show "cap_inv C (clear_round c ob i s)"
    using i ps by (intro cap_inv_unbind [OF inv C _ _ _ sc(1)])
      (simp_all add: slot_at_def unat_of_nat_u64 [OF i(1) wf])
  show "length (slots_of (clear_round c ob i s) c) = length (slots_of s c)"
    using same_capsD(2) [OF sc(1)] by (simp add: unbind_slot_def)
qed

lemma cap_inv_invalidate:
  assumes "cap_inv C s" and "finite C" and "c \<in> C"
  shows "cap_inv C (snd (gj_cnode_invalidate_obj_slots (Some c) pObj n s))"
proof (rule invalidate_obj_slots_induct [where P = "cap_inv C"])
  show "wf_caps s" if "cap_inv C s" for s :: "'a cap_state_scheme" using that by (simp add: cap_inv_def)
qed (simp_all add: assms cap_inv_lock cap_inv_clear_round)

lemma cap_inv_attach:
  assumes "cap_inv C s"
  shows "cap_inv C (gj_cap_quota_attach (Some c) pQ s)"
proof -
  let ?t = "gj_cap_quota_attach (Some c) pQ s"
  have "slots_of ?t = slots_of s" by (auto simp: gj_cap_quota_attach_def slots_of_def fun_eq_iff)
  moreover have "st_objs ?t = st_objs s" by (simp add: gj_cap_quota_attach_def)
  moreover have "wf_caps ?t = wf_caps s" by (auto simp: gj_cap_quota_attach_def wf_caps_def)
  ultimately show ?thesis
    using assms by (simp add: cap_inv_def acct_ok_def slot_refs_def gj_cap_quota_attach_def)
qed

lemma cap_inv_derive_step:
  assumes "cap_derive_step C s t" and "finite C" and inv: "cap_inv C s"
  shows "cap_inv C t"
  using assms(1)
proof cases
  case (mint pD pS i g rt)
  then obtain c where c: "c \<in> C" "(if pD = None then pS else pD) = Some c" by (auto split: if_splits)
  show ?thesis
    unfolding mint(1) mint_derive c(2)
    using inv cap_inv_derive [OF inv \<open>finite C\<close> c(1)] by (simp split: sum.split)
next
  case (copy c i g rt)
  with inv show ?thesis
    by (simp add: copy_derive cap_inv_derive [OF inv \<open>finite C\<close>] split: sum.split)
qed (simp_all add: assms cap_inv_move cap_inv_delete cap_inv_invalidate)

lemma cap_inv_obj_init:
  assumes inv: "cap_inv C s" and refs: "slot_refs C s ob = 0"
  shows "cap_inv C (gj_obj_hdr_init (Some ob) s)"
proof -
  let ?t = "gj_obj_hdr_init (Some ob) s"
  have "slots_of ?t = slots_of s" by (simp add: gj_obj_hdr_init_def)
  moreover have "wf_caps ?t = wf_caps s" by (simp add: gj_obj_hdr_init_def wf_caps_def)
  ultimately show ?thesis
    using inv refs by (auto simp: cap_inv_def acct_ok_def slot_refs_def gj_obj_hdr_init_def)
qed

lemma wf_cnode_fresh:
  "n \<noteq> 0 \<Longrightarrow> wf_cnode (cn\<lparr>cn_cSlots := n, cn_pSlots := Some (replicate (unat n) empty_slot),
     cn_pQuotaAccount := q, cn_u32SoftLock := a, cn_u32PadLock := b\<rparr>)"
  by (auto simp: wf_cnode_def wf_slot_def empty_slot_def)

lemma cap_inv_cnode_init:
  assumes inv: "cap_inv C s" and new: "cn_pSlots (st_cnodes s c) = None"
    and refs: "slot_refs C s (cn_hdr (st_cnodes s c)) = 0"
  shows "cap_inv C (gj_cnode_init (Some c) f n s)"
proof (cases "f \<and> n \<noteq> 0")
  case True
  let ?s = "gj_obj_hdr_init (Some (cn_hdr (st_cnodes s c))) s"
  let ?t = "gj_cnode_init (Some c) f n s"
  have s': "cap_inv C ?s" by (rule cap_inv_obj_init [OF inv refs])
  have cn: "st_cnodes ?s = st_cnodes s" by (simp add: gj_obj_hdr_init_def)
  have t: "?t = ?s\<lparr>st_cnodes := (st_cnodes s)(c := (st_cnodes s c)\<lparr>cn_cSlots := n,
      cn_pSlots := Some (replicate (unat n) empty_slot), cn_pQuotaAccount := None,
      cn_u32SoftLock := 0, cn_u32PadLock := 0\<rparr>)\<rparr>"
    using True by (simp add: gj_cnode_init_def Let_def cn)
  have "filter (binds ob) (slots_of ?t d) = filter (binds ob) (slots_of ?s d)" for ob d
    unfolding t using new by (simp add: slots_of_def cn binds_def empty_slot_def)
  then have "slot_refs C ?t = slot_refs C ?s" by (simp add: slot_refs_def fun_eq_iff)
  moreover have "wf_caps ?t"
    using s' True unfolding t cap_inv_def wf_caps_def by (simp add: cn wf_cnode_fresh)
  moreover have "st_objs ?t = st_objs ?s" "st_quotas ?t = st_quotas ?s" unfolding t by simp_all
  ultimately show ?thesis using s' by (simp add: cap_inv_def acct_ok_def)
next
  case False
  with inv show ?thesis by (auto simp: gj_cnode_init_def)
qed

lemma cap_inv_step:
  assumes "cap_step C s t" and "finite C" and inv: "cap_inv C s"
  shows "cap_inv C t"
  using assms(1)
proof cases
  case derive
  then show ?thesis using cap_inv_derive_step assms(2) inv by blast
next
  case (set_parent pQ pP)
  then show ?thesis
    using inv by (simp add: cap_inv_quotas quota_ok_set_parent cap_inv_def [of C s])
qed (simp_all add: assms cap_inv_install cap_inv_alloc_install cap_inv_attach cap_inv_obj_init
    cap_inv_cnode_init)

section \<open>Confinement of every derivation\<close>

lemma confined_derive:
  assumes "wf_caps s" and "gj_cap_resolve s p i g = Inr res"
    and "gj_cap_rights_is_subset (res_u16Rights res) rt"
  shows "confined s (snd (derive q (res_u16Type res) rt (res_pObj res) s))"
proof -
  obtain r t where eq: "derive q (res_u16Type res) rt (res_pObj res) s = (r, t)"
    by (cases "derive q (res_u16Type res) rt (res_pObj res) s")
  from eq show ?thesis
  proof (cases rule: derive_cases)
    case Fail
    then show ?thesis by (simp add: eq confined_same cap_map_same)
  next
    case (Bind c j qs)
    have "confined s t"
      by (rule confined_trans [OF confined_bind_resolved [OF assms(1,2) Bind(2) assms(3)]
          confined_same [OF cap_map_same [OF Bind(4)]]])
    then show ?thesis by (simp add: eq)
  qed
qed

lemma confined_move:
  assumes "wf_caps s"
  shows "confined s (snd (gj_cap_move p i g s))"
proof -
  obtain r t where eq: "gj_cap_move p i g s = (r, t)" by (cases "gj_cap_move p i g s")
  from eq assms show ?thesis
  proof (cases rule: move_cases)
    case Fail
    then show ?thesis by (simp add: eq confined_same cap_map_same)
  next
    case (Move c res j qs)
    have "confined s (bind_slot c j (res_u16Type res) (res_u16Rights res) (res_pObj res) s)"
      by (rule confined_bind_resolved [OF assms Move(2,6)]) (simp add: rights_subset_bits)
    also note confined_unbind
    also note confined_same [OF cap_map_same [OF Move(8)]]
    finally show ?thesis by (simp add: eq)
  qed
qed

lemma confined_delete: "confined s (snd (gj_cap_delete p i g s))"
proof -
  obtain r t where eq: "gj_cap_delete p i g s = (r, t)" by (cases "gj_cap_delete p i g s")
  from eq show ?thesis
  proof (cases rule: delete_cases)
    case Fail
    then show ?thesis by (simp add: eq)
  next
    case (Delete c res)
    have "confined s t"
      by (rule confined_trans [OF confined_unbind confined_same [OF cap_map_same [OF Delete(6)]]])
    then show ?thesis by (simp add: eq)
  qed
qed

lemma confined_invalidate:
  assumes "cap_inv C s" and "finite C" and "c \<in> C"
  shows "confined s (snd (gj_cnode_invalidate_obj_slots (Some c) pObj n s))"
proof -
  let ?P = "\<lambda>t. cap_inv C t \<and> confined s t"
  have lock: "confined s u = confined s t" if "cap_map u = cap_map t" for t u :: "'a cap_state_scheme"
    using that by (simp add: confined_def)
  have round: "?P (clear_round c ob i t) \<and>
      length (slots_of (clear_round c ob i t) c) = length (slots_of t c)"
    if "?P t" "i < length (slots_of t c)" "binds ob (slots_of t c ! i)" for t i ob
  proof -
    have wf: "wf_caps t" using that(1) by (simp add: cap_inv_def)
    have "confined t (clear_round c ob i t)"
      by (rule confined_trans [OF confined_unbind
            confined_same [OF cap_map_same [OF clear_round_same(1) [OF that(2) wf that(3)]]]])
    then show ?thesis
      using that cap_inv_clear_round [OF _ assms(2,3) that(2,3)] confined_trans by blast
  qed
  have "?P (snd (gj_cnode_invalidate_obj_slots (Some c) pObj n s))"
    by (rule invalidate_obj_slots_induct [where P = ?P])
      (use assms(1) round in \<open>auto simp: cap_inv_lock lock [OF cap_map_lock(1)] lock [OF cap_map_lock(2)]
        dest: cap_inv_def [THEN iffD1]\<close>)
  then show ?thesis ..
qed

lemma confined_derive_step:
  assumes "cap_derive_step C s t" and "finite C" and inv: "cap_inv C s"
  shows "confined s t"
proof -
  have wf: "wf_caps s" using inv by (simp add: cap_inv_def)
  note d = confined_derive [OF wf]
  from assms(1) show ?thesis
  proof cases
    case (mint pD pS i g rt)
    show ?thesis
      unfolding mint(1) mint_derive by (auto intro: d split: sum.split)
  next
    case (copy c i g rt)
    show ?thesis
      unfolding copy(1) copy_derive by (auto intro: d split: sum.split)
  qed (simp_all add: wf confined_move confined_delete confined_invalidate [OF inv \<open>finite C\<close>])
qed

section \<open>What a successful derivation hands out\<close>

lemma unat_less_slots:
  "wf_caps s \<Longrightarrow> can_bind s c j ty ob \<Longrightarrow> unat j < length (slots_of s c)"
  using wf_slot_index(1) by (auto simp: can_bind_def)

lemma can_bind_free: "wf_caps s \<Longrightarrow> can_bind s c j ty ob \<Longrightarrow> cap_map s (c, unat j) = None"
  using unat_less_slots by (auto simp: cap_map_def slot_binding_def can_bind_def slot_at_def)

text \<open>The handle of a freshly bound slot resolves to what was bound.\<close>

lemma resolve_bound:
  assumes wf: "wf_caps s" and cb: "can_bind s c j ty ob"
    and same: "same_caps (bind_slot c j ty rt ob s) t"
  shows "gj_cap_resolve_ref t (Some c) (Some (gj_cap_ref_make j (slot_u32Gen (slot_at t c j)))) =
    Inr \<lparr>res_pSlot = (c, j), res_pObj = ob, res_u16Type = ty, res_u16Rights = rt\<rparr>"
proof -
  let ?b = "bind_slot c j ty rt ob s"
  have idx: "unat j < length (slots_of s c)" by (rule unat_less_slots [OF wf cb])
  have sl: "slot_at t c j = (slot_at s c j)\<lparr>slot_u16Type := ty, slot_u16Rights := rt,
      slot_u32ObjGen := hdr_u32Gen (st_objs s ob), slot_pObj := Some ob\<rparr>"
    unfolding slot_at_same [OF same] using idx by (simp add: slot_at_def bind_slot_def)
  have "slot_u32Gen (slot_at s c j) \<noteq> 0"
    using wf_slot_index(2) [OF wf] cb by (auto simp: can_bind_def wf_slot_def)
  with sl cb show ?thesis
    unfolding gj_cap_resolve_ref_def
    by (auto simp: resolve_Inr gj_cap_ref_make_def can_bind_def same_capsD [OF same] bind_slot_def)
qed

lemma derive_spec:
  assumes wf: "wf_caps s" and eq: "derive p ty rt ob s = (r, t)"
  shows "case r of
      Inl _ \<Rightarrow> cap_map t = cap_map s
    | Inr ref \<Rightarrow> \<exists>d. p = Some d \<and> cap_map s (d, unat (ref_u64Slot ref)) = None
        \<and> cap_map t = (cap_map s)((d, unat (ref_u64Slot ref)) \<mapsto>
             \<lparr>b_type = ty, b_rights = rt, b_gen = hdr_u32Gen (st_objs s ob), b_obj = ob\<rparr>)
        \<and> gj_cap_resolve_ref t (Some d) (Some ref) =
            Inr \<lparr>res_pSlot = (d, ref_u64Slot ref), res_pObj = ob, res_u16Type = ty, res_u16Rights = rt\<rparr>"
  using eq
proof (cases rule: derive_cases)
  case (Fail st)
  then show ?thesis by (simp add: cap_map_same)
next
  case (Bind c j qs)
  then show ?thesis
    using can_bind_free [OF wf Bind(2)] cap_map_same [OF Bind(4)] cap_map_bind [OF wf Bind(2)]
      resolve_bound [OF wf Bind(2,4)]
    by (simp add: gj_cap_ref_make_def)
qed

lemma invalidate_gen: "wf_slot sl \<Longrightarrow> slot_u32Gen (gj_cap_slot_invalidate sl) \<noteq> slot_u32Gen sl"
  by (auto simp: gj_cap_slot_invalidate_def wf_slot_def)

lemma unbound_slot:
  assumes "wf_caps s" and "gj_cap_resolve s (Some c) i g = Inr res"
    and "same_caps (unbind_slot c i ob s) t"
  shows "slot_at t c i = gj_cap_slot_invalidate (slot_at s c i)"
    and "cn_pSlots (st_cnodes t c) \<noteq> None" and "i < cn_cSlots (st_cnodes t c)"
    and "gj_cap_resolve t (Some c) i g = Inl GJ_ERR_NOENT" and "slot_u32Gen (slot_at t c i) \<noteq> g"
proof -
  from assms(2) have r: "cn_pSlots (st_cnodes s c) \<noteq> None" "i < cn_cSlots (st_cnodes s c)" "g \<noteq> 0"
    "slot_u32Gen (slot_at s c i) = g" by (auto simp: resolve_Inr)
  note idx = wf_slot_index [OF assms(1) r(1,2)]
  show sl: "slot_at t c i = gj_cap_slot_invalidate (slot_at s c i)"
    unfolding slot_at_same [OF assms(3)] using idx(1) by (simp add: slot_at_def unbind_slot_def)
  show cn: "cn_pSlots (st_cnodes t c) \<noteq> None" "i < cn_cSlots (st_cnodes t c)"
    using r by (simp_all add: same_capsD(1) [OF assms(3)] unbind_slot_def)
  then have "cn_cSlots (st_cnodes t c) \<noteq> 0" by auto
  with sl cn r(3) show "gj_cap_resolve t (Some c) i g = Inl GJ_ERR_NOENT"
    by (simp add: gj_cap_resolve_def gj_cap_slot_invalidate_def Let_def not_le split: option.splits)
  show "slot_u32Gen (slot_at t c i) \<noteq> g"
    unfolding sl using invalidate_gen [OF idx(2)] r(4) by simp
qed

lemma stale_reuse:
  assumes "cn_pSlots (st_cnodes s c) \<noteq> None" and "i < cn_cSlots (st_cnodes s c)"
    and "slot_u32Gen (slot_at s c i) \<noteq> g"
  shows "gj_cap_resolve s (Some c) i g \<in> {Inl GJ_ERR_INVAL, Inl GJ_ERR_NOENT, Inl GJ_ERR_STALE_CAP}"
  using assms by (auto simp: gj_cap_resolve_def Let_def)

section \<open>Examples\<close>

lemma wit_boot_inv: "cap_inv {0} wit_boot"
  using wit_quotas_ok
  by (simp add: cap_inv_def wf_caps_def wf_cnode_def acct_ok_def slot_refs_def slots_of_def wit_boot_def)

lemma wit_caps_run: "(cap_step {0})\<^sup>*\<^sup>* wit_boot wit_caps"
proof -
  have "cap_step {0} wit_boot (gj_cnode_init (Some 0) True 4 wit_boot)"
    by (rule cap_step.cnode_init) (simp_all add: slot_refs_def slots_of_def wit_boot_def)
  moreover have "cap_step {0} (gj_cnode_init (Some 0) True 4 wit_boot) wit_caps"
    unfolding wit_caps_def by (rule cap_step.alloc_install) simp
  ultimately show ?thesis by (meson r_into_rtranclp rtranclp_trans)
qed

interpretation caps: kept "cap_step C" "\<lambda>s. finite C \<and> cap_inv C s" for C
  by unfold_locales (blast intro: cap_inv_step)

lemma cap_inv_run:
  "(cap_step C)\<^sup>*\<^sup>* s t \<Longrightarrow> finite C \<Longrightarrow> cap_inv C s \<Longrightarrow> cap_inv C t"
  using caps.run_keeps by blast

lemma wit_caps_inv: "cap_inv {0} wit_caps"
  by (rule cap_inv_run [OF wit_caps_run _ wit_boot_inv]) simp

lemma wit_caps_results:
  "fst (gj_cap_mint (Some 0) 1 1 3 None wit_caps) = Inr (gj_cap_ref_make 2 1)"
  "fst (gj_cap_copy (Some 0) 1 1 0 wit_caps) = Inr (gj_cap_ref_make 2 1)"
  "fst (gj_cap_move (Some 0) 1 1 wit_caps) = Inr (gj_cap_ref_make 2 1)"
  "fst (gj_cap_delete (Some 0) 1 1 wit_caps) = GJ_OK"
  by code_simp+

section \<open>Properties\<close>

text \<open>
  C3: the capability tables stay consistent over every sequence of operations.  Starting from
  consistent tables, after any number of installs, mints, copies, moves, deletes, invalidations,
  header and CNode initialisations, quota attachments and re-parentings: every slot generation is
  non-zero, a slot names an object exactly when it is in use, type root-meta occurs in slot 0 and
  nowhere else, \<^verbatim>\<open>u32SlotsLeft\<close> of every object is the number of slots bound to it, and the quota
  ledger is consistent.
\<close>

theorem cap_tables_invariant:
  assumes "(cap_step C)\<^sup>*\<^sup>* s t" and "finite C" and "cap_inv C s"
  shows "wf_caps t \<and> (\<forall>ob. unat (hdr_u32SlotsLeft (st_objs t ob)) = slot_refs C t ob)
    \<and> quota_ok (st_quotas t)"
  using cap_inv_run [OF assms] by (simp add: cap_inv_def acct_ok_def)

theorem cap_tables_invariant_witness:
  "wf_caps wit_caps \<and> (\<forall>ob. unat (hdr_u32SlotsLeft (st_objs wit_caps ob)) = slot_refs {0} wit_caps ob)
    \<and> quota_ok (st_quotas wit_caps) \<and> hdr_u32SlotsLeft (st_objs wit_caps 7) = 1"
proof -
  have "hdr_u32SlotsLeft (st_objs wit_caps 7) = 1" by code_simp
  with cap_tables_invariant [OF wit_caps_run _ wit_boot_inv] show ?thesis by simp
qed

text \<open>
  C2: authority cannot be amplified.  Whatever sequence of mints, copies, moves, deletes and
  invalidations processes perform, on any arguments, every binding in the resulting tables is
  derived from a binding that was there at the start: it names the same object in the same
  incarnation, with the same type and no right the original did not carry.
\<close>

theorem cap_authority_confined:
  assumes "(cap_derive_step C)\<^sup>*\<^sup>* s t" and "finite C" and "cap_inv C s"
  shows "\<forall>b' \<in> ran (cap_map t). \<exists>b \<in> ran (cap_map s).
    b_obj b' = b_obj b \<and> b_type b' = b_type b \<and> b_gen b' = b_gen b
    \<and> gj_cap_rights_is_subset (b_rights b) (b_rights b')"
proof -
  have "confined s t \<and> cap_inv C t"
    using assms(1)
  proof (induction rule: rtranclp_induct)
    case base
    show ?case using assms(3) by simp
  next
    case (step t u)
    then show ?case
      using confined_derive_step cap_inv_derive_step assms(2) confined_trans by metis
  qed
  then show ?thesis by (simp add: confined_def derived_from_def)
qed

theorem cap_authority_confined_witness:
  "\<exists>b' b. cap_map (snd (gj_cap_mint (Some 0) 1 1 3 None wit_caps)) (0, 2) = Some b' \<and> b_rights b' = 3
     \<and> b \<in> ran (cap_map wit_caps) \<and> b_obj b' = b_obj b \<and> b_type b' = b_type b \<and> b_gen b' = b_gen b
     \<and> gj_cap_rights_is_subset (b_rights b) (b_rights b')"
proof -
  let ?t = "snd (gj_cap_mint (Some 0) 1 1 3 None wit_caps)"
  let ?b = "\<lparr>b_type = GJ_CAP_NOTIFICATION, b_rights = 3, b_gen = 1, b_obj = 7\<rparr>"
  have "cap_derive_step {0} wit_caps ?t" by (rule cap_derive_step.mint) simp
  from cap_authority_confined [OF r_into_rtranclp [of "cap_derive_step {0}", OF this] _ wit_caps_inv]
  have all: "\<forall>b' \<in> ran (cap_map ?t). \<exists>b \<in> ran (cap_map wit_caps).
      b_obj b' = b_obj b \<and> b_type b' = b_type b \<and> b_gen b' = b_gen b
      \<and> gj_cap_rights_is_subset (b_rights b) (b_rights b')" by simp
  have m: "cap_map ?t (0, 2) = Some ?b" by code_simp
  then have "?b \<in> ran (cap_map ?t)" unfolding ran_def by blast
  with all obtain b where "b \<in> ran (cap_map wit_caps)" "b_obj ?b = b_obj b" "b_type ?b = b_type b"
    "b_gen ?b = b_gen b" "gj_cap_rights_is_subset (b_rights b) (b_rights ?b)" by blast
  with m show ?thesis by (intro exI [of _ ?b] exI [of _ b]) simp
qed

text \<open>
  Mint implements its abstract specification.  It succeeds only on a handle that resolves with
  the MINT right and a non-empty intersection of rights; then exactly one free slot of the
  destination becomes bound, to the same object, type and incarnation and the intersected rights,
  and the returned handle resolves to just that.  On every error no binding changes.
\<close>

lemma cap_mint_refines:
  assumes "wf_caps s" and "gj_cap_mint pS i g rt pD s = (r, t)"
  shows "case r of
      Inl _ \<Rightarrow> cap_map t = cap_map s
    | Inr ref \<Rightarrow> \<exists>d res. (if pD = None then pS else pD) = Some d \<and> gj_cap_resolve s pS i g = Inr res
        \<and> res_u16Rights res AND GJ_RIGHT_MINT \<noteq> 0 \<and> res_u16Rights res AND rt \<noteq> 0
        \<and> cap_map s (d, unat (ref_u64Slot ref)) = None
        \<and> cap_map t = (cap_map s)((d, unat (ref_u64Slot ref)) \<mapsto>
             \<lparr>b_type = res_u16Type res, b_rights = res_u16Rights res AND rt,
              b_gen = hdr_u32Gen (st_objs s (res_pObj res)), b_obj = res_pObj res\<rparr>)
        \<and> gj_cap_resolve_ref t (Some d) (Some ref) =
            Inr \<lparr>res_pSlot = (d, ref_u64Slot ref), res_pObj = res_pObj res,
                 res_u16Type = res_u16Type res, res_u16Rights = res_u16Rights res AND rt\<rparr>"
proof (cases "gj_cap_resolve s pS i g")
  case (Inl st)
  with assms(2) show ?thesis by (auto simp: mint_derive)
next
  case (Inr res)
  let ?w = "rights_weaker (res_u16Rights res) rt"
  show ?thesis
  proof (cases "res_u16Rights res AND GJ_RIGHT_MINT = 0 \<or> ?w = 0")
    case True
    with assms(2) Inr show ?thesis by (auto simp: mint_derive)
  next
    case False
    with assms(2) Inr have "derive (if pD = None then pS else pD) (res_u16Type res) ?w (res_pObj res) s = (r, t)"
      by (simp add: mint_derive)
    from derive_spec [OF assms(1) this] False Inr show ?thesis
      unfolding rights_weaker_def by (auto split: sum.splits)
  qed
qed

text \<open>
  Copy implements its abstract specification.  It needs the GRANT right on a handle that
  resolves; a zero rights argument means all rights of the source.  One free slot of the same
  CNode becomes bound to the same object with the intersected rights and the returned handle
  resolves to it; the source binding stays.  On every error no binding changes.
\<close>

lemma cap_copy_refines:
  assumes "wf_caps s" and "gj_cap_copy p i g rt s = (r, t)"
  shows "case r of
      Inl _ \<Rightarrow> cap_map t = cap_map s
    | Inr ref \<Rightarrow> \<exists>d res. p = Some d \<and> gj_cap_resolve s p i g = Inr res
        \<and> res_u16Rights res AND GJ_RIGHT_GRANT \<noteq> 0 \<and> ref_u64Slot ref \<noteq> i
        \<and> (let rt' = (if rt = 0 then res_u16Rights res else res_u16Rights res AND rt)
           in cap_map t = (cap_map s)((d, unat (ref_u64Slot ref)) \<mapsto>
                \<lparr>b_type = res_u16Type res, b_rights = rt',
                 b_gen = hdr_u32Gen (st_objs s (res_pObj res)), b_obj = res_pObj res\<rparr>)
              \<and> cap_map s (d, unat (ref_u64Slot ref)) = None
              \<and> gj_cap_resolve_ref t p (Some ref) =
                  Inr \<lparr>res_pSlot = (d, ref_u64Slot ref), res_pObj = res_pObj res,
                       res_u16Type = res_u16Type res, res_u16Rights = rt'\<rparr>)"
proof (cases "gj_cap_resolve s p i g")
  case (Inl st)
  with assms(2) show ?thesis by (auto simp: copy_derive)
next
  case (Inr res)
  let ?w = "rights_weaker (res_u16Rights res) (if rt \<noteq> 0 then rt else res_u16Rights res)"
  have w: "?w = (if rt = 0 then res_u16Rights res else res_u16Rights res AND rt)"
    by (simp add: rights_weaker_def)
  obtain c where c: "p = Some c" "cap_map s (c, unat i) \<noteq> None"
    by (rule resolve_binding [OF assms(1) Inr]) auto
  show ?thesis
  proof (cases "res_u16Rights res AND GJ_RIGHT_GRANT = 0")
    case True
    with assms(2) Inr show ?thesis by (auto simp: copy_derive)
  next
    case False
    with assms(2) Inr have "derive p (res_u16Type res) ?w (res_pObj res) s = (r, t)"
      by (simp add: copy_derive)
    note sp = derive_spec [OF assms(1) this, unfolded w]
    show ?thesis
    proof (cases r)
      case (Inl st)
      with sp show ?thesis by simp
    next
      case Some: (Inr ref)
      with sp c have "ref_u64Slot ref \<noteq> i" by auto
      with sp Some False Inr c(1) show ?thesis by (simp add: Let_def)
    qed
  qed
qed

text \<open>
  Move transfers a binding and kills the old handle.  It needs the GRANT right and a source
  outside slot 0.  On success the binding sits, unchanged, in a fresh slot whose handle resolves;
  the source slot is empty with a different generation, so the old handle no longer resolves; no
  other binding changes and the object's count of bound slots is what it was.  On every error no
  binding changes.
\<close>

lemma cap_move_refines:
  assumes "cap_inv C s" and "finite C" and "c \<in> C" and "gj_cap_move (Some c) i g s = (r, t)"
  shows "case r of
      Inl _ \<Rightarrow> cap_map t = cap_map s
    | Inr ref \<Rightarrow> \<exists>res b. gj_cap_resolve s (Some c) i g = Inr res
        \<and> res_u16Rights res AND GJ_RIGHT_GRANT \<noteq> 0 \<and> i \<noteq> GJ_CAP_SLOT_ROOT_META
        \<and> cap_map s (c, unat i) = Some b \<and> cap_map s (c, unat (ref_u64Slot ref)) = None
        \<and> cap_map t = (cap_map s)((c, unat (ref_u64Slot ref)) \<mapsto> b, (c, unat i) := None)
        \<and> gj_cap_resolve_ref t (Some c) (Some ref) = Inr (res\<lparr>res_pSlot := (c, ref_u64Slot ref)\<rparr>)
        \<and> gj_cap_resolve t (Some c) i g = Inl GJ_ERR_NOENT
        \<and> slot_u32Gen (slot_at t c i) \<noteq> g
        \<and> hdr_u32SlotsLeft (st_objs t (res_pObj res)) = hdr_u32SlotsLeft (st_objs s (res_pObj res))"
proof -
  have wf: "wf_caps s" using assms(1) by (simp add: cap_inv_def)
  from assms(4) wf show ?thesis
  proof (cases rule: move_cases)
    case (Fail st)
    then show ?thesis by (simp add: cap_map_same)
  next
    case (Move d res j qs)
    have d: "d = c" using Move(1) by simp
    let ?ty = "res_u16Type res" and ?rt = "res_u16Rights res" and ?ob = "res_pObj res"
    let ?b = "bind_slot c j ?ty ?rt ?ob s"
    note cb = Move(6) [unfolded d] and t = Move(8) [unfolded d]
    have wfb: "wf_caps ?b" by (rule wf_caps_bind [OF wf cb])
    have ji: "unat j \<noteq> unat i" using Move(5) by (simp add: unat_eq_iff)
    have sl: "slot_at ?b c i = slot_at s c i" using ji by (simp add: slot_at_def bind_slot_def)
    have resb: "gj_cap_resolve ?b (Some c) i g = Inr res"
      using Move(2) sl by (auto simp: resolve_Inr bind_slot_def)
    note gone = unbound_slot [OF wfb resb t]
    obtain b where b: "cap_map s (c, unat i) = Some b" "b = \<lparr>b_type = ?ty, b_rights = ?rt,
        b_gen = hdr_u32Gen (st_objs s ?ob), b_obj = ?ob\<rparr>"
      by (rule resolve_binding [OF wf Move(2)]) simp
    have map: "cap_map t = (cap_map s)((c, unat j) \<mapsto> b, (c, unat i) := None)"
      unfolding cap_map_same [OF t] cap_map_unbind cap_map_bind [OF wf cb] b(2) ..
    have new: "gj_cap_resolve_ref t (Some c) (Some (gj_cap_ref_make j (slot_u32Gen (slot_at t c j))))
        = Inr (res\<lparr>res_pSlot := (c, j)\<rparr>)"
      using resolve_bound [OF wf cb same_caps_refl, of ?rt] ji
      unfolding gj_cap_resolve_ref_def gj_cap_ref_make_def
      by (auto simp: resolve_Inr same_capsD [OF t] slot_at_same [OF t] slot_at_def unbind_slot_def
          slots_left_dec_def)
    have "hdr_u32SlotsLeft (st_objs ?b ?ob) = hdr_u32SlotsLeft (st_objs s ?ob) + 1"
      by (simp add: bind_slot_def)
    moreover have "hdr_u32SlotsLeft (st_objs s ?ob) + 1 \<noteq> 0"
      using cb by (auto simp: can_bind_def add_eq_0_iff2)
    ultimately have left: "hdr_u32SlotsLeft (st_objs t ?ob) = hdr_u32SlotsLeft (st_objs s ?ob)"
      by (simp add: same_capsD [OF t] unbind_slot_def slots_left_dec_def word_greater_zero_iff)
    show ?thesis
      using Move(2-4,10) d b(1) map new gone(4,5) left can_bind_free [OF wf cb]
      by (simp add: gj_cap_ref_make_def)
  qed
qed

text \<open>
  Delete drops one binding and its handle never comes back.  It needs DESTROY or GRANT on a
  handle that resolves outside slot 0.  On success exactly that binding disappears, the object's
  count drops by one, the handle resolves to NOENT, and after any later install into the slot the
  old handle is refused (stale generation) while the new one resolves.  On every error nothing
  changes at all.
\<close>

lemma cap_delete_refines:
  assumes "cap_inv C s" and "finite C" and "c \<in> C" and "gj_cap_delete (Some c) i g s = (st, t)"
  shows "if st \<noteq> GJ_OK then t = s
    else \<exists>res. gj_cap_resolve s (Some c) i g = Inr res \<and> i \<noteq> GJ_CAP_SLOT_ROOT_META
      \<and> (res_u16Rights res AND GJ_RIGHT_DESTROY \<noteq> 0 \<or> res_u16Rights res AND GJ_RIGHT_GRANT \<noteq> 0)
      \<and> cap_map t = (cap_map s)((c, unat i) := None)
      \<and> unat (hdr_u32SlotsLeft (st_objs t (res_pObj res))) + 1 = unat (hdr_u32SlotsLeft (st_objs s (res_pObj res)))
      \<and> gj_cap_resolve t (Some c) i g = Inl GJ_ERR_NOENT
      \<and> (\<forall>ty rt pObj ref u. gj_cap_slot_install (Some c) i ty rt pObj t = (Inr ref, u) \<longrightarrow>
            gj_cap_resolve u (Some c) i g = Inl GJ_ERR_STALE_CAP
            \<and> (\<exists>res'. gj_cap_resolve_ref u (Some c) (Some ref) = Inr res' \<and> Some (res_pObj res') = pObj))"
  using assms(4)
proof (cases rule: delete_cases)
  case Fail
  then show ?thesis by simp
next
  case (Delete d res)
  have wf: "wf_caps s" using assms(1) by (simp add: cap_inv_def)
  have d: "d = c" using Delete(1) by simp
  let ?ob = "res_pObj res"
  note t = Delete(6) [unfolded d]
  note gone = unbound_slot [OF wf Delete(2) t]
  have idx: "cn_pSlots (st_cnodes s c) \<noteq> None" "i < cn_cSlots (st_cnodes s c)" "binds ?ob (slot_at s c i)" "g \<noteq> 0"
    using Delete(2) by (auto simp: resolve_Inr binds_def)
  have inv: "cap_inv C t" using cap_inv_delete [OF assms(1-3)] assms(4) by (metis snd_conv)
  have "length (filter (binds ?ob) (slots_of s c)) \<noteq> 0"
    using idx wf_slot_index(1) [OF wf idx(1,2)] by (auto simp: filter_empty_conv slot_at_def)
  then have "0 < slot_refs C s ?ob"
    unfolding slot_refs_def using assms(2,3) by (intro sum_pos2 [of C c]) simp_all
  then have pos: "0 < hdr_u32SlotsLeft (st_objs s ?ob)"
    using assms(1) by (simp add: cap_inv_def acct_ok_def word_less_nat_alt)
  then have left: "unat (hdr_u32SlotsLeft (st_objs t ?ob)) + 1 = unat (hdr_u32SlotsLeft (st_objs s ?ob))"
    by (simp add: same_capsD [OF t] unbind_slot_def slots_left_dec_def unat_dec word_less_nat_alt)
  have later: "gj_cap_resolve u (Some c) i g = Inl GJ_ERR_STALE_CAP
      \<and> (\<exists>res'. gj_cap_resolve_ref u (Some c) (Some ref) = Inr res' \<and> Some (res_pObj res') = pObj)"
    if "gj_cap_slot_install (Some c) i ty rt pObj t = (Inr ref, u)" for ty rt pObj ref u
    using that
  proof (cases rule: install_cases)
    case (Bind d' ob qs)
    have "same_caps (bind_slot c i ty rt ob t) u" using Bind(1,5) by (simp add: same_caps_bind)
    note res = resolve_bound [OF _ _ this]
    have "gj_cap_resolve_ref u (Some c) (Some ref) =
        Inr \<lparr>res_pSlot = (c, i), res_pObj = ob, res_u16Type = ty, res_u16Rights = rt\<rparr>"
      using res Bind inv by (simp add: cap_inv_def)
    moreover have "slot_u32Gen (slot_at u c i) \<noteq> g" "slot_u16Type (slot_at u c i) \<noteq> GJ_CAP_INVALID"
      and "cn_pSlots (st_cnodes u c) \<noteq> None" "i < cn_cSlots (st_cnodes u c)"
      using Bind gone inv unat_less_slots [of t c i ty ob]
      by (auto simp: slot_at_def bind_slot_def cap_inv_def can_bind_def)
    moreover have "cn_cSlots (st_cnodes u c) \<noteq> 0" using calculation by auto
    ultimately show ?thesis
      using idx(4) Bind(2) by (simp add: gj_cap_resolve_def Let_def)
  qed simp
  show ?thesis
    using Delete d gone(4) left later cap_map_same [OF t] by (simp add: cap_map_unbind)
qed

end
