(* ===== verification/Cap_Cdt.thy ===== *)
theory Cap_Cdt
  imports Cap_Props
begin

text \<open>
  Soundness of the derivation edges: the edge pool is partitioned into free edges and edges on
  the list of exactly one object, and an edge on an object's list names a slot bound to that
  object.  Every operation on the capability tables keeps this, and the pool satisfies the
  allocator contract.
\<close>

section \<open>Invariant\<close>

abbreviation cdt_list :: "'a cap_state_scheme \<Rightarrow> nat \<Rightarrow> nat list" where
  "cdt_list s ob \<equiv> hdr_pCdtHead (st_objs s ob)"

text \<open>Slot \<open>i\<close> of CNode \<open>c\<close> exists and is bound to \<open>ob\<close>.\<close>

definition live_slot :: "'a cap_state_scheme \<Rightarrow> nat \<Rightarrow> nat \<Rightarrow> u64 \<Rightarrow> bool" where
  "live_slot s ob c i \<longleftrightarrow> cn_pSlots (st_cnodes s c) \<noteq> None \<and> i < cn_cSlots (st_cnodes s c)
     \<and> binds ob (slot_at s c i)"

definition pool_count :: "'a cap_state_scheme \<Rightarrow> bool" where
  "pool_count s \<longleftrightarrow> length (g_aCdtUsed s) = GJ_CDT_EDGE_POOL
     \<and> unat (g_u32CdtPoolUsed s) = length (filter id (g_aCdtUsed s))"

definition pool_lists :: "'a cap_state_scheme \<Rightarrow> bool" where
  "pool_lists s \<longleftrightarrow> (\<forall>ob. distinct (cdt_list s ob) \<and> set (cdt_list s ob) \<subseteq> {..<GJ_CDT_EDGE_POOL})
     \<and> (\<forall>ob ob' e. e \<in> set (cdt_list s ob) \<longrightarrow> e \<in> set (cdt_list s ob') \<longrightarrow> ob = ob')
     \<and> (\<forall>e < GJ_CDT_EDGE_POOL. g_aCdtUsed s ! e \<longleftrightarrow> (\<exists>ob. e \<in> set (cdt_list s ob)))"

text \<open>Every edge names a slot bound to its object, those of \<open>X\<close> excepted.\<close>

definition edges_live :: "nat set \<Rightarrow> (nat \<times> nat \<times> u64) set \<Rightarrow> 'a cap_state_scheme \<Rightarrow> bool" where
  "edges_live C X s \<longleftrightarrow> (\<forall>ob. \<forall>e \<in> set (cdt_list s ob). \<exists>c i. c \<in> C
     \<and> st_edges s e = \<lparr>edge_pCnode = Some c, edge_u64Slot = i\<rparr> \<and> ((ob, c, i) \<in> X \<or> live_slot s ob c i))"

text \<open>No slot is named by two edges of one object.\<close>

definition edges_inj :: "'a cap_state_scheme \<Rightarrow> bool" where
  "edges_inj s \<longleftrightarrow> (\<forall>ob. inj_on (st_edges s) (set (cdt_list s ob)))"

definition cdt_ok :: "nat set \<Rightarrow> (nat \<times> nat \<times> u64) set \<Rightarrow> 'a cap_state_scheme \<Rightarrow> bool" where
  "cdt_ok C X s \<longleftrightarrow> pool_count s \<and> pool_lists s \<and> edges_live C X s \<and> edges_inj s"

text \<open>An edge of \<open>ob\<close> names slot \<open>i\<close> of CNode \<open>c\<close>.\<close>

definition named :: "'a cap_state_scheme \<Rightarrow> nat \<Rightarrow> nat \<Rightarrow> u64 \<Rightarrow> bool" where
  "named s ob c i \<longleftrightarrow>
     (\<exists>e \<in> set (cdt_list s ob). st_edges s e = \<lparr>edge_pCnode = Some c, edge_u64Slot = i\<rparr>)"

text \<open>The two changes to the edge structures.\<close>

definition wired :: "nat \<Rightarrow> nat \<Rightarrow> nat \<Rightarrow> u64 \<Rightarrow> 'a cap_state_scheme \<Rightarrow> 'a cap_state_scheme" where
  "wired ob e c i s =
     upd_obj ob (\<lambda>h. h\<lparr>hdr_pCdtHead := e # hdr_pCdtHead h\<rparr>)
       (s\<lparr>g_aCdtUsed := (g_aCdtUsed s)[e := True],
         st_edges := (st_edges s)(e := \<lparr>edge_pCnode = Some c, edge_u64Slot = i\<rparr>),
         g_u32CdtPoolUsed := g_u32CdtPoolUsed s + 1\<rparr>)"

definition unwired :: "nat \<Rightarrow> nat \<Rightarrow> 'a cap_state_scheme \<Rightarrow> 'a cap_state_scheme" where
  "unwired ob e s =
     upd_obj ob (\<lambda>h. h\<lparr>hdr_pCdtHead := remove1 e (hdr_pCdtHead h)\<rparr>)
       (s\<lparr>g_aCdtUsed := (g_aCdtUsed s)[e := False], st_edges := (st_edges s)(e := empty_edge),
         g_u32CdtPoolUsed := g_u32CdtPoolUsed s - 1\<rparr>)"

section \<open>The pool\<close>

lemma filter_id_less: "e < length xs \<Longrightarrow> \<not> xs ! e \<Longrightarrow> length (filter id xs) < length xs"
  by (metis id_apply length_filter_less nth_mem)

lemma filter_id_pos: "e < length xs \<Longrightarrow> xs ! e \<Longrightarrow> 0 < length (filter id xs)"
  by (metis filter_empty_conv id_apply length_greater_0_conv nth_mem)

lemma pool_count_room:
  assumes "pool_count s" and "e < GJ_CDT_EDGE_POOL" and "\<not> g_aCdtUsed s ! e"
  shows "g_u32CdtPoolUsed s < 0xffffffff"
proof -
  have "unat (g_u32CdtPoolUsed s) < 256"
    using assms filter_id_less [of e "g_aCdtUsed s"] by (simp add: pool_count_def)
  then show ?thesis by (simp add: word_less_nat_alt)
qed

lemma pool_count_set:
  assumes "pool_count s" and "e < GJ_CDT_EDGE_POOL" and "\<not> g_aCdtUsed s ! e"
    and "g_aCdtUsed t = (g_aCdtUsed s)[e := True]" and "g_u32CdtPoolUsed t = g_u32CdtPoolUsed s + 1"
  shows "pool_count t"
proof -
  have "unat (g_u32CdtPoolUsed s + 1) = Suc (unat (g_u32CdtPoolUsed s))"
    using pool_count_room [OF assms(1-3)] by (intro unat_inc less_inc_nonzero)
  then show ?thesis
    using assms length_filter_update [of e "g_aCdtUsed s" id True] by (simp add: pool_count_def)
qed

lemma pool_count_clear:
  assumes "pool_count s" and "e < GJ_CDT_EDGE_POOL" and "g_aCdtUsed s ! e"
    and "g_aCdtUsed t = (g_aCdtUsed s)[e := False]" and "g_u32CdtPoolUsed t = g_u32CdtPoolUsed s - 1"
  shows "pool_count t" and "0 < g_u32CdtPoolUsed s"
proof -
  have pos: "0 < unat (g_u32CdtPoolUsed s)"
    using assms filter_id_pos [of e "g_aCdtUsed s"] by (simp add: pool_count_def)
  then show "0 < g_u32CdtPoolUsed s" by (simp add: word_less_nat_alt)
  then have "unat (g_u32CdtPoolUsed s - 1) = unat (g_u32CdtPoolUsed s) - 1" by (rule unat_dec)
  then show "pool_count t"
    using assms pos length_filter_update [of e "g_aCdtUsed s" id False] by (simp add: pool_count_def)
qed

lemma edge_alloc_cases:
  assumes "cdt_edge_alloc s = (r, t)" and "pool_count s"
  obtains (Full) "r = None" "t = s" "\<forall>e < GJ_CDT_EDGE_POOL. g_aCdtUsed s ! e"
    | (Got) e where "r = Some e" "e < GJ_CDT_EDGE_POOL" "\<not> g_aCdtUsed s ! e"
        "t = s\<lparr>g_aCdtUsed := (g_aCdtUsed s)[e := True], st_edges := (st_edges s)(e := empty_edge),
          g_u32CdtPoolUsed := g_u32CdtPoolUsed s + 1\<rparr>"
proof (cases "find (\<lambda>i. \<not> g_aCdtUsed s ! i) [0..<GJ_CDT_EDGE_POOL]")
  case None
  with assms show ?thesis by (intro Full) (auto simp: cdt_edge_alloc_def find_None_iff)
next
  case (Some e)
  then have e: "e < GJ_CDT_EDGE_POOL" "\<not> g_aCdtUsed s ! e" by (auto dest: find_SomeD)
  with assms Some pool_count_room [OF assms(2) e] show ?thesis
    by (intro Got [of e]) (auto simp: cdt_edge_alloc_def)
qed

text \<open>The pool as an allocator of its 256 edges.\<close>

definition edge_pool_free :: "nat \<Rightarrow> 'a cap_state_scheme \<Rightarrow> 'a cap_state_scheme" where
  "edge_pool_free e = cdt_edge_free (Some e)"

definition edge_pool_used :: "'a cap_state_scheme \<Rightarrow> nat set" where
  "edge_pool_used s = {e. e < GJ_CDT_EDGE_POOL \<and> g_aCdtUsed s ! e}"

interpretation edge_pool: pool pool_count edge_pool_used "{..<GJ_CDT_EDGE_POOL}" cdt_edge_alloc edge_pool_free
proof unfold_locales
  fix s t :: "'a cap_state_scheme" and a
  assume ok: "pool_count s"
  then have len: "length (g_aCdtUsed s) = GJ_CDT_EDGE_POOL" by (simp add: pool_count_def)
  show "edge_pool_used s \<subseteq> {..<GJ_CDT_EDGE_POOL}" by (auto simp: edge_pool_used_def)
  show "pool_count t \<and> a \<in> {..<GJ_CDT_EDGE_POOL} - edge_pool_used s
      \<and> edge_pool_used t = insert a (edge_pool_used s)" if "cdt_edge_alloc s = (Some a, t)"
    using that ok
  proof (cases rule: edge_alloc_cases)
    case (Got e)
    have "pool_count t" by (rule pool_count_set [OF ok Got(2,3)]) (simp_all add: Got(4))
    with Got len show ?thesis by (auto simp: edge_pool_used_def nth_list_update split: if_splits)
  qed simp
  show "t = s \<and> edge_pool_used s = {..<GJ_CDT_EDGE_POOL}" if "cdt_edge_alloc s = (None, t)"
    using that ok by (cases rule: edge_alloc_cases) (auto simp: edge_pool_used_def)
  show "pool_count (edge_pool_free a s) \<and> edge_pool_used (edge_pool_free a s) = edge_pool_used s - {a}"
    if "a \<in> edge_pool_used s"
  proof -
    have a: "a < GJ_CDT_EDGE_POOL" "g_aCdtUsed s ! a" using that by (auto simp: edge_pool_used_def)
    note c = pool_count_clear [OF ok a]
    have eq: "edge_pool_free a s = s\<lparr>g_u32CdtPoolUsed := g_u32CdtPoolUsed s - 1,
        g_aCdtUsed := (g_aCdtUsed s)[a := False], st_edges := (st_edges s)(a := empty_edge)\<rparr>"
      using a c(2) [of "s\<lparr>g_u32CdtPoolUsed := g_u32CdtPoolUsed s - 1,
        g_aCdtUsed := (g_aCdtUsed s)[a := False]\<rparr>"]
      by (simp add: edge_pool_free_def cdt_edge_free_def)
    have "pool_count (edge_pool_free a s)" unfolding eq by (rule c(1)) simp_all
    then show ?thesis
      unfolding eq using a len
      by (auto simp: edge_pool_used_def nth_list_update split: if_splits)
  qed
qed simp

section \<open>Wiring and unwiring one edge\<close>

lemma wired_frame [simp]:
  "st_cnodes (wired ob e c i s) = st_cnodes s"
  "cdt_list (wired ob e c i s) ob' = (if ob' = ob then e # cdt_list s ob else cdt_list s ob')"
  "st_edges (wired ob e c i s) =
     (st_edges s)(e := \<lparr>edge_pCnode = Some c, edge_u64Slot = i\<rparr>)"
  "g_aCdtUsed (wired ob e c i s) = (g_aCdtUsed s)[e := True]"
  "slots_of (wired ob e c i s) = slots_of s"
  by (auto simp: wired_def slots_of_def fun_eq_iff)

lemma unwired_frame [simp]:
  "st_cnodes (unwired ob e s) = st_cnodes s"
  "cdt_list (unwired ob e s) ob' = (if ob' = ob then remove1 e (cdt_list s ob) else cdt_list s ob')"
  "st_edges (unwired ob e s) = (st_edges s)(e := empty_edge)"
  "g_aCdtUsed (unwired ob e s) = (g_aCdtUsed s)[e := False]"
  "slots_of (unwired ob e s) = slots_of s"
  by (auto simp: unwired_def slots_of_def fun_eq_iff)

lemma live_slot_cong:
  "st_cnodes t = st_cnodes s \<Longrightarrow> live_slot t ob c i = live_slot s ob c i"
  by (simp add: live_slot_def slot_at_def slots_of_def)

lemma pool_listsD:
  assumes "pool_lists s"
  shows "distinct (cdt_list s ob)" and "e \<in> set (cdt_list s ob) \<Longrightarrow> e < GJ_CDT_EDGE_POOL"
    and "e \<in> set (cdt_list s ob) \<Longrightarrow> e \<in> set (cdt_list s ob') \<Longrightarrow> ob = ob'"
    and "e < GJ_CDT_EDGE_POOL \<Longrightarrow> g_aCdtUsed s ! e \<longleftrightarrow> (\<exists>ob. e \<in> set (cdt_list s ob))"
  using assms unfolding pool_lists_def by blast+

lemma try_wire_cases:
  assumes ok: "cdt_ok C X s" and live: "live_slot s ob c i"
  obtains (Full) "cdt_edge_try_wire ob (Some c) i s = s"
    | (Wired) e where "e < GJ_CDT_EDGE_POOL" "\<not> g_aCdtUsed s ! e"
        "cdt_edge_try_wire ob (Some c) i s = wired ob e c i s"
proof -
  have pc: "pool_count s" and pl: "pool_lists s" using ok by (simp_all add: cdt_ok_def)
  obtain r t where al: "cdt_edge_alloc s = (r, t)" by (cases "cdt_edge_alloc s")
  from al pc show ?thesis
  proof (cases rule: edge_alloc_cases)
    case Full
    with al show ?thesis by (intro that(1)) (simp add: cdt_edge_try_wire_def)
  next
    case (Got e)
    have "e \<notin> set (cdt_list s ob)" using pool_listsD(4) [OF pl Got(2)] Got(3) by blast
    moreover have "cn_pSlots (st_cnodes s c) \<noteq> None" "\<not> cn_cSlots (st_cnodes s c) \<le> i"
      using live by (auto simp: live_slot_def)
    ultimately have "cdt_edge_try_wire ob (Some c) i s = wired ob e c i s"
      using al Got by (auto simp: cdt_edge_try_wire_def gj_cdt_edge_link_def wired_def upd_obj_def)
    with Got show ?thesis by (intro that(2))
  qed
qed

lemma cdt_ok_wired:
  assumes ok: "cdt_ok C X s" and live: "live_slot s ob c i" "c \<in> C" and nn: "\<not> named s ob c i"
    and e: "e < GJ_CDT_EDGE_POOL" "\<not> g_aCdtUsed s ! e"
  shows "cdt_ok C X (wired ob e c i s)"
proof -
  have pc: "pool_count s" and pl: "pool_lists s" and el: "edges_live C X s" and inj: "edges_inj s"
    using ok by (simp_all add: cdt_ok_def)
  have fresh: "e \<notin> set (cdt_list s x)" for x using pool_listsD(4) [OF pl e(1)] e(2) by blast
  have len: "length (g_aCdtUsed s) = GJ_CDT_EDGE_POOL" using pc by (simp add: pool_count_def)
  have ex: "(\<exists>x. a \<in> set (cdt_list (wired ob e c i s) x)) \<longleftrightarrow> a = e \<or> (\<exists>x. a \<in> set (cdt_list s x))" for a
  proof -
    have "a \<in> set (cdt_list (wired ob e c i s) x) \<longleftrightarrow> (a = e \<and> x = ob) \<or> a \<in> set (cdt_list s x)" for x
      by auto
    then show ?thesis by blast
  qed
  have "pool_count (wired ob e c i s)"
    by (rule pool_count_set [OF pc e]) (simp_all add: wired_def)
  moreover have "pool_lists (wired ob e c i s)"
    using pl e fresh len unfolding pool_lists_def ex by (auto simp: nth_list_update)
  moreover have "live_slot (wired ob e c i s) x d j = live_slot s x d j" for x d j
    by (rule live_slot_cong) simp
  then have "edges_live C X (wired ob e c i s)"
    using el live fresh unfolding edges_live_def by (auto simp: live)
  moreover have "edges_inj (wired ob e c i s)"
    using inj nn fresh unfolding edges_inj_def named_def by (auto simp: inj_on_def)
  ultimately show ?thesis by (simp add: cdt_ok_def)
qed

lemma cdt_ok_try_wire:
  assumes "cdt_ok C X s" and "live_slot s ob c i" and "c \<in> C" and "\<not> named s ob c i"
  shows "cdt_ok C X (cdt_edge_try_wire ob (Some c) i s)"
  using assms(1,2)
proof (cases rule: try_wire_cases)
  case Full
  with assms show ?thesis by simp
next
  case (Wired e)
  with assms cdt_ok_wired show ?thesis by simp
qed

lemma edge_unlink_eq:
  assumes "cdt_ok C X s" and "e \<in> set (cdt_list s ob)"
  shows "gj_cdt_edge_unlink (Some ob) (Some e) s = unwired ob e s"
proof -
  have pl: "pool_lists s" using assms(1) by (simp add: cdt_ok_def)
  have e: "e < GJ_CDT_EDGE_POOL" "g_aCdtUsed s ! e"
    using assms(2) pool_listsD(2,4) [OF pl] by auto
  then have "0 < g_u32CdtPoolUsed s"
    using pool_count_clear(2) [of s e "s\<lparr>g_aCdtUsed := (g_aCdtUsed s)[e := False],
      g_u32CdtPoolUsed := g_u32CdtPoolUsed s - 1\<rparr>"] assms by (simp add: cdt_ok_def)
  with e assms(2) show ?thesis
    by (simp add: gj_cdt_edge_unlink_def Let_def cdt_edge_free_def unwired_def upd_obj_def)
qed

lemma cdt_ok_unwired:
  assumes ok: "cdt_ok C X s" and e: "e \<in> set (cdt_list s ob)"
  shows "cdt_ok C X (unwired ob e s)"
proof -
  have pc: "pool_count s" and pl: "pool_lists s" and el: "edges_live C X s" and inj: "edges_inj s"
    using ok by (simp_all add: cdt_ok_def)
  have e': "e < GJ_CDT_EDGE_POOL" "g_aCdtUsed s ! e" using pool_listsD(2,4) [OF pl] e by auto
  have len: "length (g_aCdtUsed s) = GJ_CDT_EDGE_POOL" using pc by (simp add: pool_count_def)
  have only: "x = ob" if "e \<in> set (cdt_list s x)" for x using pool_listsD(3) [OF pl that e] .
  have rem: "set (remove1 e (cdt_list s ob)) = set (cdt_list s ob) - {e}"
    by (rule set_remove1_eq [OF pool_listsD(1) [OF pl]])
  have "pool_count (unwired ob e s)"
    by (rule pool_count_clear(1) [OF pc e']) (simp_all add: unwired_def)
  moreover have "pool_lists (unwired ob e s)"
    using pl e e' only len unfolding pool_lists_def by (auto simp: nth_list_update rem)
  moreover have "live_slot (unwired ob e s) x d j = live_slot s x d j" for x d j
    by (rule live_slot_cong) simp
  then have "edges_live C X (unwired ob e s)"
    using el only unfolding edges_live_def by (auto simp: rem)
  moreover have "edges_inj (unwired ob e s)"
    using inj only unfolding edges_inj_def by (auto simp: rem inj_on_def)
  ultimately show ?thesis by (simp add: cdt_ok_def)
qed

lemma cdt_ok_edge_unlink:
  assumes "cdt_ok C X s"
  shows "cdt_ok C X (gj_cdt_edge_unlink (Some ob) (Some e) s)"
proof (cases "e \<in> set (cdt_list s ob)")
  case True
  with assms show ?thesis by (simp add: edge_unlink_eq cdt_ok_unwired)
next
  case False
  with assms show ?thesis by (simp add: gj_cdt_edge_unlink_def)
qed

lemma cdt_ok_unlink_loop:
  "cdt_ok C X s \<Longrightarrow> cdt_ok C X (unlink_slot_loop ob p i ws s)"
  by (induction ws arbitrary: s) (simp_all add: cdt_ok_edge_unlink)

section \<open>Changes of the tables\<close>

lemma live_slot_slots:
  assumes "cn_pSlots (st_cnodes t c) = cn_pSlots (st_cnodes s c)"
    and "cn_cSlots (st_cnodes t c) = cn_cSlots (st_cnodes s c)"
  shows "live_slot t ob c i = live_slot s ob c i"
  using assms by (simp add: live_slot_def slot_at_def slots_of_def)

text \<open>The invariant reads the edge structures and, through them, the slots.\<close>

lemma cdt_ok_mono:
  assumes "cdt_ok C X s" and "g_aCdtUsed t = g_aCdtUsed s" and "g_u32CdtPoolUsed t = g_u32CdtPoolUsed s"
    and "st_edges t = st_edges s" and lists: "\<And>ob. cdt_list t ob = cdt_list s ob"
    and live: "\<And>ob c i. c \<in> C \<Longrightarrow> live_slot s ob c i \<Longrightarrow> live_slot t ob c i \<or> (ob, c, i) \<in> Y"
  shows "cdt_ok C (X \<union> Y) t"
proof -
  have "edges_live C (X \<union> Y) t"
    unfolding edges_live_def lists
  proof (intro allI ballI)
    fix ob e assume "e \<in> set (cdt_list s ob)"
    then obtain c i where "c \<in> C" "st_edges s e = \<lparr>edge_pCnode = Some c, edge_u64Slot = i\<rparr>"
      "(ob, c, i) \<in> X \<or> live_slot s ob c i"
      using assms(1) unfolding cdt_ok_def edges_live_def by blast
    with live show "\<exists>c i. c \<in> C \<and> st_edges t e = \<lparr>edge_pCnode = Some c, edge_u64Slot = i\<rparr>
        \<and> ((ob, c, i) \<in> X \<union> Y \<or> live_slot t ob c i)"
      unfolding assms(4) by blast
  qed
  with assms show ?thesis by (simp add: cdt_ok_def pool_count_def pool_lists_def edges_inj_def)
qed

lemmas cdt_ok_frame = cdt_ok_mono [where Y = "{}", unfolded Un_empty_right]

lemma cdt_ok_quotas: "cdt_ok C X s \<Longrightarrow> cdt_ok C X (s\<lparr>st_quotas := q\<rparr>)"
  by (erule cdt_ok_frame) (simp_all add: live_slot_slots [of "s\<lparr>st_quotas := q\<rparr>" _ s])

lemma live_slot_lock:
  "live_slot (snd (gj_cnode_trylock p s)) ob c i = live_slot s ob c i"
  "live_slot (gj_cnode_unlock p s) ob c i = live_slot s ob c i"
  by (rule live_slot_slots; simp add: gj_cnode_trylock_def gj_cnode_unlock_def split: option.split)+

lemma cdt_ok_trylock: "cdt_ok C X s \<Longrightarrow> cdt_ok C X (snd (gj_cnode_trylock p s))"
  by (erule cdt_ok_frame)
    (simp_all add: live_slot_lock, simp_all add: gj_cnode_trylock_def split: option.split)

lemma cdt_ok_unlock: "cdt_ok C X s \<Longrightarrow> cdt_ok C X (gj_cnode_unlock p s)"
  by (erule cdt_ok_frame)
    (simp_all add: live_slot_lock, simp_all add: gj_cnode_unlock_def split: option.split)

lemma live_bind:
  assumes "wf_caps s" and "can_bind s c j ty ob"
  shows "live_slot (bind_slot c j ty rt ob s) ob c j"
    and "live_slot s x d i \<Longrightarrow> live_slot (bind_slot c j ty rt ob s) x d i"
proof -
  have idx: "unat j < length (slots_of s c)"
    using wf_slot_index(1) [OF assms(1)] assms(2) by (simp add: can_bind_def)
  then show "live_slot (bind_slot c j ty rt ob s) ob c j"
    using assms(2) by (simp add: live_slot_def bind_slot_def slot_at_def binds_def can_bind_def)
  assume l: "live_slot s x d i"
  have "d \<noteq> c \<or> unat i \<noteq> unat j"
    using l assms(2) by (auto simp: live_slot_def can_bind_def binds_def slot_at_def)
  with l show "live_slot (bind_slot c j ty rt ob s) x d i"
    by (auto simp: live_slot_def bind_slot_def slot_at_def nth_list_update)
qed

lemma cdt_ok_bind:
  assumes "cdt_ok C X s" and "wf_caps s" and "can_bind s c j ty ob"
  shows "cdt_ok C X (bind_slot c j ty rt ob s)"
  using assms(1) by (rule cdt_ok_frame) (simp_all add: bind_slot_def live_bind(2) [OF assms(2,3), unfolded bind_slot_def])

lemma live_unbind:
  assumes "live_slot s ob c i" and "live_slot s x d j" and "(x, d, j) \<noteq> (ob, c, i)"
  shows "live_slot (unbind_slot c i ob s) x d j"
proof -
  have "d \<noteq> c \<or> unat j \<noteq> unat i"
    using assms by (auto simp: live_slot_def binds_def unat_eq_iff)
  with assms(2) show ?thesis
    by (auto simp: live_slot_def unbind_slot_def slot_at_def nth_list_update)
qed

lemma cdt_list_slots_left_dec [simp]: "hdr_pCdtHead (slots_left_dec h) = hdr_pCdtHead h"
  by (simp add: slots_left_dec_def)

lemma unbind_edges [simp]:
  "cdt_list (unbind_slot c i ob s) x = cdt_list s x"
  "st_edges (unbind_slot c i ob s) = st_edges s"
  "g_aCdtUsed (unbind_slot c i ob s) = g_aCdtUsed s"
  "g_u32CdtPoolUsed (unbind_slot c i ob s) = g_u32CdtPoolUsed s"
  by (simp_all add: unbind_slot_def)

lemma cdt_ok_unbind:
  assumes "cdt_ok C X s" and "live_slot s ob c i"
  shows "cdt_ok C (X \<union> {(ob, c, i)}) (unbind_slot c i ob s)"
  using assms(1) by (rule cdt_ok_mono) (use live_unbind [OF assms(2)] in auto)

lemma cdt_ok_unnamed:
  assumes ok: "cdt_ok C (X \<union> {(ob, c, i)}) s" and nn: "\<not> named s ob c i"
  shows "cdt_ok C X s"
proof -
  have "edges_live C X s"
    unfolding edges_live_def
  proof (intro allI ballI)
    fix ob' e assume e: "e \<in> set (cdt_list s ob')"
    then obtain d j where d: "d \<in> C" "st_edges s e = \<lparr>edge_pCnode = Some d, edge_u64Slot = j\<rparr>"
      "(ob', d, j) \<in> X \<union> {(ob, c, i)} \<or> live_slot s ob' d j"
      using ok unfolding cdt_ok_def edges_live_def by blast
    moreover have "(ob', d, j) \<noteq> (ob, c, i)" using nn e d(2) by (auto simp: named_def)
    ultimately show "\<exists>c i. c \<in> C \<and> st_edges s e = \<lparr>edge_pCnode = Some c, edge_u64Slot = i\<rparr>
        \<and> ((ob', c, i) \<in> X \<or> live_slot s ob' c i)" by blast
  qed
  with ok show ?thesis by (simp add: cdt_ok_def)
qed

section \<open>Unlinking every edge of a slot\<close>

lemma unlink_loop_unnamed:
  assumes "cdt_ok C X s"
    and "\<And>e. e \<in> set (cdt_list s ob) \<Longrightarrow>
      st_edges s e = \<lparr>edge_pCnode = Some c, edge_u64Slot = i\<rparr> \<Longrightarrow> e \<in> set ws"
  shows "\<not> named (unlink_slot_loop ob (Some c) i ws s) ob c i"
  using assms
proof (induction ws arbitrary: s)
  case Nil
  then show ?case by (auto simp: named_def)
next
  case (Cons w ws)
  have pl: "pool_lists s" using Cons.prems(1) by (simp add: cdt_ok_def)
  show ?case
  proof (cases "edge_pCnode (st_edges s w) = Some c \<and> edge_u64Slot (st_edges s w) = i")
    case True
    have "\<not> named (unlink_slot_loop ob (Some c) i ws (gj_cdt_edge_unlink (Some ob) (Some w) s)) ob c i"
    proof (rule Cons.IH [OF cdt_ok_edge_unlink [OF Cons.prems(1)]])
      fix e
      assume "e \<in> set (cdt_list (gj_cdt_edge_unlink (Some ob) (Some w) s) ob)"
        and "st_edges (gj_cdt_edge_unlink (Some ob) (Some w) s) e = \<lparr>edge_pCnode = Some c, edge_u64Slot = i\<rparr>"
      then have "e \<in> set (cdt_list s ob) - {w} \<and> st_edges s e = \<lparr>edge_pCnode = Some c, edge_u64Slot = i\<rparr>"
        using edge_unlink_eq [OF Cons.prems(1), of w ob] pool_listsD(1) [OF pl, of ob]
        by (cases "w \<in> set (cdt_list s ob)")
          (auto simp: gj_cdt_edge_unlink_def empty_edge_def split: if_splits)
      then show "e \<in> set ws" using Cons.prems(2) [of e] by auto
    qed
    with True show ?thesis by simp
  next
    case False
    have "\<not> named (unlink_slot_loop ob (Some c) i ws s) ob c i"
    proof (rule Cons.IH [OF Cons.prems(1)])
      fix e assume "e \<in> set (cdt_list s ob)" "st_edges s e = \<lparr>edge_pCnode = Some c, edge_u64Slot = i\<rparr>"
      with Cons.prems(2) [of e] False show "e \<in> set ws" by auto
    qed
    with False show ?thesis by auto
  qed
qed

lemma unlink_slot_unnamed:
  assumes "cdt_ok C X s"
  shows "\<not> named (gj_cdt_unlink_slot (Some ob) (Some c) i s) ob c i"
  unfolding gj_cdt_unlink_slot_def
  using assms by (simp add: unlink_loop_unnamed)

lemma cdt_ok_unlink_slot: "cdt_ok C X s \<Longrightarrow> cdt_ok C X (gj_cdt_unlink_slot p q i s)"
  by (simp add: gj_cdt_unlink_slot_def cdt_ok_unlink_loop split: option.split)

lemma live_same: "same_caps s t \<Longrightarrow> live_slot t ob c i = live_slot s ob c i"
  by (rule live_slot_slots) (simp_all add: same_capsD)

lemma unnamed_try_wire:
  assumes "cdt_ok C X s" and "live_slot s ob c j" and "\<not> named s ob c i" and "j \<noteq> i"
  shows "\<not> named (cdt_edge_try_wire ob (Some c) j s) ob c i"
  using assms(1,2)
proof (cases rule: try_wire_cases)
  case (Wired e)
  have "e \<notin> set (cdt_list s ob)"
    using pool_listsD(4) [of s e] Wired(1,2) assms(1) by (auto simp: cdt_ok_def)
  with Wired(3) assms(3,4) show ?thesis by (auto simp: named_def)
qed (simp add: assms)

section \<open>Every operation keeps the derivation edges sound\<close>

lemma cdt_ok_try_wire_same:
  assumes "cdt_ok C X s" and "live_slot s ob c i" and "c \<in> C" and "\<not> named s ob c i"
  shows "cdt_ok C X (cdt_edge_try_wire ob (Some c) i s)"
    and "same_caps s (cdt_edge_try_wire ob (Some c) i s)"
  using cdt_ok_try_wire [OF assms] same_caps_try_wire by auto

lemma install_Inl_quotas:
  assumes "gj_cap_slot_install p i ty rt q s = (Inl st, t)"
  shows "\<exists>qs. t = s\<lparr>st_quotas := qs\<rparr>"
  using assms
  by (auto simp: gj_cap_slot_install_def Let_def split: option.splits if_splits prod.splits
      intro: exI [of _ "st_quotas s"])

lemma cdt_ok_install:
  assumes ok: "cdt_ok C X s" and wf: "wf_caps s"
  shows "cdt_ok C X (snd (gj_cap_slot_install p i ty rt q s))"
proof -
  obtain r t where eq: "gj_cap_slot_install p i ty rt q s = (r, t)"
    by (cases "gj_cap_slot_install p i ty rt q s")
  from eq show ?thesis
  proof (cases rule: install_cases)
    case (Fail st)
    then show ?thesis using eq install_Inl_quotas [of p i ty rt q s st t] cdt_ok_quotas [OF ok] by auto
  next
    case (Bind c ob qs)
    have "wf_caps (s\<lparr>st_quotas := qs\<rparr>)" using wf by (simp add: wf_caps_def)
    with Bind cdt_ok_quotas [OF ok, of qs] have "cdt_ok C X t"
      by (simp add: cdt_ok_bind can_bind_def)
    then show ?thesis by (simp add: eq)
  qed
qed

lemma cdt_ok_alloc_install:
  "cdt_ok C X s \<Longrightarrow> wf_caps s \<Longrightarrow> cdt_ok C X (snd (gj_cap_alloc_install p ty rt q s))"
  by (auto simp: gj_cap_alloc_install_def cdt_ok_install split: option.splits)

lemma live_named: "cdt_ok C {} s \<Longrightarrow> named s ob c i \<Longrightarrow> live_slot s ob c i"
  unfolding cdt_ok_def edges_live_def named_def by fastforce

lemma bind_edges [simp]:
  "cdt_list (bind_slot c i ty rt ob s) x = cdt_list s x"
  "st_edges (bind_slot c i ty rt ob s) = st_edges s"
  by (simp_all add: bind_slot_def)

lemma alloc_install_live:
  assumes "gj_cap_alloc_install p ty rt (Some ob) s = (Inr ref, t)" and "wf_caps s"
  obtains c where "p = Some c" "live_slot t ob c (ref_u64Slot ref)"
    "\<And>x d i. live_slot s x d i \<Longrightarrow> live_slot t x d i \<and> (x, d, i) \<noteq> (ob, c, ref_u64Slot ref)"
    "\<And>x d i. named t x d i = named s x d i"
  using assms(1)
proof (cases rule: alloc_install_cases)
  case (Bind c ob' j qs)
  have b: "wf_caps (s\<lparr>st_quotas := qs\<rparr>)" "can_bind (s\<lparr>st_quotas := qs\<rparr>) c j ty ob"
    using assms(2) Bind by (auto simp: wf_caps_def can_bind_def)
  have ls: "live_slot (s\<lparr>st_quotas := qs\<rparr>) x d i = live_slot s x d i" for x d i
    by (rule live_slot_slots) simp_all
  have "live_slot s x d i \<Longrightarrow> (x, d, i) \<noteq> (ob, c, j)" for x d i
    using Bind(3) by (auto simp: live_slot_def can_bind_def binds_def)
  with Bind live_bind [OF b] ls show ?thesis
    by (intro that [of c]) (auto simp: gj_cap_ref_make_def named_def)
qed simp

lemma cdt_ok_derive:
  assumes ok: "cdt_ok C {} s" and wf: "wf_caps s" and "c \<in> C"
  shows "cdt_ok C {} (snd (derive (Some c) ty rt ob s))"
proof -
  obtain r t where eq: "gj_cap_alloc_install (Some c) ty rt (Some ob) s = (r, t)"
    by (cases "gj_cap_alloc_install (Some c) ty rt (Some ob) s")
  have t: "cdt_ok C {} t" using cdt_ok_alloc_install [OF ok wf, of "Some c" ty rt "Some ob"] eq by simp
  show ?thesis
  proof (cases r)
    case (Inr ref)
    then have "live_slot t ob c (ref_u64Slot ref)" "\<not> named t ob c (ref_u64Slot ref)"
      using alloc_install_live [OF eq [unfolded Inr] wf] live_named [OF ok]
      by (metis option.inject)+
    with t eq Inr \<open>c \<in> C\<close> show ?thesis by (simp add: derive_def cdt_ok_try_wire)
  qed (use eq t in \<open>simp add: derive_def\<close>)
qed

lemma named_cong:
  "st_edges t = st_edges s \<Longrightarrow> cdt_list t ob = cdt_list s ob \<Longrightarrow> named t ob c i = named s ob c i"
  by (simp add: named_def)

lemma cdt_ok_refund_unbind:
  assumes ok: "cdt_ok C X s" and nn: "\<not> named s ob c i" and live: "live_slot s ob c i"
  shows "cdt_ok C X (gj_cap_slot_invalidate_locked (c, i) (Some ob) (cnode_refund p s))"
proof -
  obtain q where q: "cnode_refund p s = s\<lparr>st_quotas := q\<rparr>"
    by (cases p) (auto simp: cnode_refund_def intro: that [of "st_quotas s"])
  let ?s = "s\<lparr>st_quotas := q\<rparr>"
  have l: "live_slot ?s ob c i" using live by (simp add: live_slot_slots [of ?s c s])
  have "cdt_ok C (X \<union> {(ob, c, i)}) (unbind_slot c i ob ?s)"
    by (rule cdt_ok_unbind [OF cdt_ok_quotas [OF ok] l])
  moreover have "\<not> named (unbind_slot c i ob ?s) ob c i" using nn by (simp add: named_def)
  ultimately have "cdt_ok C X (unbind_slot c i ob ?s)" by (rule cdt_ok_unnamed)
  moreover have "binds ob (slot_at ?s c i)" using l by (simp add: live_slot_def)
  ultimately show ?thesis unfolding q by (simp only: invalidate_locked_bound)
qed

lemma resolve_live:
  "gj_cap_resolve s p i g = Inr res \<Longrightarrow>
     \<exists>c. p = Some c \<and> res_pSlot res = (c, i) \<and> live_slot s (res_pObj res) c i"
  by (auto simp: resolve_Inr live_slot_def binds_def)

lemma cdt_ok_delete:
  assumes ok: "cdt_ok C X s"
  shows "cdt_ok C X (snd (gj_cap_delete p i g s))"
proof (cases "gj_cap_resolve s p i g")
  case (Inr res)
  then obtain c where c: "p = Some c" "res_pSlot res = (c, i)" "live_slot s (res_pObj res) c i"
    using resolve_live by blast
  let ?u = "gj_cdt_unlink_slot (Some (res_pObj res)) (Some c) i s"
  have "cdt_ok C X (gj_cap_slot_invalidate_locked (c, i) (Some (res_pObj res)) (cnode_refund (Some c) ?u))"
    by (rule cdt_ok_refund_unbind [OF cdt_ok_unlink_slot [OF ok] unlink_slot_unnamed [OF ok]])
      (simp add: live_same [OF same_caps_unlink_slot] c(3))
  with Inr c ok show ?thesis by (simp add: gj_cap_delete_def Let_def)
qed (simp add: gj_cap_delete_def ok)

lemma unnamed_unlink_loop:
  "cdt_ok C X s \<Longrightarrow> \<not> named s ob c j \<Longrightarrow> \<not> named (unlink_slot_loop ob' p i ws s) ob c j"
proof (induction ws arbitrary: s)
  case (Cons w ws)
  have "\<not> named (gj_cdt_edge_unlink (Some ob') (Some w) s) ob c j"
  proof (cases "w \<in> set (cdt_list s ob')")
    case True
    then show ?thesis
      using Cons.prems edge_unlink_eq [OF Cons.prems(1) True]
      by (auto simp: named_def empty_edge_def split: if_splits dest: notin_set_remove1)
  qed (use Cons.prems in \<open>simp add: gj_cdt_edge_unlink_def\<close>)
  with Cons show ?case by (simp add: cdt_ok_edge_unlink)
qed simp

lemma unnamed_unlink_slot:
  "cdt_ok C X s \<Longrightarrow> \<not> named s ob c j \<Longrightarrow> \<not> named (gj_cdt_unlink_slot p q i s) ob c j"
  by (simp add: gj_cdt_unlink_slot_def unnamed_unlink_loop split: option.split)

lemma cdt_ok_move:
  assumes ok: "cdt_ok C {} s" and wf: "wf_caps s" and "c \<in> C"
  shows "cdt_ok C {} (snd (gj_cap_move (Some c) i g s))"
proof (cases "gj_cap_resolve s (Some c) i g")
  case (Inr res)
  let ?ob = "res_pObj res"
  have c: "res_pSlot res = (c, i)" "live_slot s ?ob c i" using resolve_live [OF Inr] by auto
  obtain r u where eq: "gj_cap_alloc_install (Some c) (res_u16Type res) (res_u16Rights res) (Some ?ob) s = (r, u)"
    by (cases "gj_cap_alloc_install (Some c) (res_u16Type res) (res_u16Rights res) (Some ?ob) s")
  have u: "cdt_ok C {} u"
    using cdt_ok_alloc_install [OF ok wf, of "Some c" "res_u16Type res" "res_u16Rights res" "Some ?ob"] eq by simp
  show ?thesis
  proof (cases r)
    case (Inl st)
    with Inr eq u ok show ?thesis by (simp add: gj_cap_move_def)
  next
    case ref: (Inr ref)
    let ?j = "ref_u64Slot ref" and ?v = "gj_cdt_unlink_slot (Some ?ob) (Some c) i u"
    let ?w = "cdt_edge_try_wire ?ob (Some c) ?j ?v"
    have live: "live_slot u ?ob c ?j" "live_slot u ?ob c i" "?j \<noteq> i" "\<not> named u ?ob c ?j"
      using alloc_install_live [OF eq [unfolded ref] wf] c(2) live_named [OF ok]
      by (metis option.inject)+
    note v = cdt_ok_unlink_slot [OF u, of "Some ?ob" "Some c" i]
    have lv: "live_slot ?v ?ob c ?j" "live_slot ?v ?ob c i"
      using live by (simp_all add: live_same [OF same_caps_unlink_slot])
    note w = cdt_ok_try_wire_same [OF v lv(1) \<open>c \<in> C\<close> unnamed_unlink_slot [OF u live(4)]]
    have "\<not> named ?w ?ob c i"
      by (rule unnamed_try_wire [OF v lv(1) unlink_slot_unnamed [OF u] live(3)])
    then have "cdt_ok C {} (gj_cap_slot_invalidate_locked (c, i) (Some ?ob) (cnode_refund (Some c) ?w))"
      using cdt_ok_refund_unbind [OF w(1)] lv(2) by (simp add: live_same [OF w(2)])
    with Inr eq ref c ok show ?thesis by (simp add: gj_cap_move_def Let_def)
  qed
qed (simp add: gj_cap_move_def ok)

lemma cdt_ok_clear_round:
  assumes ok: "cdt_ok C X s" and wf: "wf_caps s"
    and i: "i < length (slots_of s c)" "binds ob (slots_of s c ! i)"
  shows "cdt_ok C X (clear_round c ob i s)"
proof -
  let ?q = "snd (gj_cap_quota_slot_refund (st_quotas s) (cn_pQuotaAccount (st_cnodes s c)))"
  let ?s = "s\<lparr>st_quotas := ?q\<rparr>" and ?i = "of_nat i :: u64"
  have un: "unat ?i = i" by (rule unat_of_nat_u64 [OF i(1) wf])
  have ps: "cn_pSlots (st_cnodes s c) \<noteq> None" using i(1) by (auto simp: slots_of_def split: option.splits)
  have "?i < cn_cSlots (st_cnodes s c)"
    using i(1) wf_caps_slots(1) [OF wf ps] by (simp add: word_less_nat_alt un)
  then have live: "live_slot ?s ob c ?i"
    using ps i(2) by (simp add: live_slot_def slot_at_def un)
  let ?u = "unbind_slot c ?i ob ?s"
  note u = cdt_ok_unbind [OF cdt_ok_quotas [OF ok] live]
  have "cdt_ok C X (gj_cdt_unlink_slot (Some ob) (Some c) ?i ?u)"
    by (rule cdt_ok_unnamed [OF cdt_ok_unlink_slot [OF u] unlink_slot_unnamed [OF u]])
  moreover have "binds ob (slot_at ?s c ?i)" using live by (simp add: live_slot_def)
  ultimately show ?thesis unfolding clear_round_def by (simp only: invalidate_locked_bound)
qed

lemma cdt_ok_invalidate:
  assumes inv: "cap_inv C s" and C: "finite C" "c \<in> C" and ok: "cdt_ok C X s"
  shows "cdt_ok C X (snd (gj_cnode_invalidate_obj_slots (Some c) pObj n s))"
proof (cases "cn_u32SoftLock (st_cnodes s c) = 0")
  case True
  let ?P = "\<lambda>t. cap_inv C t \<and> cdt_ok C X t"
  obtain t where tl: "gj_cnode_trylock (Some c) s = (True, t)"
    using True by (simp add: gj_cnode_trylock_def)
  have t: "?P t" using cap_inv_lock(1) [of C "Some c" s] cdt_ok_trylock [OF ok, of "Some c"] inv tl by simp
  have wf: "wf_caps u" if "?P u" for u using that by (simp add: cap_inv_def)
  have round: "?P (clear_round c ob i u) \<and>
      length (slots_of (clear_round c ob i u) c) = length (slots_of u c)"
    if "?P u" "i < length (slots_of u c)" "binds ob (slots_of u c ! i)" for u i ob
    using that cap_inv_clear_round [OF _ C that(2,3)] cdt_ok_clear_round [OF _ wf [OF that(1)] that(2,3)]
    by simp
  have "?P (snd (invalidate_obj_loop c ob n [0..<unat (cn_cSlots (st_cnodes t c))] 0 t))"
    if "cn_pSlots (st_cnodes t c) \<noteq> None" for ob
    by (rule invalidate_loop_induct [where P = ?P, OF round t])
      (use wf_caps_slots(1) [OF wf [OF t] that] in simp_all)
  moreover have "cn_pSlots (st_cnodes t c) = cn_pSlots (st_cnodes s c)"
    using tl by (auto simp: gj_cnode_trylock_def split: if_splits)
  ultimately show ?thesis
    using tl ok by (auto simp: gj_cnode_invalidate_obj_slots_def case_prod_beta intro!: cdt_ok_unlock
        split: option.splits)
next
  case False
  with ok show ?thesis
    by (auto simp: gj_cnode_invalidate_obj_slots_def gj_cnode_trylock_def split: option.splits)
qed

lemma cdt_ok_obj_init:
  assumes ok: "cdt_ok C {} s" and "finite C" and wf: "wf_caps s" and refs: "slot_refs C s ob = 0"
  shows "cdt_ok C {} (gj_obj_hdr_init (Some ob) s)"
proof -
  have "\<not> live_slot s ob c i" if "c \<in> C" for c i
  proof
    assume l: "live_slot s ob c i"
    then have "unat i < length (slots_of s c)" using wf_slot_index(1) [OF wf] by (simp add: live_slot_def)
    then have "filter (binds ob) (slots_of s c) \<noteq> []"
      using l by (auto simp: filter_empty_conv live_slot_def slot_at_def)
    with refs that \<open>finite C\<close> show False by (auto simp: slot_refs_def)
  qed
  then have nil: "cdt_list s ob = []"
    using ok unfolding cdt_ok_def edges_live_def
    by (metis empty_iff list.set_intros(1) neq_Nil_conv)
  show ?thesis
    by (rule cdt_ok_frame [OF ok])
      (use nil in \<open>simp_all add: gj_obj_hdr_init_def live_slot_slots [of "upd_obj _ _ s" _ s]\<close>)
qed

lemma cdt_ok_step:
  assumes "cap_step C s t" and C: "finite C" and inv: "cap_inv C s" and ok: "cdt_ok C {} s"
  shows "cdt_ok C {} t"
proof -
  have wf: "wf_caps s" using inv by (simp add: cap_inv_def)
  from assms(1) show ?thesis
  proof cases
    case derive
    from derive(1) show ?thesis
    proof cases
      case (mint pD pS i g rt)
      then obtain c where c: "c \<in> C" "(if pD = None then pS else pD) = Some c" by (auto split: if_splits)
      show ?thesis
        unfolding mint(1) mint_derive c(2)
        using ok cdt_ok_derive [OF ok wf c(1)] by (simp split: sum.split)
    next
      case (copy c i g rt)
      with ok show ?thesis by (simp add: copy_derive cdt_ok_derive [OF ok wf] split: sum.split)
    qed (simp_all add: ok wf cdt_ok_move cdt_ok_delete cdt_ok_invalidate [OF inv C])
  next
    case (attach c pQ)
    have "live_slot t ob d i = live_slot s ob d i" for ob d i
      by (rule live_slot_slots) (simp_all add: attach(1) gj_cap_quota_attach_def)
    then show ?thesis by (intro cdt_ok_frame [OF ok]) (simp_all add: attach(1) gj_cap_quota_attach_def)
  next
    case (cnode_init c f n)
    let ?s = "gj_obj_hdr_init (Some (cn_hdr (st_cnodes s c))) s"
    have ok': "cdt_ok C {} ?s" by (rule cdt_ok_obj_init [OF ok C wf cnode_init(3)])
    have "live_slot t ob d i" if "live_slot ?s ob d i" for ob d i
    proof -
      have "d \<noteq> c" using that cnode_init(2) by (auto simp: live_slot_def gj_obj_hdr_init_def)
      then have "live_slot t ob d i = live_slot ?s ob d i"
        by (intro live_slot_slots) (simp_all add: cnode_init(1) gj_cnode_init_def Let_def gj_obj_hdr_init_def)
      with that show ?thesis by simp
    qed
    then have "cdt_ok C {} t" if "f \<and> n \<noteq> 0"
      using that unfolding cnode_init(1)
      by (intro cdt_ok_frame [OF ok']) (simp_all add: gj_cnode_init_def Let_def)
    then show ?thesis using ok unfolding cnode_init(1) by (auto simp: gj_cnode_init_def)
  qed (simp_all add: ok wf cdt_ok_install cdt_ok_alloc_install cdt_ok_quotas cdt_ok_obj_init [OF ok C wf])
qed

lemma wit_boot_cdt: "cdt_ok {0} {} wit_boot"
  by (simp add: cdt_ok_def pool_count_def pool_lists_def edges_live_def edges_inj_def wit_boot_def)

lemma cdt_ok_run:
  assumes "(cap_step C)\<^sup>*\<^sup>* s t" and "finite C" and "cap_inv C s" and "cdt_ok C {} s"
  shows "cdt_ok C {} t \<and> cap_inv C t"
  using assms
proof (induction rule: rtranclp_induct)
  case (step t u)
  then show ?case using cdt_ok_step cap_inv_step by blast
qed simp

section \<open>Properties\<close>

text \<open>
  C5: derivation edges are sound.  Over every sequence of operations on the capability tables, an
  edge on an object's child list names a slot that is bound to that object, different edges of it
  name different slots; no edge is on two
  lists or twice on one; and an edge of the pool is marked used exactly when it is on some list,
  so no edge is ever lost or handed out twice.
\<close>

theorem cdt_edges_sound:
  assumes "(cap_step C)\<^sup>*\<^sup>* s t" and "finite C" and "cap_inv C s" and "cdt_ok C {} s"
  shows "(\<forall>ob. distinct (cdt_list t ob) \<and> inj_on (st_edges t) (set (cdt_list t ob)) \<and> (\<forall>e \<in> set (cdt_list t ob). \<exists>c i. c \<in> C
        \<and> st_edges t e = \<lparr>edge_pCnode = Some c, edge_u64Slot = i\<rparr>
        \<and> i < cn_cSlots (st_cnodes t c) \<and> slot_pObj (slot_at t c i) = Some ob))
    \<and> (\<forall>ob ob'. ob \<noteq> ob' \<longrightarrow> set (cdt_list t ob) \<inter> set (cdt_list t ob') = {})
    \<and> (\<forall>e < GJ_CDT_EDGE_POOL. g_aCdtUsed t ! e \<longleftrightarrow> (\<exists>ob. e \<in> set (cdt_list t ob)))"
proof -
  have ok: "cdt_ok C {} t" using cdt_ok_run [OF assms] ..
  then have pl: "pool_lists t" and inj: "edges_inj t" by (simp_all add: cdt_ok_def)
  have "\<exists>c i. c \<in> C \<and> st_edges t e = \<lparr>edge_pCnode = Some c, edge_u64Slot = i\<rparr>
      \<and> i < cn_cSlots (st_cnodes t c) \<and> slot_pObj (slot_at t c i) = Some ob"
    if "e \<in> set (cdt_list t ob)" for ob e
    using ok that unfolding cdt_ok_def edges_live_def live_slot_def binds_def by blast
  then show ?thesis
    using pool_listsD(1,3,4) [OF pl] inj unfolding edges_inj_def by blast
qed

theorem cdt_edges_sound_witness:
  "\<exists>t. t = snd (gj_cap_mint (Some 0) 1 1 3 None wit_caps) \<and> cdt_list t 7 = [0]
    \<and> (\<forall>e \<in> set (cdt_list t 7). \<exists>c i. c \<in> {0} \<and> st_edges t e = \<lparr>edge_pCnode = Some c, edge_u64Slot = i\<rparr>
        \<and> i < cn_cSlots (st_cnodes t c) \<and> slot_pObj (slot_at t c i) = Some 7)"
proof -
  let ?t = "snd (gj_cap_mint (Some 0) 1 1 3 None wit_caps)"
  have "cap_step {0} wit_caps ?t"
    by (rule cap_step.derive, rule cap_derive_step.mint) simp
  then have "(cap_step {0})\<^sup>*\<^sup>* wit_boot ?t" using wit_caps_run by (rule rtranclp.rtrancl_into_rtrancl [rotated])
  from cdt_edges_sound [OF this _ wit_boot_inv wit_boot_cdt]
  have "\<forall>e \<in> set (cdt_list ?t 7). \<exists>c i. c \<in> {0} \<and> st_edges ?t e = \<lparr>edge_pCnode = Some c, edge_u64Slot = i\<rparr>
        \<and> i < cn_cSlots (st_cnodes ?t c) \<and> slot_pObj (slot_at ?t c i) = Some 7" by blast
  moreover have "cdt_list ?t 7 = [0]" by code_simp
  ultimately show ?thesis by blast
qed

text \<open>
  The edge pool is an exact allocator.  In a consistent pool, asking for as many edges as are
  free yields that many pairwise distinct edges, none of them in use before, and the pool is then
  exhausted and refuses; giving the edge just obtained back restores the set of edges in use.
\<close>

lemma cdt_edge_pool_exact:
  assumes "pool_count s"
  shows "(case alloc_many cdt_edge_alloc (card ({..<GJ_CDT_EDGE_POOL} - edge_pool_used s)) s of
      (es, t) \<Rightarrow> length es = card ({..<GJ_CDT_EDGE_POOL} - edge_pool_used s) \<and> distinct es
        \<and> set es \<inter> edge_pool_used s = {} \<and> cdt_edge_alloc t = (None, t))
    \<and> (\<forall>e t. cdt_edge_alloc s = (Some e, t) \<longrightarrow> edge_pool_used (cdt_edge_free (Some e) t) = edge_pool_used s)"
proof -
  obtain es t where es: "alloc_many cdt_edge_alloc (card ({..<GJ_CDT_EDGE_POOL} - edge_pool_used s)) s = (es, t)"
    by (cases "alloc_many cdt_edge_alloc (card ({..<GJ_CDT_EDGE_POOL} - edge_pool_used s)) s")
  note a = edge_pool.alloc_many_spec [OF assms order_refl es]
  note b = edge_pool.alloc_many_exhausts [OF assms es]
  have "set es \<inter> edge_pool_used s = {}" using a by blast
  then show ?thesis
    unfolding es using a b edge_pool.alloc_free [OF assms] by (simp add: edge_pool_free_def)
qed

end
