(* ===== verification/Cap_Revoke.thy ===== *)
theory Cap_Revoke
  imports Cap_Cdt
begin

text \<open>
  Object revocation, \<^verbatim>\<open>kernel/cap/revoke.c\<close>: the one-way step to DEAD with a new generation, the
  queue of objects whose slots still wait for clearing, the bounded walk over an object's
  derivation edges with CNode try-locks, the round-robin driver over the queue, and the test that
  an object's storage may be reclaimed.  The state extends the capability tables by the queue.
\<close>

section \<open>Data\<close>

abbreviation (input) GJ_REVOKE_Q_MAX :: nat where "GJ_REVOKE_Q_MAX \<equiv> 64"
abbreviation (input) GJ_REVOKE_R2_SOFT_RETRY_MAX :: nat where "GJ_REVOKE_R2_SOFT_RETRY_MAX \<equiv> 3"

record gj_revoke_qent =
  qe_pObj :: ptr
  qe_u8Active :: u8

record revoke_state = cap_state +
  g_aRevokeQ :: "gj_revoke_qent list"
  g_u32RevokeQLen :: u32
  g_u32RevokeQCursor :: u32

section \<open>The queue\<close>

text \<open>The scan of \<^verbatim>\<open>revoke_q_push\<close> from entry \<open>iEnt\<close> on: \<open>None\<close> when the object is already
  queued, else the first free entry (\<^verbatim>\<open>GJ_REVOKE_Q_MAX\<close> if there is none).\<close>

fun q_push_scan :: "nat \<Rightarrow> gj_revoke_qent list \<Rightarrow> nat \<Rightarrow> nat \<Rightarrow> nat option" where
  "q_push_scan ob [] iEnt u32Free = Some u32Free"
| "q_push_scan ob (e # es) iEnt u32Free =
     (if qe_u8Active e \<noteq> 0 then
        (if qe_pObj e = Some ob then None else q_push_scan ob es (Suc iEnt) u32Free)
      else if u32Free = GJ_REVOKE_Q_MAX then q_push_scan ob es (Suc iEnt) iEnt
      else q_push_scan ob es (Suc iEnt) u32Free)"

text \<open>\<open>True\<close> is the C result 0 (queued), \<open>False\<close> is -1.\<close>

definition revoke_q_push :: "ptr \<Rightarrow> 'a revoke_state_scheme \<Rightarrow> bool \<times> 'a revoke_state_scheme" where
  "revoke_q_push pObj s =
     (case pObj of
        None \<Rightarrow> (False, s)
      | Some ob \<Rightarrow>
         (case q_push_scan ob (g_aRevokeQ s) 0 GJ_REVOKE_Q_MAX of
            None \<Rightarrow> (True, s)
          | Some u32Free \<Rightarrow>
              if GJ_REVOKE_Q_MAX \<le> u32Free then (False, s)
              else
                (True,
                 s\<lparr>g_aRevokeQ := (g_aRevokeQ s)[u32Free := \<lparr>qe_pObj = Some ob, qe_u8Active = 1\<rparr>],
                   g_u32RevokeQLen :=
                     (if unat (g_u32RevokeQLen s) \<le> u32Free then of_nat u32Free + 1
                      else g_u32RevokeQLen s)\<rparr>)))"

text \<open>The trailing scan of \<^verbatim>\<open>revoke_q_drop\<close>.\<close>

fun q_drop_scan :: "gj_revoke_qent list \<Rightarrow> nat \<Rightarrow> nat" where
  "q_drop_scan q 0 = 0"
| "q_drop_scan q (Suc n) = (if qe_u8Active (q ! n) \<noteq> 0 then Suc n else q_drop_scan q n)"

definition revoke_q_drop :: "nat \<Rightarrow> 'a revoke_state_scheme \<Rightarrow> 'a revoke_state_scheme" where
  "revoke_q_drop iEnt s =
     (if GJ_REVOKE_Q_MAX \<le> iEnt then s
      else
        (let s = s\<lparr>g_aRevokeQ := (g_aRevokeQ s)[iEnt := \<lparr>qe_pObj = None, qe_u8Active = 0\<rparr>]\<rparr>
         in if g_u32RevokeQLen s = 0 then s
            else s\<lparr>g_u32RevokeQLen := of_nat (q_drop_scan (g_aRevokeQ s) (unat (g_u32RevokeQLen s)))\<rparr>))"

definition revoke_q_limit :: "'a revoke_state_scheme \<Rightarrow> nat" where
  "revoke_q_limit s = (if GJ_REVOKE_Q_MAX < unat (g_u32RevokeQLen s) then GJ_REVOKE_Q_MAX
     else unat (g_u32RevokeQLen s))"

definition gj_revoke_deferred_pending :: "'a revoke_state_scheme \<Rightarrow> u32" where
  "gj_revoke_deferred_pending s =
     of_nat (length (filter (\<lambda>e. qe_u8Active e \<noteq> 0) (take (revoke_q_limit s) (g_aRevokeQ s))))"

section \<open>Phase A: the object dies\<close>

text \<open>The compare-and-exchange, the store of DEAD and the generation bump, in program order.
  Theory \<^verbatim>\<open>Cap_Revoke_Race\<close> interleaves them with other revokers.\<close>

definition gj_obj_revoke_begin ::
  "ptr \<Rightarrow> 'a revoke_state_scheme \<Rightarrow> gj_status \<times> 'a revoke_state_scheme" where
  "gj_obj_revoke_begin pObj s =
     (case pObj of
        None \<Rightarrow> (GJ_ERR_INVAL, s)
      | Some ob \<Rightarrow>
          if hdr_u32State (st_objs s ob) \<noteq> GJ_OBJ_LIVE then
            (let u32Cur = hdr_u32State (st_objs s ob)
             in if u32Cur = GJ_OBJ_DEAD \<or> u32Cur = GJ_OBJ_REVOKING then (GJ_ERR_DEAD, s)
                else (GJ_ERR_BUSY, s))
          else
            (let s = upd_obj ob (\<lambda>h. h\<lparr>hdr_u32State := GJ_OBJ_REVOKING\<rparr>) s;
                 s = upd_obj ob (\<lambda>h. h\<lparr>hdr_u32State := GJ_OBJ_DEAD\<rparr>) s;
                 s = upd_obj ob (\<lambda>h. h\<lparr>hdr_u32Gen := hdr_u32Gen h + 1\<rparr>) s
             in case revoke_q_push (Some ob) s of
                  (False, s) \<Rightarrow> (GJ_ERR_AGAIN, s)
                | (True, s) \<Rightarrow> (GJ_OK, s)))"

section \<open>Phase A': the walk over the derivation edges\<close>

text \<open>One visit: the slots cleared (0 or 1), whether the CNode was busy, and the new state.\<close>

definition walk_visit ::
  "nat \<Rightarrow> nat \<Rightarrow> 'a cap_state_scheme \<Rightarrow> u32 \<times> bool \<times> 'a cap_state_scheme" where
  "walk_visit ob e s =
     (let pEdge = st_edges s e;
          unlink = gj_cdt_edge_unlink (Some ob) (Some e);
          u64Slot = edge_u64Slot pEdge
      in case edge_pCnode pEdge of
           None \<Rightarrow> (0, False, unlink s)
         | Some c \<Rightarrow>
             if cn_pSlots (st_cnodes s c) = None \<or> cn_cSlots (st_cnodes s c) \<le> u64Slot
             then (0, False, unlink s)
             else
               (case gj_cnode_trylock (Some c) s of
                  (False, s) \<Rightarrow> (0, True, s)
                | (True, s) \<Rightarrow>
                    if slot_u16Type (slot_at s c u64Slot) \<noteq> GJ_CAP_INVALID
                       \<and> slot_pObj (slot_at s c u64Slot) = Some ob
                    then
                      (let s = s\<lparr>st_quotas :=
                               snd (gj_cap_quota_slot_refund (st_quotas s)
                                     (cn_pQuotaAccount (st_cnodes s c)))\<rparr>;
                           s = gj_cap_slot_invalidate_locked (c, u64Slot) (Some ob) s;
                           s = gj_cnode_unlock (Some c) s
                       in (1, False, unlink s))
                    else (0, False, unlink (gj_cnode_unlock (Some c) s))))"

text \<open>One pass over the edges listed at its start (an edge's successor is read before the edge is
  unlinked); the counters are cleared, busy in this pass, visited.\<close>

fun walk_pass ::
  "nat \<Rightarrow> u32 \<Rightarrow> u32 \<Rightarrow> nat list \<Rightarrow> u32 \<Rightarrow> u32 \<Rightarrow> u32 \<Rightarrow> 'a cap_state_scheme
     \<Rightarrow> u32 \<times> u32 \<times> u32 \<times> 'a cap_state_scheme" where
  "walk_pass ob u32MaxSlots u32VisitCap [] u32Cleared u32Busy u32Visited s =
     (u32Cleared, u32Busy, u32Visited, s)"
| "walk_pass ob u32MaxSlots u32VisitCap (e # es) u32Cleared u32Busy u32Visited s =
     (if \<not> (u32Cleared < u32MaxSlots \<and> u32Visited < u32VisitCap)
      then (u32Cleared, u32Busy, u32Visited, s)
      else
        (case walk_visit ob e s of
           (d, fBusy, s) \<Rightarrow>
             walk_pass ob u32MaxSlots u32VisitCap es (u32Cleared + d)
               (if fBusy then u32Busy + 1 else u32Busy) (u32Visited + 1) s))"

text \<open>The passes: \<open>n\<close> is the number of passes still allowed.\<close>

fun walk_passes ::
  "nat \<Rightarrow> nat \<Rightarrow> u32 \<Rightarrow> u32 \<Rightarrow> u32 \<Rightarrow> u32 \<Rightarrow> 'a cap_state_scheme \<Rightarrow> u32 \<times> 'a cap_state_scheme" where
  "walk_passes 0 ob u32MaxSlots u32VisitCap u32Cleared u32Visited s = (u32Cleared, s)"
| "walk_passes (Suc n) ob u32MaxSlots u32VisitCap u32Cleared u32Visited s =
     (if \<not> (u32Cleared < u32MaxSlots \<and> u32Visited < u32VisitCap) then (u32Cleared, s)
      else if hdr_pCdtHead (st_objs s ob) = [] then (u32Cleared, s)
      else
        (case walk_pass ob u32MaxSlots u32VisitCap (hdr_pCdtHead (st_objs s ob))
                u32Cleared 0 u32Visited s of
           (u32Cleared, u32BusyThisPass, u32Visited, s) \<Rightarrow>
             if u32BusyThisPass = 0 then (u32Cleared, s)
             else walk_passes n ob u32MaxSlots u32VisitCap u32Cleared u32Visited s))"

definition gj_revoke_cdt_walk_batch ::
  "ptr \<Rightarrow> u32 \<Rightarrow> 'a cap_state_scheme \<Rightarrow> u32 \<times> 'a cap_state_scheme" where
  "gj_revoke_cdt_walk_batch pObj u32MaxSlots s =
     (case pObj of
        None \<Rightarrow> (0, s)
      | Some ob \<Rightarrow>
          if u32MaxSlots = 0 then (0, s)
          else walk_passes (Suc GJ_REVOKE_R2_SOFT_RETRY_MAX) ob u32MaxSlots (u32MaxSlots * 4 + 8) 0 0 s)"

section \<open>The deferred driver\<close>

text \<open>The body of the loop of \<^verbatim>\<open>gj_revoke_process_deferred\<close> for entry \<open>iEnt\<close>.\<close>

definition deferred_entry ::
  "nat \<Rightarrow> u32 \<Rightarrow> nat \<Rightarrow> u32 \<Rightarrow> 'a revoke_state_scheme \<Rightarrow> u32 \<times> 'a revoke_state_scheme" where
  "deferred_entry u32Limit u32MaxSlots iEnt u32Cleared s =
     (if qe_u8Active (g_aRevokeQ s ! iEnt) = 0 then (u32Cleared, s)
      else
        (case qe_pObj (g_aRevokeQ s ! iEnt) of
           None \<Rightarrow> (u32Cleared, revoke_q_drop iEnt s)
         | Some ob \<Rightarrow>
             if hdr_u32State (st_objs s ob) \<noteq> GJ_OBJ_DEAD then (u32Cleared, revoke_q_drop iEnt s)
             else if hdr_u32SlotsLeft (st_objs s ob) = 0 \<and> hdr_pCdtHead (st_objs s ob) = []
               then (u32Cleared, s)
             else if hdr_pCdtHead (st_objs s ob) \<noteq> [] then
               (case gj_revoke_cdt_walk_batch (Some ob) (u32MaxSlots - u32Cleared) s of
                  (u32Batch, s) \<Rightarrow>
                    (let u32Cleared = u32Cleared + u32Batch
                     in case (if hdr_pCdtHead (st_objs s ob) \<noteq> [] \<and> u32Cleared < u32MaxSlots
                              then gj_revoke_cdt_walk_batch (Some ob) (u32MaxSlots - u32Cleared) s
                              else (0, s)) of
                          (u32Push, s) \<Rightarrow>
                            (u32Cleared + u32Push,
                             s\<lparr>g_u32RevokeQCursor := of_nat ((iEnt + 1) mod u32Limit)\<rparr>)))
             else
               (if 0 < hdr_u32SlotsLeft (st_objs s ob) \<and> hdr_pCdtHead (st_objs s ob) = []
                then (u32Cleared, s\<lparr>g_u32RevokeQCursor := of_nat ((iEnt + 1) mod u32Limit)\<rparr>)
                else (u32Cleared, s))))"

fun deferred_loop ::
  "nat \<Rightarrow> nat \<Rightarrow> u32 \<Rightarrow> nat list \<Rightarrow> u32 \<Rightarrow> 'a revoke_state_scheme \<Rightarrow> u32 \<times> 'a revoke_state_scheme" where
  "deferred_loop u32Limit u32Start u32MaxSlots [] u32Cleared s = (u32Cleared, s)"
| "deferred_loop u32Limit u32Start u32MaxSlots (k # ks) u32Cleared s =
     (if \<not> u32Cleared < u32MaxSlots then (u32Cleared, s)
      else
        (case deferred_entry u32Limit u32MaxSlots ((u32Start + k) mod u32Limit) u32Cleared s of
           (u32Cleared, s) \<Rightarrow> deferred_loop u32Limit u32Start u32MaxSlots ks u32Cleared s))"

definition gj_revoke_process_deferred ::
  "u32 \<Rightarrow> 'a revoke_state_scheme \<Rightarrow> u32 \<times> 'a revoke_state_scheme" where
  "gj_revoke_process_deferred u32MaxSlots s =
     (if u32MaxSlots = 0 then (0, s)
      else
        (let u32Limit = revoke_q_limit s
         in if u32Limit = 0 then (0, s)
            else deferred_loop u32Limit (unat (g_u32RevokeQCursor s) mod u32Limit) u32MaxSlots
                   [0..<u32Limit] 0 s))"

section \<open>Reclaim\<close>

definition gj_obj_reclaim_ready :: "'a cap_state_scheme \<Rightarrow> ptr \<Rightarrow> bool" where
  "gj_obj_reclaim_ready s pObj =
     (case pObj of
        None \<Rightarrow> False
      | Some ob \<Rightarrow>
          if hdr_u32State (st_objs s ob) \<noteq> GJ_OBJ_DEAD then False
          else if hdr_u32SlotsLeft (st_objs s ob) \<noteq> 0 then False
          else if hdr_pCdtHead (st_objs s ob) \<noteq> [] then False
          else if hdr_u32Ref (st_objs s ob) \<noteq> 0 then False
          else if hdr_u32Pin (st_objs s ob) \<noteq> 0 then False
          else True)"

fun reclaim_loop :: "nat \<Rightarrow> nat list \<Rightarrow> 'a revoke_state_scheme \<Rightarrow> 'a revoke_state_scheme" where
  "reclaim_loop ob [] s = s"
| "reclaim_loop ob (i # is) s =
     reclaim_loop ob is
       (if qe_u8Active (g_aRevokeQ s ! i) \<noteq> 0 \<and> qe_pObj (g_aRevokeQ s ! i) = Some ob
        then revoke_q_drop i s else s)"

definition gj_obj_reclaim :: "ptr \<Rightarrow> 'a revoke_state_scheme \<Rightarrow> gj_status \<times> 'a revoke_state_scheme" where
  "gj_obj_reclaim pObj s =
     (case pObj of
        None \<Rightarrow> (GJ_ERR_INVAL, s)
      | Some ob \<Rightarrow>
          if \<not> gj_obj_reclaim_ready s (Some ob) then (GJ_ERR_BUSY, s)
          else (GJ_OK, reclaim_loop ob [0..<GJ_REVOKE_Q_MAX] s))"

section \<open>Specification vocabulary\<close>

text \<open>The objects in the queue, and the queue invariant: every entry in use names an object and
  lies below the published length, no object is queued twice, and the last published entry is in
  use.\<close>

definition q_active :: "gj_revoke_qent list \<Rightarrow> nat set" where
  "q_active q = {i. i < GJ_REVOKE_Q_MAX \<and> qe_u8Active (q ! i) \<noteq> 0}"

definition queued :: "'a revoke_state_scheme \<Rightarrow> nat set" where
  "queued s = {ob. \<exists>i \<in> q_active (g_aRevokeQ s). qe_pObj (g_aRevokeQ s ! i) = Some ob}"

definition revoke_q_ok :: "'a revoke_state_scheme \<Rightarrow> bool" where
  "revoke_q_ok s \<longleftrightarrow> length (g_aRevokeQ s) = GJ_REVOKE_Q_MAX
     \<and> unat (g_u32RevokeQLen s) \<le> GJ_REVOKE_Q_MAX
     \<and> (\<forall>i \<in> q_active (g_aRevokeQ s). i < unat (g_u32RevokeQLen s) \<and> qe_pObj (g_aRevokeQ s ! i) \<noteq> None)
     \<and> inj_on (\<lambda>i. qe_pObj (g_aRevokeQ s ! i)) (q_active (g_aRevokeQ s))
     \<and> (g_u32RevokeQLen s \<noteq> 0 \<longrightarrow> unat (g_u32RevokeQLen s) - 1 \<in> q_active (g_aRevokeQ s))"

section \<open>The queue operations\<close>

lemma q_push_scan_None:
  "q_push_scan ob q i f = None \<longleftrightarrow> (\<exists>e \<in> set q. qe_u8Active e \<noteq> 0 \<and> qe_pObj e = Some ob)"
  by (induction ob q i f rule: q_push_scan.induct) auto

lemma q_push_scan_keep:
  "q_push_scan ob q i f = Some n \<Longrightarrow> f \<noteq> GJ_REVOKE_Q_MAX \<Longrightarrow> n = f"
  by (induction ob q i f rule: q_push_scan.induct) (auto split: if_splits)

lemma q_push_scan_Some:
  "q_push_scan ob q i GJ_REVOKE_Q_MAX = Some n \<Longrightarrow> i + length q \<le> GJ_REVOKE_Q_MAX \<Longrightarrow>
     (n = GJ_REVOKE_Q_MAX \<and> (\<forall>e \<in> set q. qe_u8Active e \<noteq> 0))
     \<or> (i \<le> n \<and> n < i + length q \<and> qe_u8Active (q ! (n - i)) = 0)"
proof (induction q arbitrary: i)
  case (Cons e q)
  show ?case
  proof (cases "qe_u8Active e = 0")
    case True
    with Cons.prems have "n = i" using q_push_scan_keep [of ob q "Suc i" i n] by simp
    with True show ?thesis by simp
  next
    case False
    with Cons.prems have "q_push_scan ob q (Suc i) GJ_REVOKE_Q_MAX = Some n"
      by (auto split: if_splits)
    from Cons.IH [OF this] Cons.prems(2) False show ?thesis by (auto simp: Suc_diff_le [symmetric] nth_Cons')
  qed
qed simp

lemma q_drop_scan_le: "q_drop_scan q n \<le> n"
  by (induction n) auto

lemma q_drop_scan_active: "q_drop_scan q n \<noteq> 0 \<Longrightarrow> qe_u8Active (q ! (q_drop_scan q n - 1)) \<noteq> 0"
  by (induction n) auto

lemma q_drop_scan_bound: "i < n \<Longrightarrow> qe_u8Active (q ! i) \<noteq> 0 \<Longrightarrow> i < q_drop_scan q n"
  by (induction n) (auto simp: less_Suc_eq)

lemma unat_of_nat_small: "n \<le> 64 \<Longrightarrow> unat (of_nat n :: u32) = n"
  by (simp add: unat_of_nat)

lemma revoke_q_okD:
  assumes "revoke_q_ok s"
  shows "length (g_aRevokeQ s) = GJ_REVOKE_Q_MAX" and "unat (g_u32RevokeQLen s) \<le> GJ_REVOKE_Q_MAX"
    and "i \<in> q_active (g_aRevokeQ s) \<Longrightarrow> i < unat (g_u32RevokeQLen s) \<and> qe_pObj (g_aRevokeQ s ! i) \<noteq> None"
    and "inj_on (\<lambda>i. qe_pObj (g_aRevokeQ s ! i)) (q_active (g_aRevokeQ s))"
    and "g_u32RevokeQLen s \<noteq> 0 \<Longrightarrow> unat (g_u32RevokeQLen s) - 1 \<in> q_active (g_aRevokeQ s)"
  using assms by (simp_all add: revoke_q_ok_def)

lemma q_active_update:
  assumes "length q = GJ_REVOKE_Q_MAX" and "n < GJ_REVOKE_Q_MAX"
  shows "q_active (q[n := e]) = (if qe_u8Active e \<noteq> 0 then insert n (q_active q) else q_active q - {n})"
  using assms by (auto simp: q_active_def nth_list_update)

lemma set_active:
  assumes "length q = GJ_REVOKE_Q_MAX"
  shows "(\<exists>e \<in> set q. qe_u8Active e \<noteq> 0 \<and> P e) \<longleftrightarrow> (\<exists>i \<in> q_active q. P (q ! i))"
    and "(\<exists>e \<in> set q. qe_u8Active e = 0) \<longleftrightarrow> q_active q \<noteq> {..<GJ_REVOKE_Q_MAX}"
  using assms by (force simp: q_active_def in_set_conv_nth)+

lemma push_cases:
  assumes "revoke_q_push (Some ob) s = (b, t)" and ok: "revoke_q_ok s"
  obtains (Dup) "b" "t = s" "ob \<in> queued s"
    | (Full) "\<not> b" "t = s" "ob \<notin> queued s" "q_active (g_aRevokeQ s) = {..<GJ_REVOKE_Q_MAX}"
    | (New) n where "b" "n < GJ_REVOKE_Q_MAX" "n \<notin> q_active (g_aRevokeQ s)" "ob \<notin> queued s"
        "t = s\<lparr>g_aRevokeQ := (g_aRevokeQ s)[n := \<lparr>qe_pObj = Some ob, qe_u8Active = 1\<rparr>],
           g_u32RevokeQLen := (if unat (g_u32RevokeQLen s) \<le> n then of_nat n + 1 else g_u32RevokeQLen s)\<rparr>"
proof (cases "q_push_scan ob (g_aRevokeQ s) 0 GJ_REVOKE_Q_MAX")
  case None
  then have "ob \<in> queued s"
    unfolding q_push_scan_None set_active(1) [OF revoke_q_okD(1) [OF ok]] by (simp add: queued_def)
  with None assms(1) show ?thesis by (intro Dup) (simp_all add: revoke_q_push_def)
next
  case (Some n)
  have nq: "ob \<notin> queued s"
    using Some q_push_scan_None [of ob "g_aRevokeQ s" 0 GJ_REVOKE_Q_MAX]
    unfolding set_active(1) [OF revoke_q_okD(1) [OF ok]] by (simp add: queued_def)
  from q_push_scan_Some [OF Some] revoke_q_okD(1) [OF ok] consider
      (A) "n = GJ_REVOKE_Q_MAX" "\<not> (\<exists>e \<in> set (g_aRevokeQ s). qe_u8Active e = 0)"
    | (B) "n < GJ_REVOKE_Q_MAX" "qe_u8Active (g_aRevokeQ s ! n) = 0" by auto
  then show ?thesis
  proof cases
    case A
    have "q_active (g_aRevokeQ s) = {..<GJ_REVOKE_Q_MAX}"
      using A(2) set_active(2) [OF revoke_q_okD(1) [OF ok]] by metis
    with A(1) Some assms(1) nq show ?thesis by (intro Full) (simp_all add: revoke_q_push_def)
  next
    case B
    with Some assms(1) nq show ?thesis by (intro New [of n]) (simp_all add: revoke_q_push_def q_active_def)
  qed
qed

lemma revoke_q_ok_new:
  assumes ok: "revoke_q_ok s" and n: "n < GJ_REVOKE_Q_MAX" "n \<notin> q_active (g_aRevokeQ s)" "ob \<notin> queued s"
    and q: "g_aRevokeQ t = (g_aRevokeQ s)[n := \<lparr>qe_pObj = Some ob, qe_u8Active = 1\<rparr>]"
    and l: "g_u32RevokeQLen t = (if unat (g_u32RevokeQLen s) \<le> n then of_nat n + 1 else g_u32RevokeQLen s)"
  shows "revoke_q_ok t" and "queued t = insert ob (queued s)"
proof -
  note D = revoke_q_okD [OF ok]
  have n1: "unat (of_nat n + 1 :: u32) = Suc n"
    using unat_of_nat_small [of "Suc n"] n(1) by (simp add: add.commute)
  have act: "q_active (g_aRevokeQ t) = insert n (q_active (g_aRevokeQ s))"
    using D(1) n(1) by (simp add: q q_active_update)
  have at: "g_aRevokeQ t ! i = (if i = n then \<lparr>qe_pObj = Some ob, qe_u8Active = 1\<rparr> else g_aRevokeQ s ! i)" for i
    using D(1) n(1) by (simp add: q nth_list_update)
  have "inj_on (\<lambda>i. qe_pObj (g_aRevokeQ t ! i)) (insert n (q_active (g_aRevokeQ s)))"
    using D(4) n(2,3) unfolding inj_on_insert at queued_def
    by (auto simp: inj_on_def image_iff)
  moreover have "i < unat (g_u32RevokeQLen t) \<and> qe_pObj (g_aRevokeQ t ! i) \<noteq> None"
    if "i \<in> insert n (q_active (g_aRevokeQ s))" for i
    using that D(3) [of i] unfolding at l by (auto simp: n1)
  moreover have "unat (g_u32RevokeQLen t) - 1 \<in> insert n (q_active (g_aRevokeQ s))"
    using D(5) unfolding l by (cases "g_u32RevokeQLen s = 0") (auto simp: n1)
  moreover have "unat (g_u32RevokeQLen t) \<le> GJ_REVOKE_Q_MAX" using D(2) n(1) unfolding l by (simp add: n1)
  ultimately show "revoke_q_ok t" unfolding revoke_q_ok_def act using D(1) by (simp add: q)
  show "queued t = insert ob (queued s)" using n(2) unfolding queued_def act at by auto
qed

lemma revoke_q_ok_push:
  assumes ok: "revoke_q_ok s" and p: "revoke_q_push (Some ob) s = (b, t)"
  shows "revoke_q_ok t \<and> queued t = (if b then insert ob (queued s) else queued s)
    \<and> (b \<longleftrightarrow> ob \<in> queued s \<or> q_active (g_aRevokeQ s) \<noteq> {..<GJ_REVOKE_Q_MAX})"
  using p ok
proof (cases rule: push_cases)
  case (New n)
  have t: "g_aRevokeQ t = (g_aRevokeQ s)[n := \<lparr>qe_pObj = Some ob, qe_u8Active = 1\<rparr>]"
    "g_u32RevokeQLen t = (if unat (g_u32RevokeQLen s) \<le> n then of_nat n + 1 else g_u32RevokeQLen s)"
    by (simp_all add: New(5))
  have "q_active (g_aRevokeQ s) \<noteq> {..<GJ_REVOKE_Q_MAX}" using New(2,3) by auto
  with revoke_q_ok_new [OF ok New(2-4) t] New(1) show ?thesis by simp
qed (use ok in \<open>auto simp: insert_absorb\<close>)

lemma revoke_q_ok_drop:
  assumes ok: "revoke_q_ok s" and i: "i < GJ_REVOKE_Q_MAX"
  shows "revoke_q_ok (revoke_q_drop i s)"
    and "queued (revoke_q_drop i s) =
      {ob. \<exists>j \<in> q_active (g_aRevokeQ s) - {i}. qe_pObj (g_aRevokeQ s ! j) = Some ob}"
proof -
  note D = revoke_q_okD [OF ok]
  let ?q = "(g_aRevokeQ s)[i := \<lparr>qe_pObj = None, qe_u8Active = 0\<rparr>]"
  let ?n = "q_drop_scan ?q (unat (g_u32RevokeQLen s))"
  have n: "unat (of_nat ?n :: u32) = ?n" "?n \<le> GJ_REVOKE_Q_MAX"
    using q_drop_scan_le [of ?q "unat (g_u32RevokeQLen s)"] D(2) by (simp_all add: unat_of_nat_small)
  have q: "g_aRevokeQ (revoke_q_drop i s) = ?q"
    using i by (simp add: revoke_q_drop_def Let_def)
  have L: "unat (g_u32RevokeQLen (revoke_q_drop i s)) = ?n"
    using i n by (auto simp: revoke_q_drop_def Let_def)
  then have L0: "g_u32RevokeQLen (revoke_q_drop i s) \<noteq> 0 \<longleftrightarrow> ?n \<noteq> 0" by (metis unat_eq_0)
  have act: "q_active ?q = q_active (g_aRevokeQ s) - {i}" using D(1) i by (simp add: q_active_update)
  have at: "?q ! j = g_aRevokeQ s ! j" if "j \<in> q_active (g_aRevokeQ s) - {i}" for j using that by auto
  have inj: "inj_on (\<lambda>j. qe_pObj (?q ! j)) (q_active (g_aRevokeQ s) - {i})"
    using inj_on_subset [OF D(4), of "q_active (g_aRevokeQ s) - {i}"] at
    by (simp add: inj_on_def Diff_subset)
  have low: "j < ?n \<and> qe_pObj (?q ! j) \<noteq> None" if "j \<in> q_active ?q" for j
    using that D(3) [of j] q_drop_scan_bound [of j "unat (g_u32RevokeQLen s)" ?q]
    unfolding act by (auto simp: q_active_def)
  have last: "?n \<noteq> 0 \<Longrightarrow> ?n - 1 \<in> q_active ?q"
    using q_drop_scan_active [of ?q "unat (g_u32RevokeQLen s)"] n(2) by (simp add: q_active_def)
  show "revoke_q_ok (revoke_q_drop i s)"
    unfolding revoke_q_ok_def q L L0
    using low last n(2) D(1) inj by (simp add: act)
  show "queued (revoke_q_drop i s) =
      {ob. \<exists>j \<in> q_active (g_aRevokeQ s) - {i}. qe_pObj (g_aRevokeQ s ! j) = Some ob}"
    unfolding queued_def q act using at by auto
qed

lemma drop_queued:
  assumes ok: "revoke_q_ok s" and i: "i \<in> q_active (g_aRevokeQ s)" "qe_pObj (g_aRevokeQ s ! i) = Some ob"
  shows "queued (revoke_q_drop i s) = queued s - {ob}"
proof -
  have "i < GJ_REVOKE_Q_MAX" using i(1) by (simp add: q_active_def)
  note q = revoke_q_ok_drop(2) [OF ok this]
  have u: "j = i" if "j \<in> q_active (g_aRevokeQ s)" "qe_pObj (g_aRevokeQ s ! j) = Some ob" for j
    using inj_onD [OF revoke_q_okD(4) [OF ok], of j i] that i by simp
  have v: "j \<noteq> i" if "qe_pObj (g_aRevokeQ s ! j) = Some x" "x \<noteq> ob" for j x
    using that i(2) by auto
  show ?thesis unfolding q unfolding queued_def using u v by blast
qed

section \<open>One visit of the walk\<close>

text \<open>Sound tables: the invariants of the tables and of the derivation edges together.\<close>

definition caps_ok :: "nat set \<Rightarrow> 'a cap_state_scheme \<Rightarrow> bool" where
  "caps_ok C s \<longleftrightarrow> cap_inv C s \<and> cdt_ok C {} s"

text \<open>The tables after the walk cleared slot \<open>i\<close> of CNode \<open>c\<close>, which edge \<open>e\<close> of \<open>ob\<close> names.\<close>

definition cleared_slot :: "nat \<Rightarrow> nat \<Rightarrow> nat \<Rightarrow> u64 \<Rightarrow> 'a cap_state_scheme \<Rightarrow> 'a cap_state_scheme" where
  "cleared_slot ob e c i s = unwired ob e (unbind_slot c i ob
     (s\<lparr>st_quotas := snd (gj_cap_quota_slot_refund (st_quotas s) (cn_pQuotaAccount (st_cnodes s c)))\<rparr>))"

lemma unlock_lock_slot:
  assumes "cn_u32SoftLock (st_cnodes s c) = 0"
  shows "gj_cnode_unlock (Some c) (unbind_slot c i ob
      (s\<lparr>st_cnodes := (st_cnodes s)(c := (st_cnodes s c)\<lparr>cn_u32SoftLock := 1\<rparr>), st_quotas := q\<rparr>))
    = unbind_slot c i ob (s\<lparr>st_quotas := q\<rparr>)"
proof -
  have "(st_cnodes s c)\<lparr>cn_pSlots := p, cn_u32SoftLock := 0\<rparr> = (st_cnodes s c)\<lparr>cn_pSlots := p\<rparr>" for p
    using assms by (cases "st_cnodes s c") simp
  then show ?thesis
    by (simp add: gj_cnode_unlock_def unbind_slot_def upd_slot_def upd_obj_def)
qed

lemma caps_ok_edge:
  assumes "caps_ok C s" and "e \<in> set (cdt_list s ob)"
  obtains c i where "c \<in> C" "st_edges s e = \<lparr>edge_pCnode = Some c, edge_u64Slot = i\<rparr>" "live_slot s ob c i"
  using assms unfolding caps_ok_def cdt_ok_def edges_live_def by blast

lemma cleared_slot_same: "same_caps (unbind_slot c i ob s) (cleared_slot ob e c i s)"
proof -
  let ?s = "s\<lparr>st_quotas := snd (gj_cap_quota_slot_refund (st_quotas s) (cn_pQuotaAccount (st_cnodes s c)))\<rparr>"
  have "same_caps (unbind_slot c i ob s) (unbind_slot c i ob ?s)" by (rule same_caps_unbind) simp
  also have "same_caps (unbind_slot c i ob ?s) (cleared_slot ob e c i s)"
    by (simp add: cleared_slot_def unwired_def same_caps_def)
  finally show ?thesis .
qed

lemma caps_ok_cleared:
  assumes ok: "caps_ok C s" and C: "finite C" "c \<in> C" and e: "e \<in> set (cdt_list s ob)"
    and ed: "st_edges s e = \<lparr>edge_pCnode = Some c, edge_u64Slot = i\<rparr>" and live: "live_slot s ob c i"
  shows "caps_ok C (cleared_slot ob e c i s)"
proof -
  let ?q = "snd (gj_cap_quota_slot_refund (st_quotas s) (cn_pQuotaAccount (st_cnodes s c)))"
  let ?s = "s\<lparr>st_quotas := ?q\<rparr>"
  let ?u = "unbind_slot c i ob ?s" and ?t = "cleared_slot ob e c i s"
  have inv: "cap_inv C s" and cdt: "cdt_ok C {} s" using ok by (simp_all add: caps_ok_def)
  have "st_quotas ?t = ?q" by (simp add: cleared_slot_def unwired_def unbind_slot_def)
  then have "quota_ok (st_quotas ?t)" using inv by (simp add: cap_inv_def quota_ok_refund)
  then have "cap_inv C ?t"
    using cap_inv_unbind [OF inv C _ _ _ cleared_slot_same] live by (simp add: live_slot_def)
  moreover have "live_slot ?s ob c i" using live by (simp add: live_slot_slots [of ?s c s])
  then have u: "cdt_ok C ({} \<union> {(ob, c, i)}) ?u" by (rule cdt_ok_unbind [OF cdt_ok_quotas [OF cdt]])
  have eu: "e \<in> set (cdt_list ?u ob)" using e by simp
  have t: "cdt_ok C ({} \<union> {(ob, c, i)}) ?t"
    unfolding cleared_slot_def by (rule cdt_ok_unwired [OF u eu])
  have dist: "distinct (cdt_list s ob)" and inj: "inj_on (st_edges s) (set (cdt_list s ob))"
    using cdt pool_listsD(1) [of s ob] by (auto simp: cdt_ok_def edges_inj_def)
  have "\<not> named ?t ob c i"
  proof
    assume "named ?t ob c i"
    then obtain w where "w \<in> set (cdt_list s ob)" "w \<noteq> e" "st_edges s w = \<lparr>edge_pCnode = Some c, edge_u64Slot = i\<rparr>"
      using dist by (auto simp: named_def cleared_slot_def empty_edge_def split: if_splits)
    with inj e ed show False by (metis inj_onD)
  qed
  with t have "cdt_ok C {} ?t" by (rule cdt_ok_unnamed)
  ultimately show ?thesis by (simp add: caps_ok_def)
qed

lemma walk_visit_cases:
  assumes ok: "caps_ok C s" and e: "e \<in> set (cdt_list s ob)"
  obtains (Busy) c i where "c \<in> C" "st_edges s e = \<lparr>edge_pCnode = Some c, edge_u64Slot = i\<rparr>"
      "cn_u32SoftLock (st_cnodes s c) \<noteq> 0" "walk_visit ob e s = (0, True, s)"
    | (Clear) c i where "c \<in> C" "st_edges s e = \<lparr>edge_pCnode = Some c, edge_u64Slot = i\<rparr>"
      "live_slot s ob c i" "cn_u32SoftLock (st_cnodes s c) = 0"
      "walk_visit ob e s = (1, False, cleared_slot ob e c i s)"
proof -
  obtain c i where ci: "c \<in> C" "st_edges s e = \<lparr>edge_pCnode = Some c, edge_u64Slot = i\<rparr>" "live_slot s ob c i"
    using caps_ok_edge [OF ok e] .
  then have l: "cn_pSlots (st_cnodes s c) \<noteq> None" "\<not> cn_cSlots (st_cnodes s c) \<le> i"
    "slot_u16Type (slot_at s c i) \<noteq> GJ_CAP_INVALID" "slot_pObj (slot_at s c i) = Some ob"
    by (auto simp: live_slot_def binds_def)
  show ?thesis
  proof (cases "cn_u32SoftLock (st_cnodes s c) = 0")
    case False
    with ci l show ?thesis
      by (intro Busy [of c i]) (auto simp: walk_visit_def gj_cnode_trylock_def Let_def)
  next
    case True
    let ?q = "snd (gj_cap_quota_slot_refund (st_quotas s) (cn_pQuotaAccount (st_cnodes s c)))"
    let ?k = "s\<lparr>st_cnodes := (st_cnodes s)(c := (st_cnodes s c)\<lparr>cn_u32SoftLock := 1\<rparr>)\<rparr>"
    let ?u = "unbind_slot c i ob (s\<lparr>st_quotas := ?q\<rparr>)"
    have sl: "slot_at ?k c i = slot_at s c i" "slot_at (?k\<lparr>st_quotas := ?q\<rparr>) c i = slot_at s c i"
      by (simp_all add: slot_at_def slots_of_def)
    have bnd: "binds ob (slot_at (?k\<lparr>st_quotas := ?q\<rparr>) c i)" using l sl by (simp add: binds_def)
    have lq: "live_slot (s\<lparr>st_quotas := ?q\<rparr>) ob c i" using ci(3) by (subst live_slot_slots [of _ _ s]) simp_all
    have "cdt_ok C {} s" using ok by (simp add: caps_ok_def)
    from cdt_ok_unbind [OF cdt_ok_quotas [OF this] lq] have u: "cdt_ok C ({} \<union> {(ob, c, i)}) ?u" .
    have un: "gj_cdt_edge_unlink (Some ob) (Some e) ?u = unwired ob e ?u"
      by (rule edge_unlink_eq [OF u]) (use e in simp)
    have "walk_visit ob e s = (1, False, gj_cdt_edge_unlink (Some ob) (Some e) (gj_cnode_unlock (Some c)
        (gj_cap_slot_invalidate_locked (c, i) (Some ob) (?k\<lparr>st_quotas := ?q\<rparr>))))"
      using True ci l sl by (auto simp: walk_visit_def gj_cnode_trylock_def Let_def)
    also have "\<dots> = (1, False, cleared_slot ob e c i s)"
      unfolding invalidate_locked_bound [OF bnd] cleared_slot_def un [symmetric]
      using unlock_lock_slot [OF True] by simp
    finally show ?thesis using True ci by (intro Clear [of c i])
  qed
qed

section \<open>What the walk removes\<close>

text \<open>The bindings of \<open>s\<close> that are gone in \<open>t\<close>; \<open>t\<close> results from \<open>s\<close> by dropping \<open>n\<close> bindings,
  all of them to objects of \<open>D\<close>.\<close>

definition lost :: "'a cap_state_scheme \<Rightarrow> 'a cap_state_scheme \<Rightarrow> (nat \<times> nat) set" where
  "lost s t = {x. cap_map s x \<noteq> None \<and> cap_map t x = None}"

definition reaped :: "nat set \<Rightarrow> nat \<Rightarrow> 'a cap_state_scheme \<Rightarrow> 'a cap_state_scheme \<Rightarrow> bool" where
  "reaped D n s t \<longleftrightarrow> cap_map t \<subseteq>\<^sub>m cap_map s \<and> finite (lost s t) \<and> card (lost s t) = n
     \<and> (\<forall>x \<in> lost s t. \<exists>b. cap_map s x = Some b \<and> b_obj b \<in> D)"

lemma reaped_same:
  assumes "cap_map t = cap_map s"
  shows "reaped D 0 s t"
proof -
  have "lost s t = {}" using assms by (auto simp: lost_def)
  with assms show ?thesis by (simp add: reaped_def)
qed

lemma reaped_trans:
  assumes "reaped D m s t" and "reaped D n t u"
  shows "reaped D (m + n) s u"
proof -
  have le: "cap_map t \<subseteq>\<^sub>m cap_map s" "cap_map u \<subseteq>\<^sub>m cap_map t" using assms by (simp_all add: reaped_def)
  then have "lost s u = lost s t \<union> lost t u" "lost s t \<inter> lost t u = {}"
    by (fastforce simp: lost_def map_le_def dom_def)+
  moreover have "\<exists>b. cap_map s x = Some b \<and> b_obj b \<in> D" if "x \<in> lost t u" for x
  proof -
    obtain b where "cap_map t x = Some b" "b_obj b \<in> D" using assms(2) \<open>x \<in> lost t u\<close> by (auto simp: reaped_def)
    with le(1) show ?thesis by (metis domI map_le_def)
  qed
  ultimately show ?thesis
    using assms map_le_trans [OF le(2,1)] by (auto simp: reaped_def card_Un_disjoint)
qed

lemma reapedD:
  assumes "reaped D n s t" and "cap_map s x = Some b" and "cap_map t x = None"
  shows "b_obj b \<in> D"
proof -
  have "x \<in> lost s t" using assms(2,3) by (simp add: lost_def)
  with assms(1) obtain b' where "cap_map s x = Some b'" "b_obj b' \<in> D" unfolding reaped_def by blast
  with assms(2) show ?thesis by simp
qed

lemma reaped_mono: "reaped D n s t \<Longrightarrow> D \<subseteq> E \<Longrightarrow> reaped E n s t"
  unfolding reaped_def by blast

lemma live_cap_map:
  assumes "wf_caps s" and "live_slot s ob c i"
  shows "\<exists>b. cap_map s (c, unat i) = Some b \<and> b_obj b = ob"
  using assms wf_slot_index(1) [OF assms(1), of c i]
  by (auto simp: live_slot_def binds_def cap_map_def slot_binding_def slot_at_def)

lemma reaped_cleared:
  assumes "wf_caps s" and "live_slot s ob c i"
  shows "reaped {ob} 1 s (cleared_slot ob e c i s)"
proof -
  have m: "cap_map (cleared_slot ob e c i s) = (cap_map s)((c, unat i) := None)"
    by (simp add: cap_map_same [OF cleared_slot_same] cap_map_unbind)
  obtain b where b: "cap_map s (c, unat i) = Some b" "b_obj b = ob" using live_cap_map [OF assms] by blast
  have "lost s (cleared_slot ob e c i s) = {(c, unat i)}" using b by (auto simp: lost_def m)
  with b show ?thesis by (simp add: reaped_def m map_le_def)
qed

text \<open>\<open>n\<close> slots of \<open>ob\<close> cleared through unlocked CNodes.\<close>

inductive clears :: "nat set \<Rightarrow> nat \<Rightarrow> nat \<Rightarrow> 'a cap_state_scheme \<Rightarrow> 'a cap_state_scheme \<Rightarrow> bool"
  for C :: "nat set" and ob :: nat where
  none: "clears C ob 0 s s"
| more: "clears C ob n s t \<Longrightarrow> e \<in> set (cdt_list t ob) \<Longrightarrow> c \<in> C \<Longrightarrow>
     st_edges t e = \<lparr>edge_pCnode = Some c, edge_u64Slot = i\<rparr> \<Longrightarrow> live_slot t ob c i \<Longrightarrow>
     cn_u32SoftLock (st_cnodes t c) = 0 \<Longrightarrow> clears C ob (Suc n) s (cleared_slot ob e c i t)"

lemma clears_trans:
  assumes "clears C ob n t u" and "clears C ob m s t"
  shows "clears C ob (m + n) s u"
  using assms by (induction rule: clears.induct) (auto intro: clears.more)

lemma cleared_slot_frame [simp]:
  "cdt_list (cleared_slot ob e c i s) x = (if x = ob then remove1 e (cdt_list s ob) else cdt_list s x)"
  "cn_u32SoftLock (st_cnodes (cleared_slot ob e c i s) d) = cn_u32SoftLock (st_cnodes s d)"
  "cn_cSlots (st_cnodes (cleared_slot ob e c i s) d) = cn_cSlots (st_cnodes s d)"
  "hdr_u32State (st_objs (cleared_slot ob e c i s) x) = hdr_u32State (st_objs s x)"
  "hdr_u32Gen (st_objs (cleared_slot ob e c i s) x) = hdr_u32Gen (st_objs s x)"
  by (auto simp: cleared_slot_def unbind_slot_def unwired_def upd_slot_def slots_left_dec_def)

lemma clears_ok:
  assumes "clears C ob n s t" and "finite C" and "caps_ok C s"
  shows "caps_ok C t \<and> reaped {ob} n s t
    \<and> length (cdt_list t ob) + n = length (cdt_list s ob)
    \<and> unat (hdr_u32SlotsLeft (st_objs t ob)) + n = unat (hdr_u32SlotsLeft (st_objs s ob))
    \<and> (\<forall>d. cn_u32SoftLock (st_cnodes t d) = cn_u32SoftLock (st_cnodes s d))
    \<and> (\<forall>x. x \<noteq> ob \<longrightarrow> cdt_list t x = cdt_list s x)"
  using assms
proof (induction rule: clears.induct)
  case none
  then show ?case by (simp add: reaped_same)
next
  case (more n s t e c i)
  have ok: "caps_ok C t" and r: "reaped {ob} n s t" using more by simp_all
  then have wf: "wf_caps t" and inv: "cap_inv C t" by (simp_all add: caps_ok_def cap_inv_def)
  let ?u = "cleared_slot ob e c i t"
  have u: "caps_ok C ?u" by (rule caps_ok_cleared [OF ok \<open>finite C\<close> more(3,2,4,5)])
  have "reaped {ob} (n + 1) s ?u" by (rule reaped_trans [OF r reaped_cleared [OF wf more(5)]])
  moreover have "length (remove1 e (cdt_list t ob)) + 1 = length (cdt_list t ob)"
    using more(2) by (simp add: length_remove1) (metis Suc_pred length_pos_if_in_set)
  moreover have "0 < hdr_u32SlotsLeft (st_objs t ob)"
  proof -
    have "unat i < length (slots_of t c)" "binds ob (slots_of t c ! unat i)"
      using more(5) wf_slot_index(1) [OF wf] by (auto simp: live_slot_def slot_at_def)
    then have "length (filter (binds ob) (slots_of t c)) \<noteq> 0" by (auto simp: filter_empty_conv)
    then have "0 < slot_refs C t ob"
      unfolding slot_refs_def using \<open>finite C\<close> more(3) by (intro sum_pos2 [of C c]) simp_all
    then show ?thesis using inv by (simp add: cap_inv_def acct_ok_def word_less_nat_alt)
  qed
  then have "unat (hdr_u32SlotsLeft (st_objs ?u ob)) + 1 = unat (hdr_u32SlotsLeft (st_objs t ob))"
    by (simp add: same_capsD [OF cleared_slot_same] unbind_slot_def slots_left_dec_def unat_dec word_less_nat_alt)
  ultimately show ?case using more.IH [OF more.prems] u by auto
qed

section \<open>Passes and batches\<close>

lemma caps_ok_distinct: "caps_ok C s \<Longrightarrow> distinct (cdt_list s ob)"
  by (simp add: caps_ok_def cdt_ok_def pool_listsD(1))

lemma walk_pass_clears:
  assumes "caps_ok C s" and "finite C" and "set ws \<subseteq> set (cdt_list s ob)" and "distinct ws"
    and "walk_pass ob m v ws cl b vis s = (cl', b', vis', t)"
  shows "\<exists>k. clears C ob k s t \<and> unat cl' = unat cl + k \<and> (cl \<le> m \<longrightarrow> cl' \<le> m)"
  using assms
proof (induction ws arbitrary: cl b vis s)
  case Nil
  then show ?case by (auto intro: clears.none)
next
  case (Cons e ws)
  show ?case
  proof (cases "cl < m \<and> vis < v")
    case False
    with Cons.prems(5) show ?thesis by (auto intro: clears.none exI [of _ 0])
  next
    case True
    have e: "e \<in> set (cdt_list s ob)" using Cons.prems(3) by simp
    from Cons.prems(1) e show ?thesis
    proof (cases rule: walk_visit_cases)
      case (Busy c i)
      with True Cons.prems show ?thesis by (intro Cons.IH [where s = s]) auto
    next
      case (Clear c i)
      let ?u = "cleared_slot ob e c i s"
      have u: "caps_ok C ?u" by (rule caps_ok_cleared [OF Cons.prems(1,2) Clear(1) e Clear(2,3)])
      have one: "clears C ob 1 s ?u"
        using clears.more [OF clears.none e Clear(1-4)] by simp
      have "cl + 1 \<noteq> 0" using True less_inc_nonzero by blast
      then have inc: "unat (cl + 1) = unat cl + 1" "cl + 1 \<le> m"
        using True by (auto simp: unat_inc word_le_nat_alt word_less_nat_alt)
      have sub: "set ws \<subseteq> set (cdt_list ?u ob)"
        using Cons.prems(3,4) caps_ok_distinct [OF Cons.prems(1), of ob] by auto
      obtain k where "clears C ob k ?u t" "unat cl' = unat (cl + 1) + k" "cl' \<le> m"
        using Cons.IH [OF u Cons.prems(2) sub, of "cl + 1" b "vis + 1"] Cons.prems(4,5) True Clear inc by auto
      with clears_trans [OF _ one] inc show ?thesis by (intro exI [of _ "1 + k"]) simp
    qed
  qed
qed

text \<open>With every CNode unlocked a pass clears as many slots as edges and budgets allow.\<close>

lemma walk_pass_unlocked:
  assumes "caps_ok C s" and "finite C" and "set ws \<subseteq> set (cdt_list s ob)" and "distinct ws"
    and "\<forall>c \<in> C. cn_u32SoftLock (st_cnodes s c) = 0" and "cl \<le> m" and "unat m - unat cl \<le> unat v - unat vis"
    and "walk_pass ob m v ws cl b vis s = (cl', b', vis', t)"
  shows "b' = b \<and> unat cl' = unat cl + min (length ws) (unat m - unat cl)"
  using assms
proof (induction ws arbitrary: cl vis s)
  case (Cons e ws)
  have e: "e \<in> set (cdt_list s ob)" using Cons.prems(3) by simp
  show ?case
  proof (cases "cl < m")
    case False
    with Cons.prems show ?thesis by (simp add: word_less_nat_alt word_le_nat_alt)
  next
    case True
    then have vis: "vis < v" using Cons.prems(7) by (simp add: word_less_nat_alt)
    have nz: "cl + 1 \<noteq> 0" "vis + 1 \<noteq> 0" using True vis less_inc_nonzero by blast+
    then have inc: "unat (cl + 1) = Suc (unat cl)" "unat (vis + 1) = Suc (unat vis)" "cl + 1 \<le> m"
      using True by (auto simp: unat_inc word_le_nat_alt word_less_nat_alt)
    from Cons.prems(1) e show ?thesis
    proof (cases rule: walk_visit_cases)
      case (Busy c i)
      with Cons.prems(5) show ?thesis by simp
    next
      case (Clear c i)
      let ?u = "cleared_slot ob e c i s"
      have u: "caps_ok C ?u" by (rule caps_ok_cleared [OF Cons.prems(1,2) Clear(1) e Clear(2,3)])
      have sub: "set ws \<subseteq> set (cdt_list ?u ob)"
        using Cons.prems(3,4) caps_ok_distinct [OF Cons.prems(1), of ob] by auto
      have "b' = b \<and> unat cl' = unat (cl + 1) + min (length ws) (unat m - unat (cl + 1))"
        by (rule Cons.IH [OF u Cons.prems(2) sub, where vis = "vis + 1"])
          (use Cons.prems True vis Clear inc in \<open>auto simp: word_less_nat_alt\<close>)
      with inc True show ?thesis by (auto simp: word_less_nat_alt)
    qed
  qed
qed simp

lemma walk_passes_clears:
  assumes "caps_ok C s" and "finite C" and "cl \<le> m"
    and "walk_passes n ob m v cl vis s = (cl', t)"
  shows "\<exists>k. clears C ob k s t \<and> unat cl' = unat cl + k \<and> cl' \<le> m"
  using assms
proof (induction n arbitrary: cl vis s)
  case 0
  then show ?case by (auto intro: clears.none)
next
  case (Suc n)
  obtain c1 b1 v1 u where p: "walk_pass ob m v (cdt_list s ob) cl 0 vis s = (c1, b1, v1, u)"
    by (cases "walk_pass ob m v (cdt_list s ob) cl 0 vis s")
  obtain k where k: "clears C ob k s u" "unat c1 = unat cl + k" "c1 \<le> m"
    using walk_pass_clears [OF Suc.prems(1,2) order_refl caps_ok_distinct [OF Suc.prems(1)] p] Suc.prems(3) by auto
  have u: "caps_ok C u" using clears_ok [OF k(1) Suc.prems(2,1)] by simp
  show ?case
  proof (cases "cl < m \<and> vis < v \<and> cdt_list s ob \<noteq> [] \<and> b1 \<noteq> 0")
    case True
    with Suc.prems(4) p have "walk_passes n ob m v c1 v1 u = (cl', t)" by simp
    from Suc.IH [OF u Suc.prems(2) k(3) this] obtain j where
      "clears C ob j u t" "unat cl' = unat c1 + j" "cl' \<le> m" by blast
    with clears_trans [OF _ k(1)] k(2) show ?thesis by (intro exI [of _ "k + j"]) simp
  next
    case False
    with Suc.prems(3,4) p k show ?thesis
      by (auto intro: clears.none split: if_splits)
  qed
qed

lemma walk_batch_clears:
  assumes "caps_ok C s" and "finite C" and "gj_revoke_cdt_walk_batch (Some ob) m s = (n, t)"
  shows "clears C ob (unat n) s t \<and> n \<le> m"
proof (cases "m = 0")
  case True
  with assms(3) show ?thesis by (auto simp: gj_revoke_cdt_walk_batch_def intro: clears.none)
next
  case False
  with assms(3) have "walk_passes (Suc GJ_REVOKE_R2_SOFT_RETRY_MAX) ob m (m * 4 + 8) 0 0 s = (n, t)"
    by (simp add: gj_revoke_cdt_walk_batch_def)
  from walk_passes_clears [OF assms(1,2) _ this] show ?thesis by auto
qed

lemma visit_cap_room:
  assumes "m \<le> 0x3ffffffd"
  shows "unat m \<le> unat (m * 4 + 8 :: u32)"
proof -
  have m: "unat m \<le> 0x3ffffffd" using assms by (simp add: word_le_nat_alt)
  then have "unat (m * 4 + 8) = unat m * 4 + 8" by (simp add: unat_word_ariths)
  then show ?thesis by simp
qed

lemma walk_passes_Nil: "cdt_list s ob = [] \<Longrightarrow> walk_passes n ob m v cl vis s = (cl, s)"
  by (cases n) simp_all

lemma walk_batch_unlocked:
  assumes ok: "caps_ok C s" and C: "finite C" and locks: "\<forall>c \<in> C. cn_u32SoftLock (st_cnodes s c) = 0"
    and m: "m \<le> 0x3ffffffd" and b: "gj_revoke_cdt_walk_batch (Some ob) m s = (n, t)"
  shows "unat n = min (length (cdt_list s ob)) (unat m)"
proof (cases "m = 0 \<or> cdt_list s ob = []")
  case True
  with b show ?thesis by (auto simp: gj_revoke_cdt_walk_batch_def walk_passes_Nil split: if_splits)
next
  case False
  have pos: "0 < m" using False by (simp add: word_greater_zero_iff)
  then have "0 < unat m" by (simp add: word_less_nat_alt)
  then have cap: "0 < m * 4 + 8" using visit_cap_room [OF m] by (simp add: word_less_nat_alt)
  obtain c1 b1 v1 u where p: "walk_pass ob m (m * 4 + 8) (cdt_list s ob) 0 0 0 s = (c1, b1, v1, u)"
    by (cases "walk_pass ob m (m * 4 + 8) (cdt_list s ob) 0 0 0 s")
  have "b1 = 0 \<and> unat c1 = min (length (cdt_list s ob)) (unat m)"
    using walk_pass_unlocked [OF ok C order_refl caps_ok_distinct [OF ok] locks _ _ p] visit_cap_room [OF m]
    by simp
  moreover have "walk_passes (Suc GJ_REVOKE_R2_SOFT_RETRY_MAX) ob m (m * 4 + 8) 0 0 s = (n, t)"
    using b False by (simp add: gj_revoke_cdt_walk_batch_def)
  then have "n = c1"
    unfolding walk_passes.simps(2) p using pos cap False calculation by simp
  ultimately show ?thesis by simp
qed

section \<open>The driver\<close>

lemma caps_frame:
  assumes "st_objs t = st_objs s" and "st_cnodes t = st_cnodes s" and "st_quotas t = st_quotas s"
    and "st_edges t = st_edges s" and "g_aCdtUsed t = g_aCdtUsed s" and "g_u32CdtPoolUsed t = g_u32CdtPoolUsed s"
  shows "caps_ok C t = caps_ok C s" and "cap_map t = cap_map s"
proof -
  have sl: "slots_of t = slots_of s" using assms by (simp add: slots_of_def fun_eq_iff)
  show "cap_map t = cap_map s" unfolding cap_map_def sl ..
  have "live_slot t ob c i = live_slot s ob c i" for ob c i by (rule live_slot_slots) (simp_all add: assms)
  then show "caps_ok C t = caps_ok C s"
    unfolding caps_ok_def cap_inv_def cdt_ok_def wf_caps_def acct_ok_def slot_refs_def pool_count_def
      pool_lists_def edges_live_def edges_inj_def sl assms by simp
qed

lemma q_drop_frame [simp]:
  "st_objs (revoke_q_drop i s) = st_objs s" "st_cnodes (revoke_q_drop i s) = st_cnodes s"
  "st_quotas (revoke_q_drop i s) = st_quotas s" "st_edges (revoke_q_drop i s) = st_edges s"
  "g_aCdtUsed (revoke_q_drop i s) = g_aCdtUsed s" "g_u32CdtPoolUsed (revoke_q_drop i s) = g_u32CdtPoolUsed s"
  by (simp_all add: revoke_q_drop_def Let_def)

text \<open>The walk works on the tables and leaves the queue alone.\<close>

lemma queue_frame:
  "g_aRevokeQ (upd_slot c i f s) = g_aRevokeQ s" "g_aRevokeQ (upd_obj ob h s) = g_aRevokeQ s"
  "g_u32RevokeQLen (upd_slot c i f s) = g_u32RevokeQLen s" "g_u32RevokeQLen (upd_obj ob h s) = g_u32RevokeQLen s"
  by (simp_all add: upd_slot_def upd_obj_def)

lemma cleared_slot_queue:
  "g_aRevokeQ (cleared_slot ob e c i s) = g_aRevokeQ s"
  "g_u32RevokeQLen (cleared_slot ob e c i s) = g_u32RevokeQLen s"
  by (simp_all add: cleared_slot_def unwired_def unbind_slot_def queue_frame)

lemma clears_queue:
  "clears C ob n s t \<Longrightarrow> g_aRevokeQ t = g_aRevokeQ s \<and> g_u32RevokeQLen t = g_u32RevokeQLen s
     \<and> (\<forall>x. hdr_u32State (st_objs t x) = hdr_u32State (st_objs s x))"
  by (induction rule: clears.induct) (simp_all add: cleared_slot_queue)

text \<open>What one entry, and with it the whole loop, achieves.\<close>

definition deferred_post ::
  "nat set \<Rightarrow> u32 \<Rightarrow> u32 \<Rightarrow> 'a revoke_state_scheme \<Rightarrow> u32 \<times> 'a revoke_state_scheme \<Rightarrow> bool" where
  "deferred_post C m cl s r \<longleftrightarrow> (case r of (cl', t) \<Rightarrow>
     caps_ok C t \<and> revoke_q_ok t \<and> cl' \<le> m \<and> cl \<le> cl' \<and> queued t \<subseteq> queued s
     \<and> (\<forall>x. hdr_u32State (st_objs t x) = hdr_u32State (st_objs s x))
     \<and> reaped {ob \<in> queued s. hdr_u32State (st_objs s ob) = GJ_OBJ_DEAD} (unat cl' - unat cl) s t)"

lemma queue_same:
  "g_aRevokeQ t = g_aRevokeQ s \<Longrightarrow> g_u32RevokeQLen t = g_u32RevokeQLen s \<Longrightarrow>
     revoke_q_ok t = revoke_q_ok s \<and> queued t = queued s"
  by (simp add: revoke_q_ok_def queued_def)

lemma deferred_post_refl:
  "caps_ok C s \<Longrightarrow> revoke_q_ok s \<Longrightarrow> cl \<le> m \<Longrightarrow> deferred_post C m cl s (cl, s)"
  by (simp add: deferred_post_def reaped_same)

lemma deferred_post_trans:
  assumes a: "deferred_post C m cl s (cl1, t)" and b: "deferred_post C m cl1 t (cl2, u)"
  shows "deferred_post C m cl s (cl2, u)"
proof -
  let ?D = "\<lambda>s. {ob \<in> queued s. hdr_u32State (st_objs s ob) = GJ_OBJ_DEAD}"
  have "?D t \<subseteq> ?D s" using a by (auto simp: deferred_post_def)
  then have "reaped (?D s) ((unat cl1 - unat cl) + (unat cl2 - unat cl1)) s u"
    using a b unfolding deferred_post_def by (intro reaped_trans [where t = t]) (auto intro: reaped_mono)
  moreover have "cl \<le> cl1" "cl1 \<le> cl2" using a b by (simp_all add: deferred_post_def)
  then have "(unat cl1 - unat cl) + (unat cl2 - unat cl1) = unat cl2 - unat cl" "cl \<le> cl2"
    by (auto simp: word_le_nat_alt)
  ultimately show ?thesis using a b unfolding deferred_post_def by auto
qed

lemma deferred_post_drop:
  assumes "caps_ok C s" and "revoke_q_ok s" and "cl \<le> m" and "i < GJ_REVOKE_Q_MAX"
  shows "deferred_post C m cl s (cl, revoke_q_drop i s)"
proof -
  have "queued (revoke_q_drop i s) \<subseteq> queued s"
    unfolding revoke_q_ok_drop(2) [OF assms(2,4)] by (auto simp: queued_def)
  then show ?thesis
    using assms revoke_q_ok_drop(1) [OF assms(2,4)] caps_frame [of "revoke_q_drop i s" s]
    by (simp add: deferred_post_def reaped_same)
qed

lemma deferred_post_walk:
  assumes ok: "caps_ok C s" "revoke_q_ok s" and C: "finite C" and cl: "cl \<le> m"
    and ob: "ob \<in> queued s" "hdr_u32State (st_objs s ob) = GJ_OBJ_DEAD"
    and b: "gj_revoke_cdt_walk_batch (Some ob) (m - cl) s = (n, t)"
  shows "deferred_post C m cl s (cl + n, t)"
proof -
  note k = walk_batch_clears [OF ok(1) C b]
  have r: "reaped {ob} (unat n) s t" and okt: "caps_ok C t" using clears_ok [of C ob "unat n" s t] k C ok by auto
  have q: "g_aRevokeQ t = g_aRevokeQ s" "g_u32RevokeQLen t = g_u32RevokeQLen s"
    "\<forall>x. hdr_u32State (st_objs t x) = hdr_u32State (st_objs s x)"
    using clears_queue [OF conjunct1 [OF k]] by simp_all
  have sub: "unat (m - cl) = unat m - unat cl" using cl by (simp add: unat_sub)
  have "unat n \<le> unat m - unat cl" using k sub by (simp add: word_le_nat_alt)
  then have le: "unat cl + unat n \<le> unat m" using cl by (simp add: word_le_nat_alt)
  then have add: "unat (cl + n) = unat cl + unat n"
    using unsigned_less [of m, where ?'a = nat] by (intro unat_add_lem [THEN iffD1]) simp
  then have "cl + n \<le> m" "cl \<le> cl + n" using le by (simp_all add: word_le_nat_alt)
  moreover have "reaped {ob \<in> queued s. hdr_u32State (st_objs s ob) = GJ_OBJ_DEAD} (unat n) s t"
    by (rule reaped_mono [OF r]) (use ob in auto)
  ultimately show ?thesis
    using ok okt q queue_same [OF q(1,2)] by (simp add: deferred_post_def add)
qed

lemma deferred_post_cursor:
  assumes "deferred_post C m cl s (cl', t)"
  shows "deferred_post C m cl s (cl', t\<lparr>g_u32RevokeQCursor := k\<rparr>)"
  using assms caps_frame [of "t\<lparr>g_u32RevokeQCursor := k\<rparr>" t] queue_same [of "t\<lparr>g_u32RevokeQCursor := k\<rparr>" t]
  unfolding deferred_post_def by (simp add: reaped_def lost_def)

lemma deferred_post_entry:
  assumes ok: "caps_ok C s" "revoke_q_ok s" and C: "finite C" and cl: "cl < m" and i: "i < GJ_REVOKE_Q_MAX"
  shows "deferred_post C m cl s (deferred_entry lim m i cl s)"
proof -
  have le: "cl \<le> m" using cl by simp
  note refl = deferred_post_refl [OF ok le] and drop = deferred_post_drop [OF ok le i]
  show ?thesis
  proof (cases "qe_u8Active (g_aRevokeQ s ! i) \<noteq> 0 \<and> (\<exists>ob. qe_pObj (g_aRevokeQ s ! i) = Some ob
      \<and> hdr_u32State (st_objs s ob) = GJ_OBJ_DEAD \<and> cdt_list s ob \<noteq> [])")
    case False
    then show ?thesis
      using refl drop deferred_post_cursor [OF refl] by (auto simp: deferred_entry_def split: option.splits)
  next
    case True
    then obtain ob where ob: "qe_u8Active (g_aRevokeQ s ! i) \<noteq> 0" "qe_pObj (g_aRevokeQ s ! i) = Some ob"
      "hdr_u32State (st_objs s ob) = GJ_OBJ_DEAD" "cdt_list s ob \<noteq> []" by blast
    then have q: "ob \<in> queued s" using i by (auto simp: queued_def q_active_def)
    obtain n t where b: "gj_revoke_cdt_walk_batch (Some ob) (m - cl) s = (n, t)"
      by (cases "gj_revoke_cdt_walk_batch (Some ob) (m - cl) s")
    have p1: "deferred_post C m cl s (cl + n, t)" by (rule deferred_post_walk [OF ok C le q ob(3) b])
    obtain n' u where b': "(if cdt_list t ob \<noteq> [] \<and> cl + n < m
        then gj_revoke_cdt_walk_batch (Some ob) (m - (cl + n)) t else (0, t)) = (n', u)"
      by (cases "if cdt_list t ob \<noteq> [] \<and> cl + n < m
        then gj_revoke_cdt_walk_batch (Some ob) (m - (cl + n)) t else (0, t)")
    have t: "caps_ok C t" "revoke_q_ok t" "cl + n \<le> m" "hdr_u32State (st_objs t ob) = GJ_OBJ_DEAD"
      using p1 ob(3) by (simp_all add: deferred_post_def)
    have "ob \<in> queued t"
      using clears_queue [OF conjunct1 [OF walk_batch_clears [OF ok(1) C b]]] q queue_same [of t s] by simp
    then have "deferred_post C m (cl + n) t (cl + n + n', u)"
      using b' deferred_post_walk [OF t(1,2) C t(3) _ t(4)] deferred_post_refl [OF t(1,2,3)]
      by (auto split: if_splits)
    from deferred_post_cursor [OF deferred_post_trans [OF p1 this]]
    show ?thesis using ob b b' by (simp add: deferred_entry_def Let_def)
  qed
qed

lemma deferred_post_loop:
  assumes "caps_ok C s" and "revoke_q_ok s" and "finite C" and "cl \<le> m" and "0 < lim" and "lim \<le> GJ_REVOKE_Q_MAX"
  shows "deferred_post C m cl s (deferred_loop lim st m ks cl s)"
  using assms
proof (induction ks arbitrary: cl s)
  case Nil
  then show ?case by (simp add: deferred_post_refl)
next
  case (Cons k ks)
  show ?case
  proof (cases "cl < m")
    case False
    with Cons.prems show ?thesis by (simp add: deferred_post_refl)
  next
    case True
    let ?i = "(st + k) mod lim"
    obtain cl' t where e: "deferred_entry lim m ?i cl s = (cl', t)" by (cases "deferred_entry lim m ?i cl s")
    have "?i < lim" using Cons.prems(5) by simp
    then have "?i < GJ_REVOKE_Q_MAX" using Cons.prems(6) by linarith
    then have p: "deferred_post C m cl s (cl', t)"
      using deferred_post_entry [OF Cons.prems(1-3) True, of ?i lim] e by simp
    then have "deferred_post C m cl' t (deferred_loop lim st m ks cl' t)"
      using Cons.prems by (intro Cons.IH) (auto simp: deferred_post_def)
    with deferred_post_trans [OF p] True e show ?thesis
      by (cases "deferred_loop lim st m ks cl' t") simp
  qed
qed

lemma deferred_post_process:
  assumes "caps_ok C s" and "revoke_q_ok s" and "finite C"
  shows "deferred_post C m 0 s (gj_revoke_process_deferred m s)"
  using assms
  by (auto simp: gj_revoke_process_deferred_def Let_def revoke_q_limit_def deferred_post_refl
      intro!: deferred_post_loop)

section \<open>State and generation of an object\<close>

text \<open>Only revocation and initialisation change them.\<close>

definition obj_id :: "'a cap_state_scheme \<Rightarrow> nat \<Rightarrow> u32 \<times> u32" where
  "obj_id s ob = (hdr_u32State (st_objs s ob), hdr_u32Gen (st_objs s ob))"

lemma obj_id_same: "same_caps s t \<Longrightarrow> obj_id t = obj_id s"
  by (simp add: obj_id_def same_capsD fun_eq_iff)

lemma obj_id_basic [simp]:
  "obj_id (bind_slot c i ty rt x s) = obj_id s"
  "obj_id (gj_cdt_edge_unlink p e s) = obj_id s"
  "obj_id (gj_cdt_unlink_slot p q i s) = obj_id s"
  "obj_id (cdt_edge_try_wire x q i s) = obj_id s"
  "obj_id (cnode_refund p s) = obj_id s"
  "obj_id (s\<lparr>st_quotas := qs\<rparr>) = obj_id s"
  "obj_id (s\<lparr>st_cnodes := cs\<rparr>) = obj_id s"
  "obj_id (gj_cap_slot_invalidate_locked sl p s) = obj_id s"
  by (auto simp: obj_id_same same_caps_edge_unlink same_caps_unlink_slot same_caps_try_wire same_caps_refund)
    (auto simp: obj_id_def fun_eq_iff bind_slot_def gj_cap_slot_invalidate_locked_def slots_left_dec_def
      split: prod.split option.split)

lemma obj_id_lock [simp]:
  "obj_id (snd (gj_cnode_trylock p s)) = obj_id s" "obj_id (gj_cnode_unlock p s) = obj_id s"
  by (simp_all add: gj_cnode_trylock_def gj_cnode_unlock_def split: option.split)

lemma obj_id_install [simp]: "obj_id (snd (gj_cap_slot_install p i ty rt q s)) = obj_id s"
proof -
  obtain r t where eq: "gj_cap_slot_install p i ty rt q s = (r, t)" by (cases "gj_cap_slot_install p i ty rt q s")
  from eq have "obj_id t = obj_id s" by (cases rule: install_cases) (simp_all add: obj_id_same)
  then show ?thesis by (simp add: eq)
qed

lemma obj_id_alloc_install [simp]: "obj_id (snd (gj_cap_alloc_install p ty rt q s)) = obj_id s"
  by (simp add: gj_cap_alloc_install_def split: option.split)

lemma obj_id_alloc_install_eq: "gj_cap_alloc_install p ty rt q s = (r, t) \<Longrightarrow> obj_id t = obj_id s"
  by (metis obj_id_alloc_install snd_conv)

lemma obj_id_derive [simp]: "obj_id (snd (derive p ty rt x s)) = obj_id s"
  by (auto simp: derive_def dest: obj_id_alloc_install_eq split: prod.split sum.split)

lemma obj_id_move [simp]: "obj_id (snd (gj_cap_move p i g s)) = obj_id s"
proof (cases "gj_cap_resolve s p i g")
  case (Inr res)
  then show ?thesis
    by (auto simp: gj_cap_move_def Let_def dest: obj_id_alloc_install_eq split: prod.split sum.split)
qed (simp add: gj_cap_move_def)

lemma obj_id_delete [simp]: "obj_id (snd (gj_cap_delete p i g s)) = obj_id s"
  by (simp add: gj_cap_delete_def Let_def split: sum.split)

lemma obj_id_invalidate_loop [simp]: "obj_id (snd (invalidate_obj_loop c x n is k s)) = obj_id s"
  by (induction "is" arbitrary: k s) (simp_all add: Let_def)

lemma obj_id_invalidate [simp]: "obj_id (snd (gj_cnode_invalidate_obj_slots p q n s)) = obj_id s"
proof -
  have lk: "obj_id t = obj_id s" if "gj_cnode_trylock c s = (b, t)" for c b t
    using obj_id_lock(1) [of c s] that by simp
  have lp: "obj_id t = obj_id u" if "invalidate_obj_loop c x n is k u = (r, t)" for c x n "is" k u r t
    using obj_id_invalidate_loop [of c x n "is" k u] that by simp
  show ?thesis
    by (auto simp: gj_cnode_invalidate_obj_slots_def dest!: lk lp split: option.split prod.split bool.split)
qed

lemma obj_id_walk_visit: "walk_visit x e s = (n, b, t) \<Longrightarrow> obj_id t = obj_id s"
proof -
  have lk: "obj_id u = obj_id s" if "gj_cnode_trylock c s = (d, u)" for c d u
    using obj_id_lock(1) [of c s] that by simp
  assume "walk_visit x e s = (n, b, t)"
  then show ?thesis
    by (auto simp: walk_visit_def Let_def dest!: lk split: option.splits if_splits prod.splits bool.splits)
qed

lemma obj_id_walk_pass:
  "walk_pass x m v ws cl b vis s = (cl', b', vis', t) \<Longrightarrow> obj_id t = obj_id s"
proof (induction ws arbitrary: cl b vis s)
  case (Cons e ws)
  obtain n d u where e: "walk_visit x e s = (n, d, u)" by (cases "walk_visit x e s")
  with Cons.prems Cons.IH [of "cl + n" "if d then b + 1 else b" "vis + 1" u] obj_id_walk_visit [OF e]
  show ?case by (auto split: if_splits)
qed simp

lemma obj_id_walk_passes: "walk_passes n x m v cl vis s = (cl', t) \<Longrightarrow> obj_id t = obj_id s"
proof (induction n arbitrary: cl vis s)
  case (Suc n)
  obtain c1 b1 v1 u where p: "walk_pass x m v (cdt_list s x) cl 0 vis s = (c1, b1, v1, u)"
    by (cases "walk_pass x m v (cdt_list s x) cl 0 vis s")
  with Suc.prems Suc.IH [of c1 v1 u] obj_id_walk_pass [OF p] show ?case by (auto split: if_splits)
qed simp

lemma obj_id_walk_batch: "gj_revoke_cdt_walk_batch p m s = (n, t) \<Longrightarrow> obj_id t = obj_id s"
  by (auto simp: gj_revoke_cdt_walk_batch_def dest: obj_id_walk_passes split: option.splits if_splits)

lemma obj_id_drop [simp]: "obj_id (revoke_q_drop i s) = obj_id s"
  by (simp add: obj_id_def fun_eq_iff)

lemma obj_id_cursor [simp]: "obj_id (s\<lparr>g_u32RevokeQCursor := k\<rparr>) = obj_id s"
  by (simp add: obj_id_def fun_eq_iff)

lemma obj_id_entry: "deferred_entry lim m i cl s = (cl', t) \<Longrightarrow> obj_id t = obj_id s"
  by (auto simp: deferred_entry_def Let_def dest!: obj_id_walk_batch
      split: option.splits if_splits prod.splits)

lemma obj_id_deferred_loop: "deferred_loop lim st m ks cl s = (cl', t) \<Longrightarrow> obj_id t = obj_id s"
proof (induction ks arbitrary: cl s)
  case (Cons k ks)
  obtain c1 u where e: "deferred_entry lim m ((st + k) mod lim) cl s = (c1, u)"
    by (cases "deferred_entry lim m ((st + k) mod lim) cl s")
  with Cons.prems Cons.IH [of c1 u] obj_id_entry [OF e] show ?case by (auto split: if_splits)
qed simp

lemma obj_id_deferred: "gj_revoke_process_deferred m s = (n, t) \<Longrightarrow> obj_id t = obj_id s"
  by (auto simp: gj_revoke_process_deferred_def Let_def dest: obj_id_deferred_loop split: if_splits)

lemma obj_id_reclaim_loop [simp]: "obj_id (reclaim_loop x is s) = obj_id s"
  by (induction x "is" s rule: reclaim_loop.induct) auto

lemma push_frame:
  assumes "revoke_q_push p s = (b, t)"
  shows "st_objs t = st_objs s" "st_cnodes t = st_cnodes s" "st_quotas t = st_quotas s"
    "st_edges t = st_edges s" "g_aCdtUsed t = g_aCdtUsed s" "g_u32CdtPoolUsed t = g_u32CdtPoolUsed s"
  using assms by (auto simp: revoke_q_push_def split: option.splits if_splits)

lemma begin_cases:
  assumes "gj_obj_revoke_begin p s = (st, t)"
  obtains (Fail) "st \<in> {GJ_ERR_INVAL, GJ_ERR_DEAD, GJ_ERR_BUSY}" "t = s"
      "\<And>ob. p = Some ob \<Longrightarrow> hdr_u32State (st_objs s ob) \<noteq> GJ_OBJ_LIVE"
    | (Begin) ob b where "p = Some ob" "hdr_u32State (st_objs s ob) = GJ_OBJ_LIVE"
        "revoke_q_push (Some ob)
          (upd_obj ob (\<lambda>h. h\<lparr>hdr_u32State := GJ_OBJ_DEAD, hdr_u32Gen := hdr_u32Gen h + 1\<rparr>) s) = (b, t)"
        "st = (if b then GJ_OK else GJ_ERR_AGAIN)"
proof (cases "\<exists>ob. p = Some ob \<and> hdr_u32State (st_objs s ob) = GJ_OBJ_LIVE")
  case True
  then obtain ob where ob: "p = Some ob" "hdr_u32State (st_objs s ob) = GJ_OBJ_LIVE" by blast
  have "upd_obj ob (\<lambda>h. h\<lparr>hdr_u32Gen := hdr_u32Gen h + 1\<rparr>)
      (upd_obj ob (\<lambda>h. h\<lparr>hdr_u32State := GJ_OBJ_DEAD\<rparr>)
        (upd_obj ob (\<lambda>h. h\<lparr>hdr_u32State := GJ_OBJ_REVOKING\<rparr>) s)) =
      upd_obj ob (\<lambda>h. h\<lparr>hdr_u32State := GJ_OBJ_DEAD, hdr_u32Gen := hdr_u32Gen h + 1\<rparr>) s"
    by (simp add: upd_obj_def)
  with ob assms show ?thesis
    using Begin by (auto simp: gj_obj_revoke_begin_def Let_def split: prod.splits bool.splits)
next
  case False
  with assms show ?thesis
    by (intro Fail) (auto simp: gj_obj_revoke_begin_def Let_def split: option.splits if_splits)
qed

end
