(* ===== verification/Cap_Revoke_Props.thy ===== *)
theory Cap_Revoke_Props
  imports Cap_Revoke
begin

text \<open>
  What revocation promises: it is final and takes effect at once (fail closed), the queue and the
  walks keep every invariant within their budgets, the walk finishes when nobody holds a CNode,
  and an object passes the reclaim test only when nothing refers to it any more.
\<close>

section \<open>Runs that leave an object's header alone\<close>

text \<open>Every operation of the capability layer, initialisation of the header of \<open>ob\<close> excepted.\<close>

inductive kernel_step ::
  "nat set \<Rightarrow> nat \<Rightarrow> 'a revoke_state_scheme \<Rightarrow> 'a revoke_state_scheme \<Rightarrow> bool"
  for C :: "nat set" and ob :: nat where
  derive: "cap_derive_step C s t \<Longrightarrow> kernel_step C ob s t"
| install: "kernel_step C ob s (snd (gj_cap_slot_install p i ty rt q s))"
| alloc_install: "kernel_step C ob s (snd (gj_cap_alloc_install p ty rt q s))"
| obj_init: "x \<noteq> ob \<Longrightarrow> kernel_step C ob s (gj_obj_hdr_init (Some x) s)"
| lock: "kernel_step C ob s (snd (gj_cnode_trylock p s))"
| unlock: "kernel_step C ob s (gj_cnode_unlock p s)"
| revoke: "kernel_step C ob s (snd (gj_obj_revoke_begin p s))"
| walk: "kernel_step C ob s (snd (gj_revoke_cdt_walk_batch p m s))"
| deferred: "kernel_step C ob s (snd (gj_revoke_process_deferred m s))"
| reclaim: "kernel_step C ob s (snd (gj_obj_reclaim p s))"

text \<open>A revoke state for the examples: object 7 is bound in slot 1 and minted into slot 2.\<close>

definition wit_revoke :: revoke_state where
  "wit_revoke = cap_state.extend (snd (gj_cap_mint (Some 0) 1 1 3 None wit_caps))
     (revoke_state.fields (replicate GJ_REVOKE_Q_MAX \<lparr>qe_pObj = None, qe_u8Active = 0\<rparr>) 0 0)"

section \<open>Lemmas\<close>

lemma obj_id_begin_dead:
  assumes "hdr_u32State (st_objs s ob) = GJ_OBJ_DEAD" and "gj_obj_revoke_begin p s = (st, t)"
  shows "obj_id t ob = obj_id s ob"
  using assms(2)
proof (cases rule: begin_cases)
  case (Begin x b)
  then have "x \<noteq> ob" using assms(1) by auto
  with push_frame(1) [OF Begin(3)] show ?thesis by (simp add: obj_id_def)
qed simp

lemma kernel_step_dead:
  assumes "kernel_step C ob s t" and dead: "hdr_u32State (st_objs s ob) = GJ_OBJ_DEAD"
  shows "obj_id t ob = obj_id s ob"
  using assms(1)
proof cases
  case derive
  from derive(1) show ?thesis
    by cases (simp_all add: mint_derive copy_derive split: sum.split)
next
  case (obj_init x)
  then show ?thesis by (simp add: gj_obj_hdr_init_def obj_id_def)
next
  case (revoke p)
  then show ?thesis using obj_id_begin_dead [OF dead, of p] by (metis prod.collapse)
next
  case (walk p m)
  then show ?thesis using obj_id_walk_batch [of p m s] by (metis prod.collapse)
next
  case (deferred m)
  then show ?thesis using obj_id_deferred [of m s] by (metis prod.collapse)
next
  case (reclaim p)
  then show ?thesis by (simp add: gj_obj_reclaim_def split: option.split)
qed simp_all

lemma kernel_run_dead:
  assumes "(kernel_step C ob)\<^sup>*\<^sup>* s t" and "hdr_u32State (st_objs s ob) = GJ_OBJ_DEAD"
  shows "obj_id t ob = obj_id s ob"
  using assms
proof (induction rule: rtranclp_induct)
  case (step t u)
  then show ?case using kernel_step_dead [of C ob t u] by (simp add: obj_id_def)
qed simp

lemma dead_unresolved:
  assumes "hdr_u32State (st_objs s ob) \<noteq> GJ_OBJ_LIVE"
  shows "gj_cap_resolve s p i g = Inr res \<Longrightarrow> res_pObj res \<noteq> ob"
    and "\<exists>st. gj_cap_slot_install p i ty rt (Some ob) s = (Inl st, s)"
  using assms by (auto simp: resolve_Inr) (auto simp: gj_cap_slot_install_def split: option.split)

lemma reclaim_loop_spec:
  assumes "revoke_q_ok s" and "set is \<subseteq> {..<GJ_REVOKE_Q_MAX}"
  shows "revoke_q_ok (reclaim_loop ob is s) \<and> queued (reclaim_loop ob is s) =
      (if \<exists>i \<in> set is. i \<in> q_active (g_aRevokeQ s) \<and> qe_pObj (g_aRevokeQ s ! i) = Some ob
       then queued s - {ob} else queued s)
    \<and> st_objs (reclaim_loop ob is s) = st_objs s \<and> st_cnodes (reclaim_loop ob is s) = st_cnodes s"
  using assms
proof (induction "is" arbitrary: s)
  case (Cons i "is")
  have i: "i < GJ_REVOKE_Q_MAX" using Cons.prems(2) by simp
  show ?case
  proof (cases "i \<in> q_active (g_aRevokeQ s) \<and> qe_pObj (g_aRevokeQ s ! i) = Some ob")
    case True
    let ?u = "revoke_q_drop i s"
    have q: "queued ?u = queued s - {ob}" using drop_queued [OF Cons.prems(1)] True by blast
    then have "\<not> (\<exists>j \<in> set is. j \<in> q_active (g_aRevokeQ ?u) \<and> qe_pObj (g_aRevokeQ ?u ! j) = Some ob)"
      by (auto simp: queued_def)
    with Cons.IH [OF revoke_q_ok_drop(1) [OF Cons.prems(1) i]] Cons.prems(2) q True
    show ?thesis by (auto simp: q_active_def)
  next
    case False
    with i have "\<not> (qe_u8Active (g_aRevokeQ s ! i) \<noteq> 0 \<and> qe_pObj (g_aRevokeQ s ! i) = Some ob)"
      by (simp add: q_active_def)
    then have r: "reclaim_loop ob (i # is) s = reclaim_loop ob is s" by auto
    show ?thesis using Cons.IH [OF Cons.prems(1)] Cons.prems(2) False unfolding r by auto
  qed
qed simp

lemma reclaim_ok:
  assumes "revoke_q_ok s" and "gj_obj_reclaim (Some ob) s = (GJ_OK, t)"
  shows "gj_obj_reclaim_ready s (Some ob)" and "revoke_q_ok t" and "queued t = queued s - {ob}"
    and "st_objs t = st_objs s" and "st_cnodes t = st_cnodes s"
proof -
  have t: "t = reclaim_loop ob [0..<GJ_REVOKE_Q_MAX] s" and r: "gj_obj_reclaim_ready s (Some ob)"
    using assms(2) by (auto simp: gj_obj_reclaim_def split: if_splits)
  note sp = reclaim_loop_spec [OF assms(1), of "[0..<GJ_REVOKE_Q_MAX]" ob]
  have "(\<exists>i \<in> set [0..<GJ_REVOKE_Q_MAX]. i \<in> q_active (g_aRevokeQ s) \<and> qe_pObj (g_aRevokeQ s ! i) = Some ob)
      \<longleftrightarrow> ob \<in> queued s" by (auto simp: queued_def q_active_def)
  with sp t show "revoke_q_ok t" "queued t = queued s - {ob}" "st_objs t = st_objs s" "st_cnodes t = st_cnodes s"
    by (auto simp: atLeast0LessThan split: if_splits)
  show "gj_obj_reclaim_ready s (Some ob)" by (rule r)
qed

lemma slot_refs_zero:
  assumes "slot_refs C s ob = 0" and "finite C" and "c \<in> C" and "wf_caps s"
  shows "\<not> live_slot s ob c i"
proof
  assume l: "live_slot s ob c i"
  then have "unat i < length (slots_of s c)" using wf_slot_index(1) [OF assms(4)] by (simp add: live_slot_def)
  then have "filter (binds ob) (slots_of s c) \<noteq> []"
    using l by (auto simp: filter_empty_conv live_slot_def slot_at_def)
  with assms(1-3) show False by (auto simp: slot_refs_def)
qed

lemma caps_ok_dead:
  "caps_ok C (upd_obj ob (\<lambda>h. h\<lparr>hdr_u32State := a, hdr_u32Gen := b h\<rparr>) s) = caps_ok C s"
proof -
  let ?t = "upd_obj ob (\<lambda>h. h\<lparr>hdr_u32State := a, hdr_u32Gen := b h\<rparr>) s"
  have h: "hdr_u32SlotsLeft (st_objs ?t x) = hdr_u32SlotsLeft (st_objs s x)" "cdt_list ?t x = cdt_list s x" for x
    by simp_all
  have "live_slot ?t x c i = live_slot s x c i" for x c i by (rule live_slot_slots) simp_all
  then show ?thesis
    unfolding caps_ok_def cap_inv_def cdt_ok_def wf_caps_def acct_ok_def slot_refs_def pool_count_def
      pool_lists_def edges_live_def edges_inj_def h by simp
qed

lemma card_queued:
  assumes "revoke_q_ok s"
  shows "card (queued s) = card (q_active (g_aRevokeQ s))" and "card (q_active (g_aRevokeQ s)) \<le> GJ_REVOKE_Q_MAX"
proof -
  let ?A = "q_active (g_aRevokeQ s)" and ?f = "\<lambda>i. qe_pObj (g_aRevokeQ s ! i)"
  have "Some ` queued s = ?f ` ?A"
    using revoke_q_okD(3) [OF assms] by (force simp: queued_def image_iff)
  then show "card (queued s) = card ?A"
    using card_image [OF revoke_q_okD(4) [OF assms]] card_image [OF inj_Some, of "queued s"]
    by (metis card_image inj_Some inj_on_subset subset_UNIV)
  have "?A \<subseteq> {..<GJ_REVOKE_Q_MAX}" by (auto simp: q_active_def)
  then show "card ?A \<le> GJ_REVOKE_Q_MAX" using card_mono [of "{..<GJ_REVOKE_Q_MAX}" ?A] by simp
qed

lemma pending_card:
  assumes "revoke_q_ok s"
  shows "unat (gj_revoke_deferred_pending s) = card (queued s)"
proof -
  note D = revoke_q_okD [OF assms]
  let ?n = "unat (g_u32RevokeQLen s)" and ?q = "g_aRevokeQ s"
  have lim: "revoke_q_limit s = ?n" using D(2) by (simp add: revoke_q_limit_def)
  have "length (filter (\<lambda>e. qe_u8Active e \<noteq> 0) (take ?n ?q)) =
      card {i. i < length (take ?n ?q) \<and> qe_u8Active (take ?n ?q ! i) \<noteq> 0}"
    by (rule length_filter_conv_card)
  also have "{i. i < length (take ?n ?q) \<and> qe_u8Active (take ?n ?q ! i) \<noteq> 0} = q_active ?q"
    using D(1,2,3) by (auto simp: q_active_def)
  finally show ?thesis
    using card_queued [OF assms] by (simp add: gj_revoke_deferred_pending_def lim unat_of_nat_small)
qed

lemma revoke_queue_begin:
  assumes "revoke_q_ok s" and "gj_obj_revoke_begin (Some ob) s = (st, t)"
  shows "revoke_q_ok t \<and> (st = GJ_OK \<longrightarrow> queued t = insert ob (queued s))
    \<and> (st = GJ_ERR_AGAIN \<longrightarrow> card (queued s) = GJ_REVOKE_Q_MAX \<and> ob \<notin> queued s \<and> queued t = queued s)
    \<and> (st \<noteq> GJ_OK \<and> st \<noteq> GJ_ERR_AGAIN \<longrightarrow> t = s)
    \<and> unat (gj_revoke_deferred_pending t) = card (queued t) \<and> caps_ok C t = caps_ok C s"
  using assms(2)
proof (cases rule: begin_cases)
  case Fail
  with assms(1) show ?thesis by (auto simp: pending_card)
next
  case (Begin x b)
  let ?d = "upd_obj ob (\<lambda>h. h\<lparr>hdr_u32State := GJ_OBJ_DEAD, hdr_u32Gen := hdr_u32Gen h + 1\<rparr>) s"
  have x: "x = ob" using Begin(1) by simp
  have q: "g_aRevokeQ ?d = g_aRevokeQ s" "g_u32RevokeQLen ?d = g_u32RevokeQLen s" by (simp_all add: queue_frame)
  have d: "revoke_q_ok ?d" "queued ?d = queued s" using queue_same [OF q] assms(1) by simp_all
  note p = revoke_q_ok_push [OF d(1) Begin(3) [unfolded x]]
  have "caps_ok C t = caps_ok C ?d" by (rule caps_frame) (rule push_frame [OF Begin(3) [unfolded x]])+
  then have "caps_ok C t = caps_ok C s" by (simp only: caps_ok_dead)
  moreover have "card (queued s) = GJ_REVOKE_Q_MAX" if "\<not> b"
    using that p card_queued(1) [OF assms(1)] by (simp add: q)
  moreover have "unat (gj_revoke_deferred_pending t) = card (queued t)" using p pending_card by blast
  ultimately show ?thesis using p d(2) Begin(4) by auto
qed

section \<open>Properties\<close>

text \<open>
  C1: revocation fails closed and is final.  Once \<^verbatim>\<open>gj_obj_revoke_begin\<close> has taken an object from
  LIVE, whether it reports success or a full queue, then through every later sequence of
  operations short of re-initialising that header the object stays DEAD with the bumped
  generation: no handle of any process resolves to it, no slot can be bound to it, and a second
  revocation is refused without any effect.
\<close>

theorem revoke_fail_closed:
  assumes "gj_obj_revoke_begin (Some ob) s = (st, t)" and "st = GJ_OK \<or> st = GJ_ERR_AGAIN"
    and "(kernel_step C ob)\<^sup>*\<^sup>* t u"
  shows "hdr_u32State (st_objs u ob) = GJ_OBJ_DEAD
    \<and> hdr_u32Gen (st_objs u ob) = hdr_u32Gen (st_objs s ob) + 1
    \<and> (\<forall>p i g res. gj_cap_resolve u p i g = Inr res \<longrightarrow> res_pObj res \<noteq> ob)
    \<and> (\<forall>p i ty rt. \<exists>e. gj_cap_slot_install p i ty rt (Some ob) u = (Inl e, u))
    \<and> (\<forall>g. gj_obj_check_live u (Some ob) g = GJ_ERR_DEAD)
    \<and> gj_obj_revoke_begin (Some ob) u = (GJ_ERR_DEAD, u)"
proof -
  have t: "hdr_u32State (st_objs t ob) = GJ_OBJ_DEAD" "hdr_u32Gen (st_objs t ob) = hdr_u32Gen (st_objs s ob) + 1"
    using assms(1)
  proof (atomize (full), cases rule: begin_cases)
    case (Begin x b)
    with push_frame(1) [OF Begin(3)] show "hdr_u32State (st_objs t ob) = GJ_OBJ_DEAD
        \<and> hdr_u32Gen (st_objs t ob) = hdr_u32Gen (st_objs s ob) + 1" by simp
  qed (use assms(2) in auto)
  have u: "hdr_u32State (st_objs u ob) = GJ_OBJ_DEAD" "hdr_u32Gen (st_objs u ob) = hdr_u32Gen (st_objs s ob) + 1"
    using kernel_run_dead [OF assms(3) t(1)] t by (simp_all add: obj_id_def)
  then have "hdr_u32State (st_objs u ob) \<noteq> GJ_OBJ_LIVE" by simp
  with dead_unresolved [OF this] u show ?thesis
    by (auto simp: gj_obj_check_live_def gj_obj_revoke_begin_def)
qed

theorem revoke_fail_closed_witness:
  "\<exists>t u. gj_obj_revoke_begin (Some 7) wit_revoke = (GJ_OK, t)
    \<and> u = snd (gj_revoke_process_deferred 16 t)
    \<and> hdr_u32State (st_objs u 7) = GJ_OBJ_DEAD \<and> hdr_u32Gen (st_objs u 7) = 2
    \<and> (\<forall>p i g res. gj_cap_resolve u p i g = Inr res \<longrightarrow> res_pObj res \<noteq> 7)"
proof -
  obtain st t where b: "gj_obj_revoke_begin (Some 7) wit_revoke = (st, t)"
    by (cases "gj_obj_revoke_begin (Some 7) wit_revoke")
  have "fst (gj_obj_revoke_begin (Some 7) wit_revoke) = GJ_OK" by code_simp
  then have st: "st = GJ_OK" by (simp add: b)
  have g: "hdr_u32Gen (st_objs wit_revoke 7) = 1" by code_simp
  let ?u = "snd (gj_revoke_process_deferred 16 t)"
  have "(kernel_step {0} 7)\<^sup>*\<^sup>* t ?u" by (rule r_into_rtranclp) (rule kernel_step.deferred)
  from revoke_fail_closed [OF b _ this] st g show ?thesis
    by (intro exI [of _ t] exI [of _ ?u]) (simp add: b)
qed

text \<open>
  The queue of revoked objects is exact.  From a consistent queue, a revocation that succeeds
  adds just its object; it reports a full queue (AGAIN) only when 64 other objects are queued,
  and then changes nothing in the queue; the pending count is the number of queued objects; and
  the queue and the capability tables stay consistent.
\<close>

lemma revoke_queue_exact:
  assumes "revoke_q_ok s" and "gj_obj_revoke_begin (Some ob) s = (st, t)"
  shows "revoke_q_ok t \<and> (st = GJ_OK \<longrightarrow> queued t = insert ob (queued s))
    \<and> (st = GJ_ERR_AGAIN \<longrightarrow> card (queued s) = GJ_REVOKE_Q_MAX \<and> ob \<notin> queued s \<and> queued t = queued s)
    \<and> (st \<noteq> GJ_OK \<and> st \<noteq> GJ_ERR_AGAIN \<longrightarrow> t = s)
    \<and> unat (gj_revoke_deferred_pending t) = card (queued t) \<and> caps_ok C t = caps_ok C s"
  by (rule revoke_queue_begin [OF assms])

lemma wit_revoke_queue: "revoke_q_ok wit_revoke"
proof -
  have q: "g_aRevokeQ wit_revoke = replicate 64 \<lparr>qe_pObj = None, qe_u8Active = 0\<rparr>" "g_u32RevokeQLen wit_revoke = 0"
    by (simp_all add: wit_revoke_def cap_state.defs revoke_state.defs)
  then have "q_active (g_aRevokeQ wit_revoke) = {}" by (auto simp: q_active_def)
  with q show ?thesis by (simp add: revoke_q_ok_def)
qed

lemma wit_revoke_caps: "caps_ok {0} wit_revoke"
proof -
  let ?m = "snd (gj_cap_mint (Some 0) 1 1 3 None wit_caps)"
  have "cap_step {0} wit_caps ?m" by (rule cap_step.derive, rule cap_derive_step.mint) simp
  then have "(cap_step {0})\<^sup>*\<^sup>* wit_boot ?m" using wit_caps_run by (rule rtranclp.rtrancl_into_rtrancl [rotated])
  from cdt_ok_run [OF this _ wit_boot_inv wit_boot_cdt] have "caps_ok {0} ?m" by (simp add: caps_ok_def)
  moreover have "caps_ok {0} wit_revoke = caps_ok {0} ?m"
    by (rule caps_frame) (simp_all add: wit_revoke_def cap_state.defs revoke_state.defs)
  ultimately show ?thesis by simp
qed

text \<open>
  A walk batch does exactly the work it reports.  On consistent tables it clears at most the
  slots asked for; the number it returns is the number of bindings that disappear, all of them
  bindings of the object; the object's count of bound slots and its list of edges shrink by that
  number, no other object's edges change, no CNode lock changes, and the tables stay consistent.
\<close>

lemma walk_batch_exact:
  assumes "caps_ok C s" and "finite C" and "gj_revoke_cdt_walk_batch (Some ob) m s = (n, t)"
  shows "n \<le> m \<and> caps_ok C t \<and> cap_map t \<subseteq>\<^sub>m cap_map s
    \<and> finite {x. cap_map s x \<noteq> None \<and> cap_map t x = None}
    \<and> card {x. cap_map s x \<noteq> None \<and> cap_map t x = None} = unat n
    \<and> (\<forall>x b. cap_map s x = Some b \<longrightarrow> b_obj b \<noteq> ob \<longrightarrow> cap_map t x = Some b)
    \<and> unat (hdr_u32SlotsLeft (st_objs t ob)) + unat n = unat (hdr_u32SlotsLeft (st_objs s ob))
    \<and> length (cdt_list t ob) + unat n = length (cdt_list s ob)
    \<and> (\<forall>x. x \<noteq> ob \<longrightarrow> cdt_list t x = cdt_list s x)
    \<and> (\<forall>d. cn_u32SoftLock (st_cnodes t d) = cn_u32SoftLock (st_cnodes s d))"
proof -
  have k: "clears C ob (unat n) s t" "n \<le> m" using walk_batch_clears [OF assms] by simp_all
  note c = clears_ok [OF k(1) assms(2,1)]
  then have r: "reaped {ob} (unat n) s t" by simp
  have keep: "cap_map t x = Some b" if "cap_map s x = Some b" "b_obj b \<noteq> ob" for x b
  proof (cases "cap_map t x")
    case None
    with that reapedD [OF r] show ?thesis by blast
  next
    case (Some b')
    with that r show ?thesis by (metis domI map_le_def option.inject reaped_def)
  qed
  have l: "finite (lost s t)" "card (lost s t) = unat n" "cap_map t \<subseteq>\<^sub>m cap_map s"
    using r by (simp_all add: reaped_def)
  show ?thesis
    using k(2) c keep l unfolding lost_def by blast
qed

text \<open>
  The walk makes progress.  When no CNode is held by anyone else, a batch with a budget of
  \<open>m\<close> (at most \<open>0x3ffffffd\<close>, where the visit cap \<^verbatim>\<open>u32MaxSlots * 4 + 8\<close> still fits 32 bits) clears
  the lesser of \<open>m\<close> and the number of edges; so a budget that covers the edges empties the list.
\<close>

lemma walk_batch_progress:
  assumes "caps_ok C s" and "finite C" and "\<forall>c \<in> C. cn_u32SoftLock (st_cnodes s c) = 0"
    and "m \<le> 0x3ffffffd" and "gj_revoke_cdt_walk_batch (Some ob) m s = (n, t)"
  shows "unat n = min (length (cdt_list s ob)) (unat m)
    \<and> (length (cdt_list s ob) \<le> unat m \<longrightarrow> cdt_list t ob = [])"
proof -
  have n: "unat n = min (length (cdt_list s ob)) (unat m)" by (rule walk_batch_unlocked [OF assms])
  have "clears C ob (unat n) s t" using walk_batch_clears [OF assms(1,2,5)] ..
  then have "length (cdt_list t ob) + unat n = length (cdt_list s ob)"
    using clears_ok [OF _ assms(2,1)] by blast
  with n show ?thesis by auto
qed

text \<open>
  The visit cap of the walk wraps.  With a budget of \<open>0x3ffffffe\<close> the cap
  \<^verbatim>\<open>u32MaxSlots * 4 + 8\<close> is 0 in 32-bit arithmetic, and the walk returns at once without clearing
  anything, however many edges the object has and whatever the locks.
\<close>

lemma walk_batch_cap_wraps:
  "gj_revoke_cdt_walk_batch (Some ob) 0x3ffffffe s = (0, s)"
proof -
  have cap: "(0x3ffffffe :: u32) * 4 + 8 = 0" by simp
  have "walk_passes n ob m 0 0 0 s = (0, s)" for n m by (cases n) simp_all
  then show ?thesis unfolding gj_revoke_cdt_walk_batch_def cap by simp
qed

text \<open>
  The deferred driver is bounded and touches the dead only.  From consistent tables and queue
  it clears at most the budget, returns the number of bindings that disappear, drops bindings
  only of queued objects that are DEAD, queues nothing new, changes no object's state, and leaves
  tables and queue consistent.
\<close>

lemma process_deferred_sound:
  assumes "caps_ok C s" and "revoke_q_ok s" and "finite C" and "gj_revoke_process_deferred m s = (n, t)"
  shows "n \<le> m \<and> caps_ok C t \<and> revoke_q_ok t \<and> queued t \<subseteq> queued s
    \<and> card {x. cap_map s x \<noteq> None \<and> cap_map t x = None} = unat n
    \<and> cap_map t \<subseteq>\<^sub>m cap_map s
    \<and> (\<forall>x b. cap_map s x = Some b \<longrightarrow> cap_map t x = None \<longrightarrow>
         b_obj b \<in> queued s \<and> hdr_u32State (st_objs s (b_obj b)) = GJ_OBJ_DEAD)
    \<and> (\<forall>ob. hdr_u32State (st_objs t ob) = hdr_u32State (st_objs s ob))"
proof -
  have p: "deferred_post C m 0 s (n, t)" using deferred_post_process [OF assms(1-3), of m] assms(4) by simp
  then have r: "reaped {ob \<in> queued s. hdr_u32State (st_objs s ob) = GJ_OBJ_DEAD} (unat n) s t"
    by (simp add: deferred_post_def)
  have "b_obj b \<in> queued s \<and> hdr_u32State (st_objs s (b_obj b)) = GJ_OBJ_DEAD"
    if "cap_map s x = Some b" "cap_map t x = None" for x b
    using reapedD [OF r that] by simp
  moreover have "card {x. cap_map s x \<noteq> None \<and> cap_map t x = None} = unat n" "cap_map t \<subseteq>\<^sub>m cap_map s"
    using r by (simp_all add: reaped_def lost_def)
  ultimately show ?thesis using p unfolding deferred_post_def by blast
qed

text \<open>
  C4: reclaim is safe.  On consistent tables \<^verbatim>\<open>gj_obj_reclaim\<close> succeeds only for a DEAD object with
  no references or pins; then no slot of any CNode is bound to it and no edge is on its list, it
  leaves the queue, and when its storage is initialised again as a new object (at generation 1
  again) no handle issued before resolves to the newcomer.
\<close>

theorem reclaim_safe:
  assumes "caps_ok C s" and "finite C" and "revoke_q_ok s" and "gj_obj_reclaim (Some ob) s = (GJ_OK, t)"
  shows "hdr_u32State (st_objs s ob) = GJ_OBJ_DEAD \<and> hdr_u32Ref (st_objs s ob) = 0 \<and> hdr_u32Pin (st_objs s ob) = 0
    \<and> cdt_list t ob = [] \<and> queued t = queued s - {ob} \<and> revoke_q_ok t
    \<and> (\<forall>c \<in> C. \<forall>i b. cap_map t (c, i) = Some b \<longrightarrow> b_obj b \<noteq> ob)
    \<and> (\<forall>c \<in> C. \<forall>i g res. gj_cap_resolve (gj_obj_hdr_init (Some ob) t) (Some c) i g = Inr res \<longrightarrow> res_pObj res \<noteq> ob)"
proof -
  note r = reclaim_ok [OF assms(3,4)]
  then have h: "hdr_u32State (st_objs s ob) = GJ_OBJ_DEAD" "hdr_u32Ref (st_objs s ob) = 0"
    "hdr_u32Pin (st_objs s ob) = 0" "hdr_u32SlotsLeft (st_objs s ob) = 0" "cdt_list s ob = []"
    by (auto simp: gj_obj_reclaim_ready_def split: if_splits)
  have inv: "wf_caps s" "acct_ok C s" using assms(1) by (simp_all add: caps_ok_def cap_inv_def)
  have refs: "slot_refs C s ob = 0" using inv(2) h(4) by (metis acct_ok_def unat_0)
  have sl: "slots_of t = slots_of s" by (simp add: slots_of_def r fun_eq_iff)
  have "b_obj b \<noteq> ob" if "c \<in> C" "cap_map t (c, i) = Some b" for c i b
  proof
    assume o: "b_obj b = ob"
    from that(2) have "i < length (slots_of s c)" "binds ob (slots_of s c ! i)"
      using o by (auto simp: cap_map_def sl slot_binding_def binds_def split: if_splits)
    then have "filter (binds ob) (slots_of s c) \<noteq> []" by (auto simp: filter_empty_conv)
    with refs assms(2) that(1) show False by (auto simp: slot_refs_def)
  qed
  moreover have "res_pObj res \<noteq> ob"
    if "c \<in> C" "gj_cap_resolve (gj_obj_hdr_init (Some ob) t) (Some c) i g = Inr res" for c i g res
  proof
    assume o: "res_pObj res = ob"
    from resolve_live [OF that(2)] o have "live_slot (gj_obj_hdr_init (Some ob) t) ob c i" by auto
    then have "live_slot s ob c i"
      by (simp add: gj_obj_hdr_init_def live_slot_def slot_at_def slots_of_def r)
    with slot_refs_zero [OF refs assms(2) that(1) inv(1)] show False by blast
  qed
  ultimately show ?thesis using h r by simp
qed

theorem reclaim_safe_witness:
  "\<exists>t. gj_obj_reclaim (Some 9) (snd (gj_obj_revoke_begin (Some 9) wit_revoke)) = (GJ_OK, t) \<and> 9 \<notin> queued t"
proof -
  obtain st s where b: "gj_obj_revoke_begin (Some 9) wit_revoke = (st, s)"
    by (cases "gj_obj_revoke_begin (Some 9) wit_revoke")
  have s: "caps_ok {0} s" "revoke_q_ok s"
    using revoke_queue_begin [OF wit_revoke_queue b] wit_revoke_caps by auto
  obtain e t where d: "gj_obj_reclaim (Some 9) s = (e, t)" by (cases "gj_obj_reclaim (Some 9) s")
  have "fst (gj_obj_reclaim (Some 9) (snd (gj_obj_revoke_begin (Some 9) wit_revoke))) = GJ_OK" by code_simp
  then have "e = GJ_OK" by (simp add: b d)
  with reclaim_safe [OF s(1) _ s(2)] d b show ?thesis by (intro exI [of _ t]) auto
qed

end
