(* ===== verification/Cap_Revoke_Race.thy ===== *)
theory Cap_Revoke_Race
  imports Cap_Revoke
begin

text \<open>
  Concurrent revokers of one object.  Each thread runs the body of \<^verbatim>\<open>gj_obj_revoke_begin\<close>
  (\<^verbatim>\<open>kernel/cap/revoke.c\<close>) as its sequence of atomic accesses: the compare-and-exchange on
  \<^verbatim>\<open>u32State\<close>, on failure the load that picks the status, on success the store of DEAD, the
  generation's fetch-and-add and the queue push.  The threads interleave freely.
\<close>

section \<open>Threads\<close>

datatype revoker_pc = At_Cas | At_Load | At_Store | At_Bump | At_Push | Returned gj_status

record race_state =
  rc_u32State :: u32
  rc_u32Gen :: u32
  rc_pc :: "nat \<Rightarrow> revoker_pc"

inductive revoke_race :: "race_state \<Rightarrow> race_state \<Rightarrow> bool" where
  cas_ok: "rc_pc r i = At_Cas \<Longrightarrow> rc_u32State r = GJ_OBJ_LIVE \<Longrightarrow>
     revoke_race r (r\<lparr>rc_u32State := GJ_OBJ_REVOKING, rc_pc := (rc_pc r)(i := At_Store)\<rparr>)"
| cas_fail: "rc_pc r i = At_Cas \<Longrightarrow> rc_u32State r \<noteq> GJ_OBJ_LIVE \<Longrightarrow>
     revoke_race r (r\<lparr>rc_pc := (rc_pc r)(i := At_Load)\<rparr>)"
| load: "rc_pc r i = At_Load \<Longrightarrow>
     revoke_race r (r\<lparr>rc_pc := (rc_pc r)(i := Returned
       (if rc_u32State r = GJ_OBJ_DEAD \<or> rc_u32State r = GJ_OBJ_REVOKING then GJ_ERR_DEAD else GJ_ERR_BUSY))\<rparr>)"
| store: "rc_pc r i = At_Store \<Longrightarrow>
     revoke_race r (r\<lparr>rc_u32State := GJ_OBJ_DEAD, rc_pc := (rc_pc r)(i := At_Bump)\<rparr>)"
| bump: "rc_pc r i = At_Bump \<Longrightarrow>
     revoke_race r (r\<lparr>rc_u32Gen := rc_u32Gen r + 1, rc_pc := (rc_pc r)(i := At_Push)\<rparr>)"
| push: "rc_pc r i = At_Push \<Longrightarrow> st = (if fQueued then GJ_OK else GJ_ERR_AGAIN) \<Longrightarrow>
     revoke_race r (r\<lparr>rc_pc := (rc_pc r)(i := Returned st)\<rparr>)"

inductive_cases revoke_raceE: "revoke_race r r'"

text \<open>A thread that won the compare-and-exchange, and how far it got.\<close>

fun owns :: "revoker_pc \<Rightarrow> bool" where
  "owns At_Store = True"
| "owns At_Bump = True"
| "owns At_Push = True"
| "owns (Returned st) = (st = GJ_OK \<or> st = GJ_ERR_AGAIN)"
| "owns _ = False"

definition bumped :: "revoker_pc \<Rightarrow> bool" where
  "bumped pc \<longleftrightarrow> owns pc \<and> pc \<noteq> At_Store \<and> pc \<noteq> At_Bump"

definition race_init :: "u32 \<Rightarrow> race_state" where
  "race_init g = \<lparr>rc_u32State = GJ_OBJ_LIVE, rc_u32Gen = g, rc_pc = (\<lambda>_. At_Cas)\<rparr>"

section \<open>Invariant\<close>

definition one_owner :: "race_state \<Rightarrow> bool" where
  "one_owner r \<longleftrightarrow> (\<forall>i j. owns (rc_pc r i) \<longrightarrow> owns (rc_pc r j) \<longrightarrow> i = j)"

definition has :: "(revoker_pc \<Rightarrow> bool) \<Rightarrow> race_state \<Rightarrow> bool" where
  "has P r \<longleftrightarrow> (\<exists>i. P (rc_pc r i))"

text \<open>The statuses of threads that did not win.\<close>

definition beaten :: "revoker_pc \<Rightarrow> bool" where
  "beaten pc \<longleftrightarrow> pc = At_Load \<or> (\<exists>st. pc = Returned st \<and> \<not> owns pc)"

definition race_inv :: "u32 \<Rightarrow> race_state \<Rightarrow> bool" where
  "race_inv g r \<longleftrightarrow> one_owner r
     \<and> rc_u32State r = (if has owns r then (if has ((=) At_Store) r then GJ_OBJ_REVOKING else GJ_OBJ_DEAD)
          else GJ_OBJ_LIVE)
     \<and> rc_u32Gen r = (if has bumped r then g + 1 else g)
     \<and> (has beaten r \<longrightarrow> has owns r)
     \<and> \<not> has (\<lambda>pc. beaten pc \<and> pc \<noteq> At_Load \<and> pc \<noteq> Returned GJ_ERR_DEAD) r"

lemma race_inv_init: "race_inv g (race_init g)"
  by (simp add: race_inv_def race_init_def bumped_def one_owner_def has_def beaten_def)

lemma bumped_owns: "bumped pc \<Longrightarrow> owns pc"
  by (simp add: bumped_def)

lemma has_other:
  assumes "\<And>q. P q \<Longrightarrow> owns q" and "\<not> owns (rc_pc r i)" and "\<not> owns pc" and "rc_pc r' = (rc_pc r)(i := pc)"
  shows "has P r' = has P r"
proof -
  have "P (rc_pc r' k) \<longleftrightarrow> P (rc_pc r k)" for k using assms by auto
  then show ?thesis by (simp add: has_def)
qed

lemma one_owner_sub:
  assumes "one_owner r" and "\<And>k. owns (rc_pc r' k) \<Longrightarrow> owns (rc_pc r k)"
  shows "one_owner r'"
  using assms unfolding one_owner_def by blast

text \<open>A beaten thread moves on while the owner exists.\<close>

lemma race_inv_other:
  assumes inv: "race_inv g r" and own: "has owns r" and i: "\<not> owns (rc_pc r i)"
    and pc: "pc = At_Load \<or> pc = Returned GJ_ERR_DEAD"
  shows "race_inv g (r\<lparr>rc_pc := (rc_pc r)(i := pc)\<rparr>)"
proof -
  let ?r = "r\<lparr>rc_pc := (rc_pc r)(i := pc)\<rparr>"
  have no: "\<not> owns pc" using pc by auto
  have eqs: "has owns ?r = has owns r" "has bumped ?r = has bumped r" "has ((=) At_Store) ?r = has ((=) At_Store) r"
    by (rule has_other [where i = i and pc = pc]; use i no bumped_owns in auto)+
  have one: "one_owner ?r"
    by (rule one_owner_sub [of r]) (use inv no in \<open>auto simp: race_inv_def split: if_splits\<close>)
  have "has (\<lambda>pc. beaten pc \<and> pc \<noteq> At_Load \<and> pc \<noteq> Returned GJ_ERR_DEAD) ?r \<Longrightarrow>
      has (\<lambda>pc. beaten pc \<and> pc \<noteq> At_Load \<and> pc \<noteq> Returned GJ_ERR_DEAD) r"
    using pc unfolding has_def by (auto split: if_splits)
  with inv own one eqs show ?thesis by (auto simp: race_inv_def)
qed

text \<open>With one owner the invariant reads off that thread.\<close>

lemma has_owner:
  assumes "\<And>k. k \<noteq> i \<Longrightarrow> \<not> owns (rc_pc r k)" and "\<And>q. P q \<Longrightarrow> owns q"
  shows "has P r = P (rc_pc r i)"
  using assms unfolding has_def by metis

lemma race_inv_owner:
  assumes others: "\<And>k. k \<noteq> i \<Longrightarrow> \<not> owns (rc_pc r k)" and own: "owns (rc_pc r i)"
  shows "race_inv g r \<longleftrightarrow>
      rc_u32State r = (if rc_pc r i = At_Store then GJ_OBJ_REVOKING else GJ_OBJ_DEAD)
      \<and> rc_u32Gen r = (if bumped (rc_pc r i) then g + 1 else g)
      \<and> (\<forall>k. k \<noteq> i \<longrightarrow> beaten (rc_pc r k) \<longrightarrow> rc_pc r k = At_Load \<or> rc_pc r k = Returned GJ_ERR_DEAD)"
proof -
  have h: "has owns r = True" "has bumped r = bumped (rc_pc r i)" "has ((=) At_Store) r = (At_Store = rc_pc r i)"
    using has_owner [where P = owns, OF others] has_owner [OF others bumped_owns]
      has_owner [where P = "(=) At_Store", OF others] own by auto
  have nb: "\<not> beaten (rc_pc r i)" using own by (auto simp: beaten_def)
  have one: "one_owner r" unfolding one_owner_def using others by metis
  have "has (\<lambda>pc. beaten pc \<and> pc \<noteq> At_Load \<and> pc \<noteq> Returned GJ_ERR_DEAD) r \<longleftrightarrow>
      \<not> (\<forall>k. k \<noteq> i \<longrightarrow> beaten (rc_pc r k) \<longrightarrow> rc_pc r k = At_Load \<or> rc_pc r k = Returned GJ_ERR_DEAD)"
    unfolding has_def using nb by metis
  with one h show ?thesis unfolding race_inv_def by (auto simp: eq_commute [of At_Store])
qed

lemma race_owner_alone:
  assumes "race_inv g r" and "owns (rc_pc r i)"
  shows "k \<noteq> i \<Longrightarrow> \<not> owns (rc_pc r k)"
  using assms unfolding race_inv_def one_owner_def by blast

lemma race_inv_ownerD:
  assumes "race_inv g r" and "owns (rc_pc r i)"
  shows "rc_u32State r = (if rc_pc r i = At_Store then GJ_OBJ_REVOKING else GJ_OBJ_DEAD)"
    and "rc_u32Gen r = (if bumped (rc_pc r i) then g + 1 else g)"
    and "k \<noteq> i \<Longrightarrow> beaten (rc_pc r k) \<Longrightarrow> rc_pc r k = At_Load \<or> rc_pc r k = Returned GJ_ERR_DEAD"
  using assms(1) race_inv_owner [of i r g, OF race_owner_alone [OF assms] assms(2)] by blast+

text \<open>The owner, thread \<open>i\<close>, moves on to \<open>pc\<close>.\<close>

lemma race_inv_advance:
  assumes inv: "race_inv g r" and own: "owns (rc_pc r i)" "owns pc"
    and r': "rc_pc r' = (rc_pc r)(i := pc)"
      "rc_u32State r' = (if pc = At_Store then GJ_OBJ_REVOKING else GJ_OBJ_DEAD)"
      "rc_u32Gen r' = (if bumped pc then g + 1 else g)"
  shows "race_inv g r'"
proof -
  note o = race_owner_alone [OF inv own(1)]
  have "owns (rc_pc r' i)" and "\<And>k. k \<noteq> i \<Longrightarrow> \<not> owns (rc_pc r' k)" using o own(2) by (simp_all add: r')
  from race_inv_owner [OF this(2,1)] race_inv_ownerD(3) [OF inv own(1)] show ?thesis
    using r' by simp
qed

lemma race_inv_step:
  assumes "revoke_race r r'" and inv: "race_inv g r"
  shows "race_inv g r'"
  using assms(1)
proof cases
  case (cas_ok i)
  have no: "\<not> has owns r" using inv cas_ok(3) by (auto simp: race_inv_def split: if_splits)
  then have nb: "\<not> has bumped r" and na: "\<not> has beaten r"
    using bumped_owns inv by (auto simp: has_def race_inv_def)
  have o: "\<And>k. k \<noteq> i \<Longrightarrow> \<not> owns (rc_pc r' k)" and "owns (rc_pc r' i)"
    using no by (auto simp: cas_ok(1) has_def)
  from race_inv_owner [OF this] show ?thesis
    using inv nb na by (auto simp: cas_ok(1) race_inv_def has_def bumped_def)
next
  case (cas_fail i)
  then have "has owns r" using inv by (auto simp: race_inv_def split: if_splits)
  from race_inv_other [OF inv this, of i At_Load] cas_fail show ?thesis by simp
next
  case (load i)
  then have "has beaten r" unfolding has_def beaten_def by blast
  then have h: "has owns r" using inv by (simp add: race_inv_def)
  then have "rc_u32State r = GJ_OBJ_DEAD \<or> rc_u32State r = GJ_OBJ_REVOKING"
    using inv by (auto simp: race_inv_def)
  with race_inv_other [OF inv h, of i "Returned GJ_ERR_DEAD"] load show ?thesis by simp
next
  case (store i)
  have "rc_u32Gen r = g"
    using race_inv_ownerD [OF inv, of i] store
    by (simp add: bumped_def)
  with store show ?thesis by (intro race_inv_advance [OF inv, of i At_Bump]) (simp_all add: bumped_def)
next
  case (bump i)
  have "rc_u32Gen r = g" "rc_u32State r = GJ_OBJ_DEAD"
    using race_inv_ownerD [OF inv, of i] bump
    by (simp_all add: bumped_def)
  with bump show ?thesis by (intro race_inv_advance [OF inv, of i At_Push]) (simp_all add: bumped_def)
next
  case (push i st f)
  have "rc_u32Gen r = g + 1" "rc_u32State r = GJ_OBJ_DEAD"
    using race_inv_ownerD [OF inv, of i] push
    by (simp_all add: bumped_def)
  with push show ?thesis
    by (intro race_inv_advance [OF inv, of i "Returned st"]) (simp_all add: bumped_def)
qed

interpretation race: kept revoke_race "race_inv g" for g
  by unfold_locales (rule race_inv_step)

lemma race_inv_run: "revoke_race\<^sup>*\<^sup>* (race_init g) r \<Longrightarrow> race_inv g r"
  by (rule race.run_keeps [OF _ race_inv_init])

text \<open>As soon as one thread is past its compare-and-exchange there is a winner.\<close>

lemma race_moved:
  assumes "race_inv g r" and "rc_pc r i \<noteq> At_Cas"
  shows "has owns r"
proof (cases "owns (rc_pc r i)")
  case True
  then show ?thesis unfolding has_def by blast
next
  case False
  with assms(2) have "beaten (rc_pc r i)" by (cases "rc_pc r i") (auto simp: beaten_def)
  then show ?thesis using assms(1) unfolding race_inv_def has_def by blast
qed

lemma race_live_iff: "race_inv g r \<Longrightarrow> rc_u32State r = GJ_OBJ_LIVE \<longleftrightarrow> (\<forall>i. rc_pc r i = At_Cas)"
  using race_moved [of g r] by (fastforce simp: race_inv_def has_def split: if_splits)

text \<open>Steps of one thread; the others stay where they are.\<close>

definition race_own :: "nat \<Rightarrow> race_state \<Rightarrow> race_state \<Rightarrow> bool" where
  "race_own i r r' \<longleftrightarrow> revoke_race\<^sup>*\<^sup>* r r' \<and> (\<forall>j. j \<noteq> i \<longrightarrow> rc_pc r' j = rc_pc r j)"

lemma race_own_then:
  assumes "revoke_race r r1" "\<forall>j. j \<noteq> i \<longrightarrow> rc_pc r1 j = rc_pc r j" "\<exists>r' st. race_own i r1 r' \<and> rc_pc r' i = Returned st"
  shows "\<exists>r' st. race_own i r r' \<and> rc_pc r' i = Returned st"
  using assms unfolding race_own_def by (metis converse_rtranclp_into_rtranclp)

lemma race_returns: "\<exists>r' st. race_own i r r' \<and> rc_pc r' i = Returned st"
proof -
  have ret: "\<exists>r' st. race_own i r r' \<and> rc_pc r' i = Returned st" if "rc_pc r i = Returned st" for r st
    using that by (auto simp: race_own_def)
  have push: "\<exists>r' st. race_own i r r' \<and> rc_pc r' i = Returned st" if "rc_pc r i = At_Push" for r
    by (rule race_own_then [OF revoke_race.push [OF that refl, of True] _ ret]) simp_all
  have bump: "\<exists>r' st. race_own i r r' \<and> rc_pc r' i = Returned st" if "rc_pc r i = At_Bump" for r
    by (rule race_own_then [OF revoke_race.bump [OF that] _ push]) simp_all
  have store: "\<exists>r' st. race_own i r r' \<and> rc_pc r' i = Returned st" if "rc_pc r i = At_Store" for r
    by (rule race_own_then [OF revoke_race.store [OF that] _ bump]) simp_all
  have load: "\<exists>r' st. race_own i r r' \<and> rc_pc r' i = Returned st" if "rc_pc r i = At_Load" for r
    by (rule race_own_then [OF revoke_race.load [OF that] _ ret]) simp_all
  have cas: "\<exists>r' st. race_own i r r' \<and> rc_pc r' i = Returned st" if "rc_pc r i = At_Cas" for r
  proof (cases "rc_u32State r = GJ_OBJ_LIVE")
    case True
    show ?thesis by (rule race_own_then [OF revoke_race.cas_ok [OF that True] _ store]) simp_all
  next
    case False
    show ?thesis by (rule race_own_then [OF revoke_race.cas_fail [OF that False] _ load]) simp_all
  qed
  show ?thesis by (cases "rc_pc r i") (rule cas load store bump push ret; assumption)+
qed

section \<open>Properties\<close>

text \<open>
  C6: among concurrent revokers of one object there is exactly one winner.  However the atomic accesses of
  any number of threads interleave, starting from a LIVE object of generation \<open>g\<close>: the object is LIVE just as long as
  no thread is past its compare-and-exchange; from then on exactly one thread is the winner, which is the
  only one that returns OK or AGAIN, while every other thread that has returned got DEAD; the generation is \<open>g + 1\<close> once
  the winner has passed its increment and \<open>g\<close> before, and when the winner has returned the
  object is DEAD; and every thread can return by its own accesses alone.
\<close>

theorem revoke_one_winner:
  assumes "revoke_race\<^sup>*\<^sup>* (race_init g) r"
  shows "(rc_u32State r = GJ_OBJ_LIVE \<longleftrightarrow> (\<forall>i. rc_pc r i = At_Cas))
    \<and> ((\<exists>i. rc_pc r i \<noteq> At_Cas) \<longrightarrow> (\<exists>!i. owns (rc_pc r i)))
    \<and> (\<forall>i st. rc_pc r i = Returned st \<longrightarrow> (if owns (rc_pc r i) then rc_u32State r = GJ_OBJ_DEAD else st = GJ_ERR_DEAD))
    \<and> rc_u32Gen r = (if \<exists>i. bumped (rc_pc r i) then g + 1 else g)
    \<and> (\<forall>i. \<exists>r' st. race_own i r r' \<and> rc_pc r' i = Returned st)"
proof -
  have inv: "race_inv g r" by (rule race_inv_run [OF assms])
  have "\<exists>!i. owns (rc_pc r i)" if "rc_pc r i \<noteq> At_Cas" for i
    using race_moved [OF inv that] inv unfolding has_def race_inv_def one_owner_def by blast
  moreover have "if owns (rc_pc r i) then rc_u32State r = GJ_OBJ_DEAD else st = GJ_ERR_DEAD" if st: "rc_pc r i = Returned st" for i st
  proof (cases "owns (rc_pc r i)")
    case True
    then show ?thesis using race_inv_ownerD(1) [OF inv True] st by simp
  next
    case False
    then have "beaten (rc_pc r i)" using st by (simp add: beaten_def)
    then show ?thesis using False st inv unfolding race_inv_def has_def by fastforce
  qed
  moreover have "rc_u32Gen r = (if \<exists>i. bumped (rc_pc r i) then g + 1 else g)" using inv by (simp add: race_inv_def has_def)
  ultimately show ?thesis using race_live_iff [OF inv] race_returns by blast
qed

theorem revoke_one_winner_witness:
  "\<exists>r. revoke_race\<^sup>*\<^sup>* (race_init 1) r \<and> rc_pc r 0 = At_Store \<and> rc_pc r 1 = Returned GJ_ERR_DEAD
    \<and> rc_u32State r \<noteq> GJ_OBJ_LIVE \<and> (\<exists>!i. owns (rc_pc r i))"
proof -
  let ?a = "race_init 1"
  let ?b = "?a\<lparr>rc_u32State := GJ_OBJ_REVOKING, rc_pc := (rc_pc ?a)(0 := At_Store)\<rparr>"
  let ?c = "?b\<lparr>rc_pc := (rc_pc ?b)(1 := At_Load)\<rparr>"
  let ?d = "?c\<lparr>rc_pc := (rc_pc ?c)(1 := Returned GJ_ERR_DEAD)\<rparr>"
  have "revoke_race ?a ?b" by (rule revoke_race.cas_ok) (simp_all add: race_init_def)
  moreover have "revoke_race ?b ?c" by (rule revoke_race.cas_fail) (simp_all add: race_init_def)
  moreover have "revoke_race ?c ?d"
    using revoke_race.load [of ?c 1] by (simp add: race_init_def)
  ultimately have run: "revoke_race\<^sup>*\<^sup>* ?a ?d" by (meson r_into_rtranclp rtranclp_trans)
  have pcs: "rc_pc ?d 0 = At_Store" "rc_pc ?d 1 = Returned GJ_ERR_DEAD" by simp_all
  have "rc_pc ?d 1 \<noteq> At_Cas" by simp
  then have "rc_u32State ?d \<noteq> GJ_OBJ_LIVE" "\<exists>!i. owns (rc_pc ?d i)"
    using revoke_one_winner [OF run] by blast+
  with run pcs show ?thesis by (intro exI [of _ ?d] conjI)
qed

end
