(* ===== verification/Cap_Cdt_Heap.thy ===== *)
theory Cap_Cdt_Heap
  imports Cap_Cdt "HOL-Library.Monad_Syntax"
begin

text \<open>
  The derivation-edge lists at pointer level: \<^verbatim>\<open>struct gj_cdt_edge\<close> with its \<^verbatim>\<open>pNext\<close> links in a
  heap, and the loops of \<^verbatim>\<open>gj_cdt_edge_link\<close>, \<^verbatim>\<open>gj_cdt_edge_unlink\<close>, \<^verbatim>\<open>gj_cdt_unlink_slot\<close> and
  \<^verbatim>\<open>cdt_edge_chain_depth\<close> (\<^verbatim>\<open>kernel/cap/cnode.c\<close>) over it.  A walk that does not end, on a cyclic
  chain, is \<open>None\<close>.  The lists of theory \<^verbatim>\<open>Cap_Cnode\<close> are the abstraction, and the pointer
  operations are proved to end and to implement the list operations.
\<close>

section \<open>Heap and walks\<close>

record cdt_heap =
  eh_pNext :: "nat \<Rightarrow> ptr"
  eh_pCnode :: "nat \<Rightarrow> ptr"
  eh_u64Slot :: "nat \<Rightarrow> u64"
  eh_pCdtHead :: "nat \<Rightarrow> ptr"

text \<open>Is \<open>pEdge\<close> on the chain?\<close>

partial_function (option) link_scan :: "(nat \<Rightarrow> ptr) \<Rightarrow> ptr \<Rightarrow> nat \<Rightarrow> bool option" where
  "link_scan nx pWalk pEdge =
     (case pWalk of
        None \<Rightarrow> Some False
      | Some w \<Rightarrow> if w = pEdge then Some True else link_scan nx (nx w) pEdge)"

definition ptr_edge_link :: "nat \<Rightarrow> nat \<Rightarrow> nat \<Rightarrow> u64 \<Rightarrow> cdt_heap \<Rightarrow> (gj_status \<times> cdt_heap) option" where
  "ptr_edge_link pObj pEdge pCnode u64Slot h =
     do {
       fFound \<leftarrow> link_scan (eh_pNext h) (eh_pCdtHead h pObj) pEdge;
       Some (if fFound then (GJ_ERR_BUSY, h)
             else (GJ_OK,
               h\<lparr>eh_pCnode := (eh_pCnode h)(pEdge := Some pCnode),
                 eh_u64Slot := (eh_u64Slot h)(pEdge := u64Slot),
                 eh_pNext := (eh_pNext h)(pEdge := eh_pCdtHead h pObj),
                 eh_pCdtHead := (eh_pCdtHead h)(pObj := Some pEdge)\<rparr>))
     }"

text \<open>The walk of \<^verbatim>\<open>gj_cdt_edge_unlink\<close>: \<open>Some pPrev\<close> when the edge is found.\<close>

partial_function (option) unlink_scan :: "(nat \<Rightarrow> ptr) \<Rightarrow> ptr \<Rightarrow> ptr \<Rightarrow> nat \<Rightarrow> ptr option option" where
  "unlink_scan nx pPrev pWalk pEdge =
     (case pWalk of
        None \<Rightarrow> Some None
      | Some w \<Rightarrow> if w = pEdge then Some (Some pPrev) else unlink_scan nx (Some w) (nx w) pEdge)"

definition ptr_edge_unlink :: "nat \<Rightarrow> nat \<Rightarrow> cdt_heap \<Rightarrow> cdt_heap option" where
  "ptr_edge_unlink pObj pEdge h =
     do {
       r \<leftarrow> unlink_scan (eh_pNext h) None (eh_pCdtHead h pObj) pEdge;
       Some (case r of
           None \<Rightarrow> h
         | Some pPrev \<Rightarrow>
             (let h = (case pPrev of
                         None \<Rightarrow> h\<lparr>eh_pCdtHead := (eh_pCdtHead h)(pObj := eh_pNext h pEdge)\<rparr>
                       | Some p \<Rightarrow> h\<lparr>eh_pNext := (eh_pNext h)(p := eh_pNext h pEdge)\<rparr>)
              in h\<lparr>eh_pNext := (eh_pNext h)(pEdge := None), eh_pCnode := (eh_pCnode h)(pEdge := None),
                   eh_u64Slot := (eh_u64Slot h)(pEdge := 0)\<rparr>))
     }"

partial_function (option) ptr_unlink_walk :: "nat \<Rightarrow> ptr \<Rightarrow> u64 \<Rightarrow> ptr \<Rightarrow> cdt_heap \<Rightarrow> cdt_heap option" where
  "ptr_unlink_walk pObj pCnode u64Slot pWalk h =
     (case pWalk of
        None \<Rightarrow> Some h
      | Some w \<Rightarrow>
          do {
            h' \<leftarrow> (if eh_pCnode h w = pCnode \<and> eh_u64Slot h w = u64Slot
                   then ptr_edge_unlink pObj w h else Some h);
            ptr_unlink_walk pObj pCnode u64Slot (eh_pNext h w) h'
          })"

definition ptr_unlink_slot :: "nat \<Rightarrow> ptr \<Rightarrow> u64 \<Rightarrow> cdt_heap \<Rightarrow> cdt_heap option" where
  "ptr_unlink_slot pObj pCnode u64Slot h = ptr_unlink_walk pObj pCnode u64Slot (eh_pCdtHead h pObj) h"

text \<open>\<^verbatim>\<open>cdt_edge_chain_depth\<close>: \<open>n\<close> steps of the guard are left.\<close>

fun chain_depth_walk :: "nat \<Rightarrow> (nat \<Rightarrow> ptr) \<Rightarrow> ptr \<Rightarrow> u32 \<Rightarrow> u32" where
  "chain_depth_walk 0 nx pWalk u32Depth = u32Depth"
| "chain_depth_walk (Suc n) nx None u32Depth = u32Depth"
| "chain_depth_walk (Suc n) nx (Some w) u32Depth = chain_depth_walk n nx (nx w) (u32Depth + 1)"

definition cdt_edge_chain_depth :: "cdt_heap \<Rightarrow> ptr \<Rightarrow> u32" where
  "cdt_edge_chain_depth h pObj =
     (case pObj of None \<Rightarrow> 0 | Some ob \<Rightarrow> chain_depth_walk GJ_CDT_EDGE_POOL (eh_pNext h) (eh_pCdtHead h ob) 0)"

section \<open>Abstraction\<close>

text \<open>The chain from \<open>p\<close> visits exactly the list of edges.\<close>

fun chain :: "(nat \<Rightarrow> ptr) \<Rightarrow> ptr \<Rightarrow> nat list \<Rightarrow> bool" where
  "chain nx p [] \<longleftrightarrow> p = None"
| "chain nx p (x # xs) \<longleftrightarrow> p = Some x \<and> chain nx (nx x) xs"

definition cdt_rep :: "cdt_heap \<Rightarrow> 'a cap_state_scheme \<Rightarrow> bool" where
  "cdt_rep h s \<longleftrightarrow> (\<forall>ob. chain (eh_pNext h) (eh_pCdtHead h ob) (cdt_list s ob))
     \<and> (\<forall>e. eh_pCnode h e = edge_pCnode (st_edges s e) \<and> eh_u64Slot h e = edge_u64Slot (st_edges s e))"

section \<open>Chains\<close>

lemma chain_update: "x \<notin> set xs \<Longrightarrow> chain (nx(x := v)) p xs = chain nx p xs"
  by (induction nx p xs rule: chain.induct) auto

lemma chain_append:
  "chain nx p (xs @ y # ys) \<Longrightarrow> chain nx (Some y) (y # ys)"
  by (induction nx p xs rule: chain.induct) auto

lemma link_scan_chain: "chain nx p xs \<Longrightarrow> link_scan nx p e = Some (e \<in> set xs)"
  by (induction nx p xs rule: chain.induct) (auto simp: link_scan.simps)

lemma unlink_scan_notin:
  "chain nx p xs \<Longrightarrow> e \<notin> set xs \<Longrightarrow> unlink_scan nx pv p e = Some None"
  by (induction nx p xs arbitrary: pv rule: chain.induct) (auto simp: unlink_scan.simps)

lemma unlink_scan_in:
  "chain nx p (xs @ e # ys) \<Longrightarrow> e \<notin> set xs \<Longrightarrow>
     unlink_scan nx pv p e = Some (Some (if xs = [] then pv else Some (last xs)))"
  by (induction nx p xs arbitrary: pv rule: chain.induct) (auto simp: unlink_scan.simps)

lemma chain_bypass:
  "chain nx p (xs @ e # ys) \<Longrightarrow> distinct (xs @ e # ys) \<Longrightarrow> xs \<noteq> [] \<Longrightarrow>
     chain (nx(last xs := nx e, e := None)) p (xs @ ys)"
proof (induction xs arbitrary: p)
  case (Cons x xs)
  show ?case
  proof (cases "xs = []")
    case True
    with Cons.prems have f: "chain nx (nx e) ys" "x \<notin> set ys" "e \<notin> set ys" "x \<noteq> e" by auto
    have "chain (nx(x := nx e, e := None)) (nx e) ys"
      unfolding chain_update [OF f(3)] chain_update [OF f(2)] by (rule f(1))
    with True Cons.prems f(4) show ?thesis by (simp add: fun_upd_def)
  next
    case False
    with Cons.prems have "chain (nx(last xs := nx e, e := None)) (nx x) (xs @ ys)" by (intro Cons.IH) auto
    moreover have "last xs \<noteq> x" using False Cons.prems(2) last_in_set by fastforce
    ultimately show ?thesis using False Cons.prems by (auto simp: fun_upd_def)
  qed
qed simp

section \<open>Link and unlink\<close>

lemma cdt_repD:
  assumes "cdt_rep h s"
  shows "chain (eh_pNext h) (eh_pCdtHead h ob) (cdt_list s ob)"
    and "eh_pCnode h e = edge_pCnode (st_edges s e)" and "eh_u64Slot h e = edge_u64Slot (st_edges s e)"
  using assms by (simp_all add: cdt_rep_def)

lemma ptr_unlink_in:
  assumes rep: "cdt_rep h s" and ok: "cdt_ok C X s" and e: "e \<in> set (cdt_list s ob)"
  shows "\<exists>h'. ptr_edge_unlink ob e h = Some h' \<and> cdt_rep h' (unwired ob e s)
    \<and> (\<forall>w. w \<noteq> e \<longrightarrow> eh_pCnode h' w = eh_pCnode h w \<and> eh_u64Slot h' w = eh_u64Slot h w)"
proof -
  have pl: "pool_lists s" using ok by (simp add: cdt_ok_def)
  note dist = pool_listsD(1) [OF pl, of ob] and disj = pool_listsD(3) [OF pl _ e]
  obtain xs ys where split: "cdt_list s ob = xs @ e # ys" "e \<notin> set xs" using split_list_first [OF e] by blast
  have rem: "remove1 e (cdt_list s ob) = xs @ ys" using split by (simp add: remove1_append)
  have d: "distinct (xs @ e # ys)" using dist unfolding split(1) .
  note ch = cdt_repD(1) [OF rep, of ob, unfolded split(1)]
  let ?nx = "if xs = [] then eh_pNext h else (eh_pNext h)(last xs := eh_pNext h e)"
  let ?hd = "if xs = [] then (eh_pCdtHead h)(ob := eh_pNext h e) else eh_pCdtHead h"
  define h' where "h' = h\<lparr>eh_pNext := ?nx(e := None), eh_pCdtHead := ?hd,
    eh_pCnode := (eh_pCnode h)(e := None), eh_u64Slot := (eh_u64Slot h)(e := 0)\<rparr>"
  have run: "ptr_edge_unlink ob e h = Some h'"
    using unlink_scan_in [OF ch split(2), of None] by (simp add: ptr_edge_unlink_def h'_def Let_def)
  have same: "chain (eh_pNext h') (eh_pCdtHead h' x) (cdt_list s x)" if "x \<noteq> ob" for x
  proof -
    have "e \<notin> set (cdt_list s x)" using disj that by blast
    moreover have "last xs \<notin> set (cdt_list s x)" if "xs \<noteq> []"
      using pool_listsD(3) [OF pl, of "last xs" x ob] \<open>x \<noteq> ob\<close> split(1) that by auto
    ultimately show ?thesis using cdt_repD(1) [OF rep, of x] that by (simp add: h'_def chain_update)
  qed
  have "chain (eh_pNext h') (eh_pCdtHead h' ob) (xs @ ys)"
  proof (cases "xs = []")
    case True
    with ch d show ?thesis by (simp add: h'_def chain_update)
  next
    case False
    with chain_bypass [OF ch d] show ?thesis by (simp add: h'_def)
  qed
  with same have "cdt_rep h' (unwired ob e s)"
    using cdt_repD(2,3) [OF rep] by (auto simp: cdt_rep_def rem h'_def empty_edge_def)
  with run show ?thesis by (intro exI [of _ h']) (simp add: h'_def)
qed

lemma ptr_unlink_refines:
  assumes rep: "cdt_rep h s" and ok: "cdt_ok C X s"
  shows "\<exists>h'. ptr_edge_unlink ob e h = Some h' \<and> cdt_rep h' (gj_cdt_edge_unlink (Some ob) (Some e) s)"
proof (cases "e \<in> set (cdt_list s ob)")
  case True
  with ptr_unlink_in [OF rep ok True] edge_unlink_eq [OF ok True] show ?thesis by auto
next
  case False
  with unlink_scan_notin [OF cdt_repD(1) [OF rep] False, of None] rep show ?thesis
    by (simp add: ptr_edge_unlink_def gj_cdt_edge_unlink_def)
qed

lemma ptr_link_refines:
  assumes rep: "cdt_rep h s" and new: "\<And>x. e \<notin> set (cdt_list s x) \<or> x = ob"
    and slot: "cn_pSlots (st_cnodes s c) \<noteq> None" "i < cn_cSlots (st_cnodes s c)"
  shows "\<exists>st h'. ptr_edge_link ob e c i h = Some (st, h')
    \<and> fst (gj_cdt_edge_link (Some ob) (Some e) (Some c) i s) = st
    \<and> cdt_rep h' (snd (gj_cdt_edge_link (Some ob) (Some e) (Some c) i s))"
proof (cases "e \<in> set (cdt_list s ob)")
  case True
  with link_scan_chain [OF cdt_repD(1) [OF rep, of ob], of e] slot rep show ?thesis
    by (auto simp: ptr_edge_link_def gj_cdt_edge_link_def not_le)
next
  case False
  with new have no: "e \<notin> set (cdt_list s x)" for x by metis
  have "fst (gj_cdt_edge_link (Some ob) (Some e) (Some c) i s) = GJ_OK"
    "snd (gj_cdt_edge_link (Some ob) (Some e) (Some c) i s) =
       upd_obj ob (\<lambda>h. h\<lparr>hdr_pCdtHead := e # hdr_pCdtHead h\<rparr>)
         (s\<lparr>st_edges := (st_edges s)(e := \<lparr>edge_pCnode = Some c, edge_u64Slot = i\<rparr>)\<rparr>)"
    using False slot by (auto simp: gj_cdt_edge_link_def)
  then show ?thesis
    using link_scan_chain [OF cdt_repD(1) [OF rep, of ob], of e] False no cdt_repD [OF rep]
    by (auto simp: ptr_edge_link_def cdt_rep_def chain_update)
qed

section \<open>Unlinking every edge of a slot\<close>

text \<open>The walk reads a link before it unlinks the edge; the rest of the chain is not disturbed.\<close>

lemma ptr_unlink_walk_refines:
  assumes "cdt_rep h s" and "cdt_ok C X s" and "cdt_list s ob = pre @ ws"
  shows "\<exists>h'. ptr_unlink_walk ob p i (case ws of [] \<Rightarrow> None | w # _ \<Rightarrow> Some w) h = Some h'
    \<and> cdt_rep h' (unlink_slot_loop ob p i ws s)"
  using assms
proof (induction ws arbitrary: pre h s)
  case Nil
  then show ?case by (simp add: ptr_unlink_walk.simps)
next
  case (Cons w ws)
  have ch: "chain (eh_pNext h) (Some w) (w # ws)"
    using cdt_repD(1) [OF Cons.prems(1), of ob] chain_append unfolding Cons.prems(3) by blast
  then have nxt: "eh_pNext h w = (case ws of [] \<Rightarrow> None | v # _ \<Rightarrow> Some v)" by (cases ws) auto
  have w: "w \<in> set (cdt_list s ob)" by (simp add: Cons.prems(3))
  note f = cdt_repD(2,3) [OF Cons.prems(1), of w]
  have dist: "distinct (pre @ w # ws)"
    using pool_listsD(1) [of s ob] Cons.prems(2,3) by (simp add: cdt_ok_def)
  show ?case
  proof (cases "edge_pCnode (st_edges s w) = p \<and> edge_u64Slot (st_edges s w) = i")
    case True
    obtain h1 where h1: "ptr_edge_unlink ob w h = Some h1" "cdt_rep h1 (unwired ob w s)"
      using ptr_unlink_in [OF Cons.prems(1,2) w] by blast
    have l: "cdt_list (unwired ob w s) ob = pre @ ws"
      using dist by (simp add: Cons.prems(3) remove1_append)
    from Cons.IH [OF h1(2) cdt_ok_unwired [OF Cons.prems(2) w] l] True h1 f nxt show ?thesis
      by (subst ptr_unlink_walk.simps) (simp add: edge_unlink_eq [OF Cons.prems(2) w])
  next
    case False
    from Cons.IH [OF Cons.prems(1,2), of "pre @ [w]"] Cons.prems(3) have
      "\<exists>h'. ptr_unlink_walk ob p i (case ws of [] \<Rightarrow> None | v # _ \<Rightarrow> Some v) h = Some h'
        \<and> cdt_rep h' (unlink_slot_loop ob p i ws s)" by simp
    with False f nxt show ?thesis by (subst ptr_unlink_walk.simps) auto
  qed
qed

lemma chain_depth_chain:
  "chain nx p xs \<Longrightarrow> length xs \<le> n \<Longrightarrow> chain_depth_walk n nx p k = k + of_nat (length xs)"
proof (induction xs arbitrary: n p k)
  case Nil
  then show ?case by (cases n) auto
next
  case (Cons x xs)
  then obtain m where "n = Suc m" by (cases n) auto
  with Cons show ?case by (simp add: add.assoc)
qed

section \<open>Properties\<close>

text \<open>
  C7: the pointer code for derivation edges ends and implements the list operations.  On a heap
  that represents a consistent table, unlinking an edge, unlinking every edge of a slot and
  linking a fresh edge all return, and the resulting heap represents the table after the list
  operation of the model; the bounded depth count is the length of the list.
\<close>

theorem cdt_pointer_refinement:
  assumes rep: "cdt_rep h s" and ok: "cdt_ok C {} s"
  shows "(\<exists>h'. ptr_edge_unlink ob e h = Some h' \<and> cdt_rep h' (gj_cdt_edge_unlink (Some ob) (Some e) s))
    \<and> (\<exists>h'. ptr_unlink_slot ob p i h = Some h' \<and> cdt_rep h' (gj_cdt_unlink_slot (Some ob) p i s))
    \<and> (cn_pSlots (st_cnodes s c) \<noteq> None \<and> i < cn_cSlots (st_cnodes s c) \<and> (\<forall>x. e \<notin> set (cdt_list s x)) \<longrightarrow>
        (\<exists>h'. ptr_edge_link ob e c i h = Some (GJ_OK, h')
          \<and> cdt_rep h' (snd (gj_cdt_edge_link (Some ob) (Some e) (Some c) i s))))
    \<and> cdt_edge_chain_depth h (Some ob) = of_nat (length (cdt_list s ob))"
proof -
  have pl: "pool_lists s" using ok by (simp add: cdt_ok_def)
  note ch = cdt_repD(1) [OF rep, of ob]
  have "length (cdt_list s ob) \<le> card {..<GJ_CDT_EDGE_POOL}"
    using pool_listsD(2) [OF pl, of _ ob]
    by (subst distinct_card [OF pool_listsD(1) [OF pl, of ob], symmetric]) (intro card_mono, auto)
  then have "cdt_edge_chain_depth h (Some ob) = of_nat (length (cdt_list s ob))"
    using chain_depth_chain [OF ch, of GJ_CDT_EDGE_POOL 0] by (simp add: cdt_edge_chain_depth_def)
  moreover have "eh_pCdtHead h ob = (case cdt_list s ob of [] \<Rightarrow> None | w # _ \<Rightarrow> Some w)"
    using ch by (cases "cdt_list s ob") auto
  then have "\<exists>h'. ptr_unlink_slot ob p i h = Some h' \<and> cdt_rep h' (gj_cdt_unlink_slot (Some ob) p i s)"
    using ptr_unlink_walk_refines [OF rep ok, of ob "[]"] by (simp add: ptr_unlink_slot_def gj_cdt_unlink_slot_def)
  moreover have "\<exists>h'. ptr_edge_link ob e c i h = Some (GJ_OK, h')
      \<and> cdt_rep h' (snd (gj_cdt_edge_link (Some ob) (Some e) (Some c) i s))"
    if "cn_pSlots (st_cnodes s c) \<noteq> None \<and> i < cn_cSlots (st_cnodes s c) \<and> (\<forall>x. e \<notin> set (cdt_list s x))"
  proof -
    have "fst (gj_cdt_edge_link (Some ob) (Some e) (Some c) i s) = GJ_OK"
      using that by (auto simp: gj_cdt_edge_link_def)
    with ptr_link_refines [OF rep, of e ob c i] that show ?thesis by auto
  qed
  ultimately show ?thesis using ptr_unlink_refines [OF rep ok] by blast
qed

definition wit_heap :: cdt_heap where
  "wit_heap = \<lparr>eh_pNext = (\<lambda>_. None), eh_pCnode = (\<lambda>_. None), eh_u64Slot = (\<lambda>_. 0), eh_pCdtHead = (\<lambda>_. None)\<rparr>"

lemma install_edges:
  "cdt_list (snd (gj_cap_slot_install p i ty rt q s)) x = cdt_list s x \<and>
   st_edges (snd (gj_cap_slot_install p i ty rt q s)) = st_edges s"
proof -
  obtain r t where eq: "gj_cap_slot_install p i ty rt q s = (r, t)" by (cases "gj_cap_slot_install p i ty rt q s")
  from eq have "cdt_list t x = cdt_list s x \<and> st_edges t = st_edges s"
  proof (cases rule: install_cases)
    case (Fail st)
    with eq install_Inl_quotas [of p i ty rt q s st t] show ?thesis by auto
  qed simp
  then show ?thesis by (simp add: eq)
qed

lemma wit_caps_rep: "cdt_rep wit_heap wit_caps"
proof -
  have "cdt_list (snd (gj_cap_alloc_install p ty rt q s)) x = cdt_list s x \<and>
      st_edges (snd (gj_cap_alloc_install p ty rt q s)) = st_edges s" for p ty rt q x and s :: cap_state
    by (simp add: gj_cap_alloc_install_def install_edges split: option.split)
  then show ?thesis
    unfolding cdt_rep_def wit_caps_def
    by (simp add: gj_cnode_init_def gj_obj_hdr_init_def Let_def wit_heap_def wit_boot_def empty_edge_def)
qed

theorem cdt_pointer_refinement_witness:
  "(\<exists>h'. ptr_edge_link 7 0 0 1 wit_heap = Some (GJ_OK, h')
      \<and> cdt_rep h' (snd (gj_cdt_edge_link (Some 7) (Some 0) (Some 0) 1 wit_caps)))
    \<and> (\<exists>h'. ptr_unlink_slot 7 (Some 0) 1 wit_heap = Some h' \<and> cdt_rep h' (gj_cdt_unlink_slot (Some 7) (Some 0) 1 wit_caps))"
proof -
  have ok: "cdt_ok {0} {} wit_caps"
    using cdt_ok_run [OF wit_caps_run _ wit_boot_inv wit_boot_cdt] by simp
  have "0 \<notin> set (cdt_list wit_caps x)" for x
    using cdt_repD(1) [OF wit_caps_rep, of x] by (cases "cdt_list wit_caps x") (simp_all add: wit_heap_def)
  moreover have "cn_pSlots (st_cnodes wit_caps 0) \<noteq> None" "1 < cn_cSlots (st_cnodes wit_caps 0)" by code_simp+
  ultimately show ?thesis
    using cdt_pointer_refinement [OF wit_caps_rep ok, of 7 0 "Some 0" 1 0] by blast
qed

end
