(* ===== verification/File_Lock.thy ===== *)
theory File_Lock
  imports GJ_Interfaces
begin

text \<open>
  Advisory record locks, \<^verbatim>\<open>kernel/fs/file_lock.c\<close>: the table of byte ranges held per descriptor
  and process, conflict detection, carving and splitting of a process's own ranges, coalescing,
  the waiter table with its deadlock probe, and the operations set, get, release by descriptor
  and release by process.  File offsets are 64-bit signed integers in the source; validation
  keeps every computed end within that range (\<^verbatim>\<open>range_overflow\<close>), so they are modelled as
  integers.  An operation that wakes the waiters (\<^verbatim>\<open>soft_wake_waiters\<close>) reports it as a flag.
\<close>

section \<open>Data\<close>

abbreviation (input) GJ_F_RDLCK :: int where "GJ_F_RDLCK \<equiv> 0"
abbreviation (input) GJ_F_WRLCK :: int where "GJ_F_WRLCK \<equiv> 1"
abbreviation (input) GJ_F_UNLCK :: int where "GJ_F_UNLCK \<equiv> 2"
abbreviation (input) GJ_SEEK_SET :: int where "GJ_SEEK_SET \<equiv> 0"
abbreviation (input) GJ_FLOCK_EOF :: int where "GJ_FLOCK_EOF \<equiv> - 1"
abbreviation (input) GJ_FLOCK_MAX :: nat where "GJ_FLOCK_MAX \<equiv> 32"
abbreviation (input) GJ_FLOCK_MAX_WAITERS :: nat where "GJ_FLOCK_MAX_WAITERS \<equiv> 8"
abbreviation (input) GJ_FLOCK_DEADLOCK_DEPTH :: nat where "GJ_FLOCK_DEADLOCK_DEPTH \<equiv> 4"
abbreviation (input) I64_MAX :: int where "I64_MAX \<equiv> 0x7fffffffffffffff"

abbreviation (input) LINUX_EBADF :: int where "LINUX_EBADF \<equiv> 9"
abbreviation (input) LINUX_EAGAIN :: int where "LINUX_EAGAIN \<equiv> 11"
abbreviation (input) LINUX_EINVAL :: int where "LINUX_EINVAL \<equiv> 22"
abbreviation (input) LINUX_ENOLCK :: int where "LINUX_ENOLCK \<equiv> 37"
abbreviation (input) GJ_FLOCK_EDEADLK :: int where "GJ_FLOCK_EDEADLK \<equiv> 35"

record flock_slot =
  fs_u8Used :: bool
  fs_i64Fd :: int
  fs_i16Type :: int
  fs_i64Start :: int
  fs_i64End :: int
  fs_u32Pid :: u32

record flock_waiter =
  fw_u8Used :: bool
  fw_i64Fd :: int
  fw_i16Type :: int
  fw_i64Start :: int
  fw_i64End :: int
  fw_u32Pid :: u32
  fw_u32BlockerPid :: u32
  fw_u32GenSeen :: u32

record gj_flock =
  fl_i16Type :: int
  fl_i16Whence :: int
  fl_i64Start :: int
  fl_i64Len :: int
  fl_u32Pid :: u32

record flock_state =
  g_aLk :: "flock_slot list"
  g_aWait :: "flock_waiter list"
  g_u32NLocks :: u32
  g_u32NWaiters :: u32
  g_u32WakeGen :: u32

definition file_lock_init :: flock_state where
  "file_lock_init = \<lparr>
     g_aLk = replicate GJ_FLOCK_MAX \<lparr>fs_u8Used = False, fs_i64Fd = 0, fs_i16Type = 0, fs_i64Start = 0,
       fs_i64End = 0, fs_u32Pid = 0\<rparr>,
     g_aWait = replicate GJ_FLOCK_MAX_WAITERS \<lparr>fw_u8Used = False, fw_i64Fd = 0, fw_i16Type = 0,
       fw_i64Start = 0, fw_i64End = 0, fw_u32Pid = 0, fw_u32BlockerPid = 0, fw_u32GenSeen = 0\<rparr>,
     g_u32NLocks = 0, g_u32NWaiters = 0, g_u32WakeGen = 0\<rparr>"

section \<open>Ranges\<close>

definition range_end :: "int \<Rightarrow> int \<Rightarrow> int" where
  "range_end i64Start i64Len =
     (if i64Len = 0 then GJ_FLOCK_EOF
      else if I64_MAX - i64Len < i64Start then GJ_FLOCK_EOF
      else i64Start + i64Len)"

definition range_overflow :: "int \<Rightarrow> int \<Rightarrow> bool" where
  "range_overflow i64Start i64Len \<longleftrightarrow> (if i64Len = 0 then False else I64_MAX - i64Len < i64Start)"

definition range_norm_end :: "int \<Rightarrow> int" where
  "range_norm_end i64End = (if i64End < 0 then I64_MAX else i64End)"

definition ranges_overlap :: "int \<Rightarrow> int \<Rightarrow> int \<Rightarrow> int \<Rightarrow> bool" where
  "ranges_overlap i64A0 i64A1 i64B0 i64B1 \<longleftrightarrow>
     i64A0 < range_norm_end i64B1 \<and> i64B0 < range_norm_end i64A1"

definition types_conflict :: "int \<Rightarrow> int \<Rightarrow> bool" where
  "types_conflict i16A i16B \<longleftrightarrow> \<not> (i16A = GJ_F_RDLCK \<and> i16B = GJ_F_RDLCK)"

section \<open>Slots\<close>

definition slot_free_count :: "flock_slot list \<Rightarrow> nat" where
  "slot_free_count lk = length (filter (\<lambda>sl. \<not> fs_u8Used sl) lk)"

text \<open>The index of the slot, marked used; the other fields are stale until it is filled.\<close>

definition slot_alloc :: "flock_state \<Rightarrow> nat option \<times> flock_state" where
  "slot_alloc s =
     (case find (\<lambda>i. \<not> fs_u8Used (g_aLk s ! i)) [0..<GJ_FLOCK_MAX] of
        None \<Rightarrow> (None, s)
      | Some i \<Rightarrow>
          (Some i, s\<lparr>g_aLk := (g_aLk s)[i := (g_aLk s ! i)\<lparr>fs_u8Used := True\<rparr>],
                     g_u32NLocks := g_u32NLocks s + 1\<rparr>))"

definition slot_free :: "nat \<Rightarrow> flock_state \<Rightarrow> flock_state" where
  "slot_free i s =
     (if \<not> fs_u8Used (g_aLk s ! i) then s
      else s\<lparr>g_aLk := (g_aLk s)[i := (g_aLk s ! i)\<lparr>fs_u8Used := False\<rparr>],
             g_u32NLocks := (if 0 < g_u32NLocks s then g_u32NLocks s - 1 else g_u32NLocks s)\<rparr>)"

definition slot_fill :: "nat \<Rightarrow> int \<Rightarrow> int \<Rightarrow> int \<Rightarrow> int \<Rightarrow> u32 \<Rightarrow> flock_state \<Rightarrow> flock_state" where
  "slot_fill i i64Fd i16Type i64Start i64End u32Pid s =
     s\<lparr>g_aLk := (g_aLk s)[i := \<lparr>fs_u8Used = True, fs_i64Fd = i64Fd, fs_i16Type = i16Type,
        fs_i64Start = i64Start, fs_i64End = i64End, fs_u32Pid = u32Pid\<rparr>]\<rparr>"

definition upd_lk :: "nat \<Rightarrow> (flock_slot \<Rightarrow> flock_slot) \<Rightarrow> flock_state \<Rightarrow> flock_state" where
  "upd_lk i f s = s\<lparr>g_aLk := (g_aLk s)[i := f (g_aLk s ! i)]\<rparr>"

definition wake_gen_bump :: "flock_state \<Rightarrow> flock_state" where
  "wake_gen_bump s = s\<lparr>g_u32WakeGen := g_u32WakeGen s + 1\<rparr>"

section \<open>Conflicts\<close>

definition conflicts_with :: "int \<Rightarrow> int \<Rightarrow> int \<Rightarrow> int \<Rightarrow> u32 \<Rightarrow> flock_slot \<Rightarrow> bool" where
  "conflicts_with i64Fd i16Type i64Start i64End u32SelfPid pS \<longleftrightarrow>
     fs_u8Used pS \<and> fs_i64Fd pS = i64Fd \<and> fs_u32Pid pS \<noteq> u32SelfPid
     \<and> ranges_overlap i64Start i64End (fs_i64Start pS) (fs_i64End pS)
     \<and> types_conflict i16Type (fs_i16Type pS)"

text \<open>Among the hits the lowest start wins, a write lock at equal starts.\<close>

fun conflict_scan ::
  "int \<Rightarrow> int \<Rightarrow> int \<Rightarrow> int \<Rightarrow> u32 \<Rightarrow> flock_slot option \<Rightarrow> flock_slot list \<Rightarrow> flock_slot option" where
  "conflict_scan i64Fd i16Type i64Start i64End u32SelfPid pBest [] = pBest"
| "conflict_scan i64Fd i16Type i64Start i64End u32SelfPid pBest (pS # ss) =
     conflict_scan i64Fd i16Type i64Start i64End u32SelfPid
       (if \<not> conflicts_with i64Fd i16Type i64Start i64End u32SelfPid pS then pBest
        else
          (case pBest of
             None \<Rightarrow> Some pS
           | Some b \<Rightarrow>
               if fs_i64Start pS < fs_i64Start b then Some pS
               else if fs_i64Start pS = fs_i64Start b \<and> fs_i16Type pS = GJ_F_WRLCK
                   \<and> fs_i16Type b \<noteq> GJ_F_WRLCK
                 then Some pS
               else Some b)) ss"

definition conflict :: "int \<Rightarrow> int \<Rightarrow> int \<Rightarrow> int \<Rightarrow> u32 \<Rightarrow> flock_state \<Rightarrow> flock_slot option" where
  "conflict i64Fd i16Type i64Start i64End u32SelfPid s =
     conflict_scan i64Fd i16Type i64Start i64End u32SelfPid None (g_aLk s)"

section \<open>Carving and coalescing\<close>

text \<open>One round of \<^verbatim>\<open>carve_pid_range\<close> for slot \<open>iSlot\<close>; \<open>False\<close> is the early return of ENOLCK.\<close>

definition carve_slot ::
  "int \<Rightarrow> u32 \<Rightarrow> int \<Rightarrow> int \<Rightarrow> nat \<Rightarrow> flock_state \<Rightarrow> bool \<times> flock_state" where
  "carve_slot i64Fd u32Pid i64Start i64End iSlot s =
     (let pS = g_aLk s ! iSlot
      in if \<not> fs_u8Used pS \<or> fs_i64Fd pS \<noteq> i64Fd \<or> fs_u32Pid pS \<noteq> u32Pid then (True, s)
         else if \<not> ranges_overlap i64Start i64End (fs_i64Start pS) (fs_i64End pS) then (True, s)
         else
           (let i64L0 = fs_i64Start pS; i64L1 = fs_i64End pS; i64U0 = i64Start; i64U1 = i64End;
                i16Type = fs_i16Type pS;
                fLeft = i64L0 < i64U0;
                fRight = range_norm_end i64U1 < range_norm_end i64L1
            in if \<not> fLeft \<and> \<not> fRight then (True, slot_free iSlot s)
               else if fLeft \<and> fRight then
                 (if slot_free_count (g_aLk s) < 1 then (False, s)
                  else
                    (case slot_alloc (upd_lk iSlot (\<lambda>p. p\<lparr>fs_i64End := i64U0\<rparr>) s) of
                       (None, s) \<Rightarrow> (False, upd_lk iSlot (\<lambda>p. p\<lparr>fs_i64End := i64L1\<rparr>) s)
                     | (Some r, s) \<Rightarrow> (True, slot_fill r i64Fd i16Type i64U1 i64L1 u32Pid s)))
               else if fLeft then (True, upd_lk iSlot (\<lambda>p. p\<lparr>fs_i64End := i64U0\<rparr>) s)
               else (True, upd_lk iSlot (\<lambda>p. p\<lparr>fs_i64Start := i64U1\<rparr>) s)))"

fun carve_loop :: "int \<Rightarrow> u32 \<Rightarrow> int \<Rightarrow> int \<Rightarrow> nat list \<Rightarrow> flock_state \<Rightarrow> bool \<times> flock_state" where
  "carve_loop i64Fd u32Pid i64Start i64End [] s = (True, s)"
| "carve_loop i64Fd u32Pid i64Start i64End (i # is) s =
     (case carve_slot i64Fd u32Pid i64Start i64End i s of
        (False, s) \<Rightarrow> (False, s)
      | (True, s) \<Rightarrow> carve_loop i64Fd u32Pid i64Start i64End is s)"

definition carve_pid_range :: "int \<Rightarrow> u32 \<Rightarrow> int \<Rightarrow> int \<Rightarrow> flock_state \<Rightarrow> int \<times> flock_state" where
  "carve_pid_range i64Fd u32Pid i64Start i64End s =
     (case carve_loop i64Fd u32Pid i64Start i64End [0..<GJ_FLOCK_MAX] s of
        (True, s) \<Rightarrow> (0, s)
      | (False, s) \<Rightarrow> (- LINUX_ENOLCK, s))"

text \<open>Two slots of one owner and type that touch or overlap.\<close>

definition mergeable :: "int \<Rightarrow> u32 \<Rightarrow> flock_slot \<Rightarrow> flock_slot \<Rightarrow> bool" where
  "mergeable i64Fd u32Pid pA pB \<longleftrightarrow>
     fs_u8Used pB \<and> fs_i64Fd pB = i64Fd \<and> fs_u32Pid pB = u32Pid \<and> fs_i16Type pA = fs_i16Type pB
     \<and> \<not> (range_norm_end (fs_i64End pA) < fs_i64Start pB \<or> range_norm_end (fs_i64End pB) < fs_i64Start pA)"

definition merge_into :: "flock_slot \<Rightarrow> flock_slot \<Rightarrow> flock_slot" where
  "merge_into pB pA =
     pA\<lparr>fs_i64Start := (if fs_i64Start pA < fs_i64Start pB then fs_i64Start pA else fs_i64Start pB),
        fs_i64End := (if fs_i64End pA < 0 \<or> fs_i64End pB < 0 then GJ_FLOCK_EOF
          else if range_norm_end (fs_i64End pB) < range_norm_end (fs_i64End pA)
            then range_norm_end (fs_i64End pA) else range_norm_end (fs_i64End pB))\<rparr>"

fun coalesce_row ::
  "int \<Rightarrow> u32 \<Rightarrow> nat \<Rightarrow> nat list \<Rightarrow> bool \<Rightarrow> flock_state \<Rightarrow> bool \<times> flock_state" where
  "coalesce_row i64Fd u32Pid iA [] fProgress s = (fProgress, s)"
| "coalesce_row i64Fd u32Pid iA (iB # bs) fProgress s =
     (if mergeable i64Fd u32Pid (g_aLk s ! iA) (g_aLk s ! iB)
      then coalesce_row i64Fd u32Pid iA bs True
             (slot_free iB (upd_lk iA (merge_into (g_aLk s ! iB)) s))
      else coalesce_row i64Fd u32Pid iA bs fProgress s)"

fun coalesce_pass :: "int \<Rightarrow> u32 \<Rightarrow> nat list \<Rightarrow> bool \<Rightarrow> flock_state \<Rightarrow> bool \<times> flock_state" where
  "coalesce_pass i64Fd u32Pid [] fProgress s = (fProgress, s)"
| "coalesce_pass i64Fd u32Pid (iA # as) fProgress s =
     (let pA = g_aLk s ! iA
      in if \<not> fs_u8Used pA \<or> fs_i64Fd pA \<noteq> i64Fd \<or> fs_u32Pid pA \<noteq> u32Pid
         then coalesce_pass i64Fd u32Pid as fProgress s
         else
           (case coalesce_row i64Fd u32Pid iA [Suc iA..<GJ_FLOCK_MAX] fProgress s of
              (fProgress, s) \<Rightarrow> coalesce_pass i64Fd u32Pid as fProgress s))"

fun coalesce_passes :: "nat \<Rightarrow> int \<Rightarrow> u32 \<Rightarrow> flock_state \<Rightarrow> flock_state" where
  "coalesce_passes 0 i64Fd u32Pid s = s"
| "coalesce_passes (Suc n) i64Fd u32Pid s =
     (case coalesce_pass i64Fd u32Pid [0..<GJ_FLOCK_MAX] False s of
        (fProgress, s) \<Rightarrow> if \<not> fProgress then s else coalesce_passes n i64Fd u32Pid s)"

definition coalesce_pid :: "int \<Rightarrow> u32 \<Rightarrow> flock_state \<Rightarrow> flock_state" where
  "coalesce_pid i64Fd u32Pid s = coalesce_passes GJ_FLOCK_MAX i64Fd u32Pid s"

section \<open>Waiters\<close>

text \<open>\<open>None\<close> is the C result -1 (table full).\<close>

definition waiter_register ::
  "int \<Rightarrow> int \<Rightarrow> int \<Rightarrow> int \<Rightarrow> u32 \<Rightarrow> u32 \<Rightarrow> flock_state \<Rightarrow> nat option \<times> flock_state" where
  "waiter_register i64Fd i16Type i64Start i64End u32Pid u32BlockerPid s =
     (case find (\<lambda>i. \<not> fw_u8Used (g_aWait s ! i)) [0..<GJ_FLOCK_MAX_WAITERS] of
        None \<Rightarrow> (None, s)
      | Some i \<Rightarrow>
          (Some i, s\<lparr>g_aWait := (g_aWait s)[i := \<lparr>fw_u8Used = True, fw_i64Fd = i64Fd, fw_i16Type = i16Type,
                       fw_i64Start = i64Start, fw_i64End = i64End, fw_u32Pid = u32Pid,
                       fw_u32BlockerPid = u32BlockerPid, fw_u32GenSeen = g_u32WakeGen s\<rparr>],
                     g_u32NWaiters := g_u32NWaiters s + 1\<rparr>))"

definition waiter_unregister :: "nat option \<Rightarrow> flock_state \<Rightarrow> flock_state" where
  "waiter_unregister nIdx s =
     (case nIdx of
        None \<Rightarrow> s
      | Some i \<Rightarrow>
          if GJ_FLOCK_MAX_WAITERS \<le> i then s
          else if \<not> fw_u8Used (g_aWait s ! i) then s
          else s\<lparr>g_aWait := (g_aWait s)[i := (g_aWait s ! i)\<lparr>fw_u8Used := False\<rparr>],
                 g_u32NWaiters := (if 0 < g_u32NWaiters s then g_u32NWaiters s - 1 else g_u32NWaiters s)\<rparr>)"

definition waiter_update_blocker :: "nat option \<Rightarrow> u32 \<Rightarrow> flock_state \<Rightarrow> flock_state" where
  "waiter_update_blocker nIdx u32BlockerPid s =
     (case nIdx of
        None \<Rightarrow> s
      | Some i \<Rightarrow>
          if GJ_FLOCK_MAX_WAITERS \<le> i then s
          else if \<not> fw_u8Used (g_aWait s ! i) then s
          else s\<lparr>g_aWait := (g_aWait s)[i := (g_aWait s ! i)\<lparr>fw_u32BlockerPid := u32BlockerPid,
                   fw_u32GenSeen := g_u32WakeGen s\<rparr>]\<rparr>)"

text \<open>The edge of the wait-for graph the probe follows from a process: that of its first waiter.\<close>

definition waits_for :: "flock_state \<Rightarrow> u32 \<Rightarrow> u32 option" where
  "waits_for s u32Cur =
     map_option (\<lambda>w. fw_u32BlockerPid w)
       (find (\<lambda>w. fw_u8Used w \<and> fw_u32Pid w = u32Cur) (g_aWait s))"

fun deadlock_walk :: "nat \<Rightarrow> flock_state \<Rightarrow> u32 \<Rightarrow> u32 \<Rightarrow> bool" where
  "deadlock_walk 0 s u32SelfPid u32Cur = False"
| "deadlock_walk (Suc n) s u32SelfPid u32Cur =
     (case waits_for s u32Cur of
        None \<Rightarrow> False
      | Some u32Next \<Rightarrow>
          if u32Next = 0 then False
          else if u32Next = u32SelfPid then True
          else deadlock_walk n s u32SelfPid u32Next)"

definition soft_deadlock :: "u32 \<Rightarrow> u32 \<Rightarrow> flock_state \<Rightarrow> bool" where
  "soft_deadlock u32SelfPid u32BlockerPid s =
     (if u32BlockerPid = 0 \<or> u32SelfPid = 0 then False
      else if u32BlockerPid = u32SelfPid then True
      else deadlock_walk GJ_FLOCK_DEADLOCK_DEPTH s u32SelfPid u32BlockerPid)"

section \<open>The operations\<close>

text \<open>The validated request: start, end, process; or the errno.\<close>

definition flock_validate :: "int \<Rightarrow> gj_flock \<Rightarrow> int + (int \<times> int \<times> u32)" where
  "flock_validate i64Fd pFl =
     (if i64Fd < 0 then Inl (- LINUX_EBADF)
      else if fl_i16Whence pFl \<noteq> GJ_SEEK_SET then Inl (- LINUX_EINVAL)
      else
        (let u32Pid = (if fl_u32Pid pFl \<noteq> 0 then fl_u32Pid pFl else 1);
             i64Start = (if fl_i64Start pFl < 0 then 0 else fl_i64Start pFl)
         in if fl_i64Len pFl < 0 then Inl (- LINUX_EINVAL)
            else if range_overflow i64Start (fl_i64Len pFl) then Inl (- LINUX_EINVAL)
            else
              (let i64End = range_end i64Start (fl_i64Len pFl)
               in if 0 < fl_i64Len pFl \<and> i64End = i64Start then Inl (- LINUX_EINVAL)
                  else Inr (i64Start, i64End, u32Pid))))"

text \<open>
  One round of the loop of \<^verbatim>\<open>file_lock_set\<close> under the table lock: the request is finished with a
  result (and a flag for waking the waiters), or it has to wait; \<open>nWait\<close> is its waiter entry.
\<close>

datatype set_outcome = Done int bool | Wait "nat option"

definition set_round ::
  "int \<Rightarrow> int \<Rightarrow> int \<Rightarrow> int \<Rightarrow> u32 \<Rightarrow> bool \<Rightarrow> nat option \<Rightarrow> flock_state \<Rightarrow> set_outcome \<times> flock_state" where
  "set_round i64Fd i16Type i64Start i64End u32Pid fBlock nWait s =
     (case conflict i64Fd i16Type i64Start i64End u32Pid s of
        Some pHit \<Rightarrow>
          (let u32Blocker = fs_u32Pid pHit
           in if \<not> fBlock then (Done (- LINUX_EAGAIN) False, waiter_unregister nWait s)
              else if soft_deadlock u32Pid u32Blocker s
                then (Done (- GJ_FLOCK_EDEADLK) False, waiter_unregister nWait s)
              else
                (case nWait of
                   None \<Rightarrow>
                     (case waiter_register i64Fd i16Type i64Start i64End u32Pid u32Blocker s of
                        (n, s) \<Rightarrow> (Wait n, s))
                 | Some _ \<Rightarrow> (Wait nWait, waiter_update_blocker nWait u32Blocker s)))
      | None \<Rightarrow>
          (case carve_pid_range i64Fd u32Pid i64Start i64End s of
             (i64St, s) \<Rightarrow>
               if i64St \<noteq> 0 then (Done i64St False, waiter_unregister nWait s)
               else
                 (case slot_alloc s of
                    (None, s) \<Rightarrow> (Done (- LINUX_ENOLCK) False, waiter_unregister nWait s)
                  | (Some n, s) \<Rightarrow>
                      (let s = slot_fill n i64Fd i16Type i64Start i64End u32Pid s;
                           s = coalesce_pid i64Fd u32Pid s;
                           s = waiter_unregister nWait s;
                           s = wake_gen_bump s
                       in (Done 0 True, s)))))"

text \<open>
  \<^verbatim>\<open>file_lock_set\<close>.  While the request waits other threads run: \<open>env k\<close> is what they do to the
  table during the \<open>k\<close>-th wait.  \<open>None\<close>: still waiting after \<open>n\<close> rounds.
\<close>

fun set_loop ::
  "nat \<Rightarrow> (nat \<Rightarrow> flock_state \<Rightarrow> flock_state) \<Rightarrow> int \<Rightarrow> int \<Rightarrow> int \<Rightarrow> int \<Rightarrow> u32 \<Rightarrow> bool \<Rightarrow> nat option
     \<Rightarrow> flock_state \<Rightarrow> (int \<times> bool \<times> flock_state) option" where
  "set_loop 0 env i64Fd i16Type i64Start i64End u32Pid fBlock nWait s = None"
| "set_loop (Suc n) env i64Fd i16Type i64Start i64End u32Pid fBlock nWait s =
     (case set_round i64Fd i16Type i64Start i64End u32Pid fBlock nWait s of
        (Done r w, s) \<Rightarrow> Some (r, w, s)
      | (Wait nWait, s) \<Rightarrow>
          set_loop n env i64Fd i16Type i64Start i64End u32Pid fBlock nWait (env n s))"

definition file_lock_set ::
  "nat \<Rightarrow> (nat \<Rightarrow> flock_state \<Rightarrow> flock_state) \<Rightarrow> int \<Rightarrow> gj_flock \<Rightarrow> bool \<Rightarrow> flock_state
     \<Rightarrow> (int \<times> bool \<times> flock_state) option" where
  "file_lock_set n env i64Fd pFl fBlock s =
     (case flock_validate i64Fd pFl of
        Inl e \<Rightarrow> Some (e, False, s)
      | Inr (i64Start, i64End, u32Pid) \<Rightarrow>
          if fl_i16Type pFl = GJ_F_UNLCK then
            (case carve_pid_range i64Fd u32Pid i64Start i64End s of
               (i64St, s) \<Rightarrow>
                 if i64St = 0 then Some (0, True, wake_gen_bump s) else Some (i64St, False, s))
          else if fl_i16Type pFl \<noteq> GJ_F_RDLCK \<and> fl_i16Type pFl \<noteq> GJ_F_WRLCK
            then Some (- LINUX_EINVAL, False, s)
          else set_loop n env i64Fd (fl_i16Type pFl) i64Start i64End u32Pid fBlock None s)"

definition file_lock_get :: "int \<Rightarrow> gj_flock \<Rightarrow> flock_state \<Rightarrow> int \<times> gj_flock" where
  "file_lock_get i64Fd pFlInOut s =
     (case flock_validate i64Fd pFlInOut of
        Inl e \<Rightarrow> (e, pFlInOut)
      | Inr (i64Start, i64End, u32Pid) \<Rightarrow>
          (let i16Probe = (if fl_i16Type pFlInOut = GJ_F_UNLCK then GJ_F_WRLCK else fl_i16Type pFlInOut)
           in if i16Probe \<noteq> GJ_F_RDLCK \<and> i16Probe \<noteq> GJ_F_WRLCK then (- LINUX_EINVAL, pFlInOut)
              else
                (case conflict i64Fd i16Probe i64Start i64End u32Pid s of
                   Some pHit \<Rightarrow>
                     (0, pFlInOut\<lparr>fl_i16Type := fs_i16Type pHit, fl_i16Whence := GJ_SEEK_SET,
                          fl_i64Start := fs_i64Start pHit,
                          fl_i64Len := (if fs_i64End pHit < 0 then 0 else fs_i64End pHit - fs_i64Start pHit),
                          fl_u32Pid := fs_u32Pid pHit\<rparr>)
                 | None \<Rightarrow> (0, pFlInOut\<lparr>fl_i16Type := GJ_F_UNLCK, fl_i16Whence := GJ_SEEK_SET\<rparr>))))"

definition file_lock_count :: "flock_state \<Rightarrow> u32" where
  "file_lock_count s = g_u32NLocks s"

definition file_lock_waiters :: "flock_state \<Rightarrow> u32" where
  "file_lock_waiters s = g_u32NWaiters s"

definition file_lock_wake_gen :: "flock_state \<Rightarrow> u32" where
  "file_lock_wake_gen s = g_u32WakeGen s"

text \<open>The clearing loop of both release operations.\<close>

fun release_slots :: "(flock_slot \<Rightarrow> bool) \<Rightarrow> nat list \<Rightarrow> u32 \<Rightarrow> flock_state \<Rightarrow> u32 \<times> flock_state" where
  "release_slots P [] u32Cleared s = (u32Cleared, s)"
| "release_slots P (i # is) u32Cleared s =
     (if fs_u8Used (g_aLk s ! i) \<and> P (g_aLk s ! i)
      then release_slots P is (u32Cleared + 1) (slot_free i s)
      else release_slots P is u32Cleared s)"

text \<open>The number cleared, whether the waiters are woken, the new state.\<close>

definition file_lock_release_fd :: "int \<Rightarrow> flock_state \<Rightarrow> u32 \<times> bool \<times> flock_state" where
  "file_lock_release_fd i64Fd s =
     (if i64Fd < 0 then (0, False, s)
      else
        (case release_slots (\<lambda>sl. fs_i64Fd sl = i64Fd) [0..<GJ_FLOCK_MAX] 0 s of
           (u32Cleared, s) \<Rightarrow>
             (let u32WaitObs = length (filter (\<lambda>w. fw_u8Used w \<and> fw_i64Fd w = i64Fd) (g_aWait s))
              in if 0 < u32Cleared then (u32Cleared, True, wake_gen_bump s)
                 else if 0 < u32WaitObs then (u32Cleared, True, wake_gen_bump s)
                 else (u32Cleared, False, s))))"

fun drop_waiters :: "u32 \<Rightarrow> nat list \<Rightarrow> nat \<Rightarrow> flock_state \<Rightarrow> nat \<times> flock_state" where
  "drop_waiters u32Pid [] u32WaitDrop s = (u32WaitDrop, s)"
| "drop_waiters u32Pid (i # is) u32WaitDrop s =
     (if fw_u8Used (g_aWait s ! i) \<and> fw_u32Pid (g_aWait s ! i) = u32Pid
      then drop_waiters u32Pid is (u32WaitDrop + 1) (waiter_unregister (Some i) s)
      else drop_waiters u32Pid is u32WaitDrop s)"

definition file_lock_release_pid :: "u32 \<Rightarrow> flock_state \<Rightarrow> u32 \<times> bool \<times> flock_state" where
  "file_lock_release_pid u32Pid s =
     (if u32Pid = 0 then (0, False, s)
      else
        (case release_slots (\<lambda>sl. fs_u32Pid sl = u32Pid) [0..<GJ_FLOCK_MAX] 0 s of
           (u32Cleared, s) \<Rightarrow>
             (case drop_waiters u32Pid [0..<GJ_FLOCK_MAX_WAITERS] 0 s of
                (u32WaitDrop, s) \<Rightarrow>
                  if 0 < u32Cleared \<or> 0 < u32WaitDrop then (u32Cleared, True, wake_gen_bump s)
                  else (u32Cleared, False, s))))"

end
