(* ===== verification/File_Lock_Lemmas.thy ===== *)
theory File_Lock_Lemmas
  imports File_Lock
begin

text \<open>
  The library behind the record-lock properties, in terms of the bytes each process holds: what
  carving, allocating, filling and coalescing slots do to \<open>holds\<close>, when a request is blocked, the
  outcomes of one round of \<^verbatim>\<open>file_lock_set\<close>, the two release operations and the deadlock probe.
\<close>

section \<open>Bytes held\<close>

definition in_range :: "int \<Rightarrow> int \<Rightarrow> int \<Rightarrow> bool" where
  "in_range a b x \<longleftrightarrow> a \<le> x \<and> x < range_norm_end b"

definition slot_holds :: "flock_slot \<Rightarrow> int \<Rightarrow> u32 \<Rightarrow> int \<Rightarrow> int \<Rightarrow> bool" where
  "slot_holds sl fd pid ty x \<longleftrightarrow> fs_u8Used sl \<and> fs_i64Fd sl = fd \<and> fs_u32Pid sl = pid \<and> fs_i16Type sl = ty
     \<and> in_range (fs_i64Start sl) (fs_i64End sl) x"

text \<open>Process \<open>pid\<close> holds byte \<open>x\<close> of descriptor \<open>fd\<close> with type \<open>ty\<close>.\<close>

definition holds :: "flock_state \<Rightarrow> int \<Rightarrow> u32 \<Rightarrow> int \<Rightarrow> int \<Rightarrow> bool" where
  "holds s fd pid ty x \<longleftrightarrow> (\<exists>sl \<in> set (g_aLk s). slot_holds sl fd pid ty x)"

definition wf_range :: "int \<Rightarrow> int \<Rightarrow> bool" where
  "wf_range a b \<longleftrightarrow> 0 \<le> a \<and> a \<le> I64_MAX \<and> (b = GJ_FLOCK_EOF \<or> a < b \<and> b \<le> I64_MAX)"

definition wf_lk :: "flock_slot \<Rightarrow> bool" where
  "wf_lk sl \<longleftrightarrow> fs_u8Used sl \<longrightarrow> wf_range (fs_i64Start sl) (fs_i64End sl)"

text \<open>The table invariant.\<close>

definition lk_ok :: "flock_state \<Rightarrow> bool" where
  "lk_ok s \<longleftrightarrow> length (g_aLk s) = GJ_FLOCK_MAX \<and> (\<forall>sl \<in> set (g_aLk s). wf_lk sl)
     \<and> unat (g_u32NLocks s) = length (filter fs_u8Used (g_aLk s))"

text \<open>No byte is held by two processes unless both only read it; a process holds a byte with one
  type.\<close>

definition exclusive :: "flock_state \<Rightarrow> bool" where
  "exclusive s \<longleftrightarrow>
     (\<forall>fd p q ty ty' x. holds s fd p ty x \<longrightarrow> holds s fd q ty' x \<longrightarrow> p \<noteq> q \<longrightarrow>
        ty = GJ_F_RDLCK \<and> ty' = GJ_F_RDLCK)
     \<and> (\<forall>fd p ty ty' x. holds s fd p ty x \<longrightarrow> holds s fd p ty' x \<longrightarrow> ty = ty')"

section \<open>Ranges\<close>

lemma wf_range_norm:
  "wf_range a b \<Longrightarrow> 0 \<le> a \<and> range_norm_end b \<le> I64_MAX \<and> (a < range_norm_end b \<or> a = I64_MAX)"
  by (auto simp: wf_range_def range_norm_end_def)

lemma ranges_overlap_iff:
  assumes "wf_range a b" and "wf_range c d"
  shows "ranges_overlap a b c d \<longleftrightarrow> (\<exists>x. in_range a b x \<and> in_range c d x)"
proof
  assume "ranges_overlap a b c d"
  then show "\<exists>x. in_range a b x \<and> in_range c d x"
    using wf_range_norm [OF assms(1)] wf_range_norm [OF assms(2)]
    by (intro exI [of _ "max a c"]) (auto simp: ranges_overlap_def in_range_def)
qed (auto simp: ranges_overlap_def in_range_def)

lemma validate_Inr:
  assumes "flock_validate fd fl = Inr (a, b, pid)"
  shows "0 \<le> fd \<and> 0 \<le> fl_i64Len fl \<and> a = max 0 (fl_i64Start fl) \<and> pid = (if fl_u32Pid fl \<noteq> 0 then fl_u32Pid fl else 1)
    \<and> (if fl_i64Len fl = 0 then b = GJ_FLOCK_EOF else b = a + fl_i64Len fl \<and> b \<le> I64_MAX)"
  using assms
  by (simp add: flock_validate_def Let_def range_overflow_def range_end_def max_def split: if_split_asm)

lemma validate_wf:
  assumes "flock_validate fd fl = Inr (a, b, pid)" and "fl_i64Start fl \<le> I64_MAX"
  shows "wf_range a b"
  using validate_Inr [OF assms(1)] assms(2) unfolding wf_range_def by (auto split: if_split_asm)

lemma validate_pid:
  assumes "flock_validate fd fl = Inr (a, b, pid)"
  shows "pid \<noteq> 0"
  using validate_Inr [OF assms] by (simp split: if_split_asm)

section \<open>Slots\<close>

lemma holds_nth:
  "holds s fd p ty x \<longleftrightarrow> (\<exists>j < length (g_aLk s). slot_holds (g_aLk s ! j) fd p ty x)"
  unfolding holds_def by (metis in_set_conv_nth)

lemma holds_update:
  assumes "i < length (g_aLk s)" and "g_aLk t = (g_aLk s)[i := v]"
  shows "holds t fd p ty x \<longleftrightarrow> slot_holds v fd p ty x
    \<or> (\<exists>j < length (g_aLk s). j \<noteq> i \<and> slot_holds (g_aLk s ! j) fd p ty x)"
  using assms by (auto simp: holds_nth nth_list_update)

lemma holds_split:
  "i < length (g_aLk s) \<Longrightarrow> holds s fd p ty x \<longleftrightarrow> slot_holds (g_aLk s ! i) fd p ty x
    \<or> (\<exists>j < length (g_aLk s). j \<noteq> i \<and> slot_holds (g_aLk s ! j) fd p ty x)"
  by (auto simp: holds_nth)

lemma lk_ok_update:
  assumes "lk_ok s" and "i < GJ_FLOCK_MAX" and "g_aLk t = (g_aLk s)[i := v]" and "wf_lk v"
    and "unat (g_u32NLocks t) + of_bool (fs_u8Used (g_aLk s ! i)) = unat (g_u32NLocks s) + of_bool (fs_u8Used v)"
  shows "lk_ok t"
proof -
  have len: "length (g_aLk s) = GJ_FLOCK_MAX" using assms(1) by (simp add: lk_ok_def)
  have "length (filter fs_u8Used ((g_aLk s)[i := v])) + of_bool (fs_u8Used (g_aLk s ! i)) =
      length (filter fs_u8Used (g_aLk s)) + of_bool (fs_u8Used v)"
    by (rule length_filter_update) (simp add: len assms(2))
  moreover have "set ((g_aLk s)[i := v]) \<subseteq> insert v (set (g_aLk s))" by (rule set_update_subset_insert)
  ultimately show ?thesis using assms unfolding lk_ok_def by (auto simp: len)
qed

lemma lk_okD:
  assumes "lk_ok s"
  shows "length (g_aLk s) = GJ_FLOCK_MAX" and "i < GJ_FLOCK_MAX \<Longrightarrow> wf_lk (g_aLk s ! i)"
  using assms by (auto simp: lk_ok_def)

lemma used_count:
  assumes "lk_ok s" and "i < GJ_FLOCK_MAX"
  shows "fs_u8Used (g_aLk s ! i) \<Longrightarrow> 0 < g_u32NLocks s"
    and "\<not> fs_u8Used (g_aLk s ! i) \<Longrightarrow> unat (g_u32NLocks s + 1) = unat (g_u32NLocks s) + 1"
proof -
  let ?n = "length (filter fs_u8Used (g_aLk s))"
  have len: "length (g_aLk s) = GJ_FLOCK_MAX" and n: "unat (g_u32NLocks s) = ?n"
    using assms(1) by (simp_all add: lk_ok_def)
  have mem: "g_aLk s ! i \<in> set (g_aLk s)" using len assms(2) by simp
  show "0 < g_u32NLocks s" if "fs_u8Used (g_aLk s ! i)"
  proof -
    have "filter fs_u8Used (g_aLk s) \<noteq> []" using mem that by (auto simp: filter_empty_conv)
    then show ?thesis using n by (simp add: word_less_nat_alt)
  qed
  have "?n \<le> GJ_FLOCK_MAX" using length_filter_le [of fs_u8Used "g_aLk s"] len by simp
  then show "unat (g_u32NLocks s + 1) = unat (g_u32NLocks s) + 1"
    using n by (simp add: unat_word_ariths)
qed

lemma slot_free_spec:
  assumes "lk_ok s" and "i < GJ_FLOCK_MAX" and "fs_u8Used (g_aLk s ! i)"
  shows "lk_ok (slot_free i s)"
    and "holds (slot_free i s) fd p ty x \<longleftrightarrow>
      (\<exists>j < GJ_FLOCK_MAX. j \<noteq> i \<and> slot_holds (g_aLk s ! j) fd p ty x)"
proof -
  have g: "g_aLk (slot_free i s) = (g_aLk s)[i := (g_aLk s ! i)\<lparr>fs_u8Used := False\<rparr>]"
    and n: "unat (g_u32NLocks (slot_free i s)) + 1 = unat (g_u32NLocks s)"
    using assms(3) used_count(1) [OF assms]
    by (simp_all add: slot_free_def unat_dec word_less_nat_alt)
  show "lk_ok (slot_free i s)"
    by (rule lk_ok_update [OF assms(1,2) g]) (use n assms(3) in \<open>simp_all add: wf_lk_def\<close>)
  show "holds (slot_free i s) fd p ty x \<longleftrightarrow>
      (\<exists>j < GJ_FLOCK_MAX. j \<noteq> i \<and> slot_holds (g_aLk s ! j) fd p ty x)"
    using holds_update [OF _ g, of fd p ty x] assms(2) lk_okD(1) [OF assms(1)] by (simp add: slot_holds_def)
qed

lemma upd_lk_spec:
  assumes "lk_ok s" and "i < GJ_FLOCK_MAX" and "fs_u8Used (f (g_aLk s ! i)) = fs_u8Used (g_aLk s ! i)"
    and "wf_lk (f (g_aLk s ! i))"
  shows "lk_ok (upd_lk i f s)"
    and "holds (upd_lk i f s) fd p ty x \<longleftrightarrow> slot_holds (f (g_aLk s ! i)) fd p ty x
      \<or> (\<exists>j < GJ_FLOCK_MAX. j \<noteq> i \<and> slot_holds (g_aLk s ! j) fd p ty x)"
proof -
  have g: "g_aLk (upd_lk i f s) = (g_aLk s)[i := f (g_aLk s ! i)]" by (simp add: upd_lk_def)
  show "lk_ok (upd_lk i f s)"
    by (rule lk_ok_update [OF assms(1,2) g assms(4)]) (simp add: upd_lk_def assms(3))
  show "holds (upd_lk i f s) fd p ty x \<longleftrightarrow> slot_holds (f (g_aLk s ! i)) fd p ty x
      \<or> (\<exists>j < GJ_FLOCK_MAX. j \<noteq> i \<and> slot_holds (g_aLk s ! j) fd p ty x)"
    using holds_update [OF _ g, of fd p ty x] assms(2) lk_okD(1) [OF assms(1)] by simp
qed

lemma slot_alloc_cases:
  assumes "slot_alloc s = (r, t)" and "lk_ok s"
  obtains (Full) "r = None" "t = s" "\<forall>i < GJ_FLOCK_MAX. fs_u8Used (g_aLk s ! i)"
    | (Got) i where "r = Some i" "i < GJ_FLOCK_MAX" "\<not> fs_u8Used (g_aLk s ! i)"
        "\<And>fd ty a b p. slot_fill i fd ty a b p t = s\<lparr>g_aLk := (g_aLk s)[i := \<lparr>fs_u8Used = True, fs_i64Fd = fd,
           fs_i16Type = ty, fs_i64Start = a, fs_i64End = b, fs_u32Pid = p\<rparr>], g_u32NLocks := g_u32NLocks s + 1\<rparr>"
proof (cases "find (\<lambda>i. \<not> fs_u8Used (g_aLk s ! i)) [0..<GJ_FLOCK_MAX]")
  case None
  with assms show ?thesis by (intro Full) (auto simp: slot_alloc_def find_None_iff)
next
  case (Some i)
  then have "i < GJ_FLOCK_MAX" "\<not> fs_u8Used (g_aLk s ! i)"
    unfolding find_Some_iff by auto
  with assms Some show ?thesis by (intro Got [of i]) (auto simp: slot_alloc_def slot_fill_def)
qed

lemma fill_spec:
  assumes "lk_ok s" and "i < GJ_FLOCK_MAX" and "\<not> fs_u8Used (g_aLk s ! i)" and "fs_u8Used v" "wf_lk v"
    and t: "t = s\<lparr>g_aLk := (g_aLk s)[i := v], g_u32NLocks := g_u32NLocks s + 1\<rparr>"
  shows "lk_ok t" and "holds t fd p ty x \<longleftrightarrow> slot_holds v fd p ty x \<or> holds s fd p ty x"
proof -
  have g: "g_aLk t = (g_aLk s)[i := v]" by (simp add: t)
  show "lk_ok t"
    by (rule lk_ok_update [OF assms(1,2) g assms(5)])
      (use assms(3,4) used_count(2) [OF assms(1-3)] in \<open>simp add: t\<close>)
  have "\<not> slot_holds (g_aLk s ! i) fd p ty x" using assms(3) by (simp add: slot_holds_def)
  with holds_update [OF _ g, of fd p ty x] holds_split [of i s fd p ty x] assms(2) lk_okD(1) [OF assms(1)]
  show "holds t fd p ty x \<longleftrightarrow> slot_holds v fd p ty x \<or> holds s fd p ty x" by simp
qed

section \<open>Carving\<close>

text \<open>What a carve does to the table: others keep everything, the owner keeps everything outside
  the range and gains nothing.\<close>

definition carve_rel :: "int \<Rightarrow> u32 \<Rightarrow> int \<Rightarrow> int \<Rightarrow> flock_state \<Rightarrow> flock_state \<Rightarrow> bool" where
  "carve_rel fd p a b s t \<longleftrightarrow>
     (\<forall>fd' p' ty x. (fd' \<noteq> fd \<or> p' \<noteq> p \<or> \<not> in_range a b x) \<longrightarrow> holds t fd' p' ty x = holds s fd' p' ty x)
     \<and> (\<forall>fd' p' ty x. holds t fd' p' ty x \<longrightarrow> holds s fd' p' ty x)"

lemma carve_rel_refl [simp]: "carve_rel fd p a b s s"
  by (simp add: carve_rel_def)

lemma carve_rel_trans: "carve_rel fd p a b s t \<Longrightarrow> carve_rel fd p a b t u \<Longrightarrow> carve_rel fd p a b s u"
  unfolding carve_rel_def by metis

text \<open>Slot \<open>i\<close> does not touch the range.\<close>

definition clear_of :: "int \<Rightarrow> u32 \<Rightarrow> int \<Rightarrow> int \<Rightarrow> flock_slot \<Rightarrow> bool" where
  "clear_of fd p a b sl \<longleftrightarrow> (\<forall>ty x. in_range a b x \<longrightarrow> \<not> slot_holds sl fd p ty x)"

lemma carve_relI:
  assumes i: "i < GJ_FLOCK_MAX" and len: "length (g_aLk s) = GJ_FLOCK_MAX" and own: "fs_i64Fd (g_aLk s ! i) = fd" "fs_u32Pid (g_aLk s ! i) = p"
    and t: "\<And>fd' p' ty x. holds t fd' p' ty x \<longleftrightarrow>
      (slot_holds (g_aLk s ! i) fd' p' ty x \<and> \<not> in_range a b x)
      \<or> (\<exists>j < GJ_FLOCK_MAX. j \<noteq> i \<and> slot_holds (g_aLk s ! j) fd' p' ty x)"
  shows "carve_rel fd p a b s t"
proof -
  have "holds s fd' p' ty x \<longleftrightarrow> slot_holds (g_aLk s ! i) fd' p' ty x
      \<or> (\<exists>j < GJ_FLOCK_MAX. j \<noteq> i \<and> slot_holds (g_aLk s ! j) fd' p' ty x)" for fd' p' ty x
    using holds_split [of i s] i len by simp
  moreover have "fd' = fd \<and> p' = p" if "slot_holds (g_aLk s ! i) fd' p' ty x" for fd' p' ty x
    using that own by (simp add: slot_holds_def)
  ultimately show ?thesis unfolding carve_rel_def t by blast
qed

text \<open>The waiter table and the wake generation are untouched.\<close>

definition same_wait :: "flock_state \<Rightarrow> flock_state \<Rightarrow> bool" where
  "same_wait s t \<longleftrightarrow> g_aWait t = g_aWait s \<and> g_u32NWaiters t = g_u32NWaiters s \<and> g_u32WakeGen t = g_u32WakeGen s"

lemma same_wait_simps [simp]:
  "same_wait s s" "same_wait s (slot_free i s)" "same_wait s (upd_lk i f s)"
  "same_wait s (s\<lparr>g_aLk := lk, g_u32NLocks := n\<rparr>)" "same_wait s (s\<lparr>g_aLk := lk\<rparr>)"
  by (simp_all add: same_wait_def slot_free_def upd_lk_def)

lemma same_wait_trans: "same_wait s t \<Longrightarrow> same_wait t u \<Longrightarrow> same_wait s u"
  by (simp add: same_wait_def)

text \<open>The outcome of one round, for slot \<open>i\<close>.\<close>

definition carved :: "int \<Rightarrow> u32 \<Rightarrow> int \<Rightarrow> int \<Rightarrow> nat \<Rightarrow> flock_state \<Rightarrow> flock_state \<Rightarrow> bool" where
  "carved fd p a b i s t \<longleftrightarrow> lk_ok t \<and> carve_rel fd p a b s t \<and> same_wait s t
     \<and> clear_of fd p a b (g_aLk t ! i)
     \<and> (\<forall>j < GJ_FLOCK_MAX. clear_of fd p a b (g_aLk s ! j) \<longrightarrow> clear_of fd p a b (g_aLk t ! j))"

lemma carved_free:
  assumes ok: "lk_ok s" and i: "i < GJ_FLOCK_MAX"
    and own: "fs_u8Used (g_aLk s ! i)" "fs_i64Fd (g_aLk s ! i) = fd" "fs_u32Pid (g_aLk s ! i) = p"
    and sub: "\<And>x. in_range (fs_i64Start (g_aLk s ! i)) (fs_i64End (g_aLk s ! i)) x \<Longrightarrow> in_range a b x"
  shows "carved fd p a b i s (slot_free i s)"
proof -
  have len: "length (g_aLk s) = GJ_FLOCK_MAX" using ok by (rule lk_okD)
  note f = slot_free_spec [OF ok i own(1)]
  have "carve_rel fd p a b s (slot_free i s)"
    by (rule carve_relI [OF i len own(2,3)]) (use sub in \<open>auto simp: f(2) slot_holds_def\<close>)
  moreover have "g_aLk (slot_free i s) = (g_aLk s)[i := (g_aLk s ! i)\<lparr>fs_u8Used := False\<rparr>]"
    using own(1) by (simp_all add: slot_free_def)
  ultimately show ?thesis
    using f(1) i len by (auto simp: carved_def clear_of_def slot_holds_def nth_list_update)
qed

lemma carved_upd:
  assumes ok: "lk_ok s" and i: "i < GJ_FLOCK_MAX"
    and own: "fs_u8Used (g_aLk s ! i)" "fs_i64Fd (g_aLk s ! i) = fd" "fs_u32Pid (g_aLk s ! i) = p"
    and f: "f (g_aLk s ! i) = (g_aLk s ! i)\<lparr>fs_i64Start := c, fs_i64End := d\<rparr>" and wf: "wf_range c d"
    and sub: "\<And>x. in_range c d x \<longleftrightarrow>
      in_range (fs_i64Start (g_aLk s ! i)) (fs_i64End (g_aLk s ! i)) x \<and> \<not> in_range a b x"
  shows "carved fd p a b i s (upd_lk i f s)"
proof -
  have len: "length (g_aLk s) = GJ_FLOCK_MAX" using ok by (rule lk_okD)
  have u: "lk_ok (upd_lk i f s)"
    "\<And>fd' p' ty x. holds (upd_lk i f s) fd' p' ty x \<longleftrightarrow> slot_holds (f (g_aLk s ! i)) fd' p' ty x
      \<or> (\<exists>j < GJ_FLOCK_MAX. j \<noteq> i \<and> slot_holds (g_aLk s ! j) fd' p' ty x)"
    by (rule upd_lk_spec [OF ok i]; simp add: f own wf wf_lk_def)+
  have "carve_rel fd p a b s (upd_lk i f s)"
    by (rule carve_relI [OF i len own(2,3)]) (auto simp: u(2) f slot_holds_def sub)
  with u(1) i len show ?thesis
    by (auto simp: carved_def upd_lk_def clear_of_def nth_list_update f slot_holds_def sub)
qed

lemma carved_split:
  assumes ok: "lk_ok s" and i: "i < GJ_FLOCK_MAX"
    and own: "fs_u8Used (g_aLk s ! i)" "fs_i64Fd (g_aLk s ! i) = fd" "fs_u32Pid (g_aLk s ! i) = p"
    and f: "f (g_aLk s ! i) = (g_aLk s ! i)\<lparr>fs_i64End := d\<rparr>" and wf: "wf_range (fs_i64Start (g_aLk s ! i)) d"
    and v: "v = (g_aLk s ! i)\<lparr>fs_i64Start := c', fs_i64End := d'\<rparr>" and wf': "wf_range c' d'"
    and sub: "\<And>x. in_range (fs_i64Start (g_aLk s ! i)) d x \<or> in_range c' d' x \<longleftrightarrow>
      in_range (fs_i64Start (g_aLk s ! i)) (fs_i64End (g_aLk s ! i)) x \<and> \<not> in_range a b x"
    and r: "r < GJ_FLOCK_MAX" "\<not> fs_u8Used (g_aLk (upd_lk i f s) ! r)"
    and t: "t = (upd_lk i f s)\<lparr>g_aLk := (g_aLk (upd_lk i f s))[r := v], g_u32NLocks := g_u32NLocks (upd_lk i f s) + 1\<rparr>"
  shows "carved fd p a b i s t"
proof -
  have len: "length (g_aLk s) = GJ_FLOCK_MAX" using ok by (rule lk_okD)
  have u: "lk_ok (upd_lk i f s)"
    "\<And>fd' p' ty x. holds (upd_lk i f s) fd' p' ty x \<longleftrightarrow> slot_holds (f (g_aLk s ! i)) fd' p' ty x
      \<or> (\<exists>j < GJ_FLOCK_MAX. j \<noteq> i \<and> slot_holds (g_aLk s ! j) fd' p' ty x)"
    by (rule upd_lk_spec [OF ok i]; simp add: f own wf wf_lk_def)+
  have w: "lk_ok t" "\<And>fd' p' ty x. holds t fd' p' ty x \<longleftrightarrow> slot_holds v fd' p' ty x \<or> holds (upd_lk i f s) fd' p' ty x"
    by (rule fill_spec [OF u(1) r _ _ t]; simp add: v own wf' wf_lk_def)+
  have rel: "carve_rel fd p a b s t"
  proof (rule carve_relI [OF i len own(2,3)])
    fix fd' p' ty x
    show "holds t fd' p' ty x \<longleftrightarrow> (slot_holds (g_aLk s ! i) fd' p' ty x \<and> \<not> in_range a b x)
      \<or> (\<exists>j < GJ_FLOCK_MAX. j \<noteq> i \<and> slot_holds (g_aLk s ! j) fd' p' ty x)"
      using sub [of x] unfolding w(2) u(2) f v by (auto simp: slot_holds_def)
  qed
  have "r \<noteq> i" using r(2) i len own(1) f by (auto simp: upd_lk_def)
  then have nth: "g_aLk t ! j = (if j = r then v else if j = i then f (g_aLk s ! i) else g_aLk s ! j)" if "j < GJ_FLOCK_MAX" for j
    using that i len r(1) by (simp add: t upd_lk_def nth_list_update)
  have "clear_of fd p a b v" "clear_of fd p a b (f (g_aLk s ! i))"
    using sub by (auto simp: clear_of_def slot_holds_def v f)
  with rel w(1) i nth show ?thesis by (simp add: carved_def t upd_lk_def same_wait_def)
qed

lemma carve_slot_spec:
  assumes ok: "lk_ok s" and wf: "wf_range a b" and i: "i < GJ_FLOCK_MAX"
    and c: "carve_slot fd p a b i s = (r, t)"
  shows "if r then carved fd p a b i s t else t = s \<and> slot_free_count (g_aLk s) = 0"
proof -
  let ?S = "g_aLk s ! i"
  have wfS: "wf_lk ?S" using lk_okD(2) [OF ok i] .
  show ?thesis
  proof (cases "fs_u8Used ?S \<and> fs_i64Fd ?S = fd \<and> fs_u32Pid ?S = p
      \<and> ranges_overlap a b (fs_i64Start ?S) (fs_i64End ?S)")
    case False
    then have "r" "t = s" using c by (auto simp: carve_slot_def Let_def split: if_splits)
    moreover have "clear_of fd p a b ?S"
      using False wfS ranges_overlap_iff [OF wf] by (auto simp: clear_of_def slot_holds_def wf_lk_def)
    ultimately show ?thesis using ok by (simp add: carved_def)
  next
    case True
    then have own: "fs_u8Used ?S" "fs_i64Fd ?S = fd" "fs_u32Pid ?S = p"
      and ov: "ranges_overlap a b (fs_i64Start ?S) (fs_i64End ?S)" by simp_all
    have wfr: "wf_range (fs_i64Start ?S) (fs_i64End ?S)" using wfS own by (simp add: wf_lk_def)
    let ?L = "fs_i64Start ?S < a" and ?R = "range_norm_end b < range_norm_end (fs_i64End ?S)"
    note ar = in_range_def wf_range_def range_norm_end_def ranges_overlap_def
    consider "\<not> ?L" "\<not> ?R" | "?L" "\<not> ?R" | "\<not> ?L" "?R" | "?L" "?R" by blast
    then show ?thesis
    proof cases
      case 1
      then have "r" "t = slot_free i s" using c own ov by (simp_all add: carve_slot_def Let_def)
      moreover have "carved fd p a b i s (slot_free i s)"
        by (rule carved_free [OF ok i own]) (use 1 in \<open>simp add: in_range_def\<close>)
      ultimately show ?thesis by simp
    next
      case 2
      then have "r" "t = upd_lk i (\<lambda>p. p\<lparr>fs_i64End := a\<rparr>) s" using c own ov by (simp_all add: carve_slot_def Let_def)
      moreover have "carved fd p a b i s (upd_lk i (\<lambda>p. p\<lparr>fs_i64End := a\<rparr>) s)"
        by (rule carved_upd [OF ok i own, where c = "fs_i64Start ?S" and d = a])
          (use 2 wf wfr ov in \<open>auto simp: ar split: if_splits\<close>)
      ultimately show ?thesis by simp
    next
      case 3
      then have "r" "t = upd_lk i (\<lambda>p. p\<lparr>fs_i64Start := b\<rparr>) s" using c own ov by (simp_all add: carve_slot_def Let_def)
      moreover have "carved fd p a b i s (upd_lk i (\<lambda>p. p\<lparr>fs_i64Start := b\<rparr>) s)"
        by (rule carved_upd [OF ok i own, where c = b and d = "fs_i64End ?S"])
          (use 3 wf wfr ov in \<open>auto simp: ar split: if_splits\<close>)
      ultimately show ?thesis by simp
    next
      case 4
      let ?u = "upd_lk i (\<lambda>p. p\<lparr>fs_i64End := a\<rparr>) s"
      have oku: "lk_ok ?u"
        by (rule upd_lk_spec(1) [OF ok i]) (use 4 wf wfr own in \<open>auto simp: wf_lk_def wf_range_def\<close>)
      obtain q w where al: "slot_alloc ?u = (q, w)" by (cases "slot_alloc ?u")
      show ?thesis
      proof (cases "slot_free_count (g_aLk s) < 1")
        case True
        with c own ov 4 show ?thesis by (auto simp: carve_slot_def Let_def)
      next
        case some: False
        from al oku show ?thesis
        proof (cases rule: slot_alloc_cases)
          case Full
          have "filter (\<lambda>sl. \<not> fs_u8Used sl) (g_aLk s) = []"
          proof (clarsimp simp: filter_empty_conv in_set_conv_nth lk_okD(1) [OF ok])
            fix j :: nat assume "j < 32"
            with Full(3) i show "fs_u8Used (g_aLk s ! j)"
              by (auto simp: upd_lk_def nth_list_update lk_okD(1) [OF ok] split: if_splits dest!: spec [of _ j])
          qed
          with some show ?thesis by (simp add: slot_free_count_def)
        next
          case (Got k)
          then have "r" "t = slot_fill k fd (fs_i16Type ?S) b (fs_i64End ?S) p w"
            using c own ov 4 some al by (simp_all add: carve_slot_def Let_def)
          moreover have "carved fd p a b i s t"
            by (rule carved_split [OF ok i own _ _ _ _ _ Got(2,3), where d = a and c' = b and d' = "fs_i64End ?S"])
              (use 4 wf wfr ov own in \<open>auto simp: ar Got(4) calculation(2) split: if_splits\<close>)
          ultimately show ?thesis by simp
        qed
      qed
    qed
  qed
qed

lemma carve_loop_spec:
  assumes "lk_ok s" and wf: "wf_range a b" and "set is \<subseteq> {..<GJ_FLOCK_MAX}"
    and "carve_loop fd p a b is s = (r, t)"
  shows "lk_ok t \<and> carve_rel fd p a b s t \<and> same_wait s t \<and> (\<not> r \<longrightarrow> slot_free_count (g_aLk t) = 0)
    \<and> (r \<longrightarrow> (\<forall>j < GJ_FLOCK_MAX. j \<in> set is \<or> clear_of fd p a b (g_aLk s ! j) \<longrightarrow> clear_of fd p a b (g_aLk t ! j)))"
  using assms(1,3,4)
proof (induction "is" arbitrary: s)
  case (Cons i "is")
  obtain r' u where c: "carve_slot fd p a b i s = (r', u)" by (cases "carve_slot fd p a b i s")
  have i: "i < GJ_FLOCK_MAX" using Cons.prems(2) by simp
  note cs = carve_slot_spec [OF Cons.prems(1) wf i c]
  show ?case
  proof (cases r')
    case False
    then show ?thesis using cs c Cons.prems(1,3) by auto
  next
    case True
    then have cu: "carved fd p a b i s u" and l: "carve_loop fd p a b is u = (r, t)"
      using cs c Cons.prems(3) by simp_all
    have oku: "lk_ok u" and sub: "set is \<subseteq> {..<GJ_FLOCK_MAX}"
      using cu Cons.prems(2) by (simp_all add: carved_def)
    note ih = Cons.IH [OF oku sub l]
    have "carve_rel fd p a b s t" "same_wait s t"
      using ih cu carve_rel_trans same_wait_trans unfolding carved_def by blast+
    moreover have "clear_of fd p a b (g_aLk t ! j)"
      if "r" "j < GJ_FLOCK_MAX" "j \<in> set (i # is) \<or> clear_of fd p a b (g_aLk s ! j)" for j
    proof -
      have "j \<in> set is \<or> clear_of fd p a b (g_aLk u ! j)" using that(2,3) cu by (auto simp: carved_def)
      then show ?thesis using ih that(1,2) by blast
    qed
    ultimately show ?thesis using ih by blast
  qed
qed simp

lemma carve_pid_range_spec:
  assumes ok: "lk_ok s" and wf: "wf_range a b" and c: "carve_pid_range fd p a b s = (r, t)"
  shows "lk_ok t" and "same_wait s t" and "carve_rel fd p a b s t"
    and "r = 0 \<or> r = - LINUX_ENOLCK \<and> slot_free_count (g_aLk t) = 0"
    and "r = 0 \<Longrightarrow> holds t fd' p' ty x \<longleftrightarrow> holds s fd' p' ty x \<and> \<not> (fd' = fd \<and> p' = p \<and> in_range a b x)"
proof -
  obtain q u where l: "carve_loop fd p a b [0..<GJ_FLOCK_MAX] s = (q, u)"
    by (cases "carve_loop fd p a b [0..<GJ_FLOCK_MAX] s")
  have sub: "set [0..<GJ_FLOCK_MAX] \<subseteq> {..<GJ_FLOCK_MAX}" by auto
  note sp = carve_loop_spec [OF ok wf sub l]
  have tu: "t = u" and rq: "r = (if q then 0 else - LINUX_ENOLCK)"
    using c l by (auto simp: carve_pid_range_def split: bool.splits)
  then show "lk_ok t" and "same_wait s t" and rel: "carve_rel fd p a b s t"
    and "r = 0 \<or> r = - LINUX_ENOLCK \<and> slot_free_count (g_aLk t) = 0"
    using sp by simp_all
  show "holds t fd' p' ty x \<longleftrightarrow> holds s fd' p' ty x \<and> \<not> (fd' = fd \<and> p' = p \<and> in_range a b x)" if "r = 0"
  proof -
    have "clear_of fd p a b (g_aLk t ! j)" if "j < GJ_FLOCK_MAX" for j
      using sp \<open>r = 0\<close> rq tu that by auto
    then have "\<not> holds t fd p ty x" if "in_range a b x" for ty x
      using that lk_okD(1) [of t] sp tu by (auto simp: holds_nth clear_of_def)
    then show ?thesis using rel unfolding carve_rel_def by blast
  qed
qed

section \<open>Coalescing\<close>

lemma merge_range:
  assumes "wf_range (fs_i64Start A) (fs_i64End A)" and "wf_range (fs_i64Start B) (fs_i64End B)"
    and "mergeable fd p A B"
  shows "wf_range (fs_i64Start (merge_into B A)) (fs_i64End (merge_into B A))"
    and "in_range (fs_i64Start (merge_into B A)) (fs_i64End (merge_into B A)) x \<longleftrightarrow>
      in_range (fs_i64Start A) (fs_i64End A) x \<or> in_range (fs_i64Start B) (fs_i64End B) x"
  using assms unfolding wf_range_def mergeable_def merge_into_def in_range_def range_norm_end_def
  by (auto split: if_splits)

text \<open>A step of coalescing: nothing held changes.\<close>

definition coal :: "flock_state \<Rightarrow> flock_state \<Rightarrow> bool" where
  "coal s t \<longleftrightarrow> lk_ok t \<and> (\<forall>fd p ty x. holds t fd p ty x = holds s fd p ty x) \<and> same_wait s t"

lemma coal_trans: "coal s t \<Longrightarrow> coal t u \<Longrightarrow> coal s u"
  unfolding coal_def using same_wait_trans by simp metis

definition owner :: "int \<Rightarrow> u32 \<Rightarrow> flock_slot \<Rightarrow> bool" where
  "owner fd p sl \<longleftrightarrow> fs_u8Used sl \<and> fs_i64Fd sl = fd \<and> fs_u32Pid sl = p"

lemma merge_step:
  assumes ok: "lk_ok s" and ij: "i < GJ_FLOCK_MAX" "j < GJ_FLOCK_MAX" "i \<noteq> j"
    and own: "owner fd p (g_aLk s ! i)" and m: "mergeable fd p (g_aLk s ! i) (g_aLk s ! j)"
    and t: "t = slot_free j (upd_lk i (merge_into (g_aLk s ! j)) s)"
  shows "coal s t" and "owner fd p (g_aLk t ! i)" and "g_u32NLocks t < g_u32NLocks s"
proof -
  let ?A = "g_aLk s ! i" and ?B = "g_aLk s ! j"
  let ?u = "upd_lk i (merge_into ?B) s"
  have len: "length (g_aLk s) = GJ_FLOCK_MAX" using ok by (rule lk_okD)
  have ownB: "owner fd p ?B" and ty: "fs_i16Type ?A = fs_i16Type ?B" using m by (simp_all add: mergeable_def owner_def)
  have wf: "wf_range (fs_i64Start ?A) (fs_i64End ?A)" "wf_range (fs_i64Start ?B) (fs_i64End ?B)"
    using lk_okD(2) [OF ok ij(1)] lk_okD(2) [OF ok ij(2)] own ownB by (simp_all add: wf_lk_def owner_def)
  note mr = merge_range [OF wf m]
  have fields: "fs_u8Used (merge_into ?B ?A) = fs_u8Used ?A" "fs_i64Fd (merge_into ?B ?A) = fs_i64Fd ?A"
    "fs_u32Pid (merge_into ?B ?A) = fs_u32Pid ?A" "fs_i16Type (merge_into ?B ?A) = fs_i16Type ?A"
    by (simp_all add: merge_into_def)
  have oku: "lk_ok ?u"
    by (rule upd_lk_spec(1) [OF ok ij(1)]) (use mr(1) in \<open>simp_all add: fields wf_lk_def\<close>)
  have uj: "g_aLk ?u ! j = ?B" and ui: "g_aLk ?u ! i = merge_into ?B ?A"
    and uo: "\<And>k. k \<noteq> i \<Longrightarrow> g_aLk ?u ! k = g_aLk s ! k"
    using ij len by (simp_all add: upd_lk_def)
  have usedj: "fs_u8Used (g_aLk ?u ! j)" using ownB uj by (simp add: owner_def)
  note f = slot_free_spec [OF oku ij(2) usedj]
  have "holds t fd' p' ty x = holds s fd' p' ty x" for fd' p' ty x
  proof -
    have "slot_holds (merge_into ?B ?A) fd' p' ty x \<longleftrightarrow> slot_holds ?A fd' p' ty x \<or> slot_holds ?B fd' p' ty x"
      using own ownB \<open>fs_i16Type ?A = fs_i16Type ?B\<close> mr(2) [of x] by (auto simp: slot_holds_def fields owner_def)
    moreover have "holds s fd' p' ty x \<longleftrightarrow> (\<exists>k < GJ_FLOCK_MAX. slot_holds (g_aLk s ! k) fd' p' ty x)"
      by (simp add: holds_nth len)
    ultimately show ?thesis unfolding t f(2) using ij ui uo by metis
  qed
  then show "coal s t"
    using f(1) unfolding coal_def t by (simp add: same_wait_trans [of s ?u])
  have "0 < g_u32NLocks ?u" using used_count(1) [OF oku ij(2) usedj] .
  then show "g_u32NLocks t < g_u32NLocks s"
    using usedj by (simp add: t slot_free_def) (simp add: upd_lk_def word_less_nat_alt unat_dec)
  show "owner fd p (g_aLk t ! i)"
    using own usedj ij ui len by (simp add: t slot_free_def owner_def fields)
qed

lemma coalesce_row_spec:
  assumes "lk_ok s" and i: "i < GJ_FLOCK_MAX" and "owner fd p (g_aLk s ! i)"
    and "set bs \<subseteq> {..<GJ_FLOCK_MAX} - {i}" and "coalesce_row fd p i bs f s = (f', t)"
  shows "coal s t \<and> (f \<longrightarrow> f') \<and> g_u32NLocks t \<le> g_u32NLocks s \<and> (f' \<longrightarrow> f \<or> g_u32NLocks t < g_u32NLocks s)
    \<and> (\<not> f' \<longrightarrow> t = s \<and> (\<forall>j \<in> set bs. \<not> mergeable fd p (g_aLk s ! i) (g_aLk s ! j)))"
  using assms(1,3-)
proof (induction bs arbitrary: f s)
  case Nil
  then show ?case by (simp add: coal_def)
next
  case (Cons j bs)
  show ?case
  proof (cases "mergeable fd p (g_aLk s ! i) (g_aLk s ! j)")
    case True
    define u where "u = slot_free j (upd_lk i (merge_into (g_aLk s ! j)) s)"
    have j: "j < GJ_FLOCK_MAX" "i \<noteq> j" using Cons.prems(3) by auto
    note m = merge_step [OF Cons.prems(1) i j Cons.prems(2) True u_def]
    have oku: "lk_ok u" using m(1) by (simp add: coal_def)
    have "coalesce_row fd p i bs True u = (f', t)" using Cons.prems(4) True by (simp add: u_def)
    from Cons.IH [OF oku m(2) _ this] Cons.prems(3)
    have ih: "coal u t" "f'" "g_u32NLocks t \<le> g_u32NLocks u" by auto
    from ih(3) m(3) have "g_u32NLocks t < g_u32NLocks s" by (rule order_le_less_trans)
    then show ?thesis using coal_trans [OF m(1) ih(1)] ih(2) by simp
  next
    case False
    then have "coalesce_row fd p i bs f s = (f', t)" using Cons.prems(4) by simp
    from Cons.IH [OF Cons.prems(1,2) _ this] Cons.prems(3) False show ?thesis by auto
  qed
qed

lemma coalesce_pass_spec:
  assumes "lk_ok s" and "set as \<subseteq> {..<GJ_FLOCK_MAX}" and "coalesce_pass fd p as f s = (f', t)"
  shows "coal s t \<and> (f \<longrightarrow> f') \<and> g_u32NLocks t \<le> g_u32NLocks s \<and> (f' \<longrightarrow> f \<or> g_u32NLocks t < g_u32NLocks s)
    \<and> (\<not> f' \<longrightarrow> t = s \<and> (\<forall>i \<in> set as. owner fd p (g_aLk s ! i) \<longrightarrow>
        (\<forall>j \<in> {i<..<GJ_FLOCK_MAX}. \<not> mergeable fd p (g_aLk s ! i) (g_aLk s ! j))))"
  using assms
proof (induction as arbitrary: f s)
  case Nil
  then show ?case by (simp add: coal_def)
next
  case (Cons i as)
  have i: "i < GJ_FLOCK_MAX" and sub: "set as \<subseteq> {..<GJ_FLOCK_MAX}" using Cons.prems(2) by auto
  show ?case
  proof (cases "owner fd p (g_aLk s ! i)")
    case True
    obtain g u where row: "coalesce_row fd p i [Suc i..<GJ_FLOCK_MAX] f s = (g, u)"
      by (cases "coalesce_row fd p i [Suc i..<GJ_FLOCK_MAX] f s")
    have bs: "set [Suc i..<GJ_FLOCK_MAX] \<subseteq> {..<GJ_FLOCK_MAX} - {i}" by auto
    note rw = coalesce_row_spec [OF Cons.prems(1) i True bs row]
    have l: "coalesce_pass fd p as g u = (f', t)"
      using Cons.prems(3) True row by (simp add: owner_def)
    have oku: "lk_ok u" using rw by (simp add: coal_def)
    note ih = Cons.IH [OF oku sub l]
    have c: "coal s t" using rw ih coal_trans by blast
    have le: "g_u32NLocks t \<le> g_u32NLocks s" using rw ih by (meson order_trans)
    have lt: "f' \<longrightarrow> f \<or> g_u32NLocks t < g_u32NLocks s"
      using rw ih by (meson order_le_less_trans order_less_le_trans)
    have "\<not> f' \<longrightarrow> t = s \<and> (\<forall>j \<in> {i<..<GJ_FLOCK_MAX}. \<not> mergeable fd p (g_aLk s ! i) (g_aLk s ! j))"
      using rw ih by auto
    with c le lt rw ih show ?thesis by auto
  next
    case False
    then have "coalesce_pass fd p as f s = (f', t)" using Cons.prems(3) by (auto simp: owner_def Let_def)
    from Cons.IH [OF Cons.prems(1) sub this] False show ?thesis by auto
  qed
qed

text \<open>No two slots of the owner could still be merged.\<close>

definition fully_merged :: "int \<Rightarrow> u32 \<Rightarrow> flock_state \<Rightarrow> bool" where
  "fully_merged fd p s \<longleftrightarrow> (\<forall>i < GJ_FLOCK_MAX. owner fd p (g_aLk s ! i) \<longrightarrow>
     (\<forall>j \<in> {i<..<GJ_FLOCK_MAX}. \<not> mergeable fd p (g_aLk s ! i) (g_aLk s ! j)))"

lemma coalesce_passes_spec:
  assumes "lk_ok s" and "unat (g_u32NLocks s) \<le> n"
  shows "coal s (coalesce_passes n fd p s) \<and> fully_merged fd p (coalesce_passes n fd p s)"
  using assms
proof (induction n arbitrary: s)
  case 0
  then have "0 = g_u32NLocks s" by (simp add: unat_eq_0)
  then have "\<not> owner fd p (g_aLk s ! i)" if "i < GJ_FLOCK_MAX" for i
    using used_count(1) [OF 0(1) that] by (auto simp: owner_def)
  with 0 show ?case by (simp add: coal_def fully_merged_def)
next
  case (Suc n)
  obtain f t where ps: "coalesce_pass fd p [0..<GJ_FLOCK_MAX] False s = (f, t)"
    by (cases "coalesce_pass fd p [0..<GJ_FLOCK_MAX] False s")
  have sub: "set [0..<GJ_FLOCK_MAX] \<subseteq> {..<GJ_FLOCK_MAX}" by auto
  note sp = coalesce_pass_spec [OF Suc.prems(1) sub ps]
  show ?case
  proof (cases f)
    case True
    with sp have lt: "unat (g_u32NLocks t) < unat (g_u32NLocks s)" and c: "coal s t"
      by (simp_all add: word_less_nat_alt)
    then have "lk_ok t" "unat (g_u32NLocks t) \<le> n" using Suc.prems(2) by (simp_all add: coal_def)
    from Suc.IH [OF this] c have "coal s (coalesce_passes n fd p t)" "fully_merged fd p (coalesce_passes n fd p t)"
      using coal_trans by blast+
    with True ps show ?thesis by simp
  next
    case False
    with sp ps show ?thesis by (auto simp: fully_merged_def)
  qed
qed

lemma coalesce_pid_spec:
  assumes "lk_ok s"
  shows "coal s (coalesce_pid fd p s)" and "fully_merged fd p (coalesce_pid fd p s)"
proof -
  have "unat (g_u32NLocks s) \<le> GJ_FLOCK_MAX"
    using assms length_filter_le [of fs_u8Used "g_aLk s"] by (simp add: lk_ok_def)
  from coalesce_passes_spec [OF assms this]
  show "coal s (coalesce_pid fd p s)" and "fully_merged fd p (coalesce_pid fd p s)"
    by (simp_all add: coalesce_pid_def)
qed

text \<open>Merging only frees slots.\<close>

lemma slot_free_fewer: "g_u32NLocks (slot_free i s) \<le> g_u32NLocks s"
  by (simp add: slot_free_def word_gt_0 word_le_nat_alt unat_minus_one)

lemma coalesce_row_fewer: "g_u32NLocks (snd (coalesce_row fd p i js f s)) \<le> g_u32NLocks s"
proof (induction js arbitrary: f s)
  case (Cons j js)
  have "g_u32NLocks (slot_free j (upd_lk i h s)) \<le> g_u32NLocks s" for h using slot_free_fewer [of j "upd_lk i h s"] by (simp add: upd_lk_def)
  then show ?case using Cons.IH order_trans by fastforce
qed simp

lemma coalesce_pass_fewer: "g_u32NLocks (snd (coalesce_pass fd p is f s)) \<le> g_u32NLocks s"
proof (induction "is" arbitrary: f s)
  case (Cons i "is")
  obtain g t where "coalesce_row fd p i [Suc i..<GJ_FLOCK_MAX] f s = (g, t)" by fastforce
  then show ?case using Cons.IH coalesce_row_fewer [of fd p i "[Suc i..<GJ_FLOCK_MAX]" f s] order_trans by (fastforce simp: Let_def)
qed simp

lemma coalesce_pid_fewer: "g_u32NLocks (coalesce_pid fd p s) \<le> g_u32NLocks s"
proof -
  have "g_u32NLocks (coalesce_passes n fd p s) \<le> g_u32NLocks s" for n
  proof (induction n arbitrary: s)
    case (Suc n)
    obtain f t where "coalesce_pass fd p [0..<GJ_FLOCK_MAX] False s = (f, t)" by fastforce
    then show ?case using Suc.IH [of t] coalesce_pass_fewer [of fd p "[0..<GJ_FLOCK_MAX]" False s] order_trans by fastforce
  qed simp
  then show ?thesis by (simp add: coalesce_pid_def)
qed

section \<open>Conflicts\<close>

text \<open>The preferred conflict: lowest start, a write lock before a read lock.\<close>

definition preferred :: "flock_slot \<Rightarrow> flock_slot \<Rightarrow> bool" where
  "preferred b sl \<longleftrightarrow> fs_i64Start b < fs_i64Start sl
     \<or> fs_i64Start b = fs_i64Start sl \<and> (fs_i16Type b = GJ_F_WRLCK \<or> fs_i16Type sl \<noteq> GJ_F_WRLCK)"

lemma preferred_trans: "preferred a b \<Longrightarrow> preferred b c \<Longrightarrow> preferred a c"
  by (auto simp: preferred_def)

lemma preferred_refl [simp]: "preferred a a"
  by (simp add: preferred_def)

lemma conflict_scan_spec:
  "case conflict_scan fd ty a b p best ss of
     None \<Rightarrow> best = None \<and> (\<forall>sl \<in> set ss. \<not> conflicts_with fd ty a b p sl)
   | Some h \<Rightarrow> (best = Some h \<or> h \<in> set ss \<and> conflicts_with fd ty a b p h)
       \<and> (\<forall>b'. best = Some b' \<longrightarrow> preferred h b')
       \<and> (\<forall>sl \<in> set ss. conflicts_with fd ty a b p sl \<longrightarrow> preferred h sl)"
proof (induction ss arbitrary: best)
  case (Cons sl ss)
  let ?best = "if \<not> conflicts_with fd ty a b p sl then best
        else (case best of None \<Rightarrow> Some sl
           | Some b \<Rightarrow> if fs_i64Start sl < fs_i64Start b then Some sl
               else if fs_i64Start sl = fs_i64Start b \<and> fs_i16Type sl = GJ_F_WRLCK \<and> fs_i16Type b \<noteq> GJ_F_WRLCK
                 then Some sl else Some b)"
  have best: "(?best = None \<longleftrightarrow> best = None \<and> \<not> conflicts_with fd ty a b p sl)
     \<and> (\<forall>h. ?best = Some h \<longrightarrow> (best = Some h \<or> h = sl \<and> conflicts_with fd ty a b p sl)
          \<and> (\<forall>b'. best = Some b' \<longrightarrow> preferred h b') \<and> (conflicts_with fd ty a b p sl \<longrightarrow> preferred h sl))"
    by (cases best) (auto simp: preferred_def)
  obtain n where n: "n = ?best" by simp
  have step: "conflict_scan fd ty a b p best (sl # ss) = conflict_scan fd ty a b p n ss" by (simp add: n)
  show ?case
  proof (cases "conflict_scan fd ty a b p n ss")
    case None
    with Cons.IH [of n] best [folded n] step show ?thesis by simp
  next
    case (Some h)
    with Cons.IH [of n] have ih: "n = Some h \<or> h \<in> set ss \<and> conflicts_with fd ty a b p h"
      "\<forall>b'. n = Some b' \<longrightarrow> preferred h b'" "\<forall>x \<in> set ss. conflicts_with fd ty a b p x \<longrightarrow> preferred h x"
      by simp_all
    show ?thesis
    proof (cases n)
      case None
      with ih best [folded n] Some step show ?thesis by auto
    next
      case (Some m)
      then have m: "best = Some m \<or> m = sl \<and> conflicts_with fd ty a b p sl" "\<forall>b'. best = Some b' \<longrightarrow> preferred m b'"
        "conflicts_with fd ty a b p sl \<longrightarrow> preferred m sl" and hm: "preferred h m"
        using best [folded n] ih(2) by blast+
      have "best = Some h \<or> h \<in> set (sl # ss) \<and> conflicts_with fd ty a b p h" using ih(1) m(1) Some by auto
      moreover have "\<forall>b'. best = Some b' \<longrightarrow> preferred h b'" using m(2) hm preferred_trans by blast
      moreover have "\<forall>x \<in> set (sl # ss). conflicts_with fd ty a b p x \<longrightarrow> preferred h x"
        using ih(3) m(3) hm preferred_trans by auto
      ultimately show ?thesis using \<open>conflict_scan fd ty a b p n ss = Some h\<close> step by simp
    qed
  qed
qed (simp split: option.split)

lemma conflict_None:
  assumes ok: "lk_ok s" and wf: "wf_range a b"
  shows "conflict fd ty a b p s = None \<longleftrightarrow>
    \<not> (\<exists>q ty' x. q \<noteq> p \<and> types_conflict ty ty' \<and> in_range a b x \<and> holds s fd q ty' x)"
proof -
  have "conflict fd ty a b p s = None \<longleftrightarrow> (\<forall>sl \<in> set (g_aLk s). \<not> conflicts_with fd ty a b p sl)"
    using conflict_scan_spec [where best = None and ss = "g_aLk s" and fd = fd and ty = ty and a = a and b = b and p = p]
    by (cases "conflict fd ty a b p s") (auto simp: conflict_def)
  also have "\<dots> \<longleftrightarrow> \<not> (\<exists>q ty' x. q \<noteq> p \<and> types_conflict ty ty' \<and> in_range a b x \<and> holds s fd q ty' x)"
  proof -
    have "conflicts_with fd ty a b p sl \<longleftrightarrow>
      (\<exists>q ty' x. q \<noteq> p \<and> types_conflict ty ty' \<and> in_range a b x \<and> slot_holds sl fd q ty' x)" if "sl \<in> set (g_aLk s)" for sl
    proof (cases "fs_u8Used sl")
      case True
      then have "wf_range (fs_i64Start sl) (fs_i64End sl)" using that ok by (auto simp: lk_ok_def wf_lk_def)
      from ranges_overlap_iff [OF wf this] show ?thesis by (auto simp: conflicts_with_def slot_holds_def)
    qed (simp add: conflicts_with_def slot_holds_def)
    then show ?thesis unfolding holds_def by blast
  qed
  finally show ?thesis .
qed

section \<open>Waiters\<close>

definition wait_ok :: "flock_state \<Rightarrow> bool" where
  "wait_ok s \<longleftrightarrow> length (g_aWait s) = GJ_FLOCK_MAX_WAITERS
     \<and> unat (g_u32NWaiters s) = length (filter fw_u8Used (g_aWait s))"

text \<open>The lock table is untouched.\<close>

definition same_lk :: "flock_state \<Rightarrow> flock_state \<Rightarrow> bool" where
  "same_lk s t \<longleftrightarrow> g_aLk t = g_aLk s \<and> g_u32NLocks t = g_u32NLocks s"

lemma same_lkD:
  assumes "same_lk s t"
  shows "holds t = holds s" and "lk_ok t = lk_ok s" and "exclusive t = exclusive s" and "fully_merged fd p t = fully_merged fd p s"
proof -
  show h: "holds t = holds s" using assms by (auto simp: same_lk_def holds_def fun_eq_iff)
  show "lk_ok t = lk_ok s" using assms by (simp add: same_lk_def lk_ok_def)
  show "exclusive t = exclusive s" unfolding exclusive_def h ..
  show "fully_merged fd p t = fully_merged fd p s" using assms by (simp add: same_lk_def fully_merged_def)
qed

lemma wait_ok_update:
  assumes "wait_ok s" and "i < GJ_FLOCK_MAX_WAITERS" and "g_aWait t = (g_aWait s)[i := v]"
    and "unat (g_u32NWaiters t) + of_bool (fw_u8Used (g_aWait s ! i)) = unat (g_u32NWaiters s) + of_bool (fw_u8Used v)"
  shows "wait_ok t"
proof -
  have "length (filter fw_u8Used ((g_aWait s)[i := v])) + of_bool (fw_u8Used (g_aWait s ! i)) =
      length (filter fw_u8Used (g_aWait s)) + of_bool (fw_u8Used v)"
    by (rule length_filter_update) (use assms(1,2) in \<open>simp add: wait_ok_def\<close>)
  then show ?thesis using assms unfolding wait_ok_def by simp
qed

lemma wait_used_count:
  assumes "wait_ok s" and "i < GJ_FLOCK_MAX_WAITERS"
  shows "fw_u8Used (g_aWait s ! i) \<Longrightarrow> 0 < g_u32NWaiters s"
    and "unat (g_u32NWaiters s + 1) = unat (g_u32NWaiters s) + 1"
proof -
  let ?n = "length (filter fw_u8Used (g_aWait s))"
  have len: "length (g_aWait s) = GJ_FLOCK_MAX_WAITERS" and n: "unat (g_u32NWaiters s) = ?n"
    using assms(1) by (simp_all add: wait_ok_def)
  have mem: "g_aWait s ! i \<in> set (g_aWait s)" using len assms(2) by simp
  show "0 < g_u32NWaiters s" if "fw_u8Used (g_aWait s ! i)"
  proof -
    have "filter fw_u8Used (g_aWait s) \<noteq> []" using mem that by (auto simp: filter_empty_conv)
    then show ?thesis using n by (simp add: word_less_nat_alt)
  qed
  have "?n \<le> GJ_FLOCK_MAX_WAITERS" using length_filter_le [of fw_u8Used "g_aWait s"] len by simp
  then show "unat (g_u32NWaiters s + 1) = unat (g_u32NWaiters s) + 1"
    using n by (simp add: unat_word_ariths)
qed

lemma waiter_unregister_ok: "wait_ok s \<Longrightarrow> wait_ok (waiter_unregister n s)"
proof (cases n)
  case (Some i)
  assume ok: "wait_ok s"
  show ?thesis
  proof (cases "i < GJ_FLOCK_MAX_WAITERS \<and> fw_u8Used (g_aWait s ! i)")
    case True
    then have i: "i < GJ_FLOCK_MAX_WAITERS" and u: "fw_u8Used (g_aWait s ! i)" by simp_all
    show ?thesis
      by (rule wait_ok_update [OF ok i])
        (use wait_used_count(1) [OF ok i u] u i in \<open>auto simp: Some waiter_unregister_def unat_dec word_less_nat_alt\<close>)
  qed (use ok Some in \<open>auto simp: waiter_unregister_def\<close>)
qed (simp add: waiter_unregister_def)

lemma waiter_update_blocker_ok: "wait_ok s \<Longrightarrow> wait_ok (waiter_update_blocker n q s)"
proof (cases n)
  case (Some i)
  assume ok: "wait_ok s"
  show ?thesis
  proof (cases "i < GJ_FLOCK_MAX_WAITERS \<and> fw_u8Used (g_aWait s ! i)")
    case True
    then show ?thesis
      by (intro wait_ok_update [OF ok, of i]) (auto simp: Some waiter_update_blocker_def)
  qed (use ok Some in \<open>auto simp: waiter_update_blocker_def\<close>)
qed (simp add: waiter_update_blocker_def)

lemma waiter_register_ok: 
  assumes "wait_ok s"
  shows "wait_ok (snd (waiter_register fd ty a b p q s))"
proof (cases "find (\<lambda>i. \<not> fw_u8Used (g_aWait s ! i)) [0..<GJ_FLOCK_MAX_WAITERS]")
  case (Some i)
  then have i: "i < GJ_FLOCK_MAX_WAITERS" and u: "\<not> fw_u8Used (g_aWait s ! i)" unfolding find_Some_iff by auto
  show ?thesis
    by (rule wait_ok_update [OF assms i, where v = "\<lparr>fw_u8Used = True, fw_i64Fd = fd, fw_i16Type = ty,
          fw_i64Start = a, fw_i64End = b, fw_u32Pid = p, fw_u32BlockerPid = q, fw_u32GenSeen = g_u32WakeGen s\<rparr>"])
      (use Some u wait_used_count(2) [OF assms i] in \<open>simp_all add: waiter_register_def\<close>)
qed (use assms in \<open>simp add: waiter_register_def\<close>)

lemma waiter_same_lk [simp]:
  "same_lk s (waiter_unregister n s)" "same_lk s (waiter_update_blocker n q s)"
  "same_lk s (snd (waiter_register fd ty a b p q s))" "same_lk s (wake_gen_bump s)" "same_lk s s"
  by (auto simp: same_lk_def waiter_unregister_def waiter_update_blocker_def waiter_register_def
      wake_gen_bump_def split: option.split)

lemma same_lk_trans: "same_lk s t \<Longrightarrow> same_lk t u \<Longrightarrow> same_lk s u"
  by (simp add: same_lk_def)

lemma wait_ok_same: "same_wait s t \<Longrightarrow> wait_ok t = wait_ok s"
  by (simp add: same_wait_def wait_ok_def)

lemma wait_ok_bump [simp]: "wait_ok (wake_gen_bump s) = wait_ok s"
  by (simp add: wait_ok_def wake_gen_bump_def)

section \<open>One round of a request\<close>

text \<open>The table after \<open>p\<close> is granted \<open>[a, b)\<close> with type \<open>ty\<close>.\<close>

definition granted :: "int \<Rightarrow> u32 \<Rightarrow> int \<Rightarrow> int \<Rightarrow> int \<Rightarrow> flock_state \<Rightarrow> flock_state \<Rightarrow> bool" where
  "granted fd p ty a b s t \<longleftrightarrow>
     (\<forall>fd' p' ty' x. holds t fd' p' ty' x \<longleftrightarrow>
        (if fd' = fd \<and> p' = p \<and> in_range a b x then ty' = ty else holds s fd' p' ty' x))"

text \<open>Some other process holds a byte of the range in a conflicting way.\<close>

definition blocked :: "int \<Rightarrow> u32 \<Rightarrow> int \<Rightarrow> int \<Rightarrow> int \<Rightarrow> flock_state \<Rightarrow> bool" where
  "blocked fd p ty a b s \<longleftrightarrow>
     (\<exists>q ty' x. q \<noteq> p \<and> types_conflict ty ty' \<and> in_range a b x \<and> holds s fd q ty' x)"

lemma fill_grants:
  assumes ok: "lk_ok s" and wf: "wf_range a b" and c: "carve_pid_range fd p a b s = (0, u)"
    and al: "slot_alloc u = (Some n, v)"
  shows "lk_ok (slot_fill n fd ty a b p v) \<and> granted fd p ty a b s (slot_fill n fd ty a b p v)
    \<and> same_wait s (slot_fill n fd ty a b p v)"
proof -
  note cp = carve_pid_range_spec [OF ok wf c]
  let ?v = "\<lparr>fs_u8Used = True, fs_i64Fd = fd, fs_i16Type = ty, fs_i64Start = a, fs_i64End = b, fs_u32Pid = p\<rparr>"
  from al cp(1) show ?thesis
  proof (cases rule: slot_alloc_cases)
    case (Got i)
    note f = fill_spec [OF cp(1) Got(2,3) _ _ Got(4) [where fd = fd and ty = ty and a = a and b = b and p = p]]
    have "lk_ok (slot_fill n fd ty a b p v)" "\<And>fd' p' ty' x. holds (slot_fill n fd ty a b p v) fd' p' ty' x \<longleftrightarrow>
        slot_holds ?v fd' p' ty' x \<or> holds u fd' p' ty' x"
      using f Got(1) wf by (simp_all add: wf_lk_def)
    moreover have "same_wait s (slot_fill n fd ty a b p v)"
      using Got(1,4) cp(2) by (simp add: same_wait_def)
    ultimately show ?thesis
      unfolding granted_def by (simp add: cp(5) slot_holds_def) blast
  qed simp
qed

lemma set_round_granted:
  assumes ok: "lk_ok s" "wait_ok s" and wf: "wf_range a b"
    and r: "set_round fd ty a b p fBlock nWait s = (Done 0 w, t)"
  shows "lk_ok t" "wait_ok t" "w" "\<not> blocked fd p ty a b s" "granted fd p ty a b s t" "fully_merged fd p t"
    "g_u32WakeGen t = g_u32WakeGen s + 1"
proof -
  have none: "conflict fd ty a b p s = None"
    using r by (auto simp: set_round_def Let_def split: option.splits if_splits prod.splits)
  then show "\<not> blocked fd p ty a b s" unfolding blocked_def using conflict_None [OF ok(1) wf] by blast
  obtain st u where c: "carve_pid_range fd p a b s = (st, u)" by (cases "carve_pid_range fd p a b s")
  obtain q v where al: "slot_alloc u = (q, v)" by (cases "slot_alloc u")
  have st: "st = 0" using r none c by (auto simp: set_round_def split: if_splits)
  obtain n where q: "q = Some n" using r none c al st by (cases q) (auto simp: set_round_def)
  define x where "x = slot_fill n fd ty a b p v"
  have t: "t = wake_gen_bump (waiter_unregister nWait (coalesce_pid fd p x))" and "w"
    using r none c al st q by (simp_all add: set_round_def x_def)
  then show "w" by simp
  have fg: "lk_ok x" "granted fd p ty a b s x" "same_wait s x"
    using fill_grants [OF ok(1) wf c [unfolded st] al [unfolded q], where ty = ty] by (simp_all add: x_def)
  note co = coalesce_pid_spec [OF fg(1), of fd p]
  have sl: "same_lk (coalesce_pid fd p x) t" unfolding t using waiter_same_lk same_lk_trans by blast
  have cx: "lk_ok (coalesce_pid fd p x)" "\<And>fd' p' ty x'. holds (coalesce_pid fd p x) fd' p' ty x' = holds x fd' p' ty x'"
    "same_wait x (coalesce_pid fd p x)" using co(1) by (simp_all add: coal_def)
  show "lk_ok t" "fully_merged fd p t" using same_lkD [OF sl] cx(1) co(2) by simp_all
  show "granted fd p ty a b s t" using fg(2) unfolding granted_def same_lkD(1) [OF sl] cx(2) .
  have sw: "same_wait s (coalesce_pid fd p x)" using same_wait_trans [OF fg(3) cx(3)] .
  have "wait_ok (coalesce_pid fd p x)" using wait_ok_same [OF sw] ok(2) by simp
  then show "wait_ok t" unfolding t by (simp add: waiter_unregister_ok)
  have "g_u32WakeGen (waiter_unregister nWait y) = g_u32WakeGen y" for y
    by (simp add: waiter_unregister_def split: option.split)
  then show "g_u32WakeGen t = g_u32WakeGen s + 1" using sw by (simp add: t wake_gen_bump_def same_wait_def)
qed

text \<open>The other outcomes of a round: the process waits or is refused because it is blocked, and
  nothing held changes; or the table is full, and only bytes of its own range can be lost.\<close>

lemma set_round_other:
  assumes ok: "lk_ok s" "wait_ok s" and wf: "wf_range a b"
    and r: "set_round fd ty a b p fBlock nWait s = (out, t)" and out: "\<And>w. out \<noteq> Done 0 w"
  shows "lk_ok t" and "wait_ok t" and "g_u32WakeGen t = g_u32WakeGen s" and "carve_rel fd p a b s t"
    and "if out = Done (- LINUX_ENOLCK) False then \<not> blocked fd p ty a b s \<and> slot_free_count (g_aLk t) = 0
      else same_lk s t \<and> blocked fd p ty a b s
        \<and> (out = Done (- LINUX_EAGAIN) False \<and> \<not> fBlock \<or> out = Done (- GJ_FLOCK_EDEADLK) False \<and> fBlock
           \<or> (\<exists>n. out = Wait n) \<and> fBlock)"
proof -
  have gen: "g_u32WakeGen (waiter_unregister n y) = g_u32WakeGen y" "g_u32WakeGen (waiter_update_blocker n q y) = g_u32WakeGen y"
    "g_u32WakeGen (snd (waiter_register fd ty a b p q y)) = g_u32WakeGen y" for n q y
    by (simp_all add: waiter_unregister_def waiter_update_blocker_def waiter_register_def split: option.split)
  have blk: "conflict fd ty a b p s = None \<longleftrightarrow> \<not> blocked fd p ty a b s"
    unfolding blocked_def by (rule conflict_None [OF ok(1) wf])
  have "lk_ok t \<and> wait_ok t \<and> g_u32WakeGen t = g_u32WakeGen s \<and> carve_rel fd p a b s t \<and>
    (if out = Done (- LINUX_ENOLCK) False then \<not> blocked fd p ty a b s \<and> slot_free_count (g_aLk t) = 0
      else same_lk s t \<and> blocked fd p ty a b s
        \<and> (out = Done (- LINUX_EAGAIN) False \<and> \<not> fBlock \<or> out = Done (- GJ_FLOCK_EDEADLK) False \<and> fBlock
           \<or> (\<exists>n. out = Wait n) \<and> fBlock))"
  proof (cases "conflict fd ty a b p s")
    case (Some hit)
    have "same_lk s t \<and> wait_ok t \<and> g_u32WakeGen t = g_u32WakeGen s
        \<and> (out = Done (- LINUX_EAGAIN) False \<and> \<not> fBlock \<or> out = Done (- GJ_FLOCK_EDEADLK) False \<and> fBlock
           \<or> (\<exists>n. out = Wait n) \<and> fBlock)"
    proof -
      obtain n y where reg: "waiter_register fd ty a b p (fs_u32Pid hit) s = (n, y)"
        by (cases "waiter_register fd ty a b p (fs_u32Pid hit) s")
      then have "y = snd (waiter_register fd ty a b p (fs_u32Pid hit) s)" by simp
      then have "same_lk s y" "wait_ok y" "g_u32WakeGen y = g_u32WakeGen s"
        using waiter_register_ok [OF ok(2)] gen(3) by simp_all
      then show ?thesis
        using r Some reg waiter_unregister_ok [OF ok(2)] waiter_update_blocker_ok [OF ok(2)]
        by (auto simp: set_round_def Let_def gen split: if_split_asm option.split_asm)
    qed
    moreover from this have "carve_rel fd p a b s t" "lk_ok t"
      using same_lkD [of s t] ok(1) by (auto simp: carve_rel_def)
    moreover have "blocked fd p ty a b s" using blk Some by simp
    ultimately show ?thesis by auto
  next
    case None
    obtain st u where c: "carve_pid_range fd p a b s = (st, u)" by (cases "carve_pid_range fd p a b s")
    note cp = carve_pid_range_spec(1-4) [OF ok(1) wf c]
    obtain q v where al: "slot_alloc u = (q, v)" by (cases "slot_alloc u")
    have full: "v = u \<and> slot_free_count (g_aLk u) = 0" if "q = None"
      using al cp(1)
    proof (cases rule: slot_alloc_cases)
      case Full
      then have "\<forall>sl \<in> set (g_aLk u). fs_u8Used sl" using lk_okD(1) [OF cp(1)] by (auto simp: in_set_conv_nth)
      with Full(2) show ?thesis by (simp add: slot_free_count_def)
    qed (simp add: that)
    have "t = waiter_unregister nWait u \<and> out = Done (- LINUX_ENOLCK) False \<and> slot_free_count (g_aLk u) = 0"
      using r None c al out cp(4) full
      by (cases q) (auto simp: set_round_def Let_def split: if_split_asm)
    moreover have "wait_ok u" "g_u32WakeGen u = g_u32WakeGen s"
      using wait_ok_same [OF cp(2)] ok(2) cp(2) by (simp_all add: same_wait_def)
    moreover have "holds (waiter_unregister nWait u) = holds u" "lk_ok (waiter_unregister nWait u) = lk_ok u"
      "g_aLk (waiter_unregister nWait u) = g_aLk u"
      using same_lkD [OF waiter_same_lk(1)] waiter_same_lk(1) [of u nWait] by (simp_all add: same_lk_def)
    moreover have "\<not> blocked fd p ty a b s" using blk None by simp
    ultimately show ?thesis
      using cp(1,3) waiter_unregister_ok [of u nWait] by (simp add: gen carve_rel_def)
  qed
  then show "lk_ok t" and "wait_ok t" and "g_u32WakeGen t = g_u32WakeGen s" and "carve_rel fd p a b s t"
    and "if out = Done (- LINUX_ENOLCK) False then \<not> blocked fd p ty a b s \<and> slot_free_count (g_aLk t) = 0
      else same_lk s t \<and> blocked fd p ty a b s
        \<and> (out = Done (- LINUX_EAGAIN) False \<and> \<not> fBlock \<or> out = Done (- GJ_FLOCK_EDEADLK) False \<and> fBlock
           \<or> (\<exists>n. out = Wait n) \<and> fBlock)"
    by simp_all
qed

section \<open>Exclusion\<close>

lemma exclusive_mono:
  assumes "exclusive s" and "\<And>fd p ty x. holds t fd p ty x \<Longrightarrow> holds s fd p ty x"
  shows "exclusive t"
  using assms unfolding exclusive_def by blast

lemma exclusive_granted:
  assumes ex: "exclusive s" and g: "granted fd p ty a b s t" and free: "\<not> blocked fd p ty a b s"
  shows "exclusive t"
proof -
  have h: "holds t fd' p' ty' x \<longleftrightarrow>
        (if fd' = fd \<and> p' = p \<and> in_range a b x then ty' = ty else holds s fd' p' ty' x)" for fd' p' ty' x
    using g unfolding granted_def by blast
  have other: "types_conflict ty ty' \<Longrightarrow> False" if "holds s fd q ty' x" "q \<noteq> p" "in_range a b x" for q ty' x
    using free that unfolding blocked_def by blast
  have "ty1 = GJ_F_RDLCK \<and> ty2 = GJ_F_RDLCK"
    if "holds t fd' q1 ty1 x" "holds t fd' q2 ty2 x" "q1 \<noteq> q2" for fd' q1 q2 ty1 ty2 x
    using that other [of q1 ty1 x] other [of q2 ty2 x] ex unfolding h exclusive_def types_conflict_def
    by (simp split: if_split_asm; blast)
  moreover have "ty1 = ty2" if "holds t fd' q ty1 x" "holds t fd' q ty2 x" for fd' q ty1 ty2 x
    using that ex unfolding h exclusive_def by (simp split: if_split_asm; blast)
  ultimately show ?thesis unfolding exclusive_def by blast
qed

section \<open>Release\<close>

lemma release_slots_spec:
  assumes "lk_ok s" and "distinct is" and "set is \<subseteq> {..<GJ_FLOCK_MAX}" and "release_slots P is c s = (c', t)"
  shows "lk_ok t \<and> same_wait s t \<and> c' = c + of_nat (length (filter (\<lambda>i. fs_u8Used (g_aLk s ! i) \<and> P (g_aLk s ! i)) is))
    \<and> (\<forall>j < GJ_FLOCK_MAX. g_aLk t ! j = (if j \<in> set is \<and> fs_u8Used (g_aLk s ! j) \<and> P (g_aLk s ! j)
         then (g_aLk s ! j)\<lparr>fs_u8Used := False\<rparr> else g_aLk s ! j))"
  using assms
proof (induction "is" arbitrary: c s)
  case (Cons i "is")
  show ?case
  proof (cases "fs_u8Used (g_aLk s ! i) \<and> P (g_aLk s ! i)")
    case True
    have i: "i < GJ_FLOCK_MAX" using Cons.prems(3) by simp
    have u: "fs_u8Used (g_aLk s ! i)" using True by simp
    have g: "g_aLk (slot_free i s) = (g_aLk s)[i := (g_aLk s ! i)\<lparr>fs_u8Used := False\<rparr>]"
      using u by (simp add: slot_free_def)
    have nth: "g_aLk (slot_free i s) ! j = (if j = i then (g_aLk s ! i)\<lparr>fs_u8Used := False\<rparr> else g_aLk s ! j)" for j
      using i lk_okD(1) [OF Cons.prems(1)] by (simp add: g nth_list_update)
    have f: "filter (\<lambda>j. fs_u8Used (g_aLk (slot_free i s) ! j) \<and> P (g_aLk (slot_free i s) ! j)) is =
      filter (\<lambda>j. fs_u8Used (g_aLk s ! j) \<and> P (g_aLk s ! j)) is"
      using Cons.prems(2) by (intro filter_cong) (auto simp: nth)
    have ok: "lk_ok (slot_free i s)" by (rule slot_free_spec(1) [OF Cons.prems(1) i u])
    have l: "release_slots P is (c + 1) (slot_free i s) = (c', t)" using Cons.prems(4) True by simp
    have d: "distinct is" "set is \<subseteq> {..<GJ_FLOCK_MAX}" using Cons.prems(2,3) by simp_all
    note ih = Cons.IH [OF ok d l, unfolded f]
    have "same_wait s t" using ih same_wait_trans [OF same_wait_simps(2)] by blast
    moreover have "g_aLk t ! j = (if j \<in> set (i # is) \<and> fs_u8Used (g_aLk s ! j) \<and> P (g_aLk s ! j)
         then (g_aLk s ! j)\<lparr>fs_u8Used := False\<rparr> else g_aLk s ! j)" if "j < GJ_FLOCK_MAX" for j
      using ih that True Cons.prems(2) by (simp add: nth)
    ultimately show ?thesis using ih True by (simp add: algebra_simps)
  next
    case False
    then have "release_slots P is c s = (c', t)" using Cons.prems(4) by auto
    from Cons.IH [OF Cons.prems(1) _ _ this] Cons.prems(2,3) False show ?thesis by auto
  qed
qed simp

lemma release_all:
  assumes ok: "lk_ok s" and r: "release_slots P [0..<GJ_FLOCK_MAX] 0 s = (c, t)"
  shows "lk_ok t" and "same_wait s t" and "unat c = length (filter (\<lambda>sl. fs_u8Used sl \<and> P sl) (g_aLk s))"
    and "holds t fd p ty x \<longleftrightarrow> (\<exists>sl \<in> set (g_aLk s). \<not> P sl \<and> slot_holds sl fd p ty x)"
proof -
  have sub: "set [0..<GJ_FLOCK_MAX] \<subseteq> {..<GJ_FLOCK_MAX}" by auto
  note sp = release_slots_spec [OF ok distinct_upt sub r]
  have len: "length (g_aLk s) = GJ_FLOCK_MAX" using ok by (rule lk_okD)
  show okt: "lk_ok t" and "same_wait s t" using sp by simp_all
  have m: "g_aLk s = map (\<lambda>i. g_aLk s ! i) [0..<GJ_FLOCK_MAX]" using map_nth [of "g_aLk s"] len by simp
  have n: "length (filter (\<lambda>sl. fs_u8Used sl \<and> P sl) (g_aLk s)) =
      length (filter (\<lambda>i. fs_u8Used (g_aLk s ! i) \<and> P (g_aLk s ! i)) [0..<GJ_FLOCK_MAX])"
    using arg_cong [OF m, of "\<lambda>l. length (filter (\<lambda>sl. fs_u8Used sl \<and> P sl) l)"]
    by (simp only: filter_map length_map comp_def)
  have "length (filter (\<lambda>sl. fs_u8Used sl \<and> P sl) (g_aLk s)) \<le> GJ_FLOCK_MAX"
    using length_filter_le [of "\<lambda>sl. fs_u8Used sl \<and> P sl" "g_aLk s"] len by simp
  then show "unat c = length (filter (\<lambda>sl. fs_u8Used sl \<and> P sl) (g_aLk s))"
    using sp n by (simp add: unat_of_nat take_bit_nat_eq_self_iff)
  have "slot_holds (g_aLk t ! j) fd p ty x \<longleftrightarrow> \<not> P (g_aLk s ! j) \<and> slot_holds (g_aLk s ! j) fd p ty x"
    if "j < GJ_FLOCK_MAX" for j
    using sp that by (auto simp: slot_holds_def)
  moreover have "(\<exists>sl \<in> set (g_aLk s). \<not> P sl \<and> slot_holds sl fd p ty x) \<longleftrightarrow>
      (\<exists>j < GJ_FLOCK_MAX. \<not> P (g_aLk s ! j) \<and> slot_holds (g_aLk s ! j) fd p ty x)"
    by (metis in_set_conv_nth len)
  ultimately show "holds t fd p ty x \<longleftrightarrow> (\<exists>sl \<in> set (g_aLk s). \<not> P sl \<and> slot_holds sl fd p ty x)"
    unfolding holds_nth lk_okD(1) [OF okt] by auto
qed

lemma waiter_unregister_nth:
  assumes "length (g_aWait s) = GJ_FLOCK_MAX_WAITERS" "i < GJ_FLOCK_MAX_WAITERS"
  shows "g_aWait (waiter_unregister (Some i) s) ! j =
    (if j = i then (g_aWait s ! i)\<lparr>fw_u8Used := False\<rparr> else g_aWait s ! j)"
  using assms by (auto simp: waiter_unregister_def nth_list_update)

lemma drop_waiters_spec:
  assumes "wait_ok s" and "distinct is" and "set is \<subseteq> {..<GJ_FLOCK_MAX_WAITERS}" and "drop_waiters p is n s = (n', t)"
  shows "wait_ok t \<and> same_lk s t \<and> g_u32WakeGen t = g_u32WakeGen s
    \<and> n' = n + length (filter (\<lambda>i. fw_u8Used (g_aWait s ! i) \<and> fw_u32Pid (g_aWait s ! i) = p) is)
    \<and> (\<forall>j < GJ_FLOCK_MAX_WAITERS. g_aWait t ! j =
        (if j \<in> set is \<and> fw_u8Used (g_aWait s ! j) \<and> fw_u32Pid (g_aWait s ! j) = p
         then (g_aWait s ! j)\<lparr>fw_u8Used := False\<rparr> else g_aWait s ! j))"
  using assms
proof (induction "is" arbitrary: n s)
  case (Cons i "is")
  show ?case
  proof (cases "fw_u8Used (g_aWait s ! i) \<and> fw_u32Pid (g_aWait s ! i) = p")
    case True
    let ?u = "waiter_unregister (Some i) s"
    have i: "i < GJ_FLOCK_MAX_WAITERS" and len: "length (g_aWait s) = GJ_FLOCK_MAX_WAITERS"
      using Cons.prems(1,3) by (simp_all add: wait_ok_def)
    note nth = waiter_unregister_nth [OF len i]
    have f: "filter (\<lambda>j. fw_u8Used (g_aWait ?u ! j) \<and> fw_u32Pid (g_aWait ?u ! j) = p) is =
      filter (\<lambda>j. fw_u8Used (g_aWait s ! j) \<and> fw_u32Pid (g_aWait s ! j) = p) is"
      using Cons.prems(2) by (intro filter_cong) (auto simp: nth)
    have l: "drop_waiters p is (n + 1) ?u = (n', t)" using Cons.prems(4) True by simp
    have d: "distinct is" "set is \<subseteq> {..<GJ_FLOCK_MAX_WAITERS}" using Cons.prems(2,3) by simp_all
    note ih = Cons.IH [OF waiter_unregister_ok [OF Cons.prems(1)] d l, unfolded f]
    have "same_lk s t" using ih same_lk_trans [OF waiter_same_lk(1)] by blast
    moreover have "g_u32WakeGen ?u = g_u32WakeGen s" by (simp add: waiter_unregister_def)
    moreover have "g_aWait t ! j = (if j \<in> set (i # is) \<and> fw_u8Used (g_aWait s ! j) \<and> fw_u32Pid (g_aWait s ! j) = p
         then (g_aWait s ! j)\<lparr>fw_u8Used := False\<rparr> else g_aWait s ! j)" if "j < GJ_FLOCK_MAX_WAITERS" for j
      using ih that True Cons.prems(2) by (simp add: nth)
    ultimately show ?thesis using ih True by simp
  next
    case False
    then have "drop_waiters p is n s = (n', t)" using Cons.prems(4) by auto
    from Cons.IH [OF Cons.prems(1) _ _ this] Cons.prems(2,3) False show ?thesis by auto
  qed
qed simp

section \<open>The deadlock probe\<close>

text \<open>The wait-for graph: a process waits for every process that one of its registered waiters names.\<close>

definition wait_graph :: "flock_state \<Rightarrow> (u32 \<times> u32) set" where
  "wait_graph s = {(p, q). q \<noteq> 0 \<and> (\<exists>w \<in> set (g_aWait s). fw_u8Used w \<and> fw_u32Pid w = p \<and> fw_u32BlockerPid w = q)}"

text \<open>Every process waits for one process at most.\<close>

definition one_blocker :: "flock_state \<Rightarrow> bool" where
  "one_blocker s \<longleftrightarrow> (\<forall>p q r. (p, q) \<in> wait_graph s \<longrightarrow> (p, r) \<in> wait_graph s \<longrightarrow> q = r)
     \<and> (\<forall>w \<in> set (g_aWait s). fw_u8Used w \<longrightarrow> fw_u32BlockerPid w \<noteq> 0)"

lemma waits_for_edge: "waits_for s p = Some q \<Longrightarrow> q \<noteq> 0 \<Longrightarrow> (p, q) \<in> wait_graph s"
  by (auto simp: waits_for_def wait_graph_def find_Some_iff)

lemma edge_waits_for:
  assumes "one_blocker s" and "(p, q) \<in> wait_graph s"
  shows "waits_for s p = Some q"
proof -
  let ?P = "\<lambda>w. fw_u8Used w \<and> fw_u32Pid w = p"
  obtain w where "w \<in> set (g_aWait s)" "?P w" using assms(2) by (auto simp: wait_graph_def)
  then obtain v where v: "find ?P (g_aWait s) = Some v" by (cases "find ?P (g_aWait s)") (auto simp: find_None_iff)
  then have m: "v \<in> set (g_aWait s)" "?P v" by (auto simp: find_Some_iff)
  have o: "\<And>q r. (p, q) \<in> wait_graph s \<Longrightarrow> (p, r) \<in> wait_graph s \<Longrightarrow> q = r" "fw_u32BlockerPid v \<noteq> 0"
    using assms(1) m unfolding one_blocker_def by blast+
  have "(p, fw_u32BlockerPid v) \<in> wait_graph s" unfolding wait_graph_def using m o(2) by blast
  then have "fw_u32BlockerPid v = q" using o(1) assms(2) by blast
  then show ?thesis using v by (simp add: waits_for_def)
qed

lemma deadlock_walk_sound: "deadlock_walk n s self cur \<Longrightarrow> \<exists>k < n. (cur, self) \<in> wait_graph s ^^ Suc k"
proof (induction n arbitrary: cur)
  case (Suc n)
  then obtain q where q: "waits_for s cur = Some q" "q \<noteq> 0" "q = self \<or> deadlock_walk n s self q"
    by (auto split: option.split_asm if_split_asm)
  have e: "(cur, q) \<in> wait_graph s" by (rule waits_for_edge [OF q(1,2)])
  show ?case
  proof (cases "q = self")
    case True
    then show ?thesis using e by (intro exI [of _ 0]) simp
  next
    case False
    then obtain k where "k < n" "(q, self) \<in> wait_graph s ^^ Suc k" using q(3) Suc.IH [of q] by blast
    moreover from this have "(cur, self) \<in> wait_graph s ^^ Suc (Suc k)" by (intro relpow_Suc_I2 [OF e])
    ultimately show ?thesis by (intro exI [of _ "Suc k"]) (simp del: relpow.simps)
  qed
qed simp

lemma deadlock_walk_complete:
  "one_blocker s \<Longrightarrow> (cur, self) \<in> wait_graph s ^^ Suc k \<Longrightarrow> k < n \<Longrightarrow> deadlock_walk n s self cur"
proof (induction n arbitrary: cur k)
  case (Suc n)
  obtain q where q: "(cur, q) \<in> wait_graph s" "(q, self) \<in> wait_graph s ^^ k" using Suc.prems(2) by (blast dest: relpow_Suc_D2)
  have w: "waits_for s cur = Some q" "q \<noteq> 0" using edge_waits_for [OF Suc.prems(1) q(1)] q(1) by (simp_all add: wait_graph_def)
  show ?case
  proof (cases k)
    case 0
    then show ?thesis using q(2) w by simp
  next
    case (Suc j)
    then show ?thesis using Suc.IH [OF Suc.prems(1), of q j] q(2) w Suc.prems(3) by simp
  qed
qed simp

end
