(* ===== verification/File_Lock_Props.thy ===== *)
theory File_Lock_Props
  imports File_Lock_Lemmas
begin

text \<open>
  What the record locks promise.  The critical sections of \<^verbatim>\<open>file_lock.c\<close> are the steps of a
  transition system; every state reached keeps the table consistent and never lets two processes
  hold a byte in conflicting ways.  A granted request holds exactly its range, an unlock gives up
  exactly its range, a query reports the preferred conflict, and release clears its owner.
\<close>

section \<open>The transition system\<close>

text \<open>A request whose fields fit their C types and that passes the checks of \<^verbatim>\<open>file_lock_set\<close>.\<close>

definition valid_req :: "int \<Rightarrow> gj_flock \<Rightarrow> int \<Rightarrow> int \<Rightarrow> u32 \<Rightarrow> bool" where
  "valid_req fd fl a b p \<longleftrightarrow> flock_validate fd fl = Inr (a, b, p) \<and> fl_i64Start fl \<le> I64_MAX"

inductive flock_step :: "flock_state \<Rightarrow> flock_state \<Rightarrow> bool" where
  Round: "valid_req fd fl a b p \<Longrightarrow> fl_i16Type fl \<in> {GJ_F_RDLCK, GJ_F_WRLCK} \<Longrightarrow>
    set_round fd (fl_i16Type fl) a b p fBlock nWait s = (out, t) \<Longrightarrow> flock_step s t"
| Unlock: "valid_req fd fl a b p \<Longrightarrow> fl_i16Type fl = GJ_F_UNLCK \<Longrightarrow>
    file_lock_set n env fd fl fBlock s = Some (r, w, t) \<Longrightarrow> flock_step s t"
| Release_fd: "file_lock_release_fd fd s = (c, w, t) \<Longrightarrow> flock_step s t"
| Release_pid: "file_lock_release_pid pid s = (c, w, t) \<Longrightarrow> flock_step s t"

abbreviation flock_reach :: "flock_state \<Rightarrow> bool" where
  "flock_reach \<equiv> reach ((=) file_lock_init) flock_step"

definition flock_inv :: "flock_state \<Rightarrow> bool" where
  "flock_inv s \<longleftrightarrow> lk_ok s \<and> wait_ok s \<and> exclusive s"

lemma flock_invD: "flock_inv s \<Longrightarrow> lk_ok s" "flock_inv s \<Longrightarrow> wait_ok s" "flock_inv s \<Longrightarrow> exclusive s"
  by (simp_all add: flock_inv_def)

lemma valid_req_wf: "valid_req fd fl a b p \<Longrightarrow> wf_range a b"
  unfolding valid_req_def by (blast intro: validate_wf)

lemma init_inv: "flock_inv file_lock_init"
proof -
  have "\<not> holds file_lock_init fd p ty x" for fd p ty x
    by (simp add: holds_def slot_holds_def file_lock_init_def)
  then have "exclusive file_lock_init" by (simp add: exclusive_def)
  then show ?thesis by (simp add: flock_inv_def lk_ok_def wait_ok_def wf_lk_def file_lock_init_def)
qed

lemma round_inv:
  assumes inv: "flock_inv s" and wf: "wf_range a b" and r: "set_round fd ty a b p fBlock nWait s = (out, t)"
  shows "flock_inv t"
proof (cases "\<exists>w. out = Done 0 w")
  case True
  then obtain w where "set_round fd ty a b p fBlock nWait s = (Done 0 w, t)" using r by blast
  note g = set_round_granted [OF flock_invD(1,2) [OF inv] wf this]
  with exclusive_granted [OF flock_invD(3) [OF inv] g(5) g(4)] show ?thesis by (simp add: flock_inv_def)
next
  case False
  then have out: "\<And>w. out \<noteq> Done 0 w" by blast
  note g = set_round_other [OF flock_invD(1,2) [OF inv] wf r out]
  have "exclusive t"
    by (rule exclusive_mono [OF flock_invD(3) [OF inv]]) (use g(4) in \<open>simp add: carve_rel_def\<close>)
  with g show ?thesis by (simp add: flock_inv_def)
qed

text \<open>The unlock branch of \<^verbatim>\<open>file_lock_set\<close>.\<close>

lemma unlock_spec:
  assumes inv: "lk_ok s" and v: "valid_req fd fl a b p" and ty: "fl_i16Type fl = GJ_F_UNLCK"
    and r: "file_lock_set n env fd fl fBlock s = Some (r, w, t)"
  shows "lk_ok t" "carve_rel fd p a b s t" "wait_ok t = wait_ok s" "w \<longleftrightarrow> r = 0"
    "g_u32WakeGen t = g_u32WakeGen s + of_bool w"
    "r = 0 \<or> r = - LINUX_ENOLCK \<and> slot_free_count (g_aLk t) = 0"
    "r = 0 \<Longrightarrow> holds t fd' p' ty' x \<longleftrightarrow> holds s fd' p' ty' x \<and> \<not> (fd' = fd \<and> p' = p \<and> in_range a b x)"
proof -
  obtain st u where c: "carve_pid_range fd p a b s = (st, u)" by (cases "carve_pid_range fd p a b s")
  note cp = carve_pid_range_spec [OF inv valid_req_wf [OF v] c]
  have rt: "r = st \<and> w = (r = 0) \<and> t = (if r = 0 then wake_gen_bump u else u)"
    using r c v ty by (simp add: file_lock_set_def valid_req_def split: if_split_asm)
  have "holds (wake_gen_bump u) = holds u" "lk_ok (wake_gen_bump u) = lk_ok u" "g_aLk (wake_gen_bump u) = g_aLk u"
    using same_lkD [OF waiter_same_lk(4)] by (simp_all add: wake_gen_bump_def)
  then show "lk_ok t" "carve_rel fd p a b s t" "w \<longleftrightarrow> r = 0"
    "r = 0 \<or> r = - LINUX_ENOLCK \<and> slot_free_count (g_aLk t) = 0"
    "r = 0 \<Longrightarrow> holds t fd' p' ty' x \<longleftrightarrow> holds s fd' p' ty' x \<and> \<not> (fd' = fd \<and> p' = p \<and> in_range a b x)"
    using rt cp by (auto simp: carve_rel_def)
  show "wait_ok t = wait_ok s" using rt wait_ok_same [OF cp(2)] by simp
  show "g_u32WakeGen t = g_u32WakeGen s + of_bool w" using rt cp(2) by (simp add: same_wait_def wake_gen_bump_def)
qed

lemma release_fd_spec:
  assumes ok: "lk_ok s" and fd: "0 \<le> fd" and r: "file_lock_release_fd fd s = (c, w, t)"
  shows "lk_ok t" "wait_ok t = wait_ok s" "holds t fd' p ty x \<longleftrightarrow> fd' \<noteq> fd \<and> holds s fd' p ty x"
    "unat c = length (filter (\<lambda>sl. fs_u8Used sl \<and> fs_i64Fd sl = fd) (g_aLk s))"
    "0 < c \<Longrightarrow> w"
proof -
  obtain c' u where rel: "release_slots (\<lambda>sl. fs_i64Fd sl = fd) [0..<GJ_FLOCK_MAX] 0 s = (c', u)"
    by (cases "release_slots (\<lambda>sl. fs_i64Fd sl = fd) [0..<GJ_FLOCK_MAX] 0 s")
  note sp = release_all [OF ok rel]
  have t: "c = c' \<and> (t = u \<or> t = wake_gen_bump u) \<and> (0 < c' \<longrightarrow> w)"
    using r fd rel by (simp add: file_lock_release_fd_def Let_def split: if_split_asm)
  then have "same_lk u t" by auto
  note sl = same_lkD [OF this]
  show "lk_ok t" "unat c = length (filter (\<lambda>sl. fs_u8Used sl \<and> fs_i64Fd sl = fd) (g_aLk s))" "0 < c \<Longrightarrow> w"
    using sl sp t by simp_all
  show "wait_ok t = wait_ok s" using t wait_ok_same [OF sp(2)] by auto
  show "holds t fd' p ty x \<longleftrightarrow> fd' \<noteq> fd \<and> holds s fd' p ty x"
    unfolding sl(1) sp(4) by (auto simp: holds_def slot_holds_def)
qed

lemma release_pid_spec:
  assumes ok: "lk_ok s" "wait_ok s" and pid: "pid \<noteq> 0" and r: "file_lock_release_pid pid s = (c, w, t)"
  shows "lk_ok t" "wait_ok t" "holds t fd p ty x \<longleftrightarrow> p \<noteq> pid \<and> holds s fd p ty x"
    "unat c = length (filter (\<lambda>sl. fs_u8Used sl \<and> fs_u32Pid sl = pid) (g_aLk s))"
    "k < GJ_FLOCK_MAX_WAITERS \<Longrightarrow> g_aWait t ! k =
       (if fw_u8Used (g_aWait s ! k) \<and> fw_u32Pid (g_aWait s ! k) = pid
        then (g_aWait s ! k)\<lparr>fw_u8Used := False\<rparr> else g_aWait s ! k)"
    "0 < c \<Longrightarrow> w"
proof -
  obtain c' u where rel: "release_slots (\<lambda>sl. fs_u32Pid sl = pid) [0..<GJ_FLOCK_MAX] 0 s = (c', u)"
    by (cases "release_slots (\<lambda>sl. fs_u32Pid sl = pid) [0..<GJ_FLOCK_MAX] 0 s")
  note sp = release_all [OF ok(1) rel]
  obtain n v where dr: "drop_waiters pid [0..<GJ_FLOCK_MAX_WAITERS] 0 u = (n, v)"
    by (cases "drop_waiters pid [0..<GJ_FLOCK_MAX_WAITERS] 0 u")
  have oku: "wait_ok u" "g_aWait u = g_aWait s" using wait_ok_same [OF sp(2)] ok(2) sp(2) by (simp_all add: same_wait_def)
  have sub: "set [0..<GJ_FLOCK_MAX_WAITERS] \<subseteq> {..<GJ_FLOCK_MAX_WAITERS}" by auto
  note dw = drop_waiters_spec [OF oku(1) distinct_upt sub dr]
  have t: "c = c' \<and> (t = v \<or> t = wake_gen_bump v) \<and> (0 < c' \<longrightarrow> w)"
    using r pid rel dr by (simp add: file_lock_release_pid_def split: if_split_asm)
  then have "same_lk v t" by auto
  then have "same_lk u t" using dw same_lk_trans by blast
  note sl = same_lkD [OF this]
  show "lk_ok t" "unat c = length (filter (\<lambda>sl. fs_u8Used sl \<and> fs_u32Pid sl = pid) (g_aLk s))" "0 < c \<Longrightarrow> w"
    using sl sp t by simp_all
  show "wait_ok t" using t dw by auto
  have "g_aWait t = g_aWait v" using t by (auto simp: wake_gen_bump_def)
  then show "k < GJ_FLOCK_MAX_WAITERS \<Longrightarrow> g_aWait t ! k =
       (if fw_u8Used (g_aWait s ! k) \<and> fw_u32Pid (g_aWait s ! k) = pid
        then (g_aWait s ! k)\<lparr>fw_u8Used := False\<rparr> else g_aWait s ! k)"
    using dw oku(2) by simp
  show "holds t fd p ty x \<longleftrightarrow> p \<noteq> pid \<and> holds s fd p ty x"
    unfolding sl(1) sp(4) by (auto simp: holds_def slot_holds_def)
qed

lemma flock_step_inv:
  assumes "flock_step s t" and inv: "flock_inv s"
  shows "flock_inv t"
  using assms(1)
proof cases
  case (Round fd fl a b p fBlock nWait out)
  then show ?thesis using round_inv [OF inv valid_req_wf] by blast
next
  case (Unlock fd fl a b p n env fBlock r w)
  note u = unlock_spec [OF flock_invD(1) [OF inv] Unlock]
  have "exclusive t"
    by (rule exclusive_mono [OF flock_invD(3) [OF inv]]) (use u(2) in \<open>simp add: carve_rel_def\<close>)
  then show ?thesis using u(1,3) flock_invD(2) [OF inv] by (simp add: flock_inv_def)
next
  case (Release_fd fd c w)
  show ?thesis
  proof (cases "0 \<le> fd")
    case True
    note r = release_fd_spec [OF flock_invD(1) [OF inv] True Release_fd]
    have "exclusive t" by (rule exclusive_mono [OF flock_invD(3) [OF inv]]) (simp add: r(3))
    then show ?thesis using r(1,2) flock_invD(2) [OF inv] by (simp add: flock_inv_def)
  qed (use Release_fd inv in \<open>simp add: file_lock_release_fd_def\<close>)
next
  case (Release_pid pid c w)
  show ?thesis
  proof (cases "pid = 0")
    case False
    note r = release_pid_spec [OF flock_invD(1,2) [OF inv] False Release_pid]
    have "exclusive t" by (rule exclusive_mono [OF flock_invD(3) [OF inv]]) (simp add: r(3))
    then show ?thesis using r(1,2) by (simp add: flock_inv_def)
  qed (use Release_pid inv in \<open>simp add: file_lock_release_pid_def\<close>)
qed

lemma flock_reach_init: "flock_reach file_lock_init"
  by (rule reach_init) (rule refl)

interpretation flock: inv_system flock_step flock_inv "(=) file_lock_init"
  by unfold_locales (auto intro: init_inv flock_step_inv)

lemma env_reach:
  assumes "\<And>k u. flock_step\<^sup>*\<^sup>* u (env k u)" and "flock_reach s"
  shows "flock_reach (env k s)"
  by (rule reach_run [OF assms(2,1)])

text \<open>
  The tables a waiting request sees: the one it was called with, and after each wait what the others made of a table whose
  locks the request itself has not touched.  It waits only in tables with \<open>P\<close>.
\<close>

inductive waited :: "(nat \<Rightarrow> flock_state \<Rightarrow> flock_state) \<Rightarrow> (flock_state \<Rightarrow> bool) \<Rightarrow> flock_state \<Rightarrow> flock_state \<Rightarrow> bool" for env P where
  Now: "waited env P s s"
| Turn: "P s \<Longrightarrow> same_lk s v \<Longrightarrow> waited env P (env k v) u \<Longrightarrow> waited env P s u"

text \<open>A finished wait loop ends with a round in such a table.\<close>

lemma set_loop_reach:
  assumes env: "\<And>k u. flock_step\<^sup>*\<^sup>* u (env k u)" and v: "valid_req fd fl a b p"
    and ty: "fl_i16Type fl \<in> {GJ_F_RDLCK, GJ_F_WRLCK}"
    and "flock_reach s" and "set_loop n env fd (fl_i16Type fl) a b p fBlock nWait s = Some (r, w, t)"
  shows "flock_reach t \<and> (\<exists>u nW. waited env (blocked fd p (fl_i16Type fl) a b) s u \<and> flock_reach u
    \<and> set_round fd (fl_i16Type fl) a b p fBlock nW u = (Done r w, t))"
  using assms(4,5)
proof (induction n arbitrary: nWait s)
  case (Suc n)
  obtain out u where rd: "set_round fd (fl_i16Type fl) a b p fBlock nWait s = (out, u)"
    by (cases "set_round fd (fl_i16Type fl) a b p fBlock nWait s")
  have u: "flock_reach u" using reach_step [OF Suc.prems(1) flock_step.Round [OF v ty rd]] .
  show ?case
  proof (cases out)
    case (Done r' w')
    then show ?thesis using Suc.prems rd u waited.Now by auto
  next
    case (Wait nW)
    then have "set_loop n env fd (fl_i16Type fl) a b p fBlock nW (env n u) = Some (r, w, t)"
      using Suc.prems(2) rd by simp
    note ih = Suc.IH [OF env_reach [where env = env and k = n, OF env u] this]
    note inv = flock_invD [OF flock.reach_holds [OF Suc.prems(1)]]
    have "same_lk s u" "blocked fd p (fl_i16Type fl) a b s"
      using set_round_other(5) [OF inv(1,2) valid_req_wf [OF v] rd] Wait by auto
    then show ?thesis using ih waited.Turn [of "blocked fd p (fl_i16Type fl) a b" s u env n] by blast
  qed
qed simp

lemma set_is_loop:
  assumes "valid_req fd fl a b p" and "fl_i16Type fl \<in> {GJ_F_RDLCK, GJ_F_WRLCK}"
  shows "file_lock_set n env fd fl fBlock s = set_loop n env fd (fl_i16Type fl) a b p fBlock None s"
  using assms by (auto simp: file_lock_set_def valid_req_def)

section \<open>Example tables\<close>

definition wit_fl :: "int \<Rightarrow> int \<Rightarrow> int \<Rightarrow> u32 \<Rightarrow> gj_flock" where
  "wit_fl ty a n p = \<lparr>fl_i16Type = ty, fl_i16Whence = GJ_SEEK_SET, fl_i64Start = a, fl_i64Len = n, fl_u32Pid = p\<rparr>"

lemma wit_fl_valid:
  "valid_req 3 (wit_fl ty 10 20 7) 10 30 7" "valid_req 3 (wit_fl ty 15 5 7) 15 20 7"
  "valid_req 3 (wit_fl ty 15 5 8) 15 20 8"
  by (simp_all add: valid_req_def wit_fl_def flock_validate_def range_overflow_def range_end_def)

text \<open>Process 7 holds bytes 10 to 29 of descriptor 3 for writing.\<close>

definition wit_lk :: flock_state where
  "wit_lk = file_lock_init\<lparr>g_aLk := (g_aLk file_lock_init)[0 := \<lparr>fs_u8Used = True, fs_i64Fd = 3, fs_i16Type = GJ_F_WRLCK,
     fs_i64Start = 10, fs_i64End = 30, fs_u32Pid = 7\<rparr>], g_u32NLocks := 1, g_u32WakeGen := 1\<rparr>"

lemma wit_lk_set: "file_lock_set 1 (\<lambda>_ s. s) 3 (wit_fl GJ_F_WRLCK 10 20 7) False file_lock_init = Some (0, True, wit_lk)"
  by code_simp

lemma wit_lk_reach: "flock_reach wit_lk"
proof -
  have "set_round 3 GJ_F_WRLCK 10 30 7 False None file_lock_init = (Done 0 True, wit_lk)" by code_simp
  then have "flock_step file_lock_init wit_lk"
    by (intro flock_step.Round [OF wit_fl_valid(1) [of GJ_F_WRLCK], of False None _ "Done 0 True"]) (simp_all add: wit_fl_def)
  then show ?thesis by (rule reach_step [OF flock_reach_init])
qed

lemma wit_lk_holds: "holds wit_lk 3 7 GJ_F_WRLCK 15"
proof -
  have "slot_holds (g_aLk wit_lk ! 0) 3 7 GJ_F_WRLCK 15"
    by (simp add: wit_lk_def file_lock_init_def slot_holds_def in_range_def range_norm_end_def)
  moreover have "0 < length (g_aLk wit_lk)" by (simp add: wit_lk_def file_lock_init_def)
  ultimately show ?thesis unfolding holds_nth by blast
qed

section \<open>Properties\<close>

text \<open>
  C17: whatever sequence of critical sections of lock requests, unlocks and releases runs from
  initialisation, interleaved in any order, no byte is held by two different processes unless both
  hold it for reading, no process holds a byte with two types, and the count of used slots is exact.
\<close>

theorem flock_mutual_exclusion:
  assumes "flock_reach s" and "holds s fd p ty x" and "holds s fd q ty' x"
  shows "(p \<noteq> q \<longrightarrow> ty = GJ_F_RDLCK \<and> ty' = GJ_F_RDLCK) \<and> (p = q \<longrightarrow> ty = ty')
    \<and> unat (file_lock_count s) = length (filter fs_u8Used (g_aLk s))"
proof -
  note inv = flock_invD [OF flock.reach_holds [OF assms(1)]]
  have "p \<noteq> q \<longrightarrow> ty = GJ_F_RDLCK \<and> ty' = GJ_F_RDLCK" "p = q \<longrightarrow> ty = ty'"
    using inv(3) assms(2,3) unfolding exclusive_def by blast+
  then show ?thesis using inv(1) by (simp add: lk_ok_def file_lock_count_def)
qed

theorem flock_mutual_exclusion_witness:
  "flock_reach wit_lk \<and> holds wit_lk 3 7 GJ_F_WRLCK 15 \<and> \<not> holds wit_lk 3 8 GJ_F_RDLCK 15"
  using flock_mutual_exclusion [OF wit_lk_reach wit_lk_holds, of 8 GJ_F_RDLCK] wit_lk_reach wit_lk_holds by auto

text \<open>
  C18: a read or write request that returns 0, after any number of waits, was granted from the table it was called with or,
  if it had to wait, from what the other threads then made of it, the request having waited only while another
  process held a conflicting byte of the range and touched no lock meanwhile.  In that table no other process held a conflicting byte
  of the range; afterwards the process holds exactly that range with the requested type, nothing
  else has changed for any process, its slots are fully merged and the waiters are woken.
\<close>

theorem flock_set_grants:
  assumes env: "\<And>k u. flock_step\<^sup>*\<^sup>* u (env k u)" and v: "valid_req fd fl a b p"
    and ty: "fl_i16Type fl \<in> {GJ_F_RDLCK, GJ_F_WRLCK}" and s: "flock_reach s"
    and r: "file_lock_set n env fd fl fBlock s = Some (0, w, t)"
  shows "\<exists>u. waited env (blocked fd p (fl_i16Type fl) a b) s u \<and> \<not> blocked fd p (fl_i16Type fl) a b u
    \<and> granted fd p (fl_i16Type fl) a b u t \<and> fully_merged fd p t \<and> w \<and> g_u32WakeGen t = g_u32WakeGen u + 1 \<and> flock_reach t"
proof -
  from set_loop_reach [where env = env, OF env v ty s] r obtain u nW where
    u: "waited env (blocked fd p (fl_i16Type fl) a b) s u" "flock_reach u" "set_round fd (fl_i16Type fl) a b p fBlock nW u = (Done 0 w, t)"
    and t: "flock_reach t"
    unfolding set_is_loop [OF v ty] by blast
  note inv = flock_invD [OF flock.reach_holds [OF u(2)]]
  from set_round_granted [OF inv(1,2) valid_req_wf [OF v] u(3)] u(1) t show ?thesis by blast
qed

theorem flock_set_grants_witness:
  "\<exists>u. waited (\<lambda>_ s. s) (blocked 3 7 GJ_F_WRLCK 10 30) file_lock_init u \<and> \<not> blocked 3 7 GJ_F_WRLCK 10 30 u \<and> granted 3 7 GJ_F_WRLCK 10 30 u wit_lk"
  using flock_set_grants [where env = "\<lambda>_ s. s", OF _ wit_fl_valid(1) _ flock_reach_init wit_lk_set] by (auto simp: wit_fl_def)

text \<open>
  A request that does not block always returns at once, with one of three results.  It is 0 and
  the range is granted; EAGAIN exactly when another process holds a conflicting byte, with the table
  unchanged; or ENOLCK, only when the table has no free slot left, and then nothing changes outside
  the requested range of the requester.
\<close>

lemma flock_nonblocking_total:
  assumes v: "valid_req fd fl a b p" and ty: "fl_i16Type fl \<in> {GJ_F_RDLCK, GJ_F_WRLCK}" and s: "flock_reach s"
  shows "\<exists>r w t. file_lock_set (Suc n) env fd fl False s = Some (r, w, t) \<and>
    (r = 0 \<and> \<not> blocked fd p (fl_i16Type fl) a b s \<and> granted fd p (fl_i16Type fl) a b s t
     \<or> r = - LINUX_EAGAIN \<and> blocked fd p (fl_i16Type fl) a b s \<and> g_aLk t = g_aLk s
     \<or> r = - LINUX_ENOLCK \<and> \<not> blocked fd p (fl_i16Type fl) a b s \<and> slot_free_count (g_aLk t) = 0
        \<and> carve_rel fd p a b s t)"
proof -
  note inv = flock_invD [OF flock.reach_holds [OF s]] and wf = valid_req_wf [OF v]
  obtain out t where rd: "set_round fd (fl_i16Type fl) a b p False None s = (out, t)"
    by (cases "set_round fd (fl_i16Type fl) a b p False None s")
  have fls: "file_lock_set (Suc n) env fd fl False s = Some (r, w, t)" if "out = Done r w" for r w
    using rd that by (simp add: set_is_loop [OF v ty])
  show ?thesis
  proof (cases "\<exists>w. out = Done 0 w")
    case True
    then obtain w where o: "out = Done 0 w" by blast
    note g = set_round_granted [OF inv(1,2) wf rd [unfolded o]]
    show ?thesis using fls [OF o] g(4,5) by simp
  next
    case False
    then have "\<And>w. out \<noteq> Done 0 w" by blast
    note g = set_round_other [OF inv(1,2) wf rd this]
    show ?thesis
    proof (cases "out = Done (- LINUX_ENOLCK) False")
      case True
      then show ?thesis using fls [OF True] g(4,5)
        by (intro exI [of _ "- LINUX_ENOLCK"] exI [of _ False] exI [of _ t]) simp
    next
      case False
      then have "out = Done (- LINUX_EAGAIN) False" "blocked fd p (fl_i16Type fl) a b s" "g_aLk t = g_aLk s"
        using g(5) by (auto simp: same_lk_def)
      then show ?thesis using fls [of "- LINUX_EAGAIN" False]
        by (intro exI [of _ "- LINUX_EAGAIN"] exI [of _ False] exI [of _ t]) simp
    qed
  qed
qed

text \<open>
  An unlock returns at once.  If it returns 0 the process no longer holds any byte of the range
  and everything else is as before; otherwise it is ENOLCK with a full table, and still nothing
  outside the range of that process has changed.
\<close>

lemma flock_unlock_exact:
  assumes v: "valid_req fd fl a b p" and ty: "fl_i16Type fl = GJ_F_UNLCK" and s: "flock_reach s"
  shows "\<exists>r t. file_lock_set n env fd fl fBlock s = Some (r, r = 0, t) \<and> carve_rel fd p a b s t
    \<and> (if r = 0 then \<forall>fd' p' ty' x. holds t fd' p' ty' x \<longleftrightarrow>
           holds s fd' p' ty' x \<and> \<not> (fd' = fd \<and> p' = p \<and> in_range a b x)
       else r = - LINUX_ENOLCK \<and> slot_free_count (g_aLk t) = 0)"
proof -
  have "\<exists>r w t. file_lock_set n env fd fl fBlock s = Some (r, w, t)"
    using v ty by (auto simp: file_lock_set_def valid_req_def split: prod.split)
  then obtain r w t where r: "file_lock_set n env fd fl fBlock s = Some (r, w, t)" by blast
  note u = unlock_spec [OF flock_invD(1) [OF flock.reach_holds [OF s]] v ty r]
  show ?thesis by (rule exI [of _ r], rule exI [of _ t]) (use r u in auto)
qed

text \<open>
  The query (F_GETLK) changes nothing and answers exactly: it reports F_UNLCK when no other
  process holds a byte of the range in a way that conflicts with the probe (a probe of type F_UNLCK
  counts as a write), and otherwise the type, range and process of a conflicting slot that starts
  lowest, a write lock first among equal starts.
\<close>

lemma flock_get_exact:
  assumes v: "valid_req fd fl a b p" and s: "flock_reach s"
    and ty: "fl_i16Type fl \<in> {GJ_F_RDLCK, GJ_F_WRLCK, GJ_F_UNLCK}"
  defines "probe \<equiv> if fl_i16Type fl = GJ_F_UNLCK then GJ_F_WRLCK else fl_i16Type fl"
  shows "if blocked fd p probe a b s
    then \<exists>h \<in> set (g_aLk s). conflicts_with fd probe a b p h
      \<and> (\<forall>sl \<in> set (g_aLk s). conflicts_with fd probe a b p sl \<longrightarrow> preferred h sl)
      \<and> file_lock_get fd fl s = (0, \<lparr>fl_i16Type = fs_i16Type h, fl_i16Whence = GJ_SEEK_SET, fl_i64Start = fs_i64Start h,
           fl_i64Len = (if fs_i64End h < 0 then 0 else fs_i64End h - fs_i64Start h), fl_u32Pid = fs_u32Pid h\<rparr>)
    else file_lock_get fd fl s = (0, fl\<lparr>fl_i16Type := GJ_F_UNLCK, fl_i16Whence := GJ_SEEK_SET\<rparr>)"
proof -
  have blk: "conflict fd probe a b p s = None \<longleftrightarrow> \<not> blocked fd p probe a b s"
    unfolding blocked_def by (rule conflict_None [OF flock_invD(1) [OF flock.reach_holds [OF s]] valid_req_wf [OF v]])
  have get: "file_lock_get fd fl s = (case conflict fd probe a b p s of
       Some h \<Rightarrow> (0, fl\<lparr>fl_i16Type := fs_i16Type h, fl_i16Whence := GJ_SEEK_SET, fl_i64Start := fs_i64Start h,
           fl_i64Len := (if fs_i64End h < 0 then 0 else fs_i64End h - fs_i64Start h), fl_u32Pid := fs_u32Pid h\<rparr>)
     | None \<Rightarrow> (0, fl\<lparr>fl_i16Type := GJ_F_UNLCK, fl_i16Whence := GJ_SEEK_SET\<rparr>))"
    using v ty by (auto simp: file_lock_get_def valid_req_def probe_def Let_def)
  show ?thesis
  proof (cases "conflict fd probe a b p s")
    case None
    then show ?thesis using blk get by simp
  next
    case (Some h)
    then have "h \<in> set (g_aLk s) \<and> conflicts_with fd probe a b p h
      \<and> (\<forall>sl \<in> set (g_aLk s). conflicts_with fd probe a b p sl \<longrightarrow> preferred h sl)"
      using conflict_scan_spec [where best = None and ss = "g_aLk s" and fd = fd and ty = probe and a = a and b = b and p = p]
      by (simp add: conflict_def)
    then show ?thesis using blk get Some by auto
  qed
qed

text \<open>
  C19: where \<^verbatim>\<open>file_lock_set\<close> coalesces, that is after the range of a valid request was carved out of the process's own locks, a
  slot allocated and filled with the new lock, coalescing ends within its 32 passes with no two slots of the process on that
  descriptor left that touch or overlap with the same type; it changes nothing that any process holds, uses no further slot, and
  what is held is the old table with exactly the requested range set to the requested type.
\<close>

theorem flock_coalesce_complete:
  assumes "flock_reach s" and "valid_req fd fl a b p" and "carve_pid_range fd p a b s = (0, u)" and "slot_alloc u = (Some i, v)"
    and "x = slot_fill i fd ty a b p v"
  shows "(\<forall>fd' p' ty x'. holds (coalesce_pid fd p x) fd' p' ty x' = holds x fd' p' ty x') \<and> granted fd p ty a b s (coalesce_pid fd p x)
    \<and> fully_merged fd p (coalesce_pid fd p x) \<and> g_aWait (coalesce_pid fd p x) = g_aWait s
    \<and> file_lock_count (coalesce_pid fd p x) \<le> file_lock_count x"
proof -
  note ok = flock_invD(1) [OF flock.reach_holds [OF assms(1)]]
  note f = fill_grants [OF ok valid_req_wf [OF assms(2)] assms(3,4), of ty, folded assms(5)]
  note c = coalesce_pid_spec [of x fd p] coalesce_pid_fewer [of fd p x]
  have h: "holds (coalesce_pid fd p x) fd' p' ty x' = holds x fd' p' ty x'" for fd' p' ty x' using c(1) f by (simp add: coal_def)
  then have "granted fd p ty a b s (coalesce_pid fd p x)" using f by (simp add: granted_def)
  then show ?thesis using h c f by (simp add: coal_def same_wait_def file_lock_count_def)
qed

text \<open>The process of \<^const>\<open>wit_lk\<close> asks for the 10 bytes behind its range.\<close>

definition wit_filled :: flock_state where
  "wit_filled = wit_lk\<lparr>g_aLk := (g_aLk wit_lk)[1 := \<lparr>fs_u8Used = True, fs_i64Fd = 3, fs_i16Type = GJ_F_WRLCK,
     fs_i64Start = 30, fs_i64End = 40, fs_u32Pid = 7\<rparr>], g_u32NLocks := 2\<rparr>"

definition wit_alloc :: flock_state where
  "wit_alloc = wit_lk\<lparr>g_aLk := (g_aLk wit_lk)[1 := (g_aLk wit_lk ! 1)\<lparr>fs_u8Used := True\<rparr>], g_u32NLocks := 2\<rparr>"

theorem flock_coalesce_complete_witness:
  "holds (coalesce_pid 3 7 wit_filled) 3 7 GJ_F_WRLCK 15 \<and> holds (coalesce_pid 3 7 wit_filled) 3 7 GJ_F_WRLCK 35
    \<and> fully_merged 3 7 (coalesce_pid 3 7 wit_filled) \<and> file_lock_count (coalesce_pid 3 7 wit_filled) = 1 \<and> file_lock_count wit_filled = 2"
proof -
  have v: "valid_req 3 (wit_fl GJ_F_WRLCK 30 10 7) 30 40 7"
    by (simp add: valid_req_def wit_fl_def flock_validate_def range_overflow_def range_end_def)
  have c: "carve_pid_range 3 7 30 40 wit_lk = (0, wit_lk)" by code_simp
  have al: "slot_alloc wit_lk = (Some 1, wit_alloc)" by code_simp
  have fl: "wit_filled = slot_fill 1 3 GJ_F_WRLCK 30 40 7 wit_alloc" by code_simp
  have n: "file_lock_count (coalesce_pid 3 7 wit_filled) = 1" "file_lock_count wit_filled = 2" by code_simp+
  have r: "in_range 30 40 35" "\<not> in_range 30 40 15" by (simp_all add: in_range_def range_norm_end_def)
  from flock_coalesce_complete [OF wit_lk_reach v c al fl] r n wit_lk_holds show ?thesis unfolding granted_def by metis
qed

text \<open>
  Closing a descriptor drops exactly the locks on it, and a process's exit drops exactly its
  locks and its entries of the waiter table; each returns the number of slots it cleared and wakes
  the waiters when that is not 0.
\<close>

lemma flock_release_exact:
  assumes s: "flock_reach s" and "0 \<le> fd" and "pid \<noteq> 0"
    and f: "file_lock_release_fd fd s = (c, w, t)" and g: "file_lock_release_pid pid s = (c', w', t')"
  shows "(\<forall>fd' p ty x. holds t fd' p ty x \<longleftrightarrow> fd' \<noteq> fd \<and> holds s fd' p ty x)
    \<and> (\<forall>fd' p ty x. holds t' fd' p ty x \<longleftrightarrow> p \<noteq> pid \<and> holds s fd' p ty x)
    \<and> unat c = length (filter (\<lambda>sl. fs_u8Used sl \<and> fs_i64Fd sl = fd) (g_aLk s))
    \<and> unat c' = length (filter (\<lambda>sl. fs_u8Used sl \<and> fs_u32Pid sl = pid) (g_aLk s))
    \<and> (0 < c \<longrightarrow> w) \<and> (0 < c' \<longrightarrow> w')
    \<and> (\<forall>k < GJ_FLOCK_MAX_WAITERS. g_aWait t' ! k =
         (if fw_u8Used (g_aWait s ! k) \<and> fw_u32Pid (g_aWait s ! k) = pid
          then (g_aWait s ! k)\<lparr>fw_u8Used := False\<rparr> else g_aWait s ! k))"
proof -
  note inv = flock_invD [OF flock.reach_holds [OF s]]
  note a = release_fd_spec [OF inv(1) assms(2) f] and b = release_pid_spec [OF inv(1,2) assms(3) g]
  show ?thesis using a(3-) b(3-) by simp
qed

text \<open>
  C20: the deadlock probe against the wait-for graph, in which a process waits for every process that one of its
  registered waiters names.  If the probe answers yes, both processes are known and a path of at most four edges leads from the blocker back to the
  requester (of none when they are the same); and where every process waits for one known process at most, the probe answers
  yes for every such path.
\<close>

theorem flock_deadlock_exact:
  "(soft_deadlock self blocker s \<longrightarrow>
      self \<noteq> 0 \<and> blocker \<noteq> 0 \<and> (\<exists>k \<le> GJ_FLOCK_DEADLOCK_DEPTH. (blocker, self) \<in> wait_graph s ^^ k))
    \<and> (one_blocker s \<and> self \<noteq> 0 \<and> blocker \<noteq> 0 \<and> (\<exists>k \<le> GJ_FLOCK_DEADLOCK_DEPTH. (blocker, self) \<in> wait_graph s ^^ k) \<longrightarrow>
      soft_deadlock self blocker s)"
proof (intro conjI impI)
  assume d: "soft_deadlock self blocker s"
  show "self \<noteq> 0" "blocker \<noteq> 0" using d by (auto simp: soft_deadlock_def)
  show "\<exists>k \<le> GJ_FLOCK_DEADLOCK_DEPTH. (blocker, self) \<in> wait_graph s ^^ k"
  proof (cases "blocker = self")
    case True
    then show ?thesis by (intro exI [of _ 0]) simp
  next
    case False
    then have "deadlock_walk GJ_FLOCK_DEADLOCK_DEPTH s self blocker" using d by (simp add: soft_deadlock_def split: if_split_asm)
    then show ?thesis using deadlock_walk_sound Suc_leI by blast
  qed
next
  assume a: "one_blocker s \<and> self \<noteq> 0 \<and> blocker \<noteq> 0 \<and> (\<exists>k \<le> GJ_FLOCK_DEADLOCK_DEPTH. (blocker, self) \<in> wait_graph s ^^ k)"
  then obtain k where k: "k \<le> GJ_FLOCK_DEADLOCK_DEPTH" "(blocker, self) \<in> wait_graph s ^^ k" by blast
  show "soft_deadlock self blocker s"
  proof (cases k)
    case 0
    then show ?thesis using k a by (simp add: soft_deadlock_def)
  next
    case (Suc j)
    then have "deadlock_walk GJ_FLOCK_DEADLOCK_DEPTH s self blocker" using deadlock_walk_complete [of s blocker self j] a k by simp
    then show ?thesis using a by (simp add: soft_deadlock_def)
  qed
qed

text \<open>Process 7 waits for 8 and 8 for 9.\<close>

definition wit_waits :: flock_state where
  "wit_waits = snd (waiter_register 3 GJ_F_WRLCK 0 5 8 9 (snd (waiter_register 3 GJ_F_WRLCK 0 5 7 8 file_lock_init)))"

lemma wit_waits_graph: "wait_graph wit_waits = {(7, 8), (8, 9)}" "one_blocker wit_waits"
proof -
  have w: "g_aWait wit_waits = \<lparr>fw_u8Used = True, fw_i64Fd = 3, fw_i16Type = GJ_F_WRLCK, fw_i64Start = 0, fw_i64End = 5, fw_u32Pid = 7, fw_u32BlockerPid = 8, fw_u32GenSeen = 0\<rparr>
      # \<lparr>fw_u8Used = True, fw_i64Fd = 3, fw_i16Type = GJ_F_WRLCK, fw_i64Start = 0, fw_i64End = 5, fw_u32Pid = 8, fw_u32BlockerPid = 9, fw_u32GenSeen = 0\<rparr>
      # replicate 6 \<lparr>fw_u8Used = False, fw_i64Fd = 0, fw_i16Type = 0, fw_i64Start = 0, fw_i64End = 0, fw_u32Pid = 0, fw_u32BlockerPid = 0, fw_u32GenSeen = 0\<rparr>"
    by code_simp
  show g: "wait_graph wit_waits = {(7, 8), (8, 9)}" by (auto simp: wait_graph_def w)
  show "one_blocker wit_waits" unfolding one_blocker_def g by (auto simp: w)
qed

theorem flock_deadlock_exact_witness: "soft_deadlock 9 7 wit_waits \<and> \<not> soft_deadlock 7 9 wit_waits"
proof -
  have "(7, 9) \<in> wait_graph wit_waits ^^ 2" by (auto simp: wit_waits_graph numeral_2_eq_2)
  moreover have "(9, 7) \<notin> wait_graph wit_waits ^^ k" for k by (cases k) (auto simp: wit_waits_graph dest: relpow_Suc_D2)
  ultimately show ?thesis using flock_deadlock_exact [of 9 7 wit_waits] flock_deadlock_exact [of 7 9 wit_waits] wit_waits_graph(2) by fastforce
qed

text \<open>A full table: process 7 holds bytes 0 to 99 of descriptor 3, the other slots belong to 9.\<close>

definition wit_set :: "int \<Rightarrow> gj_flock \<Rightarrow> flock_state \<Rightarrow> flock_state" where
  "wit_set fd fl s = (case file_lock_set 1 (\<lambda>_ s. s) fd fl False s of Some (_, _, t) \<Rightarrow> t | None \<Rightarrow> s)"

definition wit_full :: flock_state where
  "wit_full = fold (\<lambda>k. wit_set (4 + int k) (wit_fl GJ_F_WRLCK 0 5 9)) [0..<31]
     (wit_set 3 (wit_fl GJ_F_WRLCK 0 100 7) file_lock_init)"

definition wit_full_lk :: "flock_slot list" where
  "wit_full_lk = \<lparr>fs_u8Used = True, fs_i64Fd = 3, fs_i16Type = GJ_F_WRLCK, fs_i64Start = 0, fs_i64End = 100, fs_u32Pid = 7\<rparr>
     # map (\<lambda>k. \<lparr>fs_u8Used = True, fs_i64Fd = 4 + int k, fs_i16Type = GJ_F_WRLCK, fs_i64Start = 0, fs_i64End = 5, fs_u32Pid = 9\<rparr>)
         [0..<31]"

lemma wit_full_eq: "wit_full = file_lock_init\<lparr>g_aLk := wit_full_lk, g_u32NLocks := 32, g_u32WakeGen := 32\<rparr>"
  by code_simp

lemma wit_set_reach:
  assumes "valid_req fd fl a b p" and "fl_i16Type fl \<in> {GJ_F_RDLCK, GJ_F_WRLCK}" and "flock_reach s"
  shows "flock_reach (wit_set fd fl s)"
proof (cases "file_lock_set 1 (\<lambda>_ s. s) fd fl False s")
  case (Some r)
  then obtain q w t where "file_lock_set 1 (\<lambda>_ s. s) fd fl False s = Some (q, w, t)" by (cases r) auto
  moreover from this have "set_loop 1 (\<lambda>_ s. s) fd (fl_i16Type fl) a b p False None s = Some (q, w, t)"
    by (simp only: set_is_loop [OF assms(1,2)])
  then have "flock_reach t" using set_loop_reach [where env = "\<lambda>_ s. s", OF _ assms] by blast
  ultimately show ?thesis by (simp add: wit_set_def)
qed (use assms(3) in \<open>simp add: wit_set_def\<close>)

lemma wit_full_reach: "flock_reach wit_full"
proof -
  have "flock_reach (fold (\<lambda>k. wit_set (4 + int k) (wit_fl GJ_F_WRLCK 0 5 9)) ks s)" if "flock_reach s" for ks s
    using that
  proof (induction ks arbitrary: s)
    case (Cons k ks)
    have "valid_req (4 + int k) (wit_fl GJ_F_WRLCK 0 5 9) 0 5 9"
      by (simp add: valid_req_def wit_fl_def flock_validate_def range_overflow_def range_end_def)
    then have "flock_reach (wit_set (4 + int k) (wit_fl GJ_F_WRLCK 0 5 9) s)"
      by (rule wit_set_reach [OF _ _ Cons.prems]) (simp add: wit_fl_def)
    from Cons.IH [OF this] show ?case by simp
  qed simp
  moreover have "valid_req 3 (wit_fl GJ_F_WRLCK 0 100 7) 0 100 7"
    by (simp add: valid_req_def wit_fl_def flock_validate_def range_overflow_def range_end_def)
  then have "flock_reach (wit_set 3 (wit_fl GJ_F_WRLCK 0 100 7) file_lock_init)"
    by (rule wit_set_reach) (simp_all add: wit_fl_def flock_reach_init)
  ultimately show ?thesis unfolding wit_full_def by blast
qed

text \<open>
  A failed request can destroy a lock.  With the table full (a state the operations do reach), a
  process that holds bytes 0 to 99 for writing and asks for bytes 50 to 149 for reading gets ENOLCK,
  and afterwards it holds bytes 50 to 99 neither for reading nor for writing: the old lock was carved
  before the slot for the new one was found to be missing.
\<close>

lemma flock_enolck_loses_bytes:
  "\<exists>s t. flock_reach s \<and> holds s 3 7 GJ_F_WRLCK 60
     \<and> file_lock_set 1 (\<lambda>_ s. s) 3 (wit_fl GJ_F_RDLCK 50 100 7) False s = Some (- LINUX_ENOLCK, False, t)
     \<and> (\<forall>ty. \<not> holds t 3 7 ty 60)"
proof -
  define t where "t = wit_full\<lparr>g_aLk := wit_full_lk[0 := (wit_full_lk ! 0)\<lparr>fs_i64End := 50\<rparr>]\<rparr>"
  have r: "file_lock_set 1 (\<lambda>_ s. s) 3 (wit_fl GJ_F_RDLCK 50 100 7) False wit_full = Some (- LINUX_ENOLCK, False, t)"
    unfolding t_def wit_full_eq by code_simp
  have "holds wit_full 3 7 GJ_F_WRLCK 60" "\<not> holds t 3 7 ty 60" for ty
    by (auto simp: holds_def t_def wit_full_eq wit_full_lk_def slot_holds_def in_range_def range_norm_end_def)
  with r wit_full_reach show ?thesis by blast
qed

text \<open>
  A blocking request returns once the others give way.  If, whatever the table looked like, the
  others leave nothing that blocks the request during the wait with \<open>k\<close> rounds of fuel to go, the call
  has returned by then; no fuel beyond the number of waits is needed.
\<close>

lemma flock_block_returns:
  assumes env: "\<And>k u. flock_step\<^sup>*\<^sup>* u (env k u)" and v: "valid_req fd fl a b p"
    and ty: "fl_i16Type fl \<in> {GJ_F_RDLCK, GJ_F_WRLCK}" and s: "flock_reach s"
    and k: "0 < k" "k < n" and free: "\<And>u. flock_reach u \<Longrightarrow> \<not> blocked fd p (fl_i16Type fl) a b (env k u)"
  shows "\<exists>r w t. file_lock_set n env fd fl fBlock s = Some (r, w, t)"
proof -
  have "\<exists>x. set_loop n env fd (fl_i16Type fl) a b p fBlock nW s = Some x" for nW
    using k(2) s
  proof (induction n arbitrary: nW s)
    case (Suc n)
    obtain out u where rd: "set_round fd (fl_i16Type fl) a b p fBlock nW s = (out, u)"
      by (cases "set_round fd (fl_i16Type fl) a b p fBlock nW s")
    have u: "flock_reach u" using reach_step [OF Suc.prems(2) flock_step.Round [OF v ty rd]] .
    show ?case
    proof (cases out)
      case (Wait nW')
      have e: "flock_reach (env n u)" by (rule env_reach [where env = env, OF env u])
      show ?thesis
      proof (cases "k = n")
        case True
        obtain m where m: "n = Suc m" using True k(1) by (cases n) auto
        obtain out' u' where rd': "set_round fd (fl_i16Type fl) a b p fBlock nW' (env n u) = (out', u')"
          by (cases "set_round fd (fl_i16Type fl) a b p fBlock nW' (env n u)")
        note inv = flock_invD [OF flock.reach_holds [OF e]]
        have "\<exists>r w. out' = Done r w"
        proof (rule ccontr)
          assume "\<not> ?thesis"
          then have nd: "\<And>r w. out' \<noteq> Done r w" by blast
          show False
            using set_round_other(5) [OF inv(1,2) valid_req_wf [OF v] rd' nd] free [OF u] True nd by (simp split: if_split_asm)
        qed
        then show ?thesis using rd rd' Wait by (auto simp: m)
      next
        case False
        then show ?thesis using Suc.IH [OF _ e] Suc.prems(1) rd Wait by simp
      qed
    qed (use rd in simp)
  qed simp
  then show ?thesis unfolding set_is_loop [OF v ty] by (metis prod_cases3)
qed

end
