(* ===== verification/User_Copy.thy ===== *)
theory User_Copy
  imports GJ_Prelude
begin

text \<open>
  Kernel access to user memory, \<^verbatim>\<open>kernel/mm/user_copy.c\<close>: the range check, the page-table check
  of every page an access covers, the copies in chunks that stay within one page on both sides, and
  the scalar accesses used by the futex code.  Memory is a byte per virtual address of the active
  address space (two pages that map one frame are not tracked), and \<open>us_pte\<close> is what
  \<^verbatim>\<open>vmm_read_pte\<close> returns for a page.  A copy also returns the list of its access windows: the
  destination, source and length of every \<^verbatim>\<open>memcpy\<close> between STAC and CLAC.
\<close>

section \<open>Model\<close>

abbreviation (input) GJ_PAGE_SIZE :: u64 where "GJ_PAGE_SIZE \<equiv> 4096"
abbreviation (input) GJ_USER_VA_BASE :: u64 where "GJ_USER_VA_BASE \<equiv> 0x800000"
abbreviation (input) GJ_USER_VA_END :: u64 where "GJ_USER_VA_END \<equiv> 0x80000000"
abbreviation (input) GJ_USER_COPY_MAX :: u64 where "GJ_USER_COPY_MAX \<equiv> 0x7f800000"
abbreviation (input) GJ_USER_ACCESS_READ :: u32 where "GJ_USER_ACCESS_READ \<equiv> 1"
abbreviation (input) GJ_USER_ACCESS_WRITE :: u32 where "GJ_USER_ACCESS_WRITE \<equiv> 2"
abbreviation (input) GJ_USER_PTE_P :: u64 where "GJ_USER_PTE_P \<equiv> 1"
abbreviation (input) GJ_USER_PTE_W :: u64 where "GJ_USER_PTE_W \<equiv> 2"
abbreviation (input) GJ_USER_PTE_U :: u64 where "GJ_USER_PTE_U \<equiv> 4"
abbreviation (input) GJ_USER_PTE_COW :: u64 where "GJ_USER_PTE_COW \<equiv> 0x200"

type_synonym mem = "u64 \<Rightarrow> u8"

record uspace =
  us_mem :: mem
  us_pte :: "u64 \<Rightarrow> u64"

primrec memcpy :: "nat \<Rightarrow> u64 \<Rightarrow> u64 \<Rightarrow> mem \<Rightarrow> mem" where
  "memcpy 0 pOut pIn m = m"
| "memcpy (Suc cbCount) pOut pIn m = memcpy cbCount (pOut + 1) (pIn + 1) (m(pOut := m pIn))"

definition user_copy_chunk_len :: "u64 \<Rightarrow> u64 \<Rightarrow> u64 \<Rightarrow> u64" where
  "user_copy_chunk_len pDst pSrc cbLeft =
     (if cbLeft = 0 then 0
      else
        (let cbOffS = pSrc AND (GJ_PAGE_SIZE - 1);
             cbOffD = pDst AND (GJ_PAGE_SIZE - 1);
             cbChunkS = GJ_PAGE_SIZE - cbOffS;
             cbChunkD = GJ_PAGE_SIZE - cbOffD;
             cbChunk = (if cbChunkS < cbChunkD then cbChunkS else cbChunkD);
             cbChunk = (if cbLeft < cbChunk then cbLeft else cbChunk)
         in if GJ_PAGE_SIZE < cbChunk then GJ_PAGE_SIZE else cbChunk))"

definition user_copy_u32_page_cross :: "u64 \<Rightarrow> bool" where
  "user_copy_u32_page_cross u64Uaddr \<longleftrightarrow> GJ_PAGE_SIZE < (u64Uaddr AND (GJ_PAGE_SIZE - 1)) + 4"

lemma chunk_len: "unat (user_copy_chunk_len d s n) = min (min (4096 - unat s mod 4096) (4096 - unat d mod 4096)) (unat n)"
proof -
  have off: "unat (4096 - (x AND 4095)) = 4096 - unat x mod 4096" for x :: u64
  proof -
    have "unat x mod 4096 < 4096" by simp
    then have "x AND 4095 \<le> 4096" unfolding word_le_nat_alt unat_page_offset by simp
    from unat_sub [OF this] show ?thesis unfolding unat_page_offset by simp
  qed
  define A B where "A = 4096 - unat s mod 4096" and "B = 4096 - unat d mod 4096"
  have off': "unat (4096 - (s AND 4095)) = A" "unat (4096 - (d AND 4095)) = B"
    unfolding A_def B_def by (rule off)+
  have "A \<le> 4096" "B \<le> 4096" by (simp_all add: A_def B_def)
  then have "unat (user_copy_chunk_len d s n) = min (min A B) (unat n)"
    by (auto simp: user_copy_chunk_len_def Let_def word_less_nat_alt off' min_def)
  then show ?thesis by (simp only: A_def B_def)
qed

type_synonym windows = "(u64 \<times> u64 \<times> u64) list"

text \<open>\<open>True\<close> is the C result 0 of the loop, \<open>False\<close> its -1.\<close>

function copy_raw_chunked :: "u64 \<Rightarrow> u64 \<Rightarrow> u64 \<Rightarrow> mem \<Rightarrow> bool \<times> mem \<times> windows" where
  "copy_raw_chunked pD pS cbLeft m =
     (if cbLeft = 0 then (True, m, [])
      else
        (let cbChunk = user_copy_chunk_len pD pS cbLeft
         in if cbChunk = 0 then (False, m, [])
            else
              (case copy_raw_chunked (pD + cbChunk) (pS + cbChunk) (cbLeft - cbChunk)
                      (memcpy (unat cbChunk) pD pS m) of
                 (ok, m, ws) \<Rightarrow> (ok, m, (pD, pS, cbChunk) # ws))))"
  by auto
termination
proof (relation "measure (\<lambda>(_, _, n, _). unat n)")
  fix d s n :: u64 and m :: mem and c
  assume "n \<noteq> 0" "c = user_copy_chunk_len d s n" "c \<noteq> 0"
  then have "unat c \<le> unat n" "0 < unat c" using chunk_len [of d s n] by (simp_all add: unat_gt_0)
  moreover from this(1) have "unat (n - c) = unat n - unat c" by (intro unat_sub) (simp add: word_le_nat_alt)
  ultimately show "((d + c, s + c, n - c, memcpy (unat c) d s m), d, s, n, m) \<in> measure (\<lambda>(_, _, n, _). unat n)"
    by simp
qed simp

declare copy_raw_chunked.simps [simp del]

definition user_range_ok :: "u64 \<Rightarrow> u64 \<Rightarrow> bool" where
  "user_range_ok u64Va u64Cb \<longleftrightarrow>
     (if u64Cb = 0 then True
      else if GJ_USER_COPY_MAX < u64Cb then False
      else if u64Va < GJ_USER_VA_BASE then False
      else if GJ_USER_VA_END \<le> u64Va then False
      else
        (let u64End = u64Va + u64Cb
         in if u64End < u64Va then False
            else if GJ_USER_VA_END < u64End then False
            else True))"

text \<open>The page loop of \<^verbatim>\<open>user_range_mapped_access\<close>.\<close>

definition pte_allows :: "bool \<Rightarrow> u64 \<Rightarrow> bool" where
  "pte_allows fWrite u64Pte \<longleftrightarrow>
     (if u64Pte AND GJ_USER_PTE_P = 0 then False
      else if u64Pte AND GJ_USER_PTE_U = 0 then False
      else if fWrite then \<not> (u64Pte AND GJ_USER_PTE_W = 0 \<and> u64Pte AND GJ_USER_PTE_COW = 0)
      else True)"

partial_function (option) map_loop :: "(u64 \<Rightarrow> u64) \<Rightarrow> bool \<Rightarrow> u64 \<Rightarrow> u64 \<Rightarrow> bool option" where
  "map_loop pte fWrite u64End u64Page =
     (if \<not> pte_allows fWrite (pte u64Page) then Some False
      else if u64End \<le> u64Page + GJ_PAGE_SIZE then Some True
      else map_loop pte fWrite u64End (u64Page + GJ_PAGE_SIZE))"

text \<open>The loop returns for every range it is called on (\<open>map_loop_exact\<close> below), so the value of
  \<open>the\<close> is always that of a finished loop.\<close>

definition user_range_mapped_access :: "(u64 \<Rightarrow> u64) \<Rightarrow> u64 \<Rightarrow> u64 \<Rightarrow> u32 \<Rightarrow> bool" where
  "user_range_mapped_access pte u64Va u64Cb u32Access \<longleftrightarrow>
     (if \<not> user_range_ok u64Va u64Cb then False
      else if u64Cb = 0 then True
      else
        (let u32Access = (if u32Access = 0 then GJ_USER_ACCESS_READ else u32Access);
             fWrite = (u32Access AND GJ_USER_ACCESS_WRITE \<noteq> 0)
         in the (map_loop pte fWrite (u64Va + u64Cb) (u64Va AND NOT (GJ_PAGE_SIZE - 1)))))"

definition user_range_mapped :: "(u64 \<Rightarrow> u64) \<Rightarrow> u64 \<Rightarrow> u64 \<Rightarrow> bool" where
  "user_range_mapped pte u64Va u64Cb = user_range_mapped_access pte u64Va u64Cb GJ_USER_ACCESS_READ"

text \<open>A kernel pointer is \<open>None\<close> for NULL.\<close>

definition copy_from_user :: "u64 option \<Rightarrow> u64 \<Rightarrow> u64 \<Rightarrow> uspace \<Rightarrow> gj_status \<times> uspace \<times> windows" where
  "copy_from_user pKdst u64Usrc cb s =
     (case pKdst of
        None \<Rightarrow> (GJ_ERR_INVAL, s, [])
      | Some d \<Rightarrow>
          if cb = 0 then (GJ_OK, s, [])
          else if \<not> user_range_mapped_access (us_pte s) u64Usrc cb GJ_USER_ACCESS_READ then (GJ_ERR_FAULT, s, [])
          else
            (case copy_raw_chunked d u64Usrc cb (us_mem s) of
               (ok, m, ws) \<Rightarrow> (if ok then GJ_OK else GJ_ERR_FAULT, s\<lparr>us_mem := m\<rparr>, ws)))"

definition copy_to_user :: "u64 \<Rightarrow> u64 option \<Rightarrow> u64 \<Rightarrow> uspace \<Rightarrow> gj_status \<times> uspace \<times> windows" where
  "copy_to_user u64Udst pKsrc cb s =
     (case pKsrc of
        None \<Rightarrow> (GJ_ERR_INVAL, s, [])
      | Some k \<Rightarrow>
          if cb = 0 then (GJ_OK, s, [])
          else if \<not> user_range_mapped_access (us_pte s) u64Udst cb GJ_USER_ACCESS_WRITE then (GJ_ERR_FAULT, s, [])
          else
            (case copy_raw_chunked u64Udst k cb (us_mem s) of
               (ok, m, ws) \<Rightarrow> (if ok then GJ_OK else GJ_ERR_FAULT, s\<lparr>us_mem := m\<rparr>, ws)))"

text \<open>One 32-bit access of the machine, little endian.\<close>

definition load32 :: "mem \<Rightarrow> u64 \<Rightarrow> u32" where
  "load32 m a = ucast (m a) OR push_bit 8 (ucast (m (a + 1))) OR push_bit 16 (ucast (m (a + 2)))
     OR push_bit 24 (ucast (m (a + 3)))"

definition store32 :: "u64 \<Rightarrow> u32 \<Rightarrow> mem \<Rightarrow> mem" where
  "store32 a v m = m(a := ucast v, a + 1 := ucast (drop_bit 8 v), a + 2 := ucast (drop_bit 16 v),
     a + 3 := ucast (drop_bit 24 v))"

primrec load_bytes :: "mem \<Rightarrow> u64 \<Rightarrow> nat list \<Rightarrow> u32 \<Rightarrow> u32" where
  "load_bytes m u64Uaddr [] u32Tmp = u32Tmp"
| "load_bytes m u64Uaddr (iByte # is) u32Tmp =
     load_bytes m u64Uaddr is (u32Tmp OR push_bit (iByte * 8) (ucast (m (u64Uaddr + of_nat iByte))))"

primrec store_bytes :: "u64 \<Rightarrow> u32 \<Rightarrow> nat list \<Rightarrow> mem \<Rightarrow> mem" where
  "store_bytes u64Uaddr u32Val [] m = m"
| "store_bytes u64Uaddr u32Val (iByte # is) m =
     store_bytes u64Uaddr u32Val is
       (m(u64Uaddr + of_nat iByte := ucast (drop_bit (iByte * 8) u32Val AND 0xff)))"

definition user_load_u32 :: "u64 \<Rightarrow> uspace \<Rightarrow> gj_status + u32" where
  "user_load_u32 u64Uaddr s =
     (if \<not> user_range_mapped_access (us_pte s) u64Uaddr 4 GJ_USER_ACCESS_READ then Inl GJ_ERR_FAULT
      else if user_copy_u32_page_cross u64Uaddr then Inr (load_bytes (us_mem s) u64Uaddr [0, 1, 2, 3] 0)
      else Inr (load32 (us_mem s) u64Uaddr))"

definition user_store_u32 :: "u64 \<Rightarrow> u32 \<Rightarrow> uspace \<Rightarrow> gj_status \<times> uspace" where
  "user_store_u32 u64Uaddr u32Val s =
     (if \<not> user_range_mapped_access (us_pte s) u64Uaddr 4 GJ_USER_ACCESS_WRITE then (GJ_ERR_FAULT, s)
      else if user_copy_u32_page_cross u64Uaddr
        then (GJ_OK, s\<lparr>us_mem := store_bytes u64Uaddr u32Val [0, 1, 2, 3] (us_mem s)\<rparr>)
      else (GJ_OK, s\<lparr>us_mem := store32 u64Uaddr u32Val (us_mem s)\<rparr>))"

section \<open>Copies\<close>

lemma memcpy_add:
  "memcpy (a + b) d s m = memcpy b (d + of_nat a) (s + of_nat a) (memcpy a d s m)"
  by (induction a arbitrary: d s m) (simp_all add: algebra_simps)

lemma memcpy_frame: "(\<And>i. i < n \<Longrightarrow> x \<noteq> d + of_nat i) \<Longrightarrow> memcpy n d s m x = m x"
proof (induction n arbitrary: d s m)
  case (Suc n)
  have "memcpy n (d + 1) (s + 1) (m(d := m s)) x = (m(d := m s)) x"
  proof (rule Suc.IH)
    fix i assume "i < n"
    with Suc.prems [of "Suc i"] show "x \<noteq> d + 1 + of_nat i" by (simp add: algebra_simps)
  qed
  moreover have "x \<noteq> d" using Suc.prems [of 0] by simp
  ultimately show ?case by simp
qed simp

lemma of_nat_inj64: "i < 2 ^ 64 \<Longrightarrow> j < 2 ^ 64 \<Longrightarrow> (of_nat i :: u64) = of_nat j \<longleftrightarrow> i = j"
  by (simp add: word_of_nat_eq_iff take_bit_nat_eq_self)

lemma memcpy_copies:
  assumes "n \<le> 2 ^ 64" and "\<And>j k. j < n \<Longrightarrow> k < n \<Longrightarrow> d + of_nat j \<noteq> s + of_nat k" and "i < n"
  shows "memcpy n d s m (d + of_nat i) = m (s + of_nat i)"
  using assms
proof (induction n arbitrary: d s m i)
  case (Suc n)
  let ?m = "m(d := m s)"
  have dis: "d + 1 + of_nat j \<noteq> s + 1 + of_nat k" if "j < n" "k < n" for j k
    using Suc.prems(2) [of "Suc j" "Suc k"] that by (simp add: algebra_simps)
  show ?case
  proof (cases i)
    case 0
    have "memcpy n (d + 1) (s + 1) ?m d = ?m d"
    proof (rule memcpy_frame)
      fix j assume "j < n"
      then have "(of_nat (Suc j) :: u64) \<noteq> of_nat 0" using Suc.prems(1) of_nat_inj64 [of "Suc j" 0] by simp
      then show "d \<noteq> d + 1 + of_nat j" by (simp add: algebra_simps)
    qed
    then show ?thesis using 0 by simp
  next
    case (Suc j)
    have "memcpy n (d + 1) (s + 1) ?m (d + 1 + of_nat j) = ?m (s + 1 + of_nat j)"
      by (rule Suc.IH) (use Suc.prems Suc dis in auto)
    moreover have "d \<noteq> s + 1 + of_nat j"
      using Suc.prems(2) [of 0 "Suc j"] Suc.prems(3) Suc by (simp add: algebra_simps)
    ultimately show ?thesis using Suc by (simp add: algebra_simps)
  qed
qed simp

text \<open>An access window that stays within one page on both sides.\<close>

definition one_page :: "u64 \<times> u64 \<times> u64 \<Rightarrow> bool" where
  "one_page w \<longleftrightarrow> (case w of (d, s, n) \<Rightarrow>
     0 < n \<and> unat d mod 4096 + unat n \<le> 4096 \<and> unat s mod 4096 + unat n \<le> 4096)"

lemma copy_raw_exact:
  "\<exists>ws. copy_raw_chunked d s n m = (True, memcpy (unat n) d s m, ws) \<and> (\<forall>w \<in> set ws. one_page w)
     \<and> sum_list (map (\<lambda>(_, _, n). unat n) ws) = unat n"
proof (induction d s n m rule: copy_raw_chunked.induct)
  case (1 d s n m)
  show ?case
  proof (cases "n = 0")
    case True
    then show ?thesis by (simp add: copy_raw_chunked.simps)
  next
    case False
    define c where "c = user_copy_chunk_len d s n"
    have cl: "unat c = min (min (4096 - unat s mod 4096) (4096 - unat d mod 4096)) (unat n)"
      unfolding c_def by (rule chunk_len)
    have md: "unat s mod 4096 < 4096" "unat d mod 4096 < 4096" by simp_all
    have "0 < unat n" using False by (simp add: unat_gt_0)
    then have c0: "0 < unat c" using cl md by simp
    then have cn: "c \<noteq> 0" by auto
    have le: "unat c \<le> unat n" using cl by linarith
    then have sub: "unat (n - c) = unat n - unat c" by (intro unat_sub) (simp add: word_le_nat_alt)
    obtain ws where ws: "copy_raw_chunked (d + c) (s + c) (n - c) (memcpy (unat c) d s m) =
        (True, memcpy (unat (n - c)) (d + c) (s + c) (memcpy (unat c) d s m), ws)"
      "\<forall>w \<in> set ws. one_page w" "sum_list (map (\<lambda>(_, _, n). unat n) ws) = unat (n - c)"
      using "1.IH" [OF False c_def cn] by blast
    have "memcpy (unat (n - c)) (d + c) (s + c) (memcpy (unat c) d s m) = memcpy (unat n) d s m"
      using memcpy_add [of "unat c" "unat n - unat c" d s m] le by (simp add: sub)
    moreover have "one_page (d, s, c)"
    proof -
      have "unat c \<le> 4096 - unat s mod 4096" "unat c \<le> 4096 - unat d mod 4096" using cl by linarith+
      with md have "unat d mod 4096 + unat c \<le> 4096" "unat s mod 4096 + unat c \<le> 4096" by linarith+
      with c0 show ?thesis by (simp add: one_page_def word_less_nat_alt)
    qed
    ultimately show ?thesis
      using False cn ws le sub by (subst copy_raw_chunked.simps) (simp add: Let_def flip: c_def)
  qed
qed

section \<open>Ranges\<close>

lemma range_ok_iff:
  "user_range_ok va cb \<longleftrightarrow> cb = 0 \<or> 0x800000 \<le> unat va \<and> unat va + unat cb \<le> 0x80000000"
proof (cases "unat va + unat cb < 2 ^ 64")
  case True
  then have "unat (va + cb) = unat va + unat cb" by (simp add: unat_plus_if')
  moreover have "cb = 0 \<longleftrightarrow> unat cb = 0" by (simp add: unat_eq_0)
  ultimately show ?thesis
    by (simp add: user_range_ok_def Let_def word_less_nat_alt word_le_nat_alt)
next
  case False
  then show ?thesis
    by (auto simp: user_range_ok_def Let_def word_less_nat_alt word_le_nat_alt unat_eq_0)
qed

definition page_of :: "u64 \<Rightarrow> u64" where
  "page_of a = a AND NOT 4095"

lemma unat_page_of: "unat (page_of a) = unat a - unat a mod 4096"
  by (simp only: page_of_def unat_page_floor)

lemma page_of_eq:
  assumes "unat p mod 4096 = 0" and "unat p \<le> unat a" "unat a < unat p + 4096"
  shows "page_of a = p"
proof -
  have "unat a mod 4096 = unat a - unat p"
  proof -
    have "(unat a - unat p + unat p) mod 4096 = (unat a - unat p) mod 4096"
      using assms(1) by (metis add.right_neutral mod_add_right_eq)
    then show ?thesis using assms by simp
  qed
  then have "unat (page_of a) = unat p" using assms by (simp add: unat_page_of)
  then show ?thesis by (simp add: unat_eq_iff)
qed

lemma map_loop_exact:
  assumes "unat p mod 4096 = 0" and "unat p < unat e" and e: "unat e \<le> 2 ^ 63"
  shows "map_loop pte w e p = Some (\<forall>a. p \<le> a \<and> a < e \<longrightarrow> pte_allows w (pte (page_of a)))"
  using assms(1,2)
proof (induction "unat e - unat p" arbitrary: p rule: less_induct)
  case less
  have up: "unat (p + 4096) = unat p + 4096" using less.prems(2) e by (simp add: unat_plus_if')
  have first: "page_of a = p" if "p \<le> a" "unat a < unat p + 4096" for a
    using that less.prems(1) by (intro page_of_eq) (simp_all add: word_le_nat_alt)
  have pp: "page_of p = p" by (rule first) simp_all
  show ?case
  proof (cases "pte_allows w (pte p)")
    case False
    have "\<not> (\<forall>a. p \<le> a \<and> a < e \<longrightarrow> pte_allows w (pte (page_of a)))"
      using False pp less.prems(2) by (metis order_refl word_less_nat_alt)
    then show ?thesis using False by (subst map_loop.simps) simp
  next
    case ok: True
    show ?thesis
    proof (cases "e \<le> p + 4096")
      case True
      have "pte_allows w (pte (page_of a))" if "p \<le> a" "a < e" for a
      proof -
        have "unat a < unat p + 4096" using that(2) True up by (simp add: word_less_nat_alt word_le_nat_alt)
        from first [OF that(1) this] ok show ?thesis by simp
      qed
      then show ?thesis using ok True by (subst map_loop.simps) simp
    next
      case False
      then have lt: "unat (p + 4096) < unat e" by (simp add: word_le_nat_alt)
      have "map_loop pte w e (p + 4096) = Some (\<forall>a. p + 4096 \<le> a \<and> a < e \<longrightarrow> pte_allows w (pte (page_of a)))"
        by (rule less.hyps) (use up less.prems lt in simp_all)
      moreover have "(\<forall>a. p + 4096 \<le> a \<and> a < e \<longrightarrow> pte_allows w (pte (page_of a))) \<longleftrightarrow>
          (\<forall>a. p \<le> a \<and> a < e \<longrightarrow> pte_allows w (pte (page_of a)))"
      proof (intro iffI allI impI)
        fix a assume r: "\<forall>a. p + 4096 \<le> a \<and> a < e \<longrightarrow> pte_allows w (pte (page_of a))" and a: "p \<le> a \<and> a < e"
        show "pte_allows w (pte (page_of a))"
        proof (cases "p + 4096 \<le> a")
          case False
          then have "unat a < unat p + 4096" by (simp add: word_le_nat_alt up)
          then show ?thesis using first [of a] a ok by simp
        qed (use r a in blast)
      next
        fix a assume r: "\<forall>a. p \<le> a \<and> a < e \<longrightarrow> pte_allows w (pte (page_of a))" and a: "p + 4096 \<le> a \<and> a < e"
        have "p \<le> a" using a by (simp add: word_le_nat_alt up)
        with r a show "pte_allows w (pte (page_of a))" by blast
      qed
      ultimately show ?thesis using ok False by (subst map_loop.simps) simp
    qed
  qed
qed

lemma mapped_exact:
  "user_range_mapped_access pte va cb acc \<longleftrightarrow> user_range_ok va cb \<and>
     (\<forall>a. unat va \<le> unat a \<and> unat a < unat va + unat cb \<longrightarrow> pte_allows (acc AND 2 \<noteq> 0) (pte (page_of a)))"
proof (cases "user_range_ok va cb \<and> cb \<noteq> 0")
  case False
  then show ?thesis by (auto simp: user_range_mapped_access_def)
next
  case True
  then have r: "unat va + unat cb \<le> 0x80000000" "0 < unat cb" by (auto simp: range_ok_iff unat_gt_0)
  then have e: "unat (va + cb) = unat va + unat cb" by (simp add: unat_plus_if')
  let ?w = "acc AND 2 \<noteq> 0"
  have pv: "unat (page_of va) \<le> unat va" "unat (page_of va) mod 4096 = 0"
    by (simp_all add: unat_page_of minus_mod_eq_mult_div)
  have "map_loop pte ?w (va + cb) (page_of va) =
      Some (\<forall>a. page_of va \<le> a \<and> a < va + cb \<longrightarrow> pte_allows ?w (pte (page_of a)))"
    by (rule map_loop_exact) (use pv r e in simp_all)
  moreover have "(\<forall>a. page_of va \<le> a \<and> a < va + cb \<longrightarrow> pte_allows ?w (pte (page_of a))) \<longleftrightarrow>
      (\<forall>a. unat va \<le> unat a \<and> unat a < unat va + unat cb \<longrightarrow> pte_allows ?w (pte (page_of a)))"
  proof (intro iffI allI impI)
    fix a :: u64 assume "\<forall>a. page_of va \<le> a \<and> a < va + cb \<longrightarrow> pte_allows ?w (pte (page_of a))"
      and "unat va \<le> unat a \<and> unat a < unat va + unat cb"
    then show "pte_allows ?w (pte (page_of a))" using pv(1) by (simp add: word_le_nat_alt word_less_nat_alt e)
  next
    fix a :: u64 assume h: "\<forall>a. unat va \<le> unat a \<and> unat a < unat va + unat cb \<longrightarrow> pte_allows ?w (pte (page_of a))"
      and a: "page_of va \<le> a \<and> a < va + cb"
    show "pte_allows ?w (pte (page_of a))"
    proof (cases "unat va \<le> unat a")
      case True
      then show ?thesis using h a by (simp add: word_less_nat_alt e)
    next
      case False
      have "unat va < unat (page_of va) + 4096" by (simp add: unat_page_of)
      then have "page_of a = page_of va"
        using a pv False by (intro page_of_eq) (simp_all add: word_le_nat_alt)
      then show ?thesis using h r(2) by auto
    qed
  qed
  moreover have "(if acc = 0 then 1 else acc) AND 2 = acc AND 2" by simp
  ultimately show ?thesis using True by (simp add: user_range_mapped_access_def Let_def page_of_def)
qed

section \<open>Scalars\<close>

lemma load_bytes_eq: "load_bytes m a [0, 1, 2, 3] 0 = load32 m a"
  by (simp add: load32_def or.assoc)

lemma store_bytes_eq: "store_bytes a v [0, 1, 2, 3] m = store32 a v m"
proof -
  have "(ucast (x AND 0xff) :: u8) = ucast x" for x :: u32
  proof -
    have "x AND 0xff = take_bit 8 x" by (simp add: take_bit_eq_mask mask_eq_exp_minus_1)
    then show ?thesis by (simp add: bit_eq_iff bit_simps)
  qed
  then show ?thesis by (simp add: store32_def)
qed

lemma load_store32: "load32 (store32 a v m) a = v"
proof -
  have "a + 1 \<noteq> a" "a + 2 \<noteq> a" "a + 3 \<noteq> a" "a + 2 \<noteq> a + 1" "a + 3 \<noteq> a + 1" "a + 3 \<noteq> a + 2" by simp_all
  then have "load32 (store32 a v m) a = ucast (ucast v :: u8) OR push_bit 8 (ucast (ucast (drop_bit 8 v) :: u8))
      OR push_bit 16 (ucast (ucast (drop_bit 16 v) :: u8)) OR push_bit 24 (ucast (ucast (drop_bit 24 v) :: u8))"
    by (simp add: load32_def store32_def)
  also have "\<dots> = v"
  proof (rule bit_word_eqI)
    fix n assume "n < LENGTH(32)"
    then show "bit (ucast (ucast v :: u8) OR push_bit 8 (ucast (ucast (drop_bit 8 v) :: u8))
      OR push_bit 16 (ucast (ucast (drop_bit 16 v) :: u8)) OR push_bit 24 (ucast (ucast (drop_bit 24 v) :: u8)) :: u32) n = bit v n"
    proof -
      consider "n < 8" | "8 \<le> n" "n < 16" | "16 \<le> n" "n < 24" | "24 \<le> n" by linarith
      then show ?thesis by cases (use \<open>n < LENGTH(32)\<close> in \<open>auto simp: bit_simps\<close>)
    qed
  qed
  finally show ?thesis .
qed

lemma store32_frame: "x \<notin> {a, a + 1, a + 2, a + 3} \<Longrightarrow> store32 a v m x = m x"
  by (simp add: store32_def)

section \<open>Properties\<close>

text \<open>Sixteen bytes of user memory that cross from a writable page into a read-only one.\<close>

definition wit_us :: uspace where
  "wit_us = \<lparr>us_mem = (\<lambda>a. ucast a),
     us_pte = (\<lambda>p. if p = 0x800000 then 7 else if p = 0x801000 then 7 else if p = 0x802000 then 5 else 0)\<rparr>"

text \<open>
  C36: the range check accepts exactly the empty range and the ranges inside the user window,
  computed without wrap-around, and the page check accepts such a range exactly when the page of
  every byte of it is present, is a user page and, for a write, is writable or copy-on-write; the
  page loop ends for every range it is given.
\<close>

theorem user_range_exact:
  "(user_range_ok va cb \<longleftrightarrow> cb = 0 \<or> 0x800000 \<le> unat va \<and> unat va + unat cb \<le> 0x80000000)
   \<and> (user_range_mapped_access pte va cb acc \<longleftrightarrow> user_range_ok va cb \<and>
       (\<forall>a. unat va \<le> unat a \<and> unat a < unat va + unat cb \<longrightarrow>
          pte (page_of a) AND 1 \<noteq> 0 \<and> pte (page_of a) AND 4 \<noteq> 0
          \<and> (acc AND 2 \<noteq> 0 \<longrightarrow> pte (page_of a) AND 2 \<noteq> 0 \<or> pte (page_of a) AND 0x200 \<noteq> 0)))"
  unfolding mapped_exact pte_allows_def using range_ok_iff [of va cb] by auto

theorem user_range_exact_witness:
  "user_range_ok 0x800ff0 32 \<and> \<not> user_range_ok 0x7ffffff0 32 \<and> \<not> user_range_ok (- 16) 32"
  using user_range_exact [where va = "0x800ff0" and cb = 32] user_range_exact [where va = "0x7ffffff0" and cb = 32]
    user_range_exact [where va = "- 16" and cb = 32] by simp

text \<open>
  C35: a copy to user memory succeeds exactly for a kernel source and a range every page of which the
  user may write; it then is one \<^verbatim>\<open>memcpy\<close> of the whole range, done in windows that each stay inside
  one page on both sides and add up to the length, and it changes only bytes of the range, on pages
  the user may write.  A refused copy changes nothing.
\<close>

theorem copy_to_user_confined:
  assumes "copy_to_user dst (Some src) cb s = (st, t, ws)"
  shows "(st = GJ_OK \<longleftrightarrow> user_range_mapped_access (us_pte s) dst cb GJ_USER_ACCESS_WRITE)
    \<and> (st = GJ_OK \<or> st = GJ_ERR_FAULT \<and> t = s \<and> ws = []) \<and> us_pte t = us_pte s
    \<and> (st = GJ_OK \<longrightarrow> us_mem t = memcpy (unat cb) dst src (us_mem s)
        \<and> (\<forall>w \<in> set ws. one_page w) \<and> sum_list (map (\<lambda>(_, _, n). unat n) ws) = unat cb)
    \<and> (\<forall>a. us_mem t a \<noteq> us_mem s a \<longrightarrow>
        unat dst \<le> unat a \<and> unat a < unat dst + unat cb \<and> pte_allows True (us_pte s (page_of a)))"
proof (cases "cb \<noteq> 0 \<and> user_range_mapped_access (us_pte s) dst cb GJ_USER_ACCESS_WRITE")
  case False
  then have "if cb = 0 then st = GJ_OK \<and> t = s \<and> ws = [] else st = GJ_ERR_FAULT \<and> t = s \<and> ws = []"
    using assms by (auto simp: copy_to_user_def split: if_split_asm)
  then show ?thesis using False by (auto simp: mapped_exact range_ok_iff split: if_split_asm)
next
  case True
  obtain ws' where c: "copy_raw_chunked dst src cb (us_mem s) = (True, memcpy (unat cb) dst src (us_mem s), ws')"
    "\<forall>w \<in> set ws'. one_page w" "sum_list (map (\<lambda>(_, _, n). unat n) ws') = unat cb"
    using copy_raw_exact [of dst src cb "us_mem s"] by blast
  have r: "st = GJ_OK" "t = s\<lparr>us_mem := memcpy (unat cb) dst src (us_mem s)\<rparr>" "ws = ws'"
    using assms True c(1) by (simp_all add: copy_to_user_def)
  have m: "unat dst + unat cb \<le> 0x80000000"
    "\<And>a. unat dst \<le> unat a \<and> unat a < unat dst + unat cb \<Longrightarrow> pte_allows True (us_pte s (page_of a))"
    using True by (auto simp: mapped_exact range_ok_iff)
  have "unat dst \<le> unat a \<and> unat a < unat dst + unat cb" if ch: "us_mem t a \<noteq> us_mem s a" for a
  proof -
    obtain i where i: "i < unat cb" "a = dst + of_nat i"
      using ch memcpy_frame [of "unat cb" a dst src "us_mem s"] r(2) by auto
    have "a = of_nat (unat dst + i)" using i(2) by simp
    moreover have "unat dst + i < 2 ^ 64" using i(1) m(1) by simp
    ultimately have "unat a = unat dst + i" by (simp only: unat_of_nat) (simp add: take_bit_nat_eq_self)
    then show ?thesis using i(1) by simp
  qed
  with m(2) r c True show ?thesis by simp
qed

theorem copy_to_user_confined_witness:
  "\<exists>t ws st' t' ws'. copy_to_user 0x800ff8 (Some 0x100000) 16 wit_us = (GJ_OK, t, ws) \<and> sum_list (map (\<lambda>(_, _, n). unat n) ws) = 16
     \<and> copy_to_user 0x801ff8 (Some 0x100000) 16 wit_us = (st', t', ws') \<and> st' = GJ_ERR_FAULT \<and> t' = wit_us"
proof -
  obtain st t ws where a: "copy_to_user 0x800ff8 (Some 0x100000) 16 wit_us = (st, t, ws)" by (metis prod_cases3)
  obtain st' t' ws' where b: "copy_to_user 0x801ff8 (Some 0x100000) 16 wit_us = (st', t', ws')" by (metis prod_cases3)
  have "page_of a = 0x800000 \<or> page_of a = 0x801000"
    if "0x800ff8 \<le> unat a" "unat a < 0x801008" for a
    using page_of_eq [where p = "0x800000" and a = a] page_of_eq [where p = "0x801000" and a = a] that by (cases "unat a < 0x801000") auto
  then have "pte_allows True (us_pte wit_us (page_of a))" if "0x800ff8 \<le> unat a" "unat a < 0x801008" for a
    using that by (fastforce simp: wit_us_def pte_allows_def)
  then have "user_range_mapped_access (us_pte wit_us) 0x800ff8 16 GJ_USER_ACCESS_WRITE"
    unfolding mapped_exact by (simp add: range_ok_iff)
  with copy_to_user_confined [OF a] have "st = GJ_OK" "sum_list (map (\<lambda>(_, _, n). unat n) ws) = 16" by simp_all
  moreover have "\<not> user_range_mapped_access (us_pte wit_us) 0x801ff8 16 GJ_USER_ACCESS_WRITE"
  proof -
    have "page_of 0x802000 = 0x802000" by (simp add: page_of_def)
    then show ?thesis
      unfolding mapped_exact by (auto simp: wit_us_def pte_allows_def intro!: exI [of _ "0x802000"])
  qed
  with copy_to_user_confined [OF b] have "st' = GJ_ERR_FAULT" "t' = wit_us" by auto
  ultimately show ?thesis using a b by blast
qed

text \<open>
  A copy from user memory to a kernel buffer succeeds exactly when every page of the source range
  is a present user page, and then every byte of the buffer equals the byte of the user range (buffer
  and range disjoint) and no byte outside the buffer changes; a refused copy changes nothing.
\<close>

lemma copy_from_user_exact:
  assumes "copy_from_user (Some dst) src cb s = (st, t, ws)"
  shows "(st = GJ_OK \<longleftrightarrow> user_range_mapped_access (us_pte s) src cb GJ_USER_ACCESS_READ)
    \<and> (st = GJ_OK \<or> st = GJ_ERR_FAULT \<and> t = s)
    \<and> (\<forall>a. (\<forall>i < unat cb. a \<noteq> dst + of_nat i) \<longrightarrow> us_mem t a = us_mem s a)
    \<and> (st = GJ_OK \<longrightarrow> (\<forall>w \<in> set ws. one_page w) \<and>
        ((\<forall>j < unat cb. \<forall>k < unat cb. dst + of_nat j \<noteq> src + of_nat k) \<longrightarrow>
          (\<forall>i < unat cb. us_mem t (dst + of_nat i) = us_mem s (src + of_nat i))))"
proof (cases "cb \<noteq> 0 \<and> user_range_mapped_access (us_pte s) src cb GJ_USER_ACCESS_READ")
  case False
  then have "if cb = 0 then st = GJ_OK \<and> t = s \<and> ws = [] else st = GJ_ERR_FAULT \<and> t = s \<and> ws = []"
    using assms by (auto simp: copy_from_user_def split: if_split_asm)
  then show ?thesis using False by (auto simp: mapped_exact range_ok_iff split: if_split_asm)
next
  case True
  obtain ws' where c: "copy_raw_chunked dst src cb (us_mem s) = (True, memcpy (unat cb) dst src (us_mem s), ws')"
    "\<forall>w \<in> set ws'. one_page w"
    using copy_raw_exact [of dst src cb "us_mem s"] by blast
  have r: "st = GJ_OK" "t = s\<lparr>us_mem := memcpy (unat cb) dst src (us_mem s)\<rparr>" "ws = ws'"
    using assms True c(1) by (simp_all add: copy_from_user_def)
  have "unat cb < 2 ^ 64" using unsigned_less [of cb] by simp
  then have "unat cb \<le> 2 ^ 64" by (rule less_imp_le)
  then have "us_mem t (dst + of_nat i) = us_mem s (src + of_nat i)"
    if "\<forall>j < unat cb. \<forall>k < unat cb. dst + of_nat j \<noteq> src + of_nat k" "i < unat cb" for i
    using that r(2) by (simp add: memcpy_copies)
  moreover have "us_mem t a = us_mem s a" if "\<forall>i < unat cb. a \<noteq> dst + of_nat i" for a
    using that memcpy_frame [of "unat cb" a dst src "us_mem s"] r(2) by simp
  ultimately show ?thesis using True r c(2) by simp
qed

lemma wit_read: "user_range_mapped_access (us_pte wit_us) 0x801ffc 8 GJ_USER_ACCESS_READ"
proof -
  have "page_of a = 0x801000 \<or> page_of a = 0x802000" if "0x801ffc \<le> unat a" "unat a < 0x802004" for a
    using page_of_eq [where p = "0x801000" and a = a] page_of_eq [where p = "0x802000" and a = a] that
    by (cases "unat a < 0x802000") auto
  then show ?thesis unfolding mapped_exact by (auto simp: range_ok_iff wit_us_def pte_allows_def)
qed

text \<open>
  A 32-bit store to user memory that succeeds is read back by the load as the same value, whether
  the word lies in one page (one machine access) or crosses into the next (byte by byte), and it
  changes no byte but its four; a refused store changes nothing, and a load is refused exactly when
  a page of the word is not a present user page.
\<close>

lemma user_u32_roundtrip:
  "(case user_store_u32 a v s of
      (st, t) \<Rightarrow>
        if user_range_mapped_access (us_pte s) a 4 GJ_USER_ACCESS_WRITE
        then st = GJ_OK \<and> user_load_u32 a t = Inr v \<and> (\<forall>x. x \<notin> {a, a + 1, a + 2, a + 3} \<longrightarrow> us_mem t x = us_mem s x)
        else st = GJ_ERR_FAULT \<and> t = s)
   \<and> user_load_u32 a s = (if user_range_mapped_access (us_pte s) a 4 GJ_USER_ACCESS_READ
        then Inr (load32 (us_mem s) a) else Inl GJ_ERR_FAULT)"
proof -
  have "user_range_mapped_access (us_pte s) a 4 GJ_USER_ACCESS_READ"
    if "user_range_mapped_access (us_pte s) a 4 GJ_USER_ACCESS_WRITE"
    using that by (auto simp: mapped_exact pte_allows_def split: if_split_asm)
  then show ?thesis
    unfolding user_store_u32_def user_load_u32_def store_bytes_eq load_bytes_eq
    by (auto simp: load_store32 store32_frame)
qed

end
