(* ===== verification/Pmm_Core.thy ===== *)
theory Pmm_Core
  imports GJ_Interfaces
begin

text \<open>
  The order-0 physical page freelist, \<^verbatim>\<open>kernel/shared/pmm_freelist.c\<close>.  The free pages are
  threaded through their own first word: \<open>pm_pNext\<close> is that word of every page address, and 0 is
  the null pointer.  Addresses are 64-bit and counts 32-bit, both with wrap-around, so
  initialisation is a partial function: with a limit in the last page of the address space its
  loop would not end.
\<close>

section \<open>Model\<close>

abbreviation (input) GJ_PMM_CORE_PAGE_SIZE :: u64 where "GJ_PMM_CORE_PAGE_SIZE \<equiv> 4096"

record pmm_core =
  pm_pNext :: "u64 \<Rightarrow> u64"
  pm_pFree :: u64
  pm_u64Base :: u64
  pm_u64Limit :: u64
  pm_cFree :: u32
  pm_cTotal :: u32

partial_function (option) pmm_init_loop :: "u64 \<Rightarrow> pmm_core \<Rightarrow> pmm_core option" where
  "pmm_init_loop pa s =
     (if pa + GJ_PMM_CORE_PAGE_SIZE \<le> pm_u64Limit s
      then pmm_init_loop (pa + GJ_PMM_CORE_PAGE_SIZE)
             (s\<lparr>pm_pNext := (pm_pNext s)(pa := pm_pFree s), pm_pFree := pa,
                pm_cFree := pm_cFree s + 1, pm_cTotal := pm_cTotal s + 1\<rparr>)
      else Some s)"

definition gj_pmm_core_init :: "u64 \<Rightarrow> u64 \<Rightarrow> pmm_core \<Rightarrow> pmm_core option" where
  "gj_pmm_core_init u64Base u64Limit s =
     (let s = s\<lparr>pm_pFree := 0, pm_cFree := 0, pm_cTotal := 0, pm_u64Base := u64Base, pm_u64Limit := u64Limit\<rparr>
      in if u64Limit \<le> u64Base then Some s else pmm_init_loop u64Base s)"

text \<open>The result 0 is the C result for an empty list.\<close>

definition gj_pmm_core_alloc :: "pmm_core \<Rightarrow> u64 \<times> pmm_core" where
  "gj_pmm_core_alloc s =
     (let n = pm_pFree s
      in if n = 0 then (0, s)
         else (n, s\<lparr>pm_pFree := pm_pNext s n,
                    pm_cFree := (if 0 < pm_cFree s then pm_cFree s - 1 else pm_cFree s),
                    pm_pNext := (pm_pNext s)(n := 0)\<rparr>))"

definition gj_pmm_core_free :: "u64 \<Rightarrow> pmm_core \<Rightarrow> pmm_core" where
  "gj_pmm_core_free u64Pa s =
     (if u64Pa < pm_u64Base s \<or> pm_u64Limit s \<le> u64Pa then s
      else if u64Pa AND (GJ_PMM_CORE_PAGE_SIZE - 1) \<noteq> 0 then s
      else s\<lparr>pm_pNext := (pm_pNext s)(u64Pa := pm_pFree s), pm_pFree := u64Pa, pm_cFree := pm_cFree s + 1\<rparr>)"

definition gj_pmm_core_free_count :: "pmm_core \<Rightarrow> u32" where
  "gj_pmm_core_free_count s = pm_cFree s"

definition gj_pmm_core_total_count :: "pmm_core \<Rightarrow> u32" where
  "gj_pmm_core_total_count s = pm_cTotal s"

text \<open>The bounded walk; the recursion counts the rounds left until \<open>c = cBound\<close>.\<close>

fun walk_free :: "nat \<Rightarrow> pmm_core \<Rightarrow> u64 \<Rightarrow> u32 \<Rightarrow> u32" where
  "walk_free n s p c =
     (if p = 0 then c
      else
        (case n of
           0 \<Rightarrow> 0xffffffff
         | Suc m \<Rightarrow>
             if p < pm_u64Base s \<or> pm_u64Limit s \<le> p then 0xffffffff
             else if p AND (GJ_PMM_CORE_PAGE_SIZE - 1) \<noteq> 0 then 0xffffffff
             else walk_free m s (pm_pNext s p) (c + 1)))"

declare walk_free.simps [simp del]

definition soft_walk_free :: "pmm_core \<Rightarrow> u32" where
  "soft_walk_free s = walk_free (unat (pm_cTotal s + 1)) s (pm_pFree s) 0"

section \<open>The list in memory\<close>

fun chain :: "(u64 \<Rightarrow> u64) \<Rightarrow> u64 \<Rightarrow> u64 list \<Rightarrow> bool" where
  "chain m p [] \<longleftrightarrow> p = 0"
| "chain m p (x # xs) \<longleftrightarrow> p = x \<and> x \<noteq> 0 \<and> chain m (m x) xs"

lemma chain_unique: "chain m p xs \<Longrightarrow> chain m p ys \<Longrightarrow> xs = ys"
  by (induction xs arbitrary: p ys) (case_tac ys; auto)+

lemma chain_upd [simp]: "x \<notin> set xs \<Longrightarrow> chain (m(x := v)) p xs = chain m p xs"
  by (induction xs arbitrary: p) auto

text \<open>The pages of the pool.\<close>

definition page_ok :: "u64 \<Rightarrow> u64 \<Rightarrow> u64 \<Rightarrow> bool" where
  "page_ok base lim pa \<longleftrightarrow> base \<le> pa \<and> pa < lim \<and> pa AND 4095 = 0"

definition pages :: "u64 \<Rightarrow> u64 \<Rightarrow> u64 list" where
  "pages base lim = map (\<lambda>i. base + 4096 * of_nat i) [0..<(unat lim - unat base) div 4096]"

text \<open>A pool the code can manage: page aligned, not at address 0, not reaching the last page of the
  address space, and with a page count that fits its 32-bit counter.\<close>

definition pool_geom :: "u64 \<Rightarrow> u64 \<Rightarrow> bool" where
  "pool_geom base lim \<longleftrightarrow> base \<noteq> 0 \<and> base AND 4095 = 0 \<and> base < lim \<and> lim < - 4096
     \<and> (unat lim - unat base) div 4096 < 2 ^ 32 - 1"

definition pmm_ok :: "u64 \<Rightarrow> u64 \<Rightarrow> pmm_core \<Rightarrow> bool" where
  "pmm_ok base lim s \<longleftrightarrow> pool_geom base lim \<and> pm_u64Base s = base \<and> pm_u64Limit s = lim
     \<and> unat (pm_cTotal s) = length (pages base lim)
     \<and> (\<exists>ps. chain (pm_pNext s) (pm_pFree s) ps \<and> distinct ps \<and> set ps \<subseteq> set (pages base lim)
          \<and> unat (pm_cFree s) = length ps)"

definition free_list :: "pmm_core \<Rightarrow> u64 list" where
  "free_list s = (THE ps. chain (pm_pNext s) (pm_pFree s) ps)"

definition pmm_used :: "u64 \<Rightarrow> u64 \<Rightarrow> pmm_core \<Rightarrow> u64 set" where
  "pmm_used base lim s = set (pages base lim) - set (free_list s)"

lemma free_list_eq: "chain (pm_pNext s) (pm_pFree s) ps \<Longrightarrow> free_list s = ps"
  unfolding free_list_def using chain_unique by blast

lemma pmm_okE:
  assumes "pmm_ok base lim s"
  shows "chain (pm_pNext s) (pm_pFree s) (free_list s)" "distinct (free_list s)"
    "set (free_list s) \<subseteq> set (pages base lim)" "unat (pm_cFree s) = length (free_list s)" "pool_geom base lim"
    "pm_u64Base s = base" "pm_u64Limit s = lim" "unat (pm_cTotal s) = length (pages base lim)"
proof -
  from assms obtain ps where "chain (pm_pNext s) (pm_pFree s) ps" "distinct ps" "set ps \<subseteq> set (pages base lim)"
    "unat (pm_cFree s) = length ps" "pool_geom base lim"
    "pm_u64Base s = base" "pm_u64Limit s = lim" "unat (pm_cTotal s) = length (pages base lim)" by (auto simp: pmm_ok_def)
  with free_list_eq [of s ps] show "chain (pm_pNext s) (pm_pFree s) (free_list s)" "distinct (free_list s)"
    "set (free_list s) \<subseteq> set (pages base lim)" "unat (pm_cFree s) = length (free_list s)" "pool_geom base lim"
    "pm_u64Base s = base" "pm_u64Limit s = lim" "unat (pm_cTotal s) = length (pages base lim)" by simp_all
qed

lemma aligned_iff: "pa AND 4095 = 0 \<longleftrightarrow> unat pa mod 4096 = 0" for pa :: u64
  by (metis unat_page_offset unat_eq_0)

lemma page_index:
  assumes "pool_geom base lim" and "i < (unat lim - unat base) div 4096"
  shows "unat (base + 4096 * of_nat i :: u64) = unat base + 4096 * i"
proof -
  have "4096 * i + 4096 \<le> unat lim - unat base" using assms(2) by (simp add: less_eq_div_iff_mult_less_eq)
  moreover have "unat lim < 2 ^ 64" using unsigned_less [of lim] by simp
  ultimately have "unat base + 4096 * i < 2 ^ 64" by linarith
  moreover have "base + 4096 * of_nat i = of_nat (unat base + 4096 * i)" by simp
  ultimately show ?thesis by (simp only: unat_of_nat) (simp add: take_bit_nat_eq_self)
qed

lemma pages_ok:
  assumes g: "pool_geom base lim"
  shows "distinct (pages base lim)" and "pa \<in> set (pages base lim) \<Longrightarrow> page_ok base lim pa \<and> pa \<noteq> 0"
proof -
  note ix = page_index [OF g]
  show "distinct (pages base lim)"
    unfolding pages_def distinct_map
  proof (intro conjI inj_onI)
    fix i j assume "i \<in> set [0..<(unat lim - unat base) div 4096]" "j \<in> set [0..<(unat lim - unat base) div 4096]"
      and eq: "base + 4096 * of_nat i = (base + 4096 * of_nat j :: u64)"
    then have "i < (unat lim - unat base) div 4096" "j < (unat lim - unat base) div 4096" by simp_all
    with arg_cong [OF eq, of unat] have "unat base + 4096 * i = unat base + 4096 * j" by (simp only: ix)
    then show "i = j" by simp
  qed simp
  show "page_ok base lim pa \<and> pa \<noteq> 0" if mem: "pa \<in> set (pages base lim)"
  proof -
    obtain i where i: "i < (unat lim - unat base) div 4096" and pa: "pa = base + 4096 * of_nat i"
      using mem by (auto simp: pages_def)
    have "4096 * i + 4096 \<le> unat lim - unat base" using i by (simp add: less_eq_div_iff_mult_less_eq)
    moreover have u: "unat pa = unat base + 4096 * i" unfolding pa by (rule ix [OF i])
    ultimately have "unat pa < unat lim" "unat base \<le> unat pa" by linarith+
    moreover have "pa AND 4095 = 0" using g by (simp add: pool_geom_def aligned_iff u)
    moreover have "pa \<noteq> 0"
    proof -
      have "0 < unat base" using g by (simp add: pool_geom_def unat_gt_0)
      then show ?thesis using \<open>unat base \<le> unat pa\<close> by auto
    qed
    ultimately show ?thesis by (simp add: page_ok_def word_le_nat_alt word_less_nat_alt)
  qed
qed

section \<open>Initialisation\<close>

lemma init_loop_spec:
  assumes g: "pool_geom base lim" and "pm_u64Limit s = lim" "pm_u64Base s = base"
    and "i + k = (unat lim - unat base) div 4096"
    and "chain (pm_pNext s) (pm_pFree s) (rev (map (\<lambda>i. base + 4096 * of_nat i) [0..<i]))"
    and "pm_cFree s = of_nat i" "pm_cTotal s = of_nat i"
  shows "\<exists>t. pmm_init_loop (base + 4096 * of_nat i) s = Some t \<and> pm_u64Limit t = lim \<and> pm_u64Base t = base
    \<and> chain (pm_pNext t) (pm_pFree t) (rev (pages base lim))
    \<and> pm_cFree t = of_nat (length (pages base lim)) \<and> pm_cTotal t = of_nat (length (pages base lim))"
  using assms(2-)
proof (induction k arbitrary: i s)
  case 0
  let ?pa = "base + 4096 * of_nat i :: u64"
  have ilim: "unat base + 4096 * i \<le> unat lim" "unat lim < unat base + 4096 * i + 4096"
    using 0(3) g by (auto simp: pool_geom_def word_less_nat_alt)
  have lim: "unat lim < 2 ^ 64 - 4096" using g by (simp add: pool_geom_def word_less_nat_alt)
  have "?pa + 4096 = of_nat (unat base + 4096 * i + 4096)" by simp
  moreover have "unat base + 4096 * i + 4096 < 2 ^ 64" using ilim(1) lim by linarith
  ultimately have "unat (?pa + 4096) = unat base + 4096 * i + 4096"
    by (simp only: unat_of_nat) (simp add: take_bit_nat_eq_self)
  then have "\<not> ?pa + 4096 \<le> lim" using ilim(2) by (simp add: word_le_nat_alt)
  then have "pmm_init_loop ?pa s = Some s" using 0(1) by (subst pmm_init_loop.simps) simp
  moreover have "rev (pages base lim) = rev (map (\<lambda>i. base + 4096 * of_nat i) [0..<i])"
    "length (pages base lim) = i" using 0(3) by (simp_all add: pages_def)
  ultimately show ?case using 0 by simp
next
  case (Suc k)
  let ?pa = "base + 4096 * of_nat i :: u64"
  let ?t = "s\<lparr>pm_pNext := (pm_pNext s)(?pa := pm_pFree s), pm_pFree := ?pa,
                pm_cFree := pm_cFree s + 1, pm_cTotal := pm_cTotal s + 1\<rparr>"
  let ?old = "map (\<lambda>i. base + 4096 * of_nat i :: u64) [0..<i]"
  have i: "i < (unat lim - unat base) div 4096" using Suc.prems(3) by simp
  have bound: "unat base + 4096 * i + 4096 \<le> unat lim"
  proof -
    have "4096 * i + 4096 \<le> unat lim - unat base" using i by (simp add: less_eq_div_iff_mult_less_eq)
    then show ?thesis by linarith
  qed
  have eq: "?pa + 4096 = base + 4096 * of_nat (Suc i)" by (simp add: algebra_simps)
  have "?pa + 4096 = of_nat (unat base + 4096 * i + 4096)" by simp
  moreover have "unat base + 4096 * i + 4096 < 2 ^ 64" 
  proof -
    have "unat lim < 2 ^ 64" using unsigned_less [of lim] by simp
    with bound show ?thesis by linarith
  qed
  ultimately have "unat (?pa + 4096) = unat base + 4096 * i + 4096"
    by (simp only: unat_of_nat) (simp add: take_bit_nat_eq_self)
  then have le: "?pa + 4096 \<le> lim" using bound by (simp add: word_le_nat_alt)
  have pg: "set (?pa # ?old) \<subseteq> set (pages base lim)" "?pa \<in> set (pages base lim)" using i by (auto simp: pages_def)
  have fresh: "?pa \<notin> set (rev ?old)"
  proof
    assume "?pa \<in> set (rev ?old)"
    then obtain j where j: "j < i" "?pa = base + 4096 * of_nat j" by auto
    then have "unat base + 4096 * i = unat base + 4096 * j"
      using arg_cong [OF j(2), of unat] page_index [OF g i] page_index [OF g, of j] i by simp
    with j(1) show False by simp
  qed
  have "rev (map (\<lambda>i. base + 4096 * of_nat i :: u64) [0..<Suc i]) = ?pa # rev ?old" by simp
  then have ch: "chain (pm_pNext ?t) (pm_pFree ?t) (rev (map (\<lambda>i. base + 4096 * of_nat i) [0..<Suc i]))"
    using Suc.prems(4) fresh pages_ok(2) [OF g pg(2)] by simp
  have "\<exists>t. pmm_init_loop (base + 4096 * of_nat (Suc i)) ?t = Some t \<and> pm_u64Limit t = lim \<and> pm_u64Base t = base
    \<and> chain (pm_pNext t) (pm_pFree t) (rev (pages base lim))
    \<and> pm_cFree t = of_nat (length (pages base lim)) \<and> pm_cTotal t = of_nat (length (pages base lim))"
    by (rule Suc.IH [OF _ _ _ ch]) (use Suc.prems in simp_all)
  moreover have "pmm_init_loop ?pa s = pmm_init_loop (?pa + 4096) ?t"
    by (subst pmm_init_loop.simps) (use le Suc.prems(1) in simp)
  ultimately show ?case unfolding eq by metis
qed

lemma init_spec:
  assumes g: "pool_geom base lim"
  shows "\<exists>t. gj_pmm_core_init base lim s = Some t \<and> pmm_ok base lim t \<and> free_list t = rev (pages base lim)"
proof -
  let ?s = "s\<lparr>pm_pFree := 0, pm_cFree := 0, pm_cTotal := 0, pm_u64Base := base, pm_u64Limit := lim\<rparr>"
  have "\<exists>t. pmm_init_loop (base + 4096 * of_nat 0) ?s = Some t \<and> pm_u64Limit t = lim \<and> pm_u64Base t = base
    \<and> chain (pm_pNext t) (pm_pFree t) (rev (pages base lim))
    \<and> pm_cFree t = of_nat (length (pages base lim)) \<and> pm_cTotal t = of_nat (length (pages base lim))"
    by (rule init_loop_spec [OF g]) simp_all
  then obtain t where t: "pmm_init_loop base ?s = Some t" "pm_u64Limit t = lim" "pm_u64Base t = base"
    and ch: "chain (pm_pNext t) (pm_pFree t) (rev (pages base lim))"
    and n: "pm_cFree t = of_nat (length (pages base lim))" "pm_cTotal t = of_nat (length (pages base lim))" by auto
  have "length (pages base lim) < 2 ^ 32" using g by (simp add: pages_def pool_geom_def)
  then have "unat (of_nat (length (pages base lim)) :: u32) = length (pages base lim)"
    by (simp add: unat_of_nat take_bit_nat_eq_self)
  then have "pmm_ok base lim t"
    unfolding pmm_ok_def using g t n ch pages_ok(1) [OF g] by (auto intro!: exI [of _ "rev (pages base lim)"])
  moreover have "\<not> lim \<le> base" using g by (simp add: pool_geom_def not_le)
  then have "gj_pmm_core_init base lim s = Some t"
    using t(1) by (simp add: gj_pmm_core_init_def Let_def)
  ultimately show ?thesis using free_list_eq [OF ch] by blast
qed

section \<open>Allocation and release\<close>

lemma alloc_spec:
  assumes ok: "pmm_ok base lim s"
  shows "case free_list s of
      [] \<Rightarrow> gj_pmm_core_alloc s = (0, s)
    | x # xs \<Rightarrow> x \<noteq> 0 \<and> fst (gj_pmm_core_alloc s) = x \<and> pmm_ok base lim (snd (gj_pmm_core_alloc s))
        \<and> free_list (snd (gj_pmm_core_alloc s)) = xs \<and> pm_pNext (snd (gj_pmm_core_alloc s)) x = 0"
proof (cases "free_list s")
  case Nil
  then show ?thesis using pmm_okE(1) [OF ok] by (simp add: gj_pmm_core_alloc_def)
next
  case (Cons x xs)
  note o = pmm_okE [OF ok, unfolded Cons]
  let ?t = "snd (gj_pmm_core_alloc s)"
  have t: "gj_pmm_core_alloc s = (x, s\<lparr>pm_pFree := pm_pNext s x,
      pm_cFree := pm_cFree s - 1, pm_pNext := (pm_pNext s)(x := 0)\<rparr>)" and x: "x \<noteq> 0"
    using o(1,4) by (auto simp: gj_pmm_core_alloc_def Let_def word_greater_zero_iff)
  have ch: "chain (pm_pNext ?t) (pm_pFree ?t) xs" using o(1,2) by (simp add: t)
  have "pm_cFree s \<noteq> 0" using o(4) by auto
  then have "unat (pm_cFree ?t) = length xs" using o(4) by (simp add: t unat_minus_one)
  then have "pmm_ok base lim ?t" unfolding pmm_ok_def using o ch by (auto simp: t intro!: exI [of _ xs])
  then show ?thesis using Cons free_list_eq [OF ch] x by (simp add: t)
qed

lemma free_spec:
  assumes ok: "pmm_ok base lim s" and pa: "pa \<in> pmm_used base lim s"
  shows "pmm_ok base lim (gj_pmm_core_free pa s) \<and> free_list (gj_pmm_core_free pa s) = pa # free_list s"
proof -
  note o = pmm_okE [OF ok]
  have mem: "pa \<in> set (pages base lim)" "pa \<notin> set (free_list s)" using pa by (simp_all add: pmm_used_def)
  note pk = pages_ok(2) [OF o(5) mem(1)]
  let ?t = "gj_pmm_core_free pa s"
  have t: "?t = s\<lparr>pm_pNext := (pm_pNext s)(pa := pm_pFree s), pm_pFree := pa, pm_cFree := pm_cFree s + 1\<rparr>"
  proof -
    have "\<not> pa < pm_u64Base s" "\<not> pm_u64Limit s \<le> pa" "pa AND 4095 = 0"
      using pk o(6,7) by (simp_all add: page_ok_def not_le not_less)
    then show ?thesis by (simp add: gj_pmm_core_free_def)
  qed
  have ch: "chain (pm_pNext ?t) (pm_pFree ?t) (pa # free_list s)" using o(1) pk mem(2) by (simp add: t)
  have d: "distinct (pa # free_list s)" "set (pa # free_list s) \<subseteq> set (pages base lim)" using o(2,3) mem by auto
  then have "card (set (pa # free_list s)) \<le> card (set (pages base lim))" by (intro card_mono) simp_all
  then have "length (pa # free_list s) \<le> length (pages base lim)"
    using distinct_card [OF d(1)] distinct_card [OF pages_ok(1) [OF o(5)]] by simp
  moreover have "length (pages base lim) < 2 ^ 32 - 1" using o(5) by (simp add: pages_def pool_geom_def)
  ultimately have "unat (pm_cFree ?t) = length (pa # free_list s)"
    using o(4) by (simp add: t unat_word_ariths)
  then have "pmm_ok base lim ?t"
    unfolding pmm_ok_def using o ch d by (auto simp: t intro!: exI [of _ "pa # free_list s"])
  then show ?thesis using free_list_eq [OF ch] by blast
qed

text \<open>The allocator as a client sees it: no page for the result 0.\<close>

definition page_alloc :: "pmm_core \<Rightarrow> u64 option \<times> pmm_core" where
  "page_alloc s = (case gj_pmm_core_alloc s of (pa, t) \<Rightarrow> (if pa = 0 then None else Some pa, t))"

interpretation pmm: pool "pmm_ok base lim" "pmm_used base lim" "set (pages base lim)" page_alloc gj_pmm_core_free
  for base lim
proof unfold_locales
  fix s t a
  assume ok: "pmm_ok base lim s"
  note o = pmm_okE [OF ok] and al = alloc_spec [OF ok]
  show "pmm_used base lim s \<subseteq> set (pages base lim)" by (auto simp: pmm_used_def)
  show "pmm_ok base lim t \<and> a \<in> set (pages base lim) - pmm_used base lim s \<and> pmm_used base lim t = insert a (pmm_used base lim s)"
    if "page_alloc s = (Some a, t)"
  proof (cases "free_list s")
    case Nil
    then show ?thesis using that al by (simp add: page_alloc_def)
  next
    case (Cons x xs)
    then have "a = x" "pmm_ok base lim t" "free_list t = xs"
      using that al by (auto simp: page_alloc_def split: prod.splits)
    with o(2,3) Cons show ?thesis by (auto simp: pmm_used_def)
  qed
  show "t = s \<and> pmm_used base lim s = set (pages base lim)" if "page_alloc s = (None, t)"
    using that al by (cases "free_list s") (auto simp: page_alloc_def pmm_used_def split: prod.splits)
  show "pmm_ok base lim (gj_pmm_core_free a s) \<and> pmm_used base lim (gj_pmm_core_free a s) = pmm_used base lim s - {a}"
    if "a \<in> pmm_used base lim s"
    using free_spec [OF ok that] by (auto simp: pmm_used_def)
qed simp

lemma walk_free_spec:
  "\<forall>x \<in> set ps. page_ok (pm_u64Base s) (pm_u64Limit s) x \<Longrightarrow> chain (pm_pNext s) p ps \<Longrightarrow> length ps \<le> n
    \<Longrightarrow> walk_free n s p c = c + of_nat (length ps)"
proof (induction ps arbitrary: n p c)
  case Nil
  then show ?case by (simp add: walk_free.simps)
next
  case (Cons x ps)
  then obtain m where m: "n = Suc m" by (cases n) auto
  have "walk_free m s (pm_pNext s x) (c + 1) = (c + 1) + of_nat (length ps)"
    by (rule Cons.IH) (use Cons.prems m in auto)
  then show ?case
    using Cons.prems m by (subst walk_free.simps) (auto simp: page_ok_def not_le not_less algebra_simps)
qed

lemma soft_walk_exact:
  assumes ok: "pmm_ok base lim s"
  shows "soft_walk_free s = pm_cFree s"
proof -
  note o = pmm_okE [OF ok]
  have n: "length (pages base lim) < 2 ^ 32 - 1" using o(5) by (simp add: pages_def pool_geom_def)
  have "card (set (free_list s)) \<le> card (set (pages base lim))" using o(3) by (intro card_mono) simp_all
  then have le: "length (free_list s) \<le> length (pages base lim)"
    using distinct_card [OF o(2)] distinct_card [OF pages_ok(1) [OF o(5)]] by simp
  have "unat (pm_cTotal s + 1) = Suc (length (pages base lim))" using o(8) n by (simp add: unat_word_ariths)
  then have bound: "length (free_list s) \<le> unat (pm_cTotal s + 1)" using le by simp
  have "walk_free (unat (pm_cTotal s + 1)) s (pm_pFree s) 0 = 0 + of_nat (length (free_list s))"
    by (rule walk_free_spec [OF _ o(1) bound]) (use o(3,6,7) pages_ok(2) [OF o(5)] in auto)
  moreover have "pm_cFree s = of_nat (length (free_list s))" by (simp flip: o(4))
  ultimately show ?thesis by (simp add: soft_walk_free_def)
qed

section \<open>Properties\<close>

definition wit_pmm :: pmm_core where
  "wit_pmm = \<lparr>pm_pNext = (\<lambda>_. 0), pm_pFree = 0, pm_u64Base = 0, pm_u64Limit = 0, pm_cFree = 0, pm_cTotal = 0\<rparr>"

lemma wit_geom: "pool_geom 0x1000 0x4000"
  by (simp add: pool_geom_def)

lemma wit_pages: "pages 0x1000 0x4000 = [0x1000, 0x2000, 0x3000]"
  by (simp add: pages_def upt_rec)

text \<open>
  Initialisation of an aligned pool that starts above address 0 and ends below the last page of
  the address space returns, and afterwards the list threaded through the pages holds every whole
  page of the pool exactly once, highest first, with both counters equal to the number of pages.
\<close>

lemma pmm_init_exact:
  assumes "pool_geom base lim"
  shows "\<exists>t. gj_pmm_core_init base lim s = Some t \<and> chain (pm_pNext t) (pm_pFree t) (rev (pages base lim))
    \<and> distinct (pages base lim) \<and> (\<forall>pa. pa \<in> set (pages base lim) \<longrightarrow> page_ok base lim pa)
    \<and> unat (gj_pmm_core_free_count t) = length (pages base lim)
    \<and> unat (gj_pmm_core_total_count t) = length (pages base lim)"
proof -
  obtain t where t: "gj_pmm_core_init base lim s = Some t" "pmm_ok base lim t" "free_list t = rev (pages base lim)"
    using init_spec [OF assms] by blast
  note o = pmm_okE [OF t(2)]
  show ?thesis
    using t(1) o(1,4,8) t(3) pages_ok [OF assms]
    by (auto simp: gj_pmm_core_free_count_def gj_pmm_core_total_count_def)
qed

text \<open>
  From an initialised pool of \<open>n\<close> pages the allocator hands out \<open>n\<close> pairwise distinct pages of the
  pool and then reports 0 for ever; a page given back is the next one handed out, scrubbed of its
  list link, and the bounded integrity walk counts exactly the free pages.
\<close>

lemma pmm_alloc_exact:
  assumes g: "pool_geom base lim" and i: "gj_pmm_core_init base lim s = Some t"
    and m: "alloc_many page_alloc (length (pages base lim)) t = (as, u)"
  shows "distinct as \<and> set as = set (pages base lim) \<and> gj_pmm_core_alloc u = (0, u) \<and> soft_walk_free u = 0
    \<and> (\<forall>pa. pa \<in> set as \<longrightarrow> fst (gj_pmm_core_alloc (gj_pmm_core_free pa u)) = pa
         \<and> pm_pNext (snd (gj_pmm_core_alloc (gj_pmm_core_free pa u))) pa = 0
         \<and> soft_walk_free (gj_pmm_core_free pa u) = 1)"
proof -
  have t: "pmm_ok base lim t" "free_list t = rev (pages base lim)" using init_spec [OF g, of s] i by auto
  have c: "card (set (pages base lim) - pmm_used base lim t) = length (pages base lim)"
    using t(2) distinct_card [OF pages_ok(1) [OF g]] by (simp add: pmm_used_def)
  have sp: "distinct as" "set as \<subseteq> set (pages base lim)" "pmm_ok base lim u"
    using pmm.alloc_many_spec [OF t(1) eq_refl [OF c [symmetric]] m] by auto
  have ex: "pmm_used base lim u = set (pages base lim)" "page_alloc u = (None, u)"
    using pmm.alloc_many_exhausts [OF t(1)] m unfolding c by blast+
  have "length as = length (pages base lim)" using pmm.alloc_many_spec [OF t(1) eq_refl [OF c [symmetric]] m] by simp
  then have "set as = set (pages base lim)"
    using sp distinct_card [OF sp(1)] distinct_card [OF pages_ok(1) [OF g]] by (intro card_subset_eq) simp_all
  moreover have "free_list u = []" using ex(1) pmm_okE(3) [OF sp(3)] by (cases "free_list u") (auto simp: pmm_used_def)
  moreover have "gj_pmm_core_alloc u = (0, u)" using alloc_spec [OF sp(3)] calculation(2) by simp
  moreover have "soft_walk_free u = 0"
    using soft_walk_exact [OF sp(3)] pmm_okE(4) [OF sp(3)] calculation(2) by (simp add: unat_eq_0)
  moreover have "fst (gj_pmm_core_alloc (gj_pmm_core_free pa u)) = pa
         \<and> pm_pNext (snd (gj_pmm_core_alloc (gj_pmm_core_free pa u))) pa = 0
         \<and> soft_walk_free (gj_pmm_core_free pa u) = 1" if "pa \<in> set as" for pa
  proof -
    have f: "pmm_ok base lim (gj_pmm_core_free pa u)" "free_list (gj_pmm_core_free pa u) = [pa]"
      using free_spec [OF sp(3), of pa] that ex(1) calculation(1,2) by simp_all
    have "unat (pm_cFree (gj_pmm_core_free pa u)) = unat (1 :: u32)" using pmm_okE(4) [OF f(1)] f(2) by simp
    then show ?thesis using alloc_spec [OF f(1)] f(2) soft_walk_exact [OF f(1)] by (simp only: unat_eq_iff) simp
  qed
  ultimately show ?thesis using sp(1) by blast
qed

end
