(* ===== verification/Pmm.thy ===== *)
theory Pmm
  imports Pmm_Core
begin

text \<open>
  The physical memory manager, \<^verbatim>\<open>kernel/mm/pmm.c\<close>: free blocks of 1 to 512 pages on one list per order
  and zone (below and above 4 GiB), threaded through the first word of each block.  Allocation splits
  larger blocks, low zone first; blocks are not merged again.  \<open>pg_word\<close> is the first word of the page
  at a physical address, whichever mapping \<^verbatim>\<open>pa_to_ptr\<close> reaches it by; \<open>pg_fHhdm\<close> is the result of
  \<^verbatim>\<open>hhdm_ready\<close>.  Event tallies and the soak and inventory routines are left out.
\<close>

section \<open>Data\<close>

abbreviation (input) GJ_PAGE_SIZE :: u64 where "GJ_PAGE_SIZE \<equiv> 4096"
abbreviation (input) PMM_LOW_MAX :: u64 where "PMM_LOW_MAX \<equiv> 0x100000000"
abbreviation (input) PMM_MAX_ORDER :: nat where "PMM_MAX_ORDER \<equiv> 9"
abbreviation (input) PMM_HIGH_PENDING_MAX :: nat where "PMM_HIGH_PENDING_MAX \<equiv> 64"

record pmm_pending =
  pp_paBase :: u64
  pp_cbLen :: u64

record pmm_state =
  pg_word :: "u64 \<Rightarrow> u64"
  g_paFreeLow :: u64
  g_paFreeHigh :: u64
  g_aOrderLow :: "u64 list"
  g_aOrderHigh :: "u64 list"
  g_aOrderCount :: "u64 list"
  g_cFramesFree :: u64
  g_cFramesFreeLow :: u64
  g_cFramesFreeHigh :: u64
  g_cFramesTotal :: u64
  g_paMaxSeen :: u64
  g_paKernel0 :: u64
  g_paKernel1 :: u64
  g_paSoftMedia0 :: u64
  g_paSoftMedia1 :: u64
  g_aHigh :: "pmm_pending list"
  g_fHighReleased :: bool
  pg_fHhdm :: bool

section \<open>Blocks\<close>

text \<open>The page a physical address is reached at, if it can be.\<close>

definition pa_to_ptr :: "pmm_state \<Rightarrow> u64 \<Rightarrow> u64 option" where
  "pa_to_ptr s pa = (if PMM_LOW_MAX \<le> pa then (if \<not> pg_fHhdm s then None else Some pa) else Some pa)"

definition order_bytes :: "nat \<Rightarrow> u64" where
  "order_bytes u32Order = push_bit u32Order GJ_PAGE_SIZE"

definition order_aligned :: "u64 \<Rightarrow> nat \<Rightarrow> bool" where
  "order_aligned pa u32Order \<longleftrightarrow>
     (if u32Order = 0 then pa AND (GJ_PAGE_SIZE - 1) = 0
      else pa AND (order_bytes u32Order - 1) = 0)"

definition range_overlaps :: "u64 \<Rightarrow> u64 \<Rightarrow> u64 \<Rightarrow> u64 \<Rightarrow> bool" where
  "range_overlaps paA0 paA1 paB0 paB1 \<longleftrightarrow> paA0 < paB1 \<and> paB0 < paA1"

definition range_ok_free :: "pmm_state \<Rightarrow> u64 \<Rightarrow> u64 \<Rightarrow> bool" where
  "range_ok_free s pa cb \<longleftrightarrow>
     (if cb = 0 \<or> pa < 0x100000 then False
      else if range_overlaps pa (pa + cb) (g_paKernel0 s) (g_paKernel1 s) then False
      else if g_paSoftMedia0 s < g_paSoftMedia1 s
          \<and> range_overlaps pa (pa + cb) (g_paSoftMedia0 s) (g_paSoftMedia1 s) then False
      else True)"

definition pmm_soft_reserve :: "u64 \<Rightarrow> u64 \<Rightarrow> pmm_state \<Rightarrow> pmm_state" where
  "pmm_soft_reserve paBase cbLen s =
     (if paBase = 0 \<or> cbLen = 0 then s\<lparr>g_paSoftMedia0 := 0, g_paSoftMedia1 := 0\<rparr>
      else s\<lparr>g_paSoftMedia0 := paBase AND NOT (GJ_PAGE_SIZE - 1),
             g_paSoftMedia1 := (paBase + cbLen + GJ_PAGE_SIZE - 1) AND NOT (GJ_PAGE_SIZE - 1)\<rparr>)"

text \<open>The head of the list of an order in a zone: \<open>True\<close> is the low zone.\<close>

definition order_head :: "bool \<Rightarrow> nat \<Rightarrow> pmm_state \<Rightarrow> u64" where
  "order_head fLow od s =
     (if od = 0 then (if fLow then g_paFreeLow s else g_paFreeHigh s)
      else if fLow then g_aOrderLow s ! od else g_aOrderHigh s ! od)"

definition set_order_head :: "bool \<Rightarrow> nat \<Rightarrow> u64 \<Rightarrow> pmm_state \<Rightarrow> pmm_state" where
  "set_order_head fLow od pa s =
     (if od = 0 then (if fLow then s\<lparr>g_paFreeLow := pa\<rparr> else s\<lparr>g_paFreeHigh := pa\<rparr>)
      else if fLow then s\<lparr>g_aOrderLow := (g_aOrderLow s)[od := pa]\<rparr>
      else s\<lparr>g_aOrderHigh := (g_aOrderHigh s)[od := pa]\<rparr>)"

section \<open>Push and pop\<close>

text \<open>The rest of \<^verbatim>\<open>push_order\<close> once the block is known to be aligned to its order.\<close>

definition push_block :: "u64 \<Rightarrow> nat \<Rightarrow> pmm_state \<Rightarrow> pmm_state" where
  "push_block paPage u32Order s =
     (let cPages = 2 ^ u32Order :: u64; cbSpan = cPages * GJ_PAGE_SIZE
      in if \<not> range_ok_free s paPage cbSpan then s
         else
           (case pa_to_ptr s paPage of
              None \<Rightarrow> s
            | Some p \<Rightarrow>
                (let fLow = paPage < PMM_LOW_MAX;
                     s = s\<lparr>pg_word := (pg_word s)(p := order_head fLow u32Order s)\<rparr>;
                     s = set_order_head fLow u32Order paPage s;
                     s = s\<lparr>g_cFramesFree := g_cFramesFree s + cPages\<rparr>;
                     s = (if fLow then s\<lparr>g_cFramesFreeLow := g_cFramesFreeLow s + cPages\<rparr>
                          else s\<lparr>g_cFramesFreeHigh := g_cFramesFreeHigh s + cPages\<rparr>)
                 in s\<lparr>g_aOrderCount := (g_aOrderCount s)[u32Order := g_aOrderCount s ! u32Order + 1]\<rparr>)))"

text \<open>\<^verbatim>\<open>push_order\<close> with order 0, the single page.\<close>

definition push_free :: "u64 \<Rightarrow> pmm_state \<Rightarrow> pmm_state" where
  "push_free paPage s =
     (if paPage = 0 \<or> paPage AND (GJ_PAGE_SIZE - 1) \<noteq> 0 then s else push_block paPage 0 s)"

definition push_order :: "u64 \<Rightarrow> nat \<Rightarrow> pmm_state \<Rightarrow> pmm_state" where
  "push_order paPage u32Order s =
     (if paPage = 0 \<or> paPage AND (GJ_PAGE_SIZE - 1) \<noteq> 0 then s
      else if PMM_MAX_ORDER < u32Order then s
      else if 0 < u32Order \<and> \<not> order_aligned paPage u32Order
        then fold (\<lambda>iPage. push_free (paPage + of_nat iPage * GJ_PAGE_SIZE)) [0..<2 ^ u32Order] s
      else push_block paPage u32Order s)"

definition sub_or_zero :: "u64 \<Rightarrow> u64 \<Rightarrow> u64" where
  "sub_or_zero a b = (if b \<le> a then a - b else 0)"

definition pop_order_from :: "nat \<Rightarrow> bool \<Rightarrow> pmm_state \<Rightarrow> u64 \<times> pmm_state" where
  "pop_order_from u32Order fLow s =
     (if PMM_MAX_ORDER < u32Order then (0, s)
      else
        (let cPages = 2 ^ u32Order :: u64; pa = order_head fLow u32Order s
         in if pa = 0 then (0, s)
            else if pa = 0 \<or> \<not> order_aligned pa u32Order then (0, s)
            else if (if fLow then PMM_LOW_MAX \<le> pa else pa < PMM_LOW_MAX) then (0, s)
            else
              (case pa_to_ptr s pa of
                 None \<Rightarrow> (0, s)
               | Some p \<Rightarrow>
                   (let s = set_order_head fLow u32Order (pg_word s p) s;
                        s = s\<lparr>pg_word := (pg_word s)(p := 0)\<rparr>;
                        s = s\<lparr>g_cFramesFree := sub_or_zero (g_cFramesFree s) cPages\<rparr>;
                        s = (if pa < PMM_LOW_MAX
                             then s\<lparr>g_cFramesFreeLow := sub_or_zero (g_cFramesFreeLow s) cPages\<rparr>
                             else s\<lparr>g_cFramesFreeHigh := sub_or_zero (g_cFramesFreeHigh s) cPages\<rparr>);
                        s = s\<lparr>g_aOrderCount := (g_aOrderCount s)[u32Order := sub_or_zero (g_aOrderCount s ! u32Order) 1]\<rparr>
                    in (pa, s)))))"

text \<open>The inner loop of \<^verbatim>\<open>pop_split_zone\<close>: the upper halves of orders \<open>od - 1\<close> down to \<open>u32Order\<close>.\<close>

fun split_push :: "nat \<Rightarrow> u64 \<Rightarrow> nat \<Rightarrow> pmm_state \<Rightarrow> pmm_state" where
  "split_push u32Order pa 0 s = s"
| "split_push u32Order pa (Suc od) s =
     (if u32Order < Suc od then split_push u32Order pa od (push_order (pa + 2 ^ od * GJ_PAGE_SIZE) od s) else s)"

fun split_scan :: "nat \<Rightarrow> bool \<Rightarrow> nat list \<Rightarrow> pmm_state \<Rightarrow> u64 \<times> pmm_state" where
  "split_scan u32Order fLow [] s = (0, s)"
| "split_scan u32Order fLow (od # ods) s =
     (case pop_order_from od fLow s of
        (pa, s) \<Rightarrow> if pa = 0 then split_scan u32Order fLow ods s else (pa, split_push u32Order pa od s))"

definition pop_split_zone :: "nat \<Rightarrow> bool \<Rightarrow> pmm_state \<Rightarrow> u64 \<times> pmm_state" where
  "pop_split_zone u32Order fLow s =
     (case pop_order_from u32Order fLow s of
        (pa, s) \<Rightarrow> if pa \<noteq> 0 then (pa, s) else split_scan u32Order fLow [u32Order + 1..<PMM_MAX_ORDER + 1] s)"

definition pop_order_split :: "nat \<Rightarrow> pmm_state \<Rightarrow> u64 \<times> pmm_state" where
  "pop_order_split u32Order s =
     (if PMM_MAX_ORDER < u32Order then (0, s)
      else
        (case pop_split_zone u32Order True s of
           (pa, s) \<Rightarrow> if pa \<noteq> 0 then (pa, s) else pop_split_zone u32Order False s))"

definition pop_free :: "pmm_state \<Rightarrow> u64 \<times> pmm_state" where
  "pop_free = pop_order_split 0"

section \<open>Building the lists\<close>

text \<open>The largest order, from \<open>od\<close> down, whose block at \<open>pa\<close> is aligned, fits and is allowed.\<close>

fun pick_order :: "pmm_state \<Rightarrow> u64 \<Rightarrow> u64 \<Rightarrow> nat \<Rightarrow> nat" where
  "pick_order s pa paEnd 0 = 0"
| "pick_order s pa paEnd (Suc od) =
     (let sz = order_bytes (Suc od)
      in if pa AND (sz - 1) = 0 \<and> pa + sz \<le> paEnd \<and> range_ok_free s pa sz then Suc od
         else pick_order s pa paEnd od)"

partial_function (option) free_range_loop :: "u64 \<Rightarrow> u64 \<Rightarrow> bool \<Rightarrow> pmm_state \<Rightarrow> pmm_state option" where
  "free_range_loop pa paEnd fCountTotal s =
     (if pa + GJ_PAGE_SIZE \<le> paEnd then
        (if \<not> range_ok_free s pa GJ_PAGE_SIZE then free_range_loop (pa + GJ_PAGE_SIZE) paEnd fCountTotal s
         else
           (let od = pick_order s pa paEnd PMM_MAX_ORDER; sz = order_bytes od;
                s = (if fCountTotal then s\<lparr>g_cFramesTotal := g_cFramesTotal s + 2 ^ od\<rparr> else s)
            in free_range_loop (pa + sz) paEnd fCountTotal (push_order pa od s)))
      else Some s)"

definition free_range :: "u64 \<Rightarrow> u64 \<Rightarrow> bool \<Rightarrow> pmm_state \<Rightarrow> pmm_state option" where
  "free_range paBase cbLen fCountTotal s =
     free_range_loop ((paBase + GJ_PAGE_SIZE - 1) AND NOT (GJ_PAGE_SIZE - 1))
       ((paBase + cbLen) AND NOT (GJ_PAGE_SIZE - 1)) fCountTotal s"

text \<open>The part of a region above 4 GiB waits for the direct map.\<close>

definition defer_high :: "u64 \<Rightarrow> u64 \<Rightarrow> pmm_state \<Rightarrow> pmm_state" where
  "defer_high paBase cbLen s =
     (if 0 < cbLen \<and> length (g_aHigh s) < PMM_HIGH_PENDING_MAX then
        (let s = s\<lparr>g_aHigh := g_aHigh s @ [\<lparr>pp_paBase = paBase, pp_cbLen = cbLen\<rparr>]\<rparr>;
             pa = (paBase + GJ_PAGE_SIZE - 1) AND NOT (GJ_PAGE_SIZE - 1);
             pe = (paBase + cbLen) AND NOT (GJ_PAGE_SIZE - 1)
         in if pa < pe then s\<lparr>g_cFramesTotal := g_cFramesTotal s + (pe - pa) div GJ_PAGE_SIZE\<rparr> else s)
      else s)"

definition init_region :: "pmm_pending \<Rightarrow> pmm_state \<Rightarrow> pmm_state option" where
  "init_region r s =
     (let paBase = pp_paBase r; cbLen = pp_cbLen r; paEnd = paBase + cbLen;
          s = (if g_paMaxSeen s < paEnd then s\<lparr>g_paMaxSeen := paEnd\<rparr> else s)
      in if paEnd \<le> PMM_LOW_MAX then free_range paBase cbLen True s
         else if paBase < PMM_LOW_MAX then
           (case free_range paBase (PMM_LOW_MAX - paBase) True s of
              None \<Rightarrow> None
            | Some s \<Rightarrow> Some (defer_high PMM_LOW_MAX (paEnd - PMM_LOW_MAX) s))
         else Some (defer_high paBase cbLen s))"

fun init_regions :: "pmm_pending list \<Rightarrow> pmm_state \<Rightarrow> pmm_state option" where
  "init_regions [] s = Some s"
| "init_regions (r # rs) s = (case init_region r s of None \<Rightarrow> None | Some s \<Rightarrow> init_regions rs s)"

definition pmm_reset :: "u64 \<Rightarrow> u64 \<Rightarrow> pmm_state \<Rightarrow> pmm_state" where
  "pmm_reset paKernelStart paKernelEnd s =
     s\<lparr>g_paFreeLow := 0, g_paFreeHigh := 0, g_cFramesFree := 0, g_cFramesFreeLow := 0, g_cFramesFreeHigh := 0,
       g_cFramesTotal := 0, g_paMaxSeen := 0, g_aHigh := [], g_fHighReleased := False,
       g_aOrderLow := replicate (PMM_MAX_ORDER + 1) 0, g_aOrderHigh := replicate (PMM_MAX_ORDER + 1) 0,
       g_aOrderCount := replicate (PMM_MAX_ORDER + 1) 0,
       g_paKernel0 := paKernelStart AND NOT (GJ_PAGE_SIZE - 1),
       g_paKernel1 := (paKernelEnd + GJ_PAGE_SIZE - 1) AND NOT (GJ_PAGE_SIZE - 1)\<rparr>"

definition pmm_init :: "pmm_pending list \<Rightarrow> u64 \<Rightarrow> u64 \<Rightarrow> pmm_state \<Rightarrow> pmm_state option" where
  "pmm_init pRegions paKernelStart paKernelEnd s = init_regions pRegions (pmm_reset paKernelStart paKernelEnd s)"

fun release_loop :: "pmm_pending list \<Rightarrow> pmm_state \<Rightarrow> pmm_state option" where
  "release_loop [] s = Some s"
| "release_loop (r # rs) s =
     (case free_range (pp_paBase r) (pp_cbLen r) False s of None \<Rightarrow> None | Some s \<Rightarrow> release_loop rs s)"

definition pmm_release_high :: "pmm_state \<Rightarrow> pmm_state option" where
  "pmm_release_high s =
     (if g_fHighReleased s \<or> \<not> pg_fHhdm s then Some s
      else case release_loop (g_aHigh s) s of None \<Rightarrow> None | Some s \<Rightarrow> Some (s\<lparr>g_fHighReleased := True\<rparr>))"

section \<open>Allocation\<close>

definition pmm_alloc :: "pmm_state \<Rightarrow> u64 \<times> pmm_state" where
  "pmm_alloc = pop_free"

definition pmm_alloc_high :: "pmm_state \<Rightarrow> u64 \<times> pmm_state" where
  "pmm_alloc_high s =
     (if g_paFreeHigh s = 0 then pop_free s
      else
        (let pa = g_paFreeHigh s
         in if \<not> order_aligned pa 0 then pop_free s
            else
              (case pa_to_ptr s pa of
                 None \<Rightarrow> pop_free s
               | Some p \<Rightarrow>
                   (pa, s\<lparr>g_paFreeHigh := pg_word s p, pg_word := (pg_word s)(p := 0),
                          g_cFramesFree := (if 0 < g_cFramesFree s then g_cFramesFree s - 1 else g_cFramesFree s),
                          g_cFramesFreeHigh := (if 0 < g_cFramesFreeHigh s then g_cFramesFreeHigh s - 1 else g_cFramesFreeHigh s),
                          g_aOrderCount := (if 0 < g_aOrderCount s ! 0 then (g_aOrderCount s)[0 := g_aOrderCount s ! 0 - 1]
                            else g_aOrderCount s)\<rparr>))))"

fun order_loop :: "nat \<Rightarrow> u32 \<Rightarrow> nat \<Rightarrow> u32 \<Rightarrow> nat" where
  "order_loop 0 n od cPages = od"
| "order_loop (Suc k) n od cPages = (if n < cPages then order_loop k (push_bit 1 n) (od + 1) cPages else od)"

text \<open>The loop stops at the largest order, hence after at most nine rounds.\<close>

definition pages_to_order :: "u32 \<Rightarrow> nat" where
  "pages_to_order cPages = (if cPages = 0 then 0 else order_loop PMM_MAX_ORDER 1 0 cPages)"

text \<open>The held pages: a new one moves down past the larger ones at the end of the array.\<close>

definition hold_insert :: "u64 \<Rightarrow> u64 list \<Rightarrow> u64 list" where
  "hold_insert pa aHold =
     rev (dropWhile (\<lambda>x. pa < x) (rev aHold)) @ [pa] @ rev (takeWhile (\<lambda>x. pa < x) (rev aHold))"

text \<open>The scan for \<open>n\<close> adjacent pages from index \<open>j\<close>, with \<open>cRun\<close> adjacent ones before it.\<close>

function find_run :: "nat \<Rightarrow> u64 list \<Rightarrow> nat \<Rightarrow> nat \<Rightarrow> u64" where
  "find_run n aHold j cRun =
     (if length aHold \<le> j then 0
      else if aHold ! j = aHold ! (j - 1) + GJ_PAGE_SIZE then
        (if n \<le> cRun + 1 then aHold ! (j + 1 - n) else find_run n aHold (j + 1) (cRun + 1))
      else find_run n aHold (j + 1) 1)"
  by pat_completeness auto
termination by (relation "measure (\<lambda>(n, aHold, j, cRun). length aHold - j)") auto

declare find_run.simps [simp del]

text \<open>The rounds left until 256 pages are held; \<open>pop\<close> and \<open>cnt\<close> are the zone's.\<close>

fun hold_loop ::
  "(pmm_state \<Rightarrow> u64 \<times> pmm_state) \<Rightarrow> (pmm_state \<Rightarrow> u64) \<Rightarrow> nat \<Rightarrow> nat \<Rightarrow> u64 list \<Rightarrow> pmm_state
     \<Rightarrow> u64 \<times> u64 list \<times> pmm_state" where
  "hold_loop pop cnt n 0 aHold s = (0, aHold, s)"
| "hold_loop pop cnt n (Suc k) aHold s =
     (if \<not> 0 < cnt s then (0, aHold, s)
      else
        (case pop s of
           (pa, s) \<Rightarrow>
             if pa = 0 then (0, aHold, s)
             else
               (let aHold = hold_insert pa aHold
                in if length aHold < n then hold_loop pop cnt n k aHold s
                   else
                     (let paBase = find_run n aHold 1 1
                      in if paBase \<noteq> 0 then (paBase, aHold, s) else hold_loop pop cnt n k aHold s))))"

definition give_back :: "u64 list \<Rightarrow> pmm_state \<Rightarrow> pmm_state" where
  "give_back aHold s = fold push_free aHold s"

definition outside_run :: "u64 \<Rightarrow> u32 \<Rightarrow> u64 \<Rightarrow> bool" where
  "outside_run paBase cPages x \<longleftrightarrow> x < paBase \<or> paBase + ucast cPages * GJ_PAGE_SIZE \<le> x"

definition pmm_alloc_pages :: "u32 \<Rightarrow> pmm_state \<Rightarrow> u64 \<times> pmm_state" where
  "pmm_alloc_pages cPages s =
     (if cPages = 0 then (0, s)
      else if cPages = 1 then pop_free s
      else if 2 ^ PMM_MAX_ORDER < cPages then (0, s)
      else
        (let oWant = pages_to_order cPages;
             r = (if 2 ^ oWant = cPages then pop_order_split oWant s else (0, s))
         in if fst r \<noteq> 0 then r
            else
              (case hold_loop pop_free g_cFramesFree (unat cPages) 256 [] (snd r) of
                 (paBase, aHold, s) \<Rightarrow>
                   if paBase = 0 then (0, give_back aHold s)
                   else (paBase, give_back (filter (outside_run paBase cPages) aHold) s))))"

definition pop_order_low_only :: "nat \<Rightarrow> pmm_state \<Rightarrow> u64 \<times> pmm_state" where
  "pop_order_low_only u32Order s =
     (if PMM_MAX_ORDER < u32Order then (0, s)
      else
        (case pop_split_zone u32Order True s of
           (pa, s) \<Rightarrow>
             if pa = 0 then (0, s)
             else if PMM_LOW_MAX \<le> pa \<or> PMM_LOW_MAX < pa + 2 ^ u32Order * GJ_PAGE_SIZE
               then (0, push_order pa u32Order s)
             else (pa, s)))"

definition pmm_alloc_low :: "pmm_state \<Rightarrow> u64 \<times> pmm_state" where
  "pmm_alloc_low s =
     (case pop_order_low_only 0 s of
        (pa, s) \<Rightarrow>
          if pa \<noteq> 0 then
            (if PMM_LOW_MAX \<le> pa \<or> pa AND (GJ_PAGE_SIZE - 1) \<noteq> 0 then (0, push_free pa s) else (pa, s))
          else (0, s))"

definition crosses_low :: "u64 \<Rightarrow> u32 \<Rightarrow> bool" where
  "crosses_low paBase cPages \<longleftrightarrow> PMM_LOW_MAX \<le> paBase \<or> PMM_LOW_MAX < paBase + ucast cPages * GJ_PAGE_SIZE"

definition pmm_alloc_pages_low :: "u32 \<Rightarrow> pmm_state \<Rightarrow> u64 \<times> pmm_state" where
  "pmm_alloc_pages_low cPages s =
     (if cPages = 0 then (0, s)
      else if cPages = 1 then pmm_alloc_low s
      else if 2 ^ PMM_MAX_ORDER < cPages then (0, s)
      else
        (let oWant = pages_to_order cPages
         in if 2 ^ oWant = cPages then
              (case pop_order_low_only oWant s of
                 (paBase, s) \<Rightarrow>
                   if paBase \<noteq> 0 then
                     (if crosses_low paBase cPages then (0, push_order paBase oWant s) else (paBase, s))
                   else (0, s))
            else
              (case hold_loop (pop_order_low_only 0) g_cFramesFreeLow (unat cPages) 256 [] s of
                 (paBase, aHold, s) \<Rightarrow>
                   if paBase = 0 then (0, give_back aHold s)
                   else if crosses_low paBase cPages then (0, give_back aHold s)
                   else (paBase, give_back (filter (outside_run paBase cPages) aHold) s))))"

definition pmm_free :: "u64 \<Rightarrow> pmm_state \<Rightarrow> pmm_state" where
  "pmm_free paPage = push_free paPage"

definition pmm_free_pages :: "u64 \<Rightarrow> u32 \<Rightarrow> pmm_state \<Rightarrow> pmm_state" where
  "pmm_free_pages paPage cPages s =
     (if cPages = 0 \<or> paPage = 0 then s
      else if paPage AND (GJ_PAGE_SIZE - 1) \<noteq> 0 then s
      else
        (let od = pages_to_order cPages
         in if 2 ^ od = cPages \<and> od \<le> PMM_MAX_ORDER \<and> order_aligned paPage od then push_order paPage od s
            else fold (\<lambda>i. push_free (paPage + of_nat i * GJ_PAGE_SIZE)) [0..<unat cPages] s))"

definition pmm_order_count :: "nat \<Rightarrow> pmm_state \<Rightarrow> u64" where
  "pmm_order_count u32Order s =
     (if PMM_MAX_ORDER < u32Order then 0
      else if u32Order = 0 then g_cFramesFree s
      else g_aOrderCount s ! u32Order)"

definition pmm_order_nodes :: "nat \<Rightarrow> pmm_state \<Rightarrow> u64" where
  "pmm_order_nodes u32Order s = (if PMM_MAX_ORDER < u32Order then 0 else g_aOrderCount s ! u32Order)"

definition high_order_nodes :: "pmm_state \<Rightarrow> u64" where
  "high_order_nodes s = fold (\<lambda>od c. c + g_aOrderCount s ! od) [1..<PMM_MAX_ORDER + 1] 0"

end
