(* ===== verification/Pmm_Lemmas.thy ===== *)
theory Pmm_Lemmas
  imports Pmm "HOL-Library.Disjoint_Sets"
begin

text \<open>
  The free blocks as a set of (order, address) pairs: what the lists of \<^verbatim>\<open>pmm.c\<close> represent, and what push,
  pop and split do to it.
\<close>

section \<open>Blocks and pages\<close>

text \<open>The page numbers of a block.\<close>

definition blk_pages :: "nat \<Rightarrow> u64 \<Rightarrow> nat set" where
  "blk_pages od pa = {unat pa div 4096 ..< unat pa div 4096 + 2 ^ od}"

text \<open>An aligned block of physical memory (52 address bits).\<close>

definition blk_geom :: "nat \<Rightarrow> u64 \<Rightarrow> bool" where
  "blk_geom od pa \<longleftrightarrow> od \<le> PMM_MAX_ORDER \<and> 4096 * 2 ^ od dvd unat pa \<and> pa \<noteq> 0 \<and> unat pa + 4096 * 2 ^ od \<le> 2 ^ 52"

lemma and_mask_dvd: "pa AND (2 ^ k - 1) = 0 \<longleftrightarrow> 2 ^ k dvd unat pa" for pa :: u64
proof -
  have 1: "pa AND (2 ^ k - 1) = take_bit k pa" by (simp add: take_bit_eq_mask mask_eq_exp_minus_1)
  have 2: "unat (take_bit k pa) = unat pa mod 2 ^ k" by (simp only: unsigned_take_bit_eq take_bit_eq_mod [of k "unat pa"])
  show ?thesis unfolding 1 using 2 unat_eq_0 [of "take_bit k pa"] by (simp add: dvd_eq_mod_eq_0)
qed

lemma order_bytes_pow: "order_bytes od = 2 ^ (12 + od)"
  by (simp add: order_bytes_def push_bit_eq_mult power_add)

lemma order_aligned_dvd: "order_aligned pa od \<longleftrightarrow> 4096 * 2 ^ od dvd unat pa"
proof -
  have p: "(4096 :: nat) * 2 ^ od = 2 ^ (12 + od)" by (simp add: power_add)
  show ?thesis
    using and_mask_dvd [of pa "12 + od"] and_mask_dvd [of pa 12]
    by (simp add: order_aligned_def order_bytes_pow p)
qed

lemma page_aligned_dvd: "pa AND 4095 = 0 \<longleftrightarrow> 4096 dvd unat pa" for pa :: u64
  using and_mask_dvd [of pa 12] by simp

lemma unat_span: "od \<le> 9 \<Longrightarrow> unat (2 ^ od * 4096 :: u64) = 4096 * 2 ^ od"
proof -
  assume "od \<le> 9"
  then have "od \<in> {0, 1, 2, 3, 4, 5, 6, 7, 8, 9}" by auto
  then show ?thesis by auto
qed

lemma unat_pages: "od \<le> 9 \<Longrightarrow> unat (2 ^ od :: u64) = 2 ^ od"
proof -
  assume "od \<le> 9"
  then have "od \<in> {0, 1, 2, 3, 4, 5, 6, 7, 8, 9}" by auto
  then show ?thesis by auto
qed

lemma blk_geomD:
  assumes "blk_geom od pa"
  shows "od \<le> 9" "4096 * 2 ^ od dvd unat pa" "4096 dvd unat pa" "unat pa + 4096 * 2 ^ od \<le> 2 ^ 52" "pa \<noteq> 0"
    "order_aligned pa od" "pa AND 4095 = 0" "unat pa = 4096 * (unat pa div 4096)" "unat (pa + 2 ^ od * 4096) = unat pa + 4096 * 2 ^ od"
proof -
  show o: "od \<le> 9" and d: "4096 * 2 ^ od dvd unat pa" and le: "unat pa + 4096 * 2 ^ od \<le> 2 ^ 52" and "pa \<noteq> 0"
    using assms by (auto simp: blk_geom_def)
  then show p: "4096 dvd unat pa" using dvd_trans by fastforce
  then show "order_aligned pa od" "pa AND 4095 = 0" "unat pa = 4096 * (unat pa div 4096)"
    using d by (simp_all add: order_aligned_dvd page_aligned_dvd)
  show "unat (pa + 2 ^ od * 4096) = unat pa + 4096 * 2 ^ od"
    using le unat_span [OF o] by (simp add: unat_word_ariths)
qed

lemma blk_pages_mem: "blk_geom od pa \<Longrightarrow> unat pa div 4096 \<in> blk_pages od pa"
  by (simp add: blk_pages_def)

lemma blk_pages_fin [simp]: "finite (blk_pages od pa)" "card (blk_pages od pa) = 2 ^ od" "blk_pages od pa \<noteq> {}"
  by (simp_all add: blk_pages_def)

text \<open>A block lies on one side of 4 GiB.\<close>

lemma blk_zone:
  assumes "blk_geom od pa"
  shows "pa < PMM_LOW_MAX \<Longrightarrow> blk_pages od pa \<subseteq> {..<2 ^ 20}" and "\<not> pa < PMM_LOW_MAX \<Longrightarrow> blk_pages od pa \<inter> {..<2 ^ 20} = {}"
proof -
  note g = blk_geomD [OF assms]
  have d: "4096 * 2 ^ od dvd (0x100000000 :: nat)"
  proof -
    have "(4096 :: nat) * 2 ^ od = 2 ^ (12 + od)" by (simp add: power_add)
    moreover have "(2 :: nat) ^ (12 + od) dvd 2 ^ 32" using g(1) by (intro le_imp_power_dvd) simp
    ultimately show ?thesis by simp
  qed
  show "blk_pages od pa \<subseteq> {..<2 ^ 20}" if "pa < PMM_LOW_MAX"
  proof -
    have "unat pa < 0x100000000" using that by (simp add: word_less_nat_alt)
    then have "unat pa + 4096 * 2 ^ od \<le> 0x100000000"
      using d g(2) by (metis dvd_def le_Suc_ex less_le_not_le linorder_not_le mult_Suc_right nat_mult_le_cancel_disj not_less_eq_eq add.commute)
    then show ?thesis using g(8) by (auto simp: blk_pages_def)
  qed
  show "blk_pages od pa \<inter> {..<2 ^ 20} = {}" if "\<not> pa < PMM_LOW_MAX"
    using that by (auto simp: blk_pages_def word_less_nat_alt)
qed


section \<open>What the lists hold\<close>

type_synonym blocks = "(nat \<times> u64) set"

definition free_pages :: "blocks \<Rightarrow> nat set" where
  "free_pages S = (\<Union>(od, pa) \<in> S. blk_pages od pa)"

definition allowed :: "pmm_state \<Rightarrow> nat \<Rightarrow> u64 \<Rightarrow> bool" where
  "allowed s od pa \<longleftrightarrow> range_ok_free s pa (2 ^ od * GJ_PAGE_SIZE) \<and> (pa < PMM_LOW_MAX \<or> pg_fHhdm s)"

text \<open>The blocks are aligned, allowed and disjoint.\<close>

definition blocks_ok :: "pmm_state \<Rightarrow> blocks \<Rightarrow> bool" where
  "blocks_ok s S \<longleftrightarrow> finite S \<and> (\<forall>(od, pa) \<in> S. blk_geom od pa \<and> allowed s od pa)
     \<and> disjoint_family_on (\<lambda>(od, pa). blk_pages od pa) S"

text \<open>The list of each order and zone holds its blocks once.\<close>

definition zone_blocks :: "blocks \<Rightarrow> bool \<Rightarrow> nat \<Rightarrow> u64 set" where
  "zone_blocks S z od = {pa. (od, pa) \<in> S \<and> (pa < PMM_LOW_MAX) = z}"

definition lists_ok :: "pmm_state \<Rightarrow> blocks \<Rightarrow> bool" where
  "lists_ok s S \<longleftrightarrow> (\<forall>z. \<forall>od \<le> PMM_MAX_ORDER. \<exists>xs. chain (pg_word s) (order_head z od s) xs \<and> distinct xs
     \<and> set xs = zone_blocks S z od)"

definition counts_ok :: "pmm_state \<Rightarrow> blocks \<Rightarrow> bool" where
  "counts_ok s S \<longleftrightarrow> unat (g_cFramesFree s) = card (free_pages S)
     \<and> unat (g_cFramesFreeLow s) = card (free_pages S \<inter> {..<2 ^ 20})
     \<and> unat (g_cFramesFreeHigh s) = card (free_pages S - {..<2 ^ 20})
     \<and> (\<forall>od \<le> PMM_MAX_ORDER. unat (g_aOrderCount s ! od) = card {pa. (od, pa) \<in> S})"

definition pmm_inv :: "pmm_state \<Rightarrow> blocks \<Rightarrow> bool" where
  "pmm_inv s S \<longleftrightarrow> length (g_aOrderLow s) = 10 \<and> length (g_aOrderHigh s) = 10 \<and> length (g_aOrderCount s) = 10
     \<and> blocks_ok s S \<and> lists_ok s S \<and> counts_ok s S"

lemma blocks_okD:
  assumes "blocks_ok s S" and "(od, pa) \<in> S"
  shows "blk_geom od pa" "allowed s od pa" "blk_pages od pa \<subseteq> free_pages S"
  using assms by (auto simp: blocks_ok_def free_pages_def)

text \<open>Two blocks that share a page are the same.\<close>

lemma blocks_unique:
  assumes "blocks_ok s S" and "(od, pa) \<in> S" and "(od', pa') \<in> S" and "p \<in> blk_pages od pa" "p \<in> blk_pages od' pa'"
  shows "od' = od \<and> pa' = pa"
proof (rule ccontr)
  assume "\<not> (od' = od \<and> pa' = pa)"
  then have "(od, pa) \<noteq> (od', pa')" by auto
  with assms(1-3) have "blk_pages od pa \<inter> blk_pages od' pa' = {}"
    by (fastforce simp: blocks_ok_def dest: disjoint_family_onD)
  with assms(4,5) show False by auto
qed

lemma free_pages_bound:
  assumes "blocks_ok s S"
  shows "free_pages S \<subseteq> {..<2 ^ 40}" "finite (free_pages S)" "card (free_pages S) \<le> 2 ^ 40"
proof -
  show sub: "free_pages S \<subseteq> {..<2 ^ 40}"
  proof
    fix p assume "p \<in> free_pages S"
    then obtain od pa where b: "(od, pa) \<in> S" "p \<in> blk_pages od pa" by (auto simp: free_pages_def)
    note g = blk_geomD [OF blocks_okD(1) [OF assms b(1)]]
    have "4096 * (unat pa div 4096 + 2 ^ od) \<le> 4096 * 2 ^ 40" using g(4,8) by (simp add: distrib_left)
    then have "unat pa div 4096 + 2 ^ od \<le> 2 ^ 40" by (subst (asm) mult_le_cancel1) simp
    then show "p \<in> {..<2 ^ 40}" using b(2) by (auto simp: blk_pages_def)
  qed
  show "finite (free_pages S)" using sub finite_subset by blast
  show "card (free_pages S) \<le> 2 ^ 40" using card_mono [OF _ sub] by simp
qed

lemma order_count_bound:
  assumes "blocks_ok s S"
  shows "card {pa. (od, pa) \<in> S} \<le> card (free_pages S)"
proof (rule card_inj_on_le [where f = "\<lambda>pa. unat pa div 4096"])
  show "inj_on (\<lambda>pa. unat pa div 4096) {pa. (od, pa) \<in> S}"
  proof (rule inj_onI)
    fix x y assume x: "x \<in> {pa. (od, pa) \<in> S}" and y: "y \<in> {pa. (od, pa) \<in> S}" and "unat x div 4096 = unat y div 4096"
    then show "x = y"
      using blocks_unique [OF assms, of od x od y "unat x div 4096"] blk_pages_mem blocks_okD(1) [OF assms]
      by (auto simp: blk_pages_def)
  qed
  show "(\<lambda>pa. unat pa div 4096) ` {pa. (od, pa) \<in> S} \<subseteq> free_pages S"
    using blk_pages_mem blocks_okD(1,3) [OF assms] by blast
qed (rule free_pages_bound(2) [OF assms])

lemma free_pages_insert: "free_pages (insert (od, pa) S) = blk_pages od pa \<union> free_pages S"
  by (auto simp: free_pages_def)

lemma free_pages_remove:
  assumes "blocks_ok s S" and "(od, pa) \<in> S"
  shows "free_pages (S - {(od, pa)}) = free_pages S - blk_pages od pa"
proof (rule set_eqI, rule iffI)
  fix p assume "p \<in> free_pages (S - {(od, pa)})"
  then obtain od' pa' where b: "(od', pa') \<in> S" "(od', pa') \<noteq> (od, pa)" "p \<in> blk_pages od' pa'" by (auto simp: free_pages_def)
  then have "p \<notin> blk_pages od pa" using blocks_unique [OF assms(1) b(1) assms(2) b(3)] by auto
  with b(1,3) show "p \<in> free_pages S - blk_pages od pa" by (auto simp: free_pages_def)
next
  fix p assume "p \<in> free_pages S - blk_pages od pa"
  then show "p \<in> free_pages (S - {(od, pa)})" by (auto simp: free_pages_def)
qed

lemma blocks_ok_remove: "blocks_ok s S \<Longrightarrow> blocks_ok s (S - X)"
  by (auto simp: blocks_ok_def intro: disjoint_family_on_mono)

lemma blocks_ok_insert:
  assumes "blocks_ok s S" and "blk_geom od pa" and "allowed s od pa" and "blk_pages od pa \<inter> free_pages S = {}"
  shows "blocks_ok s (insert (od, pa) S)"
proof -
  have "blk_pages od pa \<inter> blk_pages od' pa' = {}" if "(od', pa') \<in> S" for od' pa'
    using assms(4) that by (auto simp: free_pages_def)
  then have "disjoint_family_on (\<lambda>(od, pa). blk_pages od pa) (insert (od, pa) S)"
    using assms(1) unfolding disjoint_family_on_def blocks_ok_def by fast
  with assms(1-3) show ?thesis by (auto simp: blocks_ok_def)
qed

lemma order_head_set:
  assumes "length (g_aOrderLow s) = 10" "length (g_aOrderHigh s) = 10" "od \<le> 9" "od' \<le> 9"
  shows "order_head z' od' (set_order_head z od pa s) = (if z' = z \<and> od' = od then pa else order_head z' od' s)"
  using assms by (auto simp: order_head_def set_order_head_def)


section \<open>Pop\<close>

text \<open>The configuration that decides which blocks are allowed.\<close>

definition same_cfg :: "pmm_state \<Rightarrow> pmm_state \<Rightarrow> bool" where
  "same_cfg s t \<longleftrightarrow> g_paKernel0 t = g_paKernel0 s \<and> g_paKernel1 t = g_paKernel1 s \<and> g_paSoftMedia0 t = g_paSoftMedia0 s
     \<and> g_paSoftMedia1 t = g_paSoftMedia1 s \<and> pg_fHhdm t = pg_fHhdm s \<and> g_cFramesTotal t = g_cFramesTotal s
     \<and> g_aHigh t = g_aHigh s \<and> g_fHighReleased t = g_fHighReleased s \<and> g_paMaxSeen t = g_paMaxSeen s"

lemma same_cfg_refl [simp]: "same_cfg s s"
  by (simp add: same_cfg_def)

lemma same_cfg_trans: "same_cfg s t \<Longrightarrow> same_cfg t u \<Longrightarrow> same_cfg s u"
  by (simp add: same_cfg_def)

lemma same_cfg_allowed: "same_cfg s t \<Longrightarrow> allowed t = allowed s"
  by (intro ext) (simp add: same_cfg_def allowed_def range_ok_free_def)

lemma same_cfg_blocks: "same_cfg s t \<Longrightarrow> blocks_ok t S = blocks_ok s S"
  by (simp add: blocks_ok_def same_cfg_allowed)

lemma set_head_fields [simp]:
  "pg_word (set_order_head z od pa s) = pg_word s" "g_aOrderCount (set_order_head z od pa s) = g_aOrderCount s"
  "g_cFramesFree (set_order_head z od pa s) = g_cFramesFree s" "g_cFramesFreeLow (set_order_head z od pa s) = g_cFramesFreeLow s"
  "g_cFramesFreeHigh (set_order_head z od pa s) = g_cFramesFreeHigh s" "same_cfg s (set_order_head z od pa s)"
  "length (g_aOrderLow (set_order_head z od pa s)) = length (g_aOrderLow s)"
  "length (g_aOrderHigh (set_order_head z od pa s)) = length (g_aOrderHigh s)"
  by (simp_all add: set_order_head_def same_cfg_def)

text \<open>A block is listed at one place only.\<close>

lemma zone_blocks_unique:
  assumes "blocks_ok s S" and "pa \<in> zone_blocks S z od" and "pa \<in> zone_blocks S z' od'"
  shows "z' = z \<and> od' = od"
proof -
  have a: "(od, pa) \<in> S" "(od', pa) \<in> S" using assms(2,3) by (simp_all add: zone_blocks_def)
  have "unat pa div 4096 \<in> blk_pages od pa" "unat pa div 4096 \<in> blk_pages od' pa" by (simp_all add: blk_pages_def)
  from blocks_unique [OF assms(1) a this] assms(2,3) show ?thesis by (simp add: zone_blocks_def)
qed

lemma unat_sub_or_zero: "unat (sub_or_zero a b) = unat a - unat b"
  by (simp add: sub_or_zero_def unat_sub word_le_nat_alt)

lemma zone_card:
  assumes "blk_geom od pa"
  shows "card (blk_pages od pa \<inter> {..<2 ^ 20}) = (if pa < PMM_LOW_MAX then 2 ^ od else 0)"
    and "card (blk_pages od pa - {..<2 ^ 20}) = (if pa < PMM_LOW_MAX then 0 else 2 ^ od)"
proof -
  have "blk_pages od pa \<inter> {..<2 ^ 20} = (if pa < PMM_LOW_MAX then blk_pages od pa else {})"
    using blk_zone [OF assms] by auto
  then show "card (blk_pages od pa \<inter> {..<2 ^ 20}) = (if pa < PMM_LOW_MAX then 2 ^ od else 0)" by simp
  have "blk_pages od pa - {..<2 ^ 20} = (if pa < PMM_LOW_MAX then {} else blk_pages od pa)"
    using blk_zone [OF assms] by auto
  then show "card (blk_pages od pa - {..<2 ^ 20}) = (if pa < PMM_LOW_MAX then 0 else 2 ^ od)" by simp
qed

text \<open>Counts after a block goes or comes.\<close>

definition counters :: "pmm_state \<Rightarrow> nat \<times> nat \<times> nat" where
  "counters s = (unat (g_cFramesFree s), unat (g_cFramesFreeLow s), unat (g_cFramesFreeHigh s))"

lemma card_removed:
  assumes ok: "blocks_ok s S" and b: "(od, pa) \<in> S"
  defines "S' \<equiv> S - {(od, pa)}"
  shows "card (free_pages S') = card (free_pages S) - 2 ^ od"
    and "card (free_pages S' \<inter> {..<2 ^ 20}) = card (free_pages S \<inter> {..<2 ^ 20}) - (if pa < PMM_LOW_MAX then 2 ^ od else 0)"
    and "card (free_pages S' - {..<2 ^ 20}) = card (free_pages S - {..<2 ^ 20}) - (if pa < PMM_LOW_MAX then 0 else 2 ^ od)"
    and "card {p. (od', p) \<in> S'} = card {p. (od', p) \<in> S} - (if od' = od then 1 else 0)"
proof -
  note g = blocks_okD [OF ok b] and fin = free_pages_bound(2) [OF ok]
  have F: "free_pages S' = free_pages S - blk_pages od pa" unfolding S'_def by (rule free_pages_remove [OF ok b])
  show "card (free_pages S') = card (free_pages S) - 2 ^ od" unfolding F using g(3) by (simp add: card_Diff_subset)
  have L: "free_pages S' \<inter> {..<2 ^ 20} = (free_pages S \<inter> {..<2 ^ 20}) - (blk_pages od pa \<inter> {..<2 ^ 20})" unfolding F by auto
  have "blk_pages od pa \<inter> {..<2 ^ 20} \<subseteq> free_pages S \<inter> {..<2 ^ 20}" using g(3) by auto
  from card_Diff_subset [OF _ this] show "card (free_pages S' \<inter> {..<2 ^ 20}) = card (free_pages S \<inter> {..<2 ^ 20}) - (if pa < PMM_LOW_MAX then 2 ^ od else 0)"
    unfolding L using zone_card(1) [OF g(1)] by simp
  have H: "free_pages S' - {..<2 ^ 20} = (free_pages S - {..<2 ^ 20}) - (blk_pages od pa - {..<2 ^ 20})" unfolding F by auto
  have "blk_pages od pa - {..<2 ^ 20} \<subseteq> free_pages S - {..<2 ^ 20}" using g(3) by auto
  from card_Diff_subset [OF _ this] show "card (free_pages S' - {..<2 ^ 20}) = card (free_pages S - {..<2 ^ 20}) - (if pa < PMM_LOW_MAX then 0 else 2 ^ od)"
    unfolding H using zone_card(2) [OF g(1)] by simp
  have "{p. (od', p) \<in> S'} = {p. (od', p) \<in> S} - (if od' = od then {pa} else {})" by (auto simp: S'_def)
  then show "card {p. (od', p) \<in> S'} = card {p. (od', p) \<in> S} - (if od' = od then 1 else 0)"
    using b by (simp split: if_splits)
qed

lemma pop_cases:
  assumes inv: "pmm_inv s S" and od: "od \<le> PMM_MAX_ORDER" and r: "pop_order_from od z s = (pa, t)"
  obtains (Empty) "pa = 0" "t = s" "zone_blocks S z od = {}"
    | (Got) "(od, pa) \<in> S" "(pa < PMM_LOW_MAX) = z" "pmm_inv t (S - {(od, pa)})" "same_cfg s t" "blk_geom od pa"
proof -
  have len: "length (g_aOrderLow s) = 10" "length (g_aOrderHigh s) = 10" "length (g_aOrderCount s) = 10"
    and ok: "blocks_ok s S" and ls: "lists_ok s S" and cs: "counts_ok s S" using inv by (simp_all add: pmm_inv_def)
  obtain xs where xs: "chain (pg_word s) (order_head z od s) xs" "distinct xs" "set xs = zone_blocks S z od"
    using ls od unfolding lists_ok_def by blast
  show thesis
  proof (cases xs)
    case Nil
    then have "order_head z od s = 0" using xs(1) by simp
    then show thesis using r od xs(3) Nil by (intro Empty) (auto simp: pop_order_from_def Let_def)
  next
    case (Cons x ys)
    have x: "order_head z od s = x" "x \<noteq> 0" "chain (pg_word s) (pg_word s x) ys" "x \<notin> set ys" "x \<in> zone_blocks S z od"
      using xs Cons by auto
    have b: "(od, x) \<in> S" "(x < PMM_LOW_MAX) = z" using x(5) by (simp_all add: zone_blocks_def)
    note g = blocks_okD(1,2) [OF ok b(1)] and gd = blk_geomD [OF blocks_okD(1) [OF ok b(1)]]
    let ?h = "set_order_head z od (pg_word s x) s" and ?c = "2 ^ od :: u64"
    have t: "pa = x" "t = (if x < PMM_LOW_MAX then ?h\<lparr>g_cFramesFreeLow := sub_or_zero (g_cFramesFreeLow s) ?c\<rparr>
         else ?h\<lparr>g_cFramesFreeHigh := sub_or_zero (g_cFramesFreeHigh s) ?c\<rparr>)
         \<lparr>pg_word := (pg_word s)(x := 0), g_cFramesFree := sub_or_zero (g_cFramesFree s) ?c,
          g_aOrderCount := (g_aOrderCount s)[od := sub_or_zero (g_aOrderCount s ! od) 1]\<rparr>"
      using r od x(1,2) gd(6) b(2) g(2)
      by (auto simp: pop_order_from_def Let_def pa_to_ptr_def allowed_def linorder_not_less split: if_splits)
    have hd: "order_head z' od' t = (if z' = z \<and> od' = od then pg_word s x else order_head z' od' s)" if "od' \<le> 9" for z' and od' :: nat
    proof -
      have "order_head z' od' t = order_head z' od' ?h" by (simp add: t(2) order_head_def)
      then show ?thesis using order_head_set [OF len(1,2) _ that, of od z' z "pg_word s x"] od by simp
    qed
    have wd: "pg_word t = (pg_word s)(x := 0)" by (simp add: t(2))
    let ?S = "S - {(od, x)}"
    have cfg: "same_cfg s t" using set_head_fields(6) [of s z od "pg_word s x"] by (simp add: t(2) same_cfg_def)
    have "lists_ok t ?S"
      unfolding lists_ok_def
    proof (intro allI impI)
      fix z' and od' :: nat assume od': "od' \<le> 9"
      show "\<exists>xs. chain (pg_word t) (order_head z' od' t) xs \<and> distinct xs \<and> set xs = zone_blocks ?S z' od'"
      proof (cases "z' = z \<and> od' = od")
        case True
        have "zone_blocks ?S z od = zone_blocks S z od - {x}" by (auto simp: zone_blocks_def)
        then have "set ys = zone_blocks ?S z od" "distinct ys" using xs(2,3) Cons by auto
        then show ?thesis using True x(3,4) hd [OF od'] by (intro exI [of _ ys]) (simp add: wd)
      next
        case False
        obtain us where us: "chain (pg_word s) (order_head z' od' s) us" "distinct us" "set us = zone_blocks S z' od'"
          using ls od' unfolding lists_ok_def by blast
        have "x \<notin> set us" using zone_blocks_unique [OF ok x(5)] us(3) False by blast
        moreover have "zone_blocks ?S z' od' = zone_blocks S z' od'" using False b by (auto simp: zone_blocks_def)
        ultimately show ?thesis using us False hd [OF od', of z'] by (intro exI [of _ us]) (auto simp: wd)
      qed
    qed
    moreover have "counts_ok t ?S"
      using cs card_removed [OF ok b(1)] od len(3) unat_pages [OF od]
      by (simp add: counts_ok_def t(2) unat_sub_or_zero nth_list_update)
    moreover have "blocks_ok t ?S" using ok cfg by (simp add: same_cfg_blocks blocks_ok_remove)
    ultimately have "pmm_inv t ?S" using len by (simp add: pmm_inv_def t(2))
    then show thesis using b cfg g(1) by (intro Got) (simp_all add: t(1))
  qed
qed


section \<open>Push\<close>

lemma card_added:
  assumes ok: "blocks_ok s S" and g: "blk_geom od pa" and d: "blk_pages od pa \<inter> free_pages S = {}"
  defines "S' \<equiv> insert (od, pa) S"
  shows "card (free_pages S') = card (free_pages S) + 2 ^ od"
    and "card (free_pages S' \<inter> {..<2 ^ 20}) = card (free_pages S \<inter> {..<2 ^ 20}) + (if pa < PMM_LOW_MAX then 2 ^ od else 0)"
    and "card (free_pages S' - {..<2 ^ 20}) = card (free_pages S - {..<2 ^ 20}) + (if pa < PMM_LOW_MAX then 0 else 2 ^ od)"
    and "card {p. (od', p) \<in> S'} = card {p. (od', p) \<in> S} + (if od' = od then 1 else 0)"
proof -
  note fin = free_pages_bound(2) [OF ok]
  have F: "free_pages S' = free_pages S \<union> blk_pages od pa" unfolding S'_def free_pages_insert by auto
  show "card (free_pages S') = card (free_pages S) + 2 ^ od"
    unfolding F using card_Un_disjoint [OF fin blk_pages_fin(1) [of od pa]] d by (simp add: Int_commute)
  have L: "free_pages S' \<inter> {..<2 ^ 20} = (free_pages S \<inter> {..<2 ^ 20}) \<union> (blk_pages od pa \<inter> {..<2 ^ 20})" unfolding F by auto
  have "(free_pages S \<inter> {..<2 ^ 20}) \<inter> (blk_pages od pa \<inter> {..<2 ^ 20}) = {}" using d by auto
  from card_Un_disjoint [OF _ _ this] fin
  show "card (free_pages S' \<inter> {..<2 ^ 20}) = card (free_pages S \<inter> {..<2 ^ 20}) + (if pa < PMM_LOW_MAX then 2 ^ od else 0)"
    unfolding L using zone_card(1) [OF g] by simp
  have H: "free_pages S' - {..<2 ^ 20} = (free_pages S - {..<2 ^ 20}) \<union> (blk_pages od pa - {..<2 ^ 20})" unfolding F by auto
  have "(free_pages S - {..<2 ^ 20}) \<inter> (blk_pages od pa - {..<2 ^ 20}) = {}" using d by auto
  from card_Un_disjoint [OF _ _ this] fin
  show "card (free_pages S' - {..<2 ^ 20}) = card (free_pages S - {..<2 ^ 20}) + (if pa < PMM_LOW_MAX then 0 else 2 ^ od)"
    unfolding H using zone_card(2) [OF g] by simp
  have "finite {p. (od', p) \<in> S}"
  proof -
    have "{p. (od', p) \<in> S} = snd ` (S \<inter> {od'} \<times> UNIV)" by force
    then show ?thesis using ok by (simp add: blocks_ok_def)
  qed
  moreover have "(od, pa) \<notin> S" using d blk_pages_mem [OF g] unfolding free_pages_def by blast
  moreover have "{p. (od', p) \<in> S'} = (if od' = od then {pa} else {}) \<union> {p. (od', p) \<in> S}" by (auto simp: S'_def)
  ultimately show "card {p. (od', p) \<in> S'} = card {p. (od', p) \<in> S} + (if od' = od then 1 else 0)" by auto
qed

lemma unat_add_small: "unat a + unat b < 2 ^ 64 \<Longrightarrow> unat (a + b) = unat a + unat b" for a b :: u64
  by (simp add: unat_word_ariths)

lemma push_ok:
  assumes inv: "pmm_inv s S" and g: "blk_geom od pa" and al: "allowed s od pa" and d: "blk_pages od pa \<inter> free_pages S = {}"
  shows "pmm_inv (push_order pa od s) (insert (od, pa) S)" and "same_cfg s (push_order pa od s)"
proof -
  have len: "length (g_aOrderLow s) = 10" "length (g_aOrderHigh s) = 10" "length (g_aOrderCount s) = 10"
    and ok: "blocks_ok s S" and ls: "lists_ok s S" and cs: "counts_ok s S" using inv by (simp_all add: pmm_inv_def)
  note gd = blk_geomD [OF g]
  let ?z = "pa < PMM_LOW_MAX" and ?c = "2 ^ od :: u64" and ?S = "insert (od, pa) S"
  let ?w = "s\<lparr>pg_word := (pg_word s)(pa := order_head ?z od s)\<rparr>"
  let ?h = "set_order_head ?z od pa ?w"
  define t where "t = push_order pa od s"
  have t: "t = (if ?z then ?h\<lparr>g_cFramesFreeLow := g_cFramesFreeLow s + ?c\<rparr> else ?h\<lparr>g_cFramesFreeHigh := g_cFramesFreeHigh s + ?c\<rparr>)
         \<lparr>g_cFramesFree := g_cFramesFree s + ?c, g_aOrderCount := (g_aOrderCount s)[od := g_aOrderCount s ! od + 1]\<rparr>"
    using gd(1,5-7) al
    by (auto simp: t_def push_order_def push_block_def pa_to_ptr_def allowed_def Let_def linorder_not_less)
  have hd: "order_head z' od' t = (if z' = ?z \<and> od' = od then pa else order_head z' od' s)" if "od' \<le> 9" for z' and od' :: nat
  proof -
    have "order_head z' od' t = order_head z' od' ?h" by (simp add: t order_head_def)
    also have "\<dots> = (if z' = ?z \<and> od' = od then pa else order_head z' od' ?w)"
      using len by (intro order_head_set gd(1) that) simp_all
    also have "order_head z' od' ?w = order_head z' od' s" by (simp add: order_head_def)
    finally show ?thesis .
  qed
  have wd: "pg_word t = (pg_word s)(pa := order_head ?z od s)" by (simp add: t)
  have cfg: "same_cfg s t" by (simp add: t same_cfg_def set_order_head_def)
  have new: "pa \<notin> zone_blocks S z' od'" for z' od'
  proof
    assume "pa \<in> zone_blocks S z' od'"
    then have "unat pa div 4096 \<in> free_pages S" by (auto simp: zone_blocks_def free_pages_def blk_pages_def intro!: bexI)
    with d blk_pages_mem [OF g] show False by blast
  qed
  have "lists_ok t ?S"
    unfolding lists_ok_def
  proof (intro allI impI)
    fix z' and od' :: nat assume od': "od' \<le> 9"
    obtain us where us: "chain (pg_word s) (order_head z' od' s) us" "distinct us" "set us = zone_blocks S z' od'"
      using ls od' unfolding lists_ok_def by blast
    have nu: "pa \<notin> set us" using new us(3) by simp
    show "\<exists>xs. chain (pg_word t) (order_head z' od' t) xs \<and> distinct xs \<and> set xs = zone_blocks ?S z' od'"
    proof (cases "z' = ?z \<and> od' = od")
      case True
      have "zone_blocks ?S ?z od = insert pa (zone_blocks S ?z od)" by (auto simp: zone_blocks_def)
      then show ?thesis using True us nu gd(5) hd [OF od', of z'] by (intro exI [of _ "pa # us"]) (simp add: wd)
    next
      case False
      have "zone_blocks ?S z' od' = zone_blocks S z' od'" using False by (auto simp: zone_blocks_def)
      then show ?thesis using us nu False hd [OF od', of z'] by (intro exI [of _ us]) (auto simp: wd)
    qed
  qed
  moreover have "blocks_ok t ?S" using blocks_ok_insert [OF ok g al d] cfg by (simp add: same_cfg_blocks)
  moreover have "counts_ok t ?S"
  proof -
    note ca = card_added [OF ok g d]
    have b: "card (free_pages S) \<le> 2 ^ 40" by (rule free_pages_bound(3) [OF ok])
    have bl: "card (free_pages S \<inter> {..<2 ^ 20}) \<le> 2 ^ 40" "card (free_pages S - {..<2 ^ 20}) \<le> 2 ^ 40"
      using b card_mono [OF free_pages_bound(2) [OF ok], of "free_pages S \<inter> {..<2 ^ 20}"]
        card_mono [OF free_pages_bound(2) [OF ok], of "free_pages S - {..<2 ^ 20}"] by auto
    have bo: "card {p. (od, p) \<in> S} \<le> 2 ^ 40" using order_count_bound [OF ok, of od] b by simp
    have p: "(2 :: nat) ^ od \<le> 2 ^ 9" using gd(1) by (intro power_increasing) auto
    have "unat (g_cFramesFree s + ?c) = unat (g_cFramesFree s) + 2 ^ od"
      "unat (g_cFramesFreeLow s + ?c) = unat (g_cFramesFreeLow s) + 2 ^ od"
      "unat (g_cFramesFreeHigh s + ?c) = unat (g_cFramesFreeHigh s) + 2 ^ od"
      "unat (g_aOrderCount s ! od + 1) = unat (g_aOrderCount s ! od) + 1"
      using unat_add_small [of _ ?c] unat_add_small [of _ 1] cs b bl bo p unat_pages [OF gd(1)] gd(1)
      by (simp_all add: counts_ok_def)
    then show ?thesis using cs ca gd(1) len(3) by (simp add: counts_ok_def t nth_list_update)
  qed
  ultimately show "pmm_inv (push_order pa od s) ?S" using len by (simp add: pmm_inv_def t [symmetric] flip: t_def) (simp add: t)
  show "same_cfg s (push_order pa od s)" using cfg by (simp add: t_def)
qed

lemma push_refused: "blk_geom od pa \<Longrightarrow> \<not> allowed s od pa \<Longrightarrow> push_order pa od s = s"
  using blk_geomD [of od pa]
  by (auto simp: push_order_def push_block_def pa_to_ptr_def allowed_def Let_def linorder_not_less)


section \<open>Splitting\<close>

lemma range_ok_mono:
  assumes "range_ok_free s a ca" and "a \<le> b" and "cb \<noteq> 0" and "b + cb \<le> a + ca"
  shows "range_ok_free s b cb"
proof -
  have "range_overlaps a (a + ca) x y" if "range_overlaps b (b + cb) x y" for x y
  proof -
    have "a < y" "x < b + cb" using that order.strict_trans1 [OF assms(2)] by (simp_all add: range_overlaps_def)
    then show ?thesis using order.strict_trans2 [OF _ assms(4)] by (simp add: range_overlaps_def)
  qed
  moreover have "\<not> b < 0x100000" using assms(1) order.strict_trans1 [OF assms(2)] by (auto simp: range_ok_free_def)
  ultimately show ?thesis using assms(1,3) by (auto simp: range_ok_free_def split: if_splits)
qed

text \<open>The halves of a block.\<close>

lemma blk_halves:
  assumes "blk_geom (Suc od) pa"
  shows "blk_geom od pa" "blk_geom od (pa + 2 ^ od * 4096)"
    "blk_pages (Suc od) pa = blk_pages od pa \<union> blk_pages od (pa + 2 ^ od * 4096)"
    "blk_pages od pa \<inter> blk_pages od (pa + 2 ^ od * 4096) = {}"
    "(pa + 2 ^ od * 4096 < PMM_LOW_MAX) = (pa < PMM_LOW_MAX)"
    "allowed s (Suc od) pa \<Longrightarrow> allowed s od pa" "allowed s (Suc od) pa \<Longrightarrow> allowed s od (pa + 2 ^ od * 4096)"
proof -
  note g = blk_geomD [OF assms]
  have od: "od \<le> 9" using g(1) by simp
  have u: "unat (pa + 2 ^ od * 4096) = unat pa + 4096 * 2 ^ od"
    using g(4) unat_span [OF od] by (subst unat_add_small) simp_all
  have "(4096 :: nat) * 2 ^ od dvd 4096 * 2 ^ Suc od" by simp
  then have dv: "4096 * 2 ^ od dvd unat pa" using g(2) dvd_trans by blast
  show g1: "blk_geom od pa" using g(1,4,5) dv by (simp add: blk_geom_def)
  have ne: "pa + 2 ^ od * 4096 \<noteq> 0" using u by (auto simp: unat_eq_zero dest!: arg_cong [of _ 0 unat])
  show g2: "blk_geom od (pa + 2 ^ od * 4096)" using g(1,4) dv ne u by (simp add: blk_geom_def)
  have m: "(unat pa + 4096 * 2 ^ od) div 4096 = unat pa div 4096 + 2 ^ od" by simp
  show pu: "blk_pages (Suc od) pa = blk_pages od pa \<union> blk_pages od (pa + 2 ^ od * 4096)"
    and "blk_pages od pa \<inter> blk_pages od (pa + 2 ^ od * 4096) = {}"
    unfolding blk_pages_def u m by auto
  show z: "(pa + 2 ^ od * 4096 < PMM_LOW_MAX) = (pa < PMM_LOW_MAX)"
    using blk_zone [OF assms] blk_zone [OF g2] pu blk_pages_mem [OF g2] by blast
  have e2: "unat ((pa + 2 ^ od * 4096) + 2 ^ od * 4096) = unat pa + 4096 * 2 ^ Suc od"
    using blk_geomD(9) [OF g2] u by simp
  have ee: "(pa + 2 ^ od * 4096) + 2 ^ od * 4096 = pa + 2 ^ Suc od * 4096" by (simp add: algebra_simps)
  have nz: "(2 :: u64) ^ od * 4096 \<noteq> 0" using unat_span [OF od] by (auto dest!: arg_cong [of _ 0 unat])
  have le: "pa \<le> pa + 2 ^ od * 4096" "pa + 2 ^ od * 4096 \<le> pa + 2 ^ Suc od * 4096"
    using u e2 ee by (simp_all add: word_le_nat_alt)
  show "allowed s od pa" if "allowed s (Suc od) pa"
    using that range_ok_mono [of s pa _ pa, OF _ order_refl nz le(2)] by (simp add: allowed_def)
  show "allowed s od (pa + 2 ^ od * 4096)" if "allowed s (Suc od) pa"
    using that range_ok_mono [of s pa _ "pa + 2 ^ od * 4096", OF _ le(1) nz eq_refl [OF ee]] z by (simp add: allowed_def)
qed

text \<open>The blocks a split leaves.\<close>

definition split_blocks :: "nat \<Rightarrow> nat \<Rightarrow> u64 \<Rightarrow> blocks" where
  "split_blocks want od pa = (\<lambda>k. (k, pa + 2 ^ k * 4096)) ` {want..<od}"

lemma split_blocks_Suc: "want \<le> od \<Longrightarrow> split_blocks want (Suc od) pa = insert (od, pa + 2 ^ od * 4096) (split_blocks want od pa)"
  by (auto simp: split_blocks_def atLeastLessThanSuc)

lemma free_pages_Un: "free_pages (S \<union> T) = free_pages S \<union> free_pages T"
  by (auto simp: free_pages_def)

lemma split_ok:
  assumes "pmm_inv s S" and "blk_geom od pa" and "allowed s od pa" and "blk_pages od pa \<inter> free_pages S = {}" and "want \<le> od"
  shows "pmm_inv (split_push want pa od s) (S \<union> split_blocks want od pa) \<and> same_cfg s (split_push want pa od s)
     \<and> free_pages (S \<union> split_blocks want od pa) = free_pages S \<union> (blk_pages od pa - blk_pages want pa)
     \<and> blk_geom want pa \<and> allowed s want pa \<and> blk_pages want pa \<subseteq> blk_pages od pa"
  using assms
proof (induction od arbitrary: s S)
  case 0
  then show ?case by (simp add: split_blocks_def)
next
  case (Suc od)
  show ?case
  proof (cases "want = Suc od")
    case True
    then show ?thesis using Suc.prems by (simp add: split_blocks_def)
  next
    case False
    then have w: "want \<le> od" using Suc.prems(5) by simp
    note h = blk_halves [OF Suc.prems(2)]
    let ?b = "pa + 2 ^ od * 4096" and ?s = "push_order (pa + 2 ^ od * 4096) od s" and ?S = "insert (od, pa + 2 ^ od * 4096) S"
    have d: "blk_pages od ?b \<inter> free_pages S = {}" using Suc.prems(4) h(3) by auto
    note p = push_ok [OF Suc.prems(1) h(2) h(7) [OF Suc.prems(3)] d]
    have d2: "blk_pages od pa \<inter> free_pages ?S = {}" using Suc.prems(4) h(3,4) by (auto simp: free_pages_insert)
    have al: "allowed ?s od pa" using h(6) [OF Suc.prems(3)] same_cfg_allowed [OF p(2)] by simp
    note ih = Suc.IH [OF p(1) h(1) al d2 w]
    have eq: "S \<union> split_blocks want (Suc od) pa = ?S \<union> split_blocks want od pa" using split_blocks_Suc [OF w] by simp
    have "blk_pages want pa \<inter> blk_pages od ?b = {}" using ih h(4) by auto
    then show ?thesis
      using ih w p(2) h(3) same_cfg_allowed [OF p(2)] unfolding eq
      by (auto simp: free_pages_insert intro: same_cfg_trans)
  qed
qed


section \<open>Allocation of a block\<close>

text \<open>A block of the wanted order left the free pages, from the zone \<open>z\<close>.\<close>

definition took :: "nat \<Rightarrow> u64 \<Rightarrow> pmm_state \<Rightarrow> blocks \<Rightarrow> pmm_state \<Rightarrow> blocks \<Rightarrow> bool" where
  "took want pa s S t T \<longleftrightarrow> pmm_inv t T \<and> same_cfg s t \<and> blk_geom want pa \<and> allowed s want pa
     \<and> blk_pages want pa \<subseteq> free_pages S \<and> free_pages T = free_pages S - blk_pages want pa"

lemma got_split:
  assumes inv: "pmm_inv s S" and r: "pop_order_from od z s = (pa, t)" "pa \<noteq> 0" and w: "want \<le> od" "od \<le> PMM_MAX_ORDER"
  shows "(pa < PMM_LOW_MAX) = z" and "\<exists>T. took want pa s S (split_push want pa od t) T"
proof -
  show "(pa < PMM_LOW_MAX) = z" using pop_cases [OF inv w(2) r(1)] r(2) by metis
  obtain b: "(od, pa) \<in> S" "pmm_inv t (S - {(od, pa)})" "same_cfg s t" "blk_geom od pa"
    using pop_cases [OF inv w(2) r(1)] r(2) by metis
  have ok: "blocks_ok s S" using inv by (simp add: pmm_inv_def)
  note f = free_pages_remove [OF ok b(1)] and k = blocks_okD [OF ok b(1)]
  have al: "allowed t od pa" using k(2) same_cfg_allowed [OF b(3)] by simp
  have d: "blk_pages od pa \<inter> free_pages (S - {(od, pa)}) = {}" using f by auto
  note sp = split_ok [OF b(2,4) al d w(1)]
  have "free_pages S - blk_pages od pa \<union> (blk_pages od pa - blk_pages want pa) = free_pages S - blk_pages want pa"
    using sp k(3) by auto
  then show "\<exists>T. took want pa s S (split_push want pa od t) T"
    using sp f k(3) same_cfg_trans [OF b(3)] same_cfg_allowed [OF b(3)]
    by (intro exI [of _ "S - {(od, pa)} \<union> split_blocks want od pa"]) (auto simp: took_def)
qed

lemma split_scan_cases:
  assumes inv: "pmm_inv s S" and o: "\<forall>od \<in> set ods. want \<le> od \<and> od \<le> PMM_MAX_ORDER" and r: "split_scan want z ods s = (pa, t)"
  shows "(pa = 0 \<and> t = s \<and> (\<forall>od \<in> set ods. zone_blocks S z od = {})) \<or> (pa \<noteq> 0 \<and> (pa < PMM_LOW_MAX) = z \<and> (\<exists>T. took want pa s S t T))"
  using o r
proof (induction ods)
  case Nil
  then show ?case by simp
next
  case (Cons od ods)
  obtain pb u where pu: "pop_order_from od z s = (pb, u)" by fastforce
  have od: "want \<le> od" "od \<le> 9" using Cons.prems(1) by auto
  show ?case
  proof (cases "pb = 0")
    case True
    then have "u = s" "zone_blocks S z od = {}" using pop_cases [OF inv od(2) pu] blk_geomD(5) by metis+
    then show ?thesis using Cons True pu by auto
  next
    case False
    then show ?thesis using got_split [OF inv pu False od] Cons.prems(2) pu by auto
  qed
qed

lemma split_push_same: "split_push want pa want s = s"
  by (cases want) simp_all

lemma pop_split_zone_cases:
  assumes inv: "pmm_inv s S" and w: "want \<le> PMM_MAX_ORDER" and r: "pop_split_zone want z s = (pa, t)"
  shows "(pa = 0 \<and> t = s \<and> (\<forall>od \<in> {want..PMM_MAX_ORDER}. zone_blocks S z od = {})) \<or> (pa \<noteq> 0 \<and> (pa < PMM_LOW_MAX) = z \<and> (\<exists>T. took want pa s S t T))"
proof -
  obtain pb u where pu: "pop_order_from want z s = (pb, u)" by fastforce
  show ?thesis
  proof (cases "pb = 0")
    case True
    then have "u = s" "zone_blocks S z want = {}" using pop_cases [OF inv w pu] blk_geomD(5) by metis+
    moreover have "split_scan want z [want + 1..<PMM_MAX_ORDER + 1] s = (pa, t)" using r pu True \<open>u = s\<close> by (simp add: pop_split_zone_def)
    moreover have "{want..9} = insert want (set [want + 1..<10])" using w by auto
    ultimately show ?thesis using split_scan_cases [OF inv, of "[want + 1..<PMM_MAX_ORDER + 1]" want z pa t] by auto
  next
    case False
    then have "pa = pb" "t = u" using r pu by (simp_all add: pop_split_zone_def)
    then show ?thesis using got_split [OF inv pu False order_refl w] False by (simp add: split_push_same)
  qed
qed

text \<open>Some free page of a zone lies in a block of that zone.\<close>

lemma zone_part: "(p \<Longrightarrow> B \<subseteq> L) \<Longrightarrow> (\<not> p \<Longrightarrow> B \<inter> L = {}) \<Longrightarrow> B \<inter> (if z then L else - L) = (if p = z then B else {})"
  by (cases p; cases z) auto

lemma zone_empty_iff:
  assumes "blocks_ok s S"
  shows "(\<forall>od \<in> {0..PMM_MAX_ORDER}. zone_blocks S z od = {}) \<longleftrightarrow> free_pages S \<inter> (if z then {..<2 ^ 20} else - {..<2 ^ 20}) = {}"
proof -
  have k: "blk_pages od pa \<inter> (if z then {..<2 ^ 20} else - {..<2 ^ 20}) = (if (pa < PMM_LOW_MAX) = z then blk_pages od pa else {})"
    if "(od, pa) \<in> S" for od pa
    by (rule zone_part) (use blk_zone [OF blocks_okD(1) [OF assms that]] in blast)+
  have "free_pages S \<inter> (if z then {..<2 ^ 20} else - {..<2 ^ 20}) = (\<Union>(od, pa) \<in> S. if (pa < PMM_LOW_MAX) = z then blk_pages od pa else {})"
    using k by (fastforce simp: free_pages_def)
  moreover have "od \<in> {0..9}" if "(od, pa) \<in> S" for od pa using blk_geomD(1) [OF blocks_okD(1) [OF assms that]] by simp
  then have "(\<forall>od \<in> {0..9}. zone_blocks S z od = {}) \<longleftrightarrow> (\<forall>(od, pa) \<in> S. (pa < PMM_LOW_MAX) \<noteq> z)"
    by (auto simp: zone_blocks_def)
  ultimately show ?thesis by (auto split: if_splits)
qed

lemma pop_order_split_cases:
  assumes inv: "pmm_inv s S" and w: "want \<le> PMM_MAX_ORDER" and r: "pop_order_split want s = (pa, t)"
  shows "(pa = 0 \<and> t = s \<and> (\<forall>z. \<forall>od \<in> {want..PMM_MAX_ORDER}. zone_blocks S z od = {}))
    \<or> (pa \<noteq> 0 \<and> (\<exists>T. took want pa s S t T) \<and> (pa < PMM_LOW_MAX \<or> (\<forall>od \<in> {want..PMM_MAX_ORDER}. zone_blocks S True od = {})))"
proof -
  obtain pb u where pu: "pop_split_zone want True s = (pb, u)" by fastforce
  show ?thesis
  proof (cases "pb = 0")
    case True
    then have u: "u = s" "\<forall>od \<in> {want..PMM_MAX_ORDER}. zone_blocks S True od = {}" using pop_split_zone_cases [OF inv w pu] by auto
    then have "pop_split_zone want False s = (pa, t)" using r pu True w by (simp add: pop_order_split_def)
    from pop_split_zone_cases [OF inv w this] u(2) show ?thesis by (auto simp: all_bool_eq)
  next
    case False
    then have "pa = pb" "t = u" using r pu w by (simp_all add: pop_order_split_def)
    then show ?thesis using pop_split_zone_cases [OF inv w pu] False by auto
  qed
qed

end
