(* ===== verification/Pmm_Alloc.thy ===== *)
theory Pmm_Alloc
  imports Pmm_Lemmas
begin

text \<open>
  Page allocation of \<^verbatim>\<open>pmm.c\<close> over the set of free pages: single pages, the scan that collects up to 256
  of them to find an adjacent run, and the low-zone variants.
\<close>

section \<open>The free pages\<close>

definition pmm_rep :: "pmm_state \<Rightarrow> nat set \<Rightarrow> bool" where
  "pmm_rep s P \<longleftrightarrow> (\<exists>S. pmm_inv s S \<and> free_pages S = P)"

abbreviation page :: "u64 \<Rightarrow> nat" where "page pa \<equiv> unat pa div 4096"

text \<open>A page that may be on the lists.\<close>

definition page_fit :: "pmm_state \<Rightarrow> u64 \<Rightarrow> bool" where
  "page_fit s pa \<longleftrightarrow> blk_geom 0 pa \<and> allowed s 0 pa"

lemma blk_pages_0 [simp]: "blk_pages 0 pa = {page pa}"
  by (auto simp: blk_pages_def)

lemma pmm_rep_finite: "pmm_rep s P \<Longrightarrow> finite P"
  using free_pages_bound(2) by (auto simp: pmm_rep_def pmm_inv_def)

lemma page_inj: "blk_geom 0 x \<Longrightarrow> blk_geom 0 y \<Longrightarrow> page x = page y \<Longrightarrow> x = y"
  by (metis blk_geomD(8) word_unat_eq_iff)

lemma same_cfg_fit: "same_cfg s t \<Longrightarrow> page_fit t = page_fit s"
  by (intro ext) (simp add: page_fit_def same_cfg_allowed)

lemma push_order_0: "push_order pa 0 s = push_free pa s"
  by (simp add: push_order_def push_free_def)

lemma push_free_rep:
  assumes "pmm_rep s P" and "page_fit s pa" and "page pa \<notin> P"
  shows "pmm_rep (push_free pa s) (insert (page pa) P)" and "same_cfg s (push_free pa s)"
proof -
  obtain S where S: "pmm_inv s S" "free_pages S = P" using assms(1) by (auto simp: pmm_rep_def)
  have f: "blk_geom 0 pa" "allowed s 0 pa" using assms(2) by (simp_all add: page_fit_def)
  note p = push_ok [OF S(1) f, unfolded push_order_0]
  show "pmm_rep (push_free pa s) (insert (page pa) P)"
    using p(1) S(2) assms(3) by (auto simp: pmm_rep_def free_pages_insert intro!: exI [of _ "insert (0, pa) S"])
  show "same_cfg s (push_free pa s)" using p(2) S(2) assms(3) by auto
qed

text \<open>What taking a page does to the free pages.\<close>

definition page_taken :: "u64 \<Rightarrow> pmm_state \<Rightarrow> nat set \<Rightarrow> pmm_state \<Rightarrow> bool" where
  "page_taken pa s P t \<longleftrightarrow> page_fit s pa \<and> page pa \<in> P \<and> pmm_rep t (P - {page pa}) \<and> same_cfg s t"

lemma took_page: "took 0 pa s S t T \<Longrightarrow> page_taken pa s (free_pages S) t"
  by (auto simp: took_def page_taken_def page_fit_def pmm_rep_def)

lemma pop_free_spec:
  assumes "pmm_rep s P" and "pop_free s = (pa, t)"
  shows "(P = {} \<and> pa = 0 \<and> t = s) \<or> (pa \<noteq> 0 \<and> page_taken pa s P t \<and> (pa < PMM_LOW_MAX \<or> P \<inter> {..<2 ^ 20} = {}))"
proof -
  obtain S where S: "pmm_inv s S" "free_pages S = P" "blocks_ok s S" using assms(1) by (auto simp: pmm_rep_def pmm_inv_def)
  note c = pop_order_split_cases [OF S(1) _ assms(2) [unfolded pop_free_def], simplified]
  have e: "(\<forall>od \<in> {0..9}. zone_blocks S True od = {}) \<longleftrightarrow> P \<inter> {..<2 ^ 20} = {}"
    "(\<forall>od \<in> {0..9}. zone_blocks S False od = {}) \<longleftrightarrow> P \<inter> - {..<2 ^ 20} = {}"
    using zone_empty_iff [OF S(3), of True] zone_empty_iff [OF S(3), of False] S(2) by simp_all
  show ?thesis
  proof (cases "pa = 0")
    case True
    then have "t = s" "\<forall>z. \<forall>od \<in> {0..9}. zone_blocks S z od = {}" using c by auto
    then have "P \<inter> {..<2 ^ 20} = {}" "P \<inter> - {..<2 ^ 20} = {}" using e by metis+
    then show ?thesis using True \<open>t = s\<close> by blast
  next
    case False
    then obtain T where "took 0 pa s S t T" "pa < PMM_LOW_MAX \<or> P \<inter> {..<2 ^ 20} = {}" using c unfolding e by blast
    then show ?thesis using took_page S(2) False by blast
  qed
qed

lemma pop_low_spec:
  assumes "pmm_rep s P" and "pop_order_low_only 0 s = (pa, t)"
  shows "(P \<inter> {..<2 ^ 20} = {} \<and> pa = 0 \<and> t = s) \<or> (pa \<noteq> 0 \<and> page_taken pa s P t \<and> page pa < 2 ^ 20)"
proof -
  obtain S where S: "pmm_inv s S" "free_pages S = P" "blocks_ok s S" using assms(1) by (auto simp: pmm_rep_def pmm_inv_def)
  obtain pb u where pu: "pop_split_zone 0 True s = (pb, u)" by fastforce
  show ?thesis
  proof (cases "pb = 0")
    case True
    then show ?thesis
      using pop_split_zone_cases [OF S(1) _ pu] zone_empty_iff [OF S(3), of True] S(2) assms(2) pu
      by (simp add: pop_order_low_only_def)
  next
    case False
    then obtain T where T: "took 0 pb s S u T" "pb < PMM_LOW_MAX" using pop_split_zone_cases [OF S(1) _ pu] by auto
    then have g: "blk_geom 0 pb" by (simp add: took_def)
    have lo: "page pb < 2 ^ 20" using blk_zone(1) [OF g T(2)] by simp
    then have "unat (pb + 4096) \<le> 2 ^ 32" using blk_geomD(8,9) [OF g] by simp
    then have "\<not> PMM_LOW_MAX < pb + 4096" by (simp add: word_less_nat_alt)
    then have "pa = pb" "t = u" using T(2) assms(2) pu False by (auto simp: pop_order_low_only_def split: if_splits)
    then show ?thesis using took_page [OF T(1)] S(2) lo False by simp
  qed
qed

section \<open>The held pages\<close>

lemma hold_insert_filter:
  assumes "sorted H"
  shows "hold_insert pa H = filter (\<lambda>x. \<not> pa < x) H @ [pa] @ filter (\<lambda>x. pa < x) H"
  using assms
proof (induction H rule: rev_induct)
  case Nil
  then show ?case by (simp add: hold_insert_def)
next
  case (snoc x H)
  show ?case
  proof (cases "pa < x")
    case True
    then show ?thesis using snoc by (simp add: hold_insert_def sorted_append)
  next
    case False
    then have "\<forall>y \<in> set H. \<not> pa < y" using snoc.prems by (auto simp: sorted_append)
    then show ?thesis using False by (simp add: hold_insert_def)
  qed
qed

lemma hold_insert_props:
  assumes "sorted H" and "distinct H" and "pa \<notin> set H"
  shows "sorted (hold_insert pa H)" "distinct (hold_insert pa H)" "set (hold_insert pa H) = insert pa (set H)"
    "length (hold_insert pa H) = Suc (length H)"
proof -
  note e = hold_insert_filter [OF assms(1), of pa]
  show "sorted (hold_insert pa H)" using assms(1) unfolding e by (auto simp: sorted_append sorted_wrt_filter)
  show "distinct (hold_insert pa H)" using assms(2,3) unfolding e by auto
  show "set (hold_insert pa H) = insert pa (set H)" unfolding e by auto
  show "length (hold_insert pa H) = Suc (length H)" unfolding e using sum_length_filter_compl [of "\<lambda>x. pa < x" H] by simp
qed

text \<open>\<open>n\<close> entries in a row, each one page after the other.\<close>

definition adjacent :: "u64 list \<Rightarrow> nat \<Rightarrow> nat \<Rightarrow> bool" where
  "adjacent H i n \<longleftrightarrow> i + n \<le> length H \<and> (\<forall>k. i \<le> k \<and> Suc k < i + n \<longrightarrow> H ! Suc k = H ! k + 4096)"

lemma find_run_sound:
  assumes "find_run n H j c = b" and "b \<noteq> 0" and "c \<le> j" "0 < c" "c < n" and "adjacent H (j - c) c"
  shows "\<exists>i. adjacent H i n \<and> H ! i = b"
  using assms
proof (induction n H j c rule: find_run.induct)
  case (1 n H j c)
  have len: "j < length H" using 1(3,4) by (subst (asm) find_run.simps) (auto split: if_splits)
  show ?case
  proof (cases "H ! j = H ! (j - 1) + 4096")
    case True
    have ext: "adjacent H (j - c) (Suc c)"
      unfolding adjacent_def
    proof (intro conjI allI impI)
      show "j - c + Suc c \<le> length H" using len 1(5) by simp
      fix k assume "j - c \<le> k \<and> Suc k < j - c + Suc c"
      then show "H ! Suc k = H ! k + 4096"
        using 1(5,6,8) True by (cases "Suc k = j") (auto simp: adjacent_def)
    qed
    show ?thesis
    proof (cases "n \<le> c + 1")
      case n: True
      then have "n = Suc c" using 1(7) by simp
      then show ?thesis using 1(3) True n len ext 1(5) by (subst (asm) find_run.simps) auto
    next
      case n: False
      then have "find_run n H (j + 1) (c + 1) = b" using 1(3) True len by (subst (asm) find_run.simps) simp
      then show ?thesis using 1(1) [OF _ True n _ 1(4)] n len ext 1(5) by simp
    qed
  next
    case False
    then have "find_run n H (j + 1) 1 = b" using 1(3) len by (subst (asm) find_run.simps) simp
    moreover have "adjacent H j 1" using len by (auto simp: adjacent_def)
    ultimately show ?thesis using 1(2) [OF _ False _ 1(4)] len 1(6,7) by simp
  qed
qed

lemma find_run_complete:
  assumes "adjacent H i n" and "j \<le> i + c" and "c \<le> j" "0 < c" "c < n" and "0 \<notin> set H"
  shows "find_run n H j c \<noteq> 0"
  using assms
proof (induction n H j c rule: find_run.induct)
  case (1 n H j c)
  have len: "j < length H" using 1(3,4,7) by (auto simp: adjacent_def)
  show ?case
  proof (cases "H ! j = H ! (j - 1) + 4096")
    case True
    show ?thesis
    proof (cases "n \<le> c + 1")
      case n: True
      have "j + 1 - n < length H" using len 1(7) by simp
      then have "H ! (j + 1 - n) \<noteq> 0" using 1(8) by (metis nth_mem)
      then show ?thesis using True n len by (subst find_run.simps) simp
    next
      case n: False
      then have "find_run n H (j + 1) (c + 1) \<noteq> 0" using 1(1) [OF _ True n 1(3)] 1(4,5,8) len by simp
      then show ?thesis using True n len by (subst find_run.simps) simp
    qed
  next
    case False
    have "j \<le> i"
    proof (rule ccontr)
      assume "\<not> j \<le> i"
      then have "i \<le> j - 1" "Suc (j - 1) < i + n" "Suc (j - 1) = j" using 1(4,7) by auto
      then show False using 1(3) False by (auto simp: adjacent_def)
    qed
    then have "find_run n H (j + 1) 1 \<noteq> 0" using 1(2) [OF _ False 1(3)] 1(6,7,8) len by simp
    then show ?thesis using False len by (subst find_run.simps) simp
  qed
qed


text \<open>In a sorted list of pages, a page that follows another one is next to it.\<close>

lemma next_page:
  assumes "sorted H" "distinct H" and g: "\<forall>x \<in> set H. blk_geom 0 x" and k: "k < length H" and m: "H ! k + 4096 \<in> set H"
  shows "Suc k < length H \<and> H ! Suc k = H ! k + 4096"
proof -
  have ss: "i < j \<Longrightarrow> j < length H \<Longrightarrow> H ! i < H ! j" for i j
    using assms(1,2) by (meson sorted_wrt_nth_less strict_sorted_iff)
  obtain j where j: "j < length H" "H ! j = H ! k + 4096" using m by (auto simp: in_set_conv_nth)
  have gk: "unat (H ! k + 4096) = unat (H ! k) + 4096" "unat (H ! k) = 4096 * page (H ! k)"
    using blk_geomD(8,9) [of 0 "H ! k"] g k by simp_all
  have kj: "k < j"
  proof (rule ccontr)
    assume "\<not> k < j"
    then have "H ! j \<le> H ! k" using ss [of j k] k by (cases "j = k") auto
    then show False using gk(1) j(2) by (simp add: word_le_nat_alt)
  qed
  show ?thesis
  proof (cases "Suc k = j")
    case True
    then show ?thesis using j by simp
  next
    case False
    then have l: "H ! k < H ! Suc k" "H ! Suc k < H ! j" using ss [of k "Suc k"] ss [of "Suc k" j] kj j(1) by auto
    have "unat (H ! Suc k) = 4096 * page (H ! Suc k)" using blk_geomD(8) [of 0 "H ! Suc k"] g kj j(1) by simp
    then have "4096 * page (H ! k) < 4096 * page (H ! Suc k)" "4096 * page (H ! Suc k) < 4096 * page (H ! k) + 4096"
      using l gk j(2) by (simp_all only: word_less_nat_alt)
    then have "page (H ! k) < page (H ! Suc k)" "page (H ! Suc k) < Suc (page (H ! k))"
      by (simp_all only: mult_less_cancel1 mult_Suc_right [symmetric] add.commute)
    then show ?thesis by simp
  qed
qed

lemma run_adjacent:
  assumes H: "sorted H" "distinct H" "\<forall>x \<in> set H. blk_geom 0 x" and r: "{q..<q + n} \<subseteq> page ` set H" and n: "0 < n"
  shows "\<exists>i. adjacent H i n"
proof -
  obtain i where i: "i < length H" "page (H ! i) = q" using r n by (force simp: in_set_conv_nth)
  have "m < n \<Longrightarrow> i + m < length H \<and> page (H ! (i + m)) = q + m \<and> (0 < m \<longrightarrow> H ! (i + m) = H ! (i + m - 1) + 4096)" for m
  proof (induction m)
    case 0
    then show ?case using i by simp
  next
    case (Suc m)
    then have ih: "i + m < length H" "page (H ! (i + m)) = q + m" by simp_all
    have "q + Suc m \<in> page ` set H" using r Suc.prems by (intro subsetD [OF r]) simp
    then obtain y where y: "y \<in> set H" "page y = q + Suc m" by auto
    have g: "blk_geom 0 (H ! (i + m))" "blk_geom 0 y" using H(3) ih(1) y(1) by simp_all
    have "unat y = unat (H ! (i + m) + 4096)" using blk_geomD(8) [OF g(1)] blk_geomD(9) [OF g(1)] blk_geomD(8) [OF g(2)] y(2) ih(2) by simp
    then have e: "y = H ! (i + m) + 4096" by (simp add: word_unat_eq_iff)
    then show ?case using next_page [OF H ih(1)] y by simp
  qed
  note k = this
  have "adjacent H i n"
    unfolding adjacent_def
  proof (intro conjI allI impI)
    show "i + n \<le> length H" using k [of "n - 1"] n by auto
    fix j assume j: "i \<le> j \<and> Suc j < i + n"
    then have "Suc j - i < n" by auto
    then show "H ! Suc j = H ! j + 4096" using k [of "Suc j - i"] j by simp
  qed
  then show ?thesis ..
qed

lemma adjacent_run:
  assumes H: "\<forall>x \<in> set H. blk_geom 0 x" and a: "adjacent H i n" "0 < n"
  shows "{page (H ! i)..<page (H ! i) + n} \<subseteq> page ` set H"
    and "m < n \<Longrightarrow> H ! (i + m) = H ! i + of_nat m * 4096 \<and> page (H ! (i + m)) = page (H ! i) + m"
proof -
  have k: "m < n \<Longrightarrow> H ! (i + m) = H ! i + of_nat m * 4096 \<and> page (H ! (i + m)) = page (H ! i) + m" for m
  proof (induction m)
    case 0
    then show ?case by simp
  next
    case (Suc m)
    have l: "i + m < length H" using a Suc.prems by (simp add: adjacent_def)
    then have g: "blk_geom 0 (H ! (i + m))" using H by simp
    have "H ! Suc (i + m) = H ! (i + m) + 4096" using a(1) Suc.prems by (simp add: adjacent_def)
    moreover have "page (H ! (i + m) + 4096) = Suc (page (H ! (i + m)))" using blk_geomD(9) [OF g] by simp
    ultimately show ?case using Suc.IH Suc.prems by (auto simp: algebra_simps)
  qed
  then show "m < n \<Longrightarrow> H ! (i + m) = H ! i + of_nat m * 4096 \<and> page (H ! (i + m)) = page (H ! i) + m" .
  show "{page (H ! i)..<page (H ! i) + n} \<subseteq> page ` set H"
  proof
    fix p assume p: "p \<in> {page (H ! i)..<page (H ! i) + n}"
    then obtain m where m: "p = page (H ! i) + m" "m < n" by (auto simp: le_iff_add)
    then have "H ! (i + m) \<in> set H" using a(1) by (simp add: adjacent_def)
    then show "p \<in> page ` set H" using k [OF m(2)] m(1) by (metis image_eqI)
  qed
qed


section \<open>The scan\<close>

text \<open>A source of single pages from the part \<open>Z\<close> of memory, with its counter.\<close>

locale page_source =
  fixes pop :: "pmm_state \<Rightarrow> u64 \<times> pmm_state" and cnt :: "pmm_state \<Rightarrow> u64" and Z :: "nat set"
  assumes pop_law: "pmm_rep s P \<Longrightarrow> pop s = (pa, t) \<Longrightarrow> (P \<inter> Z = {} \<and> pa = 0 \<and> t = s) \<or> (pa \<noteq> 0 \<and> page_taken pa s P t \<and> page pa \<in> Z)"
    and cnt_law: "pmm_rep s P \<Longrightarrow> 0 < cnt s \<longleftrightarrow> P \<inter> Z \<noteq> {}"
begin

text \<open>The pages in \<open>H\<close> were taken from \<open>P\<close>.\<close>

definition holding :: "pmm_state \<Rightarrow> nat set \<Rightarrow> u64 list \<Rightarrow> pmm_state \<Rightarrow> bool" where
  "holding s P H t \<longleftrightarrow> sorted H \<and> distinct H \<and> (\<forall>x \<in> set H. page_fit s x) \<and> page ` set H \<subseteq> P \<inter> Z
     \<and> pmm_rep t (P - page ` set H) \<and> same_cfg s t"

lemma holding_pop:
  assumes "holding s P H t" and "pop t = (pa, u)" and "pa \<noteq> 0"
  shows "holding s P (hold_insert pa H) u" "length (hold_insert pa H) = Suc (length H)"
proof -
  have h: "sorted H" "distinct H" "\<forall>x \<in> set H. page_fit s x" "page ` set H \<subseteq> P \<inter> Z" "pmm_rep t (P - page ` set H)" "same_cfg s t"
    using assms(1) by (auto simp: holding_def)
  have k: "page_fit s pa" "page pa \<in> P" "page pa \<notin> page ` set H" "page pa \<in> Z" "pmm_rep u (P - page ` set H - {page pa})" "same_cfg t u"
    using pop_law [OF h(5) assms(2)] assms(3) same_cfg_fit [OF h(6)] by (auto simp: page_taken_def)
  have n: "pa \<notin> set H" using k(3) by auto
  note i = hold_insert_props [OF h(1,2) n]
  show "length (hold_insert pa H) = Suc (length H)" by (rule i(4))
  have e: "P - page ` insert pa (set H) = P - page ` set H - {page pa}" by auto
  show "holding s P (hold_insert pa H) u"
    unfolding holding_def i(3) e using i(1,2) h(3,4) k same_cfg_trans [OF h(6) k(6)] by auto
qed

text \<open>The outcome of the scan: a run among the held pages, or none after 256 pages or the whole zone.\<close>

lemma hold_loop_spec:
  assumes "holding s P H t" and "hold_loop pop cnt n k H t = (b, H', t')" and "2 \<le> n" and "length H < n \<or> (\<nexists>i. adjacent H i n)"
  shows "holding s P H' t' \<and> length H' \<le> length H + k
     \<and> (b \<noteq> 0 \<longrightarrow> (\<exists>i. adjacent H' i n \<and> H' ! i = b))
     \<and> (b = 0 \<longrightarrow> (length H' = length H + k \<or> P \<inter> Z = page ` set H') \<and> (length H' < n \<or> (\<nexists>i. adjacent H' i n)))"
  using assms
proof (induction k arbitrary: H t)
  case 0
  then show ?case by auto
next
  case (Suc k)
  have rep: "pmm_rep t (P - page ` set H)" and sub: "page ` set H \<subseteq> P \<inter> Z" using Suc.prems(1) by (auto simp: holding_def)
  show ?case
  proof (cases "0 < cnt t")
    case False
    then have "P \<inter> Z = page ` set H" using cnt_law [OF rep] sub by auto
    then show ?thesis using Suc.prems False by auto
  next
    case True
    obtain pa u where pu: "pop t = (pa, u)" by fastforce
    have "pa \<noteq> 0" using pop_law [OF rep pu] cnt_law [OF rep] True by auto
    note h = holding_pop [OF Suc.prems(1) pu this]
    let ?H = "hold_insert pa H"
    have z: "0 \<notin> set ?H" using h(1) blk_geomD(5) by (auto simp: holding_def page_fit_def)
    show ?thesis
    proof (cases "length ?H < n \<or> find_run n ?H 1 1 = 0")
      case again: True
      then have r: "hold_loop pop cnt n k ?H u = (b, H', t')" using Suc.prems(2) True pu \<open>pa \<noteq> 0\<close> by (auto simp: Let_def split: if_splits)
      have "length ?H < n \<or> (\<nexists>i. adjacent ?H i n)" using again find_run_complete [of ?H _ n 1 1] z Suc.prems(3) by auto
      from Suc.IH [OF h(1) r Suc.prems(3) this] h(2) show ?thesis by auto
    next
      case found: False
      then have r: "b = find_run n ?H 1 1" "H' = ?H" "t' = u" using Suc.prems(2) True pu \<open>pa \<noteq> 0\<close> by (auto simp: Let_def split: if_splits)
      have "adjacent ?H 0 1" using h(2) by (auto simp: adjacent_def)
      then have "\<exists>i. adjacent ?H i n \<and> ?H ! i = b" using find_run_sound [of n ?H 1 1 b] r(1) found Suc.prems(3) by auto
      then show ?thesis using h r found by auto
    qed
  qed
qed

lemma holding_start: "pmm_rep s P \<Longrightarrow> holding s P [] s"
  by (simp add: holding_def)

lemma give_back_holding:
  assumes "holding s P H t"
  shows "pmm_rep (give_back (filter f H) t) (P - page ` set (filter (\<lambda>x. \<not> f x) H))" and "same_cfg s (give_back (filter f H) t)"
proof -
  have h: "distinct H" "\<forall>x \<in> set H. page_fit s x" "page ` set H \<subseteq> P" "pmm_rep t (P - page ` set H)" "same_cfg s t"
    using assms by (auto simp: holding_def)
  have inj: "x = y" if "x \<in> set H" "y \<in> set H" "page x = page y" for x y
    using page_inj that h(2) by (auto simp: page_fit_def)
  have "pmm_rep (fold push_free (filter f xs) t) (P - page ` set H \<union> page ` set (filter f xs)) \<and> same_cfg s (fold push_free (filter f xs) t)"
    if "set xs \<subseteq> set H" "distinct xs" for xs
    using that
  proof (induction xs rule: rev_induct)
    case Nil
    then show ?case using h(4,5) by simp
  next
    case (snoc x xs)
    show ?case
    proof (cases "f x")
      case False
      then show ?thesis using snoc by simp
    next
      case True
      let ?t = "fold push_free (filter f xs) t"
      have ih: "pmm_rep ?t (P - page ` set H \<union> page ` set (filter f xs))" "same_cfg s ?t" using snoc by auto
      have "page_fit ?t x" using same_cfg_fit [OF ih(2)] h(2) snoc.prems by simp
      moreover have "page x \<notin> P - page ` set H \<union> page ` set (filter f xs)" using snoc.prems inj by auto
      ultimately show ?thesis using push_free_rep [OF ih(1)] True same_cfg_trans [OF ih(2)] by simp
    qed
  qed
  from this [of H] h(1) have "pmm_rep (give_back (filter f H) t) (P - page ` set H \<union> page ` set (filter f H)) \<and> same_cfg s (give_back (filter f H) t)"
    by (simp add: give_back_def)
  moreover have "P - page ` set H \<union> page ` set (filter f H) = P - page ` set (filter (\<lambda>x. \<not> f x) H)" using h(3) inj by auto
  ultimately show "pmm_rep (give_back (filter f H) t) (P - page ` set (filter (\<lambda>x. \<not> f x) H))" "same_cfg s (give_back (filter f H) t)" by simp_all
qed

end


lemma frames_free: "pmm_rep s P \<Longrightarrow> unat (g_cFramesFree s) = card P"
  and frames_free_low: "pmm_rep s P \<Longrightarrow> unat (g_cFramesFreeLow s) = card (P \<inter> {..<2 ^ 20})"
  and frames_free_high: "pmm_rep s P \<Longrightarrow> unat (g_cFramesFreeHigh s) = card (P - {..<2 ^ 20})"
  by (auto simp: pmm_rep_def pmm_inv_def counts_ok_def)

interpretation any_page: page_source pop_free g_cFramesFree UNIV
proof
  show "(P \<inter> UNIV = {} \<and> pa = 0 \<and> t = s) \<or> (pa \<noteq> 0 \<and> page_taken pa s P t \<and> page pa \<in> UNIV)"
    if "pmm_rep s P" "pop_free s = (pa, t)" for s P pa t
    using pop_free_spec [OF that] by auto
  show "0 < g_cFramesFree s \<longleftrightarrow> P \<inter> UNIV \<noteq> {}" if "pmm_rep s P" for s P
    using frames_free [OF that] pmm_rep_finite [OF that] by (auto simp: word_neq_0_conv [symmetric] unat_eq_0 [symmetric])
qed

interpretation low_page: page_source "pop_order_low_only 0" g_cFramesFreeLow "{..<2 ^ 20}"
proof
  show "(P \<inter> {..<2 ^ 20} = {} \<and> pa = 0 \<and> t = s) \<or> (pa \<noteq> 0 \<and> page_taken pa s P t \<and> page pa \<in> {..<2 ^ 20})"
    if "pmm_rep s P" "pop_order_low_only 0 s = (pa, t)" for s P pa t
    using pop_low_spec [OF that] by simp
  show "0 < g_cFramesFreeLow s \<longleftrightarrow> P \<inter> {..<2 ^ 20} \<noteq> {}" if "pmm_rep s P" for s P
    using frames_free_low [OF that] pmm_rep_finite [OF that]
    by (auto simp: word_neq_0_conv [symmetric] unat_eq_0 [symmetric] simp del: power_numeral)
qed

section \<open>Runs of pages\<close>

definition run_pages :: "u64 \<Rightarrow> u32 \<Rightarrow> nat set" where
  "run_pages pa c = {page pa..<page pa + unat c}"

lemma order_loop_le: "order_loop k n od c \<le> od + k"
  by (induction k n od c rule: order_loop.induct) auto

lemma pages_to_order_le: "pages_to_order c \<le> 9"
  using order_loop_le [of 9 1 0 c] by (simp add: pages_to_order_def)

lemma pages_to_order_exact:
  assumes "2 ^ pages_to_order c = c"
  shows "run_pages pa c = blk_pages (pages_to_order c) pa" "unat c = 2 ^ pages_to_order c"
proof -
  have "pages_to_order c \<in> {0, 1, 2, 3, 4, 5, 6, 7, 8, 9}" using pages_to_order_le [of c] by auto
  then have "unat (2 ^ pages_to_order c :: u32) = 2 ^ pages_to_order c" by auto
  then show "unat c = 2 ^ pages_to_order c" using assms by simp
  then show "run_pages pa c = blk_pages (pages_to_order c) pa" by (simp add: run_pages_def blk_pages_def)
qed

text \<open>What a run allocation promises.\<close>

definition alloc_promise :: "u32 \<Rightarrow> pmm_state \<Rightarrow> nat set \<Rightarrow> u64 \<Rightarrow> pmm_state \<Rightarrow> bool" where
  "alloc_promise c s P pa t \<longleftrightarrow> same_cfg s t
     \<and> (if pa = 0 then pmm_rep t P
        else 4096 dvd unat pa \<and> run_pages pa c \<subseteq> P \<and> pmm_rep t (P - run_pages pa c))"

lemma took_promise:
  assumes "took (pages_to_order c) pa s S t T" and "2 ^ pages_to_order c = c" and "free_pages S = P"
  shows "alloc_promise c s P pa t"
proof -
  have "blk_geom (pages_to_order c) pa" using assms(1) by (simp add: took_def)
  from blk_geomD(3,5) [OF this] show ?thesis
    using assms by (auto simp: alloc_promise_def pages_to_order_exact(1) [OF assms(2)] took_def pmm_rep_def)
qed

lemma one_promise:
  assumes "page_taken pa s P t"
  shows "alloc_promise 1 s P pa t"
proof -
  have "blk_geom 0 pa" using assms by (simp add: page_taken_def page_fit_def)
  from blk_geomD(3,5) [OF this] show ?thesis using assms by (auto simp: alloc_promise_def page_taken_def run_pages_def)
qed

text \<open>The kept part of the held pages is the run.\<close>

lemma kept_run:
  assumes H: "\<forall>x \<in> set H. blk_geom 0 x" and a: "adjacent H i (unat c)" "H ! i = b" and c: "2 \<le> c" "c \<le> 512"
  shows "page ` set (filter (\<lambda>x. \<not> outside_run b c x) H) = run_pages b c" and "4096 dvd unat b"
    and "unat (b + ucast c * 4096) = unat b + 4096 * unat c"
proof -
  have n: "2 \<le> unat c" "unat c \<le> 512" using c by (simp_all add: word_le_nat_alt)
  have b: "blk_geom 0 b" using H a n by (auto simp: adjacent_def)
  note g = blk_geomD [OF b]
  show "4096 dvd unat b" by (rule g(3))
  have uc: "unat (ucast c * 4096 :: u64) = 4096 * unat c" using n by (simp add: unat_word_ariths unsigned_ucast_eq take_bit_nat_eq_self)
  show e: "unat (b + ucast c * 4096) = unat b + 4096 * unat c" using uc n g(4) by (subst unat_add_small) simp_all
  have iff: "\<not> outside_run b c x \<longleftrightarrow> page x \<in> run_pages b c" if "x \<in> set H" for x
  proof -
    have x: "unat x = 4096 * page x" using blk_geomD(8) H that by blast
    have "\<not> outside_run b c x \<longleftrightarrow> unat b \<le> unat x \<and> unat x < unat b + 4096 * unat c"
      by (auto simp: outside_run_def word_less_nat_alt word_le_nat_alt e)
    also have "\<dots> \<longleftrightarrow> 4096 * page b \<le> 4096 * page x \<and> 4096 * page x < 4096 * (page b + unat c)"
      using x g(8) by (simp add: distrib_left)
    also have "\<dots> \<longleftrightarrow> page x \<in> run_pages b c" unfolding run_pages_def mult_le_cancel1 mult_less_cancel1 by simp
    finally show ?thesis .
  qed
  have "run_pages b c \<subseteq> page ` set H" using adjacent_run(1) [OF H a(1)] n a(2) by (simp add: run_pages_def)
  then show "page ` set (filter (\<lambda>x. \<not> outside_run b c x) H) = run_pages b c" using iff by auto
qed


context page_source
begin

text \<open>The scan and the return of what it does not keep.\<close>

lemma scan_promise:
  assumes rep: "pmm_rep s P" and r: "hold_loop pop cnt (unat c) 256 [] s = (b, H, t)" and c: "2 \<le> c" "c \<le> 512"
  shows "b \<noteq> 0 \<Longrightarrow> alloc_promise c s P b (give_back (filter (outside_run b c) H) t)"
    and "b \<noteq> 0 \<Longrightarrow> run_pages b c \<subseteq> Z \<and> unat (b + ucast c * 4096) = unat b + 4096 * unat c \<and> 4096 dvd unat b"
    and "b = 0 \<Longrightarrow> {q..<q + unat c} \<subseteq> P \<inter> Z \<Longrightarrow> 256 < card (P \<inter> Z) \<or> 256 < unat c"
    and "256 < unat c \<Longrightarrow> b = 0"
    and "alloc_promise c s P 0 (give_back H t)"
proof -
  have n: "2 \<le> unat c" using c by (simp add: word_le_nat_alt)
  have sp: "holding s P H t \<and> length H \<le> length ([] :: u64 list) + 256
     \<and> (b \<noteq> 0 \<longrightarrow> (\<exists>i. adjacent H i (unat c) \<and> H ! i = b))
     \<and> (b = 0 \<longrightarrow> (length H = length ([] :: u64 list) + 256 \<or> P \<inter> Z = page ` set H) \<and> (length H < unat c \<or> (\<nexists>i. adjacent H i (unat c))))"
    by (rule hold_loop_spec [OF holding_start [OF rep] r n]) (use n in simp)
  then have h: "holding s P H t" and len: "length H \<le> 256" by simp_all
  have H: "\<forall>x \<in> set H. blk_geom 0 x" "sorted H" "distinct H" "page ` set H \<subseteq> P \<inter> Z" using h by (auto simp: holding_def page_fit_def)
  have "filter (\<lambda>_. True) H = H" by simp
  then show "alloc_promise c s P 0 (give_back H t)"
    using give_back_holding [OF h, of "\<lambda>_. True"] by (simp add: alloc_promise_def)
  show "b = 0" if "256 < unat c"
  proof (rule ccontr)
    assume "b \<noteq> 0"
    then show False using sp len that by (auto simp: adjacent_def)
  qed
  show "256 < card (P \<inter> Z) \<or> 256 < unat c" if b: "b = 0" and run: "{q..<q + unat c} \<subseteq> P \<inter> Z"
  proof (rule ccontr)
    assume no: "\<not> (256 < card (P \<inter> Z) \<or> 256 < unat c)"
    have fin: "finite (P \<inter> Z)" using pmm_rep_finite [OF rep] by simp
    have inj: "inj_on page (set H)" using page_inj H(1) by (auto intro!: inj_onI)
    have ch: "card (page ` set H) = length H" using card_image [OF inj] distinct_card [OF H(3)] by simp
    have eq: "P \<inter> Z = page ` set H"
    proof (cases "length H = 256")
      case True
      then show ?thesis using card_subset_eq [OF fin H(4)] card_mono [OF fin H(4)] ch no by simp
    next
      case False
      then show ?thesis using sp b by simp
    qed
    then have "{q..<q + unat c} \<subseteq> page ` set H" using run by simp
    from run_adjacent [OF H(2,3,1) this] n obtain i where "adjacent H i (unat c)" by auto
    then show False using sp b by (auto simp: adjacent_def)
  qed
  assume "b \<noteq> 0"
  then obtain i where i: "adjacent H i (unat c)" "H ! i = b" using sp by auto
  note k = kept_run [OF H(1) i c]
  have "run_pages b c \<subseteq> page ` set H" using adjacent_run(1) [OF H(1) i(1)] n i(2) by (simp add: run_pages_def)
  then have sub: "run_pages b c \<subseteq> P \<inter> Z" using H(4) by blast
  then show "run_pages b c \<subseteq> Z \<and> unat (b + ucast c * 4096) = unat b + 4096 * unat c \<and> 4096 dvd unat b" using k by blast
  show "alloc_promise c s P b (give_back (filter (outside_run b c) H) t)"
    using give_back_holding [OF h, of "outside_run b c"] k sub \<open>b \<noteq> 0\<close> by (auto simp: alloc_promise_def)
qed

end

lemma pages_arith: "c \<noteq> 0 \<Longrightarrow> c \<noteq> 1 \<Longrightarrow> 2 \<le> c" for c :: u32
proof -
  assume "c \<noteq> 0" "c \<noteq> 1"
  then have "unat c \<noteq> unat (0 :: u32)" "unat c \<noteq> unat (1 :: u32)" by (simp_all only: word_unat_eq_iff not_False_eq_True)
  then show ?thesis by (simp add: word_le_nat_alt)
qed

lemma pages_arith_iff: "2 \<le> c \<longleftrightarrow> c \<noteq> 0 \<and> c \<noteq> 1" for c :: u32
  using pages_arith [of c] by (auto simp: word_le_nat_alt)

lemma interval_below: "{a..<a + n} \<subseteq> {..<m} \<Longrightarrow> 0 < n \<Longrightarrow> a + n \<le> m" for a n m :: nat
proof -
  assume a: "{a..<a + n} \<subseteq> {..<m}" "0 < n"
  then have "a + n - 1 \<in> {..<m}" by (intro subsetD [OF a(1)]) simp
  then show ?thesis using a(2) by simp
qed

text \<open>\<^verbatim>\<open>pmm_alloc_pages\<close>: all or nothing.\<close>

lemma pmm_alloc_pages_promise:
  assumes rep: "pmm_rep s P" and r: "pmm_alloc_pages c s = (pa, t)"
  shows "alloc_promise c s P pa t"
    and "pa = 0 \<Longrightarrow> c \<noteq> 0 \<Longrightarrow> {q..<q + unat c} \<subseteq> P \<Longrightarrow> 256 < card P \<or> 256 < unat c"
proof -
  have nil: "alloc_promise c s P 0 s" using rep by (simp add: alloc_promise_def)
  obtain S where S: "pmm_inv s S" "free_pages S = P" using rep by (auto simp: pmm_rep_def)
  consider (zero) "c = 0" | (one) "c = 1" | (big) "2 \<le> c" "512 < c" | (mid) "2 \<le> c" "c \<le> 512"
    using pages_arith [of c] by force
  then have "alloc_promise c s P pa t \<and> (pa = 0 \<longrightarrow> c \<noteq> 0 \<longrightarrow> {q..<q + unat c} \<subseteq> P \<longrightarrow> 256 < card P \<or> 256 < unat c)"
  proof cases
    case zero
    then show ?thesis using nil r by (simp add: pmm_alloc_pages_def)
  next
    case one
    then have "pop_free s = (pa, t)" using r by (simp add: pmm_alloc_pages_def)
    from pop_free_spec [OF rep this] show ?thesis using nil one one_promise [of pa s P t] by auto
  next
    case big
    then have "256 < unat c" "c \<noteq> 0" "c \<noteq> 1" by (simp_all add: word_less_nat_alt pages_arith_iff)
    then show ?thesis using nil r big by (simp add: pmm_alloc_pages_def)
  next
    case mid
    then have c: "c \<noteq> 0" "c \<noteq> 1" "\<not> 512 < c" by (simp_all add: pages_arith_iff)
    let ?o = "pages_to_order c"
    let ?r = "if 2 ^ ?o = c then pop_order_split ?o s else (0, s)"
    show ?thesis
    proof (cases "fst ?r = 0")
      case False
      then have "2 ^ ?o = c" "pop_order_split ?o s = (pa, t)" "pa \<noteq> 0" using r c by (auto simp: pmm_alloc_pages_def split: if_splits)
      then show ?thesis using pop_order_split_cases [OF S(1) pages_to_order_le] took_promise S(2) by blast
    next
      case True
      have "snd ?r = s"
      proof (cases "2 ^ ?o = c")
        case t: True
        have "pop_order_split ?o s = (0, snd (pop_order_split ?o s))" using True t by (simp add: prod_eq_iff)
        from pop_order_split_cases [OF S(1) pages_to_order_le this] show ?thesis using t by simp
      qed simp
      obtain b H u where h: "hold_loop pop_free g_cFramesFree (unat c) 256 [] s = (b, H, u)" by (metis prod_cases3)
      note sc = any_page.scan_promise [OF rep h mid]
      have "(pa, t) = (if b = 0 then (0, give_back H u) else (b, give_back (filter (outside_run b c) H) u))"
        using r c True \<open>snd ?r = s\<close> h by (auto simp: pmm_alloc_pages_def Let_def split: if_splits)
      then show ?thesis using sc(1,3,5) by (auto split: if_splits)
    qed
  qed
  then show "alloc_promise c s P pa t" "pa = 0 \<Longrightarrow> c \<noteq> 0 \<Longrightarrow> {q..<q + unat c} \<subseteq> P \<Longrightarrow> 256 < card P \<or> 256 < unat c" by auto
qed


text \<open>\<^verbatim>\<open>pmm_alloc_pages_low\<close>: the same below 4 GiB.\<close>

lemma low_run:
  assumes "run_pages b c \<subseteq> {..<2 ^ 20}" and "unat (b + ucast c * 4096) = unat b + 4096 * unat c" and "4096 dvd unat b" and "2 \<le> c"
  shows "\<not> crosses_low b c"
proof -
  have "page b + unat c \<le> 2 ^ 20" using assms(1,4) by (intro interval_below) (simp_all add: run_pages_def word_le_nat_alt)
  then have "unat b + 4096 * unat c \<le> 2 ^ 32" using assms(3) by auto
  moreover have "0 < unat c" using assms(4) by (simp add: word_le_nat_alt)
  ultimately show ?thesis using assms(2) by (simp add: crosses_low_def word_le_nat_alt word_less_nat_alt)
qed

lemma pop_low_block:
  assumes inv: "pmm_inv s S" and w: "od \<le> PMM_MAX_ORDER" and r: "pop_order_low_only od s = (pa, t)"
  shows "(pa = 0 \<and> t = s) \<or> (pa \<noteq> 0 \<and> (\<exists>T. took od pa s S t T) \<and> blk_pages od pa \<subseteq> {..<2 ^ 20})"
proof -
  obtain pb u where pu: "pop_split_zone od True s = (pb, u)" by fastforce
  show ?thesis
  proof (cases "pb = 0")
    case True
    then show ?thesis using pop_split_zone_cases [OF inv w pu] r pu w by (simp add: pop_order_low_only_def)
  next
    case False
    then obtain T where T: "took od pb s S u T" "pb < PMM_LOW_MAX" using pop_split_zone_cases [OF inv w pu] by auto
    then have g: "blk_geom od pb" by (simp add: took_def)
    have lo: "blk_pages od pb \<subseteq> {..<2 ^ 20}" by (rule blk_zone(1) [OF g T(2)])
    then have "page pb + 2 ^ od \<le> 2 ^ 20" by (intro interval_below) (simp_all add: blk_pages_def)
    then have "unat (pb + 2 ^ od * 4096) \<le> 2 ^ 32" using blk_geomD(8,9) [OF g] by simp
    then have "\<not> PMM_LOW_MAX < pb + 2 ^ od * 4096" by (simp add: word_less_nat_alt)
    then have "pa = pb" "t = u" using T(2) r pu w False by (auto simp: pop_order_low_only_def Let_def split: if_splits)
    then show ?thesis using T(1) lo False by auto
  qed
qed

lemma pmm_alloc_low_eq:
  assumes rep: "pmm_rep s P"
  shows "pmm_alloc_low s = pop_order_low_only 0 s"
proof -
  obtain pa t where r: "pop_order_low_only 0 s = (pa, t)" by fastforce
  from pop_low_spec [OF rep r] show ?thesis
  proof
    assume "pa \<noteq> 0 \<and> page_taken pa s P t \<and> page pa < 2 ^ 20"
    then have g: "blk_geom 0 pa" and l: "page pa < 2 ^ 20" by (auto simp: page_taken_def page_fit_def)
    have "pa < PMM_LOW_MAX" using blk_geomD(8) [OF g] l by (simp add: word_less_nat_alt)
    then show ?thesis using r blk_geomD(7) [OF g] by (auto simp: pmm_alloc_low_def)
  qed (use r in \<open>auto simp: pmm_alloc_low_def\<close>)
qed

lemma pmm_alloc_pages_low_promise:
  assumes rep: "pmm_rep s P" and r: "pmm_alloc_pages_low c s = (pa, t)"
  shows "alloc_promise c s P pa t \<and> (pa \<noteq> 0 \<longrightarrow> run_pages pa c \<subseteq> {..<2 ^ 20})"
proof -
  have nil: "alloc_promise c s P 0 s" using rep by (simp add: alloc_promise_def)
  obtain S where S: "pmm_inv s S" "free_pages S = P" using rep by (auto simp: pmm_rep_def)
  consider (zero) "c = 0" | (one) "c = 1" | (big) "2 \<le> c" "512 < c" | (mid) "2 \<le> c" "c \<le> 512"
    using pages_arith [of c] by force
  then show ?thesis
  proof cases
    case zero
    then show ?thesis using nil r by (simp add: pmm_alloc_pages_low_def)
  next
    case one
    then have "pop_order_low_only 0 s = (pa, t)" using r pmm_alloc_low_eq [OF rep] by (simp add: pmm_alloc_pages_low_def)
    from pop_low_spec [OF rep this] show ?thesis using nil one one_promise [of pa s P t] by (auto simp: run_pages_def)
  next
    case big
    then have "c \<noteq> 0" "c \<noteq> 1" by (simp_all add: pages_arith_iff)
    then show ?thesis using nil r big by (simp add: pmm_alloc_pages_low_def)
  next
    case mid
    then have c: "c \<noteq> 0" "c \<noteq> 1" "\<not> 512 < c" by (simp_all add: pages_arith_iff)
    let ?o = "pages_to_order c"
    show ?thesis
    proof (cases "2 ^ ?o = c")
      case True
      obtain b u where p: "pop_order_low_only ?o s = (b, u)" by fastforce
      from pop_low_block [OF S(1) pages_to_order_le this] show ?thesis
      proof
        assume "b = 0 \<and> u = s"
        then show ?thesis using nil r c True p by (simp add: pmm_alloc_pages_low_def Let_def)
      next
        assume a: "b \<noteq> 0 \<and> (\<exists>T. took ?o b s S u T) \<and> blk_pages ?o b \<subseteq> {..<2 ^ 20}"
        then obtain T where T: "took ?o b s S u T" by auto
        then have g: "blk_geom ?o b" by (simp add: took_def)
        have lo: "run_pages b c \<subseteq> {..<2 ^ 20}" using a by (simp add: pages_to_order_exact(1) [OF True])
        have "unat (ucast c * 4096 :: u64) = 4096 * unat c"
          using mid by (simp add: unat_word_ariths unsigned_ucast_eq take_bit_nat_eq_self word_le_nat_alt)
        then have "unat (b + ucast c * 4096) = unat b + 4096 * unat c"
          using blk_geomD(4) [OF g] pages_to_order_exact(2) [OF True] by (subst unat_add_small) simp_all
        from low_run [OF lo this blk_geomD(3) [OF g] mid(1)] have "pa = b" "t = u"
          using r c True p a by (simp_all add: pmm_alloc_pages_low_def Let_def)
        then show ?thesis using took_promise [OF T True S(2)] lo by simp
      qed
    next
      case False
      obtain b H u where h: "hold_loop (pop_order_low_only 0) g_cFramesFreeLow (unat c) 256 [] s = (b, H, u)" by (metis prod_cases3)
      note sc = low_page.scan_promise [OF rep h mid]
      have "(pa, t) = (if b = 0 then (0, give_back H u) else (b, give_back (filter (outside_run b c) H) u))"
        using r c False h low_run [of b c] sc(2) mid by (auto simp: pmm_alloc_pages_low_def Let_def split: if_splits)
      then show ?thesis using sc(1,2,5) by (auto split: if_splits)
    qed
  qed
qed


section \<open>The high zone first\<close>

lemma sub_one: "(if 0 < x then x - 1 else x) = sub_or_zero x 1"
proof -
  have "1 \<le> x \<longleftrightarrow> 0 < x" by (simp add: word_less_nat_alt word_le_nat_alt Suc_le_eq)
  then show ?thesis by (auto simp: sub_or_zero_def word_neq_0_conv [symmetric])
qed

lemma sub_one_list: "(if 0 < xs ! 0 then xs[0 := xs ! 0 - 1] else xs) = xs[0 := sub_or_zero (xs ! 0) 1]"
  unfolding sub_one [symmetric] by simp

lemma pmm_alloc_high_eq:
  assumes rep: "pmm_rep s P"
  shows "pmm_alloc_high s = (if g_paFreeHigh s = 0 then pop_free s else pop_order_from 0 False s)"
proof (cases "g_paFreeHigh s = 0")
  case False
  obtain S where S: "pmm_inv s S" using rep by (auto simp: pmm_rep_def)
  obtain pa t where r: "pop_order_from 0 False s = (pa, t)" by fastforce
  have hd: "order_head False 0 s = g_paFreeHigh s" by (simp add: order_head_def)
  obtain xs where xs: "chain (pg_word s) (g_paFreeHigh s) xs" "set xs = zone_blocks S False 0"
    using S unfolding pmm_inv_def lists_ok_def hd [symmetric] by blast
  then have "g_paFreeHigh s \<in> zone_blocks S False 0" using False by (cases xs) auto
  then have b: "(0, g_paFreeHigh s) \<in> S" "\<not> g_paFreeHigh s < PMM_LOW_MAX" by (simp_all add: zone_blocks_def)
  have ok: "blocks_ok s S" using S by (simp add: pmm_inv_def)
  note k = blocks_okD(1,2) [OF ok b(1)]
  have "order_aligned (g_paFreeHigh s) 0" "pg_fHhdm s" using blk_geomD(6) [OF k(1)] k(2) b(2) by (simp_all add: allowed_def)
  then show ?thesis
    using False b(2) unfolding pmm_alloc_high_def sub_one sub_one_list
    by (simp add: pop_order_from_def hd Let_def pa_to_ptr_def set_order_head_def)
qed (simp add: pmm_alloc_high_def)

section \<open>Freeing\<close>

text \<open>Every page of a run may be on the lists.\<close>

definition run_fit :: "pmm_state \<Rightarrow> u64 \<Rightarrow> u32 \<Rightarrow> bool" where
  "run_fit s pa c \<longleftrightarrow> pa \<noteq> 0 \<and> 4096 dvd unat pa \<and> unat pa + 4096 * unat c \<le> 2 ^ 52
     \<and> (unat pa + 4096 * unat c \<le> 2 ^ 32 \<or> pg_fHhdm s)
     \<and> range_ok_free s pa (ucast c * 4096)"

lemma run_fit_page:
  assumes f: "run_fit s pa c" and i: "i < unat c"
  shows "page_fit s (pa + of_nat i * 4096)" and "page (pa + of_nat i * 4096) = page pa + i"
proof -
  have uc: "unat c < 2 ^ 32" using unsigned_less [of c] by simp
  have ui: "unat (of_nat i * 4096 :: u64) = 4096 * i" using i uc by (simp add: unat_word_ariths unat_of_nat take_bit_nat_eq_self)
  have f': "pa \<noteq> 0" "4096 dvd unat pa" "unat pa + 4096 * unat c \<le> 2 ^ 52" using f by (auto simp: run_fit_def)
  have bi: "4096 * i + 4096 \<le> 4096 * unat c" using i by simp
  have u: "unat (pa + of_nat i * 4096) = unat pa + 4096 * i" using ui f'(3) bi by (subst unat_add_small) simp_all
  then show "page (pa + of_nat i * 4096) = page pa + i" by simp
  have ne: "pa + of_nat i * 4096 \<noteq> 0" using u f'(1) by (auto simp: unat_eq_0 dest!: arg_cong [of _ 0 unat])
  have g: "blk_geom 0 (pa + of_nat i * 4096)" using u ne f' bi by (simp add: blk_geom_def)
  have ucc: "unat (ucast c * 4096 :: u64) = 4096 * unat c" using uc by (simp add: unat_word_ariths unsigned_ucast_eq take_bit_nat_eq_self)
  have e: "unat (pa + ucast c * 4096) = unat pa + 4096 * unat c" using ucc f'(3) by (subst unat_add_small) simp_all
  have e2: "unat (pa + of_nat i * 4096 + 4096) = unat pa + 4096 * i + 4096" using blk_geomD(9) [OF g] u by simp
  have "range_ok_free s (pa + of_nat i * 4096) 4096"
  proof (rule range_ok_mono)
    show "range_ok_free s pa (ucast c * 4096)" using f by (simp add: run_fit_def)
    show "pa \<le> pa + of_nat i * 4096" using u by (simp add: word_le_nat_alt)
    show "pa + of_nat i * 4096 + 4096 \<le> pa + ucast c * 4096" unfolding word_le_nat_alt e e2 using bi by simp
  qed simp
  moreover have "pa + of_nat i * 4096 < PMM_LOW_MAX \<or> pg_fHhdm s"
    using f u bi by (auto simp: run_fit_def word_less_nat_alt)
  ultimately show "page_fit s (pa + of_nat i * 4096)" using g f by (auto simp: page_fit_def allowed_def run_fit_def)
qed

lemma push_pages:
  assumes rep: "pmm_rep s P" and f: "run_fit s pa c" and d: "run_pages pa c \<inter> P = {}" and n: "n \<le> unat c"
  shows "pmm_rep (fold (\<lambda>i. push_free (pa + of_nat i * 4096)) [0..<n] s) (P \<union> {page pa..<page pa + n})
    \<and> same_cfg s (fold (\<lambda>i. push_free (pa + of_nat i * 4096)) [0..<n] s)"
  using n
proof (induction n)
  case 0
  then show ?case using rep by simp
next
  case (Suc n)
  let ?t = "fold (\<lambda>i. push_free (pa + of_nat i * 4096)) [0..<n] s"
  have ih: "pmm_rep ?t (P \<union> {page pa..<page pa + n})" "same_cfg s ?t" using Suc by simp_all
  have p: "page_fit ?t (pa + of_nat n * 4096)" "page (pa + of_nat n * 4096) = page pa + n"
    using run_fit_page [OF f, of n] same_cfg_fit [OF ih(2)] Suc.prems by simp_all
  have "page pa + n \<in> run_pages pa c" using Suc.prems by (simp add: run_pages_def)
  then have "page pa + n \<notin> P \<union> {page pa..<page pa + n}" using d by auto
  then have "pmm_rep (push_free (pa + of_nat n * 4096) ?t) (insert (page pa + n) (P \<union> {page pa..<page pa + n}))"
    "same_cfg ?t (push_free (pa + of_nat n * 4096) ?t)"
    using push_free_rep [OF ih(1) p(1)] unfolding p(2) by auto
  moreover have "insert (page pa + n) (P \<union> {page pa..<page pa + n}) = P \<union> {page pa..<page pa + Suc n}" by auto
  ultimately show ?case using same_cfg_trans [OF ih(2)] by simp
qed

lemma pmm_free_pages_rep:
  assumes rep: "pmm_rep s P" and f: "run_fit s pa c" and d: "run_pages pa c \<inter> P = {}" and c: "c \<noteq> 0"
  shows "pmm_rep (pmm_free_pages pa c s) (P \<union> run_pages pa c) \<and> same_cfg s (pmm_free_pages pa c s)"
proof -
  let ?o = "pages_to_order c"
  have f': "pa \<noteq> 0" "pa AND 4095 = 0" using f by (auto simp: run_fit_def page_aligned_dvd)
  show ?thesis
  proof (cases "2 ^ ?o = c \<and> order_aligned pa ?o")
    case True
    note e = pages_to_order_exact [OF conjunct1 [OF True]]
    obtain S where S: "pmm_inv s S" "free_pages S = P" using rep by (auto simp: pmm_rep_def)
    have "ucast c * 4096 = (2 ^ ?o * 4096 :: u64)"
    proof -
      have "?o \<in> {0, 1, 2, 3, 4, 5, 6, 7, 8, 9}" using pages_to_order_le [of c] by auto
      then have "ucast (2 ^ ?o :: u32) = (2 ^ ?o :: u64)" by auto
      then show ?thesis using True by simp
    qed
    moreover have "pa < PMM_LOW_MAX \<or> pg_fHhdm s"
    proof -
      have "0 < unat c" using c by (simp add: unat_gt_0)
      then have "unat pa < 2 ^ 32 \<or> pg_fHhdm s" using f unfolding run_fit_def by linarith
      then show ?thesis by (simp add: word_less_nat_alt)
    qed
    ultimately have g: "blk_geom ?o pa" "allowed s ?o pa"
      using f True pages_to_order_le [of c] e(2) by (auto simp: blk_geom_def allowed_def run_fit_def order_aligned_dvd)
    have "blk_pages ?o pa \<inter> free_pages S = {}" using d e(1) S(2) by simp
    from push_ok [OF S(1) g this] have "pmm_rep (push_order pa ?o s) (P \<union> run_pages pa c)" "same_cfg s (push_order pa ?o s)"
      using S(2) by (auto simp: pmm_rep_def free_pages_insert e(1) intro!: exI [of _ "insert (?o, pa) S"])
    then show ?thesis using True f' c pages_to_order_le [of c] by (simp add: pmm_free_pages_def Let_def)
  next
    case False
    then have "pmm_free_pages pa c s = fold (\<lambda>i. push_free (pa + of_nat i * 4096)) [0..<unat c] s"
      using f' c by (auto simp: pmm_free_pages_def Let_def)
    then show ?thesis using push_pages [OF rep f d order_refl] by (simp add: run_pages_def)
  qed
qed

end
