(* ===== verification/Pmm_Init.thy ===== *)
theory Pmm_Init
  imports Pmm_Alloc
begin

text \<open>
  Building the lists from the boot memory map: \<^verbatim>\<open>free_range\<close>, \<^verbatim>\<open>pmm_init\<close> and \<^verbatim>\<open>pmm_release_high\<close>.
\<close>

section \<open>A range of pages\<close>

text \<open>A page that may be freed.\<close>

definition usable :: "pmm_state \<Rightarrow> nat \<Rightarrow> bool" where
  "usable s p \<longleftrightarrow> 256 \<le> p \<and> \<not> (4096 * p < unat (g_paKernel1 s) \<and> unat (g_paKernel0 s) < 4096 * p + 4096)
     \<and> \<not> (4096 * p < unat (g_paSoftMedia1 s) \<and> unat (g_paSoftMedia0 s) < 4096 * p + 4096 \<and> g_paSoftMedia0 s < g_paSoftMedia1 s)"

lemma range_ok_page:
  assumes "4096 dvd unat pa" and "unat pa + 4096 \<le> 2 ^ 52"
  shows "range_ok_free s pa 4096 \<longleftrightarrow> usable s (page pa)"
proof -
  have "unat (pa + 4096) = unat pa + 4096" using assms(2) by (subst unat_add_small) simp_all
  moreover have "unat pa = 4096 * page pa" using assms(1) by simp
  ultimately show ?thesis by (auto simp: range_ok_free_def range_overlaps_def usable_def word_less_nat_alt)
qed

definition usable_in :: "pmm_state \<Rightarrow> nat \<Rightarrow> nat \<Rightarrow> nat set" where
  "usable_in s a b = {p. a \<le> p \<and> p < b \<and> usable s p}"

text \<open>The configuration without the frame total.\<close>

definition same_but_total :: "pmm_state \<Rightarrow> pmm_state \<Rightarrow> bool" where
  "same_but_total s t \<longleftrightarrow> same_cfg (s\<lparr>g_cFramesTotal := g_cFramesTotal t\<rparr>) t"

lemma same_but_total_refl [simp]: "same_but_total s s"
  by (simp add: same_but_total_def)

lemma same_but_total_trans: "same_but_total s t \<Longrightarrow> same_but_total t u \<Longrightarrow> same_but_total s u"
  by (simp add: same_but_total_def same_cfg_def)

lemma same_but_total_upd [simp]: "same_but_total s (t\<lparr>g_cFramesTotal := x\<rparr>) = same_but_total s t" "same_but_total (s\<lparr>g_cFramesTotal := x\<rparr>) t = same_but_total s t"
  by (simp_all add: same_but_total_def same_cfg_def)

lemma same_cfg_but: "same_cfg s t \<Longrightarrow> same_but_total s t"
  by (simp add: same_but_total_def same_cfg_def)

lemma same_but_usable: "same_but_total s t \<Longrightarrow> usable t = usable s"
  by (intro ext) (simp add: same_but_total_def same_cfg_def usable_def)

lemma pmm_inv_total [simp]: "pmm_inv (s\<lparr>g_cFramesTotal := x\<rparr>) S = pmm_inv s S"
  by (simp add: pmm_inv_def blocks_ok_def lists_ok_def counts_ok_def allowed_def range_ok_free_def order_head_def)

lemma pmm_rep_total [simp]: "pmm_rep (s\<lparr>g_cFramesTotal := x\<rparr>) P = pmm_rep s P"
  by (simp add: pmm_rep_def)

lemma order_bytes_span: "order_bytes od = 2 ^ od * 4096"
  by (simp add: order_bytes_pow power_add)

lemma pick_order_ok:
  assumes "4096 dvd unat pa" and "unat pa + 4096 \<le> unat paEnd" and "unat paEnd \<le> 2 ^ 52" and "range_ok_free s pa 4096" and "k \<le> 9"
  defines "od \<equiv> pick_order s pa paEnd k"
  shows "blk_geom od pa \<and> range_ok_free s pa (2 ^ od * 4096) \<and> unat pa + 4096 * 2 ^ od \<le> unat paEnd"
  using assms(5) unfolding od_def
proof (induction k)
  case 0
  have "pa \<noteq> 0" using assms(4) by (auto simp: range_ok_free_def)
  then show ?case using assms(1-4) by (simp add: blk_geom_def)
next
  case (Suc k)
  let ?sz = "order_bytes (Suc k)"
  show ?case
  proof (cases "pa AND (?sz - 1) = 0 \<and> pa + ?sz \<le> paEnd \<and> range_ok_free s pa ?sz")
    case True
    then have p: "pick_order s pa paEnd (Suc k) = Suc k" by (simp add: Let_def)
    have nz: "pa \<noteq> 0" using assms(4) by (auto simp: range_ok_free_def)
    have u: "unat (2 ^ Suc k * 4096 :: u64) = 4096 * 2 ^ Suc k" by (rule unat_span [OF Suc.prems])
    have "(2 :: nat) ^ Suc k \<le> 2 ^ 9" using Suc.prems by (intro power_increasing) auto
    then have "unat (pa + 2 ^ Suc k * 4096) = unat pa + 4096 * 2 ^ Suc k"
      using u assms(2,3) by (subst unat_add_small) simp_all
    then have e: "unat pa + 4096 * 2 ^ Suc k \<le> unat paEnd" using True by (simp add: order_bytes_span word_le_nat_alt)
    have "4096 * 2 ^ Suc k dvd unat pa" using True and_mask_dvd [of pa "12 + Suc k"] by (simp add: order_bytes_pow power_add mult.assoc)
    then show ?thesis unfolding p using True e nz Suc.prems assms(3) by (simp add: blk_geom_def order_bytes_span)
  next
    case False
    then have "pick_order s pa paEnd (Suc k) = pick_order s pa paEnd k" by (auto simp: Let_def)
    then show ?thesis using Suc by simp
  qed
qed

text \<open>All pages of an allowed block are usable.\<close>

lemma block_usable:
  assumes g: "blk_geom od pa" and ok: "range_ok_free s pa (2 ^ od * 4096)" and p: "p \<in> blk_pages od pa"
  shows "usable s p"
proof -
  note gd = blk_geomD [OF g]
  have lb: "unat pa div 4096 \<le> p" "p < unat pa div 4096 + 2 ^ od" using p by (auto simp: blk_pages_def)
  then have l: "unat pa \<le> 4096 * p" "4096 * p + 4096 \<le> unat pa + 4096 * 2 ^ od" using gd(8) by linarith+
  have "256 \<le> p" using ok lb(1) by (auto simp: range_ok_free_def word_less_nat_alt split: if_splits)
  then show ?thesis
    using ok l gd(9) by (auto simp: usable_def range_ok_free_def range_overlaps_def word_less_nat_alt split: if_splits)
qed


section \<open>The loop of \<open>free_range\<close>\<close>

lemma free_range_stop: "\<not> pa + 4096 \<le> paEnd \<Longrightarrow> free_range_loop pa paEnd c s = Some s"
  by (subst free_range_loop.simps) simp

lemma free_range_skip:
  "pa + 4096 \<le> paEnd \<Longrightarrow> \<not> range_ok_free s pa 4096 \<Longrightarrow> free_range_loop pa paEnd c s = free_range_loop (pa + 4096) paEnd c s"
  by (subst free_range_loop.simps) simp

lemma free_range_push:
  "pa + 4096 \<le> paEnd \<Longrightarrow> range_ok_free s pa 4096 \<Longrightarrow> od = pick_order s pa paEnd 9 \<Longrightarrow>
   free_range_loop pa paEnd c s = free_range_loop (pa + 2 ^ od * 4096) paEnd c
     (push_order pa od (if c then s\<lparr>g_cFramesTotal := g_cFramesTotal s + 2 ^ od\<rparr> else s))"
  by (subst free_range_loop.simps) (simp add: Let_def order_bytes_span)

lemma usable_in_split: "a \<le> m \<Longrightarrow> m \<le> b \<Longrightarrow> usable_in s a b = usable_in s a m \<union> usable_in s m b"
  by (auto simp: usable_in_def)

lemma usable_in_fin [simp]: "finite (usable_in s a b)"
  by (rule finite_subset [of _ "{a..<b}"]) (auto simp: usable_in_def)

lemma usable_in_empty [simp]: "b \<le> a \<Longrightarrow> usable_in s a b = {}"
  by (auto simp: usable_in_def)

definition adds :: "bool \<Rightarrow> pmm_state \<Rightarrow> nat set \<Rightarrow> nat set \<Rightarrow> pmm_state \<Rightarrow> bool" where
  "adds c s P Q t \<longleftrightarrow> pmm_rep t (P \<union> Q) \<and> same_but_total s t
     \<and> g_cFramesTotal t = g_cFramesTotal s + (if c then of_nat (card Q) else 0)"

lemma range_ok_total [simp]: "range_ok_free (s\<lparr>g_cFramesTotal := x\<rparr>) = range_ok_free s"
  by (intro ext) (simp add: range_ok_free_def)

text \<open>One block of the range.\<close>

lemma free_block_step:
  assumes rep: "pmm_rep s P" and g: "blk_geom od pa" and r: "range_ok_free s pa (2 ^ od * 4096)" and d: "blk_pages od pa \<inter> P = {}"
    and z: "pa < PMM_LOW_MAX \<or> pg_fHhdm s"
  shows "adds c s P (blk_pages od pa) (push_order pa od (if c then s\<lparr>g_cFramesTotal := g_cFramesTotal s + 2 ^ od\<rparr> else s))"
proof -
  let ?s = "if c then s\<lparr>g_cFramesTotal := g_cFramesTotal s + 2 ^ od\<rparr> else s"
  obtain S where S: "pmm_inv ?s S" "free_pages S = P" using rep by (auto simp: pmm_rep_def)
  have "allowed ?s od pa" using r z by (cases c) (auto simp: allowed_def)
  note p = push_ok [OF S(1) g this]
  have d': "blk_pages od pa \<inter> free_pages S = {}" using d S(2) by simp
  have "pmm_rep (push_order pa od ?s) (P \<union> blk_pages od pa)"
    using p(1) [OF d'] S(2) by (auto simp: pmm_rep_def free_pages_insert intro!: exI [of _ "insert (od, pa) S"])
  moreover have "same_but_total s (push_order pa od ?s)" using same_cfg_but [OF p(2) [OF d']] by (cases c) simp_all
  moreover have "g_cFramesTotal (push_order pa od ?s) = g_cFramesTotal s + (if c then 2 ^ od else 0)"
    using p(2) [OF d'] by (cases c) (simp_all add: same_cfg_def)
  ultimately show ?thesis by (simp add: adds_def)
qed

lemma usable_block:
  assumes k: "blk_geom od pa" "range_ok_free s pa (2 ^ od * 4096)" "unat pa + 4096 * 2 ^ od \<le> unat paEnd" and e: "4096 dvd unat paEnd"
  shows "usable_in s (page pa) (page paEnd) = blk_pages od pa \<union> usable_in s (page (pa + 2 ^ od * 4096)) (page paEnd)"
    and "blk_pages od pa \<inter> usable_in s (page (pa + 2 ^ od * 4096)) (page paEnd) = {}"
proof -
  note g = blk_geomD [OF k(1)]
  have pn: "page (pa + 2 ^ od * 4096) = page pa + 2 ^ od" using g(9) by simp
  have "4096 * (page pa + 2 ^ od) \<le> 4096 * page paEnd" using k(3) g(8) e by (simp add: distrib_left)
  then have ple: "page pa + 2 ^ od \<le> page paEnd" by (subst (asm) mult_le_cancel1) simp
  have "usable_in s (page pa) (page pa + 2 ^ od) = blk_pages od pa"
    using block_usable [OF k(1,2)] by (auto simp: usable_in_def blk_pages_def)
  then show "usable_in s (page pa) (page paEnd) = blk_pages od pa \<union> usable_in s (page (pa + 2 ^ od * 4096)) (page paEnd)"
    unfolding pn using usable_in_split [OF _ ple, of "page pa" s] by simp
  show "blk_pages od pa \<inter> usable_in s (page (pa + 2 ^ od * 4096)) (page paEnd) = {}"
    unfolding pn by (auto simp: usable_in_def blk_pages_def)
qed

text \<open>The loop ends and frees exactly the usable pages of the range.\<close>

lemma free_range_loop_ok:
  assumes "pmm_rep s P" and "4096 dvd unat pa" and "4096 dvd unat paEnd" and "unat paEnd \<le> 2 ^ 52" and "unat pa \<le> 2 ^ 52"
    and "P \<inter> usable_in s (page pa) (page paEnd) = {}" and "unat paEnd \<le> 2 ^ 32 \<or> pg_fHhdm s"
  shows "\<exists>t. free_range_loop pa paEnd c s = Some t \<and> adds c s P (usable_in s (page pa) (page paEnd)) t"
  using assms
proof (induction "unat paEnd - unat pa" arbitrary: pa s P rule: less_induct)
  case less
  have u: "unat (pa + 4096) = unat pa + 4096" using less.prems(5) by (subst unat_add_small) simp_all
  have pg: "unat pa = 4096 * page pa" "unat paEnd = 4096 * page paEnd" using less.prems(2,3) by simp_all
  show ?case
  proof (cases "unat pa + 4096 \<le> unat paEnd")
    case False
    then have "page paEnd \<le> page pa" using pg by linarith
    moreover have "\<not> pa + 4096 \<le> paEnd" using False u by (simp add: word_le_nat_alt)
    ultimately show ?thesis using less.prems(1) by (simp add: free_range_stop adds_def)
  next
    case True
    then have le: "pa + 4096 \<le> paEnd" using u by (simp add: word_le_nat_alt)
    have b: "unat pa + 4096 \<le> 2 ^ 52" using True less.prems(4) by linarith
    show ?thesis
    proof (cases "range_ok_free s pa 4096")
      case False
      then have nu: "\<not> usable s (page pa)" using range_ok_page [OF less.prems(2) b] by simp
      have p1: "page (pa + 4096) = Suc (page pa)" using u by simp
      have e: "usable_in s (page pa) (page paEnd) = usable_in s (page (pa + 4096)) (page paEnd)"
        unfolding p1 using nu by (auto simp: usable_in_def) (metis Suc_leI le_neq_implies_less)
      have "4096 dvd unat (pa + 4096)" using less.prems(2) u by simp
      then show ?thesis using less.hyps [of "pa + 4096" s P] less.prems True u free_range_skip [OF le False] e by simp
    next
      case ok: True
      define od where "od = pick_order s pa paEnd 9"
      have k: "blk_geom od pa" "range_ok_free s pa (2 ^ od * 4096)" "unat pa + 4096 * 2 ^ od \<le> unat paEnd"
        using pick_order_ok [OF less.prems(2) True less.prems(4) ok, of 9] by (simp_all add: od_def)
      note g = blk_geomD [OF k(1)] and us = usable_block [OF k less.prems(3)]
      let ?s = "if c then s\<lparr>g_cFramesTotal := g_cFramesTotal s + 2 ^ od\<rparr> else s" and ?pa = "pa + 2 ^ od * 4096"
      let ?B = "blk_pages od pa" and ?t = "push_order pa od ?s" and ?U = "usable_in s (page (pa + 2 ^ od * 4096)) (page paEnd)"
      have z: "pa < PMM_LOW_MAX \<or> pg_fHhdm s" using less.prems(7) True by (auto simp: word_less_nat_alt)
      have "?B \<inter> P = {}" using less.prems(6) us(1) by auto
      from free_block_step [OF less.prems(1) k(1,2) this z, of c] have t: "adds c s P ?B ?t" .
      then have ct: "same_but_total s ?t" by (simp add: adds_def)
      have ut: "usable_in ?t = usable_in s" using same_but_usable [OF ct] by (intro ext) (simp add: usable_in_def)
      have "unat paEnd - unat ?pa < unat paEnd - unat pa" unfolding g(9) using True by (intro diff_less_mono2) simp_all
      moreover have "4096 dvd unat ?pa" "unat ?pa \<le> 2 ^ 52" using g(3,4,9) by simp_all
      moreover have "(P \<union> ?B) \<inter> ?U = {}" using less.prems(6) us by auto
      moreover have "pg_fHhdm ?t = pg_fHhdm s" using ct by (simp add: same_but_total_def same_cfg_def)
      ultimately obtain v where v: "free_range_loop ?pa paEnd c ?t = Some v" "adds c ?t (P \<union> ?B) ?U v"
        using less.hyps [of ?pa ?t "P \<union> ?B"] less.prems(3,4,7) t ut by (auto simp: adds_def)
      have "card (?B \<union> ?U) = 2 ^ od + card ?U" using us(2) by (subst card_Un_disjoint) simp_all
      then have "adds c s P (?B \<union> ?U) v" using t v(2) same_but_total_trans [OF ct] by (auto simp: adds_def Un_assoc)
      then show ?thesis using free_range_push [OF le ok od_def, of c] v(1) us(1) by simp
    qed
  qed
qed


section \<open>Regions of the boot map\<close>

definition region_lo :: "pmm_pending \<Rightarrow> nat" where
  "region_lo r = (unat (pp_paBase r) + 4095) div 4096"

definition region_hi :: "pmm_pending \<Rightarrow> nat" where
  "region_hi r = (unat (pp_paBase r) + unat (pp_cbLen r)) div 4096"

text \<open>The whole pages of a region, and a region of physical memory.\<close>

definition region_pages :: "pmm_pending \<Rightarrow> nat set" where
  "region_pages r = {region_lo r..<region_hi r}"

definition region_ok :: "pmm_pending \<Rightarrow> bool" where
  "region_ok r \<longleftrightarrow> unat (pp_paBase r) + unat (pp_cbLen r) \<le> 2 ^ 52"

lemma page_floor: "unat (a AND - 4096) = 4096 * (unat a div 4096)" for a :: u64
  using unat_page_floor [of a] by (simp add: minus_mod_eq_mult_div)

lemma region_bounds:
  assumes "region_ok r"
  shows "unat ((4095 + pp_paBase r) AND - 4096) = 4096 * region_lo r" "unat ((pp_paBase r + pp_cbLen r) AND - 4096) = 4096 * region_hi r"
    "4096 * region_lo r \<le> 2 ^ 52" "4096 * region_hi r \<le> 2 ^ 52" "unat (pp_paBase r + pp_cbLen r) = unat (pp_paBase r) + unat (pp_cbLen r)"
proof -
  have le: "unat (pp_paBase r) + unat (pp_cbLen r) \<le> 2 ^ 52" using assms by (simp add: region_ok_def)
  have u: "unat (4095 + pp_paBase r) = unat (pp_paBase r) + 4095" using le by (subst unat_add_small) simp_all
  show v: "unat (pp_paBase r + pp_cbLen r) = unat (pp_paBase r) + unat (pp_cbLen r)" using le by (subst unat_add_small) simp_all
  show "unat ((4095 + pp_paBase r) AND - 4096) = 4096 * region_lo r" "unat ((pp_paBase r + pp_cbLen r) AND - 4096) = 4096 * region_hi r"
    unfolding page_floor u v by (simp_all add: region_lo_def region_hi_def)
  show "4096 * region_lo r \<le> 2 ^ 52" "4096 * region_hi r \<le> 2 ^ 52" using le by (simp_all add: region_lo_def region_hi_def)
qed

lemma free_range_ok:
  assumes "pmm_rep s P" and "region_ok r" and "P \<inter> usable_in s (region_lo r) (region_hi r) = {}" and "region_hi r \<le> 2 ^ 20 \<or> pg_fHhdm s"
  shows "\<exists>t. free_range (pp_paBase r) (pp_cbLen r) c s = Some t \<and> adds c s P (usable_in s (region_lo r) (region_hi r)) t"
proof -
  let ?a = "(4095 + pp_paBase r) AND - 4096" and ?e = "(pp_paBase r + pp_cbLen r) AND - 4096"
  note e = region_bounds [OF assms(2)]
  have pg: "page ?a = region_lo r" "page ?e = region_hi r" by (simp_all add: e)
  have "4096 * region_hi r \<le> 2 ^ 32 \<or> pg_fHhdm s" using assms(4) by auto
  then have "\<exists>t. free_range_loop ?a ?e c s = Some t \<and> adds c s P (usable_in s (page ?a) (page ?e)) t"
    using assms(3) e(3,4) by (intro free_range_loop_ok assms(1)) (simp_all add: e)
  then show ?thesis unfolding pg by (simp add: free_range_def add_diff_eq)
qed

text \<open>What \<^verbatim>\<open>pmm_init\<close> leaves alone.\<close>

definition same_res :: "pmm_state \<Rightarrow> pmm_state \<Rightarrow> bool" where
  "same_res s t \<longleftrightarrow> g_paKernel0 t = g_paKernel0 s \<and> g_paKernel1 t = g_paKernel1 s \<and> g_paSoftMedia0 t = g_paSoftMedia0 s
     \<and> g_paSoftMedia1 t = g_paSoftMedia1 s \<and> pg_fHhdm t = pg_fHhdm s \<and> g_fHighReleased t = g_fHighReleased s"

lemma same_res_usable: "same_res s t \<Longrightarrow> usable t = usable s"
  by (intro ext) (simp add: same_res_def usable_def)

lemma same_res_usable_in: "same_res s t \<Longrightarrow> usable_in t = usable_in s"
  by (intro ext) (simp add: usable_in_def same_res_usable)

lemma same_res_trans: "same_res s t \<Longrightarrow> same_res t u \<Longrightarrow> same_res s u"
  by (simp add: same_res_def)

lemma same_but_res: "same_but_total s t \<Longrightarrow> same_res s t \<and> g_aHigh t = g_aHigh s"
  by (simp add: same_but_total_def same_cfg_def same_res_def)

lemma pmm_rep_book [simp]:
  "pmm_rep (s\<lparr>g_aHigh := h\<rparr>) P = pmm_rep s P" "pmm_rep (s\<lparr>g_paMaxSeen := x\<rparr>) P = pmm_rep s P"
  "pmm_rep (s\<lparr>g_fHighReleased := b\<rparr>) P = pmm_rep s P"
  by (simp_all add: pmm_rep_def pmm_inv_def blocks_ok_def lists_ok_def counts_ok_def allowed_def range_ok_free_def order_head_def)

text \<open>The part of a region above 4 GiB.\<close>

definition high_part :: "pmm_pending \<Rightarrow> pmm_pending list" where
  "high_part r =
     (if unat (pp_paBase r) + unat (pp_cbLen r) \<le> 2 ^ 32 then []
      else if unat (pp_paBase r) < 2 ^ 32
        then [\<lparr>pp_paBase = 0x100000000, pp_cbLen = pp_paBase r + pp_cbLen r - 0x100000000\<rparr>]
      else if pp_cbLen r = 0 then [] else [r])"

lemma high_part_pages:
  assumes "region_ok r"
  shows "(\<Union>q \<in> set (high_part r). region_pages q) = region_pages r - {..<2 ^ 20}" and "\<forall>q \<in> set (high_part r). region_ok q"
proof -
  let ?a = "unat (pp_paBase r)" and ?b = "unat (pp_cbLen r)"
  have le: "?a + ?b \<le> 2 ^ 52" using assms by (simp add: region_ok_def)
  have u: "unat (pp_paBase r + pp_cbLen r) = ?a + ?b" using le by (subst unat_add_small) simp_all
  consider (low) "?a + ?b \<le> 2 ^ 32" | (mid) "2 ^ 32 < ?a + ?b" "?a < 2 ^ 32" | (high) "2 ^ 32 \<le> ?a" by linarith
  then have "(\<Union>q \<in> set (high_part r). region_pages q) = region_pages r - {..<2 ^ 20} \<and> (\<forall>q \<in> set (high_part r). region_ok q)"
  proof cases
    case low
    then have "region_hi r \<le> 2 ^ 20" by (simp add: region_hi_def)
    then show ?thesis using low by (auto simp: high_part_def region_pages_def)
  next
    case mid
    have "unat (pp_paBase r + pp_cbLen r - 0x100000000) = ?a + ?b - 2 ^ 32"
      using mid u by (subst unat_sub) (simp_all add: word_le_nat_alt)
    moreover have "region_lo r \<le> 2 ^ 20" "2 ^ 20 \<le> region_hi r" using mid by (simp_all add: region_lo_def region_hi_def)
    ultimately show ?thesis using mid le by (auto simp: high_part_def region_pages_def region_ok_def region_lo_def region_hi_def)
  next
    case high
    then have "2 ^ 20 \<le> region_lo r" by (simp add: region_lo_def)
    then have "region_pages r - {..<2 ^ 20} = region_pages r" by (auto simp: region_pages_def)
    moreover have "region_pages r = {}" if "pp_cbLen r = 0" using that by (simp add: region_pages_def region_lo_def region_hi_def div_le_mono)
    moreover have "high_part r = (if pp_cbLen r = 0 then [] else [r])" using high by (auto simp: high_part_def unat_eq_0)
    ultimately show ?thesis using assms by simp
  qed
  then show "(\<Union>q \<in> set (high_part r). region_pages q) = region_pages r - {..<2 ^ 20}" "\<forall>q \<in> set (high_part r). region_ok q" by auto
qed


lemma high_part_count:
  assumes "region_ok r"
  shows "sum_list (map (\<lambda>q. region_hi q - region_lo q) (high_part r)) = card (region_pages r - {..<2 ^ 20})"
proof -
  note h = high_part_pages(1) [OF assms]
  consider "high_part r = []" | q where "high_part r = [q]" unfolding high_part_def by metis
  then show ?thesis unfolding h [symmetric] by cases (simp_all add: region_pages_def)
qed

lemma defer_high_eq:
  assumes "region_ok r" and "pp_cbLen r \<noteq> 0" and "length (g_aHigh s) < 64"
  shows "defer_high (pp_paBase r) (pp_cbLen r) s = s\<lparr>g_aHigh := g_aHigh s @ [r], g_cFramesTotal := g_cFramesTotal s + of_nat (region_hi r - region_lo r)\<rparr>"
proof -
  let ?a = "(4095 + pp_paBase r) AND - 4096" and ?e = "(pp_paBase r + pp_cbLen r) AND - 4096"
  note e = region_bounds [OF assms(1)]
  have d: "(?e - ?a) div 4096 = of_nat (region_hi r - region_lo r)" if "?a < ?e"
  proof (rule unsigned_word_eqI)
    have "unat (?e - ?a) = 4096 * (region_hi r - region_lo r)" using that e by (simp add: unat_sub word_less_nat_alt word_le_nat_alt diff_mult_distrib2)
    moreover have "region_hi r - region_lo r < 2 ^ 64" using e(4) by simp
    ultimately show "unat ((?e - ?a) div 4096) = unat (of_nat (region_hi r - region_lo r) :: u64)"
      by (simp add: unat_div unat_of_nat take_bit_nat_eq_self)
  qed
  have r: "\<lparr>pp_paBase = pp_paBase r, pp_cbLen = pp_cbLen r\<rparr> = r" by simp
  have lt: "?a < ?e \<longleftrightarrow> region_lo r < region_hi r" using e by (simp add: word_less_nat_alt)
  have "0 < pp_cbLen r" using assms(2) by (simp add: word_neq_0_conv)
  then have "defer_high (pp_paBase r) (pp_cbLen r) s = (let s = s\<lparr>g_aHigh := g_aHigh s @ [r]\<rparr> in if ?a < ?e then s\<lparr>g_cFramesTotal := g_cFramesTotal s + (?e - ?a) div 4096\<rparr> else s)"
    using assms(3) by (simp add: defer_high_def Let_def add_diff_eq r)
  then show ?thesis using d lt by (simp add: Let_def)
qed

definition inits :: "pmm_state \<Rightarrow> nat set \<Rightarrow> nat set \<Rightarrow> pmm_pending list \<Rightarrow> nat \<Rightarrow> pmm_state \<Rightarrow> bool" where
  "inits s P Q h n t \<longleftrightarrow> pmm_rep t (P \<union> Q) \<and> same_res s t \<and> g_aHigh t = g_aHigh s @ h
     \<and> g_cFramesTotal t = g_cFramesTotal s + of_nat (card Q + n)"

text \<open>The same in terms of the region: its low pages are freed and its high part is kept for later.\<close>

lemma low_part_ok:
  assumes rep: "pmm_rep s P" and d: "P \<inter> region_pages r = {}"
    and q: "pp_paBase q = pp_paBase r" "region_ok q" "region_hi q = min (region_hi r) (2 ^ 20)"
  shows "\<exists>t. free_range (pp_paBase q) (pp_cbLen q) True s = Some t \<and> inits s P {p \<in> region_pages r. p < 2 ^ 20 \<and> usable s p} [] 0 t"
proof -
  let ?Q = "{p \<in> region_pages r. p < 2 ^ 20 \<and> usable s p}"
  have Q: "usable_in s (region_lo q) (region_hi q) = ?Q" using q(1) unfolding q(3) by (auto simp: usable_in_def region_pages_def region_lo_def)
  have "P \<inter> ?Q = {}" using d by auto
  then obtain t where "free_range (pp_paBase q) (pp_cbLen q) True s = Some t" "adds True s P ?Q t"
    using free_range_ok [OF rep q(2), of True] q(3) unfolding Q by auto
  then show ?thesis using same_but_res by (auto simp: inits_def adds_def)
qed

lemma init_region_ok:
  assumes rep: "pmm_rep s P" and ok: "region_ok r" and d: "P \<inter> region_pages r = {}" and n: "length (g_aHigh s) + length (high_part r) \<le> 64"
  shows "\<exists>t. init_region r s = Some t \<and> inits s P {p \<in> region_pages r. p < 2 ^ 20 \<and> usable s p} (high_part r) (card (region_pages r - {..<2 ^ 20})) t"
proof -
  let ?a = "unat (pp_paBase r)" and ?b = "unat (pp_cbLen r)" and ?Q = "{p \<in> region_pages r. p < 2 ^ 20 \<and> usable s p}"
  define s1 where "s1 = (if g_paMaxSeen s < pp_paBase r + pp_cbLen r then s\<lparr>g_paMaxSeen := pp_paBase r + pp_cbLen r\<rparr> else s)"
  have s1: "pmm_rep s1 P" "same_res s s1" "g_aHigh s1 = g_aHigh s" "g_cFramesTotal s1 = g_cFramesTotal s"
    using rep by (simp_all add: s1_def same_res_def)
  note lw = low_part_ok [OF s1(1) d, unfolded same_res_usable [OF s1(2)]] and u = region_bounds(5) [OF ok] and cnt = high_part_count [OF ok]
  have up: "inits s P ?Q h m t" if "inits s1 P ?Q h m t" for h m t
    using that s1 same_res_trans [OF s1(2)] by (simp add: inits_def)
  consider (low) "?a + ?b \<le> 2 ^ 32" | (mid) "2 ^ 32 < ?a + ?b" "?a < 2 ^ 32" | (high) "2 ^ 32 \<le> ?a" "2 ^ 32 < ?a + ?b" "pp_cbLen r \<noteq> 0"
    | (none) "2 ^ 32 < ?a" "pp_cbLen r = 0" by (metis add_0_right linorder_not_le unsigned_0)
  then show ?thesis
  proof cases
    case low
    then have "region_hi r \<le> 2 ^ 20" by (simp add: region_hi_def)
    moreover have "init_region r s = free_range (pp_paBase r) (pp_cbLen r) True s1"
      using u low by (simp add: init_region_def Let_def s1_def word_le_nat_alt)
    moreover have "high_part r = []" using low by (simp add: high_part_def)
    ultimately show ?thesis using lw [of r] ok up cnt by auto
  next
    case mid
    define q where "q = \<lparr>pp_paBase = pp_paBase r, pp_cbLen = PMM_LOW_MAX - pp_paBase r\<rparr>"
    define h where "h = \<lparr>pp_paBase = PMM_LOW_MAX, pp_cbLen = pp_paBase r + pp_cbLen r - PMM_LOW_MAX\<rparr>"
    have hp: "high_part r = [h]" using mid by (simp add: high_part_def h_def)
    have ql: "unat (pp_cbLen q) = 2 ^ 32 - ?a" using mid by (simp add: q_def unat_sub word_le_nat_alt)
    have q: "region_ok q" "region_hi q = min (region_hi r) (2 ^ 20)"
      using mid ql by (simp_all add: region_ok_def region_hi_def q_def)
    have "pp_paBase r < PMM_LOW_MAX" "\<not> pp_paBase r + pp_cbLen r \<le> PMM_LOW_MAX" using mid u by (simp_all add: word_less_nat_alt word_le_nat_alt)
    then have "init_region r s = (case free_range (pp_paBase q) (pp_cbLen q) True s1 of None \<Rightarrow> None | Some v \<Rightarrow> Some (defer_high (pp_paBase h) (pp_cbLen h) v))"
      by (simp add: init_region_def Let_def s1_def q_def h_def split: option.split)
    moreover obtain v where v: "free_range (pp_paBase q) (pp_cbLen q) True s1 = Some v" "inits s1 P ?Q [] 0 v" using lw [OF _ q] by (auto simp: q_def)
    moreover have "pp_cbLen h \<noteq> 0" using mid u by (auto simp: h_def)
    ultimately have "init_region r s = Some (v\<lparr>g_aHigh := g_aHigh v @ [h], g_cFramesTotal := g_cFramesTotal v + of_nat (region_hi h - region_lo h)\<rparr>)"
      using defer_high_eq [of h v] n hp high_part_pages(2) [OF ok] s1(3) by (simp add: inits_def)
    then show ?thesis using v(2) cnt hp by (intro exI conjI up) (auto simp: inits_def same_res_def add.assoc)
  next
    case high
    then have ne: "pp_cbLen r \<noteq> 0" "high_part r = [r]" by (auto simp: high_part_def)
    have Q: "?Q = {}" using high by (auto simp: region_pages_def region_lo_def)
    have "\<not> pp_paBase r < PMM_LOW_MAX" "\<not> pp_paBase r + pp_cbLen r \<le> PMM_LOW_MAX" using high u by (simp_all add: word_less_nat_alt word_le_nat_alt)
    then have "init_region r s = Some (s1\<lparr>g_aHigh := g_aHigh s1 @ [r], g_cFramesTotal := g_cFramesTotal s1 + of_nat (region_hi r - region_lo r)\<rparr>)"
      using defer_high_eq [OF ok ne(1), of s1] n ne(2) s1(3) by (simp add: init_region_def Let_def s1_def)
    then show ?thesis using s1 cnt ne(2) unfolding Q by (auto simp: inits_def same_res_def)
  next
    case none
    then have e: "high_part r = []" "region_pages r = {}" by (auto simp: high_part_def region_pages_def region_lo_def region_hi_def)
    have "\<not> pp_paBase r < PMM_LOW_MAX" "\<not> pp_paBase r + pp_cbLen r \<le> PMM_LOW_MAX" using none by (simp_all add: word_less_nat_alt word_le_nat_alt)
    then have "init_region r s = Some s1" using none by (simp add: init_region_def Let_def s1_def defer_high_def)
    then show ?thesis using s1 by (simp add: inits_def e)
  qed
qed

section \<open>Initialisation and release\<close>

definition map_pages :: "pmm_pending list \<Rightarrow> nat set" where
  "map_pages rs = (\<Union>r \<in> set rs. region_pages r)"

lemma map_pages_fin [simp]: "finite (map_pages rs)"
  by (simp add: map_pages_def region_pages_def)

lemma map_pages_simps [simp]: "map_pages [] = {}" "map_pages (r # rs) = region_pages r \<union> map_pages rs" "map_pages (rs @ qs) = map_pages rs \<union> map_pages qs"
  by (auto simp: map_pages_def)

text \<open>A boot map: regions of physical memory, no page in two of them, at most 64 with a part above 4 GiB.\<close>

fun disjoint_regions :: "pmm_pending list \<Rightarrow> bool" where
  "disjoint_regions [] \<longleftrightarrow> True"
| "disjoint_regions (r # rs) \<longleftrightarrow> region_pages r \<inter> map_pages rs = {} \<and> disjoint_regions rs"

lemma high_map: "\<forall>r \<in> set rs. region_ok r \<Longrightarrow> map_pages (concat (map high_part rs)) = map_pages rs - {..<2 ^ 20}"
  using high_part_pages(1) by (induction rs) (auto simp: map_pages_def)

lemma init_regions_ok:
  assumes "pmm_rep s P" and "\<forall>r \<in> set rs. region_ok r" and "disjoint_regions rs" and "P \<inter> map_pages rs = {}"
    and "length (g_aHigh s) + length (concat (map high_part rs)) \<le> 64"
  shows "\<exists>t. init_regions rs s = Some t \<and> inits s P {p \<in> map_pages rs. p < 2 ^ 20 \<and> usable s p} (concat (map high_part rs)) (card (map_pages rs - {..<2 ^ 20})) t"
  using assms
proof (induction rs arbitrary: s P)
  case Nil
  then show ?case by (simp add: inits_def same_res_def)
next
  case (Cons r rs)
  let ?Q = "{p \<in> region_pages r. p < 2 ^ 20 \<and> usable s p}" and ?R = "{p \<in> map_pages rs. p < 2 ^ 20 \<and> usable s p}"
  obtain v where v: "init_region r s = Some v" "inits s P ?Q (high_part r) (card (region_pages r - {..<2 ^ 20})) v"
    using init_region_ok [of s P r] Cons.prems by fastforce
  have us: "usable v = usable s" using v(2) same_res_usable by (simp add: inits_def)
  have "(P \<union> ?Q) \<inter> map_pages rs = {}" using Cons.prems(3,4) by auto
  then obtain t where t: "init_regions rs v = Some t" "inits v (P \<union> ?Q) ?R (concat (map high_part rs)) (card (map_pages rs - {..<2 ^ 20})) t"
    using Cons.IH [of v "P \<union> ?Q"] Cons.prems v(2) us by (auto simp: inits_def)
  have fin: "finite ?Q" "finite ?R" by (simp_all add: region_pages_def)
  have e: "{p \<in> map_pages (r # rs). p < 2 ^ 20 \<and> usable s p} = ?Q \<union> ?R" by auto
  have c1: "card (?Q \<union> ?R) = card ?Q + card ?R" using fin Cons.prems(3) by (intro card_Un_disjoint) auto
  have "map_pages (r # rs) - {..<2 ^ 20} = (region_pages r - {..<2 ^ 20}) \<union> (map_pages rs - {..<2 ^ 20})" by auto
  moreover have "card \<dots> = card (region_pages r - {..<2 ^ 20}) + card (map_pages rs - {..<2 ^ 20})"
    using Cons.prems(3) by (intro card_Un_disjoint) (auto simp: region_pages_def)
  ultimately have c2: "card (map_pages (r # rs) - {..<2 ^ 20}) = card (region_pages r - {..<2 ^ 20}) + card (map_pages rs - {..<2 ^ 20})" by simp
  show ?case using v t same_res_trans unfolding e inits_def c1 c2 by (auto simp: Un_assoc add_ac)
qed

lemma release_loop_ok:
  assumes "pmm_rep s P" and "\<forall>r \<in> set rs. region_ok r" and "disjoint_regions rs" and "P \<inter> map_pages rs = {}" and "pg_fHhdm s"
  shows "\<exists>t. release_loop rs s = Some t \<and> pmm_rep t (P \<union> {p \<in> map_pages rs. usable s p}) \<and> same_cfg s t"
  using assms
proof (induction rs arbitrary: s P)
  case Nil
  then show ?case by simp
next
  case (Cons r rs)
  let ?Q = "usable_in s (region_lo r) (region_hi r)"
  have Q: "?Q = {p \<in> region_pages r. usable s p}" by (auto simp: usable_in_def region_pages_def)
  have "P \<inter> ?Q = {}" using Cons.prems(4) Q by auto
  then obtain v where v: "free_range (pp_paBase r) (pp_cbLen r) False s = Some v" "adds False s P ?Q v"
    using free_range_ok [of s P r False] Cons.prems by fastforce
  have cfg: "same_cfg s v" using v(2) by (simp add: adds_def same_but_total_def same_cfg_def)
  have us: "usable v = usable s" using cfg same_but_usable same_cfg_but by blast
  have "(P \<union> ?Q) \<inter> map_pages rs = {}" using Cons.prems(3,4) Q by auto
  moreover have "pg_fHhdm v" using cfg Cons.prems(5) by (simp add: same_cfg_def)
  ultimately obtain t where t: "release_loop rs v = Some t" "pmm_rep t (P \<union> ?Q \<union> {p \<in> map_pages rs. usable s p})" "same_cfg v t"
    using Cons.IH [of v "P \<union> ?Q"] Cons.prems v(2) us by (auto simp: adds_def)
  have "P \<union> ?Q \<union> {p \<in> map_pages rs. usable s p} = P \<union> {p \<in> map_pages (r # rs). usable s p}" unfolding Q by auto
  then show ?case using v(1) t same_cfg_trans [OF cfg] by simp
qed

end
