(* ===== verification/Pmm_Props.thy ===== *)
theory Pmm_Props
  imports Pmm_Init
begin

text \<open>
  The properties of the physical memory manager: what boot leaves free, that pages are neither lost
  nor handed out twice over any sequence of requests, and what each kind of request returns.
\<close>

section \<open>Boot\<close>

lemma pmm_reset_rep: "pmm_rep (pmm_reset k0 k1 s) {}"
proof -
  have "order_head z od (pmm_reset k0 k1 s) = 0" if "od \<le> 9" for z od
    using that by (simp add: order_head_def pmm_reset_def)
  then have "lists_ok (pmm_reset k0 k1 s) {}" by (auto simp: lists_ok_def zone_blocks_def intro!: exI [of _ "[]"])
  then show ?thesis
    by (intro pmm_rep_def [THEN iffD2] exI [of _ "{}"])
      (auto simp: pmm_inv_def blocks_ok_def counts_ok_def free_pages_def disjoint_family_on_def pmm_reset_def)
qed

lemma pmm_reset_fields:
  "g_aHigh (pmm_reset k0 k1 s) = []" "\<not> g_fHighReleased (pmm_reset k0 k1 s)" "g_cFramesTotal (pmm_reset k0 k1 s) = 0"
  "g_paKernel0 (pmm_reset k0 k1 s) = k0 AND NOT 4095" "g_paKernel1 (pmm_reset k0 k1 s) = (k1 + 4095) AND NOT 4095"
  "g_paSoftMedia0 (pmm_reset k0 k1 s) = g_paSoftMedia0 s" "g_paSoftMedia1 (pmm_reset k0 k1 s) = g_paSoftMedia1 s"
  by (simp_all add: pmm_reset_def add_diff_eq add.commute)

lemma pmm_rep_hhdm:
  assumes "pmm_rep s P"
  shows "pmm_rep (s\<lparr>pg_fHhdm := True\<rparr>) P"
proof -
  obtain S where S: "pmm_inv s S" "free_pages S = P" using assms by (auto simp: pmm_rep_def)
  have "allowed (s\<lparr>pg_fHhdm := True\<rparr>) od pa" if "allowed s od pa" for od pa
  proof -
    have "range_ok_free (s\<lparr>pg_fHhdm := True\<rparr>) = range_ok_free s" by (intro ext) (simp add: range_ok_free_def)
    then show ?thesis using that by (simp add: allowed_def)
  qed
  then have "blocks_ok (s\<lparr>pg_fHhdm := True\<rparr>) S" using S(1) by (auto simp: pmm_inv_def blocks_ok_def)
  moreover have "order_head z od (s\<lparr>pg_fHhdm := True\<rparr>) = order_head z od s" for z od by (simp add: order_head_def)
  ultimately show ?thesis using S by (auto simp: pmm_rep_def pmm_inv_def lists_ok_def counts_ok_def)
qed

definition pmm_map_ok :: "pmm_pending list \<Rightarrow> bool" where
  "pmm_map_ok rs \<longleftrightarrow> (\<forall>r \<in> set rs. region_ok r) \<and> disjoint_regions rs \<and> length (concat (map high_part rs)) \<le> 64"

lemma high_parts_disjoint:
  assumes "\<forall>r \<in> set rs. region_ok r" and "disjoint_regions rs"
  shows "disjoint_regions (concat (map high_part rs))"
  using assms
proof (induction rs)
  case (Cons r rs)
  have a: "disjoint_regions (xs @ ys)" if "disjoint_regions xs" "disjoint_regions ys" "map_pages xs \<inter> map_pages ys = {}" for xs ys
    using that by (induction xs) auto
  have "high_part r = [] \<or> (\<exists>q. high_part r = [q])" unfolding high_part_def by metis
  then have "disjoint_regions (high_part r)" by auto
  moreover have "map_pages (high_part r) \<inter> map_pages (concat (map high_part rs)) = {}"
    using high_part_pages(1) [of r] high_map [of rs] Cons.prems by (auto simp: map_pages_def)
  ultimately show ?case using a Cons by simp
qed simp

lemma pmm_init_ok:
  assumes "pmm_map_ok rs"
  shows "\<exists>t. pmm_init rs k0 k1 s = Some t \<and> pmm_rep t {p \<in> map_pages rs. p < 2 ^ 20 \<and> usable t p}
    \<and> g_aHigh t = concat (map high_part rs) \<and> \<not> g_fHighReleased t
    \<and> g_paKernel0 t = k0 AND NOT 4095 \<and> g_paKernel1 t = (k1 + 4095) AND NOT 4095
    \<and> g_paSoftMedia0 t = g_paSoftMedia0 s \<and> g_paSoftMedia1 t = g_paSoftMedia1 s
    \<and> unat (g_cFramesTotal t) = card {p \<in> map_pages rs. p < 2 ^ 20 \<and> usable t p} + card (map_pages rs - {..<2 ^ 20})"
proof -
  let ?s = "pmm_reset k0 k1 s" and ?P = "{p \<in> map_pages rs. p < 2 ^ 20 \<and> usable (pmm_reset k0 k1 s) p}"
  obtain t where t: "init_regions rs ?s = Some t" "inits ?s {} ?P (concat (map high_part rs)) (card (map_pages rs - {..<2 ^ 20})) t"
    using init_regions_ok [OF pmm_reset_rep [of k0 k1 s], of rs] assms by (auto simp: pmm_map_ok_def pmm_reset_fields)
  have us: "usable t = usable ?s" using t(2) same_res_usable by (simp add: inits_def)
  have "map_pages rs \<subseteq> {..<2 ^ 40}"
    using assms by (auto simp: pmm_map_ok_def map_pages_def region_pages_def region_ok_def region_hi_def dest!: bspec)
  then have "card ?P + card (map_pages rs - {..<2 ^ 20}) \<le> card ({..<2 ^ 20} :: nat set) + card ({..<2 ^ 40} :: nat set)"
    by (intro add_mono card_mono) auto
  then have "unat (of_nat (card ?P + card (map_pages rs - {..<2 ^ 20})) :: u64) = card ?P + card (map_pages rs - {..<2 ^ 20})"
    by (simp add: unat_of_nat take_bit_nat_eq_self del: of_nat_add)
  then show ?thesis
    using t us unfolding inits_def by (simp add: pmm_init_def pmm_reset_fields same_res_def del: of_nat_add)
qed

lemma boot_states:
  assumes "pmm_map_ok rs" and i: "pmm_init rs k0 k1 s = Some t"
  shows "\<exists>u. pmm_release_high (t\<lparr>pg_fHhdm := True\<rparr>) = Some u \<and> pmm_rep t {p \<in> map_pages rs. p < 2 ^ 20 \<and> usable t p}
    \<and> pmm_rep u {p \<in> map_pages rs. usable t p} \<and> same_cfg (t\<lparr>pg_fHhdm := True, g_fHighReleased := True\<rparr>) u
    \<and> g_paKernel0 t = k0 AND NOT 4095 \<and> g_paKernel1 t = (k1 + 4095) AND NOT 4095
    \<and> g_paSoftMedia0 t = g_paSoftMedia0 s \<and> g_paSoftMedia1 t = g_paSoftMedia1 s"
proof -
  have r: "\<forall>r \<in> set rs. region_ok r" "disjoint_regions rs" using assms by (simp_all add: pmm_map_ok_def)
  have t: "pmm_rep t {p \<in> map_pages rs. p < 2 ^ 20 \<and> usable t p}" "g_aHigh t = concat (map high_part rs)" "\<not> g_fHighReleased t"
    "g_paKernel0 t = k0 AND NOT 4095" "g_paKernel1 t = (k1 + 4095) AND NOT 4095"
    "g_paSoftMedia0 t = g_paSoftMedia0 s" "g_paSoftMedia1 t = g_paSoftMedia1 s" using pmm_init_ok [OF assms(1), of k0 k1 s] i by auto
  let ?t = "t\<lparr>pg_fHhdm := True\<rparr>" and ?h = "concat (map high_part rs)"
  note rep = pmm_rep_hhdm [OF t(1)]
  have us: "usable ?t = usable t" by (intro ext) (simp add: usable_def)
  have hp: "map_pages ?h = map_pages rs - {..<2 ^ 20}" using high_map [OF r(1)] .
  have ok: "\<forall>q \<in> set ?h. region_ok q" using high_part_pages(2) r(1) by auto
  have dj: "{p \<in> map_pages rs. p < 2 ^ 20 \<and> usable t p} \<inter> map_pages ?h = {}" unfolding hp by auto
  obtain v where v: "release_loop ?h ?t = Some v" "same_cfg ?t v"
    "pmm_rep v ({p \<in> map_pages rs. p < 2 ^ 20 \<and> usable t p} \<union> {p \<in> map_pages ?h. usable t p})"
    using release_loop_ok [OF rep ok high_parts_disjoint [OF r] dj] unfolding us by auto
  have e: "{p \<in> map_pages rs. p < 2 ^ 20 \<and> usable t p} \<union> {p \<in> map_pages ?h. usable t p} = {p \<in> map_pages rs. usable t p}"
    unfolding hp by auto
  have "pmm_release_high ?t = Some (v\<lparr>g_fHighReleased := True\<rparr>)" using t(2,3) v(1) by (simp add: pmm_release_high_def)
  moreover have "same_cfg (t\<lparr>pg_fHhdm := True, g_fHighReleased := True\<rparr>) (v\<lparr>g_fHighReleased := True\<rparr>)" using v(2) by (simp add: same_cfg_def)
  ultimately show ?thesis using t(1,4-7) v(3) unfolding e by (intro exI [of _ "v\<lparr>g_fHighReleased := True\<rparr>"]) (simp del: bit_not_iff_eq)
qed

text \<open>
  The pages boot must leave free, from the arguments alone: the whole pages of the memory map from 1 MiB on that share no
  byte with the kernel image \<open>[k0, k1)\<close> nor with the media range \<open>[m0, m1)\<close> reserved before.
\<close>

definition frame_bytes :: "nat \<Rightarrow> nat set" where
  "frame_bytes p = {4096 * p..<4096 * p + 4096}"

definition boot_free :: "pmm_pending list \<Rightarrow> u64 \<Rightarrow> u64 \<Rightarrow> u64 \<Rightarrow> u64 \<Rightarrow> nat set" where
  "boot_free rs k0 k1 m0 m1 = {p \<in> map_pages rs. 256 \<le> p \<and> frame_bytes p \<inter> {unat k0..<unat k1} = {}
     \<and> frame_bytes p \<inter> {unat m0..<unat m1} = {}}"

lemma frame_meets: "frame_bytes p \<inter> {a..<b} = {} \<longleftrightarrow> \<not> (4096 * p < b \<and> a < 4096 * p + 4096 \<and> a < b)"
  by (auto simp: frame_bytes_def Int_atLeastLessThan max_def min_def)

text \<open>Rounding the kernel image to pages reserves the pages it touches and no other.\<close>

lemma kernel_pages:
  fixes k0 k1 :: u64
  assumes "k0 < k1" and "unat k1 + 4095 < 2 ^ 64"
  shows "4096 * p < unat ((k1 + 4095) AND NOT 4095) \<and> unat (k0 AND NOT 4095) < 4096 * p + 4096
    \<longleftrightarrow> frame_bytes p \<inter> {unat k0..<unat k1} \<noteq> {}"
proof -
  have e: "unat (k1 + 4095) = unat k1 + 4095" using assms(2) by (subst unat_add_small) simp_all
  have "p < (a + 4095) div 4096 \<longleftrightarrow> 4096 * p < a" for a :: nat by linarith
  then have "4096 * p < 4096 * ((unat k1 + 4095) div 4096) \<longleftrightarrow> 4096 * p < unat k1" by simp
  moreover have "a div 4096 < p + 1 \<longleftrightarrow> a < 4096 * p + 4096" for a :: nat by linarith
  then have "4096 * (unat k0 div 4096) < 4096 * p + 4096 \<longleftrightarrow> unat k0 < 4096 * p + 4096" by (metis distrib_left mult.right_neutral nat_mult_less_cancel1 zero_less_numeral)
  ultimately show ?thesis
    using assms(1) unfolding unat_page_floor e frame_meets by (simp add: minus_mod_eq_mult_div word_less_nat_alt)
qed

lemma boot_free_usable:
  assumes "k0 < k1" and "unat k1 + 4095 < 2 ^ 64" and "g_paKernel0 t = k0 AND NOT 4095" and "g_paKernel1 t = (k1 + 4095) AND NOT 4095"
  shows "{p \<in> map_pages rs. usable t p} = boot_free rs k0 k1 (g_paSoftMedia0 t) (g_paSoftMedia1 t)"
  using kernel_pages [OF assms(1,2)] unfolding usable_def boot_free_def assms(3,4) frame_meets [of _ "unat (g_paSoftMedia0 t)"]
  by (auto simp: word_less_nat_alt)

text \<open>
  C30: let the boot memory map have disjoint regions below \<open>2 ^ 52\<close>, at most 64 of them reaching above 4 GiB, and the kernel
  image be a non-empty range that does not end within a page of \<open>2 ^ 64\<close>.  Then initialisation returns and leaves free
  exactly the whole pages below 4 GiB that lie in a region, at or above 1 MiB, and share no byte with the kernel image given
  to it nor with the media range reserved before; the part above 4 GiB waits.  Once the direct map is ready the release
  returns, adds exactly such pages above 4 GiB, counts every free page in the right zone, and a second release changes nothing.
\<close>

theorem pmm_boot_exact:
  assumes "pmm_map_ok rs" and "k0 < k1" and "unat k1 + 4095 < 2 ^ 64"
  shows "\<exists>t u. pmm_init rs k0 k1 s = Some t
    \<and> pmm_rep t (boot_free rs k0 k1 (g_paSoftMedia0 s) (g_paSoftMedia1 s) \<inter> {..<2 ^ 20})
    \<and> pmm_release_high (t\<lparr>pg_fHhdm := True\<rparr>) = Some u
    \<and> pmm_rep u (boot_free rs k0 k1 (g_paSoftMedia0 s) (g_paSoftMedia1 s))
    \<and> unat (g_cFramesFree u) = card (boot_free rs k0 k1 (g_paSoftMedia0 s) (g_paSoftMedia1 s))
    \<and> unat (g_cFramesFreeLow u) = card (boot_free rs k0 k1 (g_paSoftMedia0 s) (g_paSoftMedia1 s) \<inter> {..<2 ^ 20})
    \<and> pmm_release_high u = Some u"
proof -
  obtain t where t: "pmm_init rs k0 k1 s = Some t" "g_paKernel0 t = k0 AND NOT 4095" "g_paKernel1 t = (k1 + 4095) AND NOT 4095"
    "g_paSoftMedia0 t = g_paSoftMedia0 s" "g_paSoftMedia1 t = g_paSoftMedia1 s"
    using pmm_init_ok [OF assms(1), of k0 k1 s] by blast
  let ?F = "boot_free rs k0 k1 (g_paSoftMedia0 s) (g_paSoftMedia1 s)"
  have F: "{p \<in> map_pages rs. usable t p} = ?F" using boot_free_usable [OF assms(2,3) t(2,3)] by (simp add: t(4,5))
  have Fl: "{p \<in> map_pages rs. p < 2 ^ 20 \<and> usable t p} = ?F \<inter> {..<2 ^ 20}" unfolding F [symmetric] by auto
  obtain u where u: "pmm_release_high (t\<lparr>pg_fHhdm := True\<rparr>) = Some u" "pmm_rep t (?F \<inter> {..<2 ^ 20})"
    "pmm_rep u ?F" "same_cfg (t\<lparr>pg_fHhdm := True, g_fHighReleased := True\<rparr>) u"
    using boot_states [OF assms(1) t(1)] unfolding F Fl by blast
  have "pmm_release_high u = Some u" using u(4) by (simp add: pmm_release_high_def same_cfg_def)
  then show ?thesis using t(1) u(1-3) frames_free [OF u(3)] frames_free_low [OF u(3)] by (intro exI conjI)
qed

definition wit_map :: "pmm_pending list" where
  "wit_map = [\<lparr>pp_paBase = 0x100000, pp_cbLen = 0x4000\<rparr>, \<lparr>pp_paBase = 0x100000000, pp_cbLen = 0x2000\<rparr>]"

lemma wit_map_ok: "pmm_map_ok wit_map"
  by (simp add: pmm_map_ok_def wit_map_def region_ok_def map_pages_def region_pages_def region_lo_def region_hi_def high_part_def)

lemma wit_map_pages: "map_pages wit_map = {256..<260} \<union> {1048576..<1048578}"
  by (simp add: wit_map_def region_pages_def region_lo_def region_hi_def)

definition wit_state :: pmm_state where
  "wit_state = \<lparr>pg_word = (\<lambda>_. 0), g_paFreeLow = 0, g_paFreeHigh = 0, g_aOrderLow = [], g_aOrderHigh = [], g_aOrderCount = [],
     g_cFramesFree = 0, g_cFramesFreeLow = 0, g_cFramesFreeHigh = 0, g_cFramesTotal = 0, g_paMaxSeen = 0, g_paKernel0 = 0, g_paKernel1 = 0,
     g_paSoftMedia0 = 0, g_paSoftMedia1 = 0, g_aHigh = [], g_fHighReleased = False, pg_fHhdm = False\<rparr>"

text \<open>The second page of the first region is the kernel's.\<close>

lemma wit_boot_free: "boot_free wit_map 0x101800 0x101900 0 0 = {256, 258, 259, 1048576, 1048577}"
  unfolding boot_free_def wit_map_pages frame_meets by auto

theorem pmm_boot_exact_witness:
  "pmm_map_ok wit_map \<and> (\<exists>t u. pmm_init wit_map 0x101800 0x101900 wit_state = Some t \<and> pmm_rep t {256, 258, 259}
     \<and> pmm_release_high (t\<lparr>pg_fHhdm := True\<rparr>) = Some u \<and> pmm_rep u {256, 258, 259, 1048576, 1048577})"
proof -
  have m: "g_paSoftMedia0 wit_state = 0" "g_paSoftMedia1 wit_state = 0" by (simp_all add: wit_state_def)
  have l: "{256, 258, 259, 1048576, 1048577 :: nat} \<inter> {..<2 ^ 20} = {256, 258, 259}" by auto
  have "(0x101800 :: u64) < 0x101900" "unat (0x101900 :: u64) + 4095 < 2 ^ 64" by simp_all
  from pmm_boot_exact [OF wit_map_ok this, of wit_state, unfolded m wit_boot_free l] show ?thesis using wit_map_ok by blast
qed

section \<open>Requests over time\<close>

text \<open>The clients of the allocator: \<open>own\<close> are the pages handed out; a client frees only such pages.\<close>

definition grant :: "u64 \<Rightarrow> u32 \<Rightarrow> nat set" where
  "grant pa c = (if pa = 0 then {} else run_pages pa c)"

inductive pmm_step :: "pmm_state \<times> nat set \<Rightarrow> pmm_state \<times> nat set \<Rightarrow> bool" where
  "pmm_alloc s = (pa, t) \<Longrightarrow> pmm_step (s, own) (t, own \<union> grant pa 1)"
| "pmm_alloc_high s = (pa, t) \<Longrightarrow> pmm_step (s, own) (t, own \<union> grant pa 1)"
| "pmm_alloc_low s = (pa, t) \<Longrightarrow> pmm_step (s, own) (t, own \<union> grant pa 1)"
| "pmm_alloc_pages c s = (pa, t) \<Longrightarrow> pmm_step (s, own) (t, own \<union> grant pa c)"
| "pmm_alloc_pages_low c s = (pa, t) \<Longrightarrow> pmm_step (s, own) (t, own \<union> grant pa c)"
| "4096 dvd unat pa \<Longrightarrow> page pa \<in> own \<Longrightarrow> pmm_step (s, own) (pmm_free pa s, own - {page pa})"
| "4096 dvd unat pa \<Longrightarrow> c \<noteq> 0 \<Longrightarrow> run_pages pa c \<subseteq> own \<Longrightarrow> pmm_step (s, own) (pmm_free_pages pa c s, own - run_pages pa c)"

text \<open>A state after boot with the kernel image \<open>[k0, k1)\<close> and the media range \<open>[m0, m1)\<close>.\<close>

definition booted_at :: "pmm_pending list \<Rightarrow> u64 \<Rightarrow> u64 \<Rightarrow> u64 \<Rightarrow> u64 \<Rightarrow> pmm_state \<times> nat set \<Rightarrow> bool" where
  "booted_at rs k0 k1 m0 m1 x \<longleftrightarrow> pmm_map_ok rs \<and> snd x = {} \<and> k0 < k1 \<and> unat k1 + 4095 < 2 ^ 64
     \<and> (\<exists>s t. g_paSoftMedia0 s = m0 \<and> g_paSoftMedia1 s = m1 \<and> pmm_init rs k0 k1 s = Some t
          \<and> pmm_release_high (t\<lparr>pg_fHhdm := True\<rparr>) = Some (fst x))"

definition booted :: "pmm_pending list \<Rightarrow> pmm_state \<times> nat set \<Rightarrow> bool" where
  "booted rs x \<longleftrightarrow> (\<exists>k0 k1 m0 m1. booted_at rs k0 k1 m0 m1 x)"

definition boot_pages :: "pmm_pending list \<Rightarrow> pmm_state \<Rightarrow> nat set" where
  "boot_pages rs s = {p \<in> map_pages rs. usable s p}"

definition pmm_client_inv :: "pmm_pending list \<Rightarrow> pmm_state \<times> nat set \<Rightarrow> bool" where
  "pmm_client_inv rs x \<longleftrightarrow> g_paKernel0 (fst x) < g_paKernel1 (fst x) \<and> pg_fHhdm (fst x) \<and> snd x \<subseteq> boot_pages rs (fst x)
     \<and> map_pages rs \<subseteq> {..<2 ^ 40} \<and> pmm_rep (fst x) (boot_pages rs (fst x) - snd x)"

lemma overlap_page:
  fixes x y a c :: nat
  assumes "4096 * a < y" and "x < 4096 * (a + c)" and "x < y" and "0 < c"
  shows "\<exists>p \<in> {a..<a + c}. 4096 * p < y \<and> x < 4096 * p + 4096"
proof (cases "a \<le> x div 4096")
  case True
  have "x div 4096 < a + c" using assms(2) by (simp add: less_mult_imp_div_less mult.commute)
  moreover have "4096 * (x div 4096) \<le> x" "x < 4096 * (x div 4096) + 4096" by simp_all
  ultimately show ?thesis using True assms(3) by (intro bexI [of _ "x div 4096"]) auto
next
  case False
  then have "x < 4096 * a" by (simp add: not_le div_less_iff_less_mult mult.commute)
  then show ?thesis using assms(1,4) by (intro bexI [of _ a]) auto
qed

lemma run_fit_usable:
  assumes u: "\<forall>p \<in> run_pages pa c. usable s p \<and> p < 2 ^ 40" and d: "4096 dvd unat pa" and c: "c \<noteq> 0"
    and k: "g_paKernel0 s < g_paKernel1 s" and h: "pg_fHhdm s"
  shows "run_fit s pa c"
proof -
  have n: "0 < unat c" using c by (simp add: unat_gt_0)
  have pg: "unat pa = 4096 * page pa" using d by simp
  have "page pa + unat c - 1 \<in> run_pages pa c" using n by (simp add: run_pages_def)
  then have "page pa + unat c - 1 < 2 ^ 40" using u by blast
  then have e: "unat pa + 4096 * unat c \<le> 2 ^ 52" using pg by simp
  have "page pa \<in> run_pages pa c" using n by (simp add: run_pages_def)
  then have "256 \<le> page pa" using u by (auto simp: usable_def)
  then have lo: "\<not> pa < 0x100000" "pa \<noteq> 0" using pg by (auto simp: word_less_nat_alt)
  have "unat c < 2 ^ 32" using unsigned_less [of c] by simp
  then have uc: "unat (ucast c * 4096 :: u64) = 4096 * unat c"
    by (simp add: unat_word_ariths unsigned_ucast_eq take_bit_nat_eq_self)
  have ue: "unat (pa + ucast c * 4096) = 4096 * (page pa + unat c)" using uc e pg by (subst unat_add_small) (simp_all add: distrib_left)
  have no: "\<not> range_overlaps pa (pa + ucast c * 4096) x y"
    if "x < y" "\<And>p. p \<in> run_pages pa c \<Longrightarrow> \<not> (4096 * p < unat y \<and> unat x < 4096 * p + 4096)" for x y
  proof
    assume "range_overlaps pa (pa + ucast c * 4096) x y"
    then have "4096 * page pa < unat y" "unat x < 4096 * (page pa + unat c)" using pg ue by (auto simp: range_overlaps_def word_less_nat_alt)
    from overlap_page [OF this _ n] that show False by (auto simp: run_pages_def word_less_nat_alt)
  qed
  have "ucast c * 4096 \<noteq> (0 :: u64)" using uc n by (auto dest!: arg_cong [of _ _ unat])
  then have "range_ok_free s pa (ucast c * 4096)"
    using lo no [OF k] no [of "g_paSoftMedia0 s" "g_paSoftMedia1 s"] u by (auto simp: range_ok_free_def usable_def)
  then show ?thesis using lo d e h by (simp add: run_fit_def)
qed


text \<open>Every request keeps its promise.\<close>

lemma alloc_promise_nil: "pmm_rep s P \<Longrightarrow> alloc_promise c s P 0 s"
  by (simp add: alloc_promise_def)

lemma pmm_alloc_promise: "pmm_rep s P \<Longrightarrow> pmm_alloc s = (pa, t) \<Longrightarrow> alloc_promise 1 s P pa t"
  using pop_free_spec [of s P pa t] one_promise alloc_promise_nil by (auto simp: pmm_alloc_def)

lemma pmm_alloc_low_promise: "pmm_rep s P \<Longrightarrow> pmm_alloc_low s = (pa, t) \<Longrightarrow> alloc_promise 1 s P pa t"
  using pop_low_spec [of s P pa t] one_promise alloc_promise_nil by (auto simp: pmm_alloc_low_eq)

lemma pmm_alloc_high_promise:
  assumes rep: "pmm_rep s P" and r: "pmm_alloc_high s = (pa, t)"
  shows "alloc_promise 1 s P pa t"
proof (cases "g_paFreeHigh s = 0")
  case True
  then show ?thesis using pmm_alloc_promise [OF rep] pmm_alloc_high_eq [OF rep] r by (simp add: pmm_alloc_def)
next
  case False
  then have p: "pop_order_from 0 False s = (pa, t)" using r pmm_alloc_high_eq [OF rep] by simp
  obtain S where S: "pmm_inv s S" "free_pages S = P" using rep by (auto simp: pmm_rep_def)
  show ?thesis
  proof (cases "pa = 0")
    case True
    then have "t = s" using pop_cases [OF S(1) _ p] blk_geomD(5) by (metis zero_le)
    then show ?thesis using True alloc_promise_nil [OF rep] by simp
  next
    case False
    then obtain T where "took 0 pa s S t T" using got_split(2) [OF S(1) p False order_refl] by (auto simp: split_push_same)
    then show ?thesis using took_page one_promise S(2) by blast
  qed
qed

lemma cfg_boot_pages: "same_cfg s t \<Longrightarrow> boot_pages rs t = boot_pages rs s"
  using same_but_usable [OF same_cfg_but] by (simp add: boot_pages_def)

lemma client_alloc:
  assumes inv: "pmm_client_inv rs (s, own)" and p: "alloc_promise c s (boot_pages rs s - own) pa t"
  shows "pmm_client_inv rs (t, own \<union> grant pa c)"
proof -
  have cfg: "same_cfg s t" using p by (simp add: alloc_promise_def)
  have "boot_pages rs s - (own \<union> run_pages pa c) = boot_pages rs s - own - run_pages pa c" by auto
  then show ?thesis
    using inv p cfg by (auto simp: pmm_client_inv_def alloc_promise_def grant_def cfg_boot_pages [OF cfg] same_cfg_def)
qed

lemma client_free:
  assumes inv: "pmm_client_inv rs (s, own)" and d: "4096 dvd unat pa" and c: "c \<noteq> 0" and sub: "run_pages pa c \<subseteq> own"
  shows "run_fit s pa c" and "pmm_client_inv rs (pmm_free_pages pa c s, own - run_pages pa c)"
proof -
  have i: "own \<subseteq> boot_pages rs s" "pmm_rep s (boot_pages rs s - own)" "map_pages rs \<subseteq> {..<2 ^ 40}"
    "g_paKernel0 s < g_paKernel1 s" "pg_fHhdm s" using inv by (simp_all add: pmm_client_inv_def)
  show f: "run_fit s pa c" by (rule run_fit_usable) (use sub i d c in \<open>auto simp: boot_pages_def\<close>)
  have "run_pages pa c \<inter> (boot_pages rs s - own) = {}" using sub by auto
  note r = pmm_free_pages_rep [OF i(2) f this c]
  have "boot_pages rs s - own \<union> run_pages pa c = boot_pages rs s - (own - run_pages pa c)" using sub i(1) by auto
  moreover have "g_paKernel0 (pmm_free_pages pa c s) = g_paKernel0 s" "g_paKernel1 (pmm_free_pages pa c s) = g_paKernel1 s"
    "pg_fHhdm (pmm_free_pages pa c s) = pg_fHhdm s" using r by (simp_all add: same_cfg_def)
  moreover have "own - run_pages pa c \<subseteq> boot_pages rs s" using i(1) by auto
  ultimately show "pmm_client_inv rs (pmm_free_pages pa c s, own - run_pages pa c)"
    using r i(3-5) cfg_boot_pages [of s "pmm_free_pages pa c s" rs] by (simp add: pmm_client_inv_def)
qed

lemma pmm_free_pages_1: "4096 dvd unat pa \<Longrightarrow> pmm_free_pages pa 1 s = pmm_free pa s"
proof -
  assume d: "4096 dvd unat pa"
  have o: "pages_to_order 1 = 0" by (simp add: pages_to_order_def eval_nat_numeral)
  have "order_aligned pa 0" "pa AND 4095 = 0" using d by (simp_all add: order_aligned_dvd page_aligned_dvd)
  then show ?thesis by (simp add: pmm_free_pages_def pmm_free_def o push_order_0) (simp add: push_free_def)
qed

lemma client_step:
  assumes "pmm_step x y" and "pmm_client_inv rs x"
  shows "pmm_client_inv rs y"
  using assms
proof (induction rule: pmm_step.induct)
  case (1 s pa t own)
  then show ?case by (intro client_alloc pmm_alloc_promise) (simp_all add: pmm_client_inv_def)
next
  case (2 s pa t own)
  then show ?case by (intro client_alloc pmm_alloc_high_promise) (simp_all add: pmm_client_inv_def)
next
  case (3 s pa t own)
  then show ?case by (intro client_alloc pmm_alloc_low_promise) (simp_all add: pmm_client_inv_def)
next
  case (4 c s pa t own)
  then show ?case by (intro client_alloc pmm_alloc_pages_promise(1)) (simp_all add: pmm_client_inv_def)
next
  case (5 c s pa t own)
  then show ?case by (intro client_alloc conjunct1 [OF pmm_alloc_pages_low_promise]) (simp_all add: pmm_client_inv_def)
next
  case (6 pa own s)
  have "run_pages pa 1 = {page pa}" by (simp add: run_pages_def)
  then show ?case using client_free(2) [of rs s own pa 1] 6 by (simp add: pmm_free_pages_1)
next
  case (7 pa c own s)
  then show ?case by (intro client_free(2))
qed

lemma client_boot:
  assumes "booted rs x"
  shows "pmm_client_inv rs x"
proof -
  obtain k0 k1 s t where b: "pmm_map_ok rs" "snd x = {}" "k0 < k1" "unat k1 + 4095 < 2 ^ 64" "pmm_init rs k0 k1 s = Some t"
    "pmm_release_high (t\<lparr>pg_fHhdm := True\<rparr>) = Some (fst x)" using assms by (auto simp: booted_def booted_at_def)
  have u: "pmm_rep (fst x) {p \<in> map_pages rs. usable t p}" "same_cfg (t\<lparr>pg_fHhdm := True, g_fHighReleased := True\<rparr>) (fst x)"
    "g_paKernel0 t = k0 AND NOT 4095" "g_paKernel1 t = (k1 + 4095) AND NOT 4095"
    using boot_states [OF b(1,5)] b(6) by auto
  have "unat (k0 AND NOT 4095) < unat ((k1 + 4095) AND NOT 4095)"
  proof -
    have "unat (k1 + 4095) = unat k1 + 4095" using b(4) by (subst unat_add_small) simp_all
    moreover have "unat k0 < unat k1" using b(3) by (simp add: word_less_nat_alt)
    ultimately show ?thesis unfolding unat_page_floor by (simp add: minus_mod_eq_mult_div)
  qed
  then have k: "g_paKernel0 (fst x) < g_paKernel1 (fst x)" using u(2-4) by (simp only: word_less_nat_alt) (simp add: same_cfg_def)
  have us: "usable (fst x) = usable t" using u(2) by (intro ext) (simp add: same_cfg_def usable_def)
  have "map_pages rs \<subseteq> {..<2 ^ 40}"
    using b(1) by (auto simp: pmm_map_ok_def map_pages_def region_pages_def region_ok_def region_hi_def dest!: bspec)
  then show ?thesis using u(1,2) k b(2) by (simp add: pmm_client_inv_def boot_pages_def us same_cfg_def)
qed

interpretation pmm_clients: inv_system pmm_step "pmm_client_inv rs" "booted rs" for rs
  by unfold_locales (fact client_step, fact client_boot)

text \<open>The pages the clients and the lists share are those boot had to leave free.\<close>

lemma same_cfg_step: "pmm_step x y \<Longrightarrow> pmm_client_inv rs x \<Longrightarrow> boot_pages rs (fst y) = boot_pages rs (fst x)"
proof (induction rule: pmm_step.induct)
  case (6 pa own s)
  have "run_pages pa 1 \<subseteq> own" using 6 by (simp add: run_pages_def)
  then have f: "run_fit s pa 1" "run_pages pa 1 \<inter> (boot_pages rs s - own) = {}" using client_free(1) [OF 6(3,1)] by auto
  have "same_cfg s (pmm_free_pages pa 1 s)" using pmm_free_pages_rep [OF _ f] 6(3) by (simp add: pmm_client_inv_def)
  then show ?case using 6(1) by (simp add: cfg_boot_pages pmm_free_pages_1)
next
  case (7 pa c own s)
  then have f: "run_fit s pa c" "run_pages pa c \<inter> (boot_pages rs s - own) = {}" using client_free(1) by auto
  have "same_cfg s (pmm_free_pages pa c s)" using pmm_free_pages_rep [OF _ f] 7(2,4) by (simp add: pmm_client_inv_def)
  then show ?case by (simp add: cfg_boot_pages)
qed (auto simp: pmm_client_inv_def alloc_promise_def intro!: cfg_boot_pages
    dest: pmm_alloc_promise pmm_alloc_high_promise pmm_alloc_low_promise pmm_alloc_pages_promise(1) conjunct1 [OF pmm_alloc_pages_low_promise])

lemma boot_at_free:
  assumes "booted_at rs k0 k1 m0 m1 x"
  shows "boot_pages rs (fst x) = boot_free rs k0 k1 m0 m1"
proof -
  obtain s t where b: "pmm_map_ok rs" "k0 < k1" "unat k1 + 4095 < 2 ^ 64" "pmm_init rs k0 k1 s = Some t"
    "g_paSoftMedia0 s = m0" "g_paSoftMedia1 s = m1" "pmm_release_high (t\<lparr>pg_fHhdm := True\<rparr>) = Some (fst x)"
    using assms by (auto simp: booted_at_def)
  have u: "same_cfg (t\<lparr>pg_fHhdm := True, g_fHighReleased := True\<rparr>) (fst x)" "g_paKernel0 t = k0 AND NOT 4095"
    "g_paKernel1 t = (k1 + 4095) AND NOT 4095" "g_paSoftMedia0 t = m0" "g_paSoftMedia1 t = m1"
    using boot_states [OF b(1,4)] b(5-7) by auto
  have "usable (fst x) = usable t" using u(1) by (intro ext) (simp add: same_cfg_def usable_def)
  then show ?thesis using boot_free_usable [OF b(2,3) u(2,3)] by (simp add: boot_pages_def u(4,5))
qed

interpretation pmm_boots: inv_system pmm_step "\<lambda>x. pmm_client_inv rs x \<and> boot_pages rs (fst x) = boot_free rs k0 k1 m0 m1"
  "booted_at rs k0 k1 m0 m1" for rs k0 k1 m0 m1
proof
  fix x y
  assume "pmm_step x y" and "pmm_client_inv rs x \<and> boot_pages rs (fst x) = boot_free rs k0 k1 m0 m1"
  then show "pmm_client_inv rs y \<and> boot_pages rs (fst y) = boot_free rs k0 k1 m0 m1" using client_step same_cfg_step by metis
next
  fix x
  assume b: "booted_at rs k0 k1 m0 m1 x"
  then have "booted rs x" unfolding booted_def by blast
  then show "pmm_client_inv rs x \<and> boot_pages rs (fst x) = boot_free rs k0 k1 m0 m1" using client_boot boot_at_free [OF b] by blast
qed

definition wit_pmm_boot :: pmm_state where
  "wit_pmm_boot = the (pmm_release_high ((the (pmm_init wit_map 0x200000 0x300000 wit_state))\<lparr>pg_fHhdm := True\<rparr>))"

lemma wit_pmm_boot_facts:
  "booted_at wit_map 0x200000 0x300000 0 0 (wit_pmm_boot, {})" "booted wit_map (wit_pmm_boot, {})" "boot_pages wit_map wit_pmm_boot = {256..<260} \<union> {1048576..<1048578}"
proof -
  obtain t where t: "pmm_init wit_map 0x200000 0x300000 wit_state = Some t" "g_paSoftMedia0 t = 0" "g_paSoftMedia1 t = 0"
    using pmm_init_ok [OF wit_map_ok, of "0x200000" "0x300000" wit_state] by (auto simp: wit_state_def)
  obtain u where u: "pmm_release_high (t\<lparr>pg_fHhdm := True\<rparr>) = Some u" "same_cfg (t\<lparr>pg_fHhdm := True, g_fHighReleased := True\<rparr>) u"
    "g_paKernel0 t = 0x200000 AND NOT 4095" "g_paKernel1 t = (0x300000 + 4095) AND NOT 4095"
    using boot_states [OF wit_map_ok t(1)] by blast
  have e: "wit_pmm_boot = u" by (simp add: wit_pmm_boot_def t(1) u(1))
  have "booted_at wit_map 0x200000 0x300000 0 0 (wit_pmm_boot, {})"
    unfolding booted_at_def using wit_map_ok t(1) u(1) e
    by (intro conjI exI [of _ wit_state] exI [of _ t]) (simp_all, simp_all add: wit_state_def)
  then show "booted_at wit_map 0x200000 0x300000 0 0 (wit_pmm_boot, {})" "booted wit_map (wit_pmm_boot, {})" by (auto simp: booted_def)
  have "g_paKernel0 wit_pmm_boot = 0x200000" "g_paKernel1 wit_pmm_boot = 0x300000" "g_paSoftMedia0 wit_pmm_boot = 0" "g_paSoftMedia1 wit_pmm_boot = 0"
    using u(2-4) t(2,3) by (simp_all add: e same_cfg_def)
  then have "usable wit_pmm_boot p" if "p \<in> {256..<260} \<union> {1048576..<1048578}" for p using that by (auto simp: usable_def)
  then show "boot_pages wit_map wit_pmm_boot = {256..<260} \<union> {1048576..<1048578}" by (auto simp: boot_pages_def wit_map_pages)
qed

lemma wit_pmm_boot_reach: "reach (booted wit_map) pmm_step (wit_pmm_boot, {})"
  by (rule reach_init) (rule wit_pmm_boot_facts(2))

lemma wit_pmm_boot_rep: "pmm_rep wit_pmm_boot ({256..<260} \<union> {1048576..<1048578})"
  using pmm_clients.reach_holds [OF wit_pmm_boot_reach] by (simp add: pmm_client_inv_def wit_pmm_boot_facts(3))

section \<open>Single requests\<close>

text \<open>
  A page request is answered from the low zone as long as a page below 4 GiB is free, from the high zone after that,
  and with 0 only when nothing is free; the low-zone request never leaves the low zone; the high-zone request takes
  the first listed single page above 4 GiB when there is one.  The page leaves the free pages and nothing else does.
\<close>

lemma pmm_alloc_zones:
  assumes "pmm_rep s P"
  shows "(case pmm_alloc s of (pa, t) \<Rightarrow>
      if P = {} then pa = 0 \<and> t = s
      else pa \<noteq> 0 \<and> 4096 dvd unat pa \<and> page pa \<in> P \<and> pmm_rep t (P - {page pa}) \<and> (P \<inter> {..<2 ^ 20} \<noteq> {} \<longrightarrow> page pa < 2 ^ 20))
    \<and> (case pmm_alloc_low s of (pa, t) \<Rightarrow>
      if P \<inter> {..<2 ^ 20} = {} then pa = 0 \<and> t = s
      else pa \<noteq> 0 \<and> 4096 dvd unat pa \<and> page pa \<in> P \<inter> {..<2 ^ 20} \<and> pmm_rep t (P - {page pa}))
    \<and> (case pmm_alloc_high s of (pa, t) \<Rightarrow>
      if g_paFreeHigh s = 0 then (pa, t) = pmm_alloc s
      else pa = g_paFreeHigh s \<and> page pa \<in> P - {..<2 ^ 20} \<and> pmm_rep t (P - {page pa}))"
proof -
  have al: "4096 dvd unat pa \<and> pa \<noteq> 0" if "page_taken pa s P t" for pa t
    using that blk_geomD(3,5) by (auto simp: page_taken_def page_fit_def)
  have lo: "page pa < 2 ^ 20" if "page_taken pa s P t" "pa < PMM_LOW_MAX" for pa t
    using that blk_zone(1) [of 0 pa] by (auto simp: page_taken_def page_fit_def)
  obtain p1 t1 p2 t2 p3 t3 where r: "pmm_alloc s = (p1, t1)" "pmm_alloc_low s = (p2, t2)" "pmm_alloc_high s = (p3, t3)"
    by (metis surj_pair)
  have "if P = {} then p1 = 0 \<and> t1 = s
      else p1 \<noteq> 0 \<and> 4096 dvd unat p1 \<and> page p1 \<in> P \<and> pmm_rep t1 (P - {page p1}) \<and> (P \<inter> {..<2 ^ 20} \<noteq> {} \<longrightarrow> page p1 < 2 ^ 20)"
    using pop_free_spec [OF assms, of p1 t1] r(1) al [of p1 t1] lo [of p1 t1] by (auto simp: pmm_alloc_def page_taken_def)
  moreover have "if P \<inter> {..<2 ^ 20} = {} then p2 = 0 \<and> t2 = s
      else p2 \<noteq> 0 \<and> 4096 dvd unat p2 \<and> page p2 \<in> P \<inter> {..<2 ^ 20} \<and> pmm_rep t2 (P - {page p2})"
    using pop_low_spec [OF assms, of p2 t2] r(2) al [of p2 t2] pmm_alloc_low_eq [OF assms] by (auto simp: page_taken_def)
  moreover have "if g_paFreeHigh s = 0 then (p3, t3) = pmm_alloc s
      else p3 = g_paFreeHigh s \<and> page p3 \<in> P - {..<2 ^ 20} \<and> pmm_rep t3 (P - {page p3})"
  proof (cases "g_paFreeHigh s = 0")
    case True
    then show ?thesis using r(3) pmm_alloc_high_eq [OF assms] by (simp add: pmm_alloc_def)
  next
    case False
    then have p: "pop_order_from 0 False s = (p3, t3)" using r(3) pmm_alloc_high_eq [OF assms] by simp
    obtain S where S: "pmm_inv s S" "free_pages S = P" using assms by (auto simp: pmm_rep_def)
    have hd: "order_head False 0 s = g_paFreeHigh s" by (simp add: order_head_def)
    obtain xs where xs: "chain (pg_word s) (g_paFreeHigh s) xs" "set xs = zone_blocks S False 0"
      using S unfolding pmm_inv_def lists_ok_def hd [symmetric] by blast
    then have "zone_blocks S False 0 \<noteq> {}" using False by (cases xs) auto
    then have g: "p3 \<noteq> 0" "\<not> p3 < PMM_LOW_MAX" using pop_cases [OF S(1) _ p] blk_geomD(5) by (metis zero_le)+
    then obtain T where T: "took 0 p3 s S t3 T" using got_split(2) [OF S(1) p g(1) order_refl] by (auto simp: split_push_same)
    have "p3 = g_paFreeHigh s" using p g(1) hd by (auto simp: pop_order_from_def Let_def split: if_splits option.splits)
    moreover have "page p3 \<notin> {..<2 ^ 20}" using T blk_zone(2) [of 0 p3] g(2) by (auto simp: took_def)
    ultimately show ?thesis using False took_page [OF T] S(2) by (auto simp: page_taken_def)
  qed
  ultimately show ?thesis by (simp add: r)
qed

text \<open>
  C29: after boot, over every sequence of page, run, low-zone and high-zone requests and of frees in which clients free only
  pages that are handed out, each page boot had to leave free is either free or handed out and never both: the lists hold
  exactly the pages not handed out and the free counter is their number.  A request for one page returns 0 only when every
  such page is handed out, one from the low zone only when every such page below 4 GiB is, and a request for any number of
  pages only ever returns pages that are not handed out.
\<close>

theorem pmm_pages_conserved:
  assumes "reach (booted_at rs k0 k1 m0 m1) pmm_step (s, own)"
  shows "own \<subseteq> boot_free rs k0 k1 m0 m1 \<and> pmm_rep s (boot_free rs k0 k1 m0 m1 - own)
    \<and> unat (g_cFramesFree s) + card own = card (boot_free rs k0 k1 m0 m1)
    \<and> (fst (pmm_alloc s) = 0 \<longleftrightarrow> own = boot_free rs k0 k1 m0 m1)
    \<and> (fst (pmm_alloc_high s) = 0 \<longleftrightarrow> own = boot_free rs k0 k1 m0 m1)
    \<and> (fst (pmm_alloc_low s) = 0 \<longleftrightarrow> boot_free rs k0 k1 m0 m1 \<inter> {..<2 ^ 20} \<subseteq> own)
    \<and> (\<forall>(pa, c) \<in> {(fst (pmm_alloc s), 1), (fst (pmm_alloc_high s), 1), (fst (pmm_alloc_low s), 1)}
          \<union> {(fst (pmm_alloc_pages n s), n) |n. True} \<union> {(fst (pmm_alloc_pages_low n s), n) |n. True}.
         grant pa c \<subseteq> boot_free rs k0 k1 m0 m1 - own)"
proof -
  let ?F = "boot_free rs k0 k1 m0 m1"
  have i: "own \<subseteq> ?F" "pmm_rep s (?F - own)"
    using pmm_boots.reach_holds [OF assms] by (auto simp: pmm_client_inv_def)
  have fin: "finite ?F" by (simp add: boot_free_def)
  then have "card (?F - own) + card own = card ?F"
    using i(1) card_mono [OF fin i(1)] finite_subset [OF i(1) fin] by (simp add: card_Diff_subset)
  then have n: "unat (g_cFramesFree s) + card own = card ?F" using frames_free [OF i(2)] by simp
  note z = pmm_alloc_zones [OF i(2)]
  have z1: "fst (pmm_alloc s) = 0 \<longleftrightarrow> own = ?F" using z i(1) by (auto simp: case_prod_beta split: if_splits)
  have z2: "fst (pmm_alloc_low s) = 0 \<longleftrightarrow> ?F \<inter> {..<2 ^ 20} \<subseteq> own" using z by (auto simp: case_prod_beta split: if_splits)
  have z3: "fst (pmm_alloc_high s) = 0 \<longleftrightarrow> own = ?F"
  proof (cases "g_paFreeHigh s = 0")
    case True
    then have "pmm_alloc_high s = pmm_alloc s" using z by (auto simp: case_prod_beta)
    then show ?thesis using z1 by simp
  next
    case False
    then have "fst (pmm_alloc_high s) = g_paFreeHigh s" "page (fst (pmm_alloc_high s)) \<in> ?F - own" using z by (auto simp: case_prod_beta)
    then show ?thesis using False by auto
  qed
  have g: "grant (fst r) c \<subseteq> ?F - own" if "alloc_promise c s (?F - own) (fst r) (snd r)" for c r
    using that by (auto simp: alloc_promise_def grant_def)
  note g1 = g [OF pmm_alloc_promise [OF i(2)]] g [OF pmm_alloc_high_promise [OF i(2)]] g [OF pmm_alloc_low_promise [OF i(2)]]
    g [OF pmm_alloc_pages_promise(1) [OF i(2)]] g [OF conjunct1 [OF pmm_alloc_pages_low_promise [OF i(2)]]]
  note g2 = g1 [OF prod.collapse [symmetric]]
  show ?thesis by (intro conjI i n z1 z2 z3) (use g2 in blast)
qed

lemma wit_step_reach:
  "reach (booted_at wit_map 0x200000 0x300000 0 0) pmm_step (snd (pmm_alloc wit_pmm_boot), {} \<union> grant (fst (pmm_alloc wit_pmm_boot)) 1)"
  by (rule reach_step [OF reach_init [of "booted_at wit_map 0x200000 0x300000 0 0"]], rule wit_pmm_boot_facts(1), rule pmm_step.intros(1)) simp

lemma wit_boot_all: "boot_free wit_map 0x200000 0x300000 0 0 = {256..<260} \<union> {1048576..<1048578}"
  using boot_at_free [OF wit_pmm_boot_facts(1)] by (simp add: wit_pmm_boot_facts(3))

theorem pmm_pages_conserved_witness:
  "grant (fst (pmm_alloc wit_pmm_boot)) 1 \<subseteq> {256..<260} \<union> {1048576..<1048578}
   \<and> unat (g_cFramesFree wit_pmm_boot) = 6 \<and> fst (pmm_alloc wit_pmm_boot) \<noteq> 0"
proof -
  let ?F = "{256..<260} \<union> {1048576..<1048578 :: nat}"
  have c: "card ?F = 6" by (subst card_Un_disjoint) auto
  have e: "{} \<noteq> ?F" by auto
  note w = pmm_pages_conserved [OF reach_init [of "booted_at wit_map 0x200000 0x300000 0 0", OF wit_pmm_boot_facts(1)], unfolded wit_boot_all]
  have "unat (g_cFramesFree wit_pmm_boot) = 6" using w unfolding c by (elim conjE) simp
  moreover have "fst (pmm_alloc wit_pmm_boot) \<noteq> 0" using w e by (elim conjE) metis
  moreover have "grant (fst (pmm_alloc wit_pmm_boot)) 1 \<subseteq> ?F"
    using conjunct1 [OF pmm_pages_conserved [OF wit_step_reach, unfolded wit_boot_all]] by simp
  ultimately show ?thesis by simp
qed


text \<open>
  C31: a request for \<open>c\<close> adjacent pages is all or nothing: it returns 0 with the free pages unchanged, or the page-aligned base
  of \<open>c\<close> pages that were all free and are no longer.  With at most 256 free pages and \<open>c \<le> 256\<close> it fails only if no \<open>c\<close>
  adjacent free pages exist.
\<close>

theorem pmm_alloc_pages_exact:
  assumes "pmm_rep s P" and "pmm_alloc_pages c s = (pa, t)"
  shows "(if pa = 0 then pmm_rep t P else 4096 dvd unat pa \<and> run_pages pa c \<subseteq> P \<and> pmm_rep t (P - run_pages pa c))
    \<and> (pa = 0 \<and> c \<noteq> 0 \<and> unat c \<le> 256 \<and> card P \<le> 256 \<longrightarrow> \<not> (\<exists>q. {q..<q + unat c} \<subseteq> P))"
  using pmm_alloc_pages_promise [OF assms] by (fastforce simp: alloc_promise_def)

theorem pmm_alloc_pages_exact_witness:
  "fst (pmm_alloc_pages 3 wit_pmm_boot) \<noteq> 0 \<and> run_pages (fst (pmm_alloc_pages 3 wit_pmm_boot)) 3 \<subseteq> {256..<260} \<union> {1048576..<1048578}"
proof -
  obtain pa t where r: "pmm_alloc_pages 3 wit_pmm_boot = (pa, t)" by fastforce
  have c: "card ({256..<260} \<union> {1048576..<1048578 :: nat}) = 6" by (subst card_Un_disjoint) auto
  have "\<exists>q. {q..<q + unat (3 :: u32)} \<subseteq> {256..<260} \<union> {1048576..<1048578 :: nat}" by (rule exI [of _ 256]) auto
  then have "pa \<noteq> 0" using pmm_alloc_pages_exact [OF wit_pmm_boot_rep r] c by auto
  then show ?thesis using pmm_alloc_pages_exact [OF wit_pmm_boot_rep r] r by simp
qed

text \<open>
  A request for \<open>c\<close> adjacent low pages is all or nothing in the same sense, and the pages it returns all lie below 4 GiB.
\<close>

lemma pmm_alloc_pages_low_bound:
  assumes "pmm_rep s P" and "pmm_alloc_pages_low c s = (pa, t)"
  shows "if pa = 0 then pmm_rep t P
    else 4096 dvd unat pa \<and> run_pages pa c \<subseteq> P \<inter> {..<2 ^ 20} \<and> unat pa + 4096 * unat c \<le> 2 ^ 32 \<and> pmm_rep t (P - run_pages pa c)"
proof (cases "pa = 0")
  case True
  then show ?thesis using pmm_alloc_pages_low_promise [OF assms] by (simp add: alloc_promise_def)
next
  case False
  then have p: "4096 dvd unat pa" "run_pages pa c \<subseteq> P" "run_pages pa c \<subseteq> {..<2 ^ 20}" "pmm_rep t (P - run_pages pa c)"
    using pmm_alloc_pages_low_promise [OF assms] by (simp_all add: alloc_promise_def)
  have "c \<noteq> 0" using assms(2) False by (auto simp: pmm_alloc_pages_low_def)
  then have "page pa + unat c \<le> 2 ^ 20" using p(3) by (intro interval_below) (simp_all add: run_pages_def unat_gt_0)
  then show ?thesis using False p by auto
qed

text \<open>
  Although the interface accepts up to 512 pages, a request for 257 to 511 pages fails whatever is free, below or
  above 4 GiB: the scan holds at most 256 pages.
\<close>

lemma pmm_alloc_pages_257_fails:
  assumes "pmm_rep s P" and "256 < c" and "c < 512"
  shows "fst (pmm_alloc_pages c s) = 0 \<and> fst (pmm_alloc_pages_low c s) = 0"
proof -
  have c: "c \<noteq> 0" "c \<noteq> 1" "\<not> 512 < c" "2 \<le> c" "c \<le> 512" "256 < unat c" "unat c < 512"
    using assms(2,3) by (auto simp: word_less_nat_alt word_le_nat_alt)
  have n: "2 ^ pages_to_order c \<noteq> c"
  proof
    assume "2 ^ pages_to_order c = c"
    then have "unat c = 2 ^ pages_to_order c" "pages_to_order c \<in> {0, 1, 2, 3, 4, 5, 6, 7, 8, 9}"
      using pages_to_order_exact(2) pages_to_order_le [of c] by auto
    then show False using c(6,7) by auto
  qed
  obtain b H u where h: "hold_loop pop_free g_cFramesFree (unat c) 256 [] s = (b, H, u)" by (metis prod_cases3)
  obtain b' H' u' where h': "hold_loop (pop_order_low_only 0) g_cFramesFreeLow (unat c) 256 [] s = (b', H', u')" by (metis prod_cases3)
  have "b = 0" "b' = 0"
    using any_page.scan_promise(4) [OF assms(1) h c(4,5,6)] low_page.scan_promise(4) [OF assms(1) h' c(4,5,6)] by simp_all
  then show ?thesis using c(1-3) n h h' by (simp add: pmm_alloc_pages_def pmm_alloc_pages_low_def Let_def)
qed

end
