(* ===== verification/Kheap.thy ===== *)
theory Kheap
  imports Pmm_Props
begin

text \<open>
  The kernel heap, \<^verbatim>\<open>kernel/mm/kheap.c\<close>: blocks with a 24-byte header on one free list, best fit, grown by
  single pages of the physical memory manager.  \<open>kh_hdr\<close> is the header at an address and \<open>kh_byte\<close> the byte at
  an address outside the headers; 0 is NULL.  The lifetime and peak tallies \<^verbatim>\<open>g_cSoft*\<close>, \<^verbatim>\<open>g_cbSoftPeak*\<close>
  are left out.
\<close>

section \<open>Data\<close>

abbreviation (input) GJ_HHDM_BASE :: u64 where "GJ_HHDM_BASE \<equiv> 0xffff800000000000"
abbreviation (input) GJ_KHEAP_MAGIC_LIVE :: u32 where "GJ_KHEAP_MAGIC_LIVE \<equiv> 0x4B4C4956"
abbreviation (input) GJ_KHEAP_MAGIC_FREE :: u32 where "GJ_KHEAP_MAGIC_FREE \<equiv> 0x4B465245"

text \<open>\<^verbatim>\<open>sizeof(struct kheap_block)\<close>\<close>

abbreviation (input) cbHdr :: u64 where "cbHdr \<equiv> 24"
abbreviation (input) GJ_KHEAP_PAGE_PAYLOAD :: u64 where "GJ_KHEAP_PAGE_PAYLOAD \<equiv> GJ_PAGE_SIZE - cbHdr"
abbreviation (input) GJ_KHEAP_SPLIT_MIN :: u64 where "GJ_KHEAP_SPLIT_MIN \<equiv> cbHdr + 16"

record kheap_block =
  kb_cbSize :: u64
  kb_u32Magic :: u32
  kb_u16SoftAlign :: u16
  kb_u16SoftUnsplit :: u16
  kb_pNext :: u64

record kheap =
  kh_hdr :: "u64 \<Rightarrow> kheap_block"
  kh_byte :: "u64 \<Rightarrow> u8"
  kh_pmm :: pmm_state
  g_pFree :: u64
  g_cbUsed :: u64
  g_cbFree :: u64
  g_cFreeBlocks :: u64
  g_cbSoftAlign :: u64
  g_cbSoftUnsplit :: u64
  g_cAlloc :: u64
  g_cFree :: u64
  g_cGrow :: u64
  g_cSplit :: u64
  g_cFail :: u64
  g_cDoubleFree :: u64
  g_fInit :: bool

record kheap_stats =
  ks_cbUsed :: u64
  ks_cbFree :: u64
  ks_cFreeBlocks :: u64
  ks_cbSoftFrag :: u64
  ks_cbSoftAlign :: u64
  ks_cbSoftUnsplit :: u64
  ks_cAlloc :: u64
  ks_cFree :: u64
  ks_cGrow :: u64
  ks_cSplit :: u64
  ks_cFail :: u64
  ks_cDoubleFree :: u64

section \<open>Operations\<close>

definition upd_hdr :: "u64 \<Rightarrow> (kheap_block \<Rightarrow> kheap_block) \<Rightarrow> kheap \<Rightarrow> kheap" where
  "upd_hdr a f h = h\<lparr>kh_hdr := (kh_hdr h)(a := f (kh_hdr h a))\<rparr>"

text \<open>\<^verbatim>\<open>memset(p, 0, cb)\<close>\<close>

definition zero_bytes :: "u64 \<Rightarrow> u64 \<Rightarrow> kheap \<Rightarrow> kheap" where
  "zero_bytes p cb h = h\<lparr>kh_byte := (\<lambda>x. if x - p < cb then 0 else kh_byte h x)\<rparr>"

definition hhdm_to_virt :: "pmm_state \<Rightarrow> u64 \<Rightarrow> u64" where
  "hhdm_to_virt s pa = (if pg_fHhdm s then GJ_HHDM_BASE + pa else pa)"

definition kheap_init :: "kheap \<Rightarrow> kheap" where
  "kheap_init h = h\<lparr>g_pFree := 0, g_cbUsed := 0, g_cbFree := 0, g_cFreeBlocks := 0, g_cbSoftAlign := 0, g_cbSoftUnsplit := 0,
     g_cAlloc := 0, g_cFree := 0, g_cGrow := 0, g_cSplit := 0, g_cFail := 0, g_cDoubleFree := 0, g_fInit := True\<rparr>"

definition align_up :: "u64 \<Rightarrow> u64" where
  "align_up cb = (cb + 15) AND NOT 15"

definition block_from_payload :: "u64 \<Rightarrow> u64" where
  "block_from_payload p = p - cbHdr"

definition payload_from_block :: "u64 \<Rightarrow> u64" where
  "payload_from_block pBlk = pBlk + cbHdr"

definition grow :: "kheap \<Rightarrow> gj_status \<times> kheap" where
  "grow h =
     (case pmm_alloc (kh_pmm h) of
        (pa, s) \<Rightarrow>
          (let h = h\<lparr>kh_pmm := s\<rparr>
           in if pa = 0 then (GJ_ERR_NOMEM, h)
              else
                (let pBlk = hhdm_to_virt s pa;
                     h = upd_hdr pBlk (\<lambda>_. \<lparr>kb_cbSize = GJ_PAGE_SIZE - cbHdr, kb_u32Magic = GJ_KHEAP_MAGIC_FREE, kb_u16SoftAlign = 0,
                           kb_u16SoftUnsplit = 0, kb_pNext = g_pFree h\<rparr>) h;
                     h = h\<lparr>g_pFree := pBlk\<rparr>;
                     h = h\<lparr>g_cbFree := g_cbFree h + kb_cbSize (kh_hdr h pBlk), g_cFreeBlocks := g_cFreeBlocks h + 1, g_cGrow := g_cGrow h + 1\<rparr>
                 in (GJ_OK, h))))"

text \<open>The inner loop of \<^verbatim>\<open>kheap_alloc\<close>: the smallest free block that is large enough, and the block before it.\<close>

partial_function (option) best_fit :: "kheap \<Rightarrow> u64 \<Rightarrow> u64 \<Rightarrow> u64 \<Rightarrow> u64 \<Rightarrow> u64 \<Rightarrow> (u64 \<times> u64) option" where
  "best_fit h cbNeed pPrev pCur pBest pBestPrev =
     (if pCur = 0 then Some (pBest, pBestPrev)
      else
        (let b = kh_hdr h pCur
         in if kb_u32Magic b = GJ_KHEAP_MAGIC_FREE \<and> cbNeed \<le> kb_cbSize b
               \<and> (pBest = 0 \<or> kb_cbSize b < kb_cbSize (kh_hdr h pBest))
            then best_fit h cbNeed pCur (kb_pNext b) pCur pPrev
            else best_fit h cbNeed pCur (kb_pNext b) pBest pBestPrev))"

text \<open>The list continues at \<open>pNext\<close> instead of \<open>pBest\<close>.\<close>

definition relink :: "u64 \<Rightarrow> u64 \<Rightarrow> kheap \<Rightarrow> kheap" where
  "relink pBestPrev pNext h =
     (if pBestPrev \<noteq> 0 then upd_hdr pBestPrev (\<lambda>b. b\<lparr>kb_pNext := pNext\<rparr>) h else h\<lparr>g_pFree := pNext\<rparr>)"

definition split_block :: "u64 \<Rightarrow> u64 \<Rightarrow> u64 \<Rightarrow> kheap \<Rightarrow> kheap" where
  "split_block cbNeed pBest pBestPrev h =
     (let cbLeft = kb_cbSize (kh_hdr h pBest) - cbNeed - cbHdr;
          pSplit = payload_from_block pBest + cbNeed;
          h = upd_hdr pSplit (\<lambda>_. \<lparr>kb_cbSize = cbLeft, kb_u32Magic = GJ_KHEAP_MAGIC_FREE, kb_u16SoftAlign = 0, kb_u16SoftUnsplit = 0,
                kb_pNext = kb_pNext (kh_hdr h pBest)\<rparr>) h;
          h = h\<lparr>g_cbFree := sub_or_zero (g_cbFree h) (cbNeed + cbHdr)\<rparr>;
          h = upd_hdr pBest (\<lambda>b. b\<lparr>kb_cbSize := cbNeed, kb_pNext := pSplit\<rparr>) h;
          h = relink pBestPrev pSplit h
      in h\<lparr>g_cSplit := g_cSplit h + 1\<rparr>)"

definition take_whole :: "u64 \<Rightarrow> u64 \<Rightarrow> kheap \<Rightarrow> kheap" where
  "take_whole pBest pBestPrev h =
     (let h = h\<lparr>g_cbFree := sub_or_zero (g_cbFree h) (kb_cbSize (kh_hdr h pBest)), g_cFreeBlocks := sub_or_zero (g_cFreeBlocks h) 1\<rparr>
      in relink pBestPrev (kb_pNext (kh_hdr h pBest)) h)"

text \<open>The block becomes live and its payload is zeroed.\<close>

definition finish_alloc :: "u64 \<Rightarrow> u64 \<Rightarrow> u64 \<Rightarrow> kheap \<Rightarrow> u64 \<times> kheap" where
  "finish_alloc pBest cbAlignWaste cbUnsplit h =
     (let h = upd_hdr pBest (\<lambda>b. b\<lparr>kb_u32Magic := GJ_KHEAP_MAGIC_LIVE, kb_pNext := 0, kb_u16SoftAlign := ucast cbAlignWaste,
                kb_u16SoftUnsplit := ucast cbUnsplit\<rparr>) h;
          h = h\<lparr>g_cbSoftAlign := g_cbSoftAlign h + cbAlignWaste, g_cbSoftUnsplit := g_cbSoftUnsplit h + cbUnsplit\<rparr>;
          h = h\<lparr>g_cbUsed := g_cbUsed h + kb_cbSize (kh_hdr h pBest), g_cAlloc := g_cAlloc h + 1\<rparr>;
          pOut = payload_from_block pBest
      in (pOut, zero_bytes pOut (kb_cbSize (kh_hdr h pBest)) h))"

definition alloc_best :: "u64 \<Rightarrow> u64 \<Rightarrow> u64 \<Rightarrow> u64 \<Rightarrow> kheap \<Rightarrow> u64 \<times> kheap" where
  "alloc_best cbNeed cbAlignWaste pBest pBestPrev h =
     (if cbNeed + GJ_KHEAP_SPLIT_MIN \<le> kb_cbSize (kh_hdr h pBest)
      then finish_alloc pBest cbAlignWaste 0 (split_block cbNeed pBest pBestPrev h)
      else finish_alloc pBest cbAlignWaste (kb_cbSize (kh_hdr h pBest) - cbNeed) (take_whole pBest pBestPrev h))"

partial_function (option) alloc_loop :: "u64 \<Rightarrow> u64 \<Rightarrow> kheap \<Rightarrow> (u64 \<times> kheap) option" where
  "alloc_loop cbNeed cbAlignWaste h =
     (case best_fit h cbNeed 0 (g_pFree h) 0 0 of
        None \<Rightarrow> None
      | Some (pBest, pBestPrev) \<Rightarrow>
          if pBest \<noteq> 0 then Some (alloc_best cbNeed cbAlignWaste pBest pBestPrev h)
          else
            (case grow h of
               (st, h) \<Rightarrow> if st \<noteq> GJ_OK then Some (0, h\<lparr>g_cFail := g_cFail h + 1\<rparr>) else alloc_loop cbNeed cbAlignWaste h))"

definition kheap_alloc :: "u64 \<Rightarrow> kheap \<Rightarrow> (u64 \<times> kheap) option" where
  "kheap_alloc cb h =
     (if \<not> g_fInit h then Some (0, h\<lparr>g_cFail := g_cFail h + 1\<rparr>)
      else if cb = 0 then Some (0, h\<lparr>g_cFail := g_cFail h + 1\<rparr>)
      else
        (let cbNeed = align_up cb; cbAlignWaste = cbNeed - cb
         in if GJ_KHEAP_PAGE_PAYLOAD < cbNeed then Some (0, h\<lparr>g_cFail := g_cFail h + 1\<rparr>)
            else alloc_loop cbNeed cbAlignWaste h))"

definition kheap_free :: "u64 \<Rightarrow> kheap \<Rightarrow> kheap" where
  "kheap_free p h =
     (if p = 0 then h
      else if \<not> g_fInit h then h
      else
        (let pBlk = block_from_payload p; b = kh_hdr h pBlk
         in if kb_u32Magic b \<noteq> GJ_KHEAP_MAGIC_LIVE then h\<lparr>g_cDoubleFree := g_cDoubleFree h + 1\<rparr>
            else
              (let h = h\<lparr>g_cbSoftAlign := sub_or_zero (g_cbSoftAlign h) (ucast (kb_u16SoftAlign b)),
                         g_cbSoftUnsplit := sub_or_zero (g_cbSoftUnsplit h) (ucast (kb_u16SoftUnsplit b)),
                         g_cbUsed := sub_or_zero (g_cbUsed h) (kb_cbSize b)\<rparr>;
                   h = zero_bytes (payload_from_block pBlk) (kb_cbSize b) h;
                   h = upd_hdr pBlk (\<lambda>b. b\<lparr>kb_u32Magic := GJ_KHEAP_MAGIC_FREE, kb_u16SoftAlign := 0, kb_u16SoftUnsplit := 0,
                         kb_pNext := g_pFree h\<rparr>) h
               in h\<lparr>g_pFree := pBlk, g_cbFree := g_cbFree h + kb_cbSize b, g_cFreeBlocks := g_cFreeBlocks h + 1,
                    g_cFree := g_cFree h + 1\<rparr>)))"

definition kheap_used_bytes :: "kheap \<Rightarrow> u64" where
  "kheap_used_bytes h = g_cbUsed h"

definition kheap_free_bytes :: "kheap \<Rightarrow> u64" where
  "kheap_free_bytes h = g_cbFree h"

definition kheap_free_blocks :: "kheap \<Rightarrow> u64" where
  "kheap_free_blocks h = g_cFreeBlocks h"

definition kheap_soft_frag_bytes :: "kheap \<Rightarrow> u64" where
  "kheap_soft_frag_bytes h = g_cbSoftAlign h + g_cbSoftUnsplit h"

definition kheap_get_stats :: "kheap \<Rightarrow> kheap_stats" where
  "kheap_get_stats h =
     \<lparr>ks_cbUsed = g_cbUsed h, ks_cbFree = g_cbFree h, ks_cFreeBlocks = g_cFreeBlocks h,
      ks_cbSoftFrag = g_cbSoftAlign h + g_cbSoftUnsplit h, ks_cbSoftAlign = g_cbSoftAlign h, ks_cbSoftUnsplit = g_cbSoftUnsplit h,
      ks_cAlloc = g_cAlloc h, ks_cFree = g_cFree h, ks_cGrow = g_cGrow h, ks_cSplit = g_cSplit h, ks_cFail = g_cFail h,
      ks_cDoubleFree = g_cDoubleFree h\<rparr>"

text \<open>The diagnostic walk over the free list.\<close>

record kheap_scan =
  sc_cbMin :: u64
  sc_cbMax :: u64
  sc_cbSum :: u64
  sc_cWalk :: u32
  sc_cBad :: u32
  sc_fFirst :: bool

definition scan_block :: "kheap_block \<Rightarrow> kheap_scan \<Rightarrow> kheap_scan" where
  "scan_block b w =
     (let w = w\<lparr>sc_cWalk := sc_cWalk w + 1\<rparr>
      in if kb_u32Magic b \<noteq> GJ_KHEAP_MAGIC_FREE then w\<lparr>sc_cBad := sc_cBad w + 1\<rparr>
         else w\<lparr>sc_cbSum := sc_cbSum w + kb_cbSize b,
                sc_cbMin := (if sc_fFirst w \<or> kb_cbSize b < sc_cbMin w then kb_cbSize b else sc_cbMin w),
                sc_cbMax := (if sc_fFirst w \<or> sc_cbMax w < kb_cbSize b then kb_cbSize b else sc_cbMax w),
                sc_fFirst := False\<rparr>)"

partial_function (option) scan_loop :: "kheap \<Rightarrow> u64 \<Rightarrow> kheap_scan \<Rightarrow> kheap_scan option" where
  "scan_loop h pCur w =
     (if pCur = 0 then Some w else scan_loop h (kb_pNext (kh_hdr h pCur)) (scan_block (kh_hdr h pCur) w))"

definition soft_freelist_scan :: "kheap \<Rightarrow> kheap_scan option" where
  "soft_freelist_scan h =
     scan_loop h (g_pFree h) \<lparr>sc_cbMin = 0, sc_cbMax = 0, sc_cbSum = 0, sc_cWalk = 0, sc_cBad = 0, sc_fFirst = True\<rparr>"

text \<open>The integrity lamp of \<^verbatim>\<open>kheap_dump_stats\<close>: the walk agrees with the counters and found no bad magic.\<close>

definition soft_match_integ :: "kheap \<Rightarrow> bool option" where
  "soft_match_integ h =
     (case soft_freelist_scan h of
        None \<Rightarrow> None
      | Some w \<Rightarrow> Some (sc_cbSum w = g_cbFree h \<and> ucast (sc_cWalk w) = g_cFreeBlocks h \<and> sc_cBad w = 0))"

end
