(* ===== verification/Kheap_Lemmas.thy ===== *)
theory Kheap_Lemmas
  imports Kheap
begin

text \<open>
  The invariant of the kernel heap: the blocks tile the pages taken from the page allocator, the free ones
  are on the list once, and the byte counters are exact.  Every operation keeps it.
\<close>

section \<open>Tiles\<close>

text \<open>The bytes of a block with its header, and of a page in the direct map.\<close>

definition blk_bytes :: "(u64 \<Rightarrow> nat) \<Rightarrow> u64 \<Rightarrow> nat set" where
  "blk_bytes sz a = {unat a..<unat a + 24 + sz a}"

definition page_va :: "nat \<Rightarrow> nat" where
  "page_va p = 0xffff800000000000 + 4096 * p"

definition page_bytes :: "nat \<Rightarrow> nat set" where
  "page_bytes p = {page_va p..<page_va p + 4096}"

definition tiled :: "nat set \<Rightarrow> u64 set \<Rightarrow> (u64 \<Rightarrow> nat) \<Rightarrow> bool" where
  "tiled K B sz \<longleftrightarrow> finite B \<and> finite K \<and> K \<subseteq> {..<2 ^ 34} \<and> (\<forall>a \<in> B. \<exists>p \<in> K. blk_bytes sz a \<subseteq> page_bytes p)
     \<and> disjoint_family_on (blk_bytes sz) B \<and> (\<Sum>a \<in> B. 24 + sz a) = 4096 * card K"

lemma tiledD:
  assumes "tiled K B sz"
  shows "finite B" "finite K" "K \<subseteq> {..<2 ^ 34}" "disjoint_family_on (blk_bytes sz) B" "(\<Sum>a \<in> B. 24 + sz a) = 4096 * card K"
    "a \<in> B \<Longrightarrow> \<exists>p \<in> K. blk_bytes sz a \<subseteq> page_bytes p"
  using assms by (auto simp: tiled_def)

lemma blk_bytes_mem: "unat a \<in> blk_bytes sz a"
  by (simp add: blk_bytes_def)

lemma page_bytes_disjoint: "p \<noteq> q \<Longrightarrow> page_bytes p \<inter> page_bytes q = {}"
proof -
  assume "p \<noteq> q"
  then have "p < q \<or> q < p" by auto
  then have "4096 * p + 4096 \<le> 4096 * q \<or> 4096 * q + 4096 \<le> 4096 * p" by auto
  then show ?thesis by (auto simp: page_bytes_def page_va_def)
qed

text \<open>A block stays below the end of the address space and above the direct map base.\<close>

lemma tile_bounds:
  assumes "tiled K B sz" and "a \<in> B"
  shows "0xffff800000000000 \<le> unat a" "unat a + 24 + sz a \<le> 0xffff800000000000 + 2 ^ 46" "sz a \<le> 4072" "a \<noteq> 0"
proof -
  obtain p where p: "p \<in> K" "blk_bytes sz a \<subseteq> page_bytes p" using assms by (auto simp: tiled_def)
  have q: "p < 2 ^ 34" using p(1) assms(1) by (auto simp: tiled_def)
  have "unat a \<in> page_bytes p" using p(2) blk_bytes_mem by blast
  then have lo: "page_va p \<le> unat a" by (simp add: page_bytes_def)
  have "unat a + 24 + sz a - 1 \<in> page_bytes p" using p(2) by (intro subsetD [OF p(2)]) (simp add: blk_bytes_def)
  then have hi: "unat a + 24 + sz a \<le> page_va p + 4096" by (auto simp: page_bytes_def)
  show "0xffff800000000000 \<le> unat a" using lo by (simp add: page_va_def)
  then show "a \<noteq> 0" by auto
  show "unat a + 24 + sz a \<le> 0xffff800000000000 + 2 ^ 46" using hi q by (simp add: page_va_def)
  show "sz a \<le> 4072" using lo hi by simp
qed

lemma tile_total:
  assumes "tiled K B sz" and "A \<subseteq> B"
  shows "(\<Sum>a \<in> A. sz a) \<le> 2 ^ 46" "card A \<le> 2 ^ 46"
proof -
  note t = tiledD [OF assms(1)]
  have "card K \<le> 2 ^ 34" using card_mono [OF _ t(3)] by simp
  then have b: "(\<Sum>a \<in> B. 24 + sz a) \<le> 2 ^ 46" using t(5) by simp
  have "(\<Sum>a \<in> A. 24 + sz a) \<le> (\<Sum>a \<in> B. 24 + sz a)" by (rule sum_mono2 [OF t(1) assms(2)]) simp
  moreover have "(\<Sum>a \<in> A. 24 + sz a) = 24 * card A + (\<Sum>a \<in> A. sz a)" by (simp add: sum.distrib)
  ultimately show "(\<Sum>a \<in> A. sz a) \<le> 2 ^ 46" "card A \<le> 2 ^ 46" using b by linarith+
qed

lemma tiled_new_page:
  assumes t: "tiled K B sz" and p: "p \<notin> K" "p < 2 ^ 34" and a: "unat a = page_va p"
  shows "tiled (insert p K) (insert a B) (sz(a := 4072))" and "a \<notin> B"
proof -
  note d = tiledD [OF t]
  have am: "unat a \<in> page_bytes p" using a by (simp add: page_bytes_def)
  show n: "a \<notin> B"
  proof
    assume "a \<in> B"
    then obtain q where "q \<in> K" "blk_bytes sz a \<subseteq> page_bytes q" using d(6) by blast
    then show False using blk_bytes_mem [of a sz] am page_bytes_disjoint [of p q] p(1) by blast
  qed
  have new: "blk_bytes (sz(a := 4072)) a = page_bytes p" using a by (simp add: blk_bytes_def page_bytes_def add_ac)
  have old: "blk_bytes (sz(a := 4072)) b = blk_bytes sz b" if "b \<in> B" for b using that n by (auto simp: blk_bytes_def)
  have dis: "blk_bytes sz b \<inter> page_bytes p = {}" if b: "b \<in> B" for b
  proof -
    obtain q where "q \<in> K" "blk_bytes sz b \<subseteq> page_bytes q" using d(6) [OF b] by blast
    then show ?thesis using page_bytes_disjoint [of q p] p(1) by blast
  qed
  have "disjoint_family_on (blk_bytes (sz(a := 4072))) (insert a B)"
    unfolding disjoint_family_on_def
  proof (intro ballI impI)
    fix x y assume "x \<in> insert a B" "y \<in> insert a B" "x \<noteq> y"
    then show "blk_bytes (sz(a := 4072)) x \<inter> blk_bytes (sz(a := 4072)) y = {}"
      using new old [of x] old [of y] dis [of x] dis [of y] disjoint_family_onD [OF d(4), of x y]
      by (cases "x = a"; cases "y = a") (simp_all add: Int_commute)
  qed
  moreover have "(\<Sum>b \<in> insert a B. 24 + (sz(a := 4072)) b) = 4096 * card (insert p K)"
  proof -
    have "(\<Sum>b \<in> B. 24 + (sz(a := 4072)) b) = (\<Sum>b \<in> B. 24 + sz b)" using n by (intro sum.cong) auto
    then show ?thesis using n d(1,2,5) p(1) by simp
  qed
  moreover have "\<exists>q \<in> insert p K. blk_bytes (sz(a := 4072)) x \<subseteq> page_bytes q" if "x \<in> insert a B" for x
    using that new old d(6) by (cases "x = a") auto
  ultimately show "tiled (insert p K) (insert a B) (sz(a := 4072))" using d(1,2,3) p(2) by (simp add: tiled_def)
qed

lemma tiled_split:
  assumes t: "tiled K B sz" and a: "a \<in> B" and n: "n + 40 \<le> sz a" and c: "unat c = unat a + 24 + n"
  defines "sz' \<equiv> sz(a := n, c := sz a - n - 24)"
  shows "tiled K (insert c B) sz'" and "c \<notin> B" and "c \<noteq> a"
proof -
  note d = tiledD [OF t]
  show ca: "c \<noteq> a" using c by auto
  have cm: "unat c \<in> blk_bytes sz a" using c n by (simp add: blk_bytes_def)
  show cb: "c \<notin> B"
  proof
    assume "c \<in> B"
    then have "blk_bytes sz c \<inter> blk_bytes sz a = {}" using d(4) a ca by (simp add: disjoint_family_on_def)
    then show False using cm blk_bytes_mem by blast
  qed
  have sa: "blk_bytes sz' a \<subseteq> blk_bytes sz a" "blk_bytes sz' c \<subseteq> blk_bytes sz a" "blk_bytes sz' a \<inter> blk_bytes sz' c = {}"
    using n c ca by (auto simp: sz'_def blk_bytes_def)
  have old: "blk_bytes sz' b = blk_bytes sz b" if "b \<in> B" "b \<noteq> a" for b using that cb by (auto simp: sz'_def blk_bytes_def)
  have dis: "blk_bytes sz b \<inter> blk_bytes sz a = {}" if "b \<in> B" "b \<noteq> a" for b using d(4) a that by (auto simp: disjoint_family_on_def)
  have up: "\<exists>e \<in> B. blk_bytes sz' x \<subseteq> blk_bytes sz e" if "x \<in> insert c B" for x
    using that sa old a by (cases "x = c"; cases "x = a") auto
  have "disjoint_family_on (blk_bytes sz') (insert c B)"
    unfolding disjoint_family_on_def
  proof (intro ballI impI)
    fix x y assume xy: "x \<in> insert c B" "y \<in> insert c B" "x \<noteq> y"
    let ?o = "\<lambda>z. if z = c then a else z"
    have sub: "blk_bytes sz' z \<subseteq> blk_bytes sz (?o z)" if "z \<in> insert c B" for z
      using that sa old [of z] by (cases "z = c"; cases "z = a") auto
    show "blk_bytes sz' x \<inter> blk_bytes sz' y = {}"
    proof (cases "?o x = ?o y")
      case True
      then have "{x, y} = {a, c}" using xy by (auto split: if_splits)
      then show ?thesis using sa(3) by (auto simp: doubleton_eq_iff)
    next
      case False
      then have "blk_bytes sz (?o x) \<inter> blk_bytes sz (?o y) = {}" by (intro disjoint_family_onD [OF d(4)]) (use xy a in auto)
      then show ?thesis using sub [OF xy(1)] sub [OF xy(2)] by blast
    qed
  qed
  moreover have "(\<Sum>b \<in> insert c B. 24 + sz' b) = (\<Sum>b \<in> B. 24 + sz b)"
  proof -
    have "(\<Sum>b \<in> B - {a}. 24 + sz' b) = (\<Sum>b \<in> B - {a}. 24 + sz b)" using cb by (intro sum.cong) (auto simp: sz'_def)
    moreover have "(\<Sum>b \<in> B. 24 + sz b) = (24 + sz a) + (\<Sum>b \<in> B - {a}. 24 + sz b)" by (rule sum.remove [OF d(1) a])
    moreover have "(\<Sum>b \<in> insert c B. 24 + sz' b) = (24 + sz' c) + ((24 + sz' a) + (\<Sum>b \<in> B - {a}. 24 + sz' b))"
      using sum.remove [OF d(1) a, of "\<lambda>b. 24 + sz' b"] cb d(1) by simp
    ultimately show ?thesis using n ca by (simp add: sz'_def)
  qed
  ultimately show "tiled K (insert c B) sz'"
    using d(1,2,3,5) up d(6) unfolding tiled_def by (metis finite.insertI subset_trans)
qed

section \<open>The free list\<close>

lemma chain_app: "chain m p (us @ b # vs) \<Longrightarrow> b \<noteq> 0 \<and> chain m b (b # vs) \<and> chain m (m b) vs"
  by (induction us arbitrary: p) auto

lemma chain_nonzero: "chain m p xs \<Longrightarrow> x \<in> set xs \<Longrightarrow> x \<noteq> 0"
  by (induction xs arbitrary: p) auto

text \<open>The last cell before a position, 0 at the head.\<close>

definition prev_of :: "u64 list \<Rightarrow> u64" where
  "prev_of us = (if us = [] then 0 else last us)"

lemma chain_cong: "(\<And>x. x \<in> set xs \<Longrightarrow> m' x = m x) \<Longrightarrow> chain m' p xs = chain m p xs"
  by (induction xs arbitrary: p) auto


text \<open>A cell is replaced by another list.\<close>

lemma chain_replace:
  assumes "chain m p (us @ b # vs)" and "chain m' q ws" and "us = [] \<Longrightarrow> p' = q" and "us \<noteq> [] \<Longrightarrow> m' (last us) = q \<and> p' = p"
    and "\<And>x. x \<in> set (butlast us) \<Longrightarrow> m' x = m x"
  shows "chain m' p' (us @ ws)"
  using assms
proof (induction us arbitrary: p p')
  case (Cons u us)
  then show ?case by (cases "us = []") auto
qed simp

text \<open>The best-fit scan over a list.\<close>

definition fits :: "(u64 \<Rightarrow> nat) \<Rightarrow> nat \<Rightarrow> u64 list \<Rightarrow> u64 \<Rightarrow> u64 \<Rightarrow> bool" where
  "fits sz n xs b bp \<longleftrightarrow> (b = 0 \<and> (\<forall>a \<in> set xs. sz a < n))
     \<or> (\<exists>us vs. xs = us @ b # vs \<and> b \<noteq> 0 \<and> bp = prev_of us \<and> n \<le> sz b \<and> (\<forall>a \<in> set xs. n \<le> sz a \<longrightarrow> sz b \<le> sz a))"

abbreviation nxt :: "kheap \<Rightarrow> u64 \<Rightarrow> u64" where "nxt h \<equiv> \<lambda>a. kb_pNext (kh_hdr h a)"
abbreviation bsz :: "kheap \<Rightarrow> u64 \<Rightarrow> nat" where "bsz h \<equiv> \<lambda>a. unat (kb_cbSize (kh_hdr h a))"

lemma fits_snoc:
  assumes f: "fits sz n us b bp" and x: "x \<noteq> 0"
  shows "fits sz n (us @ [x]) (if n \<le> sz x \<and> (b = 0 \<or> sz x < sz b) then x else b)
      (if n \<le> sz x \<and> (b = 0 \<or> sz x < sz b) then prev_of us else bp)"
proof (cases "n \<le> sz x \<and> (b = 0 \<or> sz x < sz b)")
  case True
  then have "\<forall>a \<in> set (us @ [x]). n \<le> sz a \<longrightarrow> sz x \<le> sz a" using f by (fastforce simp: fits_def)
  then show ?thesis using True x unfolding fits_def by (intro disjI2 exI [of _ us] exI [of _ "[]"]) simp
next
  case False
  show ?thesis
  proof (cases "b = 0")
    case True
    then have "\<forall>a \<in> set us. sz a < n" using f by (auto simp: fits_def)
    then show ?thesis using True False by (auto simp: fits_def)
  next
    case b: False
    then obtain ws vs where w: "us = ws @ b # vs" "bp = prev_of ws" "n \<le> sz b" "\<forall>a \<in> set us. n \<le> sz a \<longrightarrow> sz b \<le> sz a"
      using f by (auto simp: fits_def)
    then have "\<forall>a \<in> set (us @ [x]). n \<le> sz a \<longrightarrow> sz b \<le> sz a" using False b by auto
    then show ?thesis using w b False unfolding fits_def by (intro disjI2 exI [of _ ws] exI [of _ "vs @ [x]"]) auto
  qed
qed

lemma best_fit_ok:
  assumes "chain (nxt h) p ys" and "\<forall>a \<in> set ys. kb_u32Magic (kh_hdr h a) = GJ_KHEAP_MAGIC_FREE" and "fits (bsz h) (unat n) us b bp"
  shows "\<exists>c cp. best_fit h n (prev_of us) p b bp = Some (c, cp) \<and> fits (bsz h) (unat n) (us @ ys) c cp"
  using assms
proof (induction ys arbitrary: p us b bp)
  case Nil
  then show ?case by (subst best_fit.simps) simp
next
  case (Cons y ys)
  have y: "p = y" "y \<noteq> 0" "chain (nxt h) (nxt h y) ys" using Cons.prems(1) by auto
  have m: "kb_u32Magic (kh_hdr h y) = GJ_KHEAP_MAGIC_FREE" using Cons.prems(2) by simp
  let ?c = "n \<le> kb_cbSize (kh_hdr h y) \<and> (b = 0 \<or> kb_cbSize (kh_hdr h y) < kb_cbSize (kh_hdr h b))"
  have e: "unat n \<le> bsz h y \<and> (b = 0 \<or> bsz h y < bsz h b) \<longleftrightarrow> ?c" by (simp add: word_le_nat_alt word_less_nat_alt)
  have s: "best_fit h n (prev_of us) p b bp = best_fit h n (prev_of (us @ [y])) (nxt h y) (if ?c then y else b) (if ?c then prev_of us else bp)"
    using y(1,2) m by (subst best_fit.simps) (auto simp: Let_def prev_of_def)
  from Cons.IH [OF y(3) _ fits_snoc [OF Cons.prems(3) y(2)]] Cons.prems(2)
  show ?case unfolding s e by (simp add: append_assoc)
qed

section \<open>The invariant\<close>

definition kh_inv :: "nat set \<Rightarrow> u64 list \<Rightarrow> u64 set \<Rightarrow> kheap \<Rightarrow> bool" where
  "kh_inv K xs L h \<longleftrightarrow> chain (nxt h) (g_pFree h) xs \<and> distinct xs \<and> L \<inter> set xs = {}
     \<and> (\<forall>a \<in> set xs. kb_u32Magic (kh_hdr h a) = GJ_KHEAP_MAGIC_FREE) \<and> (\<forall>a \<in> L. kb_u32Magic (kh_hdr h a) = GJ_KHEAP_MAGIC_LIVE)
     \<and> tiled K (set xs \<union> L) (bsz h)
     \<and> unat (g_cbFree h) = (\<Sum>a \<in> set xs. bsz h a) \<and> unat (g_cFreeBlocks h) = length xs \<and> unat (g_cbUsed h) = (\<Sum>a \<in> L. bsz h a)"

lemma kh_invD:
  assumes "kh_inv K xs L h"
  shows "chain (nxt h) (g_pFree h) xs" "distinct xs" "L \<inter> set xs = {}" "\<forall>a \<in> set xs. kb_u32Magic (kh_hdr h a) = GJ_KHEAP_MAGIC_FREE"
    "\<forall>a \<in> L. kb_u32Magic (kh_hdr h a) = GJ_KHEAP_MAGIC_LIVE" "tiled K (set xs \<union> L) (bsz h)" "unat (g_cbFree h) = (\<Sum>a \<in> set xs. bsz h a)"
    "unat (g_cFreeBlocks h) = length xs" "unat (g_cbUsed h) = (\<Sum>a \<in> L. bsz h a)"
  using assms by (simp_all add: kh_inv_def)

lemma kh_inv_fields [simp]:
  "kh_inv K xs L (h\<lparr>g_cFail := x\<rparr>) = kh_inv K xs L h" "kh_inv K xs L (h\<lparr>g_cDoubleFree := x\<rparr>) = kh_inv K xs L h"
  "kh_inv K xs L (h\<lparr>kh_pmm := s\<rparr>) = kh_inv K xs L h" "kh_inv K xs L (zero_bytes p n h) = kh_inv K xs L h"
  by (simp_all add: kh_inv_def zero_bytes_def)

lemma kheap_init_inv: "kh_inv {} [] {} (kheap_init h)"
  by (simp add: kh_inv_def kheap_init_def tiled_def disjoint_family_on_def)

lemma kh_free_room:
  assumes "kh_inv K xs L h"
  shows "(\<Sum>a \<in> set xs. bsz h a) \<le> 2 ^ 46" "(\<Sum>a \<in> L. bsz h a) \<le> 2 ^ 46" "length xs \<le> 2 ^ 46"
proof -
  note t = kh_invD(6) [OF assms]
  show "(\<Sum>a \<in> set xs. bsz h a) \<le> 2 ^ 46" "(\<Sum>a \<in> L. bsz h a) \<le> 2 ^ 46" using tile_total(1) [OF t] by simp_all
  show "length xs \<le> 2 ^ 46" using tile_total(2) [OF t, of "set xs"] distinct_card [OF kh_invD(2) [OF assms]] by simp
qed


section \<open>Growing\<close>

lemma grow_ok:
  assumes inv: "kh_inv K xs L h" and rep: "pmm_rep (kh_pmm h) F" and hh: "pg_fHhdm (kh_pmm h)" and F: "F \<subseteq> {..<2 ^ 34}" "F \<inter> K = {}"
    and r: "grow h = (st, t)"
  shows "(F = {} \<and> st = GJ_ERR_NOMEM \<and> t = h)
    \<or> (st = GJ_OK \<and> g_fInit t = g_fInit h \<and> kh_byte t = kh_byte h \<and> (\<forall>a \<in> L. kh_hdr t a = kh_hdr h a)
       \<and> (\<exists>p \<in> F. \<exists>a. kh_inv (insert p K) (a # xs) L t \<and> bsz t a = 4072 \<and> pmm_rep (kh_pmm t) (F - {p}) \<and> same_cfg (kh_pmm h) (kh_pmm t)))"
proof -
  obtain pa s where p: "pmm_alloc (kh_pmm h) = (pa, s)" by fastforce
  from pop_free_spec [OF rep p [unfolded pmm_alloc_def]] show ?thesis
  proof
    assume "F = {} \<and> pa = 0 \<and> s = kh_pmm h"
    then show ?thesis using r p by (simp add: grow_def)
  next
    assume a: "pa \<noteq> 0 \<and> page_taken pa (kh_pmm h) F s \<and> (pa < PMM_LOW_MAX \<or> F \<inter> {..<2 ^ 20} = {})"
    then have k: "blk_geom 0 pa" "page pa \<in> F" "pmm_rep s (F - {page pa})" "same_cfg (kh_pmm h) s"
      by (auto simp: page_taken_def page_fit_def)
    have hs: "pg_fHhdm s" using k(4) hh by (simp add: same_cfg_def)
    let ?a = "GJ_HHDM_BASE + pa" and ?p = "page pa"
    have pb: "?p < 2 ^ 34" "?p \<notin> K" using k(2) F by auto
    have ua: "unat ?a = page_va ?p"
      using pb(1) blk_geomD(8) [OF k(1)] by (subst unat_add_small) (simp_all add: page_va_def)
    note i = kh_invD [OF inv] and tl = tiled_new_page [OF kh_invD(6) [OF inv] pb(2,1) ua]
    let ?b = "\<lparr>kb_cbSize = 4072, kb_u32Magic = GJ_KHEAP_MAGIC_FREE, kb_u16SoftAlign = 0, kb_u16SoftUnsplit = 0, kb_pNext = g_pFree h\<rparr>"
    have t: "st = GJ_OK" "t = h\<lparr>kh_pmm := s, kh_hdr := (kh_hdr h)(?a := ?b), g_pFree := ?a, g_cbFree := g_cbFree h + 4072,
        g_cFreeBlocks := g_cFreeBlocks h + 1, g_cGrow := g_cGrow h + 1\<rparr>"
      using r p a hs by (auto simp: grow_def Let_def upd_hdr_def hhdm_to_virt_def)
    have n: "?a \<notin> set xs" "?a \<notin> L" using tl(2) by auto
    have az: "?a \<noteq> 0" using ua by (auto simp: page_va_def dest!: arg_cong [of _ 0 unat])
    have sz: "bsz t = (bsz h)(?a := 4072)" by (simp add: t(2) fun_eq_iff)
    have "chain (nxt t) ?a (?a # xs)"
    proof -
      have "chain (nxt t) (g_pFree h) xs = chain (nxt h) (g_pFree h) xs" by (rule chain_cong) (use n in \<open>auto simp: t(2)\<close>)
      moreover have "nxt t ?a = g_pFree h" by (simp add: t(2))
      ultimately show ?thesis using az i(1) by simp
    qed
    moreover have "tiled (insert ?p K) (set (?a # xs) \<union> L) (bsz t)" using tl(1) by (simp add: sz)
    moreover have "(\<Sum>x \<in> set xs. bsz t x) = (\<Sum>x \<in> set xs. bsz h x)" "(\<Sum>x \<in> L. bsz t x) = (\<Sum>x \<in> L. bsz h x)"
      using n by (auto intro!: sum.cong simp: t(2))
    moreover have "unat (g_cbFree h + 4072) = unat (g_cbFree h) + 4072" "unat (g_cFreeBlocks h + 1) = unat (g_cFreeBlocks h) + 1"
      using kh_free_room [OF inv] i(7,8) by (subst unat_add_small; simp)+
    moreover have "\<forall>x \<in> set xs. kh_hdr t x = kh_hdr h x" "\<forall>x \<in> L. kh_hdr t x = kh_hdr h x" using n by (auto simp: t(2))
    ultimately have "kh_inv (insert ?p K) (?a # xs) L t"
      using i n by (auto simp: kh_inv_def t(2) n)
    then show ?thesis using t k \<open>\<forall>x \<in> L. kh_hdr t x = kh_hdr h x\<close> by (intro disjI2) (auto intro!: bexI [of _ ?p] exI [of _ ?a])
  qed
qed


section \<open>Taking a block\<close>

text \<open>The header store after a block was taken: its own header, the one after it and the link of the cell before it.\<close>

definition zeroed :: "u64 \<Rightarrow> nat \<Rightarrow> kheap \<Rightarrow> bool" where
  "zeroed p n h \<longleftrightarrow> (\<forall>x. unat (x - p) < n \<longrightarrow> kh_byte h x = 0)"

definition granted :: "u64 \<Rightarrow> u64 \<Rightarrow> u64 set \<Rightarrow> kheap \<Rightarrow> u64 \<times> kheap \<Rightarrow> bool" where
  "granted n b L h r \<longleftrightarrow> fst r = b + 24 \<and> unat n \<le> bsz (snd r) b \<and> zeroed (b + 24) (bsz (snd r) b) (snd r)
     \<and> (\<forall>x. \<not> unat (x - (b + 24)) < bsz (snd r) b \<longrightarrow> kh_byte (snd r) x = kh_byte h x)
     \<and> (\<forall>a \<in> L. kh_hdr (snd r) a = kh_hdr h a) \<and> g_fInit (snd r) = g_fInit h"

lemma free_cell:
  assumes inv: "kh_inv K (us @ b # vs) L h"
  shows "b \<noteq> 0" "b \<notin> L" "b \<notin> set us" "b \<notin> set vs" "prev_of us \<noteq> b" "prev_of us \<notin> L" "chain (nxt h) (nxt h b) vs" "set us \<inter> set vs = {}"
    "prev_of us \<noteq> 0 \<longleftrightarrow> us \<noteq> []" "us \<noteq> [] \<Longrightarrow> last us \<notin> set vs" "us \<noteq> [] \<Longrightarrow> last us \<noteq> b" "us \<noteq> [] \<Longrightarrow> last us \<notin> set (butlast us)"
proof -
  note i = kh_invD [OF inv]
  have "last us \<notin> insert b (set vs)" if "us \<noteq> []"
  proof -
    have "last us \<in> set us" using that by simp
    then show ?thesis using i(2) by auto
  qed
  then show "us \<noteq> [] \<Longrightarrow> last us \<notin> set vs" "us \<noteq> [] \<Longrightarrow> last us \<noteq> b" by simp_all
  show "us \<noteq> [] \<Longrightarrow> last us \<notin> set (butlast us)" using i(2) append_butlast_last_id [of us] by (metis distinct_append not_distinct_conv_prefix)
  show "b \<noteq> 0" "chain (nxt h) (nxt h b) vs" using chain_app [OF i(1)] by auto
  show "b \<notin> L" "b \<notin> set us" "b \<notin> set vs" "set us \<inter> set vs = {}" using i(2,3) by auto
  have z: "0 \<notin> set (us @ b # vs) \<union> L" using tile_bounds(4) [OF i(6)] by blast
  have m: "last us \<noteq> 0 \<and> last us \<noteq> b \<and> last us \<notin> L" if "us \<noteq> []"
  proof -
    have "last us \<in> set us" using that by simp
    then show ?thesis using z i(2,3) by auto
  qed
  show "prev_of us \<noteq> 0 \<longleftrightarrow> us \<noteq> []" by (cases "us = []") (use z m in \<open>auto simp: prev_of_def\<close>)
  show "prev_of us \<noteq> b" using \<open>b \<noteq> 0\<close> \<open>b \<notin> set us\<close> m by (auto simp: prev_of_def)
  show "prev_of us \<notin> L" by (cases "us = []") (use z m i(3) in \<open>auto simp: prev_of_def\<close>)
qed

lemma take_whole_ok:
  assumes inv: "kh_inv K (us @ b # vs) L h" and n: "n \<le> kb_cbSize (kh_hdr h b)"
    and r: "r = finish_alloc b w (kb_cbSize (kh_hdr h b) - n) (take_whole b (prev_of us) h)"
  shows "kh_inv K (us @ vs) (insert b L) (snd r)" and "granted n b L h r" and "bsz (snd r) b = bsz h b"
proof -
  note i = kh_invD [OF inv] and c = free_cell [OF inv]
  let ?hd = "\<lambda>x. if x = b then (kh_hdr h b)\<lparr>kb_u32Magic := GJ_KHEAP_MAGIC_LIVE, kb_pNext := 0, kb_u16SoftAlign := ucast w,
      kb_u16SoftUnsplit := ucast (kb_cbSize (kh_hdr h b) - n)\<rparr>
      else if us \<noteq> [] \<and> x = last us then (kh_hdr h x)\<lparr>kb_pNext := nxt h b\<rparr> else kh_hdr h x"
  have hd: "kh_hdr (snd r) = ?hd"
    using c(5,9) by (auto simp: r finish_alloc_def take_whole_def relink_def upd_hdr_def zero_bytes_def Let_def prev_of_def fun_eq_iff)
  have f: "fst r = b + 24" "g_pFree (snd r) = (if us = [] then nxt h b else g_pFree h)" "kh_pmm (snd r) = kh_pmm h" "g_fInit (snd r) = g_fInit h"
    "kh_byte (snd r) = (\<lambda>x. if x - (b + 24) < kb_cbSize (kh_hdr h b) then 0 else kh_byte h x)"
    "g_cbFree (snd r) = sub_or_zero (g_cbFree h) (kb_cbSize (kh_hdr h b))" "g_cFreeBlocks (snd r) = sub_or_zero (g_cFreeBlocks h) 1"
    "g_cbUsed (snd r) = g_cbUsed h + kb_cbSize (kh_hdr h b)"
    using c(5,9) by (auto simp: r finish_alloc_def take_whole_def relink_def upd_hdr_def zero_bytes_def Let_def payload_from_block_def prev_of_def)
  have sz: "bsz (snd r) = bsz h" by (simp add: hd fun_eq_iff)
  then show "bsz (snd r) b = bsz h b" by metis
  have cv: "chain (nxt (snd r)) (nxt h b) vs = chain (nxt h) (nxt h b) vs" by (rule chain_cong) (use c(4) c(10) in \<open>auto simp: hd\<close>)
  have "chain (nxt (snd r)) (g_pFree (snd r)) (us @ vs)"
    by (rule chain_replace [OF i(1), of _ "nxt h b"]) (use cv c(3,7,11,12) f(2) in \<open>auto simp: hd dest: in_set_butlastD\<close>)
  moreover have "(\<Sum>a \<in> set (us @ b # vs). bsz h a) = bsz h b + (\<Sum>a \<in> set (us @ vs). bsz h a)" using c(3,4) by (simp add: sum.insert)
  moreover have "(\<Sum>a \<in> insert b L. bsz h a) = bsz h b + (\<Sum>a \<in> L. bsz h a)" using c(2) tiledD(1) [OF i(6)] by simp
  moreover have "unat (g_cbUsed h + kb_cbSize (kh_hdr h b)) = unat (g_cbUsed h) + bsz h b"
    using kh_free_room(2) [OF inv] i(9) tile_bounds(3) [OF i(6), of b] by (subst unat_add_small) simp_all
  moreover have "set (us @ vs) \<union> insert b L = set (us @ b # vs) \<union> L" by auto
  ultimately show "kh_inv K (us @ vs) (insert b L) (snd r)"
    using i c(2-4) unfolding kh_inv_def f sz by (auto simp: hd unat_sub_or_zero)
  have "x - (b + 24) < kb_cbSize (kh_hdr h b) \<longleftrightarrow> unat (x - (b + 24)) < bsz h b" for x by (simp add: word_less_nat_alt)
  then show "granted n b L h r"
    using n c(2,6) f(1,3-5) sz unfolding granted_def zeroed_def by (auto simp: word_le_nat_alt hd prev_of_def)
qed


lemma split_ok_heap:
  assumes inv: "kh_inv K (us @ b # vs) L h" and n: "n + 40 \<le> kb_cbSize (kh_hdr h b)" and n2: "unat n \<le> 4072"
    and r: "r = finish_alloc b w 0 (split_block n b (prev_of us) h)"
  shows "\<exists>c. kh_inv K (us @ c # vs) (insert b L) (snd r)" and "granted n b L h r" and "bsz (snd r) b = unat n"
proof -
  note i = kh_invD [OF inv] and c = free_cell [OF inv]
  let ?c = "b + 24 + n"
  have bb: "b \<in> set (us @ b # vs) \<union> L" by simp
  have un: "unat (n + 40) = unat n + 40" using n2 by (subst unat_add_small) simp_all
  then have le: "unat n + 40 \<le> bsz h b" using n by (simp add: word_le_nat_alt)
  note tb = tile_bounds [OF i(6) bb]
  have uc: "unat ?c = unat b + 24 + unat n"
  proof -
    have "unat (b + 24) = unat b + 24" using tb(2) by (subst unat_add_small) simp_all
    then show ?thesis using tb(2) le by (subst unat_add_small) simp_all
  qed
  note ts = tiled_split [OF i(6) bb le uc]
  have cn: "?c \<notin> set us" "?c \<notin> set vs" "?c \<notin> L" "?c \<noteq> b" using ts(2,3) by auto
  have cz: "?c \<noteq> 0" using uc tb(1) by (auto dest!: arg_cong [of _ 0 unat])
  have cl: "us \<noteq> [] \<Longrightarrow> last us \<noteq> ?c" using cn(1) by (metis last_in_set)
  have ul: "unat (kb_cbSize (kh_hdr h b) - n - 24) = bsz h b - unat n - 24"
  proof -
    have "unat (kb_cbSize (kh_hdr h b) - n) = bsz h b - unat n" using le by (subst unat_sub) (simp_all add: word_le_nat_alt)
    then show ?thesis using le by (subst unat_sub) (simp_all add: word_le_nat_alt)
  qed
  let ?hd = "\<lambda>x. if x = b then (kh_hdr h b)\<lparr>kb_cbSize := n, kb_u32Magic := GJ_KHEAP_MAGIC_LIVE, kb_pNext := 0, kb_u16SoftAlign := ucast w, kb_u16SoftUnsplit := 0\<rparr>
      else if x = ?c then \<lparr>kb_cbSize = kb_cbSize (kh_hdr h b) - n - 24, kb_u32Magic = GJ_KHEAP_MAGIC_FREE, kb_u16SoftAlign = 0, kb_u16SoftUnsplit = 0,
          kb_pNext = nxt h b\<rparr>
      else if us \<noteq> [] \<and> x = last us then (kh_hdr h x)\<lparr>kb_pNext := ?c\<rparr> else kh_hdr h x"
  have hd: "kh_hdr (snd r) = ?hd"
    using c(5,9,11) cn(4) cl
    by (auto simp: r finish_alloc_def split_block_def relink_def upd_hdr_def zero_bytes_def Let_def prev_of_def payload_from_block_def fun_eq_iff)
  have f: "fst r = b + 24" "g_pFree (snd r) = (if us = [] then ?c else g_pFree h)" "kh_pmm (snd r) = kh_pmm h" "g_fInit (snd r) = g_fInit h"
    "kh_byte (snd r) = (\<lambda>x. if x - (b + 24) < n then 0 else kh_byte h x)"
    "g_cbFree (snd r) = sub_or_zero (g_cbFree h) (n + 24)" "g_cFreeBlocks (snd r) = g_cFreeBlocks h" "g_cbUsed (snd r) = g_cbUsed h + n"
    using c(5,9,11) cn(4) cl by (auto simp: r finish_alloc_def split_block_def relink_def upd_hdr_def zero_bytes_def Let_def payload_from_block_def prev_of_def)
  have sz: "bsz (snd r) = (bsz h)(b := unat n, ?c := bsz h b - unat n - 24)" using ul cn(4) by (auto simp: hd fun_eq_iff)
  then show szb: "bsz (snd r) b = unat n" using cn(4) by (simp add: hd)
  have "chain (nxt (snd r)) (nxt h b) vs = chain (nxt h) (nxt h b) vs"
    by (rule chain_cong) (use c(4,10) cn(2) in \<open>auto simp: hd\<close>)
  then have cc: "chain (nxt (snd r)) ?c (?c # vs)" using c(7) cz cn(4) by (simp add: hd)
  have "chain (nxt (snd r)) (g_pFree (snd r)) (us @ ?c # vs)"
    by (rule chain_replace [OF i(1) cc]) (use c(3,11,12) cn(1) cl f(2) in \<open>auto simp: hd dest: in_set_butlastD\<close>)
  moreover have "tiled K (set (us @ ?c # vs) \<union> insert b L) (bsz (snd r))"
  proof -
    have "set (us @ ?c # vs) \<union> insert b L = insert ?c (set (us @ b # vs) \<union> L)" by auto
    then show ?thesis using ts(1) by (simp only: sz)
  qed
  moreover have "unat (g_cbFree (snd r)) = (\<Sum>a \<in> set (us @ ?c # vs). bsz (snd r) a)"
  proof -
    have "(\<Sum>a \<in> set (us @ vs). bsz (snd r) a) = (\<Sum>a \<in> set (us @ vs). bsz h a)"
      by (rule sum.cong) (use c(3,4) cn(1,2) in \<open>auto simp: hd\<close>)
    moreover have "bsz (snd r) ?c = bsz h b - unat n - 24" using cn(4) ul by (simp add: hd)
    moreover have "unat (n + 24) = unat n + 24" using n2 by (subst unat_add_small) simp_all
    ultimately show ?thesis using i(7) c(3,4) cn(1,2) le by (simp add: f(6) unat_sub_or_zero sum.insert)
  qed
  moreover have "unat (g_cbUsed (snd r)) = (\<Sum>a \<in> insert b L. bsz (snd r) a)"
  proof -
    have "(\<Sum>a \<in> L. bsz (snd r) a) = (\<Sum>a \<in> L. bsz h a)"
      by (rule sum.cong) (use c(2,6) cn(3) in \<open>auto simp: hd prev_of_def\<close>)
    moreover have "unat (g_cbUsed h + n) = unat (g_cbUsed h) + unat n" using kh_free_room(2) [OF inv] i(9) n2 by (subst unat_add_small) simp_all
    ultimately show ?thesis using i(9) c(2) tiledD(1) [OF i(6)] szb by (simp add: f(8))
  qed
  ultimately have "kh_inv K (us @ ?c # vs) (insert b L) (snd r)"
    using i(2-5,8) c(2-4) cn f(7) unfolding kh_inv_def by (auto simp: hd)
  then show "\<exists>c. kh_inv K (us @ c # vs) (insert b L) (snd r)" ..
  have "x - (b + 24) < n \<longleftrightarrow> unat (x - (b + 24)) < unat n" for x by (simp add: word_less_nat_alt)
  moreover have "\<forall>a \<in> L. kh_hdr (snd r) a = kh_hdr h a" using c(2,6) cn(3) by (auto simp: hd prev_of_def)
  ultimately show "granted n b L h r" using f(1,3-5) szb unfolding granted_def zeroed_def by simp
qed


lemma alloc_best_ok:
  assumes inv: "kh_inv K (us @ b # vs) L h" and n: "unat n \<le> bsz h b" and n2: "unat n \<le> 4072" and r: "r = alloc_best n w b (prev_of us) h"
  shows "\<exists>ys. kh_inv K ys (insert b L) (snd r) \<and> set (us @ vs) \<subseteq> set ys" "granted n b L h r" "bsz (snd r) b \<le> bsz h b" "bsz (snd r) b < unat n + 40" "kh_pmm (snd r) = kh_pmm h"
proof -
  have un: "unat (n + 40) = unat n + 40" using n2 by (subst unat_add_small) simp_all
  show "kh_pmm (snd r) = kh_pmm h"
    by (simp add: r alloc_best_def finish_alloc_def split_block_def take_whole_def relink_def upd_hdr_def zero_bytes_def Let_def)
  have "(\<exists>ys. kh_inv K ys (insert b L) (snd r) \<and> set (us @ vs) \<subseteq> set ys) \<and> granted n b L h r \<and> bsz (snd r) b \<le> bsz h b \<and> bsz (snd r) b < unat n + 40"
  proof (cases "n + 40 \<le> kb_cbSize (kh_hdr h b)")
    case True
    then have "r = finish_alloc b w 0 (split_block n b (prev_of us) h)" by (simp add: r alloc_best_def)
    note s = split_ok_heap [OF inv True n2 this]
    obtain c where "kh_inv K (us @ c # vs) (insert b L) (snd r)" using s(1) by blast
    then show ?thesis using s(2,3) n by (intro conjI exI [of _ "us @ c # vs"]) auto
  next
    case False
    then have e: "r = finish_alloc b w (kb_cbSize (kh_hdr h b) - n) (take_whole b (prev_of us) h)" by (simp add: r alloc_best_def)
    have "n \<le> kb_cbSize (kh_hdr h b)" "bsz h b < unat n + 40" using n False un by (simp_all add: word_le_nat_alt)
    then show ?thesis using take_whole_ok [OF inv _ e] by (intro conjI exI [of _ "us @ vs"]) auto
  qed
  then show "\<exists>ys. kh_inv K ys (insert b L) (snd r) \<and> set (us @ vs) \<subseteq> set ys" "granted n b L h r" "bsz (snd r) b \<le> bsz h b" "bsz (snd r) b < unat n + 40" by auto
qed

section \<open>Allocation\<close>

definition fresh_core :: "nat \<Rightarrow> nat set \<Rightarrow> u64 list \<Rightarrow> u64 set \<Rightarrow> kheap \<Rightarrow> u64 \<times> kheap \<Rightarrow> u64 \<Rightarrow> nat set \<Rightarrow> u64 list \<Rightarrow> bool" where
  "fresh_core n F xs L h r b K' ys \<longleftrightarrow>
     b \<notin> L \<and> fst r = b + 24 \<and> kh_inv K' ys (insert b L) (snd r) \<and> set xs \<subseteq> insert b (set ys)
     \<and> pmm_rep (kh_pmm (snd r)) (F - K') \<and> same_cfg (kh_pmm h) (kh_pmm (snd r))
     \<and> n \<le> bsz (snd r) b \<and> bsz (snd r) b < n + 40 \<and> zeroed (b + 24) (bsz (snd r) b) (snd r)
     \<and> (\<forall>x. \<not> unat (x - (b + 24)) < bsz (snd r) b \<longrightarrow> kh_byte (snd r) x = kh_byte h x)
     \<and> (\<forall>a \<in> L. kh_hdr (snd r) a = kh_hdr h a) \<and> g_fInit (snd r) = g_fInit h"

definition fresh_block :: "nat \<Rightarrow> nat set \<Rightarrow> nat set \<Rightarrow> u64 list \<Rightarrow> u64 set \<Rightarrow> kheap \<Rightarrow> u64 \<times> kheap \<Rightarrow> bool" where
  "fresh_block n F K xs L h r \<longleftrightarrow>
     (\<exists>b K' ys. fresh_core n F xs L h r b K' ys
        \<and> (if \<exists>a \<in> set xs. n \<le> bsz h a
           then K' = K \<and> b \<in> set xs \<and> n \<le> bsz h b \<and> (\<forall>a \<in> set xs. n \<le> bsz h a \<longrightarrow> bsz h b \<le> bsz h a)
           else \<exists>p \<in> F. K' = insert p K))"

lemma best_fit_start:
  assumes "kh_inv K xs L h"
  shows "\<exists>c cp. best_fit h n 0 (g_pFree h) 0 0 = Some (c, cp) \<and> fits (bsz h) (unat n) xs c cp"
  using best_fit_ok [OF kh_invD(1) [OF assms] kh_invD(4) [OF assms], of n "[]" 0 0] by (simp add: fits_def prev_of_def)

lemma found_fresh:
  assumes inv: "kh_inv K xs L h" and f: "fits (bsz h) (unat n) xs b bp" and b: "b \<noteq> 0" and n: "unat n \<le> 4072"
    and rep: "pmm_rep (kh_pmm h) F" and K: "F \<inter> K = {}"
  shows "fresh_block (unat n) F K xs L h (alloc_best n w b bp h)"
proof -
  obtain us vs where u: "xs = us @ b # vs" "bp = prev_of us" "unat n \<le> bsz h b" "\<forall>a \<in> set xs. unat n \<le> bsz h a \<longrightarrow> bsz h b \<le> bsz h a"
    using f b by (auto simp: fits_def)
  define r where "r = alloc_best n w b (prev_of us) h"
  note k = alloc_best_ok [OF inv [unfolded u(1)] u(3) n r_def]
  obtain ys where ys: "kh_inv K ys (insert b L) (snd r)" "set xs \<subseteq> insert b (set ys)" using k(1) u(1) by auto
  have "b \<notin> L" using free_cell(2) inv u(1) by blast
  moreover have "F - K = F" using K by auto
  ultimately have "fresh_core (unat n) F xs L h r b K ys" using ys k(2,4,5) rep by (simp add: fresh_core_def granted_def)
  then have "fresh_block (unat n) F K xs L h r"
    unfolding fresh_block_def using u by (intro exI [of _ b] exI [of _ K] exI [of _ ys]) auto
  then show ?thesis by (simp add: r_def u(2))
qed

text \<open>After a page was added the request is served from it, or from a block the list already had.\<close>

lemma fresh_after_grow:
  assumes fr: "fresh_block n (F - {p}) (insert p K) (c # xs) L t r" and p: "p \<in> F" "n \<le> bsz t c" "same_cfg (kh_pmm h) (kh_pmm t)"
    and eq: "g_fInit t = g_fInit h" "kh_byte t = kh_byte h" "\<forall>a \<in> L. kh_hdr t a = kh_hdr h a" and small: "\<forall>a \<in> set xs. bsz h a < n"
  shows "fresh_block n F K xs L h r"
proof -
  have "\<exists>a \<in> set (c # xs). n \<le> bsz t a" using p(2) by simp
  then obtain b ys where b: "fresh_core n (F - {p}) (c # xs) L t r b (insert p K) ys"
    using fr unfolding fresh_block_def by (simp only: if_P) blast
  have "F - {p} - insert p K = F - insert p K" by auto
  then have "fresh_core n F xs L h r b (insert p K) ys"
    using b eq same_cfg_trans [OF p(3)] unfolding fresh_core_def by auto
  moreover have "\<not> (\<exists>a \<in> set xs. n \<le> bsz h a)" using small by (auto simp: not_le)
  ultimately show ?thesis unfolding fresh_block_def using p(1) by (simp only: if_False) blast
qed

lemma alloc_loop_ok:
  assumes inv: "kh_inv K xs L h" and rep: "pmm_rep (kh_pmm h) F" and hh: "pg_fHhdm (kh_pmm h)" and F: "F \<subseteq> {..<2 ^ 34}" "F \<inter> K = {}"
    and n: "unat n \<le> 4072"
  shows "\<exists>r. alloc_loop n w h = Some r
    \<and> (if F = {} \<and> (\<forall>a \<in> set xs. bsz h a < unat n) then r = (0, h\<lparr>g_cFail := g_cFail h + 1\<rparr>) else fresh_block (unat n) F K xs L h r)"
proof -
  obtain b bp where b: "best_fit h n 0 (g_pFree h) 0 0 = Some (b, bp)" "fits (bsz h) (unat n) xs b bp" using best_fit_start [OF inv] by blast
  show ?thesis
  proof (cases "b = 0")
    case False
    then have "alloc_loop n w h = Some (alloc_best n w b bp h)" using b(1) by (subst alloc_loop.simps) simp
    moreover have "\<exists>a \<in> set xs. unat n \<le> bsz h a" using b(2) False by (auto simp: fits_def)
    ultimately show ?thesis using found_fresh [OF inv b(2) False n rep F(2)] by (auto simp: not_less)
  next
    case True
    have small: "\<forall>a \<in> set xs. bsz h a < unat n" using b(2) True by (auto simp: fits_def)
    obtain st t where g: "grow h = (st, t)" by fastforce
    from grow_ok [OF inv rep hh F g] show ?thesis
    proof
      assume "F = {} \<and> st = GJ_ERR_NOMEM \<and> t = h"
      then show ?thesis using small b(1) True g by (subst alloc_loop.simps) simp
    next
      assume a: "st = GJ_OK \<and> g_fInit t = g_fInit h \<and> kh_byte t = kh_byte h \<and> (\<forall>a \<in> L. kh_hdr t a = kh_hdr h a)
       \<and> (\<exists>p \<in> F. \<exists>a. kh_inv (insert p K) (a # xs) L t \<and> bsz t a = 4072 \<and> pmm_rep (kh_pmm t) (F - {p}) \<and> same_cfg (kh_pmm h) (kh_pmm t))"
      then obtain p c where p: "p \<in> F" "kh_inv (insert p K) (c # xs) L t" "bsz t c = 4072" "pmm_rep (kh_pmm t) (F - {p})" "same_cfg (kh_pmm h) (kh_pmm t)"
        by blast
      obtain d dp where d: "best_fit t n 0 (g_pFree t) 0 0 = Some (d, dp)" "fits (bsz t) (unat n) (c # xs) d dp" using best_fit_start [OF p(2)] by blast
      have d0: "d \<noteq> 0" using d(2) p(3) n by (auto simp: fits_def)
      have "alloc_loop n w h = alloc_loop n w t" using b(1) True g a by (subst alloc_loop.simps) simp
      also have "\<dots> = Some (alloc_best n w d dp t)" using d(1) d0 by (subst alloc_loop.simps) simp
      finally have e: "alloc_loop n w h = Some (alloc_best n w d dp t)" .
      have "(F - {p}) \<inter> insert p K = {}" using F(2) by auto
      from found_fresh [OF p(2) d(2) d0 n p(4) this, of w]
      have fr: "fresh_block (unat n) (F - {p}) (insert p K) (c # xs) L t (alloc_best n w d dp t)" .
      have "unat n \<le> bsz t c" using p(3) n by simp
      from fresh_after_grow [OF fr p(1) this p(5)] a small have "fresh_block (unat n) F K xs L h (alloc_best n w d dp t)" by blast
      then show ?thesis using e p(1) by auto
    qed
  qed
qed


section \<open>The interface\<close>

lemma unat_align16: "unat (a AND NOT 15) = unat a - unat a mod 16" for a :: u64
proof -
  have "a AND NOT 15 = a AND NOT (a AND 15)" by (auto simp: bit_eq_iff bit_simps)
  also have "\<dots> = a - (a AND 15)" by (rule disjunctive_diff [symmetric]) (simp add: bit_simps)
  finally have e: "a AND NOT 15 = a - (a AND 15)" .
  have t: "a AND 15 = take_bit 4 a" by (simp add: take_bit_eq_mask mask_eq_exp_minus_1)
  have m: "unat (a AND 15) = unat a mod 16" unfolding t by (simp only: unsigned_take_bit_eq take_bit_eq_mod [of 4 "unat a"]) simp
  then have "a AND 15 \<le> a" by (simp add: word_le_nat_alt)
  from unat_sub [OF this] show ?thesis by (simp only: e m)
qed

definition round16 :: "nat \<Rightarrow> nat" where
  "round16 n = 16 * ((n + 15) div 16)"

lemma align_up_exact: "unat cb + 15 < 2 ^ 64 \<Longrightarrow> unat (align_up cb) = round16 (unat cb)"
proof -
  assume "unat cb + 15 < 2 ^ 64"
  then have "unat (cb + 15) = unat cb + 15" by (subst unat_add_small) simp_all
  then show ?thesis unfolding align_up_def unat_align16 by (simp add: round16_def minus_mod_eq_mult_div)
qed

lemma align_up_wraps: "2 ^ 64 \<le> unat cb + 15 \<Longrightarrow> align_up cb = 0"
proof -
  assume a: "2 ^ 64 \<le> unat cb + 15"
  have "unat cb < 2 ^ 64" using unsigned_less [of cb] by simp
  then have "unat (cb + 15) = unat cb + 15 - 2 ^ 64" using a by (simp add: unat_word_ariths mod_if)
  then have "unat (align_up cb) = 0" using \<open>unat cb < 2 ^ 64\<close> unfolding align_up_def unat_align16 by simp
  then show ?thesis by (simp add: unat_eq_0)
qed

lemma kheap_alloc_ok:
  assumes inv: "kh_inv K xs L h" "g_fInit h" and rep: "pmm_rep (kh_pmm h) F" and hh: "pg_fHhdm (kh_pmm h)" and F: "F \<subseteq> {..<2 ^ 34}" "F \<inter> K = {}"
  shows "\<exists>r. kheap_alloc cb h = Some r
    \<and> (if cb = 0 \<or> 4072 < unat (align_up cb) \<or> (F = {} \<and> (\<forall>a \<in> set xs. bsz h a < unat (align_up cb))) then r = (0, h\<lparr>g_cFail := g_cFail h + 1\<rparr>)
       else fresh_block (unat (align_up cb)) F K xs L h r)"
proof (cases "cb = 0 \<or> 4072 < unat (align_up cb)")
  case True
  then show ?thesis using inv(2) by (auto simp: kheap_alloc_def Let_def word_less_nat_alt)
next
  case False
  then have "kheap_alloc cb h = alloc_loop (align_up cb) (align_up cb - cb) h" using inv(2) by (auto simp: kheap_alloc_def Let_def word_less_nat_alt)
  then show ?thesis using alloc_loop_ok [OF inv(1) rep hh F, of "align_up cb" "align_up cb - cb"] False by (auto simp: not_less)
qed

lemma kheap_free_live:
  assumes inv: "kh_inv K xs L h" "g_fInit h" and b: "b \<in> L"
  shows "kh_inv K (b # xs) (L - {b}) (kheap_free (b + 24) h)" and "zeroed (b + 24) (bsz h b) (kheap_free (b + 24) h)"
    and "\<forall>x. \<not> unat (x - (b + 24)) < bsz h b \<longrightarrow> kh_byte (kheap_free (b + 24) h) x = kh_byte h x"
    and "kh_pmm (kheap_free (b + 24) h) = kh_pmm h" "g_fInit (kheap_free (b + 24) h)" "\<forall>a. a \<noteq> b \<longrightarrow> kh_hdr (kheap_free (b + 24) h) a = kh_hdr h a"
    and "bsz (kheap_free (b + 24) h) b = bsz h b"
proof -
  note i = kh_invD [OF inv(1)]
  have bb: "b \<in> set xs \<union> L" using b by simp
  note tb = tile_bounds [OF i(6) bb]
  have p: "b + 24 \<noteq> 0"
  proof -
    have "unat (b + 24) = unat b + 24" using tb(2) by (subst unat_add_small) simp_all
    then show ?thesis by (auto dest!: arg_cong [of _ 0 unat])
  qed
  let ?t = "kheap_free (b + 24) h"
  have t: "?t = h\<lparr>g_cbSoftAlign := sub_or_zero (g_cbSoftAlign h) (ucast (kb_u16SoftAlign (kh_hdr h b))),
       g_cbSoftUnsplit := sub_or_zero (g_cbSoftUnsplit h) (ucast (kb_u16SoftUnsplit (kh_hdr h b))), g_cbUsed := sub_or_zero (g_cbUsed h) (kb_cbSize (kh_hdr h b)),
       kh_byte := (\<lambda>x. if x - (b + 24) < kb_cbSize (kh_hdr h b) then 0 else kh_byte h x),
       kh_hdr := (kh_hdr h)(b := (kh_hdr h b)\<lparr>kb_u32Magic := GJ_KHEAP_MAGIC_FREE, kb_u16SoftAlign := 0, kb_u16SoftUnsplit := 0, kb_pNext := g_pFree h\<rparr>),
       g_pFree := b, g_cbFree := g_cbFree h + kb_cbSize (kh_hdr h b), g_cFreeBlocks := g_cFreeBlocks h + 1, g_cFree := g_cFree h + 1\<rparr>"
    using p inv(2) i(5) b by (simp add: kheap_free_def Let_def block_from_payload_def payload_from_block_def zero_bytes_def upd_hdr_def cong: if_cong)
  show "kh_pmm ?t = kh_pmm h" "g_fInit ?t" "\<forall>a. a \<noteq> b \<longrightarrow> kh_hdr ?t a = kh_hdr h a" "bsz ?t b = bsz h b" using inv(2) by (simp_all add: t)
  show "zeroed (b + 24) (bsz h b) ?t" "\<forall>x. \<not> unat (x - (b + 24)) < bsz h b \<longrightarrow> kh_byte ?t x = kh_byte h x"
    by (auto simp: t zeroed_def word_less_nat_alt)
  have nb: "b \<notin> set xs" using b i(3) by auto
  have sz: "bsz ?t = bsz h" by (simp add: t fun_eq_iff)
  have "chain (nxt ?t) b (b # xs)"
  proof -
    have "chain (nxt ?t) (g_pFree h) xs = chain (nxt h) (g_pFree h) xs" by (rule chain_cong) (use nb in \<open>auto simp: t\<close>)
    then show ?thesis using i(1) tb(4) by (simp add: t)
  qed
  moreover have "set (b # xs) \<union> (L - {b}) = set xs \<union> L" using b by auto
  moreover have "unat (g_cbFree h + kb_cbSize (kh_hdr h b)) = unat (g_cbFree h) + bsz h b" "unat (g_cFreeBlocks h + 1) = unat (g_cFreeBlocks h) + 1"
    using kh_free_room [OF inv(1)] i(7,8) tb(3) by (subst unat_add_small; simp)+
  moreover have "(\<Sum>a \<in> L. bsz h a) = bsz h b + (\<Sum>a \<in> L - {b}. bsz h a)" by (rule sum.remove) (use b tiledD(1) [OF i(6)] in auto)
  ultimately show "kh_inv K (b # xs) (L - {b}) ?t"
    using i nb b unfolding kh_inv_def sz by (auto simp: t unat_sub_or_zero)
qed

lemma kheap_free_other:
  assumes "kh_inv K xs L h" "g_fInit h" and "p = 0 \<or> (\<exists>a \<in> set xs. p = a + 24)"
  shows "kheap_free p h = (if p = 0 then h else h\<lparr>g_cDoubleFree := g_cDoubleFree h + 1\<rparr>)"
proof (cases "p = 0")
  case False
  then obtain a where a: "a \<in> set xs" "p = a + 24" using assms(3) by auto
  then have "kb_u32Magic (kh_hdr h a) = GJ_KHEAP_MAGIC_FREE" using kh_invD(4) [OF assms(1)] by simp
  then show ?thesis using a False assms(2) by (simp add: kheap_free_def block_from_payload_def Let_def)
qed (simp add: kheap_free_def)

end
