(* ===== verification/Kheap_Props.thy ===== *)
theory Kheap_Props
  imports Kheap_Lemmas
begin

text \<open>
  The properties of the kernel heap over the running physical memory manager: what an allocation returns, what a free
  does, and that the live blocks stay apart and in pages of the heap over every sequence of requests.
\<close>

section \<open>Payloads\<close>

definition payload :: "kheap \<Rightarrow> u64 \<Rightarrow> nat set" where
  "payload h a = {unat a + 24..<unat a + 24 + bsz h a}"

text \<open>What the owner of a block can read.\<close>

definition data :: "kheap \<Rightarrow> u64 \<Rightarrow> u8 list" where
  "data h a = map (\<lambda>i. kh_byte h (a + 24 + of_nat i)) [0..<bsz h a]"

lemma payload_blk: "payload h a \<subseteq> blk_bytes (bsz h) a"
  by (auto simp: payload_def blk_bytes_def)

lemma payload_mem:
  assumes t: "tiled K B (bsz h)" "b \<in> B" and x: "unat (x - (b + 24)) < bsz h b"
  shows "unat x \<in> payload h b"
proof -
  note tb = tile_bounds [OF t]
  have b24: "unat (b + 24) = unat b + 24" using tb(2) by (subst unat_add_small) simp_all
  have "unat (b + 24 + (x - (b + 24))) = unat b + 24 + unat (x - (b + 24))"
    using tb(2) x by (subst unat_add_small) (simp_all add: b24)
  then have "unat x = unat b + 24 + unat (x - (b + 24))" by simp
  then show ?thesis using x by (simp add: payload_def)
qed

lemma unat_data_addr:
  assumes "tiled K B (bsz h)" "b \<in> B" and i: "i < bsz h b"
  shows "unat (b + 24 + of_nat i) = unat b + 24 + i"
proof -
  note tb = tile_bounds [OF assms(1,2)]
  have b24: "unat (b + 24) = unat b + 24" using tb(2) by (subst unat_add_small) simp_all
  have "unat (of_nat i :: u64) = i" using i tb(3) by (simp add: unat_of_nat take_bit_nat_eq_self)
  then show ?thesis using tb(2) i by (subst unat_add_small) (simp_all add: b24)
qed

text \<open>A change inside one block is not seen in another.\<close>

lemma data_apart:
  assumes t: "tiled K B (bsz t)" and ab: "a \<in> B" "b \<in> B" "a \<noteq> b" and hd: "kh_hdr t a = kh_hdr h a"
    and out: "\<And>x. \<not> unat (x - (b + 24)) < bsz t b \<Longrightarrow> kh_byte t x = kh_byte h x"
  shows "data t a = data h a"
proof -
  have "kh_byte t (a + 24 + of_nat i) = kh_byte h (a + 24 + of_nat i)" if i: "i < bsz t a" for i
  proof (rule out)
    have "unat (a + 24 + of_nat i) \<in> payload t a" using unat_data_addr [OF t ab(1) i] i by (simp add: payload_def)
    moreover have "payload t a \<inter> payload t b = {}"
      using disjoint_family_onD [OF tiledD(4) [OF t] ab] payload_blk by blast
    ultimately show "\<not> unat (a + 24 + of_nat i - (b + 24)) < bsz t b" using payload_mem [OF t ab(2)] by blast
  qed
  then show ?thesis by (simp add: data_def hd)
qed

lemma data_zeroed:
  assumes "zeroed (b + 24) (bsz h b) h" and "tiled K B (bsz h)" "b \<in> B"
  shows "data h b = replicate (bsz h b) 0"
proof -
  have "unat (of_nat i :: u64) = i" if "i < bsz h b" for i
    using that tile_bounds(3) [OF assms(2,3)] by (simp add: unat_of_nat take_bit_nat_eq_self)
  then show ?thesis using assms(1) by (intro nth_equalityI) (simp_all add: data_def zeroed_def)
qed

section \<open>The heap among the other clients\<close>

text \<open>
  A state of the system: the heap, the pages the other clients of the page allocator hold, the live blocks, and every
  block ever handed out.  A client frees what it was given, writes inside its live blocks, and may free twice.
\<close>

type_synonym heap_sys = "kheap \<times> nat set \<times> u64 set \<times> u64 set"

inductive heap_step :: "heap_sys \<Rightarrow> heap_sys \<Rightarrow> bool" where
  heap_alloc: "kheap_alloc cb h = Some (p, t) \<Longrightarrow>
    heap_step (h, own, L, S) (t, own, if p = 0 then L else insert (block_from_payload p) L, if p = 0 then S else insert (block_from_payload p) S)"
| heap_free: "p = 0 \<or> block_from_payload p \<in> S \<Longrightarrow> heap_step (h, own, L, S) (kheap_free p h, own, L - {block_from_payload p}, S)"
| heap_write: "b \<in> L \<Longrightarrow> unat (x - (b + 24)) < bsz h b \<Longrightarrow> heap_step (h, own, L, S) (h\<lparr>kh_byte := (kh_byte h)(x := v)\<rparr>, own, L, S)"
| heap_other: "pmm_step (kh_pmm h, own) (s, own') \<Longrightarrow> heap_step (h, own, L, S) (h\<lparr>kh_pmm := s\<rparr>, own', L, S)"

definition heap_boot :: "pmm_pending list \<Rightarrow> heap_sys \<Rightarrow> bool" where
  "heap_boot rs = (\<lambda>(h, own, L, S). (\<exists>g. h = kheap_init g) \<and> reach (booted rs) pmm_step (kh_pmm h, own) \<and> L = {} \<and> S = {}
     \<and> map_pages rs \<subseteq> {..<2 ^ 34})"

definition heap_ok :: "pmm_pending list \<Rightarrow> nat set \<Rightarrow> u64 list \<Rightarrow> heap_sys \<Rightarrow> bool" where
  "heap_ok rs K xs = (\<lambda>(h, own, L, S). kh_inv K xs L h \<and> g_fInit h \<and> L \<subseteq> S \<and> S \<subseteq> set xs \<union> L \<and> own \<inter> K = {}
     \<and> pmm_client_inv rs (kh_pmm h, own \<union> K) \<and> map_pages rs \<subseteq> {..<2 ^ 34})"

definition heap_inv :: "pmm_pending list \<Rightarrow> heap_sys \<Rightarrow> bool" where
  "heap_inv rs x \<longleftrightarrow> (\<exists>K xs. heap_ok rs K xs x)"

text \<open>The pages nobody holds.\<close>

definition spare :: "pmm_pending list \<Rightarrow> kheap \<Rightarrow> nat set \<Rightarrow> nat set" where
  "spare rs h held = boot_pages rs (kh_pmm h) - held"

lemma heap_okD:
  assumes "heap_ok rs K xs (h, own, L, S)"
  shows "kh_inv K xs L h" "g_fInit h" "L \<subseteq> S" "S \<subseteq> set xs \<union> L" "own \<inter> K = {}" "pmm_client_inv rs (kh_pmm h, own \<union> K)" "map_pages rs \<subseteq> {..<2 ^ 34}"
    "pmm_rep (kh_pmm h) (spare rs h (own \<union> K))" "pg_fHhdm (kh_pmm h)" "spare rs h (own \<union> K) \<subseteq> {..<2 ^ 34}" "spare rs h (own \<union> K) \<inter> K = {}"
    "own \<union> K \<subseteq> boot_pages rs (kh_pmm h)"
  using assms by (auto simp: heap_ok_def pmm_client_inv_def spare_def boot_pages_def)

lemma client_monotone:
  assumes "pmm_client_inv rs (s, own)" and "same_cfg s t" and "K \<subseteq> boot_pages rs s" and "pmm_rep t (boot_pages rs s - (own \<union> K))"
  shows "pmm_client_inv rs (t, own \<union> K)"
  using assms by (auto simp: pmm_client_inv_def same_cfg_def cfg_boot_pages [OF assms(2)])

section \<open>Requests\<close>

lemma payload_block [simp]: "block_from_payload (a + 24) = a"
  by (simp add: block_from_payload_def)

lemma heap_alloc_cases:
  assumes ok: "heap_ok rs K xs (h, own, L, S)"
  shows "\<exists>r. kheap_alloc cb h = Some r
    \<and> (if cb = 0 \<or> 4072 < unat (align_up cb) \<or> (spare rs h (own \<union> K) = {} \<and> (\<forall>a \<in> set xs. bsz h a < unat (align_up cb)))
       then r = (0, h\<lparr>g_cFail := g_cFail h + 1\<rparr>) else fresh_block (unat (align_up cb)) (spare rs h (own \<union> K)) K xs L h r)"
  using kheap_alloc_ok [OF heap_okD(1,2,8-11) [OF ok]] .

lemma heap_ok_fresh:
  assumes ok: "heap_ok rs K xs (h, own, L, S)" and f: "fresh_core n (spare rs h (own \<union> K)) xs L h (p, t) b K' ys"
    and K': "K' = K \<or> (\<exists>q \<in> spare rs h (own \<union> K). K' = insert q K)"
  shows "heap_ok rs K' ys (t, own, insert b L, insert b S)" and "p \<noteq> 0"
proof -
  note d = heap_okD [OF ok]
  have f': "p = b + 24" "kh_inv K' ys (insert b L) t" "set xs \<subseteq> insert b (set ys)" "pmm_rep (kh_pmm t) (spare rs h (own \<union> K) - K')"
    "same_cfg (kh_pmm h) (kh_pmm t)" "g_fInit t" using f d(2) by (auto simp: fresh_core_def)
  have sub: "own \<inter> K' = {}" "K \<subseteq> K'" "K' \<subseteq> boot_pages rs (kh_pmm h)" using K' d(5,12) by (auto simp: spare_def)
  have u: "own \<union> K \<union> K' = own \<union> K'" using sub(2) by auto
  have "boot_pages rs (kh_pmm h) - (own \<union> K') = spare rs h (own \<union> K) - K'" using sub(2) by (auto simp: spare_def)
  then have "pmm_client_inv rs (kh_pmm t, own \<union> K \<union> K')"
    using client_monotone [OF d(6) f'(5) sub(3)] f'(4) u by (metis)
  then show "heap_ok rs K' ys (t, own, insert b L, insert b S)"
    using f'(2,3,6) d(3,4,7) sub(1) u by (auto simp: heap_ok_def)
  have "b \<in> set ys \<union> insert b L" by simp
  note tb = tile_bounds [OF kh_invD(6) [OF f'(2)] this]
  have "unat (b + 24) = unat b + 24" using tb(2) by (subst unat_add_small) simp_all
  then show "p \<noteq> 0" using f'(1) by (auto dest!: arg_cong [of _ 0 unat])
qed

lemma heap_ok_fields [simp]:
  "heap_ok rs K xs (h\<lparr>g_cFail := v\<rparr>, y) = heap_ok rs K xs (h, y)" "heap_ok rs K xs (h\<lparr>g_cDoubleFree := v\<rparr>, y) = heap_ok rs K xs (h, y)"
  by (cases y; simp add: heap_ok_def)+

lemma fresh_blockE:
  assumes "fresh_block n F K xs L h r"
  obtains b K' ys where "fresh_core n F xs L h r b K' ys" "K' = K \<or> (\<exists>q \<in> F. K' = insert q K)"
  using assms unfolding fresh_block_def by (auto split: if_splits)

lemma heap_ok_alloc:
  assumes ok: "heap_ok rs K xs (h, own, L, S)" and r: "kheap_alloc cb h = Some (p, t)"
  shows "heap_inv rs (t, own, if p = 0 then L else insert (block_from_payload p) L, if p = 0 then S else insert (block_from_payload p) S)"
proof (cases "(p, t) = (0, h\<lparr>g_cFail := g_cFail h + 1\<rparr>)")
  case True
  then show ?thesis using ok by (auto simp: heap_inv_def)
next
  case False
  then have "fresh_block (unat (align_up cb)) (spare rs h (own \<union> K)) K xs L h (p, t)"
    using heap_alloc_cases [OF ok, of cb] r by (auto split: if_splits)
  then obtain b K' ys where f: "fresh_core (unat (align_up cb)) (spare rs h (own \<union> K)) xs L h (p, t) b K' ys"
    "K' = K \<or> (\<exists>q \<in> spare rs h (own \<union> K). K' = insert q K)" by (rule fresh_blockE)
  have "p = b + 24" using f(1) by (simp add: fresh_core_def)
  then show ?thesis using heap_ok_fresh [OF ok f] by (auto simp: heap_inv_def)
qed

lemma heap_ok_free:
  assumes ok: "heap_ok rs K xs (h, own, L, S)" and p: "p = 0 \<or> block_from_payload p \<in> S"
  shows "heap_inv rs (kheap_free p h, own, L - {block_from_payload p}, S)"
proof (cases "block_from_payload p \<in> L")
  case True
  let ?b = "block_from_payload p"
  note d = heap_okD [OF ok]
  have e: "p = ?b + 24" by (simp add: block_from_payload_def)
  note f = kheap_free_live [OF d(1,2) True, folded e]
  have "heap_ok rs K (?b # xs) (kheap_free p h, own, L - {?b}, S)"
    using f(1,4,5) d(3-7) True unfolding heap_ok_def by auto
  then show ?thesis by (auto simp: heap_inv_def)
next
  case False
  note d = heap_okD [OF ok]
  have "p = 0 \<or> (\<exists>a \<in> set xs. p = a + 24)"
  proof -
    have "block_from_payload p \<in> set xs" if "p \<noteq> 0" using p that False d(4) by auto
    then show ?thesis by (auto intro!: bexI [of _ "block_from_payload p"] simp: block_from_payload_def)
  qed
  from kheap_free_other [OF d(1,2) this] False ok show ?thesis by (auto simp: heap_inv_def)
qed

lemma promise_grant: "alloc_promise c s P pa t \<Longrightarrow> grant pa c \<subseteq> P"
  by (simp add: alloc_promise_def grant_def)

lemma heap_ok_other:
  assumes ok: "heap_ok rs K xs (h, own, L, S)" and st: "pmm_step (kh_pmm h, own) (s, own')"
  shows "heap_ok rs K xs (h\<lparr>kh_pmm := s\<rparr>, own', L, S)"
proof -
  note d = heap_okD [OF ok]
  have "pmm_step (kh_pmm h, own \<union> K) (s, own' \<union> K) \<and> own' \<subseteq> own \<union> spare rs h (own \<union> K)"
    using st
  proof (cases rule: pmm_step.cases)
    case (1 pa)
    then show ?thesis using promise_grant [OF pmm_alloc_promise [OF d(8) 1(2)]] pmm_step.intros(1) [OF 1(2), of "own \<union> K"] by (auto simp: ac_simps)
  next
    case (2 pa)
    then show ?thesis using promise_grant [OF pmm_alloc_high_promise [OF d(8) 2(2)]] pmm_step.intros(2) [OF 2(2), of "own \<union> K"] by (auto simp: ac_simps)
  next
    case (3 pa)
    then show ?thesis using promise_grant [OF pmm_alloc_low_promise [OF d(8) 3(2)]] pmm_step.intros(3) [OF 3(2), of "own \<union> K"] by (auto simp: ac_simps)
  next
    case (4 c pa)
    then show ?thesis using promise_grant [OF pmm_alloc_pages_promise(1) [OF d(8) 4(2)]] pmm_step.intros(4) [OF 4(2), of "own \<union> K"] by (auto simp: ac_simps)
  next
    case (5 c pa)
    then show ?thesis using promise_grant [OF conjunct1 [OF pmm_alloc_pages_low_promise [OF d(8) 5(2)]]] pmm_step.intros(5) [OF 5(2), of "own \<union> K"] by (auto simp: ac_simps)
  next
    case (6 pa)
    have "own \<union> K - {page pa} = own - {page pa} \<union> K" using 6 d(5) by auto
    then show ?thesis using pmm_step.intros(6) [of pa "own \<union> K" "kh_pmm h"] 6 by auto
  next
    case (7 pa c)
    have "own \<union> K - run_pages pa c = own - run_pages pa c \<union> K" using 7 d(5) by auto
    then show ?thesis using pmm_step.intros(7) [of pa c "own \<union> K" "kh_pmm h"] 7 by auto
  qed
  then have "pmm_client_inv rs (s, own' \<union> K)" "own' \<inter> K = {}" using client_step d(5,6) by (auto simp: spare_def)
  then show ?thesis using d(1-7) by (simp add: heap_ok_def)
qed

lemma heap_step_keeps: "heap_step x y \<Longrightarrow> heap_inv rs x \<Longrightarrow> heap_inv rs y"
proof (induction rule: heap_step.induct)
  case (heap_alloc cb h p t own L S)
  then show ?case using heap_ok_alloc unfolding heap_inv_def by metis
next
  case (heap_free p S h own L)
  then show ?case using heap_ok_free unfolding heap_inv_def by metis
next
  case (heap_write b L x h own S v)
  then show ?case by (auto simp: heap_inv_def heap_ok_def kh_inv_def)
next
  case (heap_other h own s own' L S)
  then show ?case using heap_ok_other unfolding heap_inv_def by metis
qed

lemma heap_boot_inv: "heap_boot rs x \<Longrightarrow> heap_inv rs x"
proof -
  assume "heap_boot rs x"
  then obtain g own where x: "x = (kheap_init g, own, {}, {})" "reach (booted rs) pmm_step (kh_pmm (kheap_init g), own)" "map_pages rs \<subseteq> {..<2 ^ 34}"
    by (auto simp: heap_boot_def)
  have "heap_ok rs {} [] x" using pmm_clients.reach_holds [OF x(2)] x(3) kheap_init_inv by (simp add: x(1) heap_ok_def kheap_init_def)
  then show ?thesis by (auto simp: heap_inv_def)
qed

interpretation kheap_clients: inv_system heap_step "heap_inv rs" "heap_boot rs" for rs
  by unfold_locales (fact heap_step_keeps, fact heap_boot_inv)


section \<open>The properties\<close>

lemma reach_heap_ok:
  assumes "reach (heap_boot rs) heap_step (h, own, L, S)"
  obtains K xs where "heap_ok rs K xs (h, own, L, S)"
  using kheap_clients.reach_holds [OF assms] by (auto simp: heap_inv_def)

text \<open>A concrete system: the heap on the small memory map, before and after its first allocation.\<close>

definition wit_heap :: kheap where
  "wit_heap = kheap_init \<lparr>kh_hdr = (\<lambda>_. \<lparr>kb_cbSize = 0, kb_u32Magic = 0, kb_u16SoftAlign = 0, kb_u16SoftUnsplit = 0, kb_pNext = 0\<rparr>),
     kh_byte = (\<lambda>_. 0xAA), kh_pmm = wit_pmm_boot, g_pFree = 0, g_cbUsed = 0, g_cbFree = 0, g_cFreeBlocks = 0, g_cbSoftAlign = 0,
     g_cbSoftUnsplit = 0, g_cAlloc = 0, g_cFree = 0, g_cGrow = 0, g_cSplit = 0, g_cFail = 0, g_cDoubleFree = 0, g_fInit = False\<rparr>"

lemma wit_heap_pmm: "kh_pmm wit_heap = wit_pmm_boot"
  by (simp add: wit_heap_def kheap_init_def)

lemma wit_heap_boot: "heap_boot wit_map (wit_heap, {}, {}, {})"
proof -
  have "\<exists>g. wit_heap = kheap_init g" unfolding wit_heap_def by (rule exI) (rule refl)
  moreover have "map_pages wit_map \<subseteq> {..<2 ^ 34}" unfolding wit_map_pages by auto
  ultimately show ?thesis using wit_pmm_boot_reach by (simp add: heap_boot_def wit_heap_pmm)
qed

lemma wit_heap_reach: "reach (heap_boot wit_map) heap_step (wit_heap, {}, {}, {})"
  by (rule reach_init) (rule wit_heap_boot)

lemma wit_heap_first:
  "\<exists>p t. kheap_alloc 100 wit_heap = Some (p, t) \<and> p \<noteq> 0
    \<and> reach (heap_boot wit_map) heap_step (t, {}, {block_from_payload p}, {block_from_payload p})"
proof -
  obtain K xs where ok: "heap_ok wit_map K xs (wit_heap, {}, {}, {})" using wit_heap_reach by (rule reach_heap_ok)
  have "g_pFree wit_heap = 0" by (simp add: wit_heap_def kheap_init_def)
  then have xs: "xs = []" using kh_invD(1) [OF heap_okD(1) [OF ok]] by (cases xs) auto
  have "K = {}" using tiledD(2,5) [OF kh_invD(6) [OF heap_okD(1) [OF ok]]] xs by simp
  then have "spare wit_map wit_heap ({} \<union> K) \<noteq> {}" by (simp add: spare_def wit_heap_pmm wit_pmm_boot_facts(3))
  moreover have "align_up 100 = 112" by (simp add: align_up_def)
  ultimately obtain p t where r: "kheap_alloc 100 wit_heap = Some (p, t)" "fresh_block 112 (spare wit_map wit_heap ({} \<union> K)) K xs {} wit_heap (p, t)"
    using heap_alloc_cases [OF ok, of 100] by auto
  have "p \<noteq> 0" using r(2) heap_ok_fresh(2) [OF ok] by (elim fresh_blockE) blast
  then show ?thesis using r(1) reach_step [OF wit_heap_reach heap_alloc [OF r(1)]] by auto
qed

lemma heap_bytes_total:
  assumes "kh_inv K xs L h"
  shows "unat (kheap_used_bytes h) + unat (kheap_free_bytes h) + 24 * (card L + unat (kheap_free_blocks h)) = 4096 * card K"
proof -
  note i = kh_invD [OF assms] and t = tiledD [OF kh_invD(6) [OF assms]]
  have "(\<Sum>a \<in> set xs \<union> L. 24 + bsz h a) = (\<Sum>a \<in> set xs. 24 + bsz h a) + (\<Sum>a \<in> L. 24 + bsz h a)"
    using t(1) i(3) by (intro sum.union_disjoint) auto
  then show ?thesis
    using t(5) i(7-9) distinct_card [OF i(2)]
    by (simp add: sum.distrib kheap_used_bytes_def kheap_free_bytes_def kheap_free_blocks_def)
qed

text \<open>
  C32: from boot on, over every sequence of allocations, frees, double frees, writes of the owners into their blocks and
  page requests of the other clients, the payloads of the live blocks are disjoint and each lies in one page that the
  heap took from the page allocator; no such page is free or held by another client; and the bytes in use, the free
  bytes and one header per block add up to the pages of the heap.
\<close>

theorem kheap_safe:
  assumes "reach (heap_boot rs) heap_step (h, own, L, S)"
  shows "\<exists>K. K \<subseteq> boot_pages rs (kh_pmm h) - own \<and> pmm_rep (kh_pmm h) (boot_pages rs (kh_pmm h) - (own \<union> K))
    \<and> (\<forall>b \<in> L. \<exists>p \<in> K. payload h b \<subseteq> page_bytes p) \<and> disjoint_family_on (payload h) L
    \<and> unat (kheap_used_bytes h) = (\<Sum>b \<in> L. bsz h b)
    \<and> unat (kheap_used_bytes h) + unat (kheap_free_bytes h) + 24 * (card L + unat (kheap_free_blocks h)) = 4096 * card K"
proof -
  obtain K xs where ok: "heap_ok rs K xs (h, own, L, S)" using assms by (rule reach_heap_ok)
  note d = heap_okD [OF ok]
  note t = tiledD [OF kh_invD(6) [OF d(1)]]
  have "\<forall>b \<in> L. \<exists>p \<in> K. payload h b \<subseteq> page_bytes p" using t(6) payload_blk by blast
  moreover have "disjoint_family_on (payload h) L"
    using t(4) payload_blk unfolding disjoint_family_on_def by blast
  ultimately show ?thesis
    using d(5,8,12) heap_bytes_total [OF d(1)] kh_invD(9) [OF d(1)] by (intro exI [of _ K]) (auto simp: spare_def kheap_used_bytes_def)
qed

theorem kheap_safe_witness:
  "\<exists>p t K. kheap_alloc 100 wit_heap = Some (p, t) \<and> K \<subseteq> boot_pages wit_map (kh_pmm t) \<and> (\<exists>q \<in> K. payload t (block_from_payload p) \<subseteq> page_bytes q)"
proof -
  obtain p t where "kheap_alloc 100 wit_heap = Some (p, t)" and r: "reach (heap_boot wit_map) heap_step (t, {}, {block_from_payload p}, {block_from_payload p})"
    using wit_heap_first by blast
  then show ?thesis using kheap_safe [OF r] by auto
qed

lemma round16_bound: "4072 < round16 n \<longleftrightarrow> 4064 < n"
proof -
  have "4072 < round16 n \<longleftrightarrow> 254 < (n + 15) div 16" unfolding round16_def by linarith
  also have "\<dots> \<longleftrightarrow> 4064 < n" by presburger
  finally show ?thesis .
qed

lemma fresh_data:
  assumes "fresh_core n F xs L h (p, t) b K' ys"
  shows "block_from_payload p = b" "b \<notin> L" "data t b = replicate (bsz t b) 0" "\<forall>a \<in> L. data t a = data h a" "n \<le> bsz t b" "bsz t b < n + 40"
proof -
  have f: "p = b + 24" "kh_inv K' ys (insert b L) t" "zeroed (b + 24) (bsz t b) t" "\<forall>a \<in> L. kh_hdr t a = kh_hdr h a" "b \<notin> L"
    "\<And>x. \<not> unat (x - (b + 24)) < bsz t b \<Longrightarrow> kh_byte t x = kh_byte h x" using assms by (auto simp: fresh_core_def)
  note t = kh_invD(6) [OF f(2)]
  show "block_from_payload p = b" "b \<notin> L" "n \<le> bsz t b" "bsz t b < n + 40" using assms by (auto simp: fresh_core_def)
  show "data t b = replicate (bsz t b) 0" by (rule data_zeroed [OF f(3) t]) simp
  have "data t a = data h a" if "a \<in> L" for a by (rule data_apart [OF t, of a b h]) (use that f(4-6) in auto)
  then show "\<forall>a \<in> L. data t a = data h a" by blast
qed

text \<open>
  C33: an allocation of a size whose rounding up to 16 does not wrap (\<open>cb + 15 < 2 ^ 64\<close>) always returns.  It gives NULL
  exactly when no byte or more than 4064 bytes are asked for, or when every page is taken and no free block is large enough,
  and then only the failure counter changes.  Otherwise it returns a block that was not live, zeroed, of the size asked for
  rounded up to 16 and less than 40 bytes more; the contents of the live blocks are unchanged, and the block is cut from a
  smallest free one that is large enough when there is one, else from a new page.
\<close>

theorem kheap_alloc_exact:
  assumes "reach (heap_boot rs) heap_step (h, own, L, S)" and "unat cb + 15 < 2 ^ 64"
  shows "\<exists>K xs p t. kh_inv K xs L h \<and> kheap_alloc cb h = Some (p, t)
    \<and> (p = 0 \<longleftrightarrow> cb = 0 \<or> 4064 < unat cb \<or> (boot_pages rs (kh_pmm h) = own \<union> K \<and> (\<forall>a \<in> set xs. bsz h a < round16 (unat cb))))
    \<and> (p = 0 \<longrightarrow> t = h\<lparr>g_cFail := g_cFail h + 1\<rparr>)
    \<and> (p \<noteq> 0 \<longrightarrow> (let b = block_from_payload p in b \<notin> L \<and> data t b = replicate (bsz t b) 0
         \<and> round16 (unat cb) \<le> bsz t b \<and> bsz t b < round16 (unat cb) + 40 \<and> (\<forall>a \<in> L. data t a = data h a)
         \<and> (if \<exists>a \<in> set xs. round16 (unat cb) \<le> bsz h a
            then b \<in> set xs \<and> (\<forall>a \<in> set xs. round16 (unat cb) \<le> bsz h a \<longrightarrow> bsz h b \<le> bsz h a)
            else \<exists>q \<in> boot_pages rs (kh_pmm h) - own. \<exists>ys. kh_inv (insert q K) ys (insert b L) t)))"
proof -
  obtain K xs where ok: "heap_ok rs K xs (h, own, L, S)" using assms(1) by (rule reach_heap_ok)
  note d = heap_okD [OF ok]
  have n: "unat (align_up cb) = round16 (unat cb)" using assms(2) by (rule align_up_exact)
  have sp: "spare rs h (own \<union> K) = {} \<longleftrightarrow> boot_pages rs (kh_pmm h) = own \<union> K" using d(12) by (auto simp: spare_def)
  let ?none = "cb = 0 \<or> 4064 < unat cb \<or> (boot_pages rs (kh_pmm h) = own \<union> K \<and> (\<forall>a \<in> set xs. bsz h a < round16 (unat cb)))"
  obtain p t where r: "kheap_alloc cb h = Some (p, t)"
    "if ?none then (p, t) = (0, h\<lparr>g_cFail := g_cFail h + 1\<rparr>) else fresh_block (round16 (unat cb)) (spare rs h (own \<union> K)) K xs L h (p, t)"
    using heap_alloc_cases [OF ok, of cb] unfolding n sp round16_bound by auto
  note c = d(1)
  show ?thesis
  proof (cases ?none)
    case True
    then show ?thesis using r c by (intro exI [of _ K] exI [of _ xs] exI [of _ p] exI [of _ t]) auto
  next
    case False
    then obtain b K' ys where f: "fresh_core (round16 (unat cb)) (spare rs h (own \<union> K)) xs L h (p, t) b K' ys"
      "if \<exists>a \<in> set xs. round16 (unat cb) \<le> bsz h a
       then K' = K \<and> b \<in> set xs \<and> round16 (unat cb) \<le> bsz h b \<and> (\<forall>a \<in> set xs. round16 (unat cb) \<le> bsz h a \<longrightarrow> bsz h b \<le> bsz h a)
       else \<exists>q \<in> spare rs h (own \<union> K). K' = insert q K"
      using r(2) unfolding fresh_block_def by (simp only: if_False) blast
    have "K' = K \<or> (\<exists>q \<in> spare rs h (own \<union> K). K' = insert q K)" using f(2) by (auto split: if_splits)
    note p = heap_ok_fresh [OF ok f(1) this]
    have "kh_inv K' ys (insert b L) t" using heap_okD(1) [OF p(1)] .
    then have "if \<exists>a \<in> set xs. round16 (unat cb) \<le> bsz h a
            then b \<in> set xs \<and> (\<forall>a \<in> set xs. round16 (unat cb) \<le> bsz h a \<longrightarrow> bsz h b \<le> bsz h a)
            else \<exists>q \<in> boot_pages rs (kh_pmm h) - own. \<exists>ys. kh_inv (insert q K) ys (insert b L) t"
      using f(2) by (auto simp: spare_def split: if_splits)
    then show ?thesis
      using r(1) c p(2) False fresh_data [OF f(1)] by (intro exI [of _ K] exI [of _ xs] exI [of _ p] exI [of _ t] conjI) (simp_all add: Let_def)
  qed
qed

theorem kheap_alloc_exact_witness:
  "\<exists>p t. kheap_alloc 100 wit_heap = Some (p, t) \<and> p \<noteq> 0 \<and> 112 \<le> bsz t (block_from_payload p)
    \<and> data t (block_from_payload p) = replicate (bsz t (block_from_payload p)) 0"
proof -
  have r: "unat (100 :: u64) = 100" "round16 100 = 112" by (simp_all add: round16_def)
  obtain p t where p: "kheap_alloc 100 wit_heap = Some (p, t)" "p \<noteq> 0" using wit_heap_first by blast
  show ?thesis using kheap_alloc_exact [OF wit_heap_reach, of 100] p by (auto simp: r Let_def)
qed

lemma free_counters:
  assumes "kh_inv K xs L h" and "kh_inv K (b # xs) (L - {b}) t" and "b \<in> L" and eq: "\<And>a. bsz t a = bsz h a"
  shows "unat (kheap_used_bytes h) = unat (kheap_used_bytes t) + bsz h b" and "unat (kheap_free_bytes t) = unat (kheap_free_bytes h) + bsz h b"
proof -
  note i = kh_invD [OF assms(1)] and j = kh_invD [OF assms(2)]
  have "finite L" using tiledD(1) [OF i(6)] by simp
  then have "(\<Sum>a \<in> L. bsz h a) = bsz h b + (\<Sum>a \<in> L - {b}. bsz h a)" by (rule sum.remove) (rule assms(3))
  then show "unat (kheap_used_bytes h) = unat (kheap_used_bytes t) + bsz h b" using i(9) j(9) by (simp add: kheap_used_bytes_def eq)
  have "b \<notin> set xs" using i(3) assms(3) by auto
  then show "unat (kheap_free_bytes t) = unat (kheap_free_bytes h) + bsz h b" using i(7) j(7) by (simp add: kheap_free_bytes_def eq)
qed

text \<open>
  Freeing a live block scrubs it, moves its bytes from the used to the free counter and leaves the contents of
  every other live block and the page allocator alone; freeing a block a second time, or NULL, changes nothing but the
  double-free counter.
\<close>

lemma kheap_free_exact:
  assumes "reach (heap_boot rs) heap_step (h, own, L, S)" and "p = 0 \<or> block_from_payload p \<in> S" and "t = kheap_free p h"
  shows "if block_from_payload p \<in> L
    then data t (block_from_payload p) = replicate (bsz h (block_from_payload p)) 0
      \<and> (\<forall>a \<in> L - {block_from_payload p}. data t a = data h a) \<and> kh_pmm t = kh_pmm h
      \<and> unat (kheap_used_bytes h) = unat (kheap_used_bytes t) + bsz h (block_from_payload p)
      \<and> unat (kheap_free_bytes t) = unat (kheap_free_bytes h) + bsz h (block_from_payload p)
    else t = (if p = 0 then h else h\<lparr>g_cDoubleFree := g_cDoubleFree h + 1\<rparr>)"
proof -
  obtain K xs where ok: "heap_ok rs K xs (h, own, L, S)" using assms(1) by (rule reach_heap_ok)
  note d = heap_okD [OF ok]
  define b where "b = block_from_payload p"
  have e: "p = b + 24" by (simp add: b_def block_from_payload_def)
  show ?thesis
  proof (cases "b \<in> L")
    case True
    have te: "kheap_free (b + 24) h = t" by (simp add: assms(3) e)
    note f = kheap_free_live [OF d(1,2) True, unfolded te]
    have bs: "b \<in> set (b # xs) \<union> (L - {b})" by simp
    have t: "tiled K (set (b # xs) \<union> (L - {b})) (bsz t)" using kh_invD(6) [OF f(1)] .
    have "data t b = replicate (bsz h b) 0" using data_zeroed [OF _ t bs] f(2,7) by simp
    moreover have "data t a = data h a" if "a \<in> L - {b}" for a
      by (rule data_apart [OF t, of a b h]) (use that f(3,6,7) in auto)
    moreover have "bsz t a = bsz h a" for a using f(6,7) by (cases "a = b") auto
    note free_counters [OF d(1) f(1) True this]
    ultimately show ?thesis using True f(4) by (simp add: b_def [symmetric])
  next
    case False
    have "p = 0 \<or> (\<exists>a \<in> set xs. p = a + 24)" using assms(2) False d(4) e by (auto simp: b_def [symmetric])
    from kheap_free_other [OF d(1,2) this] False show ?thesis by (simp add: assms(3) b_def [symmetric])
  qed
qed

text \<open>
  C34: a request for \<open>2 ^ 64 - 15\<close> bytes or more is not refused: the rounding wraps to 0 and, whenever a page is left or a
  block is free, the caller gets a block of less than 40 bytes.
\<close>

theorem kheap_alloc_wraps:
  assumes "reach (heap_boot rs) heap_step (h, own, L, S)" and "2 ^ 64 \<le> unat cb + 15"
    and "g_pFree h \<noteq> 0 \<or> 0 < g_cFramesFree (kh_pmm h)"
  shows "\<exists>p t. kheap_alloc cb h = Some (p, t) \<and> p \<noteq> 0 \<and> bsz t (block_from_payload p) < 40"
proof -
  obtain K xs where ok: "heap_ok rs K xs (h, own, L, S)" using assms(1) by (rule reach_heap_ok)
  note d = heap_okD [OF ok]
  have a: "align_up cb = 0" "cb \<noteq> 0" using align_up_wraps [OF assms(2)] assms(2) by auto
  have "spare rs h (own \<union> K) \<noteq> {} \<or> xs \<noteq> []"
    using assms(3) kh_invD(1) [OF d(1)] frames_free [OF d(8)] by (cases xs) (auto simp: word_less_nat_alt)
  then obtain p t where r: "kheap_alloc cb h = Some (p, t)" "fresh_block 0 (spare rs h (own \<union> K)) K xs L h (p, t)"
    using heap_alloc_cases [OF ok, of cb] a by (auto split: if_splits)
  obtain b K' ys where f: "fresh_core 0 (spare rs h (own \<union> K)) xs L h (p, t) b K' ys" "K' = K \<or> (\<exists>q \<in> spare rs h (own \<union> K). K' = insert q K)"
    using r(2) by (rule fresh_blockE)
  show ?thesis using r(1) fresh_data(1,6) [OF f(1)] heap_ok_fresh(2) [OF ok f] by auto
qed

theorem kheap_alloc_wraps_witness:
  "\<exists>p t. kheap_alloc 0xfffffffffffffff1 wit_heap = Some (p, t) \<and> p \<noteq> 0 \<and> bsz t (block_from_payload p) < 40"
proof -
  have "unat (g_cFramesFree (kh_pmm wit_heap)) = card ({256..<260} \<union> {1048576..<1048578 :: nat})"
    using frames_free [OF wit_pmm_boot_rep] by (simp add: wit_heap_pmm)
  also have "\<dots> = 6" by (subst card_Un_disjoint) auto
  finally have "0 < g_cFramesFree (kh_pmm wit_heap)" by (simp add: word_less_nat_alt)
  then show ?thesis by (intro kheap_alloc_wraps [OF wit_heap_reach]) simp_all
qed


section \<open>The diagnostic scan\<close>

definition scan_fold :: "kheap \<Rightarrow> u64 list \<Rightarrow> kheap_scan \<Rightarrow> kheap_scan" where
  "scan_fold h xs w = fold (\<lambda>a. scan_block (kh_hdr h a)) xs w"

lemma scan_loop_fold: "chain (nxt h) p xs \<Longrightarrow> scan_loop h p w = Some (scan_fold h xs w)"
proof (induction xs arbitrary: p w)
  case Nil
  then show ?case by (subst scan_loop.simps) (simp add: scan_fold_def)
next
  case (Cons a xs)
  then show ?case by (subst scan_loop.simps) (simp add: scan_fold_def)
qed

lemma scan_fold_exact:
  assumes "\<forall>a \<in> set xs. kb_u32Magic (kh_hdr h a) = GJ_KHEAP_MAGIC_FREE"
  shows "let w = scan_fold h xs \<lparr>sc_cbMin = 0, sc_cbMax = 0, sc_cbSum = 0, sc_cWalk = 0, sc_cBad = 0, sc_fFirst = True\<rparr>
    in sc_cbSum w = of_nat (\<Sum>a \<leftarrow> xs. bsz h a) \<and> sc_cWalk w = of_nat (length xs) \<and> sc_cBad w = 0 \<and> sc_fFirst w = (xs = [])
      \<and> (xs \<noteq> [] \<longrightarrow> sc_cbMin w = Min ((\<lambda>a. kb_cbSize (kh_hdr h a)) ` set xs) \<and> sc_cbMax w = Max ((\<lambda>a. kb_cbSize (kh_hdr h a)) ` set xs))"
  using assms
proof (induction xs rule: rev_induct)
  case Nil
  then show ?case by (simp add: scan_fold_def)
next
  case (snoc a xs)
  let ?f = "\<lambda>a. kb_cbSize (kh_hdr h a)"
  let ?i = "\<lparr>sc_cbMin = 0, sc_cbMax = 0, sc_cbSum = 0, sc_cWalk = 0, sc_cBad = 0, sc_fFirst = True\<rparr>"
  define w m n where "w = scan_fold h xs ?i" and "m = Min (?f ` set xs)" and "n = Max (?f ` set xs)"
  have st: "scan_fold h (xs @ [a]) ?i = scan_block (kh_hdr h a) w" by (simp add: scan_fold_def w_def)
  have e: "Min (?f ` set (xs @ [a])) = min (?f a) m" "Max (?f ` set (xs @ [a])) = max (?f a) n" if "xs \<noteq> []"
    using that by (simp_all add: m_def n_def)
  have ih: "sc_cbSum w = of_nat (\<Sum>a \<leftarrow> xs. bsz h a)" "sc_cWalk w = of_nat (length xs)" "sc_cBad w = 0" "sc_fFirst w = (xs = [])"
    "xs \<noteq> [] \<Longrightarrow> sc_cbMin w = m \<and> sc_cbMax w = n" using snoc by (simp_all add: Let_def w_def m_def n_def)
  have "kb_u32Magic (kh_hdr h a) = GJ_KHEAP_MAGIC_FREE" using snoc.prems by simp
  then show ?case
    unfolding st using ih e by (cases "xs = []") (auto simp: scan_block_def Let_def min_def max_def not_le simp del: set_append)
qed

text \<open>
  The diagnostic walk over the free list returns and, while there are fewer than \<open>2 ^ 32\<close> free blocks, its integrity
  lamp is always lit: no bad block, the sum of the sizes is the counter of free bytes, the length that of free blocks.
  The minimum and maximum it reports are those of the free list.
\<close>

lemma kheap_scan_agrees:
  assumes "reach (heap_boot rs) heap_step (h, own, L, S)" and "unat (kheap_free_blocks h) < 2 ^ 32"
  shows "soft_match_integ h = Some True
    \<and> (\<exists>w xs. soft_freelist_scan h = Some w \<and> chain (nxt h) (g_pFree h) xs
        \<and> (xs \<noteq> [] \<longrightarrow> sc_cbMin w = Min ((\<lambda>a. kb_cbSize (kh_hdr h a)) ` set xs) \<and> sc_cbMax w = Max ((\<lambda>a. kb_cbSize (kh_hdr h a)) ` set xs)))"
proof -
  obtain K xs where ok: "heap_ok rs K xs (h, own, L, S)" using assms(1) by (rule reach_heap_ok)
  note i = kh_invD [OF heap_okD(1) [OF ok]]
  define w where "w = scan_fold h xs \<lparr>sc_cbMin = 0, sc_cbMax = 0, sc_cbSum = 0, sc_cWalk = 0, sc_cBad = 0, sc_fFirst = True\<rparr>"
  have sc: "soft_freelist_scan h = Some w" using scan_loop_fold [OF i(1)] by (simp add: soft_freelist_scan_def w_def)
  note e = scan_fold_exact [OF i(4), unfolded Let_def, folded w_def]
  have "(\<Sum>a \<leftarrow> xs. bsz h a) = unat (g_cbFree h)" using i(2,7) by (simp add: sum_list_distinct_conv_sum_set)
  then have "sc_cbSum w = g_cbFree h" using e by simp
  moreover have "ucast (sc_cWalk w) = g_cFreeBlocks h"
  proof -
    have "unat (sc_cWalk w) = length xs" using e i(8) assms(2) by (simp add: kheap_free_blocks_def unat_of_nat take_bit_nat_eq_self)
    then have "unat (ucast (sc_cWalk w) :: u64) = unat (g_cFreeBlocks h)"
      using i(8) assms(2) by (simp add: kheap_free_blocks_def unsigned_ucast_eq take_bit_nat_eq_self)
    then show ?thesis by (simp only: word_unat_eq_iff)
  qed
  ultimately show ?thesis using e sc i(1) by (auto simp: soft_match_integ_def)
qed

end
