(* ===== verification/Thread_Block.thy ===== *)
theory Thread_Block
  imports GJ_Interfaces
begin

text \<open>
  Blocking and waking of kernel threads, from \<^verbatim>\<open>kernel/sched/thread.c\<close>: the fields of a thread
  that the synchronisation objects use, \<^verbatim>\<open>thread_block\<close> and \<^verbatim>\<open>thread_wake\<close>.  A block object is
  the address of a kernel structure; those of the futex table are named by their slot.
\<close>

section \<open>Model\<close>

abbreviation (input) GJ_MAX_THREADS :: nat where "GJ_MAX_THREADS \<equiv> 32"

datatype thr_state = GJ_THR_UNUSED | GJ_THR_RUNNABLE | GJ_THR_RUNNING | GJ_THR_BLOCKED | GJ_THR_EXITED

datatype block_obj = Obj_Futex nat | Obj_Other nat

text \<open>The fields of a process the threads look at; the processes are numbered.\<close>

record gj_process =
  pr_u64Cr3 :: u64
  pr_u32Alive :: u32

text \<open>
  A thread: \<open>th_u64Rsp\<close> is where the saved stack of a thread that does not run returns to, the first entry or the
  call of the scheduler that switched away from it; \<open>th_pfnEntry\<close> names the function of a kernel thread.  The
  stacks themselves are not part of the model.
\<close>

datatype resume_point = To_Trampoline | To_Schedule

record gj_thread =
  th_u32Id :: u32
  th_u32State :: thr_state
  th_pBlockObj :: "block_obj option"
  th_u32BlockTag :: u32
  th_pProc :: "nat option"
  th_u64Cr3 :: u64
  th_u64Rsp :: resume_point
  th_u32Flags :: u32
  th_pfnEntry :: "nat option"
  th_pArg :: u64
  th_u64UserRip :: u64
  th_u64UserRsp :: u64
  th_u64KstackTop :: u64
  th_u64SysUserRip :: u64
  th_u64SysUserRsp :: u64
  th_u64SysUserRflags :: u64
  th_u32SysUserValid :: bool

text \<open>\<^verbatim>\<open>memset(pThr, 0, sizeof *pThr)\<close>; the saved stack pointer is set up by the caller.\<close>

definition no_thread :: gj_thread where
  "no_thread = \<lparr>th_u32Id = 0, th_u32State = GJ_THR_UNUSED, th_pBlockObj = None, th_u32BlockTag = 0, th_pProc = None, th_u64Cr3 = 0,
     th_u64Rsp = To_Trampoline, th_u32Flags = 0, th_pfnEntry = None, th_pArg = 0, th_u64UserRip = 0, th_u64UserRsp = 0, th_u64KstackTop = 0,
     th_u64SysUserRip = 0, th_u64SysUserRsp = 0, th_u64SysUserRflags = 0, th_u32SysUserValid = False\<rparr>"

type_synonym threads = "gj_thread list"

definition thread_block :: "nat option \<Rightarrow> block_obj \<Rightarrow> u32 \<Rightarrow> threads \<Rightarrow> threads" where
  "thread_block cur pBlockObj u32Tag ts =
     (case cur of
        None \<Rightarrow> ts
      | Some t \<Rightarrow> ts[t := (ts ! t)\<lparr>th_pBlockObj := Some pBlockObj, th_u32BlockTag := u32Tag,
                                     th_u32State := GJ_THR_BLOCKED\<rparr>])"

definition wakes :: "block_obj \<Rightarrow> u32 \<Rightarrow> gj_thread \<Rightarrow> bool" where
  "wakes pBlockObj u32Tag pThr \<longleftrightarrow> th_u32State pThr = GJ_THR_BLOCKED \<and> th_pBlockObj pThr = Some pBlockObj
     \<and> \<not> (u32Tag \<noteq> 0 \<and> th_u32BlockTag pThr \<noteq> u32Tag)"

definition woken :: "gj_thread \<Rightarrow> gj_thread" where
  "woken pThr = pThr\<lparr>th_pBlockObj := None, th_u32BlockTag := 0, th_u32State := GJ_THR_RUNNABLE\<rparr>"

fun thread_wake_loop :: "block_obj \<Rightarrow> u32 \<Rightarrow> u32 \<Rightarrow> nat list \<Rightarrow> u32 \<Rightarrow> threads \<Rightarrow> u32 \<times> threads" where
  "thread_wake_loop pBlockObj u32Tag u32Max [] u32N ts = (u32N, ts)"
| "thread_wake_loop pBlockObj u32Tag u32Max (iThr # is) u32N ts =
     (if \<not> u32N < u32Max then (u32N, ts)
      else if wakes pBlockObj u32Tag (ts ! iThr)
        then thread_wake_loop pBlockObj u32Tag u32Max is (u32N + 1) (ts[iThr := woken (ts ! iThr)])
      else thread_wake_loop pBlockObj u32Tag u32Max is u32N ts)"

definition thread_wake :: "block_obj \<Rightarrow> u32 \<Rightarrow> u32 \<Rightarrow> threads \<Rightarrow> u32 \<times> threads" where
  "thread_wake pBlockObj u32Tag u32Max ts =
     thread_wake_loop pBlockObj u32Tag u32Max [0..<GJ_MAX_THREADS] 0 ts"

section \<open>Waking one thread\<close>

lemma wake_loop_none:
  "(\<And>i. i \<in> set is \<Longrightarrow> \<not> wakes ob tag (ts ! i)) \<Longrightarrow> thread_wake_loop ob tag m is n ts = (n, ts)"
  by (induction "is") auto

lemma wake_loop_done: "\<not> n < m \<Longrightarrow> thread_wake_loop ob tag m is n ts = (n, ts)"
  by (cases "is") auto

lemma wake_loop_first:
  assumes "t \<in> set is" and "wakes ob tag (ts ! t)" and "\<And>i. i \<in> set is \<Longrightarrow> i \<noteq> t \<Longrightarrow> \<not> wakes ob tag (ts ! i)"
  shows "thread_wake_loop ob tag 1 is 0 ts = (1, ts[t := woken (ts ! t)])"
  using assms by (induction "is") (auto simp: wake_loop_done)

text \<open>The thread blocked on an object that nobody else is blocked on.\<close>

lemma thread_wake_unique:
  assumes "t < GJ_MAX_THREADS" and "th_u32State (ts ! t) = GJ_THR_BLOCKED" and "th_pBlockObj (ts ! t) = Some ob"
    and "\<And>i. i < GJ_MAX_THREADS \<Longrightarrow> i \<noteq> t \<Longrightarrow> th_u32State (ts ! i) = GJ_THR_BLOCKED \<Longrightarrow> th_pBlockObj (ts ! i) \<noteq> Some ob"
  shows "thread_wake ob 0 1 ts = (1, ts[t := woken (ts ! t)])"
  unfolding thread_wake_def by (rule wake_loop_first) (use assms in \<open>auto simp: wakes_def\<close>)

lemma thread_wake_nobody:
  assumes "\<And>i. i < GJ_MAX_THREADS \<Longrightarrow> th_u32State (ts ! i) = GJ_THR_BLOCKED \<Longrightarrow> th_pBlockObj (ts ! i) \<noteq> Some ob"
  shows "thread_wake ob tag m ts = (0, ts)"
  unfolding thread_wake_def by (rule wake_loop_none) (use assms in \<open>auto simp: wakes_def\<close>)

section \<open>Waking everybody\<close>

lemma wake_loop_length: "length (snd (thread_wake_loop ob tag m is k ts)) = length ts"
  by (induction "is" arbitrary: k ts) (auto simp: Let_def)

lemma thread_wake_length [simp]: "length (snd (thread_wake ob tag m ts)) = length ts"
  by (simp add: thread_wake_def wake_loop_length)

text \<open>A wake changes threads only from blocked on the object to runnable.\<close>

lemma wake_loop_entry:
  "set is \<subseteq> {..<length ts} \<Longrightarrow> snd (thread_wake_loop ob tag m is k ts) ! t = ts ! t
     \<or> wakes ob tag (ts ! t) \<and> snd (thread_wake_loop ob tag m is k ts) ! t = woken (ts ! t)"
proof (induction "is" arbitrary: k ts)
  case (Cons i "is")
  have w: "\<not> wakes ob tag (woken x)" for x by (simp add: wakes_def woken_def)
  show ?case
    using Cons.IH [of ts k] Cons.IH [of "ts[i := woken (ts ! i)]" "k + 1"] Cons.prems w
    by (cases "i = t") (auto split: if_splits)
qed simp

lemma thread_wake_entry:
  assumes "length ts = GJ_MAX_THREADS"
  shows "snd (thread_wake ob tag m ts) ! t = ts ! t
    \<or> wakes ob tag (ts ! t) \<and> snd (thread_wake ob tag m ts) ! t = woken (ts ! t)"
  unfolding thread_wake_def by (rule wake_loop_entry) (auto simp: assms)

text \<open>With a budget for all that match, none is left.\<close>

lemma wake_loop_all:
  assumes "distinct is" and "set is \<subseteq> {..<length ts}"
    and "unat k + card {i \<in> set is. wakes ob tag (ts ! i)} \<le> unat m" and "t \<in> set is"
  shows "\<not> wakes ob tag (snd (thread_wake_loop ob tag m is k ts) ! t)"
  using assms
proof (induction "is" arbitrary: k ts)
  case (Cons i "is")
  let ?A = "\<lambda>ts. {j \<in> set is. wakes ob tag (ts ! j)}"
  have w: "\<not> wakes ob tag (woken x)" for x by (simp add: wakes_def woken_def)
  show ?case
  proof (cases "wakes ob tag (ts ! i)")
    case True
    let ?u = "ts[i := woken (ts ! i)]"
    have eq: "{j \<in> set (i # is). wakes ob tag (ts ! j)} = insert i (?A ts)" using True by auto
    have i: "i \<notin> ?A ts" using Cons.prems(1) by simp
    have "unat k + 1 + card (?A ts) \<le> unat m" using Cons.prems(3) i unfolding eq by simp
    moreover from this have "k < m" by (simp add: word_less_nat_alt)
    moreover from this have k: "unat (k + 1) = unat k + 1" using unat_inc less_inc_nonzero by fastforce
    moreover have "?u ! j = ts ! j" if "j \<in> set is" for j using that Cons.prems(1) by (cases "i = j") auto
    then have "?A ?u = ?A ts" by auto
    ultimately have r: "snd (thread_wake_loop ob tag m (i # is) k ts) = snd (thread_wake_loop ob tag m is (k + 1) ?u)"
      and c: "unat (k + 1) + card (?A ?u) \<le> unat m" using True by simp_all
    show ?thesis
    proof (cases "t = i")
      case True
      have "\<not> wakes ob tag (?u ! t)" using Cons.prems(2) True w by simp
      with wake_loop_entry [of "is" ?u ob tag m "k + 1" t] Cons.prems(2) w show ?thesis unfolding r by auto
    next
      case False
      with Cons.IH [OF _ _ c] Cons.prems show ?thesis unfolding r by auto
    qed
  next
    case False
    then have eq: "{j \<in> set (i # is). wakes ob tag (ts ! j)} = ?A ts" by auto
    show ?thesis
    proof (cases "k < m")
      case True
      have r: "snd (thread_wake_loop ob tag m (i # is) k ts) = snd (thread_wake_loop ob tag m is k ts)"
        using False True by simp
      show ?thesis
      proof (cases "t = i")
        case True
        with wake_loop_entry [of "is" ts ob tag m k t] Cons.prems(2) False w show ?thesis unfolding r by auto
      next
        case False
        with Cons.IH [of ts k] Cons.prems show ?thesis unfolding r eq by auto
      qed
    next
      case m: False
      then have "card (?A ts) = 0" using Cons.prems(3) unfolding eq word_less_nat_alt by linarith
      then have "?A ts = {}" by simp
      with False Cons.prems(4) m show ?thesis by auto
    qed
  qed
qed simp

lemma thread_wake_all:
  assumes "length ts = GJ_MAX_THREADS" and "card {i. i < GJ_MAX_THREADS \<and> wakes ob tag (ts ! i)} \<le> unat m"
    and "t < GJ_MAX_THREADS"
  shows "\<not> wakes ob tag (snd (thread_wake ob tag m ts) ! t)"
proof -
  have "{i \<in> set [0..<GJ_MAX_THREADS]. wakes ob tag (ts ! i)} = {i. i < GJ_MAX_THREADS \<and> wakes ob tag (ts ! i)}"
    by auto
  then show ?thesis unfolding thread_wake_def
    by (intro wake_loop_all) (use assms in \<open>simp_all add: atLeast0LessThan lessThan_def\<close>)
qed

text \<open>How many threads a wake takes off the list.\<close>

lemma wake_loop_count:
  assumes "distinct is" and "set is \<subseteq> {..<length ts}" and "unat k \<le> unat m"
  shows "unat (fst (thread_wake_loop ob tag m is k ts)) = min (unat m) (unat k + card {i \<in> set is. wakes ob tag (ts ! i)})"
  using assms
proof (induction "is" arbitrary: k ts)
  case (Cons i "is")
  let ?A = "\<lambda>ts. {j \<in> set is. wakes ob tag (ts ! j)}"
  show ?case
  proof (cases "k < m \<and> wakes ob tag (ts ! i)")
    case True
    let ?u = "ts[i := woken (ts ! i)]"
    have "?u ! j = ts ! j" if "j \<in> set is" for j using that Cons.prems(1) by (cases "i = j") auto
    then have A: "?A ?u = ?A ts" by auto
    have eq: "{j \<in> set (i # is). wakes ob tag (ts ! j)} = insert i (?A ts)" and i: "i \<notin> ?A ts"
      using True Cons.prems(1) by auto
    have k: "unat (k + 1) = unat k + 1" using True unat_inc less_inc_nonzero by fastforce
    then have "unat (k + 1) \<le> unat m" using True by (simp add: word_less_nat_alt)
    with Cons.IH [of ?u "k + 1"] Cons.prems k A i True show ?thesis unfolding eq by simp
  next
    case False
    show ?thesis
    proof (cases "k < m")
      case True
      with False have "{j \<in> set (i # is). wakes ob tag (ts ! j)} = ?A ts" by auto
      with True False Cons.IH [of ts k] Cons.prems show ?thesis by simp
    next
      case m: False
      then show ?thesis using Cons.prems(3) by (simp add: word_less_nat_alt)
    qed
  qed
qed simp


lemma wake_loop_rest:
  assumes "distinct is" and "set is \<subseteq> {..<length ts}" and "unat k \<le> unat m"
  shows "card {i \<in> set is. wakes ob tag (snd (thread_wake_loop ob tag m is k ts) ! i)}
      + unat (fst (thread_wake_loop ob tag m is k ts)) = card {i \<in> set is. wakes ob tag (ts ! i)} + unat k"
  using assms
proof (induction "is" arbitrary: k ts)
  case (Cons i "is")
  let ?A = "\<lambda>ts. {j \<in> set is. wakes ob tag (ts ! j)}"
  have w: "\<not> wakes ob tag (woken x)" for x by (simp add: wakes_def woken_def)
  show ?case
  proof (cases "k < m \<and> wakes ob tag (ts ! i)")
    case True
    let ?u = "ts[i := woken (ts ! i)]" let ?r = "thread_wake_loop ob tag m is (k + 1) ?u"
    have r: "thread_wake_loop ob tag m (i # is) k ts = ?r" using True by simp
    have "?u ! j = ts ! j" if "j \<in> set is" for j using that Cons.prems(1) by (cases "i = j") auto
    then have A: "?A ?u = ?A ts" by auto
    have eq: "{j \<in> set (i # is). wakes ob tag (ts ! j)} = insert i (?A ts)" and i: "i \<notin> ?A ts"
      using True Cons.prems(1) by auto
    have "\<not> wakes ob tag (snd ?r ! i)"
      using wake_loop_entry [of "is" ?u ob tag m "k + 1" i] Cons.prems(2) w by auto
    then have eq': "{j \<in> set (i # is). wakes ob tag (snd ?r ! j)} = ?A (snd ?r)" by auto
    have k: "unat (k + 1) = unat k + 1" using True unat_inc less_inc_nonzero by fastforce
    then have "unat (k + 1) \<le> unat m" using True by (simp add: word_less_nat_alt)
    with Cons.IH [of ?u "k + 1"] Cons.prems k A i show ?thesis unfolding r eq eq' by simp
  next
    case False
    show ?thesis
    proof (cases "k < m")
      case True
      let ?r = "thread_wake_loop ob tag m is k ts"
      have r: "thread_wake_loop ob tag m (i # is) k ts = ?r" and n: "\<not> wakes ob tag (ts ! i)" using True False by auto
      have "\<not> wakes ob tag (snd ?r ! i)"
        using wake_loop_entry [of "is" ts ob tag m k i] Cons.prems(2) n w by auto
      then have "{j \<in> set (i # is). wakes ob tag (snd ?r ! j)} = ?A (snd ?r)"
        "{j \<in> set (i # is). wakes ob tag (ts ! j)} = ?A ts" using n by auto
      with Cons.IH [of ts k] Cons.prems show ?thesis unfolding r by simp
    qed (simp add: False)
  qed
qed simp

end
