(* ===== verification/Futex.thy ===== *)
theory Futex
  imports Thread_Block User_Copy
begin

text \<open>
  Fast user-space mutexes, \<^verbatim>\<open>kernel/sync/futex.c\<close>: keys, the waiter table, wait and wake with
  bitsets and deadlines, the timer check, and the robust lists walked at thread exit.  The user
  word a wait compares can change under the kernel's feet, so a wait takes the memory it sees at
  each of its three loads.  The state also carries what the code reads from elsewhere: the thread
  table, the running thread, the clock, the active page-table root and the translation of virtual
  addresses under a root (\<^verbatim>\<open>vmm_virt_to_phys\<close>).
\<close>

section \<open>Data\<close>

abbreviation (input) GJ_FUTEX_MAX_WAITERS :: nat where "GJ_FUTEX_MAX_WAITERS \<equiv> 64"
abbreviation (input) GJ_FUTEX_ROBUST_SLOTS :: nat where "GJ_FUTEX_ROBUST_SLOTS \<equiv> 32"
abbreviation (input) GJ_FUTEX_ROBUST_WALK_MAX :: nat where "GJ_FUTEX_ROBUST_WALK_MAX \<equiv> 64"
abbreviation (input) GJ_FUTEX_BITSET_MATCH_ANY :: u32 where "GJ_FUTEX_BITSET_MATCH_ANY \<equiv> 0xffffffff"
abbreviation (input) GJ_FUTEX_OWNER_DIED :: u32 where "GJ_FUTEX_OWNER_DIED \<equiv> 0x40000000"
abbreviation (input) GJ_FUTEX_TID_MASK :: u32 where "GJ_FUTEX_TID_MASK \<equiv> 0x3fffffff"

abbreviation (input) LINUX_EAGAIN :: int where "LINUX_EAGAIN \<equiv> 11"
abbreviation (input) LINUX_ENOMEM :: int where "LINUX_ENOMEM \<equiv> 12"
abbreviation (input) LINUX_EINVAL :: int where "LINUX_EINVAL \<equiv> 22"
abbreviation (input) LINUX_ETIMEDOUT :: int where "LINUX_ETIMEDOUT \<equiv> 110"

record gj_futex_key =
  k_u64Phys :: u64
  k_u64Uaddr :: u64
  k_u64As :: u64
  k_u8Private :: bool

record futex_waiter =
  w_u8Used :: bool
  w_u8Waiting :: bool
  w_u32Val :: u32
  w_u32Bitset :: u32
  w_u32TimedOut :: bool
  w_key :: gj_futex_key
  w_pThr :: "nat option"
  w_u64Deadline :: u64

record futex_robust_slot =
  r_u8Used :: bool
  r_u32Tid :: u32
  r_u64Head :: u64
  r_u64Len :: u64

record futex_state =
  fx_aWaiters :: "futex_waiter list"
  fx_aRobust :: "futex_robust_slot list"
  fx_threads :: threads
  fx_procs :: "nat \<Rightarrow> gj_process"
  fx_cur :: "nat option"
  fx_us :: uspace
  fx_timer_ready :: bool
  fx_now :: u64
  fx_cr3 :: u64
  fx_v2p :: "u64 \<Rightarrow> u64 \<Rightarrow> u64"

definition no_key :: gj_futex_key where
  "no_key = \<lparr>k_u64Phys = 0, k_u64Uaddr = 0, k_u64As = 0, k_u8Private = False\<rparr>"

definition no_waiter :: futex_waiter where
  "no_waiter = \<lparr>w_u8Used = False, w_u8Waiting = False, w_u32Val = 0, w_u32Bitset = 0, w_u32TimedOut = False,
     w_key = no_key, w_pThr = None, w_u64Deadline = 0\<rparr>"

definition no_robust :: futex_robust_slot where
  "no_robust = \<lparr>r_u8Used = False, r_u32Tid = 0, r_u64Head = 0, r_u64Len = 0\<rparr>"

definition futex_init :: "futex_state \<Rightarrow> futex_state" where
  "futex_init s = s\<lparr>fx_aWaiters := replicate GJ_FUTEX_MAX_WAITERS no_waiter,
     fx_aRobust := replicate GJ_FUTEX_ROBUST_SLOTS no_robust\<rparr>"

definition upd_waiter :: "nat \<Rightarrow> (futex_waiter \<Rightarrow> futex_waiter) \<Rightarrow> futex_state \<Rightarrow> futex_state" where
  "upd_waiter i f s = s\<lparr>fx_aWaiters := (fx_aWaiters s)[i := f (fx_aWaiters s ! i)]\<rparr>"

definition upd_robust :: "nat \<Rightarrow> (futex_robust_slot \<Rightarrow> futex_robust_slot) \<Rightarrow> futex_state \<Rightarrow> futex_state" where
  "upd_robust i f s = s\<lparr>fx_aRobust := (fx_aRobust s)[i := f (fx_aRobust s ! i)]\<rparr>"

definition upd_thread :: "nat \<Rightarrow> (gj_thread \<Rightarrow> gj_thread) \<Rightarrow> futex_state \<Rightarrow> futex_state" where
  "upd_thread t f s = s\<lparr>fx_threads := (fx_threads s)[t := f (fx_threads s ! t)]\<rparr>"

text \<open>\<^verbatim>\<open>thread_wake(pW, 0, 1)\<close>.\<close>

definition wake_slot :: "nat \<Rightarrow> futex_state \<Rightarrow> futex_state" where
  "wake_slot i s = s\<lparr>fx_threads := snd (thread_wake (Obj_Futex i) 0 1 (fx_threads s))\<rparr>"

section \<open>User words\<close>

definition futex_load_u32 :: "u64 option \<Rightarrow> uspace \<Rightarrow> u32" where
  "futex_load_u32 pU32 us =
     (case pU32 of
        None \<Rightarrow> 0
      | Some a \<Rightarrow>
          (case user_load_u32 a us of
             Inr u32Val \<Rightarrow> u32Val
           | Inl _ \<Rightarrow> load32 (us_mem us) a))"

text \<open>\<open>False\<close> is the C result -1.\<close>

definition futex_store_u32 :: "u64 \<Rightarrow> u32 \<Rightarrow> uspace \<Rightarrow> bool \<times> uspace" where
  "futex_store_u32 u64Uaddr u32Val us =
     (case user_store_u32 u64Uaddr u32Val us of
        (st, us') \<Rightarrow>
          if st = GJ_OK then (True, us')
          else if u64Uaddr \<noteq> 0 then (True, us'\<lparr>us_mem := store32 u64Uaddr u32Val (us_mem us')\<rparr>)
          else (False, us'))"

section \<open>Keys\<close>

text \<open>\<^verbatim>\<open>pThr->pProc->u64Cr3\<close>, none for a thread of no process.\<close>

definition proc_root :: "futex_state \<Rightarrow> gj_thread \<Rightarrow> u64 option" where
  "proc_root s pThr = map_option (\<lambda>p. pr_u64Cr3 (fx_procs s p)) (th_pProc pThr)"

definition futex_as_id :: "futex_state \<Rightarrow> u64" where
  "futex_as_id s =
     (case fx_cur s of
        None \<Rightarrow> fx_cr3 s
      | Some t \<Rightarrow>
          (let pThr = fx_threads s ! t
           in case proc_root s pThr of
                Some cr3 \<Rightarrow> if cr3 \<noteq> 0 then cr3 else if th_u64Cr3 pThr \<noteq> 0 then th_u64Cr3 pThr else fx_cr3 s
              | None \<Rightarrow> if th_u64Cr3 pThr \<noteq> 0 then th_u64Cr3 pThr else fx_cr3 s))"

text \<open>The translation runs under the page-table root \<open>cr3\<close>.\<close>

definition futex_resolve_pa :: "u64 \<Rightarrow> u64 \<Rightarrow> futex_state \<Rightarrow> u64" where
  "futex_resolve_pa cr3 u64Uaddr s =
     (let pa = fx_v2p s cr3 u64Uaddr
      in if pa \<noteq> 0 then pa
         else if u64Uaddr \<noteq> 0 \<and> u64Uaddr < 0x40000000 then u64Uaddr
         else 0)"

definition futex_key_set_shared :: "u64 \<Rightarrow> u64 \<Rightarrow> gj_futex_key" where
  "futex_key_set_shared u64Uaddr pa = \<lparr>k_u64Phys = pa, k_u64Uaddr = u64Uaddr, k_u64As = 0, k_u8Private = False\<rparr>"

definition key_eq :: "gj_futex_key \<Rightarrow> gj_futex_key \<Rightarrow> bool" where
  "key_eq pA pB \<longleftrightarrow>
     (if k_u8Private pA \<noteq> k_u8Private pB then False
      else if k_u8Private pA then k_u64Uaddr pA = k_u64Uaddr pB \<and> k_u64As pA = k_u64As pB
      else if k_u64Phys pA = 0 \<or> k_u64Phys pB = 0 then False
      else k_u64Phys pA = k_u64Phys pB)"

definition futex_key_from_uaddr_proc :: "u64 \<Rightarrow> bool \<Rightarrow> u64 option \<Rightarrow> futex_state \<Rightarrow> gj_status + gj_futex_key" where
  "futex_key_from_uaddr_proc u64Uaddr fPrivate pProc s =
     (if u64Uaddr AND 3 \<noteq> 0 then Inl GJ_ERR_INVAL
      else if fPrivate then
        Inr \<lparr>k_u64Phys = 0, k_u64Uaddr = u64Uaddr,
              k_u64As = (case pProc of Some cr3 \<Rightarrow> if cr3 \<noteq> 0 then cr3 else futex_as_id s | None \<Rightarrow> futex_as_id s),
              k_u8Private = True\<rparr>
      else
        (let cr3 =
           (case pProc of
              Some c \<Rightarrow> if c \<noteq> 0 \<and> c \<noteq> fx_cr3 s then c else fx_cr3 s
            | None \<Rightarrow>
                (case fx_cur s of
                   None \<Rightarrow> fx_cr3 s
                 | Some t \<Rightarrow>
                     (case proc_root s (fx_threads s ! t) of
                        Some c \<Rightarrow> if c \<noteq> 0 \<and> c \<noteq> fx_cr3 s then c else fx_cr3 s
                      | None \<Rightarrow> fx_cr3 s)));
             pa = futex_resolve_pa cr3 u64Uaddr s
         in if pa = 0 then Inl GJ_ERR_FAULT else Inr (futex_key_set_shared u64Uaddr pa)))"

definition futex_key_from_uaddr :: "u64 \<Rightarrow> bool \<Rightarrow> futex_state \<Rightarrow> gj_status + gj_futex_key" where
  "futex_key_from_uaddr u64Uaddr fPrivate s =
     futex_key_from_uaddr_proc u64Uaddr fPrivate
       (case fx_cur s of None \<Rightarrow> None | Some t \<Rightarrow> proc_root s (fx_threads s ! t)) s"

section \<open>Waiting\<close>

definition unblock :: "nat \<Rightarrow> gj_thread \<Rightarrow> gj_thread" where
  "unblock i pThr =
     (if th_u32State pThr = GJ_THR_BLOCKED \<and> th_pBlockObj pThr = Some (Obj_Futex i)
      then pThr\<lparr>th_pBlockObj := None, th_u32BlockTag := 0, th_u32State := GJ_THR_RUNNING\<rparr>
      else pThr)"

definition waiter_cancel_blocked :: "nat \<Rightarrow> futex_state \<Rightarrow> futex_state" where
  "waiter_cancel_blocked i s =
     (let s' = upd_waiter i (\<lambda>w. w\<lparr>w_u8Waiting := False, w_u8Used := False, w_u32TimedOut := False, w_u32Bitset := 0\<rparr>) s
      in case w_pThr (fx_aWaiters s ! i) of
           None \<Rightarrow> s'
         | Some t \<Rightarrow> upd_thread t (unblock i) s')"

definition waiter_drop :: "nat \<Rightarrow> futex_state \<Rightarrow> futex_state" where
  "waiter_drop i s = upd_waiter i (\<lambda>w. w\<lparr>w_u8Used := False, w_u8Waiting := False, w_u32Bitset := 0\<rparr>) s"

text \<open>
  \<^verbatim>\<open>futex_wait_common\<close> up to its call of the scheduler: a result, or the slot the thread parks
  on.  \<open>um k\<close> is user memory at the \<open>k\<close>-th load of the word: before the table lock, under it,
  and after the thread is marked blocked.
\<close>

datatype wait_outcome = Ret int | Park nat

definition futex_wait_common ::
  "(nat \<Rightarrow> uspace) \<Rightarrow> u64 option \<Rightarrow> u32 \<Rightarrow> gj_futex_key option \<Rightarrow> u64 \<Rightarrow> u32 \<Rightarrow> futex_state
     \<Rightarrow> wait_outcome \<times> futex_state" where
  "futex_wait_common um pU32 u32Val pKey u64DeadlineMonoNsec u32Bitset s =
     (case pKey of
        None \<Rightarrow> (Ret (- LINUX_EINVAL), s)
      | Some key \<Rightarrow>
          if pU32 = None then (Ret (- LINUX_EINVAL), s)
          else if k_u64Uaddr key AND 3 \<noteq> 0 then (Ret (- LINUX_EINVAL), s)
          else if u32Bitset = 0 then (Ret (- LINUX_EINVAL), s)
          else if \<not> k_u8Private key \<and> k_u64Phys key = 0 then (Ret (- LINUX_EINVAL), s)
          else
            (case fx_cur s of
               None \<Rightarrow> (Ret (- LINUX_EINVAL), s)
             | Some pThr \<Rightarrow>
                 if futex_load_u32 pU32 (um 0) \<noteq> u32Val then (Ret (- LINUX_EAGAIN), s)
                 else
                   (case find (\<lambda>i. \<not> w_u8Used (fx_aWaiters s ! i)) [0..<GJ_FUTEX_MAX_WAITERS] of
                      None \<Rightarrow> (Ret (- LINUX_ENOMEM), s)
                    | Some i \<Rightarrow>
                        if futex_load_u32 pU32 (um 1) \<noteq> u32Val then (Ret (- LINUX_EAGAIN), s)
                        else
                          (let s = upd_waiter i (\<lambda>w. w\<lparr>w_u8Used := True, w_u8Waiting := True, w_u32Val := u32Val,
                                     w_u32Bitset := u32Bitset, w_key := key, w_pThr := Some pThr,
                                     w_u64Deadline := u64DeadlineMonoNsec, w_u32TimedOut := False\<rparr>) s
                           in if u64DeadlineMonoNsec \<noteq> 0 \<and> fx_timer_ready s \<and> u64DeadlineMonoNsec \<le> fx_now s
                              then (Ret (- LINUX_ETIMEDOUT), waiter_drop i s)
                              else
                                (let s = s\<lparr>fx_threads := thread_block (Some pThr) (Obj_Futex i) 0 (fx_threads s)\<rparr>
                                 in if futex_load_u32 pU32 (um 2) \<noteq> u32Val
                                    then (Ret (- LINUX_EAGAIN), waiter_cancel_blocked i s)
                                    else if \<not> w_u8Waiting (fx_aWaiters s ! i) then
                                      (Ret (if w_u32TimedOut (fx_aWaiters s ! i) then - LINUX_ETIMEDOUT else 0),
                                       upd_thread pThr
                                         (\<lambda>p. if th_u32State p = GJ_THR_BLOCKED \<and> th_pBlockObj p = Some (Obj_Futex i)
                                               then unblock i p
                                               else if th_u32State p = GJ_THR_RUNNABLE then p\<lparr>th_u32State := GJ_THR_RUNNING\<rparr>
                                               else p)
                                         (waiter_drop i s))
                                    else (Park i, s))))))"

text \<open>The rest of \<^verbatim>\<open>futex_wait_common\<close>, once the scheduler has resumed the thread.\<close>

definition futex_wait_resume :: "nat \<Rightarrow> futex_state \<Rightarrow> int \<times> futex_state" where
  "futex_wait_resume i s =
     (let u32TimedOut = w_u32TimedOut (fx_aWaiters s ! i)
      in (if u32TimedOut then - LINUX_ETIMEDOUT else 0, waiter_drop i s))"

definition futex_wait ::
  "(nat \<Rightarrow> uspace) \<Rightarrow> u64 option \<Rightarrow> u32 \<Rightarrow> gj_futex_key option \<Rightarrow> u64 \<Rightarrow> futex_state \<Rightarrow> wait_outcome \<times> futex_state" where
  "futex_wait um pU32 u32Val pKey u64DeadlineMonoNsec s =
     futex_wait_common um pU32 u32Val pKey u64DeadlineMonoNsec GJ_FUTEX_BITSET_MATCH_ANY s"

definition futex_wait_bitset ::
  "(nat \<Rightarrow> uspace) \<Rightarrow> u64 option \<Rightarrow> u32 \<Rightarrow> gj_futex_key option \<Rightarrow> u64 \<Rightarrow> u32 \<Rightarrow> futex_state
     \<Rightarrow> wait_outcome \<times> futex_state" where
  "futex_wait_bitset um pU32 u32Val pKey u64DeadlineMonoNsec u32Bitset s =
     futex_wait_common um pU32 u32Val pKey u64DeadlineMonoNsec u32Bitset s"

fun timer_loop :: "u64 \<Rightarrow> nat list \<Rightarrow> futex_state \<Rightarrow> futex_state" where
  "timer_loop u64Now [] s = s"
| "timer_loop u64Now (i # is) s =
     (let pW = fx_aWaiters s ! i
      in if \<not> w_u8Used pW \<or> \<not> w_u8Waiting pW then timer_loop u64Now is s
         else if w_u64Deadline pW = 0 then timer_loop u64Now is s
         else if w_u64Deadline pW \<le> u64Now
           then timer_loop u64Now is
                  (wake_slot i (upd_waiter i (\<lambda>w. w\<lparr>w_u32TimedOut := True, w_u8Waiting := False\<rparr>) s))
         else timer_loop u64Now is s)"

definition futex_timer_check :: "futex_state \<Rightarrow> futex_state" where
  "futex_timer_check s =
     (if \<not> fx_timer_ready s then s else timer_loop (fx_now s) [0..<GJ_FUTEX_MAX_WAITERS] s)"

section \<open>Waking\<close>

definition wake_match :: "gj_futex_key \<Rightarrow> u32 \<Rightarrow> futex_waiter \<Rightarrow> bool" where
  "wake_match key u32Bitset pW \<longleftrightarrow>
     w_u8Used pW \<and> w_u8Waiting pW \<and> key_eq (w_key pW) key \<and> w_u32Bitset pW AND u32Bitset \<noteq> 0"

fun wake_loop :: "gj_futex_key \<Rightarrow> u32 \<Rightarrow> u32 \<Rightarrow> nat list \<Rightarrow> u32 \<Rightarrow> futex_state \<Rightarrow> u32 \<times> futex_state" where
  "wake_loop key u32Count u32Bitset [] u32Woken s = (u32Woken, s)"
| "wake_loop key u32Count u32Bitset (i # is) u32Woken s =
     (if \<not> u32Woken < u32Count then (u32Woken, s)
      else if wake_match key u32Bitset (fx_aWaiters s ! i)
        then wake_loop key u32Count u32Bitset is (u32Woken + 1)
               (wake_slot i (upd_waiter i (\<lambda>w. w\<lparr>w_u8Waiting := False\<rparr>) s))
      else wake_loop key u32Count u32Bitset is u32Woken s)"

definition futex_wake_common :: "gj_futex_key option \<Rightarrow> u32 \<Rightarrow> u32 \<Rightarrow> futex_state \<Rightarrow> int \<times> futex_state" where
  "futex_wake_common pKey u32Count u32Bitset s =
     (case pKey of
        None \<Rightarrow> (- LINUX_EINVAL, s)
      | Some key \<Rightarrow>
          if u32Bitset = 0 then (- LINUX_EINVAL, s)
          else if u32Count = 0 then (0, s)
          else if \<not> k_u8Private key \<and> k_u64Phys key = 0 then (- LINUX_EINVAL, s)
          else
            (case wake_loop key u32Count u32Bitset [0..<GJ_FUTEX_MAX_WAITERS] 0 s of
               (u32Woken, s) \<Rightarrow> (uint u32Woken, s)))"

definition futex_wake :: "gj_futex_key option \<Rightarrow> u32 \<Rightarrow> futex_state \<Rightarrow> int \<times> futex_state" where
  "futex_wake pKey u32Count s = futex_wake_common pKey u32Count GJ_FUTEX_BITSET_MATCH_ANY s"

definition futex_wake_bitset :: "gj_futex_key option \<Rightarrow> u32 \<Rightarrow> u32 \<Rightarrow> futex_state \<Rightarrow> int \<times> futex_state" where
  "futex_wake_bitset pKey u32Count u32Bitset s = futex_wake_common pKey u32Count u32Bitset s"

section \<open>Robust lists\<close>

definition robust_find_tid :: "u32 \<Rightarrow> futex_state \<Rightarrow> nat option" where
  "robust_find_tid u32Tid s =
     find (\<lambda>i. r_u8Used (fx_aRobust s ! i) \<and> r_u32Tid (fx_aRobust s ! i) = u32Tid) [0..<GJ_FUTEX_ROBUST_SLOTS]"

definition robust_alloc_tid :: "u32 \<Rightarrow> futex_state \<Rightarrow> nat option \<times> futex_state" where
  "robust_alloc_tid u32Tid s =
     (case robust_find_tid u32Tid s of
        Some i \<Rightarrow> (Some i, s)
      | None \<Rightarrow>
          (case find (\<lambda>i. \<not> r_u8Used (fx_aRobust s ! i)) [0..<GJ_FUTEX_ROBUST_SLOTS] of
             None \<Rightarrow> (None, s)
           | Some i \<Rightarrow>
               (Some i, upd_robust i (\<lambda>r. r\<lparr>r_u8Used := True, r_u32Tid := u32Tid, r_u64Head := 0, r_u64Len := 0\<rparr>) s)))"

definition futex_set_robust_list :: "u64 \<Rightarrow> u64 \<Rightarrow> futex_state \<Rightarrow> gj_status \<times> futex_state" where
  "futex_set_robust_list u64Head u64Len s =
     (case fx_cur s of
        None \<Rightarrow> (GJ_ERR_INVAL, s)
      | Some t \<Rightarrow>
          if th_u32Id (fx_threads s ! t) = 0 then (GJ_ERR_INVAL, s)
          else if u64Len = 0 \<or> 64 < u64Len then (GJ_ERR_INVAL, s)
          else if u64Head \<noteq> 0 \<and> u64Head AND 7 \<noteq> 0 then (GJ_ERR_INVAL, s)
          else
            (case robust_alloc_tid (th_u32Id (fx_threads s ! t)) s of
               (None, s) \<Rightarrow> (GJ_ERR_NOMEM, s)
             | (Some i, s) \<Rightarrow> (GJ_OK, upd_robust i (\<lambda>r. r\<lparr>r_u64Head := u64Head, r_u64Len := u64Len\<rparr>) s)))"

definition futex_get_robust_list :: "u32 \<Rightarrow> futex_state \<Rightarrow> gj_status + (u64 \<times> u64)" where
  "futex_get_robust_list u32Tid s =
     (if u32Tid = 0 \<and> fx_cur s = None then Inl GJ_ERR_INVAL
      else
        (let u32Tid = (if u32Tid = 0 then th_u32Id (fx_threads s ! the (fx_cur s)) else u32Tid)
         in case robust_find_tid u32Tid s of
              None \<Rightarrow> Inl GJ_ERR_NOENT
            | Some i \<Rightarrow> Inr (r_u64Head (fx_aRobust s ! i), r_u64Len (fx_aRobust s ! i))))"

text \<open>The flag is the C result 1, the word was marked.\<close>

definition robust_handle_entry :: "nat \<Rightarrow> u64 \<Rightarrow> u64 \<Rightarrow> u32 \<Rightarrow> futex_state \<Rightarrow> bool \<times> futex_state" where
  "robust_handle_entry pThr u64Entry i64Offset u32Tid s =
     (if u64Entry = 0 then (False, s)
      else
        (let u64Futex = u64Entry + i64Offset
         in if u64Futex AND 3 \<noteq> 0 then (False, s)
            else
              (case user_load_u32 u64Futex (fx_us s) of
                 Inl _ \<Rightarrow> (False, s)
               | Inr u32Word \<Rightarrow>
                   if u32Word AND GJ_FUTEX_TID_MASK \<noteq> u32Tid AND GJ_FUTEX_TID_MASK then (False, s)
                   else if u32Word AND GJ_FUTEX_OWNER_DIED \<noteq> 0 then (False, s)
                   else
                     (case futex_store_u32 u64Futex (u32Word OR GJ_FUTEX_OWNER_DIED) (fx_us s) of
                        (False, us) \<Rightarrow> (False, s\<lparr>fx_us := us\<rparr>)
                      | (True, us) \<Rightarrow>
                          (let s = s\<lparr>fx_us := us\<rparr>;
                               pProc = proc_root s (fx_threads s ! pThr);
                               k = (case futex_key_from_uaddr_proc u64Futex True pProc s of
                                      Inr key \<Rightarrow> Inr key
                                    | Inl _ \<Rightarrow> futex_key_from_uaddr_proc u64Futex False pProc s)
                           in case k of
                                Inl _ \<Rightarrow> (True, s)
                              | Inr key \<Rightarrow> (True, snd (futex_wake (Some key) 1 s)))))))"

text \<open>An aligned 8-byte field as \<^verbatim>\<open>copy_from_user\<close> delivers it into a local variable.\<close>

definition load64 :: "mem \<Rightarrow> u64 \<Rightarrow> u64" where
  "load64 m a = ucast (load32 m a) OR push_bit 32 (ucast (load32 m (a + 4)))"

fun robust_walk ::
  "nat \<Rightarrow> nat \<Rightarrow> u64 \<Rightarrow> u64 \<Rightarrow> u64 \<Rightarrow> u32 \<Rightarrow> u64 \<Rightarrow> nat \<Rightarrow> futex_state \<Rightarrow> nat \<times> futex_state" where
  "robust_walk 0 pThr u64Head u64Pending i64Offset u32Tid u64Entry i64Marked s = (i64Marked, s)"
| "robust_walk (Suc n) pThr u64Head u64Pending i64Offset u32Tid u64Entry i64Marked s =
     (if u64Entry = 0 \<or> u64Entry = u64Head then (i64Marked, s)
      else
        (case (if u64Entry \<noteq> u64Pending then robust_handle_entry pThr u64Entry i64Offset u32Tid s else (False, s)) of
           (f, s) \<Rightarrow>
             (let i64Marked = i64Marked + of_bool f
              in if \<not> user_range_mapped_access (us_pte (fx_us s)) u64Entry 8 GJ_USER_ACCESS_READ then (i64Marked, s)
                 else
                   (let u64Next = load64 (us_mem (fx_us s)) u64Entry
                    in if u64Next = u64Entry then (i64Marked, s)
                       else robust_walk n pThr u64Head u64Pending i64Offset u32Tid u64Next i64Marked s))))"

fun cancel_loop :: "nat \<Rightarrow> nat list \<Rightarrow> u32 \<Rightarrow> futex_state \<Rightarrow> u32 \<times> futex_state" where
  "cancel_loop pThr [] u32Cleared s = (u32Cleared, s)"
| "cancel_loop pThr (i # is) u32Cleared s =
     (let pW = fx_aWaiters s ! i
      in if \<not> w_u8Used pW \<or> w_pThr pW \<noteq> Some pThr then cancel_loop pThr is u32Cleared s
         else
           (let s = (if w_u8Waiting pW then wake_slot i (upd_waiter i (\<lambda>w. w\<lparr>w_u8Waiting := False\<rparr>) s) else s)
            in cancel_loop pThr is (u32Cleared + 1) (upd_waiter i (\<lambda>_. no_waiter) s)))"

fun scrub_loop :: "u32 \<Rightarrow> (futex_robust_slot \<Rightarrow> futex_robust_slot) \<Rightarrow> nat list \<Rightarrow> futex_state \<Rightarrow> futex_state" where
  "scrub_loop u32Tid f [] s = s"
| "scrub_loop u32Tid f (i # is) s =
     (if r_u8Used (fx_aRobust s ! i) \<and> r_u32Tid (fx_aRobust s ! i) = u32Tid
      then scrub_loop u32Tid f is (upd_robust i f s)
      else scrub_loop u32Tid f is s)"

definition futex_cancel_thr :: "nat option \<Rightarrow> futex_state \<Rightarrow> u32 \<times> futex_state" where
  "futex_cancel_thr pThr s =
     (case pThr of
        None \<Rightarrow> (0, s)
      | Some t \<Rightarrow>
          (let u32Tid = th_u32Id (fx_threads s ! t)
           in case cancel_loop t [0..<GJ_FUTEX_MAX_WAITERS] 0 s of
                (u32Cleared, s) \<Rightarrow>
                  (u32Cleared,
                   if u32Tid \<noteq> 0 then scrub_loop u32Tid (\<lambda>_. no_robust) [0..<GJ_FUTEX_ROBUST_SLOTS] s else s)))"

definition robust_clear :: "futex_robust_slot \<Rightarrow> futex_robust_slot" where
  "robust_clear r = r\<lparr>r_u8Used := False, r_u64Head := 0, r_u64Len := 0\<rparr>"

definition futex_exit_robust_list :: "nat option \<Rightarrow> futex_state \<Rightarrow> nat \<times> futex_state" where
  "futex_exit_robust_list pThr s =
     (case pThr of
        None \<Rightarrow> (0, s)
      | Some t \<Rightarrow>
          if th_u32Id (fx_threads s ! t) = 0 then (0, s)
          else
            (let u32Tid = th_u32Id (fx_threads s ! t)
             in case robust_find_tid u32Tid s of
                  None \<Rightarrow> (0, snd (futex_cancel_thr (Some t) s))
                | Some i \<Rightarrow>
                    if r_u64Head (fx_aRobust s ! i) = 0 then (0, snd (futex_cancel_thr (Some t) s))
                    else
                      (let u64Head = r_u64Head (fx_aRobust s ! i);
                           s = upd_robust i robust_clear s
                       in if \<not> user_range_mapped_access (us_pte (fx_us s)) u64Head 24 GJ_USER_ACCESS_READ
                          then (0, snd (futex_cancel_thr (Some t) s))
                          else
                            (let m = us_mem (fx_us s);
                                 i64Offset = load64 m (u64Head + 8);
                                 u64Pending = load64 m (u64Head + 16);
                                 u64Entry = load64 m u64Head
                             in case (if u64Pending \<noteq> 0 then robust_handle_entry t u64Pending i64Offset u32Tid s
                                      else (False, s)) of
                                  (f, s) \<Rightarrow>
                                    (case robust_walk GJ_FUTEX_ROBUST_WALK_MAX t u64Head u64Pending i64Offset u32Tid
                                            u64Entry (of_bool f) s of
                                       (i64Marked, s) \<Rightarrow>
                                         (let s = snd (futex_cancel_thr (Some t) s)
                                          in (i64Marked,
                                              scrub_loop u32Tid robust_clear [0..<GJ_FUTEX_ROBUST_SLOTS] s)))))))"

end
