(* ===== verification/Futex_Lemmas.thy ===== *)
theory Futex_Lemmas
  imports Futex
begin

text \<open>
  The library behind the futex properties: the invariant that ties waiter slots to blocked threads,
  what waking, waiting, cancelling and the robust walk do to it, and the marking of owned words.
\<close>

section \<open>The invariant\<close>

definition parked :: "futex_state \<Rightarrow> nat \<Rightarrow> nat \<Rightarrow> bool" where
  "parked s i t \<longleftrightarrow> th_u32State (fx_threads s ! t) = GJ_THR_BLOCKED \<and> th_pBlockObj (fx_threads s ! t) = Some (Obj_Futex i)"

definition waiting :: "futex_state \<Rightarrow> nat \<Rightarrow> bool" where
  "waiting s i \<longleftrightarrow> w_u8Used (fx_aWaiters s ! i) \<and> w_u8Waiting (fx_aWaiters s ! i)"

text \<open>
  \<open>E\<close> are the slots whose sleeper was ended, by the end of its process, while it slept: their entries stay in the
  table although nobody sleeps on them.
\<close>

definition futex_inv :: "nat set \<Rightarrow> futex_state \<Rightarrow> bool" where
  "futex_inv E s \<longleftrightarrow> length (fx_aWaiters s) = GJ_FUTEX_MAX_WAITERS \<and> length (fx_aRobust s) = GJ_FUTEX_ROBUST_SLOTS
     \<and> length (fx_threads s) = GJ_MAX_THREADS
     \<and> (\<forall>t < GJ_MAX_THREADS. \<forall>i. parked s i t \<longrightarrow>
          i < GJ_FUTEX_MAX_WAITERS \<and> waiting s i \<and> w_pThr (fx_aWaiters s ! i) = Some t)
     \<and> (\<forall>i < GJ_FUTEX_MAX_WAITERS. waiting s i \<longrightarrow>
          (\<exists>t < GJ_MAX_THREADS. w_pThr (fx_aWaiters s ! i) = Some t \<and> (parked s i t \<longleftrightarrow> i \<notin> E)))"

lemma inv_len:
  assumes "futex_inv E s"
  shows "length (fx_aWaiters s) = GJ_FUTEX_MAX_WAITERS" "length (fx_aRobust s) = GJ_FUTEX_ROBUST_SLOTS"
    "length (fx_threads s) = GJ_MAX_THREADS"
  using assms by (simp_all add: futex_inv_def)

lemma inv_parked:
  assumes "futex_inv E s" "parked s i t" "t < GJ_MAX_THREADS"
  shows "i < GJ_FUTEX_MAX_WAITERS" "waiting s i" "w_pThr (fx_aWaiters s ! i) = Some t"
  using assms unfolding futex_inv_def by blast+

lemma inv_waiting:
  assumes "futex_inv E s" "waiting s i" "i < GJ_FUTEX_MAX_WAITERS"
  obtains t where "t < GJ_MAX_THREADS" "w_pThr (fx_aWaiters s ! i) = Some t" "parked s i t \<longleftrightarrow> i \<notin> E"
  using assms unfolding futex_inv_def by blast

lemma futex_invI:
  assumes "length (fx_aWaiters s) = GJ_FUTEX_MAX_WAITERS" "length (fx_aRobust s) = GJ_FUTEX_ROBUST_SLOTS"
    "length (fx_threads s) = GJ_MAX_THREADS"
    "\<And>t i. t < GJ_MAX_THREADS \<Longrightarrow> parked s i t \<Longrightarrow>
       i < GJ_FUTEX_MAX_WAITERS \<and> waiting s i \<and> w_pThr (fx_aWaiters s ! i) = Some t"
    "\<And>i. i < GJ_FUTEX_MAX_WAITERS \<Longrightarrow> waiting s i \<Longrightarrow>
       \<exists>t < GJ_MAX_THREADS. w_pThr (fx_aWaiters s ! i) = Some t \<and> (parked s i t \<longleftrightarrow> i \<notin> E)"
  shows "futex_inv E s"
  using assms unfolding futex_inv_def by blast

lemma not_parked_woken [simp]: "th_u32State (woken p) \<noteq> GJ_THR_BLOCKED"
  by (simp add: woken_def)

text \<open>Waking the waiter of a slot: exactly the thread that sleeps on it, if any, becomes runnable.\<close>

definition woken_on :: "nat \<Rightarrow> futex_state \<Rightarrow> threads" where
  "woken_on i s = map (\<lambda>t. if parked s i t then woken (fx_threads s ! t) else fx_threads s ! t) [0..<GJ_MAX_THREADS]"

lemma woken_on_nth [simp]:
  "t < GJ_MAX_THREADS \<Longrightarrow> woken_on i s ! t = (if parked s i t then woken (fx_threads s ! t) else fx_threads s ! t)"
  by (simp add: woken_on_def)

lemma woken_on_length [simp]: "length (woken_on i s) = GJ_MAX_THREADS"
  by (simp add: woken_on_def)

lemma thread_wake_slot:
  assumes inv: "futex_inv E s"
  shows "snd (thread_wake (Obj_Futex i) 0 1 (fx_threads s)) = woken_on i s"
proof (cases "\<exists>t < GJ_MAX_THREADS. parked s i t")
  case True
  then obtain t where t: "t < GJ_MAX_THREADS" "parked s i t" by blast
  have only: "t' = t" if "t' < GJ_MAX_THREADS" "parked s i t'" for t'
    using inv_parked(3) [OF inv that(2,1)] inv_parked(3) [OF inv t(2,1)] by simp
  have "thread_wake (Obj_Futex i) 0 1 (fx_threads s) = (1, (fx_threads s)[t := woken (fx_threads s ! t)])"
    by (rule thread_wake_unique [OF t(1)]) (use t(2) only in \<open>auto simp: parked_def\<close>)
  moreover have "(fx_threads s)[t := woken (fx_threads s ! t)] = woken_on i s"
  proof (rule nth_equalityI)
    fix j assume "j < length ((fx_threads s)[t := woken (fx_threads s ! t)])"
    then have j: "j < GJ_MAX_THREADS" using inv_len(3) [OF inv] by simp
    have "parked s i j \<longleftrightarrow> j = t" using only [OF j] t(2) by blast
    then show "(fx_threads s)[t := woken (fx_threads s ! t)] ! j = woken_on i s ! j"
      unfolding woken_on_nth [OF j] using inv_len(3) [OF inv] t(1) by (simp add: nth_list_update)
  qed (simp add: inv_len(3) [OF inv])
  ultimately show ?thesis by simp
next
  case False
  then have "thread_wake (Obj_Futex i) 0 1 (fx_threads s) = (0, fx_threads s)"
    by (intro thread_wake_nobody) (auto simp: parked_def)
  moreover have "fx_threads s = woken_on i s"
    by (rule nth_equalityI) (use inv_len [OF inv] False in auto)
  ultimately show ?thesis by simp
qed

lemma wake_slot_spec:
  assumes inv: "futex_inv E s" and i: "i < GJ_FUTEX_MAX_WAITERS" and f: "\<not> w_u8Waiting (f (fx_aWaiters s ! i))"
  shows "wake_slot i (upd_waiter i f s) =
      s\<lparr>fx_aWaiters := (fx_aWaiters s)[i := f (fx_aWaiters s ! i)], fx_threads := woken_on i s\<rparr>" (is "_ = ?u")
    and "futex_inv E (wake_slot i (upd_waiter i f s))"
proof -
  note len = inv_len [OF inv]
  show eq: "wake_slot i (upd_waiter i f s) = ?u" using thread_wake_slot [OF inv] by (simp add: wake_slot_def upd_waiter_def)
  have only: "j = i" if "parked s i t" "parked s j t" for t j using that by (simp add: parked_def)
  have pkd: "parked ?u j t \<longleftrightarrow> j \<noteq> i \<and> parked s j t" if "t < GJ_MAX_THREADS" for j t
    using that only [of t j] by (auto simp: parked_def)
  have wtg: "waiting ?u j \<longleftrightarrow> j \<noteq> i \<and> waiting s j" if "j < GJ_FUTEX_MAX_WAITERS" for j
    using that len f i by (auto simp: waiting_def nth_list_update)
  have thr: "w_pThr (fx_aWaiters ?u ! j) = w_pThr (fx_aWaiters s ! j)" if "j \<noteq> i" for j
    using that by simp
  show "futex_inv E (wake_slot i (upd_waiter i f s))"
    unfolding eq
  proof (rule futex_invI)
    fix t j assume t: "t < GJ_MAX_THREADS" "parked ?u j t"
    then have pj: "parked s j t" "j \<noteq> i" using pkd by simp_all
    then show "j < GJ_FUTEX_MAX_WAITERS \<and> waiting ?u j \<and> w_pThr (fx_aWaiters ?u ! j) = Some t"
      using inv_parked [OF inv pj(1) t(1)] wtg thr by simp
  next
    fix j assume j: "j < GJ_FUTEX_MAX_WAITERS" "waiting ?u j"
    then have wj: "waiting s j" "j \<noteq> i" using wtg by simp_all
    from inv wj(1) j(1) obtain t where t: "t < GJ_MAX_THREADS" "w_pThr (fx_aWaiters s ! j) = Some t" "parked s j t \<longleftrightarrow> j \<notin> E"
      by (rule inv_waiting)
    then show "\<exists>t < GJ_MAX_THREADS. w_pThr (fx_aWaiters ?u ! j) = Some t \<and> (parked ?u j t \<longleftrightarrow> j \<notin> E)"
      using pkd thr wj(2) by auto
  qed (use len in simp_all)
qed

text \<open>Changes of slots nobody waits on keep the invariant.\<close>

lemma inv_frame:
  assumes inv: "futex_inv E s" and "length (fx_aWaiters u) = GJ_FUTEX_MAX_WAITERS"
    "length (fx_aRobust u) = GJ_FUTEX_ROBUST_SLOTS" "length (fx_threads u) = GJ_MAX_THREADS"
    and pk: "\<And>i t. t < GJ_MAX_THREADS \<Longrightarrow> parked u i t = parked s i t"
    and wt: "\<And>i. i < GJ_FUTEX_MAX_WAITERS \<Longrightarrow> waiting u i = waiting s i"
    and th: "\<And>i. i < GJ_FUTEX_MAX_WAITERS \<Longrightarrow> waiting s i \<Longrightarrow> w_pThr (fx_aWaiters u ! i) = w_pThr (fx_aWaiters s ! i)"
  shows "futex_inv E u"
proof (rule futex_invI)
  fix t i assume t: "t < GJ_MAX_THREADS" "parked u i t"
  have "parked s i t" using t pk by blast
  from inv_parked [OF inv this t(1)] wt th
  show "i < GJ_FUTEX_MAX_WAITERS \<and> waiting u i \<and> w_pThr (fx_aWaiters u ! i) = Some t" by auto
next
  fix i assume i: "i < GJ_FUTEX_MAX_WAITERS" "waiting u i"
  have w: "waiting s i" using i wt by blast
  from inv w i(1) obtain t where t: "t < GJ_MAX_THREADS" "w_pThr (fx_aWaiters s ! i) = Some t" "parked s i t \<longleftrightarrow> i \<notin> E"
    by (rule inv_waiting)
  with pk th [OF i(1) w] show "\<exists>t < GJ_MAX_THREADS. w_pThr (fx_aWaiters u ! i) = Some t \<and> (parked u i t \<longleftrightarrow> i \<notin> E)" by auto
qed (use assms in simp_all)

lemma inv_upd_idle:
  assumes inv: "futex_inv E s" and i: "\<And>t. t < GJ_MAX_THREADS \<Longrightarrow> \<not> parked s i t"
    and f: "\<not> (w_u8Used (f (fx_aWaiters s ! i)) \<and> w_u8Waiting (f (fx_aWaiters s ! i)))"
  shows "futex_inv E (upd_waiter i f s)" (is "futex_inv E ?u")
proof (rule futex_invI)
  have pk: "parked ?u j t = parked s j t" for j t by (simp add: upd_waiter_def parked_def)
  have wt: "fx_aWaiters ?u ! j = fx_aWaiters s ! j" if "j \<noteq> i" for j using that by (simp add: upd_waiter_def)
  have wi: "\<not> waiting ?u i" if "i < GJ_FUTEX_MAX_WAITERS" using f that inv_len [OF inv] by (simp add: upd_waiter_def waiting_def)
  show "j < GJ_FUTEX_MAX_WAITERS \<and> waiting ?u j \<and> w_pThr (fx_aWaiters ?u ! j) = Some t"
    if "t < GJ_MAX_THREADS" "parked ?u j t" for t j
    using inv_parked [OF inv, of j t] that pk i [of t] wt [of j] by (cases "j = i") (simp_all add: waiting_def)
  show "\<exists>t < GJ_MAX_THREADS. w_pThr (fx_aWaiters ?u ! j) = Some t \<and> (parked ?u j t \<longleftrightarrow> j \<notin> E)"
    if j: "j < GJ_FUTEX_MAX_WAITERS" "waiting ?u j" for j
  proof -
    have ji: "j \<noteq> i" using wi j by blast
    then have "waiting s j" using j(2) wt by (simp add: waiting_def)
    with inv obtain t where "t < GJ_MAX_THREADS" "w_pThr (fx_aWaiters s ! j) = Some t" "parked s j t \<longleftrightarrow> j \<notin> E"
      using j(1) by (rule inv_waiting)
    then show ?thesis using pk wt [OF ji] by auto
  qed
qed (use inv_len [OF inv] in \<open>simp_all add: upd_waiter_def\<close>)

lemma idle_slot: "futex_inv E s \<Longrightarrow> \<not> waiting s i \<Longrightarrow> t < GJ_MAX_THREADS \<Longrightarrow> \<not> parked s i t"
  using inv_parked(2) by blast

lemma inv_upd_robust: "futex_inv E s \<Longrightarrow> futex_inv E (upd_robust i f s)"
  by (simp add: futex_inv_def upd_robust_def parked_def waiting_def)

lemma inv_us: "futex_inv E (s\<lparr>fx_us := us\<rparr>) = futex_inv E s"
  by (simp add: futex_inv_def parked_def waiting_def)

section \<open>Waking\<close>

text \<open>The table and the threads after exactly the waiters of the slots \<open>ws\<close> have been woken.\<close>

definition woke :: "nat list \<Rightarrow> futex_state \<Rightarrow> futex_state \<Rightarrow> bool" where
  "woke ws s u \<longleftrightarrow>
     (\<forall>i < GJ_FUTEX_MAX_WAITERS. fx_aWaiters u ! i =
        (if i \<in> set ws then (fx_aWaiters s ! i)\<lparr>w_u8Waiting := False\<rparr> else fx_aWaiters s ! i))
     \<and> (\<forall>t < GJ_MAX_THREADS. fx_threads u ! t =
        (if \<exists>i \<in> set ws. parked s i t then woken (fx_threads s ! t) else fx_threads s ! t))
     \<and> fx_aRobust u = fx_aRobust s \<and> fx_us u = fx_us s \<and> fx_cur u = fx_cur s"

lemma wake_loop_spec:
  assumes "futex_inv E s" and "distinct is" and "set is \<subseteq> {..<GJ_FUTEX_MAX_WAITERS}" and "n \<le> count"
    and "wake_loop key count bs is n s = (r, u)"
  defines "ws \<equiv> take (unat count - unat n) (filter (\<lambda>i. wake_match key bs (fx_aWaiters s ! i)) is)"
  shows "futex_inv E u \<and> unat r = unat n + length ws \<and> woke ws s u"
  using assms(1-5) unfolding ws_def
proof (induction "is" arbitrary: n s)
  case Nil
  then show ?case by (simp add: woke_def)
next
  case (Cons i "is")
  have i: "i < GJ_FUTEX_MAX_WAITERS" and sub: "set is \<subseteq> {..<GJ_FUTEX_MAX_WAITERS}" and d: "i \<notin> set is" "distinct is"
    using Cons.prems(2,3) by auto
  show ?case
  proof (cases "n < count")
    case False
    then have "n = count" using Cons.prems(4) by simp
    then show ?thesis using Cons.prems by (simp add: woke_def)
  next
    case lt: True
    show ?thesis
    proof (cases "wake_match key bs (fx_aWaiters s ! i)")
      case True
      then have w: "waiting s i" by (simp add: wake_match_def waiting_def)
      define v where "v = wake_slot i (upd_waiter i (\<lambda>w. w\<lparr>w_u8Waiting := False\<rparr>) s)"
      note ws = wake_slot_spec [OF Cons.prems(1) i, of "\<lambda>w. w\<lparr>w_u8Waiting := False\<rparr>", folded v_def, simplified]
      have n1: "unat (n + 1) = unat n + 1" using unat_inc [OF less_inc_nonzero [OF lt]] by simp
      then have le: "n + 1 \<le> count" using lt by (simp add: word_le_nat_alt word_less_nat_alt)
      have l: "wake_loop key count bs is (n + 1) v = (r, u)" using Cons.prems(5) lt True by (simp add: v_def)
      have same: "fx_aWaiters v ! j = fx_aWaiters s ! j" if "j \<noteq> i" for j using that by (simp add: ws(1))
      have fl: "filter (\<lambda>j. wake_match key bs (fx_aWaiters v ! j)) is = filter (\<lambda>j. wake_match key bs (fx_aWaiters s ! j)) is"
        using d by (intro filter_cong refl) (metis same)
      let ?R = "take (unat count - unat (n + 1)) (filter (\<lambda>j. wake_match key bs (fx_aWaiters s ! j)) is)"
      note ih = Cons.IH [OF ws(2) d(2) sub le l, unfolded fl]
      have "take (unat count - unat n) (filter (\<lambda>j. wake_match key bs (fx_aWaiters s ! j)) (i # is)) = i # ?R"
      proof -
        have "unat count - unat n = Suc (unat count - unat (n + 1))" using lt n1 by (simp add: word_less_nat_alt)
        then show ?thesis using True by simp
      qed
      moreover have "woke (i # ?R) s u"
      proof -
        note len = inv_len [OF Cons.prems(1)]
        have sub': "set ?R \<subseteq> set is" by (meson filter_is_subset order_trans set_take_subset)
        have pv: "parked v j t' \<longleftrightarrow> \<not> parked s i t' \<and> parked s j t'" if "t' < GJ_MAX_THREADS" for j t'
          using that by (auto simp: ws(1) parked_def)
        have A: "fx_aWaiters u ! j = (if j \<in> set (i # ?R) then (fx_aWaiters s ! j)\<lparr>w_u8Waiting := False\<rparr> else fx_aWaiters s ! j)"
          if "j < GJ_FUTEX_MAX_WAITERS" for j
          using ih that sub' d(1) i len by (cases "j = i") (auto simp: woke_def ws(1))
        have B: "fx_threads u ! t' = (if \<exists>j \<in> set (i # ?R). parked s j t' then woken (fx_threads s ! t') else fx_threads s ! t')"
          if t': "t' < GJ_MAX_THREADS" for t'
        proof -
          have "fx_threads u ! t' = (if \<exists>j \<in> set ?R. parked v j t' then woken (fx_threads v ! t') else fx_threads v ! t')"
            using ih t' unfolding woke_def by blast
          moreover have "fx_threads v ! t' = (if parked s i t' then woken (fx_threads s ! t') else fx_threads s ! t')"
            using t' by (simp add: ws(1))
          ultimately show ?thesis using pv [OF t'] by auto
        qed
        show ?thesis using A B ih by (simp add: woke_def ws(1))
      qed
      ultimately show ?thesis using ih n1 by simp
    next
      case False
      then show ?thesis using Cons.IH [OF Cons.prems(1) d(2) sub Cons.prems(4)] Cons.prems(5) lt by simp
    qed
  qed
qed

definition valid_key :: "gj_futex_key \<Rightarrow> bool" where
  "valid_key key \<longleftrightarrow> k_u8Private key \<or> k_u64Phys key \<noteq> 0"

lemma wake_spec:
  assumes inv: "futex_inv E s" and key: "valid_key key" and bs: "bs \<noteq> 0"
    and r: "futex_wake_common (Some key) count bs s = (r, u)"
  defines "ws \<equiv> take (unat count) (filter (\<lambda>i. wake_match key bs (fx_aWaiters s ! i)) [0..<GJ_FUTEX_MAX_WAITERS])"
  shows "futex_inv E u" and "r = int (length ws)" and "woke ws s u"
proof -
  obtain n v where l: "wake_loop key count bs [0..<GJ_FUTEX_MAX_WAITERS] 0 s = (n, v)"
    by (cases "wake_loop key count bs [0..<GJ_FUTEX_MAX_WAITERS] 0 s")
  have sub: "set [0..<GJ_FUTEX_MAX_WAITERS] \<subseteq> {..<GJ_FUTEX_MAX_WAITERS}" by auto
  note sp = wake_loop_spec [OF inv distinct_upt sub _ l, simplified, folded ws_def]
  show "futex_inv E u" and "r = int (length ws)" and "woke ws s u"
  proof (atomize (full), cases "count = 0")
    case True
    then show "futex_inv E u \<and> r = int (length ws) \<and> woke ws s u"
      using r bs inv by (simp add: futex_wake_common_def ws_def woke_def)
  next
    case False
    then have "r = uint n" "u = v" using r key bs l by (auto simp: futex_wake_common_def valid_key_def)
    then show "futex_inv E u \<and> r = int (length ws) \<and> woke ws s u"
      using sp by (simp add: uint_nat ws_def)
  qed
qed

lemma wake_inv: "futex_inv E s \<Longrightarrow> futex_inv E (snd (futex_wake_common pKey count bs s))"
proof -
  assume inv: "futex_inv E s"
  obtain r u where ru: "futex_wake_common pKey count bs s = (r, u)" by (cases "futex_wake_common pKey count bs s")
  show ?thesis
  proof (cases "\<exists>key. pKey = Some key \<and> valid_key key \<and> bs \<noteq> 0")
    case True
    then obtain key where "pKey = Some key" "valid_key key" "bs \<noteq> 0" by blast
    then show ?thesis using wake_spec(1) [OF inv] ru by simp
  qed (use inv in \<open>auto simp: futex_wake_common_def valid_key_def split: option.split\<close>)
qed

section \<open>Waiting\<close>

lemma find_free:
  assumes "find (\<lambda>i. \<not> w_u8Used (fx_aWaiters s ! i)) [0..<GJ_FUTEX_MAX_WAITERS] = Some i"
  shows "i < GJ_FUTEX_MAX_WAITERS" "\<not> w_u8Used (fx_aWaiters s ! i)" "\<not> waiting s i"
proof -
  from assms show "i < GJ_FUTEX_MAX_WAITERS" "\<not> w_u8Used (fx_aWaiters s ! i)" unfolding find_Some_iff by auto
  then show "\<not> waiting s i" by (simp add: waiting_def)
qed

text \<open>The thread that calls is running.\<close>

definition cur_running :: "futex_state \<Rightarrow> bool" where
  "cur_running s \<longleftrightarrow> (\<forall>t. fx_cur s = Some t \<longrightarrow> t < GJ_MAX_THREADS \<and> th_u32State (fx_threads s ! t) = GJ_THR_RUNNING)"

definition registered :: "u32 \<Rightarrow> u32 \<Rightarrow> gj_futex_key \<Rightarrow> nat \<Rightarrow> u64 \<Rightarrow> futex_waiter" where
  "registered val bs key t dl = \<lparr>w_u8Used = True, w_u8Waiting = True, w_u32Val = val, w_u32Bitset = bs,
     w_u32TimedOut = False, w_key = key, w_pThr = Some t, w_u64Deadline = dl\<rparr>"

text \<open>
  Nothing has changed but the contents of slots that are not in use and, at most, the block fields of the caller, which
  mean nothing while it runs.
\<close>

definition same_waits :: "futex_state \<Rightarrow> futex_state \<Rightarrow> bool" where
  "same_waits s u \<longleftrightarrow>
     (\<forall>i < GJ_FUTEX_MAX_WAITERS. w_u8Used (fx_aWaiters u ! i) = w_u8Used (fx_aWaiters s ! i)
        \<and> (w_u8Used (fx_aWaiters s ! i) \<longrightarrow> fx_aWaiters u ! i = fx_aWaiters s ! i))
     \<and> (\<forall>t. fx_threads u ! t = fx_threads s ! t
          \<or> fx_cur s = Some t \<and> fx_threads u ! t = (fx_threads s ! t)\<lparr>th_pBlockObj := None, th_u32BlockTag := 0\<rparr>)
     \<and> length (fx_aWaiters u) = length (fx_aWaiters s) \<and> length (fx_threads u) = length (fx_threads s)
     \<and> u = s\<lparr>fx_aWaiters := fx_aWaiters u, fx_threads := fx_threads u\<rparr>"

lemma same_waits_refl [simp]: "same_waits s s"
  by (simp add: same_waits_def)

lemma same_waits_parked:
  assumes "same_waits s u" and "cur_running s"
  shows "parked u i t = parked s i t"
proof -
  have "fx_threads u ! t = fx_threads s ! t
      \<or> fx_cur s = Some t \<and> fx_threads u ! t = (fx_threads s ! t)\<lparr>th_pBlockObj := None, th_u32BlockTag := 0\<rparr>"
    using assms(1) unfolding same_waits_def by blast
  then show ?thesis using assms(2) by (auto simp: parked_def cur_running_def)
qed

lemma same_waits_inv:
  assumes "same_waits s u" and "cur_running s" and inv: "futex_inv E s"
  shows "futex_inv E u"
proof (rule inv_frame [OF inv])
  have u: "length (fx_aWaiters u) = length (fx_aWaiters s)" "length (fx_threads u) = length (fx_threads s)"
    "u = s\<lparr>fx_aWaiters := fx_aWaiters u, fx_threads := fx_threads u\<rparr>"
    "\<And>i. i < GJ_FUTEX_MAX_WAITERS \<Longrightarrow> w_u8Used (fx_aWaiters u ! i) = w_u8Used (fx_aWaiters s ! i)
        \<and> (w_u8Used (fx_aWaiters s ! i) \<longrightarrow> fx_aWaiters u ! i = fx_aWaiters s ! i)"
    using assms(1) unfolding same_waits_def by blast+
  show "length (fx_aRobust u) = GJ_FUTEX_ROBUST_SLOTS" using inv_len(2) [OF inv] by (subst u(3)) simp
  show "length (fx_aWaiters u) = GJ_FUTEX_MAX_WAITERS" "length (fx_threads u) = GJ_MAX_THREADS" using u(1,2) inv_len [OF inv] by simp_all
  show "waiting u i = waiting s i" if "i < GJ_FUTEX_MAX_WAITERS" for i using u(4) [OF that] by (auto simp: waiting_def)
  show "w_pThr (fx_aWaiters u ! i) = w_pThr (fx_aWaiters s ! i)" if "i < GJ_FUTEX_MAX_WAITERS" "waiting s i" for i
    using u(4) [OF that(1)] that(2) by (auto simp: waiting_def)
qed (rule same_waits_parked [OF assms(1,2)])

lemma registered_eq:
  "w\<lparr>w_u8Used := True, w_u8Waiting := True, w_u32Val := val, w_u32Bitset := bs, w_key := key, w_pThr := Some t,
     w_u64Deadline := dl, w_u32TimedOut := False\<rparr> = registered val bs key t dl"
  by (cases w) (simp add: registered_def)

lemma wait_spec:
  assumes inv: "futex_inv E s" and E: "\<And>i. i \<in> E \<Longrightarrow> waiting s i" and run: "cur_running s"
    and w: "futex_wait_common um (Some a) val (Some key) dl bs s = (out, u)"
  shows "futex_inv E u"
    and "case out of
        Ret r \<Rightarrow> same_waits s u \<and> r \<in> {- LINUX_EINVAL, - LINUX_EAGAIN, - LINUX_ENOMEM, - LINUX_ETIMEDOUT}
      | Park i \<Rightarrow> (\<exists>t. fx_cur s = Some t \<and> i < GJ_FUTEX_MAX_WAITERS \<and> \<not> w_u8Used (fx_aWaiters s ! i)
          \<and> (\<forall>k < 3. futex_load_u32 (Some a) (um k) = val) \<and> bs \<noteq> 0 \<and> valid_key key
          \<and> fx_aWaiters u = (fx_aWaiters s)[i := registered val bs key t dl]
          \<and> fx_threads u = (fx_threads s)[t := (fx_threads s ! t)\<lparr>th_pBlockObj := Some (Obj_Futex i),
               th_u32BlockTag := 0, th_u32State := GJ_THR_BLOCKED\<rparr>])"
proof -
  note len = inv_len [OF inv]
  have main: "futex_inv E u \<and> (case out of
        Ret r \<Rightarrow> same_waits s u \<and> r \<in> {- LINUX_EINVAL, - LINUX_EAGAIN, - LINUX_ENOMEM, - LINUX_ETIMEDOUT}
      | Park i \<Rightarrow> (\<exists>t. fx_cur s = Some t \<and> i < GJ_FUTEX_MAX_WAITERS \<and> \<not> w_u8Used (fx_aWaiters s ! i)
          \<and> (\<forall>k < 3. futex_load_u32 (Some a) (um k) = val) \<and> bs \<noteq> 0 \<and> valid_key key
          \<and> fx_aWaiters u = (fx_aWaiters s)[i := registered val bs key t dl]
          \<and> fx_threads u = (fx_threads s)[t := (fx_threads s ! t)\<lparr>th_pBlockObj := Some (Obj_Futex i),
               th_u32BlockTag := 0, th_u32State := GJ_THR_BLOCKED\<rparr>]))" (is "futex_inv E u \<and> ?C out u")
  proof (cases "k_u64Uaddr key AND 3 \<noteq> 0 \<or> bs = 0 \<or> \<not> k_u8Private key \<and> k_u64Phys key = 0 \<or> fx_cur s = None
      \<or> futex_load_u32 (Some a) (um 0) \<noteq> val
      \<or> find (\<lambda>i. \<not> w_u8Used (fx_aWaiters s ! i)) [0..<GJ_FUTEX_MAX_WAITERS] = None
      \<or> futex_load_u32 (Some a) (um 1) \<noteq> val")
    case True
    then have "u = s" "\<exists>r \<in> {- LINUX_EINVAL, - LINUX_EAGAIN, - LINUX_ENOMEM}. out = Ret r"
      using w by (auto simp: futex_wait_common_def split: option.split_asm if_split_asm)
    then show ?thesis using inv by auto
  next
    case False
    then obtain t i where ok: "k_u64Uaddr key AND 3 = 0" "bs \<noteq> 0" "valid_key key" "fx_cur s = Some t"
        "futex_load_u32 (Some a) (um 0) = val" "futex_load_u32 (Some a) (um 1) = val"
      and fnd: "find (\<lambda>i. \<not> w_u8Used (fx_aWaiters s ! i)) [0..<GJ_FUTEX_MAX_WAITERS] = Some i"
      by (auto simp: valid_key_def)
    note i = find_free [OF fnd]
    have t: "t < GJ_MAX_THREADS" "th_u32State (fx_threads s ! t) = GJ_THR_RUNNING"
      using run ok(4) by (simp_all add: cur_running_def)
    define s1 where "s1 = upd_waiter i (\<lambda>_. registered val bs key t dl) s"
    define bt where "bt = (fx_threads s ! t)\<lparr>th_pBlockObj := Some (Obj_Futex i), th_u32BlockTag := 0, th_u32State := GJ_THR_BLOCKED\<rparr>"
    define s2 where "s2 = s1\<lparr>fx_threads := (fx_threads s)[t := bt]\<rparr>"
    have reg: "upd_waiter i (\<lambda>w. w\<lparr>w_u8Used := True, w_u8Waiting := True, w_u32Val := val, w_u32Bitset := bs,
        w_key := key, w_pThr := Some t, w_u64Deadline := dl, w_u32TimedOut := False\<rparr>) s = s1"
      unfolding registered_eq by (simp add: s1_def)
    have wi: "fx_aWaiters s1 ! i = registered val bs key t dl" using i(1) len by (simp add: s1_def upd_waiter_def)
    have blk: "s1\<lparr>fx_threads := thread_block (Some t) (Obj_Futex i) 0 (fx_threads s1)\<rparr> = s2"
      by (simp add: s2_def s1_def upd_waiter_def thread_block_def bt_def)
    have wtg: "w_u8Waiting (fx_aWaiters s2 ! i)" using wi by (simp add: s2_def registered_def)
    have step: "(out, u) =
      (if dl \<noteq> 0 \<and> fx_timer_ready s1 \<and> dl \<le> fx_now s1 then (Ret (- LINUX_ETIMEDOUT), waiter_drop i s1)
       else if futex_load_u32 (Some a) (um 2) \<noteq> val then (Ret (- LINUX_EAGAIN), waiter_cancel_blocked i s2)
       else (Park i, s2))"
    proof -
      have "(\<not> k_u8Private key \<and> k_u64Phys key = 0) = False" using ok(3) by (auto simp: valid_key_def)
      with ok(1,2,4-6) fnd wtg show ?thesis
        by (subst w [symmetric]) (auto simp: futex_wait_common_def Let_def reg blk)
    qed
    have npk: "\<not> parked s j t" for j using t(2) by (simp add: parked_def)
    show ?thesis
    proof (cases "dl \<noteq> 0 \<and> fx_timer_ready s1 \<and> dl \<le> fx_now s1")
      case True
      then have "out = Ret (- LINUX_ETIMEDOUT)" "u = waiter_drop i s1" using step by simp_all
      moreover have "same_waits s (waiter_drop i s1)"
        using len i by (auto simp: same_waits_def waiter_drop_def s1_def upd_waiter_def nth_list_update parked_def)
      ultimately show ?thesis using same_waits_inv [OF _ run inv] by simp
    next
      case nodl: False
      show ?thesis
      proof (cases "futex_load_u32 (Some a) (um 2) \<noteq> val")
        case True
        then have o: "out = Ret (- LINUX_EAGAIN)" "u = waiter_cancel_blocked i s2" using step nodl by auto
        have e: "p\<lparr>th_pBlockObj := None, th_u32BlockTag := 0, th_u32State := GJ_THR_RUNNING\<rparr> = p\<lparr>th_pBlockObj := None, th_u32BlockTag := 0\<rparr>"
          if "th_u32State p = GJ_THR_RUNNING" for p :: gj_thread using that by (cases p) simp
        have "u = s\<lparr>fx_aWaiters := (fx_aWaiters s)[i := (registered val bs key t dl)\<lparr>w_u8Waiting := False, w_u8Used := False,
             w_u32TimedOut := False, w_u32Bitset := 0\<rparr>],
            fx_threads := (fx_threads s)[t := (fx_threads s ! t)\<lparr>th_pBlockObj := None, th_u32BlockTag := 0, th_u32State := GJ_THR_RUNNING\<rparr>]\<rparr>"
          using wi t len i(1)
          by (simp add: o(2) waiter_cancel_blocked_def s2_def s1_def upd_waiter_def upd_thread_def registered_def
              Let_def unblock_def bt_def)
        note u = this [unfolded e [OF t(2)]]
        have "same_waits s u"
          using len i(1,2) t(1) ok(4) by (auto simp: same_waits_def u nth_list_update)
        then show ?thesis using same_waits_inv [OF _ run inv] o by simp
      next
        case False
        then have o: "out = Park i" "u = s2" using step nodl by auto
        have pk: "parked s2 j t' \<longleftrightarrow> (if t' = t then j = i else parked s j t')" if "t' < GJ_MAX_THREADS" for j t'
          using that len t(1) by (auto simp: parked_def s2_def bt_def nth_list_update)
        have wt: "fx_aWaiters s2 = (fx_aWaiters s)[i := registered val bs key t dl]"
          by (simp add: s2_def s1_def upd_waiter_def)
        have "futex_inv E s2"
        proof (rule futex_invI)
          fix t' j assume t': "t' < GJ_MAX_THREADS" "parked s2 j t'"
          show "j < GJ_FUTEX_MAX_WAITERS \<and> waiting s2 j \<and> w_pThr (fx_aWaiters s2 ! j) = Some t'"
          proof (cases "t' = t")
            case True
            then show ?thesis using t' pk i(1) len by (simp add: waiting_def wt registered_def)
          next
            case False
            then have "parked s j t'" using t' pk by simp
            note q = inv_parked [OF inv this t'(1)]
            have "j \<noteq> i" using q(2) i(3) by auto
            then show ?thesis using q by (simp add: waiting_def wt)
          qed
        next
          fix j assume j: "j < GJ_FUTEX_MAX_WAITERS" "waiting s2 j"
          show "\<exists>t' < GJ_MAX_THREADS. w_pThr (fx_aWaiters s2 ! j) = Some t' \<and> (parked s2 j t' \<longleftrightarrow> j \<notin> E)"
          proof (cases "j = i")
            case True
            then show ?thesis using t(1) pk [OF t(1)] i len E by (intro exI [of _ t]) (auto simp: wt registered_def)
          next
            case ji: False
            then have "waiting s j" using j(2) by (simp add: waiting_def wt)
            from inv this j(1) obtain t' where t': "t' < GJ_MAX_THREADS" "w_pThr (fx_aWaiters s ! j) = Some t'" "parked s j t' \<longleftrightarrow> j \<notin> E"
              by (rule inv_waiting)
            have "parked s2 j t' = parked s j t'" using pk [OF t'(1), of j] npk [of j] ji by auto
            then show ?thesis using t' ji by (intro exI [of _ t']) (simp add: wt)
          qed
        qed (use len in \<open>simp_all add: s2_def s1_def upd_waiter_def\<close>)
        moreover have "\<forall>k < 3. futex_load_u32 (Some a) (um k) = val"
        proof (intro allI impI)
          fix k :: nat assume "k < 3"
          then consider "k = 0" | "k = 1" | "k = 2" by linarith
          then show "futex_load_u32 (Some a) (um k) = val" using ok(5,6) False by cases simp_all
        qed
        moreover have "fx_threads s2 = (fx_threads s)[t := bt]" by (simp add: s2_def)
        ultimately show ?thesis using o ok i wt by (simp add: bt_def)
      qed
    qed
  qed
  then show "futex_inv E u" and "?C out u" by blast+
qed

section \<open>Timer, cancellation and exit\<close>

lemma timer_loop_inv:
  "futex_inv E s \<Longrightarrow> set is \<subseteq> {..<GJ_FUTEX_MAX_WAITERS} \<Longrightarrow> futex_inv E (timer_loop now is s)"
proof (induction "is" arbitrary: s)
  case (Cons i "is")
  have i: "i < GJ_FUTEX_MAX_WAITERS" and sub: "set is \<subseteq> {..<GJ_FUTEX_MAX_WAITERS}" using Cons.prems(2) by auto
  have "futex_inv E (wake_slot i (upd_waiter i (\<lambda>w. w\<lparr>w_u32TimedOut := True, w_u8Waiting := False\<rparr>) s))"
    by (rule wake_slot_spec(2) [OF Cons.prems(1) i]) simp
  then show ?case using Cons.IH [OF _ sub] Cons.prems(1) by (simp add: Let_def waiting_def)
qed simp

lemma resume_inv:
  assumes "futex_inv E s" "\<And>t. t < GJ_MAX_THREADS \<Longrightarrow> \<not> parked s i t"
  shows "futex_inv E (snd (futex_wait_resume i s))"
  unfolding futex_wait_resume_def Let_def waiter_drop_def snd_conv by (rule inv_upd_idle) (use assms in simp_all)

text \<open>What the cancellation of thread \<open>t\<close> leaves of the waiter table.\<close>

definition cancelled :: "nat set \<Rightarrow> nat \<Rightarrow> nat set \<Rightarrow> futex_state \<Rightarrow> futex_state \<Rightarrow> bool" where
  "cancelled E t I s u \<longleftrightarrow> futex_inv E u \<and> fx_us u = fx_us s \<and> fx_aRobust u = fx_aRobust s
     \<and> (\<forall>t' < GJ_MAX_THREADS. th_u32Id (fx_threads u ! t') = th_u32Id (fx_threads s ! t'))
     \<and> (\<forall>i < GJ_FUTEX_MAX_WAITERS. fx_aWaiters u ! i =
         (if i \<in> I \<and> w_u8Used (fx_aWaiters s ! i) \<and> w_pThr (fx_aWaiters s ! i) = Some t then no_waiter
          else fx_aWaiters s ! i))"

lemma cancel_slot:
  assumes inv: "futex_inv E s" and i: "i < GJ_FUTEX_MAX_WAITERS"
    and u: "u = upd_waiter i (\<lambda>_. no_waiter)
      (if w_u8Used (fx_aWaiters s ! i) \<and> w_u8Waiting (fx_aWaiters s ! i)
       then wake_slot i (upd_waiter i (\<lambda>w. w\<lparr>w_u8Waiting := False\<rparr>) s) else s)"
  shows "futex_inv E u" "fx_us u = fx_us s" "fx_aRobust u = fx_aRobust s"
    "fx_aWaiters u = (fx_aWaiters s)[i := no_waiter]"
    "\<And>t'. t' < GJ_MAX_THREADS \<Longrightarrow> th_u32Id (fx_threads u ! t') = th_u32Id (fx_threads s ! t')"
proof -
  note len = inv_len [OF inv]
  have main: "futex_inv E u \<and> fx_us u = fx_us s \<and> fx_aRobust u = fx_aRobust s \<and> fx_aWaiters u = (fx_aWaiters s)[i := no_waiter]
        \<and> (\<forall>t' < GJ_MAX_THREADS. th_u32Id (fx_threads u ! t') = th_u32Id (fx_threads s ! t'))"
  proof (cases "waiting s i")
    case True
    let ?v = "wake_slot i (upd_waiter i (\<lambda>w. w\<lparr>w_u8Waiting := False\<rparr>) s)"
    note ws = wake_slot_spec [OF inv i, of "\<lambda>w. w\<lparr>w_u8Waiting := False\<rparr>", simplified]
    have u': "u = upd_waiter i (\<lambda>_. no_waiter) ?v" using u True by (simp add: waiting_def)
    have "\<not> waiting ?v i" using len i by (simp add: ws(1) waiting_def)
    then have "futex_inv E u"
      unfolding u' by (intro inv_upd_idle [OF ws(2)] idle_slot [OF ws(2)]) (simp_all add: no_waiter_def)
    moreover have "u = s\<lparr>fx_aWaiters := (fx_aWaiters s)[i := no_waiter], fx_threads := woken_on i s\<rparr>"
      unfolding u' ws(1) by (simp add: upd_waiter_def)
    ultimately show ?thesis by (simp add: woken_def)
  next
    case False
    then have u': "u = upd_waiter i (\<lambda>_. no_waiter) s" using u by (auto simp: waiting_def)
    have "futex_inv E u"
      unfolding u' by (intro inv_upd_idle [OF inv] idle_slot [OF inv False]) (simp_all add: no_waiter_def)
    then show ?thesis
      by (simp add: u' upd_waiter_def)
  qed
  then show "futex_inv E u" "fx_us u = fx_us s" "fx_aRobust u = fx_aRobust s"
    "fx_aWaiters u = (fx_aWaiters s)[i := no_waiter]"
    "\<And>t'. t' < GJ_MAX_THREADS \<Longrightarrow> th_u32Id (fx_threads u ! t') = th_u32Id (fx_threads s ! t')"
    by blast+
qed

lemma cancel_loop_spec:
  assumes "futex_inv E s" and "distinct is" and "set is \<subseteq> {..<GJ_FUTEX_MAX_WAITERS}"
    and "cancel_loop t is n s = (r, u)"
  shows "cancelled E t (set is) s u"
  using assms
proof (induction "is" arbitrary: n s)
  case Nil
  then show ?case by (simp add: cancelled_def)
next
  case (Cons i "is")
  have i: "i < GJ_FUTEX_MAX_WAITERS" and sub: "set is \<subseteq> {..<GJ_FUTEX_MAX_WAITERS}" and d: "i \<notin> set is" "distinct is"
    using Cons.prems(2,3) by auto
  show ?case
  proof (cases "w_u8Used (fx_aWaiters s ! i) \<and> w_pThr (fx_aWaiters s ! i) = Some t")
    case True
    define v where "v = upd_waiter i (\<lambda>_. no_waiter)
      (if w_u8Used (fx_aWaiters s ! i) \<and> w_u8Waiting (fx_aWaiters s ! i)
       then wake_slot i (upd_waiter i (\<lambda>w. w\<lparr>w_u8Waiting := False\<rparr>) s) else s)"
    note c = cancel_slot [OF Cons.prems(1) i v_def]
    have l: "cancel_loop t is (n + 1) v = (r, u)" using Cons.prems(4) True by (simp add: v_def Let_def)
    note ih = Cons.IH [OF c(1) d(2) sub l]
    have "fx_aWaiters u ! j = (if j \<in> set (i # is) \<and> w_u8Used (fx_aWaiters s ! j) \<and> w_pThr (fx_aWaiters s ! j) = Some t
        then no_waiter else fx_aWaiters s ! j)" if "j < GJ_FUTEX_MAX_WAITERS" for j
      using ih that True d(1) i inv_len [OF Cons.prems(1)] by (cases "j = i") (auto simp: cancelled_def c(4))
    then show ?thesis using ih c(2,3,5) by (simp add: cancelled_def)
  next
    case False
    then have "cancel_loop t is n s = (r, u)" using Cons.prems(4) by (auto simp: Let_def split: if_split_asm)
    from Cons.IH [OF Cons.prems(1) d(2) sub this] False show ?thesis by (auto simp: cancelled_def)
  qed
qed

lemma scrub_loop_spec:
  assumes "length (fx_aRobust s) = GJ_FUTEX_ROBUST_SLOTS" and "set is \<subseteq> {..<GJ_FUTEX_ROBUST_SLOTS}"
    and f: "\<And>r. \<not> r_u8Used (f r)"
  shows "fx_aWaiters (scrub_loop tid f is s) = fx_aWaiters s \<and> fx_threads (scrub_loop tid f is s) = fx_threads s
    \<and> fx_us (scrub_loop tid f is s) = fx_us s \<and> length (fx_aRobust (scrub_loop tid f is s)) = GJ_FUTEX_ROBUST_SLOTS
    \<and> (\<forall>j < GJ_FUTEX_ROBUST_SLOTS. r_u8Used (fx_aRobust (scrub_loop tid f is s) ! j) \<longrightarrow>
        fx_aRobust (scrub_loop tid f is s) ! j = fx_aRobust s ! j \<and> \<not> (j \<in> set is \<and> r_u32Tid (fx_aRobust s ! j) = tid))"
  using assms(1,2)
proof (induction "is" arbitrary: s)
  case (Cons i "is")
  have i: "i < GJ_FUTEX_ROBUST_SLOTS" "set is \<subseteq> {..<GJ_FUTEX_ROBUST_SLOTS}" using Cons.prems(2) by auto
  show ?case
  proof (cases "r_u8Used (fx_aRobust s ! i) \<and> r_u32Tid (fx_aRobust s ! i) = tid")
    case True
    define v where "v = upd_robust i f s"
    have len: "length (fx_aRobust v) = GJ_FUTEX_ROBUST_SLOTS"
      and fr: "fx_aWaiters v = fx_aWaiters s" "fx_threads v = fx_threads s" "fx_us v = fx_us s"
      using Cons.prems(1) by (simp_all add: v_def upd_robust_def)
    have nth: "fx_aRobust v ! j = (if j = i then f (fx_aRobust s ! i) else fx_aRobust s ! j)" for j
      using Cons.prems(1) i(1) by (simp add: v_def upd_robust_def nth_list_update)
    have eq: "scrub_loop tid f (i # is) s = scrub_loop tid f is v" using True by (simp add: v_def)
    note ih = Cons.IH [OF len i(2)]
    have "fx_aRobust (scrub_loop tid f is v) ! j = fx_aRobust s ! j \<and> \<not> (j \<in> set (i # is) \<and> r_u32Tid (fx_aRobust s ! j) = tid)"
      if j: "j < GJ_FUTEX_ROBUST_SLOTS" "r_u8Used (fx_aRobust (scrub_loop tid f is v) ! j)" for j
    proof -
      have k: "fx_aRobust (scrub_loop tid f is v) ! j = fx_aRobust v ! j" "\<not> (j \<in> set is \<and> r_u32Tid (fx_aRobust v ! j) = tid)"
        using ih j by blast+
      have "j \<noteq> i" using k(1) j(2) f by (auto simp: nth)
      then show ?thesis using k by (simp add: nth)
    qed
    then show ?thesis using ih unfolding eq fr by blast
  next
    case False
    from Cons.IH [OF Cons.prems(1) i(2)] False show ?thesis by auto
  qed
qed simp

lemma cancel_thr_spec:
  assumes inv: "futex_inv E s" and t: "t < GJ_MAX_THREADS" and tid: "th_u32Id (fx_threads s ! t) \<noteq> 0"
    and u: "u = snd (futex_cancel_thr (Some t) s)"
  shows "futex_inv E u" "fx_us u = fx_us s" "th_u32Id (fx_threads u ! t) = th_u32Id (fx_threads s ! t)"
    "\<And>i. i < GJ_FUTEX_MAX_WAITERS \<Longrightarrow> fx_aWaiters u ! i =
       (if w_u8Used (fx_aWaiters s ! i) \<and> w_pThr (fx_aWaiters s ! i) = Some t then no_waiter else fx_aWaiters s ! i)"
    "\<And>j. j < GJ_FUTEX_ROBUST_SLOTS \<Longrightarrow> r_u8Used (fx_aRobust u ! j) \<Longrightarrow>
       fx_aRobust u ! j = fx_aRobust s ! j \<and> r_u32Tid (fx_aRobust u ! j) \<noteq> th_u32Id (fx_threads s ! t)"
proof -
  obtain r v where l: "cancel_loop t [0..<GJ_FUTEX_MAX_WAITERS] 0 s = (r, v)"
    by (cases "cancel_loop t [0..<GJ_FUTEX_MAX_WAITERS] 0 s")
  have sub: "set [0..<GJ_FUTEX_MAX_WAITERS] \<subseteq> {..<GJ_FUTEX_MAX_WAITERS}" by auto
  have c: "cancelled E t {0..<GJ_FUTEX_MAX_WAITERS} s v" using cancel_loop_spec [OF inv distinct_upt sub l] by simp
  define w where "w = scrub_loop (th_u32Id (fx_threads s ! t)) (\<lambda>_. no_robust) [0..<GJ_FUTEX_ROBUST_SLOTS] v"
  have uw: "u = w" using u l tid by (simp add: futex_cancel_thr_def w_def)
  have invv: "futex_inv E v" using c by (simp add: cancelled_def)
  have sub': "set [0..<GJ_FUTEX_ROBUST_SLOTS] \<subseteq> {..<GJ_FUTEX_ROBUST_SLOTS}" by auto
  have sc: "fx_aWaiters w = fx_aWaiters v" "fx_threads w = fx_threads v" "fx_us w = fx_us v"
    "length (fx_aRobust w) = GJ_FUTEX_ROBUST_SLOTS"
    "\<And>j. j < GJ_FUTEX_ROBUST_SLOTS \<Longrightarrow> r_u8Used (fx_aRobust w ! j) \<Longrightarrow>
      fx_aRobust w ! j = fx_aRobust v ! j \<and> r_u32Tid (fx_aRobust v ! j) \<noteq> th_u32Id (fx_threads s ! t)"
    using scrub_loop_spec [OF inv_len(2) [OF invv] sub', of "\<lambda>_. no_robust" "th_u32Id (fx_threads s ! t)", folded w_def]
    by (auto simp: no_robust_def)
  show "futex_inv E u"
    unfolding uw by (rule inv_frame [OF invv]) (use inv_len [OF invv] sc in \<open>simp_all add: parked_def waiting_def\<close>)
  show "fx_us u = fx_us s" "th_u32Id (fx_threads u ! t) = th_u32Id (fx_threads s ! t)"
    using c sc t by (simp_all add: uw cancelled_def)
  show "fx_aWaiters u ! i = (if w_u8Used (fx_aWaiters s ! i) \<and> w_pThr (fx_aWaiters s ! i) = Some t then no_waiter else fx_aWaiters s ! i)"
    if "i < GJ_FUTEX_MAX_WAITERS" for i
    using c sc(1) that by (simp add: uw cancelled_def)
  show "fx_aRobust u ! j = fx_aRobust s ! j \<and> r_u32Tid (fx_aRobust u ! j) \<noteq> th_u32Id (fx_threads s ! t)"
    if "j < GJ_FUTEX_ROBUST_SLOTS" "r_u8Used (fx_aRobust u ! j)" for j
    using sc(5) [OF that(1)] that(2) c by (simp add: uw cancelled_def)
qed

text \<open>One word marked: it was readable by the user, named the thread as its owner and was not marked
  yet; and any number of such steps.\<close>

definition mark_word :: "u32 \<Rightarrow> uspace \<Rightarrow> uspace \<Rightarrow> bool" where
  "mark_word tid us us' \<longleftrightarrow> (\<exists>a w. a AND 3 = 0 \<and> user_load_u32 a us = Inr w
     \<and> w AND GJ_FUTEX_TID_MASK = tid AND GJ_FUTEX_TID_MASK \<and> w AND GJ_FUTEX_OWNER_DIED = 0
     \<and> us' = us\<lparr>us_mem := store32 a (w OR GJ_FUTEX_OWNER_DIED) (us_mem us)\<rparr>)"

inductive marks :: "u32 \<Rightarrow> nat \<Rightarrow> uspace \<Rightarrow> uspace \<Rightarrow> bool" where
  None: "marks tid 0 us us"
| More: "marks tid n us us' \<Longrightarrow> mark_word tid us' us'' \<Longrightarrow> marks tid (Suc n) us us''"

text \<open>Waiter slots keep their owner and key, threads their identity; waiters on shared keys are as
  before.\<close>

definition same_owner :: "futex_state \<Rightarrow> futex_state \<Rightarrow> bool" where
  "same_owner s u \<longleftrightarrow>
     (\<forall>t < GJ_MAX_THREADS. th_u32Id (fx_threads u ! t) = th_u32Id (fx_threads s ! t))
     \<and> (\<forall>i < GJ_FUTEX_MAX_WAITERS. w_u8Used (fx_aWaiters u ! i) = w_u8Used (fx_aWaiters s ! i)
         \<and> w_pThr (fx_aWaiters u ! i) = w_pThr (fx_aWaiters s ! i) \<and> w_key (fx_aWaiters u ! i) = w_key (fx_aWaiters s ! i)
         \<and> (\<not> k_u8Private (w_key (fx_aWaiters s ! i)) \<longrightarrow> fx_aWaiters u ! i = fx_aWaiters s ! i))"

lemma same_owner_refl: "same_owner s s"
  by (simp add: same_owner_def)

lemma same_owner_trans: "same_owner s u \<Longrightarrow> same_owner u v \<Longrightarrow> same_owner s v"
  unfolding same_owner_def by auto

lemma wake_private_owner:
  assumes inv: "futex_inv E s" and key: "k_u8Private key"
  shows "same_owner s (snd (futex_wake (Some key) n s))" "fx_us (snd (futex_wake (Some key) n s)) = fx_us s"
proof -
  obtain r u where ru: "futex_wake_common (Some key) n GJ_FUTEX_BITSET_MATCH_ANY s = (r, u)"
    by (cases "futex_wake_common (Some key) n GJ_FUTEX_BITSET_MATCH_ANY s")
  let ?ws = "take (unat n) (filter (\<lambda>i. wake_match key GJ_FUTEX_BITSET_MATCH_ANY (fx_aWaiters s ! i)) [0..<GJ_FUTEX_MAX_WAITERS])"
  have w: "woke ?ws s u" using wake_spec(3) [OF inv _ _ ru] key by (simp add: valid_key_def)
  have pv: "k_u8Private (w_key (fx_aWaiters s ! i))" if "i \<in> set ?ws" for i
  proof -
    have "wake_match key GJ_FUTEX_BITSET_MATCH_ANY (fx_aWaiters s ! i)"
      using that by (auto dest: in_set_takeD)
    then show ?thesis using key by (auto simp: wake_match_def key_eq_def split: if_split_asm)
  qed
  have A: "fx_aWaiters u ! i = (if i \<in> set ?ws then (fx_aWaiters s ! i)\<lparr>w_u8Waiting := False\<rparr> else fx_aWaiters s ! i)"
    if "i < GJ_FUTEX_MAX_WAITERS" for i using w that unfolding woke_def by blast
  have B: "th_u32Id (fx_threads u ! t) = th_u32Id (fx_threads s ! t)" if "t < GJ_MAX_THREADS" for t
    using w that unfolding woke_def by (simp add: woken_def)
  have eq: "snd (futex_wake (Some key) n s) = u" using ru by (simp add: futex_wake_def)
  show "fx_us (snd (futex_wake (Some key) n s)) = fx_us s" using w unfolding eq woke_def by blast
  have C: "w_u8Used (fx_aWaiters u ! i) = w_u8Used (fx_aWaiters s ! i)
         \<and> w_pThr (fx_aWaiters u ! i) = w_pThr (fx_aWaiters s ! i) \<and> w_key (fx_aWaiters u ! i) = w_key (fx_aWaiters s ! i)
         \<and> (\<not> k_u8Private (w_key (fx_aWaiters s ! i)) \<longrightarrow> fx_aWaiters u ! i = fx_aWaiters s ! i)"
    if "i < GJ_FUTEX_MAX_WAITERS" for i
    using A [OF that] pv [of i] by (cases "i \<in> set ?ws") simp_all
  show "same_owner s (snd (futex_wake (Some key) n s))" unfolding eq same_owner_def using B C by blast
qed

lemma futex_store_eq: "a \<noteq> 0 \<Longrightarrow> futex_store_u32 a v us = (True, us\<lparr>us_mem := store32 a v (us_mem us)\<rparr>)"
  unfolding futex_store_u32_def user_store_u32_def store_bytes_eq by simp

lemma load_zero: "user_load_u32 0 us = Inl GJ_ERR_FAULT"
  by (simp add: user_load_u32_def mapped_exact range_ok_iff)

lemma handle_entry_spec:
  assumes inv: "futex_inv E s" and h: "robust_handle_entry t e off tid s = (f, u)"
  shows "futex_inv E u \<and> same_owner s u \<and> (if f then mark_word tid (fx_us s) (fx_us u) else u = s)"
proof (cases "e = 0 \<or> (e + off) AND 3 \<noteq> 0 \<or> (\<exists>x. user_load_u32 (e + off) (fx_us s) = Inl x)")
  case True
  then have "f = False \<and> u = s" using h by (auto simp: robust_handle_entry_def Let_def split: if_split_asm)
  then show ?thesis using inv same_owner_refl by simp
next
  case False
  then obtain w where w: "e \<noteq> 0" "(e + off) AND 3 = 0" "user_load_u32 (e + off) (fx_us s) = Inr w"
    by (metis sum.exhaust)
  have a0: "e + off \<noteq> 0" using w(3) load_zero by (metis sum.distinct(1))
  show ?thesis
  proof (cases "w AND GJ_FUTEX_TID_MASK = tid AND GJ_FUTEX_TID_MASK \<and> w AND GJ_FUTEX_OWNER_DIED = 0")
    case False
    then have "f = False \<and> u = s" using h w by (auto simp: robust_handle_entry_def Let_def split: if_split_asm)
    then show ?thesis using inv same_owner_refl by simp
  next
    case True
    define us where "us = (fx_us s)\<lparr>us_mem := store32 (e + off) (w OR GJ_FUTEX_OWNER_DIED) (us_mem (fx_us s))\<rparr>"
    define v where "v = s\<lparr>fx_us := us\<rparr>"
    have st: "futex_store_u32 (e + off) (w OR GJ_FUTEX_OWNER_DIED) (fx_us s) = (True, us)"
      by (simp add: futex_store_eq [OF a0] us_def)
    obtain key where key: "futex_key_from_uaddr_proc (e + off) True (proc_root (s\<lparr>fx_us := us\<rparr>) (fx_threads s ! t)) (s\<lparr>fx_us := us\<rparr>) = Inr key"
      "k_u8Private key"
      using w(2) by (simp add: futex_key_from_uaddr_proc_def)
    have r: "f = True \<and> u = snd (futex_wake (Some key) 1 v)"
      using h w True key(1) by (simp add: robust_handle_entry_def Let_def st v_def)
    have invv: "futex_inv E v" using inv by (simp add: v_def inv_us)
    have "same_owner s v" by (simp add: same_owner_def v_def)
    moreover have "same_owner v u" "fx_us u = us"
      using wake_private_owner [OF invv key(2)] r by (simp_all add: v_def)
    moreover have "mark_word tid (fx_us s) us" unfolding mark_word_def us_def using w True by blast
    moreover have "futex_inv E u" using wake_inv [OF invv] r by (simp add: futex_wake_def)
    ultimately show ?thesis using r same_owner_trans by auto
  qed
qed

lemma marks_append: "marks tid b us' us'' \<Longrightarrow> marks tid a us us' \<Longrightarrow> marks tid (a + b) us us''"
  by (induction rule: marks.induct) (auto intro: marks.intros)

lemma marks_handle:
  "if f then mark_word tid us us' else us' = us \<Longrightarrow> marks tid (of_bool f) us us'"
  using marks.More [OF marks.None] by (cases f) (auto intro: marks.None)

lemma robust_walk_spec:
  assumes "futex_inv E s" and "robust_walk n t head pend off tid e m s = (r, u)"
  shows "futex_inv E u \<and> same_owner s u \<and> (\<exists>k \<le> n. r = m + k \<and> marks tid k (fx_us s) (fx_us u))"
  using assms
proof (induction n arbitrary: e m s)
  case 0
  then show ?case by (simp add: same_owner_refl marks.None)
next
  case (Suc n)
  show ?case
  proof (cases "e = 0 \<or> e = head")
    case True
    then show ?thesis using Suc.prems by (auto simp: same_owner_refl intro: marks.None)
  next
    case False
    obtain f v where h: "(if e \<noteq> pend then robust_handle_entry t e off tid s else (False, s)) = (f, v)"
      by (metis surj_pair)
    have hv: "futex_inv E v" "same_owner s v" "marks tid (of_bool f) (fx_us s) (fx_us v)"
    proof -
      have "futex_inv E v \<and> same_owner s v \<and> (if f then mark_word tid (fx_us s) (fx_us v) else v = s)"
        using handle_entry_spec [OF Suc.prems(1)] h Suc.prems(1) same_owner_refl by (auto split: if_split_asm)
      then show "futex_inv E v" "same_owner s v" "marks tid (of_bool f) (fx_us s) (fx_us v)"
        using marks_handle [of f tid "fx_us s" "fx_us v"] by (auto split: if_split_asm)
    qed
    consider "r = m + of_bool f" "u = v"
      | e' where "robust_walk n t head pend off tid e' (m + of_bool f) v = (r, u)"
    proof -
      have "(r, u) = (if \<not> user_range_mapped_access (us_pte (fx_us v)) e 8 GJ_USER_ACCESS_READ then (m + of_bool f, v)
          else if load64 (us_mem (fx_us v)) e = e then (m + of_bool f, v)
          else robust_walk n t head pend off tid (load64 (us_mem (fx_us v)) e) (m + of_bool f) v)"
        unfolding Suc.prems(2) [symmetric] robust_walk.simps(2) h using False by (simp add: Let_def)
      then show thesis using that by (metis prod.inject)
    qed
    then show ?thesis
    proof cases
      case 1
      then show ?thesis using hv by (intro conjI exI [of _ "of_bool f"]) auto
    next
      case 2
      from Suc.IH [OF hv(1) 2] obtain k where k: "futex_inv E u" "same_owner v u" "k \<le> n"
        "r = m + of_bool f + k" "marks tid k (fx_us v) (fx_us u)" by blast
      then show ?thesis using same_owner_trans [OF hv(2) k(2)] marks_append [OF k(5) hv(3)]
        by (intro conjI exI [of _ "of_bool f + k"]) auto
    qed
  qed
qed

lemma find_tid:
  assumes "robust_find_tid tid s = None" "j < GJ_FUTEX_ROBUST_SLOTS" "r_u8Used (fx_aRobust s ! j)"
  shows "r_u32Tid (fx_aRobust s ! j) \<noteq> tid"
  using assms by (auto simp: robust_find_tid_def find_None_iff)

text \<open>What is left of thread \<open>t\<close> after its exit: nothing.\<close>

definition gone :: "nat \<Rightarrow> u32 \<Rightarrow> futex_state \<Rightarrow> bool" where
  "gone t tid u \<longleftrightarrow>
     (\<forall>i < GJ_FUTEX_MAX_WAITERS. w_u8Used (fx_aWaiters u ! i) \<longrightarrow> w_pThr (fx_aWaiters u ! i) \<noteq> Some t)
     \<and> (\<forall>j < GJ_FUTEX_ROBUST_SLOTS. r_u8Used (fx_aRobust u ! j) \<longrightarrow> r_u32Tid (fx_aRobust u ! j) \<noteq> tid)"

text \<open>The waiters other threads have on shared keys are as before.\<close>

definition shared_kept :: "nat \<Rightarrow> futex_state \<Rightarrow> futex_state \<Rightarrow> bool" where
  "shared_kept t s u \<longleftrightarrow>
     (\<forall>i < GJ_FUTEX_MAX_WAITERS. w_u8Used (fx_aWaiters s ! i) \<and> w_pThr (fx_aWaiters s ! i) \<noteq> Some t
        \<and> \<not> k_u8Private (w_key (fx_aWaiters s ! i)) \<longrightarrow> fx_aWaiters u ! i = fx_aWaiters s ! i)"

lemma cancel_gone:
  assumes inv: "futex_inv E v" and t: "t < GJ_MAX_THREADS" and tid: "tid = th_u32Id (fx_threads v ! t)" "tid \<noteq> 0"
    and u: "u = snd (futex_cancel_thr (Some t) v)"
  shows "futex_inv E u" "fx_us u = fx_us v" "gone t tid u" "same_owner s v \<Longrightarrow> shared_kept t s u"
proof -
  note c = cancel_thr_spec [OF inv t tid(2) [unfolded tid(1)] u]
  show "futex_inv E u" "fx_us u = fx_us v" by (fact c)+
  show "gone t tid u" using c(4,5) tid(1) unfolding gone_def by (auto simp: no_waiter_def)
  show "shared_kept t s u" if so: "same_owner s v"
    unfolding shared_kept_def
  proof (intro allI impI)
    fix i assume i: "i < GJ_FUTEX_MAX_WAITERS" "w_u8Used (fx_aWaiters s ! i) \<and> w_pThr (fx_aWaiters s ! i) \<noteq> Some t
        \<and> \<not> k_u8Private (w_key (fx_aWaiters s ! i))"
    then have "fx_aWaiters v ! i = fx_aWaiters s ! i" using so by (simp add: same_owner_def)
    then show "fx_aWaiters u ! i = fx_aWaiters s ! i" using c(4) [OF i(1)] i(2) by simp
  qed
qed

lemma scrub_gone:
  assumes inv: "futex_inv E v" and g: "gone t tid v" and u: "u = scrub_loop tid robust_clear [0..<GJ_FUTEX_ROBUST_SLOTS] v"
  shows "futex_inv E u" "fx_us u = fx_us v" "gone t tid u" "fx_aWaiters u = fx_aWaiters v"
proof -
  have sub: "set [0..<GJ_FUTEX_ROBUST_SLOTS] \<subseteq> {..<GJ_FUTEX_ROBUST_SLOTS}" by auto
  note sc = scrub_loop_spec [OF inv_len(2) [OF inv] sub, of robust_clear tid, folded u]
  have sc': "fx_aWaiters u = fx_aWaiters v" "fx_threads u = fx_threads v" "fx_us u = fx_us v"
    "length (fx_aRobust u) = GJ_FUTEX_ROBUST_SLOTS" using sc by (simp_all add: robust_clear_def)
  show "fx_us u = fx_us v" "fx_aWaiters u = fx_aWaiters v" by (fact sc')+
  show "futex_inv E u"
    by (rule inv_frame [OF inv]) (use inv_len [OF inv] sc' in \<open>simp_all add: parked_def waiting_def\<close>)
  have "r_u32Tid (fx_aRobust u ! j) \<noteq> tid" if "j < GJ_FUTEX_ROBUST_SLOTS" "r_u8Used (fx_aRobust u ! j)" for j
  proof -
    have "fx_aRobust u ! j = fx_aRobust v ! j" using sc that by (simp add: robust_clear_def)
    then show ?thesis using g that by (simp add: gone_def)
  qed
  then show "gone t tid u" using g by (simp add: gone_def sc'(1))
qed

lemma exit_spec:
  assumes inv: "futex_inv E s" and t: "t < GJ_MAX_THREADS" and tid: "tid = th_u32Id (fx_threads s ! t)" "tid \<noteq> 0"
    and e: "futex_exit_robust_list (Some t) s = (r, u)"
  shows "futex_inv E u \<and> gone t tid u \<and> shared_kept t s u \<and> r \<le> Suc GJ_FUTEX_ROBUST_WALK_MAX \<and> marks tid r (fx_us s) (fx_us u)"
proof -
  have early: ?thesis if so: "same_owner s v" "futex_inv E v" "fx_us v = fx_us s" and r: "r = 0" "u = snd (futex_cancel_thr (Some t) v)" for v
  proof -
    have "tid = th_u32Id (fx_threads v ! t)" using so(1) t tid(1) by (simp add: same_owner_def)
    note c = cancel_gone [OF so(2) t this tid(2) r(2)]
    show ?thesis using c(1-3) c(4) [OF so(1)] r(1) so(3) by (simp add: marks.None)
  qed
  show ?thesis
  proof (cases "robust_find_tid tid s")
    case None
    then have "r = 0" "u = snd (futex_cancel_thr (Some t) s)" using e tid by (simp_all add: futex_exit_robust_list_def)
    then show ?thesis by (rule early [OF same_owner_refl inv refl])
  next
    case (Some i)
    define head where "head = r_u64Head (fx_aRobust s ! i)"
    define v where "v = upd_robust i robust_clear s"
    have v: "same_owner s v" "futex_inv E v" "fx_us v = fx_us s"
      using inv by (simp_all add: v_def inv_upd_robust) (simp_all add: upd_robust_def same_owner_def)
    show ?thesis
    proof (cases "head = 0 \<or> \<not> user_range_mapped_access (us_pte (fx_us v)) head 24 GJ_USER_ACCESS_READ")
      case True
      then have "r = 0" "u = snd (futex_cancel_thr (Some t) s) \<or> u = snd (futex_cancel_thr (Some t) v)"
        using e tid Some by (cases "head = 0"; simp add: futex_exit_robust_list_def Let_def v_def head_def)+
      then show ?thesis using early [OF same_owner_refl inv refl] early [OF v] by blast
    next
      case False
      let ?m = "us_mem (fx_us v)"
      let ?off = "load64 ?m (head + 8)" and ?pend = "load64 ?m (head + 16)" and ?e = "load64 ?m head"
      obtain f w where h: "(if ?pend \<noteq> 0 then robust_handle_entry t ?pend ?off tid v else (False, v)) = (f, w)"
        by (metis surj_pair)
      obtain k x where wk: "robust_walk GJ_FUTEX_ROBUST_WALK_MAX t head ?pend ?off tid ?e (of_bool f) w = (k, x)"
        by (metis surj_pair)
      define y where "y = snd (futex_cancel_thr (Some t) x)"
      have ru: "r = k" "u = scrub_loop tid robust_clear [0..<GJ_FUTEX_ROBUST_SLOTS] y"
        using e tid Some False h [unfolded tid(1)] wk [unfolded tid(1)] unfolding futex_exit_robust_list_def y_def
        by (simp_all add: Let_def flip: v_def head_def)
      have hw: "futex_inv E w \<and> same_owner v w \<and> (if f then mark_word tid (fx_us v) (fx_us w) else w = v)"
        using handle_entry_spec [OF v(2)] h v(2) same_owner_refl by (auto split: if_split_asm)
      then have mf: "marks tid (of_bool f) (fx_us v) (fx_us w)"
        using marks_handle [of f tid "fx_us v" "fx_us w"] by (auto split: if_split_asm)
      from robust_walk_spec [OF conjunct1 [OF hw] wk] obtain n where
        n: "futex_inv E x" "same_owner w x" "n \<le> GJ_FUTEX_ROBUST_WALK_MAX" "k = of_bool f + n" "marks tid n (fx_us w) (fx_us x)" by blast
      have so: "same_owner s x" using v(1) hw n(2) same_owner_trans by blast
      have "tid = th_u32Id (fx_threads x ! t)" using so t tid(1) by (simp add: same_owner_def)
      note c = cancel_gone [OF n(1) t this tid(2) y_def]
      note g = scrub_gone [OF c(1,3) ru(2)]
      have "marks tid r (fx_us s) (fx_us u)"
        using marks_append [OF n(5) mf] by (simp add: ru(1) n(4) g(2) c(2) v(3))
      moreover have "shared_kept t s u" using c(4) [OF so] by (simp add: shared_kept_def g(4))
      ultimately show ?thesis using g(1,3) n(3,4) ru(1) by (cases f) simp_all
    qed
  qed
qed

end
