(* ===== verification/Sched.thy ===== *)
theory Sched
  imports Thread_Block
begin

text \<open>
  The scheduler of \<^verbatim>\<open>kernel/sched/thread.c\<close>: the thread table, creation, exit, service classes, affinity, the choice
  of the next thread and the switch.  Processors and threads are numbered; the code that runs on a processor
  is split at the points where another processor or the rest of the kernel can act: a call of \<^verbatim>\<open>schedule\<close> ends in
  the switch, and what follows the switch, on the stack of the other thread, is a step of its own.

  Left out are the stacks with their canaries, the tags and tallies for logs, and the anonymous-memory cursor.
  The kernel page-table root \<^verbatim>\<open>vmm_kernel_cr3()\<close> is set before threads run.
\<close>

section \<open>Data\<close>

abbreviation (input) GJ_CPU_STATIC_MAX :: nat where "GJ_CPU_STATIC_MAX \<equiv> 16"

abbreviation (input) GJ_QOS_NORMAL :: u8 where "GJ_QOS_NORMAL \<equiv> 0"
abbreviation (input) GJ_QOS_INTERACTIVE :: u8 where "GJ_QOS_INTERACTIVE \<equiv> 1"
abbreviation (input) GJ_QOS_BACKGROUND :: u8 where "GJ_QOS_BACKGROUND \<equiv> 2"
abbreviation (input) GJ_QOS_UTILITY :: u8 where "GJ_QOS_UTILITY \<equiv> 3"
abbreviation (input) GJ_QOS_DRIVER :: u8 where "GJ_QOS_DRIVER \<equiv> 4"
abbreviation (input) GJ_QOS_CLASS_MAX :: u32 where "GJ_QOS_CLASS_MAX \<equiv> 4"
abbreviation (input) GJ_QOS_BOOST_CAP :: u32 where "GJ_QOS_BOOST_CAP \<equiv> 4"
abbreviation (input) GJ_THR_F_USER_ENTRY :: u32 where "GJ_THR_F_USER_ENTRY \<equiv> 1"
abbreviation (input) GJ_THR_F_USER32_ENTRY :: u32 where "GJ_THR_F_USER32_ENTRY \<equiv> 2"

text \<open>
  Where a processor is: in the code of its thread, spinning in \<^verbatim>\<open>schedule\<close>, just switched to a thread, in
  \<^verbatim>\<open>thread_exit\<close> before its call of \<^verbatim>\<open>schedule\<close>, or halted behind it.
\<close>

datatype cpu_pc = Pc_Run | Pc_Spin | Pc_Land | Pc_Exit | Pc_Halt

record gj_cpu =
  cp_u64KernelRsp :: u64
  cp_u64UserRsp :: u64
  cp_u64UserRip :: u64
  cp_u64UserRflags :: u64
  cp_pCurrent :: "nat option"
  cp_u64Cr3 :: u64
  cp_pc :: cpu_pc

record sched_state =
  sc_threads :: threads
  sc_cpus :: "gj_cpu list"
  sc_procs :: "nat \<Rightarrow> gj_process"
  sc_kstack :: "nat \<Rightarrow> u64"
  sc_kernel_cr3 :: u64
  g_pIdle :: "nat option"
  g_apIdle :: "nat option list"
  g_u32NextId :: u32
  g_aThrCpu :: "u8 list"
  g_aThrQos :: "u8 list"
  g_aThrBoost :: "u8 list"
  g_aThrLastPick :: "u32 list"
  g_u32PickGen :: u32
  g_aRobin :: "u32 list"
  g_fYieldReq :: bool

abbreviation thr :: "sched_state \<Rightarrow> nat \<Rightarrow> gj_thread" where "thr s i \<equiv> sc_threads s ! i"
abbreviation cpu :: "sched_state \<Rightarrow> nat \<Rightarrow> gj_cpu" where "cpu s c \<equiv> sc_cpus s ! c"

definition upd_thr :: "nat \<Rightarrow> (gj_thread \<Rightarrow> gj_thread) \<Rightarrow> sched_state \<Rightarrow> sched_state" where
  "upd_thr i f s = s\<lparr>sc_threads := (sc_threads s)[i := f (thr s i)]\<rparr>"

definition upd_cpu :: "nat \<Rightarrow> (gj_cpu \<Rightarrow> gj_cpu) \<Rightarrow> sched_state \<Rightarrow> sched_state" where
  "upd_cpu c f s = s\<lparr>sc_cpus := (sc_cpus s)[c := f (cpu s c)]\<rparr>"

definition thread_current :: "nat \<Rightarrow> sched_state \<Rightarrow> nat option" where
  "thread_current c s = cp_pCurrent (cpu s c)"

definition cpu_load_cr3 :: "nat \<Rightarrow> u64 \<Rightarrow> sched_state \<Rightarrow> sched_state" where
  "cpu_load_cr3 c u64Cr3 s = (if u64Cr3 = 0 then s else upd_cpu c (\<lambda>p. p\<lparr>cp_u64Cr3 := u64Cr3\<rparr>) s)"

definition process_as_activate :: "nat \<Rightarrow> nat \<Rightarrow> sched_state \<Rightarrow> sched_state" where
  "process_as_activate c pProc s =
     (if pr_u64Cr3 (sc_procs s pProc) \<noteq> 0 then cpu_load_cr3 c (pr_u64Cr3 (sc_procs s pProc)) s
      else cpu_load_cr3 c (sc_kernel_cr3 s) s)"

section \<open>The thread table\<close>

definition thr_find_by_id :: "u32 \<Rightarrow> sched_state \<Rightarrow> nat option" where
  "thr_find_by_id u32Id s = (if u32Id = 0 then None else find (\<lambda>i. th_u32Id (thr s i) = u32Id) [0..<GJ_MAX_THREADS])"

text \<open>The slot the loops of the setters stop at.\<close>

definition find_used :: "u32 \<Rightarrow> sched_state \<Rightarrow> nat option" where
  "find_used u32ThrId s = find (\<lambda>i. th_u32Id (thr s i) = u32ThrId \<and> th_u32State (thr s i) \<noteq> GJ_THR_UNUSED) [0..<GJ_MAX_THREADS]"

definition free_slot :: "sched_state \<Rightarrow> nat option" where
  "free_slot s = find (\<lambda>i. th_u32State (thr s i) = GJ_THR_UNUSED \<or> th_u32State (thr s i) = GJ_THR_EXITED) [1..<GJ_MAX_THREADS]"

text \<open>The scheduling data of a slot on its way to a new thread.\<close>

definition reset_slot :: "nat \<Rightarrow> u8 \<Rightarrow> sched_state \<Rightarrow> sched_state" where
  "reset_slot i u8Cpu s = s\<lparr>g_aThrCpu := (g_aThrCpu s)[i := u8Cpu], g_aThrQos := (g_aThrQos s)[i := GJ_QOS_NORMAL],
     g_aThrBoost := (g_aThrBoost s)[i := 0], g_aThrLastPick := (g_aThrLastPick s)[i := 0]\<rparr>"

definition thread_init :: "nat \<Rightarrow> sched_state \<Rightarrow> sched_state" where
  "thread_init c s =
     (let s = s\<lparr>sc_threads := replicate GJ_MAX_THREADS no_thread, g_aThrCpu := replicate GJ_MAX_THREADS 0,
               g_aThrQos := replicate GJ_MAX_THREADS GJ_QOS_NORMAL, g_aThrBoost := replicate GJ_MAX_THREADS 0,
               g_aThrLastPick := replicate GJ_MAX_THREADS 0, g_u32PickGen := 1, g_fYieldReq := False, g_pIdle := Some 0,
               g_apIdle := (replicate GJ_CPU_STATIC_MAX None)[0 := Some 0]\<rparr>;
          s = upd_thr 0 (\<lambda>t. t\<lparr>th_u32Id := g_u32NextId s, th_u32State := GJ_THR_RUNNING, th_pProc := None,
                th_u64Cr3 := cp_u64Cr3 (cpu s c), th_u64KstackTop := sc_kstack s 0, th_u32SysUserValid := False\<rparr>) s;
          s = s\<lparr>g_u32NextId := g_u32NextId s + 1\<rparr>
      in upd_cpu c (\<lambda>p. p\<lparr>cp_pCurrent := Some 0\<rparr>) s)"

text \<open>\<open>False\<close> is the C result -1.\<close>

definition thread_init_ap_idle :: "nat \<Rightarrow> nat \<Rightarrow> sched_state \<Rightarrow> bool \<times> sched_state" where
  "thread_init_ap_idle c u32Cpu s =
     (if u32Cpu = 0 \<or> GJ_CPU_STATIC_MAX \<le> u32Cpu then (False, s)
      else if g_apIdle s ! u32Cpu \<noteq> None then (True, s)
      else
        (case free_slot s of
           None \<Rightarrow> (False, s)
         | Some i \<Rightarrow>
             (let s = reset_slot i (of_nat u32Cpu) s;
                  s = upd_thr i (\<lambda>_. no_thread\<lparr>th_u32Id := g_u32NextId s, th_u32State := GJ_THR_RUNNABLE, th_u64Cr3 := cp_u64Cr3 (cpu s c),
                        th_u64KstackTop := sc_kstack s i, th_u64Rsp := To_Trampoline\<rparr>) s
              in (True, s\<lparr>g_u32NextId := g_u32NextId s + 1, g_apIdle := (g_apIdle s)[u32Cpu := Some i]\<rparr>))))"

definition thread_create :: "nat \<Rightarrow> nat option \<Rightarrow> nat option \<Rightarrow> u64 \<Rightarrow> sched_state \<Rightarrow> u32 \<times> sched_state" where
  "thread_create c pProc pfn pArg s =
     (case free_slot s of
        None \<Rightarrow> (0, s)
      | Some i \<Rightarrow>
          (let u32Id = g_u32NextId s;
               s = reset_slot i 0 s;
               s = upd_thr i (\<lambda>_. no_thread\<lparr>th_u32Id := u32Id, th_u32State := GJ_THR_RUNNABLE, th_pProc := pProc,
                     th_u64Cr3 := (if pProc \<noteq> None then 0 else cp_u64Cr3 (cpu s c)), th_pfnEntry := pfn, th_pArg := pArg,
                     th_u64KstackTop := sc_kstack s i, th_u64Rsp := To_Trampoline\<rparr>) s
           in (u32Id, s\<lparr>g_u32NextId := u32Id + 1\<rparr>)))"

text \<open>\<^verbatim>\<open>thread_create_user\<close> and \<^verbatim>\<open>thread_create_user32\<close> differ in the flag they set.\<close>

definition create_user_with :: "u32 \<Rightarrow> nat \<Rightarrow> nat option \<Rightarrow> u64 \<Rightarrow> u64 \<Rightarrow> sched_state \<Rightarrow> u32 \<times> sched_state" where
  "create_user_with u32Flag c pProc u64Entry u64Stack s =
     (if u64Entry = 0 \<or> u64Stack = 0 then (0, s)
      else
        (case thread_create c pProc None 0 s of
           (u32Id, s) \<Rightarrow>
             if u32Id = 0 then (0, s)
             else
               (case thr_find_by_id u32Id s of
                  None \<Rightarrow> (0, s)
                | Some i \<Rightarrow> (u32Id, upd_thr i (\<lambda>t. t\<lparr>th_u32Flags := th_u32Flags t OR u32Flag, th_u64UserRip := u64Entry,
                                        th_u64UserRsp := u64Stack, th_pfnEntry := None\<rparr>) s))))"

definition thread_create_user :: "nat \<Rightarrow> nat option \<Rightarrow> u64 \<Rightarrow> u64 \<Rightarrow> sched_state \<Rightarrow> u32 \<times> sched_state" where
  "thread_create_user = create_user_with GJ_THR_F_USER_ENTRY"

definition thread_create_user32 :: "nat \<Rightarrow> nat option \<Rightarrow> u64 \<Rightarrow> u64 \<Rightarrow> sched_state \<Rightarrow> u32 \<times> sched_state" where
  "thread_create_user32 = create_user_with GJ_THR_F_USER32_ENTRY"

definition thread_get_state :: "u32 \<Rightarrow> sched_state \<Rightarrow> thr_state" where
  "thread_get_state u32Id s = (case thr_find_by_id u32Id s of None \<Rightarrow> GJ_THR_UNUSED | Some i \<Rightarrow> th_u32State (thr s i))"

definition thread_user_entry_get :: "u32 \<Rightarrow> sched_state \<Rightarrow> u64" where
  "thread_user_entry_get u32ThrId s = (case thr_find_by_id u32ThrId s of None \<Rightarrow> 0 | Some i \<Rightarrow> th_u64UserRip (thr s i))"

definition thread_flags_get :: "u32 \<Rightarrow> sched_state \<Rightarrow> u32" where
  "thread_flags_get u32ThrId s = (case thr_find_by_id u32ThrId s of None \<Rightarrow> 0 | Some i \<Rightarrow> th_u32Flags (thr s i))"

definition has_user_entry :: "gj_thread \<Rightarrow> bool" where
  "has_user_entry t \<longleftrightarrow> th_u32Flags t AND (GJ_THR_F_USER_ENTRY OR GJ_THR_F_USER32_ENTRY) \<noteq> 0"

definition drop_user_entry :: "gj_thread \<Rightarrow> gj_thread" where
  "drop_user_entry t = t\<lparr>th_u32Flags := th_u32Flags t AND NOT (GJ_THR_F_USER_ENTRY OR GJ_THR_F_USER32_ENTRY)\<rparr>"

definition exec_hits :: "nat \<Rightarrow> gj_thread \<Rightarrow> bool" where
  "exec_hits pProc t \<longleftrightarrow> th_u32State t \<noteq> GJ_THR_UNUSED \<and> th_u32State t \<noteq> GJ_THR_EXITED \<and> th_pProc t = Some pProc \<and> has_user_entry t"

definition thread_exec_replace :: "nat option \<Rightarrow> u64 \<Rightarrow> u64 \<Rightarrow> sched_state \<Rightarrow> nat \<times> sched_state" where
  "thread_exec_replace pProc u64Entry u64Stack s =
     (case pProc of
        None \<Rightarrow> (0, s)
      | Some p \<Rightarrow>
          if u64Entry = 0 \<or> u64Stack = 0 then (0, s)
          else (length (filter (exec_hits p) (sc_threads s)),
                s\<lparr>sc_threads := map (\<lambda>t. if exec_hits p t then t\<lparr>th_u64UserRip := u64Entry, th_u64UserRsp := u64Stack\<rparr> else t) (sc_threads s)\<rparr>))"

section \<open>Exit\<close>

text \<open>
  The doors react to the end of a thread with calls of \<^verbatim>\<open>thread_wake\<close>; those of one \<^verbatim>\<open>door_on_thread_exit\<close> are an
  argument, a list of objects, tags and limits.
\<close>

type_synonym door_wakes = "(block_obj \<times> u32 \<times> u32) list"

definition do_wakes :: "door_wakes \<Rightarrow> sched_state \<Rightarrow> sched_state" where
  "do_wakes ws s = s\<lparr>sc_threads := fold (\<lambda>(ob, tag, mx) ts. snd (thread_wake ob tag mx ts)) ws (sc_threads s)\<rparr>"

text \<open>The end of a sibling in \<^verbatim>\<open>thread_exit_process\<close>.\<close>

definition exit_scrub :: "gj_thread \<Rightarrow> gj_thread" where
  "exit_scrub t = (drop_user_entry t)\<lparr>th_u64UserRip := 0, th_u64UserRsp := 0, th_u32SysUserValid := False, th_u64SysUserRip := 0,
     th_u64SysUserRsp := 0, th_u64SysUserRflags := 0, th_pBlockObj := None, th_u32BlockTag := 0, th_u64Cr3 := 0, th_pProc := None,
     th_u32State := GJ_THR_EXITED, th_pfnEntry := None\<rparr>"

definition exit_hits :: "nat option \<Rightarrow> nat \<Rightarrow> nat \<Rightarrow> sched_state \<Rightarrow> bool" where
  "exit_hits pCur pProc i s \<longleftrightarrow> pCur \<noteq> Some i \<and> th_u32State (thr s i) \<noteq> GJ_THR_UNUSED \<and> th_u32State (thr s i) \<noteq> GJ_THR_EXITED
     \<and> th_pProc (thr s i) = Some pProc"

fun exit_loop :: "(nat \<Rightarrow> door_wakes) \<Rightarrow> nat option \<Rightarrow> nat \<Rightarrow> nat list \<Rightarrow> nat \<Rightarrow> sched_state \<Rightarrow> nat \<times> sched_state" where
  "exit_loop door pCur pProc [] cExited s = (cExited, s)"
| "exit_loop door pCur pProc (i # is) cExited s =
     (if exit_hits pCur pProc i s
      then (let s = upd_thr i exit_scrub s;
                s = s\<lparr>g_aThrBoost := (g_aThrBoost s)[i := 0]\<rparr>
            in exit_loop door pCur pProc is (cExited + 1) (do_wakes (door i) s))
      else exit_loop door pCur pProc is cExited s)"

definition thread_exit_process :: "(nat \<Rightarrow> door_wakes) \<Rightarrow> nat \<Rightarrow> nat option \<Rightarrow> sched_state \<Rightarrow> nat \<times> sched_state" where
  "thread_exit_process door c pProc s =
     (case pProc of
        None \<Rightarrow> (0, s)
      | Some p \<Rightarrow> exit_loop door (thread_current c s) p [0..<GJ_MAX_THREADS] 0 s)"

text \<open>\<^verbatim>\<open>thread_exit\<close> up to its call of \<^verbatim>\<open>schedule\<close>.\<close>

definition thread_exit :: "door_wakes \<Rightarrow> nat \<Rightarrow> sched_state \<Rightarrow> sched_state" where
  "thread_exit door c s =
     upd_cpu c (\<lambda>p. p\<lparr>cp_pc := Pc_Exit\<rparr>)
       (case thread_current c s of
          None \<Rightarrow> s
        | Some i \<Rightarrow> do_wakes door (upd_thr i (\<lambda>t. t\<lparr>th_u32State := GJ_THR_EXITED, th_pfnEntry := None, th_u32SysUserValid := False\<rparr>) s))"

section \<open>Service classes and affinity\<close>

definition thr_ok_on_cpu :: "nat \<Rightarrow> nat \<Rightarrow> sched_state \<Rightarrow> bool" where
  "thr_ok_on_cpu u32Idx u32Cpu s \<longleftrightarrow> g_aThrCpu s ! u32Idx = 0xFF \<or> g_aThrCpu s ! u32Idx = of_nat u32Cpu"

definition cpu_idle :: "nat \<Rightarrow> sched_state \<Rightarrow> nat option" where
  "cpu_idle u32Cpu s =
     (if u32Cpu < GJ_CPU_STATIC_MAX \<and> g_apIdle s ! u32Cpu \<noteq> None then g_apIdle s ! u32Cpu
      else if u32Cpu = 0 then g_pIdle s
      else None)"

definition qos_rank :: "u8 \<Rightarrow> u8" where
  "qos_rank u8Qos =
     (if u8Qos = GJ_QOS_DRIVER then 4 else if u8Qos = GJ_QOS_INTERACTIVE then 3 else if u8Qos = GJ_QOS_UTILITY then 1
      else if u8Qos = GJ_QOS_BACKGROUND then 0 else 2)"

definition qos_rank_eff :: "nat \<Rightarrow> sched_state \<Rightarrow> u8" where
  "qos_rank_eff u32Idx s =
     (if GJ_MAX_THREADS \<le> u32Idx then 0
      else
        (let u8R = qos_rank (g_aThrQos s ! u32Idx)
         in if g_aThrBoost s ! u32Idx \<noteq> 0
            then if (4 :: u16) \<le> ucast u8R + ucast (g_aThrBoost s ! u32Idx) then 4 else u8R + g_aThrBoost s ! u32Idx
            else u8R))"

definition thread_set_qos :: "u32 \<Rightarrow> u32 \<Rightarrow> sched_state \<Rightarrow> sched_state" where
  "thread_set_qos u32ThrId u32Qos s =
     (case find_used u32ThrId s of
        None \<Rightarrow> s
      | Some i \<Rightarrow> s\<lparr>g_aThrQos := (g_aThrQos s)[i := if u32Qos \<le> GJ_QOS_CLASS_MAX then ucast u32Qos else GJ_QOS_NORMAL]\<rparr>)"

definition thread_get_qos :: "u32 \<Rightarrow> sched_state \<Rightarrow> u8" where
  "thread_get_qos u32ThrId s =
     (case find (\<lambda>i. th_u32Id (thr s i) = u32ThrId) [0..<GJ_MAX_THREADS] of None \<Rightarrow> GJ_QOS_NORMAL | Some i \<Rightarrow> g_aThrQos s ! i)"

definition thread_qos_boost_soft :: "u32 \<Rightarrow> u32 \<Rightarrow> sched_state \<Rightarrow> sched_state" where
  "thread_qos_boost_soft u32ThrId u32Ticks s =
     (if u32Ticks = 0 then s
      else
        (let u8Add = ucast (if GJ_QOS_BOOST_CAP < u32Ticks then GJ_QOS_BOOST_CAP else u32Ticks) :: u8
         in case find_used u32ThrId s of
              None \<Rightarrow> s
            | Some i \<Rightarrow>
                (let u16Sum = ucast (g_aThrBoost s ! i) + ucast u8Add :: u16
                 in s\<lparr>g_aThrBoost := (g_aThrBoost s)[i := if ucast u16Sum > GJ_QOS_BOOST_CAP then ucast GJ_QOS_BOOST_CAP else ucast u16Sum]\<rparr>)))"

definition thread_qos_effective_rank :: "u32 \<Rightarrow> sched_state \<Rightarrow> u8" where
  "thread_qos_effective_rank u32ThrId s = (case find_used u32ThrId s of None \<Rightarrow> 0 | Some i \<Rightarrow> qos_rank_eff i s)"

definition thread_set_cpu :: "u32 \<Rightarrow> u32 \<Rightarrow> sched_state \<Rightarrow> sched_state" where
  "thread_set_cpu u32ThrId u32Cpu s =
     (case find_used u32ThrId s of None \<Rightarrow> s | Some i \<Rightarrow> s\<lparr>g_aThrCpu := (g_aThrCpu s)[i := ucast u32Cpu]\<rparr>)"

definition thread_create_on_cpu :: "nat \<Rightarrow> nat option \<Rightarrow> nat option \<Rightarrow> u64 \<Rightarrow> u32 \<Rightarrow> sched_state \<Rightarrow> u32 \<times> sched_state" where
  "thread_create_on_cpu c pProc pfn pArg u32Cpu s =
     (case thread_create c pProc pfn pArg s of
        (u32Id, s) \<Rightarrow> (u32Id, if u32Id \<noteq> 0 then thread_set_cpu u32Id u32Cpu s else s))"

section \<open>The choice of the next thread\<close>

definition pick_candidate :: "nat \<Rightarrow> sched_state \<Rightarrow> nat \<Rightarrow> bool" where
  "pick_candidate u32Cpu s i \<longleftrightarrow> thr_ok_on_cpu i u32Cpu s \<and> cpu_idle u32Cpu s \<noteq> Some i \<and> th_u32State (thr s i) = GJ_THR_RUNNABLE"

definition pick_wait :: "sched_state \<Rightarrow> nat \<Rightarrow> u32" where
  "pick_wait s i = g_u32PickGen s - g_aThrLastPick s ! i"

text \<open>The loop of \<^verbatim>\<open>pick_next\<close>: the best slot so far, its rank and its waiting time.\<close>

fun pick_loop :: "nat \<Rightarrow> sched_state \<Rightarrow> nat list \<Rightarrow> (nat \<times> u8 \<times> u32) option \<Rightarrow> (nat \<times> u8 \<times> u32) option" where
  "pick_loop u32Cpu s [] best = best"
| "pick_loop u32Cpu s (i # is) best =
     (if \<not> pick_candidate u32Cpu s i then pick_loop u32Cpu s is best
      else
        (let u8R = qos_rank_eff i s; u32Wait = pick_wait s i
         in case best of
              None \<Rightarrow> pick_loop u32Cpu s is (Some (i, u8R, u32Wait))
            | Some (b, u8BestRank, u32BestWait) \<Rightarrow>
                if u8BestRank < u8R \<or> (u8R = u8BestRank \<and> u32BestWait < u32Wait)
                then pick_loop u32Cpu s is (Some (i, u8R, u32Wait))
                else pick_loop u32Cpu s is best))"

definition robin_order :: "u32 \<Rightarrow> nat list" where
  "robin_order u32Start = map (\<lambda>i. (unat u32Start + i) mod GJ_MAX_THREADS) [0..<GJ_MAX_THREADS]"

definition note_pick :: "nat \<Rightarrow> sched_state \<Rightarrow> sched_state" where
  "note_pick i s = s\<lparr>g_aThrLastPick := (g_aThrLastPick s)[i := g_u32PickGen s], g_u32PickGen := g_u32PickGen s + 1\<rparr>"

definition pick_next :: "nat \<Rightarrow> sched_state \<Rightarrow> nat option \<times> sched_state" where
  "pick_next c s =
     (let u32Cpu = (if GJ_CPU_STATIC_MAX \<le> c then 0 else c)
      in case pick_loop u32Cpu s (robin_order (g_aRobin s ! u32Cpu)) None of
           Some (b, _, _) \<Rightarrow> (Some b, note_pick b (s\<lparr>g_aRobin := (g_aRobin s)[u32Cpu := (of_nat b + 1) mod 32]\<rparr>))
         | None \<Rightarrow>
             (case cpu_idle u32Cpu s of
                Some p \<Rightarrow>
                  if th_u32State (thr s p) \<noteq> GJ_THR_EXITED
                  then (let s = (if th_u32State (thr s p) = GJ_THR_BLOCKED \<or> th_u32State (thr s p) = GJ_THR_UNUSED
                                 then upd_thr p (\<lambda>t. t\<lparr>th_u32State := GJ_THR_RUNNABLE\<rparr>) s else s)
                        in (Some p, note_pick p s))
                  else (thread_current c s, s)
              | None \<Rightarrow> (thread_current c s, s)))"

section \<open>Switching\<close>

definition thread_save_sys_user :: "nat \<Rightarrow> nat \<Rightarrow> sched_state \<Rightarrow> sched_state" where
  "thread_save_sys_user c i s =
     upd_thr i (\<lambda>t. t\<lparr>th_u64SysUserRip := cp_u64UserRip (cpu s c), th_u64SysUserRsp := cp_u64UserRsp (cpu s c),
       th_u64SysUserRflags := cp_u64UserRflags (cpu s c), th_u32SysUserValid := True\<rparr>) s"

definition thread_restore_sys_user :: "nat \<Rightarrow> nat \<Rightarrow> sched_state \<Rightarrow> sched_state" where
  "thread_restore_sys_user c i s =
     (if \<not> th_u32SysUserValid (thr s i) then s
      else upd_cpu c (\<lambda>p. p\<lparr>cp_u64UserRip := th_u64SysUserRip (thr s i), cp_u64UserRsp := th_u64SysUserRsp (thr s i),
             cp_u64UserRflags := th_u64SysUserRflags (thr s i)\<rparr>) s)"

definition thread_install_kstack :: "nat \<Rightarrow> nat \<Rightarrow> sched_state \<Rightarrow> sched_state" where
  "thread_install_kstack c i s =
     (if th_u64KstackTop (thr s i) \<noteq> 0 then upd_cpu c (\<lambda>p. p\<lparr>cp_u64KernelRsp := th_u64KstackTop (thr s i)\<rparr>) s else s)"

text \<open>The thread that leaves the processor: a running one becomes runnable, a boost decays, its return target is kept.\<close>

definition leave_thread :: "nat \<Rightarrow> nat \<Rightarrow> sched_state \<Rightarrow> sched_state" where
  "leave_thread c p s =
     (let s = (if th_u32State (thr s p) = GJ_THR_RUNNING then upd_thr p (\<lambda>t. t\<lparr>th_u32State := GJ_THR_RUNNABLE\<rparr>) s else s);
          s = (if g_aThrBoost s ! p \<noteq> 0 then s\<lparr>g_aThrBoost := (g_aThrBoost s)[p := g_aThrBoost s ! p - 1]\<rparr> else s)
      in thread_save_sys_user c p s)"

text \<open>The rest of \<^verbatim>\<open>schedule\<close> up to and including \<^verbatim>\<open>switch_context\<close>.\<close>

definition switch_to :: "nat \<Rightarrow> nat \<Rightarrow> sched_state \<Rightarrow> sched_state" where
  "switch_to c n s =
     (let pCur = thread_current c s;
          s = (case pCur of None \<Rightarrow> s | Some p \<Rightarrow> leave_thread c p s);
          s = upd_thr n (\<lambda>t. t\<lparr>th_u32State := GJ_THR_RUNNING\<rparr>) s;
          s = upd_cpu c (\<lambda>p. p\<lparr>cp_pCurrent := Some n\<rparr>) s;
          s = cpu_load_cr3 c (sc_kernel_cr3 s) s;
          s = (case pCur of None \<Rightarrow> s | Some p \<Rightarrow> upd_thr p (\<lambda>t. t\<lparr>th_u64Rsp := To_Schedule\<rparr>) s)
      in upd_cpu c (\<lambda>p. p\<lparr>cp_pc := Pc_Land\<rparr>) s)"

definition set_pc :: "nat \<Rightarrow> cpu_pc \<Rightarrow> sched_state \<Rightarrow> sched_state" where
  "set_pc c pc s = upd_cpu c (\<lambda>p. p\<lparr>cp_pc := pc\<rparr>) s"

text \<open>A call of \<^verbatim>\<open>schedule\<close>; \<open>ret\<close> is where the caller goes on if it returns without a switch.\<close>

definition schedule :: "cpu_pc \<Rightarrow> nat \<Rightarrow> sched_state \<Rightarrow> sched_state" where
  "schedule ret c s =
     (case pick_next c s of
        (None, s) \<Rightarrow> set_pc c ret s
      | (Some n, s) \<Rightarrow>
          if thread_current c s = Some n
          then if th_u32State (thr s n) = GJ_THR_BLOCKED then set_pc c Pc_Spin s else set_pc c ret s
          else switch_to c n s)"

text \<open>One turn of the spin loop, and what follows when it ends.\<close>

definition schedule_spin :: "nat \<Rightarrow> sched_state \<Rightarrow> sched_state" where
  "schedule_spin c s =
     (case thread_current c s of
        None \<Rightarrow> s
      | Some pCur \<Rightarrow>
          (case pick_next c s of
             (n, s) \<Rightarrow>
               if n = Some pCur \<and> th_u32State (thr s pCur) = GJ_THR_BLOCKED then s
               else
                 (case pick_next c s of
                    (None, s) \<Rightarrow> set_pc c Pc_Run s
                  | (Some n, s) \<Rightarrow> if n = pCur then set_pc c Pc_Run s else switch_to c n s)))"

definition dead_proc :: "nat option \<Rightarrow> sched_state \<Rightarrow> bool" where
  "dead_proc pProc s \<longleftrightarrow> (case pProc of None \<Rightarrow> False | Some p \<Rightarrow> pr_u32Alive (sc_procs s p) = 0 \<or> pr_u64Cr3 (sc_procs s p) = 0)"

definition dead_scrub :: "gj_thread \<Rightarrow> gj_thread" where
  "dead_scrub t = (drop_user_entry t)\<lparr>th_u32SysUserValid := False, th_u64SysUserRip := 0, th_u64SysUserRsp := 0, th_u64SysUserRflags := 0,
     th_u64UserRip := 0, th_u64UserRsp := 0, th_u64Cr3 := 0\<rparr>"

text \<open>\<^verbatim>\<open>schedule\<close> after \<^verbatim>\<open>switch_context\<close> returned, on the stack of the thread switched to.\<close>

definition schedule_resume :: "door_wakes \<Rightarrow> nat \<Rightarrow> nat \<Rightarrow> sched_state \<Rightarrow> sched_state" where
  "schedule_resume door c pNow s =
     (let t = thr s pNow
      in if dead_proc (th_pProc t) s
         then (let fUserish = th_u32SysUserValid t \<or> has_user_entry t;
                   s = thread_install_kstack c pNow (cpu_load_cr3 c (sc_kernel_cr3 s) (upd_thr pNow dead_scrub s))
               in if fUserish then thread_exit door c s else set_pc c Pc_Run s)
         else
           (let s = (case th_pProc t of
                       Some p \<Rightarrow> process_as_activate c p s
                     | None \<Rightarrow> if th_u64Cr3 t \<noteq> 0 then cpu_load_cr3 c (th_u64Cr3 t) s else cpu_load_cr3 c (sc_kernel_cr3 s) s)
            in set_pc c Pc_Run (thread_install_kstack c pNow (thread_restore_sys_user c pNow s))))"

text \<open>
  The first entry of a thread up to the point where it runs, in user mode or in its kernel function.  A thread with
  neither a user entry nor a function exits at once.
\<close>

definition thread_trampoline :: "door_wakes \<Rightarrow> nat \<Rightarrow> nat \<Rightarrow> sched_state \<Rightarrow> sched_state" where
  "thread_trampoline door c pThr s =
     (if has_user_entry (thr s pThr)
      then
        (let s = upd_thr pThr drop_user_entry s
         in case th_pProc (thr s pThr) of
              Some p \<Rightarrow>
                if dead_proc (Some p) s
                then thread_exit door c (upd_thr pThr (\<lambda>t. (dead_scrub t)\<lparr>th_pBlockObj := None, th_u32BlockTag := 0, th_pProc := None\<rparr>) s)
                else set_pc c Pc_Run (thread_install_kstack c pThr (process_as_activate c p s))
            | None \<Rightarrow> thread_exit door c (upd_thr pThr (\<lambda>t. (dead_scrub t)\<lparr>th_pBlockObj := None, th_u32BlockTag := 0, th_pProc := None\<rparr>) s))
      else if th_pfnEntry (thr s pThr) \<noteq> None then set_pc c Pc_Run s
      else thread_exit door c s)"

text \<open>What runs after a switch.\<close>

definition land :: "door_wakes \<Rightarrow> nat \<Rightarrow> sched_state \<Rightarrow> sched_state" where
  "land door c s =
     (case thread_current c s of
        None \<Rightarrow> s
      | Some n \<Rightarrow> (case th_u64Rsp (thr s n) of To_Trampoline \<Rightarrow> thread_trampoline door c n s | To_Schedule \<Rightarrow> schedule_resume door c n s))"

definition thread_yield :: "nat \<Rightarrow> sched_state \<Rightarrow> sched_state" where
  "thread_yield c s = schedule Pc_Run c (s\<lparr>g_fYieldReq := False\<rparr>)"

definition thread_yield_request :: "sched_state \<Rightarrow> sched_state" where
  "thread_yield_request s = s\<lparr>g_fYieldReq := True\<rparr>"

definition thread_yield_pending :: "sched_state \<Rightarrow> bool \<times> sched_state" where
  "thread_yield_pending s = (g_fYieldReq s, if g_fYieldReq s then s\<lparr>g_fYieldReq := False\<rparr> else s)"

text \<open>The start of \<^verbatim>\<open>scheduler_run_ap\<close>.\<close>

definition ap_start :: "nat \<Rightarrow> sched_state \<Rightarrow> sched_state" where
  "ap_start c s =
     (case cpu_idle c s of
        None \<Rightarrow> s
      | Some p \<Rightarrow> thread_install_kstack c p (upd_cpu c (\<lambda>q. q\<lparr>cp_pCurrent := Some p\<rparr>) (upd_thr p (\<lambda>t. t\<lparr>th_u32State := GJ_THR_RUNNING\<rparr>) s)))"

end
