(* ===== verification/Futex_Props.thy ===== *)
theory Futex_Props
  imports Futex_Lemmas Sched
begin

text \<open>
  What the futexes promise.  The critical sections of \<^verbatim>\<open>futex.c\<close> are the steps of a transition
  system, next to the end of a whole process, which ends its sleeping threads without a word to the
  futex tables, and next to everything else in the kernel and in user space, which leaves the tables
  and the threads parked on them alone.
\<close>

section \<open>The transition system\<close>

text \<open>The environment: user memory, the clock, the running thread and the threads not parked on a
  futex may change in any way.\<close>

definition env_step :: "futex_state \<Rightarrow> futex_state \<Rightarrow> bool" where
  "env_step s u \<longleftrightarrow> fx_aWaiters u = fx_aWaiters s \<and> fx_aRobust u = fx_aRobust s
     \<and> length (fx_threads u) = length (fx_threads s)
     \<and> (\<forall>t < GJ_MAX_THREADS. \<forall>i. parked u i t = parked s i t)"

text \<open>
  The end of the threads of process \<open>p\<close>, \<^verbatim>\<open>thread_exit_process\<close>, as the futexes see it: every thread of the process
  but the calling one is scrubbed and marked exited, also one that sleeps on a waiter slot.
\<close>

definition ends :: "nat \<Rightarrow> futex_state \<Rightarrow> nat \<Rightarrow> bool" where
  "ends p s t \<longleftrightarrow> fx_cur s \<noteq> Some t \<and> th_u32State (fx_threads s ! t) \<noteq> GJ_THR_UNUSED
     \<and> th_u32State (fx_threads s ! t) \<noteq> GJ_THR_EXITED \<and> th_pProc (fx_threads s ! t) = Some p"

definition process_ends :: "nat \<Rightarrow> futex_state \<Rightarrow> futex_state" where
  "process_ends p s = s\<lparr>fx_threads := map (\<lambda>t. if ends p s t then exit_scrub (fx_threads s ! t) else fx_threads s ! t) [0..<GJ_MAX_THREADS]\<rparr>"

text \<open>
  The steps.  Beside the state they keep the set of the slots whose sleeper was ended that way and which nothing has
  cleared or woken since.  A parked thread resumes when the scheduler runs it, which it does only once the thread is
  no longer blocked.
\<close>

definition still :: "nat set \<Rightarrow> futex_state \<Rightarrow> nat set" where
  "still E u = {i \<in> E. waiting u i}"

inductive futex_step :: "futex_state \<times> nat set \<Rightarrow> futex_state \<times> nat set \<Rightarrow> bool" where
  Env: "env_step s u \<Longrightarrow> futex_step (s, E) (u, E)"
| Exit_process: "futex_step (s, E) (process_ends p s, E \<union> {i. \<exists>t < GJ_MAX_THREADS. parked s i t \<and> ends p s t})"
| Wait: "cur_running s \<Longrightarrow> futex_wait_common um (Some a) val (Some key) dl bs s = (out, u) \<Longrightarrow> futex_step (s, E) (u, still E u)"
| Resume: "fx_cur s = Some t \<Longrightarrow> t < GJ_MAX_THREADS \<Longrightarrow> th_u32State (fx_threads s ! t) = GJ_THR_RUNNING \<Longrightarrow>
    i < GJ_FUTEX_MAX_WAITERS \<Longrightarrow> w_pThr (fx_aWaiters s ! i) = Some t \<Longrightarrow>
    futex_wait_resume i s = (r, u) \<Longrightarrow> futex_step (s, E) (u, still E u)"
| Wake: "futex_wake_common pKey count bs s = (r, u) \<Longrightarrow> futex_step (s, E) (u, still E u)"
| Timer: "futex_timer_check s = u \<Longrightarrow> futex_step (s, E) (u, still E u)"
| Set_robust: "futex_set_robust_list head len s = (st, u) \<Longrightarrow> futex_step (s, E) (u, still E u)"
| Cancel: "t < GJ_MAX_THREADS \<Longrightarrow> th_u32Id (fx_threads s ! t) \<noteq> 0 \<Longrightarrow> futex_cancel_thr (Some t) s = (n, u) \<Longrightarrow> futex_step (s, E) (u, still E u)"
| Exit: "t < GJ_MAX_THREADS \<Longrightarrow> futex_exit_robust_list (Some t) s = (n, u) \<Longrightarrow> futex_step (s, E) (u, still E u)"

text \<open>Boot: the tables are initialised while no thread is blocked on them.\<close>

definition futex_boot :: "futex_state \<times> nat set \<Rightarrow> bool" where
  "futex_boot x \<longleftrightarrow> snd x = {} \<and> (\<exists>s. fst x = futex_init s \<and> length (fx_threads s) = GJ_MAX_THREADS
     \<and> (\<forall>t < GJ_MAX_THREADS. \<forall>i. \<not> parked s i t))"

abbreviation futex_reach :: "futex_state \<times> nat set \<Rightarrow> bool" where
  "futex_reach \<equiv> reach futex_boot futex_step"

definition futex_sys_inv :: "futex_state \<times> nat set \<Rightarrow> bool" where
  "futex_sys_inv = (\<lambda>(s, E). futex_inv E s \<and> (\<forall>i \<in> E. i < GJ_FUTEX_MAX_WAITERS \<and> waiting s i))"

lemma inv_still:
  assumes "futex_inv E u" and "\<forall>i \<in> E. i < GJ_FUTEX_MAX_WAITERS"
  shows "futex_sys_inv (u, still E u)"
  using assms unfolding futex_sys_inv_def futex_inv_def still_def by auto

lemma parked_ends: "t < GJ_MAX_THREADS \<Longrightarrow> parked (process_ends p s) i t \<longleftrightarrow> parked s i t \<and> \<not> ends p s t"
  by (simp add: parked_def process_ends_def exit_scrub_def)

lemma process_ends_inv:
  assumes "futex_sys_inv (s, E)"
  shows "futex_sys_inv (process_ends p s, E \<union> {i. \<exists>t < GJ_MAX_THREADS. parked s i t \<and> ends p s t})" (is "futex_sys_inv (?u, ?E)")
proof -
  have inv: "futex_inv E s" and E: "\<And>i. i \<in> E \<Longrightarrow> i < GJ_FUTEX_MAX_WAITERS \<and> waiting s i"
    using assms by (auto simp: futex_sys_inv_def)
  have tab: "fx_aWaiters ?u = fx_aWaiters s" "fx_aRobust ?u = fx_aRobust s" by (simp_all add: process_ends_def)
  then have wt: "waiting ?u i = waiting s i" for i by (simp add: waiting_def)
  have "futex_inv ?E ?u"
  proof (rule futex_invI)
    show "i < GJ_FUTEX_MAX_WAITERS \<and> waiting ?u i \<and> w_pThr (fx_aWaiters ?u ! i) = Some t"
      if t: "t < GJ_MAX_THREADS" "parked ?u i t" for i t
      using inv_parked [OF inv _ t(1)] t(2) unfolding parked_ends [OF t(1)] tab wt by blast
    show "\<exists>t < GJ_MAX_THREADS. w_pThr (fx_aWaiters ?u ! i) = Some t \<and> (parked ?u i t \<longleftrightarrow> i \<notin> ?E)"
      if i: "i < GJ_FUTEX_MAX_WAITERS" "waiting ?u i" for i
    proof -
      obtain t where t: "t < GJ_MAX_THREADS" "w_pThr (fx_aWaiters s ! i) = Some t" "parked s i t \<longleftrightarrow> i \<notin> E"
        using inv_waiting [OF inv _ i(1)] i(2) wt by blast
      have "t' = t" if "t' < GJ_MAX_THREADS" "parked s i t'" for t' using inv_parked(3) [OF inv that(2,1)] t(2) by simp
      then have "parked ?u i t \<longleftrightarrow> i \<notin> ?E" unfolding parked_ends [OF t(1)] using t(1,3) by blast
      then show ?thesis using t(1,2) tab by auto
    qed
  qed (use inv_len [OF inv] tab in \<open>simp_all add: process_ends_def\<close>)
  then show ?thesis using E inv_parked(1,2) [OF inv] wt by (auto simp: futex_sys_inv_def)
qed

lemma futex_step_inv:
  assumes "futex_step (s, E) y" and sys: "futex_sys_inv (s, E)"
  shows "futex_sys_inv y"
proof -
  have inv: "futex_inv E s" and E: "\<And>i. i \<in> E \<Longrightarrow> waiting s i" "\<forall>i \<in> E. i < GJ_FUTEX_MAX_WAITERS"
    using sys by (auto simp: futex_sys_inv_def)
  note fin = inv_still [OF _ E(2)]
  from assms(1) show ?thesis
  proof cases
    case (Env u)
    have "futex_inv E u"
      by (intro inv_frame [OF inv]) (use Env inv_len [OF inv] in \<open>auto simp: env_step_def waiting_def\<close>)
    then show ?thesis using Env E by (auto simp: futex_sys_inv_def env_step_def waiting_def)
  next
    case (Exit_process p)
    then show ?thesis using process_ends_inv [OF sys] by simp
  next
    case (Wait um a val key dl bs out u)
    then show ?thesis using wait_spec(1) [OF inv E(1)] fin by simp
  next
    case (Resume t i r u)
    have "\<not> parked s i t'" if t': "t' < GJ_MAX_THREADS" for t'
    proof
      assume "parked s i t'"
      then have "t' = t" using inv_parked(3) [OF inv _ t'] Resume(6) by simp
      then show False using \<open>parked s i t'\<close> Resume(4) by (simp add: parked_def)
    qed
    then show ?thesis using resume_inv [OF inv, of i] Resume(1,7) fin by simp
  next
    case (Wake pKey count bs r u)
    then show ?thesis using wake_inv [OF inv, of pKey count bs] fin by simp
  next
    case (Timer u)
    have "set [0..<GJ_FUTEX_MAX_WAITERS] \<subseteq> {..<GJ_FUTEX_MAX_WAITERS}" by auto
    from timer_loop_inv [OF inv this] inv have "futex_inv E u" using Timer(2) by (auto simp: futex_timer_check_def)
    then show ?thesis using Timer(1) fin by simp
  next
    case (Set_robust head len st u)
    then have "futex_inv E u"
      using inv by (auto simp: futex_set_robust_list_def robust_alloc_tid_def inv_upd_robust
          split: option.split_asm if_split_asm prod.split_asm)
    then show ?thesis using Set_robust(1) fin by simp
  next
    case (Cancel t n u)
    then show ?thesis using cancel_thr_spec(1) [OF inv Cancel(2,3), of u] fin by simp
  next
    case (Exit t n u)
    have "futex_inv E u"
      using exit_spec [OF inv Exit(2) refl _ Exit(3)] inv Exit(3)
      by (cases "th_u32Id (fx_threads s ! t) = 0") (auto simp: futex_exit_robust_list_def)
    then show ?thesis using Exit(1) fin by simp
  qed
qed

lemma futex_boot_inv: "futex_boot x \<Longrightarrow> futex_sys_inv x"
  unfolding futex_boot_def futex_sys_inv_def
  by (cases x) (auto intro!: futex_invI simp: futex_init_def parked_def waiting_def no_waiter_def)

interpretation futex: inv_system futex_step futex_sys_inv futex_boot
proof
  show "futex_sys_inv y" if "futex_step x y" "futex_sys_inv x" for x y using that by (metis futex_step_inv surj_pair)
qed (rule futex_boot_inv)

lemma reach_inv:
  assumes "futex_reach (s, E)"
  shows "futex_inv E s" and "\<And>i. i \<in> E \<Longrightarrow> i < GJ_FUTEX_MAX_WAITERS \<and> waiting s i"
  using futex.reach_holds [OF assms] by (auto simp: futex_sys_inv_def)

section \<open>Examples\<close>

definition wit_thr :: "u32 \<Rightarrow> gj_thread" where
  "wit_thr n = no_thread\<lparr>th_u32Id := n, th_u32State := GJ_THR_RUNNING, th_pProc := Some 1, th_u64Cr3 := 0x5000\<rparr>"

definition wit_boot :: futex_state where
  "wit_boot = futex_init \<lparr>fx_aWaiters = [], fx_aRobust = [], fx_threads = map (\<lambda>n. wit_thr (of_nat n + 1)) [0..<32],
     fx_procs = (\<lambda>_. \<lparr>pr_u64Cr3 = 0x5000, pr_u32Alive = 1\<rparr>), fx_cur = Some 3, fx_us = wit_us, fx_timer_ready = True, fx_now = 100, fx_cr3 = 0x5000, fx_v2p = (\<lambda>_ _. 0)\<rparr>"

definition wit_key :: gj_futex_key where
  "wit_key = \<lparr>k_u64Phys = 0, k_u64Uaddr = 0x800010, k_u64As = 0x5000, k_u8Private = True\<rparr>"

lemma wit_boot_reach: "futex_reach (wit_boot, {})"
  unfolding wit_boot_def
  by (rule reach_init, unfold futex_boot_def fst_conv snd_conv, rule conjI [OF refl], rule exI, rule conjI [OF refl])
    (simp add: parked_def wit_thr_def nth_map)

lemma futex_load_eq: "futex_load_u32 (Some a) us = load32 (us_mem us) a"
  unfolding futex_load_u32_def user_load_u32_def load_bytes_eq by simp

text \<open>Thread 3 waits for the word at 0x800010 to change, on a private or a shared key.\<close>

definition wit_skey :: gj_futex_key where
  "wit_skey = \<lparr>k_u64Phys = 0x9010, k_u64Uaddr = 0x800010, k_u64As = 0, k_u8Private = False\<rparr>"

definition wit_wait :: "gj_futex_key \<Rightarrow> wait_outcome \<times> futex_state" where
  "wit_wait key = futex_wait_common (\<lambda>_. wit_us) (Some 0x800010) 0x13121110 (Some key) 0 1 wit_boot"

lemma wit_word: "load32 (us_mem wit_us) 0x800010 = 0x13121110"
  by (simp add: load32_def wit_us_def push_bit_eq_mult)

lemma wit_boot_run: "cur_running wit_boot"
  by (simp add: cur_running_def wit_boot_def futex_init_def wit_thr_def)

lemma wit_park:
  assumes "key = wit_key \<or> key = wit_skey"
  shows "wit_wait key = (Park 0, snd (wit_wait key))"
proof -
  have f: "find (\<lambda>i. \<not> w_u8Used (fx_aWaiters wit_boot ! i)) [0..<64] = Some 0"
    by (simp add: wit_boot_def futex_init_def no_waiter_def upt_rec)
  have "fx_cur wit_boot = Some 3" "length (fx_aWaiters wit_boot) = 64" by (simp_all add: wit_boot_def futex_init_def)
  moreover have "k_u64Uaddr key = 0x800010" "k_u8Private key \<or> k_u64Phys key \<noteq> 0"
    using assms by (auto simp: wit_key_def wit_skey_def)
  ultimately have "fst (wit_wait key) = Park 0"
    by (auto simp: wit_wait_def futex_wait_common_def futex_load_eq wit_word f Let_def upd_waiter_def)
  then show ?thesis by (metis prod.collapse)
qed

lemma wit_wait_reach: "key = wit_key \<or> key = wit_skey \<Longrightarrow> futex_reach (snd (wit_wait key), {})"
proof -
  assume k: "key = wit_key \<or> key = wit_skey"
  have "futex_step (wit_boot, {}) (snd (wit_wait key), still {} (snd (wit_wait key)))"
    using wit_park [OF k] unfolding wit_wait_def by (rule futex_step.Wait [OF wit_boot_run])
  then show ?thesis using reach_step [OF wit_boot_reach] by (simp add: still_def)
qed

lemma wit_wait_state:
  assumes "key = wit_key \<or> key = wit_skey"
  shows "fx_aWaiters (snd (wit_wait key)) ! 0 = registered 0x13121110 1 key 3 0"
    and "parked (snd (wit_wait key)) 0 3" and "th_pProc (fx_threads (snd (wit_wait key)) ! 3) = Some 1"
    and "t < 32 \<Longrightarrow> th_u32Id (fx_threads (snd (wit_wait key)) ! t) = of_nat t + 1"
proof -
  note w = wait_spec(2) [OF reach_inv(1) [OF wit_boot_reach] _ wit_boot_run wit_park [OF assms, unfolded wit_wait_def]]
  have len: "length (fx_aWaiters wit_boot) = 64" "fx_cur wit_boot = Some 3" by (simp_all add: wit_boot_def futex_init_def)
  show "fx_aWaiters (snd (wit_wait key)) ! 0 = registered 0x13121110 1 key 3 0"
    using w len by (auto simp: wit_wait_def)
  have "th_u32Id (fx_threads wit_boot ! t) = of_nat t + 1" if "t < 32" for t
    using that by (simp add: wit_boot_def futex_init_def wit_thr_def)
  moreover have "length (fx_threads wit_boot) = 32" by (simp add: wit_boot_def futex_init_def)
  moreover have "th_pProc (fx_threads wit_boot ! 3) = Some 1" by (simp add: wit_boot_def futex_init_def wit_thr_def)
  moreover have "parked u 0 3" if "fx_threads u = (fx_threads wit_boot)[3 := (fx_threads wit_boot ! 3)\<lparr>th_pBlockObj := Some (Obj_Futex 0),
      th_u32BlockTag := 0, th_u32State := GJ_THR_BLOCKED\<rparr>]" "length (fx_threads wit_boot) = 32" for u
    using that by (simp add: parked_def)
  ultimately show "parked (snd (wit_wait key)) 0 3" "th_pProc (fx_threads (snd (wit_wait key)) ! 3) = Some 1"
    "t < 32 \<Longrightarrow> th_u32Id (fx_threads (snd (wit_wait key)) ! t) = of_nat t + 1"
    using w len by (auto simp: wit_wait_def nth_list_update)
qed

section \<open>Properties\<close>

text \<open>
  C38: whatever waits, wakes, timer ticks, cancellations, thread exits and ends of whole processes run, in any order and with
  any behaviour of the rest of the system, a thread is blocked on a slot of the waiter table exactly when that slot is in
  use, still waiting, names the thread, and its sleeper was not ended with its process.  So no thread sleeps without a
  waiter that a wake can find.  The slots whose sleeper was ended are the only ones that are stale: they stay in use and
  waiting, and no thread sleeps on them.
\<close>

theorem futex_sleepers_recorded:
  assumes "futex_reach (s, E)" and "t < GJ_MAX_THREADS"
  shows "(parked s i t \<longleftrightarrow> i < GJ_FUTEX_MAX_WAITERS \<and> w_u8Used (fx_aWaiters s ! i) \<and> w_u8Waiting (fx_aWaiters s ! i)
      \<and> w_pThr (fx_aWaiters s ! i) = Some t \<and> i \<notin> E)
    \<and> (i \<in> E \<longrightarrow> i < GJ_FUTEX_MAX_WAITERS \<and> w_u8Used (fx_aWaiters s ! i) \<and> w_u8Waiting (fx_aWaiters s ! i) \<and> \<not> parked s i t)"
proof -
  note inv = reach_inv [OF assms(1)]
  have w: "parked s i t \<longleftrightarrow> i \<notin> E" if "i < GJ_FUTEX_MAX_WAITERS" "waiting s i" "w_pThr (fx_aWaiters s ! i) = Some t"
    using inv_waiting [OF inv(1) that(2,1)] that(3) by (metis option.inject)
  have p: "i < GJ_FUTEX_MAX_WAITERS \<and> waiting s i \<and> w_pThr (fx_aWaiters s ! i) = Some t" if "parked s i t"
    using inv_parked [OF inv(1) that assms(2)] by blast
  show ?thesis using w p inv(2) [of i] unfolding waiting_def by blast
qed

text \<open>Thread 3 waits; then thread 4 ends the process both belong to.\<close>

definition wit_ended :: futex_state where
  "wit_ended = process_ends 1 ((snd (wit_wait wit_key))\<lparr>fx_cur := Some 4\<rparr>)"

lemma wit_ended_reach: "\<exists>E. 0 \<in> E \<and> futex_reach (wit_ended, E)"
proof -
  let ?s = "(snd (wit_wait wit_key))\<lparr>fx_cur := Some 4\<rparr>"
  have "env_step (snd (wit_wait wit_key)) ?s" by (simp add: env_step_def parked_def)
  then have r: "futex_reach (?s, {})" using reach_step [OF wit_wait_reach] futex_step.Env by blast
  have p: "parked ?s 0 3" using wit_wait_state(2) by (simp add: parked_def)
  moreover have "ends 1 ?s 3" using p wit_wait_state(3) by (simp add: ends_def parked_def)
  ultimately have z: "0 \<in> {} \<union> {i. \<exists>t < GJ_MAX_THREADS. parked ?s i t \<and> ends 1 ?s t}" by (intro UnI2 CollectI exI [of _ 3]) simp
  show ?thesis unfolding wit_ended_def by (rule exI, rule conjI [OF z], rule reach_step [OF r], rule futex_step.Exit_process)
qed

theorem futex_sleepers_recorded_witness:
  "futex_reach (snd (wit_wait wit_key), {}) \<and> w_u8Waiting (fx_aWaiters (snd (wit_wait wit_key)) ! 0)
   \<and> (\<exists>E. futex_reach (wit_ended, E) \<and> w_u8Waiting (fx_aWaiters wit_ended ! 0) \<and> \<not> parked wit_ended 0 3)"
proof -
  note r = wit_wait_reach [of wit_key, simplified]
  have "w_u8Waiting (fx_aWaiters (snd (wit_wait wit_key)) ! 0)"
    using futex_sleepers_recorded [OF r, of 3 0] wit_wait_state(2) [of wit_key] by simp
  moreover obtain E where E: "0 \<in> E" "futex_reach (wit_ended, E)" using wit_ended_reach by blast
  have "w_u8Waiting (fx_aWaiters wit_ended ! 0) \<and> \<not> parked wit_ended 0 3"
    using futex_sleepers_recorded [OF E(2), of 3 0] E(1) by simp
  ultimately show ?thesis using r E(2) by blast
qed

text \<open>
  A wake with a usable key and a non-zero bitset wakes exactly the first \<open>count\<close> waiters, in table
  order, whose key equals the given one and whose bitset overlaps it, and returns how many those
  are; their threads become runnable, and nothing else in the tables or in memory changes.
\<close>

lemma futex_wake_exact:
  assumes "futex_reach (s, E)" and "valid_key key" and "bs \<noteq> 0" and "futex_wake_bitset (Some key) count bs s = (r, u)"
  shows "r = int (min (unat count) (card {i. i < GJ_FUTEX_MAX_WAITERS \<and> wake_match key bs (fx_aWaiters s ! i)}))
    \<and> woke (take (unat count) (filter (\<lambda>i. wake_match key bs (fx_aWaiters s ! i)) [0..<GJ_FUTEX_MAX_WAITERS])) s u"
proof -
  let ?f = "filter (\<lambda>i. wake_match key bs (fx_aWaiters s ! i)) [0..<GJ_FUTEX_MAX_WAITERS]"
  have "length ?f = card (set ?f)" by (rule distinct_card [symmetric]) simp
  also have "set ?f = {i. i < GJ_FUTEX_MAX_WAITERS \<and> wake_match key bs (fx_aWaiters s ! i)}" by auto
  finally have "length ?f = card {i. i < GJ_FUTEX_MAX_WAITERS \<and> wake_match key bs (fx_aWaiters s ! i)}" .
  then show ?thesis
    using wake_spec(2,3) [OF reach_inv(1) [OF assms(1)] assms(2,3) assms(4) [unfolded futex_wake_bitset_def]]
    by (simp only: length_take) (simp add: min.commute)
qed

text \<open>
  A stale slot swallows a wake-up: a wake of one waiter whose first matching slot has lost its sleeper reports one thread
  woken and makes no thread runnable, even if another one sleeps on the same key.
\<close>

lemma futex_stale_wake:
  assumes s: "futex_reach (s, E)" and i: "i \<in> E" and key: "valid_key key" "wake_match key bs (fx_aWaiters s ! i)"
    and first: "\<And>j. j < i \<Longrightarrow> \<not> wake_match key bs (fx_aWaiters s ! j)"
    and w: "futex_wake_bitset (Some key) 1 bs s = (r, u)" and t: "t < GJ_MAX_THREADS"
  shows "r = 1 \<and> fx_threads u ! t = fx_threads s ! t"
proof -
  note inv = reach_inv [OF s]
  let ?f = "filter (\<lambda>i. wake_match key bs (fx_aWaiters s ! i)) [0..<GJ_FUTEX_MAX_WAITERS]"
  have il: "i < GJ_FUTEX_MAX_WAITERS" using inv(2) [OF i] by blast
  then have "[0..<GJ_FUTEX_MAX_WAITERS] = [0..<i] @ i # [Suc i..<GJ_FUTEX_MAX_WAITERS]" by (metis less_imp_le_nat upt_conv_Cons upt_add_eq_append le0 le_add_diff_inverse)
  then have "?f = i # filter (\<lambda>i. wake_match key bs (fx_aWaiters s ! i)) [Suc i..<GJ_FUTEX_MAX_WAITERS]" using first key(2) by simp
  then have tk: "take (unat (1 :: u32)) ?f = [i]" by simp
  have "bs \<noteq> 0" using key(2) by (auto simp: wake_match_def)
  note sp = wake_spec(2,3) [OF inv(1) key(1) this w [unfolded futex_wake_bitset_def], unfolded tk]
  have "\<not> parked s i t"
  proof
    assume p: "parked s i t"
    note q = inv_parked [OF inv(1) p t]
    from inv(1) q(2,1) obtain t' where "w_pThr (fx_aWaiters s ! i) = Some t'" "parked s i t' \<longleftrightarrow> i \<notin> E" by (rule inv_waiting)
    then show False using q(3) p i by simp
  qed
  then show ?thesis using sp t by (simp add: woke_def)
qed

text \<open>
  The place of a waiter in a wake: it is among the first \<open>n\<close> that match when fewer than \<open>n\<close> earlier slots do.
\<close>

lemma in_first_matches:
  assumes "i < m" and "P i" and "card {j. j < i \<and> P j} < n"
  shows "i \<in> set (take n (filter P [0..<m]))"
proof -
  have "[0..<m] = [0..<i] @ [i..<m]" using assms(1) by (metis le0 less_imp_le_nat upt_add_eq_append le_add_diff_inverse)
  then have f: "filter P [0..<m] = filter P [0..<i] @ i # filter P [Suc i..<m]" using assms(1,2) by (simp add: upt_conv_Cons)
  have "length (filter P [0..<i]) = card (set (filter P [0..<i]))" by (rule distinct_card [symmetric]) simp
  also have "set (filter P [0..<i]) = {j. j < i \<and> P j}" by auto
  finally show ?thesis using assms(3) by (cases "n - length (filter P [0..<i])") (simp_all add: f)
qed

text \<open>
  C37: no wake-up is lost.  A wait parks only if the word had the expected value at every load, also
  at the one made after the thread was marked blocked; and once parked, a wake of an equal key with
  an overlapping bitset makes the thread runnable again, provided its count is greater than the number
  of matching waiters in earlier slots.  A wait that does not park returns an error and changes nothing:
  the caller keeps running with at most its block fields cleared, every other thread, every waiter in
  use, the robust lists, user memory and the rest of the state are as before.
\<close>

theorem futex_no_lost_wake:
  assumes s: "futex_reach (s, E)" "cur_running s"
    and w: "futex_wait_bitset um (Some a) val (Some key) dl bs s = (out, u)"
  shows "case out of
      Ret r \<Rightarrow> same_waits s u \<and> r \<in> {- LINUX_EINVAL, - LINUX_EAGAIN, - LINUX_ENOMEM, - LINUX_ETIMEDOUT}
    | Park i \<Rightarrow> (\<forall>k < 3. futex_load_u32 (Some a) (um k) = val) \<and>
        (\<exists>t. fx_cur s = Some t \<and> parked u i t \<and>
          (\<forall>key' bs' count r v. valid_key key' \<longrightarrow> key_eq key key' \<longrightarrow> bs AND bs' \<noteq> 0 \<longrightarrow>
             card {j. j < i \<and> wake_match key' bs' (fx_aWaiters u ! j)} < unat count \<longrightarrow>
             futex_wake_bitset (Some key') count bs' u = (r, v) \<longrightarrow>
             th_u32State (fx_threads v ! t) = GJ_THR_RUNNABLE \<and> 0 < r))"
proof -
  note inv = reach_inv(1) [OF s(1)]
  note ws = wait_spec [OF inv conjunct2 [OF reach_inv(2) [OF s(1)]] s(2) w [unfolded futex_wait_bitset_def]]
  show ?thesis
  proof (cases out)
    case (Ret r)
    then show ?thesis using ws(2) by simp
  next
    case (Park i)
    from ws(2) obtain t where t: "fx_cur s = Some t" "i < GJ_FUTEX_MAX_WAITERS" "\<forall>k < 3. futex_load_u32 (Some a) (um k) = val"
      and wt: "fx_aWaiters u = (fx_aWaiters s)[i := registered val bs key t dl]"
      and th: "fx_threads u = (fx_threads s)[t := (fx_threads s ! t)\<lparr>th_pBlockObj := Some (Obj_Futex i),
               th_u32BlockTag := 0, th_u32State := GJ_THR_BLOCKED\<rparr>]"
      by (simp add: Park) blast
    have tl: "t < GJ_MAX_THREADS" using s(2) t(1) by (simp add: cur_running_def)
    have pk: "parked u i t" using tl inv_len(3) [OF inv] by (simp add: parked_def th)
    have wi: "fx_aWaiters u ! i = registered val bs key t dl" using t(2) inv_len(1) [OF inv] by (simp add: wt)
    have "th_u32State (fx_threads v ! t) = GJ_THR_RUNNABLE \<and> 0 < r"
      if k: "valid_key key'" "key_eq key key'" "bs AND bs' \<noteq> 0" "card {j. j < i \<and> wake_match key' bs' (fx_aWaiters u ! j)} < unat count"
        and wk: "futex_wake_bitset (Some key') count bs' u = (r, v)" for key' bs' count r v
    proof -
      let ?f = "take (unat count) (filter (\<lambda>i. wake_match key' bs' (fx_aWaiters u ! i)) [0..<GJ_FUTEX_MAX_WAITERS])"
      have bs': "bs' \<noteq> 0" using k(3) by auto
      have m: "wake_match key' bs' (fx_aWaiters u ! i)" using k(2,3) by (simp add: wi wake_match_def registered_def)
      have mem: "i \<in> set ?f" by (rule in_first_matches [OF t(2) m k(4)])
      note sp = wake_spec(2,3) [OF ws(1) k(1) bs' wk [unfolded futex_wake_bitset_def]]
      have "fx_threads v ! t = woken (fx_threads u ! t)" using sp(2) tl mem pk unfolding woke_def by auto
      moreover have "0 < length ?f" using mem by (cases ?f) auto
      ultimately show ?thesis using sp(1) by (simp add: woken_def)
    qed
    then show ?thesis using Park t(1,3) pk by auto
  qed
qed

theorem futex_no_lost_wake_witness:
  "futex_load_u32 (Some 0x800010) wit_us = 0x13121110 \<and> (\<exists>t. fx_cur wit_boot = Some t \<and> parked (snd (wit_wait wit_key)) 0 t)"
proof -
  have "futex_wait_bitset (\<lambda>_. wit_us) (Some 0x800010) 0x13121110 (Some wit_key) 0 1 wit_boot = (Park 0, snd (wit_wait wit_key))"
    using wit_park [of wit_key] unfolding futex_wait_bitset_def wit_wait_def by simp
  note w = futex_no_lost_wake [OF wit_boot_reach wit_boot_run this]
  have "\<exists>k :: nat. k < 3" by (rule exI [of _ 0]) simp
  with w show ?thesis by auto
qed

text \<open>
  The exit of a thread ends, marks at most 65 futex words, each of them readable by the user, with
  the dying thread in its owner field and not yet marked, by setting the owner-died bit and changing
  no other memory; and afterwards neither the waiter table nor the robust table mentions the thread.
\<close>

lemma futex_exit_exact:
  assumes "futex_reach (s, E)" and "t < GJ_MAX_THREADS" and "th_u32Id (fx_threads s ! t) \<noteq> 0"
    and "futex_exit_robust_list (Some t) s = (r, u)"
  shows "r \<le> 65 \<and> marks (th_u32Id (fx_threads s ! t)) r (fx_us s) (fx_us u) \<and> gone t (th_u32Id (fx_threads s ! t)) u"
  using exit_spec [OF reach_inv(1) [OF assms(1)] assms(2) refl assms(3,4)] by simp

text \<open>
  The exit path never wakes a waiter on a shared futex.  It always finds a private key for the
  word, so the fallback to the shared key is dead code: every waiter another thread has on a shared
  key sleeps on, although the owner of the word has died.
\<close>

lemma futex_robust_shared_not_woken:
  assumes "futex_reach (s, E)" and "t < GJ_MAX_THREADS" and "th_u32Id (fx_threads s ! t) \<noteq> 0"
    and "futex_exit_robust_list (Some t) s = (r, u)"
    and "i < GJ_FUTEX_MAX_WAITERS" and "w_u8Used (fx_aWaiters s ! i)" and "w_pThr (fx_aWaiters s ! i) \<noteq> Some t"
    and "\<not> k_u8Private (w_key (fx_aWaiters s ! i))"
  shows "fx_aWaiters u ! i = fx_aWaiters s ! i"
  using exit_spec [OF reach_inv(1) [OF assms(1)] assms(2) refl assms(3,4)] assms(5-8) by (simp add: shared_kept_def)

end
