(* ===== verification/Notify.thy ===== *)
theory Notify
  imports Cap_Revoke Thread_Block
begin

text \<open>
  Notification objects, \<^verbatim>\<open>kernel/ipc/notify.c\<close>: a word of pending badge bits that interrupt handlers
  and threads post to and waiting threads take from.  The state extends the capability layer (the
  header of a notification is a kernel object) by the notifications and the threads.  The handlers
  are first given as they run alone; \<^verbatim>\<open>notify_wait\<close>, \<^verbatim>\<open>notify_pulse\<close> and \<^verbatim>\<open>notify_mark_dead\<close> are then
  given once more as programs of atomic accesses, so that their interleavings can be studied.
  \<^verbatim>\<open>thread_block\<close>, \<^verbatim>\<open>thread_wake\<close> and \<^verbatim>\<open>gj_obj_revoke_begin\<close> count as one access each.  The
  \<^verbatim>\<open>notify_soft_*\<close> counters and logs are left out.
\<close>

section \<open>Data\<close>

abbreviation (input) NOTIFY_SOFT_MULTI_MAX :: u32 where "NOTIFY_SOFT_MULTI_MAX \<equiv> 8"
abbreviation (input) NOTIFY_WAKER_DRAIN_ROUNDS :: nat where "NOTIFY_WAKER_DRAIN_ROUNDS \<equiv> 4"
abbreviation (input) NOTIFY_TAG_WAITER :: u32 where "NOTIFY_TAG_WAITER \<equiv> 1"

text \<open>The header is the kernel object at the same address; \<open>nt_pWaiter\<close> is a thread index.\<close>

record gj_notify =
  nt_u32Ready :: u32
  nt_u32Signals :: u32
  nt_u64Pending :: u64
  nt_u64LastBadge :: u64
  nt_pWaiter :: "nat option"
  nt_u32Waiters :: u32

record notify_state = revoke_state +
  st_notify :: "nat \<Rightarrow> gj_notify"
  st_threads :: threads

definition upd_notify :: "nat \<Rightarrow> (gj_notify \<Rightarrow> gj_notify) \<Rightarrow> 'a notify_state_scheme \<Rightarrow> 'a notify_state_scheme" where
  "upd_notify n f s = s\<lparr>st_notify := (st_notify s)(n := f (st_notify s n))\<rparr>"

section \<open>Handlers\<close>

definition notify_live :: "'a notify_state_scheme \<Rightarrow> ptr \<Rightarrow> bool" where
  "notify_live s pN =
     (case pN of
        None \<Rightarrow> False
      | Some n \<Rightarrow>
          if nt_u32Ready (st_notify s n) = 0 then False
          else if hdr_u32State (st_objs s n) \<noteq> GJ_OBJ_LIVE then False
          else True)"

definition notify_soft_multi_wake_n ::
  "ptr \<Rightarrow> u32 \<Rightarrow> 'a notify_state_scheme \<Rightarrow> u32 \<times> 'a notify_state_scheme" where
  "notify_soft_multi_wake_n pN u32Max s =
     (case pN of
        None \<Rightarrow> (0, s)
      | Some n \<Rightarrow>
          (let u32Max = (if u32Max = 0 then NOTIFY_SOFT_MULTI_MAX else u32Max)
           in case thread_wake (Obj_Other n) NOTIFY_TAG_WAITER u32Max (st_threads s) of
                (cWoken, ts) \<Rightarrow> (cWoken, s\<lparr>st_threads := ts\<rparr>)))"

definition notify_soft_multi_wake :: "ptr \<Rightarrow> 'a notify_state_scheme \<Rightarrow> u32 \<times> 'a notify_state_scheme" where
  "notify_soft_multi_wake pN = notify_soft_multi_wake_n pN NOTIFY_SOFT_MULTI_MAX"

definition notify_has_waiter :: "'a notify_state_scheme \<Rightarrow> ptr \<Rightarrow> bool" where
  "notify_has_waiter s pN =
     (case pN of
        None \<Rightarrow> False
      | Some n \<Rightarrow>
          if nt_pWaiter (st_notify s n) \<noteq> None then True
          else 0 < nt_u32Waiters (st_notify s n))"

text \<open>The rounds left of \<^verbatim>\<open>notify_soft_waker_drain\<close> and the total so far.\<close>

fun drain_loop :: "nat \<Rightarrow> ptr \<Rightarrow> u32 \<Rightarrow> 'a notify_state_scheme \<Rightarrow> u32 \<times> 'a notify_state_scheme" where
  "drain_loop 0 pN cTotal s = (cTotal, s)"
| "drain_loop (Suc k) pN cTotal s =
     (if \<not> notify_has_waiter s pN then (cTotal, s)
      else
        (case notify_soft_multi_wake pN s of
           (cRound, s) \<Rightarrow>
             if cRound = 0 then (cTotal + cRound, s)
             else drain_loop k pN (cTotal + cRound) s))"

definition notify_soft_waker_drain :: "ptr \<Rightarrow> 'a notify_state_scheme \<Rightarrow> u32 \<times> 'a notify_state_scheme" where
  "notify_soft_waker_drain pN s =
     (if pN = None then (0, s) else drain_loop NOTIFY_WAKER_DRAIN_ROUNDS pN 0 s)"

definition notify_init :: "ptr \<Rightarrow> 'a notify_state_scheme \<Rightarrow> 'a notify_state_scheme" where
  "notify_init pN s =
     (case pN of
        None \<Rightarrow> s
      | Some n \<Rightarrow>
          upd_notify n (\<lambda>p. p\<lparr>nt_u32Ready := 1\<rparr>)
            (gj_obj_hdr_init (Some n)
              (upd_notify n (\<lambda>_. \<lparr>nt_u32Ready = 0, nt_u32Signals = 0, nt_u64Pending = 0, nt_u64LastBadge = 0,
                 nt_pWaiter = None, nt_u32Waiters = 0\<rparr>) s)))"

definition notify_is_live :: "'a notify_state_scheme \<Rightarrow> ptr \<Rightarrow> bool" where
  "notify_is_live s pN = notify_live s pN"

definition notify_pulse :: "ptr \<Rightarrow> u64 \<Rightarrow> 'a notify_state_scheme \<Rightarrow> 'a notify_state_scheme" where
  "notify_pulse pN u64Badge s =
     (case pN of
        None \<Rightarrow> s
      | Some n \<Rightarrow>
          if nt_u32Ready (st_notify s n) = 0 then s
          else if hdr_u32State (st_objs s n) \<noteq> GJ_OBJ_LIVE then s
          else
            (let u64Badge = (if u64Badge = 0 then 1 else u64Badge);
                 s = upd_notify n (\<lambda>p. p\<lparr>nt_u64Pending := nt_u64Pending p OR u64Badge\<rparr>) s;
                 s = upd_notify n (\<lambda>p. p\<lparr>nt_u64LastBadge := u64Badge\<rparr>) s;
                 s = upd_notify n (\<lambda>p. p\<lparr>nt_u32Signals := nt_u32Signals p + 1\<rparr>) s
             in if notify_has_waiter s pN then snd (notify_soft_multi_wake pN s) else s))"

definition notify_signal :: "ptr \<Rightarrow> u64 \<Rightarrow> 'a notify_state_scheme \<Rightarrow> 'a notify_state_scheme" where
  "notify_signal pN u64Badge = notify_pulse pN u64Badge"

definition notify_event :: "ptr \<Rightarrow> u64 \<Rightarrow> 'a notify_state_scheme \<Rightarrow> 'a notify_state_scheme" where
  "notify_event pN u64Badge = notify_pulse pN u64Badge"

definition notify_wake :: "ptr \<Rightarrow> u32 \<Rightarrow> 'a notify_state_scheme \<Rightarrow> u32 \<times> 'a notify_state_scheme" where
  "notify_wake pN u32Max s =
     (if pN = None then (0, s)
      else if \<not> notify_has_waiter s pN then (0, s)
      else notify_soft_multi_wake_n pN u32Max s)"

definition notify_wake_drain :: "ptr \<Rightarrow> 'a notify_state_scheme \<Rightarrow> u32 \<times> 'a notify_state_scheme" where
  "notify_wake_drain pN = notify_soft_waker_drain pN"

definition notify_signals :: "'a notify_state_scheme \<Rightarrow> ptr \<Rightarrow> u32" where
  "notify_signals s pN = (case pN of None \<Rightarrow> 0 | Some n \<Rightarrow> nt_u32Signals (st_notify s n))"

definition notify_pending :: "'a notify_state_scheme \<Rightarrow> ptr \<Rightarrow> u64" where
  "notify_pending s pN = (case pN of None \<Rightarrow> 0 | Some n \<Rightarrow> nt_u64Pending (st_notify s n))"

definition notify_last_badge :: "'a notify_state_scheme \<Rightarrow> ptr \<Rightarrow> u64" where
  "notify_last_badge s pN = (case pN of None \<Rightarrow> 0 | Some n \<Rightarrow> nt_u64LastBadge (st_notify s n))"

definition notify_waiters :: "'a notify_state_scheme \<Rightarrow> ptr \<Rightarrow> u32" where
  "notify_waiters s pN = (case pN of None \<Rightarrow> 0 | Some n \<Rightarrow> nt_u32Waiters (st_notify s n))"

definition notify_abort_waiter :: "ptr \<Rightarrow> 'a notify_state_scheme \<Rightarrow> 'a notify_state_scheme" where
  "notify_abort_waiter pN s =
     (if pN = None then s
      else if notify_has_waiter s pN then snd (notify_soft_waker_drain pN s)
      else s)"

definition notify_mark_dead :: "ptr \<Rightarrow> 'a notify_state_scheme \<Rightarrow> 'a notify_state_scheme" where
  "notify_mark_dead pN s =
     (case pN of
        None \<Rightarrow> s
      | Some n \<Rightarrow>
          (let s = upd_notify n (\<lambda>p. p\<lparr>nt_u32Ready := 0\<rparr>) s;
               s = (if hdr_u32State (st_objs s n) = GJ_OBJ_LIVE then snd (gj_obj_revoke_begin (Some n) s)
                    else upd_obj n (\<lambda>h. h\<lparr>hdr_u32State := GJ_OBJ_DEAD\<rparr>) s)
           in notify_abort_waiter pN s))"

text \<open>\<open>pProcCnode\<close> is \<open>None\<close> for a NULL process, else its CNode pointer; \<open>fOut\<close> tells that the caller
  passed an output reference.\<close>

definition notify_install ::
  "ptr option \<Rightarrow> ptr \<Rightarrow> u16 \<Rightarrow> bool \<Rightarrow> 'a notify_state_scheme
     \<Rightarrow> (gj_status + gj_cap_ref) \<times> 'a notify_state_scheme" where
  "notify_install pProcCnode pN u16Rights fOut s =
     (if pProcCnode = None \<or> pN = None \<or> \<not> fOut \<or> pProcCnode = Some None then (Inl GJ_ERR_INVAL, s)
      else if \<not> notify_live s pN then (Inl GJ_ERR_NODEV, s)
      else
        (let u16Rights = (if u16Rights = 0 then GJ_RIGHT_READ OR GJ_RIGHT_WAIT OR GJ_RIGHT_IDENTIFY else u16Rights)
         in gj_cap_alloc_install (the pProcCnode) GJ_CAP_NOTIFICATION u16Rights pN s))"

text \<open>The global object of the message-signalled interrupts: \<open>fInited\<close> is \<^verbatim>\<open>g_fMsixInited\<close>, \<open>n\<close> the
  address of \<^verbatim>\<open>g_msixNotify\<close>.\<close>

definition notify_msix_init :: "nat \<Rightarrow> bool \<Rightarrow> 'a notify_state_scheme \<Rightarrow> bool \<times> 'a notify_state_scheme" where
  "notify_msix_init n fInited s =
     (if fInited \<and> nt_u32Ready (st_notify s n) \<noteq> 0 \<and> hdr_u32State (st_objs s n) = GJ_OBJ_LIVE then (fInited, s)
      else (True, notify_init (Some n) s))"

section \<open>Programs of atomic accesses\<close>

text \<open>
  Where a caller is.  \<open>W\<close> is \<^verbatim>\<open>notify_wait\<close>: the entry check (ready, state), the loop's check, the
  load of the pending word, the compare-and-exchange, the two accesses that give a registration
  back (with the value to return), registration, hint, block, the checks after blocking, the
  self-wake, the call of the scheduler, the hint after it, and the return.  \<open>P\<close> is
  \<^verbatim>\<open>notify_pulse\<close> and \<open>D\<close> is \<^verbatim>\<open>notify_mark_dead\<close> with the drain rounds left.
\<close>

datatype notify_pc =
    Idle
  | W_Enter | W_EnterSt | W_Loop | W_LoopSt | W_Load | W_Cas | W_Drop u64 | W_Dec u64
  | W_Register | W_Hint | W_Block | W_Recheck | W_ReReady | W_ReState | W_Self | W_Sched | W_Unhint
  | W_Ret u64
  | P_Ready u64 | P_State u64 | P_Or u64 | P_Last u64 | P_Count | P_Hint | P_Waiters | P_Wake
  | D_Ready | D_State | D_Revoke | D_Force | D_Abort | D_AbortCnt | D_Has nat | D_HasCnt nat | D_Wake nat

record notify_agent =
  ag_pc :: notify_pc
  ag_u64Mask :: u64
  ag_fBlock :: bool
  ag_fRegistered :: bool
  ag_u64Pend :: u64
  ag_u64Got :: u64

text \<open>Callers below \<^verbatim>\<open>GJ_MAX_THREADS\<close> are the threads, the others run in interrupt context, where
  \<^verbatim>\<open>thread_current\<close> is NULL.\<close>

record notify_sys = notify_state +
  ns_ag :: "nat \<Rightarrow> notify_agent"

definition pCur_of :: "nat \<Rightarrow> nat option" where
  "pCur_of a = (if a < GJ_MAX_THREADS then Some a else None)"

definition upd_ag :: "nat \<Rightarrow> (notify_agent \<Rightarrow> notify_agent) \<Rightarrow> notify_sys \<Rightarrow> notify_sys" where
  "upd_ag a f s = s\<lparr>ns_ag := (ns_ag s)(a := f (ns_ag s a))\<rparr>"

definition goto :: "nat \<Rightarrow> notify_pc \<Rightarrow> notify_sys \<Rightarrow> notify_sys" where
  "goto a pc = upd_ag a (\<lambda>ag. ag\<lparr>ag_pc := pc\<rparr>)"

text \<open>The returns of \<^verbatim>\<open>notify_wait\<close>: a registered caller gives its registration back first.\<close>

definition leave :: "nat \<Rightarrow> u64 \<Rightarrow> notify_sys \<Rightarrow> notify_sys" where
  "leave a v s = goto a (if ag_fRegistered (ns_ag s a) then W_Drop v else W_Ret v) s"

definition unhint :: "nat \<Rightarrow> nat \<Rightarrow> notify_sys \<Rightarrow> notify_sys" where
  "unhint n a = upd_notify n (\<lambda>p. if nt_pWaiter p = pCur_of a then p\<lparr>nt_pWaiter := None\<rparr> else p)"

definition wait_step :: "nat \<Rightarrow> nat \<Rightarrow> notify_sys \<Rightarrow> notify_sys" where
  "wait_step n a s =
     (let ag = ns_ag s a; pN = st_notify s n
      in case ag_pc ag of
           W_Enter \<Rightarrow> if nt_u32Ready pN = 0 then goto a (W_Ret 0) s else goto a W_EnterSt s
         | W_EnterSt \<Rightarrow>
             if hdr_u32State (st_objs s n) \<noteq> GJ_OBJ_LIVE then goto a (W_Ret 0) s
             else upd_ag a (\<lambda>ag. ag\<lparr>ag_pc := W_Loop, ag_u64Mask := (if ag_u64Mask ag = 0 then NOT 0 else ag_u64Mask ag)\<rparr>) s
         | W_Loop \<Rightarrow> if nt_u32Ready pN = 0 then leave a 0 s else goto a W_LoopSt s
         | W_LoopSt \<Rightarrow> if hdr_u32State (st_objs s n) \<noteq> GJ_OBJ_LIVE then leave a 0 s else goto a W_Load s
         | W_Load \<Rightarrow>
             (let u64Pend = nt_u64Pending pN; u64Got = u64Pend AND ag_u64Mask ag;
                  s = upd_ag a (\<lambda>ag. ag\<lparr>ag_u64Pend := u64Pend, ag_u64Got := u64Got\<rparr>) s
              in if u64Got \<noteq> 0 then goto a W_Cas s
                 else if \<not> ag_fBlock ag \<or> pCur_of a = None then leave a 0 s
                 else if \<not> ag_fRegistered ag then goto a W_Register s
                 else goto a W_Hint s)
         | W_Cas \<Rightarrow>
             if nt_u64Pending pN = ag_u64Pend ag
             then leave a (ag_u64Got ag)
                    (upd_notify n (\<lambda>p. p\<lparr>nt_u64Pending := ag_u64Pend ag AND NOT (ag_u64Got ag)\<rparr>) s)
             else goto a W_Loop s
         | W_Drop v \<Rightarrow> goto a (W_Dec v) (unhint n a s)
         | W_Dec v \<Rightarrow>
             upd_ag a (\<lambda>ag. ag\<lparr>ag_pc := W_Ret v, ag_fRegistered := False\<rparr>)
               (upd_notify n (\<lambda>p. p\<lparr>nt_u32Waiters := nt_u32Waiters p - 1\<rparr>) s)
         | W_Register \<Rightarrow>
             upd_ag a (\<lambda>ag. ag\<lparr>ag_pc := W_Hint, ag_fRegistered := True\<rparr>)
               (upd_notify n (\<lambda>p. p\<lparr>nt_u32Waiters := nt_u32Waiters p + 1\<rparr>) s)
         | W_Hint \<Rightarrow> goto a W_Block (upd_notify n (\<lambda>p. p\<lparr>nt_pWaiter := pCur_of a\<rparr>) s)
         | W_Block \<Rightarrow>
             goto a W_Recheck
               (s\<lparr>st_threads := thread_block (pCur_of a) (Obj_Other n) NOTIFY_TAG_WAITER (st_threads s)\<rparr>)
         | W_Recheck \<Rightarrow> goto a (if nt_u64Pending pN AND ag_u64Mask ag \<noteq> 0 then W_Self else W_ReReady) s
         | W_ReReady \<Rightarrow> goto a (if nt_u32Ready pN = 0 then W_Self else W_ReState) s
         | W_ReState \<Rightarrow> goto a (if hdr_u32State (st_objs s n) \<noteq> GJ_OBJ_LIVE then W_Self else W_Sched) s
         | W_Self \<Rightarrow> goto a W_Sched (snd (notify_soft_multi_wake (Some n) s))
         | W_Sched \<Rightarrow>
             goto a W_Unhint
               (s\<lparr>st_threads := (st_threads s)[a := (st_threads s ! a)\<lparr>th_u32State := GJ_THR_RUNNING\<rparr>]\<rparr>)
         | W_Unhint \<Rightarrow> goto a W_Loop (unhint n a s)
         | _ \<Rightarrow> s)"

definition pulse_step :: "nat \<Rightarrow> nat \<Rightarrow> notify_sys \<Rightarrow> notify_sys" where
  "pulse_step n a s =
     (let pN = st_notify s n
      in case ag_pc (ns_ag s a) of
           P_Ready b \<Rightarrow> goto a (if nt_u32Ready pN = 0 then Idle else P_State b) s
         | P_State b \<Rightarrow>
             goto a (if hdr_u32State (st_objs s n) \<noteq> GJ_OBJ_LIVE then Idle else P_Or (if b = 0 then 1 else b)) s
         | P_Or b \<Rightarrow> goto a (P_Last b) (upd_notify n (\<lambda>p. p\<lparr>nt_u64Pending := nt_u64Pending p OR b\<rparr>) s)
         | P_Last b \<Rightarrow> goto a P_Count (upd_notify n (\<lambda>p. p\<lparr>nt_u64LastBadge := b\<rparr>) s)
         | P_Count \<Rightarrow> goto a P_Hint (upd_notify n (\<lambda>p. p\<lparr>nt_u32Signals := nt_u32Signals p + 1\<rparr>) s)
         | P_Hint \<Rightarrow> goto a (if nt_pWaiter pN \<noteq> None then P_Wake else P_Waiters) s
         | P_Waiters \<Rightarrow> goto a (if 0 < nt_u32Waiters pN then P_Wake else Idle) s
         | P_Wake \<Rightarrow> goto a Idle (snd (notify_soft_multi_wake (Some n) s))
         | _ \<Rightarrow> s)"

definition dead_step :: "nat \<Rightarrow> nat \<Rightarrow> notify_sys \<Rightarrow> notify_sys" where
  "dead_step n a s =
     (case ag_pc (ns_ag s a) of
        D_Ready \<Rightarrow> goto a D_State (upd_notify n (\<lambda>p. p\<lparr>nt_u32Ready := 0\<rparr>) s)
      | D_State \<Rightarrow> goto a (if hdr_u32State (st_objs s n) = GJ_OBJ_LIVE then D_Revoke else D_Force) s
      | D_Revoke \<Rightarrow> goto a D_Abort (snd (gj_obj_revoke_begin (Some n) s))
      | D_Force \<Rightarrow> goto a D_Abort (upd_obj n (\<lambda>h. h\<lparr>hdr_u32State := GJ_OBJ_DEAD\<rparr>) s)
      | D_Abort \<Rightarrow>
          goto a (if nt_pWaiter (st_notify s n) \<noteq> None then D_Has NOTIFY_WAKER_DRAIN_ROUNDS else D_AbortCnt) s
      | D_AbortCnt \<Rightarrow>
          goto a (if 0 < nt_u32Waiters (st_notify s n) then D_Has NOTIFY_WAKER_DRAIN_ROUNDS else Idle) s
      | D_Has k \<Rightarrow>
          goto a (if k = 0 then Idle else if nt_pWaiter (st_notify s n) \<noteq> None then D_Wake k else D_HasCnt k) s
      | D_HasCnt k \<Rightarrow> goto a (if 0 < nt_u32Waiters (st_notify s n) then D_Wake k else Idle) s
      | D_Wake k \<Rightarrow>
          (case notify_soft_multi_wake (Some n) s of
             (cRound, s) \<Rightarrow> goto a (if cRound = 0 then Idle else D_Has (k - 1)) s)
      | _ \<Rightarrow> s)"

text \<open>Who waits on the notification at \<open>n\<close>, as the scheduler sees it.\<close>

definition nt_parked :: "nat \<Rightarrow> threads \<Rightarrow> nat \<Rightarrow> bool" where
  "nt_parked n ts t \<longleftrightarrow> th_u32State (ts ! t) = GJ_THR_BLOCKED \<and> th_pBlockObj (ts ! t) = Some (Obj_Other n)"

text \<open>
  The system: threads and interrupt handlers call the three programs on the notification at \<open>n\<close> and
  take turns access by access; only the threads in \<open>T\<close> block.  A thread inside the scheduler goes on
  once it is no longer blocked.  The rest of the kernel does anything that keeps the notification,
  its header and the threads parked on it; the unsynchronised hint \<^verbatim>\<open>pWaiter\<close> may hold any value.
\<close>

definition notify_env :: "nat \<Rightarrow> notify_sys \<Rightarrow> notify_sys \<Rightarrow> bool" where
  "notify_env n s u \<longleftrightarrow> ns_ag u = ns_ag s \<and> (\<exists>x. st_notify u n = (st_notify s n)\<lparr>nt_pWaiter := x\<rparr>)
     \<and> hdr_u32State (st_objs u n) = hdr_u32State (st_objs s n) \<and> length (st_threads u) = length (st_threads s)
     \<and> (\<forall>t < GJ_MAX_THREADS. if nt_parked n (st_threads s) t then st_threads u ! t = st_threads s ! t
          else \<not> nt_parked n (st_threads u) t)"

definition returned :: "notify_pc \<Rightarrow> bool" where
  "returned pc \<longleftrightarrow> pc = Idle \<or> (\<exists>v. pc = W_Ret v)"

definition wait_call :: "nat \<Rightarrow> u64 \<Rightarrow> bool \<Rightarrow> notify_sys \<Rightarrow> notify_sys" where
  "wait_call a u64Mask fBlock = upd_ag a (\<lambda>ag. ag\<lparr>ag_pc := W_Enter, ag_u64Mask := u64Mask, ag_fBlock := fBlock,
     ag_fRegistered := False\<rparr>)"

text \<open>Which program a caller is inside.\<close>

fun is_pulse :: "notify_pc \<Rightarrow> bool" where
  "is_pulse (P_Ready b) = True" | "is_pulse (P_State b) = True" | "is_pulse (P_Or b) = True" | "is_pulse (P_Last b) = True"
| "is_pulse P_Count = True" | "is_pulse P_Hint = True" | "is_pulse P_Waiters = True" | "is_pulse P_Wake = True"
| "is_pulse _ = False"

fun is_dead :: "notify_pc \<Rightarrow> bool" where
  "is_dead D_Ready = True" | "is_dead D_State = True" | "is_dead D_Revoke = True" | "is_dead D_Force = True"
| "is_dead D_Abort = True" | "is_dead D_AbortCnt = True" | "is_dead (D_Has k) = True" | "is_dead (D_HasCnt k) = True"
| "is_dead (D_Wake k) = True"
| "is_dead _ = False"

definition is_wait :: "notify_pc \<Rightarrow> bool" where
  "is_wait pc \<longleftrightarrow> \<not> returned pc \<and> \<not> is_pulse pc \<and> \<not> is_dead pc"

text \<open>What an access does to the badges: a pulse posts its bits, a successful compare-and-exchange takes
  the bits, and a wait that returns gives its value to the caller.\<close>

datatype badge_ev = Posted u64 | Took nat u64 | Gave nat u64

definition badge_events :: "nat \<Rightarrow> nat \<Rightarrow> notify_sys \<Rightarrow> badge_ev list" where
  "badge_events n a s =
     (case ag_pc (ns_ag s a) of
        P_Or b \<Rightarrow> [Posted b]
      | W_Cas \<Rightarrow>
          (if nt_u64Pending (st_notify s n) = ag_u64Pend (ns_ag s a) then [Took a (ag_u64Got (ns_ag s a))] else [])
      | _ \<Rightarrow> [])"

definition wait_events :: "nat \<Rightarrow> nat \<Rightarrow> notify_sys \<Rightarrow> badge_ev list" where
  "wait_events n a s =
     badge_events n a s @ (case ag_pc (ns_ag (wait_step n a s) a) of W_Ret v \<Rightarrow> [Gave a v] | _ \<Rightarrow> [])"

definition notify_poll :: "nat \<Rightarrow> u64 \<Rightarrow> notify_sys \<Rightarrow> notify_sys" where
  "notify_poll a u64Mask = wait_call a u64Mask False"

inductive notify_step :: "nat set \<Rightarrow> nat \<Rightarrow> badge_ev list \<Rightarrow> notify_sys \<Rightarrow> notify_sys \<Rightarrow> bool" for T n where
  Wait_Call: "returned (ag_pc (ns_ag s a)) \<Longrightarrow> a \<in> T \<or> \<not> f \<Longrightarrow> notify_step T n [] s (wait_call a m f s)"
| Pulse_Call: "returned (ag_pc (ns_ag s a)) \<Longrightarrow> notify_step T n [] s (goto a (P_Ready b) s)"
| Dead_Call: "returned (ag_pc (ns_ag s a)) \<Longrightarrow> notify_step T n [] s (goto a D_Ready s)"
| Wait: "\<not> (ag_pc (ns_ag s a) = W_Sched \<and> th_u32State (st_threads s ! a) = GJ_THR_BLOCKED) \<Longrightarrow> is_wait (ag_pc (ns_ag s a)) \<Longrightarrow>
    notify_step T n (wait_events n a s) s (wait_step n a s)"
| Pulse: "is_pulse (ag_pc (ns_ag s a)) \<Longrightarrow> notify_step T n (badge_events n a s) s (pulse_step n a s)"
| Dead: "is_dead (ag_pc (ns_ag s a)) \<Longrightarrow> notify_step T n [] s (dead_step n a s)"
| Kick: "notify_step T n [] s (snd (notify_wake (Some n) m s))"
| Env: "notify_env n s u \<Longrightarrow> notify_step T n [] s u"

text \<open>A fresh notification nobody uses yet.\<close>

definition notify_boot :: "nat \<Rightarrow> notify_sys \<Rightarrow> bool" where
  "notify_boot n u \<longleftrightarrow> (\<exists>s. u = notify_init (Some n) s \<and> length (st_threads s) = GJ_MAX_THREADS
     \<and> (\<forall>t < GJ_MAX_THREADS. \<not> nt_parked n (st_threads s) t)
     \<and> (\<forall>a. ag_pc (ns_ag s a) = Idle \<and> \<not> ag_fBlock (ns_ag s a) \<and> \<not> ag_fRegistered (ns_ag s a)))"

abbreviation notify_reach :: "nat set \<Rightarrow> nat \<Rightarrow> notify_sys \<Rightarrow> bool" where
  "notify_reach T n \<equiv> reach (notify_boot n) (\<lambda>s u. \<exists>es. notify_step T n es s u)"

text \<open>The states reached, with the badge events on the way.\<close>

inductive notify_trace :: "nat set \<Rightarrow> nat \<Rightarrow> badge_ev list \<Rightarrow> notify_sys \<Rightarrow> bool" for T n where
  Boot: "notify_boot n s \<Longrightarrow> notify_trace T n [] s"
| Go: "notify_trace T n es s \<Longrightarrow> notify_step T n fs s u \<Longrightarrow> notify_trace T n (es @ fs) u"

end
