(* ===== verification/Notify_Inv.thy ===== *)
theory Notify_Inv
  imports Notify
begin

text \<open>
  What notifications promise under every interleaving of waiters, pulses and teardown: the waiter
  count is exact, no wake-up is lost as long as at most eight threads wait, and badges are neither
  dropped nor delivered twice.
\<close>

section \<open>The invariant\<close>

text \<open>Where a caller may be with its registration held, and where it may be parked.\<close>

fun holds_reg :: "notify_pc \<Rightarrow> bool option" where
  "holds_reg W_Loop = None" | "holds_reg W_LoopSt = None" | "holds_reg W_Load = None" | "holds_reg W_Cas = None"
| "holds_reg (W_Drop v) = Some True" | "holds_reg (W_Dec v) = Some True" | "holds_reg W_Hint = Some True"
| "holds_reg W_Block = Some True" | "holds_reg W_Recheck = Some True" | "holds_reg W_ReReady = Some True"
| "holds_reg W_ReState = Some True" | "holds_reg W_Self = Some True" | "holds_reg W_Sched = Some True"
| "holds_reg W_Unhint = Some True"
| "holds_reg _ = Some False"

fun may_park :: "notify_pc \<Rightarrow> bool" where
  "may_park W_Recheck = True" | "may_park W_ReReady = True" | "may_park W_ReState = True"
| "may_park W_Self = True" | "may_park W_Sched = True"
| "may_park _ = False"

text \<open>A caller that has changed the notification and still owes its waiters a wake.\<close>

fun owes :: "notify_pc \<Rightarrow> bool" where
  "owes (P_Last b) = True" | "owes P_Count = True" | "owes P_Hint = True" | "owes P_Waiters = True" | "owes P_Wake = True"
| "owes D_State = True" | "owes D_Revoke = True" | "owes D_Force = True" | "owes D_Abort = True" | "owes D_AbortCnt = True"
| "owes (D_Has k) = (k = NOTIFY_WAKER_DRAIN_ROUNDS)" | "owes (D_HasCnt k) = (k = NOTIFY_WAKER_DRAIN_ROUNDS)"
| "owes (D_Wake k) = (k = NOTIFY_WAKER_DRAIN_ROUNDS)"
| "owes _ = False"

definition ag_ok :: "nat set \<Rightarrow> nat \<Rightarrow> notify_agent \<Rightarrow> bool" where
  "ag_ok T a ag \<longleftrightarrow> (holds_reg (ag_pc ag) = None \<or> holds_reg (ag_pc ag) = Some (ag_fRegistered ag))
     \<and> (ag_fBlock ag \<longrightarrow> a \<in> T) \<and> (ag_fRegistered ag \<or> ag_pc ag = W_Register \<longrightarrow> ag_fBlock ag \<and> a < GJ_MAX_THREADS)
     \<and> (ag_pc ag = W_Cas \<longrightarrow> ag_u64Got ag = ag_u64Pend ag AND ag_u64Mask ag \<and> ag_u64Got ag \<noteq> 0)
     \<and> (\<forall>b. ag_pc ag = P_Or b \<longrightarrow> b \<noteq> 0)"

text \<open>A parked thread whose condition came true after it last looked.\<close>

definition overdue :: "nat \<Rightarrow> notify_sys \<Rightarrow> nat \<Rightarrow> bool" where
  "overdue n s t \<longleftrightarrow> nt_parked n (st_threads s) t \<and>
     (let pc = ag_pc (ns_ag s t)
      in pc \<in> {W_ReReady, W_ReState, W_Sched} \<and> nt_u64Pending (st_notify s n) AND ag_u64Mask (ns_ag s t) \<noteq> 0
         \<or> pc \<in> {W_ReState, W_Sched} \<and> nt_u32Ready (st_notify s n) = 0
         \<or> pc = W_Sched \<and> hdr_u32State (st_objs s n) \<noteq> GJ_OBJ_LIVE)"

definition registered_on :: "notify_sys \<Rightarrow> nat set" where
  "registered_on s = {a. ag_fRegistered (ns_ag s a)}"

definition park_ok :: "nat \<Rightarrow> notify_sys \<Rightarrow> bool" where
  "park_ok n s \<longleftrightarrow> (\<forall>t < GJ_MAX_THREADS. nt_parked n (st_threads s) t \<longrightarrow>
     th_u32BlockTag (st_threads s ! t) = NOTIFY_TAG_WAITER \<and> may_park (ag_pc (ns_ag s t)))"

text \<open>At most eight threads block on the notification.\<close>

definition few :: "nat set \<Rightarrow> bool" where
  "few T \<longleftrightarrow> finite T \<and> card T \<le> 8"

definition notify_inv :: "nat set \<Rightarrow> nat \<Rightarrow> notify_sys \<Rightarrow> bool" where
  "notify_inv T n s \<longleftrightarrow> length (st_threads s) = GJ_MAX_THREADS \<and> (\<forall>a. ag_ok T a (ns_ag s a))
     \<and> unat (nt_u32Waiters (st_notify s n)) = card (registered_on s) \<and> park_ok n s
     \<and> (few T \<longrightarrow> (\<forall>t < GJ_MAX_THREADS. overdue n s t \<longrightarrow> (\<exists>a. owes (ag_pc (ns_ag s a)))))"

lemma may_park_reg: "may_park pc \<Longrightarrow> holds_reg pc = Some True"
  by (cases pc) auto

lemma inv_lost:
  "notify_inv T n s \<Longrightarrow> few T \<Longrightarrow> t < GJ_MAX_THREADS \<Longrightarrow> overdue n s t \<Longrightarrow> \<exists>b. owes (ag_pc (ns_ag s b))"
  by (simp add: notify_inv_def)

lemma inv_regs:
  assumes "notify_inv T n s"
  shows "finite (registered_on s)" and "card (registered_on s) \<le> GJ_MAX_THREADS"
    and "few T \<Longrightarrow> card (registered_on s) \<le> 8"
proof -
  have R: "registered_on s \<subseteq> T" "registered_on s \<subseteq> {..<GJ_MAX_THREADS}"
    using assms by (auto simp: notify_inv_def ag_ok_def registered_on_def)
  show "finite (registered_on s)" "card (registered_on s) \<le> GJ_MAX_THREADS"
    using finite_subset [OF R(2)] card_mono [OF _ R(2)] by simp_all
  show "card (registered_on s) \<le> 8" if "few T" using that card_mono [OF _ R(1)] by (auto simp: few_def)
qed

lemma nt_inv_parked:
  assumes "notify_inv T n s" and "nt_parked n (st_threads s) t" and "t < GJ_MAX_THREADS"
  shows "t \<in> registered_on s" and "may_park (ag_pc (ns_ag s t))" and "0 < nt_u32Waiters (st_notify s n)"
proof -
  show m: "may_park (ag_pc (ns_ag s t))" using assms by (simp add: notify_inv_def park_ok_def)
  have "ag_ok T t (ns_ag s t)" using assms(1) by (simp add: notify_inv_def)
  then show r: "t \<in> registered_on s" using may_park_reg [OF m] by (simp add: ag_ok_def registered_on_def)
  show "0 < nt_u32Waiters (st_notify s n)"
    using assms(1) r card_gt_0_iff [of "registered_on s"] inv_regs(1) [OF assms(1)] by (auto simp: notify_inv_def word_less_nat_alt)
qed

lemma none_parked:
  assumes "notify_inv T n s" and "nt_u32Waiters (st_notify s n) = 0" and "t < GJ_MAX_THREADS"
  shows "\<not> nt_parked n (st_threads s) t"
  using nt_inv_parked(3) [OF assms(1) _ assms(3)] assms(2) by auto

text \<open>A multi-wake leaves nobody parked.\<close>

lemma multi_wake_clears:
  assumes inv: "notify_inv T n s" and "few T" and t: "t < GJ_MAX_THREADS"
  shows "\<not> nt_parked n (snd (thread_wake (Obj_Other n) NOTIFY_TAG_WAITER 8 (st_threads s))) t"
proof
  let ?w = "snd (thread_wake (Obj_Other n) NOTIFY_TAG_WAITER 8 (st_threads s))"
  have len: "length (st_threads s) = GJ_MAX_THREADS" using inv by (simp add: notify_inv_def)
  have "{i. i < GJ_MAX_THREADS \<and> wakes (Obj_Other n) NOTIFY_TAG_WAITER (st_threads s ! i)} \<subseteq> registered_on s"
    using nt_inv_parked(1) [OF inv] by (auto simp: wakes_def nt_parked_def)
  from card_mono [OF _ this] inv_regs(1) [OF inv] inv_regs(3) [OF inv assms(2)]
  have c: "card {i. i < GJ_MAX_THREADS \<and> wakes (Obj_Other n) NOTIFY_TAG_WAITER (st_threads s ! i)} \<le> unat (8 :: u32)" by simp
  assume p: "nt_parked n ?w t"
  then have e: "?w ! t = st_threads s ! t"
    using thread_wake_entry [OF len, of "Obj_Other n" NOTIFY_TAG_WAITER 8 t] by (auto simp: nt_parked_def woken_def)
  then have "wakes (Obj_Other n) NOTIFY_TAG_WAITER (?w ! t)"
    using p inv t by (auto simp: nt_parked_def wakes_def notify_inv_def park_ok_def)
  with thread_wake_all [OF len c t] show False by simp
qed

section \<open>Steps\<close>

lemmas nt_simps = goto_def upd_ag_def upd_notify_def

text \<open>Caller \<open>a\<close> moves and keeps its registration; nobody new is parked.\<close>

lemma inv_base:
  assumes inv: "notify_inv T n s" and ag: "ns_ag u = (ns_ag s)(a := ag')" "ag_ok T a ag'"
    and reg: "ag_fRegistered ag' = ag_fRegistered (ns_ag s a)"
    and w: "nt_u32Waiters (st_notify u n) = nt_u32Waiters (st_notify s n)"
    and len: "length (st_threads u) = GJ_MAX_THREADS"
    and thr: "\<And>t. t < GJ_MAX_THREADS \<Longrightarrow> nt_parked n (st_threads u) t \<Longrightarrow>
      nt_parked n (st_threads s) t \<and> th_u32BlockTag (st_threads u ! t) = th_u32BlockTag (st_threads s ! t)"
    and self: "nt_parked n (st_threads u) a \<Longrightarrow> a < GJ_MAX_THREADS \<Longrightarrow> may_park (ag_pc ag')"
    and lost: "\<And>t. few T \<Longrightarrow> t < GJ_MAX_THREADS \<Longrightarrow> overdue n u t \<Longrightarrow> \<exists>b. owes (ag_pc (ns_ag u b))"
  shows "notify_inv T n u"
proof -
  have "registered_on u = registered_on s" by (auto simp: registered_on_def ag(1) reg)
  moreover have "park_ok n u"
    using inv thr self by (auto simp: notify_inv_def park_ok_def ag(1))
  ultimately show ?thesis using inv ag(2) w len lost by (auto simp: notify_inv_def ag(1))
qed

text \<open>A move that changes nothing the parked threads wait for, except that bits may go.\<close>

lemma inv_move:
  assumes inv: "notify_inv T n s" and ag: "ns_ag u = (ns_ag s)(a := ag')" "ag_ok T a ag'"
    and reg: "ag_fRegistered ag' = ag_fRegistered (ns_ag s a)"
    and n: "nt_u32Waiters (st_notify u n) = nt_u32Waiters (st_notify s n)"
      "nt_u32Ready (st_notify u n) = nt_u32Ready (st_notify s n)"
      "\<And>x. nt_u64Pending (st_notify s n) AND x = 0 \<Longrightarrow> nt_u64Pending (st_notify u n) AND x = 0"
      "hdr_u32State (st_objs u n) = hdr_u32State (st_objs s n)"
    and thr: "st_threads u = st_threads s"
    and self: "nt_parked n (st_threads s) a \<Longrightarrow> may_park (ag_pc (ns_ag s a)) \<Longrightarrow>
      may_park (ag_pc ag') \<and> (overdue n u a \<longrightarrow> overdue n s a)"
    and win: "owes (ag_pc (ns_ag s a)) \<Longrightarrow> owes (ag_pc ag') \<or> (\<forall>t < GJ_MAX_THREADS. \<not> nt_parked n (st_threads s) t)"
  shows "notify_inv T n u"
proof (rule inv_base [OF inv ag reg n(1)])
  have len: "length (st_threads s) = GJ_MAX_THREADS" using inv by (simp add: notify_inv_def)
  then show "length (st_threads u) = GJ_MAX_THREADS" by (simp add: thr)
  show "may_park (ag_pc ag')" if "nt_parked n (st_threads u) a" "a < GJ_MAX_THREADS"
    using self nt_inv_parked(2) [OF inv, of a] that by (simp add: thr)
  fix t assume few: "few T" and t: "t < GJ_MAX_THREADS" and o: "overdue n u t"
  have p: "nt_parked n (st_threads s) t" using o by (simp add: overdue_def thr)
  have "overdue n s t"
  proof (cases "t = a")
    case True
    with self p o nt_inv_parked(2) [OF inv p t] show ?thesis by simp
  next
    case False
    with o show ?thesis using n(3) by (auto simp: overdue_def Let_def thr ag(1) n(2,4))
  qed
  then obtain b where b: "owes (ag_pc (ns_ag s b))" using inv_lost [OF inv few t] by blast
  show "\<exists>b. owes (ag_pc (ns_ag u b))"
  proof (cases "b = a")
    case True
    then show ?thesis using win b p t by (intro exI [of _ a]) (auto simp: ag(1))
  next
    case False
    then show ?thesis using b by (intro exI [of _ b]) (simp add: ag(1))
  qed
qed (simp_all add: thr)

text \<open>A move that makes the caller owe a wake.\<close>

lemma inv_owe:
  assumes inv: "notify_inv T n s" and ag: "ns_ag u = (ns_ag s)(a := ag')" "ag_ok T a ag'"
    and reg: "ag_fRegistered ag' = ag_fRegistered (ns_ag s a)"
    and n: "nt_u32Waiters (st_notify u n) = nt_u32Waiters (st_notify s n)"
    and thr: "st_threads u = st_threads s" and pc: "\<not> may_park (ag_pc (ns_ag s a))" "owes (ag_pc ag')"
  shows "notify_inv T n u"
proof (rule inv_base [OF inv ag reg n])
  show "length (st_threads u) = GJ_MAX_THREADS" using inv by (simp add: notify_inv_def thr)
  show "may_park (ag_pc ag')" if "nt_parked n (st_threads u) a" "a < GJ_MAX_THREADS"
    using nt_inv_parked(2) [OF inv, of a] that pc(1) by (simp add: thr)
  show "\<exists>b. owes (ag_pc (ns_ag u b))" using pc(2) by (intro exI [of _ a]) (simp add: ag(1))
qed (simp_all add: thr)

text \<open>A move after which nobody is parked any more, if there are few waiters.\<close>

lemma inv_clear:
  assumes inv: "notify_inv T n s" and ag: "ns_ag u = (ns_ag s)(a := ag')" "ag_ok T a ag'"
    and reg: "ag_fRegistered ag' = ag_fRegistered (ns_ag s a)"
    and n: "nt_u32Waiters (st_notify u n) = nt_u32Waiters (st_notify s n)"
    and len: "length (st_threads u) = GJ_MAX_THREADS"
    and thr: "\<And>t. t < GJ_MAX_THREADS \<Longrightarrow> nt_parked n (st_threads u) t \<Longrightarrow>
      nt_parked n (st_threads s) t \<and> th_u32BlockTag (st_threads u ! t) = th_u32BlockTag (st_threads s ! t)"
    and self: "may_park (ag_pc (ns_ag s a)) \<Longrightarrow> may_park (ag_pc ag')"
    and clear: "\<And>t. few T \<Longrightarrow> t < GJ_MAX_THREADS \<Longrightarrow> \<not> nt_parked n (st_threads u) t"
  shows "notify_inv T n u"
proof (rule inv_base [OF inv ag reg n len thr])
  show "may_park (ag_pc ag')" if "nt_parked n (st_threads u) a" "a < GJ_MAX_THREADS"
    using self nt_inv_parked(2) [OF inv] thr that by blast
qed (use clear in \<open>auto simp: overdue_def\<close>)

text \<open>Registration and its return.\<close>

lemma inv_register:
  assumes inv: "notify_inv T n s" and ag: "ns_ag u = (ns_ag s)(a := ag')" "ag_ok T a ag'"
    and reg: "ag_fRegistered ag' \<noteq> ag_fRegistered (ns_ag s a)"
    and n: "nt_u32Waiters (st_notify u n) =
        (if ag_fRegistered ag' then nt_u32Waiters (st_notify s n) + 1 else nt_u32Waiters (st_notify s n) - 1)"
      "nt_u32Ready (st_notify u n) = nt_u32Ready (st_notify s n)"
      "nt_u64Pending (st_notify u n) = nt_u64Pending (st_notify s n)" "st_objs u = st_objs s"
    and thr: "st_threads u = st_threads s"
    and pc: "\<not> may_park (ag_pc (ns_ag s a))" "\<not> owes (ag_pc (ns_ag s a))"
  shows "notify_inv T n u"
proof -
  note r = inv_regs [OF inv]
  have np: "\<not> nt_parked n (st_threads s) a" if "a < GJ_MAX_THREADS" using nt_inv_parked(2) [OF inv _ that] pc(1) by blast
  have cnt: "unat (nt_u32Waiters (st_notify s n)) = card (registered_on s)" using inv by (simp add: notify_inv_def)
  have "unat (nt_u32Waiters (st_notify u n)) = card (registered_on u)"
  proof (cases "ag_fRegistered ag'")
    case True
    then have u: "registered_on u = insert a (registered_on s)" and a: "a \<notin> registered_on s"
      using reg by (auto simp: registered_on_def ag(1))
    have "unat (nt_u32Waiters (st_notify s n) + 1) = unat (nt_u32Waiters (st_notify s n)) + 1"
      using cnt r(2) by (simp add: unat_word_ariths)
    with True a r(1) cnt show ?thesis by (simp add: u n(1))
  next
    case False
    then have u: "registered_on u = registered_on s - {a}" and a: "a \<in> registered_on s"
      using reg by (auto simp: registered_on_def ag(1))
    then have "0 < card (registered_on s)" using r(1) card_gt_0_iff by blast
    then have "0 < nt_u32Waiters (st_notify s n)" using cnt by (simp add: word_less_nat_alt)
    with False a r(1) cnt show ?thesis by (simp add: u n(1) unat_dec)
  qed
  moreover have "park_ok n u" using inv np by (auto simp: notify_inv_def park_ok_def ag(1) thr)
  moreover have "\<exists>b. owes (ag_pc (ns_ag u b))" if few: "few T" and t: "t < GJ_MAX_THREADS" and o: "overdue n u t" for t
  proof -
    have "t \<noteq> a" using o np t by (auto simp: overdue_def thr)
    then have "overdue n s t" using o by (simp add: overdue_def Let_def ag(1) n thr)
    then obtain b where b: "owes (ag_pc (ns_ag s b))" using inv_lost [OF inv few t] by blast
    then show ?thesis using pc(2) by (intro exI [of _ b]) (auto simp: ag(1))
  qed
  ultimately show ?thesis using inv ag(2) by (auto simp: notify_inv_def ag(1) thr)
qed

lemma inv_ag: "notify_inv T n s \<Longrightarrow> ag_ok T a (ns_ag s a)"
  by (simp add: notify_inv_def)

lemma multi_wake_eq:
  "notify_soft_multi_wake (Some n) s =
    (fst (thread_wake (Obj_Other n) 1 8 (st_threads s)), s\<lparr>st_threads := snd (thread_wake (Obj_Other n) 1 8 (st_threads s))\<rparr>)"
  by (simp add: notify_soft_multi_wake_def notify_soft_multi_wake_n_def split: prod.split)

text \<open>A plain jump of a caller that is not parked and owes nothing.\<close>

lemma inv_goto:
  assumes "notify_inv T n s" and "ag_ok T a ((ns_ag s a)\<lparr>ag_pc := pc\<rparr>)"
    and "\<not> may_park (ag_pc (ns_ag s a))" and "owes (ag_pc (ns_ag s a)) \<Longrightarrow> owes pc"
  shows "notify_inv T n (goto a pc s)"
  by (rule inv_move [OF assms(1), of _ a "(ns_ag s a)\<lparr>ag_pc := pc\<rparr>"]) (use assms in \<open>auto simp: nt_simps\<close>)

lemma inv_leave:
  assumes "notify_inv T n s" and "holds_reg (ag_pc (ns_ag s a)) = None"
  shows "notify_inv T n (leave a v s)"
  unfolding leave_def
  by (rule inv_goto [OF assms(1)])
    (use inv_ag [OF assms(1), of a] assms(2) in \<open>auto simp: ag_ok_def elim: may_park.elims owes.elims\<close>)

lemma unhint_fields [simp]:
  "nt_u32Ready (st_notify (unhint n a s) n) = nt_u32Ready (st_notify s n)"
  "nt_u64Pending (st_notify (unhint n a s) n) = nt_u64Pending (st_notify s n)"
  "nt_u32Waiters (st_notify (unhint n a s) n) = nt_u32Waiters (st_notify s n)"
  "st_objs (unhint n a s) = st_objs s" "st_threads (unhint n a s) = st_threads s" "ns_ag (unhint n a s) = ns_ag s"
  by (simp_all add: unhint_def upd_notify_def)

lemma inv_hint:
  assumes "notify_inv T n s" and "st_threads u = st_threads s" and "ns_ag u = ns_ag s" and "st_objs u = st_objs s"
    and "nt_u32Ready (st_notify u n) = nt_u32Ready (st_notify s n)"
      "nt_u64Pending (st_notify u n) = nt_u64Pending (st_notify s n)"
      "nt_u32Waiters (st_notify u n) = nt_u32Waiters (st_notify s n)"
  shows "notify_inv T n u"
  using assms by (simp add: notify_inv_def park_ok_def overdue_def registered_on_def)

lemma inv_block:
  assumes inv: "notify_inv T n s" and pc: "ag_pc (ns_ag s a) = W_Block"
  shows "notify_inv T n (wait_step n a s)" (is "notify_inv T n ?u")
proof -
  have r: "ag_fRegistered (ns_ag s a)" "a < GJ_MAX_THREADS" and len: "length (st_threads s) = GJ_MAX_THREADS"
    using inv_ag [OF inv, of a] inv pc by (auto simp: ag_ok_def notify_inv_def)
  have u: "ns_ag ?u = (ns_ag s)(a := (ns_ag s a)\<lparr>ag_pc := W_Recheck\<rparr>)" "st_notify ?u = st_notify s" "st_objs ?u = st_objs s"
    "st_threads ?u = (st_threads s)[a := (st_threads s ! a)\<lparr>th_pBlockObj := Some (Obj_Other n),
      th_u32BlockTag := 1, th_u32State := GJ_THR_BLOCKED\<rparr>]"
    using r(2) by (simp_all add: wait_step_def pc nt_simps pCur_of_def thread_block_def)
  have "\<exists>b. owes (ag_pc (ns_ag ?u b))" if few: "few T" and t: "t < GJ_MAX_THREADS" and o: "overdue n ?u t" for t
  proof -
    have "t \<noteq> a" using o by (auto simp: overdue_def u(1))
    then have "overdue n s t" using o by (simp add: overdue_def u nt_parked_def)
    then obtain b where b: "owes (ag_pc (ns_ag s b))" using inv_lost [OF inv few t] by blast
    then show ?thesis using pc by (intro exI [of _ b]) (auto simp: u(1))
  qed
  moreover have "park_ok n ?u" using inv len by (auto simp: notify_inv_def park_ok_def u nt_parked_def nth_list_update)
  moreover have "registered_on ?u = registered_on s" by (auto simp: registered_on_def u(1))
  moreover have "ag_ok T a ((ns_ag s a)\<lparr>ag_pc := W_Recheck\<rparr>)" using inv_ag [OF inv, of a] r by (simp add: ag_ok_def)
  ultimately show ?thesis using inv len by (simp add: notify_inv_def u)
qed

lemma inv_sched:
  assumes inv: "notify_inv T n s" and pc: "ag_pc (ns_ag s a) = W_Sched"
    and run: "th_u32State (st_threads s ! a) \<noteq> GJ_THR_BLOCKED"
  shows "notify_inv T n (wait_step n a s)" (is "notify_inv T n ?u")
proof -
  have a: "a < GJ_MAX_THREADS" and len: "length (st_threads s) = GJ_MAX_THREADS" and ok: "ag_ok T a (ns_ag s a)"
    using inv_ag [OF inv, of a] inv pc by (auto simp: ag_ok_def notify_inv_def)
  have u: "ns_ag ?u = (ns_ag s)(a := (ns_ag s a)\<lparr>ag_pc := W_Unhint\<rparr>)" "st_notify ?u = st_notify s" "st_objs ?u = st_objs s"
    "st_threads ?u = (st_threads s)[a := (st_threads s ! a)\<lparr>th_u32State := GJ_THR_RUNNING\<rparr>]"
    by (simp_all add: wait_step_def pc nt_simps)
  have p: "nt_parked n (st_threads ?u) t \<longleftrightarrow> t \<noteq> a \<and> nt_parked n (st_threads s) t" if "t < GJ_MAX_THREADS" for t
    using that run len by (cases "t = a") (auto simp: u(4) nt_parked_def)
  show ?thesis
  proof (rule inv_base [OF inv u(1)])
    show "\<exists>b. owes (ag_pc (ns_ag ?u b))" if few: "few T" and t: "t < GJ_MAX_THREADS" and o: "overdue n ?u t" for t
    proof -
      have "t \<noteq> a" "nt_parked n (st_threads s) t" using o p [OF t] by (auto simp: overdue_def)
      then have "overdue n s t" using o by (simp add: overdue_def u(1-3))
      then obtain b where b: "owes (ag_pc (ns_ag s b))" using inv_lost [OF inv few t] by blast
      then show ?thesis using pc by (intro exI [of _ b]) (auto simp: u(1))
    qed
  qed (use ok pc p len a in \<open>auto simp: ag_ok_def u nth_list_update\<close>)
qed

text \<open>A caller wakes up to eight threads.\<close>

lemma wake_parked:
  assumes "length (st_threads s) = GJ_MAX_THREADS" and "nt_parked n (snd (thread_wake (Obj_Other n) 1 k (st_threads s))) t"
  shows "snd (thread_wake (Obj_Other n) 1 k (st_threads s)) ! t = st_threads s ! t" and "nt_parked n (st_threads s) t"
  using thread_wake_entry [OF assms(1), of "Obj_Other n" 1 k t] assms(2) by (auto simp: nt_parked_def woken_def)

lemma inv_wake:
  assumes inv: "notify_inv T n s" and ok: "ag_ok T a ((ns_ag s a)\<lparr>ag_pc := pc\<rparr>)"
    and self: "may_park (ag_pc (ns_ag s a)) \<Longrightarrow> may_park pc"
  shows "notify_inv T n (goto a pc (snd (notify_soft_multi_wake (Some n) s)))"
proof -
  have len: "length (st_threads s) = GJ_MAX_THREADS" using inv by (simp add: notify_inv_def)
  show ?thesis
    by (rule inv_clear [OF inv, of _ a "(ns_ag s a)\<lparr>ag_pc := pc\<rparr>"])
      (use ok self len multi_wake_clears [OF inv] wake_parked [OF len] in \<open>auto simp: multi_wake_eq nt_simps\<close>)
qed

lemma wait_step_inv:
  assumes inv: "notify_inv T n s"
    and run: "\<not> (ag_pc (ns_ag s a) = W_Sched \<and> th_u32State (st_threads s ! a) = GJ_THR_BLOCKED)"
  shows "notify_inv T n (wait_step n a s)"
proof -
  note ok = inv_ag [OF inv, of a]
  show ?thesis
  proof (cases "ag_pc (ns_ag s a)")
    case W_Enter
    then show ?thesis using inv ok by (auto simp: wait_step_def ag_ok_def intro!: inv_goto)
  next
    case W_EnterSt
    let ?ag = "(ns_ag s a)\<lparr>ag_pc := W_Loop, ag_u64Mask := if ag_u64Mask (ns_ag s a) = 0 then NOT 0 else ag_u64Mask (ns_ag s a)\<rparr>"
    have "notify_inv T n (s\<lparr>ns_ag := (ns_ag s)(a := ?ag)\<rparr>)"
      by (rule inv_move [OF inv, of _ a ?ag]) (use ok W_EnterSt in \<open>auto simp: ag_ok_def\<close>)
    moreover have "notify_inv T n (goto a (W_Ret 0) s)"
      by (rule inv_goto [OF inv]) (use ok W_EnterSt in \<open>auto simp: ag_ok_def\<close>)
    ultimately show ?thesis using W_EnterSt by (simp add: wait_step_def upd_ag_def)
  next
    case W_Loop
    then show ?thesis using inv ok by (auto simp: wait_step_def ag_ok_def intro!: inv_goto inv_leave)
  next
    case W_LoopSt
    then show ?thesis using inv ok by (auto simp: wait_step_def ag_ok_def intro!: inv_goto inv_leave)
  next
    case W_Load
    let ?p = "nt_u64Pending (st_notify s n)"
    let ?u = "upd_ag a (\<lambda>ag. ag\<lparr>ag_u64Pend := ?p, ag_u64Got := ?p AND ag_u64Mask (ns_ag s a)\<rparr>) s"
    have u: "notify_inv T n ?u"
      by (rule inv_move [OF inv, of _ a "(ns_ag s a)\<lparr>ag_u64Pend := ?p, ag_u64Got := ?p AND ag_u64Mask (ns_ag s a)\<rparr>"])
        (use ok W_Load in \<open>auto simp: ag_ok_def upd_ag_def\<close>)
    have pc: "ag_pc (ns_ag ?u a) = W_Load" using W_Load by (simp add: upd_ag_def)
    have "notify_inv T n (leave a 0 ?u)" by (rule inv_leave [OF u]) (simp add: pc)
    moreover have "notify_inv T n (goto a pc' ?u)" if "ag_ok T a ((ns_ag ?u a)\<lparr>ag_pc := pc'\<rparr>)" for pc'
      by (rule inv_goto [OF u that]) (simp_all add: pc)
    ultimately show ?thesis using W_Load ok
      by (auto simp: wait_step_def Let_def ag_ok_def upd_ag_def pCur_of_def split: if_splits)
  next
    case W_Cas
    let ?u = "upd_notify n (\<lambda>p. p\<lparr>nt_u64Pending := ag_u64Pend (ns_ag s a) AND NOT (ag_u64Got (ns_ag s a))\<rparr>) s"
    have sub: "(x AND NOT y) AND z = 0" if "x AND z = 0" for x y z :: u64
      using that by (metis and.commute and.left_commute and_zero_eq)
    have u: "notify_inv T n ?u" if "nt_u64Pending (st_notify s n) = ag_u64Pend (ns_ag s a)"
      by (rule inv_move [OF inv, of _ a "ns_ag s a"])
        (use ok that sub W_Cas in \<open>auto simp: upd_notify_def\<close>)
    have "ag_pc (ns_ag ?u a) = W_Cas" using W_Cas by (simp add: upd_notify_def)
    then have "notify_inv T n (leave a v ?u)" if "nt_u64Pending (st_notify s n) = ag_u64Pend (ns_ag s a)" for v
      by (intro inv_leave [OF u [OF that]]) simp
    moreover have "notify_inv T n (goto a W_Loop s)"
      by (rule inv_goto [OF inv]) (use ok W_Cas in \<open>auto simp: ag_ok_def\<close>)
    ultimately show ?thesis using W_Cas by (simp add: wait_step_def Let_def)
  next
    case (W_Drop v)
    then show ?thesis
      by (simp add: wait_step_def) (rule inv_goto; use inv ok in \<open>auto simp: ag_ok_def intro: inv_hint\<close>)
  next
    case (W_Dec v)
    show ?thesis
      by (rule inv_register [OF inv, of _ a "(ns_ag s a)\<lparr>ag_pc := W_Ret v, ag_fRegistered := False\<rparr>"])
        (use W_Dec ok in \<open>auto simp: wait_step_def nt_simps ag_ok_def\<close>)
  next
    case W_Register
    show ?thesis
      by (rule inv_register [OF inv, of _ a "(ns_ag s a)\<lparr>ag_pc := W_Hint, ag_fRegistered := True\<rparr>"])
        (use W_Register ok in \<open>auto simp: wait_step_def nt_simps ag_ok_def\<close>)
  next
    case W_Hint
    then show ?thesis
      by (simp add: wait_step_def) (rule inv_goto; use inv ok in \<open>auto simp: ag_ok_def upd_notify_def intro: inv_hint\<close>)
  next
    case W_Unhint
    then show ?thesis
      by (simp add: wait_step_def) (rule inv_goto; use inv ok in \<open>auto simp: ag_ok_def intro: inv_hint\<close>)
  next
    case W_Block
    then show ?thesis by (rule inv_block [OF inv])
  next
    case W_Recheck
    show ?thesis
      by (rule inv_move [OF inv, of _ a "(ns_ag s a)\<lparr>ag_pc := if nt_u64Pending (st_notify s n) AND ag_u64Mask (ns_ag s a) \<noteq> 0 then W_Self else W_ReReady\<rparr>"])
        (use W_Recheck ok in \<open>auto simp: wait_step_def Let_def nt_simps ag_ok_def overdue_def\<close>)
  next
    case W_ReReady
    show ?thesis
      by (rule inv_move [OF inv, of _ a "(ns_ag s a)\<lparr>ag_pc := if nt_u32Ready (st_notify s n) = 0 then W_Self else W_ReState\<rparr>"])
        (use W_ReReady ok in \<open>auto simp: wait_step_def Let_def nt_simps ag_ok_def overdue_def\<close>)
  next
    case W_ReState
    show ?thesis
      by (rule inv_move [OF inv, of _ a "(ns_ag s a)\<lparr>ag_pc := if hdr_u32State (st_objs s n) \<noteq> GJ_OBJ_LIVE then W_Self else W_Sched\<rparr>"])
        (use W_ReState ok in \<open>auto simp: wait_step_def Let_def nt_simps ag_ok_def overdue_def\<close>)
  next
    case W_Self
    then show ?thesis using ok by (auto simp: wait_step_def ag_ok_def intro!: inv_wake [OF inv])
  next
    case W_Sched
    then show ?thesis using run by (intro inv_sched [OF inv]) auto
  qed (simp_all add: wait_step_def inv)
qed

text \<open>The count of an empty registration set sends a caller home.\<close>

lemma inv_home:
  assumes inv: "notify_inv T n s" and ok: "ag_ok T a ((ns_ag s a)\<lparr>ag_pc := pc\<rparr>)"
    and w: "nt_u32Waiters (st_notify s n) = 0" and self: "\<not> may_park (ag_pc (ns_ag s a))"
  shows "notify_inv T n (goto a pc s)"
  by (rule inv_clear [OF inv, of _ a "(ns_ag s a)\<lparr>ag_pc := pc\<rparr>"])
    (use inv ok self none_parked [OF inv w] in \<open>auto simp: nt_simps notify_inv_def\<close>)

lemma inv_stats:
  assumes inv: "notify_inv T n s" and "\<And>p. nt_u32Ready (f p) = nt_u32Ready p" "\<And>p. nt_u64Pending (f p) = nt_u64Pending p"
    "\<And>p. nt_u32Waiters (f p) = nt_u32Waiters p"
  shows "notify_inv T n (upd_notify n f s)"
  by (rule inv_hint [OF inv]) (use assms in \<open>simp_all add: upd_notify_def\<close>)

lemma pulse_step_inv:
  assumes inv: "notify_inv T n s"
  shows "notify_inv T n (pulse_step n a s)"
proof -
  note ok = inv_ag [OF inv, of a]
  show ?thesis
  proof (cases "ag_pc (ns_ag s a)")
    case (P_Ready b)
    then show ?thesis using inv ok by (auto simp: pulse_step_def ag_ok_def intro!: inv_goto)
  next
    case (P_State b)
    then show ?thesis using inv ok by (auto simp: pulse_step_def ag_ok_def intro!: inv_goto)
  next
    case (P_Or b)
    show ?thesis
      by (rule inv_owe [OF inv, of _ a "(ns_ag s a)\<lparr>ag_pc := P_Last b\<rparr>"])
        (use P_Or ok in \<open>auto simp: pulse_step_def nt_simps ag_ok_def\<close>)
  next
    case (P_Last b)
    then show ?thesis
      by (simp add: pulse_step_def) (rule inv_goto; use inv ok in \<open>auto simp: ag_ok_def upd_notify_def intro!: inv_stats [unfolded upd_notify_def]\<close>)
  next
    case P_Count
    then show ?thesis
      by (simp add: pulse_step_def) (rule inv_goto; use inv ok in \<open>auto simp: ag_ok_def upd_notify_def intro!: inv_stats [unfolded upd_notify_def]\<close>)
  next
    case P_Hint
    then show ?thesis using inv ok by (auto simp: pulse_step_def ag_ok_def intro!: inv_goto)
  next
    case P_Waiters
    have "notify_inv T n (goto a P_Wake s)"
      by (rule inv_goto [OF inv]) (use P_Waiters ok in \<open>auto simp: ag_ok_def\<close>)
    moreover have "notify_inv T n (goto a Idle s)" if "nt_u32Waiters (st_notify s n) = 0"
      by (rule inv_home [OF inv _ that]) (use P_Waiters ok in \<open>auto simp: ag_ok_def\<close>)
    ultimately show ?thesis using P_Waiters by (auto simp: pulse_step_def word_greater_zero_iff)
  next
    case P_Wake
    then show ?thesis using ok by (auto simp: pulse_step_def ag_ok_def intro!: inv_wake [OF inv])
  qed (simp_all add: pulse_step_def inv)
qed

lemma revoke_begin_fields:
  "st_notify (snd (gj_obj_revoke_begin p s)) = st_notify s" "st_threads (snd (gj_obj_revoke_begin p s)) = st_threads s"
  "ns_ag (snd (gj_obj_revoke_begin p s)) = ns_ag s"
  by (simp_all add: gj_obj_revoke_begin_def revoke_q_push_def upd_obj_def Let_def split: option.split)

lemma dead_step_inv:
  assumes inv: "notify_inv T n s"
  shows "notify_inv T n (dead_step n a s)"
proof -
  note ok = inv_ag [OF inv, of a]
  show ?thesis
  proof (cases "ag_pc (ns_ag s a)")
    case D_Ready
    show ?thesis
      by (rule inv_owe [OF inv, of _ a "(ns_ag s a)\<lparr>ag_pc := D_State\<rparr>"])
        (use D_Ready ok in \<open>auto simp: dead_step_def nt_simps ag_ok_def\<close>)
  next
    case D_State
    then show ?thesis using inv ok by (auto simp: dead_step_def ag_ok_def intro!: inv_goto)
  next
    case D_Revoke
    show ?thesis
      by (rule inv_owe [OF inv, of _ a "(ns_ag s a)\<lparr>ag_pc := D_Abort\<rparr>"])
        (use D_Revoke ok in \<open>auto simp: dead_step_def nt_simps ag_ok_def revoke_begin_fields\<close>)
  next
    case D_Force
    show ?thesis
      by (rule inv_owe [OF inv, of _ a "(ns_ag s a)\<lparr>ag_pc := D_Abort\<rparr>"])
        (use D_Force ok in \<open>auto simp: dead_step_def nt_simps ag_ok_def upd_obj_def\<close>)
  next
    case D_Abort
    then show ?thesis using inv ok by (auto simp: dead_step_def ag_ok_def intro!: inv_goto)
  next
    case D_AbortCnt
    have "notify_inv T n (goto a (D_Has 4) s)"
      by (rule inv_goto [OF inv]) (use D_AbortCnt ok in \<open>auto simp: ag_ok_def\<close>)
    moreover have "notify_inv T n (goto a Idle s)" if "nt_u32Waiters (st_notify s n) = 0"
      by (rule inv_home [OF inv _ that]) (use D_AbortCnt ok in \<open>auto simp: ag_ok_def\<close>)
    ultimately show ?thesis using D_AbortCnt by (auto simp: dead_step_def word_greater_zero_iff)
  next
    case (D_Has k)
    then show ?thesis using inv ok by (auto simp: dead_step_def ag_ok_def intro!: inv_goto)
  next
    case (D_HasCnt k)
    have "notify_inv T n (goto a (D_Wake k) s)"
      by (rule inv_goto [OF inv]) (use D_HasCnt ok in \<open>auto simp: ag_ok_def\<close>)
    moreover have "notify_inv T n (goto a Idle s)" if "nt_u32Waiters (st_notify s n) = 0"
      by (rule inv_home [OF inv _ that]) (use D_HasCnt ok in \<open>auto simp: ag_ok_def\<close>)
    ultimately show ?thesis using D_HasCnt by (auto simp: dead_step_def word_greater_zero_iff)
  next
    case (D_Wake k)
    have "notify_inv T n (goto a pc (snd (notify_soft_multi_wake (Some n) s)))" if "pc = Idle \<or> (\<exists>j. pc = D_Has j)" for pc
      by (rule inv_wake [OF inv]) (use D_Wake ok that in \<open>auto simp: ag_ok_def\<close>)
    with D_Wake show ?thesis by (auto simp: dead_step_def split: prod.split)
  qed (simp_all add: dead_step_def inv)
qed

text \<open>Waking some threads, and anything the rest of the kernel does.\<close>

lemma inv_threads:
  assumes inv: "notify_inv T n s" and ag: "ns_ag u = ns_ag s" and n: "\<exists>x. st_notify u n = (st_notify s n)\<lparr>nt_pWaiter := x\<rparr>"
    and st: "hdr_u32State (st_objs u n) = hdr_u32State (st_objs s n)" and len: "length (st_threads u) = length (st_threads s)"
    and thr: "\<And>t. t < GJ_MAX_THREADS \<Longrightarrow> nt_parked n (st_threads u) t \<Longrightarrow>
      nt_parked n (st_threads s) t \<and> st_threads u ! t = st_threads s ! t"
  shows "notify_inv T n u"
proof -
  from n obtain x where x: "st_notify u n = (st_notify s n)\<lparr>nt_pWaiter := x\<rparr>" by blast
  have "overdue n s t" if "t < GJ_MAX_THREADS" "overdue n u t" for t
    using that thr [OF that(1)] by (simp add: overdue_def ag st x)
  moreover have "park_ok n u" using inv thr by (simp add: notify_inv_def park_ok_def ag)
  ultimately show ?thesis using inv len by (auto simp: notify_inv_def ag x registered_on_def)
qed

lemma notify_wake_eq:
  "snd (notify_wake (Some n) m s) = (if notify_has_waiter s (Some n)
     then s\<lparr>st_threads := snd (thread_wake (Obj_Other n) 1 (if m = 0 then 8 else m) (st_threads s))\<rparr> else s)"
  by (simp add: notify_wake_def notify_soft_multi_wake_n_def Let_def split: prod.split)

lemma notify_step_inv:
  assumes "notify_step T n es s u" and inv: "notify_inv T n s"
  shows "notify_inv T n u"
  using assms(1)
proof cases
  case (Wait_Call a f m)
  show ?thesis
    by (rule inv_move [OF inv, of _ a "(ns_ag s a)\<lparr>ag_pc := W_Enter, ag_u64Mask := m, ag_fBlock := f, ag_fRegistered := False\<rparr>"])
      (use Wait_Call inv_ag [OF inv, of a] in \<open>auto simp: wait_call_def upd_ag_def ag_ok_def returned_def\<close>)
next
  case (Pulse_Call a b)
  then show ?thesis using inv inv_ag [OF inv, of a] by (auto simp: ag_ok_def returned_def intro!: inv_goto)
next
  case (Dead_Call a)
  then show ?thesis using inv inv_ag [OF inv, of a] by (auto simp: ag_ok_def returned_def intro!: inv_goto)
next
  case (Kick m)
  have len: "length (st_threads s) = GJ_MAX_THREADS" using inv by (simp add: notify_inv_def)
  show ?thesis unfolding Kick notify_wake_eq
    by (cases "notify_has_waiter s (Some n)")
      (auto intro!: inv_threads [OF inv] exI [of _ "nt_pWaiter (st_notify s n)"] dest: wake_parked [OF len] simp: inv)
next
  case Env
  then show ?thesis by (intro inv_threads [OF inv]) (auto simp: notify_env_def split: if_splits)
qed (use inv wait_step_inv pulse_step_inv dead_step_inv in blast)+

lemma notify_boot_inv: "notify_boot n s \<Longrightarrow> notify_inv T n s"
  unfolding notify_boot_def
  by (auto simp: notify_inv_def ag_ok_def registered_on_def park_ok_def overdue_def notify_init_def upd_notify_def
      gj_obj_hdr_init_def upd_obj_def)

interpretation notify: inv_system "\<lambda>s u. \<exists>es. notify_step T n es s u" "notify_inv T n" "notify_boot n" for T n
  by unfold_locales (auto intro: notify_step_inv notify_boot_inv)

section \<open>Badges\<close>

text \<open>The notification seen as one atomic register of bits: posting adds bits, taking removes bits that
  are there.\<close>

fun badge_run :: "u64 \<Rightarrow> badge_ev list \<Rightarrow> u64 option" where
  "badge_run p [] = Some p"
| "badge_run p (Posted b # es) = badge_run (p OR b) es"
| "badge_run p (Took a g # es) = (if g \<noteq> 0 \<and> g AND p = g then badge_run (p AND NOT g) es else None)"
| "badge_run p (Gave a v # es) = badge_run p es"

fun posts :: "nat \<Rightarrow> badge_ev \<Rightarrow> bool" where
  "posts k (Posted b) = bit b k"
| "posts k _ = False"

fun takes :: "nat \<Rightarrow> badge_ev \<Rightarrow> bool" where
  "takes k (Took a g) = bit g k"
| "takes k _ = False"

lemma badge_run_append: "badge_run p (es @ fs) = Option.bind (badge_run p es) (\<lambda>q. badge_run q fs)"
  by (induction p es rule: badge_run.induct) simp_all

text \<open>A bit is taken at most as often as it was posted.\<close>

lemma badge_run_counts:
  "badge_run p es = Some q \<Longrightarrow>
    length (filter (takes k) es) + of_bool (bit q k) \<le> length (filter (posts k) es) + of_bool (bit p k)"
proof (induction p es rule: badge_run.induct)
  case (2 p b es)
  then show ?case by (auto simp: bit_simps of_bool_def split: if_splits)
next
  case (3 p a g es)
  have "bit g k \<Longrightarrow> bit p k" using 3(2) by (metis badge_run.simps(3) bit_and_iff option.distinct(1))
  then show ?case using 3 by (auto simp: bit_simps of_bool_def split: if_splits)
qed simp_all

text \<open>The values caller \<open>a\<close> took off the register, and the non-zero values its waits returned, in order.\<close>

fun bits_taken :: "nat \<Rightarrow> badge_ev list \<Rightarrow> u64 list" where
  "bits_taken a [] = []"
| "bits_taken a (e # es) = (case e of Took b v \<Rightarrow> if b = a then [v] else [] | _ \<Rightarrow> []) @ bits_taken a es"

fun bits_given :: "nat \<Rightarrow> badge_ev list \<Rightarrow> u64 list" where
  "bits_given a [] = []"
| "bits_given a (e # es) = (case e of Gave b v \<Rightarrow> if b = a \<and> v \<noteq> 0 then [v] else [] | _ \<Rightarrow> []) @ bits_given a es"

lemma bits_append [simp]:
  "bits_taken a (es @ fs) = bits_taken a es @ bits_taken a fs" "bits_given a (es @ fs) = bits_given a es @ bits_given a fs"
  by (induction es) simp_all

text \<open>The value a caller holds between its compare-and-exchange and its return.\<close>

definition holding :: "notify_pc \<Rightarrow> u64 list" where
  "holding pc = (case pc of W_Drop v \<Rightarrow> if v \<noteq> 0 then [v] else [] | W_Dec v \<Rightarrow> if v \<noteq> 0 then [v] else [] | _ \<Rightarrow> [])"

definition cas_ok :: "badge_ev list \<Rightarrow> nat \<Rightarrow> notify_agent \<Rightarrow> bool" where
  "cas_ok es a ag \<longleftrightarrow> (ag_pc ag = W_Cas \<longrightarrow> ag_u64Got ag = ag_u64Pend ag AND ag_u64Mask ag \<and> ag_u64Got ag \<noteq> 0)
     \<and> bits_taken a es = bits_given a es @ holding (ag_pc ag)
     \<and> (\<forall>v. ag_pc ag \<in> {W_Drop v, W_Dec v, W_Ret v} \<longrightarrow> v AND ag_u64Mask ag = v)"

lemma cas_ok_mono: "cas_ok es a ag \<Longrightarrow> bits_taken a fs = [] \<Longrightarrow> bits_given a fs = [] \<Longrightarrow> cas_ok (es @ fs) a ag"
  by (auto simp: cas_ok_def)

text \<open>What a caller did before it left the other programs, or starts a wait.\<close>

lemma cas_ok_outside:
  assumes "cas_ok es a ag" and "holding (ag_pc ag) = []" and "is_pulse (ag_pc ag') \<or> is_dead (ag_pc ag') \<or> ag_pc ag' \<in> {Idle, W_Enter}"
  shows "cas_ok es a ag'"
proof -
  have "holding (ag_pc ag') = []" using assms(3) by (cases "ag_pc ag'") (auto simp: holding_def)
  then show ?thesis using assms by (auto simp: cas_ok_def)
qed

lemma holding_outside: "returned pc \<or> is_pulse pc \<or> is_dead pc \<Longrightarrow> holding pc = []"
  by (cases pc) (auto simp: holding_def returned_def)

lemma wait_step_ag: "b \<noteq> a \<Longrightarrow> ns_ag (wait_step n a s) b = ns_ag s b"
  by (simp add: wait_step_def nt_simps leave_def Let_def multi_wake_eq split: notify_pc.split)

lemma wait_step_pending:
  "nt_u64Pending (st_notify (wait_step n a s) n) =
    (if ag_pc (ns_ag s a) = W_Cas \<and> nt_u64Pending (st_notify s n) = ag_u64Pend (ns_ag s a)
     then ag_u64Pend (ns_ag s a) AND NOT (ag_u64Got (ns_ag s a)) else nt_u64Pending (st_notify s n))"
  by (simp add: wait_step_def nt_simps leave_def Let_def multi_wake_eq unhint_def split: notify_pc.split)

lemma wait_step_cas:
  assumes "cas_ok es a (ns_ag s a)" and "is_wait (ag_pc (ns_ag s a))"
  shows "cas_ok (es @ wait_events n a s) a (ns_ag (wait_step n a s) a)"
  using assms
  by (cases "ag_pc (ns_ag s a)")
    (auto simp: cas_ok_def is_wait_def returned_def wait_events_def wait_step_def nt_simps leave_def Let_def badge_events_def holding_def multi_wake_eq
      unhint_def ac_simps)

lemma wait_events_other:
  "b \<noteq> a \<Longrightarrow> bits_taken a (wait_events n b s) = []" "b \<noteq> a \<Longrightarrow> bits_given a (wait_events n b s) = []"
  "bits_taken a (badge_events n b s) = (if is_pulse (ag_pc (ns_ag s b)) then [] else bits_taken a (badge_events n b s))" "bits_given a (badge_events n b s) = []"
  by (auto simp: wait_events_def badge_events_def split: notify_pc.split)

lemma pulse_step_badge:
  "nt_u64Pending (st_notify (pulse_step n a s) n) =
    (case ag_pc (ns_ag s a) of P_Or b \<Rightarrow> nt_u64Pending (st_notify s n) OR b | _ \<Rightarrow> nt_u64Pending (st_notify s n))"
  "b \<noteq> a \<Longrightarrow> ns_ag (pulse_step n a s) b = ns_ag s b"
  by (simp_all add: pulse_step_def nt_simps Let_def multi_wake_eq split: notify_pc.split)

lemma dead_step_badge:
  "nt_u64Pending (st_notify (dead_step n a s) n) = nt_u64Pending (st_notify s n)"
  "b \<noteq> a \<Longrightarrow> ns_ag (dead_step n a s) b = ns_ag s b"
  by (simp_all add: dead_step_def nt_simps Let_def multi_wake_eq revoke_begin_fields upd_obj_def split: notify_pc.split)

lemma step_stays:
  "is_pulse (ag_pc (ns_ag s a)) \<Longrightarrow> is_pulse (ag_pc (ns_ag (pulse_step n a s) a)) \<or> ag_pc (ns_ag (pulse_step n a s) a) = Idle"
  "is_dead (ag_pc (ns_ag s a)) \<Longrightarrow> is_dead (ag_pc (ns_ag (dead_step n a s) a)) \<or> ag_pc (ns_ag (dead_step n a s) a) = Idle"
  by (cases "ag_pc (ns_ag s a)"; auto simp: pulse_step_def nt_simps Let_def multi_wake_eq)
    (cases "ag_pc (ns_ag s a)"; auto simp: dead_step_def nt_simps Let_def multi_wake_eq revoke_begin_fields upd_obj_def)

lemma badge_step:
  assumes "notify_step T n fs s u" and cas: "\<And>a. cas_ok es a (ns_ag s a)"
  shows "badge_run (nt_u64Pending (st_notify s n)) fs = Some (nt_u64Pending (st_notify u n))"
    and "cas_ok (es @ fs) a (ns_ag u a)"
proof -
  have "badge_run (nt_u64Pending (st_notify s n)) fs = Some (nt_u64Pending (st_notify u n)) \<and> cas_ok (es @ fs) a (ns_ag u a)"
    using assms(1)
  proof cases
    case (Wait_Call b f m)
    then show ?thesis using cas [of a] cas_ok_outside [OF cas [of b]] holding_outside by (auto simp: wait_call_def upd_ag_def)
  next
    case (Pulse_Call b c)
    then show ?thesis using cas [of a] cas_ok_outside [OF cas [of b]] holding_outside by (auto simp: nt_simps)
  next
    case (Dead_Call b)
    then show ?thesis using cas [of a] cas_ok_outside [OF cas [of b]] holding_outside by (auto simp: nt_simps)
  next
    case (Wait b)
    have g: "ag_u64Got (ns_ag s b) = ag_u64Pend (ns_ag s b) AND ag_u64Mask (ns_ag s b)" "ag_u64Got (ns_ag s b) \<noteq> 0"
      if "ag_pc (ns_ag s b) = W_Cas" using cas [of b] that unfolding cas_ok_def by blast+
    have "badge_run (nt_u64Pending (st_notify s n)) fs = Some (nt_u64Pending (st_notify u n))"
    proof (cases "ag_pc (ns_ag s b) = W_Cas")
      case True
      with g show ?thesis unfolding Wait(1,2) wait_step_pending by (simp add: wait_events_def badge_events_def ac_simps split: notify_pc.split)
    next
      case False
      then have "badge_run p fs = Some p" for p using Wait(1,4) by (auto simp: wait_events_def badge_events_def is_wait_def split: notify_pc.split)
      with False show ?thesis unfolding Wait(2) wait_step_pending by simp
    qed
    moreover have "cas_ok (es @ fs) a (ns_ag u a)"
      using wait_step_cas [OF cas [of b] Wait(4), of n] wait_step_ag [of a b n s] cas_ok_mono [OF cas [of a], of fs] wait_events_other(1,2) [of b a n s] Wait
      by (cases "a = b") auto
    ultimately show ?thesis ..
  next
    case (Pulse b)
    have "badge_run (nt_u64Pending (st_notify s n)) fs = Some (nt_u64Pending (st_notify u n))"
      using Pulse by (auto simp: pulse_step_badge badge_events_def split: notify_pc.split)
    moreover have "cas_ok (es @ fs) a (ns_ag u a)"
    proof -
      have e: "bits_taken a fs = []" "bits_given a fs = []" using Pulse(1,3) wait_events_other(3,4) [of a n b s] by simp_all
      note c = cas_ok_mono [OF cas [of a] e]
      show ?thesis
      proof (cases "a = b")
        case True
        then show ?thesis using cas_ok_outside [OF c, of "ns_ag u a"] holding_outside [of "ag_pc (ns_ag s a)"] step_stays(1) [OF Pulse(3), of n] Pulse(2,3) by blast
      next
        case False
        then show ?thesis using pulse_step_badge(2) [of a b n s] c Pulse(2) by simp
      qed
    qed
    ultimately show ?thesis ..
  next
    case (Dead b)
    then show ?thesis
      using step_stays(2) [OF Dead(3)] dead_step_badge(2) [of a b n s] cas [of a]
        holding_outside [of "ag_pc (ns_ag s a)"] by (cases "a = b") (auto simp: dead_step_badge(1) intro: cas_ok_outside [OF cas])
  next
    case (Kick m)
    then show ?thesis using cas [of a] by (simp add: notify_wake_eq)
  next
    case Env
    then show ?thesis using cas [of a] by (auto simp: notify_env_def)
  qed
  then show "badge_run (nt_u64Pending (st_notify s n)) fs = Some (nt_u64Pending (st_notify u n))"
    "cas_ok (es @ fs) a (ns_ag u a)" by auto
qed

lemma trace_badges:
  "notify_trace T n es s \<Longrightarrow> badge_run 0 es = Some (nt_u64Pending (st_notify s n)) \<and> (\<forall>a. cas_ok es a (ns_ag s a))"
proof (induction rule: notify_trace.induct)
  case (Boot s)
  then show ?case
    by (auto simp: notify_boot_def notify_init_def upd_notify_def gj_obj_hdr_init_def upd_obj_def cas_ok_def holding_def)
next
  case (Go es s fs u)
  then show ?case using badge_step [OF Go.hyps(2), of es] by (simp add: badge_run_append)
qed

end
