(* ===== verification/Notify_Props.thy ===== *)
theory Notify_Props
  imports Notify_Inv Cap_Revoke_Props
begin

text \<open>
  What notifications promise, and where the promise ends: the handlers are the atomic programs run
  alone, no wake-up is lost with up to eight waiters, one is lost with nine, badges form one atomic
  register, and teardown leaves nobody asleep.
\<close>

text \<open>The accesses of \<^verbatim>\<open>notify_wait\<close> one by one.\<close>

lemma wait_eqs:
  "ag_pc (ns_ag s a) = W_Enter \<Longrightarrow> wait_step n a s =
     (if nt_u32Ready (st_notify s n) = 0 then goto a (W_Ret 0) s else goto a W_EnterSt s)"
  "ag_pc (ns_ag s a) = W_EnterSt \<Longrightarrow> wait_step n a s =
     (if hdr_u32State (st_objs s n) \<noteq> GJ_OBJ_LIVE then goto a (W_Ret 0) s
      else upd_ag a (\<lambda>ag. ag\<lparr>ag_pc := W_Loop, ag_u64Mask := (if ag_u64Mask ag = 0 then NOT 0 else ag_u64Mask ag)\<rparr>) s)"
  "ag_pc (ns_ag s a) = W_Loop \<Longrightarrow> wait_step n a s =
     (if nt_u32Ready (st_notify s n) = 0 then leave a 0 s else goto a W_LoopSt s)"
  "ag_pc (ns_ag s a) = W_LoopSt \<Longrightarrow> wait_step n a s =
     (if hdr_u32State (st_objs s n) \<noteq> GJ_OBJ_LIVE then leave a 0 s else goto a W_Load s)"
  "ag_pc (ns_ag s a) = W_Load \<Longrightarrow> wait_step n a s =
     (let u64Got = nt_u64Pending (st_notify s n) AND ag_u64Mask (ns_ag s a);
          t = upd_ag a (\<lambda>ag. ag\<lparr>ag_u64Pend := nt_u64Pending (st_notify s n), ag_u64Got := u64Got\<rparr>) s
      in if u64Got \<noteq> 0 then goto a W_Cas t
         else if \<not> ag_fBlock (ns_ag s a) \<or> pCur_of a = None then leave a 0 t
         else if \<not> ag_fRegistered (ns_ag s a) then goto a W_Register t
         else goto a W_Hint t)"
  "ag_pc (ns_ag s a) = W_Cas \<Longrightarrow> wait_step n a s =
     (if nt_u64Pending (st_notify s n) = ag_u64Pend (ns_ag s a)
      then leave a (ag_u64Got (ns_ag s a))
        (upd_notify n (\<lambda>p. p\<lparr>nt_u64Pending := ag_u64Pend (ns_ag s a) AND NOT (ag_u64Got (ns_ag s a))\<rparr>) s)
      else goto a W_Loop s)"
  "ag_pc (ns_ag s a) = W_Drop v \<Longrightarrow> wait_step n a s =
     (goto a (W_Dec v) (unhint n a s))"
  "ag_pc (ns_ag s a) = W_Dec v \<Longrightarrow> wait_step n a s =
     (upd_ag a (\<lambda>ag. ag\<lparr>ag_pc := W_Ret v, ag_fRegistered := False\<rparr>)
        (upd_notify n (\<lambda>p. p\<lparr>nt_u32Waiters := nt_u32Waiters p - 1\<rparr>) s))"
  "ag_pc (ns_ag s a) = W_Register \<Longrightarrow> wait_step n a s =
     (upd_ag a (\<lambda>ag. ag\<lparr>ag_pc := W_Hint, ag_fRegistered := True\<rparr>)
        (upd_notify n (\<lambda>p. p\<lparr>nt_u32Waiters := nt_u32Waiters p + 1\<rparr>) s))"
  "ag_pc (ns_ag s a) = W_Hint \<Longrightarrow> wait_step n a s =
     (goto a W_Block (upd_notify n (\<lambda>p. p\<lparr>nt_pWaiter := pCur_of a\<rparr>) s))"
  "ag_pc (ns_ag s a) = W_Block \<Longrightarrow> wait_step n a s =
     (goto a W_Recheck
        (s\<lparr>st_threads := thread_block (pCur_of a) (Obj_Other n) NOTIFY_TAG_WAITER (st_threads s)\<rparr>))"
  "ag_pc (ns_ag s a) = W_Recheck \<Longrightarrow> wait_step n a s =
     (goto a (if nt_u64Pending (st_notify s n) AND ag_u64Mask (ns_ag s a) \<noteq> 0 then W_Self else W_ReReady) s)"
  "ag_pc (ns_ag s a) = W_ReReady \<Longrightarrow> wait_step n a s =
     (goto a (if nt_u32Ready (st_notify s n) = 0 then W_Self else W_ReState) s)"
  "ag_pc (ns_ag s a) = W_ReState \<Longrightarrow> wait_step n a s =
     (goto a (if hdr_u32State (st_objs s n) \<noteq> GJ_OBJ_LIVE then W_Self else W_Sched) s)"
  "ag_pc (ns_ag s a) = W_Self \<Longrightarrow> wait_step n a s =
     (goto a W_Sched (snd (notify_soft_multi_wake (Some n) s)))"
  "ag_pc (ns_ag s a) = W_Sched \<Longrightarrow> wait_step n a s =
     (goto a W_Unhint
        (s\<lparr>st_threads := (st_threads s)[a := (st_threads s ! a)\<lparr>th_u32State := GJ_THR_RUNNING\<rparr>]\<rparr>))"
  "ag_pc (ns_ag s a) = W_Unhint \<Longrightarrow> wait_step n a s =
     (goto a W_Loop (unhint n a s))"
  by (simp_all add: wait_step_def Let_def)

section \<open>Nine waiters\<close>

text \<open>Threads 0 to 7 wait for bit 0, thread 8 for bit 8, on the notification at 5.\<close>

definition wmask :: "nat \<Rightarrow> u64" where "wmask a = (if a = 8 then 256 else 1)"

definition asleep :: "notify_sys \<Rightarrow> nat \<Rightarrow> bool" where
  "asleep s b \<longleftrightarrow> nt_parked 5 (st_threads s) b \<and> th_u32BlockTag (st_threads s ! b) = 1 \<and> ag_pc (ns_ag s b) = W_Sched
     \<and> ag_u64Mask (ns_ag s b) = wmask b \<and> ag_fBlock (ns_ag s b) \<and> ag_fRegistered (ns_ag s b)"

definition at :: "notify_sys \<Rightarrow> nat \<Rightarrow> notify_pc \<Rightarrow> bool \<Rightarrow> bool" where
  "at s b pc r \<longleftrightarrow> th_u32State (st_threads s ! b) \<noteq> GJ_THR_BLOCKED \<and> ag_pc (ns_ag s b) = pc
     \<and> ag_u64Mask (ns_ag s b) = wmask b \<and> ag_fBlock (ns_ag s b) \<and> ag_fRegistered (ns_ag s b) = r"

text \<open>A reachable state with \<open>p\<close> pending and the threads of \<open>A\<close> asleep.\<close>

definition scene :: "nat set \<Rightarrow> u64 \<Rightarrow> nat set \<Rightarrow> notify_sys \<Rightarrow> bool" where
  "scene T p A s \<longleftrightarrow> notify_reach T 5 s \<and> nt_u32Ready (st_notify s 5) \<noteq> 0 \<and> hdr_u32State (st_objs s 5) = GJ_OBJ_LIVE
     \<and> nt_u64Pending (st_notify s 5) = p \<and> length (st_threads s) = GJ_MAX_THREADS \<and> (\<forall>b \<in> A. asleep s b)
     \<and> (\<forall>b > 8. ag_pc (ns_ag s b) = Idle)"

text \<open>One access of thread \<open>a\<close>; nobody else is touched.\<close>

definition same_but :: "nat \<Rightarrow> notify_sys \<Rightarrow> notify_sys \<Rightarrow> bool" where
  "same_but a s u \<longleftrightarrow> (\<forall>b. b \<noteq> a \<longrightarrow> ns_ag u b = ns_ag s b \<and> st_threads u ! b = st_threads s ! b)"

lemma same_but_trans: "same_but a s t \<Longrightarrow> same_but a t u \<Longrightarrow> same_but a s u"
  by (simp add: same_but_def)

lemma same_but_keeps:
  assumes "same_but a s u" and "b \<noteq> a"
  shows "asleep u b = asleep s b" and "at u b pc r = at s b pc r" and "ag_pc (ns_ag u b) = ag_pc (ns_ag s b)"
    and "st_threads u ! b = st_threads s ! b"
  using assms by (simp_all add: same_but_def asleep_def at_def nt_parked_def)

lemma scene_step:
  assumes "scene T p A s" and "a \<notin> A \<and> a \<le> 8" and "same_but a s u" and "notify_step T 5 es s u"
    and "nt_u32Ready (st_notify u 5) = nt_u32Ready (st_notify s 5)" and "st_objs u = st_objs s"
    and "nt_u64Pending (st_notify u 5) = nt_u64Pending (st_notify s 5)" and "length (st_threads u) = length (st_threads s)"
  shows "scene T p A u"
proof -
  have "notify_reach T 5 u" using assms(1,4) by (auto simp: scene_def intro: reach_step)
  moreover have "asleep u b" if "b \<in> A" for b
    using that assms(1-3) same_but_keeps(1) [OF assms(3), of b] by (auto simp: scene_def)
  moreover have "ag_pc (ns_ag u b) = Idle" if "8 < b" for b
    using that assms(1,2) same_but_keeps(3) [OF assms(3), of b] by (auto simp: scene_def)
  ultimately show ?thesis using assms by (simp add: scene_def)
qed

lemma park_step:
  assumes sc: "scene T p A s" and a: "a \<notin> A" "a \<le> 8" and at: "at s a pc r" and p: "p AND wmask a = 0"
    and nx: "(pc, pc', r') \<in> {(W_EnterSt, W_Loop, r), (W_Enter, W_EnterSt, r), (W_Loop, W_LoopSt, r), (W_LoopSt, W_Load, r), (W_Load, (if r then W_Hint else W_Register), r),
      (W_Register, W_Hint, True), (W_Hint, W_Block, r), (W_Sched, W_Unhint, r), (W_Unhint, W_Loop, r)}"
  shows "scene T p A (wait_step 5 a s) \<and> at (wait_step 5 a s) a pc' r' \<and> same_but a s (wait_step 5 a s)"
proof -
  have nz: "wmask a \<noteq> 0" by (simp add: wmask_def)
  have sb: "same_but a s (wait_step 5 a s)"
    using at nx by (auto simp: same_but_def at_def wait_eqs nt_simps leave_def unhint_def Let_def)
  have st: "notify_step T 5 (wait_events 5 a s) s (wait_step 5 a s)"
    by (rule notify_step.Wait) (use at nx in \<open>auto simp: at_def is_wait_def returned_def\<close>)
  have "at (wait_step 5 a s) a pc' r'"
    using at nx sc p a nz
    by (auto simp: at_def scene_def wait_eqs nt_simps leave_def unhint_def Let_def pCur_of_def nth_list_update)
  moreover have "scene T p A (wait_step 5 a s)"
    by (rule scene_step [OF sc _ sb st])
      (use at nx sc p a in \<open>auto simp: at_def scene_def wait_eqs nt_simps leave_def unhint_def Let_def pCur_of_def\<close>)
  ultimately show ?thesis using sb by simp
qed


definition dozing :: "notify_sys \<Rightarrow> nat \<Rightarrow> notify_pc \<Rightarrow> bool" where
  "dozing s b pc \<longleftrightarrow> nt_parked 5 (st_threads s) b \<and> th_u32BlockTag (st_threads s ! b) = 1 \<and> ag_pc (ns_ag s b) = pc
     \<and> ag_u64Mask (ns_ag s b) = wmask b \<and> ag_fBlock (ns_ag s b) \<and> ag_fRegistered (ns_ag s b)"

lemma doze_step:
  assumes sc: "scene T p A s" and a: "a \<notin> A" "a \<le> 8" and p: "p AND wmask a = 0"
    and nx: "pc = W_Block \<and> pc' = W_Recheck \<and> at s a pc True
      \<or> dozing s a pc \<and> (pc, pc') \<in> {(W_Recheck, W_ReReady), (W_ReReady, W_ReState), (W_ReState, W_Sched)}"
  shows "scene T p A (wait_step 5 a s) \<and> dozing (wait_step 5 a s) a pc' \<and> same_but a s (wait_step 5 a s)"
proof -
  have sb: "same_but a s (wait_step 5 a s)"
    using a nx by (auto simp: same_but_def at_def dozing_def wait_eqs nt_simps Let_def thread_block_def pCur_of_def)
  have st: "notify_step T 5 (wait_events 5 a s) s (wait_step 5 a s)"
    by (rule notify_step.Wait) (use nx in \<open>auto simp: at_def dozing_def is_wait_def returned_def\<close>)
  have "dozing (wait_step 5 a s) a pc'"
    using nx sc p a
    by (auto simp: at_def dozing_def scene_def wait_eqs nt_simps Let_def pCur_of_def thread_block_def nt_parked_def)
  moreover have "scene T p A (wait_step 5 a s)"
    by (rule scene_step [OF sc _ sb st])
      (use nx sc p a in \<open>auto simp: at_def dozing_def scene_def wait_eqs nt_simps Let_def pCur_of_def thread_block_def\<close>)
  ultimately show ?thesis using sb by simp
qed

text \<open>From the top of its loop a thread goes to sleep.\<close>

lemma loop_sleeps:
  assumes "scene T p A s" and a: "a \<notin> A" "a \<le> 8" and "at s a W_Loop r" and p: "p AND wmask a = 0"
  shows "\<exists>u. scene T p (insert a A) u \<and> same_but a s u"
proof -
  have hint: "\<exists>u. scene T p A u \<and> at u a W_Hint True \<and> same_but a s u"
  proof -
    note s1 = park_step [OF assms(1) a assms(4) p, of W_LoopSt r, simplified]
    note s2 = park_step [OF s1 [THEN conjunct1] a _ p, OF s1 [THEN conjunct2, THEN conjunct1], of W_Load r, simplified]
    note s3 = park_step [OF s2 [THEN conjunct1] a _ p, OF s2 [THEN conjunct2, THEN conjunct1], of "if r then W_Hint else W_Register" r, simplified]
    show ?thesis
    proof (cases r)
      case True
      with s1 s2 s3 show ?thesis by (auto intro: same_but_trans)
    next
      case False
      with s3 have s3': "scene T p A (wait_step 5 a (wait_step 5 a (wait_step 5 a s)))"
        "at (wait_step 5 a (wait_step 5 a (wait_step 5 a s))) a W_Register False" by simp_all
      from park_step [OF s3'(1) a s3'(2) p, of W_Hint True] s1 s2 s3 show ?thesis by (auto intro: same_but_trans)
    qed
  qed
  then obtain v where v: "scene T p A v" "at v a W_Hint True" "same_but a s v" by blast
  from park_step [OF v(1) a v(2) p, of W_Block True]
  have w: "scene T p A (wait_step 5 a v)" "at (wait_step 5 a v) a W_Block True" "same_but a v (wait_step 5 a v)" by auto
  from doze_step [OF w(1) a p, of W_Block W_Recheck] w(2)
  obtain x where x: "scene T p A x" "dozing x a W_Recheck" "same_but a (wait_step 5 a v) x" by blast
  from doze_step [OF x(1) a p, of W_Recheck W_ReReady] x(2)
  obtain y where y: "scene T p A y" "dozing y a W_ReReady" "same_but a x y" by blast
  from doze_step [OF y(1) a p, of W_ReReady W_ReState] y(2)
  obtain z where z: "scene T p A z" "dozing z a W_ReState" "same_but a y z" by blast
  from doze_step [OF z(1) a p, of W_ReState W_Sched] z(2)
  obtain u where u: "scene T p A u" "dozing u a W_Sched" "same_but a z u" by blast
  have "same_but a s u" using v(3) w(3) x(3) y(3) z(3) u(3) by (meson same_but_trans)
  moreover have "asleep u a" using u(2) by (simp add: asleep_def dozing_def)
  ultimately show ?thesis using u(1) by (auto simp: scene_def)
qed


lemma idle_sleeps:
  assumes sc: "scene T p A s" and a: "a \<notin> A" "a \<le> 8" and T: "a \<in> T" and id: "ag_pc (ns_ag s a) = Idle"
    and run: "th_u32State (st_threads s ! a) \<noteq> GJ_THR_BLOCKED" and p: "p AND wmask a = 0"
  shows "\<exists>u. scene T p (insert a A) u \<and> same_but a s u"
proof -
  let ?c = "wait_call a (wmask a) True s"
  have sb: "same_but a s ?c" by (simp add: same_but_def wait_call_def upd_ag_def)
  have "notify_step T 5 [] s ?c" by (rule Wait_Call) (use id T in \<open>simp_all add: returned_def\<close>)
  from scene_step [OF sc _ sb this] a have c: "scene T p A ?c" by (simp add: wait_call_def upd_ag_def)
  have "at ?c a W_Enter False" using run by (simp add: at_def wait_call_def upd_ag_def)
  from park_step [OF c a this p, of W_EnterSt False]
  obtain v where v: "scene T p A v" "at v a W_EnterSt False" "same_but a ?c v" by auto
  from park_step [OF v(1) a v(2) p, of W_Loop False]
  obtain w where w: "scene T p A w" "at w a W_Loop False" "same_but a v w" by auto
  from loop_sleeps [OF w(1) a w(2) p] sb v(3) w(3) show ?thesis by (meson same_but_trans)
qed

lemma woken_sleeps:
  assumes sc: "scene T p A s" and a: "a \<notin> A" "a \<le> 8" and at: "at s a W_Sched True" and p: "p AND wmask a = 0"
  shows "\<exists>u. scene T p (insert a A) u \<and> same_but a s u"
proof -
  from park_step [OF sc a at p, of W_Unhint True]
  obtain v where v: "scene T p A v" "at v a W_Unhint True" "same_but a s v" by auto
  from park_step [OF v(1) a v(2) p, of W_Loop True]
  obtain w where w: "scene T p A w" "at w a W_Loop True" "same_but a v w" by auto
  from loop_sleeps [OF w(1) a w(2) p] v(3) w(3) show ?thesis by (meson same_but_trans)
qed

text \<open>The threads below \<open>k\<close> go to sleep one after the other.\<close>

lemma all_sleep:
  assumes "scene T p A s" and "A \<inter> {..<k} = {}" and "k \<le> 9" and "{..<k} \<subseteq> T" and "\<And>a. a < k \<Longrightarrow> p AND wmask a = 0"
    and "\<And>a. a < k \<Longrightarrow> at s a W_Sched True \<or> ag_pc (ns_ag s a) = Idle \<and> th_u32State (st_threads s ! a) \<noteq> GJ_THR_BLOCKED"
  shows "\<exists>u. scene T p (A \<union> {..<k}) u"
  using assms
proof (induction k arbitrary: A s)
  case (Suc k)
  have k: "k \<notin> A" "k \<le> 8" "p AND wmask k = 0" and kT: "k \<in> T" using Suc.prems by auto
  from Suc.prems(6) [of k] have "\<exists>v. scene T p (insert k A) v \<and> same_but k s v"
    using idle_sleeps [OF Suc.prems(1) k(1,2) kT _ _ k(3)] woken_sleeps [OF Suc.prems(1) k(1,2) _ k(3)] by blast
  then obtain v where v: "scene T p (insert k A) v" "same_but k s v" by blast
  have "\<exists>u. scene T p (insert k A \<union> {..<k}) u"
    by (rule Suc.IH [OF v(1)]) (use Suc.prems same_but_keeps [OF v(2)] in auto)
  moreover have "insert k A \<union> {..<k} = A \<union> {..<Suc k}" by auto
  ultimately show ?case by simp
qed auto


section \<open>Programs run alone\<close>

lemma goto_fields [simp]:
  "ag_pc (ns_ag (goto a pc s) a) = pc" "st_notify (goto a pc s) = st_notify s" "st_objs (goto a pc s) = st_objs s"
  "st_threads (goto a pc s) = st_threads s" "goto a pc' (goto a pc s) = goto a pc' s"
  by (simp_all add: nt_simps)

lemma pulse_idle: "\<not> is_pulse (ag_pc (ns_ag s a)) \<Longrightarrow> pulse_step n a s = s"
  by (cases "ag_pc (ns_ag s a)") (simp_all add: pulse_step_def)

lemma pulse_reach:
  assumes "notify_reach T n s"
  shows "notify_reach T n ((pulse_step n a ^^ k) s)"
proof (induction k)
  case (Suc k)
  then show ?case
    using notify_step.Pulse [of "(pulse_step n a ^^ k) s" a T n] pulse_idle [of "(pulse_step n a ^^ k) s" a n]
    by (cases "is_pulse (ag_pc (ns_ag ((pulse_step n a ^^ k) s) a))") (auto intro: reach_step)
qed (use assms in simp)

lemma goto_wake: "goto a pc' (snd (notify_soft_multi_wake (Some n) (goto a pc s))) = goto a pc' (snd (notify_soft_multi_wake (Some n) s))"
  by (simp add: multi_wake_eq nt_simps)

lemma goto_upd_notify: "goto a pc' (upd_notify n f (goto a pc s)) = goto a pc' (upd_notify n f s)"
  by (simp add: nt_simps)

lemma pulse_goto:
  "pulse_step n a (goto a Idle s) = goto a Idle s"
  "pulse_step n a (goto a (P_Ready b) s) = goto a (if nt_u32Ready (st_notify s n) = 0 then Idle else P_State b) s"
  "pulse_step n a (goto a (P_State b) s) =
     goto a (if hdr_u32State (st_objs s n) \<noteq> GJ_OBJ_LIVE then Idle else P_Or (if b = 0 then 1 else b)) s"
  "pulse_step n a (goto a (P_Or b) s) = goto a (P_Last b) (upd_notify n (\<lambda>p. p\<lparr>nt_u64Pending := nt_u64Pending p OR b\<rparr>) s)"
  "pulse_step n a (goto a (P_Last b) s) = goto a P_Count (upd_notify n (\<lambda>p. p\<lparr>nt_u64LastBadge := b\<rparr>) s)"
  "pulse_step n a (goto a P_Count s) = goto a P_Hint (upd_notify n (\<lambda>p. p\<lparr>nt_u32Signals := nt_u32Signals p + 1\<rparr>) s)"
  "pulse_step n a (goto a P_Hint s) = goto a (if nt_pWaiter (st_notify s n) \<noteq> None then P_Wake else P_Waiters) s"
  "pulse_step n a (goto a P_Waiters s) = goto a (if 0 < nt_u32Waiters (st_notify s n) then P_Wake else Idle) s"
  "pulse_step n a (goto a P_Wake s) = goto a Idle (snd (notify_soft_multi_wake (Some n) s))"
  by (simp_all add: pulse_step_def goto_wake goto_upd_notify)

lemma upd_notify_fields [simp]:
  "st_notify (upd_notify n f s) n = f (st_notify s n)" "st_objs (upd_notify n f s) = st_objs s"
  "st_threads (upd_notify n f s) = st_threads s"
  by (simp_all add: upd_notify_def)

lemma pulse_alone: "(pulse_step n a ^^ 8) (goto a (P_Ready b) s) = goto a Idle (notify_pulse (Some n) b s)"
proof (cases "nt_u32Ready (st_notify s n) = 0 \<or> hdr_u32State (st_objs s n) \<noteq> GJ_OBJ_LIVE")
  case True
  then show ?thesis by (auto simp: numeral_eq_Suc pulse_goto notify_pulse_def)
next
  case live: False
  show ?thesis
  proof (cases "notify_has_waiter s (Some n)")
    case True
    with live show ?thesis
      by (cases "nt_pWaiter (st_notify s n)") (simp_all add: numeral_eq_Suc pulse_goto notify_pulse_def notify_has_waiter_def Let_def)
  next
    case False
    with live show ?thesis
      by (simp add: numeral_eq_Suc pulse_goto notify_pulse_def notify_has_waiter_def Let_def split: if_split_asm)
  qed
qed


lemma goto_revoke:
  "goto a pc' (snd (gj_obj_revoke_begin (Some n) (goto a pc s))) = goto a pc' (snd (gj_obj_revoke_begin (Some n) s))"
  "goto a pc' (upd_obj n f (goto a pc s)) = goto a pc' (upd_obj n f s)"
  by (simp_all add: gj_obj_revoke_begin_def revoke_q_push_def Let_def nt_simps upd_obj_def split: option.split)

lemma dead_goto:
  "dead_step n a (goto a D_Ready s) = goto a D_State (upd_notify n (\<lambda>p. p\<lparr>nt_u32Ready := 0\<rparr>) s)"
  "dead_step n a (goto a D_State s) = goto a (if hdr_u32State (st_objs s n) = GJ_OBJ_LIVE then D_Revoke else D_Force) s"
  "dead_step n a (goto a D_Revoke s) = goto a D_Abort (snd (gj_obj_revoke_begin (Some n) s))"
  "dead_step n a (goto a D_Force s) = goto a D_Abort (upd_obj n (\<lambda>h. h\<lparr>hdr_u32State := GJ_OBJ_DEAD\<rparr>) s)"
  "dead_step n a (goto a D_Abort s) = goto a (if nt_pWaiter (st_notify s n) \<noteq> None then D_Has 4 else D_AbortCnt) s"
  "dead_step n a (goto a D_AbortCnt s) = goto a (if 0 < nt_u32Waiters (st_notify s n) then D_Has 4 else Idle) s"
  "dead_step n a (goto a (D_Has k) s) =
     goto a (if k = 0 then Idle else if nt_pWaiter (st_notify s n) \<noteq> None then D_Wake k else D_HasCnt k) s"
  "dead_step n a (goto a (D_HasCnt k) s) = goto a (if 0 < nt_u32Waiters (st_notify s n) then D_Wake k else Idle) s"
  "dead_step n a (goto a (D_Wake k) s) =
     goto a (if fst (notify_soft_multi_wake (Some n) s) = 0 then Idle else D_Has (k - 1)) (snd (notify_soft_multi_wake (Some n) s))"
  by (simp_all add: dead_step_def goto_revoke goto_upd_notify) (simp add: multi_wake_eq nt_simps)

lemma run_step: "f x = y \<Longrightarrow> \<exists>k. (f ^^ k) y = z \<Longrightarrow> \<exists>k. (f ^^ k) x = z"
  by (metis funpow_swap1 funpow.simps(2) o_apply)

lemma run_done: "\<exists>k. (f ^^ k) x = x"
  by (rule exI [of _ 0]) simp

lemma drain_alone: "\<exists>k. (dead_step n a ^^ k) (goto a (D_Has j) s) = goto a Idle (snd (drain_loop j (Some n) c s))"
proof (induction j arbitrary: c s)
  case 0
  show ?case by (rule run_step, rule dead_goto(7)) (simp add: run_done)
next
  case (Suc j)
  let ?w = "notify_soft_multi_wake (Some n) s"
  have wake: "\<exists>k. (dead_step n a ^^ k) (goto a (D_Wake (Suc j)) s) = goto a Idle (snd (drain_loop (Suc j) (Some n) c s))"
    if "notify_has_waiter s (Some n)"
    by (rule run_step, rule dead_goto(9))
      (use that Suc.IH [of "snd ?w" "c + fst ?w"] in \<open>auto simp: run_done case_prod_beta\<close>)
  have cnt: "\<exists>k. (dead_step n a ^^ k) (goto a (D_HasCnt (Suc j)) s) = goto a Idle (snd (drain_loop (Suc j) (Some n) c s))"
    if "nt_pWaiter (st_notify s n) = None"
    by (rule run_step, rule dead_goto(8))
      (use that wake in \<open>auto simp: run_done notify_has_waiter_def word_greater_zero_iff simp del: drain_loop.simps(2)\<close>,
       simp add: notify_has_waiter_def run_done)
  show ?case
    by (rule run_step, rule dead_goto(7))
      (use wake cnt in \<open>auto simp: notify_has_waiter_def simp del: drain_loop.simps(2)\<close>)
qed


lemma abort_alone: "\<exists>k. (dead_step n a ^^ k) (goto a D_Abort s) = goto a Idle (notify_abort_waiter (Some n) s)"
proof -
  have has: "\<exists>k. (dead_step n a ^^ k) (goto a (D_Has 4) s) = goto a Idle (notify_abort_waiter (Some n) s)"
    if "notify_has_waiter s (Some n)"
    using drain_alone [of n a 4 s 0] that by (simp add: notify_abort_waiter_def notify_soft_waker_drain_def)
  have cnt: "\<exists>k. (dead_step n a ^^ k) (goto a D_AbortCnt s) = goto a Idle (notify_abort_waiter (Some n) s)"
    if "nt_pWaiter (st_notify s n) = None"
  proof (rule run_step, rule dead_goto(6))
    show "\<exists>k. (dead_step n a ^^ k) (goto a (if 0 < nt_u32Waiters (st_notify s n) then D_Has 4 else Idle) s)
        = goto a Idle (notify_abort_waiter (Some n) s)"
      using has that run_done [of "dead_step n a" "goto a Idle s"]
      by (cases "0 < nt_u32Waiters (st_notify s n)") (simp_all add: notify_has_waiter_def notify_abort_waiter_def)
  qed
  show ?thesis
    by (rule run_step, rule dead_goto(5)) (use has cnt in \<open>auto simp: notify_has_waiter_def\<close>)
qed

lemma dead_alone: "\<exists>k. (dead_step n a ^^ k) (goto a D_Ready s) = goto a Idle (notify_mark_dead (Some n) s)"
proof (rule run_step, rule dead_goto(1), rule run_step, rule dead_goto(2))
  let ?u = "upd_notify n (\<lambda>p. p\<lparr>nt_u32Ready := 0\<rparr>) s"
  have "\<exists>k. (dead_step n a ^^ k) (goto a D_Revoke ?u) = goto a Idle (notify_mark_dead (Some n) s)"
    if "hdr_u32State (st_objs ?u n) = GJ_OBJ_LIVE"
    by (rule run_step, rule dead_goto(3)) (use abort_alone that in \<open>simp add: notify_mark_dead_def\<close>)
  moreover have "\<exists>k. (dead_step n a ^^ k) (goto a D_Force ?u) = goto a Idle (notify_mark_dead (Some n) s)"
    if "hdr_u32State (st_objs ?u n) \<noteq> GJ_OBJ_LIVE"
    by (rule run_step, rule dead_goto(4)) (use abort_alone that in \<open>simp add: notify_mark_dead_def\<close>)
  ultimately show "\<exists>k. (dead_step n a ^^ k) (goto a (if hdr_u32State (st_objs ?u n) = GJ_OBJ_LIVE then D_Revoke else D_Force) ?u) =
      goto a Idle (notify_mark_dead (Some n) s)" by simp
qed

text \<open>A wait that does not block.\<close>

definition poll_result :: "u64 \<Rightarrow> notify_sys \<Rightarrow> nat \<Rightarrow> u64" where
  "poll_result m s n = (if notify_live s (Some n)
     then nt_u64Pending (st_notify s n) AND (if m = 0 then NOT 0 else m) else 0)"

text \<open>Caller \<open>a\<close> polls with mask \<open>k\<close> and has changed nothing yet.\<close>

definition polling :: "nat \<Rightarrow> nat \<Rightarrow> notify_sys \<Rightarrow> notify_pc \<Rightarrow> u64 \<Rightarrow> notify_sys \<Rightarrow> bool" where
  "polling n a s pc k u \<longleftrightarrow> ag_pc (ns_ag u a) = pc \<and> \<not> ag_fRegistered (ns_ag u a) \<and> \<not> ag_fBlock (ns_ag u a)
     \<and> ag_u64Mask (ns_ag u a) = k \<and> st_notify u = st_notify s \<and> st_objs u = st_objs s \<and> st_threads u = st_threads s
     \<and> (\<forall>b. b \<noteq> a \<longrightarrow> ns_ag u b = ns_ag s b)"

lemma polling_goto: "polling n a s pc k u \<Longrightarrow> polling n a s pc' k (goto a pc' u)"
  by (simp add: polling_def nt_simps)

lemma poll_dead:
  assumes "\<not> notify_live s (Some n)"
  shows "\<exists>k. polling n a s (W_Ret 0) m ((wait_step n a ^^ k) (wait_call a m False s))"
proof -
  let ?c = "wait_call a m False s"
  have c: "polling n a s W_Enter m ?c" by (simp add: polling_def wait_call_def upd_ag_def)
  then have pc: "ag_pc (ns_ag ?c a) = W_Enter" "st_notify ?c = st_notify s" "st_objs ?c = st_objs s" by (simp_all add: polling_def)
  consider "nt_u32Ready (st_notify s n) = 0" | "nt_u32Ready (st_notify s n) \<noteq> 0" "hdr_u32State (st_objs s n) \<noteq> GJ_OBJ_LIVE"
    using assms by (auto simp: notify_live_def split: if_splits)
  then show ?thesis
  proof cases
    case 1
    then have "wait_step n a ?c = goto a (W_Ret 0) ?c" by (simp add: wait_eqs(1) [OF pc(1)] pc)
    with polling_goto [OF c] show ?thesis by (intro exI [of _ 1]) simp
  next
    case 2
    then have e: "wait_step n a ?c = goto a W_EnterSt ?c" by (simp add: wait_eqs(1) [OF pc(1)] pc)
    have "wait_step n a (wait_step n a ?c) = goto a (W_Ret 0) ?c" unfolding e by (simp add: wait_eqs(2) pc 2)
    with polling_goto [OF c] show ?thesis by (intro exI [of _ 2]) (simp add: numeral_2_eq_2)
  qed
qed

lemma poll_load:
  assumes live: "notify_live s (Some n)"
  shows "polling n a s W_Load (if m = 0 then NOT 0 else m) ((wait_step n a ^^ 4) (wait_call a m False s))"
proof -
  let ?k = "if m = 0 then NOT 0 else m"
  have l: "nt_u32Ready (st_notify s n) \<noteq> 0" "hdr_u32State (st_objs s n) = GJ_OBJ_LIVE"
    using live by (auto simp: notify_live_def split: if_splits)
  let ?f = "wait_step n a" let ?c = "wait_call a m False s"
  have c: "polling n a s W_Enter m ?c" by (simp add: polling_def wait_call_def upd_ag_def)
  have 1: "polling n a s W_EnterSt m (?f ?c)" using polling_goto [OF c] c l by (simp add: wait_eqs(1) polling_def)
  have 2: "polling n a s W_Loop ?k (?f (?f ?c))" using 1 l unfolding polling_def by (simp add: wait_eqs(2) upd_ag_def)
  have 3: "polling n a s W_LoopSt ?k (?f (?f (?f ?c)))"
    using polling_goto [OF 2, of W_LoopSt] 2 l wait_eqs(3) [of "?f (?f ?c)" a n] by (simp add: polling_def)
  have "polling n a s W_Load ?k (?f (?f (?f (?f ?c))))"
    using polling_goto [OF 3, of W_Load] 3 l wait_eqs(4) [of "?f (?f (?f ?c))" a n] by (simp add: polling_def)
  then show ?thesis by (simp add: numeral_eq_Suc)
qed

lemma poll_alone:
  "\<exists>k. let u = (wait_step n a ^^ k) (wait_call a m False s)
     in ag_pc (ns_ag u a) = W_Ret (poll_result m s n)
       \<and> st_notify u n = (st_notify s n)\<lparr>nt_u64Pending := nt_u64Pending (st_notify s n) AND NOT (poll_result m s n)\<rparr>
       \<and> st_threads u = st_threads s \<and> st_objs u = st_objs s \<and> (\<forall>b. b \<noteq> a \<longrightarrow> ns_ag u b = ns_ag s b)"
proof (cases "notify_live s (Some n)")
  case False
  from poll_dead [OF this, of a m] obtain k where "polling n a s (W_Ret 0) m ((wait_step n a ^^ k) (wait_call a m False s))" ..
  then show ?thesis using False by (intro exI [of _ k]) (simp add: polling_def poll_result_def Let_def)
next
  case True
  let ?f = "wait_step n a" and ?k = "if m = 0 then NOT 0 else m"
  define v where "v = (?f ^^ 4) (wait_call a m False s)"
  have v: "ag_pc (ns_ag v a) = W_Load" "\<not> ag_fRegistered (ns_ag v a)" "\<not> ag_fBlock (ns_ag v a)" "ag_u64Mask (ns_ag v a) = ?k"
    "st_notify v = st_notify s" "st_objs v = st_objs s" "st_threads v = st_threads s" "\<And>b. b \<noteq> a \<Longrightarrow> ns_ag v b = ns_ag s b"
    using poll_load [OF True, of a m] by (simp_all add: polling_def v_def)
  have r: "poll_result m s n = nt_u64Pending (st_notify s n) AND ?k" using True by (simp add: poll_result_def)
  have fs: "(?f ^^ 5) (wait_call a m False s) = ?f v" "(?f ^^ 6) (wait_call a m False s) = ?f (?f v)"
    by (simp_all add: v_def numeral_eq_Suc)
  show ?thesis
  proof (cases "poll_result m s n = 0")
    case True
    then show ?thesis using v r by (intro exI [of _ 5]) (simp add: fs wait_eqs(5) Let_def leave_def nt_simps)
  next
    case False
    let ?w = "?f v"
    have w: "ag_pc (ns_ag ?w a) = W_Cas" "\<not> ag_fRegistered (ns_ag ?w a)" "ag_u64Got (ns_ag ?w a) = poll_result m s n"
      "ag_u64Pend (ns_ag ?w a) = nt_u64Pending (st_notify s n)"
      "st_notify ?w = st_notify s" "st_objs ?w = st_objs s" "st_threads ?w = st_threads s" "\<And>b. b \<noteq> a \<Longrightarrow> ns_ag ?w b = ns_ag s b"
      using v r False by (simp_all add: wait_eqs(5) Let_def nt_simps)
    then show ?thesis
      by (intro exI [of _ 6]) (simp add: fs wait_eqs(6) leave_def nt_simps)
  qed
qed


section \<open>Nine waiters, one pulse\<close>

lemma wake_first_eight:
  assumes "length ts = GJ_MAX_THREADS" and "\<And>i. i < 8 \<Longrightarrow> wakes ob tag (ts ! i)"
  shows "snd (thread_wake ob tag 8 ts) ! 8 = ts ! 8"
    and "i < 8 \<Longrightarrow> snd (thread_wake ob tag 8 ts) ! i = woken (ts ! i)"
proof -
  have "[0..<32] = [0, 1, 2, 3, 4, 5, 6, 7] @ [8..<32 :: nat]" by (simp add: upt_rec)
  then have e: "snd (thread_wake ob tag 8 ts) = foldl (\<lambda>us i. us[i := woken (ts ! i)]) ts [0, 1, 2, 3, 4, 5, 6, 7]"
    using assms(2) by (simp add: thread_wake_def wake_loop_done)
  show "snd (thread_wake ob tag 8 ts) ! 8 = ts ! 8" unfolding e by simp
  assume "i < 8"
  then have "i = 0 \<or> i = 1 \<or> i = 2 \<or> i = 3 \<or> i = 4 \<or> i = 5 \<or> i = 6 \<or> i = 7" by linarith
  then show "snd (thread_wake ob tag 8 ts) ! i = woken (ts ! i)" unfolding e using assms(1) by auto
qed

lemma pulse_eight:
  assumes sc: "scene T 0 {..8} s"
  shows "\<exists>u. scene T 256 {8} u \<and> (\<forall>a < 8. at u a W_Sched True)"
proof -
  have r: "notify_reach T 5 s" and idle: "ag_pc (ns_ag s 40) = Idle" and len: "length (st_threads s) = GJ_MAX_THREADS"
    and sl: "\<And>b. b \<le> 8 \<Longrightarrow> asleep s b" using sc by (auto simp: scene_def)
  let ?q = "notify_pulse (Some 5) 256 s" and ?u = "goto 40 Idle (notify_pulse (Some 5) 256 s)"
  have "notify_reach T 5 (goto 40 (P_Ready 256) s)"
    by (rule reach_step [OF r], rule exI, rule Pulse_Call) (simp add: idle returned_def)
  from pulse_reach [OF this, where a = 40 and k = 8] have ru: "notify_reach T 5 ?u" unfolding pulse_alone .
  have "0 < nt_u32Waiters (st_notify s 5)"
    by (rule nt_inv_parked(3) [OF notify.reach_holds [OF r], of 0]) (use sl [of 0] in \<open>simp_all add: asleep_def\<close>)
  then have q: "st_threads ?q = snd (thread_wake (Obj_Other 5) 1 8 (st_threads s))"
    "nt_u64Pending (st_notify ?q 5) = 256" "nt_u32Ready (st_notify ?q 5) = nt_u32Ready (st_notify s 5)" "st_objs ?q = st_objs s"
    "ns_ag ?q = ns_ag s"
    using sc by (auto simp: scene_def notify_pulse_def notify_has_waiter_def multi_wake_eq Let_def upd_notify_def)
  have w: "wakes (Obj_Other 5) 1 (st_threads s ! i)" if "i < 8" for i
    using sl [of i] that by (simp add: asleep_def wakes_def nt_parked_def)
  note wk = wake_first_eight [OF len w]
  have "at ?u a W_Sched True" if "a < 8" for a
    using wk(2) [OF _ that] sl [of a] that by (simp add: at_def asleep_def q woken_def) (simp add: nt_simps q)
  moreover have "asleep ?u 8" using wk(1) sl [of 8] by (simp add: asleep_def nt_parked_def q) (simp add: nt_simps q)
  moreover have "ag_pc (ns_ag ?u b) = Idle" if "8 < b" for b using that sc by (simp add: nt_simps q scene_def)
  ultimately have "scene T 256 {8} ?u" using ru sc len by (simp add: scene_def q)
  with \<open>\<And>a. a < 8 \<Longrightarrow> at ?u a W_Sched True\<close> show ?thesis by blast
qed


definition wit_sys :: notify_sys where
  "wit_sys = notify_init (Some 5) \<lparr>st_objs = (\<lambda>_. \<lparr>hdr_u32State = GJ_OBJ_DEAD, hdr_u32Gen = 0, hdr_u32Ref = 0,
       hdr_u32Pin = 0, hdr_u32SlotsLeft = 0, hdr_pCdtHead = []\<rparr>),
     st_cnodes = st_cnodes wit_caps, st_quotas = wit_quotas, st_edges = (\<lambda>_. empty_edge),
     g_aCdtUsed = replicate GJ_CDT_EDGE_POOL False, g_u32CdtPoolUsed = 0,
     g_aRevokeQ = replicate GJ_REVOKE_Q_MAX \<lparr>qe_pObj = None, qe_u8Active = 0\<rparr>, g_u32RevokeQLen = 0, g_u32RevokeQCursor = 0,
     st_notify = (\<lambda>_. \<lparr>nt_u32Ready = 0, nt_u32Signals = 0, nt_u64Pending = 0, nt_u64LastBadge = 0, nt_pWaiter = None,
       nt_u32Waiters = 0\<rparr>),
     st_threads = replicate GJ_MAX_THREADS (no_thread\<lparr>th_u32Id := 1, th_u32State := GJ_THR_RUNNING\<rparr>),
     ns_ag = (\<lambda>_. \<lparr>ag_pc = Idle, ag_u64Mask = 0, ag_fBlock = False, ag_fRegistered = False, ag_u64Pend = 0, ag_u64Got = 0\<rparr>)\<rparr>"

lemma wit_sys_boot: "notify_boot 5 wit_sys"
  unfolding notify_boot_def wit_sys_def
  by (rule exI, rule conjI [OF refl]) (simp add: nt_parked_def)

lemma wit_scene: "scene T 0 {} wit_sys"
proof -
  have "notify_reach T 5 wit_sys" by (rule reach_init) (rule wit_sys_boot)
  then show ?thesis
    by (simp add: scene_def) (simp add: wit_sys_def notify_init_def upd_notify_def gj_obj_hdr_init_def upd_obj_def)
qed

lemma wit_idle: "ag_pc (ns_ag wit_sys a) = Idle" "a < 32 \<Longrightarrow> th_u32State (st_threads wit_sys ! a) = GJ_THR_RUNNING"
  by (simp_all add: wit_sys_def notify_init_def upd_notify_def gj_obj_hdr_init_def upd_obj_def)

lemma wit_sleepers: "k \<le> 9 \<Longrightarrow> \<exists>s. scene {..<k} 0 {..<k} s"
  using all_sleep [OF wit_scene, of k "{..<k}"] by (auto simp: wit_idle)

section \<open>Draining\<close>

text \<open>The threads a wake on the notification at \<open>n\<close> would find.\<close>

definition sleepers :: "nat \<Rightarrow> threads \<Rightarrow> nat set" where
  "sleepers n ts = {i. i < GJ_MAX_THREADS \<and> wakes (Obj_Other n) NOTIFY_TAG_WAITER (ts ! i)}"

lemma thread_wake_count:
  assumes "length ts = GJ_MAX_THREADS"
  shows "unat (fst (thread_wake (Obj_Other n) NOTIFY_TAG_WAITER m ts)) = min (unat m) (card (sleepers n ts))"
    and "card (sleepers n (snd (thread_wake (Obj_Other n) NOTIFY_TAG_WAITER m ts))) = card (sleepers n ts) - unat m"
proof -
  have e: "{i \<in> set [0..<GJ_MAX_THREADS]. wakes (Obj_Other n) NOTIFY_TAG_WAITER (us ! i)} = sleepers n us" for us
    by (auto simp: sleepers_def)
  show c: "unat (fst (thread_wake (Obj_Other n) NOTIFY_TAG_WAITER m ts)) = min (unat m) (card (sleepers n ts))"
    using wake_loop_count [of "[0..<GJ_MAX_THREADS]" ts 0 m "Obj_Other n" NOTIFY_TAG_WAITER] assms
    unfolding thread_wake_def e by (simp add: atLeast0LessThan)
  show "card (sleepers n (snd (thread_wake (Obj_Other n) NOTIFY_TAG_WAITER m ts))) = card (sleepers n ts) - unat m"
    using wake_loop_rest [of "[0..<GJ_MAX_THREADS]" ts 0 m "Obj_Other n" NOTIFY_TAG_WAITER] assms c
    unfolding thread_wake_def e by (simp add: atLeast0LessThan)
qed

text \<open>Four rounds of eight empty a table of 32 threads.\<close>

lemma drain_clears:
  assumes "length (st_threads s) = GJ_MAX_THREADS" and "notify_has_waiter s (Some n)" and "card (sleepers n (st_threads s)) \<le> 8 * k"
  shows "sleepers n (st_threads (snd (drain_loop k (Some n) c s))) = {}"
    and "st_notify (snd (drain_loop k (Some n) c s)) = st_notify s" and "st_objs (snd (drain_loop k (Some n) c s)) = st_objs s"
    and "st_threads (snd (drain_loop k (Some n) c s)) ! t \<in> {st_threads s ! t, woken (st_threads s ! t)}"
proof -
  have fin: "finite (sleepers n us)" for us by (simp add: sleepers_def)
  have "sleepers n (st_threads (snd (drain_loop k (Some n) c s))) = {}
      \<and> st_notify (snd (drain_loop k (Some n) c s)) = st_notify s \<and> st_objs (snd (drain_loop k (Some n) c s)) = st_objs s
      \<and> st_threads (snd (drain_loop k (Some n) c s)) ! t \<in> {st_threads s ! t, woken (st_threads s ! t)}"
    using assms
  proof (induction k arbitrary: c s)
    case 0
    then show ?case by (simp add: fin)
  next
    case (Suc k)
    let ?w = "thread_wake (Obj_Other n) 1 8 (st_threads s)"
    note c = thread_wake_count [OF Suc.prems(1), of n 8] and e = thread_wake_entry [OF Suc.prems(1), of "Obj_Other n" 1 8 t]
    show ?case
    proof (cases "fst ?w = 0")
      case True
      then have "sleepers n (st_threads s) = {}" using c(1) fin [of "st_threads s"] by (simp add: min_def split: if_splits)
      then have "sleepers n (snd ?w) = {}" using c(2) fin [of "snd ?w"] by simp
      with True Suc.prems(2) e show ?thesis by (auto simp: multi_wake_eq)
    next
      case False
      let ?u = "s\<lparr>st_threads := snd ?w\<rparr>"
      have "notify_has_waiter ?u (Some n)" using Suc.prems(2) by (simp add: notify_has_waiter_def)
      moreover have "card (sleepers n (snd ?w)) \<le> 8 * k" using c(2) Suc.prems(3) by simp
      ultimately have "sleepers n (st_threads (snd (drain_loop k (Some n) (c + fst ?w) ?u))) = {}
          \<and> st_notify (snd (drain_loop k (Some n) (c + fst ?w) ?u)) = st_notify s
          \<and> st_objs (snd (drain_loop k (Some n) (c + fst ?w) ?u)) = st_objs s
          \<and> st_threads (snd (drain_loop k (Some n) (c + fst ?w) ?u)) ! t \<in> {snd ?w ! t, woken (snd ?w ! t)}"
        using Suc.IH [of ?u "c + fst ?w"] Suc.prems(1) by simp
      moreover have "woken (woken x) = woken x" for x by (simp add: woken_def)
      ultimately show ?thesis using False e Suc.prems(2) by (auto simp: multi_wake_eq)
    qed
  qed
  then show "sleepers n (st_threads (snd (drain_loop k (Some n) c s))) = {}"
    "st_notify (snd (drain_loop k (Some n) c s)) = st_notify s" "st_objs (snd (drain_loop k (Some n) c s)) = st_objs s"
    "st_threads (snd (drain_loop k (Some n) c s)) ! t \<in> {st_threads s ! t, woken (st_threads s ! t)}" by blast+
qed


lemma mark_dead_spec:
  assumes inv: "notify_inv T n s"
  defines "u \<equiv> notify_mark_dead (Some n) s"
  shows "t < GJ_MAX_THREADS \<Longrightarrow> \<not> nt_parked n (st_threads u) t" and "\<not> notify_live u (Some n)"
    and "hdr_u32State (st_objs u n) \<noteq> GJ_OBJ_LIVE" and "st_notify u n = (st_notify s n)\<lparr>nt_u32Ready := 0\<rparr>"
proof -
  let ?a = "upd_notify n (\<lambda>p. p\<lparr>nt_u32Ready := 0\<rparr>) s"
  define b where "b = (if hdr_u32State (st_objs ?a n) = GJ_OBJ_LIVE then snd (gj_obj_revoke_begin (Some n) ?a)
    else upd_obj n (\<lambda>h. h\<lparr>hdr_u32State := GJ_OBJ_DEAD\<rparr>) ?a)"
  have len: "length (st_threads s) = GJ_MAX_THREADS" using inv by (simp add: notify_inv_def)
  have bt: "st_threads b = st_threads s" "st_notify b n = (st_notify s n)\<lparr>nt_u32Ready := 0\<rparr>"
    by (simp_all add: b_def revoke_begin_fields) (simp_all add: upd_obj_def)
  have dead: "hdr_u32State (st_objs b n) \<noteq> GJ_OBJ_LIVE"
    by (simp add: b_def gj_obj_revoke_begin_def revoke_q_push_def Let_def upd_obj_def split: option.split)
  have u: "u = notify_abort_waiter (Some n) b" by (simp add: u_def notify_mark_dead_def b_def Let_def)
  have tag: "nt_parked n (st_threads s) i \<Longrightarrow> i < GJ_MAX_THREADS \<Longrightarrow> i \<in> sleepers n (st_threads s)" for i
    using inv by (simp add: notify_inv_def park_ok_def sleepers_def wakes_def nt_parked_def)
  have "(\<forall>t < GJ_MAX_THREADS. \<not> nt_parked n (st_threads u) t) \<and> st_objs u = st_objs b \<and> st_notify u = st_notify b"
  proof (cases "notify_has_waiter b (Some n)")
    case True
    have "card (sleepers n (st_threads b)) \<le> card {..<32 :: nat}" by (rule card_mono) (auto simp: sleepers_def)
    then have c: "card (sleepers n (st_threads b)) \<le> 8 * 4" by simp
    note d = drain_clears [OF len [folded bt(1)] True c, of 0]
    have e: "u = snd (drain_loop 4 (Some n) 0 b)" using True by (simp add: u notify_abort_waiter_def notify_soft_waker_drain_def)
    have "\<not> nt_parked n (st_threads u) t" if t: "t < GJ_MAX_THREADS" for t
    proof
      assume p: "nt_parked n (st_threads u) t"
      then have "st_threads u ! t = st_threads s ! t" using d(4) [of t] unfolding e bt(1) by (auto simp: nt_parked_def woken_def)
      then have "t \<in> sleepers n (st_threads u)" using p tag [of t] t by (simp add: sleepers_def nt_parked_def)
      then show False using d(1) by (simp add: e)
    qed
    with d(2,3) show ?thesis by (simp add: e)
  next
    case False
    then have "\<not> 0 < nt_u32Waiters (st_notify b n)" by (auto simp: notify_has_waiter_def split: if_splits)
    then have w: "nt_u32Waiters (st_notify s n) = 0" by (simp add: bt word_greater_zero_iff)
    from none_parked [OF inv w] False show ?thesis by (simp add: u notify_abort_waiter_def bt)
  qed
  then show "t < GJ_MAX_THREADS \<Longrightarrow> \<not> nt_parked n (st_threads u) t" "hdr_u32State (st_objs u n) \<noteq> GJ_OBJ_LIVE"
    "st_notify u n = (st_notify s n)\<lparr>nt_u32Ready := 0\<rparr>" using dead bt by simp_all
  then show "\<not> notify_live u (Some n)" by (simp add: notify_live_def)
qed

section \<open>Progress of a caller that owes a wake\<close>

fun owe_rank :: "notify_pc \<Rightarrow> nat" where
  "owe_rank (P_Last b) = 5" | "owe_rank P_Count = 4" | "owe_rank P_Hint = 3" | "owe_rank P_Waiters = 2" | "owe_rank P_Wake = 1"
| "owe_rank D_State = 8" | "owe_rank D_Revoke = 7" | "owe_rank D_Force = 7" | "owe_rank D_Abort = 6" | "owe_rank D_AbortCnt = 5"
| "owe_rank (D_Has k) = 4" | "owe_rank (D_HasCnt k) = 3" | "owe_rank (D_Wake k) = 2"
| "owe_rank _ = 0"

text \<open>The next access of a caller inside \<^verbatim>\<open>notify_pulse\<close> or \<^verbatim>\<open>notify_mark_dead\<close>.\<close>

definition owed_step :: "nat \<Rightarrow> nat \<Rightarrow> notify_sys \<Rightarrow> notify_sys" where
  "owed_step n a s = (if is_pulse (ag_pc (ns_ag s a)) then pulse_step n a s else dead_step n a s)"

lemma owes_progress:
  assumes inv: "notify_inv T n s" and few: "few T" and o: "owes (ag_pc (ns_ag s a))"
  shows "owes (ag_pc (ns_ag (owed_step n a s) a)) \<and> owe_rank (ag_pc (ns_ag (owed_step n a s) a)) < owe_rank (ag_pc (ns_ag s a))
    \<or> (\<forall>t < GJ_MAX_THREADS. \<not> nt_parked n (st_threads (owed_step n a s)) t)"
proof -
  note np = none_parked [OF inv] and mw = multi_wake_clears [OF inv few]
  show ?thesis
    using o
    by (cases "ag_pc (ns_ag s a)")
      (auto simp: owed_step_def pulse_step_def dead_step_def Let_def nt_simps multi_wake_eq revoke_begin_fields upd_obj_def np mw
        word_greater_zero_iff split: prod.split)
qed


section \<open>Properties\<close>

text \<open>
  C8: no wake-up of a notification is lost while at most eight threads block on it.  However waiters,
  pulses from threads and interrupts, kicks and teardown interleave, access by access: a thread that
  sleeps in the scheduler although a bit of its mask is pending, or although the notification is no
  longer live, is owed a wake by a caller that is still inside \<^verbatim>\<open>notify_pulse\<close> or \<^verbatim>\<open>notify_mark_dead\<close>;
  each access of such a caller either brings it closer to its wake or leaves nobody parked on the
  notification; and \<^verbatim>\<open>u32Waiters\<close> is exactly the number of registered waiters.
\<close>

theorem notify_no_lost_wake:
  assumes "notify_reach T n s" and "finite T" and "card T \<le> 8"
    and "t < GJ_MAX_THREADS" and "nt_parked n (st_threads s) t" and "ag_pc (ns_ag s t) = W_Sched"
  shows "(nt_u64Pending (st_notify s n) AND ag_u64Mask (ns_ag s t) = 0 \<and> notify_live s (Some n)
      \<or> (\<exists>a. owes (ag_pc (ns_ag s a))))
    \<and> (\<forall>a. owes (ag_pc (ns_ag s a)) \<longrightarrow>
        owes (ag_pc (ns_ag (owed_step n a s) a)) \<and> owe_rank (ag_pc (ns_ag (owed_step n a s) a)) < owe_rank (ag_pc (ns_ag s a))
        \<or> (\<forall>t < GJ_MAX_THREADS. \<not> nt_parked n (st_threads (owed_step n a s)) t))
    \<and> unat (nt_u32Waiters (st_notify s n)) = card (registered_on s)"
proof -
  have inv: "notify_inv T n s" by (rule notify.reach_holds [OF assms(1)])
  have few: "few T" using assms(2,3) by (simp add: few_def)
  have "nt_u64Pending (st_notify s n) AND ag_u64Mask (ns_ag s t) = 0 \<and> notify_live s (Some n)
      \<or> (\<exists>a. owes (ag_pc (ns_ag s a)))"
    using inv_lost [OF inv few assms(4)] assms(5,6) by (auto simp: overdue_def notify_live_def)
  moreover have "unat (nt_u32Waiters (st_notify s n)) = card (registered_on s)" using inv by (simp add: notify_inv_def)
  ultimately show ?thesis using owes_progress [OF inv few] by blast
qed

theorem notify_no_lost_wake_witness:
  "\<exists>s. notify_reach {..<3} 5 s \<and> nt_parked 5 (st_threads s) 2
    \<and> (notify_live s (Some 5) \<or> (\<exists>a. owes (ag_pc (ns_ag s a))))"
proof -
  obtain s where s: "scene {..<3} 0 {..<3} s" using wit_sleepers [of 3] by auto
  then have "notify_reach {..<3} 5 s" "asleep s 2" by (auto simp: scene_def)
  with notify_no_lost_wake [where T = "{..<3}" and n = 5 and s = s and t = 2] show ?thesis by (intro exI [of _ s]) (auto simp: asleep_def)
qed

text \<open>
  C9: badges behave as one atomic register under every interleaving.  The pending word is what the
  posts and takes on the way add up to, and every take finds all its bits there, so no bit is taken more often than it was
  posted; the non-zero values the waits of a caller returned are, in order, exactly the values it took, the last one possibly
  still on its way to the return, so nothing taken is dropped, returned twice or made up; and a returned value lies within the
  mask of its wait.
\<close>

theorem notify_badges_atomic:
  assumes "notify_trace T n es s"
  shows "badge_run 0 es = Some (nt_u64Pending (st_notify s n))
    \<and> (\<forall>k. length (filter (takes k) es) \<le> length (filter (posts k) es))
    \<and> (\<forall>a. bits_taken a es = bits_given a es @ holding (ag_pc (ns_ag s a)))
    \<and> (\<forall>a v. ag_pc (ns_ag s a) = W_Ret v \<longrightarrow> v AND ag_u64Mask (ns_ag s a) = v)"
proof -
  note b = trace_badges [OF assms]
  have "length (filter (takes k) es) \<le> length (filter (posts k) es)" for k
    using badge_run_counts [of 0 es "nt_u64Pending (st_notify s n)" k] b by simp
  with b show ?thesis by (auto simp: cas_ok_def)
qed

theorem notify_badges_atomic_witness:
  "\<exists>s. notify_trace {} 5 [Posted 6] s \<and> nt_u64Pending (st_notify s 5) = 6"
proof -
  let ?f = "pulse_step 5 40" and ?c = "goto 40 (P_Ready 6) wit_sys"
  have live: "nt_u32Ready (st_notify wit_sys 5) \<noteq> 0" "hdr_u32State (st_objs wit_sys 5) = GJ_OBJ_LIVE"
    using wit_scene [of "{}"] by (simp_all add: scene_def)
  have "notify_trace {} 5 [] ?c"
    using Go [OF Boot [OF wit_sys_boot] Pulse_Call [of wit_sys 40]] by (simp add: wit_idle returned_def)
  from Go [OF this notify_step.Pulse [of ?c 40]] live have "notify_trace {} 5 [] (goto 40 (P_State 6) wit_sys)"
    by (simp add: pulse_goto badge_events_def)
  from Go [OF this notify_step.Pulse [of "goto 40 (P_State 6) wit_sys" 40]] live have "notify_trace {} 5 [] (goto 40 (P_Or 6) wit_sys)"
    by (simp add: pulse_goto badge_events_def)
  from Go [OF this notify_step.Pulse [of "goto 40 (P_Or 6) wit_sys" 40]]
  have "notify_trace {} 5 [Posted 6] (?f (goto 40 (P_Or 6) wit_sys))" by (simp add: badge_events_def)
  from this notify_badges_atomic [OF this] show ?thesis by auto
qed

text \<open>
  C10: with nine blocking threads a wake-up is lost.  A state is reachable in which bit 8 is pending on a
  live notification and the thread waiting for bit 8 sleeps, while every other caller is idle or
  asleep too: \<^verbatim>\<open>notify_pulse\<close> woke the first eight threads of the table, none of which waited for that
  bit, and all of them went back to sleep.
\<close>

theorem notify_ninth_waiter_lost:
  "\<exists>s. notify_reach {..<9} 5 s \<and> notify_live s (Some 5) \<and> nt_u64Pending (st_notify s 5) = 256
    \<and> nt_parked 5 (st_threads s) 8 \<and> ag_pc (ns_ag s 8) = W_Sched \<and> ag_u64Mask (ns_ag s 8) = 256
    \<and> (\<forall>a. ag_pc (ns_ag s a) = Idle \<or> a < 9 \<and> ag_pc (ns_ag s a) = W_Sched \<and> nt_parked 5 (st_threads s) a)"
proof -
  have "{..<9} = {..8 :: nat}" by auto
  then obtain s where s: "scene {..<9} 0 {..8} s" using wit_sleepers [of 9] by auto
  from pulse_eight [OF s] obtain u where u: "scene {..<9} 256 {8} u" "\<And>a. a < 8 \<Longrightarrow> at u a W_Sched True" by blast
  have "\<exists>v. scene {..<9} 256 ({8} \<union> {..<8}) v" by (rule all_sleep [OF u(1)]) (auto simp: u(2) wmask_def)
  then obtain v where v: "scene {..<9} 256 ({8} \<union> {..<8}) v" ..
  have a: "asleep v b" if "b < 9" for b using that v by (auto simp: scene_def less_Suc_eq numeral_eq_Suc)
  have "ag_pc (ns_ag v b) = Idle \<or> b < 9 \<and> ag_pc (ns_ag v b) = W_Sched \<and> nt_parked 5 (st_threads v) b" for b
    using a [of b] v by (cases "b < 9") (simp_all add: asleep_def scene_def)
  moreover have "notify_reach {..<9} 5 v" "notify_live v (Some 5)" "nt_u64Pending (st_notify v 5) = 256"
    using v by (simp_all add: scene_def notify_live_def)
  ultimately show ?thesis using a [of 8] by (intro exI [of _ v]) (simp add: asleep_def wmask_def)
qed

text \<open>
  Run without interference, the programs of atomic accesses are the handlers: a pulse and a
  teardown end in the state that \<^verbatim>\<open>notify_pulse\<close> and \<^verbatim>\<open>notify_mark_dead\<close> compute, and a non-blocking
  wait returns the pending bits of its mask (all for mask 0, none when the notification is not
  live), clears exactly those and changes nothing else.
\<close>

lemma notify_programs_alone:
  "(\<exists>k. (pulse_step n a ^^ k) (goto a (P_Ready b) s) = goto a Idle (notify_pulse (Some n) b s))
    \<and> (\<exists>k. (dead_step n a ^^ k) (goto a D_Ready s) = goto a Idle (notify_mark_dead (Some n) s))
    \<and> (\<exists>k. let u = (wait_step n a ^^ k) (notify_poll a m s)
         in ag_pc (ns_ag u a) = W_Ret (poll_result m s n)
           \<and> st_notify u n = (st_notify s n)\<lparr>nt_u64Pending := nt_u64Pending (st_notify s n) AND NOT (poll_result m s n)\<rparr>
           \<and> st_threads u = st_threads s \<and> st_objs u = st_objs s)"
  using pulse_alone [of n a b s] dead_alone [of n a s] poll_alone [of n a m s] by (auto simp: Let_def notify_poll_def)

text \<open>
  A notification that was marked dead stays out of use.  From any reachable state, however many
  threads wait: no thread is parked on it any more, its header has left LIVE, so that no handle
  resolves to it, a pulse changes nothing, a poll finds nothing, and it cannot be installed in a
  CNode.
\<close>

lemma notify_mark_dead_final:
  assumes "notify_reach T n s" and "u = notify_mark_dead (Some n) s"
  shows "(\<forall>t < GJ_MAX_THREADS. \<not> nt_parked n (st_threads u) t)
    \<and> (\<forall>p i g res. gj_cap_resolve u p i g = Inr res \<longrightarrow> res_pObj res \<noteq> n)
    \<and> notify_pulse (Some n) b u = u \<and> poll_result m u n = 0
    \<and> notify_install (Some (Some c)) (Some n) r True u = (Inl GJ_ERR_NODEV, u)"
proof -
  note d = mark_dead_spec [OF notify.reach_holds [OF assms(1)], folded assms(2)]
  have "notify_pulse (Some n) b u = u" using d(3,4) by (simp add: notify_pulse_def)
  moreover have "poll_result m u n = 0" using d(2) by (simp add: poll_result_def)
  moreover have "notify_install (Some (Some c)) (Some n) r True u = (Inl GJ_ERR_NODEV, u)"
    using d(2) by (simp add: notify_install_def)
  moreover have "gj_cap_resolve u p i g = Inr res \<Longrightarrow> res_pObj res \<noteq> n" for p i g res
    using dead_unresolved(1) [OF d(3)] .
  ultimately show ?thesis using d(1) by blast
qed

end
