(* ===== verification/Sched_Sys.thy ===== *)
theory Sched_Sys
  imports Sched
begin

text \<open>
  The processors running together: every operation of the scheduler as an action of a processor or of the rest of
  the kernel, and the invariants of all interleavings.
\<close>

section \<open>Actions\<close>

datatype sched_action =
    A_Schedule nat | A_Yield nat | A_Spin nat | A_Land nat door_wakes | A_Exit nat door_wakes | A_ExitSchedule nat | A_Peek nat
  | A_Block nat block_obj u32 | A_Unblock nat | A_Wake block_obj u32 u32 | A_YieldRequest | A_YieldPending
  | A_Create nat "nat option" "nat option" u64 | A_CreateOn nat "nat option" "nat option" u64 u32
  | A_CreateUser nat "nat option" u64 u64 | A_CreateUser32 nat "nat option" u64 u64
  | A_Exec "nat option" u64 u64 | A_ExitProcess "nat \<Rightarrow> door_wakes" nat "nat option"
  | A_SetQos u32 u32 | A_Boost u32 u32 | A_SetCpu u32 u32 | A_ApIdle nat nat | A_ApStart nat
  | A_Processes "nat \<Rightarrow> gj_process" | A_Syscall nat u64 u64 u64

text \<open>A processor that executes the code of a thread.\<close>

definition runs :: "nat \<Rightarrow> sched_state \<Rightarrow> bool" where
  "runs c s \<longleftrightarrow> c < GJ_CPU_STATIC_MAX \<and> cp_pc (cpu s c) = Pc_Run \<and> thread_current c s \<noteq> None"

definition at_pc :: "nat \<Rightarrow> cpu_pc \<Rightarrow> sched_state \<Rightarrow> bool" where
  "at_pc c pc s \<longleftrightarrow> c < GJ_CPU_STATIC_MAX \<and> cp_pc (cpu s c) = pc"

text \<open>
  \<open>A_Unblock\<close> is the code of the futexes that takes back a \<^verbatim>\<open>thread_block\<close> of the running thread, \<open>A_Syscall\<close> the
  entry of a system call, which stores the return target of the caller in the processor block, \<open>A_Processes\<close> a change
  of the processes, and \<open>A_Peek\<close> the extra call of \<^verbatim>\<open>pick_next\<close> in the run loops.
\<close>

fun sched_act :: "sched_action \<Rightarrow> sched_state \<Rightarrow> sched_state option" where
  "sched_act (A_Schedule c) s = (if runs c s then Some (schedule Pc_Run c s) else None)"
| "sched_act (A_Yield c) s = (if runs c s then Some (thread_yield c s) else None)"
| "sched_act (A_Spin c) s = (if at_pc c Pc_Spin s then Some (schedule_spin c s) else None)"
| "sched_act (A_Land c door) s = (if at_pc c Pc_Land s then Some (land door c s) else None)"
| "sched_act (A_Exit c door) s = (if runs c s then Some (thread_exit door c s) else None)"
| "sched_act (A_ExitSchedule c) s = (if at_pc c Pc_Exit s then Some (schedule Pc_Halt c s) else None)"
| "sched_act (A_Peek c) s = (if runs c s then Some (snd (pick_next c s)) else None)"
| "sched_act (A_Block c ob tag) s = (if runs c s then Some (s\<lparr>sc_threads := thread_block (thread_current c s) ob tag (sc_threads s)\<rparr>) else None)"
| "sched_act (A_Unblock c) s =
     (if runs c s \<and> th_u32State (thr s (the (thread_current c s))) \<in> {GJ_THR_BLOCKED, GJ_THR_RUNNABLE}
      then Some (upd_thr (the (thread_current c s)) (\<lambda>t. t\<lparr>th_pBlockObj := None, th_u32BlockTag := 0, th_u32State := GJ_THR_RUNNING\<rparr>) s) else None)"
| "sched_act (A_Wake ob tag mx) s = Some (s\<lparr>sc_threads := snd (thread_wake ob tag mx (sc_threads s))\<rparr>)"
| "sched_act A_YieldRequest s = Some (thread_yield_request s)"
| "sched_act A_YieldPending s = Some (snd (thread_yield_pending s))"
| "sched_act (A_Create c pProc pfn pArg) s = (if runs c s then Some (snd (thread_create c pProc pfn pArg s)) else None)"
| "sched_act (A_CreateOn c pProc pfn pArg u32Cpu) s = (if runs c s then Some (snd (thread_create_on_cpu c pProc pfn pArg u32Cpu s)) else None)"
| "sched_act (A_CreateUser c pProc u64Entry u64Stack) s = (if runs c s then Some (snd (thread_create_user c pProc u64Entry u64Stack s)) else None)"
| "sched_act (A_CreateUser32 c pProc u64Entry u64Stack) s = (if runs c s then Some (snd (thread_create_user32 c pProc u64Entry u64Stack s)) else None)"
| "sched_act (A_Exec pProc u64Entry u64Stack) s = Some (snd (thread_exec_replace pProc u64Entry u64Stack s))"
| "sched_act (A_ExitProcess door c pProc) s = (if runs c s then Some (snd (thread_exit_process door c pProc s)) else None)"
| "sched_act (A_SetQos u32ThrId u32Qos) s = Some (thread_set_qos u32ThrId u32Qos s)"
| "sched_act (A_Boost u32ThrId u32Ticks) s = Some (thread_qos_boost_soft u32ThrId u32Ticks s)"
| "sched_act (A_SetCpu u32ThrId u32Cpu) s = Some (thread_set_cpu u32ThrId u32Cpu s)"
| "sched_act (A_ApIdle c u32Cpu) s = Some (snd (thread_init_ap_idle c u32Cpu s))"
| "sched_act (A_ApStart c) s = (if c < GJ_CPU_STATIC_MAX \<and> thread_current c s = None then Some (ap_start c s) else None)"
| "sched_act (A_Processes f) s = Some (s\<lparr>sc_procs := f\<rparr>)"
| "sched_act (A_Syscall c u64Rip u64Rsp u64Rflags) s =
     (if runs c s then Some (upd_cpu c (\<lambda>p. p\<lparr>cp_u64UserRip := u64Rip, cp_u64UserRsp := u64Rsp, cp_u64UserRflags := u64Rflags\<rparr>) s) else None)"

definition sched_step :: "sched_state \<Rightarrow> sched_state \<Rightarrow> bool" where
  "sched_step s t \<longleftrightarrow> (\<exists>a. sched_act a s = Some t)"

fun sched_run :: "sched_action list \<Rightarrow> sched_state \<Rightarrow> sched_state option" where
  "sched_run [] s = Some s"
| "sched_run (a # as) s = (case sched_act a s of None \<Rightarrow> None | Some t \<Rightarrow> sched_run as t)"

text \<open>The boot processor after \<^verbatim>\<open>thread_init\<close>; the others have no thread yet.\<close>

definition sched_boot :: "sched_state \<Rightarrow> bool" where
  "sched_boot s \<longleftrightarrow> (\<exists>s0. s = thread_init 0 s0 \<and> length (sc_cpus s0) = GJ_CPU_STATIC_MAX \<and> g_aRobin s0 = replicate GJ_CPU_STATIC_MAX 0
     \<and> (\<forall>c < GJ_CPU_STATIC_MAX. cp_pCurrent (cpu s0 c) = None \<and> cp_pc (cpu s0 c) = Pc_Run))"

section \<open>Shape\<close>

definition sched_wf :: "sched_state \<Rightarrow> bool" where
  "sched_wf s \<longleftrightarrow> length (sc_threads s) = GJ_MAX_THREADS \<and> length (sc_cpus s) = GJ_CPU_STATIC_MAX \<and> length (g_apIdle s) = GJ_CPU_STATIC_MAX
     \<and> length (g_aThrCpu s) = GJ_MAX_THREADS \<and> length (g_aThrQos s) = GJ_MAX_THREADS \<and> length (g_aThrBoost s) = GJ_MAX_THREADS
     \<and> length (g_aThrLastPick s) = GJ_MAX_THREADS \<and> length (g_aRobin s) = GJ_CPU_STATIC_MAX \<and> g_pIdle s = Some 0 \<and> g_apIdle s ! 0 = Some 0
     \<and> (\<forall>c < GJ_CPU_STATIC_MAX. \<forall>i. g_apIdle s ! c = Some i \<or> thread_current c s = Some i \<longrightarrow> i < GJ_MAX_THREADS)"

lemma sched_wfD [dest]:
  assumes "sched_wf s"
  shows "length (sc_threads s) = GJ_MAX_THREADS" "length (sc_cpus s) = GJ_CPU_STATIC_MAX" "length (g_apIdle s) = GJ_CPU_STATIC_MAX"
    "length (g_aThrCpu s) = GJ_MAX_THREADS" "length (g_aThrQos s) = GJ_MAX_THREADS" "length (g_aThrBoost s) = GJ_MAX_THREADS"
    "length (g_aThrLastPick s) = GJ_MAX_THREADS" "length (g_aRobin s) = GJ_CPU_STATIC_MAX" "g_pIdle s = Some 0" "g_apIdle s ! 0 = Some 0"
  using assms by (auto simp: sched_wf_def)

text \<open>The fields that place the threads: who is current where, affinity, idle threads.\<close>

definition same_place :: "sched_state \<Rightarrow> sched_state \<Rightarrow> bool" where
  "same_place s t \<longleftrightarrow> (\<forall>c. thread_current c t = thread_current c s) \<and> g_aThrCpu t = g_aThrCpu s \<and> g_apIdle t = g_apIdle s \<and> g_pIdle t = g_pIdle s
     \<and> length (sc_threads t) = length (sc_threads s) \<and> length (sc_cpus t) = length (sc_cpus s) \<and> length (g_aThrQos t) = length (g_aThrQos s)
     \<and> length (g_aThrBoost t) = length (g_aThrBoost s) \<and> length (g_aThrLastPick t) = length (g_aThrLastPick s) \<and> length (g_aRobin t) = length (g_aRobin s)
     \<and> (\<forall>i < length (sc_threads s). th_u32State (thr t i) = GJ_THR_RUNNING \<longrightarrow> th_u32State (thr s i) = GJ_THR_RUNNING \<or> (\<exists>c < GJ_CPU_STATIC_MAX. thread_current c s = Some i))"

lemma nth_upd: "xs[i := v] ! j = (if i = j \<and> j < length xs then v else xs ! j)"
  by (cases "j < length xs"; cases "i = j") (simp_all add: not_less list_update_beyond)

lemma same_place_refl [simp]: "same_place s s"
  by (simp add: same_place_def)

lemma same_place_trans: "same_place s t \<Longrightarrow> same_place t u \<Longrightarrow> same_place s u"
  by (fastforce simp: same_place_def)

lemma same_place_wf: "same_place s t \<Longrightarrow> sched_wf s \<Longrightarrow> sched_wf t"
  by (simp add: same_place_def sched_wf_def)

lemma same_place_thr:
  assumes "th_u32State (f (thr s i)) = GJ_THR_RUNNING \<Longrightarrow> th_u32State (thr s i) = GJ_THR_RUNNING \<or> (\<exists>c < GJ_CPU_STATIC_MAX. thread_current c s = Some i)"
  shows "same_place s (upd_thr i f s)"
  using assms by (auto simp: same_place_def upd_thr_def thread_current_def nth_upd split: if_splits)

lemma same_place_cpu:
  assumes "\<And>p. cp_pCurrent (f p) = cp_pCurrent p"
  shows "same_place s (upd_cpu c f s)"
  using assms by (auto simp: same_place_def upd_cpu_def thread_current_def nth_upd)

lemma same_place_fields [simp]:
  "same_place s (s\<lparr>sc_procs := f\<rparr>)" "same_place s (s\<lparr>g_u32PickGen := g\<rparr>)" "same_place s (s\<lparr>g_fYieldReq := y\<rparr>)"
  "same_place s (s\<lparr>g_aThrQos := (g_aThrQos s)[i := q]\<rparr>)" "same_place s (s\<lparr>g_aThrBoost := (g_aThrBoost s)[i := b]\<rparr>)"
  "same_place s (s\<lparr>g_aRobin := (g_aRobin s)[j := r]\<rparr>)" "same_place s (note_pick i s)" "same_place s (s\<lparr>g_u32NextId := n\<rparr>)"
  by (simp_all add: same_place_def thread_current_def note_pick_def)

lemma same_place_load [simp]: "same_place s (cpu_load_cr3 c x s)" "same_place s (set_pc c pc s)" "same_place s (thread_install_kstack c i s)"
  "same_place s (thread_restore_sys_user c i s)"
  by (simp_all add: cpu_load_cr3_def set_pc_def thread_install_kstack_def thread_restore_sys_user_def same_place_cpu)

lemma same_place_activate [simp]: "same_place s (process_as_activate c p s)"
  by (simp add: process_as_activate_def)

lemma same_place_threads:
  assumes "length ts = length (sc_threads s)"
    and "\<And>i. i < length ts \<Longrightarrow> th_u32State (ts ! i) = GJ_THR_RUNNING \<Longrightarrow> th_u32State (thr s i) = GJ_THR_RUNNING \<or> (\<exists>c < GJ_CPU_STATIC_MAX. thread_current c s = Some i)"
  shows "same_place s (s\<lparr>sc_threads := ts\<rparr>)"
  using assms by (auto simp: same_place_def thread_current_def)

lemma wake_states:
  assumes "length ts = GJ_MAX_THREADS" and "th_u32State (snd (thread_wake ob tag mx ts) ! i) = GJ_THR_RUNNING"
  shows "th_u32State (ts ! i) = GJ_THR_RUNNING"
  using thread_wake_entry [OF assms(1), of ob tag mx i] assms(2) by (auto simp: woken_def)

lemma same_place_wake: "length (sc_threads s) = GJ_MAX_THREADS \<Longrightarrow> same_place s (s\<lparr>sc_threads := snd (thread_wake ob tag mx (sc_threads s))\<rparr>)"
  by (rule same_place_threads) (auto dest: wake_states)

lemma same_place_wakes: "length (sc_threads s) = GJ_MAX_THREADS \<Longrightarrow> same_place s (do_wakes ws s)"
proof (induction ws arbitrary: s)
  case (Cons w ws)
  obtain ob tag mx where w: "w = (ob, tag, mx)" by (cases w)
  let ?t = "s\<lparr>sc_threads := snd (thread_wake ob tag mx (sc_threads s))\<rparr>"
  have "do_wakes (w # ws) s = do_wakes ws ?t" by (simp add: do_wakes_def w)
  then show ?case using same_place_trans [OF same_place_wake [OF Cons.prems] Cons.IH [of ?t]] Cons.prems by simp
qed (simp add: do_wakes_def)

lemma same_place_len: "same_place s t \<Longrightarrow> length (sc_threads t) = length (sc_threads s)"
  by (simp add: same_place_def)

lemma same_place_exit: "length (sc_threads s) = GJ_MAX_THREADS \<Longrightarrow> same_place s (thread_exit door c s)"
proof (cases "thread_current c s")
  case (Some i)
  assume l: "length (sc_threads s) = GJ_MAX_THREADS"
  let ?u = "upd_thr i (\<lambda>t. t\<lparr>th_u32State := GJ_THR_EXITED, th_pfnEntry := None, th_u32SysUserValid := False\<rparr>) s"
  have a: "same_place s ?u" by (rule same_place_thr) simp
  have "length (sc_threads ?u) = GJ_MAX_THREADS" using l by (simp add: upd_thr_def)
  note w = same_place_trans [OF a same_place_wakes [OF this, of door]]
  show ?thesis unfolding thread_exit_def Some by (simp, rule same_place_trans [OF w same_place_cpu]) simp
qed (simp add: thread_exit_def same_place_cpu)

lemma same_place_exit_loop: "length (sc_threads s) = GJ_MAX_THREADS \<Longrightarrow> same_place s (snd (exit_loop door pCur p is n s))"
proof (induction "is" arbitrary: n s)
  case (Cons i "is")
  define u where "u = do_wakes (door i) ((upd_thr i exit_scrub s)\<lparr>g_aThrBoost := (g_aThrBoost (upd_thr i exit_scrub s))[i := 0]\<rparr>)"
  have a: "same_place s (upd_thr i exit_scrub s)" by (rule same_place_thr) (simp add: exit_scrub_def drop_user_entry_def)
  have b: "same_place s ((upd_thr i exit_scrub s)\<lparr>g_aThrBoost := (g_aThrBoost (upd_thr i exit_scrub s))[i := 0]\<rparr>)" by (rule same_place_trans [OF a]) simp
  then have u: "same_place s u" unfolding u_def using Cons.prems by (rule_tac same_place_trans [OF b same_place_wakes]) (simp add: upd_thr_def)
  then have "length (sc_threads u) = GJ_MAX_THREADS" using same_place_len Cons.prems by fastforce
  then show ?case using Cons.IH [of u "n + 1"] Cons.IH [OF Cons.prems, of n] same_place_trans [OF u] by (simp add: Let_def u_def)
qed simp

lemma same_place_exit_process: "length (sc_threads s) = GJ_MAX_THREADS \<Longrightarrow> same_place s (snd (thread_exit_process door c pProc s))"
  by (cases pProc) (simp_all add: thread_exit_process_def same_place_exit_loop)

lemma same_place_exec: "same_place s (snd (thread_exec_replace pProc e st s))"
  unfolding thread_exec_replace_def by (auto split: option.split if_split_asm intro!: same_place_threads)

lemma same_place_land:
  assumes "length (sc_threads s) = GJ_MAX_THREADS"
  shows "same_place s (land door c s)"
proof -
  have E: "same_place s (thread_exit d c t)" if "same_place s t" for d t
    using same_place_trans [OF that same_place_exit] same_place_len [OF that] assms by simp
  have S: "same_place s (upd_thr i dead_scrub s)" "same_place s (upd_thr i drop_user_entry s)" for i
    by (rule same_place_thr; simp add: dead_scrub_def drop_user_entry_def)+
  have T: "same_place s (upd_thr i (\<lambda>t. (dead_scrub t)\<lparr>th_pBlockObj := None, th_u32BlockTag := 0, th_pProc := None\<rparr>) (upd_thr i drop_user_entry s))" for i
    by (rule same_place_trans [OF S(2)], rule same_place_thr) (simp add: dead_scrub_def drop_user_entry_def)
  have I: "same_place s t \<Longrightarrow> same_place s (thread_install_kstack c i t)" "same_place s t \<Longrightarrow> same_place s (set_pc c pc t)"
    "same_place s t \<Longrightarrow> same_place s (process_as_activate c p t)" "same_place s t \<Longrightarrow> same_place s (cpu_load_cr3 c x t)"
    "same_place s t \<Longrightarrow> same_place s (thread_restore_sys_user c i t)" for i pc p x t
    by (auto intro: same_place_trans)
  show ?thesis
    unfolding land_def thread_trampoline_def schedule_resume_def Let_def
    by (simp split: option.split resume_point.split if_split) (intro allI impI conjI; (intro E I S T)?; simp)
qed

section \<open>The choice\<close>

lemma robin_order_set [simp]: "set (robin_order r) = {..<GJ_MAX_THREADS}"
proof
  show "{..<GJ_MAX_THREADS} \<subseteq> set (robin_order r)"
  proof
    fix i :: nat assume i: "i \<in> {..<GJ_MAX_THREADS}"
    let ?k = "(i + 32 - unat r mod 32) mod 32"
    have "(unat r + ?k) mod 32 = (unat r mod 32 + (i + 32 - unat r mod 32)) mod 32" by (metis mod_add_left_eq mod_add_right_eq)
    also have "unat r mod 32 \<le> i + 32" by (rule order_trans [OF less_imp_le [OF mod_less_divisor]]) simp_all
    then have "unat r mod 32 + (i + 32 - unat r mod 32) = i + 32" by simp
    finally have "(unat r + ?k) mod 32 = i" using i by simp
    then show "i \<in> set (robin_order r)" unfolding robin_order_def by (auto intro!: image_eqI [of _ _ ?k])
  qed
qed (auto simp: robin_order_def)

text \<open>\<open>b\<close> comes before \<open>i\<close>: it has a higher rank, or the same and has waited at least as long.\<close>

definition outranks :: "sched_state \<Rightarrow> nat \<Rightarrow> nat \<Rightarrow> bool" where
  "outranks s b i \<longleftrightarrow> qos_rank_eff i s < qos_rank_eff b s \<or> (qos_rank_eff i s = qos_rank_eff b s \<and> pick_wait s i \<le> pick_wait s b)"

lemma outranks_refl [simp]: "outranks s b b"
  by (simp add: outranks_def)

lemma outranks_trans: "outranks s a b \<Longrightarrow> outranks s b c \<Longrightarrow> outranks s a c"
  by (auto simp: outranks_def)

lemma outranks_linear: "outranks s a b \<or> outranks s b a"
  by (auto simp: outranks_def)

definition best_of :: "nat \<Rightarrow> sched_state \<Rightarrow> nat set \<Rightarrow> (nat \<times> u8 \<times> u32) option \<Rightarrow> bool" where
  "best_of c s I x \<longleftrightarrow> (case x of
     None \<Rightarrow> \<forall>i \<in> I. \<not> pick_candidate c s i
   | Some (b, r, w) \<Rightarrow> b \<in> I \<and> pick_candidate c s b \<and> r = qos_rank_eff b s \<and> w = pick_wait s b \<and> (\<forall>i \<in> I. pick_candidate c s i \<longrightarrow> outranks s b i))"

lemma pick_loop_best: "best_of c s I x \<Longrightarrow> best_of c s (I \<union> set is) (pick_loop c s is x)"
proof (induction "is" arbitrary: I x)
  case (Cons i "is")
  let ?y = "if \<not> pick_candidate c s i then x else case x of None \<Rightarrow> Some (i, qos_rank_eff i s, pick_wait s i)
     | Some (b, r, w) \<Rightarrow> if r < qos_rank_eff i s \<or> (qos_rank_eff i s = r \<and> w < pick_wait s i) then Some (i, qos_rank_eff i s, pick_wait s i) else x"
  have e: "pick_loop c s (i # is) x = pick_loop c s is ?y" by (auto simp: Let_def split: option.split)
  have "best_of c s (insert i I) ?y"
  proof (cases "pick_candidate c s i")
    case False
    then show ?thesis using Cons.prems by (auto simp: best_of_def split: option.splits)
  next
    case True
    show ?thesis
    proof (cases x)
      case None
      then show ?thesis using True Cons.prems by (auto simp: best_of_def)
    next
      case (Some y)
      then obtain b r w where y: "x = Some (b, r, w)" by (cases y) auto
      then have b: "b \<in> I" "pick_candidate c s b" "r = qos_rank_eff b s" "w = pick_wait s b" "\<forall>j \<in> I. pick_candidate c s j \<longrightarrow> outranks s b j"
        using Cons.prems by (auto simp: best_of_def)
      show ?thesis
      proof (cases "r < qos_rank_eff i s \<or> (qos_rank_eff i s = r \<and> w < pick_wait s i)")
        case c: True
        then have "outranks s i b" using b(3,4) by (auto simp: outranks_def)
        then have "\<forall>j \<in> insert i I. pick_candidate c s j \<longrightarrow> outranks s i j" using b(5) by (auto intro: outranks_trans)
        then show ?thesis using True c y by (simp add: best_of_def)
      next
        case c: False
        then have "outranks s b i" using b(3,4) by (auto simp: outranks_def not_less)
        then show ?thesis using True c b y by (auto simp: best_of_def)
      qed
    qed
  qed
  from Cons.IH [OF this] show ?case unfolding e by simp
qed simp

lemma pick_loop_spec: "best_of c s {..<GJ_MAX_THREADS} (pick_loop c s (robin_order r) None)"
  using pick_loop_best [of c s "{}" None "robin_order r"] by (simp add: best_of_def)

text \<open>The best candidate, else the idle thread, else the current one.\<close>

definition picked :: "nat \<Rightarrow> sched_state \<Rightarrow> nat option \<Rightarrow> bool" where
  "picked c s n \<longleftrightarrow>
     (if \<exists>i < GJ_MAX_THREADS. pick_candidate c s i
      then \<exists>b < GJ_MAX_THREADS. n = Some b \<and> pick_candidate c s b \<and> (\<forall>i < GJ_MAX_THREADS. pick_candidate c s i \<longrightarrow> outranks s b i)
      else n = (case cpu_idle c s of Some p \<Rightarrow> if th_u32State (thr s p) \<noteq> GJ_THR_EXITED then Some p else thread_current c s
                | None \<Rightarrow> thread_current c s))"

lemma pick_next_picked:
  assumes "c < GJ_CPU_STATIC_MAX"
  shows "picked c s (fst (pick_next c s))"
proof -
  let ?x = "pick_loop c s (robin_order (g_aRobin s ! c)) None"
  have b: "best_of c s {..<GJ_MAX_THREADS} ?x" by (rule pick_loop_spec)
  show ?thesis
  proof (cases ?x)
    case None
    then show ?thesis using b assms by (auto simp: pick_next_def best_of_def picked_def Let_def split: option.split)
  next
    case (Some y)
    obtain n r w where "y = (n, r, w)" by (cases y)
    then show ?thesis using b assms Some by (auto simp: pick_next_def best_of_def picked_def Let_def)
  qed
qed

lemma same_place_pick: "same_place s (snd (pick_next c s))"
proof -
  have "same_place s (note_pick b (s\<lparr>g_aRobin := (g_aRobin s)[j := r]\<rparr>))" for b j r by (rule same_place_trans [of _ "s\<lparr>g_aRobin := (g_aRobin s)[j := r]\<rparr>"]) simp_all
  moreover have "same_place s (note_pick p (upd_thr p (\<lambda>t. t\<lparr>th_u32State := GJ_THR_RUNNABLE\<rparr>) s))" for p
    by (rule same_place_trans [OF same_place_thr [of "\<lambda>t. t\<lparr>th_u32State := GJ_THR_RUNNABLE\<rparr>" s p]]) simp_all
  ultimately show ?thesis by (auto simp: pick_next_def Let_def split: option.split)
qed

lemma cpu_idle_eq: "sched_wf s \<Longrightarrow> c < GJ_CPU_STATIC_MAX \<Longrightarrow> cpu_idle c s = g_apIdle s ! c"
  using sched_wfD(9,10) by (auto simp: cpu_idle_def)

lemma pick_next_place:
  assumes "sched_wf s" "c < GJ_CPU_STATIC_MAX" and r: "pick_next c s = (Some n, t)"
  shows "same_place s t" "n < GJ_MAX_THREADS" "thr_ok_on_cpu n c s \<or> g_apIdle s ! c = Some n \<or> thread_current c s = Some n"
proof -
  show "same_place s t" using same_place_pick [of s c] r by simp
  have p: "picked c s (Some n)" using pick_next_picked [OF assms(2), of s] r by simp
  show ok: "thr_ok_on_cpu n c s \<or> g_apIdle s ! c = Some n \<or> thread_current c s = Some n"
    using p assms(1,2) by (auto simp: picked_def pick_candidate_def cpu_idle_eq split: if_splits option.splits)
  show "n < GJ_MAX_THREADS"
    using p assms(1,2) by (auto simp: picked_def cpu_idle_eq sched_wf_def split: if_splits option.splits)
qed

section \<open>Switching\<close>

lemma same_place_leave: "same_place s (leave_thread c p s)"
proof -
  let ?a = "if th_u32State (thr s p) = GJ_THR_RUNNING then upd_thr p (\<lambda>t. t\<lparr>th_u32State := GJ_THR_RUNNABLE\<rparr>) s else s"
  let ?b = "if g_aThrBoost ?a ! p \<noteq> 0 then ?a\<lparr>g_aThrBoost := (g_aThrBoost ?a)[p := g_aThrBoost ?a ! p - 1]\<rparr> else ?a"
  have "same_place s ?a" by (auto intro: same_place_thr)
  moreover have "same_place ?a ?b" by simp
  moreover have "same_place ?b (thread_save_sys_user c p ?b)" unfolding thread_save_sys_user_def by (rule same_place_thr) simp
  ultimately show ?thesis unfolding leave_thread_def Let_def by (meson same_place_trans)
qed

lemma leave_not_running: "p < length (sc_threads s) \<Longrightarrow> th_u32State (thr (leave_thread c p s) p) \<noteq> GJ_THR_RUNNING"
  by (simp add: leave_thread_def thread_save_sys_user_def upd_thr_def Let_def)

definition pinned :: "sched_state \<Rightarrow> bool" where
  "pinned s \<longleftrightarrow> sched_wf s \<and> (\<forall>i < GJ_MAX_THREADS. g_aThrCpu s ! i \<noteq> 0xFF)
     \<and> (\<forall>c < GJ_CPU_STATIC_MAX. \<forall>i. thread_current c s = Some i \<or> g_apIdle s ! c = Some i \<longrightarrow> g_aThrCpu s ! i = of_nat c)
     \<and> (\<forall>i < GJ_MAX_THREADS. th_u32State (thr s i) = GJ_THR_RUNNING \<longrightarrow> (\<exists>c < GJ_CPU_STATIC_MAX. thread_current c s = Some i))"

lemma same_place_pinned: "same_place s t \<Longrightarrow> pinned s \<Longrightarrow> pinned t"
  using same_place_wf unfolding pinned_def by (auto simp: same_place_def sched_wf_def)

text \<open>A switch in terms of the thread that leaves and the one that comes.\<close>

lemma switch_fields:
  assumes "sched_wf s" "c < GJ_CPU_STATIC_MAX" "n < GJ_MAX_THREADS"
  defines "t \<equiv> switch_to c n s"
  shows "thread_current d t = (if d = c then Some n else thread_current d s)" "g_aThrCpu t = g_aThrCpu s" "g_apIdle t = g_apIdle s" "sched_wf t"
    "i < GJ_MAX_THREADS \<Longrightarrow> i \<noteq> n \<Longrightarrow> th_u32State (thr t i) = (if thread_current c s = Some i \<and> th_u32State (thr s i) = GJ_THR_RUNNING then GJ_THR_RUNNABLE else th_u32State (thr s i))"
proof -
  define u where "u = (case thread_current c s of None \<Rightarrow> s | Some p \<Rightarrow> leave_thread c p s)"
  have u: "same_place s u" using same_place_leave by (simp add: u_def split: option.split)
  note d = sched_wfD [OF assms(1)]
  have l: "length (sc_cpus u) = GJ_CPU_STATIC_MAX" "length (sc_threads u) = GJ_MAX_THREADS" using u d by (simp_all add: same_place_def)
  define v where "v = (case thread_current c s of None \<Rightarrow> (\<lambda>s. s) | Some p \<Rightarrow> upd_thr p (\<lambda>t. t\<lparr>th_u64Rsp := To_Schedule\<rparr>))"
  have t: "t = upd_cpu c (\<lambda>p. p\<lparr>cp_pc := Pc_Land\<rparr>) (v (cpu_load_cr3 c (sc_kernel_cr3 u) (upd_cpu c (\<lambda>p. p\<lparr>cp_pCurrent := Some n\<rparr>) (upd_thr n (\<lambda>t. t\<lparr>th_u32State := GJ_THR_RUNNING\<rparr>) u))))"
    unfolding t_def switch_to_def Let_def u_def v_def by (simp add: upd_thr_def upd_cpu_def split: option.split)
  have cpus: "sc_cpus (v x) = sc_cpus x" "g_aThrCpu (v x) = g_aThrCpu x" "g_apIdle (v x) = g_apIdle x" for x by (simp_all add: v_def upd_thr_def split: option.split)
  show cur: "thread_current d t = (if d = c then Some n else thread_current d s)" for d
  proof -
    have "thread_current d u = thread_current d s" using u by (simp add: same_place_def)
    then show ?thesis using assms(2) l by (simp add: t upd_cpu_def cpu_load_cr3_def thread_current_def cpus nth_upd upd_thr_def)
  qed
  show "g_aThrCpu t = g_aThrCpu s" "g_apIdle t = g_apIdle s"
    using u by (simp_all add: t upd_cpu_def cpu_load_cr3_def cpus upd_thr_def same_place_def)
  show "i < GJ_MAX_THREADS \<Longrightarrow> i \<noteq> n \<Longrightarrow> th_u32State (thr t i) = (if thread_current c s = Some i \<and> th_u32State (thr s i) = GJ_THR_RUNNING then GJ_THR_RUNNABLE else th_u32State (thr s i))"
    using l d by (simp add: t upd_cpu_def cpu_load_cr3_def v_def upd_thr_def nth_upd u_def leave_thread_def thread_save_sys_user_def Let_def split: option.split)
  show "sched_wf t"
  proof -
    have "length (sc_threads t) = GJ_MAX_THREADS" "length (sc_cpus t) = GJ_CPU_STATIC_MAX" "g_apIdle t = g_apIdle u" "g_aThrCpu t = g_aThrCpu u"
      "g_aThrQos t = g_aThrQos u" "g_aThrBoost t = g_aThrBoost u" "g_aThrLastPick t = g_aThrLastPick u" "g_aRobin t = g_aRobin u" "g_pIdle t = g_pIdle u"
      using l by (simp_all add: t upd_cpu_def cpu_load_cr3_def v_def upd_thr_def split: option.split)
    then show ?thesis using same_place_wf [OF u assms(1)] assms(3) cur u by (auto simp: sched_wf_def same_place_def split: if_splits)
  qed
qed

lemma switch_running:
  assumes "sched_wf s" "c < GJ_CPU_STATIC_MAX" "n < GJ_MAX_THREADS" "thread_current c s \<noteq> Some n"
  shows "th_u32State (thr (switch_to c n s) n) = GJ_THR_RUNNING" "cp_pc (cpu (switch_to c n s) c) = Pc_Land"
  using sched_wfD [OF assms(1)] assms(2-4)
  by (auto simp: switch_to_def Let_def upd_cpu_def cpu_load_cr3_def upd_thr_def nth_upd leave_thread_def thread_save_sys_user_def split: option.split)

lemma switch_pinned:
  assumes "pinned s" "c < GJ_CPU_STATIC_MAX" "n < GJ_MAX_THREADS" "g_aThrCpu s ! n = of_nat c"
  shows "pinned (switch_to c n s)"
proof -
  have wf: "sched_wf s" using assms(1) by (simp add: pinned_def)
  note f = switch_fields [OF wf assms(2,3)]
  have "\<exists>d < GJ_CPU_STATIC_MAX. thread_current d (switch_to c n s) = Some i"
    if i: "i < GJ_MAX_THREADS" "th_u32State (thr (switch_to c n s) i) = GJ_THR_RUNNING" for i
  proof (cases "i = n")
    case True
    then show ?thesis using f(1) assms(2) by auto
  next
    case False
    then have "th_u32State (thr s i) = GJ_THR_RUNNING" "thread_current c s \<noteq> Some i" using f(5) [OF i(1) False] i(2) by (auto split: if_splits)
    then obtain d where "d < GJ_CPU_STATIC_MAX" "thread_current d s = Some i" "d \<noteq> c" using assms(1) i(1) unfolding pinned_def by metis
    then show ?thesis using f(1) by auto
  qed
  then show ?thesis using assms f(1-4) by (auto simp: pinned_def)
qed

end
