(* ===== verification/Sched_Props.thy ===== *)
theory Sched_Props
  imports Sched_Sys
begin

text \<open>
  The properties of the scheduler: which thread is chosen, that a ready thread is not passed over for ever, that a
  thread runs on one processor at a time and when it does not, and that user context and address space go with
  the thread.
\<close>

section \<open>One processor per thread\<close>

text \<open>A thread some processor is at, or would fall back to.\<close>

definition in_use :: "nat \<Rightarrow> sched_state \<Rightarrow> bool" where
  "in_use i s \<longleftrightarrow> (\<exists>c < GJ_CPU_STATIC_MAX. thread_current c s = Some i \<or> g_apIdle s ! c = Some i)"

definition slot_left :: "sched_state \<Rightarrow> bool" where
  "slot_left s \<longleftrightarrow> (case free_slot s of None \<Rightarrow> True | Some i \<Rightarrow> \<not> in_use i s)"

definition movable :: "u32 \<Rightarrow> sched_state \<Rightarrow> bool" where
  "movable u32ThrId s \<longleftrightarrow> (case find_used u32ThrId s of None \<Rightarrow> True | Some i \<Rightarrow> \<not> in_use i s)"

text \<open>
  The discipline: a slot is given to a new thread only when its processor has left it, and a thread is moved to
  another processor only while it is off, and never to all processors.
\<close>

fun orderly :: "sched_action \<Rightarrow> sched_state \<Rightarrow> bool" where
  "orderly (A_Create c pProc pfn pArg) s = slot_left s"
| "orderly (A_CreateOn c pProc pfn pArg u32Cpu) s =
     (slot_left s \<and> u32Cpu < 16 \<and> (case thread_create c pProc pfn pArg s of (u32Id, t) \<Rightarrow> movable u32Id t))"
| "orderly (A_CreateUser c pProc e st) s = slot_left s"
| "orderly (A_CreateUser32 c pProc e st) s = slot_left s"
| "orderly (A_ApIdle c u32Cpu) s = slot_left s"
| "orderly (A_SetCpu u32ThrId u32Cpu) s = (u32Cpu < 16 \<and> movable u32ThrId s)"
| "orderly _ s = True"

definition orderly_step :: "sched_state \<Rightarrow> sched_state \<Rightarrow> bool" where
  "orderly_step s t \<longleftrightarrow> (\<exists>a. orderly a s \<and> sched_act a s = Some t)"

lemma pick_next_pinned:
  assumes "pinned s" "c < GJ_CPU_STATIC_MAX" and r: "pick_next c s = (n, t)"
  shows "pinned t" "n = Some i \<Longrightarrow> i < GJ_MAX_THREADS \<and> g_aThrCpu t ! i = of_nat c" "thread_current c t = thread_current c s"
proof -
  have p: "same_place s t" using same_place_pick [of s c] r by simp
  then show "pinned t" "thread_current c t = thread_current c s" using same_place_pinned assms(1) by (auto simp: same_place_def)
  assume n: "n = Some i"
  have wf: "sched_wf s" using assms(1) by (simp add: pinned_def)
  have "g_aThrCpu t = g_aThrCpu s" using p by (simp add: same_place_def)
  then show "i < GJ_MAX_THREADS \<and> g_aThrCpu t ! i = of_nat c"
    using pick_next_place(2,3) [OF wf assms(2), of i t] r n assms(1,2) by (auto simp: pinned_def thr_ok_on_cpu_def)
qed

lemma schedule_pinned:
  assumes "pinned s" "c < GJ_CPU_STATIC_MAX"
  shows "pinned (schedule ret c s)"
proof -
  obtain n t where r: "pick_next c s = (n, t)" by fastforce
  note p = pick_next_pinned [OF assms r]
  have "pinned (set_pc c x t)" for x using same_place_pinned [OF _ p(1)] by simp
  moreover have "pinned (switch_to c i t)" if "n = Some i" for i using switch_pinned [OF p(1) assms(2)] p(2) [OF that] by simp
  ultimately show ?thesis by (simp add: schedule_def r split: option.split)
qed

lemma spin_pinned:
  assumes "pinned s" "c < GJ_CPU_STATIC_MAX"
  shows "pinned (schedule_spin c s)"
proof -
  obtain n t m u where r: "pick_next c s = (n, t)" "pick_next c t = (m, u)" by (metis surj_pair)
  note p = pick_next_pinned [OF assms r(1)]
  note q = pick_next_pinned [OF p(1) assms(2) r(2)]
  have "pinned (set_pc c x u)" for x using same_place_pinned [OF _ q(1)] by simp
  moreover have "pinned (switch_to c i u)" if "m = Some i" for i using switch_pinned [OF q(1) assms(2)] q(2) [OF that] by simp
  ultimately show ?thesis using p(1) assms(1) by (simp add: schedule_spin_def r split: option.split)
qed

lemma free_slotD:
  assumes "free_slot s = Some i"
  shows "1 \<le> i" "i < GJ_MAX_THREADS" "th_u32State (thr s i) = GJ_THR_UNUSED \<or> th_u32State (thr s i) = GJ_THR_EXITED"
  using assms by (auto simp: free_slot_def find_Some_iff)

lemma find_usedD:
  assumes "find_used u s = Some i"
  shows "i < GJ_MAX_THREADS" "th_u32Id (thr s i) = u" "th_u32State (thr s i) \<noteq> GJ_THR_UNUSED"
  using assms by (auto simp: find_used_def find_Some_iff)

lemma new_thread_pinned:
  assumes "pinned s" and i: "i < GJ_MAX_THREADS" "\<not> in_use i s" and a: "a \<noteq> 0xFF" and n: "th_u32State x \<noteq> GJ_THR_RUNNING"
  shows "pinned ((upd_thr i (\<lambda>_. x) (reset_slot i a s))\<lparr>g_u32NextId := k\<rparr>)"
    "c < GJ_CPU_STATIC_MAX \<Longrightarrow> c \<noteq> 0 \<Longrightarrow> a = of_nat c \<Longrightarrow> pinned ((upd_thr i (\<lambda>_. x) (reset_slot i a s))\<lparr>g_u32NextId := k, g_apIdle := (g_apIdle s)[c := Some i]\<rparr>)"
  using assms
  by (auto simp: pinned_def sched_wf_def in_use_def upd_thr_def reset_slot_def thread_current_def nth_upd split: if_splits)

lemma create_pinned:
  assumes "pinned s" "slot_left s"
  shows "pinned (snd (thread_create c pProc pfn pArg s))"
proof (cases "free_slot s")
  case (Some i)
  then show ?thesis using new_thread_pinned(1) [OF assms(1) free_slotD(2) [OF Some], of 0] assms(2)
    by (simp add: thread_create_def slot_left_def Let_def)
qed (use assms in \<open>simp add: thread_create_def\<close>)

lemma create_user_pinned:
  assumes "pinned s" "slot_left s"
  shows "pinned (snd (create_user_with f c pProc e st s))"
proof -
  obtain u t where r: "thread_create c pProc None 0 s = (u, t)" by fastforce
  have t: "pinned t" using create_pinned [OF assms, of c pProc None 0] r by simp
  then have "pinned (upd_thr i (\<lambda>t. t\<lparr>th_u32Flags := th_u32Flags t OR f, th_u64UserRip := e, th_u64UserRsp := st, th_pfnEntry := None\<rparr>) t)" for i
    by (intro same_place_pinned [OF same_place_thr]) simp_all
  then show ?thesis using t assms(1) by (simp add: create_user_with_def r split: option.split)
qed

lemma set_cpu_pinned:
  assumes "pinned s" "u32Cpu < 16" "movable u s"
  shows "pinned (thread_set_cpu u u32Cpu s)"
proof (cases "find_used u s")
  case (Some i)
  have "ucast u32Cpu \<noteq> (0xFF :: u8)"
  proof
    assume "ucast u32Cpu = (0xFF :: u8)"
    then have "unat (ucast u32Cpu :: u8) = 255" by simp
    moreover have "unat u32Cpu < 16" using assms(2) by (simp add: word_less_nat_alt)
    ultimately show False by (simp add: unsigned_ucast_eq take_bit_nat_eq_self)
  qed
  then show ?thesis
    using assms Some find_usedD(1) [OF Some]
    by (auto simp: thread_set_cpu_def movable_def pinned_def sched_wf_def in_use_def thread_current_def nth_upd split: if_splits)
qed (use assms in \<open>simp add: thread_set_cpu_def\<close>)

lemma ap_idle_pinned:
  assumes "pinned s" "slot_left s"
  shows "pinned (snd (thread_init_ap_idle c d s))"
proof (cases "d = 0 \<or> 16 \<le> d \<or> g_apIdle s ! d \<noteq> None \<or> free_slot s = None")
  case True
  then show ?thesis using assms(1) by (auto simp: thread_init_ap_idle_def)
next
  case False
  then obtain i where i: "free_slot s = Some i" "d \<noteq> 0" "d < 16" "g_apIdle s ! d = None" by auto
  have "of_nat d \<noteq> (0xFF :: u8)"
  proof
    assume "of_nat d = (0xFF :: u8)"
    then have "unat (of_nat d :: u8) = 255" by simp
    then show False using i(3) by (simp add: unat_of_nat take_bit_nat_eq_self)
  qed
  from new_thread_pinned(2) [OF assms(1) free_slotD(2) [OF i(1)] _ this _ i(3,2)] show ?thesis
    using i assms(2) by (simp add: thread_init_ap_idle_def slot_left_def Let_def reset_slot_def upd_thr_def)
qed

lemma ap_start_pinned:
  assumes "pinned s" "c < GJ_CPU_STATIC_MAX" "thread_current c s = None"
  shows "pinned (ap_start c s)"
proof (cases "cpu_idle c s")
  case (Some p)
  have wf: "sched_wf s" using assms(1) by (simp add: pinned_def)
  then have p: "g_apIdle s ! c = Some p" "p < GJ_MAX_THREADS" using Some assms(2) cpu_idle_eq [OF wf assms(2)] by (auto simp: sched_wf_def)
  let ?t = "upd_cpu c (\<lambda>q. q\<lparr>cp_pCurrent := Some p\<rparr>) (upd_thr p (\<lambda>t. t\<lparr>th_u32State := GJ_THR_RUNNING\<rparr>) s)"
  have cur: "thread_current d ?t = (if d = c then Some p else thread_current d s)" for d
    using sched_wfD(2) [OF wf] assms(2) by (simp add: thread_current_def upd_cpu_def upd_thr_def nth_upd)
  have run: "\<exists>d < GJ_CPU_STATIC_MAX. thread_current d ?t = Some i" if i: "i < GJ_MAX_THREADS" "th_u32State (thr ?t i) = GJ_THR_RUNNING" for i
  proof (cases "i = p")
    case True
    then show ?thesis using cur assms(2) by auto
  next
    case False
    then have "th_u32State (thr s i) = GJ_THR_RUNNING" using i by (simp add: upd_cpu_def upd_thr_def)
    then obtain d where "d < GJ_CPU_STATIC_MAX" "thread_current d s = Some i" using assms(1) i(1) unfolding pinned_def by blast
    then show ?thesis using cur assms(3) by (metis option.distinct(1))
  qed
  have "sched_wf ?t" using wf p(2) cur by (auto simp: sched_wf_def upd_cpu_def upd_thr_def)
  then have "pinned ?t" using assms(1,2) p(1) cur run by (auto simp: pinned_def upd_cpu_def upd_thr_def)
  then show ?thesis using same_place_pinned [of ?t] Some by (simp add: ap_start_def)
qed (use assms in \<open>simp add: ap_start_def\<close>)

lemma block_place:
  assumes "c < GJ_CPU_STATIC_MAX"
  shows "same_place s (s\<lparr>sc_threads := thread_block (thread_current c s) ob tag (sc_threads s)\<rparr>)"
  by (cases "thread_current c s") (auto simp: thread_block_def nth_upd intro!: same_place_threads split: if_splits)

lemma unblock_place: "runs c s \<Longrightarrow> same_place s (upd_thr (the (thread_current c s)) (\<lambda>t. t\<lparr>th_pBlockObj := None, th_u32BlockTag := 0, th_u32State := GJ_THR_RUNNING\<rparr>) s)"
  by (rule same_place_thr) (auto simp: runs_def)

text \<open>The actions that leave every thread where it is.\<close>

fun stays :: "sched_action \<Rightarrow> bool" where
  "stays (A_Schedule c) = False" | "stays (A_Yield c) = False" | "stays (A_Spin c) = False" | "stays (A_ExitSchedule c) = False"
| "stays (A_Create c pProc pfn pArg) = False" | "stays (A_CreateOn c pProc pfn pArg x) = False" | "stays (A_CreateUser c pProc e st) = False"
| "stays (A_CreateUser32 c pProc e st) = False" | "stays (A_SetCpu u x) = False" | "stays (A_ApIdle c d) = False" | "stays (A_ApStart c) = False"
| "stays _ = True"

lemma stays_place:
  assumes "sched_act a s = Some t" "stays a" "sched_wf s"
  shows "same_place s t"
proof (cases a)
  case (A_Block c ob tag)
  then show ?thesis using assms(1) block_place [of c s] by (auto simp: runs_def split: if_splits)
qed (use assms sched_wfD(1) [OF assms(3)] in \<open>auto simp: same_place_land same_place_exit same_place_pick unblock_place same_place_wake same_place_exec
    same_place_exit_process same_place_cpu thread_yield_request_def thread_yield_pending_def thread_set_qos_def thread_qos_boost_soft_def Let_def
    split: if_splits option.splits\<close>)

lemma orderly_pinned:
  assumes "orderly_step s t" "pinned s"
  shows "pinned t"
proof -
  obtain a where a: "orderly a s" "sched_act a s = Some t" using assms(1) by (auto simp: orderly_step_def)
  have wf: "sched_wf s" using assms(2) by (simp add: pinned_def)
  show ?thesis
  proof (cases "stays a")
    case True
    then show ?thesis using stays_place [OF a(2) _ wf] same_place_pinned assms(2) by blast
  next
    case False
    then show ?thesis
    proof (cases a)
      case (A_Yield c)
      then have c: "c < GJ_CPU_STATIC_MAX" "t = thread_yield c s" using a(2) by (auto simp: runs_def split: if_splits)
      have "pinned (s\<lparr>g_fYieldReq := False\<rparr>)" using same_place_pinned [OF _ assms(2)] by simp
      then show ?thesis using schedule_pinned c by (simp add: thread_yield_def)
    next
      case (A_CreateOn c pProc pfn pArg x)
      obtain u v where r: "thread_create c pProc pfn pArg s = (u, v)" by fastforce
      have "pinned v" using create_pinned [OF assms(2), of c pProc pfn pArg] a(1) A_CreateOn r by simp
      then show ?thesis using set_cpu_pinned [of v x u] a A_CreateOn r by (auto simp: thread_create_on_cpu_def split: if_splits)
    qed (use a assms(2) in \<open>auto simp: schedule_pinned spin_pinned create_pinned create_user_pinned thread_create_user_def thread_create_user32_def
        set_cpu_pinned ap_idle_pinned ap_start_pinned runs_def at_pc_def split: if_splits\<close>)
  qed
qed

lemma boot_wf:
  assumes "sched_boot s"
  shows "sched_wf s" "thread_current c s = (if c = 0 then Some 0 else None) \<or> GJ_CPU_STATIC_MAX \<le> c" "g_apIdle s = (replicate GJ_CPU_STATIC_MAX None)[0 := Some 0]"
    "g_aThrCpu s = replicate GJ_MAX_THREADS 0" "i < GJ_MAX_THREADS \<Longrightarrow> th_u32State (thr s i) = (if i = 0 then GJ_THR_RUNNING else GJ_THR_UNUSED)"
  using assms
  by (auto simp: sched_boot_def thread_init_def Let_def sched_wf_def thread_current_def upd_cpu_def upd_thr_def nth_upd no_thread_def split: if_splits)

lemma boot_pinned: "sched_boot s \<Longrightarrow> pinned s"
proof -
  assume b: "sched_boot s"
  have "\<exists>c < GJ_CPU_STATIC_MAX. thread_current c s = Some i" if "i < GJ_MAX_THREADS" "th_u32State (thr s i) = GJ_THR_RUNNING" for i
    using boot_wf(5) [OF b that(1)] that(2) boot_wf(2) [OF b, of 0] by (intro exI [of _ 0]) (auto split: if_splits)
  moreover have "g_aThrCpu s ! i = of_nat c" if "c < GJ_CPU_STATIC_MAX" "thread_current c s = Some i \<or> g_apIdle s ! c = Some i" for c i
    using that boot_wf(2) [OF b, of c] boot_wf(3,4) [OF b] by (auto simp: nth_upd split: if_splits)
  ultimately show ?thesis using boot_wf(1,4) [OF b] by (auto simp: pinned_def)
qed

interpretation pinned_sched: inv_system orderly_step pinned sched_boot
  by unfold_locales (auto intro: orderly_pinned boot_pinned)


text \<open>
  C21: while slots are recycled only after their processor has left them, and threads are moved only while they are off and only to one
  processor, never to all of them, no thread is ever current on two processors, over every interleaving of all operations; a running thread is
  current on the processor it is pinned to, and so each processor has at most one.
\<close>

theorem sched_exclusive:
  assumes "reach sched_boot orderly_step s"
  shows "(\<forall>c < GJ_CPU_STATIC_MAX. \<forall>d < GJ_CPU_STATIC_MAX. \<forall>i. thread_current c s = Some i \<and> thread_current d s = Some i \<longrightarrow> c = d)
    \<and> (\<forall>i < GJ_MAX_THREADS. th_u32State (thr s i) = GJ_THR_RUNNING \<longrightarrow>
         (\<exists>c < GJ_CPU_STATIC_MAX. thread_current c s = Some i \<and> g_aThrCpu s ! i = of_nat c))"
proof -
  have p: "pinned s" using pinned_sched.reach_holds [OF assms] .
  have "c = d" if "c < GJ_CPU_STATIC_MAX" "d < GJ_CPU_STATIC_MAX" "thread_current c s = Some i" "thread_current d s = Some i" for c d i
  proof -
    have "(of_nat c :: u8) = of_nat d" using p that unfolding pinned_def by metis
    then have "unat (of_nat c :: u8) = unat (of_nat d :: u8)" by simp
    then show ?thesis using that(1,2) by (simp add: unat_of_nat take_bit_nat_eq_self)
  qed
  then show ?thesis using p unfolding pinned_def by blast
qed

text \<open>A concrete system: two processors, the second with its idle thread.\<close>

definition wit_sched :: sched_state where
  "wit_sched = thread_init 0 \<lparr>sc_threads = [], sc_cpus = replicate GJ_CPU_STATIC_MAX \<lparr>cp_u64KernelRsp = 0, cp_u64UserRsp = 0, cp_u64UserRip = 0,
       cp_u64UserRflags = 0, cp_pCurrent = None, cp_u64Cr3 = 0x1000, cp_pc = Pc_Run\<rparr>,
     sc_procs = (\<lambda>_. \<lparr>pr_u64Cr3 = 0x5000, pr_u32Alive = 1\<rparr>), sc_kstack = (\<lambda>i. of_nat i * 0x10000 + 0x10000), sc_kernel_cr3 = 0x1000,
     g_pIdle = None, g_apIdle = [], g_u32NextId = 1, g_aThrCpu = [], g_aThrQos = [], g_aThrBoost = [], g_aThrLastPick = [], g_u32PickGen = 0,
     g_aRobin = replicate GJ_CPU_STATIC_MAX 0, g_fYieldReq = False\<rparr>"

lemma wit_sched_boot: "sched_boot wit_sched"
  unfolding sched_boot_def wit_sched_def by (rule exI, rule conjI [OF refl]) simp

lemma run_reach: "reach sched_boot sched_step s \<Longrightarrow> sched_run as s = Some t \<Longrightarrow> reach sched_boot sched_step t"
proof (induction "as" arbitrary: s)
  case (Cons a "as")
  then obtain u where "sched_act a s = Some u" "sched_run as u = Some t" by (auto split: option.splits)
  then show ?case using Cons.IH reach_step [OF Cons.prems(1)] by (auto simp: sched_step_def)
qed simp

definition wit_two :: "sched_action list" where
  "wit_two = [A_ApIdle 0 1, A_ApStart 1]"

fun orderly_run :: "sched_action list \<Rightarrow> sched_state \<Rightarrow> bool" where
  "orderly_run [] s = True"
| "orderly_run (a # as) s = (orderly a s \<and> (case sched_act a s of None \<Rightarrow> False | Some t \<Rightarrow> orderly_run as t))"

lemma orderly_run_reach:
  "reach sched_boot orderly_step s \<Longrightarrow> orderly_run as s \<Longrightarrow> sched_run as s = Some t \<Longrightarrow> reach sched_boot orderly_step t"
proof (induction "as" arbitrary: s)
  case (Cons a "as")
  then obtain u where u: "orderly a s" "sched_act a s = Some u" "sched_run as u = Some t" "orderly_run as u" by (auto split: option.splits)
  then have "orderly_step s u" by (auto simp: orderly_step_def)
  then show ?case using Cons.IH [OF reach_step [OF Cons.prems(1)]] u(3,4) by blast
qed simp

definition wit_pair :: "sched_action list" where
  "wit_pair = wit_two @ [A_CreateOn 0 None (Some 7) 0 1, A_Schedule 1]"

lemma in_use_code [code]: "in_use i s = list_ex (\<lambda>c. thread_current c s = Some i \<or> g_apIdle s ! c = Some i) [0..<GJ_CPU_STATIC_MAX]"
  by (auto simp: in_use_def list_ex_iff)

lemma wit_pair_run:
  "orderly_run wit_pair wit_sched \<and> map_option (\<lambda>s. th_u32State (thr s 2) = GJ_THR_RUNNING) (sched_run wit_pair wit_sched) = Some True"
  by code_simp

theorem sched_exclusive_witness:
  "\<exists>s. sched_run wit_pair wit_sched = Some s \<and> th_u32State (thr s 2) = GJ_THR_RUNNING \<and> (\<exists>c < GJ_CPU_STATIC_MAX. thread_current c s = Some 2 \<and> g_aThrCpu s ! 2 = of_nat c)"
proof -
  obtain s where s: "sched_run wit_pair wit_sched = Some s" "th_u32State (thr s 2) = GJ_THR_RUNNING" using wit_pair_run by (cases "sched_run wit_pair wit_sched") auto
  have "reach sched_boot orderly_step wit_sched" by (rule reach_init) (rule wit_sched_boot)
  from sched_exclusive [OF orderly_run_reach [OF this _ s(1)]] wit_pair_run s show ?thesis by auto
qed

lemma wit_reach: "sched_run as wit_sched = Some s \<Longrightarrow> reach sched_boot sched_step s"
  using run_reach reach_init [of sched_boot wit_sched sched_step] wit_sched_boot by blast

section \<open>The choice\<close>

text \<open>
  C24: the scheduler picks a runnable thread allowed on its processor that no other such thread outranks: of the
  highest effective class, and of those the one not picked for the longest time.  With none it falls back to the idle
  thread of the processor, and to the current one only where there is no idle thread.
\<close>

theorem sched_pick_exact:
  assumes "c < GJ_CPU_STATIC_MAX"
  shows "if \<exists>i < GJ_MAX_THREADS. pick_candidate c s i
    then \<exists>b < GJ_MAX_THREADS. fst (pick_next c s) = Some b \<and> pick_candidate c s b
      \<and> (\<forall>i < GJ_MAX_THREADS. pick_candidate c s i \<longrightarrow>
           qos_rank_eff i s < qos_rank_eff b s \<or> (qos_rank_eff i s = qos_rank_eff b s \<and> pick_wait s i \<le> pick_wait s b))
    else fst (pick_next c s) = (case cpu_idle c s of
        Some p \<Rightarrow> if th_u32State (thr s p) \<noteq> GJ_THR_EXITED then Some p else thread_current c s
      | None \<Rightarrow> thread_current c s)"
  using pick_next_picked [OF assms, of s] unfolding picked_def outranks_def .

lemma wit_two_run: "map_option (\<lambda>s. pick_candidate 0 s 2) (sched_run (wit_two @ [A_Create 0 None (Some 7) 0]) wit_sched) = Some True"
  by code_simp

theorem sched_pick_exact_witness:
  "\<exists>s b. sched_run (wit_two @ [A_Create 0 None (Some 7) 0]) wit_sched = Some s \<and> fst (pick_next 0 s) = Some b \<and> pick_candidate 0 s b"
proof -
  obtain s where s: "sched_run (wit_two @ [A_Create 0 None (Some 7) 0]) wit_sched = Some s" "pick_candidate 0 s 2"
    using wit_two_run by (cases "sched_run (wit_two @ [A_Create 0 None (Some 7) 0]) wit_sched") auto
  have "\<exists>i < GJ_MAX_THREADS. pick_candidate 0 s i" using s(2) by (intro exI [of _ 2]) simp
  then show ?thesis using sched_pick_exact [of 0 s] s(1) by auto
qed

end
