(* ===== verification/Sched_Fair.thy ===== *)
theory Sched_Fair
  imports Sched_Props
begin

text \<open>
  Fairness and context: a ready thread of the highest class is passed over a bounded number of times, the return
  target of a system call follows its thread, and nothing of a dead process is entered.
\<close>

section \<open>Waiting times\<close>

lemma ages_upd [simp]:
  "g_aThrLastPick (upd_thr i f s) = g_aThrLastPick s" "g_u32PickGen (upd_thr i f s) = g_u32PickGen s"
  "g_aThrLastPick (upd_cpu c g s) = g_aThrLastPick s" "g_u32PickGen (upd_cpu c g s) = g_u32PickGen s"
  "g_aThrLastPick (do_wakes w s) = g_aThrLastPick s" "g_u32PickGen (do_wakes w s) = g_u32PickGen s"
  "g_aThrLastPick (cpu_load_cr3 c x s) = g_aThrLastPick s" "g_u32PickGen (cpu_load_cr3 c x s) = g_u32PickGen s"
  "g_aThrLastPick (set_pc c pc s) = g_aThrLastPick s" "g_u32PickGen (set_pc c pc s) = g_u32PickGen s"
  by (simp_all add: upd_thr_def upd_cpu_def do_wakes_def cpu_load_cr3_def set_pc_def)

lemma ages_ops [simp]:
  "g_aThrLastPick (process_as_activate c p s) = g_aThrLastPick s" "g_u32PickGen (process_as_activate c p s) = g_u32PickGen s"
  "g_aThrLastPick (thread_install_kstack c i s) = g_aThrLastPick s" "g_u32PickGen (thread_install_kstack c i s) = g_u32PickGen s"
  "g_aThrLastPick (thread_restore_sys_user c i s) = g_aThrLastPick s" "g_u32PickGen (thread_restore_sys_user c i s) = g_u32PickGen s"
  "g_aThrLastPick (thread_save_sys_user c i s) = g_aThrLastPick s" "g_u32PickGen (thread_save_sys_user c i s) = g_u32PickGen s"
  "g_aThrLastPick (leave_thread c i s) = g_aThrLastPick s" "g_u32PickGen (leave_thread c i s) = g_u32PickGen s"
  by (simp_all add: process_as_activate_def thread_install_kstack_def thread_restore_sys_user_def thread_save_sys_user_def leave_thread_def Let_def)

lemma ages_more [simp]:
  "g_aThrLastPick (thread_exit d c s) = g_aThrLastPick s" "g_u32PickGen (thread_exit d c s) = g_u32PickGen s"
  "g_aThrLastPick (switch_to c i s) = g_aThrLastPick s" "g_u32PickGen (switch_to c i s) = g_u32PickGen s"
  by (simp_all add: thread_exit_def switch_to_def Let_def split: option.split)

lemma ages_land [simp]: "g_aThrLastPick (land d c s) = g_aThrLastPick s" "g_u32PickGen (land d c s) = g_u32PickGen s"
  by (simp_all add: land_def thread_trampoline_def schedule_resume_def Let_def split: option.split resume_point.split)

lemma ages_exit_loop [simp]:
  "g_aThrLastPick (snd (exit_loop d pCur p is n s)) = g_aThrLastPick s" "g_u32PickGen (snd (exit_loop d pCur p is n s)) = g_u32PickGen s"
  by (induction "is" arbitrary: n s) (simp_all add: Let_def)

text \<open>The actions that leave the waiting times alone, and those of a processor that picks.\<close>

fun picks_by :: "nat \<Rightarrow> sched_action \<Rightarrow> bool" where
  "picks_by c (A_Schedule d) = (d = c)"
| "picks_by c (A_Yield d) = (d = c)"
| "picks_by c (A_ExitSchedule d) = (d = c)"
| "picks_by c _ = False"

fun calm :: "sched_action \<Rightarrow> bool" where
  "calm (A_Spin c) = False" | "calm (A_Peek c) = False" | "calm (A_Create c pProc pfn pArg) = False" | "calm (A_CreateOn c pProc pfn pArg x) = False"
| "calm (A_CreateUser c pProc e st) = False" | "calm (A_CreateUser32 c pProc e st) = False" | "calm (A_ApIdle c d) = False"
| "calm _ = True"

lemma ages_same:
  assumes "sched_act a s = Some u" "calm a" "\<And>c. \<not> picks_by c a"
  shows "g_aThrLastPick u = g_aThrLastPick s" "g_u32PickGen u = g_u32PickGen s"
proof -
  have "g_aThrLastPick u = g_aThrLastPick s \<and> g_u32PickGen u = g_u32PickGen s"
    by (cases a) (use assms in \<open>auto simp: thread_yield_request_def thread_yield_pending_def thread_exec_replace_def thread_exit_process_def thread_set_qos_def
      thread_qos_boost_soft_def thread_set_cpu_def ap_start_def Let_def split: if_splits option.splits\<close>)
  then show "g_aThrLastPick u = g_aThrLastPick s" "g_u32PickGen u = g_u32PickGen s" by auto
qed

definition age :: "sched_state \<Rightarrow> nat \<Rightarrow> nat" where
  "age s i = unat (pick_wait s i)"

text \<open>The threads that have waited at least as long.\<close>

definition elders :: "sched_state \<Rightarrow> nat \<Rightarrow> nat set" where
  "elders s t = {i. i < GJ_MAX_THREADS \<and> i \<noteq> t \<and> age s t \<le> age s i}"

lemma elders_finite [simp]: "finite (elders s t)"
  by (simp add: elders_def)

lemma elders_card: "t < GJ_MAX_THREADS \<Longrightarrow> card (elders s t) \<le> 31"
proof -
  assume "t < GJ_MAX_THREADS"
  then have "card ({..<GJ_MAX_THREADS} - {t}) = 31" by simp
  moreover have "elders s t \<subseteq> {..<GJ_MAX_THREADS} - {t}" by (auto simp: elders_def)
  ultimately show ?thesis using card_mono [of "{..<GJ_MAX_THREADS} - {t}"] by (metis finite_Diff finite_lessThan)
qed

text \<open>A pick of \<open>b\<close> makes everybody else one older and takes \<open>b\<close> out of the elders of a thread that waits.\<close>

lemma note_pick_ages:
  assumes last: "g_aThrLastPick u = (g_aThrLastPick s)[b := g_u32PickGen s]" "g_u32PickGen u = g_u32PickGen s + 1"
    and l: "length (g_aThrLastPick s) = GJ_MAX_THREADS" and b: "b < GJ_MAX_THREADS" "b \<noteq> t" and t: "0 < age s t" "age s t + 1 < 2 ^ 32"
  shows "age u t = age s t + 1" "elders u t \<subseteq> elders s t - {b}"
proof -
  have w: "pick_wait u i = (if i = b then 1 else pick_wait s i + 1)" for i using last l b by (simp add: pick_wait_def nth_upd)
  have o: "age u b = 1" by (simp add: age_def w)
  have inc: "unat (x + 1 :: u32) = (if unat x + 1 < 2 ^ 32 then unat x + 1 else 0)" for x
  proof -
    have "unat (x + 1) = (unat x + 1) mod 2 ^ 32" by (simp add: unat_word_ariths)
    moreover have "unat x < 2 ^ 32" using unsigned_less [of x] by simp
    ultimately show ?thesis by (auto simp: mod_if)
  qed
  show at: "age u t = age s t + 1" using b(2) t(2) by (simp add: age_def w inc)
  have le: "age s t \<le> age s i" if "i \<noteq> b" "age u t \<le> age u i" for i
    using that at by (simp add: age_def w inc split: if_splits)
  have nb: "\<not> age u t \<le> age u b" using at o t(1) by simp
  show "elders u t \<subseteq> elders s t - {b}"
  proof
    fix x assume x: "x \<in> elders u t"
    then have "x \<noteq> b" using nb by (auto simp: elders_def)
    then show "x \<in> elders s t - {b}" using x le by (simp add: elders_def)
  qed
qed

section \<open>Bounded waiting\<close>

text \<open>\<open>t\<close> is ready for the processor \<open>c\<close>, on no processor, and nobody ready there is of a higher class.\<close>

definition waiting :: "nat \<Rightarrow> nat \<Rightarrow> sched_state \<Rightarrow> bool" where
  "waiting c t s \<longleftrightarrow> pick_candidate c s t \<and> (\<forall>d < GJ_CPU_STATIC_MAX. thread_current d s \<noteq> Some t)
     \<and> (\<forall>i < GJ_MAX_THREADS. pick_candidate c s i \<longrightarrow> qos_rank_eff i s \<le> qos_rank_eff t s)"

lemma waiting_code [code]:
  "waiting c t s \<longleftrightarrow> pick_candidate c s t \<and> list_all (\<lambda>d. thread_current d s \<noteq> Some t) [0..<GJ_CPU_STATIC_MAX]
     \<and> list_all (\<lambda>i. pick_candidate c s i \<longrightarrow> qos_rank_eff i s \<le> qos_rank_eff t s) [0..<GJ_MAX_THREADS]"
  by (auto simp: waiting_def list_all_iff)

fun kept_waiting :: "nat \<Rightarrow> nat \<Rightarrow> sched_action list \<Rightarrow> sched_state \<Rightarrow> bool" where
  "kept_waiting c t [] s = waiting c t s"
| "kept_waiting c t (a # as) s = (waiting c t s \<and> calm a \<and> (case sched_act a s of None \<Rightarrow> False | Some u \<Rightarrow> kept_waiting c t as u))"

lemma kept_waiting_now: "kept_waiting c t as s \<Longrightarrow> waiting c t s"
  by (cases "as") auto

lemma pick_note:
  assumes "pick_next d s = (n, v)"
  shows "(g_aThrLastPick v = g_aThrLastPick s \<and> g_u32PickGen v = g_u32PickGen s \<and> n = thread_current d s)
    \<or> (\<exists>b. n = Some b \<and> g_aThrLastPick v = (g_aThrLastPick s)[b := g_u32PickGen s] \<and> g_u32PickGen v = g_u32PickGen s + 1)"
proof -
  define k where "k = (if GJ_CPU_STATIC_MAX \<le> d then 0 else d)"
  show ?thesis
  proof (cases "pick_loop k s (robin_order (g_aRobin s ! k)) None")
    case (Some x)
    then show ?thesis using assms by (cases x) (auto simp: pick_next_def note_pick_def Let_def k_def [symmetric])
  next
    case None
    show ?thesis
    proof (cases "\<exists>p. cpu_idle k s = Some p \<and> th_u32State (thr s p) \<noteq> GJ_THR_EXITED")
      case True
      then obtain p where "cpu_idle k s = Some p" "th_u32State (thr s p) \<noteq> GJ_THR_EXITED" by blast
      then show ?thesis using assms None
        by (intro disjI2 exI [of _ p]) (auto simp: pick_next_def note_pick_def Let_def k_def [symmetric])
    next
      case False
      then show ?thesis using assms None by (auto simp: pick_next_def Let_def k_def [symmetric] split: option.splits)
    qed
  qed
qed

lemma pick_note_candidate:
  assumes "c < GJ_CPU_STATIC_MAX" "\<exists>i < GJ_MAX_THREADS. pick_candidate c s i" "pick_next c s = (Some b, v)"
  shows "g_aThrLastPick v = (g_aThrLastPick s)[b := g_u32PickGen s]" "g_u32PickGen v = g_u32PickGen s + 1"
  using assms pick_loop_spec [of c s "g_aRobin s ! c"]
  by (auto simp: pick_next_def note_pick_def best_of_def Let_def split: option.splits)

lemma schedule_current:
  assumes "sched_wf s" "d < GJ_CPU_STATIC_MAX" and r: "pick_next d s = (Some n, v)"
  shows "thread_current d (schedule ret d s) = Some n"
proof -
  note p = pick_next_place [OF assms]
  have wf: "sched_wf v" using same_place_wf [OF p(1) assms(1)] .
  have "thread_current d (set_pc d x v) = thread_current d v" for x using same_place_load(2) [of v d x] by (simp add: same_place_def)
  then show ?thesis using switch_fields(1) [OF wf assms(2) p(2)] by (simp add: schedule_def r)
qed

lemma ages_schedule:
  assumes "pick_next d s = (n, v)"
  shows "g_aThrLastPick (schedule ret d s) = g_aThrLastPick v" "g_u32PickGen (schedule ret d s) = g_u32PickGen v"
  by (simp_all add: schedule_def assms split: option.split)

text \<open>One call of \<^verbatim>\<open>schedule\<close> somewhere.\<close>

lemma schedule_ages:
  assumes wf: "sched_wf s" "d < GJ_CPU_STATIC_MAX" "t < GJ_MAX_THREADS" and w: "waiting c t s" "waiting c t u" and u: "u = schedule ret d s"
    and t: "0 < age s t" "age s t + 1 < 2 ^ 32" and c: "c < GJ_CPU_STATIC_MAX"
  shows "age s t \<le> age u t" "age u t \<le> age s t + 1" "elders u t \<subseteq> elders s t" "d = c \<Longrightarrow> elders u t \<subset> elders s t"
proof -
  obtain n v where r: "pick_next d s = (n, v)" by fastforce
  have av: "g_aThrLastPick u = g_aThrLastPick v" "g_u32PickGen u = g_u32PickGen v" using ages_schedule [OF r] u by simp_all
  have nt: "n \<noteq> Some t" using schedule_current [OF wf(1,2)] r w(2) u wf(2) by (auto simp: waiting_def)
  have l: "length (g_aThrLastPick s) = GJ_MAX_THREADS" using wf(1) by auto
  have one: "age u t = age s t + 1 \<and> elders u t \<subseteq> elders s t - {b}"
    if "n = Some b" "g_aThrLastPick v = (g_aThrLastPick s)[b := g_u32PickGen s]" "g_u32PickGen v = g_u32PickGen s + 1" for b
  proof -
    have "b < GJ_MAX_THREADS" using pick_next_place(2) [OF wf(1,2)] r that(1) by blast
    then show ?thesis using note_pick_ages [OF _ _ l _ _ t, of u b] nt that av by auto
  qed
  have "age s t \<le> age u t \<and> age u t \<le> age s t + 1 \<and> elders u t \<subseteq> elders s t"
    using pick_note [OF r]
  proof
    assume "g_aThrLastPick v = g_aThrLastPick s \<and> g_u32PickGen v = g_u32PickGen s \<and> n = thread_current d s"
    then show ?thesis using av by (simp add: age_def elders_def pick_wait_def)
  qed (use one in auto)
  then show "age s t \<le> age u t" "age u t \<le> age s t + 1" "elders u t \<subseteq> elders s t" by auto
  assume d: "d = c"
  have ex: "\<exists>i < GJ_MAX_THREADS. pick_candidate c s i" using w(1) wf(3) by (auto simp: waiting_def)
  have "picked c s n" using pick_next_picked [OF c, of s] r d by simp
  then obtain b where b: "b < GJ_MAX_THREADS" "n = Some b" "pick_candidate c s b" "outranks s b t"
    unfolding picked_def using ex w(1) wf(3) by (auto simp: waiting_def)
  have "qos_rank_eff b s \<le> qos_rank_eff t s" using w(1) b(1,3) by (simp add: waiting_def)
  then have "pick_wait s t \<le> pick_wait s b" using b(4) by (auto simp: outranks_def)
  then have "b \<in> elders s t" using b(1,2) nt by (auto simp: elders_def age_def word_le_nat_alt)
  moreover have "elders u t \<subseteq> elders s t - {b}" using one [OF b(2)] pick_note_candidate [OF c ex] r d b(2) by simp
  ultimately show "elders u t \<subset> elders s t" by auto
qed

text \<open>One action, and a run.\<close>

lemma yield_req [simp]:
  "sched_wf (s\<lparr>g_fYieldReq := y\<rparr>) = sched_wf s" "pick_candidate c (s\<lparr>g_fYieldReq := y\<rparr>) = pick_candidate c s" "thread_current c (s\<lparr>g_fYieldReq := y\<rparr>) = thread_current c s"
  "qos_rank_eff i (s\<lparr>g_fYieldReq := y\<rparr>) = qos_rank_eff i s" "pick_wait (s\<lparr>g_fYieldReq := y\<rparr>) = pick_wait s"
  by (simp_all add: sched_wf_def pick_candidate_def thr_ok_on_cpu_def cpu_idle_def thread_current_def qos_rank_eff_def pick_wait_def Let_def fun_eq_iff)

lemma calm_step:
  assumes wf: "sched_wf s" "t < GJ_MAX_THREADS" "c < GJ_CPU_STATIC_MAX" and a: "sched_act a s = Some u" "calm a" and w: "waiting c t s" "waiting c t u"
    and t: "0 < age s t" "age s t + 1 < 2 ^ 32"
  shows "age s t \<le> age u t \<and> age u t \<le> age s t + 1 \<and> elders u t \<subseteq> elders s t \<and> (picks_by c a \<longrightarrow> elders u t \<subset> elders s t)"
proof (cases "\<exists>d. picks_by d a")
  case False
  note e = ages_same [OF a]
  have "age u i = age s i" for i using e False by (simp add: age_def pick_wait_def)
  then show ?thesis using False by (simp add: elders_def)
next
  case True
  have wy: "sched_wf (s\<lparr>g_fYieldReq := False\<rparr>)" "waiting c t (s\<lparr>g_fYieldReq := False\<rparr>)" "age (s\<lparr>g_fYieldReq := False\<rparr>) = age s" "elders (s\<lparr>g_fYieldReq := False\<rparr>) = elders s"
    using wf(1) w(1) by (simp_all add: waiting_def age_def elders_def fun_eq_iff)
  show ?thesis
  proof (cases a)
    case (A_Yield d)
    then have d: "d < GJ_CPU_STATIC_MAX" "u = schedule Pc_Run d (s\<lparr>g_fYieldReq := False\<rparr>)" using a(1) by (auto simp: runs_def thread_yield_def split: if_splits)
    from schedule_ages [OF wy(1) d(1) wf(2) wy(2) w(2) d(2) _ _ wf(3)] t show ?thesis using A_Yield by (auto simp: wy)
  next
    case (A_Schedule d)
    then have d: "d < GJ_CPU_STATIC_MAX" "u = schedule Pc_Run d s" using a(1) by (auto simp: runs_def split: if_splits)
    from schedule_ages [OF wf(1) d(1) wf(2) w d(2) t wf(3)] show ?thesis using A_Schedule by auto
  next
    case (A_ExitSchedule d)
    then have d: "d < GJ_CPU_STATIC_MAX" "u = schedule Pc_Halt d s" using a(1) by (auto simp: at_pc_def split: if_splits)
    from schedule_ages [OF wf(1) d(1) wf(2) w d(2) t wf(3)] show ?thesis using A_ExitSchedule by auto
  qed (use True in auto)
qed

lemma pick_next_wf: "sched_wf s \<Longrightarrow> pick_next c s = (n, v) \<Longrightarrow> sched_wf v"
  using same_place_wf [OF same_place_pick, of s c] by simp

lemma schedule_wf:
  assumes "sched_wf s" "c < GJ_CPU_STATIC_MAX"
  shows "sched_wf (schedule ret c s)" "sched_wf (schedule_spin c s)"
proof -
  have sw: "sched_wf (switch_to c n v)" "sched_wf (set_pc c x v)" if "sched_wf s" "pick_next c s = (Some n, v)" for s n v x
    using switch_fields(4) [OF pick_next_wf [OF that] assms(2) pick_next_place(2) [OF that(1) assms(2) that(2)]]
      same_place_wf [OF same_place_load(2) pick_next_wf [OF that]] by auto
  obtain n v m w where r: "pick_next c s = (n, v)" "pick_next c v = (m, w)" by (metis surj_pair)
  have v: "sched_wf v" "sched_wf w" using pick_next_wf assms(1) r by blast+
  have pc: "sched_wf (set_pc c x v)" "sched_wf (set_pc c x w)" for x using same_place_wf [OF same_place_load(2)] v by blast+
  show "sched_wf (schedule ret c s)" using r sw [OF assms(1)] pc by (auto simp: schedule_def split: option.split)
  show "sched_wf (schedule_spin c s)"
    using r sw [OF v(1)] v assms(1) pc by (auto simp: schedule_spin_def split: option.split)
qed

lemma create_wf: "sched_wf s \<Longrightarrow> sched_wf (snd (thread_create c pProc pfn pArg s))"
  by (auto simp: thread_create_def sched_wf_def upd_thr_def reset_slot_def thread_current_def Let_def split: option.split)

lemma set_cpu_wf: "sched_wf s \<Longrightarrow> sched_wf (thread_set_cpu u x s)"
  by (auto simp: thread_set_cpu_def sched_wf_def thread_current_def split: option.split)

lemma create_user_wf: "sched_wf s \<Longrightarrow> sched_wf (snd (create_user_with f c pProc e st s))"
proof -
  assume "sched_wf s"
  moreover obtain u t where r: "thread_create c pProc None 0 s = (u, t)" by fastforce
  moreover have "sched_wf t \<Longrightarrow> sched_wf (upd_thr i g t)" for i g by (simp add: sched_wf_def upd_thr_def thread_current_def)
  ultimately show ?thesis using create_wf [of s c pProc None 0] by (simp add: create_user_with_def split: option.split)
qed

lemma ap_wf:
  assumes "sched_wf s"
  shows "sched_wf (snd (thread_init_ap_idle c d s))" "e < GJ_CPU_STATIC_MAX \<Longrightarrow> sched_wf (ap_start e s)"
proof -
  show "sched_wf (snd (thread_init_ap_idle c d s))"
    using assms free_slotD(2) [of s] unfolding thread_init_ap_idle_def
    by (auto simp: sched_wf_def upd_thr_def reset_slot_def thread_current_def Let_def nth_upd split: option.split if_splits)
  assume e: "e < GJ_CPU_STATIC_MAX"
  show "sched_wf (ap_start e s)"
  proof (cases "cpu_idle e s")
    case (Some p)
    then have p: "p < GJ_MAX_THREADS" using cpu_idle_eq [OF assms e] assms e by (auto simp: sched_wf_def)
    let ?t = "upd_cpu e (\<lambda>q. q\<lparr>cp_pCurrent := Some p\<rparr>) (upd_thr p (\<lambda>t. t\<lparr>th_u32State := GJ_THR_RUNNING\<rparr>) s)"
    have "sched_wf ?t" using assms p by (auto simp: sched_wf_def upd_cpu_def upd_thr_def thread_current_def nth_upd split: if_splits)
    then show ?thesis using same_place_wf [of ?t] Some by (simp add: ap_start_def)
  qed (use assms in \<open>simp add: ap_start_def\<close>)
qed

lemma act_wf:
  assumes "sched_act a s = Some u" "sched_wf s"
  shows "sched_wf u"
proof (cases "stays a")
  case True
  then show ?thesis using stays_place assms same_place_wf by blast
next
  case False
  then show ?thesis
  proof (cases a)
    case (A_CreateOn c pProc pfn pArg x)
    then show ?thesis using assms create_wf [OF assms(2), of c pProc pfn pArg] set_cpu_wf
      by (auto simp: thread_create_on_cpu_def split: if_splits prod.splits)
  qed (use assms in \<open>auto simp: schedule_wf create_wf create_user_wf thread_create_user_def thread_create_user32_def set_cpu_wf ap_wf thread_yield_def
      runs_def at_pc_def split: if_splits\<close>)
qed

interpretation sched_shape: inv_system sched_step sched_wf sched_boot
  by unfold_locales (auto simp: sched_step_def intro: act_wf boot_wf(1))

lemma bounded_run:
  assumes "sched_wf s" "t < GJ_MAX_THREADS" "c < GJ_CPU_STATIC_MAX" "kept_waiting c t as s" "0 < age s t" "age s t + length as < 2 ^ 32"
  shows "length (filter (picks_by c) as) \<le> card (elders s t)"
  using assms
proof (induction "as" arbitrary: s)
  case (Cons a "as")
  obtain u where u: "sched_act a s = Some u" "kept_waiting c t as u" "calm a" "waiting c t s" using Cons.prems(4) by (auto split: option.splits)
  note st = calm_step [OF Cons.prems(1,2,3) u(1,3,4) kept_waiting_now [OF u(2)] Cons.prems(5)]
  have k: "age s t \<le> age u t \<and> age u t \<le> age s t + 1 \<and> elders u t \<subseteq> elders s t \<and> (picks_by c a \<longrightarrow> elders u t \<subset> elders s t)"
    using st Cons.prems(6) by simp
  have "length (filter (picks_by c) as) \<le> card (elders u t)"
    using Cons.IH [OF act_wf [OF u(1) Cons.prems(1)] Cons.prems(2,3) u(2)] Cons.prems(5,6) k by simp
  moreover have "card (elders u t) \<le> card (elders s t)" using k by (intro card_mono) auto
  moreover have "picks_by c a \<Longrightarrow> card (elders u t) < card (elders s t)" using k by (intro psubset_card_mono) auto
  ultimately show ?case by auto
qed simp

text \<open>
  C23: a thread that stays ready for a processor, on no processor and not outranked by class there, is passed over by
  that processor at most 31 times, whatever all processors do meanwhile, as long as no thread is created (a
  new one counts as having waited longest) and the idle loop does not peek.
\<close>

theorem sched_bounded_wait:
  assumes "reach sched_boot sched_step s" and "t < GJ_MAX_THREADS" "c < GJ_CPU_STATIC_MAX" and "kept_waiting c t as s"
    and "0 < pick_wait s t" "unat (pick_wait s t) + length as < 2 ^ 32"
  shows "length (filter (picks_by c) as) \<le> 31"
proof -
  have wf: "sched_wf s" using sched_shape.reach_holds [OF assms(1)] .
  have "0 < age s t" "age s t + length as < 2 ^ 32" using assms(5,6) by (simp_all add: age_def unat_gt_0 word_neq_0_conv [symmetric])
  from bounded_run [OF wf assms(2-4) this] elders_card [OF assms(2), of s] show ?thesis by simp
qed

definition wit_ready :: "sched_action list" where
  "wit_ready = [A_Create 0 None (Some 7) 0, A_Create 0 None (Some 8) 0]"

definition wit_waits :: "sched_state \<Rightarrow> bool" where
  "wit_waits s \<longleftrightarrow> kept_waiting 0 2 [A_Schedule 0, A_Land 0 []] s \<and> pick_wait s 2 = 1"

lemma wit_ready_run: "map_option wit_waits (sched_run wit_ready wit_sched) = Some True"
  by code_simp

theorem sched_bounded_wait_witness:
  "\<exists>s. sched_run wit_ready wit_sched = Some s \<and> kept_waiting 0 2 [A_Schedule 0, A_Land 0 []] s \<and> length (filter (picks_by 0) [A_Schedule 0, A_Land 0 []]) \<le> 31"
proof -
  obtain s where s: "sched_run wit_ready wit_sched = Some s" "kept_waiting 0 2 [A_Schedule 0, A_Land 0 []] s" "pick_wait s 2 = 1"
    using wit_ready_run by (cases "sched_run wit_ready wit_sched") (auto simp: wit_waits_def)
  from sched_bounded_wait [OF wit_reach [OF s(1)] _ _ s(2)] s show ?thesis by auto
qed

section \<open>Context\<close>

text \<open>A thread on no processor that has not ended.\<close>

definition parked :: "nat \<Rightarrow> sched_state \<Rightarrow> bool" where
  "parked n s \<longleftrightarrow> (\<forall>c < GJ_CPU_STATIC_MAX. thread_current c s \<noteq> Some n) \<and> th_u32State (thr s n) \<noteq> GJ_THR_EXITED \<and> th_u32State (thr s n) \<noteq> GJ_THR_UNUSED"

text \<open>Where it goes on, and with which return target and kernel stack.\<close>

definition context_of :: "gj_thread \<Rightarrow> resume_point \<times> u64 \<times> u64 \<times> u64 \<times> bool \<times> u64" where
  "context_of t = (th_u64Rsp t, th_u64SysUserRip t, th_u64SysUserRsp t, th_u64SysUserRflags t, th_u32SysUserValid t, th_u64KstackTop t)"

lemma wake_context:
  assumes "length ts = GJ_MAX_THREADS"
  shows "context_of (snd (thread_wake ob tag mx ts) ! i) = context_of (ts ! i)"
    "th_u32State (snd (thread_wake ob tag mx ts) ! i) = GJ_THR_EXITED \<longleftrightarrow> th_u32State (ts ! i) = GJ_THR_EXITED"
  using thread_wake_entry [OF assms, of ob tag mx i] by (auto simp: woken_def context_of_def wakes_def)

lemma wakes_context:
  assumes "length (sc_threads s) = GJ_MAX_THREADS"
  shows "context_of (thr (do_wakes ws s) i) = context_of (thr s i) \<and> (th_u32State (thr (do_wakes ws s) i) = GJ_THR_EXITED \<longleftrightarrow> th_u32State (thr s i) = GJ_THR_EXITED)
    \<and> length (sc_threads (do_wakes ws s)) = GJ_MAX_THREADS"
  using assms
proof (induction ws arbitrary: s)
  case (Cons w ws)
  obtain ob tag mx where w: "w = (ob, tag, mx)" by (cases w)
  let ?t = "s\<lparr>sc_threads := snd (thread_wake ob tag mx (sc_threads s))\<rparr>"
  have e: "do_wakes (w # ws) s = do_wakes ws ?t" by (simp add: do_wakes_def w)
  show ?case using Cons.IH [of ?t] wake_context [OF Cons.prems, of ob tag mx i] Cons.prems unfolding e by simp
qed (simp add: do_wakes_def)

text \<open>An operation that keeps the context of \<open>n\<close>, or ends it.\<close>

definition same_ctx :: "nat \<Rightarrow> sched_state \<Rightarrow> sched_state \<Rightarrow> bool" where
  "same_ctx n s u \<longleftrightarrow> context_of (thr u n) = context_of (thr s n) \<and> (th_u32State (thr u n) = GJ_THR_EXITED \<longleftrightarrow> th_u32State (thr s n) = GJ_THR_EXITED)"

definition keeps :: "nat \<Rightarrow> sched_state \<Rightarrow> sched_state \<Rightarrow> bool" where
  "keeps n s u \<longleftrightarrow> same_ctx n s u \<or> th_u32State (thr u n) = GJ_THR_EXITED"

lemma same_ctx_refl [simp]: "same_ctx n s s"
  by (simp add: same_ctx_def)

lemma same_ctx_trans: "same_ctx n s t \<Longrightarrow> same_ctx n t u \<Longrightarrow> same_ctx n s u"
  by (simp add: same_ctx_def)

lemma keeps_trans: "keeps n s t \<Longrightarrow> same_ctx n t u \<Longrightarrow> keeps n s u"
  by (auto simp: keeps_def same_ctx_def)

lemma same_ctx_upd: "i \<noteq> n \<Longrightarrow> same_ctx n s (upd_thr i f s)"
  by (simp add: same_ctx_def upd_thr_def)

lemma same_ctx_wakes: "length (sc_threads s) = GJ_MAX_THREADS \<Longrightarrow> same_ctx n s (do_wakes ws s)"
  using wakes_context [of s ws n] by (simp add: same_ctx_def)

lemma same_ctx_fields [simp]:
  "same_ctx n s (upd_cpu c f s)" "same_ctx n s (note_pick i s)" "same_ctx n s (cpu_load_cr3 c x s)" "same_ctx n s (set_pc c pc s)" "same_ctx n s (process_as_activate c p s)"
  "same_ctx n s (thread_install_kstack c i s)" "same_ctx n s (thread_restore_sys_user c i s)"
  by (simp_all add: same_ctx_def upd_cpu_def note_pick_def cpu_load_cr3_def set_pc_def process_as_activate_def thread_install_kstack_def thread_restore_sys_user_def)

lemma same_ctx_exit:
  assumes "length (sc_threads s) = GJ_MAX_THREADS" "thread_current c s \<noteq> Some n"
  shows "same_ctx n s (thread_exit door c s)"
proof (cases "thread_current c s")
  case (Some i)
  let ?u = "upd_thr i (\<lambda>t. t\<lparr>th_u32State := GJ_THR_EXITED, th_pfnEntry := None, th_u32SysUserValid := False\<rparr>) s"
  have "same_ctx n s ?u" using Some assms(2) by (intro same_ctx_upd) auto
  moreover have "same_ctx n ?u (do_wakes door ?u)" by (rule same_ctx_wakes) (simp add: upd_thr_def assms(1))
  ultimately have "same_ctx n s (do_wakes door ?u)" by (rule same_ctx_trans)
  then show ?thesis unfolding thread_exit_def Some by (simp) (rule same_ctx_trans, assumption, simp)
qed (simp add: thread_exit_def)

lemma same_ctx_land:
  assumes l: "length (sc_threads s) = GJ_MAX_THREADS" and n: "thread_current c s \<noteq> Some n"
  shows "same_ctx n s (land door c s)"
proof -
  have E: "same_ctx n s (thread_exit d c t)" if "same_ctx n s t" "same_place s t" for d t
  proof (rule same_ctx_trans [OF that(1) same_ctx_exit])
    show "length (sc_threads t) = GJ_MAX_THREADS" "thread_current c t \<noteq> Some n" using that(2) l n by (simp_all add: same_place_def)
  qed
  have U: "same_ctx n s (upd_thr i f t)" if "same_ctx n s t" "i \<noteq> n" for i f t
    by (rule same_ctx_trans [OF that(1) same_ctx_upd [OF that(2)]])
  have P: "same_place s (upd_thr i dead_scrub s)" "same_place s (upd_thr i (\<lambda>t. (dead_scrub t)\<lparr>th_pBlockObj := None, th_u32BlockTag := 0, th_pProc := None\<rparr>) (upd_thr i drop_user_entry s))" for i
  proof -
    show "same_place s (upd_thr i dead_scrub s)" by (rule same_place_thr) (simp add: dead_scrub_def drop_user_entry_def)
    have "same_place s (upd_thr i drop_user_entry s)" by (rule same_place_thr) (simp add: drop_user_entry_def)
    then show "same_place s (upd_thr i (\<lambda>t. (dead_scrub t)\<lparr>th_pBlockObj := None, th_u32BlockTag := 0, th_pProc := None\<rparr>) (upd_thr i drop_user_entry s))"
      by (rule same_place_trans, intro same_place_thr) (simp add: dead_scrub_def drop_user_entry_def)
  qed
  have I: "same_ctx n s t \<Longrightarrow> same_ctx n s (thread_install_kstack c i t)" "same_ctx n s t \<Longrightarrow> same_ctx n s (set_pc c pc t)"
    "same_ctx n s t \<Longrightarrow> same_ctx n s (process_as_activate c p t)" "same_ctx n s t \<Longrightarrow> same_ctx n s (cpu_load_cr3 c x t)"
    "same_ctx n s t \<Longrightarrow> same_ctx n s (thread_restore_sys_user c i t)" for i pc p x t
    by (auto intro: same_ctx_trans)
  have J: "same_place s t \<Longrightarrow> same_place s (thread_install_kstack c i t)" "same_place s t \<Longrightarrow> same_place s (cpu_load_cr3 c x t)" for i x t
    by (auto intro: same_place_trans)
  show ?thesis
    using n unfolding land_def thread_trampoline_def schedule_resume_def Let_def
    by (simp split: option.split resume_point.split if_split) (intro allI impI conjI; (intro E I J U P)?; simp)
qed

lemma same_ctx_pick: "same_ctx n s (snd (pick_next c s))"
proof -
  have "same_ctx n s (note_pick p (upd_thr p (\<lambda>t. t\<lparr>th_u32State := GJ_THR_RUNNABLE\<rparr>) s))"
    if "th_u32State (thr s p) = GJ_THR_BLOCKED \<or> th_u32State (thr s p) = GJ_THR_UNUSED" for p
    using that by (auto simp: same_ctx_def note_pick_def upd_thr_def nth_upd context_of_def)
  moreover have "same_ctx n s (note_pick b (s\<lparr>g_aRobin := r\<rparr>))" for b r by (simp add: same_ctx_def note_pick_def)
  ultimately show ?thesis by (auto simp: pick_next_def Let_def split: option.split)
qed

lemma same_ctx_switch:
  assumes "thread_current c s \<noteq> Some n" "th_u32State (thr s n) \<noteq> GJ_THR_EXITED"
  shows "same_ctx n s (switch_to c m s)"
  using assms
  by (auto simp: same_ctx_def switch_to_def Let_def leave_thread_def thread_save_sys_user_def upd_thr_def upd_cpu_def cpu_load_cr3_def nth_upd context_of_def
      split: option.split)


lemma same_ctx_schedule:
  assumes "thread_current c s \<noteq> Some n" "th_u32State (thr s n) \<noteq> GJ_THR_EXITED"
  shows "same_ctx n s (schedule ret c s)" "same_ctx n s (schedule_spin c s)"
proof -
  have sw: "same_ctx n s (switch_to c m v)" "same_ctx n s (set_pc c x v)" "thread_current c v \<noteq> Some n" "th_u32State (thr v n) \<noteq> GJ_THR_EXITED" "same_ctx n s v"
    if "pick_next c s = (p, v)" "thread_current c s \<noteq> Some n" "th_u32State (thr s n) \<noteq> GJ_THR_EXITED" for s v p m x
  proof -
    have c: "same_ctx n s v" "same_place s v" using same_ctx_pick [of n s c] same_place_pick [of s c] that(1) by simp_all
    then show v: "thread_current c v \<noteq> Some n" "th_u32State (thr v n) \<noteq> GJ_THR_EXITED" "same_ctx n s v"
      using that(2,3) by (simp_all add: same_ctx_def same_place_def)
    show "same_ctx n s (switch_to c m v)" "same_ctx n s (set_pc c x v)"
      using same_ctx_trans [OF c(1)] same_ctx_switch [OF v(1,2)] by simp_all
  qed
  obtain p v q w where r: "pick_next c s = (p, v)" "pick_next c v = (q, w)" by (metis surj_pair)
  note a = sw [OF r(1) assms]
  note b = sw [OF r(2) a(3,4)]
  show "same_ctx n s (schedule ret c s)" using r a by (simp add: schedule_def split: option.split)
  show "same_ctx n s (schedule_spin c s)"
    using r a b same_ctx_trans [OF a(5)] by (simp add: schedule_spin_def split: option.split)
qed

lemma keeps_exit_loop: "length (sc_threads s) = GJ_MAX_THREADS \<Longrightarrow> keeps n s (snd (exit_loop door pCur p is k s))"
proof (induction "is" arbitrary: k s)
  case (Cons i "is")
  let ?a = "(upd_thr i exit_scrub s)\<lparr>g_aThrBoost := (g_aThrBoost (upd_thr i exit_scrub s))[i := 0]\<rparr>"
  have l: "length (sc_threads ?a) = GJ_MAX_THREADS" using Cons.prems by (simp add: upd_thr_def)
  have la: "length (sc_threads (do_wakes (door i) ?a)) = GJ_MAX_THREADS" using wakes_context [OF l] by blast
  have "keeps n s ?a"
    using Cons.prems by (cases "i = n") (auto simp: keeps_def same_ctx_def upd_thr_def nth_upd exit_scrub_def drop_user_entry_def)
  then have "keeps n s (do_wakes (door i) ?a)" by (rule keeps_trans) (rule same_ctx_wakes [OF l])
  moreover have "keeps n x y \<Longrightarrow> keeps n y z \<Longrightarrow> keeps n x z" for x y z by (auto simp: keeps_def same_ctx_def)
  ultimately show ?case using Cons.IH [OF la, of "k + 1"] Cons.IH [OF Cons.prems, of k] by (simp add: Let_def)
qed (simp add: keeps_def)

lemma same_ctx_new:
  assumes "th_u32State (thr s n) \<noteq> GJ_THR_EXITED" "th_u32State (thr s n) \<noteq> GJ_THR_UNUSED"
  shows "same_ctx n s (snd (thread_create c pProc pfn pArg s))" "same_ctx n s (snd (thread_init_ap_idle c d s))"
    "th_u32State (thr (snd (thread_create c pProc pfn pArg s)) n) = th_u32State (thr s n)"
proof -
  have i: "i \<noteq> n" if "free_slot s = Some i" for i using free_slotD(3) [OF that] assms by auto
  show "same_ctx n s (snd (thread_create c pProc pfn pArg s))" "th_u32State (thr (snd (thread_create c pProc pfn pArg s)) n) = th_u32State (thr s n)"
    using i by (auto simp: thread_create_def Let_def same_ctx_def upd_thr_def reset_slot_def split: option.split)
  show "same_ctx n s (snd (thread_init_ap_idle c d s))"
    using i by (auto simp: thread_init_ap_idle_def Let_def same_ctx_def upd_thr_def reset_slot_def split: option.split)
qed

lemma same_ctx_create_user:
  assumes "th_u32State (thr s n) \<noteq> GJ_THR_EXITED" "th_u32State (thr s n) \<noteq> GJ_THR_UNUSED"
  shows "same_ctx n s (snd (create_user_with f c pProc e st s))"
proof -
  obtain u t where r: "thread_create c pProc None 0 s = (u, t)" by fastforce
  have "same_ctx n s t" using same_ctx_new(1) [OF assms, of c pProc None 0] r by simp
  moreover have "same_ctx n t (upd_thr i (\<lambda>t. t\<lparr>th_u32Flags := th_u32Flags t OR f, th_u64UserRip := e, th_u64UserRsp := st, th_pfnEntry := None\<rparr>) t)" for i
    by (auto simp: same_ctx_def upd_thr_def nth_upd context_of_def)
  ultimately show ?thesis using same_ctx_trans by (fastforce simp: create_user_with_def r split: option.split)
qed

lemma parked_step:
  assumes "sched_act a s = Some u" "sched_wf s" "parked n s" "parked n u" "n < GJ_MAX_THREADS"
  shows "context_of (thr u n) = context_of (thr s n)"
proof -
  have p: "thread_current c s \<noteq> Some n" if "c < GJ_CPU_STATIC_MAX" for c using assms(3) that by (simp add: parked_def)
  have st: "th_u32State (thr s n) \<noteq> GJ_THR_EXITED" "th_u32State (thr s n) \<noteq> GJ_THR_UNUSED" "th_u32State (thr u n) \<noteq> GJ_THR_EXITED" using assms(3,4) by (auto simp: parked_def)
  have l: "length (sc_threads s) = GJ_MAX_THREADS" using assms(2) by auto
  have K: "keeps n s u \<Longrightarrow> ?thesis" using st(3) by (auto simp: keeps_def same_ctx_def)
  have S: "same_ctx n s u \<Longrightarrow> ?thesis" by (simp add: same_ctx_def)
  show ?thesis
  proof (cases a)
    case (A_Yield c)
    then have "c < GJ_CPU_STATIC_MAX" "u = schedule Pc_Run c (s\<lparr>g_fYieldReq := False\<rparr>)" using assms(1) by (auto simp: runs_def thread_yield_def split: if_splits)
    then have "same_ctx n (s\<lparr>g_fYieldReq := False\<rparr>) u" using same_ctx_schedule(1) [of c "s\<lparr>g_fYieldReq := False\<rparr>" n] p st(1) by simp
    then show ?thesis by (simp add: same_ctx_def)
  next
    case (A_Schedule c)
    then have "c < GJ_CPU_STATIC_MAX" "u = schedule Pc_Run c s" using assms(1) by (auto simp: runs_def split: if_splits)
    then show ?thesis using S same_ctx_schedule(1) [OF p st(1)] by simp
  next
    case (A_Exit c door)
    then have "c < GJ_CPU_STATIC_MAX" "u = thread_exit door c s" using assms(1) by (auto simp: runs_def split: if_splits)
    then show ?thesis using S same_ctx_exit [OF l p] by simp
  next
    case (A_CreateOn c pProc pfn pArg x)
    have "sc_threads (thread_set_cpu i x t) = sc_threads t" for i t by (simp add: thread_set_cpu_def split: option.split)
    then show ?thesis using same_ctx_new(1) [OF st(1,2), of c pProc pfn pArg] assms(1) A_CreateOn
      by (auto simp: thread_create_on_cpu_def same_ctx_def split: if_splits prod.splits)
  next
    case (A_ExitProcess door c pProc)
    then show ?thesis using K keeps_exit_loop [OF l] assms(1) by (cases pProc) (auto simp: thread_exit_process_def split: if_splits)
  next
    case (A_Wake ob tag mx)
    then show ?thesis using assms(1) wake_context(1) [OF l] by auto
  next
    case (A_Exec pProc e st)
    then show ?thesis using assms(1,5) l by (auto simp: thread_exec_replace_def context_of_def split: option.splits if_splits)
  next
    case (A_Block c ob tag)
    then show ?thesis using assms(1) p by (auto simp: thread_block_def runs_def nth_upd split: if_splits option.splits)
  next
    case (A_Unblock c)
    then show ?thesis using assms(1) p by (auto simp: runs_def upd_thr_def nth_upd split: if_splits)
  next
    case (A_Peek c)
    then show ?thesis using S same_ctx_pick assms(1) by (auto split: if_splits)
  next
    case (A_ApStart c)
    then show ?thesis using assms(1) by (auto simp: ap_start_def thread_install_kstack_def upd_cpu_def upd_thr_def nth_upd context_of_def split: if_splits option.splits)
  qed (use assms(1) S p st l in \<open>auto simp: same_ctx_schedule same_ctx_land same_ctx_exit same_ctx_new same_ctx_create_user thread_create_user_def thread_create_user32_def
      runs_def at_pc_def thread_yield_request_def thread_yield_pending_def thread_set_qos_def thread_qos_boost_soft_def thread_set_cpu_def Let_def upd_cpu_def
      split: if_splits option.splits\<close>)
qed


fun parked_run :: "nat \<Rightarrow> sched_action list \<Rightarrow> sched_state \<Rightarrow> sched_state option" where
  "parked_run n [] s = (if parked n s then Some s else None)"
| "parked_run n (a # as) s = (if parked n s then case sched_act a s of None \<Rightarrow> None | Some u \<Rightarrow> parked_run n as u else None)"

lemma parked_run_context:
  "parked_run n as s = Some u \<Longrightarrow> sched_wf s \<Longrightarrow> n < GJ_MAX_THREADS \<Longrightarrow> context_of (thr u n) = context_of (thr s n) \<and> sched_wf u \<and> parked n u"
proof (induction "as" arbitrary: s)
  case (Cons a "as")
  then obtain v where v: "parked n s" "sched_act a s = Some v" "parked_run n as v = Some u" by (auto split: if_splits option.splits)
  then have "parked n v" by (cases "as") (auto split: if_splits)
  then show ?case using Cons.IH [OF v(3) act_wf [OF v(2) Cons.prems(2)] Cons.prems(3)] parked_step [OF v(2) Cons.prems(2) v(1) _ Cons.prems(3)] by simp
qed (auto split: if_splits)

lemma pick_next_cpus: "sc_cpus (snd (pick_next c s)) = sc_cpus s"
  by (auto simp: pick_next_def note_pick_def upd_thr_def Let_def split: option.split)

text \<open>What the processor had when it left the thread.\<close>

lemma schedule_saves:
  assumes wf: "sched_wf s" "c < GJ_CPU_STATIC_MAX" and n: "thread_current c s = Some n" and off: "thread_current c (schedule ret c s) \<noteq> Some n"
  shows "context_of (thr (schedule ret c s) n)
    = (To_Schedule, cp_u64UserRip (cpu s c), cp_u64UserRsp (cpu s c), cp_u64UserRflags (cpu s c), True, th_u64KstackTop (thr s n))"
proof -
  obtain m v where r: "pick_next c s = (m, v)" by fastforce
  have v: "sc_cpus v = sc_cpus s" "sched_wf v" "context_of (thr v n) = context_of (thr s n)"
    using pick_next_cpus [of c s] pick_next_wf [OF wf(1) r] same_ctx_pick [of n s c] r by (simp_all add: same_ctx_def)
  have cur: "thread_current c v = Some n" using n v(1) by (simp add: thread_current_def)
  have "\<exists>i. m = Some i \<and> i \<noteq> n \<and> schedule ret c s = switch_to c i v"
  proof (cases m)
    case None
    then have "thread_current c (schedule ret c s) = Some n" using cur same_place_load(2) [of v c ret] r by (simp add: schedule_def same_place_def)
    then show ?thesis using off by simp
  next
    case (Some i)
    then show ?thesis using schedule_current [OF wf] r off cur by (auto simp: schedule_def)
  qed
  then obtain i where i: "i \<noteq> n" "schedule ret c s = switch_to c i v" by blast
  have "n < length (sc_threads v)" using v(2) wf(2) cur by (auto simp: sched_wf_def)
  moreover have "th_u64KstackTop (thr v n) = th_u64KstackTop (thr s n)" using v(3) by (simp add: context_of_def)
  ultimately show ?thesis using i cur v(1)
    by (simp add: switch_to_def Let_def leave_thread_def thread_save_sys_user_def upd_thr_def upd_cpu_def cpu_load_cr3_def nth_upd context_of_def)
qed

lemma schedule_brings:
  assumes "sched_wf s" "parked n s" "sched_act b s = Some u" "picks_by d b" "thread_current d u = Some n"
  shows "context_of (thr u n) = context_of (thr s n)" "d < GJ_CPU_STATIC_MAX"
proof -
  have d: "d < GJ_CPU_STATIC_MAX" "\<exists>ret y. u = schedule ret d y \<and> (y = s \<or> y = s\<lparr>g_fYieldReq := False\<rparr>)"
    using assms(3,4) by (cases b; auto simp: runs_def at_pc_def thread_yield_def split: if_splits)+
  then obtain ret y where y: "u = schedule ret d y" "y = s \<or> y = s\<lparr>g_fYieldReq := False\<rparr>" by blast
  have "thread_current d y \<noteq> Some n" "th_u32State (thr y n) \<noteq> GJ_THR_EXITED" using assms(2) d(1) y(2) by (auto simp: parked_def)
  then have "context_of (thr u n) = context_of (thr y n)" using same_ctx_schedule(1) y(1) by (simp add: same_ctx_def)
  then show "context_of (thr u n) = context_of (thr s n)" using y(2) by auto
  show "d < GJ_CPU_STATIC_MAX" by (rule d(1))
qed


lemma resumed_context:
  assumes "reach sched_boot sched_step s" and "sched_act (A_Schedule c) s = Some s1" "thread_current c s = Some n"
    and "parked_run n as s1 = Some s2" and "sched_act b s2 = Some s3" "picks_by d b" "thread_current d s3 = Some n"
  shows "context_of (thr s3 n) = (To_Schedule, cp_u64UserRip (cpu s c), cp_u64UserRsp (cpu s c), cp_u64UserRflags (cpu s c), True, th_u64KstackTop (thr s n))"
    "sched_wf s3" "d < GJ_CPU_STATIC_MAX"
proof -
  have wf: "sched_wf s" using sched_shape.reach_holds [OF assms(1)] .
  have c: "c < GJ_CPU_STATIC_MAX" "s1 = schedule Pc_Run c s" using assms(2) by (auto simp: runs_def split: if_splits)
  have n: "n < GJ_MAX_THREADS" using wf c(1) assms(3) by (auto simp: sched_wf_def)
  have wf1: "sched_wf s1" using act_wf [OF assms(2) wf] .
  have "parked n s1" using assms(4) by (cases "as") (auto split: if_splits)
  then have off: "thread_current c s1 \<noteq> Some n" using c(1) by (simp add: parked_def)
  note r = parked_run_context [OF assms(4) wf1 n]
  note b = schedule_brings [OF _ _ assms(5-7)]
  have "context_of (thr s3 n) = context_of (thr s1 n)" using r b by simp
  also have "\<dots> = (To_Schedule, cp_u64UserRip (cpu s c), cp_u64UserRsp (cpu s c), cp_u64UserRflags (cpu s c), True, th_u64KstackTop (thr s n))"
    using schedule_saves [OF wf c(1) assms(3)] off c(2) by simp
  finally show "context_of (thr s3 n) = \<dots>" .
  show "sched_wf s3" "d < GJ_CPU_STATIC_MAX" using act_wf [OF assms(5)] r b by blast+
qed


lemma parked_code [code]:
  "parked n s \<longleftrightarrow> list_all (\<lambda>c. thread_current c s \<noteq> Some n) [0..<GJ_CPU_STATIC_MAX] \<and> th_u32State (thr s n) \<noteq> GJ_THR_EXITED \<and> th_u32State (thr s n) \<noteq> GJ_THR_UNUSED"
  by (auto simp: parked_def list_all_iff)







section \<open>Dead processes\<close>

lemma wakes_exited:
  "length (sc_threads s) = GJ_MAX_THREADS \<Longrightarrow> th_u32State (thr s n) = GJ_THR_EXITED \<Longrightarrow> thr (do_wakes ws s) n = thr s n"
proof (induction ws arbitrary: s)
  case (Cons w ws)
  obtain ob tag mx where w: "w = (ob, tag, mx)" by (cases w)
  let ?t = "s\<lparr>sc_threads := snd (thread_wake ob tag mx (sc_threads s))\<rparr>"
  have "thr ?t n = thr s n" using thread_wake_entry [OF Cons.prems(1), of ob tag mx n] Cons.prems(2) by (auto simp: wakes_def)
  then show ?case using Cons.IH [of ?t] Cons.prems by (simp add: do_wakes_def w)
qed (simp add: do_wakes_def)

lemma exit_current:
  assumes "sched_wf s" "c < GJ_CPU_STATIC_MAX" "thread_current c s = Some n"
  shows "thr (thread_exit door c s) n = (thr s n)\<lparr>th_u32State := GJ_THR_EXITED, th_pfnEntry := None, th_u32SysUserValid := False\<rparr>"
    "cpu (thread_exit door c s) c = (cpu s c)\<lparr>cp_pc := Pc_Exit\<rparr>"
proof -
  let ?u = "upd_thr n (\<lambda>t. t\<lparr>th_u32State := GJ_THR_EXITED, th_pfnEntry := None, th_u32SysUserValid := False\<rparr>) s"
  have l: "length (sc_threads ?u) = GJ_MAX_THREADS" "length (sc_cpus s) = GJ_CPU_STATIC_MAX" using assms(1) by (auto simp: upd_thr_def)
  have n: "n < length (sc_threads s)" using assms by (auto simp: sched_wf_def)
  then have u: "thr ?u n = (thr s n)\<lparr>th_u32State := GJ_THR_EXITED, th_pfnEntry := None, th_u32SysUserValid := False\<rparr>" by (simp add: upd_thr_def)
  then have "thr (do_wakes door ?u) n = thr ?u n" by (intro wakes_exited [OF l(1)]) simp
  then show "thr (thread_exit door c s) n = (thr s n)\<lparr>th_u32State := GJ_THR_EXITED, th_pfnEntry := None, th_u32SysUserValid := False\<rparr>"
    using assms(3) u by (simp add: thread_exit_def upd_cpu_def)
  have "sc_cpus (do_wakes door ?u) = sc_cpus s" by (simp add: do_wakes_def upd_thr_def)
  then show "cpu (thread_exit door c s) c = (cpu s c)\<lparr>cp_pc := Pc_Exit\<rparr>" using assms(2,3) l(2) by (simp add: thread_exit_def upd_cpu_def)
qed

lemma resume_dead:
  assumes wf: "sched_wf s" "d < GJ_CPU_STATIC_MAX" and n: "thread_current d s = Some n" and c: "th_u64Rsp (thr s n) = To_Schedule" "th_u32SysUserValid (thr s n)"
    and dead: "dead_proc (th_pProc (thr s n)) s" and k: "sc_kernel_cr3 s \<noteq> 0"
  shows "th_u32State (thr (land door d s) n) = GJ_THR_EXITED" "cp_pc (cpu (land door d s) d) = Pc_Exit" "cp_u64Cr3 (cpu (land door d s) d) = sc_kernel_cr3 s"
    "\<not> th_u32SysUserValid (thr (land door d s) n)" "\<not> has_user_entry (thr (land door d s) n)"
proof -
  define v where "v = thread_install_kstack d n (cpu_load_cr3 d (sc_kernel_cr3 s) (upd_thr n dead_scrub s))"
  have e: "land door d s = thread_exit door d v" using n c dead by (simp add: land_def schedule_resume_def v_def Let_def upd_thr_def)
  have a: "same_place s (upd_thr n dead_scrub s)" by (rule same_place_thr) (simp add: dead_scrub_def drop_user_entry_def)
  have "same_place s v" unfolding v_def by (rule same_place_trans [OF same_place_trans [OF a same_place_load(1)] same_place_load(3)])
  then have v: "sched_wf v" "thread_current d v = Some n" using same_place_wf wf(1) n by (auto simp: same_place_def)
  have l: "n < length (sc_threads s)" "d < length (sc_cpus s)" using wf n by (auto simp: sched_wf_def)
  have t: "thr v n = dead_scrub (thr s n)" "cp_u64Cr3 (cpu v d) = sc_kernel_cr3 s"
    using l k by (simp_all add: v_def thread_install_kstack_def cpu_load_cr3_def upd_cpu_def upd_thr_def)
  have f: "\<not> has_user_entry (dead_scrub x)" for x
    by (simp add: has_user_entry_def dead_scrub_def drop_user_entry_def and.assoc)
  note x = exit_current [OF v(1) wf(2) v(2), of door]
  show "th_u32State (thr (land door d s) n) = GJ_THR_EXITED" "cp_pc (cpu (land door d s) d) = Pc_Exit" "cp_u64Cr3 (cpu (land door d s) d) = sc_kernel_cr3 s"
    "\<not> th_u32SysUserValid (thr (land door d s) n)" unfolding e x by (simp_all add: t)
  show "\<not> has_user_entry (thr (land door d s) n)" unfolding e x t using f [of "thr s n"] by (simp add: has_user_entry_def)
qed

text \<open>
  A thread whose process has died exits when it is resumed after a switch, kernel threads that never were in user mode included:
  every switch marks the thread as inside a system call.
\<close>

lemma sched_dead_exits:
  assumes "reach sched_boot sched_step s" and "sched_act (A_Schedule c) s = Some s1" "thread_current c s = Some n"
    and "parked_run n as s1 = Some s2" and "sched_act b s2 = Some s3" "picks_by d b" "thread_current d s3 = Some n" "dead_proc (th_pProc (thr s3 n)) s3"
    and "sc_kernel_cr3 s3 \<noteq> 0" and "u = land door d s3"
  shows "th_u32State (thr u n) = GJ_THR_EXITED \<and> cp_pc (cpu u d) = Pc_Exit \<and> cp_u64Cr3 (cpu u d) = sc_kernel_cr3 s3
    \<and> \<not> th_u32SysUserValid (thr u n) \<and> \<not> has_user_entry (thr u n)"
proof -
  note x = resumed_context [OF assms(1-7)]
  have "th_u64Rsp (thr s3 n) = To_Schedule" "th_u32SysUserValid (thr s3 n)" using x(1) by (simp_all add: context_of_def)
  from resume_dead [OF x(2,3) assms(7) this assms(8,9)] assms(10) show ?thesis by simp
qed

text \<open>
  C25: a thread that entered the kernel by a system call, was switched away in it, and whose process has died when it is resumed
  never gets back to user mode: it is on the kernel page tables, has no user state left and exits, on whatever processor and after
  whatever the others did since the call and while it was off.
\<close>

theorem sched_dead_stopped:
  assumes "reach sched_boot sched_step s0" and "sched_act (A_Syscall c u64Rip u64Rsp u64Rflags) s0 = Some sc" "thread_current c s0 = Some n"
    and "sched_run bs sc = Some s" "sched_act (A_Schedule c) s = Some s1" "thread_current c s = Some n"
    and "parked_run n as s1 = Some s2" and "sched_act b s2 = Some s3" "picks_by d b" "thread_current d s3 = Some n" "dead_proc (th_pProc (thr s3 n)) s3"
    and "sc_kernel_cr3 s3 \<noteq> 0" and "u = land door d s3"
  shows "th_u32State (thr u n) = GJ_THR_EXITED \<and> cp_pc (cpu u d) = Pc_Exit \<and> cp_u64Cr3 (cpu u d) = sc_kernel_cr3 s3
    \<and> \<not> th_u32SysUserValid (thr u n) \<and> \<not> has_user_entry (thr u n)"
proof -
  have "reach sched_boot sched_step s" using run_reach [OF assms(1), of "A_Syscall c u64Rip u64Rsp u64Rflags # bs" s] assms(2,4) by simp
  from sched_dead_exits [OF this assms(5-13)] show ?thesis .
qed

text \<open>A user thread of process 1 in a system call; the process dies while the thread is off.\<close>

definition wit_uthread :: "sched_action list" where
  "wit_uthread = [A_CreateUser 0 (Some 1) 0x400000 0x7000, A_Create 0 None (Some 8) 0, A_Schedule 0, A_Land 0 []]"

definition wit_death :: "sched_action list" where
  "wit_death = [A_Land 0 [], A_Processes (\<lambda>_. \<lparr>pr_u64Cr3 = 0x5000, pr_u32Alive = 0\<rparr>)]"

definition wit_dies :: "sched_state \<Rightarrow> bool" where
  "wit_dies s \<longleftrightarrow> thread_current 0 s = Some 1 \<and> (case sched_act (A_Schedule 0) s of None \<Rightarrow> False | Some s1 \<Rightarrow>
     (case parked_run 1 wit_death s1 of None \<Rightarrow> False | Some s2 \<Rightarrow>
       (case sched_act (A_Schedule 0) s2 of None \<Rightarrow> False
        | Some s3 \<Rightarrow> thread_current 0 s3 = Some 1 \<and> dead_proc (th_pProc (thr s3 1)) s3 \<and> sc_kernel_cr3 s3 \<noteq> 0)))"

definition wit_call_dies :: "sched_state \<Rightarrow> bool" where
  "wit_call_dies s \<longleftrightarrow> thread_current 0 s = Some 1 \<and> (case sched_act (A_Syscall 0 0x400010 0x6f00 2) s of None \<Rightarrow> False | Some sc \<Rightarrow> wit_dies sc)"

lemma wit_dies_run: "map_option wit_call_dies (sched_run wit_uthread wit_sched) = Some True"
  by code_simp

theorem sched_dead_stopped_witness:
  "\<exists>s sc s3. sched_run wit_uthread wit_sched = Some s \<and> sched_act (A_Syscall 0 0x400010 0x6f00 2) s = Some sc
    \<and> th_u32State (thr (land [] 0 s3) 1) = GJ_THR_EXITED \<and> \<not> th_u32SysUserValid (thr (land [] 0 s3) 1)"
proof -
  obtain s where s: "sched_run wit_uthread wit_sched = Some s" "wit_call_dies s" using wit_dies_run by (cases "sched_run wit_uthread wit_sched") auto
  then obtain sc where c: "thread_current 0 s = Some 1" "sched_act (A_Syscall 0 0x400010 0x6f00 2) s = Some sc" "wit_dies sc"
    unfolding wit_call_dies_def by (cases "sched_act (A_Syscall 0 0x400010 0x6f00 2) s") auto
  then obtain s1 s2 s3 where t: "thread_current 0 sc = Some 1" "sched_act (A_Schedule 0) sc = Some s1" "parked_run 1 wit_death s1 = Some s2"
    "sched_act (A_Schedule 0) s2 = Some s3" "thread_current 0 s3 = Some 1" "dead_proc (th_pProc (thr s3 1)) s3" "sc_kernel_cr3 s3 \<noteq> 0"
    by (auto simp: wit_dies_def split: option.splits)
  have "sched_run [] sc = Some sc" by simp
  from sched_dead_stopped [OF wit_reach [OF s(1)] c(2,1) this t(2,1,3,4) _ t(5-7) refl, of "[]"] s(1) c(2) show ?thesis by auto
qed

section \<open>Running twice\<close>

text \<open>A processor takes its only candidate.\<close>

lemma only_candidate:
  assumes "sched_wf s" "d < GJ_CPU_STATIC_MAX" "i < GJ_MAX_THREADS" "pick_candidate d s i" "\<And>j. j < GJ_MAX_THREADS \<Longrightarrow> j \<noteq> i \<Longrightarrow> \<not> pick_candidate d s j"
  shows "thread_current e (schedule ret d s) = (if e = d then Some i else thread_current e s)"
proof -
  obtain n t where r: "pick_next d s = (n, t)" by fastforce
  have "picked d s n" using pick_next_picked [OF assms(2), of s] r by simp
  then have n: "n = Some i" using assms(3-5) by (auto simp: picked_def split: if_splits)
  have t: "same_place s t" using same_place_pick [of s d] r by simp
  have w: "sched_wf t" by (rule same_place_wf [OF t assms(1)])
  have c: "thread_current x t = thread_current x s" "thread_current x (set_pc d pc t) = thread_current x t" for x pc
    using t same_place_load(2) [of t d pc] by (simp_all add: same_place_def)
  show ?thesis using switch_fields(1) [OF w assms(2,3), of e] c by (auto simp: schedule_def r n)
qed

text \<open>
  C27: a thread can run on two processors at once.  Processor \<open>c\<close> is still at thread \<open>i\<close>, and another processor \<open>d\<close> has nothing else to run.
  If the thread is allowed on every processor and has blocked but not yet switched away, a wake that reaches it lets \<open>d\<close> pick
  it; and if the thread is exiting and its slot is the first free one, the next thread created gets the slot and the boot
  processor picks it.  In both cases \<open>i\<close> is then current on both processors.
\<close>

theorem sched_double_run:
  assumes "reach sched_boot sched_step s" "c < GJ_CPU_STATIC_MAX" "thread_current c s = Some i" "runs d s" "c \<noteq> d" "g_apIdle s ! d \<noteq> Some i"
    and "\<forall>j < GJ_MAX_THREADS. j \<noteq> i \<longrightarrow> \<not> pick_candidate d s j"
  shows "(g_aThrCpu s ! i = 0xFF \<and> 0 < mx \<and> (\<forall>j < GJ_MAX_THREADS. wakes ob tag (thr s j) \<longleftrightarrow> j = i) \<longrightarrow>
      (\<exists>u. sched_run [A_Wake ob tag mx, A_Schedule d] s = Some u \<and> thread_current c u = Some i \<and> thread_current d u = Some i))
    \<and> (d = 0 \<and> th_u32State (thr s i) = GJ_THR_EXITED \<and> (\<forall>j. 1 \<le> j \<and> j < i \<longrightarrow> th_u32State (thr s j) \<notin> {GJ_THR_UNUSED, GJ_THR_EXITED}) \<longrightarrow>
      (\<exists>u. sched_run [A_Create 0 pProc pfn pArg, A_Schedule 0] s = Some u \<and> thread_current c u = Some i \<and> thread_current 0 u = Some i))"
proof (intro conjI impI; (elim conjE)?)
  have wf: "sched_wf s" by (rule sched_shape.reach_holds [OF assms(1)])
  have d: "d < GJ_CPU_STATIC_MAX" using assms(4) by (simp add: runs_def)
  have i: "i < GJ_MAX_THREADS" using wf assms(2,3) by (auto simp: sched_wf_def)
  note l = sched_wfD [OF wf]
  {
    assume a: "g_aThrCpu s ! i = 0xFF" "0 < mx" "\<forall>j < GJ_MAX_THREADS. wakes ob tag (thr s j) \<longleftrightarrow> j = i"
    let ?ts = "snd (thread_wake ob tag mx (sc_threads s))" let ?t = "s\<lparr>sc_threads := ?ts\<rparr>"
    have "{j. j < GJ_MAX_THREADS \<and> wakes ob tag (thr s j)} = {i}" using a(3) i by auto
    then have "\<not> wakes ob tag (?ts ! i)" using thread_wake_all [OF l(1) _ i, of ob tag mx] a(2) by (simp add: Suc_le_eq unat_gt_0)
    then have w: "?ts ! i = woken (thr s i)" using thread_wake_entry [OF l(1), of ob tag mx i] a(3) i by auto
    have o: "?ts ! j = thr s j" if "j < GJ_MAX_THREADS" "j \<noteq> i" for j using thread_wake_entry [OF l(1), of ob tag mx j] a(3) that by auto
    have "same_place s ?t" by (rule same_place_wake [OF l(1)])
    then have wt: "sched_wf ?t" using same_place_wf wf by blast
    have p: "pick_candidate d ?t i" using a(1) assms(6) w cpu_idle_eq [OF wt d] by (simp add: pick_candidate_def thr_ok_on_cpu_def woken_def)
    have q: "\<not> pick_candidate d ?t j" if "j < GJ_MAX_THREADS" "j \<noteq> i" for j
      using assms(7) that o [OF that] by (auto simp: pick_candidate_def thr_ok_on_cpu_def cpu_idle_def)
    have "runs d ?t" using assms(4) by (simp add: runs_def thread_current_def)
    then have "sched_run [A_Wake ob tag mx, A_Schedule d] s = Some (schedule Pc_Run d ?t)" by simp
    moreover have "thread_current c ?t = thread_current c s" by (simp add: thread_current_def)
    ultimately show "\<exists>u. sched_run [A_Wake ob tag mx, A_Schedule d] s = Some u \<and> thread_current c u = Some i \<and> thread_current d u = Some i"
      using only_candidate [OF wt d i p q] assms(3,5) by simp
  }
  assume a: "d = 0" "th_u32State (thr s i) = GJ_THR_EXITED" "\<forall>j. 1 \<le> j \<and> j < i \<longrightarrow> th_u32State (thr s j) \<notin> {GJ_THR_UNUSED, GJ_THR_EXITED}"
  let ?t = "snd (thread_create 0 pProc pfn pArg s)"
  have "i \<noteq> 0" using assms(6) a(1) l(10) by auto
  then have "free_slot s = Some i" unfolding free_slot_def find_Some_iff using a(2,3) i by (intro exI [of _ "i - 1"]) auto
  then obtain x k where t: "?t = (upd_thr i (\<lambda>_. x) (reset_slot i 0 s))\<lparr>g_u32NextId := k\<rparr>" and x: "th_u32State x = GJ_THR_RUNNABLE"
    by (simp add: thread_create_def Let_def)
  have wt: "sched_wf ?t" by (rule create_wf [OF wf])
  have th: "thr ?t j = (if j = i then x else thr s j)" if "j < GJ_MAX_THREADS" for j using that l(1) by (simp add: t upd_thr_def reset_slot_def)
  have p: "pick_candidate 0 ?t i" using th [OF i] x i l(4) l(10) \<open>i \<noteq> 0\<close> cpu_idle_eq [OF wt, of 0]
    by (simp add: pick_candidate_def thr_ok_on_cpu_def) (simp add: t upd_thr_def reset_slot_def)
  have q: "\<not> pick_candidate 0 ?t j" if "j < GJ_MAX_THREADS" "j \<noteq> i" for j
    using assms(7) that a(1) th [OF that(1)] by (auto simp: pick_candidate_def thr_ok_on_cpu_def cpu_idle_def) (auto simp: t upd_thr_def reset_slot_def)
  have cur: "thread_current e ?t = thread_current e s" "cpu ?t e = cpu s e" for e by (simp_all add: t thread_current_def upd_thr_def reset_slot_def)
  have "runs 0 ?t" using assms(4) a(1) cur by (simp add: runs_def)
  then have "sched_run [A_Create 0 pProc pfn pArg, A_Schedule 0] s = Some (schedule Pc_Run 0 ?t)" using assms(4) a(1) by simp
  then show "\<exists>u. sched_run [A_Create 0 pProc pfn pArg, A_Schedule 0] s = Some u \<and> thread_current c u = Some i \<and> thread_current 0 u = Some i"
    using only_candidate [OF wt _ i p q] cur assms(3,5) a(1) by simp
qed

text \<open>Thread 2 is on processor 1: it may run anywhere and has just blocked, or it is exiting.\<close>

definition race_wake :: "sched_action list" where
  "race_wake = wit_two @ [A_CreateOn 0 None (Some 7) 0 0xFF, A_Schedule 1, A_Land 1 [], A_Block 1 (Obj_Other 0) 1]"

definition race_exit :: "sched_action list" where
  "race_exit = wit_two @ [A_CreateOn 0 None (Some 7) 0 1, A_Schedule 1, A_Land 1 [], A_Exit 1 []]"

definition race_ready :: "sched_state \<Rightarrow> bool" where
  "race_ready s \<longleftrightarrow> thread_current 1 s = Some 2 \<and> cp_pc (cpu s 0) = Pc_Run \<and> thread_current 0 s = Some 0 \<and> g_apIdle s ! 0 \<noteq> Some 2
     \<and> list_all (\<lambda>j. j = 2 \<or> \<not> pick_candidate 0 s j) [0..<GJ_MAX_THREADS]"

lemma race_wake_run:
  "map_option (\<lambda>s. race_ready s \<and> g_aThrCpu s ! 2 = 0xFF \<and> list_all (\<lambda>j. wakes (Obj_Other 0) 1 (thr s j) \<longleftrightarrow> j = 2) [0..<GJ_MAX_THREADS])
    (sched_run race_wake wit_sched) = Some True"
  by code_simp

lemma race_exit_run:
  "map_option (\<lambda>s. race_ready s \<and> th_u32State (thr s 2) = GJ_THR_EXITED \<and> th_u32State (thr s 1) \<notin> {GJ_THR_UNUSED, GJ_THR_EXITED})
    (sched_run race_exit wit_sched) = Some True"
  by code_simp

theorem sched_double_run_witness:
  "\<exists>s u s' u'. sched_run race_wake wit_sched = Some s \<and> sched_run [A_Wake (Obj_Other 0) 1 1, A_Schedule 0] s = Some u \<and> thread_current 0 u = thread_current 1 u
    \<and> sched_run race_exit wit_sched = Some s' \<and> sched_run [A_Create 0 None (Some 8) 0, A_Schedule 0] s' = Some u' \<and> thread_current 0 u' = thread_current 1 u'"
proof -
  obtain s where s: "sched_run race_wake wit_sched = Some s" "race_ready s" "g_aThrCpu s ! 2 = 0xFF" "\<forall>j < GJ_MAX_THREADS. wakes (Obj_Other 0) 1 (thr s j) \<longleftrightarrow> j = 2"
    using race_wake_run by (cases "sched_run race_wake wit_sched") (auto simp: list_all_iff)
  obtain s' where t: "sched_run race_exit wit_sched = Some s'" "race_ready s'" "th_u32State (thr s' 2) = GJ_THR_EXITED" "th_u32State (thr s' 1) \<notin> {GJ_THR_UNUSED, GJ_THR_EXITED}"
    using race_exit_run by (cases "sched_run race_exit wit_sched") auto
  have r: "thread_current 1 s = Some 2" "runs 0 s" "g_apIdle s ! 0 \<noteq> Some 2" "\<forall>j < GJ_MAX_THREADS. j \<noteq> 2 \<longrightarrow> \<not> pick_candidate 0 s j" if "race_ready s" for s
    using that unfolding race_ready_def runs_def list_all_iff by auto
  have "\<forall>j. 1 \<le> j \<and> j < 2 \<longrightarrow> th_u32State (thr s' j) \<notin> {GJ_THR_UNUSED, GJ_THR_EXITED}"
  proof (intro allI impI)
    fix j :: nat assume "1 \<le> j \<and> j < 2"
    then have "j = 1" by auto
    then show "th_u32State (thr s' j) \<notin> {GJ_THR_UNUSED, GJ_THR_EXITED}" using t(4) by simp
  qed
  then have "\<exists>u'. sched_run [A_Create 0 None (Some 8) 0, A_Schedule 0] s' = Some u' \<and> thread_current 1 u' = Some 2 \<and> thread_current 0 u' = Some 2"
    using sched_double_run [OF wit_reach [OF t(1)], where c = 1 and i = 2 and d = 0 and pProc = None and pfn = "Some 8" and pArg = 0] r [OF t(2)] t(3) by simp
  moreover have "\<exists>u. sched_run [A_Wake (Obj_Other 0) 1 1, A_Schedule 0] s = Some u \<and> thread_current 1 u = Some 2 \<and> thread_current 0 u = Some 2"
    using sched_double_run [OF wit_reach [OF s(1)], where c = 1 and i = 2 and d = 0 and mx = 1 and ob = "Obj_Other 0" and tag = 1] r [OF s(2)] s(3,4) by simp
  ultimately show ?thesis using s(1) t(1) by metis
qed

section \<open>The end of a process\<close>

text \<open>What is left of a sibling, and what may happen to another thread: a wake.\<close>

definition gone :: "gj_thread \<Rightarrow> bool" where
  "gone t \<longleftrightarrow> th_u32State t = GJ_THR_EXITED \<and> th_pProc t = None \<and> th_pBlockObj t = None \<and> th_u64Cr3 t = 0 \<and> \<not> th_u32SysUserValid t \<and> \<not> has_user_entry t"

definition maybe_woken :: "gj_thread \<Rightarrow> gj_thread \<Rightarrow> bool" where
  "maybe_woken t t' \<longleftrightarrow> t' = t \<or> (th_u32State t = GJ_THR_BLOCKED \<and> t' = woken t)"

lemma maybe_woken_trans: "maybe_woken a b \<Longrightarrow> maybe_woken b c \<Longrightarrow> maybe_woken a c"
  by (auto simp: maybe_woken_def woken_def)

lemma wakes_maybe:
  "length (sc_threads s) = GJ_MAX_THREADS \<Longrightarrow> maybe_woken (thr s i) (thr (do_wakes ws s) i)"
proof (induction ws arbitrary: s)
  case (Cons w ws)
  obtain ob tag mx where w: "w = (ob, tag, mx)" by (cases w)
  let ?t = "s\<lparr>sc_threads := snd (thread_wake ob tag mx (sc_threads s))\<rparr>"
  have "maybe_woken (thr s i) (thr ?t i)" using thread_wake_entry [OF Cons.prems, of ob tag mx i] by (auto simp: maybe_woken_def wakes_def)
  moreover have "maybe_woken (thr ?t i) (thr (do_wakes ws ?t) i)" using Cons.IH [of ?t] Cons.prems by simp
  ultimately show ?case using maybe_woken_trans by (simp add: do_wakes_def w)
qed (simp add: do_wakes_def maybe_woken_def)

lemma maybe_woken_hits: "maybe_woken (thr s i) (thr u i) \<Longrightarrow> exit_hits pCur p i u = exit_hits pCur p i s"
  by (auto simp: maybe_woken_def exit_hits_def woken_def)

lemma maybe_woken_gone: "maybe_woken t t' \<Longrightarrow> gone t \<Longrightarrow> t' = t"
  by (auto simp: maybe_woken_def gone_def)

lemma exit_scrub_gone: "gone (exit_scrub t)"
  by (simp add: gone_def exit_scrub_def drop_user_entry_def has_user_entry_def and.assoc)

lemma exit_loop_exact:
  assumes "length (sc_threads s) = GJ_MAX_THREADS" "distinct is" "set is \<subseteq> {..<GJ_MAX_THREADS}"
  shows "fst (exit_loop door pCur p is k s) = k + card {i \<in> set is. exit_hits pCur p i s}
    \<and> (\<forall>i < GJ_MAX_THREADS. if i \<in> set is \<and> exit_hits pCur p i s then gone (thr (snd (exit_loop door pCur p is k s)) i)
         else maybe_woken (thr s i) (thr (snd (exit_loop door pCur p is k s)) i))"
  using assms
proof (induction "is" arbitrary: k s)
  case (Cons j "is")
  show ?case
  proof (cases "exit_hits pCur p j s")
    case False
    then have e: "{i \<in> set (j # is). exit_hits pCur p i s} = {i \<in> set is. exit_hits pCur p i s}" by auto
    show ?thesis using Cons.IH [of s k] Cons.prems False unfolding e by auto
  next
    case True
    let ?a = "(upd_thr j exit_scrub s)\<lparr>g_aThrBoost := (g_aThrBoost (upd_thr j exit_scrub s))[j := 0]\<rparr>"
    define u where "u = do_wakes (door j) ?a"
    have la: "length (sc_threads ?a) = GJ_MAX_THREADS" using Cons.prems(1) by (simp add: upd_thr_def)
    have lu: "length (sc_threads u) = GJ_MAX_THREADS" unfolding u_def using wakes_context [OF la] by blast
    have w: "maybe_woken (thr ?a i) (thr u i)" for i unfolding u_def by (rule wakes_maybe [OF la])
    have j: "thr ?a j = exit_scrub (thr s j)" "i \<noteq> j \<Longrightarrow> thr ?a i = thr s i" for i using Cons.prems by (simp_all add: upd_thr_def)
    have gj: "gone (thr u j)" using maybe_woken_gone [OF w] exit_scrub_gone j(1) by metis
    have hit: "exit_hits pCur p i u = exit_hits pCur p i s" "maybe_woken (thr s i) (thr u i)" if "i \<noteq> j" for i
      using maybe_woken_hits w [of i] j(2) [OF that] by metis+
    have nj: "j \<notin> set is" using Cons.prems(2) by simp
    have "exit_hits pCur p i u = exit_hits pCur p i s" if "i \<in> set is" for i using hit(1) [of i] nj that by blast
    then have e: "{i \<in> set (j # is). exit_hits pCur p i s} = insert j {i \<in> set is. exit_hits pCur p i u}" using True by auto
    have r: "exit_loop door pCur p (j # is) k s = exit_loop door pCur p is (k + 1) u" using True by (simp add: Let_def u_def)
    have ih: "fst (exit_loop door pCur p is (k + 1) u) = k + 1 + card {i \<in> set is. exit_hits pCur p i u}"
      "\<And>i. i < GJ_MAX_THREADS \<Longrightarrow> if i \<in> set is \<and> exit_hits pCur p i u then gone (thr (snd (exit_loop door pCur p is (k + 1) u)) i)
         else maybe_woken (thr u i) (thr (snd (exit_loop door pCur p is (k + 1) u)) i)"
      using Cons.IH [OF lu, of "k + 1"] Cons.prems(2,3) by auto
    have "maybe_woken (thr u j) (thr (snd (exit_loop door pCur p is (k + 1) u)) j)" using ih(2) [of j] nj Cons.prems(3) by auto
    then have "gone (thr (snd (exit_loop door pCur p is (k + 1) u)) j)" using maybe_woken_gone gj by metis
    then have all: "if i \<in> set (j # is) \<and> exit_hits pCur p i s then gone (thr (snd (exit_loop door pCur p is (k + 1) u)) i)
         else maybe_woken (thr s i) (thr (snd (exit_loop door pCur p is (k + 1) u)) i)" if "i < GJ_MAX_THREADS" for i
      using ih(2) [OF that] hit [of i] maybe_woken_trans True by (cases "i = j") (simp_all split: if_splits, blast+)
    have "k + 1 + card {i \<in> set is. exit_hits pCur p i u} = k + card (insert j {i \<in> set is. exit_hits pCur p i u})" using nj by simp
    then show ?thesis unfolding r e ih(1) using all by blast
  qed
qed (simp add: maybe_woken_def)

text \<open>
  C26: ending the threads of a process leaves none of its threads but the caller: each other live thread of it is exited,
  detached from the process and its page tables and without user entry or system-call state, their number is
  returned, and every other thread is as before or woken.
\<close>

theorem sched_exit_process_exact:
  assumes "reach sched_boot sched_step s" and "thread_exit_process door c (Some p) s = (k, u)"
  shows "k = card {i. i < GJ_MAX_THREADS \<and> exit_hits (thread_current c s) p i s}
    \<and> (\<forall>i < GJ_MAX_THREADS. if exit_hits (thread_current c s) p i s then gone (thr u i) else maybe_woken (thr s i) (thr u i))
    \<and> (\<forall>i < GJ_MAX_THREADS. \<not> exit_hits (thread_current c u) p i u)"
proof -
  have wf: "sched_wf s" using sched_shape.reach_holds [OF assms(1)] .
  then have l: "length (sc_threads s) = GJ_MAX_THREADS" by auto
  have r: "exit_loop door (thread_current c s) p [0..<GJ_MAX_THREADS] 0 s = (k, u)" using assms(2) by (simp add: thread_exit_process_def)
  have cur: "thread_current c u = thread_current c s" using same_place_exit_process [OF l, of door c "Some p"] assms(2) by (simp add: same_place_def)
  have x: "k = card {i \<in> set [0..<GJ_MAX_THREADS]. exit_hits (thread_current c s) p i s}"
    "\<forall>i < GJ_MAX_THREADS. if exit_hits (thread_current c s) p i s then gone (thr u i) else maybe_woken (thr s i) (thr u i)"
    using exit_loop_exact [OF l distinct_upt, of 0 GJ_MAX_THREADS door "thread_current c s" p 0] r by (auto simp: atLeast0LessThan)
  have "\<not> exit_hits (thread_current c u) p i u" if "i < GJ_MAX_THREADS" for i
    using x(2) that maybe_woken_hits [of s i u "thread_current c s" p] unfolding cur by (cases "exit_hits (thread_current c s) p i s") (auto simp: exit_hits_def gone_def)
  then show ?thesis using x by simp
qed

definition wit_family :: "sched_action list" where
  "wit_family = [A_Create 0 (Some 1) (Some 7) 0, A_CreateUser 0 (Some 1) 0x1000000 0x2000000]"

lemma wit_family_run: "map_option (\<lambda>s. exit_hits (thread_current 0 s) 1 1 s) (sched_run wit_family wit_sched) = Some True"
  by code_simp

theorem sched_exit_process_exact_witness:
  "\<exists>s k u. sched_run wit_family wit_sched = Some s \<and> thread_exit_process (\<lambda>_. []) 0 (Some 1) s = (k, u) \<and> gone (thr u 1)"
proof -
  obtain s where s: "sched_run wit_family wit_sched = Some s" "exit_hits (thread_current 0 s) 1 1 s" using wit_family_run by (cases "sched_run wit_family wit_sched") auto
  obtain k u where u: "thread_exit_process (\<lambda>_. []) 0 (Some 1) s = (k, u)" by fastforce
  have "\<forall>i < GJ_MAX_THREADS. if exit_hits (thread_current 0 s) 1 i s then gone (thr u i) else maybe_woken (thr s i) (thr u i)"
    using sched_exit_process_exact [OF wit_reach [OF s(1)] u] by blast
  from this [rule_format, of 1] s show ?thesis using u by auto
qed

section \<open>Ranges\<close>

text \<open>Classes, boosts and scan positions stay in range.\<close>

definition in_range :: "sched_state \<Rightarrow> bool" where
  "in_range s \<longleftrightarrow> set (g_aThrBoost s) \<subseteq> {..4} \<and> set (g_aThrQos s) \<subseteq> {..4} \<and> set (g_aRobin s) \<subseteq> {..<32}"

lemma in_range_upd [simp]:
  "in_range (upd_thr i f s) = in_range s" "in_range (upd_cpu c g s) = in_range s" "in_range (do_wakes w s) = in_range s" "in_range (note_pick i s) = in_range s"
  "in_range (cpu_load_cr3 c x s) = in_range s" "in_range (set_pc c pc s) = in_range s" "in_range (s\<lparr>g_fYieldReq := y\<rparr>) = in_range s"
  "in_range (s\<lparr>sc_threads := ts\<rparr>) = in_range s" "in_range (s\<lparr>sc_procs := ps\<rparr>) = in_range s" "in_range (s\<lparr>g_aThrCpu := cs\<rparr>) = in_range s"
  "in_range (s\<lparr>g_u32NextId := k\<rparr>) = in_range s" "in_range (s\<lparr>g_apIdle := p\<rparr>) = in_range s"
  by (simp_all add: in_range_def upd_thr_def upd_cpu_def do_wakes_def note_pick_def cpu_load_cr3_def set_pc_def)

lemma in_range_ops [simp]:
  "in_range (process_as_activate c p s) = in_range s" "in_range (thread_install_kstack c i s) = in_range s" "in_range (thread_restore_sys_user c i s) = in_range s"
  "in_range (thread_save_sys_user c i s) = in_range s" "in_range (thread_exit d c s) = in_range s"
  by (simp_all add: process_as_activate_def thread_install_kstack_def thread_restore_sys_user_def thread_save_sys_user_def thread_exit_def split: option.split)

lemma in_range_land [simp]: "in_range (land d c s) = in_range s"
  by (simp add: land_def thread_trampoline_def schedule_resume_def Let_def split: option.split resume_point.split)

lemma in_range_list:
  "in_range s \<Longrightarrow> b \<le> 4 \<Longrightarrow> in_range (s\<lparr>g_aThrBoost := (g_aThrBoost s)[i := b]\<rparr>)"
  "in_range s \<Longrightarrow> q \<le> 4 \<Longrightarrow> in_range (s\<lparr>g_aThrQos := (g_aThrQos s)[i := q]\<rparr>)"
  "in_range s \<Longrightarrow> r < 32 \<Longrightarrow> in_range (s\<lparr>g_aRobin := (g_aRobin s)[j := r]\<rparr>)"
  by (auto simp: in_range_def dest!: set_update_subset_insert [THEN subsetD])

lemma in_range_reset: "in_range s \<Longrightarrow> in_range (reset_slot i a s)"
  by (auto simp: in_range_def reset_slot_def dest!: set_update_subset_insert [THEN subsetD])

lemma in_range_exit_loop: "in_range s \<Longrightarrow> in_range (snd (exit_loop d pCur p is k s))"
  by (induction "is" arbitrary: k s) (auto simp: Let_def in_range_list)

lemma in_range_leave:
  assumes "in_range s" "sched_wf s" "p < GJ_MAX_THREADS"
  shows "in_range (leave_thread c p s)"
proof -
  have "g_aThrBoost s ! p \<in> set (g_aThrBoost s)" using assms(3) sched_wfD(6) [OF assms(2)] by simp
  then have "g_aThrBoost s ! p \<le> 4" using assms(1) by (auto simp: in_range_def)
  then have "g_aThrBoost s ! p - 1 \<le> 4" if "g_aThrBoost s ! p \<noteq> 0"
  proof -
    have "1 \<le> g_aThrBoost s ! p" using that by (simp add: word_le_nat_alt unat_gt_0 Suc_le_eq)
    then have "unat (g_aThrBoost s ! p - 1) = unat (g_aThrBoost s ! p) - 1" by (simp add: unat_sub)
    then show ?thesis using \<open>g_aThrBoost s ! p \<le> 4\<close> by (simp add: word_le_nat_alt)
  qed
  moreover have "g_aThrBoost (upd_thr p f s) = g_aThrBoost s" for f by (simp add: upd_thr_def)
  ultimately show ?thesis using assms(1) in_range_list(1) [of "upd_thr p f s" for f] in_range_list(1) [OF assms(1)]
    by (auto simp: leave_thread_def Let_def)
qed

lemma in_range_switch:
  assumes "in_range s" "sched_wf s" "c < GJ_CPU_STATIC_MAX"
  shows "in_range (switch_to c n s)"
proof (cases "thread_current c s")
  case (Some p)
  then have "p < GJ_MAX_THREADS" using assms(2,3) by (auto simp: sched_wf_def)
  from in_range_leave [OF assms(1,2) this, of c] show ?thesis using Some by (simp add: switch_to_def Let_def)
qed (use assms in \<open>simp add: switch_to_def Let_def\<close>)

lemma in_range_pick: "in_range s \<Longrightarrow> in_range (snd (pick_next c s))"
proof -
  have "x mod 32 < 32" for x :: u32 by (simp add: word_less_nat_alt unat_mod)
  then show "in_range s \<Longrightarrow> in_range (snd (pick_next c s))" by (auto simp: pick_next_def Let_def in_range_list(3) split: option.split)
qed

lemma in_range_schedule:
  assumes "in_range s" "sched_wf s" "c < GJ_CPU_STATIC_MAX"
  shows "in_range (schedule ret c s)" "in_range (schedule_spin c s)"
proof -
  obtain p v q w where r: "pick_next c s = (p, v)" "pick_next c v = (q, w)" by (metis surj_pair)
  have v: "in_range v" "sched_wf v" "in_range w" "sched_wf w"
    using in_range_pick [OF assms(1), of c] pick_next_wf [OF assms(2) r(1)] in_range_pick [of v c] pick_next_wf [OF _ r(2)] r by auto
  show "in_range (schedule ret c s)" using r v in_range_switch [OF v(1,2) assms(3)] by (auto simp: schedule_def split: option.split)
  show "in_range (schedule_spin c s)" using r v assms(1) in_range_switch [OF v(3,4) assms(3)] by (auto simp: schedule_spin_def split: option.split)
qed

lemma in_range_create: "in_range s \<Longrightarrow> in_range (snd (thread_create c pProc pfn pArg s))"
  by (auto simp: thread_create_def Let_def in_range_reset split: option.split)

lemma in_range_create_user: "in_range s \<Longrightarrow> in_range (snd (create_user_with f c pProc e st s))"
  using in_range_create [of s c pProc None 0] by (auto simp: create_user_with_def split: option.split prod.split)

lemma in_range_qos: "in_range s \<Longrightarrow> in_range (thread_set_qos u q s)"
proof -
  have "(if q \<le> 4 then ucast q else 0) \<le> (4 :: u8)"
  proof (cases "q \<le> 4")
    case True
    then have "unat (ucast q :: u8) \<le> 4" by (simp add: word_le_nat_alt unsigned_ucast_eq take_bit_nat_eq_self)
    then show ?thesis using True by (simp add: word_le_nat_alt)
  qed simp
  then show "in_range s \<Longrightarrow> in_range (thread_set_qos u q s)" by (auto simp: thread_set_qos_def intro!: in_range_list(2) split: option.split if_splits)
qed

lemma in_range_boost: "in_range s \<Longrightarrow> in_range (thread_qos_boost_soft u k s)"
proof -
  have "(if (4 :: u32) < ucast x then (ucast (4 :: u32) :: u8) else ucast x) \<le> 4" for x :: u16
  proof (cases "(4 :: u32) < ucast x")
    case False
    have "unat x < 2 ^ LENGTH(16)" by (rule unsigned_less)
    with False have "unat x \<le> 4" by (simp add: not_less word_le_nat_alt unsigned_ucast_eq take_bit_nat_eq_self)
    then have "unat (ucast x :: u8) \<le> 4" by (simp add: unsigned_ucast_eq take_bit_nat_eq_self)
    then show ?thesis using False by (simp add: word_le_nat_alt)
  qed simp
  then show "in_range s \<Longrightarrow> in_range (thread_qos_boost_soft u k s)" by (simp add: thread_qos_boost_soft_def Let_def in_range_list(1) split: option.split del: if_split)
qed

lemma in_range_act:
  assumes "sched_act a s = Some u" "in_range s" "sched_wf s"
  shows "in_range u"
proof (cases a)
  case (A_CreateOn c pProc pfn pArg x)
  have "in_range (thread_set_cpu i x t) = in_range t" for i t by (simp add: thread_set_cpu_def split: option.split)
  then show ?thesis using assms in_range_create [OF assms(2), of c pProc pfn pArg] A_CreateOn by (auto simp: thread_create_on_cpu_def split: if_splits prod.splits)
next
  case (A_ExitProcess door c pProc)
  then show ?thesis using assms in_range_exit_loop [OF assms(2)] by (cases pProc) (auto simp: thread_exit_process_def split: if_splits)
qed (use assms in \<open>auto simp: in_range_schedule in_range_pick in_range_create in_range_create_user thread_create_user_def thread_create_user32_def in_range_qos in_range_boost
    in_range_reset thread_yield_def thread_yield_request_def thread_yield_pending_def thread_exec_replace_def thread_set_cpu_def thread_init_ap_idle_def ap_start_def
    runs_def at_pc_def Let_def split: if_splits option.splits\<close>)

lemma boot_in_range: "sched_boot s \<Longrightarrow> in_range s"
  by (auto simp: sched_boot_def thread_init_def Let_def) (simp add: in_range_def)

interpretation sched_ranges: inv_system sched_step "\<lambda>s. sched_wf s \<and> in_range s" sched_boot
  by unfold_locales (auto simp: sched_step_def intro: act_wf in_range_act boot_wf(1) boot_in_range)

lemma rank_eff_range:
  assumes "i < GJ_MAX_THREADS" "g_aThrBoost s ! i \<le> 4"
  shows "qos_rank_eff i s \<le> 4" "qos_rank (g_aThrQos s ! i) \<le> qos_rank_eff i s"
proof -
  define r b where "r = qos_rank (g_aThrQos s ! i)" and "b = g_aThrBoost s ! i"
  have r: "unat r \<le> 4" unfolding r_def qos_rank_def by simp
  have b: "unat b \<le> 4" using assms(2) by (simp add: b_def word_le_nat_alt)
  have e: "unat (r + b) = unat r + unat b" "unat (ucast r + ucast b :: u16) = unat r + unat b" using r b
    by (simp_all add: unat_word_ariths unsigned_ucast_eq take_bit_nat_eq_self)
  have q: "qos_rank_eff i s = (if b \<noteq> 0 then if (4 :: u16) \<le> ucast r + ucast b then 4 else r + b else r)" using assms(1) by (simp add: qos_rank_eff_def r_def b_def Let_def)
  have "unat (qos_rank_eff i s) \<le> 4 \<and> unat r \<le> unat (qos_rank_eff i s)" unfolding q using r e by (simp add: word_le_nat_alt)
  then show "qos_rank_eff i s \<le> 4" "qos_rank (g_aThrQos s ! i) \<le> qos_rank_eff i s" by (simp_all add: word_le_nat_alt r_def)
qed

text \<open>
  C28: in every state the scheduler can reach its tables keep their sizes, every thread and scan position they name is in
  range, classes and boosts are at most 4, and a boost lifts the class of a thread, but never above that of drivers.
\<close>

theorem sched_tables_typed:
  assumes "reach sched_boot sched_step s"
  shows "sched_wf s \<and> (\<forall>c < GJ_CPU_STATIC_MAX. g_aRobin s ! c < 32)
    \<and> (\<forall>i < GJ_MAX_THREADS. g_aThrQos s ! i \<le> 4 \<and> g_aThrBoost s ! i \<le> 4 \<and> qos_rank_eff i s \<le> 4 \<and> qos_rank (g_aThrQos s ! i) \<le> qos_rank_eff i s)"
proof -
  have w: "sched_wf s" "in_range s" using sched_ranges.reach_holds [OF assms] by auto
  note d = sched_wfD [OF w(1)]
  have "g_aRobin s ! c \<in> {..<32}" if "c < GJ_CPU_STATIC_MAX" for c using w(2) that d(8) unfolding in_range_def by (metis nth_mem subsetD)
  moreover have "g_aThrQos s ! i \<in> {..4}" "g_aThrBoost s ! i \<in> {..4}" if "i < GJ_MAX_THREADS" for i
    using w(2) that d(5,6) unfolding in_range_def by (metis nth_mem subsetD)+
  ultimately show ?thesis using w(1) rank_eff_range by auto
qed

theorem sched_tables_typed_witness: "sched_wf wit_sched \<and> qos_rank_eff 3 wit_sched \<le> 4"
proof -
  have "reach sched_boot sched_step wit_sched" by (rule reach_init) (rule wit_sched_boot)
  from sched_tables_typed [OF this] show ?thesis by simp
qed

end
