(* ===== verification/Door.thy ===== *)
theory Door
  imports Cap_Revoke Thread_Block
begin

text \<open>
  Doors, \<^verbatim>\<open>kernel/ipc/door.c\<close>: synchronous calls from a client thread to a server thread.  A door has room for one call
  at a time; other callers wait for the slot, the caller waits for the reply, the server waits for a request.
  The state extends the capability layer by the doors, the threads and the table of reply rights.

  Kernel code is not preempted, so a call, a receive or a reply runs up to its call of the scheduler in one piece;
  \<^verbatim>\<open>door_call_timeout\<close> and \<^verbatim>\<open>door_recv\<close> are given by such pieces, and the result of a piece tells where the thread
  waits.  Samples of the clock are arguments.  The tallies and logs (\<^verbatim>\<open>g_u64Soft*\<close>) and the self-checks of
  \<^verbatim>\<open>door_cold_init\<close>, which work on doors of their own, are left out.
\<close>

section \<open>Data\<close>

abbreviation (input) DOOR_TAG_SERVER :: u32 where "DOOR_TAG_SERVER \<equiv> 1"
abbreviation (input) DOOR_TAG_CLIENT :: u32 where "DOOR_TAG_CLIENT \<equiv> 2"
abbreviation (input) DOOR_TAG_SLOT :: u32 where "DOOR_TAG_SLOT \<equiv> 3"
abbreviation (input) DOOR_REPLY_SOFT_SLOTS :: nat where "DOOR_REPLY_SOFT_SLOTS \<equiv> 8"
abbreviation (input) GJ_CAP_ENDPOINT :: u16 where "GJ_CAP_ENDPOINT \<equiv> 5"

type_synonym i64 = "64 word"

abbreviation (input) minus_EIO :: i64 where "minus_EIO \<equiv> - 5"
abbreviation (input) minus_ENOSYS :: i64 where "minus_ENOSYS \<equiv> - 38"
abbreviation (input) minus_ETIMEDOUT :: i64 where "minus_ETIMEDOUT \<equiv> - 110"

record gj_linux_regs =
  rg_u64Nr :: u64
  rg_u64Arg0 :: u64
  rg_u64Arg1 :: u64
  rg_u64Arg2 :: u64
  rg_u64Arg3 :: u64
  rg_u64Arg4 :: u64
  rg_u64Arg5 :: u64
  rg_i64Ret :: i64

definition no_regs :: gj_linux_regs where
  "no_regs = \<lparr>rg_u64Nr = 0, rg_u64Arg0 = 0, rg_u64Arg1 = 0, rg_u64Arg2 = 0, rg_u64Arg3 = 0, rg_u64Arg4 = 0, rg_u64Arg5 = 0, rg_i64Ret = 0\<rparr>"

text \<open>The header is the kernel object at the same address; server and client are thread indices.\<close>

record gj_door =
  dr_u32Ready :: u32
  dr_u32PeerDead :: u32
  dr_u32Badge :: u32
  dr_u32LastBadge :: u32
  dr_pServer :: "nat option"
  dr_pClient :: "nat option"
  dr_req :: gj_linux_regs
  dr_i64Reply :: i64
  dr_u32HasReq :: u32
  dr_u32HasReply :: u32
  dr_u64Calls :: u64
  dr_u64Replies :: u64
  dr_u64Aborts :: u64
  dr_u64Timeouts :: u64
  dr_u64BadgeMask :: u64

definition no_door :: gj_door where
  "no_door = \<lparr>dr_u32Ready = 0, dr_u32PeerDead = 0, dr_u32Badge = 0, dr_u32LastBadge = 0, dr_pServer = None, dr_pClient = None, dr_req = no_regs,
     dr_i64Reply = 0, dr_u32HasReq = 0, dr_u32HasReply = 0, dr_u64Calls = 0, dr_u64Replies = 0, dr_u64Aborts = 0, dr_u64Timeouts = 0, dr_u64BadgeMask = 0\<rparr>"

record door_reply_soft =
  rs_pDoor :: ptr
  rs_u32Gen :: u32
  rs_u32Live :: u32
  rs_u32Consumed :: u32

definition no_reply :: door_reply_soft where
  "no_reply = \<lparr>rs_pDoor = None, rs_u32Gen = 0, rs_u32Live = 0, rs_u32Consumed = 0\<rparr>"

text \<open>\<open>ds_cold\<close> is the address of \<^verbatim>\<open>g_doorCold\<close>.\<close>

record door_state = revoke_state +
  ds_doors :: "nat \<Rightarrow> gj_door"
  ds_threads :: threads
  g_aReplySoft :: "door_reply_soft list"
  g_u32ReplySoftGen :: u32
  g_fColdInited :: bool
  ds_cold :: nat

definition upd_door :: "nat \<Rightarrow> (gj_door \<Rightarrow> gj_door) \<Rightarrow> 'a door_state_scheme \<Rightarrow> 'a door_state_scheme" where
  "upd_door d f s = s\<lparr>ds_doors := (ds_doors s)(d := f (ds_doors s d))\<rparr>"

definition door_wake :: "nat \<Rightarrow> u32 \<Rightarrow> u32 \<Rightarrow> 'a door_state_scheme \<Rightarrow> 'a door_state_scheme" where
  "door_wake d u32Tag u32Max s = s\<lparr>ds_threads := snd (thread_wake (Obj_Other d) u32Tag u32Max (ds_threads s))\<rparr>"

definition door_block :: "nat \<Rightarrow> nat \<Rightarrow> u32 \<Rightarrow> 'a door_state_scheme \<Rightarrow> 'a door_state_scheme" where
  "door_block t d u32Tag s = s\<lparr>ds_threads := thread_block (Some t) (Obj_Other d) u32Tag (ds_threads s)\<rparr>"

definition door_store_has_req :: "nat \<Rightarrow> u32 \<Rightarrow> 'a door_state_scheme \<Rightarrow> 'a door_state_scheme" where
  "door_store_has_req d u32V = upd_door d (\<lambda>p. p\<lparr>dr_u32HasReq := u32V\<rparr>)"

definition door_store_has_reply :: "nat \<Rightarrow> u32 \<Rightarrow> 'a door_state_scheme \<Rightarrow> 'a door_state_scheme" where
  "door_store_has_reply d u32V = upd_door d (\<lambda>p. p\<lparr>dr_u32HasReply := u32V\<rparr>)"

definition door_load_has_req :: "nat \<Rightarrow> 'a door_state_scheme \<Rightarrow> u32" where
  "door_load_has_req d s = dr_u32HasReq (ds_doors s d)"

definition door_load_has_reply :: "nat \<Rightarrow> 'a door_state_scheme \<Rightarrow> u32" where
  "door_load_has_reply d s = dr_u32HasReply (ds_doors s d)"

definition door_clear_serve :: "nat \<Rightarrow> 'a door_state_scheme \<Rightarrow> 'a door_state_scheme" where
  "door_clear_serve d = upd_door d (\<lambda>p. p\<lparr>dr_pServer := None\<rparr>)"

section \<open>Reply rights\<close>

definition door_reply_soft_find :: "nat \<Rightarrow> 'a door_state_scheme \<Rightarrow> nat option" where
  "door_reply_soft_find d s = find (\<lambda>i. rs_pDoor (g_aReplySoft s ! i) = Some d) [0..<DOOR_REPLY_SOFT_SLOTS]"

definition upd_reply :: "nat \<Rightarrow> (door_reply_soft \<Rightarrow> door_reply_soft) \<Rightarrow> 'a door_state_scheme \<Rightarrow> 'a door_state_scheme" where
  "upd_reply i f s = s\<lparr>g_aReplySoft := (g_aReplySoft s)[i := f (g_aReplySoft s ! i)]\<rparr>"

definition reply_slot_for :: "nat \<Rightarrow> 'a door_state_scheme \<Rightarrow> nat option" where
  "reply_slot_for d s =
     (case door_reply_soft_find d s of
        Some i \<Rightarrow> Some i
      | None \<Rightarrow> find (\<lambda>i. rs_pDoor (g_aReplySoft s ! i) = None) [0..<DOOR_REPLY_SOFT_SLOTS])"

definition door_reply_soft_create :: "nat \<Rightarrow> 'a door_state_scheme \<Rightarrow> 'a door_state_scheme" where
  "door_reply_soft_create d s =
     (case reply_slot_for d s of
        None \<Rightarrow> s
      | Some i \<Rightarrow>
          (let g = g_u32ReplySoftGen s + 1;
               g = (if g = 0 then 1 else g)
           in upd_reply i (\<lambda>_. \<lparr>rs_pDoor = Some d, rs_u32Gen = g, rs_u32Live = 1, rs_u32Consumed = 0\<rparr>) (s\<lparr>g_u32ReplySoftGen := g\<rparr>)))"

definition door_reply_soft_try_consume :: "nat \<Rightarrow> 'a door_state_scheme \<Rightarrow> bool \<times> 'a door_state_scheme" where
  "door_reply_soft_try_consume d s =
     (case door_reply_soft_find d s of
        None \<Rightarrow> (True, s)
      | Some i \<Rightarrow>
          if rs_u32Live (g_aReplySoft s ! i) = 0 \<or> rs_u32Consumed (g_aReplySoft s ! i) \<noteq> 0 then (False, s)
          else (True, upd_reply i (\<lambda>r. r\<lparr>rs_u32Live := 0, rs_u32Consumed := 1\<rparr>) s))"

definition door_reply_soft_invalidate :: "nat \<Rightarrow> 'a door_state_scheme \<Rightarrow> 'a door_state_scheme" where
  "door_reply_soft_invalidate d s =
     (case door_reply_soft_find d s of
        None \<Rightarrow> s
      | Some i \<Rightarrow> upd_reply i (\<lambda>r. r\<lparr>rs_u32Live := 0, rs_u32Consumed := 1\<rparr>) s)"

section \<open>State of a door\<close>

definition door_live :: "'a door_state_scheme \<Rightarrow> ptr \<Rightarrow> bool" where
  "door_live s pDoor =
     (case pDoor of
        None \<Rightarrow> False
      | Some d \<Rightarrow>
          if dr_u32Ready (ds_doors s d) = 0 then False
          else if hdr_u32State (st_objs s d) \<noteq> GJ_OBJ_LIVE then False
          else if dr_u32PeerDead (ds_doors s d) \<noteq> 0 then False
          else True)"

definition door_snapshot_last_badge :: "nat \<Rightarrow> 'a door_state_scheme \<Rightarrow> 'a door_state_scheme" where
  "door_snapshot_last_badge d = upd_door d (\<lambda>p. p\<lparr>dr_u32LastBadge := dr_u32Badge p\<rparr>)"

text \<open>The compare-and-exchange gives the slot back only if \<open>t\<close> holds it.\<close>

definition door_release_client_slot :: "nat \<Rightarrow> nat \<Rightarrow> 'a door_state_scheme \<Rightarrow> 'a door_state_scheme" where
  "door_release_client_slot d t s =
     door_wake d DOOR_TAG_SLOT 1 (upd_door d (\<lambda>p. if dr_pClient p = Some t then p\<lparr>dr_pClient := None\<rparr> else p) s)"

definition door_cancel_inflight :: "nat \<Rightarrow> nat \<Rightarrow> 'a door_state_scheme \<Rightarrow> 'a door_state_scheme" where
  "door_cancel_inflight d t s =
     (let s = door_store_has_req d 0 s;
          s = door_store_has_reply d 0 s;
          s = door_reply_soft_invalidate d s;
          s = door_release_client_slot d t s
      in door_wake d DOOR_TAG_SERVER 1 s)"

definition door_init :: "ptr \<Rightarrow> 'a door_state_scheme \<Rightarrow> 'a door_state_scheme" where
  "door_init pDoor s =
     (case pDoor of
        None \<Rightarrow> s
      | Some d \<Rightarrow>
          (let s = door_reply_soft_invalidate d s;
               s = (case door_reply_soft_find d s of None \<Rightarrow> s | Some i \<Rightarrow> upd_reply i (\<lambda>_. no_reply) s);
               s = upd_door d (\<lambda>_. no_door) s;
               s = gj_obj_hdr_init (Some d) s
           in upd_door d (\<lambda>p. p\<lparr>dr_u32Ready := 1\<rparr>) s))"

definition door_cold_init :: "'a door_state_scheme \<Rightarrow> 'a door_state_scheme" where
  "door_cold_init s =
     (if g_fColdInited s \<and> dr_u32Ready (ds_doors s (ds_cold s)) \<noteq> 0 \<and> hdr_u32State (st_objs s (ds_cold s)) = GJ_OBJ_LIVE then s
      else (door_init (Some (ds_cold s)) s)\<lparr>g_fColdInited := True\<rparr>)"

definition door_is_live :: "'a door_state_scheme \<Rightarrow> ptr \<Rightarrow> bool" where
  "door_is_live s pDoor = door_live s pDoor"

definition door_stats :: "'a door_state_scheme \<Rightarrow> ptr \<Rightarrow> u64 \<times> u64 \<times> u64 \<times> u64" where
  "door_stats s pDoor =
     (case pDoor of
        None \<Rightarrow> (0, 0, 0, 0)
      | Some d \<Rightarrow> (let p = ds_doors s d in (dr_u64Calls p, dr_u64Replies p, dr_u64Aborts p, dr_u64Timeouts p)))"

text \<open>\<open>pProcCnode\<close> is \<open>None\<close> for a NULL process, else its CNode pointer; \<open>fOut\<close> tells that the caller passed an output
  reference.\<close>

definition door_install_endpoint ::
  "ptr option \<Rightarrow> ptr \<Rightarrow> u16 \<Rightarrow> bool \<Rightarrow> 'a door_state_scheme \<Rightarrow> (gj_status + gj_cap_ref) \<times> 'a door_state_scheme" where
  "door_install_endpoint pProcCnode pDoor u16Rights fOut s =
     (if pProcCnode = None \<or> pDoor = None \<or> \<not> fOut \<or> pProcCnode = Some None then (Inl GJ_ERR_INVAL, s)
      else if \<not> door_live s pDoor then (Inl GJ_ERR_NODEV, s)
      else
        (let u16Rights = (if u16Rights = 0 then GJ_RIGHT_READ OR GJ_RIGHT_GRANT OR GJ_RIGHT_IDENTIFY else u16Rights)
         in gj_cap_alloc_install (the pProcCnode) GJ_CAP_ENDPOINT u16Rights pDoor s))"

section \<open>Badges\<close>

definition door_set_badge :: "ptr \<Rightarrow> u32 \<Rightarrow> 'a door_state_scheme \<Rightarrow> 'a door_state_scheme" where
  "door_set_badge pDoor u32Badge s = (case pDoor of None \<Rightarrow> s | Some d \<Rightarrow> upd_door d (\<lambda>p. p\<lparr>dr_u32Badge := u32Badge\<rparr>) s)"

definition door_get_badge :: "'a door_state_scheme \<Rightarrow> ptr \<Rightarrow> u32" where
  "door_get_badge s pDoor = (case pDoor of None \<Rightarrow> 0 | Some d \<Rightarrow> dr_u32Badge (ds_doors s d))"

definition door_get_last_badge :: "'a door_state_scheme \<Rightarrow> ptr \<Rightarrow> u32" where
  "door_get_last_badge s pDoor = (case pDoor of None \<Rightarrow> 0 | Some d \<Rightarrow> dr_u32LastBadge (ds_doors s d))"

definition door_badge_or :: "ptr \<Rightarrow> u64 \<Rightarrow> 'a door_state_scheme \<Rightarrow> 'a door_state_scheme" where
  "door_badge_or pDoor u64Bits s =
     (case pDoor of
        None \<Rightarrow> s
      | Some d \<Rightarrow> if u64Bits = 0 then s else upd_door d (\<lambda>p. p\<lparr>dr_u64BadgeMask := dr_u64BadgeMask p OR u64Bits\<rparr>) s)"

definition door_get_badge_mask :: "'a door_state_scheme \<Rightarrow> ptr \<Rightarrow> u64" where
  "door_get_badge_mask s pDoor = (case pDoor of None \<Rightarrow> 0 | Some d \<Rightarrow> dr_u64BadgeMask (ds_doors s d))"

section \<open>Death\<close>

definition door_abort_waiters :: "ptr \<Rightarrow> 'a door_state_scheme \<Rightarrow> 'a door_state_scheme" where
  "door_abort_waiters pDoor s =
     (case pDoor of
        None \<Rightarrow> s
      | Some d \<Rightarrow>
          (let s = upd_door d (\<lambda>p. p\<lparr>dr_u32PeerDead := 1, dr_u64Aborts := dr_u64Aborts p + 1\<rparr>) s;
               s = door_reply_soft_invalidate d s;
               s = (if dr_pClient (ds_doors s d) \<noteq> None
                    then door_wake d DOOR_TAG_CLIENT 1 (door_store_has_reply d 1 (upd_door d (\<lambda>p. p\<lparr>dr_i64Reply := minus_EIO\<rparr>) s))
                    else s);
               s = door_clear_serve d s;
               s = door_wake d DOOR_TAG_SERVER 1 s
           in door_wake d DOOR_TAG_SLOT 8 s))"

definition door_mark_dead :: "ptr \<Rightarrow> 'a door_state_scheme \<Rightarrow> 'a door_state_scheme" where
  "door_mark_dead pDoor s =
     (case pDoor of
        None \<Rightarrow> s
      | Some d \<Rightarrow>
          (let s = upd_door d (\<lambda>p. p\<lparr>dr_u32Ready := 0, dr_u32PeerDead := 1\<rparr>) s;
               s = (if hdr_u32State (st_objs s d) = GJ_OBJ_LIVE then snd (gj_obj_revoke_begin (Some d) s)
                    else upd_obj d (\<lambda>h. h\<lparr>hdr_u32State := GJ_OBJ_DEAD\<rparr>) s)
           in door_abort_waiters pDoor s))"

definition door_thr_exit_server_role :: "nat \<Rightarrow> nat \<Rightarrow> 'a door_state_scheme \<Rightarrow> 'a door_state_scheme" where
  "door_thr_exit_server_role d t s =
     (if dr_pServer (ds_doors s d) \<noteq> Some t then s
      else
        (let s = (if dr_pClient (ds_doors s d) \<noteq> None \<and> door_load_has_reply d s = 0
                  then (let s = door_store_has_req d 0 s;
                            s = upd_door d (\<lambda>p. p\<lparr>dr_i64Reply := minus_EIO\<rparr>) s;
                            s = door_store_has_reply d 1 s;
                            s = upd_door d (\<lambda>p. p\<lparr>dr_u64Aborts := dr_u64Aborts p + 1\<rparr>) s;
                            s = door_reply_soft_invalidate d s
                        in door_wake d DOOR_TAG_CLIENT 1 s)
                  else s);
             s = door_clear_serve d s;
             s = door_wake d DOOR_TAG_SERVER 1 s
         in door_wake d DOOR_TAG_SLOT 8 s))"

definition door_thr_exit_one :: "nat \<Rightarrow> nat \<Rightarrow> 'a door_state_scheme \<Rightarrow> 'a door_state_scheme" where
  "door_thr_exit_one d t s =
     door_thr_exit_server_role d t
       (if dr_pClient (ds_doors s d) = Some t
        then (let s = upd_door d (\<lambda>p. p\<lparr>dr_pClient := None\<rparr>) s;
                  s = door_store_has_req d 0 s;
                  s = door_store_has_reply d 0 s;
                  s = upd_door d (\<lambda>p. p\<lparr>dr_i64Reply := minus_EIO, dr_u64Aborts := dr_u64Aborts p + 1\<rparr>) s;
                  s = door_reply_soft_invalidate d s;
                  s = door_clear_serve d s;
                  s = door_wake d DOOR_TAG_CLIENT 1 s;
                  s = door_wake d DOOR_TAG_SERVER 1 s
              in door_wake d DOOR_TAG_SLOT 8 s)
        else s)"

text \<open>The walk over the table: the slots left and the doors seen.\<close>

fun exit_walk :: "nat list \<Rightarrow> nat list \<Rightarrow> nat \<Rightarrow> 'a door_state_scheme \<Rightarrow> 'a door_state_scheme" where
  "exit_walk [] aSeen t s = s"
| "exit_walk (iSlot # is) aSeen t s =
     (case rs_pDoor (g_aReplySoft s ! iSlot) of
        None \<Rightarrow> exit_walk is aSeen t s
      | Some d \<Rightarrow>
          if d \<in> set aSeen then exit_walk is aSeen t s
          else exit_walk is (if length aSeen < DOOR_REPLY_SOFT_SLOTS + 1 then aSeen @ [d] else aSeen) t (door_thr_exit_one d t s))"

definition door_on_thread_exit :: "nat option \<Rightarrow> 'a door_state_scheme \<Rightarrow> 'a door_state_scheme" where
  "door_on_thread_exit pThr s =
     (case pThr of
        None \<Rightarrow> s
      | Some t \<Rightarrow> exit_walk [0..<DOOR_REPLY_SOFT_SLOTS] [ds_cold s] t (door_thr_exit_one (ds_cold s) t s))"

section \<open>Calls\<close>

text \<open>A sample of the clock: \<^verbatim>\<open>timer_ready()\<close> and \<^verbatim>\<open>timer_mono_nsec()\<close>.\<close>

type_synonym clock = "bool \<times> u64"

definition past :: "u64 \<Rightarrow> clock \<Rightarrow> bool" where
  "past u64Deadline tm \<longleftrightarrow> u64Deadline \<noteq> 0 \<and> (\<not> fst tm \<or> u64Deadline \<le> snd tm)"

text \<open>
  The first loop of \<^verbatim>\<open>door_call_timeout\<close>, up to the return of an error, the call of the scheduler or the claim of the
  slot (with the number of clock samples used).  The loop goes on only after a dead owner was found.
\<close>

datatype claim_out = Claim_Ret i64 | Claim_Wait | Claim_Got nat

partial_function (option) claim_loop ::
  "(nat \<Rightarrow> clock) \<Rightarrow> nat \<Rightarrow> nat \<Rightarrow> nat \<Rightarrow> u64 \<Rightarrow> 'a door_state_scheme \<Rightarrow> (claim_out \<times> 'a door_state_scheme) option" where
  "claim_loop tm k d t u64Deadline s =
     (if \<not> door_live s (Some d) then Some (Claim_Ret minus_EIO, s)
      else if past u64Deadline (tm k)
        then Some (Claim_Ret minus_ETIMEDOUT, upd_door d (\<lambda>p. p\<lparr>dr_u64Timeouts := dr_u64Timeouts p + 1\<rparr>) s)
      else
        (case dr_pClient (ds_doors s d) of
           None \<Rightarrow> Some (Claim_Got (Suc k), upd_door d (\<lambda>p. p\<lparr>dr_pClient := Some t\<rparr>) s)
         | Some pHold \<Rightarrow>
             if th_u32State (ds_threads s ! pHold) = GJ_THR_EXITED \<or> th_u32Id (ds_threads s ! pHold) = 0
             then claim_loop tm (Suc k) d t u64Deadline (door_on_thread_exit (Some pHold) s)
             else
               (let s = door_block t d DOOR_TAG_SLOT s
                in Some (Claim_Wait,
                     if dr_pClient (ds_doors s d) = None \<or> \<not> door_live s (Some d) then door_wake d DOOR_TAG_SLOT 1 s else s))))"

declare claim_loop.simps [code]

definition post_request :: "nat \<Rightarrow> gj_linux_regs \<Rightarrow> 'a door_state_scheme \<Rightarrow> 'a door_state_scheme" where
  "post_request d regs s =
     (let s = upd_door d (\<lambda>p. p\<lparr>dr_req := regs\<rparr>) s;
          s = door_store_has_reply d 0 s;
          s = door_store_has_req d 1 s;
          s = upd_door d (\<lambda>p. p\<lparr>dr_u64Calls := dr_u64Calls p + 1\<rparr>) s;
          s = door_reply_soft_create d s
      in if dr_pServer (ds_doors s d) \<noteq> None then door_wake d DOOR_TAG_SERVER 1 s else s)"

text \<open>What a piece of a call ends with: the result, or the tag the thread waits with.\<close>

datatype call_out = Call_Ret i64 | Call_Slot | Call_Client

text \<open>One round of the second loop.\<close>

definition reply_round :: "clock \<Rightarrow> nat \<Rightarrow> nat \<Rightarrow> u64 \<Rightarrow> 'a door_state_scheme \<Rightarrow> call_out \<times> 'a door_state_scheme" where
  "reply_round tm d t u64Deadline s =
     (if door_load_has_reply d s \<noteq> 0
      then (let i64Ret = dr_i64Reply (ds_doors s d);
                s = door_store_has_reply d 0 s;
                s = door_store_has_req d 0 s;
                s = door_snapshot_last_badge d s
            in (Call_Ret i64Ret, door_release_client_slot d t s))
      else if \<not> door_live s (Some d) then (Call_Ret minus_EIO, door_cancel_inflight d t (door_snapshot_last_badge d s))
      else if past u64Deadline tm
        then (Call_Ret minus_ETIMEDOUT, upd_door d (\<lambda>p. p\<lparr>dr_u64Timeouts := dr_u64Timeouts p + 1\<rparr>) (door_cancel_inflight d t s))
      else
        (let s = door_block t d DOOR_TAG_CLIENT s
         in (Call_Client, if door_load_has_reply d s \<noteq> 0 \<or> \<not> door_live s (Some d) then door_wake d DOOR_TAG_CLIENT 1 s else s)))"

text \<open>From the first loop on, also when the thread comes back from waiting for the slot.\<close>

definition call_claim ::
  "(nat \<Rightarrow> clock) \<Rightarrow> nat \<Rightarrow> nat \<Rightarrow> gj_linux_regs \<Rightarrow> u64 \<Rightarrow> 'a door_state_scheme \<Rightarrow> (call_out \<times> 'a door_state_scheme) option" where
  "call_claim tm d t regs u64Deadline s =
     (case claim_loop tm 0 d t u64Deadline s of
        None \<Rightarrow> None
      | Some (Claim_Ret r, s) \<Rightarrow> Some (Call_Ret r, s)
      | Some (Claim_Wait, s) \<Rightarrow> Some (Call_Slot, s)
      | Some (Claim_Got k, s) \<Rightarrow> Some (reply_round (tm k) d t u64Deadline (post_request d regs s)))"

definition door_call_timeout ::
  "(nat \<Rightarrow> clock) \<Rightarrow> nat option \<Rightarrow> ptr \<Rightarrow> gj_linux_regs option \<Rightarrow> u64 \<Rightarrow> 'a door_state_scheme \<Rightarrow> (call_out \<times> 'a door_state_scheme) option" where
  "door_call_timeout tm pCur pDoor pRegs u64Deadline s =
     (case (pDoor, pRegs) of
        (Some d, Some regs) \<Rightarrow>
          if dr_u32Ready (ds_doors s d) = 0 then Some (Call_Ret minus_ENOSYS, s)
          else if \<not> door_live s pDoor then Some (Call_Ret minus_EIO, s)
          else (case pCur of None \<Rightarrow> Some (Call_Ret minus_ENOSYS, s) | Some t \<Rightarrow> call_claim tm d t regs u64Deadline s)
      | _ \<Rightarrow> Some (Call_Ret minus_ENOSYS, s))"

definition door_call ::
  "(nat \<Rightarrow> clock) \<Rightarrow> nat option \<Rightarrow> ptr \<Rightarrow> gj_linux_regs option \<Rightarrow> 'a door_state_scheme \<Rightarrow> (call_out \<times> 'a door_state_scheme) option" where
  "door_call tm pCur pDoor pRegs s = door_call_timeout tm pCur pDoor pRegs 0 s"

section \<open>The server\<close>

text \<open>What a piece of \<^verbatim>\<open>door_recv\<close> ends with: the request, an error, or a wait, as the server of the door or behind another
  one.\<close>

datatype recv_out = Recv_Ok gj_linux_regs | Recv_Err gj_status | Recv_Foreign | Recv_Wait

definition recv_round :: "nat \<Rightarrow> nat \<Rightarrow> 'a door_state_scheme \<Rightarrow> recv_out \<times> 'a door_state_scheme" where
  "recv_round d t s =
     (let p = ds_doors s d
      in if \<not> door_live s (Some d) then (Recv_Err GJ_ERR_PEER_DEAD, if dr_pServer p = Some t then door_clear_serve d s else s)
         else if door_load_has_req d s \<noteq> 0 \<and> (dr_pServer p = None \<or> dr_pServer p = Some t)
           then (Recv_Ok (dr_req p), upd_door d (\<lambda>p. p\<lparr>dr_pServer := Some t\<rparr>) (door_store_has_req d 0 s))
         else if dr_pServer p \<noteq> None \<and> dr_pServer p \<noteq> Some t \<and> dr_pClient p \<noteq> None
           then (let s = door_block t d DOOR_TAG_SERVER s
                 in (Recv_Foreign, if door_load_has_req d s \<noteq> 0 \<or> \<not> door_live s (Some d) \<or> dr_pServer (ds_doors s d) = None
                       then door_wake d DOOR_TAG_SERVER 1 s else s))
         else (let s = upd_door d (\<lambda>p. p\<lparr>dr_pServer := Some t\<rparr>) s;
                   s = door_block t d DOOR_TAG_SERVER s
               in (Recv_Wait, if door_load_has_req d s \<noteq> 0 \<or> \<not> door_live s (Some d) then door_wake d DOOR_TAG_SERVER 1 s else s)))"

text \<open>Behind the call of the scheduler, before the next round.\<close>

definition recv_unmark :: "nat \<Rightarrow> nat \<Rightarrow> 'a door_state_scheme \<Rightarrow> 'a door_state_scheme" where
  "recv_unmark d t s =
     (if dr_pServer (ds_doors s d) = Some t \<and> door_load_has_req d s = 0 \<and> dr_pClient (ds_doors s d) = None
      then upd_door d (\<lambda>p. p\<lparr>dr_pServer := None\<rparr>) s else s)"

definition door_recv :: "nat option \<Rightarrow> ptr \<Rightarrow> bool \<Rightarrow> 'a door_state_scheme \<Rightarrow> recv_out \<times> 'a door_state_scheme" where
  "door_recv pCur pDoor fRegs s =
     (case pDoor of
        None \<Rightarrow> (Recv_Err GJ_ERR_INVAL, s)
      | Some d \<Rightarrow>
          if \<not> fRegs \<or> dr_u32Ready (ds_doors s d) = 0 then (Recv_Err GJ_ERR_INVAL, s)
          else if \<not> door_live s pDoor then (Recv_Err GJ_ERR_PEER_DEAD, s)
          else (case pCur of None \<Rightarrow> (Recv_Err GJ_ERR_INVAL, s) | Some t \<Rightarrow> recv_round d t s))"

definition door_reply :: "nat option \<Rightarrow> ptr \<Rightarrow> i64 \<Rightarrow> 'a door_state_scheme \<Rightarrow> 'a door_state_scheme" where
  "door_reply pCur pDoor i64Ret s =
     (case pDoor of
        None \<Rightarrow> s
      | Some d \<Rightarrow>
          if dr_u32Ready (ds_doors s d) = 0 then s
          else if dr_pClient (ds_doors s d) = None
            then if pCur \<noteq> None \<and> dr_pServer (ds_doors s d) = pCur then door_wake d DOOR_TAG_SERVER 1 (door_clear_serve d s) else s
          else
            (let r = door_reply_soft_try_consume d s;
                 s = snd r
             in if \<not> fst r then s
                else
                  (let s = upd_door d (\<lambda>p. p\<lparr>dr_i64Reply := i64Ret\<rparr>) s;
                       s = door_store_has_reply d 1 s;
                       s = upd_door d (\<lambda>p. p\<lparr>dr_u64Replies := dr_u64Replies p + 1\<rparr>) s;
                       s = door_clear_serve d s;
                       s = door_wake d DOOR_TAG_CLIENT 1 s
                   in door_wake d DOOR_TAG_SERVER 1 s)))"

end
