(* ===== verification/Door_Sys.thy ===== *)
theory Door_Sys
  imports Door Sched
begin

text \<open>
  The system of threads that use doors: each step is one piece of a call, a receive or a reply, the end of a thread, the
  death of a door, or something else a thread does outside doors.  The first part describes what the operations
  do to the doors, the threads and the table of reply rights, as equations over one door and a list of wakes.
\<close>

section \<open>Wakes\<close>

text \<open>A list of wakes, as the scheduler's \<^const>\<open>do_wakes\<close> applies it.\<close>

definition wks :: "door_wakes \<Rightarrow> threads \<Rightarrow> threads" where
  "wks ws ts = fold (\<lambda>(ob, tag, mx) ts. snd (thread_wake ob tag mx ts)) ws ts"

lemma wks_simps [simp]: "wks [] ts = ts" "wks ((ob, tag, mx) # ws) ts = wks ws (snd (thread_wake ob tag mx ts))"
  "wks ws (wks vs ts) = wks (vs @ ws) ts"
  by (simp_all add: wks_def)

lemma do_wakes_wks: "do_wakes ws s = s\<lparr>sc_threads := wks ws (sc_threads s)\<rparr>"
  by (simp add: do_wakes_def wks_def)

lemma wks_length [simp]: "length (wks ws ts) = length ts"
  by (induction ws arbitrary: ts) auto

lemma not_wakes_woken [simp]: "\<not> wakes ob tag (woken x)"
  by (simp add: wakes_def woken_def)

lemma wks_entry:
  assumes "length ts = GJ_MAX_THREADS"
  shows "wks ws ts ! t = ts ! t \<or> (\<exists>(ob, tag, mx) \<in> set ws. wakes ob tag (ts ! t) \<and> wks ws ts ! t = woken (ts ! t))"
  using assms
proof (induction ws arbitrary: ts)
  case (Cons w ws)
  obtain ob tag mx where w: "w = (ob, tag, mx)" by (cases w)
  let ?u = "snd (thread_wake ob tag mx ts)"
  have l: "length ?u = GJ_MAX_THREADS" using Cons.prems by simp
  have "wks ws ?u ! t = ?u ! t" if "?u ! t = woken (ts ! t)" using Cons.IH [OF l] that by auto
  then show ?case using thread_wake_entry [OF Cons.prems, of ob tag mx t] Cons.IH [OF l] unfolding w wks_simps by auto
qed simp

text \<open>A thread asleep on a door.\<close>

definition slp :: "threads \<Rightarrow> nat \<Rightarrow> nat \<Rightarrow> u32 \<Rightarrow> bool" where
  "slp ts t d tag \<longleftrightarrow> th_u32State (ts ! t) = GJ_THR_BLOCKED \<and> th_pBlockObj (ts ! t) = Some (Obj_Other d) \<and> th_u32BlockTag (ts ! t) = tag"

lemma slp_wakes: "tag \<noteq> 0 \<Longrightarrow> wakes (Obj_Other d) tag (ts ! t) = slp ts t d tag"
  by (auto simp: slp_def wakes_def)

lemma slp_wks: "length ts = GJ_MAX_THREADS \<Longrightarrow> slp (wks ws ts) t d tag \<Longrightarrow> slp ts t d tag"
  using wks_entry [of ts ws t] by (auto simp: slp_def woken_def)

text \<open>A wake that nobody competes for reaches its thread.\<close>

lemma wake_one_unique:
  assumes "length ts = GJ_MAX_THREADS" "t < GJ_MAX_THREADS" "0 < m"
    and "\<And>i. i < GJ_MAX_THREADS \<Longrightarrow> wakes ob tag (ts ! i) \<Longrightarrow> i = t"
  shows "\<not> wakes ob tag (snd (thread_wake ob tag m ts) ! t)"
proof (rule thread_wake_all [OF assms(1) _ assms(2)])
  have "card {i. i < GJ_MAX_THREADS \<and> wakes ob tag (ts ! i)} \<le> card {t}" using assms(4) by (intro card_mono) auto
  moreover have "0 < unat m" using assms(3) by (simp add: unat_gt_0)
  ultimately show "card {i. i < GJ_MAX_THREADS \<and> wakes ob tag (ts ! i)} \<le> unat m" by simp
qed

lemma wks_unique:
  assumes "length ts = GJ_MAX_THREADS" "t < GJ_MAX_THREADS" "(Obj_Other d, tag, m) \<in> set ws" "0 < m" "tag \<noteq> 0"
    and "\<And>i. i < GJ_MAX_THREADS \<Longrightarrow> slp ts i d tag \<Longrightarrow> i = t"
  shows "\<not> slp (wks ws ts) t d tag"
  using assms(1,3,6)
proof (induction ws arbitrary: ts)
  case (Cons w ws)
  obtain ob tg mx where w: "w = (ob, tg, mx)" by (cases w)
  let ?u = "snd (thread_wake ob tg mx ts)"
  have l: "length ?u = GJ_MAX_THREADS" using Cons.prems(1) by simp
  have u: "i = t" if "i < GJ_MAX_THREADS" "slp ?u i d tag" for i
    using Cons.prems(3) [OF that(1)] slp_wks [OF Cons.prems(1), of "[w]" i d tag] that(2) by (simp add: w)
  show ?case
  proof (cases "w = (Obj_Other d, tag, m)")
    case True
    have "\<not> slp ?u t d tag" using wake_one_unique [OF Cons.prems(1) assms(2,4), of "Obj_Other d" tag] Cons.prems(3) True slp_wakes [OF assms(5)] w by auto
    then show ?thesis using slp_wks [OF l] by (auto simp: w)
  next
    case False
    then have "(Obj_Other d, tag, m) \<in> set ws" using Cons.prems(2) by auto
    from Cons.IH [OF l this u] show ?thesis by (simp add: w)
  qed
qed simp

text \<open>A wake takes somebody off the list if anybody is on it.\<close>

lemma wake_takes_one:
  assumes "length ts = GJ_MAX_THREADS" "0 < m" "t < GJ_MAX_THREADS" "wakes ob tag (ts ! t)"
  shows "\<exists>i < GJ_MAX_THREADS. wakes ob tag (ts ! i) \<and> snd (thread_wake ob tag m ts) ! i = woken (ts ! i)"
proof (rule ccontr)
  let ?u = "snd (thread_wake ob tag m ts)"
  assume "\<not> ?thesis"
  then have e: "wakes ob tag (?u ! i) = wakes ob tag (ts ! i)" if "i < GJ_MAX_THREADS" for i
    using thread_wake_entry [OF assms(1), of ob tag m i] that by auto
  have sub: "set [0..<GJ_MAX_THREADS] \<subseteq> {..<length ts}" using assms(1) by auto
  let ?A = "{i \<in> set [0..<GJ_MAX_THREADS]. wakes ob tag (ts ! i)}"
  have "{i \<in> set [0..<GJ_MAX_THREADS]. wakes ob tag (?u ! i)} = ?A" using e by auto
  then have "unat (fst (thread_wake ob tag m ts)) = 0"
    using wake_loop_rest [OF distinct_upt sub, of 0 m ob tag] unfolding thread_wake_def by simp
  moreover have "t \<in> ?A" using assms(3,4) by simp
  then have "?A \<noteq> {}" by blast
  then have "0 < card ?A" unfolding card_gt_0_iff by simp
  moreover have "0 < unat m" using assms(2) by (simp add: unat_gt_0)
  ultimately show False using wake_loop_count [OF distinct_upt sub, of 0 m ob tag] unfolding thread_wake_def by simp
qed

lemma wks_takes_one:
  assumes "length ts = GJ_MAX_THREADS" "(Obj_Other d, tag, m) \<in> set ws" "0 < m" "tag \<noteq> 0" "t < GJ_MAX_THREADS" "slp ts t d tag"
  shows "\<exists>i < GJ_MAX_THREADS. slp ts i d tag \<and> wks ws ts ! i = woken (ts ! i)"
  using assms(1,2,6)
proof (induction ws arbitrary: ts)
  case (Cons w ws)
  obtain ob tg mx where w: "w = (ob, tg, mx)" by (cases w)
  let ?u = "snd (thread_wake ob tg mx ts)"
  have l: "length ?u = GJ_MAX_THREADS" using Cons.prems(1) by simp
  have k: "wks ws ?u ! i = woken (ts ! i)" if "?u ! i = woken (ts ! i)" for i using wks_entry [OF l, of ws i] that by auto
  show ?case
  proof (cases "w = (Obj_Other d, tag, m)")
    case True
    then obtain i where "i < GJ_MAX_THREADS" "slp ts i d tag" "?u ! i = woken (ts ! i)"
      using wake_takes_one [OF Cons.prems(1) assms(3,5), of "Obj_Other d" tag] Cons.prems(3) slp_wakes [OF assms(4)] w by auto
    then show ?thesis using k by (auto simp: w)
  next
    case False
    show ?thesis
    proof (cases "?u ! t = ts ! t")
      case True
      then have "slp ?u t d tag" using Cons.prems(3) by (simp add: slp_def)
      from Cons.IH [OF l _ this] Cons.prems(2) False w obtain i where i: "i < GJ_MAX_THREADS" "slp ?u i d tag" "wks ws ?u ! i = woken (?u ! i)" by auto
      have "?u ! i = ts ! i" using thread_wake_entry [OF Cons.prems(1), of ob tg mx i] i(2) by (auto simp: slp_def woken_def)
      then show ?thesis using i by (auto simp: w slp_def)
    next
      case False
      then have "?u ! t = woken (ts ! t)" using thread_wake_entry [OF Cons.prems(1), of ob tg mx t] by auto
      then show ?thesis using k Cons.prems(3) assms(5) by (auto simp: w)
    qed
  qed
qed simp

section \<open>What the operations change\<close>

definition tab :: "'a door_state_scheme \<Rightarrow> ptr list" where
  "tab s = map rs_pDoor (g_aReplySoft s)"

text \<open>What never changes: the rest of the state as far as the system looks at it.\<close>

definition rest :: "'a door_state_scheme \<Rightarrow> nat \<times> (nat \<Rightarrow> gj_obj_hdr) \<times> nat \<times> 'a" where
  "rest s = (ds_cold s, st_objs s, length (g_aReplySoft s), door_state.more s)"

lemma upd_door_eff [simp]:
  "ds_doors (upd_door d f s) = (ds_doors s)(d := f (ds_doors s d))" "ds_threads (upd_door d f s) = ds_threads s"
  "g_aReplySoft (upd_door d f s) = g_aReplySoft s" "rest (upd_door d f s) = rest s" "ds_cold (upd_door d f s) = ds_cold s" "st_objs (upd_door d f s) = st_objs s"
  by (simp_all add: upd_door_def rest_def)

lemma door_wake_eff [simp]:
  "ds_doors (door_wake d tag m s) = ds_doors s" "ds_threads (door_wake d tag m s) = wks [(Obj_Other d, tag, m)] (ds_threads s)"
  "g_aReplySoft (door_wake d tag m s) = g_aReplySoft s" "rest (door_wake d tag m s) = rest s" "ds_cold (door_wake d tag m s) = ds_cold s"
  "st_objs (door_wake d tag m s) = st_objs s"
  by (simp_all add: door_wake_def rest_def)

lemma door_block_eff [simp]:
  "ds_doors (door_block t d tag s) = ds_doors s" "ds_threads (door_block t d tag s) = thread_block (Some t) (Obj_Other d) tag (ds_threads s)"
  "g_aReplySoft (door_block t d tag s) = g_aReplySoft s" "rest (door_block t d tag s) = rest s" "ds_cold (door_block t d tag s) = ds_cold s"
  "st_objs (door_block t d tag s) = st_objs s"
  by (simp_all add: door_block_def rest_def)

lemma upd_reply_eff [simp]:
  "ds_doors (upd_reply i f s) = ds_doors s" "ds_threads (upd_reply i f s) = ds_threads s" "rest (upd_reply i f s) = rest s"
  "ds_cold (upd_reply i f s) = ds_cold s" "st_objs (upd_reply i f s) = st_objs s"
  by (simp_all add: upd_reply_def rest_def)

lemma tab_prims [simp]: "tab (upd_door d f s) = tab s" "tab (door_wake d tag m s) = tab s" "tab (door_block t d tag s) = tab s"
  by (simp_all add: tab_def)

lemma tab_upd_reply: "(\<And>r. rs_pDoor (f r) = rs_pDoor r) \<Longrightarrow> tab (upd_reply i f s) = tab s"
  by (cases "i < length (g_aReplySoft s)") (simp_all add: tab_def upd_reply_def map_update list_update_same_conv list_update_beyond)

lemmas door_stores = door_store_has_req_def door_store_has_reply_def door_clear_serve_def door_snapshot_last_badge_def door_load_has_req_def door_load_has_reply_def

lemma invalidate_eff [simp]:
  "ds_doors (door_reply_soft_invalidate d s) = ds_doors s" "ds_threads (door_reply_soft_invalidate d s) = ds_threads s"
  "tab (door_reply_soft_invalidate d s) = tab s" "rest (door_reply_soft_invalidate d s) = rest s"
  "ds_cold (door_reply_soft_invalidate d s) = ds_cold s" "st_objs (door_reply_soft_invalidate d s) = st_objs s"
  by (simp_all add: door_reply_soft_invalidate_def tab_upd_reply split: option.split)

lemma consume_eff [simp]:
  "ds_doors (snd (door_reply_soft_try_consume d s)) = ds_doors s" "ds_threads (snd (door_reply_soft_try_consume d s)) = ds_threads s"
  "tab (snd (door_reply_soft_try_consume d s)) = tab s" "rest (snd (door_reply_soft_try_consume d s)) = rest s"
  by (simp_all add: door_reply_soft_try_consume_def tab_upd_reply split: option.split)

lemma create_eff [simp]:
  "ds_doors (door_reply_soft_create d s) = ds_doors s" "ds_threads (door_reply_soft_create d s) = ds_threads s" "rest (door_reply_soft_create d s) = rest s"
  "st_objs (door_reply_soft_create d s) = st_objs s"
  by (simp_all add: door_reply_soft_create_def Let_def rest_def upd_reply_def split: option.split)

lemma door_live_cong: "ds_doors u d = ds_doors s d \<Longrightarrow> st_objs u = st_objs s \<Longrightarrow> door_live u (Some d) = door_live s (Some d)"
  by (simp add: door_live_def)

section \<open>The end of a thread\<close>

definition exit_door :: "nat \<Rightarrow> gj_door \<Rightarrow> gj_door" where
  "exit_door t p =
     (if dr_pClient p = Some t
      then p\<lparr>dr_pClient := None, dr_u32HasReq := 0, dr_u32HasReply := 0, dr_i64Reply := minus_EIO, dr_u64Aborts := dr_u64Aborts p + 1, dr_pServer := None\<rparr>
      else if dr_pServer p = Some t
      then (if dr_pClient p \<noteq> None \<and> dr_u32HasReply p = 0
            then p\<lparr>dr_u32HasReq := 0, dr_i64Reply := minus_EIO, dr_u32HasReply := 1, dr_u64Aborts := dr_u64Aborts p + 1\<rparr> else p)\<lparr>dr_pServer := None\<rparr>
      else p)"

definition exit_wakes :: "nat \<Rightarrow> nat \<Rightarrow> gj_door \<Rightarrow> door_wakes" where
  "exit_wakes d t p =
     (if dr_pClient p = Some t then [(Obj_Other d, DOOR_TAG_CLIENT, 1), (Obj_Other d, DOOR_TAG_SERVER, 1), (Obj_Other d, DOOR_TAG_SLOT, 8)]
      else if dr_pServer p = Some t
      then (if dr_pClient p \<noteq> None \<and> dr_u32HasReply p = 0 then [(Obj_Other d, DOOR_TAG_CLIENT, 1)] else [])
        @ [(Obj_Other d, DOOR_TAG_SERVER, 1), (Obj_Other d, DOOR_TAG_SLOT, 8)]
      else [])"

lemma exit_one_eff:
  "ds_doors (door_thr_exit_one d t s) = (ds_doors s)(d := exit_door t (ds_doors s d))"
  "ds_threads (door_thr_exit_one d t s) = wks (exit_wakes d t (ds_doors s d)) (ds_threads s)"
  "tab (door_thr_exit_one d t s) = tab s" "rest (door_thr_exit_one d t s) = rest s"
  by (simp_all add: door_thr_exit_one_def door_thr_exit_server_role_def exit_door_def exit_wakes_def door_stores Let_def)

text \<open>The doors the walk visits, in order.\<close>

fun walk_doors :: "ptr list \<Rightarrow> nat list \<Rightarrow> nat list" where
  "walk_doors [] seen = []"
| "walk_doors (None # xs) seen = walk_doors xs seen"
| "walk_doors (Some d # xs) seen = (if d \<in> set seen then walk_doors xs seen else d # walk_doors xs (seen @ [d]))"

lemma walk_doors_set: "set (walk_doors xs seen) = {d. Some d \<in> set xs} - set seen"
  by (induction xs seen rule: walk_doors.induct) auto

definition door_exit_wakes :: "nat \<Rightarrow> 'a door_state_scheme \<Rightarrow> door_wakes" where
  "door_exit_wakes t s = concat (map (\<lambda>d. exit_wakes d t (ds_doors s d)) (ds_cold s # walk_doors (tab s) [ds_cold s]))"

lemma exit_walk_eff:
  assumes "length seen + length is \<le> DOOR_REPLY_SOFT_SLOTS + 1" "set is \<subseteq> {..<length (g_aReplySoft s)}"
  shows "let ds = walk_doors (map (\<lambda>i. tab s ! i) is) seen; u = exit_walk is seen t s
    in ds_doors u = (\<lambda>d. if d \<in> set ds then exit_door t (ds_doors s d) else ds_doors s d)
      \<and> ds_threads u = wks (concat (map (\<lambda>d. exit_wakes d t (ds_doors s d)) ds)) (ds_threads s) \<and> tab u = tab s \<and> rest u = rest s"
  using assms
proof (induction "is" arbitrary: seen s)
  case (Cons i "is")
  have i: "rs_pDoor (g_aReplySoft s ! i) = tab s ! i" using Cons.prems(2) by (simp add: tab_def)
  show ?case
  proof (cases "tab s ! i")
    case None
    then show ?thesis using Cons.IH [of seen s] Cons.prems i by simp
  next
    case (Some d)
    let ?v = "door_thr_exit_one d t s" let ?ds = "walk_doors (map (\<lambda>i. tab s ! i) is) (seen @ [d])"
    show ?thesis
    proof (cases "d \<in> set seen")
      case True
      then show ?thesis using Cons.IH [of seen s] Cons.prems i Some by simp
    next
      case False
      have l: "length (g_aReplySoft ?v) = length (g_aReplySoft s)" using exit_one_eff(4) [of d t s] by (simp add: rest_def)
      note ih = Cons.IH [of "seen @ [d]" ?v, unfolded Let_def exit_one_eff l]
      have nd: "d \<notin> set ?ds" by (simp add: walk_doors_set)
      then have m: "map (\<lambda>e. exit_wakes e t (if e = d then exit_door t (ds_doors s d) else ds_doors s e)) ?ds = map (\<lambda>e. exit_wakes e t (ds_doors s e)) ?ds" by auto
      have u: "exit_walk (i # is) seen t s = exit_walk is (seen @ [d]) t ?v" using Some False i Cons.prems(1) by simp
      show ?thesis using ih Cons.prems Some False nd unfolding u by (auto simp: Let_def m fun_eq_iff)
    qed
  qed
qed simp

lemma on_exit_eff:
  assumes "length (g_aReplySoft s) = DOOR_REPLY_SOFT_SLOTS"
  shows "ds_doors (door_on_thread_exit (Some t) s) d = (if d = ds_cold s \<or> Some d \<in> set (tab s) then exit_door t (ds_doors s d) else ds_doors s d)"
    "ds_threads (door_on_thread_exit (Some t) s) = wks (door_exit_wakes t s) (ds_threads s)"
    "tab (door_on_thread_exit (Some t) s) = tab s" "rest (door_on_thread_exit (Some t) s) = rest s"
proof -
  let ?c = "ds_cold s" let ?v = "door_thr_exit_one ?c t s"
  have l: "length (g_aReplySoft ?v) = DOOR_REPLY_SOFT_SLOTS" using exit_one_eff(4) [of ?c t s] assms by (simp add: rest_def)
  have m: "map (\<lambda>i. tab s ! i) [0..<DOOR_REPLY_SOFT_SLOTS] = tab s" using map_nth [of "tab s"] assms by (simp add: tab_def)
  have p: "length [?c] + length [0..<DOOR_REPLY_SOFT_SLOTS] \<le> DOOR_REPLY_SOFT_SLOTS + 1" "set [0..<DOOR_REPLY_SOFT_SLOTS] \<subseteq> {..<length (g_aReplySoft ?v)}"
    using l by auto
  note x = exit_walk_eff [OF p, of t, unfolded Let_def exit_one_eff m]
  have nc: "?c \<notin> set (walk_doors (tab s) [?c])" by (simp add: walk_doors_set)
  then have e: "map (\<lambda>d. exit_wakes d t (if d = ?c then exit_door t (ds_doors s ?c) else ds_doors s d)) (walk_doors (tab s) [?c])
    = map (\<lambda>d. exit_wakes d t (ds_doors s d)) (walk_doors (tab s) [?c])" by auto
  show "ds_doors (door_on_thread_exit (Some t) s) d = (if d = ?c \<or> Some d \<in> set (tab s) then exit_door t (ds_doors s d) else ds_doors s d)"
    "ds_threads (door_on_thread_exit (Some t) s) = wks (door_exit_wakes t s) (ds_threads s)"
    "tab (door_on_thread_exit (Some t) s) = tab s" "rest (door_on_thread_exit (Some t) s) = rest s"
    using x nc by (auto simp: door_on_thread_exit_def door_exit_wakes_def e walk_doors_set)
qed

section \<open>The system\<close>

text \<open>Where a thread is: outside, or in the scheduler inside a call or a receive.\<close>

datatype door_pc = Out | At_Slot nat gj_linux_regs u64 | At_Client nat gj_linux_regs u64 | At_Recv nat | At_Foreign nat

text \<open>
  \<open>dy_held t d\<close> is the request thread \<open>t\<close> took from door \<open>d\<close> and has not replied to.  \<open>dy_log\<close> lists the calls that
  returned: door, request, deadline and result; \<open>dy_died\<close> tells that a thread was ended or a door aborted.
\<close>

record door_sys = door_state +
  dy_pc :: "nat \<Rightarrow> door_pc"
  dy_held :: "nat \<Rightarrow> nat \<Rightarrow> gj_linux_regs option"
  dy_log :: "(nat \<times> gj_linux_regs \<times> u64 \<times> i64) list"
  dy_died :: bool

datatype door_action =
    D_Call nat nat gj_linux_regs u64 "nat \<Rightarrow> clock"
  | D_Recv nat nat
  | D_Reply nat nat i64
  | D_Resume nat "nat \<Rightarrow> clock"
  | D_Kill nat
  | D_Start nat u32
  | D_Abort nat
  | D_MarkDead nat
  | D_Badge nat u32
  | D_Init nat
  | D_Sleep nat block_obj u32
  | D_Ready nat

definition on :: "nat \<Rightarrow> threads \<Rightarrow> bool" where
  "on t ts \<longleftrightarrow> t < GJ_MAX_THREADS \<and> th_u32Id (ts ! t) \<noteq> 0 \<and> (th_u32State (ts ! t) = GJ_THR_RUNNABLE \<or> th_u32State (ts ! t) = GJ_THR_RUNNING)"

definition set_dpc :: "nat \<Rightarrow> door_pc \<Rightarrow> door_sys \<Rightarrow> door_sys" where
  "set_dpc t pc s = s\<lparr>dy_pc := (dy_pc s)(t := pc)\<rparr>"

definition upd_thread :: "nat \<Rightarrow> (gj_thread \<Rightarrow> gj_thread) \<Rightarrow> door_sys \<Rightarrow> door_sys" where
  "upd_thread t f s = s\<lparr>ds_threads := (ds_threads s)[t := f (ds_threads s ! t)]\<rparr>"

fun after_call :: "nat \<Rightarrow> nat \<Rightarrow> gj_linux_regs \<Rightarrow> u64 \<Rightarrow> call_out \<times> door_sys \<Rightarrow> door_sys" where
  "after_call t d regs dl (Call_Ret v, s) = set_dpc t Out (s\<lparr>dy_log := (d, regs, dl, v) # dy_log s\<rparr>)"
| "after_call t d regs dl (Call_Slot, s) = set_dpc t (At_Slot d regs dl) s"
| "after_call t d regs dl (Call_Client, s) = set_dpc t (At_Client d regs dl) s"

definition set_held :: "nat \<Rightarrow> nat \<Rightarrow> gj_linux_regs option \<Rightarrow> door_sys \<Rightarrow> door_sys" where
  "set_held t d x s = s\<lparr>dy_held := (dy_held s)(t := (dy_held s t)(d := x))\<rparr>"

fun after_recv :: "nat \<Rightarrow> nat \<Rightarrow> recv_out \<times> door_sys \<Rightarrow> door_sys" where
  "after_recv t d (Recv_Ok r, s) = set_dpc t Out (set_held t d (Some r) s)"
| "after_recv t d (Recv_Err e, s) = set_dpc t Out s"
| "after_recv t d (Recv_Foreign, s) = set_dpc t (At_Foreign d) s"
| "after_recv t d (Recv_Wait, s) = set_dpc t (At_Recv d) s"

text \<open>A thread comes back from the scheduler.\<close>

definition resume :: "nat \<Rightarrow> (nat \<Rightarrow> clock) \<Rightarrow> door_sys \<Rightarrow> door_sys option" where
  "resume t tm s =
     (let s1 = upd_thread t (\<lambda>x. x\<lparr>th_u32State := GJ_THR_RUNNING\<rparr>) s
      in case dy_pc s t of
           Out \<Rightarrow> None
         | At_Slot d regs dl \<Rightarrow> map_option (after_call t d regs dl) (call_claim tm d t regs dl s1)
         | At_Client d regs dl \<Rightarrow> Some (after_call t d regs dl (reply_round (tm 0) d t dl s1))
         | At_Recv d \<Rightarrow> Some (after_recv t d (recv_round d t (recv_unmark d t s1)))
         | At_Foreign d \<Rightarrow> Some (after_recv t d (recv_round d t s1)))"

text \<open>A door nobody is at.\<close>

definition at_door :: "nat \<Rightarrow> door_pc \<Rightarrow> bool" where
  "at_door d pc = (case pc of Out \<Rightarrow> False | At_Slot e _ _ \<Rightarrow> e = d | At_Client e _ _ \<Rightarrow> e = d | At_Recv e \<Rightarrow> e = d | At_Foreign e \<Rightarrow> e = d)"

definition unused_door :: "nat \<Rightarrow> door_sys \<Rightarrow> bool" where
  "unused_door d s \<longleftrightarrow> (\<forall>t < GJ_MAX_THREADS. \<not> at_door d (dy_pc s t) \<and> dy_held s t d = None)"

text \<open>
  One step; \<open>None\<close> where the action is not possible, or never returns.  Only the doors in \<open>D\<close> are used.  A thread is
  ended by the scheduler's \<^verbatim>\<open>thread_exit_process\<close>, or by itself, and its slot may be given to a new thread.
\<close>

definition door_act :: "nat set \<Rightarrow> door_action \<Rightarrow> door_sys \<Rightarrow> door_sys option" where
  "door_act D a s =
     (case a of
        D_Call t d regs dl tm \<Rightarrow>
          if on t (ds_threads s) \<and> dy_pc s t = Out \<and> d \<in> D
          then map_option (after_call t d regs dl) (door_call_timeout tm (Some t) (Some d) (Some regs) dl s) else None
      | D_Recv t d \<Rightarrow>
          if on t (ds_threads s) \<and> dy_pc s t = Out \<and> d \<in> D then Some (after_recv t d (door_recv (Some t) (Some d) True s)) else None
      | D_Reply t d v \<Rightarrow>
          if on t (ds_threads s) \<and> dy_pc s t = Out \<and> d \<in> D then Some (set_held t d None (door_reply (Some t) (Some d) v s)) else None
      | D_Resume t tm \<Rightarrow> if on t (ds_threads s) then resume t tm s else None
      | D_Kill t \<Rightarrow>
          if t < GJ_MAX_THREADS \<and> th_u32State (ds_threads s ! t) \<noteq> GJ_THR_UNUSED \<and> th_u32State (ds_threads s ! t) \<noteq> GJ_THR_EXITED
          then (let s = door_on_thread_exit (Some t) (upd_thread t exit_scrub s)
                in Some (set_dpc t Out (s\<lparr>dy_held := (dy_held s)(t := \<lambda>_. None), dy_died := True\<rparr>))) else None
      | D_Start t i \<Rightarrow>
          if t < GJ_MAX_THREADS \<and> (th_u32State (ds_threads s ! t) = GJ_THR_UNUSED \<or> th_u32State (ds_threads s ! t) = GJ_THR_EXITED) \<and> i \<noteq> 0
          then Some (upd_thread t (\<lambda>_. no_thread\<lparr>th_u32Id := i, th_u32State := GJ_THR_RUNNABLE\<rparr>) s) else None
      | D_Abort d \<Rightarrow> if d \<in> D then Some ((door_abort_waiters (Some d) s)\<lparr>dy_died := True\<rparr>) else None
      | D_MarkDead d \<Rightarrow> if d \<in> D then Some ((door_mark_dead (Some d) s)\<lparr>dy_died := True\<rparr>) else None
      | D_Badge d b \<Rightarrow> Some (door_set_badge (Some d) b s)
      | D_Init d \<Rightarrow> if d \<in> D \<and> unused_door d s then Some (door_init (Some d) s) else None
      | D_Sleep t ob tag \<Rightarrow>
          if on t (ds_threads s) \<and> dy_pc s t = Out \<and> ob \<notin> Obj_Other ` D
          then Some (s\<lparr>ds_threads := thread_block (Some t) ob tag (ds_threads s)\<rparr>) else None
      | D_Ready t \<Rightarrow>
          if t < GJ_MAX_THREADS \<and> dy_pc s t = Out \<and> th_u32State (ds_threads s ! t) = GJ_THR_BLOCKED then Some (upd_thread t woken s) else None)"

definition door_step :: "nat set \<Rightarrow> door_sys \<Rightarrow> door_sys \<Rightarrow> bool" where
  "door_step D s u \<longleftrightarrow> (\<exists>a. door_act D a s = Some u)"

text \<open>A run of actions.\<close>

primrec door_run :: "nat set \<Rightarrow> door_action list \<Rightarrow> door_sys \<Rightarrow> door_sys option" where
  "door_run D [] s = Some s"
| "door_run D (a # as) s = (case door_act D a s of None \<Rightarrow> None | Some u \<Rightarrow> door_run D as u)"

text \<open>At the start at most eight doors are in use, as many as the table of rights has slots, every door is live and idle, the table of rights is empty and nobody is inside.\<close>

definition door_boot :: "nat set \<Rightarrow> door_sys \<Rightarrow> bool" where
  "door_boot D s \<longleftrightarrow> finite D \<and> card D \<le> DOOR_REPLY_SOFT_SLOTS \<and> length (ds_threads s) = GJ_MAX_THREADS \<and> g_aReplySoft s = replicate DOOR_REPLY_SOFT_SLOTS no_reply
     \<and> (\<forall>d \<in> D. ds_doors s d = no_door\<lparr>dr_u32Ready := 1\<rparr> \<and> hdr_u32State (st_objs s d) = GJ_OBJ_LIVE)
     \<and> dy_pc s = (\<lambda>_. Out) \<and> dy_held s = (\<lambda>_ _. None) \<and> dy_log s = [] \<and> \<not> dy_died s
     \<and> (\<forall>t < GJ_MAX_THREADS. th_u32State (ds_threads s ! t) \<noteq> GJ_THR_BLOCKED)"

end
