(* ===== verification/Door_Inv.thy ===== *)
theory Door_Inv
  imports Door_Sys
begin

text \<open>
  The invariant of the door system: a thread is where the scheduler believes it is, the client of a door is the one
  thread that waits for its reply, and it never sleeps on a reply or on a dead door.
\<close>

section \<open>Invariant\<close>

definition pc_at :: "door_pc \<Rightarrow> (nat \<times> u32) option" where
  "pc_at pc = (case pc of Out \<Rightarrow> None | At_Slot d _ _ \<Rightarrow> Some (d, DOOR_TAG_SLOT) | At_Client d _ _ \<Rightarrow> Some (d, DOOR_TAG_CLIENT)
     | At_Recv d \<Rightarrow> Some (d, DOOR_TAG_SERVER) | At_Foreign d \<Rightarrow> Some (d, DOOR_TAG_SERVER))"

lemma pc_at_simps [simp]: "pc_at Out = None" "pc_at (At_Slot d r dl) = Some (d, DOOR_TAG_SLOT)" "pc_at (At_Client d r dl) = Some (d, DOOR_TAG_CLIENT)"
  "pc_at (At_Recv d) = Some (d, DOOR_TAG_SERVER)" "pc_at (At_Foreign d) = Some (d, DOOR_TAG_SERVER)"
  by (simp_all add: pc_at_def)

text \<open>The threads: inside a door a thread is asleep on it with its tag or has been woken.\<close>

definition pk1 :: "nat set \<Rightarrow> gj_thread \<Rightarrow> door_pc \<Rightarrow> bool" where
  "pk1 D x pc = (case pc_at pc of
      None \<Rightarrow> \<not> (\<exists>d \<in> D. th_u32State x = GJ_THR_BLOCKED \<and> th_pBlockObj x = Some (Obj_Other d))
    | Some (d, tag) \<Rightarrow> d \<in> D \<and> th_u32Id x \<noteq> 0
        \<and> (th_u32State x = GJ_THR_BLOCKED \<and> th_pBlockObj x = Some (Obj_Other d) \<and> th_u32BlockTag x = tag \<or> th_u32State x = GJ_THR_RUNNABLE))"

definition pk :: "nat set \<Rightarrow> threads \<Rightarrow> (nat \<Rightarrow> door_pc) \<Rightarrow> bool" where
  "pk D ts pc \<longleftrightarrow> length ts = GJ_MAX_THREADS \<and> (\<forall>t < GJ_MAX_THREADS. pk1 D (ts ! t) (pc t))"

text \<open>The table of rights: each door once, only doors in use.\<close>

definition tb_ok :: "nat set \<Rightarrow> ptr list \<Rightarrow> bool" where
  "tb_ok D tb \<longleftrightarrow> length tb = DOOR_REPLY_SOFT_SLOTS \<and> (\<forall>i < DOOR_REPLY_SOFT_SLOTS. \<forall>j < DOOR_REPLY_SOFT_SLOTS. tb ! i \<noteq> None \<and> tb ! i = tb ! j \<longrightarrow> i = j)
     \<and> (\<forall>i < DOOR_REPLY_SOFT_SLOTS. \<forall>d. tb ! i = Some d \<longrightarrow> d \<in> D)"

definition is_client :: "nat \<Rightarrow> door_pc \<Rightarrow> bool" where
  "is_client d pc = (case pc of At_Client e _ _ \<Rightarrow> e = d | _ \<Rightarrow> False)"

lemma is_client_simps [simp]: "\<not> is_client d Out" "\<not> is_client d (At_Slot e r dl)" "is_client d (At_Client e r dl) \<longleftrightarrow> e = d"
  "\<not> is_client d (At_Recv e)" "\<not> is_client d (At_Foreign e)"
  by (simp_all add: is_client_def)

text \<open>One call at a time: the client of a door is the thread that waits for its reply.\<close>

definition fl1 :: "nat \<Rightarrow> gj_door \<Rightarrow> bool \<Rightarrow> (nat \<Rightarrow> door_pc) \<Rightarrow> bool" where
  "fl1 d p bound pc \<longleftrightarrow> (\<forall>t. dr_pClient p = Some t \<longleftrightarrow> t < GJ_MAX_THREADS \<and> is_client d (pc t))
     \<and> (dr_u32HasReq p \<noteq> 0 \<or> dr_u32HasReply p \<noteq> 0 \<longrightarrow> dr_pClient p \<noteq> None) \<and> (dr_pClient p \<noteq> None \<longrightarrow> bound)"

definition fl :: "nat set \<Rightarrow> (nat \<Rightarrow> gj_door) \<Rightarrow> ptr list \<Rightarrow> (nat \<Rightarrow> door_pc) \<Rightarrow> bool" where
  "fl D ds tb pc \<longleftrightarrow> (\<forall>d \<in> D. fl1 d (ds d) (Some d \<in> set tb) pc)"

text \<open>Nobody sleeps on a reply or a dead door.\<close>

definition calm_door :: "gj_door \<Rightarrow> bool" where
  "calm_door p \<longleftrightarrow> dr_u32HasReply p = 0 \<and> dr_u32PeerDead p = 0 \<and> dr_u32Ready p \<noteq> 0"

definition cm :: "nat set \<Rightarrow> (nat \<Rightarrow> gj_door) \<Rightarrow> threads \<Rightarrow> bool" where
  "cm D ds ts \<longleftrightarrow> (\<forall>d \<in> D. \<forall>t < GJ_MAX_THREADS. slp ts t d DOOR_TAG_CLIENT \<longrightarrow> calm_door (ds d))"

definition door_ok :: "nat set \<Rightarrow> door_sys \<Rightarrow> bool" where
  "door_ok D s \<longleftrightarrow> pk D (ds_threads s) (dy_pc s) \<and> tb_ok D (tab s) \<and> fl D (ds_doors s) (tab s) (dy_pc s) \<and> cm D (ds_doors s) (ds_threads s)"

lemma pk_len [dest]: "pk D ts pc \<Longrightarrow> length ts = GJ_MAX_THREADS"
  by (simp add: pk_def)

section \<open>Threads\<close>

lemma pkI:
  assumes "pk D ts pc" "length ts' = GJ_MAX_THREADS" "\<And>i. i < GJ_MAX_THREADS \<Longrightarrow> i \<noteq> t \<Longrightarrow> ts' ! i = ts ! i \<and> pc' i = pc i"
    and "t < GJ_MAX_THREADS \<Longrightarrow> pk1 D (ts' ! t) (pc' t)"
  shows "pk D ts' pc'"
  unfolding pk_def
proof (intro conjI allI impI)
  show "pk1 D (ts' ! i) (pc' i)" if "i < GJ_MAX_THREADS" for i
    using that assms(1,4) assms(3) [of i] by (cases "i = t") (simp_all add: pk_def)
qed (rule assms(2))

lemma pk1_woken: "pk1 D x pc \<Longrightarrow> pk1 D (woken x) pc"
  by (auto simp: pk1_def woken_def split: option.splits)

lemma pk_wks: assumes "pk D ts pc" shows "pk D (wks ws ts) pc"
  unfolding pk_def
proof (intro conjI allI impI)
  have l: "length ts = GJ_MAX_THREADS" using assms by (simp add: pk_def)
  then show "length (wks ws ts) = GJ_MAX_THREADS" by simp
  fix t assume t: "t < GJ_MAX_THREADS"
  have "wks ws ts ! t = ts ! t \<or> wks ws ts ! t = woken (ts ! t)" using wks_entry [OF l, of ws t] by auto
  then show "pk1 D (wks ws ts ! t) (pc t)" using assms t pk1_woken unfolding pk_def by auto
qed

lemma pk_out: "pk D ts pc \<Longrightarrow> on t ts \<Longrightarrow> pk D ts (pc(t := Out))"
  by (rule pkI [where t = t]) (auto simp: on_def pk1_def pk_def)

lemma pk_set: "pk D ts pc \<Longrightarrow> t < GJ_MAX_THREADS \<Longrightarrow> th_u32State x \<noteq> GJ_THR_BLOCKED \<Longrightarrow> pk D (ts[t := x]) (pc(t := Out))"
  by (rule pkI [where t = t]) (auto simp: pk1_def pk_def)

lemma pk_run: "pk D ts pc \<Longrightarrow> on t ts \<Longrightarrow> pk D (ts[t := (ts ! t)\<lparr>th_u32State := GJ_THR_RUNNING\<rparr>]) (pc(t := Out))"
  by (rule pk_set) (auto simp: on_def)

lemma pk_block:
  assumes "pk D ts pc" "t < GJ_MAX_THREADS" "th_u32Id (ts ! t) \<noteq> 0" "d \<in> D" "pc_at x = Some (d, tag)"
  shows "pk D (thread_block (Some t) (Obj_Other d) tag ts) (pc(t := x))"
  using assms(1) by (rule pkI [where t = t]) (use assms in \<open>auto simp: thread_block_def pk1_def pk_def\<close>)

lemma slp_block: "slp (thread_block (Some t) (Obj_Other d) tag ts) i e tg \<Longrightarrow> i < length ts \<Longrightarrow> (i = t \<and> e = d \<and> tg = tag) \<or> slp ts i e tg"
  by (cases "i = t") (auto simp: thread_block_def slp_def)

lemma slp_pc: "pk D ts pc \<Longrightarrow> t < GJ_MAX_THREADS \<Longrightarrow> d \<in> D \<Longrightarrow> slp ts t d tag \<Longrightarrow> pc_at (pc t) = Some (d, tag)"
  unfolding pk_def by (cases "pc_at (pc t)") (auto simp: slp_def pk1_def)

lemma pc_at_client: "pc_at pc = Some (d, DOOR_TAG_CLIENT) \<Longrightarrow> is_client d pc"
  by (cases pc) auto

lemma pk_alive:
  assumes "pk D ts pc" "t < GJ_MAX_THREADS" "pc t \<noteq> Out"
  shows "th_u32State (ts ! t) \<noteq> GJ_THR_EXITED \<and> th_u32State (ts ! t) \<noteq> GJ_THR_UNUSED \<and> th_u32Id (ts ! t) \<noteq> 0"
proof -
  have "pk1 D (ts ! t) (pc t)" using assms(1,2) by (simp add: pk_def)
  then show ?thesis using assms(3) by (cases "pc t") (auto simp: pk1_def)
qed

section \<open>Calls in flight\<close>

lemma fl_client: "fl D ds tb pc \<Longrightarrow> d \<in> D \<Longrightarrow> dr_pClient (ds d) = Some t \<longleftrightarrow> t < GJ_MAX_THREADS \<and> is_client d (pc t)"
  by (simp add: fl_def fl1_def)

lemma fl_bound: "fl D ds tb pc \<Longrightarrow> d \<in> D \<Longrightarrow> dr_pClient (ds d) \<noteq> None \<Longrightarrow> Some d \<in> set tb"
  unfolding fl_def fl1_def by blast

lemma fl_flags: "fl D ds tb pc \<Longrightarrow> d \<in> D \<Longrightarrow> dr_pClient (ds d) = None \<Longrightarrow> dr_u32HasReq (ds d) = 0 \<and> dr_u32HasReply (ds d) = 0"
  unfolding fl_def fl1_def by blast

lemma flI: "fl D ds tb pc \<Longrightarrow> (\<And>e. e \<in> D \<Longrightarrow> fl1 e (ds e) (Some e \<in> set tb) pc \<Longrightarrow> fl1 e (ds' e) (Some e \<in> set tb') pc') \<Longrightarrow> fl D ds' tb' pc'"
  by (simp add: fl_def)

lemma client_unique:
  assumes "pk D ts pc" "fl D ds tb pc" "d \<in> D" "i < GJ_MAX_THREADS" "slp ts i d DOOR_TAG_CLIENT"
  shows "dr_pClient (ds d) = Some i"
  using fl_client [OF assms(2,3)] pc_at_client [OF slp_pc [OF assms(1,4,3,5)]] assms(4) by simp

lemma fl1_cong:
  assumes "fl1 d p b pc" "dr_pClient p' = dr_pClient p" "dr_u32HasReq p' \<noteq> 0 \<or> dr_u32HasReply p' \<noteq> 0 \<Longrightarrow> dr_pClient p \<noteq> None" "dr_pClient p \<noteq> None \<Longrightarrow> b \<Longrightarrow> b'"
    and "\<And>t. is_client d (pc' t) = is_client d (pc t)"
  shows "fl1 d p' b' pc'"
  using assms(1) unfolding fl1_def assms(2,5)
proof (elim conjE, intro conjI)
  show "dr_u32HasReq p' \<noteq> 0 \<or> dr_u32HasReply p' \<noteq> 0 \<longrightarrow> dr_pClient p \<noteq> None" using assms(3) by blast
  assume "dr_pClient p \<noteq> None \<longrightarrow> b"
  then show "dr_pClient p \<noteq> None \<longrightarrow> b'" using assms(4) by blast
qed

lemma fl1_flags: "fl1 d p b pc \<Longrightarrow> dr_u32HasReq p \<noteq> 0 \<or> dr_u32HasReply p \<noteq> 0 \<Longrightarrow> dr_pClient p \<noteq> None"
  unfolding fl1_def by blast

lemma fl_upd:
  assumes "fl D ds tb pc" "dr_pClient p = dr_pClient (ds d)" "dr_u32HasReq p \<noteq> 0 \<or> dr_u32HasReply p \<noteq> 0 \<Longrightarrow> dr_pClient p \<noteq> None"
  shows "fl D (ds(d := p)) tb pc"
  using assms(1)
proof (rule flI)
  fix e assume e: "fl1 e (ds e) (Some e \<in> set tb) pc"
  show "fl1 e ((ds(d := p)) e) (Some e \<in> set tb) pc"
  proof (cases "e = d")
    case True
    then show ?thesis using fl1_cong [OF e, of p] assms(2,3) by simp
  qed (use e in simp)
qed

lemma fl_tab: "fl D ds tb pc \<Longrightarrow> (\<And>d. d \<in> D \<Longrightarrow> dr_pClient (ds d) \<noteq> None \<Longrightarrow> Some d \<in> set tb \<Longrightarrow> Some d \<in> set tb') \<Longrightarrow> fl D ds tb' pc"
proof (erule flI)
  fix e assume "e \<in> D" "fl1 e (ds e) (Some e \<in> set tb) pc"
    and "\<And>d. d \<in> D \<Longrightarrow> dr_pClient (ds d) \<noteq> None \<Longrightarrow> Some d \<in> set tb \<Longrightarrow> Some d \<in> set tb'"
  then show "fl1 e (ds e) (Some e \<in> set tb') pc" using fl1_cong [of e "ds e" _ pc "ds e" "Some e \<in> set tb'" pc] fl1_flags by blast
qed

lemma fl_pc:
  assumes "fl D ds tb pc" "\<And>d. d \<in> D \<Longrightarrow> is_client d (pc t) = is_client d x"
  shows "fl D ds tb (pc(t := x))"
  using assms(1)
proof (rule flI)
  fix e assume e: "e \<in> D" "fl1 e (ds e) (Some e \<in> set tb) pc"
  have "is_client e ((pc(t := x)) i) = is_client e (pc i)" for i using assms(2) [OF e(1)] by simp
  then show "fl1 e (ds e) (Some e \<in> set tb) (pc(t := x))" using fl1_cong [OF e(2), of "ds e" _ "pc(t := x)"] fl1_flags [OF e(2)] by blast
qed

lemma fl_other:
  assumes "fl1 e p b pc" "\<not> is_client e (pc t)" "\<not> is_client e x"
  shows "fl1 e p b (pc(t := x))"
proof -
  have "is_client e ((pc(t := x)) i) = is_client e (pc i)" for i using assms(2,3) by simp
  then show ?thesis using fl1_cong [OF assms(1), of p _ "pc(t := x)"] fl1_flags [OF assms(1)] by blast
qed

lemma fl_claim:
  assumes "fl D ds tb pc" "dr_pClient (ds d) = None" "t < GJ_MAX_THREADS" "\<And>e. e \<in> D \<Longrightarrow> \<not> is_client e (pc t)" "dr_pClient p = Some t" "Some d \<in> set tb"
  shows "fl D (ds(d := p)) tb (pc(t := At_Client d r dl))"
  using assms(1)
proof (rule flI)
  fix e assume e: "e \<in> D" "fl1 e (ds e) (Some e \<in> set tb) pc"
  show "fl1 e ((ds(d := p)) e) (Some e \<in> set tb) (pc(t := At_Client d r dl))"
  proof (cases "e = d")
    case True
    then have d: "d \<in> D" using e(1) by simp
    have "\<not> is_client d (pc i)" if "i < GJ_MAX_THREADS" for i using fl_client [OF assms(1) d, of i] assms(2) that by simp
    then show ?thesis using assms(3,5,6) True unfolding fl1_def by auto
  next
    case False
    then show ?thesis using fl_other [OF e(2) assms(4) [OF e(1)]] by auto
  qed
qed

lemma fl_release:
  assumes "fl D ds tb pc" "dr_pClient (ds d) = Some t" "d \<in> D" "dr_pClient p = None" "dr_u32HasReq p = 0" "dr_u32HasReply p = 0" "\<And>e. \<not> is_client e x"
  shows "fl D (ds(d := p)) tb (pc(t := x))"
  using assms(1)
proof (rule flI)
  have t: "is_client d (pc t)" using assms(1-3) fl_client by blast
  fix e assume e: "e \<in> D" "fl1 e (ds e) (Some e \<in> set tb) pc"
  show "fl1 e ((ds(d := p)) e) (Some e \<in> set tb) (pc(t := x))"
  proof (cases "e = d")
    case True
    have "\<not> is_client d (pc i)" if "i < GJ_MAX_THREADS" "i \<noteq> t" for i using fl_client [OF assms(1,3), of i] assms(2) that by simp
    then show ?thesis using assms(4-7) True unfolding fl1_def by auto
  next
    case False
    then have "\<not> is_client e (pc t)" using t by (cases "pc t") auto
    then show ?thesis using fl_other [OF e(2)] assms(7) False by auto
  qed
qed

section \<open>Sleepers\<close>

lemma cm_upd:
  assumes "cm D ds ts" "\<And>t e. t < GJ_MAX_THREADS \<Longrightarrow> e \<in> D \<Longrightarrow> e \<noteq> d \<Longrightarrow> slp ts' t e DOOR_TAG_CLIENT \<Longrightarrow> slp ts t e DOOR_TAG_CLIENT"
    and "\<And>t. t < GJ_MAX_THREADS \<Longrightarrow> d \<in> D \<Longrightarrow> slp ts' t d DOOR_TAG_CLIENT \<Longrightarrow> calm_door p"
  shows "cm D (ds(d := p)) ts'"
  using assms unfolding cm_def by auto

lemma cm_wks: "length ts = GJ_MAX_THREADS \<Longrightarrow> cm D ds ts \<Longrightarrow> cm D ds (wks ws ts)"
  using slp_wks unfolding cm_def by blast

text \<open>A wake of the client leaves no client asleep.\<close>

lemma client_woken:
  assumes "pk D ts pc" "fl D ds tb pc" "d \<in> D" "(Obj_Other d, DOOR_TAG_CLIENT, m) \<in> set ws" "0 < m" "t < GJ_MAX_THREADS"
  shows "\<not> slp (wks ws ts) t d DOOR_TAG_CLIENT"
proof
  have l: "length ts = GJ_MAX_THREADS" using assms(1) by auto
  assume a: "slp (wks ws ts) t d DOOR_TAG_CLIENT"
  have t: "dr_pClient (ds d) = Some t" using client_unique [OF assms(1-3,6) slp_wks [OF l a]] .
  have "\<not> slp (wks ws ts) t d DOOR_TAG_CLIENT"
    by (rule wks_unique [OF l assms(6,4,5)]) (use client_unique [OF assms(1-3)] t in auto)
  then show False using a by simp
qed

section \<open>The table\<close>

lemma tb_bound: "length (g_aReplySoft s) = DOOR_REPLY_SOFT_SLOTS \<Longrightarrow> door_reply_soft_find d s = None \<longleftrightarrow> Some d \<notin> set (tab s)"
proof -
  assume l: "length (g_aReplySoft s) = DOOR_REPLY_SOFT_SLOTS"
  have "Some d \<in> set (tab s) \<longleftrightarrow> (\<exists>i < DOOR_REPLY_SOFT_SLOTS. rs_pDoor (g_aReplySoft s ! i) = Some d)"
    using l unfolding tab_def in_set_conv_nth by auto
  then show ?thesis unfolding door_reply_soft_find_def find_None_iff by auto
qed

lemma tb_full:
  assumes "tb_ok D tb" "finite D" "card D \<le> DOOR_REPLY_SOFT_SLOTS" "d \<in> D" "Some d \<notin> set tb"
  shows "None \<in> set tb"
proof (rule ccontr)
  assume "None \<notin> set tb"
  then have "inj_on (\<lambda>i. tb ! i) {..<DOOR_REPLY_SOFT_SLOTS}" using assms(1) by (auto simp: inj_on_def tb_ok_def in_set_conv_nth)
  moreover have "(\<lambda>i. tb ! i) ` {..<DOOR_REPLY_SOFT_SLOTS} \<subseteq> Some ` (D - {d})"
  proof
    fix x assume "x \<in> (\<lambda>i. tb ! i) ` {..<DOOR_REPLY_SOFT_SLOTS}"
    then obtain i where i: "i < DOOR_REPLY_SOFT_SLOTS" "x = tb ! i" by auto
    then have "x \<in> set tb" using assms(1) by (simp add: tb_ok_def)
    with \<open>None \<notin> set tb\<close> assms(5) obtain e where "x = Some e" "e \<noteq> d" by (cases x) auto
    then show "x \<in> Some ` (D - {d})" using assms(1) i by (auto simp: tb_ok_def)
  qed
  ultimately have "card {..<DOOR_REPLY_SOFT_SLOTS} \<le> card (Some ` (D - {d}))" using assms(2) by (intro card_inj_on_le) auto
  also have "\<dots> = card D - 1" using assms(2,4) by (simp add: card_image)
  finally show False using assms(2,3,4) card_gt_0_iff [of D] by auto
qed

lemma create_tab:
  assumes "length (g_aReplySoft s) = DOOR_REPLY_SOFT_SLOTS" "tb_ok D (tab s)" "finite D" "card D \<le> DOOR_REPLY_SOFT_SLOTS" "d \<in> D"
  shows "tb_ok D (tab (door_reply_soft_create d s)) \<and> set (tab s) - {None} \<subseteq> set (tab (door_reply_soft_create d s)) \<and> Some d \<in> set (tab (door_reply_soft_create d s))"
proof (cases "door_reply_soft_find d s")
  case None
  then have nd: "Some d \<notin> set (tab s)" using tb_bound [OF assms(1)] by simp
  from tb_full [OF assms(2-5) nd] obtain j where j: "j < DOOR_REPLY_SOFT_SLOTS" "tab s ! j = None" using assms(1) by (auto simp: in_set_conv_nth tab_def)
  then have "rs_pDoor (g_aReplySoft s ! j) = None" using assms(1) by (simp add: tab_def)
  then have "find (\<lambda>i. rs_pDoor (g_aReplySoft s ! i) = None) [0..<DOOR_REPLY_SOFT_SLOTS] \<noteq> None" using j(1) unfolding find_None_iff by auto
  then obtain i where f: "find (\<lambda>i. rs_pDoor (g_aReplySoft s ! i) = None) [0..<DOOR_REPLY_SOFT_SLOTS] = Some i" by auto
  have i: "i < DOOR_REPLY_SOFT_SLOTS" "tab s ! i = None" using f assms(1) unfolding find_Some_iff by (auto simp: tab_def)
  have t: "tab (door_reply_soft_create d s) = (tab s)[i := Some d]"
    using None f by (simp add: door_reply_soft_create_def reply_slot_for_def Let_def upd_reply_def tab_def map_update)
  have l: "length (tab s) = DOOR_REPLY_SOFT_SLOTS" using assms(1) by (simp add: tab_def)
  have "tb_ok D ((tab s)[i := Some d])" unfolding tb_ok_def
  proof (intro conjI allI impI)
    fix a b assume ab: "a < DOOR_REPLY_SOFT_SLOTS" "b < DOOR_REPLY_SOFT_SLOTS" "(tab s)[i := Some d] ! a \<noteq> None \<and> (tab s)[i := Some d] ! a = (tab s)[i := Some d] ! b"
    have "tab s ! c \<noteq> Some d" if "c < DOOR_REPLY_SOFT_SLOTS" for c using nd that l by (metis nth_mem)
    then show "a = b" using ab assms(2) l unfolding tb_ok_def by (cases "a = i"; cases "b = i") auto
  next
    fix a e assume "a < DOOR_REPLY_SOFT_SLOTS" "(tab s)[i := Some d] ! a = Some e"
    then show "e \<in> D" using assms(2,5) l unfolding tb_ok_def by (cases "a = i") auto
  qed (simp add: l)
  moreover have "set (tab s) - {None} \<subseteq> set ((tab s)[i := Some d])"
  proof
    fix x assume "x \<in> set (tab s) - {None}"
    then obtain a where a: "a < DOOR_REPLY_SOFT_SLOTS" "x = tab s ! a" "x \<noteq> None" using l by (auto simp: in_set_conv_nth)
    then have "a \<noteq> i" using i(2) by auto
    then show "x \<in> set ((tab s)[i := Some d])" using l a by (metis length_list_update nth_list_update_neq nth_mem)
  qed
  ultimately show ?thesis using i(1) l unfolding t by (simp add: set_update_memI)
next
  case (Some i)
  then have i: "i < DOOR_REPLY_SOFT_SLOTS" "rs_pDoor (g_aReplySoft s ! i) = Some d" unfolding door_reply_soft_find_def find_Some_iff by auto
  then have "tab (door_reply_soft_create d s) = tab s"
    using Some assms(1) by (simp add: door_reply_soft_create_def reply_slot_for_def Let_def upd_reply_def tab_def map_update list_update_same_conv)
  moreover have "Some d \<in> set (tab s)" using i assms(1) tb_bound [OF assms(1), of d] Some by auto
  ultimately show ?thesis using assms(2) by auto
qed

section \<open>Pieces\<close>

definition ok :: "nat set \<Rightarrow> 'a door_state_scheme \<Rightarrow> (nat \<Rightarrow> door_pc) \<Rightarrow> bool" where
  "ok D s pc \<longleftrightarrow> pk D (ds_threads s) pc \<and> tb_ok D (tab s) \<and> fl D (ds_doors s) (tab s) pc \<and> cm D (ds_doors s) (ds_threads s)"

lemma door_ok_ok: "door_ok D s \<longleftrightarrow> ok D s (dy_pc s)"
  by (simp add: door_ok_def ok_def)

lemma okI:
  assumes "ok D s pc" "pk D (ds_threads u) pc'" "tab u = tab s" "fl D (ds_doors u) (tab s) pc'" "cm D (ds_doors u) (ds_threads u)"
  shows "ok D u pc'"
  using assms by (simp add: ok_def)

lemma okD: "ok D s pc \<Longrightarrow> pk D (ds_threads s) pc \<and> tb_ok D (tab s) \<and> fl D (ds_doors s) (tab s) pc \<and> cm D (ds_doors s) (ds_threads s)"
  by (simp add: ok_def)

lemma cm_same:
  assumes "cm D ds ts" "\<And>e. e \<in> D \<Longrightarrow> calm_door (ds e) \<Longrightarrow> calm_door (ds' e)" "\<And>i e. i < GJ_MAX_THREADS \<Longrightarrow> slp ts' i e DOOR_TAG_CLIENT \<Longrightarrow> slp ts i e DOOR_TAG_CLIENT"
  shows "cm D ds' ts'"
  using assms unfolding cm_def by blast

text \<open>A thread \<open>t\<close> that runs, outside or on its way through an operation.\<close>

definition runs_at :: "nat \<Rightarrow> 'a door_state_scheme \<Rightarrow> bool" where
  "runs_at t s \<longleftrightarrow> t < GJ_MAX_THREADS \<and> th_u32Id (ds_threads s ! t) \<noteq> 0 \<and> th_u32State (ds_threads s ! t) \<noteq> GJ_THR_BLOCKED"

lemma slp_block_other: "slp (thread_block (Some t) (Obj_Other d) tag ts) i e tg \<Longrightarrow> i < length ts \<Longrightarrow> tg \<noteq> tag \<Longrightarrow> slp ts i e tg"
  using slp_block by blast

text \<open>A thread goes to sleep with a tag other than the client's.\<close>

lemma ok_sleep:
  assumes "ok D s pc" "runs_at t s" "d \<in> D" "pc_at x = Some (d, tag)" "tag \<noteq> DOOR_TAG_CLIENT" "\<And>e. \<not> is_client e (pc t)"
    and "ds_doors u = (ds_doors s)(d := p)" "tab u = tab s" "ds_threads u = wks ws (thread_block (Some t) (Obj_Other d) tag (ds_threads s))"
    and "dr_pClient p = dr_pClient (ds_doors s d)" "dr_u32HasReq p = dr_u32HasReq (ds_doors s d)" "dr_u32HasReply p = dr_u32HasReply (ds_doors s d)"
    "dr_u32PeerDead p = dr_u32PeerDead (ds_doors s d)" "dr_u32Ready p = dr_u32Ready (ds_doors s d)"
  shows "ok D u (pc(t := x))"
proof (rule okI [OF assms(1) _ assms(8)])
  note o = okD [OF assms(1)]
  have l: "length (ds_threads s) = GJ_MAX_THREADS" using o by auto
  then have l': "length (thread_block (Some t) (Obj_Other d) tag (ds_threads s)) = GJ_MAX_THREADS" by (simp add: thread_block_def)
  have t: "t < GJ_MAX_THREADS" "th_u32Id (ds_threads s ! t) \<noteq> 0" using assms(2) by (auto simp: runs_at_def)
  show "pk D (ds_threads u) (pc(t := x))" unfolding assms(9) using pk_wks pk_block [OF conjunct1 [OF o] t assms(3,4)] by blast
  have x: "\<not> is_client e x" for e using assms(4,5) by (cases x) auto
  have "fl D ((ds_doors s)(d := p)) (tab s) pc" by (rule fl_upd) (use o assms(10-12) fl_flags [of D "ds_doors s" "tab s" pc d] assms(3) in auto)
  then show "fl D (ds_doors u) (tab s) (pc(t := x))" unfolding assms(7) by (rule fl_pc) (use assms(6) x in simp)
  show "cm D (ds_doors u) (ds_threads u)" unfolding assms(7,9)
  proof (rule cm_same)
    show "cm D (ds_doors s) (ds_threads s)" using o by blast
    show "slp (ds_threads s) i e DOOR_TAG_CLIENT" if "i < GJ_MAX_THREADS" "slp (wks ws (thread_block (Some t) (Obj_Other d) tag (ds_threads s))) i e DOOR_TAG_CLIENT" for i e
      using slp_block_other [OF slp_wks [OF l' that(2)]] that(1) l assms(5) by simp
  qed (use assms(12-14) in \<open>auto simp: calm_door_def\<close>)
qed

text \<open>A thread stays out; the door keeps its client.\<close>

lemma ok_stay:
  assumes "ok D s pc" "\<And>e. is_client e (pc t) = is_client e x" "pk D (ds_threads s) (pc(t := x))"
    and "ds_doors u = (ds_doors s)(d := p)" "tab u = tab s" "ds_threads u = wks ws (ds_threads s)"
    and "dr_pClient p = dr_pClient (ds_doors s d)" "d \<in> D \<Longrightarrow> dr_u32HasReq p \<noteq> 0 \<or> dr_u32HasReply p \<noteq> 0 \<Longrightarrow> dr_pClient p \<noteq> None"
    and "d \<in> D \<Longrightarrow> calm_door p \<or> (\<exists>m > 0. (Obj_Other d, DOOR_TAG_CLIENT, m) \<in> set ws) \<or> \<not> calm_door (ds_doors s d) \<or> dr_pClient p = None"
  shows "ok D u (pc(t := x))"
proof (rule okI [OF assms(1) _ assms(5)])
  note o = okD [OF assms(1)]
  have l: "length (ds_threads s) = GJ_MAX_THREADS" using o by auto
  show "pk D (ds_threads u) (pc(t := x))" unfolding assms(6) using pk_wks assms(3) by blast
  show "fl D (ds_doors u) (tab s) (pc(t := x))"
  proof (cases "d \<in> D")
    case True
    have "fl D ((ds_doors s)(d := p)) (tab s) pc" by (rule fl_upd) (use o assms(7,8) True in auto)
    then show ?thesis unfolding assms(4) by (rule fl_pc) (use assms(2) in simp)
  next
    case False
    then have "fl D (ds_doors u) (tab s) pc" using o unfolding assms(4) fl_def by auto
    then show ?thesis by (rule fl_pc) (use assms(2) in simp)
  qed
  show "cm D (ds_doors u) (ds_threads u)" unfolding assms(4,6)
  proof (rule cm_upd [of D "ds_doors s" "ds_threads s"])
    show "cm D (ds_doors s) (ds_threads s)" using o by blast
    fix i assume i: "i < GJ_MAX_THREADS"
    show "slp (ds_threads s) i e DOOR_TAG_CLIENT" if "slp (wks ws (ds_threads s)) i e DOOR_TAG_CLIENT" for e using slp_wks [OF l that] .
    assume d: "d \<in> D" and s: "slp (wks ws (ds_threads s)) i d DOOR_TAG_CLIENT"
    have "\<not> (\<exists>m > 0. (Obj_Other d, DOOR_TAG_CLIENT, m) \<in> set ws)" using client_woken [of D "ds_threads s" pc "ds_doors s" "tab s" d _ ws i] o d i s by blast
    moreover have "calm_door (ds_doors s d)" using o d i slp_wks [OF l s] unfolding cm_def by blast
    moreover have "dr_pClient p \<noteq> None" using client_unique [of D "ds_threads s" pc "ds_doors s" "tab s" d i] o d i slp_wks [OF l s] assms(7) by simp
    ultimately show "calm_door p" using assms(9) [OF d] by metis
  qed
qed

lemma pk_self: "pk D ts pc \<Longrightarrow> pk D ts (pc(t := pc t))"
  by simp

lemma recv_split:
  obtains (err) "\<not> door_live s (Some d)" "recv_round d t s = (Recv_Err GJ_ERR_PEER_DEAD, if dr_pServer (ds_doors s d) = Some t then door_clear_serve d s else s)"
  | (take) "door_live s (Some d)" "dr_u32HasReq (ds_doors s d) \<noteq> 0" "dr_pServer (ds_doors s d) = None \<or> dr_pServer (ds_doors s d) = Some t"
      "recv_round d t s = (Recv_Ok (dr_req (ds_doors s d)), upd_door d (\<lambda>p. p\<lparr>dr_pServer := Some t\<rparr>) (door_store_has_req d 0 s))"
  | (foreign) v where "door_live s (Some d)" "dr_pServer (ds_doors s d) \<noteq> None" "dr_pServer (ds_doors s d) \<noteq> Some t" "dr_pClient (ds_doors s d) \<noteq> None"
      "v = door_block t d DOOR_TAG_SERVER s" "recv_round d t s = (Recv_Foreign, if dr_u32HasReq (ds_doors s d) \<noteq> 0 then door_wake d DOOR_TAG_SERVER 1 v else v)"
  | (wait) v where "door_live s (Some d)" "dr_u32HasReq (ds_doors s d) = 0 \<or> dr_pServer (ds_doors s d) \<noteq> None \<and> dr_pServer (ds_doors s d) \<noteq> Some t \<and> dr_pClient (ds_doors s d) = None"
      "dr_pServer (ds_doors s d) = None \<or> dr_pServer (ds_doors s d) = Some t \<or> dr_pClient (ds_doors s d) = None"
      "v = door_block t d DOOR_TAG_SERVER (upd_door d (\<lambda>p. p\<lparr>dr_pServer := Some t\<rparr>) s)"
      "recv_round d t s = (Recv_Wait, if dr_u32HasReq (ds_doors s d) \<noteq> 0 then door_wake d DOOR_TAG_SERVER 1 v else v)"
proof -
  let ?p = "ds_doors s d"
  have l: "door_live (door_block t d DOOR_TAG_SERVER s) (Some d) = door_live s (Some d)"
    "door_live (door_block t d DOOR_TAG_SERVER (upd_door d (\<lambda>p. p\<lparr>dr_pServer := Some t\<rparr>) s)) (Some d) = door_live s (Some d)"
    by (simp_all add: door_live_def)
  show thesis
  proof (cases "door_live s (Some d)")
    case True
    show ?thesis
    proof (cases "dr_u32HasReq ?p \<noteq> 0 \<and> (dr_pServer ?p = None \<or> dr_pServer ?p = Some t)")
      case a: True
      show ?thesis by (rule take) (use a True in \<open>auto simp: recv_round_def Let_def door_stores\<close>)
    next
      case a: False
      show ?thesis
      proof (cases "dr_pServer ?p \<noteq> None \<and> dr_pServer ?p \<noteq> Some t \<and> dr_pClient ?p \<noteq> None")
        case b: True
        show ?thesis by (rule foreign [OF True _ _ _ refl]) (use a b True in \<open>auto simp: recv_round_def Let_def door_load_has_req_def l(1)\<close>)
      next
        case b: False
        have "recv_round d t s = (Recv_Wait, let v = door_block t d DOOR_TAG_SERVER (upd_door d (\<lambda>p. p\<lparr>dr_pServer := Some t\<rparr>) s)
            in if dr_u32HasReq ?p \<noteq> 0 then door_wake d DOOR_TAG_SERVER 1 v else v)"
          unfolding recv_round_def Let_def door_load_has_req_def using a b True l(2) by auto
        then show ?thesis by (intro wait [OF True _ _ refl]) (use a b in \<open>auto simp: Let_def\<close>)
      qed
    qed
  qed (intro err, simp_all add: recv_round_def Let_def)
qed

lemma ok_recv:
  assumes "ok D s pc" "runs_at t s" "d \<in> D" "pc t = Out" "recv_round d t s = (r, u)"
  shows "ok D u (pc(t := (case r of Recv_Foreign \<Rightarrow> At_Foreign d | Recv_Wait \<Rightarrow> At_Recv d | _ \<Rightarrow> Out)))"
proof -
  let ?p = "ds_doors s d"
  have k: "pk D (ds_threads s) (pc(t := Out))" using okD [OF assms(1)] assms(4) by (metis fun_upd_triv)
  have f: "dr_u32HasReply ?p \<noteq> 0 \<or> dr_u32HasReq ?p \<noteq> 0 \<Longrightarrow> dr_pClient ?p \<noteq> None" using fl_flags [of D "ds_doors s" "tab s" pc d] okD [OF assms(1)] assms(3) by blast
  show ?thesis
  proof (cases rule: recv_split [of s d t])
    case err
    have "ok D u (pc(t := Out))"
      by (rule ok_stay [OF assms(1), where d = d and ws = "[]" and p = "if dr_pServer ?p = Some t then ?p\<lparr>dr_pServer := None\<rparr> else ?p"])
        (use assms(4,5) k f err in \<open>auto simp: door_stores calm_door_def split: if_splits\<close>)
    then show ?thesis using err assms(5) by auto
  next
    case take
    have "ok D u (pc(t := Out))"
      by (rule ok_stay [OF assms(1), where d = d and ws = "[]" and p = "?p\<lparr>dr_u32HasReq := 0, dr_pServer := Some t\<rparr>"])
        (use assms(4,5) k f take in \<open>auto simp: door_stores calm_door_def\<close>)
    then show ?thesis using take assms(5) by auto
  next
    case (foreign v)
    have "ok D u (pc(t := At_Foreign d))"
      by (rule ok_sleep [OF assms(1-3), where p = ?p and tag = DOOR_TAG_SERVER and ws = "if dr_u32HasReq ?p \<noteq> 0 then [(Obj_Other d, DOOR_TAG_SERVER, 1)] else []"])
        (use assms(4,5) foreign in auto)
    then show ?thesis using foreign assms(5) by auto
  next
    case (wait v)
    have "ok D u (pc(t := At_Recv d))"
      by (rule ok_sleep [OF assms(1-3), where p = "?p\<lparr>dr_pServer := Some t\<rparr>" and tag = DOOR_TAG_SERVER and ws = "if dr_u32HasReq ?p \<noteq> 0 then [(Obj_Other d, DOOR_TAG_SERVER, 1)] else []"])
        (use assms(4,5) wait in auto)
    then show ?thesis using wait assms(5) by auto
  qed
qed

text \<open>What an accepted reply does.\<close>

definition give_reply :: "nat \<Rightarrow> i64 \<Rightarrow> 'a door_state_scheme \<Rightarrow> 'a door_state_scheme" where
  "give_reply d v s = door_wake d DOOR_TAG_SERVER 1 (door_wake d DOOR_TAG_CLIENT 1 (door_clear_serve d
     (upd_door d (\<lambda>p. p\<lparr>dr_u64Replies := dr_u64Replies p + 1\<rparr>) (door_store_has_reply d 1 (upd_door d (\<lambda>p. p\<lparr>dr_i64Reply := v\<rparr>) s)))))"

definition answered :: "i64 \<Rightarrow> gj_door \<Rightarrow> gj_door" where
  "answered v p = p\<lparr>dr_i64Reply := v, dr_u32HasReply := 1, dr_u64Replies := dr_u64Replies p + 1, dr_pServer := None\<rparr>"

lemma give_reply_eff:
  "ds_doors (give_reply d v s) = (ds_doors s)(d := answered v (ds_doors s d))" "tab (give_reply d v s) = tab s" "rest (give_reply d v s) = rest s"
  "ds_threads (give_reply d v s) = wks [(Obj_Other d, DOOR_TAG_CLIENT, 1), (Obj_Other d, DOOR_TAG_SERVER, 1)] (ds_threads s)"
  by (simp_all add: give_reply_def door_stores answered_def)

lemma door_reply_split:
  obtains (same) "door_reply (Some t) (Some d) v s = s"
  | (drop) "dr_pClient (ds_doors s d) = None" "door_reply (Some t) (Some d) v s = door_wake d DOOR_TAG_SERVER 1 (door_clear_serve d s)"
  | (go) "dr_pClient (ds_doors s d) \<noteq> None" "fst (door_reply_soft_try_consume d s)" "door_reply (Some t) (Some d) v s = give_reply d v (snd (door_reply_soft_try_consume d s))"
proof -
  obtain b s' where c: "door_reply_soft_try_consume d s = (b, s')" by fastforce
  have "s' = s" if "\<not> b" using c that by (auto simp: door_reply_soft_try_consume_def split: option.splits if_splits)
  then show thesis using that c by (cases b; cases "dr_u32Ready (ds_doors s d) = 0"; cases "dr_pClient (ds_doors s d)"; cases "dr_pServer (ds_doors s d) = Some t")
      (simp_all add: door_reply_def Let_def give_reply_def)
qed

lemma ok_reply:
  assumes "ok D s pc" "d \<in> D"
  shows "ok D (door_reply (Some t) (Some d) v s) pc"
proof -
  let ?p = "ds_doors s d" let ?u = "door_reply (Some t) (Some d) v s"
  have k: "pk D (ds_threads s) (pc(t := pc t))" using okD [OF assms(1)] by simp
  have f: "dr_u32HasReply ?p \<noteq> 0 \<or> dr_u32HasReq ?p \<noteq> 0 \<Longrightarrow> dr_pClient ?p \<noteq> None" using fl_flags [of D "ds_doors s" "tab s" pc d] okD [OF assms(1)] assms(2) by blast
  have "ok D ?u (pc(t := pc t))"
  proof (cases rule: door_reply_split [of t d v s])
    case same
    then show ?thesis using assms(1) by simp
  next
    case drop
    show ?thesis by (rule ok_stay [OF assms(1) refl k, where d = d and ws = "[(Obj_Other d, DOOR_TAG_SERVER, 1)]" and p = "?p\<lparr>dr_pServer := None\<rparr>"])
        (use f drop in \<open>auto simp: door_stores calm_door_def\<close>)
  next
    case go
    show ?thesis
      by (rule ok_stay [OF assms(1) refl k, where d = d and ws = "[(Obj_Other d, DOOR_TAG_CLIENT, 1), (Obj_Other d, DOOR_TAG_SERVER, 1)]" and p = "answered v ?p"])
        (use go in \<open>auto simp: give_reply_eff answered_def intro!: exI [of _ "1 :: u32"]\<close>)
  qed
  then show ?thesis by simp
qed

end
