(* ===== verification/Door_Keep.thy ===== *)
theory Door_Keep
  imports Door_Inv
begin

text \<open>Every step of the door system keeps the invariant.\<close>

section \<open>Calls\<close>

lemma cancel_eff:
  "ds_doors (door_cancel_inflight d t s) = (ds_doors s)(d := (let p = (ds_doors s d)\<lparr>dr_u32HasReq := 0, dr_u32HasReply := 0\<rparr> in if dr_pClient p = Some t then p\<lparr>dr_pClient := None\<rparr> else p))"
  "ds_threads (door_cancel_inflight d t s) = wks [(Obj_Other d, DOOR_TAG_SLOT, 1), (Obj_Other d, DOOR_TAG_SERVER, 1)] (ds_threads s)"
  "tab (door_cancel_inflight d t s) = tab s" "rest (door_cancel_inflight d t s) = rest s"
  by (simp_all add: door_cancel_inflight_def door_release_client_slot_def door_stores Let_def)

text \<open>The end of a call that held the slot: the result, the door left behind and the wakes.\<close>

definition ends_call :: "nat \<Rightarrow> nat \<Rightarrow> 'a door_state_scheme \<Rightarrow> 'a door_state_scheme \<Rightarrow> bool" where
  "ends_call d t s u \<longleftrightarrow> (\<exists>p ws. ds_doors u = (ds_doors s)(d := p) \<and> ds_threads u = wks ws (ds_threads s) \<and> tab u = tab s \<and> rest u = rest s
     \<and> dr_pClient p = None \<and> dr_u32HasReq p = 0 \<and> dr_u32HasReply p = 0 \<and> dr_u32PeerDead p = dr_u32PeerDead (ds_doors s d) \<and> dr_u32Ready p = dr_u32Ready (ds_doors s d)
     \<and> dr_pServer p = dr_pServer (ds_doors s d) \<and> (Obj_Other d, DOOR_TAG_SLOT, 1) \<in> set ws
     \<and> set ws \<subseteq> {(Obj_Other d, DOOR_TAG_SLOT, 1), (Obj_Other d, DOOR_TAG_SERVER, 1)})"

lemma round_split:
  assumes "dr_pClient (ds_doors s d) = Some t"
  obtains (reply) u where "dr_u32HasReply (ds_doors s d) \<noteq> 0" "reply_round tm d t dl s = (Call_Ret (dr_i64Reply (ds_doors s d)), u)" "ends_call d t s u"
  | (dead) u where "dr_u32HasReply (ds_doors s d) = 0" "\<not> door_live s (Some d)" "reply_round tm d t dl s = (Call_Ret minus_EIO, u)" "ends_call d t s u"
  | (late) u where "dr_u32HasReply (ds_doors s d) = 0" "door_live s (Some d)" "past dl tm" "reply_round tm d t dl s = (Call_Ret minus_ETIMEDOUT, u)" "ends_call d t s u"
  | (sleep) "dr_u32HasReply (ds_doors s d) = 0" "door_live s (Some d)" "\<not> past dl tm" "reply_round tm d t dl s = (Call_Client, door_block t d DOOR_TAG_CLIENT s)"
proof (cases "dr_u32HasReply (ds_doors s d) = 0")
  case False
  show ?thesis using False assms
    by (intro reply) (auto simp: reply_round_def ends_call_def door_stores door_release_client_slot_def Let_def
      intro!: exI [of _ "(ds_doors s d)\<lparr>dr_u32HasReply := 0, dr_u32HasReq := 0, dr_u32LastBadge := dr_u32Badge (ds_doors s d), dr_pClient := None\<rparr>"] exI [of _ "[(Obj_Other d, DOOR_TAG_SLOT, 1)]"])
next
  case True
  let ?q = "(ds_doors s d)\<lparr>dr_u32HasReq := 0, dr_u32HasReply := 0, dr_pClient := None\<rparr>"
  let ?ws = "[(Obj_Other d, DOOR_TAG_SLOT, 1), (Obj_Other d, DOOR_TAG_SERVER, 1)]"
  have l: "door_live (door_block t d DOOR_TAG_CLIENT s) (Some d) = door_live s (Some d)" by (simp add: door_live_def)
  show ?thesis
  proof (cases "door_live s (Some d)")
    case live: False
    have "ends_call d t s (door_cancel_inflight d t (door_snapshot_last_badge d s))" unfolding ends_call_def
      by (rule exI [of _ "(ds_doors s d)\<lparr>dr_u32LastBadge := dr_u32Badge (ds_doors s d), dr_u32HasReq := 0, dr_u32HasReply := 0, dr_pClient := None\<rparr>"], rule exI [of _ ?ws]) (use assms in \<open>simp add: cancel_eff door_stores\<close>)
    then show ?thesis using True live by (intro dead) (auto simp: reply_round_def door_stores)
  next
    case live: True
    show ?thesis
    proof (cases "past dl tm")
      case past: True
      have "ends_call d t s (upd_door d (\<lambda>p. p\<lparr>dr_u64Timeouts := dr_u64Timeouts p + 1\<rparr>) (door_cancel_inflight d t s))" unfolding ends_call_def
        by (rule exI [of _ "?q\<lparr>dr_u64Timeouts := dr_u64Timeouts (ds_doors s d) + 1\<rparr>"], rule exI [of _ ?ws]) (use assms in \<open>simp add: cancel_eff\<close>)
      then show ?thesis using True live past by (intro late) (auto simp: reply_round_def door_stores)
    next
      case past: False
      then show ?thesis using True live l by (intro sleep) (auto simp: reply_round_def door_stores Let_def)
    qed
  qed
qed

lemma live_calm: "door_live s (Some d) \<Longrightarrow> dr_u32HasReply (ds_doors s d) = 0 \<Longrightarrow> calm_door (ds_doors s d)"
  by (auto simp: door_live_def calm_door_def split: if_splits)

text \<open>The client goes to sleep.\<close>

lemma cm_block:
  assumes "cm D ds ts0" "length ts = GJ_MAX_THREADS" "\<And>i e. slp ts i e DOOR_TAG_CLIENT \<Longrightarrow> slp ts0 i e DOOR_TAG_CLIENT"
    and "calm_door (ds' d)" "\<And>e. e \<noteq> d \<Longrightarrow> ds' e = ds e"
  shows "cm D ds' (thread_block (Some t) (Obj_Other d) tag ts)"
  unfolding cm_def
proof (intro ballI allI impI)
  fix e i assume e: "e \<in> D" "i < GJ_MAX_THREADS" "slp (thread_block (Some t) (Obj_Other d) tag ts) i e DOOR_TAG_CLIENT"
  then consider "e = d" | "slp ts i e DOOR_TAG_CLIENT" "e \<noteq> d" using slp_block assms(2) by metis
  then show "calm_door (ds' e)" using assms(1,4) assms(3) [of i e] assms(5) [of e] e(1,2) unfolding cm_def by cases auto
qed

text \<open>A client comes back.\<close>

lemma ok_round:
  assumes "ok D s0 pc" "pc t = At_Client d regs dl" "t < GJ_MAX_THREADS" "d \<in> D" "on t (ds_threads s0)"
    and "ds_threads s = (ds_threads s0)[t := (ds_threads s0 ! t)\<lparr>th_u32State := GJ_THR_RUNNING\<rparr>]" "ds_doors s = ds_doors s0" "tab s = tab s0"
    and "reply_round tm d t dl s = (r, u)"
  shows "ok D u (pc(t := (case r of Call_Client \<Rightarrow> At_Client d regs dl | _ \<Rightarrow> Out)))"
proof -
  note o = okD [OF assms(1)]
  have c: "dr_pClient (ds_doors s d) = Some t" using fl_client [of D "ds_doors s0" "tab s0" pc d t] o assms(2-4,7) by simp
  have k: "pk D (ds_threads s) (pc(t := Out))" using pk_run [OF _ assms(5)] o unfolding assms(6) by blast
  have l: "length (ds_threads s) = GJ_MAX_THREADS" "length (ds_threads s0) = GJ_MAX_THREADS" using k o by auto
  have sl: "slp (ds_threads s0) i e tag" if "slp (ds_threads s) i e tag" for i e tag using that unfolding assms(6) by (cases "i = t") (auto simp: slp_def assms(3) l)
  have fin: "ok D u (pc(t := Out))" if e: "ends_call d t s u"
  proof -
    obtain p ws where e: "ds_doors u = (ds_doors s)(d := p)" "ds_threads u = wks ws (ds_threads s)" "tab u = tab s" "dr_pClient p = None" "dr_u32HasReq p = 0" "dr_u32HasReply p = 0"
      using e unfolding ends_call_def by blast
    have f: "fl D (ds_doors u) (tab u) (pc(t := Out))" unfolding e(1,3) assms(7,8) by (rule fl_release) (use o c assms(4,7) e(4-6) in auto)
    have kw: "pk D (ds_threads u) (pc(t := Out))" unfolding e(2) by (rule pk_wks) (rule k)
    have "cm D (ds_doors u) (ds_threads u)" unfolding e(1)
    proof (rule cm_upd [of D "ds_doors s" "ds_threads s0"])
      show "cm D (ds_doors s) (ds_threads s0)" using o unfolding assms(7) by blast
      fix i assume i: "i < GJ_MAX_THREADS"
      show "slp (ds_threads s0) i e DOOR_TAG_CLIENT" if "slp (ds_threads u) i e DOOR_TAG_CLIENT" for e using sl slp_wks [OF l(1)] that unfolding e(2) by blast
      assume "slp (ds_threads u) i d DOOR_TAG_CLIENT"
      then show "calm_door p" using client_unique [OF kw f assms(4) i] e(1,4) by simp
    qed
    then show ?thesis using o kw f unfolding ok_def e(3) assms(8) by blast
  qed
  from c show ?thesis
  proof (cases rule: round_split [where tm = tm and dl = dl])
    case sleep
    have u: "u = door_block t d DOOR_TAG_CLIENT s" "r = Call_Client" using sleep assms(9) by auto
    have "pk D (ds_threads u) (pc(t := At_Client d regs dl))" using pk_block [OF k assms(3), of d "At_Client d regs dl"] assms(4,5) by (simp add: u on_def assms(6) assms(3) l)
    moreover have "cm D (ds_doors u) (ds_threads u)" unfolding u door_block_eff
      by (rule cm_block [of D "ds_doors s0" "ds_threads s0"]) (use o l sl live_calm [OF sleep(2,1)] assms(7) in auto)
    ultimately show ?thesis using o assms(2) unfolding u ok_def by (simp add: assms(7,8) fun_upd_idem)
  qed (use fin assms(9) in auto)
qed

text \<open>The claim of a free slot and what follows up to the scheduler.\<close>

definition claimed :: "nat \<Rightarrow> gj_linux_regs \<Rightarrow> gj_door \<Rightarrow> gj_door" where
  "claimed t regs p = p\<lparr>dr_pClient := Some t, dr_req := regs, dr_u32HasReply := 0, dr_u32HasReq := 1, dr_u64Calls := dr_u64Calls p + 1\<rparr>"

definition post_wakes :: "nat \<Rightarrow> gj_door \<Rightarrow> door_wakes" where
  "post_wakes d p = (if dr_pServer p \<noteq> None then [(Obj_Other d, DOOR_TAG_SERVER, 1)] else [])"

definition claim_post :: "nat \<Rightarrow> nat \<Rightarrow> gj_linux_regs \<Rightarrow> 'a door_state_scheme \<Rightarrow> 'a door_state_scheme" where
  "claim_post d t regs s = post_request d regs (upd_door d (\<lambda>p. p\<lparr>dr_pClient := Some t\<rparr>) s)"

lemma claim_post_eff:
  "ds_doors (claim_post d t regs s) = (ds_doors s)(d := claimed t regs (ds_doors s d))" "rest (claim_post d t regs s) = rest s"
  "ds_threads (claim_post d t regs s) = wks (post_wakes d (ds_doors s d)) (ds_threads s)" "st_objs (claim_post d t regs s) = st_objs s"
  by (simp_all add: claim_post_def post_request_def Let_def door_stores claimed_def post_wakes_def)

lemma claim_post_tab_eq:
  fixes s :: "'a door_state_scheme"
  shows "\<exists>v :: 'a door_state_scheme. tab v = tab s \<and> length (g_aReplySoft v) = length (g_aReplySoft s) \<and> tab (claim_post d t regs s) = tab (door_reply_soft_create d v)"
  by (rule exI [of _ "upd_door d (\<lambda>p. p\<lparr>dr_u64Calls := dr_u64Calls p + 1\<rparr>) (door_store_has_req d 1 (door_store_has_reply d 0 (upd_door d (\<lambda>p. p\<lparr>dr_req := regs\<rparr>)
    (upd_door d (\<lambda>p. p\<lparr>dr_pClient := Some t\<rparr>) s))))"]) (simp add: door_stores claim_post_def post_request_def Let_def)

lemma claim_post_tab:
  fixes s :: "'a door_state_scheme"
  assumes "tb_ok D (tab s)" "finite D" "card D \<le> DOOR_REPLY_SOFT_SLOTS" "d \<in> D"
  shows "tb_ok D (tab (claim_post d t regs s)) \<and> set (tab s) - {None} \<subseteq> set (tab (claim_post d t regs s)) \<and> Some d \<in> set (tab (claim_post d t regs s))"
proof -
  obtain v :: "'a door_state_scheme" where v: "tab v = tab s" "length (g_aReplySoft v) = length (g_aReplySoft s)" "tab (claim_post d t regs s) = tab (door_reply_soft_create d v)" using claim_post_tab_eq by blast
  have "length (g_aReplySoft v) = DOOR_REPLY_SOFT_SLOTS" using v(2) assms(1) by (simp add: tb_ok_def tab_def)
  then show ?thesis using create_tab [OF _ _ assms(2-4), of v] v(1,3) assms(1) by simp
qed

lemma claimed_live: "door_live (claim_post d t regs s) (Some d) = door_live s (Some d)"
  by (simp add: door_live_def claim_post_eff claimed_def)

lemma ok_post:
  assumes "ok D s pc" "runs_at t s" "d \<in> D" "pc t = Out" "finite D" "card D \<le> DOOR_REPLY_SOFT_SLOTS"
    and "dr_pClient (ds_doors s d) = None" "door_live s (Some d)" "reply_round tm d t dl (claim_post d t regs s) = (r, u)"
  shows "ok D u (pc(t := (case r of Call_Client \<Rightarrow> At_Client d regs dl | _ \<Rightarrow> Out)))"
proof -
  note o = okD [OF assms(1)]
  let ?v = "claim_post d t regs s"
  have t: "t < GJ_MAX_THREADS" using assms(2) by (simp add: runs_at_def)
  have l: "length (ds_threads s) = GJ_MAX_THREADS" using o by auto
  note tb = claim_post_tab [OF conjunct1 [OF conjunct2 [OF o]] assms(5,6,3), of t regs]
  have kv: "pk D (ds_threads ?v) pc" unfolding claim_post_eff by (rule pk_wks) (use o in blast)
  have fv: "fl D (ds_doors s) (tab ?v) pc" by (rule fl_tab [of D _ "tab s"]) (use o tb in auto)
  have id: "th_u32Id (ds_threads ?v ! t) \<noteq> 0" using wks_entry [OF l, of "post_wakes d (ds_doors s d)" t] assms(2) by (auto simp: claim_post_eff runs_at_def woken_def)
  have lv: "door_live ?v (Some d)" using assms(8) claimed_live by blast
  have c: "dr_pClient (ds_doors ?v d) = Some t" "dr_u32HasReply (ds_doors ?v d) = 0" by (simp_all add: claim_post_eff claimed_def)
  from c(1) show ?thesis
  proof (cases rule: round_split [where tm = tm and dl = dl])
    case (late w)
    then have u: "u = w" "r = Call_Ret minus_ETIMEDOUT" using assms(9) by auto
    obtain p ws where e: "ds_doors u = (ds_doors ?v)(d := p)" "ds_threads u = wks ws (ds_threads ?v)" "tab u = tab ?v" "dr_pClient p = None" "dr_u32HasReq p = 0" "dr_u32HasReply p = 0"
      using late(5) unfolding ends_call_def u(1) by blast
    have ds: "ds_doors u = (ds_doors s)(d := p)" by (simp add: e(1) claim_post_eff)
    have f: "fl D (ds_doors u) (tab u) pc" unfolding ds e(3) by (rule fl_upd [OF fv]) (use e(4-6) assms(7) in auto)
    have k: "pk D (ds_threads u) pc" unfolding e(2) by (rule pk_wks [OF kv])
    have "cm D (ds_doors u) (ds_threads u)" unfolding ds
    proof (rule cm_upd [of D "ds_doors s" "ds_threads s"])
      show "cm D (ds_doors s) (ds_threads s)" using o by blast
      fix i assume i: "i < GJ_MAX_THREADS"
      show "slp (ds_threads s) i e DOOR_TAG_CLIENT" if "slp (ds_threads u) i e DOOR_TAG_CLIENT" for e
        using slp_wks [OF l] that unfolding e(2) claim_post_eff wks_simps by blast
      assume "slp (ds_threads u) i d DOOR_TAG_CLIENT"
      then show "calm_door p" using client_unique [OF k f assms(3) i] ds e(4) by simp
    qed
    then show ?thesis using k f tb assms(4) unfolding ok_def u(2) e(3) by (simp add: fun_upd_idem)
  next
    case sleep
    have u: "u = door_block t d DOOR_TAG_CLIENT ?v" "r = Call_Client" using sleep assms(9) by auto
    have "pk D (ds_threads u) (pc(t := At_Client d regs dl))" unfolding u door_block_eff by (rule pk_block [OF kv t id assms(3)]) simp
    moreover have "fl D (ds_doors u) (tab ?v) (pc(t := At_Client d regs dl))" unfolding u door_block_eff claim_post_eff
      by (rule fl_claim [OF fv assms(7) t]) (use assms(4) tb in \<open>auto simp: claimed_def\<close>)
    moreover have "cm D (ds_doors u) (ds_threads u)" unfolding u door_block_eff
      by (rule cm_block [of D "ds_doors s" "ds_threads s"]) (use o l live_calm [OF lv c(2)] slp_wks [OF l] in \<open>auto simp: claim_post_eff\<close>)
    ultimately show ?thesis using tb unfolding ok_def u by simp
  qed (use c(2) lv in auto)
qed

text \<open>The claim in a state that satisfies the invariant: the owner of a taken slot is alive, so the loop ends at once.\<close>

lemma claim_split:
  assumes "ok D s pc" "d \<in> D"
  obtains (dead) "\<not> door_live s (Some d)" "call_claim tm d t regs dl s = Some (Call_Ret minus_EIO, s)"
  | (late) "door_live s (Some d)" "past dl (tm 0)" "call_claim tm d t regs dl s = Some (Call_Ret minus_ETIMEDOUT, upd_door d (\<lambda>p. p\<lparr>dr_u64Timeouts := dr_u64Timeouts p + 1\<rparr>) s)"
  | (wait) "door_live s (Some d)" "dr_pClient (ds_doors s d) \<noteq> None" "call_claim tm d t regs dl s = Some (Call_Slot, door_block t d DOOR_TAG_SLOT s)"
  | (got) "door_live s (Some d)" "dr_pClient (ds_doors s d) = None" "call_claim tm d t regs dl s = Some (reply_round (tm 1) d t dl (claim_post d t regs s))"
proof (cases "\<not> door_live s (Some d) \<or> past dl (tm 0)")
  case True
  then show ?thesis using dead late by (cases "door_live s (Some d)") (simp_all add: call_claim_def claim_loop.simps [of tm 0])
next
  case False
  note o = okD [OF assms(1)]
  have l: "door_live (door_block t d DOOR_TAG_SLOT s) (Some d) = door_live s (Some d)" by (simp add: door_live_def)
  show ?thesis
  proof (cases "dr_pClient (ds_doors s d)")
    case None
    then show ?thesis using False by (intro got) (simp_all add: call_claim_def claim_loop.simps [of tm 0] claim_post_def)
  next
    case (Some h)
    then have h: "h < GJ_MAX_THREADS" "is_client d (pc h)" using fl_client [of D "ds_doors s" "tab s" pc d h] o assms(2) by auto
    have "th_u32State (ds_threads s ! h) \<noteq> GJ_THR_EXITED \<and> th_u32Id (ds_threads s ! h) \<noteq> 0" using pk_alive [OF conjunct1 [OF o] h(1)] h(2) by (cases "pc h") auto
    then show ?thesis using False Some l by (intro wait) (simp_all add: call_claim_def claim_loop.simps [of tm 0] Let_def)
  qed
qed

lemma ok_claim:
  assumes "ok D s pc" "runs_at t s" "d \<in> D" "pc t = Out" "finite D" "card D \<le> DOOR_REPLY_SOFT_SLOTS" "call_claim tm d t regs dl s = Some (r, u)"
  shows "ok D u (pc(t := (case r of Call_Client \<Rightarrow> At_Client d regs dl | Call_Slot \<Rightarrow> At_Slot d regs dl | _ \<Rightarrow> Out)))"
  using assms(1,3)
proof (cases rule: claim_split [where t = t and tm = tm and regs = regs and dl = dl])
  case dead
  then show ?thesis using assms(1,4,7) by (auto simp: fun_upd_idem)
next
  case late
  have "ok D u (pc(t := pc t))"
    by (rule ok_stay [OF assms(1) refl, where d = d and ws = "[]" and p = "(ds_doors s d)\<lparr>dr_u64Timeouts := dr_u64Timeouts (ds_doors s d) + 1\<rparr>"])
      (use late assms(7) okD [OF assms(1)] fl_flags [of D "ds_doors s" "tab s" pc d] in \<open>auto simp: calm_door_def\<close>)
  then show ?thesis using late assms(4,7) by auto
next
  case wait
  have "ok D u (pc(t := At_Slot d regs dl))"
    by (rule ok_sleep [OF assms(1-3), where tag = DOOR_TAG_SLOT and p = "ds_doors s d" and ws = "[]"]) (use wait assms(4,7) in auto)
  then show ?thesis using wait assms(7) by auto
next
  case got
  obtain r' u' where x: "reply_round (tm 1) d t dl (claim_post d t regs s) = (r', u')" by fastforce
  then have "r = r'" "u = u'" using got assms(7) by auto
  moreover have "r' \<noteq> Call_Slot" using x unfolding reply_round_def Let_def by (auto split: if_splits)
  ultimately show ?thesis using ok_post [OF assms(1-6) got(2,1) x] by (cases r') auto
qed

section \<open>The end of threads and doors\<close>

lemma fl1_gone:
  assumes "fl1 e p b pc" "dr_pClient p = Some t"
  shows "fl1 e (exit_door t p) b (pc(t := Out))"
proof -
  have c: "dr_pClient p = Some i \<longleftrightarrow> i < GJ_MAX_THREADS \<and> is_client e (pc i)" for i using assms(1) unfolding fl1_def by blast
  have n: "\<not> (i < GJ_MAX_THREADS \<and> is_client e ((pc(t := Out)) i))" for i using c [of i] assms(2) by (cases "i = t") auto
  have x: "dr_pClient (exit_door t p) = None" "dr_u32HasReq (exit_door t p) = 0" "dr_u32HasReply (exit_door t p) = 0" using assms(2) by (simp_all add: exit_door_def)
  show ?thesis unfolding fl1_def x using n by simp
qed

lemma fl1_exit:
  assumes "fl1 e p b pc" "t < GJ_MAX_THREADS"
  shows "fl1 e (exit_door t p) b (pc(t := Out))"
proof (cases "dr_pClient p = Some t")
  case False
  then have n: "\<not> is_client e (pc t)" using assms unfolding fl1_def by blast
  have "fl1 e (exit_door t p) b pc" by (rule fl1_cong [OF assms(1)]) (use False fl1_flags [OF assms(1)] in \<open>auto simp: exit_door_def split: if_splits\<close>)
  from fl_other [OF this n is_client_simps(1)] show ?thesis .
qed (rule fl1_gone [OF assms(1)])

lemma exit_wakes_in: "d \<in> D' \<Longrightarrow> w \<in> set (exit_wakes d t (ds_doors s d)) \<Longrightarrow> D' = insert (ds_cold s) {d. Some d \<in> set (tab s)} \<Longrightarrow> w \<in> set (door_exit_wakes t s)"
  by (auto simp: door_exit_wakes_def walk_doors_set)

lemma ok_kill:
  assumes "ok D s pc" "t < GJ_MAX_THREADS"
    and "ds_threads s1 = (ds_threads s)[t := exit_scrub (ds_threads s ! t)]" "ds_doors s1 = ds_doors s" "tab s1 = tab s" "ds_cold s1 = ds_cold s"
  shows "ok D (door_on_thread_exit (Some t) s1) (pc(t := Out))"
proof -
  note o = okD [OF assms(1)]
  let ?u = "door_on_thread_exit (Some t) s1" let ?W = "\<lambda>e. e = ds_cold s \<or> Some e \<in> set (tab s)"
  have len: "length (g_aReplySoft s1) = DOOR_REPLY_SOFT_SLOTS" using o assms(5) by (metis length_map tab_def tb_ok_def)
  note x = on_exit_eff [OF len, of t, unfolded assms(4-6)]
  have l: "length (ds_threads s) = GJ_MAX_THREADS" "length (ds_threads s1) = GJ_MAX_THREADS" using o assms(3) by auto
  have k: "pk D (ds_threads s1) (pc(t := Out))" unfolding assms(3) by (rule pk_set) (use o assms(2) in \<open>auto simp: exit_scrub_def\<close>)
  have sl: "slp (ds_threads s) i e tag \<and> i \<noteq> t" if "slp (ds_threads s1) i e tag" for i e tag
    using that unfolding assms(3) by (cases "i = t") (auto simp: slp_def assms(2) l exit_scrub_def)
  have d: "ds_doors ?u e = (if ?W e then exit_door t (ds_doors s e) else ds_doors s e)" for e using x(1) [of e] assms(6) by simp
  have f: "fl D (ds_doors ?u) (tab s) (pc(t := Out))"
  proof (rule flI [of D "ds_doors s" "tab s" pc])
    show "fl D (ds_doors s) (tab s) pc" using o by blast
    fix e assume e: "e \<in> D" "fl1 e (ds_doors s e) (Some e \<in> set (tab s)) pc"
    show "fl1 e (ds_doors ?u e) (Some e \<in> set (tab s)) (pc(t := Out))"
    proof (cases "?W e")
      case True
      then show ?thesis using fl1_exit [OF e(2) assms(2)] d by simp
    next
      case False
      then have "dr_pClient (ds_doors s e) = None" using e(2) unfolding fl1_def by blast
      then have "\<not> is_client e (pc t)" using e(2) assms(2) unfolding fl1_def by simp
      then show ?thesis using fl_other [OF e(2)] d False by simp
    qed
  qed
  have "cm D (ds_doors ?u) (ds_threads ?u)" unfolding cm_def
  proof (intro ballI allI impI)
    fix e i assume e: "e \<in> D" "i < GJ_MAX_THREADS" "slp (ds_threads ?u) i e DOOR_TAG_CLIENT"
    then have s1: "slp (ds_threads s1) i e DOOR_TAG_CLIENT" using slp_wks [OF l(2)] unfolding x(2) by blast
    have cl: "dr_pClient (ds_doors s e) = Some j" if "j < GJ_MAX_THREADS" "slp (ds_threads s1) j e DOOR_TAG_CLIENT" for j
      using client_unique [of D "ds_threads s" pc "ds_doors s" "tab s" e j] o e(1) that sl by blast
    have c: "calm_door (ds_doors s e)" using o e(1,2) sl [OF s1] unfolding cm_def by blast
    have i: "dr_pClient (ds_doors s e) = Some i" "i \<noteq> t" using cl [OF e(2) s1] sl [OF s1] by auto
    show "calm_door (ds_doors ?u e)"
    proof (cases "?W e \<and> dr_pServer (ds_doors s e) = Some t")
      case True
      then have "(Obj_Other e, DOOR_TAG_CLIENT, 1) \<in> set (exit_wakes e t (ds_doors s1 e))" using i c assms(4) by (simp add: exit_wakes_def calm_door_def)
      then have "(Obj_Other e, DOOR_TAG_CLIENT, 1) \<in> set (door_exit_wakes t s1)" using exit_wakes_in [OF _ _ refl, of e s1] True assms(5,6) by auto
      then have "\<not> slp (wks (door_exit_wakes t s1) (ds_threads s1)) i e DOOR_TAG_CLIENT" by (rule wks_unique [OF l(2) e(2)]) (use cl i(1) in auto)
      then show ?thesis using e(3) x(2) by simp
    next
      case False
      then show ?thesis using c i unfolding d by (auto simp: exit_door_def)
    qed
  qed
  then show ?thesis using o f pk_wks [OF k] x(2,3) assms(5) unfolding ok_def by metis
qed

definition aborted :: "gj_door \<Rightarrow> gj_door" where
  "aborted p = (let p = p\<lparr>dr_u32PeerDead := 1, dr_u64Aborts := dr_u64Aborts p + 1\<rparr>
     in (if dr_pClient p \<noteq> None then p\<lparr>dr_i64Reply := minus_EIO, dr_u32HasReply := 1\<rparr> else p)\<lparr>dr_pServer := None\<rparr>)"

definition abort_wakes :: "nat \<Rightarrow> gj_door \<Rightarrow> door_wakes" where
  "abort_wakes d p = (if dr_pClient p \<noteq> None then [(Obj_Other d, DOOR_TAG_CLIENT, 1)] else []) @ [(Obj_Other d, DOOR_TAG_SERVER, 1), (Obj_Other d, DOOR_TAG_SLOT, 8)]"

lemma abort_eff:
  "ds_doors (door_abort_waiters (Some d) s) = (ds_doors s)(d := aborted (ds_doors s d))" "tab (door_abort_waiters (Some d) s) = tab s"
  "ds_threads (door_abort_waiters (Some d) s) = wks (abort_wakes d (ds_doors s d)) (ds_threads s)" "rest (door_abort_waiters (Some d) s) = rest s"
  by (simp_all add: door_abort_waiters_def aborted_def abort_wakes_def door_stores Let_def)

text \<open>Marking a door dead also changes the header, which no other door shares.\<close>

definition mark_prep :: "nat \<Rightarrow> 'a door_state_scheme \<Rightarrow> 'a door_state_scheme" where
  "mark_prep d s = (let s = upd_door d (\<lambda>p. p\<lparr>dr_u32Ready := 0, dr_u32PeerDead := 1\<rparr>) s
     in if hdr_u32State (st_objs s d) = GJ_OBJ_LIVE then snd (gj_obj_revoke_begin (Some d) s) else upd_obj d (\<lambda>h. h\<lparr>hdr_u32State := GJ_OBJ_DEAD\<rparr>) s)"

lemma mark_prep_eff:
  "ds_doors (mark_prep d s) = (ds_doors s)(d := (ds_doors s d)\<lparr>dr_u32Ready := 0, dr_u32PeerDead := 1\<rparr>)" "tab (mark_prep d s) = tab s"
  "ds_threads (mark_prep d s) = ds_threads s" "door_state.more (mark_prep d s) = door_state.more s" "ds_cold (mark_prep d s) = ds_cold s"
  "e \<noteq> d \<Longrightarrow> st_objs (mark_prep d s) e = st_objs s e"
  by (simp_all add: mark_prep_def upd_door_def gj_obj_revoke_begin_def revoke_q_push_def upd_obj_def tab_def Let_def split: prod.split option.split)

lemma mark_dead_alt: "door_mark_dead (Some d) s = door_abort_waiters (Some d) (mark_prep d s)"
  by (simp add: door_mark_dead_def mark_prep_def Let_def)

lemma abort_keeps:
  assumes "ok D s pc" "d \<in> D" "ds_doors u = (ds_doors s)(d := aborted p)" "tab u = tab s" "ds_threads u = wks (abort_wakes d p) (ds_threads s)"
    and "dr_pClient p = dr_pClient (ds_doors s d)" "dr_u32HasReq p = dr_u32HasReq (ds_doors s d)" "dr_u32HasReply p = dr_u32HasReply (ds_doors s d)"
  shows "ok D u pc"
proof -
  have "ok D u (pc(0 := pc 0))"
    by (rule ok_stay [OF assms(1) refl _ assms(3-5)])
      (use okD [OF assms(1)] fl_flags [of D "ds_doors s" "tab s" pc d] assms(2,6-8) in \<open>auto simp: aborted_def abort_wakes_def Let_def intro!: exI [of _ "1 :: u32"] split: if_splits\<close>)
  then show ?thesis by simp
qed

lemma init_eff:
  assumes "tb_ok D (tab s)"
  shows "ds_doors (door_init (Some d) s) = (ds_doors s)(d := no_door\<lparr>dr_u32Ready := 1\<rparr>)" "ds_threads (door_init (Some d) s) = ds_threads s"
    "door_state.more (door_init (Some d) s) = door_state.more s" "tb_ok D (tab (door_init (Some d) s))" "set (tab s) - {Some d} \<subseteq> set (tab (door_init (Some d) s))"
    "hdr_u32State (st_objs (door_init (Some d) s) d) = GJ_OBJ_LIVE" "e \<noteq> d \<Longrightarrow> st_objs (door_init (Some d) s) e = st_objs s e"
proof -
  let ?v = "door_reply_soft_invalidate d s"
  have more: "door_state.more (upd_reply i f x) = door_state.more x" "door_state.more ?v = door_state.more s" for i f and x :: "'a door_state_scheme"
    by (simp_all add: upd_reply_def door_reply_soft_invalidate_def split: option.split)
  show "ds_doors (door_init (Some d) s) = (ds_doors s)(d := no_door\<lparr>dr_u32Ready := 1\<rparr>)" "ds_threads (door_init (Some d) s) = ds_threads s"
    "door_state.more (door_init (Some d) s) = door_state.more s" "hdr_u32State (st_objs (door_init (Some d) s) d) = GJ_OBJ_LIVE"
    "e \<noteq> d \<Longrightarrow> st_objs (door_init (Some d) s) e = st_objs s e"
    by (simp_all add: door_init_def Let_def gj_obj_hdr_init_def upd_obj_def upd_door_def more split: option.split)
  have l: "length (g_aReplySoft ?v) = DOOR_REPLY_SOFT_SLOTS" "length (tab s) = DOOR_REPLY_SOFT_SLOTS" using assms invalidate_eff(3) [of d s] by (auto simp: tb_ok_def tab_def dest: map_eq_imp_length_eq)
  have t: "tab (door_init (Some d) s) = (case door_reply_soft_find d ?v of None \<Rightarrow> tab s | Some i \<Rightarrow> (tab s)[i := None])"
    using invalidate_eff(3) [of d s]
    by (simp add: door_init_def Let_def gj_obj_hdr_init_def upd_obj_def tab_def upd_door_def upd_reply_def map_update no_reply_def split: option.split)
  show "tb_ok D (tab (door_init (Some d) s))" "set (tab s) - {Some d} \<subseteq> set (tab (door_init (Some d) s))"
  proof -
    have "tb_ok D ((tab s)[i := None]) \<and> set (tab s) - {Some d} \<subseteq> set ((tab s)[i := None])" if "door_reply_soft_find d ?v = Some i" for i
    proof
      have "i < DOOR_REPLY_SOFT_SLOTS" "tab ?v ! i = Some d" using that l unfolding door_reply_soft_find_def find_Some_iff by (auto simp: tab_def)
      then have i: "i < DOOR_REPLY_SOFT_SLOTS" "tab s ! i = Some d" unfolding invalidate_eff by auto
      show "tb_ok D ((tab s)[i := None])" unfolding tb_ok_def
      proof (intro conjI allI impI)
        fix a b assume "a < DOOR_REPLY_SOFT_SLOTS" "b < DOOR_REPLY_SOFT_SLOTS" "(tab s)[i := None] ! a \<noteq> None \<and> (tab s)[i := None] ! a = (tab s)[i := None] ! b"
        then show "a = b" using assms l(2) unfolding tb_ok_def by (cases "a = i"; cases "b = i") auto
      next
        fix a e assume "a < DOOR_REPLY_SOFT_SLOTS" "(tab s)[i := None] ! a = Some e"
        then show "e \<in> D" using assms l(2) unfolding tb_ok_def by (cases "a = i") auto
      qed (simp add: l)
      show "set (tab s) - {Some d} \<subseteq> set ((tab s)[i := None])"
      proof
        fix x assume "x \<in> set (tab s) - {Some d}"
        then obtain a where a: "a < DOOR_REPLY_SOFT_SLOTS" "x = tab s ! a" "x \<noteq> Some d" using l by (auto simp: in_set_conv_nth)
        then have "a \<noteq> i" using i(2) by auto
        then show "x \<in> set ((tab s)[i := None])" using l a by (metis length_list_update nth_list_update_neq nth_mem)
      qed
    qed
    then show "tb_ok D (tab (door_init (Some d) s))" "set (tab s) - {Some d} \<subseteq> set (tab (door_init (Some d) s))" using assms unfolding t by (auto split: option.split)
  qed
qed

section \<open>Steps\<close>

lemma more_dy:
  assumes "door_state.more u = door_state.more s"
  shows "dy_pc u = dy_pc s" "dy_held u = dy_held s" "dy_log u = dy_log s" "dy_died u = dy_died s"
  using assms by (cases s; cases u; simp)+

lemma rest_more: "rest u = rest s \<Longrightarrow> door_state.more u = door_state.more s"
  by (simp add: rest_def)

lemmas rest_dy = more_dy [OF rest_more]

lemma recv_rest: "rest (snd (recv_round d t s)) = rest s"
  by (cases rule: recv_split [of s d t]) (simp_all add: door_stores)

lemma round_rest: "rest (snd (reply_round tm d t dl s)) = rest s"
  by (simp add: reply_round_def Let_def door_stores cancel_eff door_release_client_slot_def)

lemma claim_rest:
  assumes "ok D s pc" "d \<in> D" "call_claim tm d t regs dl s = Some x"
  shows "rest (snd x) = rest s"
  using assms(1,2)
proof (cases rule: claim_split [where t = t and tm = tm and regs = regs and dl = dl])
  case got
  then show ?thesis using assms(3) round_rest [of "tm 1" d t dl "claim_post d t regs s"] by (simp add: claim_post_eff)
qed (use assms(3) in auto)

lemma reply_rest: "rest (door_reply (Some t) (Some d) v s) = rest s"
  by (cases rule: door_reply_split [of t d v s]) (simp_all add: door_stores give_reply_eff)

text \<open>The state of the system in which thread \<open>t\<close> has come back from the scheduler.\<close>

definition awake :: "nat \<Rightarrow> door_sys \<Rightarrow> door_sys" where
  "awake t s = upd_thread t (\<lambda>x. x\<lparr>th_u32State := GJ_THR_RUNNING\<rparr>) s"

lemma upd_thread_eff [simp]:
  "ds_threads (upd_thread t f s) = (ds_threads s)[t := f (ds_threads s ! t)]" "ds_doors (upd_thread t f s) = ds_doors s" "tab (upd_thread t f s) = tab s"
  "rest (upd_thread t f s) = rest s" "ds_cold (upd_thread t f s) = ds_cold s" "st_objs (upd_thread t f s) = st_objs s"
  by (simp_all add: upd_thread_def tab_def rest_def)

lemma ok_set:
  assumes "ok D s pc" "t < GJ_MAX_THREADS" "th_u32State (f (ds_threads s ! t)) \<noteq> GJ_THR_BLOCKED" "\<And>e. \<not> is_client e (pc t)"
  shows "ok D (upd_thread t f s) (pc(t := Out))"
proof (rule okI [OF assms(1)])
  note o = okD [OF assms(1)]
  have l: "length (ds_threads s) = GJ_MAX_THREADS" using o by auto
  show "pk D (ds_threads (upd_thread t f s)) (pc(t := Out))" unfolding upd_thread_eff by (rule pk_set) (use o assms(2,3) in auto)
  show "fl D (ds_doors (upd_thread t f s)) (tab s) (pc(t := Out))" unfolding upd_thread_eff by (rule fl_pc) (use o assms(4) in auto)
  have "slp (ds_threads s) i e tag" if "slp ((ds_threads s)[t := f (ds_threads s ! t)]) i e tag" for i e tag
    using that assms(2,3) l by (cases "i = t") (auto simp: slp_def)
  then show "cm D (ds_doors (upd_thread t f s)) (ds_threads (upd_thread t f s))" unfolding upd_thread_eff using cm_same o by blast
qed simp

lemma ok_back:
  assumes "ok D s pc" "on t (ds_threads s)" "\<And>e. \<not> is_client e (pc t)"
  shows "ok D (awake t s) (pc(t := Out)) \<and> runs_at t (awake t s)"
proof -
  have t: "t < GJ_MAX_THREADS" "th_u32Id (ds_threads s ! t) \<noteq> 0" "length (ds_threads s) = GJ_MAX_THREADS" using assms(1,2) by (auto simp: on_def dest: okD)
  show ?thesis unfolding awake_def using ok_set [OF assms(1) t(1) _ assms(3)] t by (simp add: runs_at_def)
qed

lemma after_call_dy:
  "ds_threads (after_call t d regs dl (r, u)) = ds_threads u" "ds_doors (after_call t d regs dl (r, u)) = ds_doors u" "tab (after_call t d regs dl (r, u)) = tab u"
  "dy_pc (after_call t d regs dl (r, u)) = (dy_pc u)(t := (case r of Call_Client \<Rightarrow> At_Client d regs dl | Call_Slot \<Rightarrow> At_Slot d regs dl | _ \<Rightarrow> Out))"
  "dy_held (after_call t d regs dl (r, u)) = dy_held u" "dy_died (after_call t d regs dl (r, u)) = dy_died u" "st_objs (after_call t d regs dl (r, u)) = st_objs u"
  "dy_log (after_call t d regs dl (r, u)) = (case r of Call_Ret v \<Rightarrow> (d, regs, dl, v) # dy_log u | _ \<Rightarrow> dy_log u)"
  by (cases r; simp add: set_dpc_def tab_def)+

lemma after_recv_dy:
  "ds_threads (after_recv t d (r, u)) = ds_threads u" "ds_doors (after_recv t d (r, u)) = ds_doors u" "tab (after_recv t d (r, u)) = tab u"
  "dy_pc (after_recv t d (r, u)) = (dy_pc u)(t := (case r of Recv_Foreign \<Rightarrow> At_Foreign d | Recv_Wait \<Rightarrow> At_Recv d | _ \<Rightarrow> Out))"
  "dy_held (after_recv t d (r, u)) = (case r of Recv_Ok x \<Rightarrow> (dy_held u)(t := (dy_held u t)(d := Some x)) | _ \<Rightarrow> dy_held u)"
  "dy_died (after_recv t d (r, u)) = dy_died u" "dy_log (after_recv t d (r, u)) = dy_log u" "st_objs (after_recv t d (r, u)) = st_objs u"
  by (cases r; simp add: set_dpc_def set_held_def tab_def)+

lemma after_call_ok: "ok D u (pc(t := (case r of Call_Client \<Rightarrow> At_Client d regs dl | Call_Slot \<Rightarrow> At_Slot d regs dl | _ \<Rightarrow> Out))) \<Longrightarrow> dy_pc u = pc' \<Longrightarrow> pc = pc'(t := x)
  \<Longrightarrow> door_ok D (after_call t d regs dl (r, u))"
  by (simp add: door_ok_ok ok_def after_call_dy)

lemma after_recv_ok: "ok D u (pc(t := (case r of Recv_Foreign \<Rightarrow> At_Foreign d | Recv_Wait \<Rightarrow> At_Recv d | _ \<Rightarrow> Out))) \<Longrightarrow> dy_pc u = pc' \<Longrightarrow> pc = pc'(t := x)
  \<Longrightarrow> door_ok D (after_recv t d (r, u))"
  by (simp add: door_ok_ok ok_def after_recv_dy)

lemma keep_call:
  assumes "door_ok D s" "finite D" "card D \<le> DOOR_REPLY_SOFT_SLOTS" "door_act D (D_Call t d regs dl tm) s = Some u"
  shows "door_ok D u"
proof -
  have o: "ok D s (dy_pc s)" using assms(1) by (simp add: door_ok_ok)
  have g: "on t (ds_threads s)" "dy_pc s t = Out" "d \<in> D" using assms(4) by (auto simp: door_act_def split: if_splits)
  then have rt: "runs_at t s" by (auto simp: runs_at_def on_def)
  obtain x where x: "door_call_timeout tm (Some t) (Some d) (Some regs) dl s = Some x" "u = after_call t d regs dl x" using assms(4) g by (auto simp: door_act_def)
  obtain r v where rv: "x = (r, v)" by fastforce
  have "ok D v ((dy_pc s)(t := (case r of Call_Client \<Rightarrow> At_Client d regs dl | Call_Slot \<Rightarrow> At_Slot d regs dl | _ \<Rightarrow> Out))) \<and> dy_pc v = dy_pc s"
  proof (cases "dr_u32Ready (ds_doors s d) = 0 \<or> \<not> door_live s (Some d)")
    case True
    then have "v = s \<and> (\<exists>c. r = Call_Ret c)" using x(1) rv by (auto simp: door_call_timeout_def split: if_splits)
    then show ?thesis using o g(2) by (auto simp: fun_upd_idem)
  next
    case False
    then have c: "call_claim tm d t regs dl s = Some (r, v)" using x(1) rv by (simp add: door_call_timeout_def)
    show ?thesis using ok_claim [OF o rt g(3,2) assms(2,3) c] rest_dy(1) [OF claim_rest [OF o g(3) c]] by simp
  qed
  then show ?thesis unfolding x(2) rv using after_call_ok [where D = D and u = v and pc = "dy_pc s" and t = t and r = r and d = d and regs = regs and dl = dl and pc' = "dy_pc s" and x = Out] g(2) by (simp add: fun_upd_idem)
qed

lemma keep_recv:
  assumes "door_ok D s" "door_act D (D_Recv t d) s = Some u"
  shows "door_ok D u"
proof -
  have o: "ok D s (dy_pc s)" using assms(1) by (simp add: door_ok_ok)
  have g: "on t (ds_threads s)" "dy_pc s t = Out" "d \<in> D" using assms(2) by (auto simp: door_act_def split: if_splits)
  then have rt: "runs_at t s" by (auto simp: runs_at_def on_def)
  obtain r v where rv: "door_recv (Some t) (Some d) True s = (r, v)" by fastforce
  then have u: "u = after_recv t d (r, v)" using assms(2) g by (simp add: door_act_def)
  have "ok D v ((dy_pc s)(t := (case r of Recv_Foreign \<Rightarrow> At_Foreign d | Recv_Wait \<Rightarrow> At_Recv d | _ \<Rightarrow> Out))) \<and> dy_pc v = dy_pc s"
  proof (cases "dr_u32Ready (ds_doors s d) = 0 \<or> \<not> door_live s (Some d)")
    case True
    then have "v = s \<and> (\<exists>c. r = Recv_Err c)" using rv by (auto simp: door_recv_def split: if_splits)
    then show ?thesis using o g(2) by (auto simp: fun_upd_idem)
  next
    case False
    then have c: "recv_round d t s = (r, v)" using rv by (simp add: door_recv_def)
    show ?thesis using ok_recv [OF o rt g(3,2) c] rest_dy(1) [of v s] recv_rest [of d t s] c by simp
  qed
  then show ?thesis unfolding u using after_recv_ok [where D = D and u = v and pc = "dy_pc s" and t = t and r = r and d = d and pc' = "dy_pc s" and x = Out] g(2) by (simp add: fun_upd_idem)
qed

lemma unmark_ok:
  assumes "ok D s pc" "d \<in> D"
  shows "ok D (recv_unmark d t s) pc"
proof (cases "dr_pServer (ds_doors s d) = Some t \<and> door_load_has_req d s = 0 \<and> dr_pClient (ds_doors s d) = None")
  case True
  have "ok D (recv_unmark d t s) (pc(0 := pc 0))"
    by (rule ok_stay [OF assms(1) refl, where d = d and ws = "[]" and p = "(ds_doors s d)\<lparr>dr_pServer := None\<rparr>"])
      (use True okD [OF assms(1)] fl_flags [of D "ds_doors s" "tab s" pc d] in \<open>auto simp: recv_unmark_def calm_door_def\<close>)
  then show ?thesis by simp
qed (use assms(1) in \<open>auto simp: recv_unmark_def\<close>)

lemma unmark_eff [simp]: "ds_threads (recv_unmark d t s) = ds_threads s" "rest (recv_unmark d t s) = rest s" "st_objs (recv_unmark d t s) = st_objs s"
  by (simp_all add: recv_unmark_def)

lemma keep_resume:
  assumes "door_ok D s" "finite D" "card D \<le> DOOR_REPLY_SOFT_SLOTS" "door_act D (D_Resume t tm) s = Some u"
  shows "door_ok D u"
proof -
  have o: "ok D s (dy_pc s)" using assms(1) by (simp add: door_ok_ok)
  have g: "on t (ds_threads s)" "t < GJ_MAX_THREADS" and x: "resume t tm s = Some u" using assms(4) by (auto simp: door_act_def on_def split: if_splits)
  have dd: "case pc_at (dy_pc s t) of None \<Rightarrow> True | Some (d, tag) \<Rightarrow> d \<in> D" using o g(2) by (auto simp: ok_def pk_def pk1_def split: option.splits)
  have aw: "dy_pc (awake t s) = dy_pc s" by (simp add: awake_def upd_thread_def)
  note b = ok_back [OF o g(1)]
  show ?thesis
  proof (cases "dy_pc s t")
    case (At_Slot d regs dl)
    obtain r v where c: "call_claim tm d t regs dl (awake t s) = Some (r, v)" "u = after_call t d regs dl (r, v)" using x At_Slot by (auto simp: resume_def awake_def Let_def)
    have d: "d \<in> D" using dd At_Slot by simp
    have k: "ok D (awake t s) ((dy_pc s)(t := Out))" "runs_at t (awake t s)" using b At_Slot by auto
    have "dy_pc v = dy_pc s" using rest_dy(1) [OF claim_rest [OF k(1) d c(1)]] aw by simp
    from after_call_ok [OF ok_claim [OF k d _ assms(2,3) c(1)] this refl] show ?thesis unfolding c(2) by simp
  next
    case (At_Client d regs dl)
    obtain r v where c: "reply_round (tm 0) d t dl (awake t s) = (r, v)" by fastforce
    have u: "u = after_call t d regs dl (r, v)" using x At_Client c by (simp add: resume_def awake_def Let_def)
    have d: "d \<in> D" using dd At_Client by simp
    have "r \<noteq> Call_Slot" using c unfolding reply_round_def Let_def by (auto split: if_splits)
    then have "ok D v ((dy_pc s)(t := (case r of Call_Client \<Rightarrow> At_Client d regs dl | Call_Slot \<Rightarrow> At_Slot d regs dl | _ \<Rightarrow> Out)))"
      using ok_round [OF o At_Client g(2) d g(1) _ _ _ c] by (cases r) (auto simp: awake_def)
    moreover have "dy_pc v = dy_pc s" using rest_dy(1) [of v "awake t s"] round_rest [of "tm 0" d t dl "awake t s"] c aw by simp
    ultimately show ?thesis unfolding u using after_call_ok [where D = D and u = v and pc = "dy_pc s" and t = t and r = r and d = d and regs = regs and dl = dl and pc' = "dy_pc s" and x = "dy_pc s t"] by simp
  next
    case (At_Recv d)
    obtain r v where c: "recv_round d t (recv_unmark d t (awake t s)) = (r, v)" by fastforce
    have u: "u = after_recv t d (r, v)" using x At_Recv c by (simp add: resume_def awake_def Let_def)
    have d: "d \<in> D" using dd At_Recv by simp
    have k: "ok D (recv_unmark d t (awake t s)) ((dy_pc s)(t := Out))" "runs_at t (recv_unmark d t (awake t s))" using b At_Recv unmark_ok [OF _ d] by (auto simp: runs_at_def)
    have "dy_pc v = dy_pc s" using rest_dy(1) [of v "recv_unmark d t (awake t s)"] rest_dy(1) [of "recv_unmark d t (awake t s)" "awake t s"] recv_rest [of d t "recv_unmark d t (awake t s)"] c aw by simp
    from after_recv_ok [OF ok_recv [OF k d _ c] this refl] show ?thesis unfolding u by simp
  next
    case (At_Foreign d)
    obtain r v where c: "recv_round d t (awake t s) = (r, v)" by fastforce
    have u: "u = after_recv t d (r, v)" using x At_Foreign c by (simp add: resume_def awake_def Let_def)
    have d: "d \<in> D" using dd At_Foreign by simp
    have k: "ok D (awake t s) ((dy_pc s)(t := Out))" "runs_at t (awake t s)" using b At_Foreign by auto
    have "dy_pc v = dy_pc s" using rest_dy(1) [of v "awake t s"] recv_rest [of d t "awake t s"] c aw by simp
    from after_recv_ok [OF ok_recv [OF k d _ c] this refl] show ?thesis unfolding u by simp
  qed (use x in \<open>simp add: resume_def Let_def\<close>)
qed

lemma keep_kill:
  assumes "door_ok D s" "door_act D (D_Kill t) s = Some u"
  shows "door_ok D u"
proof -
  have o: "ok D s (dy_pc s)" using assms(1) by (simp add: door_ok_ok)
  let ?s1 = "upd_thread t exit_scrub s" let ?v = "door_on_thread_exit (Some t) ?s1"
  have t: "t < GJ_MAX_THREADS" "u = set_dpc t Out (?v\<lparr>dy_held := (dy_held ?v)(t := \<lambda>_. None), dy_died := True\<rparr>)" using assms(2) by (auto simp: door_act_def Let_def split: if_splits)
  have len: "length (g_aReplySoft ?s1) = DOOR_REPLY_SOFT_SLOTS" using okD [OF o] by (simp add: tb_ok_def tab_def upd_thread_def)
  have "ok D ?v ((dy_pc s)(t := Out))" by (rule ok_kill [OF o t(1)]) simp_all
  moreover have "dy_pc ?v = dy_pc s" using rest_dy(1) [of ?v s] on_exit_eff(4) [OF len, of t] by simp
  ultimately show ?thesis unfolding t(2) door_ok_ok by (simp add: set_dpc_def ok_def tab_def)
qed

lemma keep_init:
  assumes "door_ok D s" "d \<in> D" "unused_door d s"
  shows "door_ok D (door_init (Some d) s)"
proof -
  have o: "ok D s (dy_pc s)" using assms(1) by (simp add: door_ok_ok)
  note x = okD [OF o]
  note i = init_eff [OF conjunct1 [OF conjunct2 [OF x]], of d]
  have n: "\<not> is_client d (dy_pc s t)" if "t < GJ_MAX_THREADS" for t using assms(3) that unfolding unused_door_def by (cases "dy_pc s t") (auto simp: at_door_def)
  have c: "dr_pClient (ds_doors s d) = None" using fl_client [of D "ds_doors s" "tab s" "dy_pc s" d] x assms(2) n by (cases "dr_pClient (ds_doors s d)") auto
  have "fl D (ds_doors s) (tab (door_init (Some d) s)) (dy_pc s)" by (rule fl_tab [of D _ "tab s"]) (use x i(5) c in auto)
  then have f: "fl D (ds_doors (door_init (Some d) s)) (tab (door_init (Some d) s)) (dy_pc s)" unfolding i(1) by (rule fl_upd) (use c in \<open>auto simp: no_door_def\<close>)
  have "cm D (ds_doors (door_init (Some d) s)) (ds_threads s)" unfolding i(1) by (rule cm_upd [of D "ds_doors s" "ds_threads s"]) (use x in \<open>auto simp: calm_door_def no_door_def\<close>)
  then show ?thesis using x f i(2,4) more_dy(1) [OF i(3)] unfolding door_ok_ok ok_def by simp
qed

lemma keep_start:
  assumes "door_ok D s" "t < GJ_MAX_THREADS" "th_u32State (f (ds_threads s ! t)) \<noteq> GJ_THR_BLOCKED" "dy_pc s t = Out"
  shows "door_ok D (upd_thread t f s)"
proof -
  have "ok D (upd_thread t f s) ((dy_pc s)(t := Out))" by (rule ok_set) (use assms in \<open>auto simp: door_ok_ok\<close>)
  moreover have "dy_pc (upd_thread t f s) = dy_pc s" by (simp add: upd_thread_def)
  ultimately show ?thesis using assms(4) by (simp add: door_ok_ok fun_upd_idem)
qed

lemma keep_sleep:
  assumes "door_ok D s" "on t (ds_threads s)" "dy_pc s t = Out" "ob \<notin> Obj_Other ` D"
  shows "door_ok D (s\<lparr>ds_threads := thread_block (Some t) ob tag (ds_threads s)\<rparr>)"
proof -
  have x: "pk D (ds_threads s) (dy_pc s)" "tb_ok D (tab s)" "fl D (ds_doors s) (tab s) (dy_pc s)" "cm D (ds_doors s) (ds_threads s)" using assms(1) by (auto simp: door_ok_def)
  have t: "t < GJ_MAX_THREADS" "length (ds_threads s) = GJ_MAX_THREADS" using assms(2) x(1) by (auto simp: on_def)
  have "pk D (thread_block (Some t) ob tag (ds_threads s)) (dy_pc s)"
    by (rule pkI [OF x(1), where t = t]) (use t assms(3,4) in \<open>auto simp: thread_block_def pk1_def\<close>)
  moreover have "cm D (ds_doors s) (thread_block (Some t) ob tag (ds_threads s))" unfolding cm_def
  proof (intro ballI allI impI)
    fix e i assume e: "e \<in> D" "i < GJ_MAX_THREADS" "slp (thread_block (Some t) ob tag (ds_threads s)) i e DOOR_TAG_CLIENT"
    then have "slp (ds_threads s) i e DOOR_TAG_CLIENT" using assms(4) t by (cases "i = t") (auto simp: slp_def thread_block_def)
    then show "calm_door (ds_doors s e)" using x(4) e(1,2) unfolding cm_def by blast
  qed
  ultimately show ?thesis using x by (simp add: door_ok_def tab_def)
qed

lemma keep_abort: assumes "door_ok D s" "d \<in> D" shows "door_ok D ((door_abort_waiters (Some d) s)\<lparr>dy_died := True\<rparr>)"
proof -
  have "ok D (door_abort_waiters (Some d) s) (dy_pc s)"
    by (rule abort_keeps [where p = "ds_doors s d" and d = d]) (use assms in \<open>simp_all add: door_ok_ok abort_eff\<close>)
  then show ?thesis using rest_dy(1) [OF abort_eff(4), of d s] by (simp add: door_ok_ok ok_def tab_def)
qed

lemma keep_mark: assumes "door_ok D s" "d \<in> D" shows "door_ok D ((door_mark_dead (Some d) s)\<lparr>dy_died := True\<rparr>)"
proof -
  have "ok D (door_mark_dead (Some d) s) (dy_pc s)" unfolding mark_dead_alt
    by (rule abort_keeps [where p = "(ds_doors s d)\<lparr>dr_u32Ready := 0, dr_u32PeerDead := 1\<rparr>" and d = d and s = s]) (use assms in \<open>simp_all add: door_ok_ok abort_eff mark_prep_eff\<close>)
  then show ?thesis using more_dy(1) [of "door_mark_dead (Some d) s" s] rest_more [OF abort_eff(4), of d "mark_prep d s"] mark_prep_eff(4) [of d s]
    by (simp add: door_ok_ok ok_def tab_def mark_dead_alt)
qed

lemma door_keeps:
  assumes "door_ok D s" "finite D" "card D \<le> DOOR_REPLY_SOFT_SLOTS" "door_act D a s = Some u"
  shows "door_ok D u"
proof (cases a)
  case (D_Reply t d v)
  then have g: "d \<in> D" "u = set_held t d None (door_reply (Some t) (Some d) v s)" using assms(4) by (auto simp: door_act_def split: if_splits)
  have "ok D (door_reply (Some t) (Some d) v s) (dy_pc s)" using ok_reply [OF _ g(1)] assms(1) by (simp add: door_ok_ok)
  then show ?thesis unfolding g(2) door_ok_ok using rest_dy(1) [OF reply_rest, of t d v s] by (simp add: set_held_def ok_def tab_def)
next
  case (D_Start t i)
  then have g: "t < GJ_MAX_THREADS" "th_u32State (ds_threads s ! t) = GJ_THR_UNUSED \<or> th_u32State (ds_threads s ! t) = GJ_THR_EXITED"
    "u = upd_thread t (\<lambda>_. no_thread\<lparr>th_u32Id := i, th_u32State := GJ_THR_RUNNABLE\<rparr>) s" using assms(4) by (auto simp: door_act_def split: if_splits)
  have "dy_pc s t = Out" using pk_alive [of D "ds_threads s" "dy_pc s" t] assms(1) g(1,2) by (auto simp: door_ok_def)
  then show ?thesis unfolding g(3) by (intro keep_start [OF assms(1) g(1)]) simp_all
next
  case (D_Badge d b)
  have "ok D (door_set_badge (Some d) b s) ((dy_pc s)(0 := dy_pc s 0))"
    by (rule ok_stay [where d = d and ws = "[]" and s = s and p = "(ds_doors s d)\<lparr>dr_u32Badge := b\<rparr>"])
      (use assms(1) fl_flags [of D "ds_doors s" "tab s" "dy_pc s" d] in \<open>auto simp: door_ok_def ok_def door_set_badge_def calm_door_def\<close>)
  then show ?thesis using assms(4) D_Badge rest_dy(1) [of "door_set_badge (Some d) b s" s] by (auto simp: door_act_def door_ok_ok door_set_badge_def)
next
  case (D_Ready t)
  then show ?thesis using assms(4) by (auto simp: door_act_def woken_def split: if_splits intro!: keep_start [OF assms(1)])
next
  case (D_Call t d regs dl tm)
  then show ?thesis using keep_call [OF assms(1-3)] assms(4) by simp
next
  case (D_Recv t d)
  then show ?thesis using keep_recv [OF assms(1)] assms(4) by simp
next
  case (D_Resume t tm)
  then show ?thesis using keep_resume [OF assms(1-3)] assms(4) by simp
next
  case (D_Kill t)
  then show ?thesis using keep_kill [OF assms(1)] assms(4) by simp
next
  case (D_Abort d)
  then show ?thesis using keep_abort [OF assms(1)] assms(4) by (auto simp: door_act_def split: if_splits)
next
  case (D_MarkDead d)
  then show ?thesis using keep_mark [OF assms(1)] assms(4) by (auto simp: door_act_def split: if_splits)
next
  case (D_Init d)
  then show ?thesis using keep_init [OF assms(1)] assms(4) by (auto simp: door_act_def split: if_splits)
next
  case (D_Sleep t ob tag)
  then have g: "on t (ds_threads s)" "dy_pc s t = Out" "ob \<notin> Obj_Other ` D" "u = s\<lparr>ds_threads := thread_block (Some t) ob tag (ds_threads s)\<rparr>"
    using assms(4) unfolding door_act_def by (simp_all split: if_splits)
  show ?thesis unfolding g(4) by (rule keep_sleep [OF assms(1) g(1-3)])
qed

end
