(* ===== verification/Door_Wake.thy ===== *)
theory Door_Wake
  imports Door_Keep
begin

text \<open>
  Who is awake: a client sleeps exactly as long as its door is not dead and has no reply for it.
\<close>

section \<open>What the pieces of a call do\<close>

text \<open>Two doors that differ in nothing the invariants look at.\<close>

definition alike :: "gj_door \<Rightarrow> gj_door \<Rightarrow> bool" where
  "alike p q \<longleftrightarrow> dr_pClient q = dr_pClient p \<and> dr_pServer q = dr_pServer p \<and> dr_u32HasReq q = dr_u32HasReq p \<and> dr_u32HasReply q = dr_u32HasReply p
     \<and> dr_u32PeerDead q = dr_u32PeerDead p \<and> dr_u32Ready q = dr_u32Ready p
     \<and> (dr_u32HasReq p \<noteq> 0 \<longrightarrow> dr_req q = dr_req p) \<and> (dr_u32HasReply p \<noteq> 0 \<longrightarrow> dr_i64Reply q = dr_i64Reply p)"

text \<open>Wakes that reach no client.\<close>

definition spares :: "nat \<Rightarrow> door_wakes \<Rightarrow> bool" where
  "spares d ws \<longleftrightarrow> (\<forall>(ob, tag, m) \<in> set ws. ob = Obj_Other d \<and> (tag = DOOR_TAG_SERVER \<or> tag = DOOR_TAG_SLOT))"

lemma spares_simps [simp]: "spares d []" "spares d ((ob, tag, m) # ws) \<longleftrightarrow> ob = Obj_Other d \<and> (tag = DOOR_TAG_SERVER \<or> tag = DOOR_TAG_SLOT) \<and> spares d ws"
  "spares d (ws @ vs) \<longleftrightarrow> spares d ws \<and> spares d vs"
  by (simp_all add: spares_def ball_Un conj_assoc)

lemma spares_if [simp]: "spares d (if b then ws else vs) \<longleftrightarrow> (if b then spares d ws else spares d vs)"
  by simp

lemma claim_cases:
  assumes "ok D s pc" "d \<in> D" "call_claim tm d t regs dl s = Some (r, u)"
  obtains (ret) v p ws where "r = Call_Ret v" "v = minus_EIO \<and> \<not> door_live s (Some d) \<or> v = minus_ETIMEDOUT \<and> dl \<noteq> 0"
      "ds_doors u = (ds_doors s)(d := p)" "alike (ds_doors s d) p" "ds_threads u = wks ws (ds_threads s)" "spares d ws" "rest u = rest s"
  | (slot) "r = Call_Slot" "u = door_block t d DOOR_TAG_SLOT s"
  | (client) "r = Call_Client" "dr_pClient (ds_doors s d) = None" "door_live s (Some d)" "ds_doors u = (ds_doors s)(d := claimed t regs (ds_doors s d))"
      "ds_threads u = thread_block (Some t) (Obj_Other d) DOOR_TAG_CLIENT (wks (post_wakes d (ds_doors s d)) (ds_threads s))" "rest u = rest s"
  using assms(1,2)
proof (cases rule: claim_split [where t = t and tm = tm and regs = regs and dl = dl])
  case dead
  then show ?thesis using assms(3) ret [of minus_EIO "ds_doors s d" "[]"] by (simp add: alike_def)
next
  case late
  then show ?thesis using assms(3) ret [of minus_ETIMEDOUT "(ds_doors s d)\<lparr>dr_u64Timeouts := dr_u64Timeouts (ds_doors s d) + 1\<rparr>" "[]"] by (auto simp: alike_def past_def)
next
  case wait
  then show ?thesis using assms(3) slot by simp
next
  case got
  let ?v = "claim_post d t regs s"
  have f: "dr_u32HasReq (ds_doors s d) = 0" "dr_u32HasReply (ds_doors s d) = 0" using fl_flags [of D "ds_doors s" "tab s" pc d] okD [OF assms(1)] assms(2) got(2) by auto
  have x: "reply_round (tm 1) d t dl ?v = (r, u)" using got assms(3) by simp
  have v: "dr_pClient (ds_doors ?v d) = Some t" "dr_u32HasReply (ds_doors ?v d) = 0" by (simp_all add: claim_post_eff claimed_def)
  from v(1) show ?thesis
  proof (cases rule: round_split [where tm = "tm 1" and dl = dl])
    case (late w)
    obtain p ws where e: "ds_doors u = (ds_doors ?v)(d := p)" "ds_threads u = wks ws (ds_threads ?v)" "rest u = rest ?v" "dr_pClient p = None" "dr_u32HasReq p = 0" "dr_u32HasReply p = 0"
      "dr_u32PeerDead p = dr_u32PeerDead (ds_doors ?v d)" "dr_u32Ready p = dr_u32Ready (ds_doors ?v d)" "dr_pServer p = dr_pServer (ds_doors ?v d)"
      "set ws \<subseteq> {(Obj_Other d, DOOR_TAG_SLOT, 1), (Obj_Other d, DOOR_TAG_SERVER, 1)}" using late(4,5) x unfolding ends_call_def by auto
    show ?thesis
    proof (rule ret [of minus_ETIMEDOUT p "post_wakes d (ds_doors s d) @ ws"])
      show "alike (ds_doors s d) p" using e f got(2) by (simp add: alike_def claim_post_eff claimed_def)
      show "spares d (post_wakes d (ds_doors s d) @ ws)" using e(10) by (auto simp: spares_def post_wakes_def)
    qed (use late x e in \<open>auto simp: claim_post_eff past_def\<close>)
  next
    case sleep
    then show ?thesis using x got by (intro client) (auto simp: claim_post_eff)
  qed (use v(2) got claimed_live [of d t regs s] in auto)
qed


section \<open>Awake clients\<close>

text \<open>A client that is awake has its reply or a dead door.\<close>

definition flag :: "gj_door \<Rightarrow> bool" where
  "flag p \<longleftrightarrow> dr_u32HasReply p \<noteq> 0 \<or> dr_u32PeerDead p \<noteq> 0"

definition wk :: "nat set \<Rightarrow> (nat \<Rightarrow> gj_door) \<Rightarrow> threads \<Rightarrow> (nat \<Rightarrow> door_pc) \<Rightarrow> bool" where
  "wk D ds ts pc \<longleftrightarrow> (\<forall>d \<in> D. \<forall>t < GJ_MAX_THREADS. is_client d (pc t) \<and> \<not> slp ts t d DOOR_TAG_CLIENT \<longrightarrow> flag (ds d))"

text \<open>A step is judged client by client.\<close>

lemma wkI:
  assumes "wk D ds ts pc"
    and "\<And>e i. e \<in> D \<Longrightarrow> i < GJ_MAX_THREADS \<Longrightarrow> is_client e (pc' i) \<Longrightarrow>
      flag (ds' e) \<or> slp ts' i e DOOR_TAG_CLIENT \<or> is_client e (pc i) \<and> (slp ts i e DOOR_TAG_CLIENT \<longrightarrow> slp ts' i e DOOR_TAG_CLIENT) \<and> (flag (ds e) \<longrightarrow> flag (ds' e))"
  shows "wk D ds' ts' pc'"
  unfolding wk_def
proof (intro ballI allI impI)
  fix e i assume e: "e \<in> D" "i < GJ_MAX_THREADS" "is_client e (pc' i) \<and> \<not> slp ts' i e DOOR_TAG_CLIENT"
  then show "flag (ds' e)" using assms(1) assms(2) [OF e(1,2)] unfolding wk_def by blast
qed

lemma slp_wks_keep:
  assumes "length ts = GJ_MAX_THREADS" "slp ts i e tg" "tg \<noteq> 0" "\<And>ob tag m. (ob, tag, m) \<in> set ws \<Longrightarrow> tag \<noteq> 0 \<and> (ob = Obj_Other e \<longrightarrow> tag \<noteq> tg)"
  shows "slp (wks ws ts) i e tg"
proof -
  have "\<not> wakes ob tag (ts ! i)" if "(ob, tag, m) \<in> set ws" for ob tag m
    using assms(2) assms(4) [OF that] by (auto simp: wakes_def slp_def)
  then have "wks ws ts ! i = ts ! i" using wks_entry [OF assms(1), of ws i] by blast
  then show ?thesis using assms(2) by (simp add: slp_def)
qed

lemma slp_spares: "length ts = GJ_MAX_THREADS \<Longrightarrow> spares d ws \<Longrightarrow> slp ts i e DOOR_TAG_CLIENT \<Longrightarrow> slp (wks ws ts) i e DOOR_TAG_CLIENT"
  by (rule slp_wks_keep) (auto simp: spares_def)

lemma slp_block_keep: "slp ts i e tag \<Longrightarrow> i \<noteq> t \<Longrightarrow> slp (thread_block (Some t) ob tg ts) i e tag"
  by (auto simp: slp_def thread_block_def)

lemma slp_block_self: "t < length ts \<Longrightarrow> slp (thread_block (Some t) (Obj_Other d) tag ts) t d tag"
  by (auto simp: slp_def thread_block_def)

text \<open>Thread \<open>t\<close>, no client before or after, works at door \<open>d\<close> and wakes no client unless it gives it a reason.\<close>

lemma wk_work:
  assumes "wk D ds ts pc" "length ts = GJ_MAX_THREADS" "length ts' = GJ_MAX_THREADS" "\<And>e. \<not> is_client e x" "\<And>i. i \<noteq> t \<Longrightarrow> ts' ! i = ts ! i" "flag (ds d) \<Longrightarrow> flag p"
    and "flag p \<and> (\<forall>(ob, tag, m) \<in> set ws. ob = Obj_Other d \<and> tag \<noteq> 0) \<or> spares d ws"
  shows "wk D (ds(d := p)) (wks ws ts') (pc(t := x))"
proof (rule wkI [OF assms(1)])
  fix e i assume e: "e \<in> D" "i < GJ_MAX_THREADS" "is_client e ((pc(t := x)) i)"
  then have i: "i \<noteq> t" "is_client e (pc i)" using assms(4) by (auto split: if_splits)
  have "flag ((ds(d := p)) e) \<or> (slp ts i e DOOR_TAG_CLIENT \<longrightarrow> slp (wks ws ts') i e DOOR_TAG_CLIENT)"
  proof (cases "spares d ws \<or> e \<noteq> d")
    case True
    have k: "slp ts' i e DOOR_TAG_CLIENT = slp ts i e DOOR_TAG_CLIENT" using assms(5) [OF i(1)] by (simp add: slp_def)
    have "slp (wks ws ts') i e DOOR_TAG_CLIENT" if "slp ts' i e DOOR_TAG_CLIENT"
      by (rule slp_wks_keep [OF assms(3) that]) (use True assms(7) in \<open>auto simp: spares_def\<close>)
    then show ?thesis using k by blast
  qed (use assms(7) in auto)
  then show "flag ((ds(d := p)) e) \<or> slp (wks ws ts') i e DOOR_TAG_CLIENT
    \<or> is_client e (pc i) \<and> (slp ts i e DOOR_TAG_CLIENT \<longrightarrow> slp (wks ws ts') i e DOOR_TAG_CLIENT) \<and> (flag (ds e) \<longrightarrow> flag ((ds(d := p)) e))"
    using i(2) assms(6) by auto
qed


lemma wk_same: "wk D ds ts pc \<Longrightarrow> length ts = GJ_MAX_THREADS \<Longrightarrow> length ts' = GJ_MAX_THREADS \<Longrightarrow> (\<And>e. \<not> is_client e x) \<Longrightarrow> (\<And>i. i \<noteq> t \<Longrightarrow> ts' ! i = ts ! i) \<Longrightarrow> wk D ds ts' (pc(t := x))"
  using wk_work [of D ds ts pc ts' x t 0 "ds 0" "[]"] by simp

lemma wk_recv:
  assumes "wk D (ds_doors s) (ds_threads s) pc" "length (ds_threads s) = GJ_MAX_THREADS" "recv_round d t s = (r, u)"
  shows "wk D (ds_doors u) (ds_threads u) (pc(t := (case r of Recv_Foreign \<Rightarrow> At_Foreign d | Recv_Wait \<Rightarrow> At_Recv d | _ \<Rightarrow> Out)))"
proof -
  let ?p = "ds_doors s d" let ?x = "case r of Recv_Foreign \<Rightarrow> At_Foreign d | Recv_Wait \<Rightarrow> At_Recv d | _ \<Rightarrow> Out"
  have x: "\<not> is_client e ?x" for e by (cases r) auto
  have l: "length (thread_block (Some t) (Obj_Other d) DOOR_TAG_SERVER (ds_threads s)) = GJ_MAX_THREADS" using assms(2) by (simp add: thread_block_def)
  have b: "thread_block (Some t) (Obj_Other d) DOOR_TAG_SERVER (ds_threads s) ! i = ds_threads s ! i" if "i \<noteq> t" for i using that by (simp add: thread_block_def)
  let ?ws = "if dr_u32HasReq ?p \<noteq> 0 then [(Obj_Other d, DOOR_TAG_SERVER, 1 :: u32)] else []"
  note w = wk_work [OF assms(1,2) _ x]
  show ?thesis
  proof (cases rule: recv_split [of s d t])
    case err
    then show ?thesis using w [of "ds_threads s" t d "if dr_pServer ?p = Some t then ?p\<lparr>dr_pServer := None\<rparr> else ?p" "[]"] assms(2,3)
      by (auto simp: door_stores flag_def split: if_splits)
  next
    case take
    then show ?thesis using w [of "ds_threads s" t d "?p\<lparr>dr_u32HasReq := 0, dr_pServer := Some t\<rparr>" "[]"] assms(2,3) by (auto simp: door_stores flag_def)
  next
    case (foreign v)
    then show ?thesis using w [OF l, of t d ?p ?ws] b assms(3) by (auto split: if_splits)
  next
    case (wait v)
    then show ?thesis using w [OF l, of t d "?p\<lparr>dr_pServer := Some t\<rparr>" ?ws] b assms(3) by (auto simp: flag_def split: if_splits)
  qed
qed

lemma wk_claim:
  assumes "ok D s pc" "d \<in> D" "t < GJ_MAX_THREADS" "wk D (ds_doors s) (ds_threads s) pc" "call_claim tm d t regs dl s = Some (r, u)"
  shows "wk D (ds_doors u) (ds_threads u) (pc(t := (case r of Call_Client \<Rightarrow> At_Client d regs dl | Call_Slot \<Rightarrow> At_Slot d regs dl | _ \<Rightarrow> Out)))"
proof -
  note o = okD [OF assms(1)]
  have l: "length (ds_threads s) = GJ_MAX_THREADS" using o by auto
  let ?w = "wks (post_wakes d (ds_doors s d)) (ds_threads s)"
  from assms(1,2,5) show ?thesis
  proof (cases rule: claim_cases)
    case (ret v p ws)
    then show ?thesis using wk_work [OF assms(4) l l, of Out t d p ws] by (simp add: alike_def flag_def)
  next
    case slot
    then show ?thesis using wk_same [OF assms(4) l, of "ds_threads u" "At_Slot d regs dl" t] l by (simp add: thread_block_def)
  next
    case client
    have "wk D ((ds_doors s)(d := claimed t regs (ds_doors s d))) (thread_block (Some t) (Obj_Other d) DOOR_TAG_CLIENT ?w) (pc(t := At_Client d regs dl))"
    proof (rule wkI [OF assms(4)])
      fix e i assume e: "e \<in> D" "i < GJ_MAX_THREADS" "is_client e ((pc(t := At_Client d regs dl)) i)"
      have s: "slp ?w i e DOOR_TAG_CLIENT" if "slp (ds_threads s) i e DOOR_TAG_CLIENT" using that by (intro slp_spares [OF l]) (auto simp: post_wakes_def)
      show "flag (((ds_doors s)(d := claimed t regs (ds_doors s d))) e) \<or> slp (thread_block (Some t) (Obj_Other d) DOOR_TAG_CLIENT ?w) i e DOOR_TAG_CLIENT
        \<or> is_client e (pc i) \<and> (slp (ds_threads s) i e DOOR_TAG_CLIENT \<longrightarrow> slp (thread_block (Some t) (Obj_Other d) DOOR_TAG_CLIENT ?w) i e DOOR_TAG_CLIENT)
          \<and> (flag (ds_doors s e) \<longrightarrow> flag (((ds_doors s)(d := claimed t regs (ds_doors s d))) e))"
      proof (cases "i = t")
        case True
        then show ?thesis using e slp_block_self [of t ?w d DOOR_TAG_CLIENT] l by simp
      next
        case False
        then have c: "is_client e (pc i)" using e(3) by simp
        then have "e \<noteq> d" using fl_client [of D "ds_doors s" "tab s" pc d i] o assms(2) e(2) client(2) by auto
        then show ?thesis using c slp_block_keep [OF s False] by simp
      qed
    qed
    then show ?thesis using client by simp
  qed
qed

lemma wk_round:
  assumes "ok D s0 pc" "pc t = At_Client d regs dl" "t < GJ_MAX_THREADS" "d \<in> D" "wk D (ds_doors s0) (ds_threads s0) pc"
    and "\<And>i. i \<noteq> t \<Longrightarrow> ds_threads s ! i = ds_threads s0 ! i" "length (ds_threads s) = GJ_MAX_THREADS" "ds_doors s = ds_doors s0"
    and "reply_round tm d t dl s = (r, u)"
  shows "wk D (ds_doors u) (ds_threads u) (pc(t := (case r of Call_Client \<Rightarrow> At_Client d regs dl | Call_Slot \<Rightarrow> At_Slot d regs dl | _ \<Rightarrow> Out)))"
proof -
  note o = okD [OF assms(1)]
  have c: "dr_pClient (ds_doors s d) = Some t" using fl_client [of D "ds_doors s0" "tab s0" pc d t] o assms(2-4,8) by simp
  have n: "e \<noteq> d" if "i \<noteq> t" "i < GJ_MAX_THREADS" "is_client e (pc i)" for e i
    using fl_client [of D "ds_doors s0" "tab s0" pc d i] o assms(4,8) c that by auto
  have sl: "slp (ds_threads s) i e DOOR_TAG_CLIENT = slp (ds_threads s0) i e DOOR_TAG_CLIENT" if "i \<noteq> t" for i e using assms(6) [OF that] by (simp add: slp_def)
  have fin: "wk D (ds_doors u) (ds_threads u) (pc(t := Out))" if en: "ends_call d t s u"
  proof -
    obtain p ws where e: "ds_doors u = (ds_doors s)(d := p)" "ds_threads u = wks ws (ds_threads s)" "set ws \<subseteq> {(Obj_Other d, DOOR_TAG_SLOT, 1), (Obj_Other d, DOOR_TAG_SERVER, 1)}"
      using en unfolding ends_call_def by blast
    have sp: "spares d ws" using e(3) by (auto simp: spares_def)
    show ?thesis
    proof (rule wkI [OF assms(5)])
      fix a i assume a: "a \<in> D" "i < GJ_MAX_THREADS" "is_client a ((pc(t := Out)) i)"
      then have i: "i \<noteq> t" "is_client a (pc i)" by (auto split: if_splits)
      have "a \<noteq> d" by (rule n [OF i(1) a(2) i(2)])
      then show "flag (ds_doors u a) \<or> slp (ds_threads u) i a DOOR_TAG_CLIENT \<or> is_client a (pc i) \<and> (slp (ds_threads s0) i a DOOR_TAG_CLIENT \<longrightarrow> slp (ds_threads u) i a DOOR_TAG_CLIENT)
          \<and> (flag (ds_doors s0 a) \<longrightarrow> flag (ds_doors u a))"
        using i(2) slp_spares [OF assms(7) sp, of i a] sl [OF i(1), of a] by (simp add: e(1,2) assms(8))
    qed
  qed
  from c show ?thesis
  proof (cases rule: round_split [where tm = tm and dl = dl])
    case sleep
    have u: "u = door_block t d DOOR_TAG_CLIENT s" "r = Call_Client" using sleep assms(9) by auto
    have "wk D (ds_doors u) (ds_threads u) (pc(t := At_Client d regs dl))"
    proof (rule wkI [OF assms(5)])
      fix a i assume a: "a \<in> D" "i < GJ_MAX_THREADS" "is_client a ((pc(t := At_Client d regs dl)) i)"
      show "flag (ds_doors u a) \<or> slp (ds_threads u) i a DOOR_TAG_CLIENT \<or> is_client a (pc i) \<and> (slp (ds_threads s0) i a DOOR_TAG_CLIENT \<longrightarrow> slp (ds_threads u) i a DOOR_TAG_CLIENT)
          \<and> (flag (ds_doors s0 a) \<longrightarrow> flag (ds_doors u a))"
        using a slp_block_self [of t "ds_threads s" d DOOR_TAG_CLIENT] slp_block_keep [of "ds_threads s" i a DOOR_TAG_CLIENT t] sl [of i a] assms(7)
        by (cases "i = t") (auto simp: u assms(8))
    qed
    then show ?thesis by (simp add: u)
  qed (use fin assms(9) in auto)
qed


lemma exit_wakes_mem:
  assumes "(ob, tag, m) \<in> set (exit_wakes d t p)"
  shows "ob = Obj_Other d \<and> tag \<noteq> 0 \<and> (tag = DOOR_TAG_CLIENT \<longrightarrow> dr_pClient p = Some t \<or> flag (exit_door t p))"
  using assms by (auto simp: exit_wakes_def exit_door_def flag_def split: if_splits)

lemma door_exit_wakes_mem:
  assumes "(ob, tag, m) \<in> set (door_exit_wakes t s)"
  shows "\<exists>d. (d = ds_cold s \<or> Some d \<in> set (tab s)) \<and> (ob, tag, m) \<in> set (exit_wakes d t (ds_doors s d))"
  using assms by (auto simp: door_exit_wakes_def walk_doors_set)

lemma wk_kill:
  assumes "ok D s pc" "t < GJ_MAX_THREADS" "wk D (ds_doors s) (ds_threads s) pc"
    and "ds_threads s1 = (ds_threads s)[t := exit_scrub (ds_threads s ! t)]" "ds_doors s1 = ds_doors s" "tab s1 = tab s" "ds_cold s1 = ds_cold s"
  shows "wk D (ds_doors (door_on_thread_exit (Some t) s1)) (ds_threads (door_on_thread_exit (Some t) s1)) (pc(t := Out))"
proof -
  note o = okD [OF assms(1)]
  let ?u = "door_on_thread_exit (Some t) s1" let ?W = "\<lambda>e. e = ds_cold s \<or> Some e \<in> set (tab s)"
  have len: "length (g_aReplySoft s1) = DOOR_REPLY_SOFT_SLOTS" using o assms(6) by (metis length_map tab_def tb_ok_def)
  note x = on_exit_eff [OF len, of t, unfolded assms(5-7)]
  have l: "length (ds_threads s1) = GJ_MAX_THREADS" using o assms(4) by auto
  show ?thesis
  proof (rule wkI [OF assms(3)])
    fix e i assume e: "e \<in> D" "i < GJ_MAX_THREADS" "is_client e ((pc(t := Out)) i)"
    then have i: "i \<noteq> t" "is_client e (pc i)" by (auto split: if_splits)
    have c: "dr_pClient (ds_doors s e) = Some i" using fl_client [of D "ds_doors s" "tab s" pc e i] o e(1,2) i(2) by simp
    have f: "flag (ds_doors ?u e)" if "flag (ds_doors s e)" using that c i(1) unfolding x(1) by (auto simp: exit_door_def flag_def)
    show "flag (ds_doors ?u e) \<or> slp (ds_threads ?u) i e DOOR_TAG_CLIENT \<or> is_client e (pc i) \<and> (slp (ds_threads s) i e DOOR_TAG_CLIENT \<longrightarrow> slp (ds_threads ?u) i e DOOR_TAG_CLIENT)
        \<and> (flag (ds_doors s e) \<longrightarrow> flag (ds_doors ?u e))"
    proof (cases "flag (ds_doors ?u e)")
      case False
      have "slp (ds_threads ?u) i e DOOR_TAG_CLIENT" if s: "slp (ds_threads s) i e DOOR_TAG_CLIENT" unfolding x(2)
      proof (rule slp_wks_keep [OF l])
        show "slp (ds_threads s1) i e DOOR_TAG_CLIENT" using s i(1) by (simp add: assms(4) slp_def)
        fix ob tag m assume "(ob, tag, m) \<in> set (door_exit_wakes t s1)"
        then obtain d where d: "?W d" "(ob, tag, m) \<in> set (exit_wakes d t (ds_doors s d))" using door_exit_wakes_mem [of ob tag m t s1] assms(5-7) by auto
        note w = exit_wakes_mem [OF d(2)]
        have "\<not> (d = e \<and> tag = DOOR_TAG_CLIENT)" using w c i(1) d(1) False x(1) [of e] assms(7) by auto
        then show "tag \<noteq> 0 \<and> (ob = Obj_Other e \<longrightarrow> tag \<noteq> DOOR_TAG_CLIENT)" using w by auto
      qed simp
      then show ?thesis using i(2) f by blast
    qed simp
  qed
qed

lemma wk_reply:
  assumes "wk D (ds_doors s) (ds_threads s) pc" "length (ds_threads s) = GJ_MAX_THREADS" "\<And>e. \<not> is_client e (pc t)"
  shows "wk D (ds_doors (door_reply (Some t) (Some d) v s)) (ds_threads (door_reply (Some t) (Some d) v s)) pc"
proof (cases rule: door_reply_split [of t d v s])
  case same
  then show ?thesis using assms(1) by simp
next
  case drop
  show ?thesis using wk_work [OF assms(1,2,2,3), of t d "(ds_doors s d)\<lparr>dr_pServer := None\<rparr>" "[(Obj_Other d, DOOR_TAG_SERVER, 1)]"] by (simp add: drop door_stores flag_def)
next
  case go
  show ?thesis using wk_work [OF assms(1,2,2,3), of t d "answered v (ds_doors s d)" "[(Obj_Other d, DOOR_TAG_CLIENT, 1), (Obj_Other d, DOOR_TAG_SERVER, 1)]"]
    by (simp add: go give_reply_eff flag_def answered_def)
qed

lemma wk_abort:
  assumes "wk D ds ts pc" "length ts = GJ_MAX_THREADS"
  shows "wk D (ds(d := aborted p)) (wks (abort_wakes d p) ts) pc"
proof (rule wkI [OF assms(1)])
  have f: "flag (aborted p)" by (simp add: aborted_def flag_def Let_def)
  fix e i assume e: "e \<in> D" "i < GJ_MAX_THREADS" "is_client e (pc i)"
  have "slp (wks (abort_wakes d p) ts) i e DOOR_TAG_CLIENT" if "slp ts i e DOOR_TAG_CLIENT" "e \<noteq> d"
    by (rule slp_wks_keep [OF assms(2) that(1)]) (use that(2) in \<open>auto simp: abort_wakes_def split: if_splits\<close>)
  then show "flag ((ds(d := aborted p)) e) \<or> slp (wks (abort_wakes d p) ts) i e DOOR_TAG_CLIENT
    \<or> is_client e (pc i) \<and> (slp ts i e DOOR_TAG_CLIENT \<longrightarrow> slp (wks (abort_wakes d p) ts) i e DOOR_TAG_CLIENT) \<and> (flag (ds e) \<longrightarrow> flag ((ds(d := aborted p)) e))"
    using e(3) f by (cases "e = d") auto
qed

definition wks_ok :: "nat set \<Rightarrow> door_sys \<Rightarrow> bool" where
  "wks_ok D s \<longleftrightarrow> wk D (ds_doors s) (ds_threads s) (dy_pc s)"

lemma wk_call:
  assumes "door_ok D s" "wks_ok D s" "door_act D (D_Call t d regs dl tm) s = Some u"
  shows "wks_ok D u"
proof -
  have o: "ok D s (dy_pc s)" using assms(1) by (simp add: door_ok_ok)
  have w: "wk D (ds_doors s) (ds_threads s) (dy_pc s)" using assms(2) by (simp add: wks_ok_def)
  have g: "t < GJ_MAX_THREADS" "dy_pc s t = Out" "d \<in> D" using assms(3) by (auto simp: door_act_def on_def split: if_splits)
  obtain r v where x: "door_call_timeout tm (Some t) (Some d) (Some regs) dl s = Some (r, v)" "u = after_call t d regs dl (r, v)" using assms(3) by (auto simp: door_act_def split: if_splits)
  have "wk D (ds_doors v) (ds_threads v) ((dy_pc s)(t := (case r of Call_Client \<Rightarrow> At_Client d regs dl | Call_Slot \<Rightarrow> At_Slot d regs dl | _ \<Rightarrow> Out))) \<and> dy_pc v = dy_pc s"
  proof (cases "dr_u32Ready (ds_doors s d) = 0 \<or> \<not> door_live s (Some d)")
    case True
    then have "v = s \<and> (\<exists>c. r = Call_Ret c)" using x(1) by (auto simp: door_call_timeout_def split: if_splits)
    then show ?thesis using w g(2) by (auto simp: fun_upd_idem)
  next
    case False
    then have c: "call_claim tm d t regs dl s = Some (r, v)" using x(1) by (simp add: door_call_timeout_def)
    show ?thesis using wk_claim [OF o g(3,1) w c] rest_dy(1) [OF claim_rest [OF o g(3) c]] by simp
  qed
  then show ?thesis unfolding x(2) wks_ok_def after_call_dy by simp
qed

lemma wk_resume:
  assumes "door_ok D s" "wks_ok D s" "door_act D (D_Resume t tm) s = Some u"
  shows "wks_ok D u"
proof -
  have o: "ok D s (dy_pc s)" using assms(1) by (simp add: door_ok_ok)
  have w: "wk D (ds_doors s) (ds_threads s) (dy_pc s)" using assms(2) by (simp add: wks_ok_def)
  have g: "on t (ds_threads s)" "t < GJ_MAX_THREADS" and x: "resume t tm s = Some u" using assms(3) by (auto simp: door_act_def on_def split: if_splits)
  have dd: "case pc_at (dy_pc s t) of None \<Rightarrow> True | Some (d, tag) \<Rightarrow> d \<in> D" using o g(2) by (auto simp: ok_def pk_def pk1_def split: option.splits)
  have l: "length (ds_threads s) = GJ_MAX_THREADS" "length (ds_threads (awake t s)) = GJ_MAX_THREADS" using okD [OF o] by (auto simp: awake_def)
  have aw: "dy_pc (awake t s) = dy_pc s" "ds_doors (awake t s) = ds_doors s" by (simp_all add: awake_def upd_thread_def)
  have wa: "wk D (ds_doors (awake t s)) (ds_threads (awake t s)) ((dy_pc s)(t := Out))" unfolding aw by (rule wk_same [OF w l]) (simp_all add: awake_def)
  note b = ok_back [OF o g(1)]
  show ?thesis
  proof (cases "dy_pc s t")
    case (At_Slot d regs dl)
    obtain r v where c: "call_claim tm d t regs dl (awake t s) = Some (r, v)" "u = after_call t d regs dl (r, v)" using x At_Slot by (auto simp: resume_def awake_def Let_def)
    have d: "d \<in> D" and k: "ok D (awake t s) ((dy_pc s)(t := Out))" using b dd At_Slot by auto
    show ?thesis using wk_claim [OF k d g(2) wa c(1)] rest_dy(1) [OF claim_rest [OF k d c(1)]] aw(1) unfolding c(2) wks_ok_def after_call_dy by simp
  next
    case (At_Client d regs dl)
    obtain r v where c: "reply_round (tm 0) d t dl (awake t s) = (r, v)" by fastforce
    have u: "u = after_call t d regs dl (r, v)" using x At_Client c by (simp add: resume_def awake_def Let_def)
    have d: "d \<in> D" using dd At_Client by simp
    have "dy_pc v = dy_pc s" using rest_dy(1) [of v "awake t s"] round_rest [of "tm 0" d t dl "awake t s"] c aw by simp
    then show ?thesis using wk_round [OF o At_Client g(2) d w _ l(2) aw(2) c] unfolding u wks_ok_def after_call_dy by (simp add: awake_def)
  next
    case (At_Recv d)
    let ?v = "recv_unmark d t (awake t s)"
    obtain r v where c: "recv_round d t ?v = (r, v)" by fastforce
    have u: "u = after_recv t d (r, v)" using x At_Recv c by (simp add: resume_def awake_def Let_def)
    have f: "ds_doors ?v = (ds_doors (awake t s))(d := ds_doors ?v d)" "flag (ds_doors (awake t s) d) \<Longrightarrow> flag (ds_doors ?v d)" by (auto simp: recv_unmark_def flag_def)
    have "wk D ((ds_doors (awake t s))(d := ds_doors ?v d)) (wks [] (ds_threads (awake t s))) ((dy_pc s)(t := Out, t := Out))"
      by (rule wk_work [OF wa l(2) l(2)]) (use f(2) in auto)
    then have "wk D (ds_doors ?v) (ds_threads ?v) ((dy_pc s)(t := Out))" using f(1) by simp
    moreover have "dy_pc v = dy_pc s" using rest_dy(1) [of v ?v] rest_dy(1) [of ?v "awake t s"] recv_rest [of d t ?v] c aw by simp
    ultimately show ?thesis using wk_recv [OF _ _ c] l(2) unfolding u wks_ok_def after_recv_dy by fastforce
  next
    case (At_Foreign d)
    obtain r v where c: "recv_round d t (awake t s) = (r, v)" by fastforce
    have u: "u = after_recv t d (r, v)" using x At_Foreign c by (simp add: resume_def awake_def Let_def)
    have "dy_pc v = dy_pc s" using rest_dy(1) [of v "awake t s"] recv_rest [of d t "awake t s"] c aw by simp
    then show ?thesis using wk_recv [OF wa l(2) c] unfolding u wks_ok_def after_recv_dy by simp
  qed (use x in \<open>simp add: resume_def Let_def\<close>)
qed


lemma wk_recv_act:
  assumes "door_ok D s" "wks_ok D s" "door_act D (D_Recv t d) s = Some u"
  shows "wks_ok D u"
proof -
  have w: "wk D (ds_doors s) (ds_threads s) (dy_pc s)" "length (ds_threads s) = GJ_MAX_THREADS" using assms(1,2) by (auto simp: wks_ok_def door_ok_def)
  have g: "dy_pc s t = Out" using assms(3) by (auto simp: door_act_def split: if_splits)
  obtain r v where rv: "door_recv (Some t) (Some d) True s = (r, v)" by fastforce
  then have u: "u = after_recv t d (r, v)" using assms(3) by (simp add: door_act_def split: if_splits)
  have "wk D (ds_doors v) (ds_threads v) ((dy_pc s)(t := (case r of Recv_Foreign \<Rightarrow> At_Foreign d | Recv_Wait \<Rightarrow> At_Recv d | _ \<Rightarrow> Out))) \<and> dy_pc v = dy_pc s"
  proof (cases "dr_u32Ready (ds_doors s d) = 0 \<or> \<not> door_live s (Some d)")
    case True
    then have "v = s \<and> (\<exists>c. r = Recv_Err c)" using rv by (auto simp: door_recv_def split: if_splits)
    then show ?thesis using w g by (auto simp: fun_upd_idem)
  next
    case False
    then have c: "recv_round d t s = (r, v)" using rv by (simp add: door_recv_def)
    show ?thesis using wk_recv [OF w c] rest_dy(1) [of v s] recv_rest [of d t s] c by simp
  qed
  then show ?thesis unfolding u wks_ok_def after_recv_dy by simp
qed

lemma wk_kill_act:
  assumes "door_ok D s" "wks_ok D s" "door_act D (D_Kill t) s = Some u"
  shows "wks_ok D u"
proof -
  have o: "ok D s (dy_pc s)" using assms(1) by (simp add: door_ok_ok)
  let ?s1 = "upd_thread t exit_scrub s" let ?v = "door_on_thread_exit (Some t) ?s1"
  have t: "t < GJ_MAX_THREADS" "u = set_dpc t Out (?v\<lparr>dy_held := (dy_held ?v)(t := \<lambda>_. None), dy_died := True\<rparr>)" using assms(3) by (auto simp: door_act_def Let_def split: if_splits)
  have len: "length (g_aReplySoft ?s1) = DOOR_REPLY_SOFT_SLOTS" using okD [OF o] by (simp add: tb_ok_def tab_def upd_thread_def)
  have "wk D (ds_doors ?v) (ds_threads ?v) ((dy_pc s)(t := Out))" by (rule wk_kill [OF o t(1)]) (use assms(2) in \<open>simp_all add: wks_ok_def\<close>)
  moreover have "dy_pc ?v = dy_pc s" using rest_dy(1) [of ?v s] on_exit_eff(4) [OF len, of t] by simp
  ultimately show ?thesis unfolding t(2) wks_ok_def by (simp add: set_dpc_def)
qed

lemma wk_init_act:
  assumes "door_ok D s" "wks_ok D s" "unused_door d s"
  shows "wks_ok D (door_init (Some d) s)"
proof -
  note i = init_eff [of D s d]
  have tb: "tb_ok D (tab s)" using assms(1) by (simp add: door_ok_def)
  have n: "e \<noteq> d" if "t < GJ_MAX_THREADS" "is_client e (dy_pc s t)" for e t using assms(3) that unfolding unused_door_def by (cases "dy_pc s t") (auto simp: at_door_def)
  have w: "wk D (ds_doors s) (ds_threads s) (dy_pc s)" using assms(2) by (simp add: wks_ok_def)
  have "wk D ((ds_doors s)(d := no_door\<lparr>dr_u32Ready := 1\<rparr>)) (ds_threads s) (dy_pc s)" by (rule wkI [OF w]) (use n in auto)
  then show ?thesis using i(1,2) [OF tb] more_dy(1) [OF i(3) [OF tb]] by (simp add: wks_ok_def)
qed

lemma wk_set:
  assumes "door_ok D s" "wks_ok D s" "dy_pc s t = Out" "length ts = GJ_MAX_THREADS" "\<And>i. i \<noteq> t \<Longrightarrow> ts ! i = ds_threads s ! i"
  shows "wks_ok D (s\<lparr>ds_threads := ts\<rparr>)"
proof -
  have "wk D (ds_doors s) ts ((dy_pc s)(t := Out))" by (rule wk_same [of D _ "ds_threads s"]) (use assms in \<open>auto simp: wks_ok_def door_ok_def\<close>)
  then show ?thesis using assms(3) by (simp add: wks_ok_def fun_upd_idem)
qed

lemma wk_keeps:
  assumes "door_ok D s" "wks_ok D s" "door_act D a s = Some u"
  shows "wks_ok D u"
proof (cases a)
  case (D_Reply t d v)
  have g: "dy_pc s t = Out" "u = set_held t d None (door_reply (Some t) (Some d) v s)" using assms(3) D_Reply by (auto simp: door_act_def split: if_splits)
  have "wk D (ds_doors (door_reply (Some t) (Some d) v s)) (ds_threads (door_reply (Some t) (Some d) v s)) (dy_pc s)"
    by (rule wk_reply) (use assms(1,2) g(1) in \<open>auto simp: wks_ok_def door_ok_def\<close>)
  then show ?thesis unfolding g(2) wks_ok_def using rest_dy(1) [OF reply_rest, of t d v s] by (simp add: set_held_def)
next
  case (D_Start t i)
  then have g: "t < GJ_MAX_THREADS" "th_u32State (ds_threads s ! t) = GJ_THR_UNUSED \<or> th_u32State (ds_threads s ! t) = GJ_THR_EXITED"
    "u = upd_thread t (\<lambda>_. no_thread\<lparr>th_u32Id := i, th_u32State := GJ_THR_RUNNABLE\<rparr>) s" using assms(3) by (auto simp: door_act_def split: if_splits)
  have "dy_pc s t = Out" using pk_alive [of D "ds_threads s" "dy_pc s" t] assms(1) g(1,2) by (auto simp: door_ok_def)
  then show ?thesis unfolding g(3) upd_thread_def by (rule wk_set [OF assms(1,2)]) (use assms(1) in \<open>auto simp: door_ok_def\<close>)
next
  case (D_Badge d b)
  have "wk D ((ds_doors s)(d := (ds_doors s d)\<lparr>dr_u32Badge := b\<rparr>)) (ds_threads s) (dy_pc s)"
    by (rule wkI [of D "ds_doors s" "ds_threads s" "dy_pc s"]) (use assms(2) in \<open>auto simp: wks_ok_def flag_def\<close>)
  then show ?thesis using assms(3) D_Badge by (auto simp: door_act_def wks_ok_def door_set_badge_def upd_door_def)
next
  case (D_Ready t)
  then have g: "dy_pc s t = Out" "u = upd_thread t woken s" using assms(3) by (auto simp: door_act_def split: if_splits)
  show ?thesis unfolding g(2) upd_thread_def using g(1) by (rule wk_set [OF assms(1,2)]) (use assms(1) in \<open>auto simp: door_ok_def\<close>)
next
  case (D_Sleep t ob tag)
  then have g: "dy_pc s t = Out" "u = s\<lparr>ds_threads := thread_block (Some t) ob tag (ds_threads s)\<rparr>"
    using assms(3) unfolding door_act_def by (simp_all split: if_splits)
  show ?thesis unfolding g(2) using g(1) by (rule wk_set [OF assms(1,2)]) (use assms(1) in \<open>auto simp: door_ok_def thread_block_def\<close>)
next
  case (D_Call t d regs dl tm)
  then show ?thesis using wk_call [OF assms(1,2)] assms(3) by simp
next
  case (D_Recv t d)
  then show ?thesis using wk_recv_act [OF assms(1,2)] assms(3) by simp
next
  case (D_Resume t tm)
  then show ?thesis using wk_resume [OF assms(1,2)] assms(3) by simp
next
  case (D_Kill t)
  then show ?thesis using wk_kill_act [OF assms(1,2)] assms(3) by simp
next
  case (D_Abort d)
  have "wks_ok D (door_abort_waiters (Some d) s)" using wk_abort [of D "ds_doors s" "ds_threads s" "dy_pc s" d] assms(1,2) rest_dy(1) [OF abort_eff(4), of d s]
    by (auto simp: wks_ok_def abort_eff door_ok_def)
  then show ?thesis using assms(3) D_Abort by (auto simp: door_act_def wks_ok_def split: if_splits)
next
  case (D_MarkDead d)
  have "wks_ok D (door_mark_dead (Some d) s)"
    using wk_abort [of D "ds_doors s" "ds_threads s" "dy_pc s" d] assms(1,2) more_dy(1) [of "door_mark_dead (Some d) s" s] rest_more [OF abort_eff(4), of d "mark_prep d s"] mark_prep_eff(4) [of d s]
    by (auto simp: wks_ok_def abort_eff mark_prep_eff mark_dead_alt door_ok_def)
  then show ?thesis using assms(3) D_MarkDead by (auto simp: door_act_def wks_ok_def split: if_splits)
next
  case (D_Init d)
  then show ?thesis using wk_init_act [OF assms(1,2)] assms(3) by (auto simp: door_act_def split: if_splits)
qed

end
