(* ===== verification/Door_Own.thy ===== *)
theory Door_Own
  imports Door_Wake
begin

text \<open>
  Who gets which reply: if the servers answer a request \<open>r\<close> of door \<open>d\<close> with \<open>srv d r\<close> and no client is ended that is being
  served, every call gets the answer to its own request.
\<close>

section \<open>Invariant\<close>

text \<open>The request of the call in flight.\<close>

definition req_of :: "(nat \<Rightarrow> door_pc) \<Rightarrow> gj_door \<Rightarrow> gj_linux_regs option" where
  "req_of pc p = (case dr_pClient p of None \<Rightarrow> None | Some t \<Rightarrow> (case pc t of At_Client _ r _ \<Rightarrow> Some r | _ \<Rightarrow> None))"

text \<open>A request the door offers and a request somebody holds are those of the call in flight, and so is the reply.\<close>

definition hl_call :: "(gj_linux_regs \<Rightarrow> i64) \<Rightarrow> bool \<Rightarrow> gj_door \<Rightarrow> gj_linux_regs \<Rightarrow> (nat \<Rightarrow> gj_linux_regs option) \<Rightarrow> bool" where
  "hl_call f died p r h \<longleftrightarrow> (\<forall>u < GJ_MAX_THREADS. h u = None \<or> h u = Some r) \<and> (dr_u32HasReq p \<noteq> 0 \<longrightarrow> dr_req p = r)
     \<and> (dr_u32HasReply p \<noteq> 0 \<longrightarrow> dr_i64Reply p = f r \<or> died \<and> dr_i64Reply p = minus_EIO)"

text \<open>As long as the door is not dead its server is the only holder, and there is none before the request is taken and after the
  reply.\<close>

definition hl_live :: "gj_door \<Rightarrow> (nat \<Rightarrow> gj_linux_regs option) \<Rightarrow> bool" where
  "hl_live p h \<longleftrightarrow> (\<forall>u < GJ_MAX_THREADS. h u \<noteq> None \<longrightarrow> dr_pServer p = Some u \<and> dr_pClient p \<noteq> None \<and> dr_u32HasReq p = 0 \<and> dr_u32HasReply p = 0)
     \<and> (dr_u32HasReply p \<noteq> 0 \<longrightarrow> dr_u32HasReq p = 0)"

definition hl :: "(gj_linux_regs \<Rightarrow> i64) \<Rightarrow> bool \<Rightarrow> gj_door \<Rightarrow> gj_linux_regs option \<Rightarrow> (nat \<Rightarrow> gj_linux_regs option) \<Rightarrow> bool" where
  "hl f died p q h \<longleftrightarrow> (\<forall>r. q = Some r \<longrightarrow> hl_call f died p r h) \<and> (dr_u32PeerDead p = 0 \<longrightarrow> hl_live p h)"

definition live_ok :: "door_sys \<Rightarrow> nat \<Rightarrow> bool" where
  "live_ok s d \<longleftrightarrow> door_live s (Some d) \<or> dr_u32PeerDead (ds_doors s d) \<noteq> 0 \<and> dy_died s"

definition result_ok :: "(nat \<Rightarrow> gj_linux_regs \<Rightarrow> i64) \<Rightarrow> bool \<Rightarrow> nat \<times> gj_linux_regs \<times> u64 \<times> i64 \<Rightarrow> bool" where
  "result_ok srv died = (\<lambda>(d, r, dl, v). v = srv d r \<or> v = minus_ETIMEDOUT \<and> dl \<noteq> 0 \<or> died \<and> (v = minus_EIO \<or> v = minus_ENOSYS))"

definition hls :: "(nat \<Rightarrow> gj_linux_regs \<Rightarrow> i64) \<Rightarrow> nat set \<Rightarrow> bool \<Rightarrow> (nat \<Rightarrow> gj_door) \<Rightarrow> (nat \<Rightarrow> door_pc) \<Rightarrow> (nat \<Rightarrow> nat \<Rightarrow> gj_linux_regs option) \<Rightarrow> bool" where
  "hls srv D died ds pc held \<longleftrightarrow> (\<forall>d \<in> D. hl (srv d) died (ds d) (req_of pc (ds d)) (\<lambda>u. held u d))"

definition own :: "(nat \<Rightarrow> gj_linux_regs \<Rightarrow> i64) \<Rightarrow> nat set \<Rightarrow> door_sys \<Rightarrow> bool" where
  "own srv D s \<longleftrightarrow> hls srv D (dy_died s) (ds_doors s) (dy_pc s) (dy_held s) \<and> (\<forall>d \<in> D. live_ok s d) \<and> (\<forall>x \<in> set (dy_log s). result_ok srv (dy_died s) x)"

text \<open>What the threads may do: a server answers what it took, and no client is ended that is being served.\<close>

definition proper :: "(nat \<Rightarrow> gj_linux_regs \<Rightarrow> i64) \<Rightarrow> door_action \<Rightarrow> door_sys \<Rightarrow> bool" where
  "proper srv a s = (case a of
      D_Reply t d v \<Rightarrow> (case dy_held s t d of None \<Rightarrow> False | Some r \<Rightarrow> v = srv d r)
    | D_Kill t \<Rightarrow> (case dy_pc s t of At_Client d _ _ \<Rightarrow> \<forall>u < GJ_MAX_THREADS. dy_held s u d = None | _ \<Rightarrow> True)
    | _ \<Rightarrow> True)"

definition proper_step :: "(nat \<Rightarrow> gj_linux_regs \<Rightarrow> i64) \<Rightarrow> nat set \<Rightarrow> door_sys \<Rightarrow> door_sys \<Rightarrow> bool" where
  "proper_step srv D s u \<longleftrightarrow> (\<exists>a. proper srv a s \<and> door_act D a s = Some u)"

section \<open>One door\<close>

lemma hl_alike: "hl f died p q h \<Longrightarrow> alike p p' \<Longrightarrow> hl f died p' q h"
  by (auto simp: hl_def hl_call_def hl_live_def alike_def)

lemma hl_died: "hl f died p q h \<Longrightarrow> hl f True p q h"
  by (auto simp: hl_def hl_call_def)

text \<open>What a holder means.\<close>

lemma hl_holder: "hl f died p q h \<Longrightarrow> u < GJ_MAX_THREADS \<Longrightarrow> h u = Some r \<Longrightarrow> q = Some r' \<Longrightarrow> r' = r"
  unfolding hl_def hl_call_def by (metis option.distinct(1) option.inject)

lemma hl_server: "hl f died p q h \<Longrightarrow> dr_u32PeerDead p = 0 \<Longrightarrow> u < GJ_MAX_THREADS \<Longrightarrow> h u \<noteq> None
  \<Longrightarrow> dr_pServer p = Some u \<and> dr_pClient p \<noteq> None \<and> dr_u32HasReq p = 0 \<and> dr_u32HasReply p = 0"
  unfolding hl_def hl_live_def by blast

lemma hl_other: "hl f died p q h \<Longrightarrow> dr_u32PeerDead p = 0 \<Longrightarrow> u < GJ_MAX_THREADS \<Longrightarrow> dr_pServer p \<noteq> Some u \<Longrightarrow> h u = None"
  unfolding hl_def hl_live_def by blast

lemma hl_call_drop: "hl_call f died p r h \<Longrightarrow> (\<And>u. h' u = None \<or> h' u = h u) \<Longrightarrow> hl_call f died p r h'"
  unfolding hl_call_def by metis

lemma hl_live_drop: "hl_live p h \<Longrightarrow> (\<And>u. h' u = None \<or> h' u = h u) \<Longrightarrow> hl_live p h'"
  unfolding hl_live_def by metis

lemma hl_drop: "hl f died p q h \<Longrightarrow> (\<And>u. h' u = None \<or> h' u = h u) \<Longrightarrow> hl f died p q h'"
  unfolding hl_def using hl_call_drop [where h = h and h' = h'] hl_live_drop [where h = h and h' = h'] by presburger

text \<open>A door without a call and without holders.\<close>

lemma hl_idle: "dr_pClient p = None \<Longrightarrow> dr_u32HasReply p = 0 \<Longrightarrow> (\<And>u. u < GJ_MAX_THREADS \<Longrightarrow> dr_u32PeerDead p = 0 \<Longrightarrow> h u = None) \<Longrightarrow> hl f died p (req_of pc p) h"
  by (auto simp: hl_def hl_live_def req_of_def)

lemma hl_free: "hl f died p q h \<Longrightarrow> dr_u32PeerDead p = 0 \<Longrightarrow> dr_pClient p = None \<or> dr_u32HasReq p \<noteq> 0 \<or> dr_u32HasReply p \<noteq> 0 \<Longrightarrow> u < GJ_MAX_THREADS \<Longrightarrow> h u = None"
  unfolding hl_def hl_live_def by metis

text \<open>A request is posted, taken and answered.\<close>

lemma hl_posted:
  assumes "hl f died p q h" "dr_u32PeerDead p = 0" "dr_pClient p = None" "pc t = At_Client d regs dl"
  shows "hl f died (claimed t regs p) (req_of pc (claimed t regs p)) h"
  using hl_free [OF assms(1,2)] assms(3,4) by (auto simp: hl_def hl_call_def hl_live_def claimed_def req_of_def)

lemma hl_taken:
  assumes "hl f died p q h" "dr_u32PeerDead p = 0" "dr_u32HasReq p \<noteq> 0" "dr_pClient p \<noteq> None"
  shows "hl f died (p\<lparr>dr_u32HasReq := 0, dr_pServer := Some t\<rparr>) q (h(t := Some (dr_req p)))"
proof -
  have n: "h u = None" if "u < GJ_MAX_THREADS" for u using hl_free [OF assms(1,2) _ that] assms(3) by blast
  have r: "dr_u32HasReply p = 0" using assms(1-3) unfolding hl_def hl_live_def by blast
  have "dr_req p = r" if "q = Some r" for r using assms(1,3) that unfolding hl_def hl_call_def by blast
  then show ?thesis using n r assms(4) by (auto simp: hl_def hl_call_def hl_live_def)
qed

lemma hl_answered:
  assumes "hl f died p q h" "h t = Some r" "v = f r" "t < GJ_MAX_THREADS"
  shows "hl f died (answered v p) q (h(t := None))"
proof -
  have q: "r' = r" if "q = Some r'" for r' using hl_holder [OF assms(1,4,2) that] .
  have n: "dr_u32HasReq p = 0 \<and> (\<forall>u < GJ_MAX_THREADS. u \<noteq> t \<longrightarrow> h u = None)" if "dr_u32PeerDead p = 0"
  proof -
    have t: "dr_pServer p = Some t" "dr_u32HasReq p = 0" using hl_server [OF assms(1) that assms(4)] assms(2) by auto
    have "h u = None" if "u < GJ_MAX_THREADS" "u \<noteq> t" for u using hl_other [OF assms(1) \<open>dr_u32PeerDead p = 0\<close> that(1)] t(1) that(2) by simp
    then show ?thesis using t(2) by blast
  qed
  show ?thesis unfolding hl_def
  proof (intro conjI allI impI)
    fix r' assume r': "q = Some r'"
    then have "hl_call f died p r' h" using assms(1) unfolding hl_def by blast
    then show "hl_call f died (answered v p) r' (h(t := None))" using q [OF r'] assms(3) by (auto simp: hl_call_def answered_def)
  next
    assume "dr_u32PeerDead (answered v p) = 0"
    then have "dr_u32PeerDead p = 0" by (simp add: answered_def)
    from n [OF this] show "hl_live (answered v p) (h(t := None))" by (auto simp: hl_live_def answered_def)
  qed
qed

text \<open>The server's mark moves only when nobody holds a request, or to the holder.\<close>

lemma hl_mark:
  assumes "hl f died p q h" "dr_pServer p = None \<or> dr_pServer p = Some t \<or> dr_pClient p = None"
  shows "hl f died (p\<lparr>dr_pServer := Some t\<rparr>) q h"
  using assms unfolding hl_def hl_call_def hl_live_def by auto

lemma hl_unmark:
  assumes "hl f died p q h" "dr_pClient p = None \<or> dr_u32PeerDead p \<noteq> 0"
  shows "hl f died (p\<lparr>dr_pServer := None\<rparr>) q h"
  using assms unfolding hl_def hl_call_def hl_live_def by auto

lemma hl_aborted:
  assumes "hl f died p q h"
  shows "hl f True (aborted p) q h"
  using assms unfolding hl_def hl_call_def by (auto simp: aborted_def Let_def)

lemma hl_exit:
  assumes "hl f died p q h" "h' = h(t := None)" "t < GJ_MAX_THREADS" "dr_pClient p \<noteq> Some t"
  shows "hl f True (exit_door t p) q h'"
proof (cases "dr_pServer p = Some t")
  case True
  have n: "h' u = None" if "u < GJ_MAX_THREADS" "dr_u32PeerDead p = 0" for u using hl_other [OF assms(1) that(2,1)] assms(2) True by (cases "u = t") simp_all
  show ?thesis unfolding hl_def
  proof (intro conjI allI impI)
    fix r assume "q = Some r"
    then have "hl_call f died p r h" using assms(1) unfolding hl_def by blast
    then show "hl_call f True (exit_door t p) r h'" using assms(2,4) True by (auto simp: hl_call_def exit_door_def)
  next
    assume "dr_u32PeerDead (exit_door t p) = 0"
    then have d: "dr_u32PeerDead p = 0" by (auto simp: exit_door_def split: if_splits)
    then have "dr_u32HasReply p \<noteq> 0 \<longrightarrow> dr_u32HasReq p = 0" using assms(1) unfolding hl_def hl_live_def by blast
    then show "hl_live (exit_door t p) h'" using n [OF _ d] assms(4) True by (auto simp: hl_live_def exit_door_def)
  qed
next
  case False
  then have "exit_door t p = p" using assms(4) by (simp add: exit_door_def)
  then show ?thesis using hl_died [OF hl_drop [OF assms(1), of h']] assms(2) by simp
qed


section \<open>Pieces\<close>

lemma req_of_other: "dr_pClient p \<noteq> Some t \<Longrightarrow> req_of (pc(t := x)) p = req_of pc p"
  by (auto simp: req_of_def split: option.split)

lemma req_of_cong: "dr_pClient p' = dr_pClient p \<Longrightarrow> req_of pc p' = req_of pc p"
  by (simp add: req_of_def)

lemma fl_not_client: "fl D ds tb pc \<Longrightarrow> d \<in> D \<Longrightarrow> \<not> is_client d (pc t) \<Longrightarrow> dr_pClient (ds d) \<noteq> Some t"
  using fl_client by blast

text \<open>Thread \<open>t\<close> works at one door.\<close>

lemma hls_upd:
  assumes "hls srv D died ds pc held" "fl D ds tb pc" "\<And>e. e \<in> D \<Longrightarrow> e \<noteq> d \<Longrightarrow> \<not> is_client e (pc t)" "\<And>u e. e \<noteq> d \<Longrightarrow> held' u e = held u e"
    and "d \<in> D \<Longrightarrow> hl (srv d) died (ds d) (req_of pc (ds d)) (\<lambda>u. held u d) \<Longrightarrow> hl (srv d) died p (req_of (pc(t := x)) p) (\<lambda>u. held' u d)"
  shows "hls srv D died (ds(d := p)) (pc(t := x)) held'"
  unfolding hls_def
proof
  fix e assume e: "e \<in> D"
  have h: "hl (srv e) died (ds e) (req_of pc (ds e)) (\<lambda>u. held u e)" using assms(1) e by (simp add: hls_def)
  show "hl (srv e) died ((ds(d := p)) e) (req_of (pc(t := x)) ((ds(d := p)) e)) (\<lambda>u. held' u e)"
  proof (cases "e = d")
    case True
    then show ?thesis using assms(5) h e by simp
  next
    case False
    then have "req_of (pc(t := x)) (ds e) = req_of pc (ds e)" using req_of_other fl_not_client [OF assms(2) e assms(3) [OF e False]] by simp
    then show ?thesis using False h assms(4) [OF False] by simp
  qed
qed

text \<open>A thread that is no client and does not become one.\<close>

lemma hls_work:
  assumes "hls srv D died ds pc held" "fl D ds tb pc" "\<And>e. \<not> is_client e (pc t)" "\<And>u e. e \<noteq> d \<Longrightarrow> held' u e = held u e" "dr_pClient p = dr_pClient (ds d)"
    and "d \<in> D \<Longrightarrow> hl (srv d) died (ds d) (req_of pc (ds d)) (\<lambda>u. held u d) \<Longrightarrow> hl (srv d) died p (req_of pc (ds d)) (\<lambda>u. held' u d)"
  shows "hls srv D died (ds(d := p)) (pc(t := x)) held'"
proof (rule hls_upd [OF assms(1,2) assms(3) assms(4)])
  assume d: "d \<in> D" "hl (srv d) died (ds d) (req_of pc (ds d)) (\<lambda>u. held u d)"
  have "req_of (pc(t := x)) p = req_of pc (ds d)" using req_of_other [of p t pc x] fl_not_client [OF assms(2) d(1) assms(3)] assms(5) req_of_cong [OF assms(5)] by simp
  then show "hl (srv d) died p (req_of (pc(t := x)) p) (\<lambda>u. held' u d)" using assms(6) [OF d] by simp
qed

definition held_after :: "nat \<Rightarrow> nat \<Rightarrow> recv_out \<Rightarrow> (nat \<Rightarrow> nat \<Rightarrow> gj_linux_regs option) \<Rightarrow> nat \<Rightarrow> nat \<Rightarrow> gj_linux_regs option" where
  "held_after t d r held = (case r of Recv_Ok x \<Rightarrow> held(t := (held t)(d := Some x)) | _ \<Rightarrow> held)"

text \<open>Liveness is only in these fields and the header.\<close>

definition same_life :: "gj_door \<Rightarrow> gj_door \<Rightarrow> bool" where
  "same_life p q \<longleftrightarrow> dr_u32Ready q = dr_u32Ready p \<and> dr_u32PeerDead q = dr_u32PeerDead p"

lemma live_peer: "door_live s (Some d) \<Longrightarrow> dr_u32PeerDead (ds_doors s d) = 0"
  by (auto simp: door_live_def split: if_splits)

lemma own_recv:
  assumes "hls srv D died (ds_doors s) pc held" "ok D s pc" "d \<in> D" "t < GJ_MAX_THREADS" "\<And>e. \<not> is_client e (pc t)"
    and "door_live s (Some d) \<or> dr_u32PeerDead (ds_doors s d) \<noteq> 0" "recv_round d t s = (r, u)"
  shows "hls srv D died (ds_doors u) (pc(t := x)) (held_after t d r held) \<and> (\<forall>e. same_life (ds_doors s e) (ds_doors u e))"
proof -
  let ?p = "ds_doors s d"
  have f: "fl D (ds_doors s) (tab s) pc" using assms(2) by (simp add: ok_def)
  note w = hls_work [OF assms(1) f assms(5)]
  show ?thesis
  proof (cases rule: recv_split [of s d t])
    case err
    have "ds_doors u = (ds_doors s)(d := if dr_pServer ?p = Some t then ?p\<lparr>dr_pServer := None\<rparr> else ?p)" "held_after t d r held = held"
      using err assms(7) by (auto simp: door_stores held_after_def split: if_splits)
    moreover have "hls srv D died ((ds_doors s)(d := if dr_pServer ?p = Some t then ?p\<lparr>dr_pServer := None\<rparr> else ?p)) (pc(t := x)) held"
      by (rule w) (use err(1) assms(6) hl_unmark in auto)
    ultimately show ?thesis by (auto simp: same_life_def)
  next
    case take
    have "dr_pClient ?p \<noteq> None" using fl_flags [OF f assms(3)] take(2) by blast
    note h = hl_taken [OF _ live_peer [OF take(1)] take(2) this]
    have e: "(\<lambda>u. held_after t d (Recv_Ok (dr_req ?p)) held u d) = (\<lambda>u. held u d)(t := Some (dr_req ?p))" by (auto simp: held_after_def)
    have "hls srv D died ((ds_doors s)(d := ?p\<lparr>dr_u32HasReq := 0, dr_pServer := Some t\<rparr>)) (pc(t := x)) (held_after t d (Recv_Ok (dr_req ?p)) held)"
      by (rule w) (use h in \<open>auto simp: e, auto simp: held_after_def\<close>)
    moreover have "ds_doors u = (ds_doors s)(d := ?p\<lparr>dr_u32HasReq := 0, dr_pServer := Some t\<rparr>)" "r = Recv_Ok (dr_req ?p)" using take assms(7) by (auto simp: door_stores)
    ultimately show ?thesis by (auto simp: same_life_def)
  next
    case (foreign v)
    have "hls srv D died ((ds_doors s)(d := ?p)) (pc(t := x)) held" by (rule w) auto
    moreover have "ds_doors u = ds_doors s" "held_after t d r held = held" using foreign assms(7) by (auto simp: held_after_def split: if_splits)
    ultimately show ?thesis by (simp add: same_life_def)
  next
    case (wait v)
    have "hls srv D died ((ds_doors s)(d := ?p\<lparr>dr_pServer := Some t\<rparr>)) (pc(t := x)) held" by (rule w) (use hl_mark [OF _ wait(3)] in auto)
    moreover have "ds_doors u = (ds_doors s)(d := ?p\<lparr>dr_pServer := Some t\<rparr>)" "held_after t d r held = held" using wait assms(7) by (auto simp: held_after_def split: if_splits)
    ultimately show ?thesis by (auto simp: same_life_def)
  qed
qed

lemma own_claim:
  assumes "hls srv D died (ds_doors s) pc held" "ok D s pc" "d \<in> D" "\<And>e. \<not> is_client e (pc t)" "call_claim tm d t regs dl s = Some (r, u)"
  shows "hls srv D died (ds_doors u) (pc(t := (case r of Call_Client \<Rightarrow> At_Client d regs dl | Call_Slot \<Rightarrow> At_Slot d regs dl | _ \<Rightarrow> Out))) held
    \<and> (\<forall>e. same_life (ds_doors s e) (ds_doors u e)) \<and> (\<forall>v. r = Call_Ret v \<longrightarrow> v = minus_EIO \<and> \<not> door_live s (Some d) \<or> v = minus_ETIMEDOUT \<and> dl \<noteq> 0)"
proof -
  let ?p = "ds_doors s d"
  have f: "fl D (ds_doors s) (tab s) pc" using assms(2) by (simp add: ok_def)
  note w = hls_work [OF assms(1) f assms(4)]
  from assms(2,3,5) show ?thesis
  proof (cases rule: claim_cases)
    case (ret v p ws)
    have "hls srv D died ((ds_doors s)(d := p)) (pc(t := Out)) held" by (rule w) (use ret(4) hl_alike in \<open>auto simp: alike_def\<close>)
    then show ?thesis using ret by (auto simp: same_life_def alike_def)
  next
    case slot
    have "hls srv D died ((ds_doors s)(d := ?p)) (pc(t := At_Slot d regs dl)) held" by (rule w) auto
    then show ?thesis using slot by (simp add: same_life_def)
  next
    case client
    have "hls srv D died ((ds_doors s)(d := claimed t regs ?p)) (pc(t := At_Client d regs dl)) held"
      by (rule hls_upd [OF assms(1) f assms(4) refl]) (rule hl_posted [OF _ live_peer [OF client(3)] client(2)], auto)
    then show ?thesis using client by (auto simp: same_life_def claimed_def)
  qed
qed

lemma own_round:
  assumes "hls srv D died (ds_doors s) pc held" "fl D (ds_doors s) tb pc" "d \<in> D" "pc t = At_Client d regs dl" "t < GJ_MAX_THREADS" "flag (ds_doors s d)"
    and "reply_round tm d t dl s = (r, u)"
  shows "hls srv D died (ds_doors u) (pc(t := Out)) held \<and> (\<forall>e. same_life (ds_doors s e) (ds_doors u e))
    \<and> (\<exists>v. r = Call_Ret v \<and> (v = srv d regs \<or> died \<and> v = minus_EIO \<or> v = minus_EIO \<and> \<not> door_live s (Some d)))"
proof -
  have c: "dr_pClient (ds_doors s d) = Some t" using fl_client [OF assms(2,3), of t] assms(4,5) by simp
  have h: "hl (srv d) died (ds_doors s d) (Some regs) (\<lambda>u. held u d)" using assms(1,3) c assms(4) by (auto simp: hls_def req_of_def)
  have fin: "hls srv D died (ds_doors u) (pc(t := Out)) held \<and> (\<forall>e. same_life (ds_doors s e) (ds_doors u e))" if en: "ends_call d t s u" "dr_u32HasReply (ds_doors s d) \<noteq> 0 \<or> dr_u32PeerDead (ds_doors s d) \<noteq> 0"
  proof -
    obtain p where e: "ds_doors u = (ds_doors s)(d := p)" "dr_pClient p = None" "dr_u32HasReply p = 0" "dr_u32PeerDead p = dr_u32PeerDead (ds_doors s d)" "dr_u32Ready p = dr_u32Ready (ds_doors s d)"
      using en(1) unfolding ends_call_def by blast
    have "hls srv D died ((ds_doors s)(d := p)) (pc(t := Out)) held"
    proof (rule hls_upd [OF assms(1,2) _ refl])
      show "hl (srv d) died p (req_of (pc(t := Out)) p) (\<lambda>u. held u d)" using e(2,3) by (rule hl_idle) (use hl_free [OF h] en(2) e(4) in auto)
    qed (simp add: assms(4))
    then show ?thesis using e by (auto simp: same_life_def)
  qed
  from c show ?thesis
  proof (cases rule: round_split [where tm = tm and dl = dl])
    case (reply w)
    have "dr_i64Reply (ds_doors s d) = srv d regs \<or> died \<and> dr_i64Reply (ds_doors s d) = minus_EIO" using h reply(1) unfolding hl_def hl_call_def by blast
    then show ?thesis using fin reply assms(7) by auto
  next
    case (dead w)
    then show ?thesis using fin assms(6,7) by (auto simp: flag_def)
  qed (use assms(6) live_peer in \<open>auto simp: flag_def\<close>)
qed


section \<open>Steps\<close>

lemma live_ok_cong:
  assumes "live_ok s d" "same_life (ds_doors s d) (ds_doors u d)" "st_objs u d = st_objs s d" "dy_died s \<Longrightarrow> dy_died u"
  shows "live_ok u d"
  using assms by (auto simp: live_ok_def same_life_def door_live_def split: if_splits)

lemma rest_objs: "rest u = rest s \<Longrightarrow> st_objs u = st_objs s"
  by (simp add: rest_def)

lemma result_ok_died: "result_ok srv b x \<Longrightarrow> (b \<Longrightarrow> b') \<Longrightarrow> result_ok srv b' x"
  by (auto simp: result_ok_def)

lemma ownI:
  assumes "own srv D s" "hls srv D (dy_died u) (ds_doors u) (dy_pc u) (dy_held u)" "\<And>d. d \<in> D \<Longrightarrow> live_ok u d"
    and "dy_died s \<Longrightarrow> dy_died u" "\<And>x. x \<in> set (dy_log u) \<Longrightarrow> x \<in> set (dy_log s) \<or> result_ok srv (dy_died u) x"
  shows "own srv D u"
  unfolding own_def
proof (intro conjI ballI)
  fix x assume "x \<in> set (dy_log u)"
  then show "result_ok srv (dy_died u) x" using assms(1,4,5) result_ok_died unfolding own_def by blast
qed (use assms(2,3) in auto)

text \<open>The end of a piece of a call.\<close>

lemma own_after_call:
  assumes "own srv D s" "rest v = rest s" "hls srv D (dy_died s) (ds_doors v) ((dy_pc s)(t := (case r of Call_Client \<Rightarrow> At_Client d regs dl | Call_Slot \<Rightarrow> At_Slot d regs dl | _ \<Rightarrow> Out))) (dy_held s)"
    and "\<And>e. same_life (ds_doors s e) (ds_doors v e)" "\<And>c. r = Call_Ret c \<Longrightarrow> result_ok srv (dy_died s) (d, regs, dl, c)"
  shows "own srv D (after_call t d regs dl (r, v))"
proof (rule ownI [OF assms(1)])
  note y = rest_dy [OF assms(2)]
  show "hls srv D (dy_died (after_call t d regs dl (r, v))) (ds_doors (after_call t d regs dl (r, v))) (dy_pc (after_call t d regs dl (r, v))) (dy_held (after_call t d regs dl (r, v)))"
    using assms(3) by (simp add: after_call_dy y)
  show "live_ok (after_call t d regs dl (r, v)) e" if "e \<in> D" for e
    by (rule live_ok_cong [of s]) (use that assms(1,4) rest_objs [OF assms(2)] y in \<open>auto simp: own_def after_call_dy\<close>)
qed (use assms(5) rest_dy [OF assms(2)] in \<open>auto simp: after_call_dy split: call_out.splits\<close>)

lemma own_after_recv:
  assumes "own srv D s" "rest v = rest s" "hls srv D (dy_died s) (ds_doors v) ((dy_pc s)(t := (case r of Recv_Foreign \<Rightarrow> At_Foreign d | Recv_Wait \<Rightarrow> At_Recv d | _ \<Rightarrow> Out))) (held_after t d r (dy_held s))"
    and "\<And>e. same_life (ds_doors s e) (ds_doors v e)"
  shows "own srv D (after_recv t d (r, v))"
proof (rule ownI [OF assms(1)])
  note y = rest_dy [OF assms(2)]
  show "hls srv D (dy_died (after_recv t d (r, v))) (ds_doors (after_recv t d (r, v))) (dy_pc (after_recv t d (r, v))) (dy_held (after_recv t d (r, v)))"
    unfolding after_recv_dy y using assms(3) by (cases r) (simp_all add: held_after_def)
  show "live_ok (after_recv t d (r, v)) e" if "e \<in> D" for e
    by (rule live_ok_cong [of s]) (use that assms(1,4) rest_objs [OF assms(2)] y in \<open>auto simp: own_def after_recv_dy\<close>)
qed (use rest_dy [OF assms(2)] in \<open>auto simp: after_recv_dy\<close>)

lemma dead_died: "live_ok s d \<Longrightarrow> \<not> door_live s (Some d) \<Longrightarrow> dy_died s"
  by (simp add: live_ok_def)

lemma own_call_act:
  assumes "door_ok D s" "own srv D s" "door_act D (D_Call t d regs dl tm) s = Some u"
  shows "own srv D u"
proof -
  have o: "ok D s (dy_pc s)" using assms(1) by (simp add: door_ok_ok)
  have g: "dy_pc s t = Out" "d \<in> D" using assms(3) by (auto simp: door_act_def split: if_splits)
  have h: "hls srv D (dy_died s) (ds_doors s) (dy_pc s) (dy_held s)" "live_ok s d" using assms(2) g(2) by (auto simp: own_def)
  obtain r v where x: "door_call_timeout tm (Some t) (Some d) (Some regs) dl s = Some (r, v)" "u = after_call t d regs dl (r, v)" using assms(3) by (auto simp: door_act_def split: if_splits)
  show ?thesis unfolding x(2)
  proof (cases "door_live s (Some d)")
    case False
    then have "v = s \<and> (r = Call_Ret minus_ENOSYS \<or> r = Call_Ret minus_EIO)" using x(1) by (auto simp: door_call_timeout_def split: if_splits)
    then show "own srv D (after_call t d regs dl (r, v))" using dead_died [OF h(2) False] h(1) g(1)
      by (intro own_after_call [OF assms(2)]) (auto simp: same_life_def result_ok_def fun_upd_idem)
  next
    case True
    then have c: "call_claim tm d t regs dl s = Some (r, v)" using x(1) by (auto simp: door_call_timeout_def door_live_def split: if_splits)
    have n: "\<not> is_client e (dy_pc s t)" for e using g(1) by simp
    show "own srv D (after_call t d regs dl (r, v))"
      by (rule own_after_call [OF assms(2)]) (use own_claim [OF h(1) o g(2) n c] claim_rest [OF o g(2) c] True in \<open>auto simp: result_ok_def\<close>)
  qed
qed

lemma own_recv_act:
  assumes "door_ok D s" "own srv D s" "door_act D (D_Recv t d) s = Some u"
  shows "own srv D u"
proof -
  have o: "ok D s (dy_pc s)" using assms(1) by (simp add: door_ok_ok)
  have g: "dy_pc s t = Out" "d \<in> D" "t < GJ_MAX_THREADS" using assms(3) by (auto simp: door_act_def on_def split: if_splits)
  have h: "hls srv D (dy_died s) (ds_doors s) (dy_pc s) (dy_held s)" "live_ok s d" using assms(2) g(2) by (auto simp: own_def)
  obtain r v where x: "door_recv (Some t) (Some d) True s = (r, v)" by fastforce
  then have u: "u = after_recv t d (r, v)" using assms(3) by (simp add: door_act_def split: if_splits)
  show ?thesis unfolding u
  proof (cases "door_live s (Some d)")
    case False
    then have "v = s \<and> (\<exists>c. r = Recv_Err c)" using x by (auto simp: door_recv_def split: if_splits)
    then show "own srv D (after_recv t d (r, v))" using h(1) g(1) by (intro own_after_recv [OF assms(2)]) (auto simp: same_life_def held_after_def fun_upd_idem)
  next
    case True
    then have c: "recv_round d t s = (r, v)" using x by (auto simp: door_recv_def door_live_def split: if_splits)
    have n: "\<not> is_client e (dy_pc s t)" for e using g(1) by simp
    show "own srv D (after_recv t d (r, v))"
      by (rule own_after_recv [OF assms(2)]) (use own_recv [OF h(1) o g(2,3) n _ c] recv_rest [of d t s] c True in auto)
  qed
qed


lemma own_resume:
  assumes "door_ok D s" "wks_ok D s" "own srv D s" "door_act D (D_Resume t tm) s = Some u"
  shows "own srv D u"
proof -
  have o: "ok D s (dy_pc s)" using assms(1) by (simp add: door_ok_ok)
  have g: "on t (ds_threads s)" "t < GJ_MAX_THREADS" and x: "resume t tm s = Some u" using assms(4) by (auto simp: door_act_def on_def split: if_splits)
  have dd: "case pc_at (dy_pc s t) of None \<Rightarrow> True | Some (d, tag) \<Rightarrow> d \<in> D" using o g(2) by (auto simp: ok_def pk_def pk1_def split: option.splits)
  have aw: "ds_doors (awake t s) = ds_doors s" "rest (awake t s) = rest s" by (simp_all add: awake_def)
  have lv: "door_live (awake t s) (Some d) = door_live s (Some d)" for d by (simp add: door_live_def awake_def)
  have h: "hls srv D (dy_died s) (ds_doors s) (dy_pc s) (dy_held s)" "\<And>d. d \<in> D \<Longrightarrow> live_ok s d" using assms(3) by (auto simp: own_def)
  have f: "fl D (ds_doors s) (tab s) (dy_pc s)" using o by (simp add: ok_def)
  have ha: "hls srv D (dy_died s) (ds_doors (awake t s)) ((dy_pc s)(t := Out)) (dy_held s)" if "\<And>e. \<not> is_client e (dy_pc s t)"
    using hls_work [OF h(1) f that refl refl, of "0" Out] by (simp add: aw)
  have no: "\<not> is_client e (((dy_pc s)(t := Out)) t)" for e by simp
  note b = ok_back [OF o g(1)]
  show ?thesis
  proof (cases "dy_pc s t")
    case (At_Slot d regs dl)
    obtain r v where c: "call_claim tm d t regs dl (awake t s) = Some (r, v)" "u = after_call t d regs dl (r, v)" using x At_Slot by (auto simp: resume_def awake_def Let_def)
    have d: "d \<in> D" and k: "ok D (awake t s) ((dy_pc s)(t := Out))" using b dd At_Slot by auto
    have y: "hls srv D (dy_died s) (ds_doors (awake t s)) ((dy_pc s)(t := Out)) (dy_held s)" using ha At_Slot by simp
    note z = own_claim [OF y k d no c(1), unfolded fun_upd_upd]
    show ?thesis unfolding c(2) by (rule own_after_call [OF assms(3)])
        (use z claim_rest [OF k d c(1)] aw lv dead_died [OF h(2) [OF d]] in \<open>auto simp: result_ok_def\<close>)
  next
    case (At_Client d regs dl)
    obtain r v where c: "reply_round (tm 0) d t dl (awake t s) = (r, v)" by fastforce
    have u: "u = after_call t d regs dl (r, v)" using x At_Client c by (simp add: resume_def awake_def Let_def)
    have d: "d \<in> D" using dd At_Client by simp
    have "\<not> slp (ds_threads s) t d DOOR_TAG_CLIENT" using g(1) by (auto simp: on_def slp_def)
    then have fg: "flag (ds_doors s d)" using assms(2) d g(2) At_Client unfolding wks_ok_def wk_def by simp
    note z = own_round [of srv D "dy_died s" "awake t s" "dy_pc s" "dy_held s" "tab s" d t regs dl "tm 0" r v, unfolded aw(1) lv, OF h(1) f d At_Client g(2) fg c]
    show ?thesis unfolding u by (rule own_after_call [OF assms(3)])
        (use z round_rest [of "tm 0" d t dl "awake t s"] c aw(2) dead_died [OF h(2) [OF d]] in \<open>auto simp: result_ok_def\<close>)
  next
    case (At_Recv d)
    let ?v = "recv_unmark d t (awake t s)"
    obtain r v where c: "recv_round d t ?v = (r, v)" by fastforce
    have u: "u = after_recv t d (r, v)" using x At_Recv c by (simp add: resume_def awake_def Let_def)
    have d: "d \<in> D" using dd At_Recv by simp
    have k: "ok D ?v ((dy_pc s)(t := Out))" using b At_Recv unmark_ok [OF _ d] by auto
    have fo: "fl D (ds_doors (awake t s)) (tab (awake t s)) ((dy_pc s)(t := Out))" using b At_Recv by (auto simp: ok_def)
    have q: "ds_doors ?v = (ds_doors s)(d := if dr_pServer (ds_doors s d) = Some t \<and> dr_u32HasReq (ds_doors s d) = 0 \<and> dr_pClient (ds_doors s d) = None then (ds_doors s d)\<lparr>dr_pServer := None\<rparr> else ds_doors s d)"
      by (auto simp: recv_unmark_def aw(1) door_stores)
    have "hls srv D (dy_died s) (ds_doors ?v) ((dy_pc s)(t := Out, t := Out)) (dy_held s)" unfolding q aw(1) [symmetric]
      by (rule hls_work [OF ha fo no]) (use At_Recv hl_unmark in \<open>auto simp: aw(1)\<close>)
    then have y: "hls srv D (dy_died s) (ds_doors ?v) ((dy_pc s)(t := Out)) (dy_held s)" by simp
    have sl: "same_life (ds_doors s e) (ds_doors ?v e)" for e by (simp add: q same_life_def)
    then have l: "door_live ?v (Some d) \<or> dr_u32PeerDead (ds_doors ?v d) \<noteq> 0" using h(2) [OF d] lv [of d] by (auto simp: live_ok_def door_live_def same_life_def awake_def split: if_splits)
    note z = own_recv [OF y k d g(2) no l c, unfolded fun_upd_upd]
    have "same_life (ds_doors s e) (ds_doors v e)" for e using z sl [of e] by (simp add: same_life_def)
    then show ?thesis unfolding u by (intro own_after_recv [OF assms(3)]) (use z recv_rest [of d t ?v] c aw(2) in auto)
  next
    case (At_Foreign d)
    obtain r v where c: "recv_round d t (awake t s) = (r, v)" by fastforce
    have u: "u = after_recv t d (r, v)" using x At_Foreign c by (simp add: resume_def awake_def Let_def)
    have d: "d \<in> D" and k: "ok D (awake t s) ((dy_pc s)(t := Out))" using b dd At_Foreign by auto
    have y: "hls srv D (dy_died s) (ds_doors (awake t s)) ((dy_pc s)(t := Out)) (dy_held s)" using ha At_Foreign by simp
    have l: "door_live (awake t s) (Some d) \<or> dr_u32PeerDead (ds_doors (awake t s) d) \<noteq> 0" using h(2) [OF d] lv [of d] by (auto simp: live_ok_def aw(1))
    note z = own_recv [OF y k d g(2) no l c, unfolded fun_upd_upd]
    show ?thesis unfolding u by (rule own_after_recv [OF assms(3)]) (use z recv_rest [of d t "awake t s"] c aw in auto)
  qed (use x in \<open>simp add: resume_def Let_def\<close>)
qed

lemma own_reply_act:
  assumes "door_ok D s" "own srv D s" "door_act D (D_Reply t d v) s = Some u" "proper srv (D_Reply t d v) s"
  shows "own srv D u"
proof -
  let ?u = "door_reply (Some t) (Some d) v s" let ?p = "ds_doors s d" let ?h = "(dy_held s)(t := (dy_held s t)(d := None))"
  have g: "dy_pc s t = Out" "d \<in> D" "t < GJ_MAX_THREADS" "u = set_held t d None ?u" using assms(3) by (auto simp: door_act_def on_def split: if_splits)
  have h: "hls srv D (dy_died s) (ds_doors s) (dy_pc s) (dy_held s)" "\<And>d. d \<in> D \<Longrightarrow> live_ok s d" using assms(2) by (auto simp: own_def)
  have f: "fl D (ds_doors s) (tab s) (dy_pc s)" using assms(1) by (simp add: door_ok_def)
  have n: "\<not> is_client e (dy_pc s t)" for e using g(1) by simp
  obtain r where r: "dy_held s t d = Some r" "v = srv d r" using assms(4) by (auto simp: proper_def split: option.splits)
  have e: "(\<lambda>u. ?h u d) = (\<lambda>u. dy_held s u d)(t := None)" by auto
  note w = hls_work [OF h(1) f n, of d ?h]
  have x: "hls srv D (dy_died s) (ds_doors ?u) ((dy_pc s)(t := Out)) ?h \<and> (\<forall>e. same_life (ds_doors s e) (ds_doors ?u e))"
  proof (cases rule: door_reply_split [of t d v s])
    case same
    have "hls srv D (dy_died s) ((ds_doors s)(d := ?p)) ((dy_pc s)(t := Out)) ?h" by (rule w) (auto elim!: hl_drop)
    then show ?thesis by (simp add: same same_life_def)
  next
    case drop
    have "hls srv D (dy_died s) ((ds_doors s)(d := ?p\<lparr>dr_pServer := None\<rparr>)) ((dy_pc s)(t := Out)) ?h" by (rule w) (use hl_drop [OF hl_unmark [OF _ disjI1 [OF drop(1)]]] in auto)
    then show ?thesis by (simp add: drop door_stores same_life_def)
  next
    case go
    have "hls srv D (dy_died s) ((ds_doors s)(d := answered v ?p)) ((dy_pc s)(t := Out)) ?h"
    proof (rule w)
      assume a: "hl (srv d) (dy_died s) ?p (req_of (dy_pc s) ?p) (\<lambda>u. dy_held s u d)"
      show "hl (srv d) (dy_died s) (answered v ?p) (req_of (dy_pc s) ?p) (\<lambda>u. ?h u d)" unfolding e by (rule hl_answered [where r = r]) (use a r g(3) in auto)
    qed (auto simp: answered_def)
    then show ?thesis by (simp add: go give_reply_eff same_life_def answered_def)
  qed
  note y = rest_dy [OF reply_rest, of t d v s]
  show ?thesis
  proof (rule ownI [OF assms(2)])
    show "hls srv D (dy_died u) (ds_doors u) (dy_pc u) (dy_held u)" using x y g(1) unfolding g(4) by (simp add: set_held_def fun_upd_idem)
    show "live_ok u e" if "e \<in> D" for e by (rule live_ok_cong [OF h(2) [OF that]]) (use x y rest_objs [OF reply_rest, of t d v s] in \<open>auto simp: g(4) set_held_def\<close>)
  qed (use y in \<open>auto simp: g(4) set_held_def\<close>)
qed


lemma own_kill:
  assumes "hls srv D died (ds_doors s) pc held" "fl D (ds_doors s) (tab s) pc" "t < GJ_MAX_THREADS"
    and "\<And>d. is_client d (pc t) \<Longrightarrow> (\<forall>u < GJ_MAX_THREADS. held u d = None)"
    and "\<And>e. ds' e = (if e = c \<or> Some e \<in> set (tab s) then exit_door t (ds_doors s e) else ds_doors s e)"
  shows "hls srv D True ds' (pc(t := Out)) (held(t := \<lambda>_. None))"
  unfolding hls_def
proof
  fix e assume e: "e \<in> D"
  let ?p = "ds_doors s e"
  have h: "hl (srv e) died ?p (req_of pc ?p) (\<lambda>u. held u e)" using assms(1) e by (simp add: hls_def)
  have k: "(\<lambda>u. (held(t := \<lambda>_. None)) u e) = (\<lambda>u. held u e)(t := None)" by auto
  show "hl (srv e) True (ds' e) (req_of (pc(t := Out)) (ds' e)) (\<lambda>u. (held(t := \<lambda>_. None)) u e)"
  proof (cases "dr_pClient ?p = Some t")
    case True
    then have "Some e \<in> set (tab s)" "is_client e (pc t)" using fl_bound [OF assms(2) e] fl_client [OF assms(2) e, of t] by auto
    then have d: "ds' e = exit_door t ?p" "\<And>u. u < GJ_MAX_THREADS \<Longrightarrow> held u e = None" using assms(4,5) by auto
    show ?thesis unfolding d(1) by (rule hl_idle) (use True d(2) in \<open>auto simp: exit_door_def\<close>)
  next
    case False
    have x: "hl (srv e) True (exit_door t ?p) (req_of pc ?p) ((\<lambda>u. held u e)(t := None))" by (rule hl_exit [OF h refl assms(3) False])
    have y: "hl (srv e) True ?p (req_of pc ?p) ((\<lambda>u. held u e)(t := None))" by (rule hl_died, rule hl_drop [OF h]) simp
    have c: "dr_pClient (ds' e) = dr_pClient ?p" using False by (simp add: assms(5) exit_door_def)
    then have "req_of (pc(t := Out)) (ds' e) = req_of pc ?p" using req_of_other [of "ds' e" t pc Out] False req_of_cong [OF c] by simp
    then show ?thesis unfolding k using x y by (simp add: assms(5))
  qed
qed

lemma own_kill_act:
  assumes "door_ok D s" "own srv D s" "door_act D (D_Kill t) s = Some u" "proper srv (D_Kill t) s"
  shows "own srv D u"
proof -
  have o: "ok D s (dy_pc s)" using assms(1) by (simp add: door_ok_ok)
  let ?s1 = "upd_thread t exit_scrub s" let ?v = "door_on_thread_exit (Some t) ?s1"
  have t: "t < GJ_MAX_THREADS" "u = set_dpc t Out (?v\<lparr>dy_held := (dy_held ?v)(t := \<lambda>_. None), dy_died := True\<rparr>)" using assms(3) by (auto simp: door_act_def Let_def split: if_splits)
  have len: "length (g_aReplySoft ?s1) = DOOR_REPLY_SOFT_SLOTS" using okD [OF o] by (simp add: tb_ok_def tab_def upd_thread_def)
  note x = on_exit_eff [OF len, of t]
  have r: "rest ?v = rest s" using x(4) by simp
  note y = rest_dy [OF r]
  have h: "hls srv D (dy_died s) (ds_doors s) (dy_pc s) (dy_held s)" "\<And>d. d \<in> D \<Longrightarrow> live_ok s d" using assms(2) by (auto simp: own_def)
  have f: "fl D (ds_doors s) (tab s) (dy_pc s)" using o by (simp add: ok_def)
  have p: "\<forall>u < GJ_MAX_THREADS. dy_held s u d = None" if "is_client d (dy_pc s t)" for d using that assms(4) unfolding proper_def by (cases "dy_pc s t") auto
  have k: "hls srv D True (ds_doors ?v) ((dy_pc s)(t := Out)) ((dy_held s)(t := \<lambda>_. None))" by (rule own_kill [OF h(1) f t(1) p]) (use x(1) in auto)
  have sl: "same_life (ds_doors s e) (ds_doors ?v e)" for e using x(1) [of e] by (simp add: same_life_def exit_door_def)
  show ?thesis
  proof (rule ownI [OF assms(2)])
    show "hls srv D (dy_died u) (ds_doors u) (dy_pc u) (dy_held u)" using k unfolding t(2) by (simp add: set_dpc_def y)
    show "live_ok u e" if "e \<in> D" for e by (rule live_ok_cong [OF h(2) [OF that]]) (use sl rest_objs [OF r] in \<open>auto simp: t(2) set_dpc_def\<close>)
  qed (auto simp: t(2) set_dpc_def y)
qed

lemma own_abort:
  assumes "own srv D s" "d \<in> D" "ds_doors u = (ds_doors s)(d := aborted p)" "alike (p\<lparr>dr_u32PeerDead := dr_u32PeerDead (ds_doors s d), dr_u32Ready := dr_u32Ready (ds_doors s d)\<rparr>) (ds_doors s d)"
    and "door_state.more u = door_state.more s" "\<And>e. e \<noteq> d \<Longrightarrow> st_objs u e = st_objs s e"
  shows "own srv D (u\<lparr>dy_died := True\<rparr>)"
proof -
  note y = more_dy [OF assms(5)]
  have h: "hls srv D (dy_died s) (ds_doors s) (dy_pc s) (dy_held s)" "\<And>d. d \<in> D \<Longrightarrow> live_ok s d" using assms(1) by (auto simp: own_def)
  have c: "req_of pc (aborted p) = req_of pc (ds_doors s d)" for pc by (rule req_of_cong) (use assms(4) in \<open>auto simp: alike_def aborted_def Let_def\<close>)
  show ?thesis
  proof (rule ownI [OF assms(1)])
    have "hls srv D True ((ds_doors s)(d := aborted p)) (dy_pc s) (dy_held s)" unfolding hls_def
    proof
      fix e assume e: "e \<in> D"
      have he: "hl (srv e) (dy_died s) (ds_doors s e) (req_of (dy_pc s) (ds_doors s e)) (\<lambda>u. dy_held s u e)" using h(1) e by (simp add: hls_def)
      have "hl (srv d) True (aborted p) (req_of (dy_pc s) (ds_doors s d)) (\<lambda>u. dy_held s u d)" if "e = d"
        using he assms(4) unfolding that hl_def hl_call_def by (auto simp: aborted_def alike_def Let_def)
      then show "hl (srv e) True (((ds_doors s)(d := aborted p)) e) (req_of (dy_pc s) (((ds_doors s)(d := aborted p)) e)) (\<lambda>u. dy_held s u e)"
        using hl_died [OF he] c by auto
    qed
    then show "hls srv D (dy_died (u\<lparr>dy_died := True\<rparr>)) (ds_doors (u\<lparr>dy_died := True\<rparr>)) (dy_pc (u\<lparr>dy_died := True\<rparr>)) (dy_held (u\<lparr>dy_died := True\<rparr>))" by (simp add: assms(3) y)
    show "live_ok (u\<lparr>dy_died := True\<rparr>) e" if "e \<in> D" for e
    proof (cases "e = d")
      case True
      then show ?thesis by (simp add: live_ok_def assms(3) aborted_def Let_def)
    next
      case False
      then show ?thesis by (intro live_ok_cong [OF h(2) [OF that]]) (simp_all add: same_life_def assms(3,6))
    qed
  qed (simp_all add: y)
qed

lemma own_init:
  assumes "own srv D s" "door_ok D s" "d \<in> D" "unused_door d s"
  shows "own srv D (door_init (Some d) s)"
proof -
  have tb: "tb_ok D (tab s)" using assms(2) by (simp add: door_ok_def)
  note i = init_eff [OF tb, of d]
  note y = more_dy [OF i(3)]
  have h: "hls srv D (dy_died s) (ds_doors s) (dy_pc s) (dy_held s)" "\<And>d. d \<in> D \<Longrightarrow> live_ok s d" using assms(1) by (auto simp: own_def)
  have f: "fl D (ds_doors s) (tab s) (dy_pc s)" using assms(2) by (simp add: door_ok_def)
  have n: "dy_held s t d = None" if "t < GJ_MAX_THREADS" for t using assms(4) that unfolding unused_door_def by blast
  show ?thesis
  proof (rule ownI [OF assms(1)])
    have "hls srv D (dy_died s) ((ds_doors s)(d := no_door\<lparr>dr_u32Ready := 1\<rparr>)) (dy_pc s) (dy_held s)" unfolding hls_def
    proof
      fix e assume e: "e \<in> D"
      have "hl (srv d) (dy_died s) (no_door\<lparr>dr_u32Ready := 1\<rparr>) (req_of (dy_pc s) (no_door\<lparr>dr_u32Ready := 1\<rparr>)) (\<lambda>u. dy_held s u d)"
        by (rule hl_idle) (use n in \<open>auto simp: no_door_def\<close>)
      then show "hl (srv e) (dy_died s) (((ds_doors s)(d := no_door\<lparr>dr_u32Ready := 1\<rparr>)) e) (req_of (dy_pc s) (((ds_doors s)(d := no_door\<lparr>dr_u32Ready := 1\<rparr>)) e)) (\<lambda>u. dy_held s u e)"
        using h(1) e by (auto simp: hls_def)
    qed
    then show "hls srv D (dy_died (door_init (Some d) s)) (ds_doors (door_init (Some d) s)) (dy_pc (door_init (Some d) s)) (dy_held (door_init (Some d) s))" by (simp add: i(1) y)
    show "live_ok (door_init (Some d) s) e" if "e \<in> D" for e
    proof (cases "e = d")
      case True
      then show ?thesis using i(6) by (simp add: live_ok_def door_live_def i(1) no_door_def)
    next
      case False
      then show ?thesis by (intro live_ok_cong [OF h(2) [OF that]]) (simp_all add: same_life_def i(1) y init_eff(7) [OF tb])
    qed
  qed (simp_all add: y)
qed


text \<open>Steps that touch no call and no request.\<close>

lemma own_same: "own srv D s \<Longrightarrow> ds_doors u = ds_doors s \<Longrightarrow> st_objs u = st_objs s \<Longrightarrow> door_state.more u = door_state.more s \<Longrightarrow> own srv D u"
  using more_dy [of u s] live_ok_cong [of s _ u] by (simp add: own_def same_life_def)

lemma own_badge:
  assumes "own srv D s"
  shows "own srv D (upd_door d (\<lambda>p. p\<lparr>dr_u32Badge := b\<rparr>) s)"
proof (rule ownI [OF assms])
  let ?u = "upd_door d (\<lambda>p. p\<lparr>dr_u32Badge := b\<rparr>) s" let ?q = "(ds_doors s d)\<lparr>dr_u32Badge := b\<rparr>"
  note y = rest_dy [OF upd_door_eff(4), of d "\<lambda>p. p\<lparr>dr_u32Badge := b\<rparr>" s]
  have h: "hls srv D (dy_died s) (ds_doors s) (dy_pc s) (dy_held s)" "\<And>d. d \<in> D \<Longrightarrow> live_ok s d" using assms by (auto simp: own_def)
  have a: "alike (ds_doors s d) ?q" "req_of pc ?q = req_of pc (ds_doors s d)" for pc by (simp_all add: alike_def req_of_def)
  have "hls srv D (dy_died s) ((ds_doors s)(d := ?q)) (dy_pc s) (dy_held s)" using h(1) a hl_alike [OF _ a(1)] unfolding hls_def by auto
  then show "hls srv D (dy_died ?u) (ds_doors ?u) (dy_pc ?u) (dy_held ?u)" unfolding y by simp
  show "live_ok ?u e" if "e \<in> D" for e by (rule live_ok_cong [OF h(2) [OF that]]) (simp_all add: same_life_def y)
qed (simp_all add: rest_dy [OF upd_door_eff(4)])

lemma own_keeps:
  assumes "door_ok D s" "wks_ok D s" "own srv D s" "door_act D a s = Some u" "proper srv a s"
  shows "own srv D u"
proof (cases a)
  case (D_Abort d)
  then have g: "d \<in> D" "u = (door_abort_waiters (Some d) s)\<lparr>dy_died := True\<rparr>" using assms(4) by (auto simp: door_act_def split: if_splits)
  show ?thesis unfolding g(2) by (rule own_abort [OF assms(3) g(1) abort_eff(1)]) (use rest_more [OF abort_eff(4), of d s] rest_objs [OF abort_eff(4), of d s] in \<open>auto simp: alike_def\<close>)
next
  case (D_MarkDead d)
  then have g: "d \<in> D" "u = (door_abort_waiters (Some d) (mark_prep d s))\<lparr>dy_died := True\<rparr>" using assms(4) by (auto simp: door_act_def mark_dead_alt split: if_splits)
  show ?thesis unfolding g(2)
    by (rule own_abort [OF assms(3) g(1), where p = "(ds_doors s d)\<lparr>dr_u32Ready := 0, dr_u32PeerDead := 1\<rparr>"])
      (use rest_more [OF abort_eff(4), of d "mark_prep d s"] rest_objs [OF abort_eff(4), of d "mark_prep d s"] in \<open>auto simp: alike_def abort_eff mark_prep_eff\<close>)
next
  case (D_Start t i)
  then show ?thesis using assms(4) own_same [OF assms(3)] by (auto simp: door_act_def upd_thread_def split: if_splits)
next
  case (D_Ready t)
  then show ?thesis using assms(4) own_same [OF assms(3)] by (auto simp: door_act_def upd_thread_def split: if_splits)
next
  case (D_Sleep t ob tag)
  then have "u = s\<lparr>ds_threads := thread_block (Some t) ob tag (ds_threads s)\<rparr>" using assms(4) unfolding door_act_def by (simp split: if_splits)
  then show ?thesis using own_same [OF assms(3)] by simp
next
  case (D_Badge d b)
  then show ?thesis using assms(4) own_badge [OF assms(3)] by (auto simp: door_act_def door_set_badge_def)
next
  case (D_Init d)
  then show ?thesis using assms(4) own_init [OF assms(3,1)] by (auto simp: door_act_def split: if_splits)
next
  case (D_Call t d regs dl tm)
  then show ?thesis using own_call_act [OF assms(1,3)] assms(4) by simp
next
  case (D_Recv t d)
  then show ?thesis using own_recv_act [OF assms(1,3)] assms(4) by simp
next
  case (D_Reply t d v)
  then show ?thesis using own_reply_act [OF assms(1,3)] assms(4,5) by simp
next
  case (D_Resume t tm)
  then show ?thesis using own_resume [OF assms(1-3)] assms(4) by simp
next
  case (D_Kill t)
  then show ?thesis using own_kill_act [OF assms(1,3)] assms(4,5) by simp
qed

end
