(* ===== verification/Door_Props.thy ===== *)
theory Door_Props
  imports Door_Own
begin

text \<open>
  What doors promise: one call at a time, a client that sleeps exactly until there is something for it, each call its own
  reply while no served client is ended; and the runs that end otherwise.
\<close>

section \<open>Reachable states\<close>

lemma boot_ok:
  assumes "door_boot D s"
  shows "finite D \<and> card D \<le> DOOR_REPLY_SOFT_SLOTS \<and> door_ok D s \<and> wks_ok D s"
proof -
  have t: "tab s = replicate DOOR_REPLY_SOFT_SLOTS None" using assms by (simp add: door_boot_def tab_def no_reply_def)
  have "pk D (ds_threads s) (dy_pc s)" using assms by (auto simp: door_boot_def pk_def pk1_def)
  moreover have "tb_ok D (tab s)" unfolding t tb_ok_def by simp
  moreover have "fl D (ds_doors s) (tab s) (dy_pc s)" using assms by (auto simp: door_boot_def fl_def fl1_def no_door_def)
  moreover have "cm D (ds_doors s) (ds_threads s)" using assms by (auto simp: door_boot_def cm_def slp_def)
  moreover have "wks_ok D s" using assms by (auto simp: door_boot_def wks_ok_def wk_def)
  ultimately show ?thesis using assms by (simp add: door_ok_def door_boot_def)
qed

lemma boot_own: "door_boot D s \<Longrightarrow> own srv D s"
  by (auto simp: door_boot_def own_def hls_def hl_def hl_live_def req_of_def no_door_def live_ok_def door_live_def)

interpretation flight: inv_system "door_step D" "\<lambda>s. finite D \<and> card D \<le> DOOR_REPLY_SOFT_SLOTS \<and> door_ok D s \<and> wks_ok D s" "door_boot D" for D
  by unfold_locales (auto simp: door_step_def boot_ok intro: door_keeps wk_keeps)

interpretation rpc: inv_system "proper_step srv D" "\<lambda>s. finite D \<and> card D \<le> DOOR_REPLY_SOFT_SLOTS \<and> door_ok D s \<and> wks_ok D s \<and> own srv D s" "door_boot D" for srv D
  by unfold_locales (auto simp: proper_step_def boot_ok boot_own intro: door_keeps wk_keeps own_keeps)

lemma door_run_reach: "reach (door_boot D) (door_step D) s \<Longrightarrow> door_run D as s = Some u \<Longrightarrow> reach (door_boot D) (door_step D) u"
proof (induction as arbitrary: s)
  case (Cons a as)
  then obtain v where v: "door_act D a s = Some v" "door_run D as v = Some u" by (auto split: option.splits)
  then have "reach (door_boot D) (door_step D) v" using reach_step [OF Cons.prems(1), of v] unfolding door_step_def by blast
  then show ?case using Cons.IH v(2) by blast
qed simp

section \<open>A concrete system\<close>

text \<open>Updated functions stay as they are when runs are evaluated.\<close>

declare fun_upd_apply [code]

definition dwit :: door_sys where
  "dwit = \<lparr>st_objs = (\<lambda>_. \<lparr>hdr_u32State = GJ_OBJ_LIVE, hdr_u32Gen = 1, hdr_u32Ref = 0, hdr_u32Pin = 0, hdr_u32SlotsLeft = 0, hdr_pCdtHead = []\<rparr>),
     st_cnodes = (\<lambda>_. \<lparr>cn_hdr = 0, cn_cSlots = 0, cn_pSlots = None, cn_pQuotaAccount = None, cn_u32SoftLock = 0, cn_u32PadLock = 0\<rparr>),
     st_quotas = wit_quotas, st_edges = (\<lambda>_. \<lparr>edge_pCnode = None, edge_u64Slot = 0\<rparr>), g_aCdtUsed = [], g_u32CdtPoolUsed = 0,
     g_aRevokeQ = [], g_u32RevokeQLen = 0, g_u32RevokeQCursor = 0,
     ds_doors = (\<lambda>_. no_door\<lparr>dr_u32Ready := 1\<rparr>), ds_threads = replicate GJ_MAX_THREADS (no_thread\<lparr>th_u32Id := 1, th_u32State := GJ_THR_RUNNABLE\<rparr>),
     g_aReplySoft = replicate DOOR_REPLY_SOFT_SLOTS no_reply, g_u32ReplySoftGen = 0, g_fColdInited = True, ds_cold = 100,
     dy_pc = (\<lambda>_. Out), dy_held = (\<lambda>_ _. None), dy_log = [], dy_died = False\<rparr>"

definition dreq :: "u64 \<Rightarrow> gj_linux_regs" where
  "dreq n = no_regs\<lparr>rg_u64Nr := n\<rparr>"

definition dclock :: "nat \<Rightarrow> clock" where
  "dclock _ = (True, 0)"

lemma dwit_boot: "finite D \<Longrightarrow> card D \<le> DOOR_REPLY_SOFT_SLOTS \<Longrightarrow> door_boot D dwit"
  by (simp add: door_boot_def dwit_def no_thread_def)

lemma dwit_reach: "door_run {0} as dwit = Some s \<Longrightarrow> reach (door_boot {0}) (door_step {0}) s"
  by (rule door_run_reach [of "{0}" dwit], rule reach_init, simp_all add: dwit_boot)

section \<open>One call at a time\<close>

text \<open>
  C13: in every state threads reach with at most eight doors, a door's client is exactly the thread whose call waits for the
  reply, so a door serves one call at a time; and a door without a client offers neither a request nor a reply.
\<close>

theorem door_single_flight:
  assumes "reach (door_boot D) (door_step D) s" "d \<in> D"
  shows "(dr_pClient (ds_doors s d) = Some t \<longleftrightarrow> t < GJ_MAX_THREADS \<and> (\<exists>r dl. dy_pc s t = At_Client d r dl))
    \<and> (dr_pClient (ds_doors s d) = None \<longrightarrow> door_load_has_req d s = 0 \<and> door_load_has_reply d s = 0)"
proof -
  have f: "fl D (ds_doors s) (tab s) (dy_pc s)" using flight.reach_holds [OF assms(1)] by (simp add: door_ok_def)
  have "is_client d (dy_pc s t) \<longleftrightarrow> (\<exists>r dl. dy_pc s t = At_Client d r dl)" by (cases "dy_pc s t") auto
  then show ?thesis using fl_client [OF f assms(2), of t] fl_flags [OF f assms(2)] by (simp add: door_stores)
qed

definition dcall :: "door_action list" where
  "dcall = [D_Recv 0 0, D_Call 1 0 (dreq 7) 0 dclock]"

definition dclient :: "door_sys \<Rightarrow> nat option \<times> bool" where
  "dclient s = (dr_pClient (ds_doors s 0), case dy_pc s 1 of At_Client d r dl \<Rightarrow> d = 0 | _ \<Rightarrow> False)"

lemma dcall_run: "map_option dclient (door_run {0} dcall dwit) = Some (Some 1, True)"
  by code_simp

theorem door_single_flight_witness:
  "\<exists>s. door_run {0} dcall dwit = Some s \<and> dr_pClient (ds_doors s 0) = Some 1 \<and> (\<exists>r dl. dy_pc s 1 = At_Client 0 r dl)"
proof -
  obtain s where s: "door_run {0} dcall dwit = Some s" "dclient s = (Some 1, True)" using dcall_run by (cases "door_run {0} dcall dwit") auto
  then show ?thesis using door_single_flight [OF dwit_reach [OF s(1)], of 0 1] by (simp add: dclient_def)
qed

text \<open>The client of a door sleeps exactly as long as the door has no reply and is not dead; otherwise it is ready and its call returns when it next runs.\<close>

lemma client_wakes:
  assumes "reach (door_boot D) (door_step D) s" "d \<in> D" "t < GJ_MAX_THREADS" "dy_pc s t = At_Client d r dl"
  shows "if door_load_has_reply d s = 0 \<and> dr_u32PeerDead (ds_doors s d) = 0 then slp (ds_threads s) t d DOOR_TAG_CLIENT
    else on t (ds_threads s) \<and> (\<exists>u. door_act D (D_Resume t tm) s = Some u \<and> dy_pc u t = Out
      \<and> dy_log u = (d, r, dl, if door_load_has_reply d s \<noteq> 0 then dr_i64Reply (ds_doors s d) else minus_EIO) # dy_log s \<and> dy_held u = dy_held s)"
proof -
  note i = flight.reach_holds [OF assms(1)]
  have k: "pk D (ds_threads s) (dy_pc s)" "fl D (ds_doors s) (tab s) (dy_pc s)" "cm D (ds_doors s) (ds_threads s)" "wk D (ds_doors s) (ds_threads s) (dy_pc s)"
    using i by (simp_all add: door_ok_def wks_ok_def)
  show ?thesis
  proof (cases "flag (ds_doors s d)")
    case False
    then have "slp (ds_threads s) t d DOOR_TAG_CLIENT" using k(4) assms(2-4) unfolding wk_def by auto
    then show ?thesis using False by (simp add: flag_def door_stores)
  next
    case True
    have "\<not> slp (ds_threads s) t d DOOR_TAG_CLIENT" using k(3) assms(2,3) True unfolding cm_def flag_def calm_door_def by blast
    moreover have "pk1 D (ds_threads s ! t) (dy_pc s t)" using k(1) assms(3) by (simp add: pk_def)
    ultimately have o: "on t (ds_threads s)" using assms(3,4) by (auto simp: pk1_def on_def slp_def)
    obtain x u where u: "reply_round (tm 0) d t dl (awake t s) = (x, u)" by fastforce
    have aw: "ds_doors (awake t s) = ds_doors s" "dy_log (awake t s) = dy_log s" "dy_pc (awake t s) = dy_pc s" by (simp_all add: awake_def upd_thread_def)
    have c: "dr_pClient (ds_doors (awake t s) d) = Some t" using fl_client [OF k(2) assms(2), of t] assms(3,4) aw by simp
    have l: "\<not> door_live (awake t s) (Some d)" if "dr_u32HasReply (ds_doors s d) = 0" using True that live_peer [of "awake t s" d] aw(1) by (auto simp: flag_def)
    from c have "x = Call_Ret (if dr_u32HasReply (ds_doors s d) \<noteq> 0 then dr_i64Reply (ds_doors s d) else minus_EIO)"
      by (cases rule: round_split [where tm = "tm 0" and dl = dl]) (use u l aw(1) in auto)
    moreover have "dy_log u = dy_log s" "dy_held u = dy_held s"
      using rest_dy(2,3) [of u "awake t s"] round_rest [of "tm 0" d t dl "awake t s"] u aw by (simp_all add: awake_def upd_thread_def)
    moreover have "door_act D (D_Resume t tm) s = Some (after_call t d r dl (x, u))" using o assms(4) u by (simp add: door_act_def resume_def awake_def Let_def)
    ultimately show ?thesis using o True by (auto simp: set_dpc_def flag_def door_stores)
  qed
qed

text \<open>
  C12: no wake-up of a client without a deadline is lost.  The client of a door sleeps exactly as long as the door has no reply and is not
  dead; otherwise it is ready to run, and whenever it next runs its call returns, with the reply if there is one and \<open>-EIO\<close> if not.
\<close>

theorem door_client_wakes:
  assumes "reach (door_boot D) (door_step D) s" "d \<in> D" "t < GJ_MAX_THREADS" "dy_pc s t = At_Client d r 0"
  shows "if door_load_has_reply d s = 0 \<and> dr_u32PeerDead (ds_doors s d) = 0 then slp (ds_threads s) t d DOOR_TAG_CLIENT
    else on t (ds_threads s) \<and> (\<exists>u. door_act D (D_Resume t tm) s = Some u \<and> dy_pc u t = Out
      \<and> dy_log u = (d, r, 0, if door_load_has_reply d s \<noteq> 0 then dr_i64Reply (ds_doors s d) else minus_EIO) # dy_log s)"
  using client_wakes [OF assms, of tm] by (auto split: if_split_asm)

definition dserved :: "door_action list" where
  "dserved = dcall @ [D_Resume 0 dclock, D_Reply 0 0 70]"

definition dreply :: "door_sys \<Rightarrow> u32 \<times> i64 \<times> bool" where
  "dreply s = (dr_u32HasReply (ds_doors s 0), dr_i64Reply (ds_doors s 0), case dy_pc s 1 of At_Client d r dl \<Rightarrow> d = 0 \<and> r = dreq 7 \<and> dl = 0 | _ \<Rightarrow> False)"

lemma dserved_run: "map_option dreply (door_run {0} dserved dwit) = Some (1, 70, True)"
  by code_simp

theorem door_client_wakes_witness:
  "\<exists>s u. door_run {0} dserved dwit = Some s \<and> door_act {0} (D_Resume 1 dclock) s = Some u \<and> dy_log u = (0, dreq 7, 0, 70) # dy_log s"
proof -
  obtain s where s: "door_run {0} dserved dwit = Some s" "dreply s = (1, 70, True)" using dserved_run by (cases "door_run {0} dserved dwit") auto
  then have p: "dy_pc s 1 = At_Client 0 (dreq 7) 0" by (cases "dy_pc s 1") (auto simp: dreply_def)
  show ?thesis using door_client_wakes [OF dwit_reach [OF s(1)] _ _ p, of dclock] s by (auto simp: dreply_def door_stores)
qed

text \<open>
  A deadline does not wake a call in flight: whatever the clock says, a client that waits on a live door without a reply is asleep, so the
  \<open>-ETIMEDOUT\<close> that its loop would return is not reached until somebody replies or the door dies.
\<close>

lemma door_deadline_sleeps:
  assumes "reach (door_boot D) (door_step D) s" "d \<in> D" "t < GJ_MAX_THREADS" "dy_pc s t = At_Client d r dl"
    and "door_load_has_reply d s = 0" "dr_u32PeerDead (ds_doors s d) = 0"
  shows "door_act D (D_Resume t tm) s = None"
proof -
  have "slp (ds_threads s) t d DOOR_TAG_CLIENT" using client_wakes [OF assms(1-4), of tm] assms(5,6) by simp
  then have "\<not> on t (ds_threads s)" by (simp add: slp_def on_def)
  then show ?thesis by (simp add: door_act_def)
qed

section \<open>Replies\<close>

text \<open>
  C11: as long as servers answer only what they took and nobody ends a client that is being served, every call that returned got
  the answer to its own request, \<open>-ETIMEDOUT\<close> if it had a deadline, or an error after some thread or door had died.
\<close>

theorem door_reply_own:
  assumes "reach (door_boot D) (proper_step srv D) s" "(d, r, dl, v) \<in> set (dy_log s)"
  shows "v = srv d r \<or> v = minus_ETIMEDOUT \<and> dl \<noteq> 0 \<or> dy_died s \<and> (v = minus_EIO \<or> v = minus_ENOSYS)"
proof -
  have "own srv D s" using rpc.reach_holds [OF assms(1)] by blast
  then show ?thesis using assms(2) unfolding own_def result_ok_def by fastforce
qed

primrec proper_run :: "(nat \<Rightarrow> gj_linux_regs \<Rightarrow> i64) \<Rightarrow> nat set \<Rightarrow> door_action list \<Rightarrow> door_sys \<Rightarrow> bool" where
  "proper_run srv D [] s = True"
| "proper_run srv D (a # as) s = (proper srv a s \<and> (case door_act D a s of None \<Rightarrow> False | Some u \<Rightarrow> proper_run srv D as u))"

lemma proper_run_reach:
  "reach (door_boot D) (proper_step srv D) s \<Longrightarrow> proper_run srv D as s \<Longrightarrow> door_run D as s = Some u \<Longrightarrow> reach (door_boot D) (proper_step srv D) u"
proof (induction as arbitrary: s)
  case (Cons a as)
  then obtain v where v: "proper srv a s" "door_act D a s = Some v" "door_run D as v = Some u" "proper_run srv D as v" by (auto split: option.splits)
  then have "reach (door_boot D) (proper_step srv D) v" using reach_step [OF Cons.prems(1), of v] unfolding proper_step_def by blast
  then show ?case using Cons.IH v(3,4) by blast
qed simp

definition dsrv :: "nat \<Rightarrow> gj_linux_regs \<Rightarrow> i64" where
  "dsrv d r = 10 * rg_u64Nr r"

definition ddone :: "door_action list" where
  "ddone = dserved @ [D_Resume 1 dclock]"

definition dfate :: "door_sys \<Rightarrow> (nat \<times> gj_linux_regs \<times> u64 \<times> i64) list \<times> bool" where
  "dfate s = (dy_log s, dy_died s)"

lemma ddone_run: "proper_run dsrv {0} ddone dwit" "map_option dfate (door_run {0} ddone dwit) = Some ([(0, dreq 7, 0, 70)], False)"
  by code_simp+

theorem door_reply_own_witness:
  "\<exists>s v. door_run {0} ddone dwit = Some s \<and> dy_log s = [(0, dreq 7, 0, v)] \<and> \<not> dy_died s \<and> v = dsrv 0 (dreq 7)"
proof -
  obtain s where s: "door_run {0} ddone dwit = Some s" "dy_log s = [(0, dreq 7, 0, 70)]" "\<not> dy_died s" using ddone_run(2) by (cases "door_run {0} ddone dwit") (auto simp: dfate_def)
  have "reach (door_boot {0}) (proper_step dsrv {0}) dwit" by (rule reach_init) (simp add: dwit_boot)
  from door_reply_own [OF proper_run_reach [OF this ddone_run(1) s(1)], of 0 "dreq 7" 0 70] s show ?thesis by simp
qed

section \<open>Replies of anybody\<close>

lemma claim_got:
  assumes "door_live s (Some d)" "dr_pClient (ds_doors s d) = None"
  shows "call_claim tm d t regs 0 s = Some (Call_Client, door_block t d DOOR_TAG_CLIENT (claim_post d t regs s))"
proof -
  have c: "dr_pClient (ds_doors (claim_post d t regs s) d) = Some t" "dr_u32HasReply (ds_doors (claim_post d t regs s) d) = 0" by (simp_all add: claim_post_eff claimed_def)
  from c(1) have "reply_round (tm 1) d t 0 (claim_post d t regs s) = (Call_Client, door_block t d DOOR_TAG_CLIENT (claim_post d t regs s))"
    by (cases rule: round_split [where tm = "tm 1" and dl = 0]) (use c(2) claimed_live [of d t regs s] assms(1) in \<open>auto simp: past_def\<close>)
  then show ?thesis using assms by (simp add: call_claim_def claim_loop.simps [of tm 0] past_def claim_post_def)
qed










section \<open>Doors outside the table\<close>

text \<open>A door that is not in the table keeps a dead owner: the claim finds it again and again.\<close>

definition stuck :: "nat \<Rightarrow> 'a door_state_scheme \<Rightarrow> bool" where
  "stuck d s \<longleftrightarrow> length (g_aReplySoft s) = DOOR_REPLY_SOFT_SLOTS \<and> length (ds_threads s) = GJ_MAX_THREADS \<and> Some d \<notin> set (tab s) \<and> d \<noteq> ds_cold s \<and> door_live s (Some d)
     \<and> (case dr_pClient (ds_doors s d) of None \<Rightarrow> False | Some h \<Rightarrow> th_u32State (ds_threads s ! h) = GJ_THR_EXITED)"

lemma stuck_cong: "ds_doors u = ds_doors s \<Longrightarrow> ds_threads u = ds_threads s \<Longrightarrow> g_aReplySoft u = g_aReplySoft s \<Longrightarrow> ds_cold u = ds_cold s \<Longrightarrow> st_objs u = st_objs s \<Longrightarrow> stuck d u = stuck d s"
  by (simp add: stuck_def tab_def door_live_def split: option.split)

lemma stuck_exit:
  assumes "stuck d s"
  shows "stuck d (door_on_thread_exit (Some t) s)"
proof -
  let ?u = "door_on_thread_exit (Some t) s"
  have l: "length (g_aReplySoft s) = DOOR_REPLY_SOFT_SLOTS" "length (ds_threads s) = GJ_MAX_THREADS" using assms by (simp_all add: stuck_def)
  note x = on_exit_eff [OF l(1), of t]
  have r: "ds_cold ?u = ds_cold s" "st_objs ?u = st_objs s" "length (g_aReplySoft ?u) = DOOR_REPLY_SOFT_SLOTS" using x(4) l(1) by (simp_all add: rest_def)
  have d: "ds_doors ?u d = ds_doors s d" using x(1) [of d] assms by (simp add: stuck_def)
  obtain h where h: "dr_pClient (ds_doors s d) = Some h" "th_u32State (ds_threads s ! h) = GJ_THR_EXITED" using assms by (auto simp: stuck_def split: option.splits)
  have "\<not> wakes ob tag (ds_threads s ! h)" for ob tag using h(2) by (simp add: wakes_def)
  then have "wks (door_exit_wakes t s) (ds_threads s) ! h = ds_threads s ! h" using wks_entry [OF l(2), of "door_exit_wakes t s" h] by blast
  then have k: "th_u32State (ds_threads ?u ! h) = GJ_THR_EXITED" using h(2) x(2) by simp
  have "Some d \<notin> set (tab ?u)" "d \<noteq> ds_cold ?u" "door_live ?u (Some d)" "length (ds_threads ?u) = GJ_MAX_THREADS"
    using assms l(2) door_live_cong [OF d r(2)] x(2,3) r(1) by (simp_all add: stuck_def)
  then show ?thesis using h(1) k r(3) d by (simp add: stuck_def)
qed

lemma stuck_spins:
  assumes "claim_loop tm k d t dl s = Some y"
  shows "dl = 0 \<longrightarrow> \<not> stuck d s"
proof (rule claim_loop.raw_induct [where P = "\<lambda>tm k d t dl s y. dl = 0 \<longrightarrow> \<not> stuck d s", rotated, OF assms], intro impI notI)
  fix f :: "(nat \<Rightarrow> clock) \<Rightarrow> nat \<Rightarrow> nat \<Rightarrow> nat \<Rightarrow> u64 \<Rightarrow> 'a door_state_scheme \<Rightarrow> (claim_out \<times> 'a door_state_scheme) option" and tm k d t dl s y
  assume ih: "\<And>tm k d t dl s y. f tm k d t dl s = Some y \<Longrightarrow> dl = 0 \<longrightarrow> \<not> stuck d s" and a: "dl = 0" "stuck d s"
    and eq: "(if \<not> door_live s (Some d) then Some (Claim_Ret minus_EIO, s)
      else if past dl (tm k) then Some (Claim_Ret minus_ETIMEDOUT, upd_door d (\<lambda>p. p\<lparr>dr_u64Timeouts := dr_u64Timeouts p + 1\<rparr>) s)
      else (case dr_pClient (ds_doors s d) of
           None \<Rightarrow> Some (Claim_Got (Suc k), upd_door d (\<lambda>p. p\<lparr>dr_pClient := Some t\<rparr>) s)
         | Some pHold \<Rightarrow>
             if th_u32State (ds_threads s ! pHold) = GJ_THR_EXITED \<or> th_u32Id (ds_threads s ! pHold) = 0
             then f tm (Suc k) d t dl (door_on_thread_exit (Some pHold) s)
             else (let s = door_block t d DOOR_TAG_SLOT s
                   in Some (Claim_Wait, if dr_pClient (ds_doors s d) = None \<or> \<not> door_live s (Some d) then door_wake d DOOR_TAG_SLOT 1 s else s)))) = Some y"
  obtain h where h: "dr_pClient (ds_doors s d) = Some h" "th_u32State (ds_threads s ! h) = GJ_THR_EXITED" "door_live s (Some d)" using a(2) by (auto simp: stuck_def split: option.splits)
  then have "f tm (Suc k) d t dl (door_on_thread_exit (Some h) s) = Some y" using eq a(1) by (simp add: past_def)
  from ih [OF this] show False using a(1) stuck_exit [OF a(2), of h] by simp
qed

text \<open>Calls of threads \<open>0\<close> to \<open>k - 1\<close>, each to the door of its number.\<close>

definition lined_up :: "nat \<Rightarrow> door_sys \<Rightarrow> bool" where
  "lined_up k s \<longleftrightarrow> length (g_aReplySoft s) = DOOR_REPLY_SOFT_SLOTS \<and> tab s = map Some [0..<min k 8] @ replicate (8 - k) None \<and> ds_cold s = 100 \<and> st_objs s = st_objs dwit
     \<and> (\<forall>d \<ge> k. ds_doors s d = no_door\<lparr>dr_u32Ready := 1\<rparr> \<and> dy_pc s d = Out) \<and> length (ds_threads s) = GJ_MAX_THREADS
     \<and> (\<forall>t < GJ_MAX_THREADS. k \<le> t \<longrightarrow> ds_threads s ! t = no_thread\<lparr>th_u32Id := 1, th_u32State := GJ_THR_RUNNABLE\<rparr>)"

lemma create_next:
  assumes "length (g_aReplySoft s) = DOOR_REPLY_SOFT_SLOTS" "tab s = map Some [0..<min k 8] @ replicate (8 - k) None"
  shows "tab (door_reply_soft_create k s) = map Some [0..<min (Suc k) 8] @ replicate (8 - Suc k) None"
proof -
  have e: "rs_pDoor (g_aReplySoft s ! i) = tab s ! i" if "i < 8" for i using that assms(1) by (simp add: tab_def)
  have n: "door_reply_soft_find k s = None" using tb_bound [OF assms(1), of k] unfolding assms(2) by auto
  show ?thesis
  proof (cases "k < 8")
    case True
    have "find (\<lambda>i. rs_pDoor (g_aReplySoft s ! i) = None) [0..<DOOR_REPLY_SOFT_SLOTS] = Some k"
      unfolding find_Some_iff
    proof (intro exI [of _ k] conjI allI impI)
      show "rs_pDoor (g_aReplySoft s ! ([0..<8] ! k)) = None" using e [OF True] True by (simp add: assms(2) nth_append)
      show "rs_pDoor (g_aReplySoft s ! ([0..<8] ! j)) \<noteq> None" if "j < k" for j using e [of j] True that by (simp add: assms(2) nth_append)
    qed (use True in auto)
    then have "tab (door_reply_soft_create k s) = (tab s)[k := Some k]" using n True assms(1)
      by (simp add: door_reply_soft_create_def reply_slot_for_def Let_def upd_reply_def tab_def map_update)
    also have "\<dots> = map Some [0..<Suc k] @ replicate (8 - Suc k) None" unfolding assms(2) using True by (auto simp: list_eq_iff_nth_eq nth_append nth_list_update)
    finally show ?thesis using True by (simp add: min_def)
  next
    case False
    have "find (\<lambda>i. rs_pDoor (g_aReplySoft s ! i) = None) [0..<DOOR_REPLY_SOFT_SLOTS] = None" unfolding find_None_iff using False e by (auto simp: assms(2))
    then show ?thesis using n False assms(2) by (simp add: door_reply_soft_create_def reply_slot_for_def)
  qed
qed

lemma lined_up_next:
  assumes "lined_up k s" "k < GJ_MAX_THREADS" "k \<in> D" "k \<noteq> 100"
  shows "\<exists>u. door_act D (D_Call k k (dreq 7) 0 dclock) s = Some u \<and> lined_up (Suc k) u \<and> dr_pClient (ds_doors u k) = Some k \<and> door_live u (Some k) \<and> th_u32State (ds_threads u ! k) = GJ_THR_BLOCKED"
proof -
  let ?v = "claim_post k k (dreq 7) s" let ?u = "after_call k k (dreq 7) 0 (Call_Client, door_block k k DOOR_TAG_CLIENT ?v)"
  have q: "ds_doors s k = no_door\<lparr>dr_u32Ready := 1\<rparr>" "dy_pc s k = Out" "st_objs s = st_objs dwit" "length (ds_threads s) = GJ_MAX_THREADS"
    "ds_threads s ! k = no_thread\<lparr>th_u32Id := 1, th_u32State := GJ_THR_RUNNABLE\<rparr>" "length (g_aReplySoft s) = DOOR_REPLY_SOFT_SLOTS" using assms(1,2) by (auto simp: lined_up_def)
  have l: "door_live s (Some k)" by (simp add: door_live_def q dwit_def no_door_def)
  have o: "on k (ds_threads s)" using assms(2) by (simp add: on_def q)
  have "door_call_timeout dclock (Some k) (Some k) (Some (dreq 7)) 0 s = Some (Call_Client, door_block k k DOOR_TAG_CLIENT ?v)"
    using claim_got [OF l, of dclock k "dreq 7"] l by (auto simp: door_call_timeout_def q no_door_def)
  then have a: "door_act D (D_Call k k (dreq 7) 0 dclock) s = Some ?u" using o assms(3) q(2) by (simp add: door_act_def)
  obtain w :: door_sys where w: "tab w = tab s" "length (g_aReplySoft w) = length (g_aReplySoft s)" "tab ?v = tab (door_reply_soft_create k w)" using claim_post_tab_eq by blast
  have r: "rest ?v = rest s" by (rule claim_post_eff)
  note y = rest_dy [OF r]
  have pw: "post_wakes k (ds_doors s k) = []" by (simp add: post_wakes_def q no_door_def)
  have t: "tab ?u = map Some [0..<min (Suc k) 8] @ replicate (8 - Suc k) None" unfolding after_call_dy tab_prims w(3) by (rule create_next) (use w q(6) assms(1) in \<open>simp_all add: lined_up_def\<close>)
  have len: "length (g_aReplySoft ?u) = DOOR_REPLY_SOFT_SLOTS" using t by (metis (no_types, lifting) r q(6) after_call_dy(3) door_block_eff(4) length_map rest_def prod.inject tab_def)
  have c: "ds_cold ?u = ds_cold s" using r by (simp add: set_dpc_def rest_def)
  note e = after_call_dy door_block_eff claim_post_eff y pw
  have "lined_up (Suc k) ?u" unfolding lined_up_def
  proof (intro conjI)
    show "\<forall>d \<ge> Suc k. ds_doors ?u d = no_door\<lparr>dr_u32Ready := 1\<rparr> \<and> dy_pc ?u d = Out" unfolding e rest_dy [OF door_block_eff(4)] y using assms(1) by (simp add: lined_up_def)
    show "\<forall>i < GJ_MAX_THREADS. Suc k \<le> i \<longrightarrow> ds_threads ?u ! i = no_thread\<lparr>th_u32Id := 1, th_u32State := GJ_THR_RUNNABLE\<rparr>"
      unfolding e using assms(1) by (simp add: lined_up_def thread_block_def)
  qed (use len t c assms(1) in \<open>simp_all only: e, auto simp: lined_up_def thread_block_def\<close>)
  moreover have "dr_pClient (ds_doors ?u k) = Some k" unfolding e by (simp add: claimed_def)
  moreover have "door_live ?u (Some k)" using door_live_cong [of ?u k ?v] claimed_live [of k k "dreq 7" s] l by (simp only: after_call_dy door_block_eff)
  moreover have "th_u32State (ds_threads ?u ! k) = GJ_THR_BLOCKED" unfolding e using assms(2) q(4) by (simp add: thread_block_def)
  ultimately show ?thesis using a by blast
qed


lemma door_run_snoc: "door_run D (as @ [a]) s = (case door_run D as s of None \<Rightarrow> None | Some u \<Rightarrow> door_act D a u)"
  by (induction as arbitrary: s) (auto split: option.splits)

lemma lined_up_run:
  assumes "k \<le> GJ_MAX_THREADS" "{0..<k} \<subseteq> D"
  shows "\<exists>u. door_run D (map (\<lambda>d. D_Call d d (dreq 7) 0 dclock) [0..<k]) dwit = Some u \<and> lined_up k u \<and> (0 < k \<longrightarrow> dr_pClient (ds_doors u (k - 1)) = Some (k - 1) \<and> door_live u (Some (k - 1)) \<and> th_u32State (ds_threads u ! (k - 1)) = GJ_THR_BLOCKED)"
  using assms
proof (induction k)
  case 0
  then show ?case by (auto simp: lined_up_def dwit_def tab_def no_reply_def)
next
  case (Suc k)
  have "{0..<k} \<subseteq> D" using Suc.prems(2) by auto
  then obtain u where u: "door_run D (map (\<lambda>d. D_Call d d (dreq 7) 0 dclock) [0..<k]) dwit = Some u" "lined_up k u" using Suc.IH Suc.prems(1) by auto
  obtain v where v: "door_act D (D_Call k k (dreq 7) 0 dclock) u = Some v" "lined_up (Suc k) v" "dr_pClient (ds_doors v k) = Some k" "door_live v (Some k)" "th_u32State (ds_threads v ! k) = GJ_THR_BLOCKED"
    using lined_up_next [OF u(2), of D] Suc.prems by fastforce
  then show ?case using u(1) by (auto simp: door_run_snoc)
qed

definition dnine :: "door_action list" where
  "dnine = map (\<lambda>d. D_Call d d (dreq 7) 0 dclock) [0..<9] @ [D_Kill 8]"

lemma dnine_run: "\<exists>s. door_run {0..<9} dnine dwit = Some s \<and> stuck 8 s"
proof -
  obtain u where u: "door_run {0..<9} (map (\<lambda>d. D_Call d d (dreq 7) 0 dclock) [0..<9]) dwit = Some u" "lined_up 9 u" "dr_pClient (ds_doors u 8) = Some 8" "door_live u (Some 8)" "th_u32State (ds_threads u ! 8) = GJ_THR_BLOCKED"
    using lined_up_run [of 9 "{0..<9}"] by auto
  let ?s1 = "upd_thread 8 exit_scrub u" let ?v = "door_on_thread_exit (Some 8) ?s1"
  have "stuck 8 ?s1" using u(2-4) door_live_cong [of ?s1 8 u] by (simp add: stuck_def lined_up_def upd_thread_def tab_def exit_scrub_def image_iff)
  then have "stuck 8 ?v" by (rule stuck_exit)
  then have "stuck 8 (set_dpc 8 Out (?v\<lparr>dy_held := (dy_held ?v)(8 := \<lambda>_. None), dy_died := True\<rparr>))" using stuck_cong [of "set_dpc 8 Out (?v\<lparr>dy_held := (dy_held ?v)(8 := \<lambda>_. None), dy_died := True\<rparr>)" ?v] by (simp add: set_dpc_def)
  moreover have "door_act {0..<9} (D_Kill 8) u = Some (set_dpc 8 Out (?v\<lparr>dy_held := (dy_held ?v)(8 := \<lambda>_. None), dy_died := True\<rparr>))"
    using u(5) by (simp add: door_act_def Let_def)
  ultimately show ?thesis using u(1) unfolding dnine_def door_run_snoc by simp
qed

text \<open>
  C16: with nine doors a call without a deadline can loop in the kernel for ever.  The ninth door finds no slot in the table of
  rights, so the end of its client does not free it; the next caller finds the dead owner, cleans up after it without
  effect and starts again.
\<close>

theorem door_ninth_spins:
  "\<exists>s. door_run {0..<9} dnine dwit = Some s \<and> door_live s (Some 8) \<and> (\<forall>t regs tm. door_call tm (Some t) (Some 8) (Some regs) s = None)"
proof -
  obtain s where s: "door_run {0..<9} dnine dwit = Some s" "stuck 8 s" using dnine_run by blast
  have l: "door_live s (Some 8)" using s(2) by (simp add: stuck_def)
  have "claim_loop tm 0 8 t 0 s = None" for t tm using stuck_spins [of tm 0 8 t 0 s] s(2) by (cases "claim_loop tm 0 8 t 0 s") auto
  then have "door_call tm (Some t) (Some 8) (Some regs) s = None" for t regs tm
    using l by (auto simp: door_call_def door_call_timeout_def call_claim_def door_live_def split: if_splits)
  then show ?thesis using s(1) l by blast
qed

section \<open>The end of a thread\<close>

text \<open>
  C14: when a thread ends, no door in the table and not the cold door is left naming it; a client it had taken a request from or
  was to serve gets \<open>-EIO\<close>; doors it had no part in are unchanged; and the threads woken are those of the list of
  wakes that the scheduler's \<^verbatim>\<open>thread_exit\<close> and \<^verbatim>\<open>thread_exit_process\<close> are given.
\<close>

theorem door_exit_exact:
  assumes "length (g_aReplySoft s) = DOOR_REPLY_SOFT_SLOTS"
  shows "let u = door_on_thread_exit (Some t) s; p = ds_doors s d; q = ds_doors u d
    in (d = ds_cold s \<or> Some d \<in> set (map rs_pDoor (g_aReplySoft s)) \<longrightarrow> dr_pClient q \<noteq> Some t \<and> dr_pServer q \<noteq> Some t
          \<and> (dr_pServer p = Some t \<and> dr_pClient p \<noteq> None \<and> dr_pClient p \<noteq> Some t \<and> dr_u32HasReply p = 0
               \<longrightarrow> dr_pClient q = dr_pClient p \<and> dr_u32HasReply q = 1 \<and> dr_i64Reply q = minus_EIO \<and> dr_u32HasReq q = 0))
      \<and> (d \<noteq> ds_cold s \<and> Some d \<notin> set (map rs_pDoor (g_aReplySoft s)) \<or> dr_pClient p \<noteq> Some t \<and> dr_pServer p \<noteq> Some t \<longrightarrow> q = p)
      \<and> (sc_threads c = ds_threads s \<longrightarrow> ds_threads u = sc_threads (do_wakes (door_exit_wakes t s) c))"
proof -
  let ?p = "ds_doors s d"
  note x = on_exit_eff [OF assms, of t]
  have e: "dr_pClient (exit_door t ?p) \<noteq> Some t" "dr_pServer (exit_door t ?p) \<noteq> Some t"
    "dr_pClient ?p \<noteq> Some t \<Longrightarrow> dr_pServer ?p \<noteq> Some t \<Longrightarrow> exit_door t ?p = ?p"
    "dr_pServer ?p = Some t \<Longrightarrow> dr_pClient ?p \<noteq> None \<Longrightarrow> dr_pClient ?p \<noteq> Some t \<Longrightarrow> dr_u32HasReply ?p = 0
      \<Longrightarrow> dr_pClient (exit_door t ?p) = dr_pClient ?p \<and> dr_u32HasReply (exit_door t ?p) = 1 \<and> dr_i64Reply (exit_door t ?p) = minus_EIO \<and> dr_u32HasReq (exit_door t ?p) = 0"
    by (auto simp: exit_door_def)
  have w: "sc_threads c = ds_threads s \<longrightarrow> ds_threads (door_on_thread_exit (Some t) s) = sc_threads (do_wakes (door_exit_wakes t s) c)"
    by (simp add: x(2) do_wakes_wks)
  show ?thesis
  proof (cases "d = ds_cold s \<or> Some d \<in> set (map rs_pDoor (g_aReplySoft s))")
    case True
    then have "ds_doors (door_on_thread_exit (Some t) s) d = exit_door t ?p" using x(1) [of d] by (simp add: tab_def)
    then show ?thesis using True e w unfolding Let_def by metis
  next
    case False
    then have "ds_doors (door_on_thread_exit (Some t) s) d = ?p" using x(1) [of d] by (simp add: tab_def)
    then show ?thesis using False w unfolding Let_def by blast
  qed
qed

lemma dserving_run: "map_option (\<lambda>s. (length (g_aReplySoft s), dr_pServer (ds_doors s 0), dr_pClient (ds_doors s 0), dr_u32HasReply (ds_doors s 0), rs_pDoor (hd (g_aReplySoft s))))
    (door_run {0} (dcall @ [D_Resume 0 dclock]) dwit) = Some (8, Some 0, Some 1, 0, Some 0)"
  by code_simp

theorem door_exit_exact_witness:
  "\<exists>s. door_run {0} (dcall @ [D_Resume 0 dclock]) dwit = Some s \<and> dr_i64Reply (ds_doors (door_on_thread_exit (Some 0) s) 0) = minus_EIO"
proof -
  obtain s where s: "door_run {0} (dcall @ [D_Resume 0 dclock]) dwit = Some s" "length (g_aReplySoft s) = 8" "dr_pServer (ds_doors s 0) = Some 0" "dr_pClient (ds_doors s 0) = Some 1"
      "dr_u32HasReply (ds_doors s 0) = 0" "rs_pDoor (hd (g_aReplySoft s)) = Some 0"
    using dserving_run by (cases "door_run {0} (dcall @ [D_Resume 0 dclock]) dwit") auto
  have "hd (g_aReplySoft s) \<in> set (g_aReplySoft s)" using s(2) by (intro hd_in_set) auto
  then have "Some 0 \<in> set (map rs_pDoor (g_aReplySoft s))" using s(6) by force
  then show ?thesis using door_exit_exact [OF s(2), of 0 0] s unfolding Let_def by (metis option.distinct(1) option.inject zero_neq_one)
qed

end
