(* ===== verification/Input_Hub.thy ===== *)
theory Input_Hub
  imports GJ_Interfaces
begin

text \<open>
  The input hub, \<^verbatim>\<open>kernel/session/input_hub.c\<close>: events of the input device and of soft sources go through one ring of 64
  entries to the clients of the session; a full ring drops its oldest event.  The device is an argument: whether
  \<^verbatim>\<open>virtio_input_ready\<close> holds, and the events successive calls of \<^verbatim>\<open>virtio_input_poll\<close> hand out, of which an operation returns
  what it left.  The inventory (\<^verbatim>\<open>g_u32Soft*\<close>) and its logs are left out; the self-check of \<^verbatim>\<open>session_input_init\<close>
  works on the ring itself and is part of the model.
\<close>

section \<open>Operations\<close>

abbreviation (input) GJ_INPUT_RING :: nat where "GJ_INPUT_RING \<equiv> 64"
abbreviation (input) GJ_INPUT_POLL_MAX :: nat where "GJ_INPUT_POLL_MAX \<equiv> 256"
abbreviation (input) GJ_INPUT_SRC_VIRTIO :: u32 where "GJ_INPUT_SRC_VIRTIO \<equiv> 0"
abbreviation (input) GJ_INPUT_SRC_SOFT :: u32 where "GJ_INPUT_SRC_SOFT \<equiv> 1"
abbreviation (input) GJ_INPUT_SRC_MAX :: u32 where "GJ_INPUT_SRC_MAX \<equiv> 2"

record gj_input_event =
  ev_u16Type :: u16
  ev_u16Code :: u16
  ev_i32Value :: u32

definition no_event :: gj_input_event where
  "no_event = \<lparr>ev_u16Type = 0, ev_u16Code = 0, ev_i32Value = 0\<rparr>"

record input_hub =
  g_aRing :: "gj_input_event list"
  g_u32Head :: u32
  g_u32Len :: u32
  g_u32Pushed :: u32
  g_u32Dropped :: u32
  g_u32PeakPending :: u32
  g_u32PollBursts :: u32
  g_aPushedSrc :: "u32 list"
  g_fReady :: bool

definition input_ring_sane :: "input_hub \<Rightarrow> bool \<times> input_hub" where
  "input_ring_sane s =
     (if 64 \<le> g_u32Head s \<or> 64 < g_u32Len s
      then (False, s\<lparr>g_u32Head := 0, g_u32Len := 0, g_aRing := replicate GJ_INPUT_RING no_event\<rparr>)
      else (True, s))"

definition input_note_pending :: "input_hub \<Rightarrow> input_hub" where
  "input_note_pending s = (if g_u32PeakPending s < g_u32Len s then s\<lparr>g_u32PeakPending := g_u32Len s\<rparr> else s)"

definition input_enqueue :: "u32 \<Rightarrow> gj_input_event option \<Rightarrow> input_hub \<Rightarrow> input_hub" where
  "input_enqueue u32Src pEv s =
     (case pEv of
        None \<Rightarrow> s
      | Some ev \<Rightarrow>
          if GJ_INPUT_SRC_MAX \<le> u32Src then s
          else
            (let s = (if 64 \<le> g_u32Len s
                      then s\<lparr>g_u32Head := (g_u32Head s + 1) mod 64, g_u32Len := g_u32Len s - 1, g_u32Dropped := g_u32Dropped s + 1\<rparr>
                      else s);
                 u32Pos = (g_u32Head s + g_u32Len s) mod 64;
                 s = s\<lparr>g_aRing := (g_aRing s)[unat u32Pos := ev]\<rparr>;
                 s = s\<lparr>g_u32Len := g_u32Len s + 1, g_u32Pushed := g_u32Pushed s + 1,
                        g_aPushedSrc := (g_aPushedSrc s)[unat u32Src := g_aPushedSrc s ! unat u32Src + 1]\<rparr>
             in input_note_pending s))"

text \<open>The loop over the device: rounds left, events it hands out; the result has the number of events taken.\<close>

fun poll_loop :: "nat \<Rightarrow> gj_input_event list \<Rightarrow> input_hub \<Rightarrow> nat \<times> gj_input_event list \<times> input_hub" where
  "poll_loop 0 evs s = (0, evs, s)"
| "poll_loop (Suc n) [] s = (0, [], s)"
| "poll_loop (Suc n) (ev # evs) s =
     (case poll_loop n evs (input_enqueue GJ_INPUT_SRC_VIRTIO (Some ev) s) of (u32Burst, rest, s) \<Rightarrow> (Suc u32Burst, rest, s))"

definition session_input_poll :: "bool \<Rightarrow> gj_input_event list \<Rightarrow> input_hub \<Rightarrow> gj_input_event list \<times> input_hub" where
  "session_input_poll fDev evs s =
     (if \<not> fDev then (evs, s)
      else
        (let s = s\<lparr>g_fReady := True\<rparr>;
             s = snd (input_ring_sane s);
             r = poll_loop GJ_INPUT_POLL_MAX evs s;
             s = snd (snd r)
         in (fst (snd r), if fst r \<noteq> 0 then s\<lparr>g_u32PollBursts := g_u32PollBursts s + 1\<rparr> else s)))"

definition session_input_push_from :: "u32 \<Rightarrow> gj_input_event option \<Rightarrow> input_hub \<Rightarrow> bool \<times> input_hub" where
  "session_input_push_from u32Src pEv s =
     (if pEv = None then (False, s)
      else if GJ_INPUT_SRC_MAX \<le> u32Src then (False, s)
      else (True, input_enqueue u32Src pEv (snd (input_ring_sane s))))"

text \<open>Taking the first event, behind the guards.\<close>

definition pop_head :: "input_hub \<Rightarrow> gj_input_event \<times> input_hub" where
  "pop_head s = (g_aRing s ! unat (g_u32Head s), s\<lparr>g_u32Head := (g_u32Head s + 1) mod 64, g_u32Len := g_u32Len s - 1\<rparr>)"

definition session_input_pop ::
  "bool \<Rightarrow> bool \<Rightarrow> gj_input_event list \<Rightarrow> input_hub \<Rightarrow> gj_input_event option \<times> gj_input_event list \<times> input_hub" where
  "session_input_pop fOut fDev evs s =
     (if \<not> fOut then (None, evs, s)
      else if \<not> fst (input_ring_sane s) then (None, evs, snd (input_ring_sane s))
      else if g_u32Len s = 0
        then (let r = session_input_poll fDev evs s;
                  t = input_ring_sane (snd r)
              in if \<not> fst t \<or> g_u32Len (snd t) = 0 then (None, fst r, snd t)
                 else (Some (fst (pop_head (snd t))), fst r, snd (pop_head (snd t))))
      else (Some (fst (pop_head s)), evs, snd (pop_head s)))"

text \<open>The self-check at initialisation, as far as it calls the hub; the device is not asked, since the ring is not empty.\<close>

definition lean_event :: gj_input_event where
  "lean_event = \<lparr>ev_u16Type = 0, ev_u16Code = 0xA11, ev_i32Value = 0x51C0\<rparr>"

definition soft_residual_lean_once :: "bool \<Rightarrow> gj_input_event list \<Rightarrow> input_hub \<Rightarrow> input_hub" where
  "soft_residual_lean_once fDev evs s =
     (let s = snd (session_input_push_from GJ_INPUT_SRC_SOFT None s);
          s = snd (session_input_push_from GJ_INPUT_SRC_MAX (Some lean_event) s);
          s = snd (snd (session_input_pop False fDev evs s));
          s = snd (session_input_push_from GJ_INPUT_SRC_SOFT (Some lean_event) s)
      in snd (snd (session_input_pop True fDev evs s)))"

definition session_input_init :: "bool \<Rightarrow> gj_input_event list \<Rightarrow> input_hub" where
  "session_input_init fDev evs =
     soft_residual_lean_once fDev evs
       \<lparr>g_aRing = replicate GJ_INPUT_RING no_event, g_u32Head = 0, g_u32Len = 0, g_u32Pushed = 0, g_u32Dropped = 0, g_u32PeakPending = 0,
        g_u32PollBursts = 0, g_aPushedSrc = [0, 0], g_fReady = fDev\<rparr>"

definition session_input_pushed :: "input_hub \<Rightarrow> u32" where
  "session_input_pushed s = g_u32Pushed s"

definition session_input_dropped :: "input_hub \<Rightarrow> u32" where
  "session_input_dropped s = g_u32Dropped s"

definition session_input_pending :: "input_hub \<Rightarrow> u32 \<times> input_hub" where
  "session_input_pending s = (let r = input_ring_sane s in (if \<not> fst r then 0 else g_u32Len (snd r), snd r))"

definition session_input_peak_pending :: "input_hub \<Rightarrow> u32" where
  "session_input_peak_pending s = g_u32PeakPending s"

definition session_input_poll_bursts :: "input_hub \<Rightarrow> u32" where
  "session_input_poll_bursts s = g_u32PollBursts s"

definition session_input_pushed_src :: "u32 \<Rightarrow> input_hub \<Rightarrow> u32" where
  "session_input_pushed_src u32Src s = (if GJ_INPUT_SRC_MAX \<le> u32Src then 0 else g_aPushedSrc s ! unat u32Src)"

definition session_input_ready :: "input_hub \<Rightarrow> bool" where
  "session_input_ready s = g_fReady s"

section \<open>The ring as a queue\<close>

definition hub_ok :: "input_hub \<Rightarrow> bool" where
  "hub_ok s \<longleftrightarrow> length (g_aRing s) = GJ_INPUT_RING \<and> length (g_aPushedSrc s) = 2 \<and> g_u32Head s < 64 \<and> g_u32Len s \<le> 64"

definition hub_items :: "input_hub \<Rightarrow> gj_input_event list" where
  "hub_items s = map (\<lambda>i. g_aRing s ! ((unat (g_u32Head s) + i) mod GJ_INPUT_RING)) [0..<unat (g_u32Len s)]"

lemma ring_next: "h < 64 \<Longrightarrow> unat ((h + 1) mod (64 :: u32)) = (unat h + 1) mod 64 \<and> (h + 1) mod 64 < (64 :: u32)"
proof -
  assume h: "h < 64"
  then have "unat h < 64" by (simp add: word_less_nat_alt)
  then have "unat (h + 1) = unat h + 1" by (simp add: unat_word_ariths)
  then show ?thesis by (simp add: unat_mod_distrib word_less_nat_alt)
qed

lemma ring_pos: "h < 64 \<Longrightarrow> l \<le> 64 \<Longrightarrow> unat ((h + l) mod (64 :: u32)) = (unat h + unat l) mod 64"
proof -
  assume "h < 64" "l \<le> 64"
  then have "unat h < 64" "unat l \<le> 64" by (simp_all add: word_less_nat_alt word_le_nat_alt)
  then have "unat (h + l) = unat h + unat l" by (simp add: unat_word_ariths)
  then show ?thesis by (simp add: unat_mod_distrib)
qed

lemma len_bounds: "(l :: u32) \<le> 64 \<Longrightarrow> unat l \<le> 64" "(l :: u32) < 64 \<Longrightarrow> unat (l + 1) = unat l + 1 \<and> l + 1 \<le> 64" "(l :: u32) \<noteq> 0 \<Longrightarrow> l \<le> 64 \<Longrightarrow> unat (l - 1) = unat l - 1 \<and> l - 1 < 64"
proof -
  show "(l :: u32) \<le> 64 \<Longrightarrow> unat l \<le> 64" by (simp add: word_le_nat_alt)
  show "(l :: u32) < 64 \<Longrightarrow> unat (l + 1) = unat l + 1 \<and> l + 1 \<le> 64" by (simp add: word_less_nat_alt word_le_nat_alt unat_word_ariths)
  assume l: "(l :: u32) \<noteq> 0" "l \<le> 64"
  then have "unat (l - 1) = unat l - 1" "0 < unat l" by (simp_all add: unat_minus_one unat_gt_0 word_neq_0_conv)
  then show "unat (l - 1) = unat l - 1 \<and> l - 1 < 64" using l(2) by (simp add: word_le_nat_alt word_less_nat_alt)
qed

lemma sane_ok: "hub_ok s \<Longrightarrow> input_ring_sane s = (True, s)"
  by (auto simp: input_ring_sane_def hub_ok_def)

lemma pop_head_items:
  assumes "hub_ok s" "g_u32Len s \<noteq> 0"
  shows "hub_ok (snd (pop_head s)) \<and> hub_items s = fst (pop_head s) # hub_items (snd (pop_head s))"
proof -
  have h: "g_u32Head s < 64" "g_u32Len s \<le> 64" using assms(1) by (simp_all add: hub_ok_def)
  obtain n where n: "unat (g_u32Len s) = Suc n" using assms(2) by (cases "unat (g_u32Len s)") (auto simp: unat_eq_0)
  have hh: "unat (g_u32Head s) < 64" using h(1) by (simp add: word_less_nat_alt)
  note r = ring_next [OF h(1)] and l = len_bounds(3) [OF assms(2) h(2)]
  have m: "(Suc (unat (g_u32Head s)) mod 64 + i) mod 64 = Suc (unat (g_u32Head s) + i) mod 64" for i by (simp add: mod_add_left_eq)
  have "hub_items s = g_aRing s ! ((unat (g_u32Head s) + 0) mod 64) # map (\<lambda>i. g_aRing s ! ((unat (g_u32Head s) + Suc i) mod 64)) [0..<n]"
    unfolding hub_items_def n by (simp add: upt_conv_Cons map_Suc_upt [symmetric] del: upt_Suc)
  then show ?thesis using assms(1) r l n hh by (auto simp: pop_head_def hub_ok_def hub_items_def m)
qed

lemma ring_inj:
  assumes "i < j" "j < 64"
  shows "((h :: nat) + i) mod 64 \<noteq> (h + j) mod 64"
proof
  assume "(h + i) mod 64 = (h + j) mod 64"
  then have "64 dvd j - i" using mod_eq_dvd_iff_nat [of "h + i" "h + j" 64] assms(1) by simp
  then show False using assms by (auto dest: dvd_imp_le)
qed

text \<open>Storing behind the last event of a ring that is not full.\<close>

lemma store_items:
  assumes "hub_ok s" "g_u32Len s < 64"
  shows "hub_items (s\<lparr>g_aRing := (g_aRing s)[unat ((g_u32Head s + g_u32Len s) mod 64) := ev], g_u32Len := g_u32Len s + 1\<rparr>) = hub_items s @ [ev]"
proof -
  have h: "g_u32Head s < 64" "g_u32Len s \<le> 64" "unat (g_u32Len s) < 64" "length (g_aRing s) = 64" using assms by (simp_all add: hub_ok_def word_less_nat_alt)
  have l: "unat (g_u32Len s + 1) = Suc (unat (g_u32Len s))" using len_bounds(2) [OF assms(2)] by simp
  let ?p = "(unat (g_u32Head s) + unat (g_u32Len s)) mod 64"
  have "(g_aRing s)[?p := ev] ! ((unat (g_u32Head s) + i) mod 64) = g_aRing s ! ((unat (g_u32Head s) + i) mod 64)" if "i < unat (g_u32Len s)" for i
  proof -
    have "(unat (g_u32Head s) + i) mod 64 \<noteq> ?p" using ring_inj [OF that h(3)] by simp
    then show ?thesis by simp
  qed
  then show ?thesis by (simp add: hub_items_def ring_pos [OF h(1,2)] l h(4))
qed

lemma enqueue_items:
  assumes "hub_ok s" "u32Src < GJ_INPUT_SRC_MAX"
  shows "hub_ok (input_enqueue u32Src (Some ev) s) \<and> hub_items (input_enqueue u32Src (Some ev) s) = newest GJ_INPUT_RING (hub_items s @ [ev])"
    "g_u32Pushed (input_enqueue u32Src (Some ev) s) - g_u32Dropped (input_enqueue u32Src (Some ev) s) - g_u32Len (input_enqueue u32Src (Some ev) s) = g_u32Pushed s - g_u32Dropped s - g_u32Len s"
proof -
  define t where "t = (if 64 \<le> g_u32Len s then (snd (pop_head s))\<lparr>g_u32Dropped := g_u32Dropped s + 1\<rparr> else s)"
  have t: "hub_ok t" "g_u32Len t < 64" "hub_items t = (if 64 \<le> g_u32Len s then tl (hub_items s) else hub_items s)"
    "g_u32Pushed t = g_u32Pushed s" "g_u32Pushed t - g_u32Dropped t - g_u32Len t = g_u32Pushed s - g_u32Dropped s - g_u32Len s"
  proof -
    have l: "g_u32Len s \<le> 64" using assms(1) by (simp add: hub_ok_def)
    have full: "g_u32Len s \<noteq> 0" if "64 \<le> g_u32Len s" using that by auto
    note p = pop_head_items [OF assms(1) full] and b = len_bounds(3) [OF full l]
    show "hub_ok t" "g_u32Len t < 64" "hub_items t = (if 64 \<le> g_u32Len s then tl (hub_items s) else hub_items s)"
      "g_u32Pushed t = g_u32Pushed s" "g_u32Pushed t - g_u32Dropped t - g_u32Len t = g_u32Pushed s - g_u32Dropped s - g_u32Len s"
      using assms(1) p b by (auto simp: t_def hub_ok_def pop_head_def hub_items_def)
  qed
  let ?v = "t\<lparr>g_aRing := (g_aRing t)[unat ((g_u32Head t + g_u32Len t) mod 64) := ev], g_u32Len := g_u32Len t + 1, g_u32Pushed := g_u32Pushed t + 1,
    g_aPushedSrc := (g_aPushedSrc t)[unat u32Src := g_aPushedSrc t ! unat u32Src + 1]\<rparr>"
  have e: "input_enqueue u32Src (Some ev) s = input_note_pending ?v" using assms(2) by (simp add: input_enqueue_def t_def pop_head_def Let_def not_le)
  have n: "hub_ok (input_note_pending x) = hub_ok x" "hub_items (input_note_pending x) = hub_items x" "g_u32Pushed (input_note_pending x) = g_u32Pushed x"
    "g_u32Dropped (input_note_pending x) = g_u32Dropped x" "g_u32Len (input_note_pending x) = g_u32Len x" for x
    by (simp_all add: input_note_pending_def hub_ok_def hub_items_def)
  have "hub_items ?v = hub_items t @ [ev]" using store_items [OF t(1,2), of ev] by (simp add: hub_items_def)
  moreover have "hub_ok ?v" using t(1) len_bounds(2) [OF t(2)] by (simp add: hub_ok_def)
  moreover have "newest 64 (hub_items s @ [ev]) = (if 64 \<le> g_u32Len s then tl (hub_items s) else hub_items s) @ [ev]"
  proof -
    have "length (hub_items s) = unat (g_u32Len s)" "unat (g_u32Len s) \<le> 64" using assms(1) len_bounds(1) by (auto simp: hub_items_def hub_ok_def)
    then show ?thesis by (auto simp: newest_def word_le_nat_alt drop_Suc)
  qed
  ultimately show "hub_ok (input_enqueue u32Src (Some ev) s) \<and> hub_items (input_enqueue u32Src (Some ev) s) = newest GJ_INPUT_RING (hub_items s @ [ev])" unfolding e n t(3) by simp
  show "g_u32Pushed (input_enqueue u32Src (Some ev) s) - g_u32Dropped (input_enqueue u32Src (Some ev) s) - g_u32Len (input_enqueue u32Src (Some ev) s) = g_u32Pushed s - g_u32Dropped s - g_u32Len s"
    unfolding e n using t(4,5) by (simp add: algebra_simps)
qed

interpretation hub: newest_queue hub_ok hub_items GJ_INPUT_RING "\<lambda>ev. input_enqueue GJ_INPUT_SRC_VIRTIO (Some ev)"
proof unfold_locales
  show "length (hub_items s) \<le> GJ_INPUT_RING" if "hub_ok s" for s using that len_bounds(1) by (auto simp: hub_items_def hub_ok_def)
qed (use enqueue_items(1) [of _ GJ_INPUT_SRC_VIRTIO] in auto)

text \<open>What the counters say was taken out.\<close>

definition taken :: "input_hub \<Rightarrow> u32" where
  "taken s = g_u32Pushed s - g_u32Dropped s - g_u32Len s"

lemma poll_loop_eq: "poll_loop n evs s = (min n (length evs), drop n evs, fold (\<lambda>ev. input_enqueue GJ_INPUT_SRC_VIRTIO (Some ev)) (take n evs) s)"
  by (induction n evs s rule: poll_loop.induct) (auto simp: min_def)

lemma fold_taken: "hub_ok s \<Longrightarrow> taken (fold (\<lambda>ev. input_enqueue GJ_INPUT_SRC_VIRTIO (Some ev)) evs s) = taken s"
proof (induction evs arbitrary: s)
  case (Cons ev evs)
  then show ?case using enqueue_items [of s GJ_INPUT_SRC_VIRTIO ev] by (simp add: taken_def)
qed simp

lemma poll_items:
  assumes "hub_ok s" "session_input_poll fDev evs s = (rest, t)"
  shows "rest = (if fDev then drop GJ_INPUT_POLL_MAX evs else evs) \<and> hub_ok t \<and> taken t = taken s
    \<and> hub_items t = (if fDev then newest GJ_INPUT_RING (hub_items s @ take GJ_INPUT_POLL_MAX evs) else hub_items s)"
proof (cases fDev)
  case True
  let ?s = "s\<lparr>g_fReady := True\<rparr>" let ?t = "fold (\<lambda>ev. input_enqueue GJ_INPUT_SRC_VIRTIO (Some ev)) (take GJ_INPUT_POLL_MAX evs) ?s"
  have s: "hub_ok ?s" "hub_items ?s = hub_items s" "taken ?s = taken s" using assms(1) by (simp_all add: hub_ok_def hub_items_def taken_def)
  have t: "rest = drop GJ_INPUT_POLL_MAX evs" "t = ?t \<or> t = ?t\<lparr>g_u32PollBursts := g_u32PollBursts ?t + 1\<rparr>"
    using assms(2) True sane_ok [OF s(1)] by (auto simp: session_input_poll_def Let_def poll_loop_eq)
  have "hub_ok t = hub_ok ?t" "hub_items t = hub_items ?t" "taken t = taken ?t" using t(2) by (auto simp: hub_ok_def hub_items_def taken_def)
  then show ?thesis using True t(1) hub.push_all [OF s(1)] fold_taken [OF s(1)] s(2,3) by simp
qed (use assms in \<open>auto simp: session_input_poll_def\<close>)

section \<open>Refinement\<close>

datatype hub_op = H_Push u32 "gj_input_event option" | H_Poll bool "gj_input_event list" | H_Pop bool bool "gj_input_event list" | H_Pending

definition hub_exec :: "hub_op \<Rightarrow> input_hub \<Rightarrow> gj_input_event option \<times> input_hub" where
  "hub_exec a s = (case a of
      H_Push src pEv \<Rightarrow> (None, snd (session_input_push_from src pEv s))
    | H_Poll fDev evs \<Rightarrow> (None, snd (session_input_poll fDev evs s))
    | H_Pop fOut fDev evs \<Rightarrow> (case session_input_pop fOut fDev evs s of (r, _, s) \<Rightarrow> (r, s))
    | H_Pending \<Rightarrow> (None, snd (session_input_pending s)))"

text \<open>The same on a list of events.\<close>

definition fifo_exec :: "hub_op \<Rightarrow> gj_input_event list \<Rightarrow> gj_input_event option \<times> gj_input_event list" where
  "fifo_exec a q = (case a of
      H_Push src pEv \<Rightarrow> (None, case pEv of None \<Rightarrow> q | Some ev \<Rightarrow> if src < GJ_INPUT_SRC_MAX then newest GJ_INPUT_RING (q @ [ev]) else q)
    | H_Poll fDev evs \<Rightarrow> (None, if fDev then newest GJ_INPUT_RING (q @ take GJ_INPUT_POLL_MAX evs) else q)
    | H_Pop fOut fDev evs \<Rightarrow>
        if \<not> fOut then (None, q)
        else (case if q = [] \<and> fDev then newest GJ_INPUT_RING (take GJ_INPUT_POLL_MAX evs) else q of [] \<Rightarrow> (None, []) | ev # q \<Rightarrow> (Some ev, q))
    | H_Pending \<Rightarrow> (None, q))"

fun hub_run :: "hub_op list \<Rightarrow> input_hub \<Rightarrow> gj_input_event list \<times> input_hub" where
  "hub_run [] s = ([], s)"
| "hub_run (a # as) s = (let r = hub_exec a s; q = hub_run as (snd r) in ((case fst r of None \<Rightarrow> fst q | Some ev \<Rightarrow> ev # fst q), snd q))"

fun fifo_run :: "hub_op list \<Rightarrow> gj_input_event list \<Rightarrow> gj_input_event list \<times> gj_input_event list" where
  "fifo_run [] q = ([], q)"
| "fifo_run (a # as) q = (let r = fifo_exec a q; p = fifo_run as (snd r) in ((case fst r of None \<Rightarrow> fst p | Some ev \<Rightarrow> ev # fst p), snd p))"

lemma len_items: "hub_ok s \<Longrightarrow> g_u32Len s = 0 \<longleftrightarrow> hub_items s = []"
  by (simp add: hub_items_def unat_eq_0)

lemma pop_spec:
  assumes "hub_ok s" "g_u32Len s \<noteq> 0"
  shows "hub_ok (snd (pop_head s)) \<and> hub_items s = fst (pop_head s) # hub_items (snd (pop_head s)) \<and> taken (snd (pop_head s)) = taken s + 1"
  using pop_head_items [OF assms] by (simp add: taken_def pop_head_def)

lemma exec_refines:
  assumes "hub_ok s" "hub_exec a s = (r, t)"
  shows "hub_ok t \<and> fifo_exec a (hub_items s) = (r, hub_items t) \<and> taken t = taken s + (if r = None then 0 else 1)"
proof (cases a)
  case (H_Push src pEv)
  then show ?thesis using assms enqueue_items [OF assms(1), of src] sane_ok [OF assms(1)]
    by (cases pEv) (auto simp: hub_exec_def fifo_exec_def session_input_push_from_def taken_def not_le split: if_splits)
next
  case (H_Poll fDev evs)
  then show ?thesis using assms poll_items [OF assms(1), of fDev evs] by (cases "session_input_poll fDev evs s") (auto simp: hub_exec_def fifo_exec_def)
next
  case (H_Pop fOut fDev evs)
  obtain rest u where u: "session_input_poll fDev evs s = (rest, u)" by fastforce
  note p = poll_items [OF assms(1) u]
  have su: "input_ring_sane u = (True, u)" using sane_ok p by blast
  show ?thesis
  proof (cases "fOut \<and> g_u32Len s = 0")
    case True
    then have q: "hub_items s = []" using len_items [OF assms(1)] by simp
    have k: "hub_ok u" "taken u = taken s" "hub_items u = (if fDev then newest GJ_INPUT_RING (take GJ_INPUT_POLL_MAX evs) else [])" using p q by auto
    show ?thesis
    proof (cases "g_u32Len u = 0")
      case z: True
      then have "hub_items u = []" using len_items [OF k(1)] by simp
      moreover have "r = None" "t = u" using assms(2) True z u su sane_ok [OF assms(1)] H_Pop by (auto simp: hub_exec_def session_input_pop_def Let_def)
      ultimately show ?thesis using k True q H_Pop by (auto simp: fifo_exec_def split: if_splits)
    next
      case z: False
      have "r = Some (fst (pop_head u))" "t = snd (pop_head u)" using assms(2) True z u su sane_ok [OF assms(1)] H_Pop by (auto simp: hub_exec_def session_input_pop_def Let_def)
      then show ?thesis using pop_spec [OF k(1) z] k True q H_Pop by (auto simp: fifo_exec_def split: if_splits)
    qed
  next
    case False
    then show ?thesis using assms sane_ok [OF assms(1)] pop_spec [OF assms(1)] len_items [OF assms(1)] H_Pop
      by (cases fOut) (auto simp: hub_exec_def fifo_exec_def session_input_pop_def split: list.splits)
  qed
next
  case H_Pending
  then show ?thesis using assms sane_ok [OF assms(1)] by (auto simp: hub_exec_def fifo_exec_def session_input_pending_def Let_def)
qed

lemma run_refines: "hub_ok s \<Longrightarrow> hub_run as s = (rs, t) \<Longrightarrow> hub_ok t \<and> fifo_run as (hub_items s) = (rs, hub_items t) \<and> taken t = taken s + of_nat (length rs)"
proof (induction as arbitrary: s rs t)
  case (Cons a as)
  obtain r u where u: "hub_exec a s = (r, u)" by fastforce
  obtain qs v where v: "hub_run as u = (qs, v)" by fastforce
  have e: "hub_ok u" "fifo_exec a (hub_items s) = (r, hub_items u)" "taken u = taken s + (if r = None then 0 else 1)" using exec_refines [OF Cons.prems(1) u] by auto
  have "rs = (case r of None \<Rightarrow> qs | Some ev \<Rightarrow> ev # qs)" "t = v" using Cons.prems(2) u v by (cases r; simp add: Let_def)+
  then show ?case using Cons.IH [OF e(1) v] e by (cases r) (auto simp: Let_def)
qed simp

lemma init_ok: "hub_ok (session_input_init fDev evs) \<and> hub_items (session_input_init fDev evs) = [] \<and> taken (session_input_init fDev evs) = 1"
proof -
  define s0 where "s0 = \<lparr>g_aRing = replicate GJ_INPUT_RING no_event, g_u32Head = 0, g_u32Len = 0, g_u32Pushed = 0, g_u32Dropped = 0, g_u32PeakPending = 0,
        g_u32PollBursts = 0, g_aPushedSrc = [0, 0], g_fReady = fDev\<rparr>"
  have s0: "hub_ok s0" "hub_items s0 = []" "taken s0 = 0" by (simp_all add: s0_def hub_ok_def hub_items_def taken_def)
  define as where "as = [H_Push GJ_INPUT_SRC_SOFT None, H_Push GJ_INPUT_SRC_MAX (Some lean_event), H_Pop False fDev evs, H_Push GJ_INPUT_SRC_SOFT (Some lean_event), H_Pop True fDev evs]"
  obtain rs t where t: "hub_run as s0 = (rs, t)" by fastforce
  have "session_input_init fDev evs = snd (hub_run as s0)"
    by (simp add: as_def session_input_init_def soft_residual_lean_once_def s0_def hub_exec_def Let_def split: prod.split option.split)
  then have i: "session_input_init fDev evs = t" using t by simp
  have "fifo_run as [] = ([lean_event], [])" by (simp add: as_def fifo_exec_def Let_def)
  then show ?thesis using run_refines [OF s0(1) t] s0(2,3) unfolding i by auto
qed

text \<open>
  C39: the ring is a queue of the newest 64 events.  Over every sequence of pushes, polls, pops and queries after initialisation the
  pops return, in order, what the same sequence returns on a list that keeps its newest 64 members, the ring holds what that list
  holds, and pushed events are dropped, pending or taken, with the event of the self-check counted as one taken.
\<close>

theorem input_hub_fifo:
  assumes "hub_run as (session_input_init fDev evs) = (rs, s)"
  shows "fifo_run as [] = (rs, hub_items s) \<and> fst (session_input_pending s) = of_nat (length (hub_items s)) \<and> length (hub_items s) \<le> GJ_INPUT_RING
    \<and> session_input_pushed s = session_input_dropped s + fst (session_input_pending s) + of_nat (length rs) + 1"
proof -
  note i = init_ok [of fDev evs]
  have r: "hub_ok s" "fifo_run as [] = (rs, hub_items s)" "taken s = 1 + of_nat (length rs)" using run_refines [of "session_input_init fDev evs" as rs s] assms i by auto
  have "g_u32Pushed s = g_u32Dropped s + g_u32Len s + of_nat (length rs) + 1" using r(3) by (simp add: taken_def algebra_simps)
  then show ?thesis using r(2) sane_ok [OF r(1)] hub.items_cap [OF r(1)]
    by (simp add: session_input_pending_def session_input_pushed_def session_input_dropped_def Let_def) (simp add: hub_items_def)
qed

definition hub_ops :: "hub_op list" where
  "hub_ops = [H_Push 1 (Some lean_event), H_Poll True [no_event, lean_event], H_Pop True True [], H_Pop True False []]"

theorem input_hub_fifo_witness:
  "hub_run hub_ops (session_input_init True []) = ([lean_event, no_event], snd (hub_run hub_ops (session_input_init True [])))
    \<and> hub_items (snd (hub_run hub_ops (session_input_init True []))) = [lean_event]"
proof -
  obtain rs s where s: "hub_run hub_ops (session_input_init True []) = (rs, s)" by fastforce
  have "fifo_run hub_ops [] = ([lean_event, no_event], [lean_event])" by (simp add: hub_ops_def fifo_exec_def Let_def)
  then show ?thesis using input_hub_fifo [OF s] s by simp
qed

end
