(* ===== verification/Coop.thy ===== *)
theory Coop
  imports GJ_Interfaces
begin

text \<open>
  The cooperative scheduler of the shared core, \<^verbatim>\<open>kernel/shared/sched_coop.c\<close>: eight threads on one processor, which run until they
  yield or exit.  The switch of stacks is the architecture's; a saved stack pointer stands for the context that was saved there, a
  new thread's is the frame that enters \<^verbatim>\<open>coop_trampoline\<close>.  An operation that switches returns the context the processor
  goes on with.  The self-test and its inventory are left out.
\<close>

section \<open>Operations\<close>

abbreviation (input) GJ_COOP_MAX_THR :: nat where "GJ_COOP_MAX_THR \<equiv> 8"

datatype gj_coop_state = GJ_COOP_UNUSED | GJ_COOP_RUNNABLE | GJ_COOP_RUNNING | GJ_COOP_EXITED

text \<open>No context, a fresh frame, or a point in the code of a thread.\<close>

datatype coop_ctx = Sp_Zero | Sp_Trampoline | Sp_At nat

record gj_coop_thr =
  ct_u8State :: gj_coop_state
  ct_u32Id :: u32
  ct_u64Sp :: coop_ctx
  ct_pfn :: "nat option"
  ct_pArg :: nat

definition no_coop_thr :: gj_coop_thr where
  "no_coop_thr = \<lparr>ct_u8State = GJ_COOP_UNUSED, ct_u32Id = 0, ct_u64Sp = Sp_Zero, ct_pfn = None, ct_pArg = 0\<rparr>"

record coop =
  co_aThr :: "gj_coop_thr list"
  co_u32Cur :: nat
  co_u32NextId :: u32
  co_fInited :: bool

definition upd_co :: "nat \<Rightarrow> (gj_coop_thr \<Rightarrow> gj_coop_thr) \<Rightarrow> coop \<Rightarrow> coop" where
  "upd_co i f s = s\<lparr>co_aThr := (co_aThr s)[i := f (co_aThr s ! i)]\<rparr>"

definition gj_coop_init :: coop where
  "gj_coop_init = \<lparr>co_aThr = (replicate GJ_COOP_MAX_THR no_coop_thr)[0 := no_coop_thr\<lparr>ct_u8State := GJ_COOP_RUNNING\<rparr>], co_u32Cur = 0, co_u32NextId = 1, co_fInited = True\<rparr>"

definition coop_slot :: "coop \<Rightarrow> nat option" where
  "coop_slot s = find (\<lambda>i. ct_u8State (co_aThr s ! i) = GJ_COOP_UNUSED \<or> ct_u8State (co_aThr s ! i) = GJ_COOP_EXITED) [1..<GJ_COOP_MAX_THR]"

definition gj_coop_create :: "nat option \<Rightarrow> nat \<Rightarrow> coop \<Rightarrow> u32 \<times> coop" where
  "gj_coop_create pfn pArg s =
     (if \<not> co_fInited s \<or> pfn = None then (0, s)
      else
        (case coop_slot s of
           None \<Rightarrow> (0, s)
         | Some i \<Rightarrow>
             (co_u32NextId s,
              upd_co i (\<lambda>_. \<lparr>ct_u8State = GJ_COOP_RUNNABLE, ct_u32Id = co_u32NextId s, ct_u64Sp = Sp_Trampoline, ct_pfn = pfn, ct_pArg = pArg\<rparr>)
                (s\<lparr>co_u32NextId := co_u32NextId s + 1\<rparr>))))"

definition coop_pick_next :: "coop \<Rightarrow> nat" where
  "coop_pick_next s =
     (case find (\<lambda>idx. ct_u8State (co_aThr s ! idx) = GJ_COOP_RUNNABLE) (map (\<lambda>i. (co_u32Cur s + i) mod GJ_COOP_MAX_THR) [1..<GJ_COOP_MAX_THR + 1]) of
        Some idx \<Rightarrow> idx
      | None \<Rightarrow>
          if ct_u8State (co_aThr s ! 0) = GJ_COOP_RUNNING \<or> ct_u8State (co_aThr s ! 0) = GJ_COOP_RUNNABLE then 0
          else co_u32Cur s)"

text \<open>\<open>ctx\<close> is the context of the caller.\<close>

definition gj_coop_yield :: "coop_ctx \<Rightarrow> coop \<Rightarrow> coop_ctx \<times> coop" where
  "gj_coop_yield ctx s =
     (if \<not> co_fInited s then (ctx, s)
      else
        (let u32Next = coop_pick_next s
         in if u32Next = co_u32Cur s then (ctx, s)
            else
              (let u32Old = co_u32Cur s;
                   s = (if ct_u8State (co_aThr s ! u32Old) = GJ_COOP_RUNNING then upd_co u32Old (\<lambda>p. p\<lparr>ct_u8State := GJ_COOP_RUNNABLE\<rparr>) s else s);
                   s = upd_co u32Next (\<lambda>p. p\<lparr>ct_u8State := GJ_COOP_RUNNING\<rparr>) s;
                   s = s\<lparr>co_u32Cur := u32Next\<rparr>;
                   new = ct_u64Sp (co_aThr s ! u32Next)
               in (new, upd_co u32Old (\<lambda>p. p\<lparr>ct_u64Sp := ctx\<rparr>) s))))"

text \<open>\<open>None\<close>: the loop for the last thread, which nothing ends.  (Not initialised, it returns to the caller.)\<close>

definition gj_coop_exit :: "coop_ctx \<Rightarrow> coop \<Rightarrow> (coop_ctx \<times> coop) option" where
  "gj_coop_exit ctx s =
     (if \<not> co_fInited s then Some (ctx, s)
      else
        (let s = upd_co (co_u32Cur s) (\<lambda>p. p\<lparr>ct_u8State := GJ_COOP_EXITED, ct_pfn := None\<rparr>) s;
             n = coop_pick_next s
         in if n = co_u32Cur s then None
            else
              (let s = s\<lparr>co_u32Cur := n\<rparr>;
                   s = upd_co n (\<lambda>p. p\<lparr>ct_u8State := GJ_COOP_RUNNING\<rparr>) s
               in Some (ct_u64Sp (co_aThr s ! n), s))))"

definition gj_coop_current_id :: "coop \<Rightarrow> u32" where
  "gj_coop_current_id s = (if \<not> co_fInited s then 0 else ct_u32Id (co_aThr s ! co_u32Cur s))"

section \<open>The system\<close>

text \<open>\<open>cs_last i\<close> is where thread \<open>i\<close> last stopped: the context of its last yield, or the fresh frame.\<close>

record coop_sys =
  cs_co :: coop
  cs_last :: "nat \<Rightarrow> coop_ctx"

datatype coop_action = C_Create "nat option" nat | C_Yield nat | C_Exit nat

text \<open>A step and, for a yield or an exit, the thread that runs next and the context it goes on with.\<close>

definition coop_act :: "coop_action \<Rightarrow> coop_sys \<Rightarrow> ((nat \<times> coop_ctx) list \<times> coop_sys) option" where
  "coop_act a s =
     (let co = cs_co s
      in case a of
           C_Create pfn pArg \<Rightarrow>
             Some ([], s\<lparr>cs_co := snd (gj_coop_create pfn pArg co),
                          cs_last := (if pfn = None then cs_last s else (case coop_slot co of None \<Rightarrow> cs_last s | Some i \<Rightarrow> (cs_last s)(i := Sp_Trampoline)))\<rparr>)
         | C_Yield k \<Rightarrow>
             (let r = gj_coop_yield (Sp_At k) co
              in Some ([(co_u32Cur (snd r), fst r)], \<lparr>cs_co = snd r, cs_last = (cs_last s)(co_u32Cur co := Sp_At k)\<rparr>))
         | C_Exit k \<Rightarrow>
             (case gj_coop_exit (Sp_At k) co of
                None \<Rightarrow> None
              | Some r \<Rightarrow> Some ([(co_u32Cur (snd r), fst r)], s\<lparr>cs_co := snd r\<rparr>)))"

fun coop_run :: "coop_action list \<Rightarrow> coop_sys \<Rightarrow> ((nat \<times> coop_ctx) list \<times> coop_sys) option" where
  "coop_run [] s = Some ([], s)"
| "coop_run (a # as) s =
     (case coop_act a s of
        None \<Rightarrow> None
      | Some r \<Rightarrow> (case coop_run as (snd r) of None \<Rightarrow> None | Some q \<Rightarrow> Some (fst r @ fst q, snd q)))"

definition coop_step :: "coop_sys \<Rightarrow> coop_sys \<Rightarrow> bool" where
  "coop_step s t \<longleftrightarrow> (\<exists>a tr. coop_act a s = Some (tr, t))"

definition coop_boot :: "coop_sys \<Rightarrow> bool" where
  "coop_boot s \<longleftrightarrow> cs_co s = gj_coop_init"

section \<open>Invariant\<close>

definition co_state :: "coop \<Rightarrow> nat \<Rightarrow> gj_coop_state" where
  "co_state s i = ct_u8State (co_aThr s ! i)"

text \<open>The current thread is the one that runs, and a thread that waits has its context saved.\<close>

definition coop_ok :: "coop_sys \<Rightarrow> bool" where
  "coop_ok s \<longleftrightarrow> length (co_aThr (cs_co s)) = GJ_COOP_MAX_THR \<and> co_u32Cur (cs_co s) < GJ_COOP_MAX_THR \<and> co_fInited (cs_co s)
     \<and> (\<forall>i < GJ_COOP_MAX_THR. (co_state (cs_co s) i = GJ_COOP_RUNNING \<longleftrightarrow> i = co_u32Cur (cs_co s))
          \<and> (co_state (cs_co s) i = GJ_COOP_RUNNABLE \<longrightarrow> ct_u64Sp (co_aThr (cs_co s) ! i) = cs_last s i))"

text \<open>How far ahead thread \<open>i\<close> is in the round, seen from thread \<open>c\<close>.\<close>

definition ahead :: "nat \<Rightarrow> nat \<Rightarrow> nat" where
  "ahead c i = (if c < i then i - c else i + GJ_COOP_MAX_THR - c)"

lemma round_at: "c < 8 \<Longrightarrow> k \<le> 8 \<Longrightarrow> (c + k) mod 8 = (if c + k < 8 then c + k else c + k - (8 :: nat))"
  by (simp add: mod_if)

lemma ahead_next:
  assumes "c < 8" "i < 8" "i \<noteq> c" "1 \<le> k" "k \<le> ahead c i" "n = (c + k) mod 8"
  shows "n = i \<or> ahead n i < ahead c i"
proof (cases "c < i")
  case True
  then have "k \<le> i - c" using assms(5) by (simp add: ahead_def)
  then have "n = c + k" using round_at [OF assms(1), of k] assms(2,6) True by simp
  then show ?thesis using \<open>k \<le> i - c\<close> True assms(4) by (auto simp: ahead_def)
next
  case False
  then have k: "k \<le> i + 8 - c" "i < c" using assms(3,5) by (simp_all add: ahead_def)
  then have "n = (if c + k < 8 then c + k else c + k - 8)" using round_at [OF assms(1), of k] assms(1,6) by simp
  then show ?thesis using k assms(1,4) by (auto simp: ahead_def)
qed

lemma pick_runnable:
  assumes "c = co_u32Cur s" "c < 8" "i < 8" "i \<noteq> c" "co_state s i = GJ_COOP_RUNNABLE"
  shows "let n = coop_pick_next s in n < 8 \<and> co_state s n = GJ_COOP_RUNNABLE \<and> (n = i \<or> ahead n i < ahead c i)"
proof -
  let ?xs = "map (\<lambda>k. (c + k) mod 8) [1..<9]" let ?P = "\<lambda>j. ct_u8State (co_aThr s ! j) = GJ_COOP_RUNNABLE"
  have d: "1 \<le> ahead c i" "ahead c i \<le> 7" "(c + ahead c i) mod 8 = i" using assms(2-4) by (auto simp: ahead_def round_at)
  then have "i \<in> set ?xs" by (auto intro!: image_eqI [of _ _ "ahead c i"])
  then obtain n where n: "find ?P ?xs = Some n" using assms(5) by (cases "find ?P ?xs") (auto simp: find_None_iff co_state_def)
  then obtain k where k: "k < 8" "?P n" "n = (c + (k + 1)) mod 8" "\<And>j. j < k \<Longrightarrow> \<not> ?P ((c + (j + 1)) mod 8)"
    unfolding find_Some_iff by (auto simp: add.commute)
  have "k + 1 \<le> ahead c i"
  proof (rule ccontr)
    assume "\<not> k + 1 \<le> ahead c i"
    then have "\<not> ?P ((c + (ahead c i - 1 + 1)) mod 8)" using k(4) [of "ahead c i - 1"] d(1) by simp
    then show False using d(1,3) assms(5) by (simp add: co_state_def)
  qed
  then have "n = i \<or> ahead n i < ahead c i" using ahead_next [OF assms(2-4) _ _ k(3)] by simp
  then show ?thesis using n k(2,3) assms(1) by (simp add: coop_pick_next_def co_state_def Let_def)
qed


text \<open>Without a thread that waits, the choice is the caller, or the boot thread if that is waiting or running.\<close>

lemma pick_cases:
  assumes "co_u32Cur s < 8"
  shows "coop_pick_next s < 8 \<and> (co_state s (coop_pick_next s) = GJ_COOP_RUNNABLE \<or> coop_pick_next s = co_u32Cur s \<or> coop_pick_next s = 0 \<and> co_state s 0 = GJ_COOP_RUNNING)"
proof (cases "\<exists>i < 8. i \<noteq> co_u32Cur s \<and> co_state s i = GJ_COOP_RUNNABLE")
  case True
  then show ?thesis using pick_runnable [OF refl assms] by (auto simp: Let_def)
next
  case False
  let ?xs = "map (\<lambda>k. (co_u32Cur s + k) mod 8) [1..<9]" let ?P = "\<lambda>j. ct_u8State (co_aThr s ! j) = GJ_COOP_RUNNABLE"
  show ?thesis
  proof (cases "find ?P ?xs")
    case None
    then show ?thesis using assms by (auto simp: coop_pick_next_def co_state_def)
  next
    case (Some n)
    then have "n < 8" "?P n" unfolding find_Some_iff by auto
    then show ?thesis using Some by (auto simp: coop_pick_next_def co_state_def)
  qed
qed

lemma upd_co_nth: "j < length (co_aThr s) \<Longrightarrow> co_aThr (upd_co i f s) ! j = (if j = i then f (co_aThr s ! j) else co_aThr s ! j)"
  by (simp add: upd_co_def nth_list_update)

lemma upd_co_eff [simp]: "co_u32Cur (upd_co i f s) = co_u32Cur s" "co_fInited (upd_co i f s) = co_fInited s" "length (co_aThr (upd_co i f s)) = length (co_aThr s)"
  by (simp_all add: upd_co_def)

text \<open>A yield in a state that satisfies the invariant: nothing, or a switch to another thread that waited.\<close>

lemma yield_cases:
  assumes "coop_ok s" "n = coop_pick_next (cs_co s)" "c = co_u32Cur (cs_co s)" "gj_coop_yield ctx (cs_co s) = (x, t)"
  obtains (stay) "n = c" "x = ctx" "t = cs_co s"
  | (switch) "n \<noteq> c" "n < 8" "co_state (cs_co s) n = GJ_COOP_RUNNABLE" "x = cs_last s n" "co_u32Cur t = n" "length (co_aThr t) = 8" "co_fInited t"
      "\<And>j. j < 8 \<Longrightarrow> co_aThr t ! j = (if j = n then (co_aThr (cs_co s) ! j)\<lparr>ct_u8State := GJ_COOP_RUNNING\<rparr>
        else if j = c then (co_aThr (cs_co s) ! j)\<lparr>ct_u8State := GJ_COOP_RUNNABLE, ct_u64Sp := ctx\<rparr> else co_aThr (cs_co s) ! j)"
proof (cases "n = c")
  case True
  then show ?thesis using assms by (intro stay) (auto simp: gj_coop_yield_def Let_def coop_ok_def)
next
  case False
  have o: "length (co_aThr (cs_co s)) = 8" "c < 8" "co_fInited (cs_co s)" "co_state (cs_co s) c = GJ_COOP_RUNNING" "\<And>i. i < 8 \<Longrightarrow> co_state (cs_co s) i = GJ_COOP_RUNNABLE \<Longrightarrow> ct_u64Sp (co_aThr (cs_co s) ! i) = cs_last s i"
    "\<And>i. i < 8 \<Longrightarrow> co_state (cs_co s) i = GJ_COOP_RUNNING \<longleftrightarrow> i = c" using assms(1,3) by (auto simp: coop_ok_def)
  have p: "n < 8" "co_state (cs_co s) n = GJ_COOP_RUNNABLE" using pick_cases [of "cs_co s"] o(2,6) False assms(2,3) by auto
  have t: "t = upd_co c (\<lambda>p. p\<lparr>ct_u64Sp := ctx\<rparr>) ((upd_co n (\<lambda>p. p\<lparr>ct_u8State := GJ_COOP_RUNNING\<rparr>) (upd_co c (\<lambda>p. p\<lparr>ct_u8State := GJ_COOP_RUNNABLE\<rparr>) (cs_co s)))\<lparr>co_u32Cur := n\<rparr>)"
    and x: "x = ct_u64Sp (co_aThr (upd_co n (\<lambda>p. p\<lparr>ct_u8State := GJ_COOP_RUNNING\<rparr>) (upd_co c (\<lambda>p. p\<lparr>ct_u8State := GJ_COOP_RUNNABLE\<rparr>) (cs_co s))) ! n)"
    using assms(2-4) False o(3,4) by (auto simp: gj_coop_yield_def Let_def co_state_def)
  show ?thesis by (rule switch) (use False p o(1,3,5) t x in \<open>auto simp: upd_co_nth\<close>)
qed

lemma exit_cases:
  assumes "coop_ok s" "c = co_u32Cur (cs_co s)" "gj_coop_exit ctx (cs_co s) = Some (x, t)"
  obtains n where "n \<noteq> c" "n < 8" "co_state (cs_co s) n = GJ_COOP_RUNNABLE" "x = cs_last s n" "co_u32Cur t = n" "length (co_aThr t) = 8" "co_fInited t"
      "n = coop_pick_next (upd_co c (\<lambda>p. p\<lparr>ct_u8State := GJ_COOP_EXITED, ct_pfn := None\<rparr>) (cs_co s))"
      "\<And>j. j < 8 \<Longrightarrow> co_aThr t ! j = (if j = n then (co_aThr (cs_co s) ! j)\<lparr>ct_u8State := GJ_COOP_RUNNING\<rparr>
        else if j = c then (co_aThr (cs_co s) ! j)\<lparr>ct_u8State := GJ_COOP_EXITED, ct_pfn := None\<rparr> else co_aThr (cs_co s) ! j)"
proof -
  let ?e = "upd_co c (\<lambda>p. p\<lparr>ct_u8State := GJ_COOP_EXITED, ct_pfn := None\<rparr>) (cs_co s)" let ?n = "coop_pick_next ?e"
  have o: "length (co_aThr (cs_co s)) = 8" "c < 8" "co_fInited (cs_co s)" "\<And>i. i < 8 \<Longrightarrow> co_state (cs_co s) i = GJ_COOP_RUNNABLE \<Longrightarrow> ct_u64Sp (co_aThr (cs_co s) ! i) = cs_last s i"
    "\<And>i. i < 8 \<Longrightarrow> co_state (cs_co s) i = GJ_COOP_RUNNING \<longleftrightarrow> i = c" using assms(1,2) by (auto simp: coop_ok_def)
  have n: "?n \<noteq> c" and t: "t = upd_co ?n (\<lambda>p. p\<lparr>ct_u8State := GJ_COOP_RUNNING\<rparr>) (?e\<lparr>co_u32Cur := ?n\<rparr>)" and x: "x = ct_u64Sp (co_aThr t ! ?n)"
    using assms(2,3) o(3) by (auto simp: gj_coop_exit_def Let_def split: if_splits)
  have e: "co_state ?e i = (if i = c then GJ_COOP_EXITED else co_state (cs_co s) i)" if "i < 8" for i using that o(1) by (simp add: co_state_def upd_co_nth)
  have p: "?n < 8" "co_state (cs_co s) ?n = GJ_COOP_RUNNABLE" using pick_cases [of ?e] e [of ?n] e [of 0] o(2) o(5) [of 0] n assms(2) by (auto split: if_splits)
  show thesis by (rule that [OF n p]) (use n p o(1,3,4) t x in \<open>auto simp: upd_co_nth\<close>)
qed


lemma create_cases:
  assumes "coop_ok s" "coop_act (C_Create pfn pArg) s = Some (tr, t)"
  obtains (none) "tr = []" "t = s"
  | (slot) i where "tr = []" "i < 8" "co_state (cs_co s) i = GJ_COOP_UNUSED \<or> co_state (cs_co s) i = GJ_COOP_EXITED" "cs_last t = (cs_last s)(i := Sp_Trampoline)"
      "co_u32Cur (cs_co t) = co_u32Cur (cs_co s)" "length (co_aThr (cs_co t)) = 8" "co_fInited (cs_co t)"
      "\<And>j. j < 8 \<Longrightarrow> j \<noteq> i \<Longrightarrow> co_aThr (cs_co t) ! j = co_aThr (cs_co s) ! j" "co_state (cs_co t) i = GJ_COOP_RUNNABLE" "ct_u64Sp (co_aThr (cs_co t) ! i) = Sp_Trampoline"
proof (cases "pfn = None \<or> coop_slot (cs_co s) = None")
  case True
  then show ?thesis using assms by (intro none) (auto simp: coop_act_def gj_coop_create_def Let_def coop_ok_def)
next
  case False
  then obtain i f where i: "coop_slot (cs_co s) = Some i" "pfn = Some f" by auto
  have o: "length (co_aThr (cs_co s)) = 8" "co_fInited (cs_co s)" using assms(1) by (auto simp: coop_ok_def)
  have l: "i < 8" "co_state (cs_co s) i = GJ_COOP_UNUSED \<or> co_state (cs_co s) i = GJ_COOP_EXITED" using i(1) unfolding coop_slot_def find_Some_iff by (auto simp: co_state_def)
  show ?thesis by (rule slot [of i]) (use assms(2) i l o in \<open>auto simp: coop_act_def gj_coop_create_def Let_def co_state_def upd_co_def\<close>)
qed

lemma coop_keeps:
  assumes "coop_ok s" "coop_act a s = Some (tr, t)"
  shows "coop_ok t"
proof -
  let ?co = "cs_co s" let ?c = "co_u32Cur ?co"
  have o: "length (co_aThr ?co) = 8" "?c < 8" "co_fInited ?co" "\<And>i. i < 8 \<Longrightarrow> co_state ?co i = GJ_COOP_RUNNABLE \<Longrightarrow> ct_u64Sp (co_aThr ?co ! i) = cs_last s i"
    "\<And>i. i < 8 \<Longrightarrow> co_state ?co i = GJ_COOP_RUNNING \<longleftrightarrow> i = ?c" using assms(1) by (auto simp: coop_ok_def)
  show ?thesis
  proof (cases a)
    case (C_Create pfn pArg)
    from assms(1) assms(2) [unfolded C_Create] show ?thesis
    proof (cases rule: create_cases)
      case (slot i)
      have st: "co_state (cs_co t) j = (if j = i then GJ_COOP_RUNNABLE else co_state ?co j)" if "j < 8" for j using slot(8) [OF that] slot(9) by (simp add: co_state_def)
      have "i \<noteq> ?c" using slot(3) o(5) [OF o(2)] by auto
      then have "(co_state (cs_co t) j = GJ_COOP_RUNNING \<longleftrightarrow> j = ?c) \<and> (co_state (cs_co t) j = GJ_COOP_RUNNABLE \<longrightarrow> ct_u64Sp (co_aThr (cs_co t) ! j) = cs_last t j)" if "j < 8" for j
        using o(4,5) [OF that] st [OF that] slot(4,10) slot(8) [OF that] by (cases "j = i") auto
      then show ?thesis using slot(5-7) o(2) by (simp add: coop_ok_def)
    qed (use assms(1) in simp)
  next
    case (C_Yield k)
    obtain x u where u: "gj_coop_yield (Sp_At k) ?co = (x, u)" by fastforce
    then have t: "t = \<lparr>cs_co = u, cs_last = (cs_last s)(?c := Sp_At k)\<rparr>" using assms(2) C_Yield by (simp add: coop_act_def Let_def)
    from assms(1) refl refl u show ?thesis
    proof (cases rule: yield_cases)
      case stay
      have "co_state ?co ?c \<noteq> GJ_COOP_RUNNABLE" using o(5) [OF o(2)] by auto
      then show ?thesis using stay o t by (auto simp: coop_ok_def)
    next
      case switch
      have "co_state u j = (if j = coop_pick_next ?co then GJ_COOP_RUNNING else if j = ?c then GJ_COOP_RUNNABLE else co_state ?co j)" if "j < 8" for j
        using switch(8) [OF that] by (simp add: co_state_def)
      then show ?thesis using switch(1,2,5-8) o(4,5) by (auto simp: coop_ok_def t)
    qed
  next
    case (C_Exit k)
    obtain x u where u: "gj_coop_exit (Sp_At k) ?co = Some (x, u)" "t = s\<lparr>cs_co := u\<rparr>" using assms(2) C_Exit by (auto simp: coop_act_def Let_def split: option.splits)
    from assms(1) refl u(1) obtain n where n: "n \<noteq> ?c" "n < 8" "co_u32Cur u = n" "length (co_aThr u) = 8" "co_fInited u"
      "\<And>j. j < 8 \<Longrightarrow> co_aThr u ! j = (if j = n then (co_aThr ?co ! j)\<lparr>ct_u8State := GJ_COOP_RUNNING\<rparr>
        else if j = ?c then (co_aThr ?co ! j)\<lparr>ct_u8State := GJ_COOP_EXITED, ct_pfn := None\<rparr> else co_aThr ?co ! j)" by (rule exit_cases) blast
    have "co_state u j = (if j = n then GJ_COOP_RUNNING else if j = ?c then GJ_COOP_EXITED else co_state ?co j)" if "j < 8" for j
      using n(6) [OF that] by (simp add: co_state_def)
    then show ?thesis using n o(4,5) by (auto simp: coop_ok_def u(2))
  qed
qed

lemma boot_coop_ok: "coop_boot s \<Longrightarrow> coop_ok s"
proof -
  assume "coop_boot s"
  moreover have "co_state gj_coop_init i = (if i = 0 then GJ_COOP_RUNNING else GJ_COOP_UNUSED)" if "i < 8" for i
    using that by (simp add: co_state_def gj_coop_init_def no_coop_thr_def nth_list_update)
  ultimately show ?thesis by (simp add: coop_boot_def coop_ok_def) (simp add: gj_coop_init_def)
qed

interpretation coop: inv_system coop_step coop_ok coop_boot
  by unfold_locales (auto simp: coop_step_def boot_coop_ok intro: coop_keeps)

section \<open>The round\<close>

text \<open>A step of another thread leaves a waiting thread where it is or brings its turn nearer.\<close>

lemma coop_nearer:
  assumes "coop_ok s" "coop_act a s = Some (tr, t)" "i < 8" "co_state (cs_co s) i = GJ_COOP_RUNNABLE"
  shows "tr = [(i, cs_last s i)]
    \<or> co_state (cs_co t) i = GJ_COOP_RUNNABLE \<and> cs_last t i = cs_last s i \<and> (\<forall>(j, x) \<in> set tr. j \<noteq> i)
      \<and> ahead (co_u32Cur (cs_co t)) i + length tr \<le> ahead (co_u32Cur (cs_co s)) i"
proof -
  let ?co = "cs_co s" let ?c = "co_u32Cur ?co"
  have c: "?c < 8" "i \<noteq> ?c" "length (co_aThr ?co) = 8" using assms(1,3,4) by (auto simp: coop_ok_def)
  show ?thesis
  proof (cases a)
    case (C_Create pfn pArg)
    from assms(1) assms(2) [unfolded C_Create] show ?thesis
    proof (cases rule: create_cases)
      case (slot k)
      then have "i \<noteq> k" using assms(4) by auto
      then show ?thesis using slot(1,4,5) slot(8) [OF assms(3)] assms(4) by (simp add: co_state_def)
    qed (use assms(4) in simp)
  next
    case (C_Yield k)
    obtain x u where u: "gj_coop_yield (Sp_At k) ?co = (x, u)" by fastforce
    then have t: "t = \<lparr>cs_co = u, cs_last = (cs_last s)(?c := Sp_At k)\<rparr>" "tr = [(co_u32Cur u, x)]" using assms(2) C_Yield by (simp_all add: coop_act_def Let_def)
    note p = pick_runnable [OF refl c(1) assms(3) c(2) assms(4), unfolded Let_def]
    from assms(1) refl refl u show ?thesis
    proof (cases rule: yield_cases)
      case stay
      have "co_state ?co ?c = GJ_COOP_RUNNABLE" using p unfolding stay(1) by blast
      then show ?thesis using assms(1) c(1) by (auto simp: coop_ok_def)
    next
      case switch
      show ?thesis
      proof (cases "coop_pick_next ?co = i")
        case True
        then show ?thesis using switch(4,5) t by auto
      next
        case False
        then have "ahead (coop_pick_next ?co) i < ahead ?c i" using p by blast
        then show ?thesis using False switch(5) switch(8) [OF assms(3)] assms(4) c(2) t by (auto simp: co_state_def)
      qed
    qed
  next
    case (C_Exit k)
    obtain x u where u: "gj_coop_exit (Sp_At k) ?co = Some (x, u)" "t = s\<lparr>cs_co := u\<rparr>" "tr = [(co_u32Cur u, x)]" using assms(2) C_Exit by (auto simp: coop_act_def Let_def split: option.splits)
    let ?e = "upd_co ?c (\<lambda>p. p\<lparr>ct_u8State := GJ_COOP_EXITED, ct_pfn := None\<rparr>) ?co"
    have e: "co_state ?e i = GJ_COOP_RUNNABLE" using assms(3,4) c by (simp add: co_state_def upd_co_nth)
    note p = pick_runnable [of ?c ?e, OF _ c(1) assms(3) c(2) e, unfolded Let_def]
    from assms(1) refl u(1) obtain n where n: "x = cs_last s n" "co_u32Cur u = n" "n = coop_pick_next ?e"
      "\<And>j. j < 8 \<Longrightarrow> co_aThr u ! j = (if j = n then (co_aThr ?co ! j)\<lparr>ct_u8State := GJ_COOP_RUNNING\<rparr>
        else if j = ?c then (co_aThr ?co ! j)\<lparr>ct_u8State := GJ_COOP_EXITED, ct_pfn := None\<rparr> else co_aThr ?co ! j)" by (rule exit_cases) blast
    show ?thesis
    proof (cases "n = i")
      case True
      then show ?thesis using n(1,2) u by auto
    next
      case False
      then have "ahead n i < ahead ?c i" using p n(3) by simp
      then show ?thesis using False n(2) n(4) [OF assms(3)] assms(4) c(2) u by (auto simp: co_state_def)
    qed
  qed
qed

lemma coop_turn:
  "coop_ok s \<Longrightarrow> coop_run as s = Some (tr, u) \<Longrightarrow> i < 8 \<Longrightarrow> co_state (cs_co s) i = GJ_COOP_RUNNABLE \<Longrightarrow> ahead (co_u32Cur (cs_co s)) i \<le> length tr
    \<Longrightarrow> find (\<lambda>(j, x). j = i) tr = Some (i, cs_last s i)"
proof (induction as arbitrary: s tr)
  case Nil
  then show ?case by (auto simp: ahead_def coop_ok_def split: if_splits)
next
  case (Cons a as)
  obtain t1 t t2 where x: "coop_act a s = Some (t1, t)" "coop_run as t = Some (t2, u)" "tr = t1 @ t2" using Cons.prems(2) by (auto split: option.splits)
  consider "t1 = [(i, cs_last s i)]" | "co_state (cs_co t) i = GJ_COOP_RUNNABLE" "cs_last t i = cs_last s i" "\<forall>(j, x) \<in> set t1. j \<noteq> i"
      "ahead (co_u32Cur (cs_co t)) i + length t1 \<le> ahead (co_u32Cur (cs_co s)) i"
    using coop_nearer [OF Cons.prems(1) x(1) Cons.prems(3,4)] by blast
  then show ?case
  proof cases
    case 2
    have "find (\<lambda>(j, x). j = i) t2 = Some (i, cs_last t i)"
      by (rule Cons.IH [OF coop_keeps [OF Cons.prems(1) x(1)] x(2) Cons.prems(3) 2(1)]) (use 2(4) Cons.prems(5) x(3) in simp)
    moreover have "find (\<lambda>(j, x). j = i) (t1 @ t2) = find (\<lambda>(j, x). j = i) t2" using 2(3) by (induction t1) auto
    ultimately show ?thesis using 2(2) x(3) by simp
  qed (simp add: x(3))
qed

text \<open>
  C40: every thread gets its turn.  In every reachable state of the cooperative scheduler exactly one thread runs, the current one; and a
  thread that waits runs at the latest when the threads have yielded or exited seven times, whatever else they
  do in between, and goes on where it last stopped, or enters its function if it never ran.
\<close>

theorem coop_round_robin:
  assumes "reach coop_boot coop_step s" "i < GJ_COOP_MAX_THR"
  shows "(ct_u8State (co_aThr (cs_co s) ! i) = GJ_COOP_RUNNING \<longleftrightarrow> i = co_u32Cur (cs_co s))
    \<and> (ct_u8State (co_aThr (cs_co s) ! i) = GJ_COOP_RUNNABLE \<and> coop_run as s = Some (tr, u) \<and> 7 \<le> length tr \<longrightarrow> find (\<lambda>(j, x). j = i) tr = Some (i, cs_last s i))"
proof -
  have o: "coop_ok s" by (rule coop.reach_holds [OF assms(1)])
  have "ahead (co_u32Cur (cs_co s)) i \<le> 7" if "co_state (cs_co s) i = GJ_COOP_RUNNABLE" using o that assms(2) by (auto simp: ahead_def coop_ok_def)
  then show ?thesis using coop_turn [OF o _ assms(2), of as tr u] o assms(2) by (auto simp: coop_ok_def co_state_def)
qed

definition coop_wit :: coop_sys where
  "coop_wit = \<lparr>cs_co = gj_coop_init, cs_last = (\<lambda>_. Sp_Zero)\<rparr>"

definition coop_wit1 :: coop_sys where
  "coop_wit1 = snd (the (coop_act (C_Create (Some 5) 9) coop_wit))"

definition coop_acts :: "coop_action list" where
  "coop_acts = [C_Yield 1, C_Yield 2, C_Yield 3, C_Yield 4, C_Yield 5, C_Yield 6, C_Yield 7]"

definition switches :: "(nat \<times> coop_ctx) list \<times> coop_sys \<Rightarrow> nat" where
  "switches r = length (fst r)"

lemma coop_wit_run: "map_option switches (coop_run coop_acts coop_wit1) = Some 7"
  by code_simp

theorem coop_round_robin_witness:
  "ct_u8State (co_aThr (cs_co coop_wit1) ! 1) = GJ_COOP_RUNNABLE \<and> find (\<lambda>(j, x). j = 1) (fst (the (coop_run coop_acts coop_wit1))) = Some (1, Sp_Trampoline)"
proof -
  obtain tr u where r: "coop_run coop_acts coop_wit1 = Some (tr, u)" "length tr = 7" using coop_wit_run by (auto simp: switches_def)
  have s: "ct_u8State (co_aThr (cs_co coop_wit1) ! 1) = GJ_COOP_RUNNABLE" "cs_last coop_wit1 1 = Sp_Trampoline" by code_simp+
  have "coop_act (C_Create (Some 5) 9) coop_wit = Some ([], coop_wit1)" by (simp add: coop_wit1_def coop_act_def Let_def)
  then have "reach coop_boot coop_step coop_wit1" using reach_step [OF reach_init [of coop_boot coop_wit coop_step], of coop_wit1] unfolding coop_step_def by (auto simp: coop_boot_def coop_wit_def)
  from coop_round_robin [OF this, of 1 coop_acts tr u] show ?thesis using r s by simp
qed

end
