(* ===== verification/Spec2Isabelle.thy ===== *)
theory Spec2Isabelle
  imports Cap_Revoke_Props Cap_Revoke_Race Cap_Cdt_Heap File_Lock_Props User_Copy Pmm_Core Kheap_Props Futex_Props Notify_Props Sched_Fair Door_Props Input_Hub Coop
begin

text \<open>
  A verification development for the GreenJade kernel.

  \<^bold>\<open>The program.\<close>  GreenJade is a capability kernel in C.  Every kernel object starts with a header
  (\<^verbatim>\<open>struct gj_obj_hdr\<close>); processes name objects through slots of capability nodes (CNodes), slots are
  charged to quota accounts, derived slots are linked to their object by derivation edges, and an
  object dies by revocation, which makes every handle stale at once and clears the slots later.
  Threads block on kernel objects and are woken through them; futexes, notifications, doors (synchronous
  calls from a client to a server thread) and record locks are built on that, and a scheduler without preemption inside the kernel shares the threads between the
  processors.  User memory is reached through checked copies.  Physical pages are kept on lists per
  size and zone threaded through the free pages themselves; the kernel heap cuts its blocks from them.  An input hub
  queues device events for the session, and a core shared with other architectures has a cooperative scheduler of its own.

  \<^bold>\<open>Theories.\<close>
  \<^item> \<^verbatim>\<open>GJ_Prelude\<close>: word types, pointers, status codes (\<^verbatim>\<open>gj/types.h\<close>, \<^verbatim>\<open>gj/error.h\<close>), shared lemmas.
  \<^item> \<^verbatim>\<open>GJ_Interfaces\<close>: contracts as locales.  \<open>pool\<close> is an allocator of a fixed finite set, interpreted
    on the derivation-edge pool and on the page free list; \<open>newest_queue\<close> is a queue that keeps its newest members,
    interpreted on the input ring; \<open>page_source\<close> (in
    \<^verbatim>\<open>Pmm_Alloc\<close>) is a source of single pages on which requests for runs rest, interpreted on both zones.  \<open>kept\<close> and \<open>inv_system\<close> are transition systems with an invariant, interpreted on the
    capability tables, on concurrent revokers, on record locks, futexes, notifications, doors, on the clients
    of the memory manager, the heap, the scheduler and the cooperative scheduler.
  \<^item> \<^verbatim>\<open>Cap_Quota\<close>, \<^verbatim>\<open>Cap_Cnode\<close>: \<^verbatim>\<open>kernel/cap/cnode.c\<close>, the quota ledger, headers, CNodes, slots and
    edges, one definition per C function on an explicit store (\<open>cap_state\<close>).  \<^verbatim>\<open>Cap_Inv\<close> holds the
    invariants and the abstract binding map, \<^verbatim>\<open>Cap_Props\<close> the table invariant, confinement of authority
    and the refinement of mint, copy, move and delete, \<^verbatim>\<open>Cap_Cdt\<close> the soundness of derivation edges,
    \<^verbatim>\<open>Cap_Cdt_Heap\<close> the pointer loops over \<^verbatim>\<open>pNext\<close> and their refinement to lists.
  \<^item> \<^verbatim>\<open>Cap_Revoke\<close>, \<^verbatim>\<open>Cap_Revoke_Props\<close>: \<^verbatim>\<open>kernel/cap/revoke.c\<close>, the step to DEAD, the queue, the edge walk
    under CNode try-locks, the deferred driver and reclaim.  \<^verbatim>\<open>Cap_Revoke_Race\<close> interleaves concurrent
    revokers access by access.
  \<^item> \<^verbatim>\<open>File_Lock\<close>, \<^verbatim>\<open>File_Lock_Lemmas\<close>, \<^verbatim>\<open>File_Lock_Props\<close>: \<^verbatim>\<open>kernel/fs/file_lock.c\<close>, the lock and waiter
    tables, conflict, carving, coalescing, the blocking loop, release and deadlock detection.
  \<^item> \<^verbatim>\<open>User_Copy\<close>: \<^verbatim>\<open>kernel/mm/user_copy.c\<close>, range and page checks, chunked copies, scalar access.
  \<^item> \<^verbatim>\<open>Pmm_Core\<close>: \<^verbatim>\<open>kernel/shared/pmm_freelist.c\<close>, the page free list.
  \<^item> \<^verbatim>\<open>Pmm\<close>: \<^verbatim>\<open>kernel/mm/pmm.c\<close>, the memory manager: zones, order lists in the free pages, splitting, the boot
    map, deferred high memory, runs of pages.  \<^verbatim>\<open>Pmm_Lemmas\<close> has its invariant, \<^verbatim>\<open>Pmm_Alloc\<close> and \<^verbatim>\<open>Pmm_Init\<close> what
    requests and boot do to it, \<^verbatim>\<open>Pmm_Props\<close> the properties.
  \<^item> \<^verbatim>\<open>Kheap\<close>, \<^verbatim>\<open>Kheap_Lemmas\<close>, \<^verbatim>\<open>Kheap_Props\<close>: \<^verbatim>\<open>kernel/mm/kheap.c\<close>, the heap over the memory manager, with block
    headers and payload bytes in one address space.
  \<^item> \<^verbatim>\<open>Sched\<close>: \<^verbatim>\<open>kernel/sched/thread.c\<close>, thread table, creation and exit, classes, affinity, the choice of the next
    thread and the switch; a call of \<^verbatim>\<open>schedule\<close> is split at \<^verbatim>\<open>switch_context\<close>.  \<^verbatim>\<open>Sched_Sys\<close> makes it a system
    of processors, \<^verbatim>\<open>Sched_Props\<close> has exclusion and the choice, \<^verbatim>\<open>Sched_Fair\<close> waiting, context, the end of
    processes and ranges.
  \<^item> \<^verbatim>\<open>Thread_Block\<close>: \<^verbatim>\<open>thread_block\<close> and \<^verbatim>\<open>thread_wake\<close> of \<^verbatim>\<open>kernel/sched/thread.c\<close>, with the exact number of
    threads a wake takes.
  \<^item> \<^verbatim>\<open>Futex\<close>, \<^verbatim>\<open>Futex_Lemmas\<close>, \<^verbatim>\<open>Futex_Props\<close>: \<^verbatim>\<open>kernel/sync/futex.c\<close>, keys, waiter table, wait (split at the
    call of the scheduler), wake, timer, robust lists and thread exit; the properties also let whole processes end, with the
    scrub of \<^verbatim>\<open>Sched\<close>.
  \<^item> \<^verbatim>\<open>Notify\<close>, \<^verbatim>\<open>Notify_Inv\<close>, \<^verbatim>\<open>Notify_Props\<close>: \<^verbatim>\<open>kernel/ipc/notify.c\<close>, the handlers as they run alone and
    wait, pulse and teardown as interleaved programs of atomic accesses, over the capability layer and
    the threads.
  \<^item> \<^verbatim>\<open>Door\<close>: \<^verbatim>\<open>kernel/ipc/door.c\<close>, doors and the table of reply rights over the capability layer and the
    threads; a call and a receive are split where they call the scheduler.  \<^verbatim>\<open>Door_Sys\<close> gives the effect of each
    operation and makes it a system of clients and servers whose threads may end and be replaced, \<^verbatim>\<open>Door_Inv\<close> and
    \<^verbatim>\<open>Door_Keep\<close> have its invariant, \<^verbatim>\<open>Door_Wake\<close> who is awake, \<^verbatim>\<open>Door_Own\<close> whose reply is whose, \<^verbatim>\<open>Door_Props\<close> the
    properties.
  \<^item> \<^verbatim>\<open>Input_Hub\<close>: \<^verbatim>\<open>kernel/session/input_hub.c\<close>, the ring of input events with its repair, poll, push and pop; the
    device is an argument.
  \<^item> \<^verbatim>\<open>Coop\<close>: \<^verbatim>\<open>kernel/shared/sched_coop.c\<close>, the scheduler of the shared core, with saved contexts in place of stacks.

  \<^bold>\<open>Correspondence.\<close>  A C structure is a record with the prefix of its type, in the field order of the
  header; a table is a list of its C length, a pointer to a kernel structure is \<open>None\<close> or \<open>Some\<close> of an
  address in the store of its type.  Fields that wrap are words of their width.  A status result with an
  output parameter is a sum; every early return is a branch.  Names are those of the source; loop
  bodies have a name of their own and map to the lines of the loop.

  \<^bold>\<open>What the lemmas show.\<close>  Capabilities: no operation invents authority, slot counts agree with the slots and the
  quota ledger is consistent, revocation is final and of concurrent revokers exactly one wins, an object is reclaimed only
  when nothing refers to it.  Record locks: mutual exclusion over every interleaving of critical sections, exact grants, exact
  unlocks, coalescing that leaves nothing to merge and changes nothing held, and a deadlock probe that is sound, and complete up
  to its depth where each process waits for one process.  User copies touch exactly the checked range.  The
  page list hands out every page once.  The memory manager partitions the usable pages of the boot map, those outside the kernel image
  and media range it was given, into free and handed out as long as clients free only what they were given; it answers with
  runs of adjacent pages or not at all, single-page requests fail only when no page of their zone is free, and runs of 257
  to 511 pages are always refused.  Heap blocks are disjoint, zeroed and
  within pages of the heap, and the counters are exact; requests near the end of the address range wrap.
  The scheduler picks by class and waiting time, passes a ready thread over a bounded number of times,
  keeps the return target of each thread, stops threads that were in a system call when their process died, and runs no
  thread twice under a discipline on slots and affinity that the code does not enforce; without it a wake before the switch or
  the recycling of a slot gives a double run (\<^verbatim>\<open>Sched_Fair\<close>).  Futexes and notifications lose no wake-up: a futex wake reaches a
  waiter when its count covers the matching slots before it, a sleeping thread always has its slot, but a thread ended with its
  process leaves a stale slot that can swallow a wake of one; notifications within the bound of eight waiters, and a ninth
  waiter can be lost.  A waiter on a notification is given exactly the bits it took.  A door serves one call at a time, the
  client of a call without a deadline sleeps exactly until there is a reply or the door is dead (a deadline wakes nobody once the
  client sleeps), and each call gets its own reply as long
  as servers answer what they took and no served client is ended; once a served client is ended the next call gets
  whatever any thread replies, and a ninth door can hold a caller in the kernel for ever.  The wakes of a thread's end are an
  instance of the argument the scheduler's exit takes.  The input ring is a queue of the newest 64 events, and its counters add
  up.  In the cooperative scheduler one thread runs, every waiting thread gets its turn within seven switches and goes on where
  it stopped.

  \<^bold>\<open>Loops and bounds.\<close>  Table scans recurse on the list of indices the C loop visits.  The pointer loops of
  \<^verbatim>\<open>Cap_Cdt_Heap\<close> and the loops of \<^verbatim>\<open>Pmm_Core\<close> are partial functions into \<open>option\<close>; on every
  well-formed store they are proved to return.  \<^verbatim>\<open>set_loop\<close> of the record locks takes the number of
  wait rounds the environment grants; a non-blocking request is proved to finish in its first round and
  a blocking one in the round after the environment leaves nothing that blocks it.  The coalescing passes
  (32), the robust-list walk (64 entries), the drain rounds (4) and the walk budgets are the limits of
  the code and are proved sufficient where the code relies on them.  Physical addresses have at most 52
  bits, as on the hardware; the memory manager keeps at most 64 deferred regions and holds at most 256
  pages in a scan, and the heap arguments assume at most \<open>2 ^ 34\<close> pages; its search loop returns in its second
  round.  The scheduler has 16 processors and 32 threads; waiting times are compared within \<open>2 ^ 32\<close> picks.  The table of
  reply rights has eight slots, and the door properties other than the last hold for up to eight doors; the claim loop of a
  call is a partial function, proved to return for them and proved not to for a ninth door with a dead owner.
  The input ring has 64 entries and a poll takes at most 256 events; the cooperative scheduler has eight threads.

  \<^bold>\<open>Environment.\<close>  Scheduling is the choice of the next step.  \<^verbatim>\<open>thread_block\<close>, \<^verbatim>\<open>thread_wake\<close> and critical
  sections under a lock are single steps.  In \<^verbatim>\<open>Notify\<close> only the threads in a given set block on the
  notification; the rest of the kernel may do anything that leaves the notification and the threads
  parked on it alone.  In \<^verbatim>\<open>Futex_Props\<close> it may also end the threads of a process, sleeping ones included.  In \<^verbatim>\<open>Sched\<close> a step of a processor is a call from the code of its thread; processes
  may die or change their page tables at any time, system calls overwrite the return target of the
  processor, and the wakes of \<^verbatim>\<open>door_on_thread_exit\<close> are an argument, which \<^verbatim>\<open>Door_Sys\<close> supplies.  In the door system kernel
  code runs in one piece up to its call of the scheduler, threads come back when they are ready, and whatever else
  threads block on is no door of the system.  The kernel's page-table root is
  set before threads run.

  \<^bold>\<open>Not modelled.\<close>  Diagnostic counters, inventory logs and boot self-tests (\<^verbatim>\<open>*_soft_*\<close>) of the modelled
  files, which do not influence results; memory ordering weaker than interleaving; the stacks
  themselves and the assembly of \<^verbatim>\<open>switch_context\<close>, page-table hardware.  Memory objects rest on the page
  tables; processes and loaders, the system call layer, file systems, network stack and device drivers marshal
  data between the modelled components and hardware or image formats, and were not reached.  Boot code and user
  programs are sequences of calls and output.
\<close>

end
